(* ===== verification/Cove_Prelude.thy ===== *)
theory Cove_Prelude
  imports Main "HOL-Library.Word"
begin

text \<open>
  Prelude of the COVE development: the outcome type of a Rust call, the
  combinators the components are written with, and the lemmas about byte
  ranges and little-endian words that every wire format uses.

  A Rust function that returns \<^verbatim>\<open>Result<T, CoveError>\<close> is modelled by
  \<open>'e exit + 'a\<close>: \<open>Inr v\<close> is \<^verbatim>\<open>Ok(v)\<close>, \<open>Inl (Err e)\<close> is
  \<^verbatim>\<open>Err(e)\<close>, and \<open>Inl Panic\<close> is a panic (an index or a slice out of
  range), so that the absence of panics can be stated and proved.
  \<^verbatim>\<open>usize\<close> is a natural number below \<open>usize_limit\<close> (a 64-bit target);
  \<^verbatim>\<open>checked_add\<close> and \<^verbatim>\<open>checked_mul\<close> fail at that limit.
\<close>

unbundle bit_operations_syntax

named_theorems wire_simps \<open>rewrite rules for byte ranges and fixed layouts\<close>
named_theorems ok_iffs \<open>when a call returns a value: inversion of the combinators\<close>
named_theorems no_panic_intros \<open>introduction rules for the absence of panics\<close>

section \<open>Types of the model\<close>

type_synonym u8 = "8 word"
type_synonym u16 = "16 word"
type_synonym u32 = "32 word"
type_synonym u64 = "64 word"
type_synonym u128 = "128 word"
type_synonym i64 = "64 word"
type_synonym bytes = "8 word list"

section \<open>Outcomes of a call\<close>

datatype 'e exit = Err 'e | Panic

abbreviation Ok :: "'a \<Rightarrow> 'e exit + 'a" where
  "Ok v \<equiv> Inr v"

abbreviation Fail :: "'e \<Rightarrow> 'e exit + 'a" where
  "Fail e \<equiv> Inl (Err e)"

abbreviation Panicked :: "'e exit + 'a" where
  "Panicked \<equiv> Inl Panic"

definition and_then :: "'e + 'a \<Rightarrow> ('a \<Rightarrow> 'e + 'b) \<Rightarrow> 'e + 'b" where
  "and_then m f = (case m of Inl e \<Rightarrow> Inl e | Inr v \<Rightarrow> f v)"

definition map_ok :: "('a \<Rightarrow> 'b) \<Rightarrow> 'e + 'a \<Rightarrow> 'e + 'b" where
  "map_ok f m = (case m of Inl e \<Rightarrow> Inl e | Inr v \<Rightarrow> Inr (f v))"

definition map_err :: "('e \<Rightarrow> 'f) \<Rightarrow> 'e exit + 'a \<Rightarrow> 'f exit + 'a" where
  "map_err f m = (case m of Inl (Err e) \<Rightarrow> Inl (Err (f e)) | Inl Panic \<Rightarrow> Inl Panic | Inr v \<Rightarrow> Inr v)"

definition ok_or :: "'e \<Rightarrow> 'a option \<Rightarrow> 'e exit + 'a" where
  "ok_or e x = (case x of None \<Rightarrow> Fail e | Some v \<Rightarrow> Ok v)"

definition is_ok :: "'e + 'a \<Rightarrow> bool" where
  "is_ok m = (case m of Inl _ \<Rightarrow> False | Inr _ \<Rightarrow> True)"

definition no_panic :: "'e exit + 'a \<Rightarrow> bool" where
  "no_panic m \<longleftrightarrow> m \<noteq> Panicked"

fun try_map :: "('a \<Rightarrow> 'e + 'b) \<Rightarrow> 'a list \<Rightarrow> 'e + 'b list" where
  "try_map f [] = Inr []"
| "try_map f (x # xs) = and_then (f x) (\<lambda>y. and_then (try_map f xs) (\<lambda>ys. Inr (y # ys)))"

lemma and_then_simps [simp]:
  "and_then (Inl e) f = Inl e"
  "and_then (Inr v) f = f v"
  by (simp_all add: and_then_def)

lemma and_then_eq_Inr_iff [ok_iffs]:
  "and_then m f = Inr v \<longleftrightarrow> (\<exists>x. m = Inr x \<and> f x = Inr v)"
  by (cases m) auto

lemma if_eq_Inr_iffs [ok_iffs]:
  "(if b then Inl e else m) = Inr v \<longleftrightarrow> \<not> b \<and> m = Inr v"
  "(if b then m else Inl e) = Inr v \<longleftrightarrow> b \<and> m = Inr v"
  by auto

lemma and_then_eq_Inl_iff:
  "and_then m f = Inl e \<longleftrightarrow> m = Inl e \<or> (\<exists>x. m = Inr x \<and> f x = Inl e)"
  by (cases m) auto

lemma and_then_assoc: "and_then (and_then m f) g = and_then m (\<lambda>x. and_then (f x) g)"
  by (cases m) auto

lemma and_then_cong [fundef_cong]:
  "m = m' \<Longrightarrow> (\<And>x. m' = Inr x \<Longrightarrow> f x = f' x) \<Longrightarrow> and_then m f = and_then m' f'"
  by (cases m') auto

lemma map_ok_simps [simp]:
  "map_ok f (Inl e) = Inl e"
  "map_ok f (Inr v) = Inr (f v)"
  by (simp_all add: map_ok_def)

lemma map_ok_eq_Inr_iff [ok_iffs]: "map_ok f m = Inr v \<longleftrightarrow> (\<exists>x. m = Inr x \<and> v = f x)"
  by (cases m) auto

lemma map_err_simps [simp]:
  "map_err f (Fail e) = Fail (f e)"
  "map_err f Panicked = Panicked"
  "map_err f (Ok v) = Ok v"
  by (simp_all add: map_err_def)

lemma map_err_eq_Inr_iff [ok_iffs]: "map_err f m = Inr v \<longleftrightarrow> m = Inr v"
  by (cases m) (auto simp: map_err_def split: exit.splits)

lemma ok_or_simps [simp]:
  "ok_or e None = Fail e"
  "ok_or e (Some v) = Ok v"
  by (simp_all add: ok_or_def)

lemma ok_or_eq_Inr_iff [ok_iffs]: "ok_or e x = Inr v \<longleftrightarrow> x = Some v"
  by (cases x) auto

lemma is_ok_simps [simp]: "\<not> is_ok (Inl e)" "is_ok (Inr v)"
  by (simp_all add: is_ok_def)

lemma is_ok_iff: "is_ok m \<longleftrightarrow> (\<exists>v. m = Inr v)"
  by (cases m) auto

lemma no_panic_simps [simp]:
  "no_panic (Ok v)" "no_panic (Fail e)" "\<not> no_panic Panicked"
  by (simp_all add: no_panic_def)

lemma no_panic_and_then [no_panic_intros]:
  "no_panic m \<Longrightarrow> (\<And>x. m = Inr x \<Longrightarrow> no_panic (f x)) \<Longrightarrow> no_panic (and_then m f)"
  by (cases m) (auto simp: no_panic_def)

lemma no_panic_map_ok [no_panic_intros]: "no_panic m \<Longrightarrow> no_panic (map_ok f m)"
  by (cases m) (auto simp: no_panic_def)

lemma no_panic_map_err [no_panic_intros]: "no_panic m \<Longrightarrow> no_panic (map_err f m)"
  by (auto simp: no_panic_def map_err_def split: sum.splits exit.splits)

lemma no_panic_ok_or [no_panic_intros, simp]: "no_panic (ok_or e x)"
  by (cases x) auto

lemma no_panic_if [no_panic_intros]:
  "(b \<Longrightarrow> no_panic m) \<Longrightarrow> (\<not> b \<Longrightarrow> no_panic n) \<Longrightarrow> no_panic (if b then m else n)"
  by simp

lemma try_map_eq_Inr_iff:
  "try_map f xs = Inr ys \<longleftrightarrow> list_all2 (\<lambda>x y. f x = Inr y) xs ys"
  by (induction xs arbitrary: ys) (auto simp: and_then_eq_Inr_iff list_all2_Cons1)

lemma try_map_length: "try_map f xs = Inr ys \<Longrightarrow> length ys = length xs"
  by (auto simp: try_map_eq_Inr_iff dest: list_all2_lengthD)

lemma try_map_nth: "try_map f xs = Inr ys \<Longrightarrow> i < length xs \<Longrightarrow> f (xs ! i) = Inr (ys ! i)"
  by (auto simp: try_map_eq_Inr_iff list_all2_conv_all_nth)

lemma try_map_Ok: "(\<And>x. x \<in> set xs \<Longrightarrow> f x = Inr (g x)) \<Longrightarrow> try_map f xs = Inr (map g xs)"
  by (induction xs) auto

lemma try_map_map: "try_map f (map g xs) = try_map (\<lambda>x. f (g x)) xs"
  by (induction xs) auto

lemma try_map_cong [fundef_cong]:
  "xs = ys \<Longrightarrow> (\<And>x. x \<in> set ys \<Longrightarrow> f x = g x) \<Longrightarrow> try_map f xs = try_map g ys"
  by (induction ys arbitrary: xs) auto

lemma try_map_append:
  "try_map f (xs @ ys) = and_then (try_map f xs) (\<lambda>us. and_then (try_map f ys) (\<lambda>vs. Inr (us @ vs)))"
  by (induction xs) (auto simp: and_then_assoc and_then_def split: sum.splits)

lemma try_map_eq_Inl_iff:
  "try_map f xs = Inl e \<longleftrightarrow>
     (\<exists>i < length xs. f (xs ! i) = Inl e \<and> (\<forall>j < i. is_ok (f (xs ! j))))"
proof (induction xs)
  case Nil
  then show ?case by simp
next
  case (Cons x xs)
  then show ?case
    by (cases "f x") (auto simp: and_then_eq_Inl_iff Ex_less_Suc2 All_less_Suc2)
qed

lemma no_panic_try_map [no_panic_intros]:
  "(\<And>x. x \<in> set xs \<Longrightarrow> no_panic (f x)) \<Longrightarrow> no_panic (try_map f xs)"
proof (induction xs)
  case (Cons x xs)
  then show ?case by (auto intro!: no_panic_and_then)
qed simp

section \<open>Machine sizes\<close>

definition usize_limit :: nat where
  "usize_limit = 2 ^ 64"

definition checked_add :: "nat \<Rightarrow> nat \<Rightarrow> nat option" where
  "checked_add a b = (if a + b < usize_limit then Some (a + b) else None)"

definition checked_mul :: "nat \<Rightarrow> nat \<Rightarrow> nat option" where
  "checked_mul a b = (if a * b < usize_limit then Some (a * b) else None)"

definition checked_add_word :: "'a::len word \<Rightarrow> 'a word \<Rightarrow> 'a word option" where
  "checked_add_word a b = (if unat a + unat b < 2 ^ LENGTH('a) then Some (a + b) else None)"

lemma checked_add_Some: "a + b < usize_limit \<Longrightarrow> checked_add a b = Some (a + b)"
  by (simp add: checked_add_def)

lemma checked_mul_Some: "a * b < usize_limit \<Longrightarrow> checked_mul a b = Some (a * b)"
  by (simp add: checked_mul_def)

lemma checked_add_eq_Some_iff: "checked_add a b = Some c \<longleftrightarrow> a + b < usize_limit \<and> c = a + b"
  by (auto simp: checked_add_def)

lemma checked_mul_eq_Some_iff: "checked_mul a b = Some c \<longleftrightarrow> a * b < usize_limit \<and> c = a * b"
  by (auto simp: checked_mul_def)

lemma checked_add_word_eq_Some_iff:
  "checked_add_word a b = Some c \<longleftrightarrow>
     unat a + unat b < 2 ^ LENGTH('a) \<and> c = (a + b :: 'a::len word)"
  by (auto simp: checked_add_word_def)

lemma unat_add_no_overflow:
  "unat a + unat b < 2 ^ LENGTH('a) \<Longrightarrow> unat (a + b :: 'a::len word) = unat a + unat b"
  by (simp add: unat_word_ariths)

lemma unat_u8_less: "unat (w :: u8) < 256"
  using unsigned_less [of w] by simp

lemma unat_u16_less: "unat (w :: u16) < 65536"
  using unsigned_less [of w] by simp

lemma unat_u32_less: "unat (w :: u32) < 4294967296"
  using unsigned_less [of w] by simp

lemma unat_u64_less: "unat (w :: u64) < 18446744073709551616"
  using unsigned_less [of w] by simp

lemmas unat_bounds = unat_u8_less unat_u16_less unat_u32_less unat_u64_less

lemma unat_of_nat_less: "n < 2 ^ LENGTH('a) \<Longrightarrow> unat (of_nat n :: 'a::len word) = n"
  by (simp add: unsigned_of_nat take_bit_nat_eq_self)

section \<open>Byte ranges and fixed buffers\<close>

text \<open>
  \<open>sub bs o n\<close> is \<^verbatim>\<open>&bs[o..o + n]\<close> where it is in range, and
  \<open>copy_at buf o src\<close> is \<^verbatim>\<open>buf[o..o + src.len()].copy_from_slice(src)\<close>
  on a buffer that holds the range (every use is at constant offsets inside a
  buffer of constant length).
\<close>

definition sub :: "'a list \<Rightarrow> nat \<Rightarrow> nat \<Rightarrow> 'a list" where
  "sub bs off n = take n (drop off bs)"

definition copy_at :: "'a list \<Rightarrow> nat \<Rightarrow> 'a list \<Rightarrow> 'a list" where
  "copy_at buf off src = take off buf @ src @ drop (off + length src) buf"

definition slice :: "'a list \<Rightarrow> nat \<Rightarrow> nat \<Rightarrow> 'e exit + 'a list" where
  "slice bs a b = (if a \<le> b \<and> b \<le> length bs then Ok (take (b - a) (drop a bs)) else Panicked)"

definition slice_from :: "'a list \<Rightarrow> nat \<Rightarrow> 'e exit + 'a list" where
  "slice_from bs a = (if a \<le> length bs then Ok (drop a bs) else Panicked)"

definition index :: "'a list \<Rightarrow> nat \<Rightarrow> 'e exit + 'a" where
  "index bs i = (if i < length bs then Ok (bs ! i) else Panicked)"

definition set_index :: "'a list \<Rightarrow> nat \<Rightarrow> 'a \<Rightarrow> 'e exit + 'a list" where
  "set_index xs i v = (if i < length xs then Ok (xs[i := v]) else Panicked)"

definition get :: "'a list \<Rightarrow> nat \<Rightarrow> 'a option" where
  "get xs i = (if i < length xs then Some (xs ! i) else None)"

lemma length_sub [wire_simps]: "length (sub bs off n) = min n (length bs - off)"
  by (simp add: sub_def)

lemma length_copy_at [simp, wire_simps]:
  "off + length src \<le> length buf \<Longrightarrow> length (copy_at buf off src) = length buf"
  by (simp add: copy_at_def)

lemma sub_copy_at_same [wire_simps]:
  "n = length src \<Longrightarrow> off + n \<le> length buf \<Longrightarrow> sub (copy_at buf off src) off n = src"
  by (simp add: sub_def copy_at_def)

lemma sub_copy_at_before [wire_simps]:
  "o' + n \<le> off \<Longrightarrow> off + length src \<le> length buf \<Longrightarrow> sub (copy_at buf off src) o' n = sub buf o' n"
  by (rule nth_equalityI) (auto simp: sub_def copy_at_def nth_append)

lemma sub_copy_at_after [wire_simps]:
  "off + length src \<le> o' \<Longrightarrow> off + length src \<le> length buf \<Longrightarrow>
   sub (copy_at buf off src) o' n = sub buf o' n"
  by (simp add: sub_def copy_at_def)

lemma copy_at_copy_at [wire_simps]:
  "length s = length t \<Longrightarrow> off + length s \<le> length buf \<Longrightarrow>
   copy_at (copy_at buf off s) off t = copy_at buf off t"
  by (simp add: copy_at_def)

lemma copy_at_sub_id: "off + n \<le> length buf \<Longrightarrow> s = sub buf off n \<Longrightarrow> copy_at buf off s = buf"
  by (simp add: copy_at_def sub_def)
     (metis add.commute append_take_drop_id drop_drop)

lemma sub_replicate [wire_simps]: "off + n \<le> m \<Longrightarrow> sub (replicate m x) off n = replicate n x"
  by (simp add: sub_def min_def)

lemma take_copy_at [wire_simps]:
  "off + length src = m \<Longrightarrow> m \<le> length buf \<Longrightarrow> take m (copy_at buf off src) = take off buf @ src"
  by (auto simp: copy_at_def)

lemma copy_at_last [wire_simps]:
  "off + length src = length buf \<Longrightarrow> copy_at buf off src = take off buf @ src"
  by (simp add: copy_at_def)

text \<open>A zeroed buffer filled from left to right is the concatenation of what was written.\<close>

lemma copy_at_first:
  "length src \<le> m \<Longrightarrow> copy_at (replicate m x) 0 src = src @ replicate (m - length src) x"
  by (simp add: copy_at_def)

lemma copy_at_next:
  "off = length xs \<Longrightarrow> length src \<le> m \<Longrightarrow>
   copy_at (xs @ replicate m x) off src = (xs @ src) @ replicate (m - length src) x"
  by (simp add: copy_at_def)

lemmas fill_simps = copy_at_first copy_at_next length_append Let_def

lemma sub_append_left: "off + n \<le> length xs \<Longrightarrow> sub (xs @ ys) off n = sub xs off n"
  by (simp add: sub_def)

lemma sub_append_right: "length xs \<le> off \<Longrightarrow> sub (xs @ ys) off n = sub ys (off - length xs) n"
  by (simp add: sub_def)

lemma sub_0_append: "n = length xs \<Longrightarrow> sub (xs @ ys) 0 n = xs"
  by (simp add: sub_def)

lemma sub_take: "off + n \<le> m \<Longrightarrow> sub (take m bs) off n = sub bs off n"
  by (simp add: sub_def drop_take min_def)

lemma sub_drop: "sub (drop k bs) off n = sub bs (k + off) n"
  by (simp add: sub_def add.commute)

lemma sub_sub: "off + n \<le> m \<Longrightarrow> sub (sub bs k m) off n = sub bs (k + off) n"
  by (simp add: sub_def drop_take min_def add.commute)

lemma sub_all: "n = length bs \<Longrightarrow> sub bs 0 n = bs"
  by (simp add: sub_def)

lemma sub_join: "o' = off + n \<Longrightarrow> sub bs off n @ sub bs o' m = sub bs off (n + m)"
  by (simp add: sub_def take_add [of n m] add.commute [of off n])

lemma sub_join_assoc: "o' = off + n \<Longrightarrow> sub bs off n @ sub bs o' m @ r = sub bs off (n + m) @ r"
  by (metis append_assoc sub_join)

lemma sub_singleton: "i < length bs \<Longrightarrow> sub bs i (Suc 0) = [bs ! i]"
  by (simp add: sub_def take_Suc hd_drop_conv_nth)

lemma nth_sub: "i < n \<Longrightarrow> off + i < length bs \<Longrightarrow> sub bs off n ! i = bs ! (off + i)"
  by (simp add: sub_def)

lemma nth_eq_hd_sub: "i < length bs \<Longrightarrow> bs ! i = hd (sub bs i (Suc 0))"
  by (simp add: sub_singleton)

lemma nth_copy_at_same [wire_simps]: "off < length buf \<Longrightarrow> copy_at buf off [x] ! off = x"
  by (simp add: copy_at_def nth_append)

lemma nth_copy_at_before [wire_simps]:
  "i < off \<Longrightarrow> off + length src \<le> length buf \<Longrightarrow> copy_at buf off src ! i = buf ! i"
  by (simp add: copy_at_def nth_append)

lemma nth_copy_at_after [wire_simps]:
  "off + length src \<le> i \<Longrightarrow> i < length buf \<Longrightarrow> copy_at buf off src ! i = buf ! i"
  by (auto simp: copy_at_def nth_append min_def)

lemma slice_Ok_iff [ok_iffs]: "slice bs a b = Inr r \<longleftrightarrow> a \<le> b \<and> b \<le> length bs \<and> r = sub bs a (b - a)"
  by (auto simp: slice_def sub_def)

lemma slice_Ok: "a \<le> b \<Longrightarrow> b \<le> length bs \<Longrightarrow> slice bs a b = Ok (sub bs a (b - a))"
  by (simp add: slice_def sub_def)

lemma slice_from_Ok: "a \<le> length bs \<Longrightarrow> slice_from bs a = Ok (drop a bs)"
  by (simp add: slice_from_def)

lemma index_Ok: "i < length bs \<Longrightarrow> index bs i = Ok (bs ! i)"
  by (simp add: index_def)

lemma index_eq_Inr_iff [ok_iffs]: "index bs i = Inr v \<longleftrightarrow> i < length bs \<and> v = bs ! i"
  by (auto simp: index_def)

lemma get_eq_Some_iff: "get xs i = Some v \<longleftrightarrow> i < length xs \<and> v = xs ! i"
  by (auto simp: get_def)

text \<open>
  \<open>ensures R m\<close>: the call \<open>m\<close> does not panic and what it returns satisfies \<open>R\<close>.
\<close>

definition ensures :: "('a \<Rightarrow> bool) \<Rightarrow> 'e exit + 'a \<Rightarrow> bool" where
  "ensures R m \<longleftrightarrow> no_panic m \<and> (\<forall>v. m = Inr v \<longrightarrow> R v)"

lemma ensures_simps [simp]:
  "ensures R (Ok v) \<longleftrightarrow> R v" "ensures R (Fail e)" "\<not> ensures R Panicked"
  by (simp_all add: ensures_def)

lemma ensures_and_then:
  "ensures Q m \<Longrightarrow> (\<And>x. m = Inr x \<Longrightarrow> Q x \<Longrightarrow> ensures R (f x)) \<Longrightarrow> ensures R (and_then m f)"
  by (cases m) (auto simp: ensures_def no_panic_def)

lemma ensures_if: "(b \<Longrightarrow> ensures R m) \<Longrightarrow> (\<not> b \<Longrightarrow> ensures R n) \<Longrightarrow> ensures R (if b then m else n)"
  by simp

lemma ensures_checked_add: "ensures (\<lambda>c. c = a + b) (ok_or e (checked_add a b))"
  by (auto simp: checked_add_def)

lemma ensures_ok_or: "ensures (\<lambda>c. x = Some c) (ok_or e x)"
  by (cases x) auto

lemma ensures_slice_from: "a \<le> length bs \<Longrightarrow> ensures (\<lambda>r. r = drop a bs) (slice_from bs a)"
  by (simp add: slice_from_def)

lemma ensures_slice: "a \<le> b \<Longrightarrow> b \<le> length bs \<Longrightarrow> ensures (\<lambda>r. r = sub bs a (b - a)) (slice bs a b)"
  by (simp add: slice_Ok)

section \<open>Little-endian words\<close>

text \<open>
  \<open>le_bytes n w\<close> is \<^verbatim>\<open>w.to_le_bytes()\<close> for an integer of \<open>n\<close> bytes and
  \<open>of_le bs\<close> is \<^verbatim>\<open>from_le_bytes\<close>; both serve the unsigned and the signed
  types, which share their bit patterns.
\<close>

primrec le_bytes :: "nat \<Rightarrow> 'a::len word \<Rightarrow> bytes" where
  "le_bytes 0 w = []"
| "le_bytes (Suc n) w = ucast w # le_bytes n (drop_bit 8 w)"

primrec of_le :: "bytes \<Rightarrow> 'a::len word" where
  "of_le [] = 0"
| "of_le (b # bs) = ucast b OR push_bit 8 (of_le bs)"

lemma length_le_bytes [simp, wire_simps]: "length (le_bytes n w) = n"
  by (induction n arbitrary: w) auto

lemma bit_of_le:
  "bit (of_le bs :: 'a::len word) k \<longleftrightarrow>
     k < LENGTH('a) \<and> k div 8 < length bs \<and> bit (bs ! (k div 8)) (k mod 8)"
proof (induction bs arbitrary: k)
  case Nil
  then show ?case by simp
next
  case (Cons b bs)
  show ?case
  proof (cases "k < 8")
    case True
    then show ?thesis by (auto simp: bit_simps)
  next
    case False
    have "k div 8 = Suc ((k - 8) div 8)" "k mod 8 = (k - 8) mod 8"
      using False by (simp_all add: le_div_geq le_mod_geq)
    with False show ?thesis
      by (auto simp: bit_simps Cons.IH dest: bit_imp_le_length)
  qed
qed

lemma nth_le_bytes: "i < n \<Longrightarrow> le_bytes n w ! i = ucast (drop_bit (8 * i) w)"
proof (induction n arbitrary: w i)
  case (Suc n)
  show ?case
  proof (cases i)
    case (Suc j)
    with Suc.prems Suc.IH [of j "drop_bit 8 w"] show ?thesis
      by (simp add: drop_bit_drop_bit add.commute)
  qed simp
qed simp

lemma of_le_le_bytes [simp, wire_simps]:
  assumes "8 * n = LENGTH('a)"
  shows "of_le (le_bytes n w) = (w :: 'a::len word)"
proof (rule bit_word_eqI)
  fix k
  assume k: "k < LENGTH('a)"
  then have n: "k div 8 < n" using assms by auto
  have "8 * (k div 8) + k mod 8 = k" by simp
  then show "bit (of_le (le_bytes n w) :: 'a word) k = bit w k"
    using k n by (auto simp: bit_of_le nth_le_bytes bit_simps)
qed

lemma le_bytes_of_le:
  assumes "length bs = n" "8 * n = LENGTH('a)"
  shows "le_bytes n (of_le bs :: 'a::len word) = bs"
proof (rule nth_equalityI)
  show "length (le_bytes n (of_le bs :: 'a word)) = length bs" using assms by simp
next
  fix i assume "i < length (le_bytes n (of_le bs :: 'a word))"
  then have i: "i < n" by simp
  show "le_bytes n (of_le bs :: 'a word) ! i = bs ! i"
  proof (rule bit_word_eqI)
    fix k assume k: "k < LENGTH(8)"
    have "(8 * i + k) div 8 = i" "(8 * i + k) mod 8 = k" "8 * i + k < LENGTH('a)"
      using k i assms by auto
    then show "bit (le_bytes n (of_le bs :: 'a word) ! i) k = bit (bs ! i) k"
      using k i assms by (auto simp: nth_le_bytes bit_of_le bit_simps)
  qed
qed

lemma le_bytes_inject:
  assumes "8 * n = LENGTH('a)"
  shows "le_bytes n v = le_bytes n (w :: 'a::len word) \<longleftrightarrow> v = w"
  using assms by (metis of_le_le_bytes)

lemma le_bytes_numeral:
  "le_bytes (numeral n) w = ucast w # le_bytes (pred_numeral n) (drop_bit 8 w)"
  by (simp add: numeral_eq_Suc)

lemma of_le_replicate_0 [simp]: "of_le (replicate n 0) = 0"
  by (induction n) auto

lemma four_zeros: "[0, 0, 0, 0] = replicate 4 0"
  by (simp add: numeral_eq_Suc)

lemma of_le_append_zeros: "of_le (bs @ replicate n 0) = of_le bs"
  by (induction bs) auto

text \<open>
  The bits of a byte sequence in the order of a little-endian bit stream:
  \<open>stream_bit bs k\<close> is bit \<open>k mod 8\<close> of byte \<open>k div 8\<close>.
\<close>

definition stream_bit :: "bytes \<Rightarrow> nat \<Rightarrow> bool" where
  "stream_bit bs k \<longleftrightarrow> k div 8 < length bs \<and> bit (bs ! (k div 8)) (k mod 8)"

lemma bit_of_le_stream:
  "8 * length buf = LENGTH('a) \<Longrightarrow> bit (of_le buf :: 'a::len word) j \<longleftrightarrow> stream_bit buf j"
  by (auto simp: bit_of_le stream_bit_def)

lemma stream_bit_le_bytes:
  "8 * n = LENGTH('a) \<Longrightarrow> stream_bit (le_bytes n (w :: 'a::len word)) k \<longleftrightarrow> bit w k"
  using bit_of_le_stream [of "le_bytes n w", where ?'a = 'a] by simp

lemma stream_bit_sub:
  "k div 8 < n \<Longrightarrow> stream_bit (sub bits b n) k \<longleftrightarrow> stream_bit bits (8 * b + k)"
  by (auto simp: stream_bit_def length_sub nth_sub)

lemma stream_bit_length: "stream_bit bs k \<Longrightarrow> k < 8 * length bs"
  by (auto simp: stream_bit_def)

lemma stream_bit_set:
  "k div 8 < length bs \<Longrightarrow>
   stream_bit (bs[k div 8 := bs ! (k div 8) OR push_bit (k mod 8) 1]) j \<longleftrightarrow> j = k \<or> stream_bit bs j"
proof -
  assume k: "k div 8 < length bs"
  have "j div 8 = k div 8 \<and> j mod 8 = k mod 8 \<longleftrightarrow> j = k"
    by (metis div_mult_mod_eq)
  with k show ?thesis
    by (auto simp: stream_bit_def nth_list_update bit_simps)
qed

section \<open>Arrays of fixed-size items\<close>

lemma length_concat_fixed: "(\<And>x. x \<in> set xs \<Longrightarrow> length (f x) = k) \<Longrightarrow> length (concat (map f xs)) = k * length xs"
  by (induction xs) auto

lemma sub_concat_fixed:
  assumes "\<And>x. x \<in> set xs \<Longrightarrow> length (f x) = k" "i < length xs"
  shows "sub (concat (map f xs) @ post) (i * k) k = f (xs ! i)"
  using assms
proof (induction xs arbitrary: i)
  case Nil
  then show ?case by simp
next
  case (Cons x xs)
  then show ?case
    by (cases i) (auto simp: sub_def)
qed

lemma sub_concat_fixed_at:
  assumes "\<And>x. x \<in> set xs \<Longrightarrow> length (f x) = k" "i < length xs" "off = length pre + i * k"
  shows "sub (pre @ concat (map f xs) @ post) off k = f (xs ! i)"
  using sub_concat_fixed [of xs f k i post] assms
  by (simp add: sub_def)

lemma concat_sub_chunks:
  "off + n * k \<le> length bs \<Longrightarrow> concat (map (\<lambda>i. sub bs (off + i * k) k) [0..<n]) = sub bs off (n * k)"
proof (induction n)
  case (Suc n)
  then show ?case by (simp add: sub_join add.commute)
qed (simp add: sub_def)

section \<open>Loops over neighbours and duplicates\<close>

text \<open>
  \<open>windows2_all p xs\<close> holds when \<open>p\<close> holds for every pair
  \<^verbatim>\<open>xs.windows(2)\<close> yields; \<open>has_duplicate\<close> is the loop that inserts each
  element in a set and stops at the first that was there.
\<close>

fun windows2_all :: "('a \<Rightarrow> 'a \<Rightarrow> bool) \<Rightarrow> 'a list \<Rightarrow> bool" where
  "windows2_all p (x # y # zs) \<longleftrightarrow> p x y \<and> windows2_all p (y # zs)"
| "windows2_all p _ \<longleftrightarrow> True"

fun has_duplicate_from :: "'a list \<Rightarrow> 'a list \<Rightarrow> bool" where
  "has_duplicate_from seen [] \<longleftrightarrow> False"
| "has_duplicate_from seen (x # xs) \<longleftrightarrow> x \<in> set seen \<or> has_duplicate_from (x # seen) xs"

definition has_duplicate :: "'a list \<Rightarrow> bool" where
  "has_duplicate xs = has_duplicate_from [] xs"

lemma has_duplicate_from_iff:
  "has_duplicate_from seen xs \<longleftrightarrow> \<not> distinct xs \<or> set seen \<inter> set xs \<noteq> {}"
  by (induction xs arbitrary: seen) auto

lemma has_duplicate_iff [simp]: "has_duplicate xs \<longleftrightarrow> \<not> distinct xs"
  by (simp add: has_duplicate_def has_duplicate_from_iff)

lemma windows2_all_nth:
  "windows2_all p xs \<longleftrightarrow> (\<forall>i. Suc i < length xs \<longrightarrow> p (xs ! i) (xs ! Suc i))"
proof (induction p xs rule: windows2_all.induct)
  case (1 p x y zs)
  show ?case
  proof
    assume "windows2_all p (x # y # zs)"
    with 1 show "\<forall>i. Suc i < length (x # y # zs) \<longrightarrow> p ((x # y # zs) ! i) ((x # y # zs) ! Suc i)"
      by (auto simp: nth_Cons split: nat.splits)
  next
    assume a: "\<forall>i. Suc i < length (x # y # zs) \<longrightarrow> p ((x # y # zs) ! i) ((x # y # zs) ! Suc i)"
    then have "p x y" by force
    moreover have "\<forall>i. Suc i < length (y # zs) \<longrightarrow> p ((y # zs) ! i) ((y # zs) ! Suc i)"
      using a by force
    ultimately show "windows2_all p (x # y # zs)" using 1 by simp
  qed
qed auto

lemma windows2_all_sorted_wrt:
  "transp p \<Longrightarrow> windows2_all p xs \<longleftrightarrow> sorted_wrt p xs"
  by (induction p xs rule: windows2_all.induct) (auto dest: transpD)

end
