(* ===== verification/Cove_Error.thy ===== *)
theory Cove_Error
  imports Cove_Prelude
begin

text \<open>
  The error type of cove-core (\<^verbatim>\<open>error.rs\<close>) and the Spec section 76 code of every
  error. \<open>Io\<close> carries the rendered text of the \<^verbatim>\<open>std::io::Error\<close> it wraps.
\<close>

datatype cove_error =
      BadMagic | BadVersion | UnknownRequiredFeature u64 | ChecksumMismatch
    | DigestMismatch | OffsetRange | ArithOverflow | BadSection string | BadSchema string
    | BadLogicalPhysicalPair | DictMiss | BadFileCode | BadNumCode | BadDomain | BadStats
    | BadIndex | BadExtension | BadEngineProfile | ExecutionCodeMap | HarborMountLease
    | RefInvalid | NotSelfContained | SegmentCorrupt | PageCorrupt | RedactionPolicy
    | SidecarStale | MapInvalid | MapFunctionUndeclared | MapIdentityConflict
    | MapSourceStale | MapEvidenceInvalid | BadCodecExtension | CodecUnsupported
    | BadLayoutPlan | RuntimeHintUnsupported | BadCoverage | CoverageStale | BadCovi
    | IndexOnlyUnsafe | CacheStale | QueryDiscoveryInvalid string | BufferTooShort
    | ReservedNotZero | Io string | UnsupportedEncoding string

type_synonym 'a res = "cove_error exit + 'a"

definition ALL_SPEC_CODES :: "string list" where
  "ALL_SPEC_CODES =
    [''COVE_E_BAD_MAGIC'',
     ''COVE_E_BAD_VERSION'',
     ''COVE_E_UNKNOWN_REQUIRED_FEATURE'',
     ''COVE_E_CHECKSUM_MISMATCH'',
     ''COVE_E_DIGEST_MISMATCH'',
     ''COVE_E_OFFSET_RANGE'',
     ''COVE_E_ARITH_OVERFLOW'',
     ''COVE_E_BAD_SECTION'',
     ''COVE_E_BAD_SCHEMA'',
     ''COVE_E_BAD_LOGICAL_PHYSICAL_PAIR'',
     ''COVE_E_DICT_MISS'',
     ''COVE_E_BAD_FILECODE'',
     ''COVE_E_BAD_NUMCODE'',
     ''COVE_E_BAD_DOMAIN'',
     ''COVE_E_BAD_STATS'',
     ''COVE_E_BAD_INDEX'',
     ''COVE_E_BAD_EXTENSION'',
     ''COVE_E_BAD_ENGINE_PROFILE'',
     ''COVE_E_EXECUTION_CODE_MAP'',
     ''COVE_E_HARBOR_MOUNT_LEASE'',
     ''COVE_E_REF_INVALID'',
     ''COVE_E_NOT_SELF_CONTAINED'',
     ''COVE_E_SEGMENT_CORRUPT'',
     ''COVE_E_PAGE_CORRUPT'',
     ''COVE_E_REDACTION_POLICY'',
     ''COVE_E_SIDECAR_STALE'',
     ''COVE_E_MAP_INVALID'',
     ''COVE_E_MAP_FUNCTION_UNDECLARED'',
     ''COVE_E_MAP_IDENTITY_CONFLICT'',
     ''COVE_E_MAP_SOURCE_STALE'',
     ''COVE_E_MAP_EVIDENCE_INVALID'',
     ''COVE_E_BAD_CODEC_EXTENSION'',
     ''COVE_E_CODEC_UNSUPPORTED'',
     ''COVE_E_BAD_LAYOUT_PLAN'',
     ''COVE_E_RUNTIME_HINT_UNSUPPORTED'',
     ''COVE_E_BAD_COVERAGE'',
     ''COVE_E_COVERAGE_STALE'',
     ''COVE_E_BAD_COVI'',
     ''COVE_E_INDEX_ONLY_UNSAFE'',
     ''COVE_E_CACHE_STALE'',
     ''COVE_E_QUERY_DISCOVERY_INVALID'']"

primrec spec_code :: "cove_error \<Rightarrow> string option" where
  "spec_code BadMagic = Some ''COVE_E_BAD_MAGIC''"
| "spec_code BadVersion = Some ''COVE_E_BAD_VERSION''"
| "spec_code (UnknownRequiredFeature x) = Some ''COVE_E_UNKNOWN_REQUIRED_FEATURE''"
| "spec_code ChecksumMismatch = Some ''COVE_E_CHECKSUM_MISMATCH''"
| "spec_code DigestMismatch = Some ''COVE_E_DIGEST_MISMATCH''"
| "spec_code OffsetRange = Some ''COVE_E_OFFSET_RANGE''"
| "spec_code BufferTooShort = Some ''COVE_E_OFFSET_RANGE''"
| "spec_code ArithOverflow = Some ''COVE_E_ARITH_OVERFLOW''"
| "spec_code (BadSection x) = Some ''COVE_E_BAD_SECTION''"
| "spec_code ReservedNotZero = Some ''COVE_E_BAD_SECTION''"
| "spec_code (BadSchema x) = Some ''COVE_E_BAD_SCHEMA''"
| "spec_code BadLogicalPhysicalPair = Some ''COVE_E_BAD_LOGICAL_PHYSICAL_PAIR''"
| "spec_code DictMiss = Some ''COVE_E_DICT_MISS''"
| "spec_code BadFileCode = Some ''COVE_E_BAD_FILECODE''"
| "spec_code BadNumCode = Some ''COVE_E_BAD_NUMCODE''"
| "spec_code BadDomain = Some ''COVE_E_BAD_DOMAIN''"
| "spec_code BadStats = Some ''COVE_E_BAD_STATS''"
| "spec_code BadIndex = Some ''COVE_E_BAD_INDEX''"
| "spec_code BadExtension = Some ''COVE_E_BAD_EXTENSION''"
| "spec_code BadEngineProfile = Some ''COVE_E_BAD_ENGINE_PROFILE''"
| "spec_code ExecutionCodeMap = Some ''COVE_E_EXECUTION_CODE_MAP''"
| "spec_code HarborMountLease = Some ''COVE_E_HARBOR_MOUNT_LEASE''"
| "spec_code RefInvalid = Some ''COVE_E_REF_INVALID''"
| "spec_code NotSelfContained = Some ''COVE_E_NOT_SELF_CONTAINED''"
| "spec_code SegmentCorrupt = Some ''COVE_E_SEGMENT_CORRUPT''"
| "spec_code PageCorrupt = Some ''COVE_E_PAGE_CORRUPT''"
| "spec_code RedactionPolicy = Some ''COVE_E_REDACTION_POLICY''"
| "spec_code SidecarStale = Some ''COVE_E_SIDECAR_STALE''"
| "spec_code MapInvalid = Some ''COVE_E_MAP_INVALID''"
| "spec_code MapFunctionUndeclared = Some ''COVE_E_MAP_FUNCTION_UNDECLARED''"
| "spec_code MapIdentityConflict = Some ''COVE_E_MAP_IDENTITY_CONFLICT''"
| "spec_code MapSourceStale = Some ''COVE_E_MAP_SOURCE_STALE''"
| "spec_code MapEvidenceInvalid = Some ''COVE_E_MAP_EVIDENCE_INVALID''"
| "spec_code BadCodecExtension = Some ''COVE_E_BAD_CODEC_EXTENSION''"
| "spec_code CodecUnsupported = Some ''COVE_E_CODEC_UNSUPPORTED''"
| "spec_code BadLayoutPlan = Some ''COVE_E_BAD_LAYOUT_PLAN''"
| "spec_code RuntimeHintUnsupported = Some ''COVE_E_RUNTIME_HINT_UNSUPPORTED''"
| "spec_code BadCoverage = Some ''COVE_E_BAD_COVERAGE''"
| "spec_code CoverageStale = Some ''COVE_E_COVERAGE_STALE''"
| "spec_code BadCovi = Some ''COVE_E_BAD_COVI''"
| "spec_code IndexOnlyUnsafe = Some ''COVE_E_INDEX_ONLY_UNSAFE''"
| "spec_code CacheStale = Some ''COVE_E_CACHE_STALE''"
| "spec_code (QueryDiscoveryInvalid x) = Some ''COVE_E_QUERY_DISCOVERY_INVALID''"
| "spec_code (Io x) = None"
| "spec_code (UnsupportedEncoding x) = None"

text \<open>Decimal rendering of a count in an error message (\<^verbatim>\<open>format!("{n}")\<close>).\<close>

fun decimal :: "nat \<Rightarrow> string" where
  "decimal n =
     (if n < 10 then [char_of (48 + n)] else decimal (n div 10) @ [char_of (48 + n mod 10)])"

declare decimal.simps [simp del]

text \<open>
  \<^verbatim>\<open>Display\<close>: every message starts with the code of the error. \<open>hex16\<close> is
  the format \<^verbatim>\<open>{bits:016x}\<close>.
\<close>

definition hex_digit :: "nat \<Rightarrow> char" where
  "hex_digit d = char_of (if d < 10 then 48 + d else 87 + d)"

definition hex16 :: "u64 \<Rightarrow> string" where
  "hex16 w = map (\<lambda>i. hex_digit (unat (drop_bit (4 * (15 - i)) w AND 15))) [0..<16]"

primrec display :: "cove_error \<Rightarrow> string" where
  "display BadMagic =
     ''COVE_E_BAD_MAGIC: missing or invalid magic bytes''"
| "display BadVersion =
     ''COVE_E_BAD_VERSION: unsupported COVE version''"
| "display (UnknownRequiredFeature bits) =
     ''COVE_E_UNKNOWN_REQUIRED_FEATURE: unknown required feature bits 0x'' @ hex16 bits"
| "display ChecksumMismatch =
     ''COVE_E_CHECKSUM_MISMATCH: CRC32C mismatch''"
| "display DigestMismatch =
     ''COVE_E_DIGEST_MISMATCH: cryptographic digest mismatch''"
| "display OffsetRange =
     ''COVE_E_OFFSET_RANGE: offset or length out of file bounds''"
| "display ArithOverflow =
     ''COVE_E_ARITH_OVERFLOW: arithmetic overflow in offset/count''"
| "display (BadSection s) =
     ''COVE_E_BAD_SECTION: '' @ s"
| "display (BadSchema s) =
     ''COVE_E_BAD_SCHEMA: '' @ s"
| "display BadLogicalPhysicalPair =
     ''COVE_E_BAD_LOGICAL_PHYSICAL_PAIR: logical type incompatible with physical kind''"
| "display DictMiss =
     ''COVE_E_DICT_MISS: FileCode missing from dictionary''"
| "display BadFileCode =
     ''COVE_E_BAD_FILECODE: FileCode outside dictionary range''"
| "display BadNumCode =
     ''COVE_E_BAD_NUMCODE: NumCode invalid for declared logical type''"
| "display BadDomain =
     ''COVE_E_BAD_DOMAIN: ColumnDomain invalid''"
| "display BadStats =
     ''COVE_E_BAD_STATS: statistics invalid or unsafe''"
| "display BadIndex =
     ''COVE_E_BAD_INDEX: optional index invalid or corrupt''"
| "display BadExtension =
     ''COVE_E_BAD_EXTENSION: extension invalid or unsupported''"
| "display BadEngineProfile =
     ''COVE_E_BAD_ENGINE_PROFILE: engine profile invalid or unsupported''"
| "display ExecutionCodeMap =
     ''COVE_E_EXECUTION_CODE_MAP: execution code mapping failed''"
| "display HarborMountLease =
     ''COVE_E_HARBOR_MOUNT_LEASE: Harbor lease resolution failed''"
| "display RefInvalid =
     ''COVE_E_REF_INVALID: COVE-O prev_ref invalid''"
| "display NotSelfContained =
     ''COVE_E_NOT_SELF_CONTAINED: COVE-O chain not self-contained''"
| "display SegmentCorrupt =
     ''COVE_E_SEGMENT_CORRUPT: segment structure invalid''"
| "display PageCorrupt =
     ''COVE_E_PAGE_CORRUPT: page structure invalid''"
| "display RedactionPolicy =
     ''COVE_E_REDACTION_POLICY: redacted value cannot be surfaced''"
| "display SidecarStale =
     ''COVE_E_SIDECAR_STALE: COVX/COVM sidecar does not match COVE file''"
| "display MapInvalid =
     ''COVE_E_MAP_INVALID: semantic mapping payload invalid''"
| "display MapFunctionUndeclared =
     ''COVE_E_MAP_FUNCTION_UNDECLARED: semantic mapping function not declared''"
| "display MapIdentityConflict =
     ''COVE_E_MAP_IDENTITY_CONFLICT: semantic mapping identity rules conflict''"
| "display MapSourceStale =
     ''COVE_E_MAP_SOURCE_STALE: semantic mapping source metadata is stale''"
| "display MapEvidenceInvalid =
     ''COVE_E_MAP_EVIDENCE_INVALID: semantic mapping evidence invalid''"
| "display BadCodecExtension =
     ''COVE_E_BAD_CODEC_EXTENSION: codec descriptor, envelope, fallback, or feature contract invalid''"
| "display CodecUnsupported =
     ''COVE_E_CODEC_UNSUPPORTED: required registered codec unsupported without valid fallback''"
| "display BadLayoutPlan =
     ''COVE_E_BAD_LAYOUT_PLAN: layout plan, split index, zero-copy map, or fast metadata invalid''"
| "display RuntimeHintUnsupported =
     ''COVE_E_RUNTIME_HINT_UNSUPPORTED: required runtime hint unsupported for operation''"
| "display BadCoverage =
     ''COVE_E_BAD_COVERAGE: coverage provider, predicate form, coverage set, or proof invalid''"
| "display CoverageStale =
     ''COVE_E_COVERAGE_STALE: coverage artifact does not match selected context''"
| "display BadCovi =
     ''COVE_E_BAD_COVI: secondary index artifact malformed, stale, corrupt, or unsupported''"
| "display IndexOnlyUnsafe =
     ''COVE_E_INDEX_ONLY_UNSAFE: requested index-only answer is not exact or not valid for context''"
| "display CacheStale =
     ''COVE_E_CACHE_STALE: cache entry stale, corrupt, or incompatible''"
| "display (QueryDiscoveryInvalid s) =
     ''COVE_E_QUERY_DISCOVERY_INVALID: '' @ s"
| "display BufferTooShort =
     ''COVE_E_OFFSET_RANGE: buffer too short to parse structure''"
| "display ReservedNotZero =
     ''COVE_E_BAD_SECTION: reserved field is non-zero''"
| "display (Io error) =
     ''I/O error: '' @ error"
| "display (UnsupportedEncoding s) =
     ''unsupported encoding: '' @ s"

text \<open>The codes a caller can see are the inventory, and each code is used.\<close>

lemma spec_code_in_inventory: "spec_code e = Some c \<Longrightarrow> c \<in> set ALL_SPEC_CODES"
  by (cases e) (simp_all add: ALL_SPEC_CODES_def)

lemma spec_code_none_iff: "spec_code e = None \<longleftrightarrow> (\<exists>s. e = Io s \<or> e = UnsupportedEncoding s)"
  by (cases e) simp_all

lemma display_prefix: "spec_code e = Some c \<Longrightarrow> take (length c + 1) (display e) = c @ '':''"
  by (cases e) auto

text \<open>
  The Spec section 76 code of an error is one of the 41 codes of the
  inventory, the inventory has no duplicate and no unused code, and the
  rendered message of every error that has a code begins with it and a colon.
\<close>

theorem spec_code_inventory:
  "length ALL_SPEC_CODES = 41 \<and> distinct ALL_SPEC_CODES \<and>
   {c. \<exists>e. spec_code e = Some c} = set ALL_SPEC_CODES \<and>
   {e. \<exists>c. spec_code e = Some c \<and> take (length c + 1) (display e) \<noteq> c @ '':''} = {}"
proof (intro conjI)
  show "length ALL_SPEC_CODES = 41" by (simp add: ALL_SPEC_CODES_def)
  show "distinct ALL_SPEC_CODES" by (simp add: ALL_SPEC_CODES_def)
  show "{c. \<exists>e. spec_code e = Some c} = set ALL_SPEC_CODES"
  proof
    show "{c. \<exists>e. spec_code e = Some c} \<subseteq> set ALL_SPEC_CODES"
      using spec_code_in_inventory by auto
    have "list_all (\<lambda>c. \<exists>e. spec_code e = Some c) ALL_SPEC_CODES"
      unfolding ALL_SPEC_CODES_def list.pred_inject
      by (intro conjI; ((rule exI, rule spec_code.simps) | simp))
    then show "set ALL_SPEC_CODES \<subseteq> {c. \<exists>e. spec_code e = Some c}"
      by (auto simp: list_all_iff)
  qed
  show "{e. \<exists>c. spec_code e = Some c \<and> take (length c + 1) (display e) \<noteq> c @ '':''} = {}"
    using display_prefix by auto
qed

end
