(* ===== verification/Wire.thy ===== *)
theory Wire
  imports Cove_Error
begin

text \<open>
  Primitive wire rules: \<^verbatim>\<open>wire.rs\<close> (LEB128, ZigZag, bounds-checked reads, strict
  booleans, UUIDs), \<^verbatim>\<open>checksum.rs\<close> and \<^verbatim>\<open>row_ref.rs\<close>, all of
  \<^verbatim>\<open>crates/cove-core/src\<close>, with the two contracts every format of the library meets:
  a codec of fixed width (\<open>fixed_codec\<close>) and a self-delimiting one
  (\<open>delimited_codec\<close>).

  CRC32C is computed by the \<^verbatim>\<open>crc32c\<close> crate, so it is a parameter \<open>crc\<close> of the
  definitions that use it, of type \<open>bytes \<Rightarrow> u32\<close>.
\<close>

section \<open>LEB128\<close>

lemma drop_bit_7_less: "drop_bit 7 (w :: u64) \<noteq> 0 \<Longrightarrow> unat (drop_bit 7 w) < unat w"
proof -
  assume a: "drop_bit 7 w \<noteq> 0"
  have e: "unat (drop_bit 7 w) = unat w div 128"
    by (simp add: unat_drop_bit_eq drop_bit_eq_div [of 7 "unat w"])
  have "unat (drop_bit 7 w) \<noteq> 0" using a by (metis unsigned_0 unat_eq_zero)
  with e show ?thesis by simp
qed

function append_u64_leb128 :: "bytes \<Rightarrow> u64 \<Rightarrow> bytes" where
  "append_u64_leb128 out value =
     (let byte = ucast (value AND 0x7f) :: u8;
          rest = drop_bit 7 value;
          byte' = (if rest \<noteq> 0 then byte OR 0x80 else byte);
          out' = out @ [byte']
      in if rest = 0 then out' else append_u64_leb128 out' rest)"
  by pat_completeness auto

termination
  by (relation "measure (\<lambda>(out, value). unat value)") (auto simp: drop_bit_7_less)

declare append_u64_leb128.simps [simp del]

definition encode_u64_leb128 :: "u64 \<Rightarrow> bytes" where
  "encode_u64_leb128 value = append_u64_leb128 [] value"

text \<open>
  The loop of \<^verbatim>\<open>decode_u64_leb128\<close>: \<open>i\<close> bytes are consumed, \<open>value\<close> is the
  accumulator and \<open>shift\<close> the position of the next 7-bit chunk (a \<^verbatim>\<open>u32\<close>; the
  \<^verbatim>\<open>checked_add\<close> on it cannot overflow below 64 and keeps its branch).
\<close>

fun decode_leb_loop :: "bytes \<Rightarrow> nat \<Rightarrow> u64 \<Rightarrow> nat \<Rightarrow> (u64 \<times> nat) res" where
  "decode_leb_loop [] i value shift = Fail BufferTooShort"
| "decode_leb_loop (byte # rest) i value shift =
     (let low = ucast (byte AND 0x7f) :: u64 in
      if 64 \<le> shift then Fail ArithOverflow
      else
        let remaining_bits = 64 - shift in
        if remaining_bits < 7 \<and> push_bit remaining_bits 1 \<le> low then Fail ArithOverflow
        else
          let value' = value OR push_bit shift low in
          if byte AND 0x80 = 0 then Ok (value', i + 1)
          else if \<not> shift + 7 < 2 ^ 32 then Fail ArithOverflow
          else if 64 \<le> shift + 7 then Fail ArithOverflow
          else decode_leb_loop rest (i + 1) value' (shift + 7))"

definition decode_u64_leb128 :: "bytes \<Rightarrow> (u64 \<times> nat) res" where
  "decode_u64_leb128 bs = decode_leb_loop bs 0 0 0"

lemma append_u64_leb128_append:
  "append_u64_leb128 out v = out @ encode_u64_leb128 v"
proof (induction "unat v" arbitrary: out v rule: less_induct)
  case less
  show ?case
  proof (cases "drop_bit 7 v = 0")
    case True
    then show ?thesis
      by (simp add: encode_u64_leb128_def [of v] append_u64_leb128.simps [of _ v] Let_def)
  next
    case False
    have "append_u64_leb128 o' (drop_bit 7 v) = o' @ encode_u64_leb128 (drop_bit 7 v)" for o'
      using less [OF drop_bit_7_less [OF False]] .
    with False show ?thesis
      by (simp add: encode_u64_leb128_def [of v] append_u64_leb128.simps [of _ v] Let_def)
  qed
qed

lemma encode_u64_leb128_unfold:
  "encode_u64_leb128 v =
     (if drop_bit 7 v = 0 then [ucast (v AND 127)]
      else (ucast (v AND 127) OR 128) # encode_u64_leb128 (drop_bit 7 v))"
  unfolding encode_u64_leb128_def [of v]
  by (simp add: append_u64_leb128.simps [of "[]" v] append_u64_leb128_append [of "[x]" for x] Let_def)

lemma mask_7: "(127 :: 'a::len word) = mask 7"
  by (simp add: mask_eq_exp_minus_1)

lemma bit_128 [simp]: "bit (128 :: int) k \<longleftrightarrow> k = 7"
proof -
  have "(128 :: int) = 2 ^ 7" by simp
  then show ?thesis by (simp only: bit_exp_iff) auto
qed

lemma leb_last_byte:
  "ucast ((ucast ((v :: u64) AND 127) :: u8) AND 127) = v AND 127"
  "(ucast (v AND 127) :: u8) AND 128 = 0"
  by (rule bit_word_eqI; auto simp: mask_7 bit_simps bit_128)+

lemma leb_more_byte:
  "ucast (((ucast ((v :: u64) AND 127) :: u8) OR 128) AND 127) = v AND 127"
  "((ucast (v AND 127) :: u8) OR 128) AND 128 \<noteq> 0"
proof -
  show "ucast (((ucast (v AND 127) :: u8) OR 128) AND 127) = v AND 127"
    by (rule bit_word_eqI) (auto simp: mask_7 bit_simps bit_128)
  have "bit (((ucast (v AND 127) :: u8) OR 128) AND 128) 7"
    by (simp add: bit_simps bit_128)
  then show "((ucast (v AND 127) :: u8) OR 128) AND 128 \<noteq> 0" by auto
qed

lemma unat_exp_2: "n < LENGTH('a) \<Longrightarrow> unat (2 ^ n :: 'a::len word) = 2 ^ n"
  using unat_of_nat_less [of "2 ^ n", where ?'a = 'a] by simp

lemma low7_less:
  assumes "drop_bit n (v :: u64) = 0" "n < 64"
  shows "\<not> push_bit n 1 \<le> v AND 127"
proof -
  have "v AND 127 \<le> v" by (simp add: word_and_le2)
  moreover have "unat v div 2 ^ n = 0"
    using assms by (metis drop_bit_eq_div unat_drop_bit_eq unsigned_0)
  then have "unat v < 2 ^ n" by (simp add: div_eq_0_iff)
  ultimately show ?thesis
    using assms(2) by (simp add: word_le_nat_alt push_bit_eq_mult unat_exp_2)
qed

lemma leb_accumulate:
  "(acc OR push_bit s (v AND 127)) OR push_bit (s + 7) (drop_bit 7 v) = acc OR push_bit s (v :: u64)"
proof (rule bit_word_eqI)
  fix k assume k: "k < LENGTH(64)"
  show "bit ((acc OR push_bit s (v AND 127)) OR push_bit (s + 7) (drop_bit 7 v)) k = bit (acc OR push_bit s v) k"
  proof (cases "s + 7 \<le> k")
    case True
    then have "7 + (k - (s + 7)) = k - s" by simp
    with k show ?thesis by (auto simp: bit_simps mask_7)
  next
    case False
    with k show ?thesis by (auto simp: bit_simps mask_7)
  qed
qed

lemma drop_bit_7_nonzero_shift:
  assumes "drop_bit (64 - s) (v :: u64) = 0" "drop_bit 7 v \<noteq> 0"
  shows "s + 7 < 64"
proof (rule ccontr)
  assume "\<not> s + 7 < 64"
  then have "7 = (64 - s) + (7 - (64 - s))" by simp
  then have "drop_bit 7 v = drop_bit (7 - (64 - s)) (drop_bit (64 - s) v)"
    by (metis drop_bit_drop_bit add.commute)
  with assms show False by simp
qed

lemma decode_leb_loop_step:
  assumes "s < 64" "ucast (b AND 127) = (low :: u64)"
    and "\<not> (64 - s < 7 \<and> push_bit (64 - s) 1 \<le> low)"
  shows "decode_leb_loop (b # rest) i acc s =
    (if b AND 128 = 0 then Ok (acc OR push_bit s low, i + 1)
     else if 64 \<le> s + 7 then Fail ArithOverflow
     else decode_leb_loop rest (i + 1) (acc OR push_bit s low) (s + 7))"
proof -
  have "\<not> 64 \<le> s" "s + 7 < 2 ^ 32" using assms(1) by auto
  then show ?thesis
    unfolding decode_leb_loop.simps Let_def assms(2)
    using assms(3) by (simp only: if_False if_not_P not_True_eq_False)
qed

lemma decode_leb_loop_encode:
  "s < 64 \<Longrightarrow> drop_bit (64 - s) v = 0 \<Longrightarrow>
   decode_leb_loop (encode_u64_leb128 v @ rest) i acc s =
     Ok (acc OR push_bit s v, i + length (encode_u64_leb128 v))"
proof (induction "unat v" arbitrary: v i acc s rule: less_induct)
  case less
  have low: "\<not> (64 - s < 7 \<and> push_bit (64 - s) 1 \<le> v AND 127)"
  proof
    assume a: "64 - s < 7 \<and> push_bit (64 - s) 1 \<le> v AND 127"
    then show False using low7_less [of "64 - s" v] less.prems by simp
  qed
  show ?case
  proof (cases "drop_bit 7 v = 0")
    case True
    then have e: "encode_u64_leb128 v = [ucast (v AND 127)]"
      by (simp add: encode_u64_leb128_unfold [of v])
    have v: "push_bit s (v AND 127) = push_bit s v"
      using leb_accumulate [of 0 s v] True by simp
    have "decode_leb_loop (encode_u64_leb128 v @ rest) i acc s = Ok (acc OR push_bit s (v AND 127), i + 1)"
      unfolding e append_Cons
      using decode_leb_loop_step [OF less.prems(1) leb_last_byte(1) low]
      by (simp only: leb_last_byte simp_thms if_True)
    then show ?thesis by (simp only: v e) simp
  next
    case False
    have s7: "s + 7 < 64" using drop_bit_7_nonzero_shift less.prems False by blast
    have d: "drop_bit (64 - (s + 7)) (drop_bit 7 v) = 0"
      using less.prems s7 by (simp add: drop_bit_drop_bit)
    have e: "encode_u64_leb128 v = (ucast (v AND 127) OR 128) # encode_u64_leb128 (drop_bit 7 v)"
      using False by (subst encode_u64_leb128_unfold) simp
    have "decode_leb_loop (encode_u64_leb128 v @ rest) i acc s =
        decode_leb_loop (encode_u64_leb128 (drop_bit 7 v) @ rest) (i + 1)
          (acc OR push_bit s (v AND 127)) (s + 7)"
      unfolding e append_Cons
      using decode_leb_loop_step [OF less.prems(1) leb_more_byte(1) low] s7
      by (simp only: leb_more_byte if_False not_le [symmetric])
    also have "\<dots> = Ok ((acc OR push_bit s (v AND 127)) OR push_bit (s + 7) (drop_bit 7 v),
        (i + 1) + length (encode_u64_leb128 (drop_bit 7 v)))"
      using less.hyps [OF drop_bit_7_less [OF False] s7 d] .
    also have "\<dots> = Ok (acc OR push_bit s v, i + length (encode_u64_leb128 v))"
      by (simp only: leb_accumulate) (simp add: e)
    finally show ?thesis .
  qed
qed

lemma drop_bit_eq_zero_64: "drop_bit 64 (v :: u64) = 0"
  by (rule bit_word_eqI) (simp add: bit_simps bit_imp_le_length)

lemma decode_encode_u64_leb128:
  "decode_u64_leb128 (encode_u64_leb128 v @ rest) = Ok (v, length (encode_u64_leb128 v))"
  using decode_leb_loop_encode [of 0 v rest 0 0]
  by (simp add: decode_u64_leb128_def drop_bit_eq_zero_64)


lemma no_panic_decode_leb_loop: "no_panic (decode_leb_loop bs i acc s)"
  by (induction bs i acc s rule: decode_leb_loop.induct) (auto simp: Let_def)

lemma no_panic_decode_u64_leb128 [no_panic_intros, simp]: "no_panic (decode_u64_leb128 bs)"
  by (simp add: decode_u64_leb128_def no_panic_decode_leb_loop)

text \<open>
  The reference reading of LEB128 bytes: the seven low bits of each byte up to
  the first without continuation bit, least significant first, as a natural number.
\<close>

fun leb_number :: "bytes \<Rightarrow> (nat \<times> nat) option" where
  "leb_number [] = None"
| "leb_number (byte # rest) =
     (if byte AND 128 = 0 then Some (unat (byte AND 127), 1)
      else case leb_number rest of
        None \<Rightarrow> None
      | Some (x, n) \<Rightarrow> Some (unat (byte AND 127) + 128 * x, n + 1))"

lemma unat_or_push_bit:
  assumes "unat acc < 2 ^ s" "2 ^ s * unat low < 2 ^ 64" "s < 64"
  shows "unat (acc OR push_bit s (low :: u64)) = unat acc + 2 ^ s * unat low"
proof -
  have "acc AND push_bit s low = 0"
  proof (rule bit_word_eqI)
    fix k assume k: "k < LENGTH(64)"
    have "\<not> bit acc k" if "s \<le> k"
    proof -
      have "unat acc < 2 ^ k" using less_le_trans [OF assms(1) power_increasing [OF that]] by simp
      then have "\<not> bit (unat acc) k" by (simp add: bit_iff_odd)
      then show ?thesis by (simp add: bit_unsigned_iff)
    qed
    then show "bit (acc AND push_bit s low) k = bit (0 :: u64) k"
      by (auto simp: bit_simps)
  qed
  then have e: "acc OR push_bit s low = acc + push_bit s low"
    by (simp add: disjunctive_add_eq_or)
  have p: "unat (push_bit s low) = 2 ^ s * unat low"
    using assms by (simp add: push_bit_eq_mult unat_word_ariths unat_exp_2 mult.commute)
  have "unat acc + 2 ^ s * unat low < 2 ^ 64"
  proof -
    have "2 ^ s * unat low + 2 ^ s \<le> (2::nat) ^ 64"
    proof -
      have "(2::nat) ^ 64 = 2 ^ s * 2 ^ (64 - s)" using assms(3) by (simp flip: power_add)
      then have "2 ^ s * unat low < 2 ^ s * 2 ^ (64 - s)" using assms(2) by simp
      then have "Suc (unat low) \<le> 2 ^ (64 - s)" by simp
      then have "2 ^ s * Suc (unat low) \<le> 2 ^ s * 2 ^ (64 - s)" by (rule mult_le_mono2)
      then show ?thesis using \<open>(2::nat) ^ 64 = 2 ^ s * 2 ^ (64 - s)\<close> by simp
    qed
    then show ?thesis using assms(1) by simp
  qed
  then have "unat (acc + push_bit s low) = unat acc + unat (push_bit s low)"
    using p by (intro unat_add_no_overflow) simp
  then show ?thesis using e p by simp
qed

lemma leb_guard:
  assumes "s < 64" "low = (ucast (b AND 127 :: u8) :: u64)"
  shows "unat low = unat (b AND 127)" "unat low < 128"
    and "(64 - s < 7 \<and> push_bit (64 - s) 1 \<le> low) \<longleftrightarrow> 2 ^ 64 \<le> 2 ^ s * unat low"
proof -
  show l: "unat low = unat (b AND 127)" using assms(2) by (simp add: unat_u8_less unsigned_ucast_eq take_bit_nat_eq_self less_trans [OF unat_u8_less])
  have "b AND 127 \<le> 127" by (rule word_and_le1)
  then show m: "unat low < 128" unfolding l by (simp add: word_le_nat_alt)
  have e: "(2::nat) ^ 64 = 2 ^ s * 2 ^ (64 - s)" using assms(1) by (simp flip: power_add)
  have r: "2 ^ 64 \<le> 2 ^ s * unat low \<longleftrightarrow> 2 ^ (64 - s) \<le> unat low"
    unfolding e by simp
  show "(64 - s < 7 \<and> push_bit (64 - s) 1 \<le> low) \<longleftrightarrow> 2 ^ 64 \<le> 2 ^ s * unat low"
  proof (cases "64 - s < 7")
    case True
    then have "unat (push_bit (64 - s) 1 :: u64) = 2 ^ (64 - s)"
      by (simp add: push_bit_eq_mult unat_exp_2)
    then show ?thesis using r True by (simp add: word_le_nat_alt del: push_bit_of_1)
  next
    case False
    then have "(2::nat) ^ 7 \<le> 2 ^ (64 - s)" by (intro power_increasing) auto
    then have "unat low < 2 ^ (64 - s)" using m by simp
    then show ?thesis using r False by simp
  qed
qed

lemma decode_leb_loop_iff:
  "i < 10 \<Longrightarrow> unat acc < 2 ^ (7 * i) \<Longrightarrow>
   decode_leb_loop bs i acc (7 * i) = Ok (v, n) \<longleftrightarrow>
     (\<exists>x m. leb_number bs = Some (x, m) \<and> n = i + m \<and> n \<le> 10 \<and> unat v = unat acc + 2 ^ (7 * i) * x)"
proof (induction bs arbitrary: i acc)
  case Nil
  then show ?case by simp
next
  case (Cons b rest)
  define low where "low = (ucast (b AND 127) :: u64)"
  have s: "7 * i < 64" using Cons.prems(1) by simp
  note lo = leb_guard [OF s low_def]
  show ?case
  proof (cases "2 ^ 64 \<le> 2 ^ (7 * i) * unat low")
    case True
    then have g: "64 - 7 * i < 7 \<and> push_bit (64 - 7 * i) 1 \<le> low" using lo(3) by blast
    have "decode_leb_loop (b # rest) i acc (7 * i) = Fail ArithOverflow"
      using g s unfolding decode_leb_loop.simps Let_def low_def by (simp only: if_not_P simp_thms if_True not_le)
    moreover have False if "leb_number (b # rest) = Some (x, m)" "unat v = unat acc + 2 ^ (7 * i) * x" for x m
    proof -
      have "unat low \<le> x" using that(1) lo(1) by (auto split: if_splits option.splits)
      then have "2 ^ (7 * i) * unat low \<le> 2 ^ (7 * i) * x" by simp
      then have "(2::nat) ^ 64 \<le> unat v" using True that(2) by linarith
      then show False using unat_u64_less [of v] by simp
    qed
    ultimately show ?thesis by auto
  next
    case False
    then have step: "decode_leb_loop (b # rest) i acc (7 * i) =
      (if b AND 128 = 0 then Ok (acc OR push_bit (7 * i) low, i + 1)
       else if 64 \<le> 7 * i + 7 then Fail ArithOverflow
       else decode_leb_loop rest (i + 1) (acc OR push_bit (7 * i) low) (7 * i + 7))"
      using lo(3) by (intro decode_leb_loop_step [OF s low_def [symmetric]]) blast
    have u: "unat (acc OR push_bit (7 * i) low) = unat acc + 2 ^ (7 * i) * unat low"
      using unat_or_push_bit [OF Cons.prems(2) _ s] False by simp
    show ?thesis
    proof (cases "b AND 128 = 0")
      case True
      have "v = acc OR push_bit (7 * i) low \<longleftrightarrow> unat v = unat acc + 2 ^ (7 * i) * unat low"
        unfolding u [symmetric] by (simp add: word_unat_eq_iff)
      then show ?thesis using True Cons.prems(1) step lo(1) by (auto simp del: decode_leb_loop.simps)
    next
      case cont: False
      show ?thesis
      proof (cases "i = 9")
        case True
        have "m \<noteq> 0" if "leb_number rest = Some (x, m)" for x m
          using that by (cases rest) (auto split: if_splits option.splits)
        then show ?thesis using True cont step
          by (auto simp del: decode_leb_loop.simps split: option.splits)
      next
        case i9: False
        then have i: "i + 1 < 10" using Cons.prems(1) by simp
        have "2 ^ (7 * i) * unat low + 2 ^ (7 * i) \<le> 2 ^ (7 * i) * 128"
          using mult_le_mono2 [of "Suc (unat low)" 128 "2 ^ (7 * i)"] lo(2) by simp
        then have "unat (acc OR push_bit (7 * i) low) < 2 ^ (7 * i) * 128"
          using u Cons.prems(2) by linarith
        then have a: "unat (acc OR push_bit (7 * i) low) < 2 ^ (7 * (i + 1))"
          by (simp add: power_add)
        have "decode_leb_loop (b # rest) i acc (7 * i) = Ok (v, n) \<longleftrightarrow>
          (\<exists>x m. leb_number rest = Some (x, m) \<and> n = i + 1 + m \<and> n \<le> 10 \<and>
             unat v = unat acc + 2 ^ (7 * i) * unat low + 2 ^ (7 * (i + 1)) * x)"
          using Cons.IH [OF i a] step cont i u by (simp del: decode_leb_loop.simps add: add.commute)
        then show ?thesis using cont lo(1)
          by (auto simp del: decode_leb_loop.simps simp: power_add algebra_simps split: option.splits)
      qed
    qed
  qed
qed

lemma decode_u64_leb128_iff:
  "decode_u64_leb128 bs = Ok (v, n) \<longleftrightarrow> leb_number bs = Some (unat v, n) \<and> n \<le> 10"
  unfolding decode_u64_leb128_def
  using decode_leb_loop_iff [of 0 0 bs v n] by auto

lemma leb_number_bounds:
  "leb_number bs = Some (x, n) \<Longrightarrow> 0 < n \<and> n \<le> length bs \<and> x < 128 ^ n"
proof (induction bs arbitrary: x n)
  case (Cons b rest)
  have "b AND 127 \<le> 127" by (rule word_and_le1)
  then have l: "unat (b AND 127) < 128" by (simp add: word_le_nat_alt)
  show ?case
  proof (cases "b AND 128 = 0")
    case False
    then obtain y m where r: "leb_number rest = Some (y, m)" "x = unat (b AND 127) + 128 * y" "n = m + 1"
      using Cons.prems by (auto split: option.splits)
    then show ?thesis using Cons.IH [OF r(1)] l by auto
  qed (use Cons.prems l in auto)
qed simp

lemma length_encode_le: "drop_bit (7 * m) v = 0 \<Longrightarrow> 0 < m \<Longrightarrow> length (encode_u64_leb128 v) \<le> m"
proof (induction m arbitrary: v)
  case (Suc m)
  show ?case
  proof (cases "drop_bit 7 v = 0")
    case True
    then show ?thesis by (subst encode_u64_leb128_unfold) simp
  next
    case False
    then have "0 < m" using Suc.prems(1) by (cases m) auto
    moreover have "drop_bit (7 * m) (drop_bit 7 v) = 0"
      using Suc.prems(1) by (simp add: drop_bit_drop_bit add.commute)
    ultimately have "length (encode_u64_leb128 (drop_bit 7 v)) \<le> m"
      using Suc.IH by blast
    then show ?thesis using False by (subst encode_u64_leb128_unfold) simp
  qed
qed simp

lemma decode_u64_leb128_Ok:
  assumes "decode_u64_leb128 bs = Ok (v, n)"
  shows "0 < n" "n \<le> length bs" "n \<le> 10" "length (encode_u64_leb128 v) \<le> n"
proof -
  from assms have l: "leb_number bs = Some (unat v, n)" and n: "n \<le> 10"
    by (auto simp: decode_u64_leb128_iff)
  note b = leb_number_bounds [OF l]
  then show "0 < n" "n \<le> length bs" "n \<le> 10" using n by auto
  have "unat v < 2 ^ (7 * n)" using b by (simp add: power_mult)
  moreover have "unat (drop_bit (7 * n) v) = unat v div 2 ^ (7 * n)"
    by (simp only: unat_drop_bit_eq) (simp only: drop_bit_eq_div)
  ultimately have "unat (drop_bit (7 * n) v) = 0" by simp
  then have "drop_bit (7 * n) v = 0" by (metis unat_eq_zero)
  then show "length (encode_u64_leb128 v) \<le> n" using b by (intro length_encode_le) auto
qed

lemma encode_u64_leb128_length: "0 < length (encode_u64_leb128 v)" "length (encode_u64_leb128 v) \<le> 10"
proof -
  show "0 < length (encode_u64_leb128 v)" by (subst encode_u64_leb128_unfold) simp
  show "length (encode_u64_leb128 v) \<le> 10"
    using decode_u64_leb128_Ok(3) [OF decode_encode_u64_leb128 [of v "[]"]] .
qed

section \<open>ZigZag\<close>

definition zigzag_encode_i64 :: "i64 \<Rightarrow> u64" where
  "zigzag_encode_i64 value = push_bit 1 value XOR signed_drop_bit 63 value"

definition zigzag_decode_i64 :: "u64 \<Rightarrow> i64" where
  "zigzag_decode_i64 value = drop_bit 1 value XOR (- (value AND 1))"

lemma bit_zigzag_encode:
  "bit (zigzag_encode_i64 v) k \<longleftrightarrow> k < 64 \<and> ((0 < k \<and> bit v (k - 1)) \<noteq> bit v 63)"
proof (cases "k < 64")
  case True
  have "bit (push_bit 1 v) k \<longleftrightarrow> 0 < k \<and> bit v (k - 1)"
    using True by (simp only: bit_push_bit_iff possible_bit_word) auto
  moreover have "bit (signed_drop_bit 63 v) k \<longleftrightarrow> bit v 63"
    using True by (cases k) (simp_all add: bit_signed_drop_bit_iff)
  ultimately show ?thesis
    using True by (simp only: zigzag_encode_i64_def bit_xor_iff) simp
next
  case False
  then show ?thesis by (auto dest: bit_imp_le_length)
qed

lemma bit_zigzag_decode:
  "bit (zigzag_decode_i64 w) k \<longleftrightarrow> k < 64 \<and> (bit w (k + 1) \<noteq> bit w 0)"
proof (cases "k < 64")
  case True
  have s: "w AND 1 = (if bit w 0 then 1 else 0)"
    by (rule bit_word_eqI) (auto simp: bit_simps bit_0)
  have "bit (- (w AND 1)) k \<longleftrightarrow> bit w 0"
    using True by (simp only: s) (simp add: possible_bit_word)
  then show ?thesis
    using True by (simp only: zigzag_decode_i64_def bit_xor_iff bit_drop_bit_eq o_apply) (simp add: add.commute)
next
  case False
  then show ?thesis by (auto dest: bit_imp_le_length)
qed

lemma zigzag_decode_encode: "zigzag_decode_i64 (zigzag_encode_i64 v) = v"
proof (rule bit_word_eqI)
  fix k assume k: "k < LENGTH(64)"
  then show "bit (zigzag_decode_i64 (zigzag_encode_i64 v)) k = bit v k"
    by (cases "k = 63") (auto simp: bit_zigzag_decode bit_zigzag_encode)
qed

lemma zigzag_encode_decode: "zigzag_encode_i64 (zigzag_decode_i64 w) = w"
proof (rule bit_word_eqI)
  fix k assume k: "k < LENGTH(64)"
  have "\<not> bit w 64" by (auto dest: bit_imp_le_length)
  with k show "bit (zigzag_encode_i64 (zigzag_decode_i64 w)) k = bit w k"
    by (cases k) (auto simp: bit_zigzag_encode bit_zigzag_decode)
qed

lemma bit_63_iff_sint: "bit (v :: i64) 63 \<longleftrightarrow> sint v < 0"
  by (simp add: sint_uint signed_take_bit_negative_iff bit_uint_iff)

lemma zigzag_encode_alt:
  "zigzag_encode_i64 v = (if bit v 63 then - 2 * v - 1 else 2 * v)"
proof (cases "bit v 63")
  case True
  have "signed_drop_bit 63 v = - 1"
  proof (rule bit_word_eqI)
    fix n assume "n < LENGTH(64)"
    then show "bit (signed_drop_bit 63 v) n = bit (- 1 :: i64) n"
      using True by (cases n) (simp_all add: bit_signed_drop_bit_iff)
  qed
  then show ?thesis using True by (simp add: zigzag_encode_i64_def not_eq_complement)
next
  case False
  have "signed_drop_bit 63 v = 0" 
  proof (rule bit_word_eqI)
    fix n assume "n < LENGTH(64)"
    then show "bit (signed_drop_bit 63 v) n = bit (0 :: i64) n"
      using False by (cases n) (simp_all add: bit_signed_drop_bit_iff)
  qed
  then show ?thesis using False by (simp add: zigzag_encode_i64_def)
qed

lemma uint_of_int_id: "0 \<le> x \<Longrightarrow> x < 2 ^ 64 \<Longrightarrow> uint (of_int x :: u64) = x"
  by (simp add: unsigned_of_int take_bit_int_eq_self)

lemma zigzag_encode_magnitude:
  "uint (zigzag_encode_i64 v) = (if sint v < 0 then - 2 * sint v - 1 else 2 * sint v)"
proof -
  have r: "- (2 ^ 63) \<le> sint v" "sint v < 2 ^ 63"
    using sint_ge [of v] sint_lt [of v] by simp_all
  have "zigzag_encode_i64 v = of_int (if sint v < 0 then - 2 * sint v - 1 else 2 * sint v)"
    by (simp add: zigzag_encode_alt bit_63_iff_sint)
  then show ?thesis
    using r by (simp only:) (rule uint_of_int_id; auto)
qed

section \<open>Bounds-checked reads\<close>

definition read_range_checked :: "bytes \<Rightarrow> nat \<Rightarrow> nat \<Rightarrow> bytes res" where
  "read_range_checked bs offset len =
     and_then (ok_or ArithOverflow (checked_add offset len)) (\<lambda>end'.
     if length bs < end' then Fail OffsetRange else slice bs offset end')"

definition read_u8_checked :: "bytes \<Rightarrow> nat \<Rightarrow> u8 res" where
  "read_u8_checked bs offset = and_then (read_range_checked bs offset 1) (\<lambda>slice. index slice 0)"

definition copy_from_slice :: "'a list \<Rightarrow> 'a list \<Rightarrow> 'a list res" where
  "copy_from_slice dst src = (if length dst = length src then Ok src else Panicked)"

definition read_array_checked :: "nat \<Rightarrow> bytes \<Rightarrow> nat \<Rightarrow> bytes res" where
  "read_array_checked n bs offset =
     and_then (read_range_checked bs offset n) (\<lambda>raw. copy_from_slice (replicate n 0) raw)"

definition read_u16_le_checked :: "bytes \<Rightarrow> nat \<Rightarrow> u16 res" where
  "read_u16_le_checked bs offset = map_ok of_le (read_array_checked 2 bs offset)"

definition read_i16_le_checked :: "bytes \<Rightarrow> nat \<Rightarrow> u16 res" where
  "read_i16_le_checked bs offset = map_ok of_le (read_array_checked 2 bs offset)"

definition read_i32_le_checked :: "bytes \<Rightarrow> nat \<Rightarrow> u32 res" where
  "read_i32_le_checked bs offset = map_ok of_le (read_array_checked 4 bs offset)"

definition read_u32_le_checked :: "bytes \<Rightarrow> nat \<Rightarrow> u32 res" where
  "read_u32_le_checked bs offset = map_ok of_le (read_array_checked 4 bs offset)"

definition read_u64_le_checked :: "bytes \<Rightarrow> nat \<Rightarrow> u64 res" where
  "read_u64_le_checked bs offset = map_ok of_le (read_array_checked 8 bs offset)"

definition read_i64_le_checked :: "bytes \<Rightarrow> nat \<Rightarrow> i64 res" where
  "read_i64_le_checked bs offset = map_ok of_le (read_array_checked 8 bs offset)"

definition read_i128_le_checked :: "bytes \<Rightarrow> nat \<Rightarrow> u128 res" where
  "read_i128_le_checked bs offset = map_ok of_le (read_array_checked 16 bs offset)"

definition parse_bool_strict :: "u8 \<Rightarrow> bool res" where
  "parse_bool_strict byte =
     (if byte = 0 then Ok False
      else if byte = 1 then Ok True
      else Fail (BadSection (''invalid boolean byte: '' @ decimal (unat byte))))"

definition read_uuid :: "bytes \<Rightarrow> nat \<Rightarrow> bytes res" where
  "read_uuid bs offset =
     and_then (read_range_checked bs offset 16) (\<lambda>raw. copy_from_slice (replicate 16 0) raw)"

definition write_uuid :: "bytes \<Rightarrow> bytes \<Rightarrow> bytes" where
  "write_uuid dst uuid = dst @ uuid"

text \<open>A read has three outcomes, decided by the range alone.\<close>

lemma read_range_checked_eq:
  "read_range_checked bs off n =
     (if usize_limit \<le> off + n then Fail ArithOverflow
      else if length bs < off + n then Fail OffsetRange
      else Ok (sub bs off n))"
  by (auto simp: read_range_checked_def checked_add_def slice_def sub_def)

lemma read_array_checked_eq: "read_array_checked n bs off = read_range_checked bs off n"
  by (auto simp: read_array_checked_def read_range_checked_eq copy_from_slice_def length_sub)

lemma read_u8_checked_eq:
  "read_u8_checked bs off =
     (if usize_limit \<le> off + 1 then Fail ArithOverflow
      else if length bs < off + 1 then Fail OffsetRange
      else Ok (bs ! off))"
  by (auto simp: read_u8_checked_def read_range_checked_eq index_def length_sub nth_sub sub_singleton)

lemmas read_defs = read_u16_le_checked_def read_i16_le_checked_def read_u32_le_checked_def
  read_i32_le_checked_def read_u64_le_checked_def read_i64_le_checked_def
  read_i128_le_checked_def read_array_checked_eq

lemma read_range_Ok [wire_simps]:
  "off + n < usize_limit \<Longrightarrow> off + n \<le> length bs \<Longrightarrow> read_range_checked bs off n = Ok (sub bs off n)"
  by (simp add: read_range_checked_eq)

lemma read_u8_Ok [wire_simps]:
  "off + 1 < usize_limit \<Longrightarrow> off < length bs \<Longrightarrow> read_u8_checked bs off = Ok (bs ! off)"
  by (simp add: read_u8_checked_eq)

lemma read_words_Ok [wire_simps]:
  "off + 2 < usize_limit \<Longrightarrow> off + 2 \<le> length bs \<Longrightarrow> read_u16_le_checked bs off = Ok (of_le (sub bs off 2))"
  "off + 2 < usize_limit \<Longrightarrow> off + 2 \<le> length bs \<Longrightarrow> read_i16_le_checked bs off = Ok (of_le (sub bs off 2))"
  "off + 4 < usize_limit \<Longrightarrow> off + 4 \<le> length bs \<Longrightarrow> read_u32_le_checked bs off = Ok (of_le (sub bs off 4))"
  "off + 4 < usize_limit \<Longrightarrow> off + 4 \<le> length bs \<Longrightarrow> read_i32_le_checked bs off = Ok (of_le (sub bs off 4))"
  "off + 8 < usize_limit \<Longrightarrow> off + 8 \<le> length bs \<Longrightarrow> read_u64_le_checked bs off = Ok (of_le (sub bs off 8))"
  "off + 8 < usize_limit \<Longrightarrow> off + 8 \<le> length bs \<Longrightarrow> read_i64_le_checked bs off = Ok (of_le (sub bs off 8))"
  "off + 16 < usize_limit \<Longrightarrow> off + 16 \<le> length bs \<Longrightarrow> read_i128_le_checked bs off = Ok (of_le (sub bs off 16))"
  by (simp_all add: read_defs read_range_checked_eq)

lemma read_range_Ok_iff:
  "read_range_checked bs off n = Inr r \<longleftrightarrow> off + n < usize_limit \<and> off + n \<le> length bs \<and> r = sub bs off n"
  by (auto simp: read_range_checked_eq)

lemma read_u8_Ok_iff:
  "read_u8_checked bs off = Inr v \<longleftrightarrow> off + 1 < usize_limit \<and> off < length bs \<and> v = bs ! off"
  by (auto simp: read_u8_checked_eq)

lemma read_words_Ok_iff:
  "read_u16_le_checked bs off = Inr w \<longleftrightarrow> off + 2 < usize_limit \<and> off + 2 \<le> length bs \<and> w = of_le (sub bs off 2)"
  "read_u32_le_checked bs off = Inr x \<longleftrightarrow> off + 4 < usize_limit \<and> off + 4 \<le> length bs \<and> x = of_le (sub bs off 4)"
  "read_u64_le_checked bs off = Inr y \<longleftrightarrow> off + 8 < usize_limit \<and> off + 8 \<le> length bs \<and> y = of_le (sub bs off 8)"
  "read_i64_le_checked bs off = Inr y \<longleftrightarrow> off + 8 < usize_limit \<and> off + 8 \<le> length bs \<and> y = of_le (sub bs off 8)"
  by (auto simp: read_defs read_range_checked_eq)

lemmas read_Ok_iffs = read_range_Ok_iff read_u8_Ok_iff read_words_Ok_iff

lemma no_panic_reads [no_panic_intros, simp]:
  "no_panic (read_range_checked bs off n)"
  "no_panic (read_array_checked n bs off)"
  "no_panic (read_u8_checked bs off)"
  "no_panic (read_u16_le_checked bs off)"
  "no_panic (read_i16_le_checked bs off)"
  "no_panic (read_u32_le_checked bs off)"
  "no_panic (read_i32_le_checked bs off)"
  "no_panic (read_u64_le_checked bs off)"
  "no_panic (read_i64_le_checked bs off)"
  "no_panic (read_i128_le_checked bs off)"
  by (auto simp: read_defs read_range_checked_eq read_u8_checked_eq intro!: no_panic_map_ok)

lemma no_panic_parse_bool_strict [no_panic_intros, simp]: "no_panic (parse_bool_strict b)"
  by (simp add: parse_bool_strict_def)

lemma parse_bool_strict_Ok_iff: "parse_bool_strict b = Inr v \<longleftrightarrow> b = (if v then 1 else 0)"
  by (auto simp: parse_bool_strict_def)

lemma read_uuid_Ok [wire_simps]:
  "off + 16 < usize_limit \<Longrightarrow> off + 16 \<le> length bs \<Longrightarrow> read_uuid bs off = Ok (sub bs off 16)"
  by (simp add: read_uuid_def read_range_checked_eq copy_from_slice_def length_sub)

lemma no_panic_read_uuid [no_panic_intros, simp]: "no_panic (read_uuid bs off)"
  by (auto simp: read_uuid_def read_range_checked_eq copy_from_slice_def length_sub no_panic_def)

section \<open>Checksums\<close>

definition verify_crc32c :: "(bytes \<Rightarrow> u32) \<Rightarrow> bytes \<Rightarrow> u32 \<Rightarrow> bool" where
  "verify_crc32c crc data expected \<longleftrightarrow> crc data = expected"

section \<open>Contracts of the codecs\<close>

text \<open>
  \<open>fixed_reader\<close>: a value written with \<open>enc\<close> takes \<open>width\<close> bytes and is
  read back at the offset where it was written. \<open>fixed_codec\<close>: the same
  for a parser that starts at the first byte and ignores what follows.
  \<open>delimited_codec\<close>: the parser finds the end of the value by itself.
\<close>

locale fixed_codec =
  fixes enc :: "'a \<Rightarrow> bytes" and dec :: "bytes \<Rightarrow> 'e exit + 'a" and width :: nat and wf :: "'a \<Rightarrow> bool"
  assumes enc_length: "wf x \<Longrightarrow> length (enc x) = width"
    and dec_enc: "wf x \<Longrightarrow> dec (enc x @ rest) = Ok x"
begin

lemma dec_enc_exact: "wf x \<Longrightarrow> dec (enc x) = Ok x"
  using dec_enc [of x "[]"] by simp

lemma enc_prefix_free: "wf x \<Longrightarrow> wf y \<Longrightarrow> enc x @ r = enc y @ s \<Longrightarrow> x = y"
  by (metis dec_enc sum.inject(2))

lemma enc_inject: "wf x \<Longrightarrow> wf y \<Longrightarrow> enc x = enc y \<longleftrightarrow> x = y"
  using enc_prefix_free [of x y "[]" "[]"] by auto

lemma array_length: "(\<And>x. x \<in> set xs \<Longrightarrow> wf x) \<Longrightarrow> length (concat (map enc xs)) = width * length xs"
  by (rule length_concat_fixed) (simp add: enc_length)

lemma array_item:
  assumes "\<And>x. x \<in> set xs \<Longrightarrow> wf x" "i < length xs" "off = length pre + i * width"
  shows "dec (sub (pre @ concat (map enc xs) @ post) off width) = Ok (xs ! i)"
proof -
  have "sub (pre @ concat (map enc xs) @ post) off width = enc (xs ! i)"
    using assms by (intro sub_concat_fixed_at) (auto simp: enc_length)
  then show ?thesis using dec_enc_exact assms by simp
qed

end

locale fixed_reader =
  fixes enc :: "'a \<Rightarrow> bytes" and read :: "bytes \<Rightarrow> nat \<Rightarrow> 'e exit + 'a" and width :: nat
  assumes enc_width: "length (enc x) = width"
    and read_enc: "length pre + width < usize_limit \<Longrightarrow> read (pre @ enc x @ post) (length pre) = Ok x"
    and width_small: "width < usize_limit"
begin

lemma read_at_0: "read (enc x @ post) 0 = Ok x"
  using read_enc [of "[]" x post] width_small by simp

lemma read_array:
  assumes "length pre + length xs * width < usize_limit" "off = length pre"
  shows "try_map (\<lambda>i. read (pre @ concat (map enc xs) @ post) (off + i * width)) [0..<length xs] = Ok xs"
proof -
  have "try_map (\<lambda>i. read (pre @ concat (map enc xs) @ post) (off + i * width)) [0..<length xs]
      = Ok (map (\<lambda>i. xs ! i) [0..<length xs])"
  proof (rule try_map_Ok)
    fix i assume "i \<in> set [0..<length xs]"
    then have i: "i < length xs" by simp
    let ?p = "pre @ concat (map enc (take i xs))"
    have l: "length ?p = off + i * width"
      using i assms(2) length_concat_fixed [of "take i xs" enc width] by (simp add: enc_width)
    have e: "pre @ concat (map enc xs) @ post
        = ?p @ enc (xs ! i) @ (concat (map enc (drop (Suc i) xs)) @ post)"
      using arg_cong [OF id_take_nth_drop [OF i], of "\<lambda>l. concat (map enc l)"] by simp
    have "Suc i * width \<le> length xs * width" using i by (intro mult_le_mono1) simp
    then have "length ?p + width < usize_limit" using assms l by simp
    then show "read (pre @ concat (map enc xs) @ post) (off + i * width) = Ok (xs ! i)"
      unfolding e l [symmetric] by (rule read_enc)
  qed
  then show ?thesis by (simp add: map_nth)
qed

end

sublocale fixed_reader \<subseteq> codec: fixed_codec enc "\<lambda>bs. read bs 0" width "\<lambda>_. True"
  by unfold_locales (simp_all add: enc_width read_at_0)

text \<open>\<open>exact_reader\<close>: moreover, what is read is what was written there.\<close>

locale exact_reader = fixed_reader +
  assumes read_Ok: "read bs off = Ok x \<Longrightarrow>
    off + width < usize_limit \<and> off + width \<le> length bs \<and> enc x = sub bs off width"
begin

lemma read_array_Ok:
  assumes "try_map (\<lambda>i. read bs (off + i * width)) [0..<n] = Ok xs"
  shows "length xs = n \<and> (0 < n \<longrightarrow> off + n * width < usize_limit \<and> off + n * width \<le> length bs) \<and>
    concat (map enc xs) = sub bs off (n * width)"
proof -
  have l: "length xs = n" using try_map_length [OF assms] by simp
  have i: "off + i * width + width < usize_limit \<and> off + i * width + width \<le> length bs \<and>
      enc (xs ! i) = sub bs (off + i * width) width" if "i < n" for i
    using try_map_nth [OF assms, of i] that by (intro read_Ok) simp
  have b: "off + n * width < usize_limit \<and> off + n * width \<le> length bs" if "0 < n"
    using i [of "n - 1"] that by (cases n) (auto simp: algebra_simps)
  have "map enc xs = map (\<lambda>i. sub bs (off + i * width) width) [0..<n]"
    using l i by (intro nth_equalityI) simp_all
  then have "concat (map enc xs) = sub bs off (n * width)"
    using b concat_sub_chunks [of off n width bs] by (cases "n = 0") (auto simp: sub_def)
  with l b show ?thesis by blast
qed

end

locale delimited_codec =
  fixes enc :: "'a \<Rightarrow> bytes" and dec :: "bytes \<Rightarrow> 'e exit + 'a \<times> nat" and wf :: "'a \<Rightarrow> bool"
  assumes dec_enc: "wf x \<Longrightarrow> dec (enc x @ rest) = Ok (x, length (enc x))"
begin

lemma enc_prefix_free:
  assumes "wf x" "wf y" "enc x @ r = enc y @ s"
  shows "x = y \<and> r = s"
proof -
  have "Inr (x, length (enc x)) = (Inr (y, length (enc y)) :: 'e exit + _)"
    using dec_enc [OF assms(1), of r] dec_enc [OF assms(2), of s] assms(3) by simp
  then show ?thesis using assms(3) by auto
qed

lemma enc_inject: "wf x \<Longrightarrow> wf y \<Longrightarrow> enc x = enc y \<longleftrightarrow> x = y"
  using enc_prefix_free [of x y "[]" "[]"] by auto

text \<open>Sequences of delimited values are decodable one after the other.\<close>

primrec dec_seq :: "nat \<Rightarrow> bytes \<Rightarrow> 'e exit + ('a list \<times> nat)" where
  "dec_seq 0 bs = Ok ([], 0)"
| "dec_seq (Suc n) bs =
     and_then (dec bs) (\<lambda>(x, used).
     and_then (dec_seq n (drop used bs)) (\<lambda>(xs, used'). Ok (x # xs, used + used')))"

lemma dec_seq_enc:
  "(\<And>x. x \<in> set xs \<Longrightarrow> wf x) \<Longrightarrow>
   dec_seq (length xs) (concat (map enc xs) @ rest) = Ok (xs, length (concat (map enc xs)))"
  by (induction xs) (auto simp: dec_enc)

lemma concat_inject:
  "(\<And>x. x \<in> set xs \<Longrightarrow> wf x) \<Longrightarrow> (\<And>y. y \<in> set ys \<Longrightarrow> wf y) \<Longrightarrow> length xs = length ys \<Longrightarrow>
   concat (map enc xs) @ r = concat (map enc ys) @ s \<Longrightarrow> xs = ys \<and> r = s"
proof (induction xs arbitrary: ys)
  case (Cons x xs)
  then obtain y ys' where ys: "ys = y # ys'" by (cases ys) auto
  have "x = y \<and> concat (map enc xs) @ r = concat (map enc ys') @ s"
    using enc_prefix_free [of x y] Cons.prems ys by simp
  then show ?case using Cons.IH [of ys'] Cons.prems ys by auto
qed simp

end

lemma le_bytes_of_le_take:
  "off + n \<le> length bs \<Longrightarrow> 8 * n = LENGTH('a) \<Longrightarrow>
   le_bytes n (of_le (take n (drop off bs)) :: 'a::len word) = take n (drop off bs)"
  by (rule le_bytes_of_le) simp_all

interpretation u16_reader: exact_reader "le_bytes 2" read_u16_le_checked 2
  by unfold_locales
    (auto simp: wire_simps usize_limit_def sub_def read_words_Ok_iff le_bytes_of_le_take)

interpretation u32_reader: exact_reader "le_bytes 4" read_u32_le_checked 4
  by unfold_locales
    (auto simp: wire_simps usize_limit_def sub_def read_words_Ok_iff le_bytes_of_le_take)

interpretation u64_reader: exact_reader "le_bytes 8" read_u64_le_checked 8
  by unfold_locales
    (auto simp: wire_simps usize_limit_def sub_def read_words_Ok_iff le_bytes_of_le_take)

interpretation i64_reader: exact_reader "le_bytes 8" read_i64_le_checked 8
  by unfold_locales
    (auto simp: wire_simps usize_limit_def sub_def read_words_Ok_iff le_bytes_of_le_take)

interpretation leb128: delimited_codec encode_u64_leb128 decode_u64_leb128 "\<lambda>_. True"
  by unfold_locales (rule decode_encode_u64_leb128)

section \<open>Stable row references\<close>

record row_ref =
  table_id :: u32
  segment_id :: u32
  morsel_id :: u32
  row_in_morsel :: u16

definition ROW_REF_ENCODED_LEN :: nat where
  "ROW_REF_ENCODED_LEN = 14"

definition row_ref_encode :: "row_ref \<Rightarrow> bytes" where
  "row_ref_encode r =
     (let out = replicate ROW_REF_ENCODED_LEN 0;
          out = copy_at out 0 (le_bytes 4 (table_id r));
          out = copy_at out 4 (le_bytes 4 (segment_id r));
          out = copy_at out 8 (le_bytes 4 (morsel_id r))
      in copy_at out 12 (le_bytes 2 (row_in_morsel r)))"

definition row_ref_decode :: "bytes \<Rightarrow> row_ref res" where
  "row_ref_decode bs =
     (if length bs < ROW_REF_ENCODED_LEN then Fail BufferTooShort
      else
        and_then (read_u32_le_checked bs 0) (\<lambda>table.
        and_then (read_u32_le_checked bs 4) (\<lambda>segment.
        and_then (read_u32_le_checked bs 8) (\<lambda>morsel.
        and_then (read_u16_le_checked bs 12) (\<lambda>row.
        Ok \<lparr>table_id = table, segment_id = segment, morsel_id = morsel, row_in_morsel = row\<rparr>)))))"

text \<open>The derived \<^verbatim>\<open>Ord\<close> compares the fields in declaration order.\<close>

instantiation row_ref_ext :: (linorder) linorder
begin

definition less_eq_row_ref_ext :: "'a row_ref_scheme \<Rightarrow> 'a row_ref_scheme \<Rightarrow> bool" where
  "less_eq_row_ref_ext a b \<longleftrightarrow>
     (if table_id a \<noteq> table_id b then table_id a < table_id b
      else if segment_id a \<noteq> segment_id b then segment_id a < segment_id b
      else if morsel_id a \<noteq> morsel_id b then morsel_id a < morsel_id b
      else if row_in_morsel a \<noteq> row_in_morsel b then row_in_morsel a < row_in_morsel b
      else row_ref.more a \<le> row_ref.more b)"

definition less_row_ref_ext :: "'a row_ref_scheme \<Rightarrow> 'a row_ref_scheme \<Rightarrow> bool" where
  "less_row_ref_ext a b \<longleftrightarrow> a \<le> b \<and> a \<noteq> b"

instance
proof
  fix a b c :: "'a row_ref_scheme"
  show "a < b \<longleftrightarrow> a \<le> b \<and> \<not> b \<le> a"
    by (auto simp: less_row_ref_ext_def less_eq_row_ref_ext_def split: if_splits)
  show "a \<le> a" by (simp add: less_eq_row_ref_ext_def)
  show "a \<le> b \<Longrightarrow> b \<le> c \<Longrightarrow> a \<le> c"
    by (auto simp: less_eq_row_ref_ext_def split: if_splits)
  show "a \<le> b \<Longrightarrow> b \<le> a \<Longrightarrow> a = b"
    by (auto simp: less_eq_row_ref_ext_def split: if_splits)
  show "a \<le> b \<or> b \<le> a"
    by (auto simp: less_eq_row_ref_ext_def)
qed

end

lemma row_ref_encode_eq:
  "row_ref_encode r = le_bytes 4 (table_id r) @ le_bytes 4 (segment_id r) @ le_bytes 4 (morsel_id r)
     @ le_bytes 2 (row_in_morsel r)"
  by (simp add: row_ref_encode_def ROW_REF_ENCODED_LEN_def wire_simps)

interpretation row_ref: fixed_codec row_ref_encode row_ref_decode ROW_REF_ENCODED_LEN "\<lambda>_. True"
proof
  fix r :: row_ref and rest :: bytes
  show "length (row_ref_encode r) = ROW_REF_ENCODED_LEN"
    by (simp add: row_ref_encode_eq ROW_REF_ENCODED_LEN_def)
  show "row_ref_decode (row_ref_encode r @ rest) = Ok r"
    unfolding row_ref_decode_def row_ref_encode_eq
    by (simp add: wire_simps usize_limit_def ROW_REF_ENCODED_LEN_def sub_def)
qed

lemma row_ref_decode_Ok:
  assumes "row_ref_decode bs = Ok r"
  shows "ROW_REF_ENCODED_LEN \<le> length bs \<and> row_ref_encode r = take ROW_REF_ENCODED_LEN bs"
proof -
  from assms have l: "14 \<le> length bs"
    by (auto simp: row_ref_decode_def ROW_REF_ENCODED_LEN_def split: if_splits)
  then have r: "r = \<lparr>table_id = of_le (sub bs 0 4), segment_id = of_le (sub bs 4 4),
      morsel_id = of_le (sub bs 8 4), row_in_morsel = of_le (sub bs 12 2)\<rparr>"
    using assms by (simp add: row_ref_decode_def ROW_REF_ENCODED_LEN_def wire_simps usize_limit_def)
  show ?thesis
    unfolding r row_ref_encode_eq
    using l
    by (simp add: le_bytes_of_le length_sub sub_join ROW_REF_ENCODED_LEN_def)
      (simp add: sub_def)
qed

lemma row_ref_decode_iff:
  "row_ref_decode bs = Ok r \<longleftrightarrow> 14 \<le> length bs \<and> row_ref_encode r = take 14 bs"
proof
  assume "row_ref_decode bs = Ok r"
  then show "14 \<le> length bs \<and> row_ref_encode r = take 14 bs"
    using row_ref_decode_Ok by (simp add: ROW_REF_ENCODED_LEN_def)
next
  assume a: "14 \<le> length bs \<and> row_ref_encode r = take 14 bs"
  then have "bs = row_ref_encode r @ drop 14 bs" by simp
  then show "row_ref_decode bs = Ok r" using row_ref.dec_enc [of r "drop 14 bs"] by simp
qed

lemma no_panic_row_ref_decode [no_panic_intros, simp]: "no_panic (row_ref_decode bs)"
  by (auto simp: row_ref_decode_def intro!: no_panic_intros)

section \<open>Properties\<close>

text \<open>
  C6: Every \<open>u64\<close> survives LEB128: whatever bytes follow the encoding, the
  decoder returns the value and consumes exactly the bytes of the encoding, of
  which there are between one and ten.
\<close>

theorem leb128_roundtrip:
  "decode_u64_leb128 (encode_u64_leb128 v @ rest) = Ok (v, length (encode_u64_leb128 v)) \<and>
   0 < length (encode_u64_leb128 v) \<and> length (encode_u64_leb128 v) \<le> 10"
  using leb128.dec_enc encode_u64_leb128_length by blast

text \<open>
  The checked LEB128 decoder, with its shift guards and its truncation
  guard on the tenth byte, computes the reference reading of the bytes in
  unbounded arithmetic: it succeeds with \<open>v\<close> after \<open>n\<close> bytes exactly when the
  seven-bit groups up to the first byte without continuation bit add up to \<open>v\<close>
  (so the sum is below \<open>2 ^ 64\<close>) and \<open>n\<close> is at most ten. It never panics.
\<close>

theorem leb128_decode_reference:
  "(decode_u64_leb128 bs = Ok (v, n) \<longleftrightarrow> leb_number bs = Some (unat v, n) \<and> n \<le> 10) \<and>
   no_panic (decode_u64_leb128 bs)"
  using decode_u64_leb128_iff no_panic_decode_u64_leb128 by blast

text \<open>
  ZigZag is a bijection between \<open>i64\<close> and \<open>u64\<close>, and it maps a value to
  twice its magnitude (less one when it is negative), so that small magnitudes
  have short encodings.
\<close>

theorem zigzag_bijection:
  "zigzag_decode_i64 (zigzag_encode_i64 v) = v \<and> zigzag_encode_i64 (zigzag_decode_i64 w) = w \<and>
   uint (zigzag_encode_i64 v) = (if sint v < 0 then - 2 * sint v - 1 else 2 * sint v)"
  using zigzag_decode_encode zigzag_encode_decode zigzag_encode_magnitude by blast

text \<open>
  A row reference is decoded from exactly its fourteen bytes: what is
  encoded is read back whatever follows it, and what the decoder accepts
  re-encodes to the bytes it read; a shorter buffer is refused, never a panic.
\<close>

theorem row_ref_roundtrip:
  "row_ref_decode (row_ref_encode r @ rest) = Ok r \<and>
   (row_ref_decode bs = Ok r \<longleftrightarrow> 14 \<le> length bs \<and> row_ref_encode r = take 14 bs) \<and>
   no_panic (row_ref_decode bs)"
  using row_ref.dec_enc row_ref_decode_iff no_panic_row_ref_decode by blast

end
