(* ===== verification/Constants.thy ===== *)
theory Constants
  imports Cove_Error
begin

text \<open>
  Magic bytes, lengths, feature bits and the enumerations of the wire format
  (\<^verbatim>\<open>crates/cove-core/src/constants.rs\<close>; the section kinds are in
  \<open>Section_Kinds\<close>). Each enumeration is a datatype with the discriminants of its
  \<^verbatim>\<open>#[repr]\<close> (\<open>as_...\<close>) and the table of its \<^verbatim>\<open>from_u8\<close> or
  \<^verbatim>\<open>from_u16\<close> (\<open>..._from\<close>).
\<close>

section \<open>Magic bytes and lengths\<close>

definition MAGIC_COVE :: bytes where
  "MAGIC_COVE = [0x43, 0x4f, 0x56, 0x32]"

definition MAGIC_COVE_FOOTER :: bytes where
  "MAGIC_COVE_FOOTER = [0x43, 0x56, 0x32, 0x46]"

definition MAGIC_COVX :: bytes where
  "MAGIC_COVX = [0x43, 0x56, 0x58, 0x32]"

definition MAGIC_COVM :: bytes where
  "MAGIC_COVM = [0x43, 0x56, 0x4d, 0x32]"

definition MAGIC_COVEMAP :: bytes where
  "MAGIC_COVEMAP = [0x43, 0x4d, 0x50, 0x32]"

definition MAGIC_COVEDELTA :: bytes where
  "MAGIC_COVEDELTA = [0x43, 0x56, 0x44, 0x32]"

definition MAGIC_COVI :: bytes where
  "MAGIC_COVI = [0x43, 0x56, 0x49, 0x32]"

definition MAGIC_COVEAI :: bytes where
  "MAGIC_COVEAI = [0x43, 0x56, 0x41, 0x32]"

definition MAGIC_COVEV :: bytes where
  "MAGIC_COVEV = [0x43, 0x56, 0x56, 0x32]"

definition HEADER_LEN_V1 :: u16 where
  "HEADER_LEN_V1 = 160"

definition VERSION_MAJOR_V1 :: u16 where
  "VERSION_MAJOR_V1 = 2"

definition VERSION_MINOR_V1 :: u16 where
  "VERSION_MINOR_V1 = 0"

definition ENDIANNESS_LITTLE :: u8 where
  "ENDIANNESS_LITTLE = 1"

definition DEFAULT_MORSEL_ROW_COUNT :: u32 where
  "DEFAULT_MORSEL_ROW_COUNT = 4096"

definition FOOTER_VERSION_V1 :: u16 where
  "FOOTER_VERSION_V1 = 2"

definition FOOTER_HEADER_LEN :: nat where
  "FOOTER_HEADER_LEN = 44"

definition SECTION_ENTRY_LEN :: u16 where
  "SECTION_ENTRY_LEN = 76"

definition SECTION_SPEC_LEN :: nat where
  "SECTION_SPEC_LEN = 36"

definition POSTSCRIPT_LEN :: nat where
  "POSTSCRIPT_LEN = 64"

definition POSTSCRIPT_VERSION_V1 :: u16 where
  "POSTSCRIPT_VERSION_V1 = 2"

definition METADATA_LEN_MAX :: u32 where
  "METADATA_LEN_MAX = 1048576"

definition POSTSCRIPT_LEN_MAX :: u16 where
  "POSTSCRIPT_LEN_MAX = 65535"

section \<open>Feature bits\<close>

definition FEATURE_OBJECT_PROFILE :: u64 where "FEATURE_OBJECT_PROFILE = 0x1"
definition FEATURE_TABLE_PROFILE :: u64 where "FEATURE_TABLE_PROFILE = 0x2"
definition FEATURE_ARCHIVE_PROFILE :: u64 where "FEATURE_ARCHIVE_PROFILE = 0x4"
definition FEATURE_ENGINE_PROFILE :: u64 where "FEATURE_ENGINE_PROFILE = 0x8"
definition FEATURE_HARBOR_PROFILE :: u64 where "FEATURE_HARBOR_PROFILE = 0x10"
definition FEATURE_FILE_DICTIONARY :: u64 where "FEATURE_FILE_DICTIONARY = 0x20"
definition FEATURE_NUMCODES :: u64 where "FEATURE_NUMCODES = 0x40"
definition FEATURE_COLUMN_DOMAINS :: u64 where "FEATURE_COLUMN_DOMAINS = 0x80"
definition FEATURE_EXACT_SETS :: u64 where "FEATURE_EXACT_SETS = 0x100"
definition FEATURE_BLOOM_FILTERS :: u64 where "FEATURE_BLOOM_FILTERS = 0x200"
definition FEATURE_INVERTED_INDEXES :: u64 where "FEATURE_INVERTED_INDEXES = 0x400"
definition FEATURE_LOOKUP_INDEXES :: u64 where "FEATURE_LOOKUP_INDEXES = 0x800"
definition FEATURE_AGGREGATE_SYNOPSES :: u64 where "FEATURE_AGGREGATE_SYNOPSES = 0x1000"
definition FEATURE_COMPOSITE_ZONES :: u64 where "FEATURE_COMPOSITE_ZONES = 0x2000"
definition FEATURE_TOPN_SUMMARIES :: u64 where "FEATURE_TOPN_SUMMARIES = 0x4000"
definition FEATURE_TRUST_CHAIN :: u64 where "FEATURE_TRUST_CHAIN = 0x8000"
definition FEATURE_REDACTIONS :: u64 where "FEATURE_REDACTIONS = 0x10000"
definition FEATURE_NESTED_COLUMNS :: u64 where "FEATURE_NESTED_COLUMNS = 0x20000"
definition FEATURE_DIGEST_MANIFEST :: u64 where "FEATURE_DIGEST_MANIFEST = 0x40000"
definition FEATURE_ARROW_INTEROP_HINTS :: u64 where "FEATURE_ARROW_INTEROP_HINTS = 0x80000"
definition FEATURE_LAKEHOUSE_HINTS :: u64 where "FEATURE_LAKEHOUSE_HINTS = 0x100000"
definition FEATURE_EXTENSION_REGISTRY :: u64 where "FEATURE_EXTENSION_REGISTRY = 0x200000"
definition FEATURE_CODEC_LZ4 :: u64 where "FEATURE_CODEC_LZ4 = 0x400000"
definition FEATURE_CODEC_ZSTD :: u64 where "FEATURE_CODEC_ZSTD = 0x800000"
definition FEATURE_SEMANTIC_MAP :: u64 where "FEATURE_SEMANTIC_MAP = 0x1000000"
definition FEATURE_PAGE_PAYLOAD_ELISION :: u64 where "FEATURE_PAGE_PAYLOAD_ELISION = 0x2000000"
definition FEATURE_CODEC_EXTENSION_REGISTRY :: u64 where "FEATURE_CODEC_EXTENSION_REGISTRY = 0x4000000"
definition FEATURE_REGISTERED_ENCODINGS :: u64 where "FEATURE_REGISTERED_ENCODINGS = 0x8000000"
definition FEATURE_LAYOUT_PLAN :: u64 where "FEATURE_LAYOUT_PLAN = 0x10000000"
definition FEATURE_SCAN_SPLIT_INDEX :: u64 where "FEATURE_SCAN_SPLIT_INDEX = 0x20000000"
definition FEATURE_PAGE_CLUSTER_DIRECTORY :: u64 where "FEATURE_PAGE_CLUSTER_DIRECTORY = 0x40000000"
definition FEATURE_ZERO_COPY_BUFFER_MAP :: u64 where "FEATURE_ZERO_COPY_BUFFER_MAP = 0x80000000"
definition FEATURE_FAST_METADATA_INDEX :: u64 where "FEATURE_FAST_METADATA_INDEX = 0x100000000"
definition FEATURE_RUNTIME_COMPATIBILITY_HINTS :: u64 where "FEATURE_RUNTIME_COMPATIBILITY_HINTS = 0x200000000"
definition FEATURE_EXTENDED_FEATURE_SET :: u64 where "FEATURE_EXTENDED_FEATURE_SET = 0x400000000"
definition FEATURE_CODEC_FALLBACK_PAYLOADS :: u64 where "FEATURE_CODEC_FALLBACK_PAYLOADS = 0x800000000"
definition FEATURE_COVERAGE_METADATA :: u64 where "FEATURE_COVERAGE_METADATA = 0x1000000000"
definition FEATURE_COVERAGE_PLAN_CANDIDATES :: u64 where "FEATURE_COVERAGE_PLAN_CANDIDATES = 0x2000000000"
definition FEATURE_SECONDARY_INDEX_ARTIFACT :: u64 where "FEATURE_SECONDARY_INDEX_ARTIFACT = 0x4000000000"
definition FEATURE_INDEX_ONLY_CAPABILITY :: u64 where "FEATURE_INDEX_ONLY_CAPABILITY = 0x8000000000"
definition FEATURE_COVERAGE_CACHE_HINTS :: u64 where "FEATURE_COVERAGE_CACHE_HINTS = 0x10000000000"
definition FEATURE_QUERY_DISCOVERY_METADATA :: u64 where "FEATURE_QUERY_DISCOVERY_METADATA = 0x20000000000"

definition KNOWN_FEATURE_BITS_MASK :: u64 where
  "KNOWN_FEATURE_BITS_MASK =
     FEATURE_OBJECT_PROFILE
     OR FEATURE_TABLE_PROFILE
     OR FEATURE_ARCHIVE_PROFILE
     OR FEATURE_ENGINE_PROFILE
     OR FEATURE_HARBOR_PROFILE
     OR FEATURE_FILE_DICTIONARY
     OR FEATURE_NUMCODES
     OR FEATURE_COLUMN_DOMAINS
     OR FEATURE_EXACT_SETS
     OR FEATURE_BLOOM_FILTERS
     OR FEATURE_INVERTED_INDEXES
     OR FEATURE_LOOKUP_INDEXES
     OR FEATURE_AGGREGATE_SYNOPSES
     OR FEATURE_COMPOSITE_ZONES
     OR FEATURE_TOPN_SUMMARIES
     OR FEATURE_TRUST_CHAIN
     OR FEATURE_REDACTIONS
     OR FEATURE_NESTED_COLUMNS
     OR FEATURE_DIGEST_MANIFEST
     OR FEATURE_ARROW_INTEROP_HINTS
     OR FEATURE_LAKEHOUSE_HINTS
     OR FEATURE_EXTENSION_REGISTRY
     OR FEATURE_CODEC_LZ4
     OR FEATURE_CODEC_ZSTD
     OR FEATURE_SEMANTIC_MAP
     OR FEATURE_PAGE_PAYLOAD_ELISION
     OR FEATURE_CODEC_EXTENSION_REGISTRY
     OR FEATURE_REGISTERED_ENCODINGS
     OR FEATURE_LAYOUT_PLAN
     OR FEATURE_SCAN_SPLIT_INDEX
     OR FEATURE_PAGE_CLUSTER_DIRECTORY
     OR FEATURE_ZERO_COPY_BUFFER_MAP
     OR FEATURE_FAST_METADATA_INDEX
     OR FEATURE_RUNTIME_COMPATIBILITY_HINTS
     OR FEATURE_EXTENDED_FEATURE_SET
     OR FEATURE_CODEC_FALLBACK_PAYLOADS
     OR FEATURE_COVERAGE_METADATA
     OR FEATURE_COVERAGE_PLAN_CANDIDATES
     OR FEATURE_SECONDARY_INDEX_ARTIFACT
     OR FEATURE_INDEX_ONLY_CAPABILITY
     OR FEATURE_COVERAGE_CACHE_HINTS
     OR FEATURE_QUERY_DISCOVERY_METADATA"

lemmas feature_defs =
  FEATURE_OBJECT_PROFILE_def
  FEATURE_TABLE_PROFILE_def
  FEATURE_ARCHIVE_PROFILE_def
  FEATURE_ENGINE_PROFILE_def
  FEATURE_HARBOR_PROFILE_def
  FEATURE_FILE_DICTIONARY_def
  FEATURE_NUMCODES_def
  FEATURE_COLUMN_DOMAINS_def
  FEATURE_EXACT_SETS_def
  FEATURE_BLOOM_FILTERS_def
  FEATURE_INVERTED_INDEXES_def
  FEATURE_LOOKUP_INDEXES_def
  FEATURE_AGGREGATE_SYNOPSES_def
  FEATURE_COMPOSITE_ZONES_def
  FEATURE_TOPN_SUMMARIES_def
  FEATURE_TRUST_CHAIN_def
  FEATURE_REDACTIONS_def
  FEATURE_NESTED_COLUMNS_def
  FEATURE_DIGEST_MANIFEST_def
  FEATURE_ARROW_INTEROP_HINTS_def
  FEATURE_LAKEHOUSE_HINTS_def
  FEATURE_EXTENSION_REGISTRY_def
  FEATURE_CODEC_LZ4_def
  FEATURE_CODEC_ZSTD_def
  FEATURE_SEMANTIC_MAP_def
  FEATURE_PAGE_PAYLOAD_ELISION_def
  FEATURE_CODEC_EXTENSION_REGISTRY_def
  FEATURE_REGISTERED_ENCODINGS_def
  FEATURE_LAYOUT_PLAN_def
  FEATURE_SCAN_SPLIT_INDEX_def
  FEATURE_PAGE_CLUSTER_DIRECTORY_def
  FEATURE_ZERO_COPY_BUFFER_MAP_def
  FEATURE_FAST_METADATA_INDEX_def
  FEATURE_RUNTIME_COMPATIBILITY_HINTS_def
  FEATURE_EXTENDED_FEATURE_SET_def
  FEATURE_CODEC_FALLBACK_PAYLOADS_def
  FEATURE_COVERAGE_METADATA_def
  FEATURE_COVERAGE_PLAN_CANDIDATES_def
  FEATURE_SECONDARY_INDEX_ARTIFACT_def
  FEATURE_INDEX_ONLY_CAPABILITY_def
  FEATURE_COVERAGE_CACHE_HINTS_def
  FEATURE_QUERY_DISCOVERY_METADATA_def

lemma KNOWN_FEATURE_BITS_MASK_eq: "KNOWN_FEATURE_BITS_MASK = 0x3FFFFFFFFFF"
  by (simp add: KNOWN_FEATURE_BITS_MASK_def feature_defs)

section \<open>Enumerations\<close>

lemma map_of_table_iff:
  assumes "distinct (map fst t)" "list_all (\<lambda>(v, k). v = f k) t" "k \<in> set (map snd t)"
  shows "map_of t v = Some k \<longleftrightarrow> v = f k"
proof
  assume "map_of t v = Some k"
  then have "(v, k) \<in> set t" by (rule map_of_SomeD)
  then show "v = f k" using assms(2) by (auto simp: list_all_iff)
next
  assume v: "v = f k"
  obtain w where w: "(w, k) \<in> set t" using assms(3) by auto
  then have "w = f k" using assms(2) by (auto simp: list_all_iff)
  then show "map_of t v = Some k" using v w assms(1) by (auto intro: map_of_is_SomeI)
qed

datatype primary_profile =
    PP_Mixed | PP_ObjectTemporal | PP_TableScan | PP_ArchiveAcceleration
  | PP_EngineExecution | PP_HarborExecution | PP_SemanticMapping | PP_CodecExtension
  | PP_LayoutPlanning | PP_RuntimeCompatibility | PP_CoverageMetadata | PP_SecondaryIndex
  | PP_QueryDiscovery | PP_CoveAiShared | PP_CoveMapAi | PP_CoveChunk | PP_CoveTok
  | PP_CoveVec | PP_CoveMmseq | PP_CoveTrain | PP_CoveQlAi

primrec as_primary_profile :: "primary_profile \<Rightarrow> u8" where
  "as_primary_profile PP_Mixed = 0"
| "as_primary_profile PP_ObjectTemporal = 1"
| "as_primary_profile PP_TableScan = 2"
| "as_primary_profile PP_ArchiveAcceleration = 3"
| "as_primary_profile PP_EngineExecution = 4"
| "as_primary_profile PP_HarborExecution = 5"
| "as_primary_profile PP_SemanticMapping = 6"
| "as_primary_profile PP_CodecExtension = 7"
| "as_primary_profile PP_LayoutPlanning = 8"
| "as_primary_profile PP_RuntimeCompatibility = 9"
| "as_primary_profile PP_CoverageMetadata = 10"
| "as_primary_profile PP_SecondaryIndex = 11"
| "as_primary_profile PP_QueryDiscovery = 12"
| "as_primary_profile PP_CoveAiShared = 16"
| "as_primary_profile PP_CoveMapAi = 17"
| "as_primary_profile PP_CoveChunk = 18"
| "as_primary_profile PP_CoveTok = 19"
| "as_primary_profile PP_CoveVec = 20"
| "as_primary_profile PP_CoveMmseq = 21"
| "as_primary_profile PP_CoveTrain = 22"
| "as_primary_profile PP_CoveQlAi = 23"

definition primary_profile_from :: "u8 \<Rightarrow> primary_profile option" where
  "primary_profile_from v = map_of
     [(0, PP_Mixed), (1, PP_ObjectTemporal), (2, PP_TableScan), (3, PP_ArchiveAcceleration)
      , (4, PP_EngineExecution), (5, PP_HarborExecution), (6, PP_SemanticMapping)
      , (7, PP_CodecExtension), (8, PP_LayoutPlanning), (9, PP_RuntimeCompatibility)
      , (10, PP_CoverageMetadata), (11, PP_SecondaryIndex), (12, PP_QueryDiscovery)
      , (16, PP_CoveAiShared), (17, PP_CoveMapAi), (18, PP_CoveChunk), (19, PP_CoveTok)
      , (20, PP_CoveVec), (21, PP_CoveMmseq), (22, PP_CoveTrain), (23, PP_CoveQlAi)] v"

lemma primary_profile_from_iff: "primary_profile_from v = Some k \<longleftrightarrow> v = as_primary_profile k"
  unfolding primary_profile_from_def
  by (rule map_of_table_iff [where f = as_primary_profile], simp, simp, (cases k; simp))

datatype producer_scope_kind =
    PSK_None | PSK_Tenant | PSK_Account | PSK_Organisation | PSK_Workspace | PSK_Catalog
  | PSK_Dataset | PSK_EngineSpecific

primrec as_producer_scope_kind :: "producer_scope_kind \<Rightarrow> u16" where
  "as_producer_scope_kind PSK_None = 0"
| "as_producer_scope_kind PSK_Tenant = 1"
| "as_producer_scope_kind PSK_Account = 2"
| "as_producer_scope_kind PSK_Organisation = 3"
| "as_producer_scope_kind PSK_Workspace = 4"
| "as_producer_scope_kind PSK_Catalog = 5"
| "as_producer_scope_kind PSK_Dataset = 6"
| "as_producer_scope_kind PSK_EngineSpecific = 255"

definition producer_scope_kind_from :: "u16 \<Rightarrow> producer_scope_kind option" where
  "producer_scope_kind_from v = map_of
     [(0, PSK_None), (1, PSK_Tenant), (2, PSK_Account), (3, PSK_Organisation)
      , (4, PSK_Workspace), (5, PSK_Catalog), (6, PSK_Dataset), (255, PSK_EngineSpecific)] v"

lemma producer_scope_kind_from_iff: "producer_scope_kind_from v = Some k \<longleftrightarrow> v = as_producer_scope_kind k"
  unfolding producer_scope_kind_from_def
  by (rule map_of_table_iff [where f = as_producer_scope_kind], simp, simp, (cases k; simp))

datatype compression_codec =
    CC_None | CC_Lz4 | CC_Zstd

primrec as_compression_codec :: "compression_codec \<Rightarrow> u8" where
  "as_compression_codec CC_None = 0"
| "as_compression_codec CC_Lz4 = 1"
| "as_compression_codec CC_Zstd = 2"

definition compression_codec_from :: "u8 \<Rightarrow> compression_codec option" where
  "compression_codec_from v = map_of
     [(0, CC_None), (1, CC_Lz4), (2, CC_Zstd)] v"

lemma compression_codec_from_iff: "compression_codec_from v = Some k \<longleftrightarrow> v = as_compression_codec k"
  unfolding compression_codec_from_def
  by (rule map_of_table_iff [where f = as_compression_codec], simp, simp, (cases k; simp))

datatype logical_type =
    LT_Null | LT_Bool | LT_Int8 | LT_Int16 | LT_Int32 | LT_Int64 | LT_UInt8 | LT_UInt16
  | LT_UInt32 | LT_UInt64 | LT_Float32 | LT_Float64 | LT_Decimal64 | LT_Decimal128
  | LT_DateDays | LT_TimestampMicros | LT_TimestampNanos | LT_Utf8 | LT_Binary | LT_Uuid
  | LT_Json | LT_List | LT_Struct | LT_Map

primrec as_logical_type :: "logical_type \<Rightarrow> u16" where
  "as_logical_type LT_Null = 0"
| "as_logical_type LT_Bool = 1"
| "as_logical_type LT_Int8 = 2"
| "as_logical_type LT_Int16 = 3"
| "as_logical_type LT_Int32 = 4"
| "as_logical_type LT_Int64 = 5"
| "as_logical_type LT_UInt8 = 6"
| "as_logical_type LT_UInt16 = 7"
| "as_logical_type LT_UInt32 = 8"
| "as_logical_type LT_UInt64 = 9"
| "as_logical_type LT_Float32 = 10"
| "as_logical_type LT_Float64 = 11"
| "as_logical_type LT_Decimal64 = 12"
| "as_logical_type LT_Decimal128 = 13"
| "as_logical_type LT_DateDays = 14"
| "as_logical_type LT_TimestampMicros = 15"
| "as_logical_type LT_TimestampNanos = 16"
| "as_logical_type LT_Utf8 = 17"
| "as_logical_type LT_Binary = 18"
| "as_logical_type LT_Uuid = 19"
| "as_logical_type LT_Json = 20"
| "as_logical_type LT_List = 21"
| "as_logical_type LT_Struct = 22"
| "as_logical_type LT_Map = 23"

definition logical_type_from :: "u16 \<Rightarrow> logical_type option" where
  "logical_type_from v = map_of
     [(0, LT_Null), (1, LT_Bool), (2, LT_Int8), (3, LT_Int16), (4, LT_Int32), (5, LT_Int64)
      , (6, LT_UInt8), (7, LT_UInt16), (8, LT_UInt32), (9, LT_UInt64), (10, LT_Float32)
      , (11, LT_Float64), (12, LT_Decimal64), (13, LT_Decimal128), (14, LT_DateDays)
      , (15, LT_TimestampMicros), (16, LT_TimestampNanos), (17, LT_Utf8), (18, LT_Binary)
      , (19, LT_Uuid), (20, LT_Json), (21, LT_List), (22, LT_Struct), (23, LT_Map)] v"

lemma logical_type_from_iff: "logical_type_from v = Some k \<longleftrightarrow> v = as_logical_type k"
  unfolding logical_type_from_def
  by (rule map_of_table_iff [where f = as_logical_type], simp, simp, (cases k; simp))

datatype physical_kind =
    PK_FileCode | PK_NumCode | PK_Boolean | PK_FixedBytes | PK_VarBytes | PK_List
  | PK_Struct | PK_Map

primrec as_physical_kind :: "physical_kind \<Rightarrow> u8" where
  "as_physical_kind PK_FileCode = 0"
| "as_physical_kind PK_NumCode = 1"
| "as_physical_kind PK_Boolean = 2"
| "as_physical_kind PK_FixedBytes = 3"
| "as_physical_kind PK_VarBytes = 4"
| "as_physical_kind PK_List = 5"
| "as_physical_kind PK_Struct = 6"
| "as_physical_kind PK_Map = 7"

definition physical_kind_from :: "u8 \<Rightarrow> physical_kind option" where
  "physical_kind_from v = map_of
     [(0, PK_FileCode), (1, PK_NumCode), (2, PK_Boolean), (3, PK_FixedBytes), (4, PK_VarBytes)
      , (5, PK_List), (6, PK_Struct), (7, PK_Map)] v"

lemma physical_kind_from_iff: "physical_kind_from v = Some k \<longleftrightarrow> v = as_physical_kind k"
  unfolding physical_kind_from_def
  by (rule map_of_table_iff [where f = as_physical_kind], simp, simp, (cases k; simp))

datatype value_tag =
    VT_Null | VT_BoolFalse | VT_BoolTrue | VT_Int64 | VT_UInt64 | VT_Float32Bits
  | VT_Float64Bits | VT_Decimal64 | VT_Decimal128 | VT_DateDays | VT_TimestampMicros
  | VT_TimestampNanos | VT_Utf8 | VT_Binary | VT_Uuid | VT_Json | VT_List | VT_Struct
  | VT_Map

primrec as_value_tag :: "value_tag \<Rightarrow> u16" where
  "as_value_tag VT_Null = 0"
| "as_value_tag VT_BoolFalse = 1"
| "as_value_tag VT_BoolTrue = 2"
| "as_value_tag VT_Int64 = 3"
| "as_value_tag VT_UInt64 = 4"
| "as_value_tag VT_Float32Bits = 5"
| "as_value_tag VT_Float64Bits = 6"
| "as_value_tag VT_Decimal64 = 7"
| "as_value_tag VT_Decimal128 = 8"
| "as_value_tag VT_DateDays = 9"
| "as_value_tag VT_TimestampMicros = 10"
| "as_value_tag VT_TimestampNanos = 11"
| "as_value_tag VT_Utf8 = 12"
| "as_value_tag VT_Binary = 13"
| "as_value_tag VT_Uuid = 14"
| "as_value_tag VT_Json = 15"
| "as_value_tag VT_List = 16"
| "as_value_tag VT_Struct = 17"
| "as_value_tag VT_Map = 18"

definition value_tag_from :: "u16 \<Rightarrow> value_tag option" where
  "value_tag_from v = map_of
     [(0, VT_Null), (1, VT_BoolFalse), (2, VT_BoolTrue), (3, VT_Int64), (4, VT_UInt64)
      , (5, VT_Float32Bits), (6, VT_Float64Bits), (7, VT_Decimal64), (8, VT_Decimal128)
      , (9, VT_DateDays), (10, VT_TimestampMicros), (11, VT_TimestampNanos), (12, VT_Utf8)
      , (13, VT_Binary), (14, VT_Uuid), (15, VT_Json), (16, VT_List), (17, VT_Struct)
      , (18, VT_Map)] v"

lemma value_tag_from_iff: "value_tag_from v = Some k \<longleftrightarrow> v = as_value_tag k"
  unfolding value_tag_from_def
  by (rule map_of_table_iff [where f = as_value_tag], simp, simp, (cases k; simp))

datatype storage_class =
    SC_Inline | SC_Payload | SC_Redacted

primrec as_storage_class :: "storage_class \<Rightarrow> u8" where
  "as_storage_class SC_Inline = 0"
| "as_storage_class SC_Payload = 1"
| "as_storage_class SC_Redacted = 2"

definition storage_class_from :: "u8 \<Rightarrow> storage_class option" where
  "storage_class_from v = map_of
     [(0, SC_Inline), (1, SC_Payload), (2, SC_Redacted)] v"

lemma storage_class_from_iff: "storage_class_from v = Some k \<longleftrightarrow> v = as_storage_class k"
  unfolding storage_class_from_def
  by (rule map_of_table_iff [where f = as_storage_class], simp, simp, (cases k; simp))

datatype encoding_kind =
    EK_Canonical | EK_Validity | EK_Constant | EK_FileCode | EK_NumCode | EK_LocalCodebook
  | EK_Rle | EK_RunEnd | EK_BitPacked | EK_Delta | EK_FrameOfReference | EK_PatchedBase
  | EK_Sparse | EK_Sequence | EK_PlainFixed | EK_PlainVarint | EK_VarBytes | EK_Lz4Block
  | EK_ZstdBlock | EK_RegisteredEncoding

primrec as_encoding_kind :: "encoding_kind \<Rightarrow> u16" where
  "as_encoding_kind EK_Canonical = 0"
| "as_encoding_kind EK_Validity = 1"
| "as_encoding_kind EK_Constant = 2"
| "as_encoding_kind EK_FileCode = 3"
| "as_encoding_kind EK_NumCode = 4"
| "as_encoding_kind EK_LocalCodebook = 5"
| "as_encoding_kind EK_Rle = 6"
| "as_encoding_kind EK_RunEnd = 7"
| "as_encoding_kind EK_BitPacked = 8"
| "as_encoding_kind EK_Delta = 9"
| "as_encoding_kind EK_FrameOfReference = 10"
| "as_encoding_kind EK_PatchedBase = 11"
| "as_encoding_kind EK_Sparse = 12"
| "as_encoding_kind EK_Sequence = 13"
| "as_encoding_kind EK_PlainFixed = 14"
| "as_encoding_kind EK_PlainVarint = 15"
| "as_encoding_kind EK_VarBytes = 16"
| "as_encoding_kind EK_Lz4Block = 17"
| "as_encoding_kind EK_ZstdBlock = 18"
| "as_encoding_kind EK_RegisteredEncoding = 19"

definition encoding_kind_from :: "u16 \<Rightarrow> encoding_kind option" where
  "encoding_kind_from v = map_of
     [(0, EK_Canonical), (1, EK_Validity), (2, EK_Constant), (3, EK_FileCode), (4, EK_NumCode)
      , (5, EK_LocalCodebook), (6, EK_Rle), (7, EK_RunEnd), (8, EK_BitPacked), (9, EK_Delta)
      , (10, EK_FrameOfReference), (11, EK_PatchedBase), (12, EK_Sparse), (13, EK_Sequence)
      , (14, EK_PlainFixed), (15, EK_PlainVarint), (16, EK_VarBytes), (17, EK_Lz4Block)
      , (18, EK_ZstdBlock), (19, EK_RegisteredEncoding)] v"

lemma encoding_kind_from_iff: "encoding_kind_from v = Some k \<longleftrightarrow> v = as_encoding_kind k"
  unfolding encoding_kind_from_def
  by (rule map_of_table_iff [where f = as_encoding_kind], simp, simp, (cases k; simp))

datatype digest_algorithm =
    DA_None | DA_Sha256 | DA_Blake3

primrec as_digest_algorithm :: "digest_algorithm \<Rightarrow> u16" where
  "as_digest_algorithm DA_None = 0"
| "as_digest_algorithm DA_Sha256 = 1"
| "as_digest_algorithm DA_Blake3 = 2"

definition digest_algorithm_from :: "u16 \<Rightarrow> digest_algorithm option" where
  "digest_algorithm_from v = map_of
     [(0, DA_None), (1, DA_Sha256), (2, DA_Blake3)] v"

lemma digest_algorithm_from_iff: "digest_algorithm_from v = Some k \<longleftrightarrow> v = as_digest_algorithm k"
  unfolding digest_algorithm_from_def
  by (rule map_of_table_iff [where f = as_digest_algorithm], simp, simp, (cases k; simp))

datatype predicate_zone_outcome =
    PZ_DefinitelyNo | PZ_DefinitelyYes | PZ_Unknown

primrec as_predicate_zone_outcome :: "predicate_zone_outcome \<Rightarrow> u8" where
  "as_predicate_zone_outcome PZ_DefinitelyNo = 0"
| "as_predicate_zone_outcome PZ_DefinitelyYes = 1"
| "as_predicate_zone_outcome PZ_Unknown = 2"

datatype record_kind =
    RK_Delta | RK_Snapshot | RK_ReservedLegacyMaterializedDelta | RK_Baseline | RK_Tombstone

primrec as_record_kind :: "record_kind \<Rightarrow> u8" where
  "as_record_kind RK_Delta = 0"
| "as_record_kind RK_Snapshot = 1"
| "as_record_kind RK_ReservedLegacyMaterializedDelta = 2"
| "as_record_kind RK_Baseline = 3"
| "as_record_kind RK_Tombstone = 4"

definition record_kind_from :: "u8 \<Rightarrow> record_kind option" where
  "record_kind_from v = map_of
     [(0, RK_Delta), (1, RK_Snapshot), (2, RK_ReservedLegacyMaterializedDelta)
      , (3, RK_Baseline), (4, RK_Tombstone)] v"

lemma record_kind_from_iff: "record_kind_from v = Some k \<longleftrightarrow> v = as_record_kind k"
  unfolding record_kind_from_def
  by (rule map_of_table_iff [where f = as_record_kind], simp, simp, (cases k; simp))

section \<open>Properties\<close>

text \<open>
  The parse table of every enumeration of the wire format inverts its
  discriminants: a raw value is accepted exactly when it is the discriminant
  of the variant returned, so no two variants share a value and every variant
  can be read back.
\<close>

theorem enum_tables_invert_discriminants:
  "(primary_profile_from v0 = Some k0 \<longleftrightarrow> v0 = as_primary_profile k0) \<and>
   (producer_scope_kind_from v1 = Some k1 \<longleftrightarrow> v1 = as_producer_scope_kind k1) \<and>
   (compression_codec_from v2 = Some k2 \<longleftrightarrow> v2 = as_compression_codec k2) \<and>
   (logical_type_from v3 = Some k3 \<longleftrightarrow> v3 = as_logical_type k3) \<and>
   (physical_kind_from v4 = Some k4 \<longleftrightarrow> v4 = as_physical_kind k4) \<and>
   (value_tag_from v5 = Some k5 \<longleftrightarrow> v5 = as_value_tag k5) \<and>
   (storage_class_from v6 = Some k6 \<longleftrightarrow> v6 = as_storage_class k6) \<and>
   (encoding_kind_from v7 = Some k7 \<longleftrightarrow> v7 = as_encoding_kind k7) \<and>
   (digest_algorithm_from v8 = Some k8 \<longleftrightarrow> v8 = as_digest_algorithm k8) \<and>
   (record_kind_from v9 = Some k9 \<longleftrightarrow> v9 = as_record_kind k9)"
  by (intro conjI primary_profile_from_iff producer_scope_kind_from_iff compression_codec_from_iff logical_type_from_iff physical_kind_from_iff value_tag_from_iff storage_class_from_iff encoding_kind_from_iff digest_algorithm_from_iff record_kind_from_iff)

text \<open>
  The known-feature mask is exactly the forty-two low bits: no feature bit of
  the format is missing from it and no other bit is let through.
\<close>

theorem known_feature_mask_exact:
  "bit KNOWN_FEATURE_BITS_MASK n \<longleftrightarrow> n < 42"
proof -
  have e: "KNOWN_FEATURE_BITS_MASK = mask 42"
    by (simp add: KNOWN_FEATURE_BITS_MASK_eq mask_eq_exp_minus_1)
  show ?thesis unfolding e bit_mask_iff possible_bit_word by auto
qed

end
