(* ===== verification/Header.thy ===== *)
theory Header
  imports Wire Constants
begin

text \<open>
  The file header (\<^verbatim>\<open>crates/cove-core/src/header.rs\<close>): 160 bytes at offset 0,
  with a CRC32C over the header whose own field is zeroed.
\<close>

definition HEADER_SIZE :: nat where
  "HEADER_SIZE = 160"

definition CHECKSUM_OFFSET :: nat where
  "CHECKSUM_OFFSET = 156"

record cove_header =
  h_magic :: bytes
  h_header_len :: u16
  h_version_major :: u16
  h_version_minor :: u16
  h_primary_profile :: u8
  h_endianness :: u8
  h_flags :: u32
  h_required_features :: u64
  h_optional_features :: u64
  h_file_id :: bytes
  h_producer_scope_id :: bytes
  h_producer_scope_kind :: u16
  h_reserved_scope_flags :: u16
  h_created_at_us :: i64
  h_feature_set_section_id :: u32
  h_profile_capability_section_id :: u32
  h_fast_metadata_section_id :: u32
  h_v2_flags :: u32
  h_reserved :: bytes
  h_checksum :: u32

text \<open>
  The buffer before its checksum is filled in, and \<^verbatim>\<open>serialize\<close>. The byte arrays
  of the record have the lengths of their Rust types in a well-formed header.
\<close>

definition header_buf :: "cove_header \<Rightarrow> bytes" where
  "header_buf h =
     (let buf = replicate HEADER_SIZE 0;
          buf = copy_at buf 0 (h_magic h);
          buf = copy_at buf 4 (le_bytes 2 (h_header_len h));
          buf = copy_at buf 6 (le_bytes 2 (h_version_major h));
          buf = copy_at buf 8 (le_bytes 2 (h_version_minor h));
          buf = copy_at buf 10 [h_primary_profile h];
          buf = copy_at buf 11 [h_endianness h];
          buf = copy_at buf 12 (le_bytes 4 (h_flags h));
          buf = copy_at buf 16 (le_bytes 8 (h_required_features h));
          buf = copy_at buf 24 (le_bytes 8 (h_optional_features h));
          buf = copy_at buf 32 (h_file_id h);
          buf = copy_at buf 48 (h_producer_scope_id h);
          buf = copy_at buf 64 (le_bytes 2 (h_producer_scope_kind h));
          buf = copy_at buf 66 (le_bytes 2 (h_reserved_scope_flags h));
          buf = copy_at buf 68 (le_bytes 8 (h_created_at_us h));
          buf = copy_at buf 76 (le_bytes 4 (h_feature_set_section_id h));
          buf = copy_at buf 80 (le_bytes 4 (h_profile_capability_section_id h));
          buf = copy_at buf 84 (le_bytes 4 (h_fast_metadata_section_id h));
          buf = copy_at buf 88 (le_bytes 4 (h_v2_flags h))
      in copy_at buf 92 (h_reserved h))"

definition header_serialize :: "(bytes \<Rightarrow> u32) \<Rightarrow> cove_header \<Rightarrow> bytes" where
  "header_serialize crc h =
     (let buf = header_buf h in copy_at buf CHECKSUM_OFFSET (le_bytes 4 (crc buf)))"

definition header_parse :: "(bytes \<Rightarrow> u32) \<Rightarrow> bytes \<Rightarrow> cove_header res" where
  "header_parse crc bs =
     (if length bs < HEADER_SIZE then Fail BufferTooShort
      else
        and_then (slice bs 0 HEADER_SIZE) (\<lambda>buf.
        and_then (read_u32_le_checked buf CHECKSUM_OFFSET) (\<lambda>stored_crc.
        and_then (copy_from_slice (replicate HEADER_SIZE 0) buf) (\<lambda>check_buf.
        let check_buf = copy_at check_buf CHECKSUM_OFFSET [0, 0, 0, 0] in
        if crc check_buf \<noteq> stored_crc then Fail ChecksumMismatch
        else
        and_then (read_array_checked 4 buf 0) (\<lambda>magic.
        if magic \<noteq> MAGIC_COVE then Fail BadMagic
        else
        and_then (read_u16_le_checked buf 4) (\<lambda>header_len.
        if header_len \<noteq> HEADER_LEN_V1
        then Fail (BadSection (''header_len is '' @ decimal (unat header_len) @ '', expected ''
          @ decimal (unat HEADER_LEN_V1)))
        else
        and_then (read_u16_le_checked buf 6) (\<lambda>version_major.
        if version_major \<noteq> VERSION_MAJOR_V1 then Fail BadVersion
        else
        and_then (read_u16_le_checked buf 8) (\<lambda>version_minor.
        and_then (index buf 10) (\<lambda>profile.
        if primary_profile_from profile = None
        then Fail (BadSection (''unknown primary_profile '' @ decimal (unat profile)))
        else
        and_then (index buf 11) (\<lambda>endianness.
        if endianness \<noteq> ENDIANNESS_LITTLE
        then Fail (BadSection (''endianness field is '' @ decimal (unat endianness)
          @ '', only little-endian (1) is supported''))
        else
        and_then (read_u32_le_checked buf 12) (\<lambda>flags.
        if flags \<noteq> 0 then Fail ReservedNotZero
        else
        and_then (read_u64_le_checked buf 16) (\<lambda>required.
        and_then (read_u64_le_checked buf 24) (\<lambda>optional.
        let unknown_required = required AND NOT KNOWN_FEATURE_BITS_MASK in
        if unknown_required \<noteq> 0 then Fail (UnknownRequiredFeature unknown_required)
        else
        and_then (slice buf 32 48) (\<lambda>file_id.
        and_then (slice buf 48 64) (\<lambda>scope_id.
        and_then (read_u16_le_checked buf 64) (\<lambda>scope_kind.
        if producer_scope_kind_from scope_kind = None
        then Fail (BadSection (''unknown producer_scope_kind '' @ decimal (unat scope_kind)))
        else
        and_then (read_u16_le_checked buf 66) (\<lambda>scope_flags.
        if scope_flags \<noteq> 0 then Fail ReservedNotZero
        else
        and_then (read_i64_le_checked buf 68) (\<lambda>created.
        and_then (read_u32_le_checked buf 76) (\<lambda>feature_set.
        and_then (read_u32_le_checked buf 80) (\<lambda>capability.
        and_then (read_u32_le_checked buf 84) (\<lambda>fast_metadata.
        and_then (read_u32_le_checked buf 88) (\<lambda>v2_flags.
        if v2_flags \<noteq> 0 then Fail ReservedNotZero
        else
        and_then (slice buf 92 156) (\<lambda>reserved.
        if list_ex (\<lambda>b. b \<noteq> 0) reserved then Fail ReservedNotZero
        else Ok \<lparr>h_magic = magic, h_header_len = header_len, h_version_major = version_major,
          h_version_minor = version_minor, h_primary_profile = profile, h_endianness = endianness,
          h_flags = flags, h_required_features = required, h_optional_features = optional,
          h_file_id = file_id, h_producer_scope_id = scope_id, h_producer_scope_kind = scope_kind,
          h_reserved_scope_flags = scope_flags, h_created_at_us = created,
          h_feature_set_section_id = feature_set, h_profile_capability_section_id = capability,
          h_fast_metadata_section_id = fast_metadata, h_v2_flags = v2_flags, h_reserved = reserved,
          h_checksum = stored_crc\<rparr>)))))))))))))))))))))))"

text \<open>The headers a reader accepts.\<close>

definition header_wf :: "cove_header \<Rightarrow> bool" where
  "header_wf h \<longleftrightarrow>
     h_magic h = MAGIC_COVE \<and> h_header_len h = HEADER_LEN_V1 \<and> h_version_major h = VERSION_MAJOR_V1 \<and>
     primary_profile_from (h_primary_profile h) \<noteq> None \<and> h_endianness h = ENDIANNESS_LITTLE \<and>
     h_flags h = 0 \<and> h_required_features h AND NOT KNOWN_FEATURE_BITS_MASK = 0 \<and>
     length (h_file_id h) = 16 \<and> length (h_producer_scope_id h) = 16 \<and>
     producer_scope_kind_from (h_producer_scope_kind h) \<noteq> None \<and> h_reserved_scope_flags h = 0 \<and>
     h_v2_flags h = 0 \<and> h_reserved h = replicate 64 0"

definition header_sized :: "cove_header \<Rightarrow> bool" where
  "header_sized h \<longleftrightarrow> length (h_magic h) = 4 \<and> length (h_file_id h) = 16 \<and>
     length (h_producer_scope_id h) = 16 \<and> length (h_reserved h) = 64"

lemma header_wf_sized: "header_wf h \<Longrightarrow> header_sized h"
  by (simp add: header_wf_def header_sized_def MAGIC_COVE_def)

lemma header_buf_eq:
  assumes "header_sized h"
  shows "header_buf h =
    h_magic h @ le_bytes 2 (h_header_len h) @ le_bytes 2 (h_version_major h) @
    le_bytes 2 (h_version_minor h) @ [h_primary_profile h] @ [h_endianness h] @ le_bytes 4 (h_flags h) @
    le_bytes 8 (h_required_features h) @ le_bytes 8 (h_optional_features h) @ h_file_id h @
    h_producer_scope_id h @ le_bytes 2 (h_producer_scope_kind h) @ le_bytes 2 (h_reserved_scope_flags h) @
    le_bytes 8 (h_created_at_us h) @ le_bytes 4 (h_feature_set_section_id h) @
    le_bytes 4 (h_profile_capability_section_id h) @ le_bytes 4 (h_fast_metadata_section_id h) @
    le_bytes 4 (h_v2_flags h) @ h_reserved h @ replicate 4 0"
  using assms unfolding header_buf_def header_sized_def HEADER_SIZE_def
  by (simp add: fill_simps del: append_assoc)

lemma header_serialize_eq:
  assumes "header_sized h"
  shows "header_serialize crc h = take 156 (header_buf h) @ le_bytes 4 (crc (header_buf h))"
    and "length (header_buf h) = 160" and "drop 156 (header_buf h) = replicate 4 0"
proof -
  show l: "length (header_buf h) = 160" using assms by (simp add: header_buf_eq header_sized_def)
  show "drop 156 (header_buf h) = replicate 4 0" using assms by (simp add: header_buf_eq header_sized_def)
  show "header_serialize crc h = take 156 (header_buf h) @ le_bytes 4 (crc (header_buf h))"
    using l by (simp add: header_serialize_def CHECKSUM_OFFSET_def Let_def wire_simps)
qed

lemma header_serialize_fields:
  assumes "header_sized h"
  shows "header_serialize crc h =
    h_magic h @ le_bytes 2 (h_header_len h) @ le_bytes 2 (h_version_major h) @
    le_bytes 2 (h_version_minor h) @ [h_primary_profile h] @ [h_endianness h] @ le_bytes 4 (h_flags h) @
    le_bytes 8 (h_required_features h) @ le_bytes 8 (h_optional_features h) @ h_file_id h @
    h_producer_scope_id h @ le_bytes 2 (h_producer_scope_kind h) @ le_bytes 2 (h_reserved_scope_flags h) @
    le_bytes 8 (h_created_at_us h) @ le_bytes 4 (h_feature_set_section_id h) @
    le_bytes 4 (h_profile_capability_section_id h) @ le_bytes 4 (h_fast_metadata_section_id h) @
    le_bytes 4 (h_v2_flags h) @ h_reserved h @ le_bytes 4 (crc (header_buf h))"
  using assms by (simp add: header_serialize_eq) (simp add: header_buf_eq header_sized_def)

lemma header_field_reads:
  assumes "header_sized h" "s = header_serialize crc h"
  shows "length s = 160"
    and "sub s 0 4 = h_magic h" "sub s 32 16 = h_file_id h" "sub s 48 16 = h_producer_scope_id h"
      "sub s 92 64 = h_reserved h" "s ! 10 = h_primary_profile h" "s ! 11 = h_endianness h"
    and "sub s 4 2 = le_bytes 2 (h_header_len h)" "sub s 6 2 = le_bytes 2 (h_version_major h)"
      "sub s 8 2 = le_bytes 2 (h_version_minor h)" "sub s 12 4 = le_bytes 4 (h_flags h)"
      "sub s 16 8 = le_bytes 8 (h_required_features h)" "sub s 24 8 = le_bytes 8 (h_optional_features h)"
      "sub s 64 2 = le_bytes 2 (h_producer_scope_kind h)" "sub s 66 2 = le_bytes 2 (h_reserved_scope_flags h)"
      "sub s 68 8 = le_bytes 8 (h_created_at_us h)" "sub s 76 4 = le_bytes 4 (h_feature_set_section_id h)"
      "sub s 80 4 = le_bytes 4 (h_profile_capability_section_id h)"
      "sub s 84 4 = le_bytes 4 (h_fast_metadata_section_id h)" "sub s 88 4 = le_bytes 4 (h_v2_flags h)"
      "sub s 156 4 = le_bytes 4 (crc (header_buf h))"
proof -
  note e = assms(2) [unfolded header_serialize_fields [OF assms(1)]]
  show "length s = 160"
    and "sub s 0 4 = h_magic h" "sub s 32 16 = h_file_id h" "sub s 48 16 = h_producer_scope_id h"
      "sub s 92 64 = h_reserved h" "s ! 10 = h_primary_profile h" "s ! 11 = h_endianness h"
    and "sub s 4 2 = le_bytes 2 (h_header_len h)" "sub s 6 2 = le_bytes 2 (h_version_major h)"
      "sub s 8 2 = le_bytes 2 (h_version_minor h)" "sub s 12 4 = le_bytes 4 (h_flags h)"
      "sub s 16 8 = le_bytes 8 (h_required_features h)" "sub s 24 8 = le_bytes 8 (h_optional_features h)"
      "sub s 64 2 = le_bytes 2 (h_producer_scope_kind h)" "sub s 66 2 = le_bytes 2 (h_reserved_scope_flags h)"
      "sub s 68 8 = le_bytes 8 (h_created_at_us h)" "sub s 76 4 = le_bytes 4 (h_feature_set_section_id h)"
      "sub s 80 4 = le_bytes 4 (h_profile_capability_section_id h)"
      "sub s 84 4 = le_bytes 4 (h_fast_metadata_section_id h)" "sub s 88 4 = le_bytes 4 (h_v2_flags h)"
      "sub s 156 4 = le_bytes 4 (crc (header_buf h))"
    using assms(1) unfolding header_sized_def e
    by (simp_all add: sub_def nth_append)
qed

lemma header_check_buf:
  assumes "header_sized h"
  shows "copy_at (header_serialize crc h) CHECKSUM_OFFSET [0, 0, 0, 0] = header_buf h"
proof -
  have "copy_at (header_serialize crc h) CHECKSUM_OFFSET [0, 0, 0, 0] =
      take 156 (header_buf h) @ drop 156 (header_buf h)"
    using assms by (simp add: header_serialize_eq CHECKSUM_OFFSET_def copy_at_def four_zeros)
  then show ?thesis by simp
qed

lemma header_parse_reads:
  assumes "length buf = 160"
  shows "header_parse crc (buf @ rest) =
    (if crc (copy_at buf CHECKSUM_OFFSET [0, 0, 0, 0]) \<noteq> of_le (sub buf 156 4) then Fail ChecksumMismatch
     else if sub buf 0 4 \<noteq> MAGIC_COVE then Fail BadMagic
     else if of_le (sub buf 4 2) \<noteq> HEADER_LEN_V1
       then Fail (BadSection (''header_len is '' @ decimal (unat (of_le (sub buf 4 2) :: u16)) @ '', expected ''
          @ decimal (unat HEADER_LEN_V1)))
     else if of_le (sub buf 6 2) \<noteq> VERSION_MAJOR_V1 then Fail BadVersion
     else if primary_profile_from (buf ! 10) = None
       then Fail (BadSection (''unknown primary_profile '' @ decimal (unat (buf ! 10))))
     else if buf ! 11 \<noteq> ENDIANNESS_LITTLE
       then Fail (BadSection (''endianness field is '' @ decimal (unat (buf ! 11))
          @ '', only little-endian (1) is supported''))
     else if of_le (sub buf 12 4) \<noteq> (0 :: u32) then Fail ReservedNotZero
     else if of_le (sub buf 16 8) AND NOT KNOWN_FEATURE_BITS_MASK \<noteq> 0
       then Fail (UnknownRequiredFeature (of_le (sub buf 16 8) AND NOT KNOWN_FEATURE_BITS_MASK))
     else if producer_scope_kind_from (of_le (sub buf 64 2)) = None
       then Fail (BadSection (''unknown producer_scope_kind '' @ decimal (unat (of_le (sub buf 64 2) :: u16))))
     else if of_le (sub buf 66 2) \<noteq> (0 :: u16) then Fail ReservedNotZero
     else if of_le (sub buf 88 4) \<noteq> (0 :: u32) then Fail ReservedNotZero
     else if list_ex (\<lambda>b. b \<noteq> 0) (sub buf 92 64) then Fail ReservedNotZero
     else Ok \<lparr>h_magic = sub buf 0 4, h_header_len = of_le (sub buf 4 2), h_version_major = of_le (sub buf 6 2),
       h_version_minor = of_le (sub buf 8 2), h_primary_profile = buf ! 10, h_endianness = buf ! 11,
       h_flags = of_le (sub buf 12 4), h_required_features = of_le (sub buf 16 8),
       h_optional_features = of_le (sub buf 24 8), h_file_id = sub buf 32 16,
       h_producer_scope_id = sub buf 48 16, h_producer_scope_kind = of_le (sub buf 64 2),
       h_reserved_scope_flags = of_le (sub buf 66 2), h_created_at_us = of_le (sub buf 68 8),
       h_feature_set_section_id = of_le (sub buf 76 4), h_profile_capability_section_id = of_le (sub buf 80 4),
       h_fast_metadata_section_id = of_le (sub buf 84 4), h_v2_flags = of_le (sub buf 88 4),
       h_reserved = sub buf 92 64, h_checksum = of_le (sub buf 156 4)\<rparr>)"
proof -
  have s: "slice (buf @ rest) 0 160 = (Ok buf :: bytes res)" "\<not> length (buf @ rest) < HEADER_SIZE"
    using assms by (simp_all add: slice_def HEADER_SIZE_def)
  have r: "read_u32_le_checked buf 156 = Ok (of_le (sub buf 156 4))"
    "read_array_checked 4 buf 0 = Ok (sub buf 0 4)" "read_u16_le_checked buf 4 = Ok (of_le (sub buf 4 2))"
    "read_u16_le_checked buf 6 = Ok (of_le (sub buf 6 2))" "read_u16_le_checked buf 8 = Ok (of_le (sub buf 8 2))"
    "index buf 10 = (Ok (buf ! 10) :: u8 res)" "index buf 11 = (Ok (buf ! 11) :: u8 res)"
    "read_u32_le_checked buf 12 = Ok (of_le (sub buf 12 4))" "read_u64_le_checked buf 16 = Ok (of_le (sub buf 16 8))"
    "read_u64_le_checked buf 24 = Ok (of_le (sub buf 24 8))" "slice buf 32 48 = (Ok (sub buf 32 16) :: bytes res)"
    "slice buf 48 64 = (Ok (sub buf 48 16) :: bytes res)" "read_u16_le_checked buf 64 = Ok (of_le (sub buf 64 2))"
    "read_u16_le_checked buf 66 = Ok (of_le (sub buf 66 2))" "read_i64_le_checked buf 68 = Ok (of_le (sub buf 68 8))"
    "read_u32_le_checked buf 76 = Ok (of_le (sub buf 76 4))" "read_u32_le_checked buf 80 = Ok (of_le (sub buf 80 4))"
    "read_u32_le_checked buf 84 = Ok (of_le (sub buf 84 4))" "read_u32_le_checked buf 88 = Ok (of_le (sub buf 88 4))"
    "slice buf 92 156 = (Ok (sub buf 92 64) :: bytes res)"
    using assms
    by (simp_all add: wire_simps usize_limit_def index_Ok slice_Ok read_array_checked_eq)
  have c: "copy_from_slice (replicate 160 0) buf = Ok buf" using assms by (simp add: copy_from_slice_def)
  show ?thesis
    unfolding header_parse_def HEADER_SIZE_def CHECKSUM_OFFSET_def s(1) and_then_simps r c Let_def
    using s(2) by (simp only: HEADER_SIZE_def if_False)
qed

lemma header_parse_serialize:
  assumes "header_wf h"
  shows "header_parse crc (header_serialize crc h @ rest) = Ok (h\<lparr>h_checksum := crc (header_buf h)\<rparr>)"
proof -
  note z = header_wf_sized [OF assms]
  note f = header_field_reads [OF z refl, of crc]
  have "\<not> list_ex (\<lambda>b. b \<noteq> 0) (h_reserved h)"
    using assms by (auto simp: header_wf_def list_ex_iff)
  then show ?thesis
    using assms unfolding header_parse_reads [OF f(1)] f header_check_buf [OF z] header_wf_def
    by simp
qed

lemma header_parse_Ok:
  assumes "header_parse crc bs = Ok h"
  shows "header_wf h \<and> 160 \<le> length bs \<and> header_serialize crc h = take 160 bs"
proof -
  define buf where "buf = take 160 bs"
  have l: "160 \<le> length bs" using assms by (auto simp: header_parse_def HEADER_SIZE_def split: if_splits)
  then have lb: "length buf = 160" by (simp add: buf_def)
  have bs: "bs = buf @ drop 160 bs" by (simp add: buf_def)
  have p: "header_parse crc (buf @ drop 160 bs) = Ok h" using assms bs by simp
  note q = p [unfolded header_parse_reads [OF lb] ok_iffs sum.inject]
  have z: "\<not> list_ex (\<lambda>b. b \<noteq> 0) xs \<longleftrightarrow> xs = replicate (length xs) 0" for xs :: bytes
    by (induction xs) auto
  have crc: "crc (copy_at buf CHECKSUM_OFFSET [0, 0, 0, 0]) = of_le (sub buf 156 4)" using q by blast
  have h: "h = \<lparr>h_magic = sub buf 0 4, h_header_len = of_le (sub buf 4 2), h_version_major = of_le (sub buf 6 2),
       h_version_minor = of_le (sub buf 8 2), h_primary_profile = buf ! 10, h_endianness = buf ! 11,
       h_flags = of_le (sub buf 12 4), h_required_features = of_le (sub buf 16 8),
       h_optional_features = of_le (sub buf 24 8), h_file_id = sub buf 32 16,
       h_producer_scope_id = sub buf 48 16, h_producer_scope_kind = of_le (sub buf 64 2),
       h_reserved_scope_flags = of_le (sub buf 66 2), h_created_at_us = of_le (sub buf 68 8),
       h_feature_set_section_id = of_le (sub buf 76 4), h_profile_capability_section_id = of_le (sub buf 80 4),
       h_fast_metadata_section_id = of_le (sub buf 84 4), h_v2_flags = of_le (sub buf 88 4),
       h_reserved = sub buf 92 64, h_checksum = of_le (sub buf 156 4)\<rparr>"
    using q by blast
  have wf: "header_wf h"
    using q z [of "sub buf 92 64"] lb unfolding header_wf_def h
    by (simp add: length_sub)
  have sz: "header_sized h" by (rule header_wf_sized [OF wf])
  have le: "sub buf 10 1 = [buf ! 10]" "sub buf 11 1 = [buf ! 11]" using lb by (simp_all add: sub_singleton)
  have body: "take 156 (header_buf h) = sub buf 0 156"
    unfolding header_buf_eq [OF sz] unfolding h cove_header.simps
    using lb le [symmetric]
    by (simp add: le_bytes_of_le length_sub sub_join sub_join_assoc)
  have "header_buf h = take 156 (header_buf h) @ drop 156 (header_buf h)" by simp
  also have "\<dots> = copy_at buf CHECKSUM_OFFSET [0, 0, 0, 0]"
    using lb by (simp add: body header_serialize_eq(3) [OF sz] copy_at_def CHECKSUM_OFFSET_def sub_def four_zeros)
  finally have hb: "crc (header_buf h) = of_le (sub buf 156 4)" using crc by simp
  have "header_serialize crc h = sub buf 0 156 @ sub buf 156 4"
    using lb by (simp add: header_serialize_eq(1) [OF sz] body hb le_bytes_of_le length_sub)
  also have "\<dots> = buf" using lb by (simp add: sub_join sub_all)
  finally show ?thesis using wf l by (simp add: buf_def)
qed

lemma no_panic_header_parse [no_panic_intros, simp]: "no_panic (header_parse crc bs)"
proof (cases "length bs < 160")
  case False
  then have l: "length (take 160 bs) = 160" by simp
  have "no_panic (header_parse crc (take 160 bs @ drop 160 bs))"
    unfolding header_parse_reads [OF l] by (intro no_panic_if) simp_all
  then show ?thesis by simp
qed (simp add: header_parse_def HEADER_SIZE_def)

section \<open>Properties\<close>

text \<open>
  A header written by the library is read back unchanged (with the
  checksum that was computed for it) for every checksum function, whatever follows
  the 160 bytes.
\<close>

theorem header_roundtrip:
  assumes "header_wf h"
  shows "header_parse crc (header_serialize crc h @ rest) = Ok (h\<lparr>h_checksum := crc (header_buf h)\<rparr>)"
  using header_parse_serialize [OF assms] .

definition header_example :: cove_header where
  "header_example = \<lparr>h_magic = MAGIC_COVE, h_header_len = 160, h_version_major = 2, h_version_minor = 0,
     h_primary_profile = 2, h_endianness = 1, h_flags = 0, h_required_features = 3, h_optional_features = 0,
     h_file_id = replicate 16 7, h_producer_scope_id = replicate 16 0, h_producer_scope_kind = 0,
     h_reserved_scope_flags = 0, h_created_at_us = 1, h_feature_set_section_id = 0,
     h_profile_capability_section_id = 0, h_fast_metadata_section_id = 0, h_v2_flags = 0,
     h_reserved = replicate 64 0, h_checksum = 0\<rparr>"

lemma header_example_wf: "header_wf header_example"
  by (simp add: header_wf_def header_example_def HEADER_LEN_V1_def VERSION_MAJOR_V1_def ENDIANNESS_LITTLE_def
      primary_profile_from_def producer_scope_kind_from_def KNOWN_FEATURE_BITS_MASK_eq)

lemma header_roundtrip_witness:
  "header_parse (\<lambda>bs. of_nat (length bs)) (header_serialize (\<lambda>bs. of_nat (length bs)) header_example @ [1])
     = Ok (header_example\<lparr>h_checksum := of_nat (length (header_buf header_example))\<rparr>)"
  by (rule header_roundtrip [OF header_example_wf])

text \<open>
  What the header parser accepts is exactly a well-formed header under
  its checksum: the accepted header has the magic, the lengths and the version of
  the format, a known profile and scope kind, no unknown required feature and zero
  reserved fields, and serialising it gives back the 160 bytes read. A byte string
  shorter than 160 bytes is refused, and no byte string makes the parser panic.
\<close>

theorem header_parse_sound:
  "{h. header_parse crc bs = Ok h} =
     {h. header_wf h \<and> h_checksum h = crc (header_buf h) \<and> take 160 bs = header_serialize crc h} \<and>
   no_panic (header_parse crc bs)"
proof (intro conjI Collect_cong)
  fix h
  show "header_parse crc bs = Ok h \<longleftrightarrow>
    header_wf h \<and> h_checksum h = crc (header_buf h) \<and> take 160 bs = header_serialize crc h"
  proof
    assume p: "header_parse crc bs = Ok h"
    note q = header_parse_Ok [OF p]
    then have "header_parse crc (header_serialize crc h @ drop 160 bs) = Ok h" using p by simp
    then have "h = h\<lparr>h_checksum := crc (header_buf h)\<rparr>"
      using header_parse_serialize [of h crc "drop 160 bs"] q by (metis sum.inject(2))
    then have "h_checksum h = h_checksum (h\<lparr>h_checksum := crc (header_buf h)\<rparr>)" by (rule arg_cong)
    then have "h_checksum h = crc (header_buf h)" by simp
    then show "header_wf h \<and> h_checksum h = crc (header_buf h) \<and> take 160 bs = header_serialize crc h" using q by simp
  next
    assume a: "header_wf h \<and> h_checksum h = crc (header_buf h) \<and> take 160 bs = header_serialize crc h"
    then have "bs = header_serialize crc h @ drop 160 bs" by (metis append_take_drop_id)
    moreover have "h\<lparr>h_checksum := crc (header_buf h)\<rparr> = h" using a by simp
    ultimately show "header_parse crc bs = Ok h" using header_parse_serialize [of h crc "drop 160 bs"] a by simp
  qed
qed simp

end
