(* ===== verification/Postscript.thy ===== *)
theory Postscript
  imports Wire Constants
begin

text \<open>
  Section specs and the postscript at the end of every file
  (\<^verbatim>\<open>crates/cove-core/src/postscript.rs\<close>).
\<close>

section \<open>Section specs\<close>

definition SECTION_SPEC_SIZE :: nat where
  "SECTION_SPEC_SIZE = SECTION_SPEC_LEN"

record section_spec =
  ss_offset :: u64
  ss_length :: u64
  ss_uncompressed_length :: u64
  ss_compression :: u8
  ss_encryption :: u8
  ss_alignment_log2 :: u8
  ss_flags :: u8
  ss_crc32c :: u32
  ss_reserved :: u32

definition section_spec_serialize :: "section_spec \<Rightarrow> bytes" where
  "section_spec_serialize s =
     (let buf = replicate SECTION_SPEC_SIZE 0;
          buf = copy_at buf 0 (le_bytes 8 (ss_offset s));
          buf = copy_at buf 8 (le_bytes 8 (ss_length s));
          buf = copy_at buf 16 (le_bytes 8 (ss_uncompressed_length s));
          buf = copy_at buf 24 [ss_compression s];
          buf = copy_at buf 25 [ss_encryption s];
          buf = copy_at buf 26 [ss_alignment_log2 s];
          buf = copy_at buf 27 [ss_flags s];
          buf = copy_at buf 28 (le_bytes 4 (ss_crc32c s))
      in copy_at buf 32 (le_bytes 4 (ss_reserved s)))"

definition section_spec_parse :: "bytes \<Rightarrow> section_spec res" where
  "section_spec_parse buf =
     (if length buf < SECTION_SPEC_SIZE then Fail BufferTooShort
      else
        and_then (read_u64_le_checked buf 0) (\<lambda>offset.
        and_then (read_u64_le_checked buf 8) (\<lambda>len.
        and_then (read_u64_le_checked buf 16) (\<lambda>uncompressed.
        and_then (index buf 24) (\<lambda>compression.
        and_then (index buf 25) (\<lambda>encryption.
        and_then (index buf 26) (\<lambda>alignment_log2.
        and_then (index buf 27) (\<lambda>flags.
        and_then (read_u32_le_checked buf 28) (\<lambda>crc32c.
        and_then (read_u32_le_checked buf 32) (\<lambda>reserved.
        if compression_codec_from compression = None
        then Fail (BadSection (''unknown compression codec '' @ decimal (unat compression)))
        else if encryption \<noteq> 0
        then Fail (BadSection (''encryption must be 0 in v2, got '' @ decimal (unat encryption)))
        else if reserved \<noteq> 0 then Fail ReservedNotZero
        else Ok \<lparr>ss_offset = offset, ss_length = len, ss_uncompressed_length = uncompressed,
          ss_compression = compression, ss_encryption = encryption, ss_alignment_log2 = alignment_log2,
          ss_flags = flags, ss_crc32c = crc32c, ss_reserved = reserved\<rparr>))))))))))"

definition section_spec_end_offset :: "section_spec \<Rightarrow> u64 res" where
  "section_spec_end_offset s = ok_or ArithOverflow (checked_add_word (ss_offset s) (ss_length s))"

definition section_spec_wf :: "section_spec \<Rightarrow> bool" where
  "section_spec_wf s \<longleftrightarrow> compression_codec_from (ss_compression s) \<noteq> None \<and> ss_encryption s = 0 \<and> ss_reserved s = 0"

lemma section_spec_serialize_eq:
  "section_spec_serialize s = le_bytes 8 (ss_offset s) @ le_bytes 8 (ss_length s) @
     le_bytes 8 (ss_uncompressed_length s) @ [ss_compression s] @ [ss_encryption s] @ [ss_alignment_log2 s] @
     [ss_flags s] @ le_bytes 4 (ss_crc32c s) @ le_bytes 4 (ss_reserved s)"
  unfolding section_spec_serialize_def SECTION_SPEC_SIZE_def SECTION_SPEC_LEN_def
  by (simp add: fill_simps del: append_assoc)

lemma section_spec_parse_reads:
  assumes "36 \<le> length buf"
  shows "section_spec_parse buf =
    (if compression_codec_from (buf ! 24) = None
     then Fail (BadSection (''unknown compression codec '' @ decimal (unat (buf ! 24))))
     else if buf ! 25 \<noteq> 0
     then Fail (BadSection (''encryption must be 0 in v2, got '' @ decimal (unat (buf ! 25))))
     else if of_le (sub buf 32 4) \<noteq> (0 :: u32) then Fail ReservedNotZero
     else Ok \<lparr>ss_offset = of_le (sub buf 0 8), ss_length = of_le (sub buf 8 8),
       ss_uncompressed_length = of_le (sub buf 16 8), ss_compression = buf ! 24, ss_encryption = buf ! 25,
       ss_alignment_log2 = buf ! 26, ss_flags = buf ! 27, ss_crc32c = of_le (sub buf 28 4),
       ss_reserved = of_le (sub buf 32 4)\<rparr>)"
  using assms
  by (simp add: section_spec_parse_def SECTION_SPEC_SIZE_def SECTION_SPEC_LEN_def wire_simps usize_limit_def index_Ok)

lemma section_spec_parse_serialize:
  "section_spec_wf s \<Longrightarrow> section_spec_parse (section_spec_serialize s @ rest) = Ok s"
  by (subst section_spec_parse_reads)
    (simp_all add: section_spec_serialize_eq section_spec_wf_def sub_def nth_append)

interpretation section_spec: fixed_codec section_spec_serialize section_spec_parse 36 section_spec_wf
proof
  fix s :: section_spec and rest
  show "length (section_spec_serialize s) = 36" by (simp add: section_spec_serialize_eq)
  show "section_spec_wf s \<Longrightarrow> section_spec_parse (section_spec_serialize s @ rest) = Ok s"
    by (rule section_spec_parse_serialize)
qed

lemma section_spec_parse_Ok:
  assumes "section_spec_parse buf = Ok s"
  shows "section_spec_wf s \<and> 36 \<le> length buf \<and> section_spec_serialize s = take 36 buf"
proof -
  have l: "36 \<le> length buf"
    using assms by (auto simp: section_spec_parse_def SECTION_SPEC_SIZE_def SECTION_SPEC_LEN_def split: if_splits)
  note q = assms [unfolded section_spec_parse_reads [OF l] ok_iffs sum.inject]
  have le: "sub buf 24 1 = [buf ! 24]" "sub buf 25 1 = [buf ! 25]" "sub buf 26 1 = [buf ! 26]" "sub buf 27 1 = [buf ! 27]"
    using l by (simp_all add: sub_singleton)
  from q have s: "s = \<lparr>ss_offset = of_le (sub buf 0 8), ss_length = of_le (sub buf 8 8),
       ss_uncompressed_length = of_le (sub buf 16 8), ss_compression = buf ! 24, ss_encryption = buf ! 25,
       ss_alignment_log2 = buf ! 26, ss_flags = buf ! 27, ss_crc32c = of_le (sub buf 28 4),
       ss_reserved = of_le (sub buf 32 4)\<rparr>" by blast
  have "section_spec_serialize s = sub buf 0 36"
    unfolding section_spec_serialize_eq unfolding s section_spec.simps
    using l le [symmetric] by (simp add: le_bytes_of_le length_sub sub_join sub_join_assoc)
  then show ?thesis using q l s by (simp add: section_spec_wf_def sub_def)
qed

lemma no_panic_section_spec_parse [no_panic_intros, simp]: "no_panic (section_spec_parse buf)"
proof (cases "length buf < 36")
  case False
  then show ?thesis by (subst section_spec_parse_reads) auto
qed (simp add: section_spec_parse_def SECTION_SPEC_SIZE_def SECTION_SPEC_LEN_def)

section \<open>The postscript\<close>

definition POSTSCRIPT_SIZE :: nat where
  "POSTSCRIPT_SIZE = POSTSCRIPT_LEN"

definition POSTSCRIPT_TAIL_SIZE :: nat where
  "POSTSCRIPT_TAIL_SIZE = 8"

definition POSTSCRIPT_TOTAL_SIZE :: nat where
  "POSTSCRIPT_TOTAL_SIZE = POSTSCRIPT_SIZE + POSTSCRIPT_TAIL_SIZE"

definition PS_CHECKSUM_OFFSET :: nat where
  "PS_CHECKSUM_OFFSET = 60"

lemmas postscript_sizes = POSTSCRIPT_SIZE_def POSTSCRIPT_LEN_def POSTSCRIPT_TAIL_SIZE_def
  POSTSCRIPT_TOTAL_SIZE_def PS_CHECKSUM_OFFSET_def

record postscript =
  ps_required_features :: u64
  ps_optional_features :: u64
  ps_file_len :: u64
  ps_footer :: section_spec
  ps_checksum :: u32

definition postscript_buf :: "postscript \<Rightarrow> bytes" where
  "postscript_buf p =
     (let buf = replicate POSTSCRIPT_SIZE 0;
          buf = copy_at buf 0 (le_bytes 8 (ps_required_features p));
          buf = copy_at buf 8 (le_bytes 8 (ps_optional_features p));
          buf = copy_at buf 16 (le_bytes 8 (ps_file_len p))
      in copy_at buf 24 (section_spec_serialize (ps_footer p)))"

definition postscript_serialize :: "(bytes \<Rightarrow> u32) \<Rightarrow> postscript \<Rightarrow> bytes" where
  "postscript_serialize crc p =
     (let buf = postscript_buf p in copy_at buf PS_CHECKSUM_OFFSET (le_bytes 4 (crc buf)))"

definition postscript_serialize_tail :: "(bytes \<Rightarrow> u32) \<Rightarrow> postscript \<Rightarrow> bytes" where
  "postscript_serialize_tail crc p =
     (let tail = replicate POSTSCRIPT_TOTAL_SIZE 0;
          tail = copy_at tail 0 (postscript_serialize crc p);
          ps_len = of_nat POSTSCRIPT_SIZE :: u16;
          tail = copy_at tail POSTSCRIPT_SIZE (le_bytes 2 POSTSCRIPT_VERSION_V1);
          tail = copy_at tail (POSTSCRIPT_SIZE + 2) (le_bytes 2 ps_len)
      in copy_at tail (POSTSCRIPT_SIZE + 4) MAGIC_COVE)"

definition postscript_parse_payload :: "(bytes \<Rightarrow> u32) \<Rightarrow> bytes \<Rightarrow> postscript res" where
  "postscript_parse_payload crc bs =
     (if length bs < POSTSCRIPT_SIZE then Fail BufferTooShort
      else
        and_then (slice bs 0 POSTSCRIPT_SIZE) (\<lambda>buf.
        and_then (read_u32_le_checked buf PS_CHECKSUM_OFFSET) (\<lambda>stored_crc.
        and_then (copy_from_slice (replicate POSTSCRIPT_SIZE 0) buf) (\<lambda>check_buf.
        let check_buf = copy_at check_buf PS_CHECKSUM_OFFSET [0, 0, 0, 0] in
        if crc check_buf \<noteq> stored_crc then Fail ChecksumMismatch
        else
        and_then (read_u64_le_checked buf 0) (\<lambda>required.
        and_then (read_u64_le_checked buf 8) (\<lambda>optional.
        let unknown_required = required AND NOT KNOWN_FEATURE_BITS_MASK in
        if unknown_required \<noteq> 0 then Fail (UnknownRequiredFeature unknown_required)
        else
        and_then (read_u64_le_checked buf 16) (\<lambda>file_len.
        and_then (slice buf 24 60) (\<lambda>footer_bytes.
        and_then (section_spec_parse footer_bytes) (\<lambda>footer.
        Ok \<lparr>ps_required_features = required, ps_optional_features = optional, ps_file_len = file_len,
          ps_footer = footer, ps_checksum = stored_crc\<rparr>)))))))))"

definition parse_from_tail :: "(bytes \<Rightarrow> u32) \<Rightarrow> bytes \<Rightarrow> postscript res" where
  "parse_from_tail crc file_data =
     (let file_len = length file_data in
      if file_len < POSTSCRIPT_TOTAL_SIZE then Fail BufferTooShort
      else
        let tail_start = file_len - POSTSCRIPT_TAIL_SIZE in
        and_then (read_array_checked 4 file_data (tail_start + 4)) (\<lambda>magic.
        if magic \<noteq> MAGIC_COVE then Fail BadMagic
        else
        and_then (read_u16_le_checked file_data tail_start) (\<lambda>ps_version.
        and_then (read_u16_le_checked file_data (tail_start + 2)) (\<lambda>ps_len.
        if ps_version \<noteq> POSTSCRIPT_VERSION_V1 then Fail BadVersion
        else
          let ps_len_usize = unat ps_len in
          if ps_len_usize \<noteq> POSTSCRIPT_SIZE
          then Fail (BadSection (''postscript_len is '' @ decimal ps_len_usize @ '', expected '' @ decimal POSTSCRIPT_SIZE))
          else if file_len - POSTSCRIPT_TAIL_SIZE < ps_len_usize then Fail OffsetRange
          else
            let ps_start = tail_start - ps_len_usize in
            and_then (slice file_data ps_start (ps_start + ps_len_usize)) (\<lambda>ps_buf.
            postscript_parse_payload crc ps_buf)))))"

definition parse_from_tail_bytes :: "(bytes \<Rightarrow> u32) \<Rightarrow> bytes \<Rightarrow> postscript res" where
  "parse_from_tail_bytes crc bs =
     (if length bs < POSTSCRIPT_TOTAL_SIZE then Fail BufferTooShort
      else
        and_then (slice_from bs (length bs - POSTSCRIPT_TOTAL_SIZE)) (\<lambda>tail_bytes.
        and_then (read_array_checked 4 tail_bytes (POSTSCRIPT_SIZE + 4)) (\<lambda>magic.
        if magic \<noteq> MAGIC_COVE then Fail BadMagic
        else
        and_then (read_u16_le_checked tail_bytes POSTSCRIPT_SIZE) (\<lambda>ps_version.
        and_then (read_u16_le_checked tail_bytes (POSTSCRIPT_SIZE + 2)) (\<lambda>ps_len.
        if ps_version \<noteq> POSTSCRIPT_VERSION_V1 then Fail BadVersion
        else if unat ps_len \<noteq> POSTSCRIPT_SIZE
        then Fail (BadSection (''postscript_len is '' @ decimal (unat ps_len) @ '', expected '' @ decimal POSTSCRIPT_SIZE))
        else
          and_then (slice tail_bytes 0 POSTSCRIPT_SIZE) (\<lambda>payload.
          postscript_parse_payload crc payload))))))"

definition postscript_wf :: "postscript \<Rightarrow> bool" where
  "postscript_wf p \<longleftrightarrow> ps_required_features p AND NOT KNOWN_FEATURE_BITS_MASK = 0 \<and> section_spec_wf (ps_footer p)"

section \<open>Serialising and parsing the payload\<close>

lemma length_section_spec [simp]: "length (section_spec_serialize s) = 36"
  by (simp add: section_spec_serialize_eq)

lemma postscript_buf_eq:
  "postscript_buf p = le_bytes 8 (ps_required_features p) @ le_bytes 8 (ps_optional_features p) @
     le_bytes 8 (ps_file_len p) @ section_spec_serialize (ps_footer p) @ replicate 4 0"
  unfolding postscript_buf_def postscript_sizes
  by (simp add: fill_simps del: append_assoc)

lemma postscript_serialize_eq:
  "postscript_serialize crc p = le_bytes 8 (ps_required_features p) @ le_bytes 8 (ps_optional_features p) @
     le_bytes 8 (ps_file_len p) @ section_spec_serialize (ps_footer p) @ le_bytes 4 (crc (postscript_buf p))"
  by (simp add: postscript_serialize_def postscript_sizes Let_def copy_at_def)
    (simp add: postscript_buf_eq)

lemma length_postscript [simp]: "length (postscript_serialize crc p) = 64"
  by (simp add: postscript_serialize_eq)

lemma postscript_serialize_tail_eq:
  "postscript_serialize_tail crc p =
     postscript_serialize crc p @ le_bytes 2 POSTSCRIPT_VERSION_V1 @ le_bytes 2 (64 :: u16) @ MAGIC_COVE"
proof -
  have "length MAGIC_COVE = 4" by (simp add: MAGIC_COVE_def)
  then show ?thesis
    unfolding postscript_serialize_tail_def postscript_sizes
    by (simp add: fill_simps del: append_assoc)
qed

lemma postscript_payload_reads:
  assumes "64 \<le> length bs"
  shows "postscript_parse_payload crc bs =
    (if crc (copy_at (take 64 bs) 60 [0, 0, 0, 0]) \<noteq> of_le (sub bs 60 4) then Fail ChecksumMismatch
     else if of_le (sub bs 0 8) AND NOT KNOWN_FEATURE_BITS_MASK \<noteq> 0
       then Fail (UnknownRequiredFeature (of_le (sub bs 0 8) AND NOT KNOWN_FEATURE_BITS_MASK))
     else and_then (section_spec_parse (sub bs 24 36)) (\<lambda>footer.
       Ok \<lparr>ps_required_features = of_le (sub bs 0 8), ps_optional_features = of_le (sub bs 8 8),
         ps_file_len = of_le (sub bs 16 8), ps_footer = footer, ps_checksum = of_le (sub bs 60 4)\<rparr>))"
proof -
  have t: "slice bs 0 64 = (Ok (take 64 bs) :: bytes res)" using assms by (simp add: slice_Ok sub_def)
  have "slice (take 64 bs) 24 60 = (Ok (sub bs 24 36) :: bytes res)"
    using assms by (simp add: slice_Ok sub_take)
  then show ?thesis
    using assms t
    by (simp add: postscript_parse_payload_def postscript_sizes wire_simps usize_limit_def sub_take
        copy_from_slice_def min_def Let_def)
qed

lemma postscript_parse_serialize:
  assumes "postscript_wf p"
  shows "postscript_parse_payload crc (postscript_serialize crc p @ rest) = Ok (p\<lparr>ps_checksum := crc (postscript_buf p)\<rparr>)"
proof -
  have c: "copy_at (take 64 (postscript_serialize crc p @ rest)) 60 [0, 0, 0, 0] = postscript_buf p"
    by (simp add: postscript_serialize_eq copy_at_def) (simp add: postscript_buf_eq four_zeros)
  have f: "sub (postscript_serialize crc p @ rest) 24 36 = section_spec_serialize (ps_footer p)"
    by (simp add: postscript_serialize_eq sub_def)
  have s: "section_spec_parse (section_spec_serialize (ps_footer p)) = Ok (ps_footer p)"
    using assms by (intro section_spec.dec_enc_exact) (simp add: postscript_wf_def)
  have r: "sub (postscript_serialize crc p @ rest) 0 8 = le_bytes 8 (ps_required_features p)"
    "sub (postscript_serialize crc p @ rest) 8 8 = le_bytes 8 (ps_optional_features p)"
    "sub (postscript_serialize crc p @ rest) 16 8 = le_bytes 8 (ps_file_len p)"
    "sub (postscript_serialize crc p @ rest) 60 4 = le_bytes 4 (crc (postscript_buf p))"
    by (simp_all add: postscript_serialize_eq sub_def)
  show ?thesis
    using assms by (simp add: postscript_payload_reads c [simplified] f s r postscript_wf_def)
qed

lemma postscript_parse_payload_Ok:
  assumes "postscript_parse_payload crc bs = Ok p"
  shows "postscript_wf p \<and> 64 \<le> length bs \<and> postscript_serialize crc p = take 64 bs"
proof -
  have l: "64 \<le> length bs"
    using assms by (auto simp: postscript_parse_payload_def postscript_sizes split: if_splits)
  note q = assms [unfolded postscript_payload_reads [OF l] ok_iffs sum.inject]
  from q obtain footer where f: "section_spec_parse (sub bs 24 36) = Ok footer"
    and p: "p = \<lparr>ps_required_features = of_le (sub bs 0 8), ps_optional_features = of_le (sub bs 8 8),
         ps_file_len = of_le (sub bs 16 8), ps_footer = footer, ps_checksum = of_le (sub bs 60 4)\<rparr>" by blast
  have ff: "section_spec_wf footer" "section_spec_serialize footer = sub bs 24 36"
    using section_spec_parse_Ok [OF f] l by (simp_all add: sub_def)
  have b: "postscript_buf p = sub bs 0 60 @ replicate 4 0"
    unfolding postscript_buf_eq unfolding p postscript.simps ff(2)
    using l by (simp add: le_bytes_of_le length_sub sub_join sub_join_assoc)
  also have "\<dots> = copy_at (take 64 bs) 60 [0, 0, 0, 0]"
    using l by (simp add: copy_at_def sub_def four_zeros min_def)
  finally have "crc (postscript_buf p) = of_le (sub bs 60 4)" using q by simp
  then have "postscript_serialize crc p = sub bs 0 64"
    unfolding postscript_serialize_eq unfolding p postscript.simps ff(2)
    using l by (simp add: le_bytes_of_le length_sub sub_join sub_join_assoc)
  then show ?thesis using q l ff p by (simp add: postscript_wf_def sub_def)
qed

lemma no_panic_postscript_payload [no_panic_intros, simp]: "no_panic (postscript_parse_payload crc bs)"
proof (cases "length bs < 64")
  case False
  then show ?thesis by (subst postscript_payload_reads) (auto intro!: no_panic_intros)
qed (simp add: postscript_parse_payload_def postscript_sizes)

section \<open>The two tail parsers\<close>

lemma tail_reads:
  assumes "72 \<le> length bs" "length bs < usize_limit"
  shows "parse_from_tail crc bs =
    (let t = drop (length bs - 72) bs in
     if sub t 68 4 \<noteq> MAGIC_COVE then Fail BadMagic
     else if of_le (sub t 64 2) \<noteq> POSTSCRIPT_VERSION_V1 then Fail BadVersion
     else if unat (of_le (sub t 66 2) :: u16) \<noteq> 64
       then Fail (BadSection (''postscript_len is '' @ decimal (unat (of_le (sub t 66 2) :: u16)) @ '', expected '' @ decimal 64))
     else postscript_parse_payload crc (sub t 0 64))"
    and "parse_from_tail_bytes crc bs = parse_from_tail crc bs"
proof -
  let ?t = "drop (length bs - 72) bs"
  have off: "Suc (Suc (length bs - 8)) = length bs - 6" using assms(1) by simp
  have r: "read_array_checked 4 bs (length bs - 8 + 4) = Ok (sub ?t 68 4)"
    "read_u16_le_checked bs (length bs - 8) = Ok (of_le (sub ?t 64 2))"
    "read_u16_le_checked bs (length bs - 8 + 2) = Ok (of_le (sub ?t 66 2))"
    "slice bs (length bs - 8 - 64) (length bs - 8 - 64 + 64) = (Ok (sub ?t 0 64) :: bytes res)"
    using assms by (simp_all add: wire_simps read_array_checked_eq sub_drop slice_Ok off)
  have s: "read_array_checked 4 ?t 68 = Ok (sub ?t 68 4)"
    "read_u16_le_checked ?t 64 = Ok (of_le (sub ?t 64 2))"
    "read_u16_le_checked ?t 66 = Ok (of_le (sub ?t 66 2))"
    "slice_from bs (length bs - 72) = (Ok ?t :: bytes res)" "slice ?t 0 64 = (Ok (sub ?t 0 64) :: bytes res)"
    using assms by (simp_all add: wire_simps usize_limit_def read_array_checked_eq slice_Ok slice_from_Ok)
  show a: "parse_from_tail crc bs =
    (let t = ?t in
     if sub t 68 4 \<noteq> MAGIC_COVE then Fail BadMagic
     else if of_le (sub t 64 2) \<noteq> POSTSCRIPT_VERSION_V1 then Fail BadVersion
     else if unat (of_le (sub t 66 2) :: u16) \<noteq> 64
       then Fail (BadSection (''postscript_len is '' @ decimal (unat (of_le (sub t 66 2) :: u16)) @ '', expected '' @ decimal 64))
     else postscript_parse_payload crc (sub t 0 64))"
    using assms unfolding parse_from_tail_def postscript_sizes Let_def r(1-3) and_then_simps
    by (auto simp: slice_Ok sub_drop)
  show "parse_from_tail_bytes crc bs = parse_from_tail crc bs"
    using assms unfolding a parse_from_tail_bytes_def postscript_sizes Let_def
    by (simp add: s)
qed

lemma tail_drop:
  assumes "72 \<le> length tail_bs" "length (pre @ tail_bs) < usize_limit"
  shows "parse_from_tail crc (pre @ tail_bs) = parse_from_tail_bytes crc tail_bs"
proof -
  have "drop (length (pre @ tail_bs) - 72) (pre @ tail_bs) = drop (length tail_bs - 72) tail_bs" using assms by simp
  moreover have "length tail_bs < usize_limit" using assms by simp
  ultimately show ?thesis
    using assms by (simp only: tail_reads [of "pre @ tail_bs"] tail_reads [of tail_bs] length_append trans_le_add2)
qed

lemma parse_tail_serialize:
  assumes "postscript_wf p" "length pre + 72 < usize_limit"
  shows "parse_from_tail crc (pre @ postscript_serialize_tail crc p) = Ok (p\<lparr>ps_checksum := crc (postscript_buf p)\<rparr>)"
proof -
  let ?t = "postscript_serialize_tail crc p"
  have m: "length MAGIC_COVE = 4" by (simp add: MAGIC_COVE_def)
  have l: "length ?t = 72" by (simp add: postscript_serialize_tail_eq m)
  have d: "drop (length (pre @ ?t) - 72) (pre @ ?t) = ?t" using l by simp
  have f: "sub ?t 68 4 = MAGIC_COVE" "sub ?t 64 2 = le_bytes 2 POSTSCRIPT_VERSION_V1"
    "sub ?t 66 2 = le_bytes 2 (64 :: u16)" "sub ?t 0 64 = postscript_serialize crc p"
    by (simp_all add: postscript_serialize_tail_eq sub_def m)
  have "72 \<le> length (pre @ ?t)" "length (pre @ ?t) < usize_limit" using l assms(2) by simp_all
  from tail_reads(1) [OF this, unfolded d Let_def f, of crc] show ?thesis
    using postscript_parse_serialize [OF assms(1), of crc "[]"] by simp
qed

section \<open>Properties\<close>

text \<open>
  The postscript a writer puts at the end of a file is found and read
  back from the whole file, whatever precedes it, with the checksum computed for it.
\<close>

theorem postscript_tail_roundtrip:
  assumes "postscript_wf p" "length pre + 72 < usize_limit"
  shows "parse_from_tail crc (pre @ postscript_serialize_tail crc p) = Ok (p\<lparr>ps_checksum := crc (postscript_buf p)\<rparr>)"
  using parse_tail_serialize [OF assms] .

definition postscript_example :: postscript where
  "postscript_example = \<lparr>ps_required_features = 3, ps_optional_features = 0, ps_file_len = 300,
     ps_footer = \<lparr>ss_offset = 160, ss_length = 44, ss_uncompressed_length = 44, ss_compression = 0,
       ss_encryption = 0, ss_alignment_log2 = 0, ss_flags = 0, ss_crc32c = 9, ss_reserved = 0\<rparr>,
     ps_checksum = 0\<rparr>"

lemma postscript_example_wf: "postscript_wf postscript_example"
  by (simp add: postscript_wf_def postscript_example_def section_spec_wf_def compression_codec_from_def
      KNOWN_FEATURE_BITS_MASK_eq)

lemma postscript_tail_roundtrip_witness:
  "parse_from_tail (\<lambda>_. 7) ([1, 2] @ postscript_serialize_tail (\<lambda>_. 7) postscript_example)
     = Ok (postscript_example\<lparr>ps_checksum := 7\<rparr>)"
  using postscript_tail_roundtrip [OF postscript_example_wf, of "[1, 2]" "\<lambda>_. 7"] by (simp add: usize_limit_def)

text \<open>
  The reader of the whole file and the range reader of its tail agree:
  on any file they return the same postscript or the same error, and that result
  depends on the last 72 bytes alone.
\<close>

theorem tail_parsers_agree:
  assumes "72 \<le> length tail_bs" "length (pre @ tail_bs) < usize_limit"
  shows "parse_from_tail crc (pre @ tail_bs) = parse_from_tail_bytes crc (pre @ tail_bs) \<and>
    parse_from_tail crc (pre @ tail_bs) = parse_from_tail_bytes crc tail_bs"
proof -
  have "72 \<le> length (pre @ tail_bs)" using assms(1) by simp
  then show ?thesis using tail_drop [OF assms] tail_reads(2) assms(2) by metis
qed

lemma tail_parsers_agree_witness:
  "parse_from_tail (\<lambda>_. 7) ([1] @ replicate 72 0) = parse_from_tail_bytes (\<lambda>_. 7) (replicate 72 0)"
proof -
  have "72 \<le> length (replicate 72 (0 :: u8))" "length ([1 :: u8] @ replicate 72 0) < usize_limit"
    by (simp_all add: usize_limit_def)
  from tail_parsers_agree [OF this] show ?thesis by blast
qed

end
