(* ===== verification/Section_Kinds.thy ===== *)
theory Section_Kinds
  imports Constants
begin

text \<open>
  The section kinds of the footer directory (\<^verbatim>\<open>SectionKind\<close> of
  \<^verbatim>\<open>crates/cove-core/src/constants.rs\<close>).
\<close>

datatype (plugins only: size) section_kind =
    SK_FileDictionaryIndex | SK_FileDictionaryPayload | SK_CollationRegistry
  | SK_DigestManifest | SK_RedactionManifest | SK_ArrowInteropHints | SK_LakehouseHints
  | SK_ExtensionRegistry | SK_ProfileCapabilityMatrix | SK_TableCatalog
  | SK_TableSegmentIndex | SK_TableSegmentData | SK_ColumnDomain | SK_ZoneStats
  | SK_ExactSetIndex | SK_BloomIndex | SK_InvertedMorselIndex | SK_LookupIndex
  | SK_AggregateSynopsis | SK_CompositeZoneIndex | SK_TopNZoneSummary
  | SK_KernelCapabilities | SK_ExtendedFeatureSet | SK_CodecExtensionRegistry
  | SK_LayoutPlan | SK_ScanSplitIndex | SK_PageClusterDirectory | SK_ZeroCopyBufferMap
  | SK_FastMetadataIndex | SK_EngineProfileRegistry | SK_ExecutionCodeDescriptor
  | SK_ExecutionScopeDescriptor | SK_CodeSpaceDescriptor | SK_EngineMountPolicy
  | SK_CoverageProviderRegistry | SK_CoverageSet | SK_CoveragePlanCandidate
  | SK_PredicateNormalForm | SK_IndexOnlyCapability | SK_ObjectTypeCatalog
  | SK_TemporalSegmentIndex | SK_TemporalSegmentData | SK_TemporalBloomIndex
  | SK_TrustManifest | SK_SectionFeatureBinding | SK_CoverageProofRecord | SK_NestedSchema
  | SK_RuntimeCompatibilityHints | SK_HarborMountHints | SK_MapSourceCatalog
  | SK_MapFunctionRegistry | SK_MapIdentityRuleCatalog | SK_MapRowSemanticsCatalog
  | SK_MapAssertionLog | SK_MapIdentityEquivalenceIndex | SK_MapEvidenceIndex
  | SK_MapConversionReport | SK_MapProjectionCatalog | SK_MapResolutionCatalog
  | SK_MapAiProfileCatalog | SK_MapAiTemplateCatalog | SK_MapAiTrainingPolicyCatalog
  | SK_QueryDiscoveryManifest | SK_AiCompanionArtifactRef | SK_AiSourceBinding
  | SK_AiChunkProfile | SK_AiTextChunkIndex | SK_AiTokenizerProfile | SK_AiTokenBlock
  | SK_AiTokenizedSpan | SK_AiTokenSequencePack | SK_AiVectorSpace | SK_AiVectorBinding
  | SK_AiVectorPayloadBlock | SK_AiVectorComposition | SK_AiVectorIndex
  | SK_AiTensorLayout | SK_AiAssetManifest | SK_AiMultimodalSequence
  | SK_AiTrainingProfile | SK_AiTrainingSampleIndex | SK_AiTrainingSplitDedupEpoch
  | SK_AiLabelPreference | SK_AiGeneratorProvenance | SK_AiReferenceTables
  | SK_AiPayloadIntegrity | SK_AiPrivacySummary | SK_AiSectionFeatureBinding
  | SK_AiVectorDirectory | SK_AiPayloadBytes | SK_VendorExtension

primrec as_section_kind :: "section_kind \<Rightarrow> u16" where
  "as_section_kind SK_FileDictionaryIndex = 1"
| "as_section_kind SK_FileDictionaryPayload = 2"
| "as_section_kind SK_CollationRegistry = 3"
| "as_section_kind SK_DigestManifest = 4"
| "as_section_kind SK_RedactionManifest = 5"
| "as_section_kind SK_ArrowInteropHints = 6"
| "as_section_kind SK_LakehouseHints = 7"
| "as_section_kind SK_ExtensionRegistry = 8"
| "as_section_kind SK_ProfileCapabilityMatrix = 9"
| "as_section_kind SK_TableCatalog = 10"
| "as_section_kind SK_TableSegmentIndex = 11"
| "as_section_kind SK_TableSegmentData = 12"
| "as_section_kind SK_ColumnDomain = 13"
| "as_section_kind SK_ZoneStats = 14"
| "as_section_kind SK_ExactSetIndex = 15"
| "as_section_kind SK_BloomIndex = 16"
| "as_section_kind SK_InvertedMorselIndex = 17"
| "as_section_kind SK_LookupIndex = 18"
| "as_section_kind SK_AggregateSynopsis = 19"
| "as_section_kind SK_CompositeZoneIndex = 20"
| "as_section_kind SK_TopNZoneSummary = 21"
| "as_section_kind SK_KernelCapabilities = 22"
| "as_section_kind SK_ExtendedFeatureSet = 23"
| "as_section_kind SK_CodecExtensionRegistry = 24"
| "as_section_kind SK_LayoutPlan = 25"
| "as_section_kind SK_ScanSplitIndex = 26"
| "as_section_kind SK_PageClusterDirectory = 27"
| "as_section_kind SK_ZeroCopyBufferMap = 28"
| "as_section_kind SK_FastMetadataIndex = 29"
| "as_section_kind SK_EngineProfileRegistry = 30"
| "as_section_kind SK_ExecutionCodeDescriptor = 31"
| "as_section_kind SK_ExecutionScopeDescriptor = 32"
| "as_section_kind SK_CodeSpaceDescriptor = 33"
| "as_section_kind SK_EngineMountPolicy = 34"
| "as_section_kind SK_CoverageProviderRegistry = 35"
| "as_section_kind SK_CoverageSet = 36"
| "as_section_kind SK_CoveragePlanCandidate = 37"
| "as_section_kind SK_PredicateNormalForm = 38"
| "as_section_kind SK_IndexOnlyCapability = 39"
| "as_section_kind SK_ObjectTypeCatalog = 40"
| "as_section_kind SK_TemporalSegmentIndex = 41"
| "as_section_kind SK_TemporalSegmentData = 42"
| "as_section_kind SK_TemporalBloomIndex = 43"
| "as_section_kind SK_TrustManifest = 44"
| "as_section_kind SK_SectionFeatureBinding = 45"
| "as_section_kind SK_CoverageProofRecord = 46"
| "as_section_kind SK_NestedSchema = 47"
| "as_section_kind SK_RuntimeCompatibilityHints = 48"
| "as_section_kind SK_HarborMountHints = 50"
| "as_section_kind SK_MapSourceCatalog = 60"
| "as_section_kind SK_MapFunctionRegistry = 61"
| "as_section_kind SK_MapIdentityRuleCatalog = 62"
| "as_section_kind SK_MapRowSemanticsCatalog = 63"
| "as_section_kind SK_MapAssertionLog = 64"
| "as_section_kind SK_MapIdentityEquivalenceIndex = 65"
| "as_section_kind SK_MapEvidenceIndex = 66"
| "as_section_kind SK_MapConversionReport = 67"
| "as_section_kind SK_MapProjectionCatalog = 68"
| "as_section_kind SK_MapResolutionCatalog = 69"
| "as_section_kind SK_MapAiProfileCatalog = 70"
| "as_section_kind SK_MapAiTemplateCatalog = 71"
| "as_section_kind SK_MapAiTrainingPolicyCatalog = 72"
| "as_section_kind SK_QueryDiscoveryManifest = 90"
| "as_section_kind SK_AiCompanionArtifactRef = 99"
| "as_section_kind SK_AiSourceBinding = 100"
| "as_section_kind SK_AiChunkProfile = 101"
| "as_section_kind SK_AiTextChunkIndex = 102"
| "as_section_kind SK_AiTokenizerProfile = 103"
| "as_section_kind SK_AiTokenBlock = 104"
| "as_section_kind SK_AiTokenizedSpan = 105"
| "as_section_kind SK_AiTokenSequencePack = 106"
| "as_section_kind SK_AiVectorSpace = 107"
| "as_section_kind SK_AiVectorBinding = 108"
| "as_section_kind SK_AiVectorPayloadBlock = 109"
| "as_section_kind SK_AiVectorComposition = 110"
| "as_section_kind SK_AiVectorIndex = 111"
| "as_section_kind SK_AiTensorLayout = 112"
| "as_section_kind SK_AiAssetManifest = 113"
| "as_section_kind SK_AiMultimodalSequence = 114"
| "as_section_kind SK_AiTrainingProfile = 115"
| "as_section_kind SK_AiTrainingSampleIndex = 116"
| "as_section_kind SK_AiTrainingSplitDedupEpoch = 117"
| "as_section_kind SK_AiLabelPreference = 118"
| "as_section_kind SK_AiGeneratorProvenance = 119"
| "as_section_kind SK_AiReferenceTables = 120"
| "as_section_kind SK_AiPayloadIntegrity = 121"
| "as_section_kind SK_AiPrivacySummary = 122"
| "as_section_kind SK_AiSectionFeatureBinding = 123"
| "as_section_kind SK_AiVectorDirectory = 124"
| "as_section_kind SK_AiPayloadBytes = 125"
| "as_section_kind SK_VendorExtension = 255"

definition section_kind_from :: "u16 \<Rightarrow> section_kind option" where
  "section_kind_from v = map_of
     [(1, SK_FileDictionaryIndex), (2, SK_FileDictionaryPayload), (3, SK_CollationRegistry)
      , (4, SK_DigestManifest), (5, SK_RedactionManifest), (6, SK_ArrowInteropHints)
      , (7, SK_LakehouseHints), (8, SK_ExtensionRegistry), (9, SK_ProfileCapabilityMatrix)
      , (10, SK_TableCatalog), (11, SK_TableSegmentIndex), (12, SK_TableSegmentData)
      , (13, SK_ColumnDomain), (14, SK_ZoneStats), (15, SK_ExactSetIndex), (16, SK_BloomIndex)
      , (17, SK_InvertedMorselIndex), (18, SK_LookupIndex), (19, SK_AggregateSynopsis)
      , (20, SK_CompositeZoneIndex), (21, SK_TopNZoneSummary), (22, SK_KernelCapabilities)
      , (23, SK_ExtendedFeatureSet), (24, SK_CodecExtensionRegistry), (25, SK_LayoutPlan)
      , (26, SK_ScanSplitIndex), (27, SK_PageClusterDirectory), (28, SK_ZeroCopyBufferMap)
      , (29, SK_FastMetadataIndex), (30, SK_EngineProfileRegistry)
      , (31, SK_ExecutionCodeDescriptor), (32, SK_ExecutionScopeDescriptor)
      , (33, SK_CodeSpaceDescriptor), (34, SK_EngineMountPolicy)
      , (35, SK_CoverageProviderRegistry), (36, SK_CoverageSet)
      , (37, SK_CoveragePlanCandidate), (38, SK_PredicateNormalForm)
      , (39, SK_IndexOnlyCapability), (40, SK_ObjectTypeCatalog)
      , (41, SK_TemporalSegmentIndex), (42, SK_TemporalSegmentData)
      , (43, SK_TemporalBloomIndex), (44, SK_TrustManifest), (45, SK_SectionFeatureBinding)
      , (46, SK_CoverageProofRecord), (47, SK_NestedSchema)
      , (48, SK_RuntimeCompatibilityHints), (50, SK_HarborMountHints)
      , (60, SK_MapSourceCatalog), (61, SK_MapFunctionRegistry)
      , (62, SK_MapIdentityRuleCatalog), (63, SK_MapRowSemanticsCatalog)
      , (64, SK_MapAssertionLog), (65, SK_MapIdentityEquivalenceIndex)
      , (66, SK_MapEvidenceIndex), (67, SK_MapConversionReport), (68, SK_MapProjectionCatalog)
      , (69, SK_MapResolutionCatalog), (70, SK_MapAiProfileCatalog)
      , (71, SK_MapAiTemplateCatalog), (72, SK_MapAiTrainingPolicyCatalog)
      , (90, SK_QueryDiscoveryManifest), (99, SK_AiCompanionArtifactRef)
      , (100, SK_AiSourceBinding), (101, SK_AiChunkProfile), (102, SK_AiTextChunkIndex)
      , (103, SK_AiTokenizerProfile), (104, SK_AiTokenBlock), (105, SK_AiTokenizedSpan)
      , (106, SK_AiTokenSequencePack), (107, SK_AiVectorSpace), (108, SK_AiVectorBinding)
      , (109, SK_AiVectorPayloadBlock), (110, SK_AiVectorComposition), (111, SK_AiVectorIndex)
      , (112, SK_AiTensorLayout), (113, SK_AiAssetManifest), (114, SK_AiMultimodalSequence)
      , (115, SK_AiTrainingProfile), (116, SK_AiTrainingSampleIndex)
      , (117, SK_AiTrainingSplitDedupEpoch), (118, SK_AiLabelPreference)
      , (119, SK_AiGeneratorProvenance), (120, SK_AiReferenceTables)
      , (121, SK_AiPayloadIntegrity), (122, SK_AiPrivacySummary)
      , (123, SK_AiSectionFeatureBinding), (124, SK_AiVectorDirectory)
      , (125, SK_AiPayloadBytes), (255, SK_VendorExtension)] v"

lemma section_kind_from_iff: "section_kind_from v = Some k \<longleftrightarrow> v = as_section_kind k"
  unfolding section_kind_from_def
  by (rule map_of_table_iff [where f = as_section_kind], simp, simp, (cases k; simp))

text \<open>
  The section kind of a directory entry is read back from its number, for
  all ninety-one kinds, and no number outside the table is accepted.
\<close>

theorem section_kind_table_inverts:
  "section_kind_from v = Some k \<longleftrightarrow> v = as_section_kind k"
  by (rule section_kind_from_iff)

end
