(* ===== verification/Metadata.thy ===== *)
theory Metadata
  imports Cove_Error Constants
begin

text \<open>
  Footer metadata JSON (\<^verbatim>\<open>crates/cove-core/src/metadata.rs\<close>) and the UTF-8
  check of the standard library it relies on. The JSON parser is the
  \<^verbatim>\<open>serde_json\<close> crate, a parameter \<open>json\<close> that returns the value of the
  bytes when they are JSON.
\<close>

section \<open>UTF-8\<close>

text \<open>\<^verbatim>\<open>std::str::from_utf8\<close>: the well-formed sequences of the Unicode standard.\<close>

definition utf8_cont :: "u8 \<Rightarrow> bool" where
  "utf8_cont b \<longleftrightarrow> 0x80 \<le> b \<and> b \<le> 0xBF"

fun utf8_valid :: "bytes \<Rightarrow> bool" where
  "utf8_valid [] \<longleftrightarrow> True"
| "utf8_valid (b # bs) \<longleftrightarrow>
     (if b < 0x80 then utf8_valid bs
      else if 0xC2 \<le> b \<and> b \<le> 0xDF then
        (case bs of c # r \<Rightarrow> utf8_cont c \<and> utf8_valid r | [] \<Rightarrow> False)
      else if 0xE0 \<le> b \<and> b \<le> 0xEF then
        (case bs of c # d # r \<Rightarrow>
           utf8_cont c \<and> (b = 0xE0 \<longrightarrow> 0xA0 \<le> c) \<and> (b = 0xED \<longrightarrow> c \<le> 0x9F) \<and> utf8_cont d \<and> utf8_valid r
         | _ \<Rightarrow> False)
      else if 0xF0 \<le> b \<and> b \<le> 0xF4 then
        (case bs of c # d # e # r \<Rightarrow>
           utf8_cont c \<and> (b = 0xF0 \<longrightarrow> 0x90 \<le> c) \<and> (b = 0xF4 \<longrightarrow> c \<le> 0x8F) \<and> utf8_cont d \<and> utf8_cont e \<and>
           utf8_valid r
         | _ \<Rightarrow> False)
      else False)"

declare utf8_valid.simps(2) [simp del]

lemma utf8_valid_ascii: "list_all (\<lambda>b. b < 0x80) bs \<Longrightarrow> utf8_valid bs"
  by (induction bs) (simp_all add: utf8_valid.simps(2))

section \<open>Metadata\<close>

record 'j metadata_json =
  md_raw :: bytes
  md_value :: "'j option"

definition metadata_validate :: "(bytes \<Rightarrow> 'j option) \<Rightarrow> bytes \<Rightarrow> unit res" where
  "metadata_validate json bs =
     (if unat METADATA_LEN_MAX < length bs
      then Fail (BadSection (''Spec '' @ [CHR 0xC2, CHR 0xA7] @ ''15: metadata_json length ''
        @ decimal (length bs) @ '' exceeds 1 MiB limit''))
      else if \<not> utf8_valid bs
      then Fail (BadSection (''Spec '' @ [CHR 0xC2, CHR 0xA7] @ ''15: metadata_json must be valid UTF-8''))
      else if bs \<noteq> [] \<and> json bs = None
      then Fail (BadSection (''Spec '' @ [CHR 0xC2, CHR 0xA7] @ ''15: metadata_json must be syntactically valid JSON''))
      else Ok ())"

definition metadata_parse :: "(bytes \<Rightarrow> 'j option) \<Rightarrow> bytes \<Rightarrow> 'j metadata_json res" where
  "metadata_parse json bs =
     and_then (metadata_validate json bs) (\<lambda>_.
     and_then
       (if bs = [] then Ok None
        else map_ok Some (ok_or (BadSection (''Spec '' @ [CHR 0xC2, CHR 0xA7]
          @ ''15: metadata_json must be syntactically valid JSON'')) (json bs))) (\<lambda>v.
     Ok \<lparr>md_raw = bs, md_value = v\<rparr>))"

definition metadata_raw :: "'j metadata_json \<Rightarrow> bytes" where
  "metadata_raw m = md_raw m"

definition metadata_is_empty :: "'j metadata_json \<Rightarrow> bool" where
  "metadata_is_empty m \<longleftrightarrow> md_raw m = []"

text \<open>\<^verbatim>\<open>as_str\<close> unwraps the UTF-8 check: it panics where the check fails.\<close>

definition metadata_as_str :: "'j metadata_json \<Rightarrow> bytes res" where
  "metadata_as_str m = (if utf8_valid (md_raw m) then Ok (md_raw m) else Panicked)"

lemma metadata_parse_iff:
  "metadata_parse json bs = Ok m \<longleftrightarrow>
     length bs \<le> 1048576 \<and> utf8_valid bs \<and> (bs = [] \<or> json bs \<noteq> None) \<and>
     md_raw m = bs \<and> md_value m = (if bs = [] then None else json bs)"
  by (cases m) (auto simp: metadata_parse_def metadata_validate_def METADATA_LEN_MAX_def ok_iffs)

lemma no_panic_metadata_parse [no_panic_intros, simp]: "no_panic (metadata_parse json bs)"
  by (auto simp: metadata_parse_def metadata_validate_def intro!: no_panic_intros)

section \<open>Properties\<close>

text \<open>
  Footer metadata is accepted exactly when it is at most 1 MiB of valid
  UTF-8 and, unless empty, JSON; the accepted value keeps the bytes unchanged, so
  the \<^verbatim>\<open>expect\<close> in \<^verbatim>\<open>as_str\<close> never fires on it.
\<close>

theorem metadata_accepted:
  "{m. metadata_parse json bs = Ok m} =
     (if length bs \<le> 1048576 \<and> utf8_valid bs \<and> (bs = [] \<or> json bs \<noteq> None)
      then {\<lparr>md_raw = bs, md_value = (if bs = [] then None else json bs)\<rparr>} else {}) \<and>
   no_panic (and_then (metadata_parse json bs) metadata_as_str)"
proof (intro conjI)
  show "{m. metadata_parse json bs = Ok m} =
     (if length bs \<le> 1048576 \<and> utf8_valid bs \<and> (bs = [] \<or> json bs \<noteq> None)
      then {\<lparr>md_raw = bs, md_value = (if bs = [] then None else json bs)\<rparr>} else {})"
    by (auto simp: metadata_parse_iff split: if_splits)
  show "no_panic (and_then (metadata_parse json bs) metadata_as_str)"
    by (rule no_panic_and_then) (auto simp: metadata_as_str_def metadata_parse_iff)
qed

lemma metadata_accepted_witness:
  "metadata_parse (\<lambda>_. Some ()) [123, 125] = Ok \<lparr>md_raw = [123, 125], md_value = Some ()\<rparr>"
proof -
  have "utf8_valid [123, 125]" by (rule utf8_valid_ascii) simp
  then have "{m. metadata_parse (\<lambda>_. Some ()) [123, 125] = Ok m} = {\<lparr>md_raw = [123, 125], md_value = Some ()\<rparr>}"
    using metadata_accepted [of "\<lambda>_. Some ()" "[123, 125]"] by simp
  then show ?thesis by blast
qed

end
