(* ===== verification/Footer.thy ===== *)
theory Footer
  imports Wire Section_Kinds Metadata
begin

text \<open>
  The footer: its header, the section directory and the metadata blob
  (\<^verbatim>\<open>crates/cove-core/src/footer.rs\<close>).
\<close>

section \<open>The footer header\<close>

definition FOOTER_HEADER_SIZE :: nat where
  "FOOTER_HEADER_SIZE = FOOTER_HEADER_LEN"

record footer_header =
  fh_footer_magic :: bytes
  fh_footer_version :: u16
  fh_header_len :: u16
  fh_section_count :: u32
  fh_section_entry_len :: u16
  fh_flags :: u16
  fh_metadata_len :: u32
  fh_reserved :: bytes

definition footer_header_serialize :: "footer_header \<Rightarrow> bytes" where
  "footer_header_serialize h =
     (let buf = replicate FOOTER_HEADER_SIZE 0;
          buf = copy_at buf 0 (fh_footer_magic h);
          buf = copy_at buf 4 (le_bytes 2 (fh_footer_version h));
          buf = copy_at buf 6 (le_bytes 2 (fh_header_len h));
          buf = copy_at buf 8 (le_bytes 4 (fh_section_count h));
          buf = copy_at buf 12 (le_bytes 2 (fh_section_entry_len h));
          buf = copy_at buf 14 (le_bytes 2 (fh_flags h));
          buf = copy_at buf 16 (le_bytes 4 (fh_metadata_len h))
      in copy_at buf 20 (fh_reserved h))"

definition footer_header_parse :: "bytes \<Rightarrow> footer_header res" where
  "footer_header_parse buf =
     (if length buf < FOOTER_HEADER_SIZE then Fail BufferTooShort
      else
        and_then (read_array_checked 4 buf 0) (\<lambda>footer_magic.
        if footer_magic \<noteq> MAGIC_COVE_FOOTER then Fail BadMagic
        else
        and_then (read_u16_le_checked buf 4) (\<lambda>footer_version.
        if footer_version \<noteq> FOOTER_VERSION_V1 then Fail BadVersion
        else
        and_then (read_u16_le_checked buf 6) (\<lambda>header_len.
        if header_len \<noteq> of_nat FOOTER_HEADER_LEN
        then Fail (BadSection (''footer header_len is '' @ decimal (unat header_len) @ '', expected ''
          @ decimal FOOTER_HEADER_LEN))
        else
        and_then (read_u32_le_checked buf 8) (\<lambda>section_count.
        and_then (read_u16_le_checked buf 12) (\<lambda>section_entry_len.
        if section_entry_len \<noteq> SECTION_ENTRY_LEN
        then Fail (BadSection (''section_entry_len is '' @ decimal (unat section_entry_len) @ '', expected ''
          @ decimal (unat SECTION_ENTRY_LEN)))
        else
        and_then (read_u16_le_checked buf 14) (\<lambda>flags.
        and_then (read_u32_le_checked buf 16) (\<lambda>metadata_len.
        if metadata_len > METADATA_LEN_MAX
        then Fail (BadSection (''metadata_len '' @ decimal (unat metadata_len) @ '' exceeds 1 MiB limit''))
        else
        and_then (slice buf 20 44) (\<lambda>reserved.
        if list_ex (\<lambda>b. b \<noteq> 0) reserved then Fail ReservedNotZero
        else Ok \<lparr>fh_footer_magic = footer_magic, fh_footer_version = footer_version,
          fh_header_len = header_len, fh_section_count = section_count,
          fh_section_entry_len = section_entry_len, fh_flags = flags, fh_metadata_len = metadata_len,
          fh_reserved = reserved\<rparr>)))))))))"

text \<open>\<^verbatim>\<open>total_len\<close> computes in \<^verbatim>\<open>u64\<close>, whose limit is \<open>usize_limit\<close>.\<close>

definition footer_total_len :: "footer_header \<Rightarrow> nat res" where
  "footer_total_len h =
     and_then (ok_or ArithOverflow (checked_mul (unat (fh_section_count h)) (unat SECTION_ENTRY_LEN))) (\<lambda>entries_len.
     and_then (ok_or ArithOverflow (checked_add FOOTER_HEADER_SIZE entries_len)) (\<lambda>with_entries.
     ok_or ArithOverflow (checked_add with_entries (unat (fh_metadata_len h)))))"

definition footer_header_wf :: "footer_header \<Rightarrow> bool" where
  "footer_header_wf h \<longleftrightarrow> fh_footer_magic h = MAGIC_COVE_FOOTER \<and> fh_footer_version h = FOOTER_VERSION_V1 \<and>
     fh_header_len h = 44 \<and> fh_section_entry_len h = SECTION_ENTRY_LEN \<and>
     fh_metadata_len h \<le> METADATA_LEN_MAX \<and> fh_reserved h = replicate 24 0"

lemma footer_header_serialize_eq:
  assumes "length (fh_footer_magic h) = 4" "length (fh_reserved h) = 24"
  shows "footer_header_serialize h = fh_footer_magic h @ le_bytes 2 (fh_footer_version h) @
    le_bytes 2 (fh_header_len h) @ le_bytes 4 (fh_section_count h) @ le_bytes 2 (fh_section_entry_len h) @
    le_bytes 2 (fh_flags h) @ le_bytes 4 (fh_metadata_len h) @ fh_reserved h"
  using assms unfolding footer_header_serialize_def FOOTER_HEADER_SIZE_def FOOTER_HEADER_LEN_def
  by (simp add: fill_simps del: append_assoc)

lemma footer_header_parse_reads:
  assumes "44 \<le> length buf"
  shows "footer_header_parse buf =
    (if sub buf 0 4 \<noteq> MAGIC_COVE_FOOTER then Fail BadMagic
     else if of_le (sub buf 4 2) \<noteq> FOOTER_VERSION_V1 then Fail BadVersion
     else if of_le (sub buf 6 2) \<noteq> (of_nat FOOTER_HEADER_LEN :: u16)
       then Fail (BadSection (''footer header_len is '' @ decimal (unat (of_le (sub buf 6 2) :: u16)) @ '', expected ''
          @ decimal FOOTER_HEADER_LEN))
     else if of_le (sub buf 12 2) \<noteq> SECTION_ENTRY_LEN
       then Fail (BadSection (''section_entry_len is '' @ decimal (unat (of_le (sub buf 12 2) :: u16)) @ '', expected ''
          @ decimal (unat SECTION_ENTRY_LEN)))
     else if of_le (sub buf 16 4) > METADATA_LEN_MAX
       then Fail (BadSection (''metadata_len '' @ decimal (unat (of_le (sub buf 16 4) :: u32)) @ '' exceeds 1 MiB limit''))
     else if list_ex (\<lambda>b. b \<noteq> 0) (sub buf 20 24) then Fail ReservedNotZero
     else Ok \<lparr>fh_footer_magic = sub buf 0 4, fh_footer_version = of_le (sub buf 4 2),
       fh_header_len = of_le (sub buf 6 2), fh_section_count = of_le (sub buf 8 4),
       fh_section_entry_len = of_le (sub buf 12 2), fh_flags = of_le (sub buf 14 2),
       fh_metadata_len = of_le (sub buf 16 4), fh_reserved = sub buf 20 24\<rparr>)"
proof -
  have r: "read_array_checked 4 buf 0 = Ok (sub buf 0 4)" "read_u16_le_checked buf 4 = Ok (of_le (sub buf 4 2))"
    "read_u16_le_checked buf 6 = Ok (of_le (sub buf 6 2))" "read_u32_le_checked buf 8 = Ok (of_le (sub buf 8 4))"
    "read_u16_le_checked buf 12 = Ok (of_le (sub buf 12 2))" "read_u16_le_checked buf 14 = Ok (of_le (sub buf 14 2))"
    "read_u32_le_checked buf 16 = Ok (of_le (sub buf 16 4))" "slice buf 20 44 = (Ok (sub buf 20 24) :: bytes res)"
    using assms by (simp_all add: wire_simps usize_limit_def slice_Ok read_array_checked_eq)
  have "\<not> length buf < FOOTER_HEADER_SIZE" using assms by (simp add: FOOTER_HEADER_SIZE_def FOOTER_HEADER_LEN_def)
  then show ?thesis unfolding footer_header_parse_def r and_then_simps by (simp only: if_False)
qed

lemma footer_header_parse_serialize:
  assumes "footer_header_wf h"
  shows "footer_header_parse (footer_header_serialize h @ rest) = Ok h"
proof -
  have l: "length (fh_footer_magic h) = 4" "length (fh_reserved h) = 24"
    using assms by (simp_all add: footer_header_wf_def MAGIC_COVE_FOOTER_def)
  have n: "\<not> list_ex (\<lambda>b. b \<noteq> 0) (fh_reserved h)" using assms by (auto simp: footer_header_wf_def list_ex_iff)
  let ?s = "footer_header_serialize h @ rest"
  note e = footer_header_serialize_eq [OF l]
  have f: "sub ?s 0 4 = fh_footer_magic h" "sub ?s 4 2 = le_bytes 2 (fh_footer_version h)"
    "sub ?s 6 2 = le_bytes 2 (fh_header_len h)" "sub ?s 8 4 = le_bytes 4 (fh_section_count h)"
    "sub ?s 12 2 = le_bytes 2 (fh_section_entry_len h)" "sub ?s 14 2 = le_bytes 2 (fh_flags h)"
    "sub ?s 16 4 = le_bytes 4 (fh_metadata_len h)" "sub ?s 20 24 = fh_reserved h"
    using l by (simp_all add: e sub_def)
  have "44 \<le> length ?s" using l by (simp add: e)
  then show ?thesis
    using assms n unfolding footer_header_wf_def
    by (simp add: footer_header_parse_reads f FOOTER_HEADER_LEN_def not_less)
qed

lemma footer_header_parse_Ok:
  assumes "footer_header_parse buf = Ok h"
  shows "footer_header_wf h \<and> 44 \<le> length buf \<and> footer_header_serialize h = take 44 buf"
proof -
  have l: "44 \<le> length buf"
    using assms by (auto simp: footer_header_parse_def FOOTER_HEADER_SIZE_def FOOTER_HEADER_LEN_def split: if_splits)
  note q = assms [unfolded footer_header_parse_reads [OF l] ok_iffs sum.inject]
  have z: "\<not> list_ex (\<lambda>b. b \<noteq> 0) xs \<longleftrightarrow> xs = replicate (length xs) 0" for xs :: bytes
    by (induction xs) auto
  from q have h: "h = \<lparr>fh_footer_magic = sub buf 0 4, fh_footer_version = of_le (sub buf 4 2),
       fh_header_len = of_le (sub buf 6 2), fh_section_count = of_le (sub buf 8 4),
       fh_section_entry_len = of_le (sub buf 12 2), fh_flags = of_le (sub buf 14 2),
       fh_metadata_len = of_le (sub buf 16 4), fh_reserved = sub buf 20 24\<rparr>" by blast
  have wf: "footer_header_wf h"
    using q z [of "sub buf 20 24"] l unfolding footer_header_wf_def h
    by (simp add: length_sub FOOTER_HEADER_LEN_def not_less)
  then have sz: "length (fh_footer_magic h) = 4" "length (fh_reserved h) = 24"
    by (simp_all add: footer_header_wf_def MAGIC_COVE_FOOTER_def)
  have "footer_header_serialize h = sub buf 0 44"
    unfolding footer_header_serialize_eq [OF sz] unfolding h footer_header.simps
    using l by (simp add: le_bytes_of_le length_sub sub_join sub_join_assoc)
  then show ?thesis using wf l by (simp add: sub_def)
qed

lemma no_panic_footer_header_parse [no_panic_intros, simp]: "no_panic (footer_header_parse buf)"
proof (cases "length buf < 44")
  case False
  then show ?thesis by (subst footer_header_parse_reads) auto
qed (simp add: footer_header_parse_def FOOTER_HEADER_SIZE_def FOOTER_HEADER_LEN_def)

interpretation footer_header: fixed_codec footer_header_serialize footer_header_parse 44 footer_header_wf
proof
  fix h :: footer_header and rest
  assume w: "footer_header_wf h"
  then show "footer_header_parse (footer_header_serialize h @ rest) = Ok h" by (rule footer_header_parse_serialize)
  show "length (footer_header_serialize h) = 44"
    using w by (subst footer_header_serialize_eq) (simp_all add: footer_header_wf_def MAGIC_COVE_FOOTER_def)
qed

section \<open>Section entries\<close>

definition SECTION_ENTRY_SIZE :: nat where
  "SECTION_ENTRY_SIZE = unat SECTION_ENTRY_LEN"

lemma SECTION_ENTRY_SIZE_eq: "SECTION_ENTRY_SIZE = 76"
  by (simp add: SECTION_ENTRY_SIZE_def SECTION_ENTRY_LEN_def)

record section_entry =
  se_section_id :: u32
  se_section_kind :: u16
  se_profile :: u8
  se_flags :: u8
  se_offset :: u64
  se_length :: u64
  se_uncompressed_length :: u64
  se_item_count :: u64
  se_row_count :: u64
  se_compression :: u8
  se_encryption :: u8
  se_alignment_log2 :: u8
  se_reserved0 :: u8
  se_required_features :: u64
  se_optional_features :: u64
  se_crc32c :: u32
  se_reserved1 :: u32

definition section_entry_serialize :: "section_entry \<Rightarrow> bytes" where
  "section_entry_serialize e =
     (let buf = replicate SECTION_ENTRY_SIZE 0;
          buf = copy_at buf 0 (le_bytes 4 (se_section_id e));
          buf = copy_at buf 4 (le_bytes 2 (se_section_kind e));
          buf = copy_at buf 6 [se_profile e];
          buf = copy_at buf 7 [se_flags e];
          buf = copy_at buf 8 (le_bytes 8 (se_offset e));
          buf = copy_at buf 16 (le_bytes 8 (se_length e));
          buf = copy_at buf 24 (le_bytes 8 (se_uncompressed_length e));
          buf = copy_at buf 32 (le_bytes 8 (se_item_count e));
          buf = copy_at buf 40 (le_bytes 8 (se_row_count e));
          buf = copy_at buf 48 [se_compression e];
          buf = copy_at buf 49 [se_encryption e];
          buf = copy_at buf 50 [se_alignment_log2 e];
          buf = copy_at buf 51 [se_reserved0 e];
          buf = copy_at buf 52 (le_bytes 8 (se_required_features e));
          buf = copy_at buf 60 (le_bytes 8 (se_optional_features e));
          buf = copy_at buf 68 (le_bytes 4 (se_crc32c e))
      in copy_at buf 72 (le_bytes 4 (se_reserved1 e)))"

definition section_entry_parse :: "bytes \<Rightarrow> section_entry res" where
  "section_entry_parse buf =
     (if length buf < SECTION_ENTRY_SIZE then Fail BufferTooShort
      else
        and_then (read_u32_le_checked buf 0) (\<lambda>section_id.
        and_then (read_u16_le_checked buf 4) (\<lambda>kind.
        if section_kind_from kind = None
        then Fail (BadSection (''unknown section_kind '' @ decimal (unat kind)))
        else
        and_then (index buf 6) (\<lambda>profile.
        if primary_profile_from profile = None
        then Fail (BadSection (''unknown section profile '' @ decimal (unat profile)))
        else
        and_then (index buf 7) (\<lambda>flags.
        and_then (read_u64_le_checked buf 8) (\<lambda>offset.
        and_then (read_u64_le_checked buf 16) (\<lambda>len.
        and_then (read_u64_le_checked buf 24) (\<lambda>uncompressed.
        and_then (read_u64_le_checked buf 32) (\<lambda>item_count.
        and_then (read_u64_le_checked buf 40) (\<lambda>row_count.
        and_then (index buf 48) (\<lambda>compression.
        and_then (index buf 49) (\<lambda>encryption.
        and_then (index buf 50) (\<lambda>alignment_log2.
        and_then (index buf 51) (\<lambda>reserved0.
        and_then (read_u64_le_checked buf 52) (\<lambda>required.
        and_then (read_u64_le_checked buf 60) (\<lambda>optional.
        and_then (read_u32_le_checked buf 68) (\<lambda>crc32c.
        and_then (read_u32_le_checked buf 72) (\<lambda>reserved1.
        if compression_codec_from compression = None
        then Fail (BadSection (''unknown compression codec '' @ decimal (unat compression)))
        else if encryption \<noteq> 0
        then Fail (BadSection (''section '' @ decimal (unat section_id) @ '': encryption must be 0 in v2, got ''
          @ decimal (unat encryption)))
        else if reserved0 \<noteq> 0 \<or> reserved1 \<noteq> 0 then Fail ReservedNotZero
        else if compression = as_compression_codec CC_None \<and> len \<noteq> uncompressed
        then Fail (BadSection (''section '' @ decimal (unat section_id)
          @ '': uncompressed_length must equal length when uncompressed''))
        else Ok \<lparr>se_section_id = section_id, se_section_kind = kind, se_profile = profile, se_flags = flags,
          se_offset = offset, se_length = len, se_uncompressed_length = uncompressed,
          se_item_count = item_count, se_row_count = row_count, se_compression = compression,
          se_encryption = encryption, se_alignment_log2 = alignment_log2, se_reserved0 = reserved0,
          se_required_features = required, se_optional_features = optional, se_crc32c = crc32c,
          se_reserved1 = reserved1\<rparr>))))))))))))))))))"

definition section_entry_end_offset :: "section_entry \<Rightarrow> u64 res" where
  "section_entry_end_offset e = ok_or ArithOverflow (checked_add_word (se_offset e) (se_length e))"

definition section_entry_wf :: "section_entry \<Rightarrow> bool" where
  "section_entry_wf e \<longleftrightarrow> section_kind_from (se_section_kind e) \<noteq> None \<and>
     primary_profile_from (se_profile e) \<noteq> None \<and> compression_codec_from (se_compression e) \<noteq> None \<and>
     se_encryption e = 0 \<and> se_reserved0 e = 0 \<and> se_reserved1 e = 0 \<and>
     \<not> (se_compression e = as_compression_codec CC_None \<and> se_length e \<noteq> se_uncompressed_length e)"

lemma section_entry_serialize_eq:
  "section_entry_serialize e = le_bytes 4 (se_section_id e) @ le_bytes 2 (se_section_kind e) @ [se_profile e] @
     [se_flags e] @ le_bytes 8 (se_offset e) @ le_bytes 8 (se_length e) @ le_bytes 8 (se_uncompressed_length e) @
     le_bytes 8 (se_item_count e) @ le_bytes 8 (se_row_count e) @ [se_compression e] @ [se_encryption e] @
     [se_alignment_log2 e] @ [se_reserved0 e] @ le_bytes 8 (se_required_features e) @
     le_bytes 8 (se_optional_features e) @ le_bytes 4 (se_crc32c e) @ le_bytes 4 (se_reserved1 e)"
  unfolding section_entry_serialize_def SECTION_ENTRY_SIZE_eq
  by (simp add: fill_simps del: append_assoc)

lemma section_entry_parse_reads:
  assumes "76 \<le> length buf"
  shows "section_entry_parse buf =
    (if section_kind_from (of_le (sub buf 4 2)) = None
       then Fail (BadSection (''unknown section_kind '' @ decimal (unat (of_le (sub buf 4 2) :: u16))))
     else if primary_profile_from (buf ! 6) = None
       then Fail (BadSection (''unknown section profile '' @ decimal (unat (buf ! 6))))
     else if compression_codec_from (buf ! 48) = None
       then Fail (BadSection (''unknown compression codec '' @ decimal (unat (buf ! 48))))
     else if buf ! 49 \<noteq> 0
       then Fail (BadSection (''section '' @ decimal (unat (of_le (sub buf 0 4) :: u32)) @ '': encryption must be 0 in v2, got ''
          @ decimal (unat (buf ! 49))))
     else if buf ! 51 \<noteq> 0 \<or> of_le (sub buf 72 4) \<noteq> (0 :: u32) then Fail ReservedNotZero
     else if buf ! 48 = as_compression_codec CC_None \<and> (of_le (sub buf 16 8) :: u64) \<noteq> of_le (sub buf 24 8)
       then Fail (BadSection (''section '' @ decimal (unat (of_le (sub buf 0 4) :: u32))
          @ '': uncompressed_length must equal length when uncompressed''))
     else Ok \<lparr>se_section_id = of_le (sub buf 0 4), se_section_kind = of_le (sub buf 4 2), se_profile = buf ! 6,
       se_flags = buf ! 7, se_offset = of_le (sub buf 8 8), se_length = of_le (sub buf 16 8),
       se_uncompressed_length = of_le (sub buf 24 8), se_item_count = of_le (sub buf 32 8),
       se_row_count = of_le (sub buf 40 8), se_compression = buf ! 48, se_encryption = buf ! 49,
       se_alignment_log2 = buf ! 50, se_reserved0 = buf ! 51, se_required_features = of_le (sub buf 52 8),
       se_optional_features = of_le (sub buf 60 8), se_crc32c = of_le (sub buf 68 4),
       se_reserved1 = of_le (sub buf 72 4)\<rparr>)"
proof -
  have r: "read_u32_le_checked buf 0 = Ok (of_le (sub buf 0 4))" "read_u16_le_checked buf 4 = Ok (of_le (sub buf 4 2))"
    "index buf 6 = (Ok (buf ! 6) :: u8 res)" "index buf 7 = (Ok (buf ! 7) :: u8 res)"
    "read_u64_le_checked buf 8 = Ok (of_le (sub buf 8 8))" "read_u64_le_checked buf 16 = Ok (of_le (sub buf 16 8))"
    "read_u64_le_checked buf 24 = Ok (of_le (sub buf 24 8))" "read_u64_le_checked buf 32 = Ok (of_le (sub buf 32 8))"
    "read_u64_le_checked buf 40 = Ok (of_le (sub buf 40 8))" "index buf 48 = (Ok (buf ! 48) :: u8 res)"
    "index buf 49 = (Ok (buf ! 49) :: u8 res)" "index buf 50 = (Ok (buf ! 50) :: u8 res)"
    "index buf 51 = (Ok (buf ! 51) :: u8 res)" "read_u64_le_checked buf 52 = Ok (of_le (sub buf 52 8))"
    "read_u64_le_checked buf 60 = Ok (of_le (sub buf 60 8))" "read_u32_le_checked buf 68 = Ok (of_le (sub buf 68 4))"
    "read_u32_le_checked buf 72 = Ok (of_le (sub buf 72 4))"
    using assms by (simp_all add: wire_simps usize_limit_def index_Ok)
  have "\<not> length buf < SECTION_ENTRY_SIZE" using assms by (simp add: SECTION_ENTRY_SIZE_eq)
  then show ?thesis unfolding section_entry_parse_def r and_then_simps by (simp only: if_False)
qed

lemma section_entry_parse_serialize:
  "section_entry_wf e \<Longrightarrow> section_entry_parse (section_entry_serialize e @ rest) = Ok e"
  unfolding section_entry_wf_def
  by (subst section_entry_parse_reads) (simp_all add: section_entry_serialize_eq sub_def nth_append)

interpretation section_entry: fixed_codec section_entry_serialize section_entry_parse 76 section_entry_wf
proof
  fix e :: section_entry and rest
  show "length (section_entry_serialize e) = 76" by (simp add: section_entry_serialize_eq)
  show "section_entry_wf e \<Longrightarrow> section_entry_parse (section_entry_serialize e @ rest) = Ok e"
    by (rule section_entry_parse_serialize)
qed

lemma section_entry_parse_Ok:
  assumes "section_entry_parse buf = Ok e"
  shows "section_entry_wf e \<and> 76 \<le> length buf \<and> section_entry_serialize e = take 76 buf"
proof -
  have l: "76 \<le> length buf" using assms by (auto simp: section_entry_parse_def SECTION_ENTRY_SIZE_eq split: if_splits)
  note q = assms [unfolded section_entry_parse_reads [OF l] ok_iffs sum.inject]
  have le: "sub buf 6 1 = [buf ! 6]" "sub buf 7 1 = [buf ! 7]" "sub buf 48 1 = [buf ! 48]" "sub buf 49 1 = [buf ! 49]"
    "sub buf 50 1 = [buf ! 50]" "sub buf 51 1 = [buf ! 51]"
    using l by (simp_all add: sub_singleton)
  from q have e: "e = \<lparr>se_section_id = of_le (sub buf 0 4), se_section_kind = of_le (sub buf 4 2), se_profile = buf ! 6,
       se_flags = buf ! 7, se_offset = of_le (sub buf 8 8), se_length = of_le (sub buf 16 8),
       se_uncompressed_length = of_le (sub buf 24 8), se_item_count = of_le (sub buf 32 8),
       se_row_count = of_le (sub buf 40 8), se_compression = buf ! 48, se_encryption = buf ! 49,
       se_alignment_log2 = buf ! 50, se_reserved0 = buf ! 51, se_required_features = of_le (sub buf 52 8),
       se_optional_features = of_le (sub buf 60 8), se_crc32c = of_le (sub buf 68 4),
       se_reserved1 = of_le (sub buf 72 4)\<rparr>" by blast
  have "section_entry_serialize e = sub buf 0 76"
    unfolding section_entry_serialize_eq unfolding e section_entry.simps
    using l le [symmetric] by (simp add: le_bytes_of_le length_sub sub_join sub_join_assoc)
  moreover have "section_entry_wf e" using q unfolding section_entry_wf_def e by simp
  ultimately show ?thesis using l by (simp add: sub_def)
qed

lemma no_panic_section_entry_parse [no_panic_intros, simp]: "no_panic (section_entry_parse buf)"
proof (cases "length buf < 76")
  case False
  then show ?thesis by (subst section_entry_parse_reads) auto
qed (simp add: section_entry_parse_def SECTION_ENTRY_SIZE_eq)

section \<open>The footer\<close>

record cove_footer =
  ft_header :: footer_header
  ft_sections :: "section_entry list"
  ft_metadata_json :: bytes

definition footer_serialize :: "cove_footer \<Rightarrow> bytes" where
  "footer_serialize f =
     footer_header_serialize (ft_header f) @ concat (map section_entry_serialize (ft_sections f)) @ ft_metadata_json f"

definition footer_parse :: "(bytes \<Rightarrow> 'j option) \<Rightarrow> bytes \<Rightarrow> cove_footer res" where
  "footer_parse json buf =
     and_then (footer_header_parse buf) (\<lambda>header.
     and_then (footer_total_len header) (\<lambda>expected_len.
     if length buf < expected_len then Fail BufferTooShort
     else
       let n = unat (fh_section_count header) in
       and_then (try_map (\<lambda>i. and_then (slice_from buf (FOOTER_HEADER_SIZE + i * SECTION_ENTRY_SIZE)) section_entry_parse) [0..<n]) (\<lambda>sections.
       let meta_start = FOOTER_HEADER_SIZE + n * SECTION_ENTRY_SIZE in
       and_then (slice buf meta_start (meta_start + unat (fh_metadata_len header))) (\<lambda>meta.
       and_then (metadata_parse json meta) (\<lambda>_.
       Ok \<lparr>ft_header = header, ft_sections = sections, ft_metadata_json = meta\<rparr>)))))"

definition footer_compute_crc :: "(bytes \<Rightarrow> u32) \<Rightarrow> cove_footer \<Rightarrow> u32" where
  "footer_compute_crc crc f = crc (footer_serialize f)"

definition footer_metadata :: "(bytes \<Rightarrow> 'j option) \<Rightarrow> cove_footer \<Rightarrow> 'j metadata_json res" where
  "footer_metadata json f = metadata_parse json (ft_metadata_json f)"

definition footer_wf :: "(bytes \<Rightarrow> 'j option) \<Rightarrow> cove_footer \<Rightarrow> bool" where
  "footer_wf json f \<longleftrightarrow> footer_header_wf (ft_header f) \<and> list_all section_entry_wf (ft_sections f) \<and>
     unat (fh_section_count (ft_header f)) = length (ft_sections f) \<and>
     unat (fh_metadata_len (ft_header f)) = length (ft_metadata_json f) \<and>
     is_ok (metadata_parse json (ft_metadata_json f))"

lemma footer_total_len_eq:
  "footer_total_len h = Ok (44 + unat (fh_section_count h) * 76 + unat (fh_metadata_len h))"
  using unat_u32_less [of "fh_section_count h"] unat_u32_less [of "fh_metadata_len h"]
  by (simp add: footer_total_len_def SECTION_ENTRY_LEN_def checked_mul_def checked_add_def usize_limit_def
      FOOTER_HEADER_SIZE_def FOOTER_HEADER_LEN_def)

lemma footer_parse_serialize:
  assumes "footer_wf json f"
  shows "footer_parse json (footer_serialize f @ rest) = Ok f"
proof -
  let ?h = "ft_header f" and ?s = "ft_sections f" and ?m = "ft_metadata_json f"
  let ?bs = "footer_serialize f @ rest"
  from assms have wf: "footer_header_wf ?h" "list_all section_entry_wf ?s" and n: "unat (fh_section_count ?h) = length ?s"
    and m: "unat (fh_metadata_len ?h) = length ?m" and j: "is_ok (metadata_parse json ?m)"
    by (simp_all add: footer_wf_def)
  have e: "?bs = footer_header_serialize ?h @ concat (map section_entry_serialize ?s) @ ?m @ rest"
    by (simp add: footer_serialize_def)
  have lh: "length (footer_header_serialize ?h) = 44" by (rule footer_header.enc_length [OF wf(1)])
  have ls: "length (concat (map section_entry_serialize ?s)) = 76 * length ?s"
    using wf(2) by (intro section_entry.array_length) (simp add: list_all_iff)
  have l: "length ?bs = 44 + 76 * length ?s + length ?m + length rest" using lh ls by (simp add: e)
  have h: "footer_header_parse ?bs = Ok ?h" unfolding e by (rule footer_header.dec_enc [OF wf(1)])
  have s: "and_then (slice_from ?bs (FOOTER_HEADER_SIZE + i * SECTION_ENTRY_SIZE)) section_entry_parse = Ok (?s ! i)"
    if i: "i < length ?s" for i
  proof -
    have sz: "FOOTER_HEADER_SIZE + i * SECTION_ENTRY_SIZE = 44 + i * 76"
      by (simp add: FOOTER_HEADER_SIZE_def FOOTER_HEADER_LEN_def SECTION_ENTRY_SIZE_eq)
    have "sub ?bs (44 + i * 76) 76 = section_entry_serialize (?s ! i)"
      unfolding e
      by (rule sub_concat_fixed_at) (use i lh wf(2) in \<open>simp_all add: section_entry.enc_length list_all_iff\<close>)
    moreover have "drop (44 + i * 76) ?bs = sub ?bs (44 + i * 76) 76 @ drop 76 (drop (44 + i * 76) ?bs)"
      unfolding sub_def by (rule append_take_drop_id [symmetric])
    moreover have "section_entry_wf (?s ! i)" using wf(2) i by (simp add: list_all_length)
    ultimately have "section_entry_parse (drop (44 + i * 76) ?bs) = Ok (?s ! i)"
      using section_entry.dec_enc by metis
    moreover have "44 + i * 76 \<le> length ?bs" using l i by linarith
    ultimately show ?thesis unfolding sz by (simp add: slice_from_Ok)
  qed
  have "try_map (\<lambda>i. and_then (slice_from ?bs (FOOTER_HEADER_SIZE + i * SECTION_ENTRY_SIZE)) section_entry_parse)
      [0..<length ?s] = Ok (map (\<lambda>i. ?s ! i) [0..<length ?s])"
    by (rule try_map_Ok) (rule s, simp)
  then have t: "try_map (\<lambda>i. and_then (slice_from ?bs (FOOTER_HEADER_SIZE + i * SECTION_ENTRY_SIZE)) section_entry_parse)
      [0..<length ?s] = Ok ?s"
    by (simp add: map_nth)
  let ?ms = "FOOTER_HEADER_SIZE + length ?s * SECTION_ENTRY_SIZE"
  have ms: "?ms = 44 + 76 * length ?s" by (simp add: FOOTER_HEADER_SIZE_def FOOTER_HEADER_LEN_def SECTION_ENTRY_SIZE_eq)
  have sl: "slice ?bs ?ms (?ms + length ?m) = (Ok ?m :: bytes res)"
    unfolding ms using l lh ls by (simp add: slice_Ok) (simp add: e sub_def)
  from j obtain v where v: "metadata_parse json ?m = Ok v" by (auto simp: is_ok_iff)
  show ?thesis
    unfolding footer_parse_def h and_then_simps footer_total_len_eq n m Let_def t sl v
    using l by simp
qed

lemma footer_parse_Ok:
  assumes "footer_parse json bs = Ok f"
  shows "footer_wf json f \<and> length (footer_serialize f) \<le> length bs \<and>
    footer_serialize f = take (length (footer_serialize f)) bs"
proof -
  let ?step = "\<lambda>i. and_then (slice_from bs (FOOTER_HEADER_SIZE + i * SECTION_ENTRY_SIZE)) section_entry_parse"
  note q = assms [unfolded footer_parse_def Let_def ok_iffs footer_total_len_eq sum.inject]
  from q obtain h secs v meta where h: "footer_header_parse bs = Ok h"
    and l: "44 + unat (fh_section_count h) * 76 + unat (fh_metadata_len h) \<le> length bs"
    and t: "try_map ?step [0..<unat (fh_section_count h)] = Ok secs"
    and m: "meta = sub bs (FOOTER_HEADER_SIZE + unat (fh_section_count h) * SECTION_ENTRY_SIZE) (unat (fh_metadata_len h))"
    and v: "metadata_parse json meta = Ok v"
    and f: "f = \<lparr>ft_header = h, ft_sections = secs, ft_metadata_json = meta\<rparr>"
    by auto
  let ?n = "unat (fh_section_count h)" and ?k = "unat (fh_metadata_len h)"
  note hh = footer_header_parse_Ok [OF h]
  have ls: "length secs = ?n" using try_map_length [OF t] by simp
  have sz: "FOOTER_HEADER_SIZE + i * SECTION_ENTRY_SIZE = 44 + i * 76" for i
    by (simp add: FOOTER_HEADER_SIZE_def FOOTER_HEADER_LEN_def SECTION_ENTRY_SIZE_eq)
  have e: "section_entry_wf (secs ! i) \<and> section_entry_serialize (secs ! i) = sub bs (44 + i * 76) 76" if "i < ?n" for i
  proof -
    have "section_entry_parse (drop (44 + i * 76) bs) = Ok (secs ! i)"
      using try_map_nth [OF t, of i] that by (auto simp: sz ok_iffs slice_from_def split: if_splits)
    from section_entry_parse_Ok [OF this] show ?thesis by (simp add: sub_def)
  qed
  have "map section_entry_serialize secs = map (\<lambda>i. sub bs (44 + i * 76) 76) [0..<?n]"
    using ls e by (intro nth_equalityI) simp_all
  then have c: "concat (map section_entry_serialize secs) = sub bs 44 (?n * 76)"
    using concat_sub_chunks [of 44 ?n 76 bs] l by simp
  have m': "meta = sub bs (44 + ?n * 76) ?k" using m by (simp add: sz)
  have lm: "length meta = ?k" using l by (simp add: m' length_sub)
  have "footer_serialize f = sub bs 0 44 @ sub bs 44 (?n * 76) @ sub bs (44 + ?n * 76) ?k"
    using hh by (simp add: footer_serialize_def f c m' sub_def)
  also have "\<dots> = sub bs 0 (44 + ?n * 76 + ?k)" by (simp add: sub_join sub_join_assoc add.assoc)
  finally have s: "footer_serialize f = take (44 + ?n * 76 + ?k) bs" by (simp add: sub_def)
  then have "length (footer_serialize f) = 44 + ?n * 76 + ?k" using l by simp
  moreover have "footer_wf json f"
    using hh e ls lm v by (simp add: footer_wf_def f list_all_length is_ok_iff)
  ultimately show ?thesis using s l by simp
qed

lemma no_panic_footer_parse [no_panic_intros, simp]: "no_panic (footer_parse json bs)"
  unfolding footer_parse_def Let_def footer_total_len_eq and_then_simps
proof (intro no_panic_intros)
  fix h i
  assume l: "\<not> length bs < 44 + unat (fh_section_count h) * 76 + unat (fh_metadata_len h)"
  assume "i \<in> set [0..<unat (fh_section_count h)]"
  then have "i * 76 \<le> unat (fh_section_count h) * 76" by (intro mult_le_mono1) simp
  with l show "no_panic (slice_from bs (FOOTER_HEADER_SIZE + i * SECTION_ENTRY_SIZE) :: bytes res)"
    by (simp add: slice_from_def FOOTER_HEADER_SIZE_def FOOTER_HEADER_LEN_def SECTION_ENTRY_SIZE_eq)
next
  fix h
  assume "\<not> length bs < 44 + unat (fh_section_count h) * 76 + unat (fh_metadata_len h)"
  then show "no_panic (slice bs (FOOTER_HEADER_SIZE + unat (fh_section_count h) * SECTION_ENTRY_SIZE)
      (FOOTER_HEADER_SIZE + unat (fh_section_count h) * SECTION_ENTRY_SIZE + unat (fh_metadata_len h)) :: bytes res)"
    by (simp add: slice_def FOOTER_HEADER_SIZE_def FOOTER_HEADER_LEN_def SECTION_ENTRY_SIZE_eq)
qed simp_all

section \<open>Properties\<close>

text \<open>
  C3: The footer parser accepts a byte string exactly when it begins with
  the serialisation of a well-formed footer (known kinds, profiles and codecs, zero
  reserved fields, equal lengths for uncompressed sections, counts that match the
  directory and the metadata, acceptable metadata), and returns that footer; parsing
  arbitrary bytes never panics.
\<close>

theorem footer_parse_exact:
  "(footer_parse json bs = Ok f \<longleftrightarrow>
      footer_wf json f \<and> take (length (footer_serialize f)) bs = footer_serialize f) \<and>
   no_panic (footer_parse json bs)"
proof -
  have "footer_parse json bs = Ok f" if "footer_wf json f" "take (length (footer_serialize f)) bs = footer_serialize f"
    using footer_parse_serialize [OF that(1), of "drop (length (footer_serialize f)) bs"] that(2)
    by (metis append_take_drop_id)
  then show ?thesis using footer_parse_Ok [of json bs f] by auto
qed

end
