(* ===== verification/Types.thy ===== *)
theory Types
  imports Constants Cove_Error
begin

text \<open>
  Logical and physical types (\<^verbatim>\<open>types.rs\<close>): which pairs a column may declare, the names
  of the logical types, and the readings of a raw \<^verbatim>\<open>u64\<close> NumCode. Floats are their bits.
\<close>

section \<open>Compatibility\<close>

record logical_physical_options =
  bool_declared_numeric :: bool

text \<open>The numeric and temporal types that NumCode carries; \<^verbatim>\<open>Bool\<close> needs a declaration.\<close>

definition numcode_types :: "logical_type list" where
  "numcode_types =
     [LT_Int8, LT_Int16, LT_Int32, LT_Int64, LT_UInt8, LT_UInt16, LT_UInt32, LT_UInt64,
      LT_Float32, LT_Float64, LT_Decimal64, LT_DateDays, LT_TimestampMicros, LT_TimestampNanos]"

definition validate_logical_physical_pair_with_options ::
    "logical_type \<Rightarrow> physical_kind \<Rightarrow> logical_physical_options \<Rightarrow> unit res" where
  "validate_logical_physical_pair_with_options logical physical options =
     (let ok = (case physical of
          PK_FileCode \<Rightarrow> True
        | PK_NumCode \<Rightarrow> (logical = LT_Bool \<and> bool_declared_numeric options) \<or> logical \<in> set numcode_types
        | PK_Boolean \<Rightarrow> logical = LT_Bool
        | PK_FixedBytes \<Rightarrow> logical = LT_Uuid \<or> logical = LT_Decimal128
        | PK_VarBytes \<Rightarrow> logical = LT_Utf8 \<or> logical = LT_Binary \<or> logical = LT_Json
        | PK_List \<Rightarrow> logical = LT_List
        | PK_Struct \<Rightarrow> logical = LT_Struct
        | PK_Map \<Rightarrow> logical = LT_Map)
      in if ok then Ok () else Fail BadLogicalPhysicalPair)"

definition validate_logical_physical_pair :: "logical_type \<Rightarrow> physical_kind \<Rightarrow> unit res" where
  "validate_logical_physical_pair logical physical =
     validate_logical_physical_pair_with_options logical physical \<lparr>bool_declared_numeric = False\<rparr>"

definition validate_numcode_logical_type :: "logical_type \<Rightarrow> bool \<Rightarrow> unit res" where
  "validate_numcode_logical_type logical declared =
     (if logical = LT_Bool \<and> declared then Ok ()
      else if logical \<in> set numcode_types then Ok ()
      else Fail BadNumCode)"

definition encoding_kind_for_physical :: "physical_kind \<Rightarrow> encoding_kind" where
  "encoding_kind_for_physical physical =
     (case physical of
        PK_Boolean \<Rightarrow> EK_PlainFixed
      | PK_FixedBytes \<Rightarrow> EK_PlainFixed
      | PK_NumCode \<Rightarrow> EK_NumCode
      | PK_FileCode \<Rightarrow> EK_FileCode
      | PK_VarBytes \<Rightarrow> EK_VarBytes
      | PK_List \<Rightarrow> EK_Canonical
      | PK_Struct \<Rightarrow> EK_Canonical
      | PK_Map \<Rightarrow> EK_Canonical)"

section \<open>Names\<close>

primrec logical_type_name :: "logical_type \<Rightarrow> string" where
  "logical_type_name LT_Null = ''null''"
| "logical_type_name LT_Bool = ''bool''"
| "logical_type_name LT_Int8 = ''int8''"
| "logical_type_name LT_Int16 = ''int16''"
| "logical_type_name LT_Int32 = ''int32''"
| "logical_type_name LT_Int64 = ''int64''"
| "logical_type_name LT_UInt8 = ''uint8''"
| "logical_type_name LT_UInt16 = ''uint16''"
| "logical_type_name LT_UInt32 = ''uint32''"
| "logical_type_name LT_UInt64 = ''uint64''"
| "logical_type_name LT_Float32 = ''float32''"
| "logical_type_name LT_Float64 = ''float64''"
| "logical_type_name LT_Decimal64 = ''decimal64''"
| "logical_type_name LT_Decimal128 = ''decimal128''"
| "logical_type_name LT_DateDays = ''date_days''"
| "logical_type_name LT_TimestampMicros = ''timestamp_micros''"
| "logical_type_name LT_TimestampNanos = ''timestamp_nanos''"
| "logical_type_name LT_Utf8 = ''utf8''"
| "logical_type_name LT_Binary = ''binary''"
| "logical_type_name LT_Uuid = ''uuid''"
| "logical_type_name LT_Json = ''json''"
| "logical_type_name LT_List = ''list''"
| "logical_type_name LT_Struct = ''struct''"
| "logical_type_name LT_Map = ''map''"

definition logical_type_from_name :: "string \<Rightarrow> logical_type res" where
  "logical_type_from_name name' =
     (case map_of
        [(''null'', LT_Null), (''bool'', LT_Bool), (''boolean'', LT_Bool),
         (''int8'', LT_Int8), (''int16'', LT_Int16), (''int32'', LT_Int32),
         (''int64'', LT_Int64), (''int'', LT_Int64), (''uint8'', LT_UInt8),
         (''uint16'', LT_UInt16), (''uint32'', LT_UInt32), (''uint64'', LT_UInt64),
         (''uint'', LT_UInt64), (''float32'', LT_Float32), (''float64'', LT_Float64),
         (''float'', LT_Float64), (''decimal64'', LT_Decimal64),
         (''decimal128'', LT_Decimal128), (''decimal'', LT_Decimal128),
         (''date_days'', LT_DateDays), (''date32'', LT_DateDays), (''date'', LT_DateDays),
         (''timestamp_micros'', LT_TimestampMicros), (''timestamp_us'', LT_TimestampMicros),
         (''timestamp_nanos'', LT_TimestampNanos), (''timestamp_ns'', LT_TimestampNanos),
         (''utf8'', LT_Utf8), (''string'', LT_Utf8), (''binary'', LT_Binary),
         (''uuid'', LT_Uuid), (''json'', LT_Json), (''list'', LT_List),
         (''struct'', LT_Struct), (''map'', LT_Map)] name' of
        Some t \<Rightarrow> Ok t
      | None \<Rightarrow> Fail (BadSchema (''unsupported logical type '' @ [CHR 0x27] @ name' @ [CHR 0x27])))"

section \<open>NumCode readings\<close>

text \<open>An \<^verbatim>\<open>iN\<close> is the word of its bits, read with \<open>sint\<close>.\<close>

definition numcode_as_i8 :: "u64 \<Rightarrow> 8 word" where
  "numcode_as_i8 code = ucast (code AND 0xff)"

definition numcode_as_i16 :: "u64 \<Rightarrow> 16 word" where
  "numcode_as_i16 code = ucast (code AND 0xffff)"

definition numcode_as_i32 :: "u64 \<Rightarrow> 32 word" where
  "numcode_as_i32 code = ucast (code AND 0xffffffff)"

definition numcode_as_i64 :: "u64 \<Rightarrow> u64" where
  "numcode_as_i64 code = code"

definition numcode_as_u8 :: "u64 \<Rightarrow> 8 word" where
  "numcode_as_u8 code = ucast (code AND 0xff)"

definition numcode_as_u16 :: "u64 \<Rightarrow> 16 word" where
  "numcode_as_u16 code = ucast (code AND 0xffff)"

definition numcode_as_u32 :: "u64 \<Rightarrow> 32 word" where
  "numcode_as_u32 code = ucast (code AND 0xffffffff)"

definition numcode_as_u64 :: "u64 \<Rightarrow> u64" where
  "numcode_as_u64 code = code"

definition numcode_as_f32 :: "u64 \<Rightarrow> 32 word" where
  "numcode_as_f32 code = ucast (code AND 0xffffffff)"

definition numcode_as_f64 :: "u64 \<Rightarrow> u64" where
  "numcode_as_f64 code = code"

definition numcode_as_decimal64 :: "u64 \<Rightarrow> u64" where
  "numcode_as_decimal64 code = code"

definition numcode_as_date_days :: "u64 \<Rightarrow> 32 word" where
  "numcode_as_date_days code = ucast (code AND 0xffffffff)"

definition numcode_as_timestamp_micros :: "u64 \<Rightarrow> u64" where
  "numcode_as_timestamp_micros code = code"

definition numcode_as_timestamp_nanos :: "u64 \<Rightarrow> u64" where
  "numcode_as_timestamp_nanos code = code"

section \<open>Lemmas\<close>

lemma validate_pair_iff:
  "validate_logical_physical_pair_with_options l p opts = Inr u \<longleftrightarrow>
     (case p of
        PK_FileCode \<Rightarrow> True
      | PK_NumCode \<Rightarrow> validate_numcode_logical_type l (bool_declared_numeric opts) = Ok ()
      | PK_Boolean \<Rightarrow> l = LT_Bool
      | PK_FixedBytes \<Rightarrow> l = LT_Uuid \<or> l = LT_Decimal128
      | PK_VarBytes \<Rightarrow> l = LT_Utf8 \<or> l = LT_Binary \<or> l = LT_Json
      | PK_List \<Rightarrow> l = LT_List
      | PK_Struct \<Rightarrow> l = LT_Struct
      | PK_Map \<Rightarrow> l = LT_Map)"
  by (cases p) (auto simp: validate_logical_physical_pair_with_options_def validate_numcode_logical_type_def)

lemma no_panic_validate_pair [no_panic_intros, simp]:
  "no_panic (validate_logical_physical_pair_with_options l p opts)"
  by (simp add: validate_logical_physical_pair_with_options_def)

lemma no_panic_validate_numcode [no_panic_intros, simp]: "no_panic (validate_numcode_logical_type l d)"
  by (simp add: validate_numcode_logical_type_def)

text \<open>A logical type other than \<^verbatim>\<open>Null\<close> has a physical kind of its own besides FileCode.\<close>

lemma every_type_has_own_kind:
  "l \<noteq> LT_Null \<Longrightarrow> \<exists>p. p \<noteq> PK_FileCode \<and> validate_logical_physical_pair l p = Ok ()"
  by (cases l; rule exI [of _ "case l of LT_Bool \<Rightarrow> PK_Boolean | LT_Uuid \<Rightarrow> PK_FixedBytes | LT_Decimal128 \<Rightarrow> PK_FixedBytes
      | LT_Utf8 \<Rightarrow> PK_VarBytes | LT_Binary \<Rightarrow> PK_VarBytes | LT_Json \<Rightarrow> PK_VarBytes | LT_List \<Rightarrow> PK_List
      | LT_Struct \<Rightarrow> PK_Struct | LT_Map \<Rightarrow> PK_Map | _ \<Rightarrow> PK_NumCode"])
    (simp_all add: validate_logical_physical_pair_def validate_logical_physical_pair_with_options_def numcode_types_def)

lemma logical_type_name_roundtrip: "logical_type_from_name (logical_type_name t) = Ok t"
  by (cases t) (simp_all add: logical_type_from_name_def)

lemma numcode_narrow:
  "uint (numcode_as_u8 c) = uint c mod 2 ^ 8" "uint (numcode_as_u16 c) = uint c mod 2 ^ 16"
  "uint (numcode_as_u32 c) = uint c mod 2 ^ 32"
proof -
  have m: "(0xff :: u64) = mask 8" "(0xffff :: u64) = mask 16" "(0xffffffff :: u64) = mask 32"
    by (simp_all add: mask_numeral)
  show "uint (numcode_as_u8 c) = uint c mod 2 ^ 8" "uint (numcode_as_u16 c) = uint c mod 2 ^ 16"
    "uint (numcode_as_u32 c) = uint c mod 2 ^ 32"
    by (simp_all add: numcode_as_u8_def numcode_as_u16_def numcode_as_u32_def m unsigned_ucast_eq
        take_bit_eq_mask [symmetric] unsigned_take_bit_eq)
      (simp_all add: take_bit_eq_mod)
qed

text \<open>The NumCode column of the table is the one that its own validator accepts.\<close>

lemma type_tables_agree:
  "is_ok (validate_logical_physical_pair_with_options l PK_NumCode opts) =
     is_ok (validate_numcode_logical_type l (bool_declared_numeric opts))"
  by (auto simp: is_ok_iff validate_pair_iff)

end
