(* ===== verification/Table_Catalog.thy ===== *)
theory Table_Catalog
  imports Types Wire Metadata
begin

text \<open>
  The table catalogue (\<^verbatim>\<open>table.rs\<close>): column and table entries with their variable-length
  names, the parser that walks them, the serializer, and the rules a catalogue obeys.
\<close>

section \<open>Sequences of delimited items\<close>

text \<open>
  The loop both parsers share: \<open>n\<close> items, each parsed from the rest of the buffer, the
  position advanced by what it used.
\<close>

fun parse_items :: "(bytes \<Rightarrow> ('a \<times> nat) res) \<Rightarrow> nat \<Rightarrow> bytes \<Rightarrow> nat \<Rightarrow> ('a list \<times> nat) res" where
  "parse_items dec 0 bs pos = Ok ([], pos)"
| "parse_items dec (Suc n) bs pos =
     and_then (slice_from bs pos) (\<lambda>rest.
     and_then (dec rest) (\<lambda>(item, used).
     and_then (ok_or ArithOverflow (checked_add pos used)) (\<lambda>pos'.
     and_then (parse_items dec n bs pos') (\<lambda>(items, end'). Ok (item # items, end')))))"

text \<open>\<open>exact_delimited\<close>: what is parsed is an encoding that lies at the start of the buffer.\<close>

locale exact_delimited = delimited_codec enc dec wf
  for enc :: "'a \<Rightarrow> bytes" and dec :: "bytes \<Rightarrow> ('a \<times> nat) res" and wf :: "'a \<Rightarrow> bool" +
  assumes dec_Ok: "dec bs = Ok (x, n) \<Longrightarrow> wf x \<and> n = length (enc x) \<and> n \<le> length bs \<and> take n bs = enc x"
    and dec_no_panic: "no_panic (dec bs)"
begin

lemma parse_items_encoded:
  "list_all wf xs \<Longrightarrow> pos = length pre \<Longrightarrow> length pre + length (concat (map enc xs)) < usize_limit \<Longrightarrow>
   parse_items dec (length xs) (pre @ concat (map enc xs) @ rest) pos =
     Ok (xs, length pre + length (concat (map enc xs)))"
proof (induction xs arbitrary: pre pos)
  case (Cons x xs)
  let ?b = "pre @ concat (map enc (x # xs)) @ rest"
  have d: "slice_from ?b pos = (Ok (enc x @ concat (map enc xs) @ rest) :: bytes res)"
    using Cons.prems(2) by (simp add: slice_from_Ok)
  have c: "checked_add pos (length (enc x)) = Some (length (pre @ enc x))"
    using Cons.prems(2,3) by (simp add: checked_add_Some)
  have "parse_items dec (length xs) ((pre @ enc x) @ concat (map enc xs) @ rest) (length (pre @ enc x)) =
      Ok (xs, length (pre @ enc x) + length (concat (map enc xs)))"
    using Cons.prems by (intro Cons.IH) auto
  then show ?case
    using Cons.prems(1) d c dec_enc [of x "concat (map enc xs) @ rest"] by simp
qed simp

lemma parse_items_Ok:
  "parse_items dec n bs pos = Ok (xs, pos') \<Longrightarrow> pos \<le> length bs \<Longrightarrow>
   length xs = n \<and> list_all wf xs \<and> pos' = pos + length (concat (map enc xs)) \<and> pos' \<le> length bs \<and>
   concat (map enc xs) = sub bs pos (length (concat (map enc xs))) \<and> (pos < usize_limit \<longrightarrow> pos' < usize_limit)"
proof (induction n arbitrary: pos xs)
  case 0
  then show ?case by (simp add: sub_def)
next
  case (Suc n)
  from Suc.prems obtain x used ys where r: "dec (drop pos bs) = Ok (x, used)" "pos + used < usize_limit"
    "parse_items dec n bs (pos + used) = Ok (ys, pos')" "xs = x # ys"
    by (auto simp: ok_iffs slice_from_def checked_add_eq_Some_iff split: prod.splits)
  note d = dec_Ok [OF r(1)]
  have p: "pos + used \<le> length bs" using d Suc.prems(2) by auto
  note ih = Suc.IH [OF r(3) p]
  have "enc x = sub bs pos used" using d unfolding sub_def by metis
  define L where "L = length (concat (map enc ys))"
  have e: "concat (map enc ys) = sub bs (pos + used) L" using ih by (simp add: L_def)
  have j: "concat (map enc xs) = sub bs pos (used + L)"
    unfolding r(4) by (simp add: e sub_join \<open>enc x = sub bs pos used\<close>)
  have k: "used + L = length (concat (map enc xs))" using d by (simp add: L_def r(4))
  have f: "concat (map enc xs) = sub bs pos (length (concat (map enc xs)))" unfolding k [symmetric] by (rule j)
  have g: "pos' = pos + length (concat (map enc xs))" using ih by (simp add: k [symmetric] L_def)
  show ?case using ih d r(2) by (intro conjI f g) (auto simp: r(4))
qed

lemma parse_items_no_panic: "pos \<le> length bs \<Longrightarrow> no_panic (parse_items dec n bs pos)"
proof (induction n arbitrary: pos)
  case (Suc n)
  have "no_panic (parse_items dec n bs (pos + used))" if "dec (drop pos bs) = Ok (x, used)" for x used
    using dec_Ok [OF that] Suc.prems by (intro Suc.IH) auto
  then show ?case
    using Suc.prems dec_no_panic [of "drop pos bs"]
    by (auto simp: slice_from_Ok checked_add_eq_Some_iff ok_iffs intro!: no_panic_intros)
qed simp

end

section \<open>Strings\<close>

text \<open>A \<^verbatim>\<open>String\<close> is the list of its UTF-8 bytes.\<close>

definition read_str :: "bytes \<Rightarrow> nat \<Rightarrow> string \<Rightarrow> (bytes \<times> nat) res" where
  "read_str bs pos what =
     (if length bs < pos + 2 then Fail BufferTooShort
      else
        and_then (read_u16_le_checked bs pos) (\<lambda>len16.
        let pos = pos + 2 in
        and_then (ok_or ArithOverflow (checked_add pos (unat len16))) (\<lambda>end'.
        if length bs < end' then Fail BufferTooShort
        else
          and_then (slice bs pos end') (\<lambda>s.
          if \<not> utf8_valid s then Fail (BadSchema (what @ '' is not valid UTF-8'')) else Ok (s, end')))))"

definition str_bytes :: "bytes \<Rightarrow> bytes" where
  "str_bytes s = le_bytes 2 (of_nat (length s) :: u16) @ s"

definition str_ok :: "bytes \<Rightarrow> bool" where
  "str_ok s \<longleftrightarrow> length s < 2 ^ 16 \<and> utf8_valid s"

lemma length_str_bytes [simp]: "length (str_bytes s) = 2 + length s"
  by (simp add: str_bytes_def)

lemma read_str_encoded:
  assumes "str_ok s" "pos = length pre" "pos + 2 + length s < usize_limit"
  shows "read_str (pre @ str_bytes s @ post) pos what = Ok (s, pos + 2 + length s)"
proof -
  let ?b = "pre @ str_bytes s @ post"
  have u: "unat (of_nat (length s) :: u16) = length s" by (rule unat_of_nat_less) (use assms(1) in \<open>simp add: str_ok_def\<close>)
  have r: "read_u16_le_checked ?b pos = Ok (of_nat (length s))"
    using assms(2,3) by (simp add: read_words_Ok sub_def str_bytes_def)
  have c: "checked_add (pos + 2) (length s) = Some (pos + 2 + length s)"
    using assms(3) by (simp add: checked_add_Some)
  have s: "slice ?b (pos + 2) (pos + 2 + length s) = (Ok s :: bytes res)"
    using assms(2) by (simp add: slice_Ok sub_def str_bytes_def)
  show ?thesis
    unfolding read_str_def r and_then_simps Let_def u c ok_or_simps s
    using assms(1,2) by (simp add: str_ok_def)
qed

lemma read_str_Ok:
  assumes "read_str bs pos what = Ok (s, p)"
  shows "str_ok s \<and> p = pos + 2 + length s \<and> p \<le> length bs \<and> p < usize_limit \<and> str_bytes s = sub bs pos (2 + length s)"
proof -
  from assms obtain w where r: "read_u16_le_checked bs pos = Ok w" "pos + 2 \<le> length bs"
    "pos + 2 + unat w < usize_limit" "pos + 2 + unat w \<le> length bs" "s = sub bs (pos + 2) (unat w)" "utf8_valid s"
    "p = pos + 2 + unat w"
    by (auto simp: read_str_def Let_def ok_iffs checked_add_eq_Some_iff split: if_splits)
  have l: "length s = unat w" using r(4,5) by (simp add: length_sub)
  have w: "le_bytes 2 w = sub bs pos 2" using u16_reader.read_Ok [OF r(1)] by blast
  have "str_bytes s = le_bytes 2 w @ s" by (simp add: str_bytes_def l)
  also have "\<dots> = sub bs pos 2 @ sub bs (pos + 2) (unat w)" unfolding w r(5) ..
  also have "\<dots> = sub bs pos (2 + unat w)" by (rule sub_join) simp
  finally have "str_bytes s = sub bs pos (2 + length s)" unfolding l .
  then show ?thesis using r l unat_u16_less [of w] by (simp add: str_ok_def)
qed

lemma no_panic_read_str [no_panic_intros, simp]: "no_panic (read_str bs pos what)"
  by (auto simp: read_str_def Let_def checked_add_eq_Some_iff slice_def ok_iffs intro!: no_panic_intros)

section \<open>Columns\<close>

definition COLUMN_FLAG_BOOL_DECLARED_NUMERIC :: u32 where
  "COLUMN_FLAG_BOOL_DECLARED_NUMERIC = 1"

record column_entry =
  ce_column_id :: u32
  ce_name :: bytes
  ce_logical :: logical_type
  ce_physical :: physical_kind
  ce_nullable :: bool
  ce_sort_order :: u16
  ce_collation_id :: u16
  ce_precision :: u16
  ce_scale :: u16
  ce_flags :: u32

definition column_entry_encoded_len :: "column_entry \<Rightarrow> nat" where
  "column_entry_encoded_len c = 4 + 2 + length (ce_name c) + 2 + 1 + 1 + 2 + 2 + 2 + 2 + 4"

definition column_entry_serialize :: "column_entry \<Rightarrow> bytes res" where
  "column_entry_serialize c =
     (if 65535 < length (ce_name c) then Fail (BadSchema ''column name exceeds u16::MAX'')
      else Ok (le_bytes 4 (ce_column_id c) @ le_bytes 2 (of_nat (length (ce_name c)) :: u16) @ ce_name c @
        le_bytes 2 (as_logical_type (ce_logical c)) @ [as_physical_kind (ce_physical c)] @
        [if ce_nullable c then 1 else 0] @ le_bytes 2 (ce_sort_order c) @ le_bytes 2 (ce_collation_id c) @
        le_bytes 2 (ce_precision c) @ le_bytes 2 (ce_scale c) @ le_bytes 4 (ce_flags c)))"

definition column_entry_parse :: "bytes \<Rightarrow> (column_entry \<times> nat) res" where
  "column_entry_parse bs =
     (if length bs < 4 + 2 then Fail BufferTooShort
      else
        and_then (read_u32_le_checked bs 0) (\<lambda>column'.
        and_then (read_str bs 4 ''column name'') (\<lambda>(name', pos).
        if length bs < pos + 2 + 1 + 1 + 2 + 2 + 2 + 2 + 4 then Fail BufferTooShort
        else
          and_then (read_u16_le_checked bs pos) (\<lambda>lt_raw.
          and_then (index bs (pos + 2)) (\<lambda>pk_raw.
          and_then (index bs (pos + 3)) (\<lambda>nullable_raw.
          and_then (read_u16_le_checked bs (pos + 4)) (\<lambda>sort_order.
          and_then (read_u16_le_checked bs (pos + 6)) (\<lambda>collation'.
          and_then (read_u16_le_checked bs (pos + 8)) (\<lambda>precision.
          and_then (read_i16_le_checked bs (pos + 10)) (\<lambda>scale.
          and_then (read_u32_le_checked bs (pos + 12)) (\<lambda>flags.
          and_then (ok_or (BadSchema (''unknown logical type '' @ decimal (unat lt_raw))) (logical_type_from lt_raw)) (\<lambda>logical.
          and_then (ok_or (BadSchema (''unknown physical kind '' @ decimal (unat pk_raw))) (physical_kind_from pk_raw)) (\<lambda>physical.
          and_then (if nullable_raw = 0 then Ok False else if nullable_raw = 1 then Ok True
                    else Fail (BadSchema (''nullable flag must be 0 or 1, got '' @ decimal (unat nullable_raw)))) (\<lambda>nullable.
          Ok (\<lparr>ce_column_id = column', ce_name = name', ce_logical = logical, ce_physical = physical,
            ce_nullable = nullable, ce_sort_order = sort_order, ce_collation_id = collation',
            ce_precision = precision, ce_scale = scale, ce_flags = flags\<rparr>, pos + 16)))))))))))))))"

definition column_bytes :: "column_entry \<Rightarrow> bytes" where
  "column_bytes c = le_bytes 4 (ce_column_id c) @ str_bytes (ce_name c) @
     le_bytes 2 (as_logical_type (ce_logical c)) @ [as_physical_kind (ce_physical c)] @
     [if ce_nullable c then 1 else 0] @ le_bytes 2 (ce_sort_order c) @ le_bytes 2 (ce_collation_id c) @
     le_bytes 2 (ce_precision c) @ le_bytes 2 (ce_scale c) @ le_bytes 4 (ce_flags c)"

definition column_ok :: "column_entry \<Rightarrow> bool" where
  "column_ok c \<longleftrightarrow> str_ok (ce_name c)"

lemma column_serialize_eq:
  "column_entry_serialize c = Inr b \<longleftrightarrow> length (ce_name c) < 2 ^ 16 \<and> b = column_bytes c"
  by (auto simp: column_entry_serialize_def column_bytes_def str_bytes_def)

lemma length_column_bytes: "length (column_bytes c) = column_entry_encoded_len c"
  by (simp add: column_bytes_def column_entry_encoded_len_def)

interpretation column: exact_delimited column_bytes column_entry_parse column_ok
proof
  fix c :: column_entry and rest :: bytes
  assume ok: "column_ok c"
  let ?b = "column_bytes c @ rest"
  let ?n = "length (ce_name c)"
  have n: "?n < 65536" using ok by (simp add: column_ok_def str_ok_def)
  have s: "read_str ?b 4 ''column name'' = Ok (ce_name c, 6 + ?n)"
    using read_str_encoded [of "ce_name c" 4 "le_bytes 4 (ce_column_id c)"] ok n
    by (simp add: column_bytes_def column_ok_def usize_limit_def)
  have r: "read_u32_le_checked ?b 0 = Ok (ce_column_id c)"
    "read_u16_le_checked ?b (6 + ?n) = Ok (as_logical_type (ce_logical c))"
    "index ?b (6 + ?n + 2) = (Ok (as_physical_kind (ce_physical c)) :: u8 res)"
    "index ?b (6 + ?n + 3) = (Ok (if ce_nullable c then 1 else 0) :: u8 res)"
    "read_u16_le_checked ?b (6 + ?n + 4) = Ok (ce_sort_order c)"
    "read_u16_le_checked ?b (6 + ?n + 6) = Ok (ce_collation_id c)"
    "read_u16_le_checked ?b (6 + ?n + 8) = Ok (ce_precision c)"
    "read_i16_le_checked ?b (6 + ?n + 10) = Ok (ce_scale c)"
    "read_u32_le_checked ?b (6 + ?n + 12) = Ok (ce_flags c)"
    using n by (simp_all add: read_words_Ok usize_limit_def column_bytes_def str_bytes_def sub_def index_Ok nth_append)
  have l: "\<not> length ?b < 4 + 2" "\<not> length ?b < 6 + ?n + 2 + 1 + 1 + 2 + 2 + 2 + 2 + 4"
    by (simp_all add: column_bytes_def)
  have t: "logical_type_from (as_logical_type (ce_logical c)) = Some (ce_logical c)"
    "physical_kind_from (as_physical_kind (ce_physical c)) = Some (ce_physical c)"
    by (simp_all add: logical_type_from_iff physical_kind_from_iff)
  show "column_entry_parse ?b = Ok (c, length (column_bytes c))"
    unfolding column_entry_parse_def if_not_P [OF l(1)] r(1) and_then_simps s prod.case if_not_P [OF l(2)] r(2-) t ok_or_simps
    by (simp add: column_bytes_def)
next
  fix bs c n
  assume p: "column_entry_parse bs = Ok (c, n)"
  from p obtain a name' pos where h: "read_u32_le_checked bs 0 = Ok a" "read_str bs 4 ''column name'' = Ok (name', pos)"
    by (auto simp: column_entry_parse_def ok_iffs split: prod.splits)
  note s = read_str_Ok [OF h(2)]
  have sb: "str_bytes name' = sub bs 4 (2 + length name')" and np: "pos = 6 + length name'" using s by auto
  have small: "pos + 20 < usize_limit" using s by (simp add: str_ok_def usize_limit_def)
  from p have l: "pos + 16 \<le> length bs" by (auto simp: column_entry_parse_def h split: if_splits)
  have r: "read_u16_le_checked bs pos = Ok (of_le (sub bs pos 2))"
    "index bs (pos + 2) = (Ok (bs ! (pos + 2)) :: u8 res)" "index bs (pos + 3) = (Ok (bs ! (pos + 3)) :: u8 res)"
    "read_u16_le_checked bs (pos + 4) = Ok (of_le (sub bs (pos + 4) 2))"
    "read_u16_le_checked bs (pos + 6) = Ok (of_le (sub bs (pos + 6) 2))"
    "read_u16_le_checked bs (pos + 8) = Ok (of_le (sub bs (pos + 8) 2))"
    "read_i16_le_checked bs (pos + 10) = Ok (of_le (sub bs (pos + 10) 2))"
    "read_u32_le_checked bs (pos + 12) = Ok (of_le (sub bs (pos + 12) 4))"
    using l small by (simp_all add: read_words_Ok index_Ok)
  have l': "\<not> length bs < 4 + 2" "\<not> length bs < pos + 2 + 1 + 1 + 2 + 2 + 2 + 2 + 4" using l np by simp_all
  from p have q: "as_logical_type (ce_logical c) = of_le (sub bs pos 2)" "as_physical_kind (ce_physical c) = bs ! (pos + 2)"
    "(if ce_nullable c then 1 else 0) = bs ! (pos + 3)" "ce_column_id c = a" "ce_name c = name'"
    "ce_sort_order c = of_le (sub bs (pos + 4) 2)" "ce_collation_id c = of_le (sub bs (pos + 6) 2)"
    "ce_precision c = of_le (sub bs (pos + 8) 2)" "ce_scale c = of_le (sub bs (pos + 10) 2)"
    "ce_flags c = of_le (sub bs (pos + 12) 4)" "n = pos + 16"
    unfolding column_entry_parse_def if_not_P [OF l'(1)] h and_then_simps prod.case if_not_P [OF l'(2)] r
    by (auto simp: ok_iffs logical_type_from_iff physical_kind_from_iff split: if_splits)
  have a: "le_bytes 4 a = sub bs 0 4" using u32_reader.read_Ok [OF h(1)] by blast
  have "column_bytes c = sub bs 0 4 @ sub bs 4 (2 + length name') @ sub bs pos 2 @ sub bs (pos + 2) 1 @ sub bs (pos + 3) 1 @
      sub bs (pos + 4) 2 @ sub bs (pos + 6) 2 @ sub bs (pos + 8) 2 @ sub bs (pos + 10) 2 @ sub bs (pos + 12) 4"
    unfolding column_bytes_def q a sb using l
    by (simp add: le_bytes_of_le length_sub sub_singleton)
  also have "\<dots> = sub bs 0 (pos + 16)"
    by (simp add: np sub_join sub_join_assoc)
  finally have "column_bytes c = take n bs" by (simp add: q sub_def)
  then show "column_ok c \<and> n = length (column_bytes c) \<and> n \<le> length bs \<and> take n bs = column_bytes c"
    using s l q by (simp add: column_ok_def)
next
  fix bs
  show "no_panic (column_entry_parse bs)"
    by (auto simp: column_entry_parse_def index_def intro!: no_panic_intros)
qed

section \<open>Tables\<close>

record table_entry =
  te_table_id :: u32
  te_namespace :: bytes
  te_name :: bytes
  te_row_count :: u64
  te_primary_sort_key_count :: u16
  te_clustering_key_count :: u16
  te_flags :: u32
  te_columns :: "column_entry list"

definition table_entry_serialize :: "table_entry \<Rightarrow> bytes res" where
  "table_entry_serialize t =
     (if 65535 < length (te_namespace t) then Fail (BadSchema ''namespace exceeds u16::MAX'')
      else if 65535 < length (te_name t) then Fail (BadSchema ''table name exceeds u16::MAX'')
      else if \<not> length (te_columns t) < 2 ^ 32 then Fail (BadSchema ''too many columns'')
      else
        let out = le_bytes 4 (te_table_id t) @ le_bytes 2 (of_nat (length (te_namespace t)) :: u16) @ te_namespace t @
              le_bytes 2 (of_nat (length (te_name t)) :: u16) @ te_name t @
              le_bytes 4 (of_nat (length (te_columns t)) :: u32) @ le_bytes 8 (te_row_count t) @
              le_bytes 2 (te_primary_sort_key_count t) @ le_bytes 2 (te_clustering_key_count t) @ le_bytes 4 (te_flags t) in
        map_ok (\<lambda>cs. out @ concat cs) (try_map column_entry_serialize (te_columns t)))"

definition table_entry_parse :: "bytes \<Rightarrow> (table_entry \<times> nat) res" where
  "table_entry_parse bs =
     (if length bs < 4 + 2 then Fail BufferTooShort
      else
        and_then (read_u32_le_checked bs 0) (\<lambda>table'.
        and_then (read_str bs 4 ''namespace'') (\<lambda>(namespace, pos).
        and_then (read_str bs pos ''table name'') (\<lambda>(name', pos).
        if length bs < pos + 4 + 8 + 2 + 2 + 4 then Fail BufferTooShort
        else
          and_then (read_u32_le_checked bs pos) (\<lambda>column_count.
          and_then (read_u64_le_checked bs (pos + 4)) (\<lambda>row_count.
          and_then (read_u16_le_checked bs (pos + 12)) (\<lambda>primary.
          and_then (read_u16_le_checked bs (pos + 14)) (\<lambda>clustering.
          and_then (read_u32_le_checked bs (pos + 16)) (\<lambda>flags.
          and_then (parse_items column_entry_parse (unat column_count) bs (pos + 20)) (\<lambda>(columns, end').
          Ok (\<lparr>te_table_id = table', te_namespace = namespace, te_name = name', te_row_count = row_count,
            te_primary_sort_key_count = primary, te_clustering_key_count = clustering, te_flags = flags,
            te_columns = columns\<rparr>, end')))))))))))"

definition table_head :: "table_entry \<Rightarrow> bytes" where
  "table_head t = le_bytes 4 (te_table_id t) @ str_bytes (te_namespace t) @ str_bytes (te_name t) @
     le_bytes 4 (of_nat (length (te_columns t)) :: u32) @ le_bytes 8 (te_row_count t) @
     le_bytes 2 (te_primary_sort_key_count t) @ le_bytes 2 (te_clustering_key_count t) @ le_bytes 4 (te_flags t)"

definition table_bytes :: "table_entry \<Rightarrow> bytes" where
  "table_bytes t = table_head t @ concat (map column_bytes (te_columns t))"

definition table_ok :: "table_entry \<Rightarrow> bool" where
  "table_ok t \<longleftrightarrow> str_ok (te_namespace t) \<and> str_ok (te_name t) \<and> length (te_columns t) < 2 ^ 32 \<and>
     list_all column_ok (te_columns t) \<and> length (table_bytes t) < usize_limit"

lemma try_map_column_serialize:
  "list_all column_ok cs \<Longrightarrow> try_map column_entry_serialize cs = Ok (map column_bytes cs)"
  by (rule try_map_Ok) (auto simp: list_all_iff column_serialize_eq column_ok_def str_ok_def)

lemma table_serialize_ok: "table_ok t \<Longrightarrow> table_entry_serialize t = Ok (table_bytes t)"
  by (simp add: table_entry_serialize_def table_ok_def str_ok_def try_map_column_serialize Let_def table_bytes_def
      table_head_def str_bytes_def)

lemma length_table_head: "length (table_head t) = 28 + length (te_namespace t) + length (te_name t)"
  by (simp add: table_head_def)

interpretation table: exact_delimited table_bytes table_entry_parse table_ok
proof
  fix t :: table_entry and rest :: bytes
  assume ok: "table_ok t"
  let ?b = "table_bytes t @ rest"
  let ?m = "length (te_namespace t)" and ?n = "length (te_name t)"
  let ?p = "8 + ?m + ?n"
  have sm: "?m < 65536" "?n < 65536" "length (te_columns t) < 2 ^ 32" using ok by (simp_all add: table_ok_def str_ok_def)
  have s: "read_str ?b 4 ''namespace'' = Ok (te_namespace t, 6 + ?m)"
    using read_str_encoded [of "te_namespace t" 4 "le_bytes 4 (te_table_id t)"] ok sm
    by (simp add: table_bytes_def table_head_def table_ok_def usize_limit_def)
  have s': "read_str ?b (6 + ?m) ''table name'' = Ok (te_name t, ?p)"
    using read_str_encoded [of "te_name t" "6 + ?m" "le_bytes 4 (te_table_id t) @ str_bytes (te_namespace t)"] ok sm
    by (simp add: table_bytes_def table_head_def table_ok_def usize_limit_def)
  have r: "read_u32_le_checked ?b 0 = Ok (te_table_id t)"
    "read_u32_le_checked ?b ?p = Ok (of_nat (length (te_columns t)))"
    "read_u64_le_checked ?b (?p + 4) = Ok (te_row_count t)"
    "read_u16_le_checked ?b (?p + 12) = Ok (te_primary_sort_key_count t)"
    "read_u16_le_checked ?b (?p + 14) = Ok (te_clustering_key_count t)"
    "read_u32_le_checked ?b (?p + 16) = Ok (te_flags t)"
    using sm by (simp_all add: read_words_Ok usize_limit_def table_bytes_def table_head_def str_bytes_def sub_def)
  have u: "unat (of_nat (length (te_columns t)) :: u32) = length (te_columns t)"
    by (rule unat_of_nat_less) (use sm in simp)
  have c: "parse_items column_entry_parse (length (te_columns t)) ?b (?p + 20) = Ok (te_columns t, length (table_bytes t))"
    using column.parse_items_encoded [of "te_columns t" "?p + 20" "table_head t" rest] ok
    by (simp add: table_bytes_def length_table_head table_ok_def)
  have l: "\<not> length ?b < 4 + 2" "\<not> length ?b < ?p + 4 + 8 + 2 + 2 + 4"
    by (simp_all add: table_bytes_def length_table_head)
  show "table_entry_parse ?b = Ok (t, length (table_bytes t))"
    unfolding table_entry_parse_def if_not_P [OF l(1)] r(1) and_then_simps s prod.case s' if_not_P [OF l(2)] r(2-) u c
    by simp
next
  fix bs t n
  assume p: "table_entry_parse bs = Ok (t, n)"
  from p obtain a m pos' nm pos where h: "read_u32_le_checked bs 0 = Ok a" "read_str bs 4 ''namespace'' = Ok (m, pos')"
    "read_str bs pos' ''table name'' = Ok (nm, pos)" and l: "pos + 20 \<le> length bs"
    by (auto simp: table_entry_parse_def ok_iffs split: prod.splits if_splits)
  note s = read_str_Ok [OF h(2)] and s' = read_str_Ok [OF h(3)]
  have sb: "str_bytes m = sub bs 4 (2 + length m)" "pos' = 6 + length m" "str_bytes nm = sub bs pos' (2 + length nm)"
    "pos = pos' + 2 + length nm" using s s' by auto
  have small: "pos + 24 < usize_limit" using s s' by (simp add: str_ok_def usize_limit_def)
  have r: "read_u32_le_checked bs pos = Ok (of_le (sub bs pos 4))"
    "read_u64_le_checked bs (pos + 4) = Ok (of_le (sub bs (pos + 4) 8))"
    "read_u16_le_checked bs (pos + 12) = Ok (of_le (sub bs (pos + 12) 2))"
    "read_u16_le_checked bs (pos + 14) = Ok (of_le (sub bs (pos + 14) 2))"
    "read_u32_le_checked bs (pos + 16) = Ok (of_le (sub bs (pos + 16) 4))"
    using l small by (simp_all add: read_words_Ok)
  define k where "k = (of_le (sub bs pos 4) :: u32)"
  have l': "\<not> length bs < 4 + 2" "\<not> length bs < pos + 4 + 8 + 2 + 2 + 4" using l sb by simp_all
  from p have items: "parse_items column_entry_parse (unat k) bs (pos + 20) = Ok (te_columns t, n)"
    and q: "te_table_id t = a" "te_namespace t = m" "te_name t = nm" "te_row_count t = of_le (sub bs (pos + 4) 8)"
      "te_primary_sort_key_count t = of_le (sub bs (pos + 12) 2)" "te_clustering_key_count t = of_le (sub bs (pos + 14) 2)"
      "te_flags t = of_le (sub bs (pos + 16) 4)"
    unfolding table_entry_parse_def if_not_P [OF l'(1)] h and_then_simps prod.case if_not_P [OF l'(2)] r k_def
    by (auto simp: ok_iffs split: prod.splits)
  note it = column.parse_items_Ok [OF items l]
  have kk: "of_nat (length (te_columns t)) = k" using it by simp
  have a: "le_bytes 4 a = sub bs 0 4" using u32_reader.read_Ok [OF h(1)] by blast
  have "table_head t = sub bs 0 4 @ sub bs 4 (2 + length m) @ sub bs pos' (2 + length nm) @ sub bs pos 4 @
      sub bs (pos + 4) 8 @ sub bs (pos + 12) 2 @ sub bs (pos + 14) 2 @ sub bs (pos + 16) 4"
    unfolding table_head_def q a kk k_def sb(1) sb(3) using l by (simp add: le_bytes_of_le length_sub)
  also have "\<dots> = sub bs 0 (pos + 20)"
    by (simp add: sb(2,4) sub_join sub_join_assoc)
  finally have hd: "table_head t = sub bs 0 (pos + 20)" .
  define L where "L = length (concat (map column_bytes (te_columns t)))"
  have e: "concat (map column_bytes (te_columns t)) = sub bs (pos + 20) L" and nL: "n = pos + 20 + L"
    using it by (simp_all add: L_def)
  have "table_bytes t = sub bs 0 (pos + 20) @ sub bs (pos + 20) L" unfolding table_bytes_def hd e ..
  also have "\<dots> = sub bs 0 (pos + 20 + L)" by (rule sub_join) simp
  finally have tb: "table_bytes t = take n bs" by (simp add: sub_def nL)
  have "length (te_columns t) < 2 ^ 32" using it unat_u32_less [of k] by simp
  then show "table_ok t \<and> n = length (table_bytes t) \<and> n \<le> length bs \<and> take n bs = table_bytes t"
    using it s s' q tb small by (auto simp: table_ok_def)
next
  fix bs
  show "no_panic (table_entry_parse bs)"
    by (auto simp: table_entry_parse_def intro!: no_panic_intros column.parse_items_no_panic)
qed

section \<open>The catalogue\<close>

record table_catalog =
  tc_flags :: u32
  tc_tables :: "table_entry list"

definition catalog_serialize :: "table_catalog \<Rightarrow> bytes res" where
  "catalog_serialize cat =
     (if \<not> length (tc_tables cat) < 2 ^ 32 then Fail (BadSchema ''too many tables'')
      else map_ok (\<lambda>ts. le_bytes 4 (of_nat (length (tc_tables cat)) :: u32) @ le_bytes 4 (tc_flags cat) @ concat ts)
        (try_map table_entry_serialize (tc_tables cat)))"

text \<open>The ordinals are collected in a set, a repeated one being refused at once.\<close>

definition validate_sort_declarations :: "table_entry \<Rightarrow> unit res" where
  "validate_sort_declarations t =
     (if length (te_columns t) < unat (te_primary_sort_key_count t) \<or>
         length (te_columns t) < unat (te_clustering_key_count t)
      then Fail (BadSchema ''sort/clustering key count exceeds column count'')
      else
        let ordinals = filter (\<lambda>o'. o' \<noteq> 0) (map ce_sort_order (te_columns t)) in
        if has_duplicate ordinals then Fail (BadSchema ''column sort_order values must be unique'')
        else if length ordinals \<noteq> unat (te_primary_sort_key_count t)
        then Fail (BadSchema ''primary_sort_key_count does not match declared column sort_order values'')
        else if \<not> list_all (\<lambda>expected. of_nat expected \<in> set ordinals) [1..<Suc (unat (te_primary_sort_key_count t))]
        then Fail (BadSchema ''column sort_order values must be dense starting at 1'')
        else Ok ())"

fun validate_columns_loop :: "u32 \<Rightarrow> u32 list \<Rightarrow> column_entry list \<Rightarrow> unit res" where
  "validate_columns_loop table' seen [] = Ok ()"
| "validate_columns_loop table' seen (c # cs) =
     (if ce_column_id c \<in> set seen
      then Fail (BadSchema (''duplicate column_id '' @ decimal (unat (ce_column_id c)) @ '' in table ''
        @ decimal (unat table') @ '' (Spec '' @ [CHR 0xC2, CHR 0xA7] @ ''24)''))
      else if ce_logical c = LT_Null
      then Fail (BadSchema (''column '' @ decimal (unat (ce_column_id c)) @ '' declares logical Null at top level (Spec ''
        @ [CHR 0xC2, CHR 0xA7] @ ''24)''))
      else if \<not> is_ok (validate_logical_physical_pair_with_options (ce_logical c) (ce_physical c)
          \<lparr>bool_declared_numeric = (ce_flags c AND COLUMN_FLAG_BOOL_DECLARED_NUMERIC \<noteq> 0)\<rparr>)
      then Fail BadLogicalPhysicalPair
      else validate_columns_loop table' (ce_column_id c # seen) cs)"

fun catalog_validate_loop :: "u32 list \<Rightarrow> table_entry list \<Rightarrow> unit res" where
  "catalog_validate_loop seen [] = Ok ()"
| "catalog_validate_loop seen (t # ts) =
     (if te_table_id t \<in> set seen
      then Fail (BadSchema (''duplicate table_id '' @ decimal (unat (te_table_id t)) @ '' (Spec ''
        @ [CHR 0xC2, CHR 0xA7] @ ''24)''))
      else
        and_then (validate_sort_declarations t) (\<lambda>_.
        and_then (validate_columns_loop (te_table_id t) [] (te_columns t)) (\<lambda>_.
        catalog_validate_loop (te_table_id t # seen) ts)))"

definition catalog_validate :: "table_catalog \<Rightarrow> unit res" where
  "catalog_validate cat = catalog_validate_loop [] (tc_tables cat)"

definition catalog_parse :: "bytes \<Rightarrow> table_catalog res" where
  "catalog_parse bs =
     (if length bs < 4 + 4 then Fail BufferTooShort
      else
        and_then (read_u32_le_checked bs 0) (\<lambda>table_count.
        and_then (read_u32_le_checked bs 4) (\<lambda>flags.
        and_then (parse_items table_entry_parse (unat table_count) bs 8) (\<lambda>(tables, pos).
        if pos \<noteq> length bs then Fail (BadSchema ''table catalog has trailing bytes'')
        else
          let cat = \<lparr>tc_flags = flags, tc_tables = tables\<rparr> in
          and_then (catalog_validate cat) (\<lambda>_. Ok cat)))))"

section \<open>The rules of a catalogue\<close>

text \<open>
  The rules as a reader states them: table ids are unique; in a table the column ids are
  unique, no column is \<^verbatim>\<open>Null\<close>, each pair of types is compatible, and the declared sort
  ordinals are exactly \<open>1 .. p\<close>, each once.
\<close>

definition column_rule :: "column_entry \<Rightarrow> bool" where
  "column_rule c \<longleftrightarrow> ce_logical c \<noteq> LT_Null \<and>
     is_ok (validate_logical_physical_pair_with_options (ce_logical c) (ce_physical c)
       \<lparr>bool_declared_numeric = (ce_flags c AND COLUMN_FLAG_BOOL_DECLARED_NUMERIC \<noteq> 0)\<rparr>)"

definition sort_rule :: "table_entry \<Rightarrow> bool" where
  "sort_rule t \<longleftrightarrow>
     unat (te_clustering_key_count t) \<le> length (te_columns t) \<and>
     (let ordinals = filter (\<lambda>o'. o' \<noteq> 0) (map ce_sort_order (te_columns t)) in
      distinct ordinals \<and> set ordinals = {o'. 1 \<le> o' \<and> o' \<le> te_primary_sort_key_count t})"

definition catalog_rules :: "table_catalog \<Rightarrow> bool" where
  "catalog_rules cat \<longleftrightarrow> distinct (map te_table_id (tc_tables cat)) \<and>
     list_all (\<lambda>t. sort_rule t \<and> distinct (map ce_column_id (te_columns t)) \<and> list_all column_rule (te_columns t))
       (tc_tables cat)"

definition names_utf8 :: "table_catalog \<Rightarrow> bool" where
  "names_utf8 cat \<longleftrightarrow>
     list_all (\<lambda>t. utf8_valid (te_namespace t) \<and> utf8_valid (te_name t) \<and>
       list_all (\<lambda>c. utf8_valid (ce_name c)) (te_columns t)) (tc_tables cat)"

lemma word_interval: "{o' :: u16. 1 \<le> o' \<and> o' \<le> p} = of_nat ` {1..unat p}"
proof (intro set_eqI iffI)
  fix o' :: u16 assume "o' \<in> {o'. 1 \<le> o' \<and> o' \<le> p}"
  then have "unat o' \<in> {1..unat p}" by (simp add: word_le_nat_alt)
  then show "o' \<in> of_nat ` {1..unat p}" by (rule rev_image_eqI) simp
next
  fix o' :: u16 assume "o' \<in> of_nat ` {1..unat p}"
  then obtain n where n: "o' = of_nat n" "1 \<le> n" "n \<le> unat p" by auto
  then have "unat o' = n" using unat_u16_less [of p] by (simp add: unat_of_nat_less)
  then show "o' \<in> {o'. 1 \<le> o' \<and> o' \<le> p}" using n by (simp add: word_le_nat_alt)
qed

lemma card_word_interval: "card {o' :: u16. 1 \<le> o' \<and> o' \<le> p} = unat p"
proof -
  have "inj_on (of_nat :: nat \<Rightarrow> u16) {1..unat p}"
  proof (rule inj_onI)
    fix a b assume r: "a \<in> {1..unat p}" "b \<in> {1..unat p}" and e: "(of_nat a :: u16) = of_nat b"
    have "unat (of_nat a :: u16) = a" by (rule unat_of_nat_less) (use r(1) unat_u16_less [of p] in simp)
    moreover have "unat (of_nat b :: u16) = b" by (rule unat_of_nat_less) (use r(2) unat_u16_less [of p] in simp)
    ultimately show "a = b" using e by metis
  qed
  then show ?thesis by (simp add: word_interval card_image)
qed

lemma validate_sort_iff: "validate_sort_declarations t = Inr u \<longleftrightarrow> sort_rule t"
proof -
  define ord where "ord = filter (\<lambda>o'. o' \<noteq> 0) (map ce_sort_order (te_columns t))"
  let ?p = "te_primary_sort_key_count t"
  let ?I = "{o'. 1 \<le> o' \<and> o' \<le> ?p}"
  have sub: "list_all (\<lambda>e. of_nat e \<in> set ord) [1..<Suc (unat ?p)] \<longleftrightarrow> ?I \<subseteq> set ord"
    by (auto simp: word_interval list_all_iff simp del: upt_Suc)
  have len: "length ord \<le> length (te_columns t)" unfolding ord_def by (metis length_filter_le length_map)
  have fin: "finite ?I" by (simp add: word_interval)
  have "distinct ord \<and> length ord = unat ?p \<and> ?I \<subseteq> set ord \<longleftrightarrow> distinct ord \<and> set ord = ?I"
  proof
    assume a: "distinct ord \<and> length ord = unat ?p \<and> ?I \<subseteq> set ord"
    then have "card (set ord) = card ?I" by (simp add: distinct_card card_word_interval)
    then show "distinct ord \<and> set ord = ?I" using a card_subset_eq [of "set ord" ?I] by auto
  next
    assume a: "distinct ord \<and> set ord = ?I"
    then have "length ord = unat ?p" using distinct_card [of ord] card_word_interval [of ?p] by simp
    then show "distinct ord \<and> length ord = unat ?p \<and> ?I \<subseteq> set ord" using a by simp
  qed
  moreover have "validate_sort_declarations t = Inr u \<longleftrightarrow>
      unat ?p \<le> length (te_columns t) \<and> unat (te_clustering_key_count t) \<le> length (te_columns t) \<and>
      distinct ord \<and> length ord = unat ?p \<and> ?I \<subseteq> set ord"
    unfolding sub [symmetric]
    by (simp add: validate_sort_declarations_def Let_def ord_def [symmetric] not_less del: upt_Suc)
  moreover have "sort_rule t \<longleftrightarrow> unat (te_clustering_key_count t) \<le> length (te_columns t) \<and> distinct ord \<and> set ord = ?I"
    by (simp add: sort_rule_def ord_def Let_def)
  ultimately show ?thesis using len by auto
qed

lemma validate_columns_iff:
  "validate_columns_loop tid seen cs = Inr u \<longleftrightarrow>
     distinct (map ce_column_id cs) \<and> set (map ce_column_id cs) \<inter> set seen = {} \<and> list_all column_rule cs"
  by (induction tid seen cs rule: validate_columns_loop.induct) (auto simp: column_rule_def)

lemma catalog_validate_loop_iff:
  "catalog_validate_loop seen ts = Inr u \<longleftrightarrow>
     distinct (map te_table_id ts) \<and> set (map te_table_id ts) \<inter> set seen = {} \<and>
     list_all (\<lambda>t. sort_rule t \<and> distinct (map ce_column_id (te_columns t)) \<and> list_all column_rule (te_columns t)) ts"
  by (induction seen ts rule: catalog_validate_loop.induct) (auto simp: ok_iffs validate_sort_iff validate_columns_iff)

lemma catalog_validate_iff: "catalog_validate cat = Inr u \<longleftrightarrow> catalog_rules cat"
  by (simp add: catalog_validate_def catalog_validate_loop_iff catalog_rules_def)

lemma no_panic_catalog_validate [no_panic_intros, simp]: "no_panic (catalog_validate cat)"
proof -
  have s: "no_panic (validate_sort_declarations t)" for t by (simp add: validate_sort_declarations_def Let_def)
  have c: "no_panic (validate_columns_loop tid seen cs)" for tid seen cs
    by (induction tid seen cs rule: validate_columns_loop.induct) auto
  have "no_panic (catalog_validate_loop seen ts)" for seen ts
    by (induction seen ts rule: catalog_validate_loop.induct) (auto intro!: no_panic_intros s c)
  then show ?thesis by (simp add: catalog_validate_def)
qed

lemma no_panic_catalog_parse [no_panic_intros, simp]: "no_panic (catalog_parse bs)"
  by (auto simp: catalog_parse_def Let_def intro!: no_panic_intros table.parse_items_no_panic)

section \<open>Properties\<close>

lemma table_serialize_Ok:
  assumes "table_entry_serialize t = Ok b" "utf8_valid (te_namespace t)" "utf8_valid (te_name t)"
    "list_all (\<lambda>c. utf8_valid (ce_name c)) (te_columns t)" "length b < usize_limit"
  shows "table_ok t \<and> b = table_bytes t"
proof -
  have s: "length (te_namespace t) < 2 ^ 16" "length (te_name t) < 2 ^ 16" "length (te_columns t) < 2 ^ 32"
    using assms(1) by (simp_all add: table_entry_serialize_def Let_def split: if_splits)
  from assms(1) obtain cs where cs: "try_map column_entry_serialize (te_columns t) = Ok cs"
    by (auto simp: table_entry_serialize_def Let_def ok_iffs split: if_splits)
  have "column_ok c" if "c \<in> set (te_columns t)" for c
  proof -
    obtain i where i: "i < length (te_columns t)" "c = te_columns t ! i" using \<open>c \<in> _\<close> by (auto simp: in_set_conv_nth)
    show ?thesis using try_map_nth [OF cs i(1)] assms(4) that by (auto simp: column_serialize_eq i list_all_iff column_ok_def str_ok_def)
  qed
  then have c: "list_all column_ok (te_columns t)" by (simp add: list_all_iff)
  have "b = table_bytes t"
    using assms(1) s by (simp add: table_entry_serialize_def Let_def try_map_column_serialize [OF c] table_bytes_def table_head_def str_bytes_def split: if_splits)
  then show ?thesis using s c assms by (simp add: table_ok_def str_ok_def)
qed

text \<open>
  C24: The catalogue parser accepts exactly the serialisations of catalogues that obey
  the rules: unique table and column ids, no top-level \<^verbatim>\<open>Null\<close>, compatible types, sort
  ordinals dense from one; every byte of the section is accounted for, and no input
  panics.
\<close>

theorem catalog_parse_exact:
  assumes "length bs < usize_limit"
  shows "(catalog_parse bs = Ok cat \<longleftrightarrow> catalog_serialize cat = Ok bs \<and> catalog_rules cat \<and> names_utf8 cat) \<and>
    no_panic (catalog_parse bs)"
proof (intro conjI iffI no_panic_catalog_parse)
  assume p: "catalog_parse bs = Ok cat"
  then obtain k f where h: "read_u32_le_checked bs 0 = Ok k" "read_u32_le_checked bs 4 = Ok f" "8 \<le> length bs"
    and it: "parse_items table_entry_parse (unat k) bs 8 = Ok (tc_tables cat, length bs)" and v: "catalog_validate cat = Ok ()"
    and f: "tc_flags cat = f"
    by (auto simp: catalog_parse_def ok_iffs Let_def split: prod.splits if_splits)
  note items = table.parse_items_Ok [OF it h(3)]
  have n: "length (tc_tables cat) = unat k" "length (tc_tables cat) < 2 ^ 32" using items unat_u32_less [of k] by simp_all
  have ok: "list_all table_ok (tc_tables cat)" using items by blast
  have m: "try_map table_entry_serialize (tc_tables cat) = Ok (map table_bytes (tc_tables cat))"
    by (rule try_map_Ok) (use ok in \<open>auto simp: list_all_iff table_serialize_ok\<close>)
  define L where "L = length (concat (map table_bytes (tc_tables cat)))"
  have c: "concat (map table_bytes (tc_tables cat)) = sub bs 8 L" and l: "length bs = 8 + L"
    using items by (simp_all add: L_def)
  have w: "le_bytes 4 k = sub bs 0 4" "le_bytes 4 f = sub bs 4 4"
    using u32_reader.read_Ok [OF h(1)] u32_reader.read_Ok [OF h(2)] by auto
  have b: "sub bs 0 4 @ sub bs 4 4 @ sub bs 8 L = bs" using l by (simp add: sub_join sub_join_assoc sub_all)
  have kk: "of_nat (length (tc_tables cat)) = k" unfolding n(1) by simp
  have "\<not> \<not> length (tc_tables cat) < 2 ^ 32" using n(2) by simp
  then show "catalog_serialize cat = Ok bs"
    unfolding catalog_serialize_def m f kk map_ok_simps w c b by (rule if_not_P)
  show "catalog_rules cat" using v by (simp add: catalog_validate_iff)
  show "names_utf8 cat"
    using ok by (auto simp: names_utf8_def list_all_iff table_ok_def str_ok_def column_ok_def)
next
  assume a: "catalog_serialize cat = Ok bs \<and> catalog_rules cat \<and> names_utf8 cat"
  then obtain ts where n: "length (tc_tables cat) < 2 ^ 32" and t: "try_map table_entry_serialize (tc_tables cat) = Ok ts"
    and bs: "bs = le_bytes 4 (of_nat (length (tc_tables cat)) :: u32) @ le_bytes 4 (tc_flags cat) @ concat ts"
    by (auto simp: catalog_serialize_def ok_iffs split: if_splits)
  have i: "table_ok (tc_tables cat ! i) \<and> ts ! i = table_bytes (tc_tables cat ! i)" if "i < length (tc_tables cat)" for i
  proof (rule table_serialize_Ok)
    show "table_entry_serialize (tc_tables cat ! i) = Ok (ts ! i)" by (rule try_map_nth [OF t that])
    have "ts ! i \<in> set ts" using that try_map_length [OF t] by simp
    then have "length (ts ! i) \<le> length (concat ts)" by (simp add: length_concat member_le_sum_list)
    then show "length (ts ! i) < usize_limit" using assms by (simp add: bs)
  qed (use a that in \<open>auto simp: names_utf8_def list_all_length\<close>)
  have ok: "list_all table_ok (tc_tables cat)" using i by (simp add: list_all_length)
  have ts: "ts = map table_bytes (tc_tables cat)"
    using i try_map_length [OF t] by (intro nth_equalityI) simp_all
  let ?h = "le_bytes 4 (of_nat (length (tc_tables cat)) :: u32) @ le_bytes 4 (tc_flags cat)"
  have u: "unat (of_nat (length (tc_tables cat)) :: u32) = length (tc_tables cat)" by (rule unat_of_nat_less) (use n in simp)
  have it: "parse_items table_entry_parse (length (tc_tables cat)) bs 8 = Ok (tc_tables cat, length bs)"
    using table.parse_items_encoded [of "tc_tables cat" 8 ?h "[]"] ok assms by (simp add: bs ts)
  have r: "read_u32_le_checked bs 0 = Ok (of_nat (length (tc_tables cat)))" "read_u32_le_checked bs 4 = Ok (tc_flags cat)"
    by (simp_all add: bs read_words_Ok usize_limit_def sub_def)
  have l: "\<not> length bs < 4 + 4" by (simp add: bs)
  have v: "catalog_validate cat = Ok ()" using a by (simp add: catalog_validate_iff)
  have e: "\<lparr>tc_flags = tc_flags cat, tc_tables = tc_tables cat\<rparr> = cat" by simp
  show "catalog_parse bs = Ok cat"
    unfolding catalog_parse_def if_not_P [OF l] r and_then_simps u it prod.case Let_def e v by simp
qed

definition catalog_example :: table_catalog where
  "catalog_example = \<lparr>tc_flags = 0, tc_tables = [\<lparr>te_table_id = 7, te_namespace = [], te_name = [116],
     te_row_count = 5, te_primary_sort_key_count = 1, te_clustering_key_count = 0, te_flags = 0,
     te_columns = [\<lparr>ce_column_id = 1, ce_name = [97], ce_logical = LT_Int64, ce_physical = PK_NumCode,
       ce_nullable = True, ce_sort_order = 1, ce_collation_id = 0, ce_precision = 0, ce_scale = 0, ce_flags = 0\<rparr>]\<rparr>]\<rparr>"

lemma catalog_parse_exact_witness:
  "\<exists>bs. catalog_serialize catalog_example = Ok bs \<and> catalog_parse bs = Ok catalog_example"
proof -
  have "\<exists>bs. catalog_serialize catalog_example = Ok bs \<and> length bs = 60"
    by (simp add: catalog_serialize_def catalog_example_def table_entry_serialize_def column_entry_serialize_def Let_def)
  then obtain bs where s: "catalog_serialize catalog_example = Ok bs" and l: "length bs < usize_limit"
    by (auto simp: usize_limit_def)
  have one: "{o' :: u16. 1 \<le> o' \<and> o' \<le> 1} = {1}" "{o' :: u16. o' = 1 \<and> o' \<noteq> 0} = {1}" by auto
  have "catalog_rules catalog_example" "names_utf8 catalog_example"
    by (simp_all add: catalog_rules_def catalog_example_def sort_rule_def column_rule_def is_ok_iff validate_pair_iff
        validate_numcode_logical_type_def numcode_types_def one Let_def names_utf8_def utf8_valid.simps(2))
  then show ?thesis using catalog_parse_exact [OF l] s by blast
qed

end
