(* ===== verification/Index_Common.thy ===== *)
theory Index_Common
  imports Wire
begin

text \<open>
  What the optional indexes share (\<^verbatim>\<open>index/mod.rs\<close>): the checksum field of a header
  and the checked region; and two routines of the standard library they call,
  \<^verbatim>\<open>chunks_exact\<close> and \<^verbatim>\<open>binary_search\<close>. Two contracts: \<open>membership\<close>, an index
  that never denies a key it holds, and \<open>filter_index\<close>, a membership that grows by
  insertion.
\<close>

section \<open>Checksums and regions\<close>

definition verify_checksum_field :: "(bytes \<Rightarrow> u32) \<Rightarrow> bytes \<Rightarrow> nat \<Rightarrow> u32 res" where
  "verify_checksum_field crc bs checksum_offset =
     and_then (ok_or ArithOverflow (checked_add checksum_offset 4)) (\<lambda>end'.
     if length bs < end' then Fail BufferTooShort
     else
       and_then (read_u32_le_checked bs checksum_offset) (\<lambda>checksum_field.
       let for_crc = copy_at bs checksum_offset (replicate 4 0) in
       if crc for_crc \<noteq> checksum_field then Fail ChecksumMismatch
       else Ok checksum_field))"

definition checked_region :: "bytes \<Rightarrow> u64 \<Rightarrow> u64 \<Rightarrow> bytes res" where
  "checked_region bs offset len =
     and_then (ok_or ArithOverflow (checked_add (unat offset) (unat len))) (\<lambda>end'.
     if length bs < end' then Fail OffsetRange
     else slice bs (unat offset) end')"

lemma verify_checksum_field_eq:
  assumes "length bs = off + 4" "off + 4 < usize_limit"
  shows "verify_checksum_field crc bs off =
    (if crc (sub bs 0 off @ replicate 4 0) \<noteq> of_le (sub bs off 4) then Fail ChecksumMismatch
     else Ok (of_le (sub bs off 4)))"
proof -
  have "copy_at bs off (replicate 4 0) = sub bs 0 off @ replicate 4 0"
    using assms(1) by (simp add: copy_at_def sub_def)
  then show ?thesis
    using assms by (simp add: verify_checksum_field_def checked_add_def wire_simps Let_def)
qed

lemma no_panic_verify_checksum_field [no_panic_intros, simp]: "no_panic (verify_checksum_field crc bs off)"
  by (auto simp: verify_checksum_field_def Let_def intro!: no_panic_intros)

lemma checked_region_Ok_iff:
  "checked_region bs off len = Inr r \<longleftrightarrow>
     unat off + unat len < usize_limit \<and> unat off + unat len \<le> length bs \<and> r = sub bs (unat off) (unat len)"
  by (auto simp: checked_region_def ok_iffs checked_add_eq_Some_iff)

lemma checked_region_Ok:
  "unat off + unat len < usize_limit \<Longrightarrow> unat off + unat len \<le> length bs \<Longrightarrow>
   checked_region bs off len = Ok (sub bs (unat off) (unat len))"
  by (simp add: checked_region_Ok_iff)

lemma no_panic_checked_region [no_panic_intros, simp]: "no_panic (checked_region bs off len)"
  by (auto simp: checked_region_def slice_def checked_add_def intro!: no_panic_intros)

section \<open>Standard library\<close>

definition chunks_exact :: "nat \<Rightarrow> 'a list \<Rightarrow> 'a list list" where
  "chunks_exact k bs = map (\<lambda>i. sub bs (i * k) k) [0..<length bs div k]"

lemma chunks_exact_concat:
  assumes "0 < k" "\<And>x. x \<in> set xs \<Longrightarrow> length (f x) = k"
  shows "chunks_exact k (concat (map f xs)) = map f xs"
proof -
  have l: "length (concat (map f xs)) = k * length xs" using assms(2) by (rule length_concat_fixed)
  show ?thesis
  proof (rule nth_equalityI)
    show "length (chunks_exact k (concat (map f xs))) = length (map f xs)"
      using assms(1) l by (simp add: chunks_exact_def)
    fix i assume "i < length (chunks_exact k (concat (map f xs)))"
    then have i: "i < length xs" using assms(1) l by (simp add: chunks_exact_def)
    then show "chunks_exact k (concat (map f xs)) ! i = map f xs ! i"
      using sub_concat_fixed [of xs f k i "[]"] assms l by (simp add: chunks_exact_def)
  qed
qed

lemma chunks_exact_Cons:
  assumes "length c = k" "0 < k"
  shows "chunks_exact k (c @ bs) = c # chunks_exact k bs"
proof -
  have n: "length (c @ bs) div k = Suc (length bs div k)" using assms by (simp add: div_add_self1)
  have "chunks_exact k (c @ bs) = sub (c @ bs) 0 k # map (\<lambda>i. sub (c @ bs) (Suc i * k) k) [0..<length bs div k]"
    unfolding chunks_exact_def n upt_conv_Cons [OF zero_less_Suc] map_Suc_upt [symmetric] by simp
  also have "map (\<lambda>i. sub (c @ bs) (Suc i * k) k) [0..<length bs div k] = chunks_exact k bs"
    using assms by (simp add: chunks_exact_def sub_def)
  also have "sub (c @ bs) 0 k = c" using assms by (simp add: sub_def)
  finally show ?thesis .
qed

lemma chunks_exact_length: "c \<in> set (chunks_exact k bs) \<Longrightarrow> length c = k"
proof -
  assume "c \<in> set (chunks_exact k bs)"
  then obtain i where i: "i < length bs div k" "c = sub bs (i * k) k" by (auto simp: chunks_exact_def)
  then have "Suc i * k \<le> length bs"
    by (metis Suc_leI div_times_less_eq_dividend le_trans mult_le_mono1)
  then show ?thesis using i by (simp add: length_sub)
qed

text \<open>
  \<^verbatim>\<open>binary_search_by_key\<close> of the standard library: the window \<open>base..base + sz\<close> is
  halved until one element is left. The result is the index when the key is there.
\<close>

function bsearch_loop :: "('a \<Rightarrow> 'k::linorder) \<Rightarrow> 'a list \<Rightarrow> 'k \<Rightarrow> nat \<Rightarrow> nat \<Rightarrow> nat" where
  "bsearch_loop f xs key base sz =
     (if sz \<le> 1 then base
      else
        let half = sz div 2; mid = base + half;
            base = (if f (xs ! mid) > key then base else mid)
        in bsearch_loop f xs key base (sz - half))"
  by pat_completeness auto

termination
  by (relation "measure (\<lambda>(f, xs, key, base, sz). sz)") auto

declare bsearch_loop.simps [simp del]

definition binary_search_by_key :: "('a \<Rightarrow> 'k::linorder) \<Rightarrow> 'a list \<Rightarrow> 'k \<Rightarrow> nat option" where
  "binary_search_by_key f xs key =
     (if xs = [] then None
      else
        let base = bsearch_loop f xs key 0 (length xs) in
        if f (xs ! base) = key then Some base else None)"

lemma bsearch_loop_window:
  "base + sz \<le> length xs \<Longrightarrow> 0 < sz \<Longrightarrow> sorted_wrt (<) (map f xs) \<Longrightarrow>
   i < length xs \<Longrightarrow> f (xs ! i) = key \<Longrightarrow> base \<le> i \<Longrightarrow> i < base + sz \<Longrightarrow>
   bsearch_loop f xs key base sz = i"
proof (induction f xs key base sz rule: bsearch_loop.induct)
  case (1 f xs key base sz)
  show ?case
  proof (cases "sz \<le> 1")
    case True
    then show ?thesis using "1.prems" by (simp add: bsearch_loop.simps [of f xs key base sz])
  next
    case False
    define half where "half = sz div 2"
    define mid where "mid = base + half"
    define base' where "base' = (if f (xs ! mid) > key then base else mid)"
    have h: "0 < half" "half < sz" "sz - half \<le> sz" "half \<le> sz - half" using False by (auto simp: half_def)
    have m: "mid < length xs" using h "1.prems"(1) by (simp add: mid_def)
    have mono: "f (xs ! a) < f (xs ! b)" if "a < b" "b < length xs" for a b
      using sorted_wrt_nth_less [OF "1.prems"(3), of a b] that by simp
    have w: "base' \<le> i \<and> i < base' + (sz - half)"
    proof (cases "f (xs ! mid) > key")
      case True
      have "i < mid"
      proof (rule ccontr)
        assume "\<not> i < mid"
        then have "f (xs ! mid) \<le> f (xs ! i)" using mono [of mid i] "1.prems"(4) by (cases "mid = i") auto
        then show False using True "1.prems"(5) by simp
      qed
      then show ?thesis using True "1.prems" h by (auto simp: base'_def mid_def)
    next
      case False
      have "mid \<le> i"
      proof (rule ccontr)
        assume "\<not> mid \<le> i"
        then show False using mono [of i mid] m False "1.prems"(5) by simp
      qed
      then show ?thesis using False "1.prems" h by (auto simp: base'_def mid_def)
    qed
    have b: "base' + (sz - half) \<le> length xs" using "1.prems"(1) h by (auto simp: base'_def mid_def)
    have "bsearch_loop f xs key base sz = bsearch_loop f xs key base' (sz - half)"
      using False by (simp add: bsearch_loop.simps [of f xs key base sz] Let_def half_def mid_def base'_def)
    also have "\<dots> = i"
      by (rule "1.IH" [OF False half_def mid_def base'_def b])
        (use h w "1.prems" in auto)
    finally show ?thesis .
  qed
qed

lemma bsearch_loop_range:
  "base + sz \<le> length xs \<Longrightarrow> 0 < sz \<Longrightarrow> bsearch_loop f xs key base sz < length xs"
proof (induction f xs key base sz rule: bsearch_loop.induct)
  case (1 f xs key base sz)
  show ?case
  proof (cases "sz \<le> 1")
    case False
    define half where "half = sz div 2"
    define mid where "mid = base + half"
    define base' where "base' = (if f (xs ! mid) > key then base else mid)"
    have h: "0 < half" "half < sz" using False by (auto simp: half_def)
    have b: "base' + (sz - half) \<le> length xs" using "1.prems"(1) h by (auto simp: base'_def mid_def)
    have "bsearch_loop f xs key base sz = bsearch_loop f xs key base' (sz - half)"
      using False by (simp add: bsearch_loop.simps [of f xs key base sz] Let_def half_def mid_def base'_def)
    then show ?thesis
      using "1.IH" [OF False half_def mid_def base'_def b] h by simp
  qed (use "1.prems" in \<open>simp add: bsearch_loop.simps [of f xs key base sz]\<close>)
qed

lemma binary_search_Some:
  "binary_search_by_key f xs key = Some i \<Longrightarrow> i < length xs \<and> f (xs ! i) = key"
  using bsearch_loop_range [of 0 "length xs" xs f key]
  by (auto simp: binary_search_by_key_def Let_def split: if_splits)

lemma binary_search_iff:
  assumes "sorted_wrt (<) (map f xs)"
  shows "binary_search_by_key f xs key = Some i \<longleftrightarrow> i < length xs \<and> f (xs ! i) = key"
proof
  assume "binary_search_by_key f xs key = Some i"
  then show "i < length xs \<and> f (xs ! i) = key" by (rule binary_search_Some)
next
  assume i: "i < length xs \<and> f (xs ! i) = key"
  then have "bsearch_loop f xs key 0 (length xs) = i"
    using assms by (intro bsearch_loop_window) auto
  then show "binary_search_by_key f xs key = Some i"
    using i by (auto simp: binary_search_by_key_def)
qed

lemma binary_search_found:
  assumes "sorted_wrt (<) (map f xs)"
  shows "binary_search_by_key f xs key \<noteq> None \<longleftrightarrow> key \<in> f ` set xs"
  using binary_search_iff [OF assms, of key] by (force simp: in_set_conv_nth)

section \<open>Contracts\<close>

text \<open>
  \<open>membership\<close>: an index \<open>x\<close> that is well-formed for the keys it was built on
  answers \<open>query\<close>; it may answer yes for other keys, never no for its own.
\<close>

locale membership =
  fixes query :: "'i \<Rightarrow> 'k \<Rightarrow> bool" and holds :: "'i \<Rightarrow> 'k \<Rightarrow> bool" and ok :: "'i \<Rightarrow> bool"
  assumes no_false_negative: "ok x \<Longrightarrow> holds x k \<Longrightarrow> query x k"
begin

lemma absent: "ok x \<Longrightarrow> \<not> query x k \<Longrightarrow> \<not> holds x k"
  using no_false_negative by blast

lemma prune_safe:
  "ok x \<Longrightarrow> \<not> query x k \<Longrightarrow> (\<And>r. r \<in> rows \<Longrightarrow> holds x (key r)) \<Longrightarrow> r \<in> rows \<Longrightarrow> key r \<noteq> k"
  using absent by blast

end

text \<open>\<open>exact_membership\<close>: moreover the answer is exact.\<close>

locale exact_membership = membership +
  assumes exact: "ok x \<Longrightarrow> query x k \<Longrightarrow> holds x k"
begin

lemma query_iff: "ok x \<Longrightarrow> query x k \<longleftrightarrow> holds x k"
  using exact no_false_negative by blast

end

text \<open>
  \<open>filter_index\<close>: a filter that grows by insertion under an invariant \<open>ok\<close>.
\<close>

locale filter_index =
  fixes insert_key :: "'k \<Rightarrow> 'f \<Rightarrow> 'f" and query :: "'f \<Rightarrow> 'k \<Rightarrow> bool" and ok :: "'f \<Rightarrow> bool"
  assumes ok_insert: "ok s \<Longrightarrow> ok (insert_key k s)"
    and query_insert: "ok s \<Longrightarrow> query (insert_key k s) k"
    and query_mono: "ok s \<Longrightarrow> query s j \<Longrightarrow> query (insert_key k s) j"
begin

lemma ok_fold: "ok s \<Longrightarrow> ok (fold insert_key ks s)"
  by (induction ks arbitrary: s) (auto simp: ok_insert)

lemma query_fold_mono: "ok s \<Longrightarrow> query s j \<Longrightarrow> query (fold insert_key ks s) j"
  by (induction ks arbitrary: s) (auto simp: ok_insert query_mono)

lemma query_fold: "ok s \<Longrightarrow> k \<in> set ks \<Longrightarrow> query (fold insert_key ks s) k"
  by (induction ks arbitrary: s) (auto simp: ok_insert query_insert query_fold_mono)

end

end
