(* ===== verification/Exact_Codec.thy ===== *)
theory Exact_Codec
  imports Index_Common
begin

text \<open>
  Entries of a fixed width whose parser accepts nothing but encodings, and the two loops
  the parsers of entry arrays are written with: over \<^verbatim>\<open>chunks_exact\<close>, and over
  \<^verbatim>\<open>&bytes[pos..pos + LEN]\<close> with a position that advances. A contract \<open>exact_fixed\<close> gives
  both loops at once: they accept exactly the concatenations of encodings.
\<close>

lemma try_map_items_iff:
  assumes width: "\<And>x. ok x \<Longrightarrow> length (enc x) = width" and fits: "pos + n * width \<le> length bs"
    and read: "\<And>p x. p + width \<le> pos + n * width \<Longrightarrow> rd p = Inr x \<longleftrightarrow> ok x \<and> enc x = sub bs p width"
  shows "try_map (\<lambda>i. rd (pos + i * width)) [0..<n] = Inr xs \<longleftrightarrow>
    length xs = n \<and> list_all ok xs \<and> concat (map enc xs) = sub bs pos (n * width)"
proof -
  have s: "rd (pos + i * width) = Inr x \<longleftrightarrow> ok x \<and> enc x = sub bs (pos + i * width) width" if "i < n" for i x
    using mult_le_mono1 [of "Suc i" n width] that by (intro read) simp
  show ?thesis
  proof
    assume p: "try_map (\<lambda>i. rd (pos + i * width)) [0..<n] = Inr xs"
    then have l: "length xs = n" using try_map_length [OF p] by simp
    have i: "ok (xs ! i) \<and> enc (xs ! i) = sub bs (pos + i * width) width" if "i < n" for i
      using try_map_nth [OF p, of i] that s [OF that] by simp
    have "map enc xs = map (\<lambda>i. sub bs (pos + i * width) width) [0..<n]"
      using l i by (intro nth_equalityI) simp_all
    then show "length xs = n \<and> list_all ok xs \<and> concat (map enc xs) = sub bs pos (n * width)"
      using l i concat_sub_chunks [OF fits] by (simp add: list_all_length)
  next
    assume a: "length xs = n \<and> list_all ok xs \<and> concat (map enc xs) = sub bs pos (n * width)"
    have e: "enc (xs ! i) = sub bs (pos + i * width) width" if "i < n" for i
    proof -
      have "enc (xs ! i) = sub (concat (map enc xs)) (i * width) width"
        using sub_concat_fixed [of xs enc width i "[]"] a that by (auto simp: width list_all_iff)
      also have "\<dots> = sub bs (pos + i * width) width"
        using a mult_le_mono1 [of "Suc i" n width] that by (simp add: sub_sub)
      finally show ?thesis .
    qed
    have "try_map (\<lambda>i. rd (pos + i * width)) [0..<n] = Inr (map (\<lambda>i. xs ! i) [0..<n])"
      using a e s by (intro try_map_Ok) (auto simp: list_all_length)
    then show "try_map (\<lambda>i. rd (pos + i * width)) [0..<n] = Inr xs" using a by (metis map_nth)
  qed
qed

lemma unat_ucast_32_64 [simp]: "unat (ucast (w :: u32) :: u64) = unat w"
  using unat_u32_less [of w] by (simp add: unsigned_ucast_eq take_bit_nat_eq_self)

lemma unat_ucast_16_32 [simp]: "unat (ucast (w :: u16) :: u32) = unat w"
  using unat_u16_less [of w] by (simp add: unsigned_ucast_eq take_bit_nat_eq_self)

lemma sub_sub_0: "off + n \<le> m \<Longrightarrow> sub (sub bs 0 m) off n = sub bs off n"
  using sub_sub [of off n m bs 0] by simp

lemma nth_sub_0: "i < n \<Longrightarrow> i < length bs \<Longrightarrow> sub bs 0 n ! i = bs ! i"
  using nth_sub [of i n 0 bs] by simp

definition parse_array :: "(bytes \<Rightarrow> 'a res) \<Rightarrow> nat \<Rightarrow> nat \<Rightarrow> bytes \<Rightarrow> nat \<Rightarrow> 'a list res" where
  "parse_array dec width n bs pos =
     try_map (\<lambda>i. and_then (slice bs (pos + i * width) (pos + i * width + width)) dec) [0..<n]"

locale exact_fixed = fixed_codec enc dec width wf
  for enc :: "'a \<Rightarrow> bytes" and dec :: "bytes \<Rightarrow> 'a res" and width :: nat and wf :: "'a \<Rightarrow> bool" +
  assumes dec_Ok: "dec bs = Ok x \<Longrightarrow> wf x \<and> width \<le> length bs \<and> enc x = take width bs"
    and dec_no_panic: "no_panic (dec bs)"
    and width_pos: "0 < width"
begin

lemma dec_exact_iff: "length bs = width \<Longrightarrow> dec bs = Ok x \<longleftrightarrow> wf x \<and> enc x = bs"
  using dec_Ok [of bs x] dec_enc_exact [of x] by auto

lemma dec_iff: "dec bs = Ok x \<longleftrightarrow> wf x \<and> width \<le> length bs \<and> enc x = take width bs"
proof
  assume a: "wf x \<and> width \<le> length bs \<and> enc x = take width bs"
  then have "bs = enc x @ drop width bs" by simp
  then show "dec bs = Ok x" using dec_enc [of x "drop width bs"] a by simp
qed (rule dec_Ok)

lemma parse_array_iff:
  assumes "pos + n * width \<le> length bs"
  shows "parse_array dec width n bs pos = Ok xs \<longleftrightarrow>
    length xs = n \<and> list_all wf xs \<and> concat (map enc xs) = sub bs pos (n * width)"
proof -
  have "and_then (slice bs p (p + width)) dec = Ok x \<longleftrightarrow> wf x \<and> enc x = sub bs p width"
    if "p + width \<le> pos + n * width" for p x
    using that assms dec_exact_iff [of "sub bs p width" x] by (simp add: slice_Ok length_sub)
  then show ?thesis
    unfolding parse_array_def using enc_length assms
    by (intro try_map_items_iff [where rd = "\<lambda>p. and_then (slice bs p (p + width)) dec" and ok = wf]) simp_all
qed

lemma parse_array_no_panic: "pos + n * width \<le> length bs \<Longrightarrow> no_panic (parse_array dec width n bs pos)"
proof -
  assume a: "pos + n * width \<le> length bs"
  have "pos + i * width + width \<le> length bs" if "i < n" for i
    using mult_le_mono1 [of "Suc i" n width] that a by simp
  then show ?thesis
    unfolding parse_array_def by (auto simp: slice_Ok dec_no_panic intro!: no_panic_intros)
qed

lemma chunks_exact_iff:
  assumes "length bs mod width = 0"
  shows "try_map dec (chunks_exact width bs) = Ok xs \<longleftrightarrow> list_all wf xs \<and> concat (map enc xs) = bs"
proof -
  define n where "n = length bs div width"
  have l: "n * width = length bs" unfolding n_def using assms by (simp add: mod_0_imp_dvd)
  have "slice bs (i * width) (i * width + width) = (Ok (sub bs (i * width) width) :: bytes res)" if "i < n" for i
    using mult_le_mono1 [of "Suc i" n width] that l by (simp add: slice_Ok)
  then have "parse_array dec width n bs 0 = try_map dec (chunks_exact width bs)"
    unfolding parse_array_def chunks_exact_def n_def [symmetric] try_map_map by (intro try_map_cong) simp_all
  moreover have "concat (map enc xs) = bs \<Longrightarrow> list_all wf xs \<Longrightarrow> length xs = n"
    using array_length [of xs] l width_pos by (auto simp: list_all_iff n_def)
  ultimately show ?thesis using parse_array_iff [of 0 n bs xs] l by (auto simp: sub_all)
qed

lemma chunks_exact_no_panic: "no_panic (try_map dec (chunks_exact width bs))"
  by (rule no_panic_try_map) (rule dec_no_panic)

end

end
