(* ===== verification/Page_Index.thy ===== *)
theory Page_Index
  imports Exact_Codec Constants
begin

text \<open>
  The column page index (\<^verbatim>\<open>page.rs\<close>): the 60-byte entries with their flag rules, the index
  that is an array of them, and the older counted index of \<^verbatim>\<open>PageEntry\<close>.
\<close>

section \<open>Flags\<close>

definition COLUMN_PAGE_INDEX_ENTRY_LEN :: nat where
  "COLUMN_PAGE_INDEX_ENTRY_LEN = 60"

definition PAGE_FLAG_CODEC_MASK :: u32 where
  "PAGE_FLAG_CODEC_MASK = 0x000000FF"

definition PAGE_FLAG_STATS_ONLY_CONSTANT :: u32 where
  "PAGE_FLAG_STATS_ONLY_CONSTANT = 0x00000100"

definition PAGE_FLAG_ALL_NULL :: u32 where
  "PAGE_FLAG_ALL_NULL = 0x00000200"

definition PAGE_FLAG_ALL_NON_NULL :: u32 where
  "PAGE_FLAG_ALL_NON_NULL = 0x00000400"

definition PAGE_FLAG_VALUE_STREAM_ELIDED :: u32 where
  "PAGE_FLAG_VALUE_STREAM_ELIDED = 0x00000800"

definition PAGE_FLAG_KNOWN_MASK :: u32 where
  "PAGE_FLAG_KNOWN_MASK = PAGE_FLAG_CODEC_MASK OR PAGE_FLAG_STATS_ONLY_CONSTANT OR PAGE_FLAG_ALL_NULL
     OR PAGE_FLAG_ALL_NON_NULL OR PAGE_FLAG_VALUE_STREAM_ELIDED"

definition PAGE_FLAG_RESERVED_MASK :: u32 where
  "PAGE_FLAG_RESERVED_MASK = NOT PAGE_FLAG_KNOWN_MASK"

lemmas page_flag_defs = PAGE_FLAG_CODEC_MASK_def PAGE_FLAG_STATS_ONLY_CONSTANT_def PAGE_FLAG_ALL_NULL_def
  PAGE_FLAG_ALL_NON_NULL_def PAGE_FLAG_VALUE_STREAM_ELIDED_def PAGE_FLAG_KNOWN_MASK_def PAGE_FLAG_RESERVED_MASK_def

definition empty_page_checksum :: "(bytes \<Rightarrow> u32) \<Rightarrow> u32" where
  "empty_page_checksum crc = crc []"

text \<open>\<open>hex8\<close> is the format \<^verbatim>\<open>{flags:08x}\<close>.\<close>

definition hex8 :: "u32 \<Rightarrow> string" where
  "hex8 w = map (\<lambda>i. hex_digit (unat (drop_bit (4 * (7 - i)) w AND 15))) [0..<8]"

definition page_flag_codec :: "u32 \<Rightarrow> compression_codec res" where
  "page_flag_codec flags =
     (if flags AND PAGE_FLAG_RESERVED_MASK \<noteq> 0
      then Fail (BadSection (''page flags reserved bits must be zero (flags=0x'' @ hex8 flags @ '')''))
      else
        let raw = ucast (flags AND PAGE_FLAG_CODEC_MASK) :: u8 in
        ok_or (BadSection (''unknown page compression codec '' @ decimal (unat raw))) (compression_codec_from raw))"

definition page_uses_payload_elision :: "u32 \<Rightarrow> bool" where
  "page_uses_payload_elision flags \<longleftrightarrow>
     flags AND (PAGE_FLAG_STATS_ONLY_CONSTANT OR PAGE_FLAG_VALUE_STREAM_ELIDED) \<noteq> 0"

section \<open>Column page index\<close>

record column_page =
  cp_column_id :: u32
  cp_morsel_id :: u32
  cp_row_count :: u32
  cp_non_null_count :: u32
  cp_null_count :: u32
  cp_encoding_root :: u32
  cp_page_offset :: u64
  cp_page_length :: u64
  cp_uncompressed_length :: u64
  cp_stats_ref :: u32
  cp_flags :: u32
  cp_checksum :: u32

definition column_page_serialize :: "column_page \<Rightarrow> bytes" where
  "column_page_serialize e =
     (let out = replicate COLUMN_PAGE_INDEX_ENTRY_LEN 0;
          out = copy_at out 0 (le_bytes 4 (cp_column_id e));
          out = copy_at out 4 (le_bytes 4 (cp_morsel_id e));
          out = copy_at out 8 (le_bytes 4 (cp_row_count e));
          out = copy_at out 12 (le_bytes 4 (cp_non_null_count e));
          out = copy_at out 16 (le_bytes 4 (cp_null_count e));
          out = copy_at out 20 (le_bytes 4 (cp_encoding_root e));
          out = copy_at out 24 (le_bytes 8 (cp_page_offset e));
          out = copy_at out 32 (le_bytes 8 (cp_page_length e));
          out = copy_at out 40 (le_bytes 8 (cp_uncompressed_length e));
          out = copy_at out 48 (le_bytes 4 (cp_stats_ref e));
          out = copy_at out 52 (le_bytes 4 (cp_flags e))
      in copy_at out 56 (le_bytes 4 (cp_checksum e)))"

definition column_page_parse :: "(bytes \<Rightarrow> u32) \<Rightarrow> bytes \<Rightarrow> column_page res" where
  "column_page_parse crc bs =
     (if length bs < COLUMN_PAGE_INDEX_ENTRY_LEN then Fail BufferTooShort
      else
        and_then (slice bs 0 COLUMN_PAGE_INDEX_ENTRY_LEN) (\<lambda>bs.
        and_then (read_u32_le_checked bs 56) (\<lambda>checksum.
        and_then (read_u32_le_checked bs 8) (\<lambda>row_count.
        and_then (read_u32_le_checked bs 12) (\<lambda>non_null_count.
        and_then (read_u32_le_checked bs 16) (\<lambda>null_count.
        and_then (ok_or ArithOverflow (checked_add_word non_null_count null_count)) (\<lambda>rows.
        if rows \<noteq> row_count then Fail PageCorrupt
        else
        and_then (read_u64_le_checked bs 32) (\<lambda>page_length.
        and_then (read_u64_le_checked bs 40) (\<lambda>uncompressed_length.
        and_then (read_u32_le_checked bs 52) (\<lambda>flags.
        and_then (page_flag_codec flags) (\<lambda>codec.
        let stats_only_constant = (flags AND PAGE_FLAG_STATS_ONLY_CONSTANT \<noteq> 0);
            all_null = (flags AND PAGE_FLAG_ALL_NULL \<noteq> 0);
            all_non_null = (flags AND PAGE_FLAG_ALL_NON_NULL \<noteq> 0) in
        if all_null \<and> all_non_null
        then Fail (BadSection ''PAGE_FLAG_ALL_NULL and PAGE_FLAG_ALL_NON_NULL are mutually exclusive'')
        else if all_null \<and> (null_count \<noteq> row_count \<or> non_null_count \<noteq> 0) then Fail PageCorrupt
        else if all_non_null \<and> (null_count \<noteq> 0 \<or> non_null_count \<noteq> row_count) then Fail PageCorrupt
        else
        and_then
          (if stats_only_constant
           then
             if \<not> all_null \<and> \<not> all_non_null
             then Fail (BadSection ''PAGE_FLAG_STATS_ONLY_CONSTANT requires PAGE_FLAG_ALL_NULL or PAGE_FLAG_ALL_NON_NULL'')
             else if codec \<noteq> CC_None
             then Fail (BadSection ''stats-only constant pages must use page codec=None'')
             else if page_length \<noteq> 0 \<or> uncompressed_length \<noteq> 0
             then Fail (BadSection ''stats-only constant pages must have page_length=0 and uncompressed_length=0'')
             else
             and_then (read_u64_le_checked bs 24) (\<lambda>page_offset.
             if page_offset \<noteq> 0
             then Fail (BadSection ''stats-only constant pages must set page_offset=0'')
             else
             and_then (read_u32_le_checked bs 20) (\<lambda>encoding_root.
             if encoding_root \<noteq> 0xFFFFFFFF
             then Fail (BadSection ''stats-only constant pages must set encoding_root=u32::MAX'')
             else if checksum \<noteq> empty_page_checksum crc
             then Fail (BadSection ''stats-only constant pages must use the empty-page checksum'')
             else Ok ()))
           else if page_length = 0
           then Fail (BadSection ''page_length=0 requires PAGE_FLAG_STATS_ONLY_CONSTANT'')
           else Ok ()) (\<lambda>_.
        if codec = CC_None \<and> page_length \<noteq> uncompressed_length
        then Fail (BadSection ''uncompressed_length must equal page_length when page codec=None'')
        else if page_length = 0 \<and> uncompressed_length \<noteq> 0
        then Fail (BadSection ''page_length=0 requires uncompressed_length=0'')
        else if page_length \<noteq> 0 \<and> codec \<noteq> CC_None \<and> uncompressed_length = 0
        then Fail (BadSection ''compressed page must declare non-zero uncompressed_length'')
        else
        and_then (read_u32_le_checked bs 0) (\<lambda>column_id.
        and_then (read_u32_le_checked bs 4) (\<lambda>morsel_id.
        and_then (read_u32_le_checked bs 20) (\<lambda>encoding_root.
        and_then (read_u64_le_checked bs 24) (\<lambda>page_offset.
        and_then (read_u32_le_checked bs 48) (\<lambda>stats_ref.
        Ok \<lparr>cp_column_id = column_id, cp_morsel_id = morsel_id, cp_row_count = row_count,
          cp_non_null_count = non_null_count, cp_null_count = null_count, cp_encoding_root = encoding_root,
          cp_page_offset = page_offset, cp_page_length = page_length,
          cp_uncompressed_length = uncompressed_length, cp_stats_ref = stats_ref, cp_flags = flags,
          cp_checksum = checksum\<rparr>)))))))))))))))))"

definition column_page_index_parse :: "(bytes \<Rightarrow> u32) \<Rightarrow> bytes \<Rightarrow> column_page list res" where
  "column_page_index_parse crc bs =
     (if bs = [] then Ok []
      else if length bs mod COLUMN_PAGE_INDEX_ENTRY_LEN \<noteq> 0 then Fail PageCorrupt
      else try_map (column_page_parse crc) (chunks_exact COLUMN_PAGE_INDEX_ENTRY_LEN bs))"

section \<open>What a page entry obeys\<close>

definition page_all_null :: "column_page \<Rightarrow> bool" where
  "page_all_null e \<longleftrightarrow> cp_flags e AND PAGE_FLAG_ALL_NULL \<noteq> 0"

definition page_all_non_null :: "column_page \<Rightarrow> bool" where
  "page_all_non_null e \<longleftrightarrow> cp_flags e AND PAGE_FLAG_ALL_NON_NULL \<noteq> 0"

definition page_stats_only :: "column_page \<Rightarrow> bool" where
  "page_stats_only e \<longleftrightarrow> cp_flags e AND PAGE_FLAG_STATS_ONLY_CONSTANT \<noteq> 0"

text \<open>
  The rules as a specification: the counts add up without wrapping; the two null flags say
  what the counts say; a page without payload is a stats-only constant, and only such a page
  is; an uncompressed payload has its stored length.
\<close>

definition page_rules :: "(bytes \<Rightarrow> u32) \<Rightarrow> column_page \<Rightarrow> bool" where
  "page_rules crc e \<longleftrightarrow>
     unat (cp_row_count e) = unat (cp_non_null_count e) + unat (cp_null_count e) \<and>
     (page_all_null e \<longrightarrow> cp_non_null_count e = 0 \<and> \<not> page_all_non_null e) \<and>
     (page_all_non_null e \<longrightarrow> cp_null_count e = 0) \<and>
     (\<exists>codec. page_flag_codec (cp_flags e) = Ok codec \<and>
       (codec = CC_None \<longrightarrow> cp_uncompressed_length e = cp_page_length e) \<and>
       (codec \<noteq> CC_None \<longrightarrow> cp_uncompressed_length e \<noteq> 0 \<and> \<not> page_stats_only e)) \<and>
     (page_stats_only e \<longleftrightarrow> cp_page_length e = 0) \<and>
     (page_stats_only e \<longrightarrow> (page_all_null e \<or> page_all_non_null e) \<and> cp_page_offset e = 0 \<and>
        cp_encoding_root e = 0xFFFFFFFF \<and> cp_checksum e = crc [])"

lemma column_page_serialize_eq:
  "column_page_serialize e = le_bytes 4 (cp_column_id e) @
     le_bytes 4 (cp_morsel_id e) @
     le_bytes 4 (cp_row_count e) @
     le_bytes 4 (cp_non_null_count e) @
     le_bytes 4 (cp_null_count e) @
     le_bytes 4 (cp_encoding_root e) @
     le_bytes 8 (cp_page_offset e) @
     le_bytes 8 (cp_page_length e) @
     le_bytes 8 (cp_uncompressed_length e) @
     le_bytes 4 (cp_stats_ref e) @
     le_bytes 4 (cp_flags e) @
     le_bytes 4 (cp_checksum e)"
  unfolding column_page_serialize_def COLUMN_PAGE_INDEX_ENTRY_LEN_def
  by (simp add: fill_simps del: append_assoc)

lemma length_column_page_serialize [simp]: "length (column_page_serialize e) = 60"
  by (simp add: column_page_serialize_eq)

definition column_page_of :: "bytes \<Rightarrow> column_page" where
  "column_page_of bs = \<lparr>cp_column_id = of_le (sub bs 0 4),
     cp_morsel_id = of_le (sub bs 4 4),
     cp_row_count = of_le (sub bs 8 4),
     cp_non_null_count = of_le (sub bs 12 4),
     cp_null_count = of_le (sub bs 16 4),
     cp_encoding_root = of_le (sub bs 20 4),
     cp_page_offset = of_le (sub bs 24 8),
     cp_page_length = of_le (sub bs 32 8),
     cp_uncompressed_length = of_le (sub bs 40 8),
     cp_stats_ref = of_le (sub bs 48 4),
     cp_flags = of_le (sub bs 52 4),
     cp_checksum = of_le (sub bs 56 4)\<rparr>"

lemma column_page_of_serialize [simp]: "column_page_of (column_page_serialize e @ rest) = e"
  by (simp add: column_page_of_def column_page_serialize_eq sub_def)

lemma column_page_serialize_of: "60 \<le> length bs \<Longrightarrow> column_page_serialize (column_page_of bs) = take 60 bs"
  by (simp add: column_page_of_def column_page_serialize_eq le_bytes_of_le length_sub sub_join sub_join_assoc)
    (simp add: sub_def)

text \<open>The checks of the parser on the fields it read are the rules.\<close>

lemma page_counts_zero:
  fixes a b r :: u32
  assumes "unat r = unat a + unat b"
  shows "b \<noteq> r \<or> a \<noteq> 0 \<longleftrightarrow> a \<noteq> 0" "b \<noteq> 0 \<or> a \<noteq> r \<longleftrightarrow> b \<noteq> 0"
  using assms by (auto simp: word_unat_eq_iff)

lemma column_page_parse_Ok_iff:
  assumes l: "60 \<le> length bs"
  shows "column_page_parse crc bs = Ok e \<longleftrightarrow> e = column_page_of bs \<and> page_rules crc e"
proof -
  let ?b = "sub bs 0 60"
  have l': "length ?b = 60" using l by (simp add: length_sub)
  have s: "slice bs 0 60 = (Ok ?b :: bytes res)" using l by (simp add: slice_Ok)
  have r: "read_u32_le_checked ?b 0 = Ok (of_le (sub bs 0 4))"
    "read_u32_le_checked ?b 4 = Ok (of_le (sub bs 4 4))"
    "read_u32_le_checked ?b 8 = Ok (of_le (sub bs 8 4))"
    "read_u32_le_checked ?b 12 = Ok (of_le (sub bs 12 4))"
    "read_u32_le_checked ?b 16 = Ok (of_le (sub bs 16 4))"
    "read_u32_le_checked ?b 20 = Ok (of_le (sub bs 20 4))"
    "read_u64_le_checked ?b 24 = Ok (of_le (sub bs 24 8))"
    "read_u64_le_checked ?b 32 = Ok (of_le (sub bs 32 8))"
    "read_u64_le_checked ?b 40 = Ok (of_le (sub bs 40 8))"
    "read_u32_le_checked ?b 48 = Ok (of_le (sub bs 48 4))"
    "read_u32_le_checked ?b 52 = Ok (of_le (sub bs 52 4))"
    "read_u32_le_checked ?b 56 = Ok (of_le (sub bs 56 4))"
    using l' by (simp_all add: wire_simps usize_limit_def sub_sub)
  have n: "\<not> length bs < 60" using l by simp
  have f: "of_le (sub bs 0 4) = cp_column_id (column_page_of bs)"
    "of_le (sub bs 4 4) = cp_morsel_id (column_page_of bs)"
    "of_le (sub bs 8 4) = cp_row_count (column_page_of bs)"
    "of_le (sub bs 12 4) = cp_non_null_count (column_page_of bs)"
    "of_le (sub bs 16 4) = cp_null_count (column_page_of bs)"
    "of_le (sub bs 20 4) = cp_encoding_root (column_page_of bs)"
    "of_le (sub bs 24 8) = cp_page_offset (column_page_of bs)"
    "of_le (sub bs 32 8) = cp_page_length (column_page_of bs)"
    "of_le (sub bs 40 8) = cp_uncompressed_length (column_page_of bs)"
    "of_le (sub bs 48 4) = cp_stats_ref (column_page_of bs)"
    "of_le (sub bs 52 4) = cp_flags (column_page_of bs)"
    "of_le (sub bs 56 4) = cp_checksum (column_page_of bs)"
    by (simp_all add: column_page_of_def)
  have p: "\<lparr>cp_column_id = cp_column_id (column_page_of bs), cp_morsel_id = cp_morsel_id (column_page_of bs), cp_row_count = cp_row_count (column_page_of bs), cp_non_null_count = cp_non_null_count (column_page_of bs), cp_null_count = cp_null_count (column_page_of bs), cp_encoding_root = cp_encoding_root (column_page_of bs), cp_page_offset = cp_page_offset (column_page_of bs), cp_page_length = cp_page_length (column_page_of bs), cp_uncompressed_length = cp_uncompressed_length (column_page_of bs), cp_stats_ref = cp_stats_ref (column_page_of bs), cp_flags = cp_flags (column_page_of bs), cp_checksum = cp_checksum (column_page_of bs)\<rparr> = column_page_of bs"
    by simp
  let ?p = "column_page_of bs"
  note u = column_page_parse_def COLUMN_PAGE_INDEX_ENTRY_LEN_def if_not_P [OF n] s and_then_simps r f p
    empty_page_checksum_def Let_def
  show ?thesis
  proof (cases "unat (cp_row_count ?p) = unat (cp_non_null_count ?p) + unat (cp_null_count ?p)")
    case counts: True
    then have add: "checked_add_word (cp_non_null_count ?p) (cp_null_count ?p) = Some (cp_row_count ?p)"
      using unat_u32_less [of "cp_row_count ?p"]
      by (auto simp: checked_add_word_eq_Some_iff word_unat_eq_iff unat_add_no_overflow)
    have same: "(cp_row_count ?p \<noteq> cp_row_count ?p) = False" by simp
    show ?thesis
    proof (cases "page_flag_codec (cp_flags ?p)")
      case (Inl x)
      have "column_page_parse crc bs = Inl x"
        unfolding u add ok_or_simps same if_False Inl by (rule refl)
      then show ?thesis using Inl by (auto simp: page_rules_def)
    next
      case (Inr codec)
      have "column_page_parse crc bs = Ok e \<longleftrightarrow>
          \<not> (page_all_null ?p \<and> page_all_non_null ?p) \<and> \<not> (page_all_null ?p \<and> cp_non_null_count ?p \<noteq> 0) \<and>
          \<not> (page_all_non_null ?p \<and> cp_null_count ?p \<noteq> 0) \<and>
          (if page_stats_only ?p
           then (page_all_null ?p \<or> page_all_non_null ?p) \<and> codec = CC_None \<and> cp_page_length ?p = 0 \<and>
             cp_uncompressed_length ?p = 0 \<and> cp_page_offset ?p = 0 \<and> cp_encoding_root ?p = 0xFFFFFFFF \<and>
             cp_checksum ?p = crc []
           else cp_page_length ?p \<noteq> 0) \<and>
          \<not> (codec = CC_None \<and> cp_page_length ?p \<noteq> cp_uncompressed_length ?p) \<and>
          \<not> (cp_page_length ?p = 0 \<and> cp_uncompressed_length ?p \<noteq> 0) \<and>
          \<not> (cp_page_length ?p \<noteq> 0 \<and> codec \<noteq> CC_None \<and> cp_uncompressed_length ?p = 0) \<and> ?p = e"
        unfolding u add ok_or_simps same if_False Inr page_counts_zero [OF counts]
        unfolding page_all_null_def [symmetric] page_all_non_null_def [symmetric] page_stats_only_def [symmetric]
        by (cases "page_stats_only ?p") (simp_all add: ok_iffs)
      then show ?thesis
        using counts Inr by (cases "page_stats_only ?p"; cases codec) (auto simp: page_rules_def)
    qed
  next
    case False
    have "column_page_parse crc bs \<noteq> Ok e"
    proof (cases "checked_add_word (cp_non_null_count ?p) (cp_null_count ?p)")
      case None
      show ?thesis unfolding u None ok_or_simps by simp
    next
      case (Some c)
      then have "unat c = unat (cp_non_null_count ?p) + unat (cp_null_count ?p)"
        by (auto simp: checked_add_word_eq_Some_iff unat_add_no_overflow)
      then have c: "c \<noteq> cp_row_count ?p" using False by metis
      show ?thesis unfolding u Some ok_or_simps if_P [OF c] by simp
    qed
    then show ?thesis using False by (auto simp: page_rules_def)
  qed
qed

lemma no_panic_page_flag_codec [no_panic_intros, simp]: "no_panic (page_flag_codec f)"
  by (auto simp: page_flag_codec_def Let_def intro!: no_panic_intros)

lemma no_panic_column_page_parse [no_panic_intros, simp]: "no_panic (column_page_parse crc bs)"
  by (auto simp: column_page_parse_def Let_def slice_Ok intro!: no_panic_intros)

lemma column_page_parse_short: "length bs < 60 \<Longrightarrow> column_page_parse crc bs = Fail BufferTooShort"
  by (simp add: column_page_parse_def COLUMN_PAGE_INDEX_ENTRY_LEN_def)

interpretation column_page: exact_fixed column_page_serialize "column_page_parse crc" 60 "page_rules crc"
proof
  fix e :: column_page and rest bs :: bytes
  show "length (column_page_serialize e) = 60" by simp
  show "column_page_parse crc (column_page_serialize e @ rest) = Ok e" if "page_rules crc e"
    using that by (auto simp: column_page_parse_Ok_iff)
  assume p: "column_page_parse crc bs = Ok e"
  then have l: "60 \<le> length bs" using column_page_parse_short by (cases "length bs < 60") auto
  then show "page_rules crc e \<and> 60 \<le> length bs \<and> column_page_serialize e = take 60 bs"
    using p by (auto simp: column_page_parse_Ok_iff column_page_serialize_of)
qed simp_all

lemma no_panic_column_page_index_parse [no_panic_intros, simp]: "no_panic (column_page_index_parse crc bs)"
  using column_page.chunks_exact_no_panic [of crc bs]
  by (simp add: column_page_index_parse_def COLUMN_PAGE_INDEX_ENTRY_LEN_def)

lemma column_page_serialize_nonempty [simp]: "column_page_serialize e \<noteq> []"
  using length_column_page_serialize [of e] by (auto simp del: length_column_page_serialize)

lemma column_page_index_parse_iff:
  "column_page_index_parse crc bs = Ok es \<longleftrightarrow> bs = concat (map column_page_serialize es) \<and> list_all (page_rules crc) es"
proof (cases "length bs mod 60 = 0")
  case True
  then show ?thesis
    using column_page.chunks_exact_iff [OF True, of crc es]
    by (cases es) (auto simp: column_page_index_parse_def COLUMN_PAGE_INDEX_ENTRY_LEN_def column_page_serialize_nonempty)
next
  case False
  have "length (concat (map column_page_serialize es)) mod 60 = 0"
    using length_concat_fixed [of es column_page_serialize 60] by simp
  then show ?thesis using False
    by (auto simp: column_page_index_parse_def COLUMN_PAGE_INDEX_ENTRY_LEN_def)
qed

section \<open>The counted page index\<close>

record page_entry =
  pe_page_id :: u32
  pe_morsel_id :: u32
  pe_row_count :: u32
  pe_null_count :: u32
  pe_offset :: u64
  pe_length :: u64
  pe_encoding :: encoding_kind
  pe_crc32c :: u32

definition page_entry_verify_crc :: "(bytes \<Rightarrow> u32) \<Rightarrow> page_entry \<Rightarrow> bytes \<Rightarrow> unit res" where
  "page_entry_verify_crc crc e payload =
     and_then (ok_or ArithOverflow (checked_add_word (pe_offset e) (pe_length e))) (\<lambda>end'.
     if length payload < unat end' then Fail OffsetRange
     else
       and_then (slice payload (unat (pe_offset e)) (unat end')) (\<lambda>page.
       if crc page \<noteq> pe_crc32c e then Fail PageCorrupt else Ok ()))"

text \<open>The subtraction overflows, and panics with overflow checks, when there are more nulls than rows.\<close>

definition page_entry_non_null_count :: "page_entry \<Rightarrow> u32 res" where
  "page_entry_non_null_count e =
     (if pe_row_count e < pe_null_count e then Panicked else Ok (pe_row_count e - pe_null_count e))"

text \<open>One round of the loop of \<^verbatim>\<open>PageIndex::parse\<close> at position \<open>pos\<close>.\<close>

definition page_entry_read :: "bytes \<Rightarrow> nat \<Rightarrow> page_entry res" where
  "page_entry_read bs pos =
     and_then (read_u32_le_checked bs pos) (\<lambda>page_id. let pos = pos + 4 in
     and_then (read_u32_le_checked bs pos) (\<lambda>morsel_id. let pos = pos + 4 in
     and_then (read_u32_le_checked bs pos) (\<lambda>row_count. let pos = pos + 4 in
     and_then (read_u32_le_checked bs pos) (\<lambda>null_count. let pos = pos + 4 in
     and_then (read_u64_le_checked bs pos) (\<lambda>offset. let pos = pos + 8 in
     and_then (read_u64_le_checked bs pos) (\<lambda>len. let pos = pos + 8 in
     and_then (read_u16_le_checked bs pos) (\<lambda>enc_raw. let pos = pos + 2 in
     and_then (read_u32_le_checked bs pos) (\<lambda>crc.
     if row_count < null_count then Fail PageCorrupt
     else
       and_then (ok_or (BadSection (''unknown encoding '' @ decimal (unat enc_raw))) (encoding_kind_from enc_raw)) (\<lambda>encoding.
       Ok \<lparr>pe_page_id = page_id, pe_morsel_id = morsel_id, pe_row_count = row_count, pe_null_count = null_count,
         pe_offset = offset, pe_length = len, pe_encoding = encoding, pe_crc32c = crc\<rparr>)))))))))"

definition page_index_parse :: "bytes \<Rightarrow> page_entry list res" where
  "page_index_parse bs =
     (if length bs < 4 then Fail BufferTooShort
      else
        and_then (read_u32_le_checked bs 0) (\<lambda>count.
        let entry_size = 4 + 4 + 4 + 4 + 8 + 8 + 2 + 4 in
        and_then (ok_or ArithOverflow (checked_mul (unat count) entry_size)) (\<lambda>entries_bytes.
        and_then (ok_or ArithOverflow (checked_add 4 entries_bytes)) (\<lambda>required_len.
        if length bs < required_len then Fail BufferTooShort
        else if required_len \<noteq> length bs then Fail PageCorrupt
        else try_map (\<lambda>i. page_entry_read bs (4 + i * entry_size)) [0..<unat count]))))"

text \<open>The layout the comment of \<^verbatim>\<open>PageIndex::parse\<close> gives.\<close>

definition page_entry_bytes :: "page_entry \<Rightarrow> bytes" where
  "page_entry_bytes e = le_bytes 4 (pe_page_id e) @ le_bytes 4 (pe_morsel_id e) @ le_bytes 4 (pe_row_count e) @
     le_bytes 4 (pe_null_count e) @ le_bytes 8 (pe_offset e) @ le_bytes 8 (pe_length e) @
     le_bytes 2 (as_encoding_kind (pe_encoding e)) @ le_bytes 4 (pe_crc32c e)"

definition page_index_bytes :: "page_entry list \<Rightarrow> bytes" where
  "page_index_bytes es = le_bytes 4 (of_nat (length es) :: u32) @ concat (map page_entry_bytes es)"

lemma length_page_entry_bytes [simp]: "length (page_entry_bytes e) = 38"
  by (simp add: page_entry_bytes_def)

lemma page_entry_read_iff:
  assumes "pos + 38 \<le> length bs" "pos + 38 < usize_limit"
  shows "page_entry_read bs pos = Ok e \<longleftrightarrow> page_entry_bytes e = sub bs pos 38 \<and> pe_null_count e \<le> pe_row_count e"
proof -
  let ?b = "sub bs pos 38"
  have r: "read_u32_le_checked bs pos = Ok (of_le (sub bs pos 4))" "read_u32_le_checked bs (pos + 4) = Ok (of_le (sub bs (pos + 4) 4))"
    "read_u32_le_checked bs (8 + pos) = Ok (of_le (sub bs (pos + 8) 4))" "read_u32_le_checked bs (12 + pos) = Ok (of_le (sub bs (pos + 12) 4))"
    "read_u64_le_checked bs (16 + pos) = Ok (of_le (sub bs (pos + 16) 8))" "read_u64_le_checked bs (24 + pos) = Ok (of_le (sub bs (pos + 24) 8))"
    "read_u16_le_checked bs (32 + pos) = Ok (of_le (sub bs (pos + 32) 2))" "read_u32_le_checked bs (34 + pos) = Ok (of_le (sub bs (pos + 34) 4))"
    using assms by (simp_all add: read_words_Ok add.commute)
  have "page_entry_read bs pos = Ok e \<longleftrightarrow>
      pe_page_id e = of_le (sub bs pos 4) \<and> pe_morsel_id e = of_le (sub bs (pos + 4) 4) \<and>
      pe_row_count e = of_le (sub bs (pos + 8) 4) \<and> pe_null_count e = of_le (sub bs (pos + 12) 4) \<and>
      pe_offset e = of_le (sub bs (pos + 16) 8) \<and> pe_length e = of_le (sub bs (pos + 24) 8) \<and>
      as_encoding_kind (pe_encoding e) = of_le (sub bs (pos + 32) 2) \<and> pe_crc32c e = of_le (sub bs (pos + 34) 4) \<and>
      pe_null_count e \<le> pe_row_count e"
    by (cases e) (auto simp: page_entry_read_def Let_def r ok_iffs encoding_kind_from_iff not_less)
  also have "\<dots> \<longleftrightarrow> page_entry_bytes e = sub bs pos 38 \<and> pe_null_count e \<le> pe_row_count e"
  proof -
    have "page_entry_bytes e = sub bs pos 38" if
      "pe_page_id e = of_le (sub bs pos 4)" "pe_morsel_id e = of_le (sub bs (pos + 4) 4)"
      "pe_row_count e = of_le (sub bs (pos + 8) 4)" "pe_null_count e = of_le (sub bs (pos + 12) 4)"
      "pe_offset e = of_le (sub bs (pos + 16) 8)" "pe_length e = of_le (sub bs (pos + 24) 8)"
      "as_encoding_kind (pe_encoding e) = of_le (sub bs (pos + 32) 2)" "pe_crc32c e = of_le (sub bs (pos + 34) 4)"
      using assms by (simp add: page_entry_bytes_def that le_bytes_of_le length_sub sub_join sub_join_assoc)
    moreover have
      "pe_page_id e = of_le (sub bs pos 4) \<and> pe_morsel_id e = of_le (sub bs (pos + 4) 4) \<and>
      pe_row_count e = of_le (sub bs (pos + 8) 4) \<and> pe_null_count e = of_le (sub bs (pos + 12) 4) \<and>
      pe_offset e = of_le (sub bs (pos + 16) 8) \<and> pe_length e = of_le (sub bs (pos + 24) 8) \<and>
      as_encoding_kind (pe_encoding e) = of_le (sub bs (pos + 32) 2) \<and> pe_crc32c e = of_le (sub bs (pos + 34) 4)"
      if s: "page_entry_bytes e = sub bs pos 38"
    proof -
      have "sub bs (pos + o') n = sub (page_entry_bytes e) o' n" if "o' + n \<le> 38" for o' n
        using that by (simp add: s sub_sub)
      from this [of 0 4] this [of 4 4] this [of 8 4] this [of 12 4] this [of 16 8] this [of 24 8] this [of 32 2] this [of 34 4]
      show ?thesis by (simp add: page_entry_bytes_def sub_def)
    qed
    ultimately show ?thesis by blast
  qed
  finally show ?thesis .
qed

lemma no_panic_page_entry_read [no_panic_intros, simp]: "no_panic (page_entry_read bs pos)"
  by (auto simp: page_entry_read_def Let_def intro!: no_panic_intros)

lemma no_panic_page_index_parse [no_panic_intros, simp]: "no_panic (page_index_parse bs)"
  by (auto simp: page_index_parse_def Let_def intro!: no_panic_intros)

lemma page_index_parse_iff:
  assumes "length bs < usize_limit"
  shows "page_index_parse bs = Ok es \<longleftrightarrow>
    length es < 2 ^ 32 \<and> bs = page_index_bytes es \<and> list_all (\<lambda>e. pe_null_count e \<le> pe_row_count e) es"
proof (cases "length bs < 4")
  case True
  then show ?thesis by (auto simp: page_index_parse_def page_index_bytes_def)
next
  case False
  then have r: "read_u32_le_checked bs 0 = Ok (of_le (sub bs 0 4))" using assms by (simp add: read_words_Ok)
  define w where "w = (of_le (sub bs 0 4) :: u32)"
  have wb: "le_bytes 4 w = sub bs 0 4" using False by (simp add: w_def le_bytes_of_le length_sub)
  have n: "unat w < 4294967296" by (rule unat_u32_less)
  have c: "checked_mul (unat w) (4 + 4 + 4 + 4 + 8 + 8 + 2 + 4) = Some (unat w * 38)"
    "checked_add 4 (unat w * 38) = Some (4 + unat w * 38)"
    using n by (simp_all add: checked_mul_def checked_add_def usize_limit_def)
  have e: "page_index_parse bs = (if length bs < 4 + unat w * 38 then Fail BufferTooShort
      else if 4 + unat w * 38 \<noteq> length bs then Fail PageCorrupt
      else try_map (\<lambda>i. page_entry_read bs (4 + i * 38)) [0..<unat w])"
    unfolding page_index_parse_def if_not_P [OF False] r w_def [symmetric] and_then_simps Let_def c ok_or_simps by simp
  have l: "length (concat (map page_entry_bytes es)) = 38 * length es" by (rule length_concat_fixed) simp
  show ?thesis
  proof (cases "length bs = 4 + unat w * 38")
    case True
    have "try_map (\<lambda>i. page_entry_read bs (4 + i * 38)) [0..<unat w] = Inr es \<longleftrightarrow>
        length es = unat w \<and> list_all (\<lambda>e. pe_null_count e \<le> pe_row_count e) es \<and>
        concat (map page_entry_bytes es) = sub bs 4 (unat w * 38)"
      using True assms by (intro try_map_items_iff) (auto simp: page_entry_read_iff)
    then have p: "page_index_parse bs = Inr es \<longleftrightarrow>
        length es = unat w \<and> list_all (\<lambda>e. pe_null_count e \<le> pe_row_count e) es \<and>
        concat (map page_entry_bytes es) = sub bs 4 (unat w * 38)"
      unfolding e using True by simp
    have "page_index_bytes es = sub bs 0 4 @ sub bs 4 (unat w * 38)"
      if "length es = unat w" "concat (map page_entry_bytes es) = sub bs 4 (unat w * 38)"
      by (simp add: page_index_bytes_def that wb)
    also have "sub bs 0 4 @ sub bs 4 (unat w * 38) = bs" using True by (simp add: sub_join sub_all)
    finally have q: "bs = page_index_bytes es"
      if "length es = unat w" "concat (map page_entry_bytes es) = sub bs 4 (unat w * 38)" using that by simp
    have r: "length es = unat w" "concat (map page_entry_bytes es) = sub bs 4 (unat w * 38)"
      if b: "bs = page_index_bytes es"
    proof -
      show k: "length es = unat w" using l True by (simp add: b page_index_bytes_def)
      show "concat (map page_entry_bytes es) = sub bs 4 (unat w * 38)"
        using l by (simp add: b page_index_bytes_def sub_def k [symmetric])
    qed
    have "length es < 2 ^ 32" if "length es = unat w" using that n by simp
    then show ?thesis unfolding p using q r by blast
  next
    case False
    have "bs \<noteq> page_index_bytes es" if "length es < 2 ^ 32"
    proof
      assume b: "bs = page_index_bytes es"
      then have "w = of_nat (length es)" by (simp add: w_def page_index_bytes_def sub_def)
      then have "unat w = length es" using that unat_of_nat_less [of "length es", where ?'a = 32] by simp
      then show False using False b l by (simp add: page_index_bytes_def)
    qed
    then show ?thesis using False by (auto simp: e)
  qed
qed

section \<open>Properties\<close>

text \<open>
  C34: The column page index accepts exactly the arrays of 60-byte entries that obey the
  page rules (counts that add up, null flags that agree with them, no payload for exactly
  the stats-only constants, lengths that agree with the codec), and reads back those entries.
\<close>

theorem column_page_index_exact:
  "column_page_index_parse crc bs = Ok es \<longleftrightarrow>
     bs = concat (map column_page_serialize es) \<and> list_all (page_rules crc) es"
  by (rule column_page_index_parse_iff)

end
