(* ===== verification/Page_Payload.thy ===== *)
theory Page_Payload
  imports Page_Index Types
begin

text \<open>
  Column page payloads (\<^verbatim>\<open>page_payload.rs\<close>): header, encoding nodes, buffer descriptors, the
  parser of the container, the tree its preorder node list stands for, and the writers.
\<close>

section \<open>Kinds of buffers\<close>

definition COLUMN_PAGE_PAYLOAD_MAGIC :: bytes where
  "COLUMN_PAGE_PAYLOAD_MAGIC = [67, 80, 71, 50]"

definition COLUMN_PAGE_PAYLOAD_VERSION_MAJOR :: u16 where
  "COLUMN_PAGE_PAYLOAD_VERSION_MAJOR = 2"

lemma length_payload_magic [simp]: "length COLUMN_PAGE_PAYLOAD_MAGIC = 4"
  by (simp add: COLUMN_PAGE_PAYLOAD_MAGIC_def)

datatype buffer_checksum_validation = BCV_Verify | BCV_Trusted

datatype page_buffer_kind = PB_NullBitmap | PB_Values | PB_Offsets | PB_ChildLayout | PB_Other

primrec as_page_buffer_kind :: "page_buffer_kind \<Rightarrow> u16" where
  "as_page_buffer_kind PB_NullBitmap = 0"
| "as_page_buffer_kind PB_Values = 1"
| "as_page_buffer_kind PB_Offsets = 2"
| "as_page_buffer_kind PB_ChildLayout = 3"
| "as_page_buffer_kind PB_Other = 255"

definition page_buffer_kind_from :: "u16 \<Rightarrow> page_buffer_kind option" where
  "page_buffer_kind_from v =
     (if v = 0 then Some PB_NullBitmap
      else if v = 1 then Some PB_Values
      else if v = 2 then Some PB_Offsets
      else if v = 3 then Some PB_ChildLayout
      else if v = 255 then Some PB_Other
      else None)"

lemma page_buffer_kind_from_iff: "page_buffer_kind_from v = Some k \<longleftrightarrow> v = as_page_buffer_kind k"
  by (cases k) (auto simp: page_buffer_kind_from_def)

section \<open>Header\<close>

definition COLUMN_PAGE_PAYLOAD_HEADER_LEN :: nat where
  "COLUMN_PAGE_PAYLOAD_HEADER_LEN = 36"

record payload_header =
  ph_magic :: bytes
  ph_version_major :: u16
  ph_header_len :: u16
  ph_flags :: u16
  ph_root_node_id :: u16
  ph_node_count :: u16
  ph_buffer_count :: u16
  ph_row_count :: u32
  ph_nodes_offset :: u32
  ph_buffer_directory_offset :: u32
  ph_buffers_offset :: u32
  ph_reserved :: u32

definition payload_header_serialize :: "payload_header \<Rightarrow> bytes" where
  "payload_header_serialize e =
     (let out = replicate COLUMN_PAGE_PAYLOAD_HEADER_LEN 0;
          out = copy_at out 0 (ph_magic e);
          out = copy_at out 4 (le_bytes 2 (ph_version_major e));
          out = copy_at out 6 (le_bytes 2 (ph_header_len e));
          out = copy_at out 8 (le_bytes 2 (ph_flags e));
          out = copy_at out 10 (le_bytes 2 (ph_root_node_id e));
          out = copy_at out 12 (le_bytes 2 (ph_node_count e));
          out = copy_at out 14 (le_bytes 2 (ph_buffer_count e));
          out = copy_at out 16 (le_bytes 4 (ph_row_count e));
          out = copy_at out 20 (le_bytes 4 (ph_nodes_offset e));
          out = copy_at out 24 (le_bytes 4 (ph_buffer_directory_offset e));
          out = copy_at out 28 (le_bytes 4 (ph_buffers_offset e))
      in copy_at out 32 (le_bytes 4 (ph_reserved e)))"

definition payload_header_parse :: "bytes \<Rightarrow> payload_header res" where
  "payload_header_parse bs =
     (if length bs < COLUMN_PAGE_PAYLOAD_HEADER_LEN then Fail BufferTooShort
      else
        and_then (slice bs 0 COLUMN_PAGE_PAYLOAD_HEADER_LEN) (\<lambda>bs.
        and_then (read_array_checked 4 bs 0) (\<lambda>magic'.
        if magic' \<noteq> COLUMN_PAGE_PAYLOAD_MAGIC then Fail BadMagic
        else
        and_then (read_u16_le_checked bs 4) (\<lambda>version_major'.
        if version_major' \<noteq> COLUMN_PAGE_PAYLOAD_VERSION_MAJOR then Fail BadVersion
        else
        and_then (read_u16_le_checked bs 6) (\<lambda>header_len'.
        if unat header_len' \<noteq> 36 then Fail (BadSection (''column page payload header_len must be '' @ decimal 36 @ '', got '' @ decimal (unat header_len')))
        else
        and_then (read_u16_le_checked bs 8) (\<lambda>flags'.
        if flags' \<noteq> 0 then Fail (BadSection ''column page payload flags are reserved and must be zero'')
        else
        and_then (read_u32_le_checked bs 32) (\<lambda>reserved'.
        if reserved' \<noteq> 0 then Fail ReservedNotZero
        else
        and_then (read_u16_le_checked bs 10) (\<lambda>root_node_id'.
        and_then (read_u16_le_checked bs 12) (\<lambda>node_count'.
        and_then (read_u16_le_checked bs 14) (\<lambda>buffer_count'.
        and_then (read_u32_le_checked bs 16) (\<lambda>row_count'.
        and_then (read_u32_le_checked bs 20) (\<lambda>nodes_offset'.
        and_then (read_u32_le_checked bs 24) (\<lambda>buffer_directory_offset'.
        and_then (read_u32_le_checked bs 28) (\<lambda>buffers_offset'.
        Ok \<lparr>ph_magic = magic',
          ph_version_major = version_major',
          ph_header_len = header_len',
          ph_flags = flags',
          ph_root_node_id = root_node_id',
          ph_node_count = node_count',
          ph_buffer_count = buffer_count',
          ph_row_count = row_count',
          ph_nodes_offset = nodes_offset',
          ph_buffer_directory_offset = buffer_directory_offset',
          ph_buffers_offset = buffers_offset',
          ph_reserved = reserved'\<rparr>))))))))))))))"

definition payload_header_wf :: "payload_header \<Rightarrow> bool" where
  "payload_header_wf e \<longleftrightarrow> ph_magic e = COLUMN_PAGE_PAYLOAD_MAGIC \<and>
     ph_version_major e = COLUMN_PAGE_PAYLOAD_VERSION_MAJOR \<and>
     unat (ph_header_len e) = 36 \<and>
     ph_flags e = 0 \<and>
     ph_reserved e = 0 \<and>
     length (ph_magic e) = 4"

lemma payload_header_serialize_eq:
  "length (ph_magic e) = 4 \<Longrightarrow> payload_header_serialize e = ph_magic e @
     le_bytes 2 (ph_version_major e) @
     le_bytes 2 (ph_header_len e) @
     le_bytes 2 (ph_flags e) @
     le_bytes 2 (ph_root_node_id e) @
     le_bytes 2 (ph_node_count e) @
     le_bytes 2 (ph_buffer_count e) @
     le_bytes 4 (ph_row_count e) @
     le_bytes 4 (ph_nodes_offset e) @
     le_bytes 4 (ph_buffer_directory_offset e) @
     le_bytes 4 (ph_buffers_offset e) @
     le_bytes 4 (ph_reserved e)"
  unfolding payload_header_serialize_def COLUMN_PAGE_PAYLOAD_HEADER_LEN_def
  by (simp add: fill_simps del: append_assoc)

lemma payload_header_parse_reads:
  assumes "36 \<le> length bs"
  shows "payload_header_parse bs = (
        if (sub bs 0 4 :: bytes) \<noteq> COLUMN_PAGE_PAYLOAD_MAGIC then Fail BadMagic
        else
        if (of_le (sub bs 4 2) :: u16) \<noteq> COLUMN_PAGE_PAYLOAD_VERSION_MAJOR then Fail BadVersion
        else
        if unat (of_le (sub bs 6 2) :: u16) \<noteq> 36 then Fail (BadSection (''column page payload header_len must be '' @ decimal 36 @ '', got '' @ decimal (unat (of_le (sub bs 6 2) :: u16))))
        else
        if (of_le (sub bs 8 2) :: u16) \<noteq> 0 then Fail (BadSection ''column page payload flags are reserved and must be zero'')
        else
        if (of_le (sub bs 32 4) :: u32) \<noteq> 0 then Fail ReservedNotZero
        else
        Ok \<lparr>ph_magic = sub bs 0 4,
          ph_version_major = of_le (sub bs 4 2),
          ph_header_len = of_le (sub bs 6 2),
          ph_flags = of_le (sub bs 8 2),
          ph_root_node_id = of_le (sub bs 10 2),
          ph_node_count = of_le (sub bs 12 2),
          ph_buffer_count = of_le (sub bs 14 2),
          ph_row_count = of_le (sub bs 16 4),
          ph_nodes_offset = of_le (sub bs 20 4),
          ph_buffer_directory_offset = of_le (sub bs 24 4),
          ph_buffers_offset = of_le (sub bs 28 4),
          ph_reserved = of_le (sub bs 32 4)\<rparr>)"
proof -
  let ?b = "sub bs 0 36"
  have l: "length ?b = 36" using assms by (simp add: length_sub)
  have s: "slice bs 0 36 = (Ok ?b :: bytes res)" using assms by (simp add: slice_Ok)
  have r: "read_array_checked 4 ?b 0 = (Ok (sub bs 0 4) :: bytes res)"
    "read_u16_le_checked ?b 4 = (Ok (of_le (sub bs 4 2)) :: u16 res)"
    "read_u16_le_checked ?b 6 = (Ok (of_le (sub bs 6 2)) :: u16 res)"
    "read_u16_le_checked ?b 8 = (Ok (of_le (sub bs 8 2)) :: u16 res)"
    "read_u16_le_checked ?b 10 = (Ok (of_le (sub bs 10 2)) :: u16 res)"
    "read_u16_le_checked ?b 12 = (Ok (of_le (sub bs 12 2)) :: u16 res)"
    "read_u16_le_checked ?b 14 = (Ok (of_le (sub bs 14 2)) :: u16 res)"
    "read_u32_le_checked ?b 16 = (Ok (of_le (sub bs 16 4)) :: u32 res)"
    "read_u32_le_checked ?b 20 = (Ok (of_le (sub bs 20 4)) :: u32 res)"
    "read_u32_le_checked ?b 24 = (Ok (of_le (sub bs 24 4)) :: u32 res)"
    "read_u32_le_checked ?b 28 = (Ok (of_le (sub bs 28 4)) :: u32 res)"
    "read_u32_le_checked ?b 32 = (Ok (of_le (sub bs 32 4)) :: u32 res)"
    using l assms by (simp_all add: wire_simps usize_limit_def sub_sub_0 index_Ok nth_sub_0 read_array_checked_eq)
  have n: "\<not> length bs < 36" using assms by simp
  show ?thesis
    unfolding payload_header_parse_def COLUMN_PAGE_PAYLOAD_HEADER_LEN_def if_not_P [OF n] s and_then_simps r ..
qed

interpretation payload_header: exact_fixed payload_header_serialize payload_header_parse 36 payload_header_wf
proof
  fix e :: payload_header and rest bs :: bytes
  have lens: "length (ph_magic e) = 4" if "payload_header_wf e"
    using that unfolding payload_header_wf_def by blast+
  show "length (payload_header_serialize e) = 36" if "payload_header_wf e" by (simp add: payload_header_serialize_eq lens [OF that])
  show "payload_header_parse (payload_header_serialize e @ rest) = Ok e" if w: "payload_header_wf e"
  proof -
    let ?s = "payload_header_serialize e @ rest"
    note eq = payload_header_serialize_eq [OF lens [OF w]]
    note fs = w [unfolded payload_header_wf_def]
    have g: "sub ?s 0 4 = ph_magic e"
      "sub ?s 4 2 = le_bytes 2 (ph_version_major e)"
      "sub ?s 6 2 = le_bytes 2 (ph_header_len e)"
      "sub ?s 8 2 = le_bytes 2 (ph_flags e)"
      "sub ?s 10 2 = le_bytes 2 (ph_root_node_id e)"
      "sub ?s 12 2 = le_bytes 2 (ph_node_count e)"
      "sub ?s 14 2 = le_bytes 2 (ph_buffer_count e)"
      "sub ?s 16 4 = le_bytes 4 (ph_row_count e)"
      "sub ?s 20 4 = le_bytes 4 (ph_nodes_offset e)"
      "sub ?s 24 4 = le_bytes 4 (ph_buffer_directory_offset e)"
      "sub ?s 28 4 = le_bytes 4 (ph_buffers_offset e)"
      "sub ?s 32 4 = le_bytes 4 (ph_reserved e)"
      using lens [OF w] by (simp_all add: eq sub_def nth_append)
    have "36 \<le> length ?s" using lens [OF w] by (simp add: eq)
    then show ?thesis using fs by (simp add: payload_header_parse_reads g)
  qed
  have short: "payload_header_parse bs = Fail BufferTooShort" if "length bs < 36"
    using that by (simp add: payload_header_parse_def COLUMN_PAGE_PAYLOAD_HEADER_LEN_def)
  show "no_panic (payload_header_parse bs)"
    using short by (cases "length bs < 36") (auto simp: payload_header_parse_reads intro!: no_panic_intros)
  assume q: "payload_header_parse bs = Ok e"
  then have l: "36 \<le> length bs" using short by (cases "length bs < 36") auto
  from q have f: "ph_magic e = sub bs 0 4"
    "ph_version_major e = of_le (sub bs 4 2)"
    "ph_header_len e = of_le (sub bs 6 2)"
    "ph_flags e = of_le (sub bs 8 2)"
    "ph_root_node_id e = of_le (sub bs 10 2)"
    "ph_node_count e = of_le (sub bs 12 2)"
    "ph_buffer_count e = of_le (sub bs 14 2)"
    "ph_row_count e = of_le (sub bs 16 4)"
    "ph_nodes_offset e = of_le (sub bs 20 4)"
    "ph_buffer_directory_offset e = of_le (sub bs 24 4)"
    "ph_buffers_offset e = of_le (sub bs 28 4)"
    "ph_reserved e = of_le (sub bs 32 4)"
    and wf: "payload_header_wf e"
    using l by (auto simp: payload_header_parse_reads payload_header_wf_def ok_iffs length_sub split: if_splits)
  have "payload_header_serialize e = sub bs 0 4 @ sub bs 4 2 @ sub bs 6 2 @ sub bs 8 2 @ sub bs 10 2 @ sub bs 12 2 @ sub bs 14 2 @ sub bs 16 4 @ sub bs 20 4 @ sub bs 24 4 @ sub bs 28 4 @ sub bs 32 4"
    unfolding payload_header_serialize_eq [OF lens [OF wf]] f using l by (simp add: le_bytes_of_le length_sub sub_singleton)
  also have "\<dots> = sub bs 0 36" by (simp add: sub_join sub_join_assoc)
  finally show "payload_header_wf e \<and> 36 \<le> length bs \<and> payload_header_serialize e = take 36 bs" using wf l by (simp add: sub_def)
qed simp

section \<open>Encoding nodes\<close>

definition COVE_ENCODING_NODE_LEN :: nat where
  "COVE_ENCODING_NODE_LEN = 30"

record encoding_node =
  en_node_id :: u16
  en_encoding_kind :: encoding_kind
  en_logical_type :: logical_type
  en_physical_kind :: physical_kind
  en_flags :: u8
  en_logical_len :: u32
  en_child_count :: u16
  en_buffer_count :: u16
  en_params_offset :: u32
  en_params_length :: u32
  en_stats_id :: u32
  en_reserved :: u16

definition encoding_node_serialize :: "encoding_node \<Rightarrow> bytes" where
  "encoding_node_serialize e =
     (let out = replicate COVE_ENCODING_NODE_LEN 0;
          out = copy_at out 0 (le_bytes 2 (en_node_id e));
          out = copy_at out 2 (le_bytes 2 (as_encoding_kind (en_encoding_kind e)));
          out = copy_at out 4 (le_bytes 2 (as_logical_type (en_logical_type e)));
          out = copy_at out 6 [as_physical_kind (en_physical_kind e)];
          out = copy_at out 7 [en_flags e];
          out = copy_at out 8 (le_bytes 4 (en_logical_len e));
          out = copy_at out 12 (le_bytes 2 (en_child_count e));
          out = copy_at out 14 (le_bytes 2 (en_buffer_count e));
          out = copy_at out 16 (le_bytes 4 (en_params_offset e));
          out = copy_at out 20 (le_bytes 4 (en_params_length e));
          out = copy_at out 24 (le_bytes 4 (en_stats_id e))
      in copy_at out 28 (le_bytes 2 (en_reserved e)))"

definition encoding_node_parse :: "bytes \<Rightarrow> encoding_node res" where
  "encoding_node_parse bs =
     (if length bs < COVE_ENCODING_NODE_LEN then Fail BufferTooShort
      else
        and_then (slice bs 0 COVE_ENCODING_NODE_LEN) (\<lambda>bs.
        and_then (read_u16_le_checked bs 2) (\<lambda>encoding_kind_raw.
        and_then (read_u16_le_checked bs 4) (\<lambda>logical_type_raw.
        and_then (index bs 6) (\<lambda>physical_kind_raw.
        and_then (ok_or (UnsupportedEncoding (''unknown encoding kind '' @ decimal (unat encoding_kind_raw))) (encoding_kind_from encoding_kind_raw)) (\<lambda>encoding_kind'.
        and_then (ok_or (BadSchema (''unknown logical type '' @ decimal (unat logical_type_raw))) (logical_type_from logical_type_raw)) (\<lambda>logical_type'.
        and_then (ok_or (BadSchema (''unknown physical kind '' @ decimal (unat physical_kind_raw))) (physical_kind_from physical_kind_raw)) (\<lambda>physical_kind'.
        and_then (read_u16_le_checked bs 28) (\<lambda>reserved'.
        if reserved' \<noteq> 0 then Fail ReservedNotZero
        else
        and_then (read_u16_le_checked bs 0) (\<lambda>node_id'.
        and_then (index bs 7) (\<lambda>flags'.
        and_then (read_u32_le_checked bs 8) (\<lambda>logical_len'.
        and_then (read_u16_le_checked bs 12) (\<lambda>child_count'.
        and_then (read_u16_le_checked bs 14) (\<lambda>buffer_count'.
        and_then (read_u32_le_checked bs 16) (\<lambda>params_offset'.
        and_then (read_u32_le_checked bs 20) (\<lambda>params_length'.
        and_then (read_u32_le_checked bs 24) (\<lambda>stats_id'.
        Ok \<lparr>en_node_id = node_id',
          en_encoding_kind = encoding_kind',
          en_logical_type = logical_type',
          en_physical_kind = physical_kind',
          en_flags = flags',
          en_logical_len = logical_len',
          en_child_count = child_count',
          en_buffer_count = buffer_count',
          en_params_offset = params_offset',
          en_params_length = params_length',
          en_stats_id = stats_id',
          en_reserved = reserved'\<rparr>)))))))))))))))))"

definition encoding_node_wf :: "encoding_node \<Rightarrow> bool" where
  "encoding_node_wf e \<longleftrightarrow> en_reserved e = 0"

lemma encoding_node_serialize_eq:
  "encoding_node_serialize e = le_bytes 2 (en_node_id e) @
     le_bytes 2 (as_encoding_kind (en_encoding_kind e)) @
     le_bytes 2 (as_logical_type (en_logical_type e)) @
     [as_physical_kind (en_physical_kind e)] @
     [en_flags e] @
     le_bytes 4 (en_logical_len e) @
     le_bytes 2 (en_child_count e) @
     le_bytes 2 (en_buffer_count e) @
     le_bytes 4 (en_params_offset e) @
     le_bytes 4 (en_params_length e) @
     le_bytes 4 (en_stats_id e) @
     le_bytes 2 (en_reserved e)"
  unfolding encoding_node_serialize_def COVE_ENCODING_NODE_LEN_def
  by (simp add: fill_simps del: append_assoc) (simp only: append_assoc append_Cons append_Nil)?

lemma encoding_node_parse_reads:
  assumes "30 \<le> length bs"
  shows "encoding_node_parse bs = (
        and_then (ok_or (UnsupportedEncoding (''unknown encoding kind '' @ decimal (unat (of_le (sub bs 2 2) :: u16)))) (encoding_kind_from (of_le (sub bs 2 2) :: u16))) (\<lambda>encoding_kind'.
        and_then (ok_or (BadSchema (''unknown logical type '' @ decimal (unat (of_le (sub bs 4 2) :: u16)))) (logical_type_from (of_le (sub bs 4 2) :: u16))) (\<lambda>logical_type'.
        and_then (ok_or (BadSchema (''unknown physical kind '' @ decimal (unat (bs ! 6 :: u8)))) (physical_kind_from (bs ! 6 :: u8))) (\<lambda>physical_kind'.
        if (of_le (sub bs 28 2) :: u16) \<noteq> 0 then Fail ReservedNotZero
        else
        Ok \<lparr>en_node_id = of_le (sub bs 0 2),
          en_encoding_kind = encoding_kind',
          en_logical_type = logical_type',
          en_physical_kind = physical_kind',
          en_flags = bs ! 7,
          en_logical_len = of_le (sub bs 8 4),
          en_child_count = of_le (sub bs 12 2),
          en_buffer_count = of_le (sub bs 14 2),
          en_params_offset = of_le (sub bs 16 4),
          en_params_length = of_le (sub bs 20 4),
          en_stats_id = of_le (sub bs 24 4),
          en_reserved = of_le (sub bs 28 2)\<rparr>))))"
proof -
  let ?b = "sub bs 0 30"
  have l: "length ?b = 30" using assms by (simp add: length_sub)
  have s: "slice bs 0 30 = (Ok ?b :: bytes res)" using assms by (simp add: slice_Ok)
  have r: "read_u16_le_checked ?b 0 = (Ok (of_le (sub bs 0 2)) :: u16 res)"
    "read_u16_le_checked ?b 2 = (Ok (of_le (sub bs 2 2)) :: u16 res)"
    "read_u16_le_checked ?b 4 = (Ok (of_le (sub bs 4 2)) :: u16 res)"
    "index ?b 6 = (Ok (bs ! 6) :: u8 res)"
    "index ?b 7 = (Ok (bs ! 7) :: u8 res)"
    "read_u32_le_checked ?b 8 = (Ok (of_le (sub bs 8 4)) :: u32 res)"
    "read_u16_le_checked ?b 12 = (Ok (of_le (sub bs 12 2)) :: u16 res)"
    "read_u16_le_checked ?b 14 = (Ok (of_le (sub bs 14 2)) :: u16 res)"
    "read_u32_le_checked ?b 16 = (Ok (of_le (sub bs 16 4)) :: u32 res)"
    "read_u32_le_checked ?b 20 = (Ok (of_le (sub bs 20 4)) :: u32 res)"
    "read_u32_le_checked ?b 24 = (Ok (of_le (sub bs 24 4)) :: u32 res)"
    "read_u16_le_checked ?b 28 = (Ok (of_le (sub bs 28 2)) :: u16 res)"
    using l assms by (simp_all add: wire_simps usize_limit_def sub_sub_0 index_Ok nth_sub_0 read_array_checked_eq)
  have n: "\<not> length bs < 30" using assms by simp
  show ?thesis
    unfolding encoding_node_parse_def COVE_ENCODING_NODE_LEN_def if_not_P [OF n] s and_then_simps r ..
qed

interpretation encoding_node: exact_fixed encoding_node_serialize encoding_node_parse 30 encoding_node_wf
proof
  fix e :: encoding_node and rest bs :: bytes
  show "length (encoding_node_serialize e) = 30" if "encoding_node_wf e" by (simp add: encoding_node_serialize_eq)
  show "encoding_node_parse (encoding_node_serialize e @ rest) = Ok e" if w: "encoding_node_wf e"
  proof -
    let ?s = "encoding_node_serialize e @ rest"
    note eq = encoding_node_serialize_eq
    note fs = w [unfolded encoding_node_wf_def]
    have t0: "encoding_kind_from (as_encoding_kind (en_encoding_kind e)) = Some (en_encoding_kind e)" by (simp add: encoding_kind_from_iff)
    have t1: "logical_type_from (as_logical_type (en_logical_type e)) = Some (en_logical_type e)" by (simp add: logical_type_from_iff)
    have t2: "physical_kind_from (as_physical_kind (en_physical_kind e)) = Some (en_physical_kind e)" by (simp add: physical_kind_from_iff)
    have g: "sub ?s 0 2 = le_bytes 2 (en_node_id e)"
      "sub ?s 2 2 = le_bytes 2 (as_encoding_kind (en_encoding_kind e))"
      "sub ?s 4 2 = le_bytes 2 (as_logical_type (en_logical_type e))"
      "?s ! 6 = as_physical_kind (en_physical_kind e)"
      "?s ! 7 = en_flags e"
      "sub ?s 8 4 = le_bytes 4 (en_logical_len e)"
      "sub ?s 12 2 = le_bytes 2 (en_child_count e)"
      "sub ?s 14 2 = le_bytes 2 (en_buffer_count e)"
      "sub ?s 16 4 = le_bytes 4 (en_params_offset e)"
      "sub ?s 20 4 = le_bytes 4 (en_params_length e)"
      "sub ?s 24 4 = le_bytes 4 (en_stats_id e)"
      "sub ?s 28 2 = le_bytes 2 (en_reserved e)"
      by (simp_all add: eq sub_def nth_append)
    have "30 \<le> length ?s" by (simp add: eq)
    then show ?thesis using fs by (simp add: encoding_node_parse_reads g t0 t1 t2)
  qed
  have short: "encoding_node_parse bs = Fail BufferTooShort" if "length bs < 30"
    using that by (simp add: encoding_node_parse_def COVE_ENCODING_NODE_LEN_def)
  show "no_panic (encoding_node_parse bs)"
    using short by (cases "length bs < 30") (auto simp: encoding_node_parse_reads intro!: no_panic_intros)
  assume q: "encoding_node_parse bs = Ok e"
  then have l: "30 \<le> length bs" using short by (cases "length bs < 30") auto
  from q have f: "en_node_id e = of_le (sub bs 0 2)"
    "as_encoding_kind (en_encoding_kind e) = of_le (sub bs 2 2)"
    "as_logical_type (en_logical_type e) = of_le (sub bs 4 2)"
    "as_physical_kind (en_physical_kind e) = bs ! 6"
    "en_flags e = bs ! 7"
    "en_logical_len e = of_le (sub bs 8 4)"
    "en_child_count e = of_le (sub bs 12 2)"
    "en_buffer_count e = of_le (sub bs 14 2)"
    "en_params_offset e = of_le (sub bs 16 4)"
    "en_params_length e = of_le (sub bs 20 4)"
    "en_stats_id e = of_le (sub bs 24 4)"
    "en_reserved e = of_le (sub bs 28 2)"
    and wf: "encoding_node_wf e"
    using l by (auto simp: encoding_node_parse_reads encoding_node_wf_def ok_iffs length_sub encoding_kind_from_iff logical_type_from_iff physical_kind_from_iff split: if_splits)
  have "encoding_node_serialize e = sub bs 0 2 @ sub bs 2 2 @ sub bs 4 2 @ sub bs 6 1 @ sub bs 7 1 @ sub bs 8 4 @ sub bs 12 2 @ sub bs 14 2 @ sub bs 16 4 @ sub bs 20 4 @ sub bs 24 4 @ sub bs 28 2"
    unfolding encoding_node_serialize_eq f using l by (simp add: le_bytes_of_le length_sub sub_singleton)
  also have "\<dots> = sub bs 0 30" by (simp add: sub_join sub_join_assoc)
  finally show "encoding_node_wf e \<and> 30 \<le> length bs \<and> encoding_node_serialize e = take 30 bs" using wf l by (simp add: sub_def)
qed simp

section \<open>Buffer descriptors\<close>

definition PAGE_BUFFER_DESCRIPTOR_LEN :: nat where
  "PAGE_BUFFER_DESCRIPTOR_LEN = 32"

record buffer_descriptor =
  bd_buffer_id :: u16
  bd_kind :: page_buffer_kind
  bd_flags :: u32
  bd_offset :: u64
  bd_length :: u64
  bd_checksum :: u32
  bd_reserved :: u32

definition buffer_descriptor_serialize :: "buffer_descriptor \<Rightarrow> bytes" where
  "buffer_descriptor_serialize e =
     (let out = replicate PAGE_BUFFER_DESCRIPTOR_LEN 0;
          out = copy_at out 0 (le_bytes 2 (bd_buffer_id e));
          out = copy_at out 2 (le_bytes 2 (as_page_buffer_kind (bd_kind e)));
          out = copy_at out 4 (le_bytes 4 (bd_flags e));
          out = copy_at out 8 (le_bytes 8 (bd_offset e));
          out = copy_at out 16 (le_bytes 8 (bd_length e));
          out = copy_at out 24 (le_bytes 4 (bd_checksum e))
      in copy_at out 28 (le_bytes 4 (bd_reserved e)))"

definition buffer_descriptor_parse :: "bytes \<Rightarrow> buffer_descriptor res" where
  "buffer_descriptor_parse bs =
     (if length bs < PAGE_BUFFER_DESCRIPTOR_LEN then Fail BufferTooShort
      else
        and_then (slice bs 0 PAGE_BUFFER_DESCRIPTOR_LEN) (\<lambda>bs.
        and_then (read_u16_le_checked bs 2) (\<lambda>kind_raw.
        and_then (ok_or (BadSection (''unknown page buffer kind '' @ decimal (unat kind_raw))) (page_buffer_kind_from kind_raw)) (\<lambda>kind'.
        and_then (read_u32_le_checked bs 4) (\<lambda>flags'.
        if flags' \<noteq> 0 then Fail (BadSection ''page buffer flags are reserved and must be zero'')
        else
        and_then (read_u32_le_checked bs 28) (\<lambda>reserved'.
        if reserved' \<noteq> 0 then Fail ReservedNotZero
        else
        and_then (read_u16_le_checked bs 0) (\<lambda>buffer_id'.
        and_then (read_u64_le_checked bs 8) (\<lambda>offset'.
        and_then (read_u64_le_checked bs 16) (\<lambda>length'.
        and_then (read_u32_le_checked bs 24) (\<lambda>checksum'.
        Ok \<lparr>bd_buffer_id = buffer_id',
          bd_kind = kind',
          bd_flags = flags',
          bd_offset = offset',
          bd_length = length',
          bd_checksum = checksum',
          bd_reserved = reserved'\<rparr>))))))))))"

definition buffer_descriptor_wf :: "buffer_descriptor \<Rightarrow> bool" where
  "buffer_descriptor_wf e \<longleftrightarrow> bd_flags e = 0 \<and>
     bd_reserved e = 0"

lemma buffer_descriptor_serialize_eq:
  "buffer_descriptor_serialize e = le_bytes 2 (bd_buffer_id e) @
     le_bytes 2 (as_page_buffer_kind (bd_kind e)) @
     le_bytes 4 (bd_flags e) @
     le_bytes 8 (bd_offset e) @
     le_bytes 8 (bd_length e) @
     le_bytes 4 (bd_checksum e) @
     le_bytes 4 (bd_reserved e)"
  unfolding buffer_descriptor_serialize_def PAGE_BUFFER_DESCRIPTOR_LEN_def
  by (simp add: fill_simps del: append_assoc)

lemma buffer_descriptor_parse_reads:
  assumes "32 \<le> length bs"
  shows "buffer_descriptor_parse bs = (
        and_then (ok_or (BadSection (''unknown page buffer kind '' @ decimal (unat (of_le (sub bs 2 2) :: u16)))) (page_buffer_kind_from (of_le (sub bs 2 2) :: u16))) (\<lambda>kind'.
        if (of_le (sub bs 4 4) :: u32) \<noteq> 0 then Fail (BadSection ''page buffer flags are reserved and must be zero'')
        else
        if (of_le (sub bs 28 4) :: u32) \<noteq> 0 then Fail ReservedNotZero
        else
        Ok \<lparr>bd_buffer_id = of_le (sub bs 0 2),
          bd_kind = kind',
          bd_flags = of_le (sub bs 4 4),
          bd_offset = of_le (sub bs 8 8),
          bd_length = of_le (sub bs 16 8),
          bd_checksum = of_le (sub bs 24 4),
          bd_reserved = of_le (sub bs 28 4)\<rparr>))"
proof -
  let ?b = "sub bs 0 32"
  have l: "length ?b = 32" using assms by (simp add: length_sub)
  have s: "slice bs 0 32 = (Ok ?b :: bytes res)" using assms by (simp add: slice_Ok)
  have r: "read_u16_le_checked ?b 0 = (Ok (of_le (sub bs 0 2)) :: u16 res)"
    "read_u16_le_checked ?b 2 = (Ok (of_le (sub bs 2 2)) :: u16 res)"
    "read_u32_le_checked ?b 4 = (Ok (of_le (sub bs 4 4)) :: u32 res)"
    "read_u64_le_checked ?b 8 = (Ok (of_le (sub bs 8 8)) :: u64 res)"
    "read_u64_le_checked ?b 16 = (Ok (of_le (sub bs 16 8)) :: u64 res)"
    "read_u32_le_checked ?b 24 = (Ok (of_le (sub bs 24 4)) :: u32 res)"
    "read_u32_le_checked ?b 28 = (Ok (of_le (sub bs 28 4)) :: u32 res)"
    using l assms by (simp_all add: wire_simps usize_limit_def sub_sub_0 index_Ok nth_sub_0 read_array_checked_eq)
  have n: "\<not> length bs < 32" using assms by simp
  show ?thesis
    unfolding buffer_descriptor_parse_def PAGE_BUFFER_DESCRIPTOR_LEN_def if_not_P [OF n] s and_then_simps r ..
qed

interpretation buffer_descriptor: exact_fixed buffer_descriptor_serialize buffer_descriptor_parse 32 buffer_descriptor_wf
proof
  fix e :: buffer_descriptor and rest bs :: bytes
  show "length (buffer_descriptor_serialize e) = 32" if "buffer_descriptor_wf e" by (simp add: buffer_descriptor_serialize_eq)
  show "buffer_descriptor_parse (buffer_descriptor_serialize e @ rest) = Ok e" if w: "buffer_descriptor_wf e"
  proof -
    let ?s = "buffer_descriptor_serialize e @ rest"
    note eq = buffer_descriptor_serialize_eq
    note fs = w [unfolded buffer_descriptor_wf_def]
    have t0: "page_buffer_kind_from (as_page_buffer_kind (bd_kind e)) = Some (bd_kind e)" by (simp add: page_buffer_kind_from_iff)
    have g: "sub ?s 0 2 = le_bytes 2 (bd_buffer_id e)"
      "sub ?s 2 2 = le_bytes 2 (as_page_buffer_kind (bd_kind e))"
      "sub ?s 4 4 = le_bytes 4 (bd_flags e)"
      "sub ?s 8 8 = le_bytes 8 (bd_offset e)"
      "sub ?s 16 8 = le_bytes 8 (bd_length e)"
      "sub ?s 24 4 = le_bytes 4 (bd_checksum e)"
      "sub ?s 28 4 = le_bytes 4 (bd_reserved e)"
      by (simp_all add: eq sub_def nth_append)
    have "32 \<le> length ?s" by (simp add: eq)
    then show ?thesis using fs by (simp add: buffer_descriptor_parse_reads g t0)
  qed
  have short: "buffer_descriptor_parse bs = Fail BufferTooShort" if "length bs < 32"
    using that by (simp add: buffer_descriptor_parse_def PAGE_BUFFER_DESCRIPTOR_LEN_def)
  show "no_panic (buffer_descriptor_parse bs)"
    using short by (cases "length bs < 32") (auto simp: buffer_descriptor_parse_reads intro!: no_panic_intros)
  assume q: "buffer_descriptor_parse bs = Ok e"
  then have l: "32 \<le> length bs" using short by (cases "length bs < 32") auto
  from q have f: "bd_buffer_id e = of_le (sub bs 0 2)"
    "as_page_buffer_kind (bd_kind e) = of_le (sub bs 2 2)"
    "bd_flags e = of_le (sub bs 4 4)"
    "bd_offset e = of_le (sub bs 8 8)"
    "bd_length e = of_le (sub bs 16 8)"
    "bd_checksum e = of_le (sub bs 24 4)"
    "bd_reserved e = of_le (sub bs 28 4)"
    and wf: "buffer_descriptor_wf e"
    using l by (auto simp: buffer_descriptor_parse_reads buffer_descriptor_wf_def ok_iffs length_sub page_buffer_kind_from_iff split: if_splits)
  have "buffer_descriptor_serialize e = sub bs 0 2 @ sub bs 2 2 @ sub bs 4 4 @ sub bs 8 8 @ sub bs 16 8 @ sub bs 24 4 @ sub bs 28 4"
    unfolding buffer_descriptor_serialize_eq f using l by (simp add: le_bytes_of_le length_sub sub_singleton)
  also have "\<dots> = sub bs 0 32" by (simp add: sub_join sub_join_assoc)
  finally show "buffer_descriptor_wf e \<and> 32 \<le> length bs \<and> buffer_descriptor_serialize e = take 32 bs" using wf l by (simp add: sub_def)
qed simp

section \<open>The container\<close>

record payload_parts =
  pp_header :: payload_header
  pp_nodes :: "encoding_node list"
  pp_buffers :: "buffer_descriptor list"

record page_payload =
  pl_header :: payload_header
  pl_nodes :: "encoding_node list"
  pl_buffers :: "buffer_descriptor list"
  pl_data :: bytes

text \<open>\<^verbatim>\<open>roots.next()\<close> twice: there is exactly one node with the id.\<close>

definition unique_root :: "encoding_node list \<Rightarrow> u16 \<Rightarrow> encoding_node res" where
  "unique_root nodes root =
     (case filter (\<lambda>n. en_node_id n = root) nodes of
        [] \<Rightarrow> Fail PageCorrupt
      | [n] \<Rightarrow> Ok n
      | _ \<Rightarrow> Fail PageCorrupt)"

text \<open>The descriptor loop; \<open>ids\<close> are the expected ids that are left.\<close>

fun descriptors_loop ::
    "(bytes \<Rightarrow> u32) \<Rightarrow> buffer_checksum_validation \<Rightarrow> bytes \<Rightarrow> nat \<Rightarrow> nat list \<Rightarrow> nat \<Rightarrow> u64 \<Rightarrow> (buffer_descriptor list \<times> u64) res" where
  "descriptors_loop crc mode bs buffers_offset [] pos previous_end = Ok ([], previous_end)"
| "descriptors_loop crc mode bs buffers_offset (expected # ids) pos previous_end =
     and_then (slice bs pos (pos + PAGE_BUFFER_DESCRIPTOR_LEN)) (\<lambda>chunk.
     and_then (buffer_descriptor_parse chunk) (\<lambda>descriptor.
     if unat (bd_buffer_id descriptor) \<noteq> expected then Fail PageCorrupt
     else if unat (bd_offset descriptor) < buffers_offset \<or> bd_offset descriptor < previous_end then Fail PageCorrupt
     else
       and_then (ok_or ArithOverflow (checked_add_word (bd_offset descriptor) (bd_length descriptor))) (\<lambda>end'.
       if length bs < unat end' then Fail OffsetRange
       else
         and_then (slice bs (unat (bd_offset descriptor)) (unat end')) (\<lambda>region.
         if mode = BCV_Verify \<and> crc region \<noteq> bd_checksum descriptor then Fail ChecksumMismatch
         else
           map_ok (\<lambda>(ds, e). (descriptor # ds, e))
             (descriptors_loop crc mode bs buffers_offset ids (pos + PAGE_BUFFER_DESCRIPTOR_LEN) end')))))"

definition payload_parts_parse ::
    "(bytes \<Rightarrow> u32) \<Rightarrow> bytes \<Rightarrow> buffer_checksum_validation \<Rightarrow> payload_parts res" where
  "payload_parts_parse crc bs mode =
     and_then (payload_header_parse bs) (\<lambda>header.
     let nodes_offset = unat (ph_nodes_offset header);
         buffer_directory_offset = unat (ph_buffer_directory_offset header);
         buffers_offset = unat (ph_buffers_offset header) in
     if nodes_offset \<noteq> COLUMN_PAGE_PAYLOAD_HEADER_LEN \<or> buffer_directory_offset < nodes_offset \<or>
        buffers_offset < buffer_directory_offset \<or> length bs < buffers_offset
     then Fail PageCorrupt
     else
     and_then (ok_or ArithOverflow (checked_mul (unat (ph_node_count header)) COVE_ENCODING_NODE_LEN)) (\<lambda>node_region_len.
     and_then (ok_or ArithOverflow (checked_add nodes_offset node_region_len)) (\<lambda>expected_directory.
     if buffer_directory_offset \<noteq> expected_directory then Fail PageCorrupt
     else
     and_then (ok_or ArithOverflow (checked_mul (unat (ph_buffer_count header)) PAGE_BUFFER_DESCRIPTOR_LEN)) (\<lambda>buffer_region_len.
     and_then (ok_or ArithOverflow (checked_add buffer_directory_offset buffer_region_len)) (\<lambda>expected_buffers.
     if buffers_offset \<noteq> expected_buffers then Fail PageCorrupt
     else if ph_node_count header = 0 then Fail PageCorrupt
     else
     and_then (parse_array encoding_node_parse COVE_ENCODING_NODE_LEN (unat (ph_node_count header)) bs nodes_offset) (\<lambda>nodes.
     if has_duplicate (map en_node_id nodes) then Fail PageCorrupt
     else
     and_then (unique_root nodes (ph_root_node_id header)) (\<lambda>root.
     if en_logical_len root \<noteq> ph_row_count header then Fail PageCorrupt
     else
     and_then (descriptors_loop crc mode bs buffers_offset [0..<unat (ph_buffer_count header)]
         buffer_directory_offset (of_nat buffers_offset)) (\<lambda>(buffers, previous_end).
     if unat previous_end \<noteq> length bs then Fail PageCorrupt
     else Ok \<lparr>pp_header = header, pp_nodes = nodes, pp_buffers = buffers\<rparr>))))))))"

definition payload_parse_with :: "(bytes \<Rightarrow> u32) \<Rightarrow> bytes \<Rightarrow> buffer_checksum_validation \<Rightarrow> page_payload res" where
  "payload_parse_with crc bs mode =
     and_then (payload_parts_parse crc bs mode) (\<lambda>parts.
     Ok \<lparr>pl_header = pp_header parts, pl_nodes = pp_nodes parts, pl_buffers = pp_buffers parts, pl_data = bs\<rparr>)"

definition payload_parse :: "(bytes \<Rightarrow> u32) \<Rightarrow> bytes \<Rightarrow> page_payload res" where
  "payload_parse crc bs = payload_parse_with crc bs BCV_Verify"

text \<open>\<^verbatim>\<open>serialize\<close>: the loop over the buffers appends the data each descriptor names.\<close>

definition descriptor_data :: "bytes \<Rightarrow> buffer_descriptor \<Rightarrow> bytes res" where
  "descriptor_data data d =
     and_then (ok_or ArithOverflow (checked_add_word (bd_offset d) (bd_length d))) (\<lambda>end'.
     if length data < unat end' then Fail OffsetRange else slice data (unat (bd_offset d)) (unat end'))"

definition payload_serialize :: "(bytes \<Rightarrow> u32) \<Rightarrow> page_payload \<Rightarrow> bytes res" where
  "payload_serialize crc p =
     (if pl_nodes p = [] then Fail PageCorrupt
      else
        let out = payload_header_serialize (pl_header p) @ concat (map encoding_node_serialize (pl_nodes p)) @
              concat (map buffer_descriptor_serialize (pl_buffers p)) in
        and_then (try_map (descriptor_data (pl_data p)) (pl_buffers p)) (\<lambda>regions.
        and_then (payload_parse crc (out @ concat regions)) (\<lambda>parsed. Ok (pl_data parsed))))"

definition root_node :: "page_payload \<Rightarrow> encoding_node res" where
  "root_node p = unique_root (pl_nodes p) (ph_root_node_id (pl_header p))"

definition buffer_bytes :: "page_payload \<Rightarrow> page_buffer_kind \<Rightarrow> bytes option res" where
  "buffer_bytes p kind =
     (case find (\<lambda>b. bd_kind b = kind) (pl_buffers p) of
        None \<Rightarrow> Ok None
      | Some b \<Rightarrow>
          and_then (ok_or ArithOverflow (checked_add_word (bd_offset b) (bd_length b))) (\<lambda>end'.
          map_ok Some (slice (pl_data p) (unat (bd_offset b)) (unat end'))))"

definition buffer_descriptor_bytes :: "bytes \<Rightarrow> buffer_descriptor \<Rightarrow> bytes res" where
  "buffer_descriptor_bytes data d =
     and_then (ok_or ArithOverflow (checked_add (unat (bd_offset d)) (unat (bd_length d)))) (\<lambda>end'.
     if length data < end' then Fail OffsetRange else slice data (unat (bd_offset d)) end')"

definition buffer_bytes_for_descriptor :: "page_payload \<Rightarrow> buffer_descriptor \<Rightarrow> bytes res" where
  "buffer_bytes_for_descriptor p d = buffer_descriptor_bytes (pl_data p) d"

section \<open>The tree of a payload\<close>

datatype page_tree_node = PTree (pt_node: encoding_node) (pt_buffers: "buffer_descriptor list") (pt_children: "page_tree_node list")

definition buffer_of_kind :: "page_tree_node \<Rightarrow> page_buffer_kind \<Rightarrow> buffer_descriptor option res" where
  "buffer_of_kind t kind =
     (case filter (\<lambda>b. bd_kind b = kind) (pt_buffers t) of
        [] \<Rightarrow> Ok None
      | [b] \<Rightarrow> Ok (Some b)
      | _ \<Rightarrow> Fail PageCorrupt)"

text \<open>
  The nodes are in preorder and each takes its buffers from the front of what is left. The
  positions are threaded through; each call of \<^verbatim>\<open>parse_payload_subtree\<close> takes one node, so
  one more level of recursion than there are nodes is enough.
\<close>

function (sequential) parse_payload_subtree ::
    "nat \<Rightarrow> encoding_node list \<Rightarrow> buffer_descriptor list \<Rightarrow> nat \<Rightarrow> nat \<Rightarrow> (page_tree_node \<times> nat \<times> nat) res"
  and parse_payload_children ::
    "nat \<Rightarrow> encoding_node list \<Rightarrow> buffer_descriptor list \<Rightarrow> nat \<Rightarrow> nat \<Rightarrow> nat \<Rightarrow> (page_tree_node list \<times> nat \<times> nat) res"
where
  "parse_payload_subtree 0 nodes buffers node_pos buffer_pos = Panicked"
| "parse_payload_subtree (Suc fuel) nodes buffers node_pos buffer_pos =
     and_then (ok_or PageCorrupt (get nodes node_pos)) (\<lambda>node.
     and_then (ok_or ArithOverflow (checked_add node_pos 1)) (\<lambda>node_pos.
     and_then (ok_or ArithOverflow (checked_add buffer_pos (unat (en_buffer_count node)))) (\<lambda>buffer_end.
     if length buffers < buffer_end then Fail PageCorrupt
     else
       and_then (slice buffers buffer_pos buffer_end) (\<lambda>owned.
       and_then (parse_payload_children fuel nodes buffers (unat (en_child_count node)) node_pos buffer_end) (\<lambda>(children, node_pos, buffer_pos).
       Ok (PTree node owned children, node_pos, buffer_pos))))))"
| "parse_payload_children fuel nodes buffers 0 node_pos buffer_pos = Ok ([], node_pos, buffer_pos)"
| "parse_payload_children fuel nodes buffers (Suc n) node_pos buffer_pos =
     and_then (parse_payload_subtree fuel nodes buffers node_pos buffer_pos) (\<lambda>(child, node_pos, buffer_pos).
     and_then (parse_payload_children fuel nodes buffers n node_pos buffer_pos) (\<lambda>(children, node_pos, buffer_pos).
     Ok (child # children, node_pos, buffer_pos)))"
  by pat_completeness auto

termination
  by (relation "measures [\<lambda>x. case x of Inl (f, _) \<Rightarrow> f | Inr (f, _) \<Rightarrow> f,
       \<lambda>x. case x of Inl _ \<Rightarrow> 0 | Inr (f, ns, bs, n, _) \<Rightarrow> Suc n]") auto

definition payload_tree :: "encoding_node list \<Rightarrow> buffer_descriptor list \<Rightarrow> u16 \<Rightarrow> page_tree_node res" where
  "payload_tree nodes buffers root =
     (if nodes = [] \<or> en_node_id (nodes ! 0) \<noteq> root then Fail PageCorrupt
      else
        and_then (parse_payload_subtree (Suc (length nodes)) nodes buffers 0 0) (\<lambda>(t, node_pos, buffer_pos).
        if node_pos \<noteq> length nodes \<or> buffer_pos \<noteq> length buffers then Fail PageCorrupt
        else Ok t))"

definition payload_tree_of :: "page_payload \<Rightarrow> page_tree_node res" where
  "payload_tree_of p = payload_tree (pl_nodes p) (pl_buffers p) (ph_root_node_id (pl_header p))"

section \<open>Writers\<close>

definition payload_offsets :: "u16 \<Rightarrow> u16 \<Rightarrow> (u32 \<times> u32 \<times> u32) res" where
  "payload_offsets node_count buffer_count =
     (let nodes_offset = of_nat COLUMN_PAGE_PAYLOAD_HEADER_LEN in
      and_then (if unat node_count * COVE_ENCODING_NODE_LEN < 2 ^ 32
                then Ok (ucast node_count * of_nat COVE_ENCODING_NODE_LEN :: u32) else Fail ArithOverflow) (\<lambda>node_region_len.
      and_then (ok_or ArithOverflow (checked_add_word nodes_offset node_region_len)) (\<lambda>buffer_directory_offset.
      and_then (if unat buffer_count * PAGE_BUFFER_DESCRIPTOR_LEN < 2 ^ 32
                then Ok (ucast buffer_count * of_nat PAGE_BUFFER_DESCRIPTOR_LEN :: u32) else Fail ArithOverflow) (\<lambda>buffer_region_len.
      and_then (ok_or ArithOverflow (checked_add_word buffer_directory_offset buffer_region_len)) (\<lambda>buffers_offset.
      Ok (nodes_offset, buffer_directory_offset, buffers_offset))))))"

definition payload_header_for :: "u32 \<Rightarrow> u16 \<Rightarrow> u16 \<Rightarrow> u16 \<Rightarrow> u32 \<times> u32 \<times> u32 \<Rightarrow> payload_header" where
  "payload_header_for row_count root node_count buffer_count offsets =
     (case offsets of (nodes_offset, buffer_directory_offset, buffers_offset) \<Rightarrow>
       \<lparr>ph_magic = COLUMN_PAGE_PAYLOAD_MAGIC, ph_version_major = COLUMN_PAGE_PAYLOAD_VERSION_MAJOR,
        ph_header_len = of_nat COLUMN_PAGE_PAYLOAD_HEADER_LEN, ph_flags = 0, ph_root_node_id = root,
        ph_node_count = node_count, ph_buffer_count = buffer_count, ph_row_count = row_count,
        ph_nodes_offset = nodes_offset, ph_buffer_directory_offset = buffer_directory_offset,
        ph_buffers_offset = buffers_offset, ph_reserved = 0\<rparr>)"

text \<open>
  The descriptors of buffers laid out one after the other from \<open>offset\<close>; the ids count up
  from \<open>i\<close> in 16 bits.
\<close>

fun describe_buffers :: "(bytes \<Rightarrow> u32) \<Rightarrow> nat \<Rightarrow> u64 \<Rightarrow> (page_buffer_kind \<times> bytes) list \<Rightarrow> buffer_descriptor list" where
  "describe_buffers crc i offset [] = []"
| "describe_buffers crc i offset ((kind, b) # rest) =
     \<lparr>bd_buffer_id = of_nat i, bd_kind = kind, bd_flags = 0, bd_offset = offset, bd_length = of_nat (length b),
      bd_checksum = crc b, bd_reserved = 0\<rparr> # describe_buffers crc (Suc i) (offset + of_nat (length b)) rest"

definition build_single_node ::
    "(bytes \<Rightarrow> u32) \<Rightarrow> u32 \<Rightarrow> encoding_kind \<Rightarrow> logical_type \<Rightarrow> physical_kind \<Rightarrow> bytes option \<Rightarrow> bytes \<Rightarrow> bytes res" where
  "build_single_node crc row_count kind logical physical null_bitmap values' =
     (let buffers = (case null_bitmap of None \<Rightarrow> [] | Some b \<Rightarrow> [(PB_NullBitmap, b)]) @
            (if values' = [] then [] else [(PB_Values, values')]);
          buffer_count = of_nat (length buffers) in
      and_then (payload_offsets 1 buffer_count) (\<lambda>offsets.
      let header = payload_header_for row_count 0 1 buffer_count offsets;
          node = \<lparr>en_node_id = 0, en_encoding_kind = kind, en_logical_type = logical, en_physical_kind = physical,
            en_flags = 0, en_logical_len = row_count, en_child_count = 0, en_buffer_count = buffer_count,
            en_params_offset = 0, en_params_length = 0, en_stats_id = 0, en_reserved = 0\<rparr>;
          descriptors = describe_buffers crc 0 (ucast (ph_buffers_offset header)) buffers;
          out = payload_header_serialize header @ encoding_node_serialize node @
            concat (map buffer_descriptor_serialize descriptors) @ concat (map snd buffers)
      in and_then (payload_parse crc out) (\<lambda>_. Ok out)))"

definition build_tree ::
    "(bytes \<Rightarrow> u32) \<Rightarrow> u32 \<Rightarrow> u16 \<Rightarrow> encoding_node list \<Rightarrow> (page_buffer_kind \<times> bytes) list \<Rightarrow> bytes res" where
  "build_tree crc row_count root nodes buffers =
     (if nodes = [] then Fail PageCorrupt
      else if \<not> length nodes < 2 ^ 16 then Fail ArithOverflow
      else if \<not> length buffers < 2 ^ 16 then Fail ArithOverflow
      else
        let node_count = of_nat (length nodes); buffer_count = of_nat (length buffers) in
        and_then (payload_offsets node_count buffer_count) (\<lambda>offsets.
        let header = payload_header_for row_count root node_count buffer_count offsets;
            descriptors = describe_buffers crc 0 (ucast (ph_buffers_offset header)) buffers;
            out = payload_header_serialize header @ concat (map encoding_node_serialize nodes) @
              concat (map buffer_descriptor_serialize descriptors) @ concat (map snd buffers) in
        and_then (payload_parse crc out) (\<lambda>parsed.
        and_then (payload_tree_of parsed) (\<lambda>_. Ok out))))"

section \<open>Trees and preorder lists\<close>

primrec tree_nodes :: "page_tree_node \<Rightarrow> encoding_node list" where
  "tree_nodes (PTree n bs ts) = n # concat (map tree_nodes ts)"

primrec tree_buffers :: "page_tree_node \<Rightarrow> buffer_descriptor list" where
  "tree_buffers (PTree n bs ts) = bs @ concat (map tree_buffers ts)"

text \<open>Every node declares as many children and buffers as it has.\<close>

fun tree_counts :: "page_tree_node \<Rightarrow> bool" where
  "tree_counts (PTree n bs ts) \<longleftrightarrow>
     unat (en_child_count n) = length ts \<and> unat (en_buffer_count n) = length bs \<and> list_all tree_counts ts"

text \<open>What was consumed between two positions.\<close>

definition took :: "'a list \<Rightarrow> nat \<Rightarrow> nat \<Rightarrow> 'a list \<Rightarrow> bool" where
  "took ys a b xs \<longleftrightarrow> a \<le> b \<and> b \<le> length ys \<and> xs = sub ys a (b - a)"

lemma took_Nil [simp]: "took ys a a [] \<longleftrightarrow> a \<le> length ys"
  by (auto simp: took_def sub_def)

lemma took_append: "took ys a b xs \<Longrightarrow> took ys b c zs \<Longrightarrow> took ys a c (xs @ zs)"
  by (simp add: took_def sub_join)

lemma took_all: "took ys 0 (length ys) xs \<longleftrightarrow> xs = ys"
  by (auto simp: took_def sub_def)

lemma took_length: "took ys a b xs \<Longrightarrow> length xs = b - a"
  by (auto simp: took_def length_sub min_def)

lemma took_slice: "slice ys a b = Ok xs \<Longrightarrow> took ys a b xs"
  by (simp add: slice_Ok_iff took_def)

lemma took_get: "get ys a = Some x \<Longrightarrow> took ys a (Suc a) [x]"
  by (simp add: get_eq_Some_iff took_def sub_singleton)

lemma subtree_Ok:
  "parse_payload_subtree fuel nodes buffers np bp = Ok (t, np', bp') \<Longrightarrow> bp \<le> length buffers \<Longrightarrow>
     tree_counts t \<and> took nodes np np' (tree_nodes t) \<and> took buffers bp bp' (tree_buffers t)"
  "parse_payload_children fuel nodes buffers n np bp = Ok (ts, np', bp') \<Longrightarrow> bp \<le> length buffers \<Longrightarrow> np \<le> length nodes \<Longrightarrow>
     length ts = n \<and> list_all tree_counts ts \<and> took nodes np np' (concat (map tree_nodes ts)) \<and>
     took buffers bp bp' (concat (map tree_buffers ts))"
proof (induction fuel nodes buffers np bp and fuel nodes buffers n np bp arbitrary: t np' bp' and ts np' bp'
    rule: parse_payload_subtree_parse_payload_children.induct)
  case (2 fuel nodes buffers np bp)
  from "2.prems"(1) obtain node owned ts where g: "get nodes np = Some node"
    and s: "slice buffers bp (bp + unat (en_buffer_count node)) = (Ok owned :: buffer_descriptor list res)"
    and c: "parse_payload_children fuel nodes buffers (unat (en_child_count node)) (np + 1) (bp + unat (en_buffer_count node)) = Ok (ts, np', bp')"
    and l: "\<not> length buffers < bp + unat (en_buffer_count node)" and t: "t = PTree node owned ts"
    and lim: "np + 1 < usize_limit" "bp + unat (en_buffer_count node) < usize_limit"
    by (auto simp: ok_iffs checked_add_eq_Some_iff split: prod.splits if_splits)
  have np: "np + 1 \<le> length nodes" using g by (auto simp: get_eq_Some_iff)
  have ca: "checked_add np 1 = Some (np + 1)" "checked_add bp (unat (en_buffer_count node)) = Some (bp + unat (en_buffer_count node))"
    using lim by (simp_all add: checked_add_def)
  have ih: "length ts = unat (en_child_count node) \<and> list_all tree_counts ts \<and> took nodes (np + 1) np' (concat (map tree_nodes ts)) \<and>
      took buffers (bp + unat (en_buffer_count node)) bp' (concat (map tree_buffers ts))"
    using g l s np ca by (intro "2.IH" [OF _ _ _ l s c]) (simp_all add: ok_or_def)
  have "length owned = unat (en_buffer_count node)" using took_length [OF took_slice [OF s]] by simp
  then show ?case
    using ih took_append [OF took_get [OF g], of np'] took_append [OF took_slice [OF s], of bp']
    by (simp add: t)
next
  case (4 fuel nodes buffers n np bp)
  from "4.prems"(1) obtain c np1 bp1 cs where c: "parse_payload_subtree fuel nodes buffers np bp = Ok (c, np1, bp1)"
    and cs: "parse_payload_children fuel nodes buffers n np1 bp1 = Ok (cs, np', bp')" and ts: "ts = c # cs"
    by (auto simp: ok_iffs split: prod.splits)
  note h = "4.IH"(1) [OF c "4.prems"(2)]
  have b: "bp1 \<le> length buffers" "np1 \<le> length nodes" using h by (auto simp: took_def)
  note k = "4.IH"(2) [OF c refl refl cs b]
  show ?case
    using h k took_append [of nodes np np1 "tree_nodes c" np'] took_append [of buffers bp bp1 "tree_buffers c" bp']
    by (simp add: ts)
qed simp_all

text \<open>Enough fuel is one more than the nodes that are left, and then the walk does not panic.\<close>

lemma subtree_no_panic:
  "length nodes < fuel + np \<Longrightarrow> bp \<le> length buffers \<Longrightarrow> no_panic (parse_payload_subtree fuel nodes buffers np bp) \<or> length nodes < np"
  "length nodes < fuel + np \<Longrightarrow> bp \<le> length buffers \<Longrightarrow> np \<le> length nodes \<Longrightarrow>
     no_panic (parse_payload_children fuel nodes buffers n np bp)"
proof (induction fuel nodes buffers np bp and fuel nodes buffers n np bp
    rule: parse_payload_subtree_parse_payload_children.induct)
  case (2 fuel nodes buffers np bp)
  show ?case
  proof (cases "get nodes np")
    case None
    then show ?thesis by simp
  next
    case (Some node)
    have np: "np < length nodes" using Some by (simp add: get_eq_Some_iff)
    have "no_panic (parse_payload_children fuel nodes buffers (unat (en_child_count node)) (np + 1) e)"
      if "checked_add np 1 = Some (np + 1)" "checked_add bp (unat (en_buffer_count node)) = Some e"
        "\<not> length buffers < e" "slice buffers bp e = (Ok owned :: buffer_descriptor list res)" for e owned
      using that Some np "2.prems" by (intro "2.IH" [of node "np + 1" e owned]) simp_all
    then show ?thesis
      using Some by (auto simp: checked_add_eq_Some_iff slice_Ok ok_iffs intro!: no_panic_intros)
  qed
next
  case (4 fuel nodes buffers n np bp)
  have c: "no_panic (parse_payload_subtree fuel nodes buffers np bp)"
    using "4.IH"(1) "4.prems" by simp
  have "no_panic (parse_payload_children fuel nodes buffers n np1 bp1)"
    if "parse_payload_subtree fuel nodes buffers np bp = Ok (t, np1, bp1)" for t np1 bp1
    using subtree_Ok(1) [OF that "4.prems"(2)] "4.prems"
    by (intro "4.IH"(2) [OF that refl refl]) (auto simp: took_def)
  then show ?case using c by (auto intro!: no_panic_intros)
qed simp_all

lemma subtree_complete:
  assumes "tree_counts t" "length (tree_nodes t) \<le> fuel"
    and "length pre + length (tree_nodes t) < usize_limit" "length bpre + length (tree_buffers t) < usize_limit"
  shows "parse_payload_subtree fuel (pre @ tree_nodes t @ post) (bpre @ tree_buffers t @ bpost) (length pre) (length bpre) =
    Ok (t, length pre + length (tree_nodes t), length bpre + length (tree_buffers t))"
  using assms
proof (induction t arbitrary: fuel pre post bpre bpost)
  case (PTree n bs ts)
  from PTree.prems(2) obtain f where f: "fuel = Suc f" by (cases fuel) auto
  have children: "parse_payload_children f (pre @ concat (map tree_nodes us) @ post) (bpre @ concat (map tree_buffers us) @ bpost)
      (length us) (length pre) (length bpre) =
      Ok (us, length pre + length (concat (map tree_nodes us)), length bpre + length (concat (map tree_buffers us)))"
    if "set us \<subseteq> set ts" "list_all tree_counts us" "length (concat (map tree_nodes us)) \<le> f"
      "length pre + length (concat (map tree_nodes us)) < usize_limit"
      "length bpre + length (concat (map tree_buffers us)) < usize_limit" for us pre bpre
    using that
  proof (induction us arbitrary: pre bpre)
    case (Cons u us)
    have u: "parse_payload_subtree f (pre @ tree_nodes u @ (concat (map tree_nodes us) @ post)) (bpre @ tree_buffers u @ (concat (map tree_buffers us) @ bpost))
        (length pre) (length bpre) = Ok (u, length pre + length (tree_nodes u), length bpre + length (tree_buffers u))"
      using Cons.prems by (intro PTree.IH) auto
    have us: "parse_payload_children f ((pre @ tree_nodes u) @ concat (map tree_nodes us) @ post) ((bpre @ tree_buffers u) @ concat (map tree_buffers us) @ bpost)
      (length us) (length (pre @ tree_nodes u)) (length (bpre @ tree_buffers u)) =
      Ok (us, length (pre @ tree_nodes u) + length (concat (map tree_nodes us)), length (bpre @ tree_buffers u) + length (concat (map tree_buffers us)))"
      using Cons.prems by (intro Cons.IH) auto
    show ?case using u us by (simp add: add.assoc)
  qed simp
  have c: "parse_payload_children f ((pre @ [n]) @ concat (map tree_nodes ts) @ post) ((bpre @ bs) @ concat (map tree_buffers ts) @ bpost)
      (length ts) (length (pre @ [n])) (length (bpre @ bs)) =
      Ok (ts, length (pre @ [n]) + length (concat (map tree_nodes ts)), length (bpre @ bs) + length (concat (map tree_buffers ts)))"
    using PTree.prems by (intro children) (simp_all add: f)
  have g: "get (pre @ (n # concat (map tree_nodes ts)) @ post) (length pre) = Some n" by (simp add: get_def)
  have s: "slice (bpre @ (bs @ concat (map tree_buffers ts)) @ bpost) (length bpre) (length bpre + length bs) = (Ok bs :: buffer_descriptor list res)"
    by (simp add: slice_Ok sub_def)
  have k: "unat (en_child_count n) = length ts" "unat (en_buffer_count n) = length bs" using PTree.prems(1) by simp_all
  have a: "checked_add (length pre) 1 = Some (length pre + 1)" "checked_add (length bpre) (length bs) = Some (length bpre + length bs)"
    using PTree.prems(3,4) by (simp_all add: checked_add_def)
  show ?case
    unfolding f tree_nodes.simps tree_buffers.simps parse_payload_subtree.simps g ok_or_simps and_then_simps a k s
    using c by simp
qed

lemma payload_tree_iff:
  assumes "length nodes < usize_limit" "length buffers < usize_limit"
  shows "payload_tree nodes buffers root = Ok t \<longleftrightarrow>
    tree_counts t \<and> tree_nodes t = nodes \<and> tree_buffers t = buffers \<and> en_node_id (pt_node t) = root"
proof
  assume a: "payload_tree nodes buffers root = Ok t"
  then have r: "en_node_id (nodes ! 0) = root"
    and p: "parse_payload_subtree (Suc (length nodes)) nodes buffers 0 0 = Ok (t, length nodes, length buffers)"
    by (auto simp: payload_tree_def ok_iffs simp del: parse_payload_subtree.simps split: if_splits prod.splits)
  have "tree_counts t \<and> tree_nodes t = nodes \<and> tree_buffers t = buffers"
    using subtree_Ok(1) [OF p] by (simp add: took_all)
  moreover have "nodes ! 0 = pt_node t" using calculation by (cases t) auto
  ultimately show "tree_counts t \<and> tree_nodes t = nodes \<and> tree_buffers t = buffers \<and> en_node_id (pt_node t) = root"
    using r by simp
next
  assume a: "tree_counts t \<and> tree_nodes t = nodes \<and> tree_buffers t = buffers \<and> en_node_id (pt_node t) = root"
  have n: "nodes \<noteq> []" "nodes ! 0 = pt_node t" using a by (cases t; auto)+
  have "parse_payload_subtree (Suc (length nodes)) nodes buffers 0 0 = Ok (t, length nodes, length buffers)"
    using subtree_complete [of t "Suc (length nodes)" "[]" "[]" "[]" "[]"] a assms by simp
  then show "payload_tree nodes buffers root = Ok t"
    using a n by (simp add: payload_tree_def del: parse_payload_subtree.simps)
qed

lemma no_panic_payload_tree [no_panic_intros, simp]: "no_panic (payload_tree nodes buffers root)"
  using subtree_no_panic(1) [of nodes "Suc (length nodes)" 0 0 buffers]
  by (auto simp: payload_tree_def simp del: parse_payload_subtree.simps intro!: no_panic_intros)

section \<open>What the container parser accepts\<close>

lemma unique_root_iff:
  assumes "distinct (map en_node_id nodes)"
  shows "unique_root nodes root = Inr n \<longleftrightarrow> n \<in> set nodes \<and> en_node_id n = root"
proof -
  have l: "length (filter (\<lambda>n. en_node_id n = root) nodes) \<le> 1"
    using assms
  proof (induction nodes)
    case (Cons a as)
    have "filter (\<lambda>n. en_node_id n = root) as = []" if "en_node_id a = root"
      using Cons.prems that by (auto simp: filter_empty_conv image_iff)
    then show ?case using Cons by (cases "en_node_id a = root") auto
  qed simp
  have s: "n \<in> set nodes \<and> en_node_id n = root \<longleftrightarrow> n \<in> set (filter (\<lambda>n. en_node_id n = root) nodes)" by auto
  define fs where "fs = filter (\<lambda>n. en_node_id n = root) nodes"
  show ?thesis
    unfolding s unique_root_def fs_def [symmetric] using l [folded fs_def] by (auto split: list.splits)
qed

lemma no_panic_unique_root [no_panic_intros, simp]: "no_panic (unique_root nodes root)"
  by (auto simp: unique_root_def split: list.splits)

text \<open>
  The descriptors from id \<open>i\<close> on: increasing ranges, each after the end of the one before it
  (a gap is allowed), inside the payload and with its checksum, and \<open>e\<close> the end of the last.
\<close>

fun descriptors_fit ::
    "(bytes \<Rightarrow> u32) \<Rightarrow> buffer_checksum_validation \<Rightarrow> bytes \<Rightarrow> nat \<Rightarrow> nat \<Rightarrow> buffer_descriptor list \<Rightarrow> nat \<Rightarrow> bool" where
  "descriptors_fit crc mode bs i prev [] e \<longleftrightarrow> e = prev"
| "descriptors_fit crc mode bs i prev (d # ds) e \<longleftrightarrow>
     unat (bd_buffer_id d) = i \<and> prev \<le> unat (bd_offset d) \<and> unat (bd_offset d) + unat (bd_length d) \<le> length bs \<and>
     (mode = BCV_Verify \<longrightarrow> crc (sub bs (unat (bd_offset d)) (unat (bd_length d))) = bd_checksum d) \<and>
     descriptors_fit crc mode bs (Suc i) (unat (bd_offset d) + unat (bd_length d)) ds e"

lemma descriptors_loop_iff:
  assumes "length bs < usize_limit"
  shows "bo \<le> unat prev \<Longrightarrow> pos + k * 32 \<le> length bs \<Longrightarrow>
    descriptors_loop crc mode bs bo [i..<i + k] pos prev = Inr (ds, e) \<longleftrightarrow>
      length ds = k \<and> list_all buffer_descriptor_wf ds \<and> concat (map buffer_descriptor_serialize ds) = sub bs pos (k * 32) \<and>
      descriptors_fit crc mode bs i (unat prev) ds (unat e)"
proof (induction k arbitrary: i pos prev ds)
  case 0
  then show ?case by (auto simp: sub_def word_unat_eq_iff)
next
  case (Suc k)
  have up: "[i..<i + Suc k] = i # [Suc i..<Suc i + k]" by (simp add: upt_conv_Cons)
  let ?c = "sub bs pos 32"
  have s: "slice bs pos (pos + PAGE_BUFFER_DESCRIPTOR_LEN) = (Ok ?c :: bytes res)" and l: "length ?c = 32"
    using Suc.prems(2) by (simp_all add: slice_Ok PAGE_BUFFER_DESCRIPTOR_LEN_def length_sub)
  have split: "sub bs pos (Suc k * 32) = ?c @ sub bs (pos + 32) (k * 32)" by (simp add: sub_join)
  show ?case
  proof
    assume a: "descriptors_loop crc mode bs bo [i..<i + Suc k] pos prev = Inr (ds, e)"
    then obtain d ds' where p: "buffer_descriptor_parse ?c = Ok d" and i: "unat (bd_buffer_id d) = i"
      and o: "bo \<le> unat (bd_offset d)" "prev \<le> bd_offset d" and lim: "unat (bd_offset d) + unat (bd_length d) < 2 ^ 64"
      and len: "\<not> length bs < unat (bd_offset d + bd_length d)"
      and chk: "mode = BCV_Verify \<longrightarrow> crc (sub bs (unat (bd_offset d)) (unat (bd_offset d + bd_length d) - unat (bd_offset d))) = bd_checksum d"
      and r: "descriptors_loop crc mode bs bo [Suc i..<Suc i + k] (pos + 32) (bd_offset d + bd_length d) = Inr (ds', e)"
      and ds: "ds = d # ds'"
      unfolding up by (auto simp: s ok_iffs checked_add_word_eq_Some_iff PAGE_BUFFER_DESCRIPTOR_LEN_def not_less split: if_splits prod.splits)
    have e: "unat (bd_offset d + bd_length d) = unat (bd_offset d) + unat (bd_length d)"
      using lim by (simp add: unat_add_no_overflow)
    have "length ds' = k \<and> list_all buffer_descriptor_wf ds' \<and> concat (map buffer_descriptor_serialize ds') = sub bs (pos + 32) (k * 32) \<and>
        descriptors_fit crc mode bs (Suc i) (unat (bd_offset d + bd_length d)) ds' (unat e)"
      using r o Suc.prems by (subst Suc.IH [symmetric]) (simp_all add: e)
    moreover have "buffer_descriptor_wf d" "buffer_descriptor_serialize d = ?c"
      using buffer_descriptor.dec_exact_iff [OF l, of d] p by simp_all
    ultimately show "length ds = Suc k \<and> list_all buffer_descriptor_wf ds \<and>
        concat (map buffer_descriptor_serialize ds) = sub bs pos (Suc k * 32) \<and>
        descriptors_fit crc mode bs i (unat prev) ds (unat e)"
      using i o len chk split by (simp add: ds e word_le_nat_alt)
  next
    assume a: "length ds = Suc k \<and> list_all buffer_descriptor_wf ds \<and>
        concat (map buffer_descriptor_serialize ds) = sub bs pos (Suc k * 32) \<and>
        descriptors_fit crc mode bs i (unat prev) ds (unat e)"
    then obtain d ds' where ds: "ds = d # ds'" by (cases ds) auto
    have w: "buffer_descriptor_wf d" "list_all buffer_descriptor_wf ds'" using a by (simp_all add: ds)
    have "buffer_descriptor_serialize d @ concat (map buffer_descriptor_serialize ds') = ?c @ sub bs (pos + 32) (k * 32)"
      using a split by (simp add: ds)
    then have b: "buffer_descriptor_serialize d = ?c" "concat (map buffer_descriptor_serialize ds') = sub bs (pos + 32) (k * 32)"
      using buffer_descriptor.enc_length [OF w(1)] l by simp_all
    have p: "buffer_descriptor_parse ?c = Ok d" using buffer_descriptor.dec_exact_iff [OF l, of d] w b by simp
    have f: "unat (bd_buffer_id d) = i" "unat prev \<le> unat (bd_offset d)" "unat (bd_offset d) + unat (bd_length d) \<le> length bs"
      "mode = BCV_Verify \<longrightarrow> crc (sub bs (unat (bd_offset d)) (unat (bd_length d))) = bd_checksum d"
      "descriptors_fit crc mode bs (Suc i) (unat (bd_offset d) + unat (bd_length d)) ds' (unat e)"
      using a by (simp_all add: ds)
    have lim: "unat (bd_offset d) + unat (bd_length d) < 2 ^ 64" using f(3) assms by (simp add: usize_limit_def)
    have e: "unat (bd_offset d + bd_length d) = unat (bd_offset d) + unat (bd_length d)"
      using lim by (simp add: unat_add_no_overflow)
    have r: "descriptors_loop crc mode bs bo [Suc i..<Suc i + k] (pos + 32) (bd_offset d + bd_length d) = Inr (ds', e)"
      using f b w a Suc.prems by (subst Suc.IH) (simp_all add: e ds)
    have sl: "slice bs (unat (bd_offset d)) (unat (bd_offset d) + unat (bd_length d)) = (Ok (sub bs (unat (bd_offset d)) (unat (bd_length d))) :: bytes res)"
      using f(3) by (simp add: slice_Ok)
    have c: "checked_add_word (bd_offset d) (bd_length d) = Some (bd_offset d + bd_length d)"
      using lim by (simp add: checked_add_word_eq_Some_iff)
    have o: "\<not> (unat (bd_offset d) < bo \<or> bd_offset d < prev)" using f(2) Suc.prems(1) by (auto simp: word_less_nat_alt)
    have n: "\<not> length bs < unat (bd_offset d) + unat (bd_length d)" using f(3) by simp
    show "descriptors_loop crc mode bs bo [i..<i + Suc k] pos prev = Inr (ds, e)"
      unfolding up descriptors_loop.simps s p and_then_simps f(1) if_not_P [OF o] c ok_or_simps e if_not_P [OF n] sl
      using r f(4) by (simp add: ds PAGE_BUFFER_DESCRIPTOR_LEN_def)
  qed
qed

lemma no_panic_descriptors_loop:
  "pos + length ids * 32 \<le> length bs \<Longrightarrow> no_panic (descriptors_loop crc mode bs bo ids pos prev)"
proof (induction crc mode bs bo ids pos prev rule: descriptors_loop.induct)
  case (2 crc mode bs bo expected ids pos prev)
  have le: "unat (d :: u64) \<le> unat (d + l)" if "unat d + unat l < 2 ^ 64" for d l
    using that by (simp add: unat_add_no_overflow)
  have "no_panic (descriptors_loop crc mode bs bo ids (pos + PAGE_BUFFER_DESCRIPTOR_LEN) e)" 
    if "slice bs pos (pos + PAGE_BUFFER_DESCRIPTOR_LEN) = (Ok c :: bytes res)" "buffer_descriptor_parse c = Inr d"
      "unat (bd_buffer_id d) = expected" "bo \<le> unat (bd_offset d)" "prev \<le> bd_offset d"
      "checked_add_word (bd_offset d) (bd_length d) = Some e" "unat e \<le> length bs"
      "slice bs (unat (bd_offset d)) (unat e) = (Ok region :: bytes res)" "mode = BCV_Verify \<longrightarrow> crc region = bd_checksum d" for c d e region
    using that "2.prems" by (intro "2.IH") (auto simp: PAGE_BUFFER_DESCRIPTOR_LEN_def not_less)
  then show ?case
    using "2.prems" buffer_descriptor.dec_no_panic le
    by (cases mode) (auto simp: slice_Ok PAGE_BUFFER_DESCRIPTOR_LEN_def ok_iffs checked_add_word_eq_Some_iff not_less intro!: no_panic_intros)
qed simp

definition payload_prefix :: "payload_parts \<Rightarrow> bytes" where
  "payload_prefix p = payload_header_serialize (pp_header p) @ concat (map encoding_node_serialize (pp_nodes p)) @
     concat (map buffer_descriptor_serialize (pp_buffers p))"

definition payload_nodes_rule :: "payload_parts \<Rightarrow> bool" where
  "payload_nodes_rule p \<longleftrightarrow> list_all encoding_node_wf (pp_nodes p) \<and> distinct (map en_node_id (pp_nodes p)) \<and>
     (\<exists>n \<in> set (pp_nodes p). en_node_id n = ph_root_node_id (pp_header p) \<and> en_logical_len n = ph_row_count (pp_header p))"

definition payload_layout_rule :: "payload_parts \<Rightarrow> bool" where
  "payload_layout_rule p \<longleftrightarrow> payload_header_wf (pp_header p) \<and> list_all buffer_descriptor_wf (pp_buffers p) \<and>
     unat (ph_node_count (pp_header p)) = length (pp_nodes p) \<and> unat (ph_buffer_count (pp_header p)) = length (pp_buffers p) \<and>
     unat (ph_nodes_offset (pp_header p)) = 36 \<and>
     unat (ph_buffer_directory_offset (pp_header p)) = 36 + 30 * length (pp_nodes p) \<and>
     unat (ph_buffers_offset (pp_header p)) = 36 + 30 * length (pp_nodes p) + 32 * length (pp_buffers p)"

lemma length_payload_prefix:
  "payload_layout_rule p \<Longrightarrow> payload_nodes_rule p \<Longrightarrow> length (payload_prefix p) = unat (ph_buffers_offset (pp_header p))"
  using payload_header.enc_length [of "pp_header p"] encoding_node.array_length [of "pp_nodes p"]
    buffer_descriptor.array_length [of "pp_buffers p"]
  by (simp add: payload_prefix_def payload_layout_rule_def payload_nodes_rule_def list_all_iff)

lemma payload_parts_iff:
  assumes lim: "length bs < usize_limit"
  shows "payload_parts_parse crc bs mode = Ok p \<longleftrightarrow>
    take (length (payload_prefix p)) bs = payload_prefix p \<and> payload_layout_rule p \<and> payload_nodes_rule p \<and>
    descriptors_fit crc mode bs 0 (unat (ph_buffers_offset (pp_header p))) (pp_buffers p) (length bs)"
proof
  let ?h = "pp_header p" and ?ns = "pp_nodes p" and ?ds = "pp_buffers p"
  assume a: "payload_parts_parse crc bs mode = Ok p"
  then obtain root e where h: "payload_header_parse bs = Ok ?h"
    and off: "unat (ph_nodes_offset ?h) = 36" "unat (ph_buffers_offset ?h) \<le> length bs"
    and dir: "unat (ph_buffer_directory_offset ?h) = 36 + unat (ph_node_count ?h) * 30"
    and buf: "unat (ph_buffers_offset ?h) = 36 + unat (ph_node_count ?h) * 30 + unat (ph_buffer_count ?h) * 32"
    and ns: "parse_array encoding_node_parse 30 (unat (ph_node_count ?h)) bs 36 = Ok ?ns"
    and d: "distinct (map en_node_id ?ns)" and r: "unique_root ?ns (ph_root_node_id ?h) = Ok root"
    and rl: "en_logical_len root = ph_row_count ?h"
    and ds: "descriptors_loop crc mode bs (unat (ph_buffers_offset ?h)) [0..<0 + unat (ph_buffer_count ?h)]
      (36 + unat (ph_node_count ?h) * 30) (ucast (ph_buffers_offset ?h)) = Ok (?ds, e)"
    and e: "unat e = length bs"
    by (auto simp: payload_parts_parse_def Let_def ok_iffs checked_add_eq_Some_iff checked_mul_eq_Some_iff
        COLUMN_PAGE_PAYLOAD_HEADER_LEN_def COVE_ENCODING_NODE_LEN_def PAGE_BUFFER_DESCRIPTOR_LEN_def not_less
        split: if_splits prod.splits)
  note hd = payload_header.dec_Ok [OF h]
  have n: "length ?ns = unat (ph_node_count ?h) \<and> list_all encoding_node_wf ?ns \<and>
      concat (map encoding_node_serialize ?ns) = sub bs 36 (unat (ph_node_count ?h) * 30)"
    using ns off buf by (subst (asm) encoding_node.parse_array_iff) simp_all
  have f: "length ?ds = unat (ph_buffer_count ?h) \<and> list_all buffer_descriptor_wf ?ds \<and>
      concat (map buffer_descriptor_serialize ?ds) = sub bs (36 + unat (ph_node_count ?h) * 30) (unat (ph_buffer_count ?h) * 32) \<and>
      descriptors_fit crc mode bs 0 (unat (ph_buffers_offset ?h)) ?ds (unat e)"
    using ds off buf by (subst (asm) descriptors_loop_iff [OF lim]) simp_all
  have lr: "payload_layout_rule p"
    using hd off dir buf n f by (simp add: payload_layout_rule_def)
  have nr: "payload_nodes_rule p"
    using n d r rl by (auto simp: payload_nodes_rule_def unique_root_iff)
  have "payload_prefix p = sub bs 0 36 @ sub bs 36 (unat (ph_node_count ?h) * 30) @
      sub bs (36 + unat (ph_node_count ?h) * 30) (unat (ph_buffer_count ?h) * 32)"
    using hd n f by (simp add: payload_prefix_def sub_def)
  also have "\<dots> = take (unat (ph_buffers_offset ?h)) bs"
    by (simp add: sub_join buf) (simp add: sub_def add.assoc)
  finally show "take (length (payload_prefix p)) bs = payload_prefix p \<and> payload_layout_rule p \<and> payload_nodes_rule p \<and>
      descriptors_fit crc mode bs 0 (unat (ph_buffers_offset ?h)) ?ds (length bs)"
    using lr nr f e length_payload_prefix [OF lr nr] by simp
next
  let ?h = "pp_header p" and ?ns = "pp_nodes p" and ?ds = "pp_buffers p"
  assume a: "take (length (payload_prefix p)) bs = payload_prefix p \<and> payload_layout_rule p \<and> payload_nodes_rule p \<and>
    descriptors_fit crc mode bs 0 (unat (ph_buffers_offset ?h)) ?ds (length bs)"
  then have lr: "payload_layout_rule p" and nr: "payload_nodes_rule p" by simp_all
  have b: "bs = payload_prefix p @ drop (length (payload_prefix p)) bs" using a by (metis append_take_drop_id)
  have len: "length (payload_prefix p) \<le> length bs" using arg_cong [OF b, of length] by simp
  have bo: "length (payload_prefix p) = unat (ph_buffers_offset ?h)" by (rule length_payload_prefix [OF lr nr])
  have off: "unat (ph_nodes_offset ?h) = 36" "unat (ph_buffer_directory_offset ?h) = 36 + length ?ns * 30"
    "unat (ph_buffers_offset ?h) = 36 + length ?ns * 30 + length ?ds * 32"
    "unat (ph_node_count ?h) = length ?ns" "unat (ph_buffer_count ?h) = length ?ds"
    and w: "payload_header_wf ?h" "list_all buffer_descriptor_wf ?ds"
    using lr by (auto simp: payload_layout_rule_def)
  have wn: "list_all encoding_node_wf ?ns" "distinct (map en_node_id ?ns)"
    and root: "\<exists>n \<in> set ?ns. en_node_id n = ph_root_node_id ?h \<and> en_logical_len n = ph_row_count ?h"
    using nr by (auto simp: payload_nodes_rule_def)
  have hl: "length (payload_header_serialize ?h) = 36" by (rule payload_header.enc_length [OF w(1)])
  have nl: "length (concat (map encoding_node_serialize ?ns)) = 30 * length ?ns"
    using encoding_node.array_length [of ?ns] wn by (simp add: list_all_iff)
  have dl: "length (concat (map buffer_descriptor_serialize ?ds)) = 32 * length ?ds"
    using buffer_descriptor.array_length [of ?ds] w by (simp add: list_all_iff)
  define rest where "rest = drop (length (payload_prefix p)) bs"
  have bs: "bs = payload_header_serialize ?h @ concat (map encoding_node_serialize ?ns) @ concat (map buffer_descriptor_serialize ?ds) @ rest"
    using b by (simp add: payload_prefix_def rest_def)
  have h: "payload_header_parse bs = Ok ?h" by (subst bs) (rule payload_header.dec_enc [OF w(1)])
  have "sub bs 36 (length ?ns * 30) = concat (map encoding_node_serialize ?ns)"
    by (subst bs) (simp add: sub_def hl nl)
  moreover have "sub bs (36 + length ?ns * 30) (length ?ds * 32) = concat (map buffer_descriptor_serialize ?ds)"
    by (subst bs) (simp add: sub_def hl nl dl)
  ultimately have s: "concat (map encoding_node_serialize ?ns) = sub bs 36 (length ?ns * 30)"
    "concat (map buffer_descriptor_serialize ?ds) = sub bs (36 + length ?ns * 30) (length ?ds * 32)" by simp_all
  have n: "parse_array encoding_node_parse 30 (length ?ns) bs 36 = Ok ?ns"
    using wn s len bo off by (subst encoding_node.parse_array_iff) simp_all
  have lb: "unat (of_nat (length bs) :: u64) = length bs"
    by (rule unat_of_nat_less) (use lim in \<open>simp add: usize_limit_def\<close>)
  have d: "descriptors_loop crc mode bs (unat (ph_buffers_offset ?h)) [0..<0 + length ?ds] (36 + length ?ns * 30)
      (ucast (ph_buffers_offset ?h)) = Ok (?ds, of_nat (length bs))"
    using a w s len bo off by (subst descriptors_loop_iff [OF lim]) (simp_all add: lb)
  obtain n where r: "unique_root ?ns (ph_root_node_id ?h) = Ok n" "en_logical_len n = ph_row_count ?h"
    using root unique_root_iff [OF wn(2)] by blast
  have ne: "ph_node_count ?h \<noteq> 0" using root off(4) by auto
  have sm: "length ?ns < 2 ^ 16" "length ?ds < 2 ^ 16"
    using unat_u16_less [of "ph_node_count ?h"] unat_u16_less [of "ph_buffer_count ?h"] off by simp_all
  have g: "\<not> (unat (ph_nodes_offset ?h) \<noteq> COLUMN_PAGE_PAYLOAD_HEADER_LEN \<or>
      unat (ph_buffer_directory_offset ?h) < unat (ph_nodes_offset ?h) \<or>
      unat (ph_buffers_offset ?h) < unat (ph_buffer_directory_offset ?h) \<or> length bs < unat (ph_buffers_offset ?h))"
    using off len bo by (simp add: COLUMN_PAGE_PAYLOAD_HEADER_LEN_def)
  have c: "checked_mul (length ?ns) COVE_ENCODING_NODE_LEN = Some (length ?ns * 30)"
    "checked_mul (length ?ds) PAGE_BUFFER_DESCRIPTOR_LEN = Some (length ?ds * 32)"
    "checked_add 36 (length ?ns * 30) = Some (36 + length ?ns * 30)"
    "checked_add (36 + length ?ns * 30) (length ?ds * 32) = Some (36 + length ?ns * 30 + length ?ds * 32)"
    using sm by (simp_all add: checked_mul_def checked_add_def usize_limit_def COVE_ENCODING_NODE_LEN_def PAGE_BUFFER_DESCRIPTOR_LEN_def)
  have o3: "(36 + length ?ns * 30 \<noteq> 36 + length ?ns * 30) = False"
    "(unat (ph_buffers_offset ?h) \<noteq> 36 + length ?ns * 30 + length ?ds * 32) = False" using off(3) by simp_all
  have d: "descriptors_loop crc mode bs (unat (ph_buffers_offset ?h)) [0..<length ?ds] (36 + length ?ns * 30)
      (ucast (ph_buffers_offset ?h)) = Ok (?ds, of_nat (length bs))" using d by simp
  show "payload_parts_parse crc bs mode = Ok p"
    unfolding payload_parts_parse_def h and_then_simps Let_def if_not_P [OF g]
    unfolding off(1,2,4,5) c ok_or_simps and_then_simps o3 if_False
    using n d r ne wn(2) lb by (simp add: COVE_ENCODING_NODE_LEN_def)
qed


lemma no_panic_payload_parts [no_panic_intros]: "no_panic (payload_parts_parse crc bs mode)"
proof -
  have n: "no_panic (parse_array encoding_node_parse 30 k bs 36)" if "36 + k * 30 \<le> length bs" for k
    using that by (rule encoding_node.parse_array_no_panic)
  have d: "no_panic (descriptors_loop crc mode bs o' [0..<k] pos prev)" if "pos + k * 32 \<le> length bs" for k pos prev o'
    using that by (simp add: no_panic_descriptors_loop)
  show ?thesis
    unfolding payload_parts_parse_def Let_def
    using payload_header.dec_no_panic [of bs] n d
    by (auto simp: ok_iffs COVE_ENCODING_NODE_LEN_def COLUMN_PAGE_PAYLOAD_HEADER_LEN_def PAGE_BUFFER_DESCRIPTOR_LEN_def
        checked_add_eq_Some_iff checked_mul_eq_Some_iff not_less intro!: no_panic_intros split: prod.splits)
qed

lemma no_panic_payload_parse [no_panic_intros, simp]: "no_panic (payload_parse_with crc bs mode)" "no_panic (payload_parse crc bs)"
  by (auto simp: payload_parse_def payload_parse_with_def intro!: no_panic_intros)

definition payload_parts_of :: "page_payload \<Rightarrow> payload_parts" where
  "payload_parts_of p = \<lparr>pp_header = pl_header p, pp_nodes = pl_nodes p, pp_buffers = pl_buffers p\<rparr>"

lemma payload_parts_of_simps [simp]:
  "pp_header (payload_parts_of p) = pl_header p" "pp_nodes (payload_parts_of p) = pl_nodes p"
  "pp_buffers (payload_parts_of p) = pl_buffers p" "payload_parts_of (p\<lparr>pl_data := bs\<rparr>) = payload_parts_of p"
  by (simp_all add: payload_parts_of_def)

lemma payload_parse_with_iff_parts:
  "payload_parse_with crc bs mode = Ok p \<longleftrightarrow> payload_parts_parse crc bs mode = Ok (payload_parts_of p) \<and> pl_data p = bs"
  by (cases p) (auto simp: payload_parse_with_def ok_iffs payload_parts_of_def)

text \<open>The acceptance condition of the container.\<close>

definition payload_accepts :: "(bytes \<Rightarrow> u32) \<Rightarrow> buffer_checksum_validation \<Rightarrow> bytes \<Rightarrow> page_payload \<Rightarrow> bool" where
  "payload_accepts crc mode bs p \<longleftrightarrow>
     take (length (payload_prefix (payload_parts_of p))) bs = payload_prefix (payload_parts_of p) \<and>
     payload_layout_rule (payload_parts_of p) \<and> payload_nodes_rule (payload_parts_of p) \<and>
     descriptors_fit crc mode bs 0 (unat (ph_buffers_offset (pl_header p))) (pl_buffers p) (length bs)"

lemma payload_parse_with_iff:
  "length bs < usize_limit \<Longrightarrow> payload_parse_with crc bs mode = Inr p \<longleftrightarrow> pl_data p = bs \<and> payload_accepts crc mode bs p"
  by (auto simp: payload_parse_with_iff_parts [unfolded ok_iffs] payload_parts_iff [unfolded ok_iffs] payload_accepts_def)

section \<open>What the writers produce\<close>

lemma length_describe_buffers [simp]: "length (describe_buffers crc i offset buffers) = length buffers"
  by (induction crc i offset buffers rule: describe_buffers.induct) simp_all

lemma describe_buffers_wf: "list_all buffer_descriptor_wf (describe_buffers crc i offset buffers)"
  by (induction crc i offset buffers rule: describe_buffers.induct) (simp_all add: buffer_descriptor_wf_def)

lemma describe_buffers_kinds: "map bd_kind (describe_buffers crc i offset buffers) = map fst buffers"
  by (induction crc i offset buffers rule: describe_buffers.induct) simp_all

lemma describe_buffers_fit:
  assumes "length pre + length (concat (map snd buffers)) < usize_limit" "i + length buffers \<le> 2 ^ 16"
  shows "descriptors_fit crc mode (pre @ concat (map snd buffers)) i (length pre)
      (describe_buffers crc i (of_nat (length pre)) buffers) (length pre + length (concat (map snd buffers))) \<and>
    map (descriptor_data (pre @ concat (map snd buffers))) (describe_buffers crc i (of_nat (length pre)) buffers) =
      map (\<lambda>(k, b). Ok b) buffers"
  using assms
proof (induction buffers arbitrary: i pre)
  case (Cons kb buffers)
  obtain k b where kb: "kb = (k, b)" by (cases kb)
  let ?all = "pre @ b @ concat (map snd buffers)"
  have lim: "length pre < 2 ^ 64" "length b < 2 ^ 64" "length pre + length b < 2 ^ 64"
    using Cons.prems(1) by (simp_all add: kb usize_limit_def)
  have u: "unat (of_nat (length pre) :: u64) = length pre" "unat (of_nat (length b) :: u64) = length b" "unat (of_nat i :: u16) = i"
    using lim Cons.prems(2) by (simp_all add: unat_of_nat_less)
  have i: "Suc i + length buffers \<le> 2 ^ 16" "length (pre @ b) + length (concat (map snd buffers)) < usize_limit"
    using Cons.prems by (simp_all add: kb)
  note ih = Cons.IH [OF i(2,1)]
  have s: "sub ?all (length pre) (length b) = b" by (simp add: sub_def)
  have d: "descriptor_data ?all \<lparr>bd_buffer_id = of_nat i, bd_kind = k, bd_flags = 0, bd_offset = of_nat (length pre),
      bd_length = of_nat (length b), bd_checksum = crc b, bd_reserved = 0\<rparr> = Ok b"
    using lim u by (simp add: descriptor_data_def checked_add_word_def unat_add_no_overflow slice_Ok s)
  show ?case using ih u s d by (simp add: kb add.assoc)
qed simp

lemma payload_offsets_Ok:
  "payload_offsets n m = Ok (36, 36 + ucast n * 30, 36 + ucast n * 30 + ucast m * 32)"
  "unat (36 + ucast n * 30 :: u32) = 36 + unat n * 30"
  "unat (36 + ucast n * 30 + ucast m * 32 :: u32) = 36 + unat n * 30 + unat m * 32"
proof -
  have b: "unat n < 2 ^ 16" "unat m < 2 ^ 16" using unat_u16_less [of n] unat_u16_less [of m] by simp_all
  have p: "unat (ucast n * 30 :: u32) = unat n * 30" "unat (ucast m * 32 :: u32) = unat m * 32"
    using b by (simp_all add: unat_word_ariths unat_ucast_16_32)
  show s: "unat (36 + ucast n * 30 :: u32) = 36 + unat n * 30"
    using b p by (simp add: unat_word_ariths)
  show "unat (36 + ucast n * 30 + ucast m * 32 :: u32) = 36 + unat n * 30 + unat m * 32"
    using b p s by (simp add: unat_word_ariths)
  show "payload_offsets n m = Ok (36, 36 + ucast n * 30, 36 + ucast n * 30 + ucast m * 32)"
    using b p s
    by (simp add: payload_offsets_def Let_def COLUMN_PAGE_PAYLOAD_HEADER_LEN_def COVE_ENCODING_NODE_LEN_def
        PAGE_BUFFER_DESCRIPTOR_LEN_def checked_add_word_def)
qed

text \<open>A page as the writers lay it out, over any list of nodes and buffers.\<close>

definition built_payload ::
    "(bytes \<Rightarrow> u32) \<Rightarrow> u32 \<Rightarrow> u16 \<Rightarrow> encoding_node list \<Rightarrow> (page_buffer_kind \<times> bytes) list \<Rightarrow> page_payload" where
  "built_payload crc rows root nodes buffers =
     (let n = of_nat (length nodes); m = of_nat (length buffers);
          header = payload_header_for rows root n m (36, 36 + ucast n * 30, 36 + ucast n * 30 + ucast m * 32);
          descriptors = describe_buffers crc 0 (ucast (ph_buffers_offset header)) buffers in
      \<lparr>pl_header = header, pl_nodes = nodes, pl_buffers = descriptors,
       pl_data = payload_header_serialize header @ concat (map encoding_node_serialize nodes) @
         concat (map buffer_descriptor_serialize descriptors) @ concat (map snd buffers)\<rparr>)"

definition payload_size :: "encoding_node list \<Rightarrow> (page_buffer_kind \<times> bytes) list \<Rightarrow> nat" where
  "payload_size nodes buffers = 36 + 30 * length nodes + 32 * length buffers + length (concat (map snd buffers))"

definition buildable :: "u32 \<Rightarrow> u16 \<Rightarrow> encoding_node list \<Rightarrow> (page_buffer_kind \<times> bytes) list \<Rightarrow> bool" where
  "buildable rows root nodes buffers \<longleftrightarrow>
     length nodes < 2 ^ 16 \<and> length buffers < 2 ^ 16 \<and> payload_size nodes buffers < usize_limit \<and>
     list_all encoding_node_wf nodes \<and> distinct (map en_node_id nodes) \<and>
     (\<exists>n \<in> set nodes. en_node_id n = root \<and> en_logical_len n = rows)"

lemma built_payload_parses:
  assumes "buildable rows root nodes buffers"
  shows "payload_parse_with crc (pl_data (built_payload crc rows root nodes buffers)) mode = Ok (built_payload crc rows root nodes buffers)"
    "map (descriptor_data (pl_data (built_payload crc rows root nodes buffers))) (pl_buffers (built_payload crc rows root nodes buffers)) =
      map (\<lambda>(k, b). Ok b) buffers"
    and built_payload_buffers: "pl_buffers (built_payload crc rows root nodes buffers) =
      describe_buffers crc 0 (of_nat (36 + 30 * length nodes + 32 * length buffers)) buffers"
    and length_built_payload: "length (pl_data (built_payload crc rows root nodes buffers)) < usize_limit"
proof -
  let ?p = "built_payload crc rows root nodes buffers" and ?n = "of_nat (length nodes) :: u16" and ?m = "of_nat (length buffers) :: u16"
  let ?q = "payload_parts_of ?p" and ?pre = "payload_prefix (payload_parts_of ?p)"
  have u: "unat ?n = length nodes" "unat ?m = length buffers" using assms by (simp_all add: buildable_def unat_of_nat_less)
  note o = payload_offsets_Ok(2,3) [of ?n, unfolded u] payload_offsets_Ok(3) [of ?n ?m, unfolded u]
  have h: "payload_header_wf (pl_header ?p)" "ph_root_node_id (pl_header ?p) = root" "ph_row_count (pl_header ?p) = rows"
    by (simp_all add: built_payload_def Let_def payload_header_for_def payload_header_wf_def COLUMN_PAGE_PAYLOAD_HEADER_LEN_def)
  have f: "pl_nodes ?p = nodes" "pl_buffers ?p = describe_buffers crc 0 (ucast (ph_buffers_offset (pl_header ?p))) buffers"
    "unat (ph_buffers_offset (pl_header ?p)) = 36 + 30 * length nodes + 32 * length buffers"
    "pl_data ?p = ?pre @ concat (map snd buffers)"
    using o by (simp_all add: built_payload_def Let_def payload_header_for_def payload_prefix_def payload_parts_of_def mult.commute)
  have lr: "payload_layout_rule ?q"
    using h o u by (simp add: payload_layout_rule_def f(1) built_payload_def Let_def payload_header_for_def describe_buffers_wf)
  have nr: "payload_nodes_rule ?q" using assms h by (simp add: payload_nodes_rule_def f(1) buildable_def)
  have l: "length ?pre = 36 + 30 * length nodes + 32 * length buffers" using length_payload_prefix [OF lr nr] f(3) by simp
  have lim64: "length ?pre < 2 ^ 64" using assms by (simp add: l buildable_def payload_size_def usize_limit_def)
  then have lu: "unat (of_nat (length ?pre) :: u64) = length ?pre" by (intro unat_of_nat_less) simp
  have w: "ucast (ph_buffers_offset (pl_header ?p)) = (of_nat (length ?pre) :: u64)"
    unfolding word_unat_eq_iff unat_ucast_32_64 lu unfolding f(3) l by (rule refl)
  have lim: "length ?pre + length (concat (map snd buffers)) < usize_limit" "0 + length buffers \<le> 2 ^ 16"
    using assms by (simp_all add: l buildable_def payload_size_def)
  note fit = describe_buffers_fit [OF lim]
  have ld: "length (pl_data ?p) < usize_limit" using lim by (simp add: f(4))
  show "payload_parse_with crc (pl_data ?p) mode = Ok ?p"
    unfolding payload_parse_with_iff [OF ld] payload_accepts_def
    using lr nr fit [of crc mode] by (simp add: f(2-4) w l)
  show "map (descriptor_data (pl_data ?p)) (pl_buffers ?p) = map (\<lambda>(k, b). Ok b) buffers"
    using fit [of crc BCV_Verify] by (simp add: f(2,4) w)
  show "pl_buffers ?p = describe_buffers crc 0 (of_nat (36 + 30 * length nodes + 32 * length buffers)) buffers"
    unfolding f(2) w l by (rule refl)
  show "length (pl_data ?p) < usize_limit" by (rule ld)
qed

lemma build_tree_eq:
  assumes "buildable rows root nodes buffers"
  shows "build_tree crc rows root nodes buffers =
    map_ok (\<lambda>_. pl_data (built_payload crc rows root nodes buffers)) (payload_tree_of (built_payload crc rows root nodes buffers))"
proof -
  have n: "nodes \<noteq> []" "length nodes < 2 ^ 16" "length buffers < 2 ^ 16" using assms by (auto simp: buildable_def)
  have e: "and_then x (\<lambda>_. Ok b) = map_ok (\<lambda>_. b) x" for x :: "page_tree_node res" and b :: bytes
    by (cases x) (simp_all add: and_then_def map_ok_def)
  show ?thesis
    using n built_payload_parses(1) [OF assms, of crc BCV_Verify]
    unfolding build_tree_def payload_offsets_Ok(1) Let_def and_then_simps payload_parse_def
    by (simp add: built_payload_def Let_def e)
qed

lemma descriptor_data_Ok: "descriptor_data data d = Ok b \<Longrightarrow> length data < usize_limit \<Longrightarrow> buffer_descriptor_bytes data d = Ok b"
  by (auto simp: descriptor_data_def buffer_descriptor_bytes_def ok_iffs checked_add_word_eq_Some_iff checked_add_eq_Some_iff
      unat_add_no_overflow split: if_splits)

text \<open>
  A payload of one node and one buffer, with two bytes before the buffer that no descriptor
  names.
\<close>

definition gap_page :: bytes where
  "gap_page =
     [67, 80, 71, 50, 2, 0, 36, 0, 0, 0, 0, 0, 1, 0, 1, 0, 1, 0, 0, 0, 36, 0, 0, 0, 66, 0,
      0, 0, 98, 0, 0, 0, 0, 0, 0, 0,
      0, 0, 0, 0, 2, 0, 1, 1, 1, 0, 0, 0, 0, 0, 1, 0, 0, 0, 0, 0, 0, 0, 0, 0, 0, 0, 0, 0,
      0, 0,
      0, 0, 1, 0, 0, 0, 0, 0, 100, 0, 0, 0, 0, 0, 0, 0, 1, 0, 0, 0, 0, 0, 0, 0, 0, 0, 0,
      0, 0, 0, 0, 0,
      0, 0, 5]"

definition gap_payload :: "bytes \<Rightarrow> page_payload" where
  "gap_payload bs =
     \<lparr>pl_header = payload_header_for 1 0 1 1 (36, 66, 98),
      pl_nodes = [\<lparr>en_node_id = 0, en_encoding_kind = EK_Canonical, en_logical_type = LT_Int8, en_physical_kind = PK_NumCode,
        en_flags = 1, en_logical_len = 1, en_child_count = 0, en_buffer_count = 1, en_params_offset = 0,
        en_params_length = 0, en_stats_id = 0, en_reserved = 0\<rparr>],
      pl_buffers = [\<lparr>bd_buffer_id = 0, bd_kind = PB_Values, bd_flags = 0, bd_offset = 100, bd_length = 1,
        bd_checksum = 0, bd_reserved = 0\<rparr>],
      pl_data = bs\<rparr>"

lemma gap_payload_prefix: "payload_prefix (payload_parts_of (gap_payload bs)) = take 98 gap_page"
proof -
  have h: "payload_header_serialize (pl_header (gap_payload bs)) = take 36 gap_page"
    by (subst payload_header_serialize_eq)
      (simp_all add: gap_payload_def payload_header_for_def COLUMN_PAGE_PAYLOAD_MAGIC_def gap_page_def le_bytes_def
        COLUMN_PAGE_PAYLOAD_VERSION_MAJOR_def COLUMN_PAGE_PAYLOAD_HEADER_LEN_def)
  have n: "concat (map encoding_node_serialize (pl_nodes (gap_payload bs))) = sub gap_page 36 30"
    by (simp add: gap_payload_def encoding_node_serialize_eq gap_page_def le_bytes_def sub_def)
  have d: "concat (map buffer_descriptor_serialize (pl_buffers (gap_payload bs))) = sub gap_page 66 32"
    by (simp add: gap_payload_def buffer_descriptor_serialize_eq gap_page_def le_bytes_def sub_def)
  show ?thesis by (simp add: payload_prefix_def h n d) (simp add: gap_page_def sub_def)
qed

lemma gap_page_accepts: "payload_accepts (\<lambda>_. 0) mode (take 98 gap_page @ [x, y, z]) (gap_payload bs)"
proof -
  have l: "length gap_page = 101" by (simp add: gap_page_def)
  show ?thesis
    unfolding payload_accepts_def gap_payload_prefix
    by (simp add: l gap_payload_def payload_layout_rule_def payload_nodes_rule_def payload_header_wf_def payload_header_for_def
        encoding_node_wf_def buffer_descriptor_wf_def COLUMN_PAGE_PAYLOAD_MAGIC_def COLUMN_PAGE_PAYLOAD_VERSION_MAJOR_def
        COLUMN_PAGE_PAYLOAD_HEADER_LEN_def)
qed

lemma gap_page_parses:
  "payload_parse (\<lambda>_. 0) (take 98 gap_page @ [x, y, z]) = Ok (gap_payload (take 98 gap_page @ [x, y, z]))"
  unfolding payload_parse_def
  by (subst payload_parse_with_iff)
    (simp_all add: gap_page_accepts usize_limit_def, simp add: gap_payload_def)

lemma descriptors_fit_cong:
  "descriptors_fit crc mode bs i prev ds e \<Longrightarrow> length bs' = length bs \<Longrightarrow>
   (\<And>d. d \<in> set ds \<Longrightarrow> sub bs' (unat (bd_offset d)) (unat (bd_length d)) = sub bs (unat (bd_offset d)) (unat (bd_length d))) \<Longrightarrow>
   descriptors_fit crc mode bs' i prev ds e"
  by (induction crc mode bs i prev ds e rule: descriptors_fit.induct) simp_all

text \<open>A root without buffers and a child with one, for the witness of the round trip.\<close>

definition page_tree_example :: page_tree_node where
  "page_tree_example =
     (let root = \<lparr>en_node_id = 4, en_encoding_kind = EK_Validity, en_logical_type = LT_Int16, en_physical_kind = PK_NumCode,
            en_flags = 0, en_logical_len = 1, en_child_count = 1, en_buffer_count = 0, en_params_offset = 0,
            en_params_length = 0, en_stats_id = 0, en_reserved = 0\<rparr> in
      PTree root [] [PTree (root\<lparr>en_node_id := 9, en_encoding_kind := EK_PlainFixed, en_child_count := 0, en_buffer_count := 1\<rparr>)
        (describe_buffers (\<lambda>_. 7) 0 128 [(PB_Values, [5, 6])]) []])"

section \<open>Properties\<close>

text \<open>
  C22: the parser of a page payload accepts exactly the byte strings that start with the header, the node
  list and the descriptor list it returns, with the counts and offsets of the header those of a
  payload without padding between the three, distinct node ids, a root node whose length is the
  row count, and descriptors numbered from 0 with increasing ranges inside the payload, checksums
  that match (unless they are trusted) and the last range ending where the payload ends.
\<close>

theorem page_payload_exact:
  assumes "length bs < usize_limit"
  shows "payload_parse_with crc bs mode = Ok p \<longleftrightarrow> pl_data p = bs \<and> payload_accepts crc mode bs p"
  using payload_parse_with_iff [OF assms] by simp

theorem page_payload_exact_witness:
  "payload_parse_with (\<lambda>_. 0) (take 98 gap_page @ [0, 0, 5]) BCV_Verify = Ok (gap_payload (take 98 gap_page @ [0, 0, 5]))"
  by (subst page_payload_exact) (simp_all add: gap_page_accepts usize_limit_def, simp add: gap_payload_def)

text \<open>
  C21: the walk that rebuilds the tree of encoding nodes from the preorder node list of a payload
  returns exactly the tree whose preorder is the node list, whose nodes own the descriptors in
  order, whose counts of children and buffers are the declared ones and whose root has the declared
  id; so every node and every descriptor is in the tree once, and the tree is unique.
\<close>

theorem page_tree_is_preorder:
  assumes "length (pl_nodes p) < usize_limit" "length (pl_buffers p) < usize_limit"
  shows "payload_tree_of p = Ok t \<longleftrightarrow> tree_nodes t = pl_nodes p \<and> tree_buffers t = pl_buffers p \<and> tree_counts t \<and>
    en_node_id (pt_node t) = ph_root_node_id (pl_header p)"
  using payload_tree_iff [OF assms] by (auto simp: payload_tree_of_def)

theorem page_tree_is_preorder_witness:
  "payload_tree_of (gap_payload []) = Ok (PTree (hd (pl_nodes (gap_payload []))) (pl_buffers (gap_payload [])) [])"
  by (subst page_tree_is_preorder) (simp_all add: gap_payload_def usize_limit_def payload_header_for_def)

text \<open>
  C15: writing a tree of encoding nodes and reading the page back gives the tree: for a tree with
  valid nodes and distinct ids and the descriptors of the buffers laid out one after the other,
  \<^verbatim>\<open>build_tree\<close> succeeds, its bytes are accepted with every checksum verified, the tree of
  the parsed payload is the one that was written, and each of its descriptors has the kind and
  the bytes of the buffer it was written for.
\<close>

theorem page_tree_roundtrip:
  assumes "buildable rows (en_node_id (pt_node t)) (tree_nodes t) buffers" "tree_counts t"
    and "tree_buffers t = describe_buffers crc 0 (of_nat (36 + 30 * length (tree_nodes t) + 32 * length buffers)) buffers"
  shows "\<exists>bs p. build_tree crc rows (en_node_id (pt_node t)) (tree_nodes t) buffers = Ok bs \<and> payload_parse crc bs = Ok p \<and>
    payload_tree_of p = Ok t \<and> map bd_kind (tree_buffers t) = map fst buffers \<and>
    map (buffer_bytes_for_descriptor p) (tree_buffers t) = map (\<lambda>(k, b). Ok b) buffers"
proof -
  let ?p = "built_payload crc rows (en_node_id (pt_node t)) (tree_nodes t) buffers"
  note parsed = built_payload_parses [OF assms(1)]
  have n: "pl_nodes ?p = tree_nodes t" "ph_root_node_id (pl_header ?p) = en_node_id (pt_node t)"
    by (simp_all add: built_payload_def Let_def payload_header_for_def)
  have b: "pl_buffers ?p = tree_buffers t" unfolding assms(3) by (rule built_payload_buffers [OF assms(1)])
  have l: "length (pl_data ?p) < usize_limit" by (rule length_built_payload [OF assms(1)])
  have t: "payload_tree_of ?p = Ok t"
    unfolding payload_tree_of_def using assms(1,2)
    by (subst payload_tree_iff) (simp_all add: n b buildable_def usize_limit_def assms(3))
  have "map (buffer_bytes_for_descriptor ?p) (tree_buffers t) = map (\<lambda>(k, b). Ok b) buffers"
    using parsed(2) [of crc] l by (auto simp: b buffer_bytes_for_descriptor_def list_eq_iff_nth_eq split_beta intro!: descriptor_data_Ok)
  then show ?thesis
    using build_tree_eq [OF assms(1)] t parsed(1) [of crc BCV_Verify]
    by (intro exI [of _ "pl_data ?p"] exI [of _ ?p]) (simp add: payload_parse_def assms(3) describe_buffers_kinds)
qed

theorem page_tree_roundtrip_witness:
  "\<exists>bs p. build_tree (\<lambda>_. 7) 1 4 (tree_nodes page_tree_example) [(PB_Values, [5, 6])] = Ok bs \<and>
     payload_parse (\<lambda>_. 7) bs = Ok p \<and> payload_tree_of p = Ok page_tree_example \<and>
     map (buffer_bytes_for_descriptor p) (tree_buffers page_tree_example) = [Ok [5, 6]]"
  using page_tree_roundtrip [of 1 page_tree_example "[(PB_Values, [5, 6])]" "\<lambda>_. 7"]
  by (simp add: page_tree_example_def buildable_def payload_size_def usize_limit_def encoding_node_wf_def)

text \<open>
  C37: the bytes of a payload that no buffer covers are not checked. Two byte strings of the same
  length that agree on the header, the node and descriptor lists and the range of each descriptor
  are both accepted or both rejected, with the same nodes and descriptors: the checksums of the
  buffers are the only protection of the data, and a gap between two buffers carries arbitrary bytes.
\<close>

theorem page_payload_gaps_unchecked:
  assumes "length bs < usize_limit" "length bs' = length bs"
    and "payload_parse crc bs = Ok p"
    and "take (unat (ph_buffers_offset (pl_header p))) bs' = take (unat (ph_buffers_offset (pl_header p))) bs"
    and "\<And>d. d \<in> set (pl_buffers p) \<Longrightarrow>
      sub bs' (unat (bd_offset d)) (unat (bd_length d)) = sub bs (unat (bd_offset d)) (unat (bd_length d))"
  shows "payload_parse crc bs' = Ok (p\<lparr>pl_data := bs'\<rparr>)"
proof -
  have l: "length bs' < usize_limit" using assms(1,2) by simp
  have a: "payload_accepts crc BCV_Verify bs p"
    using assms(3) by (simp add: payload_parse_def payload_parse_with_iff [OF assms(1)])
  have n: "length (payload_prefix (payload_parts_of p)) = unat (ph_buffers_offset (pl_header p))"
    using a length_payload_prefix [of "payload_parts_of p"] by (simp add: payload_accepts_def)
  have "payload_accepts crc BCV_Verify bs' (p\<lparr>pl_data := bs'\<rparr>)"
    using a descriptors_fit_cong [OF _ assms(2,5)] assms(2,4) by (simp add: payload_accepts_def n)
  then show ?thesis by (simp add: payload_parse_def payload_parse_with_iff [OF l])
qed

theorem page_payload_gaps_unchecked_witness:
  "payload_parse (\<lambda>_. 0) (take 98 gap_page @ [1, 2, 5]) = Ok (gap_payload (take 98 gap_page @ [1, 2, 5])) \<and>
   [1, 2, 5] \<noteq> ([0, 0, 5] :: bytes)"
proof -
  let ?a = "take 98 gap_page @ [0, 0, 5]" and ?b = "take 98 gap_page @ [1, 2, 5]"
  have l: "length gap_page = 101" by (simp add: gap_page_def)
  have "payload_parse (\<lambda>_. 0) ?b = Ok (gap_payload ?a\<lparr>pl_data := ?b\<rparr>)"
    by (rule page_payload_gaps_unchecked [OF _ _ gap_page_parses])
      (auto simp: l usize_limit_def gap_payload_def payload_header_for_def sub_def)
  then show ?thesis by (simp add: gap_payload_def)
qed

end
