(* ===== verification/Nested.thy ===== *)
theory Nested
  imports Exact_Codec
begin

text \<open>
  Nested data layouts (\<^verbatim>\<open>encoding/nested.rs\<close>): lists by offsets, structs by the row counts of
  their fields, maps by offsets with canonical keys; the three payloads and their rules.
\<close>

section \<open>Lists\<close>

record list_layout =
  ll_offsets :: "u32 list"

definition list_validate :: "list_layout \<Rightarrow> unit res" where
  "list_validate l =
     (if ll_offsets l = [] then Fail PageCorrupt
      else
        and_then (index (ll_offsets l) 0) (\<lambda>first.
        if first \<noteq> 0 then Fail PageCorrupt
        else if \<not> windows2_all (\<lambda>a b. \<not> b < a) (ll_offsets l) then Fail PageCorrupt
        else Ok ()))"

definition list_validate_child_count :: "list_layout \<Rightarrow> nat \<Rightarrow> unit res" where
  "list_validate_child_count l child_row_count =
     and_then (list_validate l) (\<lambda>_.
     if ll_offsets l = [] then Fail PageCorrupt
     else if unat (last (ll_offsets l)) \<noteq> child_row_count then Fail PageCorrupt
     else Ok ())"

definition list_row_count :: "list_layout \<Rightarrow> nat" where
  "list_row_count l = length (ll_offsets l) - 1"

record list_payload =
  lp_layout :: list_layout
  lp_child_row_count :: u32

definition list_payload_parse :: "bytes \<Rightarrow> list_payload res" where
  "list_payload_parse bs =
     (if length bs < 8 then Fail BufferTooShort
      else
        and_then (read_u32_le_checked bs 0) (\<lambda>child_row_count.
        and_then (read_u32_le_checked bs 4) (\<lambda>offset_count.
        and_then (ok_or ArithOverflow (checked_mul (unat offset_count) 4)) (\<lambda>offsets_bytes_len.
        and_then (ok_or ArithOverflow (checked_add 8 offsets_bytes_len)) (\<lambda>offsets_end.
        if length bs < offsets_end then Fail BufferTooShort
        else if offsets_end < length bs then Fail PageCorrupt
        else
          and_then (try_map (\<lambda>i. read_u32_le_checked bs (8 + i * 4)) [0..<unat offset_count]) (\<lambda>offsets.
          Ok \<lparr>lp_layout = \<lparr>ll_offsets = offsets\<rparr>, lp_child_row_count = child_row_count\<rparr>))))))"

definition list_payload_encode :: "list_payload \<Rightarrow> bytes" where
  "list_payload_encode p =
     le_bytes 4 (lp_child_row_count p) @ le_bytes 4 (of_nat (length (ll_offsets (lp_layout p))) :: u32) @
     concat (map (le_bytes 4) (ll_offsets (lp_layout p)))"

definition list_payload_validate :: "list_payload \<Rightarrow> unit res" where
  "list_payload_validate p = list_validate_child_count (lp_layout p) (unat (lp_child_row_count p))"

section \<open>Structs\<close>

record struct_layout =
  sl_field_row_counts :: "u64 list"

definition struct_validate :: "struct_layout \<Rightarrow> unit res" where
  "struct_validate l =
     (case sl_field_row_counts l of
        [] \<Rightarrow> Fail PageCorrupt
      | head # rest \<Rightarrow> if list_ex (\<lambda>r. r \<noteq> head) rest then Fail PageCorrupt else Ok ())"

definition struct_validate_parent_row_count :: "struct_layout \<Rightarrow> u64 \<Rightarrow> bool \<Rightarrow> unit res" where
  "struct_validate_parent_row_count l parent_row_count parent_null_handling_declared =
     and_then (struct_validate l) (\<lambda>_.
     if \<not> parent_null_handling_declared then Fail PageCorrupt
     else
       and_then (index (sl_field_row_counts l) 0) (\<lambda>head.
       if head \<noteq> parent_row_count then Fail PageCorrupt else Ok ()))"

definition struct_row_count :: "struct_layout \<Rightarrow> u64 res" where
  "struct_row_count l = and_then (struct_validate l) (\<lambda>_. index (sl_field_row_counts l) 0)"

record struct_payload =
  sp_layout :: struct_layout
  sp_parent_null_handling_declared :: bool

definition page_bool :: "u8 \<Rightarrow> bool res" where
  "page_bool b = (if b = 0 then Ok False else if b = 1 then Ok True else Fail PageCorrupt)"

definition struct_payload_parse :: "bytes \<Rightarrow> struct_payload res" where
  "struct_payload_parse bs =
     (if length bs < 8 then Fail BufferTooShort
      else
        and_then (slice bs 1 4) (\<lambda>reserved.
        if reserved \<noteq> [0, 0, 0] then Fail PageCorrupt
        else
          and_then (index bs 0) (\<lambda>flag.
          and_then (page_bool flag) (\<lambda>declared.
          and_then (read_u32_le_checked bs 4) (\<lambda>field_count.
          and_then (ok_or ArithOverflow (checked_mul (unat field_count) 8)) (\<lambda>counts_bytes_len.
          and_then (ok_or ArithOverflow (checked_add 8 counts_bytes_len)) (\<lambda>counts_end.
          if length bs < counts_end then Fail BufferTooShort
          else if counts_end < length bs then Fail PageCorrupt
          else
            and_then (try_map (\<lambda>i. read_u64_le_checked bs (8 + i * 8)) [0..<unat field_count]) (\<lambda>field_row_counts.
            Ok \<lparr>sp_layout = \<lparr>sl_field_row_counts = field_row_counts\<rparr>,
                sp_parent_null_handling_declared = declared\<rparr>))))))))"

definition struct_payload_encode :: "struct_payload \<Rightarrow> bytes" where
  "struct_payload_encode p =
     [if sp_parent_null_handling_declared p then 1 else 0] @ [0, 0, 0] @
     le_bytes 4 (of_nat (length (sl_field_row_counts (sp_layout p))) :: u32) @
     concat (map (le_bytes 8) (sl_field_row_counts (sp_layout p)))"

definition struct_payload_validate :: "struct_payload \<Rightarrow> u64 \<Rightarrow> unit res" where
  "struct_payload_validate p parent_row_count =
     struct_validate_parent_row_count (sp_layout p) parent_row_count (sp_parent_null_handling_declared p)"

section \<open>Maps\<close>

record map_layout =
  ml_offsets :: "u32 list"
  ml_key_row_count :: u32
  ml_value_row_count :: u32
  ml_keys_are_scalar :: bool
  ml_allow_duplicate_keys :: bool
  ml_canonical_keys :: "bytes list"

definition validate_no_duplicate_keys :: "bytes list \<Rightarrow> unit res" where
  "validate_no_duplicate_keys keys = (if has_duplicate keys then Fail PageCorrupt else Ok ())"

definition map_validate :: "map_layout \<Rightarrow> unit res" where
  "map_validate m =
     (if \<not> ml_keys_are_scalar m then Fail PageCorrupt
      else
        let list_layout = \<lparr>ll_offsets = ml_offsets m\<rparr> in
        and_then (list_validate list_layout) (\<lambda>_.
        if ml_key_row_count m \<noteq> ml_value_row_count m then Fail PageCorrupt
        else
          and_then (list_validate_child_count list_layout (unat (ml_key_row_count m))) (\<lambda>_.
          if length (ml_canonical_keys m) \<noteq> unat (ml_key_row_count m) then Fail PageCorrupt
          else if \<not> ml_allow_duplicate_keys m then
            map_ok (\<lambda>_. ()) (try_map (\<lambda>(start, end').
              and_then (slice (ml_canonical_keys m) (unat start) (unat end')) validate_no_duplicate_keys)
              (zip (ml_offsets m) (tl (ml_offsets m))))
          else Ok ())))"

definition map_row_count :: "map_layout \<Rightarrow> nat" where
  "map_row_count m = length (ml_offsets m) - 1"

text \<open>The loop over the keys from position \<open>pos\<close> on; it returns the keys and where it stopped.\<close>

primrec map_keys_loop :: "bytes \<Rightarrow> nat \<Rightarrow> nat \<Rightarrow> (bytes list \<times> nat) res" where
  "map_keys_loop bs 0 pos = Ok ([], pos)"
| "map_keys_loop bs (Suc n) pos =
     and_then (read_u32_le_checked bs pos) (\<lambda>key_len.
     and_then (ok_or ArithOverflow (checked_add pos 4)) (\<lambda>pos.
     and_then (read_range_checked bs pos (unat key_len)) (\<lambda>key.
     and_then (ok_or ArithOverflow (checked_add pos (unat key_len))) (\<lambda>pos.
     map_ok (\<lambda>(keys, pos). (key # keys, pos)) (map_keys_loop bs n pos)))))"

definition map_payload_parse :: "bytes \<Rightarrow> map_layout res" where
  "map_payload_parse bs =
     (if length bs < 16 then Fail BufferTooShort
      else
        and_then (read_u32_le_checked bs 0) (\<lambda>offset_count.
        and_then (read_u32_le_checked bs 4) (\<lambda>key_row_count.
        and_then (read_u32_le_checked bs 8) (\<lambda>value_row_count.
        and_then (index bs 12) (\<lambda>scalar_flag.
        and_then (page_bool scalar_flag) (\<lambda>keys_are_scalar.
        and_then (index bs 13) (\<lambda>duplicate_flag.
        and_then (page_bool duplicate_flag) (\<lambda>allow_duplicate_keys.
        and_then (slice bs 14 16) (\<lambda>reserved.
        if reserved \<noteq> [0, 0] then Fail PageCorrupt
        else
          and_then (ok_or ArithOverflow (checked_mul (unat offset_count) 4)) (\<lambda>offsets_bytes_len.
          and_then (ok_or ArithOverflow (checked_add 16 offsets_bytes_len)) (\<lambda>offsets_end.
          if length bs < offsets_end then Fail BufferTooShort
          else
            and_then (try_map (\<lambda>i. read_u32_le_checked bs (16 + i * 4)) [0..<unat offset_count]) (\<lambda>offsets.
            and_then (map_keys_loop bs (unat key_row_count) offsets_end) (\<lambda>(canonical_keys, pos).
            if pos \<noteq> length bs then Fail PageCorrupt
            else Ok \<lparr>ml_offsets = offsets, ml_key_row_count = key_row_count, ml_value_row_count = value_row_count,
              ml_keys_are_scalar = keys_are_scalar, ml_allow_duplicate_keys = allow_duplicate_keys,
              ml_canonical_keys = canonical_keys\<rparr>)))))))))))))"

definition map_key_bytes :: "bytes \<Rightarrow> bytes" where
  "map_key_bytes key = le_bytes 4 (of_nat (length key) :: u32) @ key"

definition map_payload_encode :: "map_layout \<Rightarrow> bytes" where
  "map_payload_encode m =
     le_bytes 4 (of_nat (length (ml_offsets m)) :: u32) @ le_bytes 4 (ml_key_row_count m) @ le_bytes 4 (ml_value_row_count m) @
     [if ml_keys_are_scalar m then 1 else 0] @ [if ml_allow_duplicate_keys m then 1 else 0] @ le_bytes 2 (0 :: u16) @
     concat (map (le_bytes 4) (ml_offsets m)) @ concat (map map_key_bytes (ml_canonical_keys m))"

section \<open>Reading the payloads\<close>

lemma page_bool_iff [ok_iffs]: "page_bool b = Inr v \<longleftrightarrow> b = (if v then 1 else 0)"
  by (auto simp: page_bool_def)

lemma no_panic_page_bool [no_panic_intros, simp]: "no_panic (page_bool b)"
  by (simp add: page_bool_def)

lemma le_bytes_eq_sub:
  "off + 4 \<le> length bs \<Longrightarrow> le_bytes 4 (x :: u32) = sub bs off 4 \<longleftrightarrow> x = of_le (sub bs off 4)"
  "off + 8 \<le> length bs \<Longrightarrow> le_bytes 8 (y :: u64) = sub bs off 8 \<longleftrightarrow> y = of_le (sub bs off 8)"
proof -
  have e: "off + 4 \<le> length bs \<Longrightarrow> le_bytes 4 (of_le (sub bs off 4) :: u32) = sub bs off 4"
    "off + 8 \<le> length bs \<Longrightarrow> le_bytes 8 (of_le (sub bs off 8) :: u64) = sub bs off 8"
    by (simp_all add: le_bytes_of_le length_sub)
  show "off + 4 \<le> length bs \<Longrightarrow> le_bytes 4 (x :: u32) = sub bs off 4 \<longleftrightarrow> x = of_le (sub bs off 4)"
    by (subst e(1) [symmetric]) (simp_all add: le_bytes_inject)
  show "off + 8 \<le> length bs \<Longrightarrow> le_bytes 8 (y :: u64) = sub bs off 8 \<longleftrightarrow> y = of_le (sub bs off 8)"
    by (subst e(2) [symmetric]) (simp_all add: le_bytes_inject)
qed

lemma word_array_iff:
  assumes "length bs < usize_limit"
  shows "pos + n * 4 \<le> length bs \<Longrightarrow> try_map (\<lambda>i. read_u32_le_checked bs (pos + i * 4)) [0..<n] = Inr xs \<longleftrightarrow>
      length xs = n \<and> concat (map (le_bytes 4) xs) = sub bs pos (n * 4)"
    and "pos + n * 8 \<le> length bs \<Longrightarrow> try_map (\<lambda>i. read_u64_le_checked bs (pos + i * 8)) [0..<n] = Inr ys \<longleftrightarrow>
      length ys = n \<and> concat (map (le_bytes 8) ys) = sub bs pos (n * 8)"
proof -
  assume f: "pos + n * 4 \<le> length bs"
  show "try_map (\<lambda>i. read_u32_le_checked bs (pos + i * 4)) [0..<n] = Inr xs \<longleftrightarrow>
      length xs = n \<and> concat (map (le_bytes 4) xs) = sub bs pos (n * 4)"
    using f assms le_bytes_eq_sub
    by (subst try_map_items_iff [where enc = "le_bytes 4" and ok = "\<lambda>_. True" and bs = bs])
      (auto simp: read_words_Ok_iff list_all_iff)
next
  assume f: "pos + n * 8 \<le> length bs"
  show "try_map (\<lambda>i. read_u64_le_checked bs (pos + i * 8)) [0..<n] = Inr ys \<longleftrightarrow>
      length ys = n \<and> concat (map (le_bytes 8) ys) = sub bs pos (n * 8)"
    using f assms le_bytes_eq_sub
    by (subst try_map_items_iff [where enc = "le_bytes 8" and ok = "\<lambda>_. True" and bs = bs])
      (auto simp: read_words_Ok_iff list_all_iff)
qed

lemma word_arrays_length [simp]:
  "length (concat (map (le_bytes 4) (xs :: u32 list))) = 4 * length xs"
  "length (concat (map (le_bytes 8) (ys :: u64 list))) = 8 * length ys"
  by (induction xs, simp_all) (induction ys, simp_all)

lemma unat_of_nat_u32: "n < 2 ^ 32 \<Longrightarrow> unat (of_nat n :: u32) = n"
  by (rule unat_of_nat_less) simp

lemma count_region:
  "checked_mul (unat (n :: u32)) 4 = Some (unat n * 4)" "checked_mul (unat n) 8 = Some (unat n * 8)"
  "k \<le> 16 \<Longrightarrow> checked_add k (unat n * 4) = Some (k + unat n * 4)" "k \<le> 16 \<Longrightarrow> checked_add k (unat n * 8) = Some (k + unat n * 8)"
  using unat_u32_less [of n] by (simp_all add: checked_mul_def checked_add_def usize_limit_def)

lemma count_region_nat:
  "n < 2 ^ 32 \<Longrightarrow> checked_mul n 4 = Some (n * 4)" "n < 2 ^ 32 \<Longrightarrow> checked_mul n 8 = Some (n * 8)"
  "n < 2 ^ 32 \<Longrightarrow> checked_add 16 (n * 4) = Some (16 + n * 4)" "n < 2 ^ 32 \<Longrightarrow> checked_add 8 (n * 8) = Some (8 + n * 8)"
  "n < 2 ^ 32 \<Longrightarrow> checked_add 8 (n * 4) = Some (8 + n * 4)"
  by (simp_all add: checked_mul_def checked_add_def usize_limit_def)

lemma list_payload_parse_iff:
  assumes lim: "length bs < usize_limit"
  shows "list_payload_parse bs = Inr p \<longleftrightarrow> bs = list_payload_encode p \<and> length (ll_offsets (lp_layout p)) < 2 ^ 32"
proof
  assume a: "list_payload_parse bs = Inr p"
  then have l: "8 \<le> length bs" by (auto simp: list_payload_parse_def split: if_splits)
  define n where "n = unat (of_le (sub bs 4 4) :: u32)"
  have r: "read_u32_le_checked bs 0 = Inr (of_le (sub bs 0 4))" "read_u32_le_checked bs 4 = Inr (of_le (sub bs 4 4))"
    using l lim by (simp_all add: read_words_Ok_iff usize_limit_def)
  from a obtain os where le: "length bs = 8 + n * 4"
    and os: "try_map (\<lambda>i. read_u32_le_checked bs (8 + i * 4)) [0..<n] = Inr os"
    and p: "p = \<lparr>lp_layout = \<lparr>ll_offsets = os\<rparr>, lp_child_row_count = of_le (sub bs 0 4)\<rparr>"
    using l unfolding list_payload_parse_def r by (auto simp: ok_iffs count_region n_def split: if_splits)
  have o': "length os = n" "concat (map (le_bytes 4) os) = sub bs 8 (n * 4)"
    using os le lim by (simp_all add: word_array_iff)
  have "bs = sub bs 0 4 @ sub bs 4 4 @ sub bs 8 (n * 4)" by (simp add: sub_join sub_all le [symmetric])
  moreover have "le_bytes 4 (of_nat n :: u32) = sub bs 4 4" using l by (simp add: n_def le_bytes_of_le length_sub)
  moreover have "le_bytes 4 (of_le (sub bs 0 4) :: u32) = sub bs 0 4" using l by (simp add: le_bytes_of_le length_sub)
  moreover have "n < 2 ^ 32" using unat_u32_less [of "of_le (sub bs 4 4)"] by (simp add: n_def)
  ultimately show "bs = list_payload_encode p \<and> length (ll_offsets (lp_layout p)) < 2 ^ 32"
    by (simp add: p list_payload_encode_def o')
next
  assume a: "bs = list_payload_encode p \<and> length (ll_offsets (lp_layout p)) < 2 ^ 32"
  let ?os = "ll_offsets (lp_layout p)"
  have l: "length bs = 8 + length ?os * 4" using a by (simp add: list_payload_encode_def)
  have r: "read_u32_le_checked bs 0 = Inr (lp_child_row_count p)" "read_u32_le_checked bs 4 = Inr (of_nat (length ?os))"
    using a lim l by (auto simp: read_words_Ok_iff list_payload_encode_def sub_def usize_limit_def)
  have "try_map (\<lambda>i. read_u32_le_checked bs (8 + i * 4)) [0..<length ?os] = Inr ?os"
    using a lim l by (subst word_array_iff) (auto simp: list_payload_encode_def sub_def)
  then show "list_payload_parse bs = Inr p"
    using a l unfolding list_payload_parse_def r by (simp add: count_region_nat unat_of_nat_u32)
qed

lemma struct_payload_parse_iff:
  assumes lim: "length bs < usize_limit"
  shows "struct_payload_parse bs = Inr p \<longleftrightarrow> bs = struct_payload_encode p \<and> length (sl_field_row_counts (sp_layout p)) < 2 ^ 32"
proof
  assume a: "struct_payload_parse bs = Inr p"
  then have l: "8 \<le> length bs" by (auto simp: struct_payload_parse_def split: if_splits)
  define n where "n = unat (of_le (sub bs 4 4) :: u32)"
  have ne: "bs \<noteq> []" using l by auto
  have r: "slice bs 1 4 = (Inr (sub bs 1 3) :: bytes res)" "index bs 0 = (Inr (bs ! 0) :: u8 res)" "read_u32_le_checked bs 4 = Inr (of_le (sub bs 4 4))"
    using l lim ne by (simp_all add: read_words_Ok_iff usize_limit_def slice_Ok index_def)
  from a obtain v os where le: "length bs = 8 + n * 8" and z: "sub bs 1 3 = [0, 0, 0]" and v: "bs ! 0 = (if v then 1 else 0)"
    and os: "try_map (\<lambda>i. read_u64_le_checked bs (8 + i * 8)) [0..<n] = Inr os"
    and p: "p = \<lparr>sp_layout = \<lparr>sl_field_row_counts = os\<rparr>, sp_parent_null_handling_declared = v\<rparr>"
    using l unfolding struct_payload_parse_def r by (auto simp: ok_iffs count_region n_def split: if_splits)
  have o': "length os = n" "concat (map (le_bytes 8) os) = sub bs 8 (n * 8)"
    using os le lim by (simp_all add: word_array_iff)
  have "bs = sub bs 0 1 @ sub bs 1 3 @ sub bs 4 4 @ sub bs 8 (n * 8)" by (simp add: sub_join sub_all le [symmetric])
  moreover have "sub bs 0 1 = [bs ! 0]" using ne by (cases bs) (simp_all add: sub_def)
  moreover have "le_bytes 4 (of_nat n :: u32) = sub bs 4 4" using l by (simp add: n_def le_bytes_of_le length_sub)
  moreover have "n < 2 ^ 32" using unat_u32_less [of "of_le (sub bs 4 4)"] by (simp add: n_def)
  ultimately show "bs = struct_payload_encode p \<and> length (sl_field_row_counts (sp_layout p)) < 2 ^ 32"
    using z v by (simp add: p struct_payload_encode_def o')
next
  assume a: "bs = struct_payload_encode p \<and> length (sl_field_row_counts (sp_layout p)) < 2 ^ 32"
  let ?os = "sl_field_row_counts (sp_layout p)"
  have l: "length bs = 8 + length ?os * 8" using a by (simp add: struct_payload_encode_def)
  have r: "slice bs 1 4 = (Inr [0, 0, 0] :: bytes res)" "index bs 0 = (Inr (if sp_parent_null_handling_declared p then 1 else 0) :: u8 res)"
    "read_u32_le_checked bs 4 = Inr (of_nat (length ?os))"
    using a lim l by (auto simp: read_words_Ok_iff struct_payload_encode_def sub_def usize_limit_def slice_Ok index_Ok)
  have b: "page_bool (if sp_parent_null_handling_declared p then 1 else 0) = Inr (sp_parent_null_handling_declared p)"
    by (simp add: page_bool_iff)
  have "try_map (\<lambda>i. read_u64_le_checked bs (8 + i * 8)) [0..<length ?os] = Inr ?os"
    using a lim l by (subst word_array_iff) (auto simp: struct_payload_encode_def sub_def)
  then show "struct_payload_parse bs = Inr p"
    using a l unfolding struct_payload_parse_def r and_then_simps b by (simp add: count_region_nat unat_of_nat_u32)
qed

lemma map_keys_loop_iff:
  assumes lim: "length bs < usize_limit"
  shows "pos \<le> length bs \<Longrightarrow> map_keys_loop bs n pos = Inr (keys, e) \<longleftrightarrow>
    length keys = n \<and> list_all (\<lambda>k. length k < 2 ^ 32) keys \<and> e \<le> length bs \<and> pos \<le> e \<and>
    sub bs pos (e - pos) = concat (map map_key_bytes keys)"
proof (induction n arbitrary: pos keys)
  case 0
  then show ?case by (auto simp: sub_def)
next
  case (Suc n)
  define m where "m = unat (of_le (sub bs pos 4) :: u32)"
  have mb: "m < 2 ^ 32" using unat_u32_less [of "of_le (sub bs pos 4)"] by (simp add: m_def)
  show ?case
  proof
    assume a: "map_keys_loop bs (Suc n) pos = Inr (keys, e)"
    then obtain ks where l: "pos + 4 + m \<le> length bs" and k: "keys = sub bs (pos + 4) m # ks"
      and r: "map_keys_loop bs n (pos + 4 + m) = Inr (ks, e)"
      by (auto simp: ok_iffs read_words_Ok_iff read_range_Ok_iff checked_add_eq_Some_iff m_def split: prod.splits)
    note ih = Suc.IH [OF l, of ks, THEN iffD1, OF r]
    have "map_key_bytes (sub bs (pos + 4) m) = sub bs pos 4 @ sub bs (pos + 4) m"
      using l by (simp add: map_key_bytes_def length_sub m_def le_bytes_of_le)
    then have "concat (map map_key_bytes keys) = sub bs pos (4 + m) @ sub bs (pos + (4 + m)) (e - (pos + 4 + m))"
      using ih by (simp add: k sub_join add.assoc)
    also have "\<dots> = sub bs pos (e - pos)" using ih by (simp add: sub_join)
    finally show "length keys = Suc n \<and> list_all (\<lambda>k. length k < 2 ^ 32) keys \<and> e \<le> length bs \<and> pos \<le> e \<and>
        sub bs pos (e - pos) = concat (map map_key_bytes keys)"
      using ih l mb by (simp add: k length_sub)
  next
    assume a: "length keys = Suc n \<and> list_all (\<lambda>k. length k < 2 ^ 32) keys \<and> e \<le> length bs \<and> pos \<le> e \<and>
        sub bs pos (e - pos) = concat (map map_key_bytes keys)"
    then obtain key ks where k: "keys = key # ks" by (cases keys) auto
    have kl: "length key < 2 ^ 32" "unat (of_nat (length key) :: u32) = length key"
      using a by (simp_all add: k unat_of_nat_u32)
    have cat: "sub bs pos (e - pos) = le_bytes 4 (of_nat (length key) :: u32) @ key @ concat (map map_key_bytes ks)"
      using a by (simp add: k map_key_bytes_def)
    have eb: "e \<le> length bs" "pos \<le> e" using a by simp_all
    then have "e - pos = length (sub bs pos (e - pos))" by (simp add: length_sub)
    also have "\<dots> = 4 + length key + length (concat (map map_key_bytes ks))" unfolding cat by simp
    finally have len: "e - pos = 4 + length key + length (concat (map map_key_bytes ks))" .
    have le: "pos + 4 + length key \<le> e" using len eb by arith
    have p4: "sub bs pos 4 = le_bytes 4 (of_nat (length key) :: u32)"
      using arg_cong [OF cat, of "take 4"] len by (simp add: sub_def)
    have pk: "sub bs (pos + 4) (length key) = key"
      using arg_cong [OF cat, of "\<lambda>l. take (length key) (drop 4 l)"] len by (simp add: sub_def drop_take add.commute)
    have rest: "sub bs (pos + 4 + length key) (e - (pos + 4 + length key)) = concat (map map_key_bytes ks)"
    proof -
      have x: "e - (pos + 4 + length key) = length (concat (map map_key_bytes ks))" using len by simp
      show ?thesis
        unfolding x using arg_cong [OF cat, of "drop (4 + length key)"] len by (simp add: sub_def drop_take add.commute add.left_commute)
    qed
    have r: "map_keys_loop bs n (pos + 4 + length key) = Inr (ks, e)"
      using a le eb rest by (subst Suc.IH) (simp_all add: k)
    have rd: "read_u32_le_checked bs pos = Inr (of_nat (length key))" "read_range_checked bs (pos + 4) (length key) = Inr key"
      using le eb lim p4 pk by (simp_all add: read_words_Ok_iff read_range_Ok_iff)
    have ca: "checked_add pos 4 = Some (pos + 4)" "checked_add (pos + 4) (length key) = Some (pos + 4 + length key)"
      using le eb lim by (simp_all add: checked_add_def)
    show "map_keys_loop bs (Suc n) pos = Inr (keys, e)"
      using r by (simp add: rd ca kl k)
  qed
qed

lemma map_payload_parse_iff:
  assumes lim: "length bs < usize_limit"
  shows "map_payload_parse bs = Inr m \<longleftrightarrow> bs = map_payload_encode m \<and> length (ml_offsets m) < 2 ^ 32 \<and>
    length (ml_canonical_keys m) = unat (ml_key_row_count m) \<and> list_all (\<lambda>k. length k < 2 ^ 32) (ml_canonical_keys m)"
proof
  assume a: "map_payload_parse bs = Inr m"
  then have l: "16 \<le> length bs" by (auto simp: map_payload_parse_def split: if_splits)
  define n where "n = unat (of_le (sub bs 0 4) :: u32)"
  have r: "read_u32_le_checked bs 0 = Inr (of_le (sub bs 0 4))" "read_u32_le_checked bs 4 = Inr (of_le (sub bs 4 4))"
    "read_u32_le_checked bs 8 = Inr (of_le (sub bs 8 4))" "index bs 12 = (Inr (bs ! 12) :: u8 res)"
    "index bs 13 = (Inr (bs ! 13) :: u8 res)" "slice bs 14 16 = (Inr (sub bs 14 2) :: bytes res)"
    using l lim by (simp_all add: read_words_Ok_iff usize_limit_def slice_Ok index_def)
  from a obtain s d os ks where f: "bs ! 12 = (if s then 1 else 0)" "bs ! 13 = (if d then 1 else 0)" "sub bs 14 2 = [0, 0]"
    and le: "16 + n * 4 \<le> length bs" and os: "try_map (\<lambda>i. read_u32_le_checked bs (16 + i * 4)) [0..<n] = Inr os"
    and ks: "map_keys_loop bs (unat (of_le (sub bs 4 4) :: u32)) (16 + n * 4) = Inr (ks, length bs)"
    and m: "m = \<lparr>ml_offsets = os, ml_key_row_count = of_le (sub bs 4 4), ml_value_row_count = of_le (sub bs 8 4),
      ml_keys_are_scalar = s, ml_allow_duplicate_keys = d, ml_canonical_keys = ks\<rparr>"
    using l unfolding map_payload_parse_def r by (auto simp: ok_iffs count_region n_def split: if_splits prod.splits)
  have o': "length os = n" "concat (map (le_bytes 4) os) = sub bs 16 (n * 4)"
    using os le lim by (simp_all add: word_array_iff)
  have k: "length ks = unat (of_le (sub bs 4 4) :: u32)" "list_all (\<lambda>k. length k < 2 ^ 32) ks"
    "sub bs (16 + n * 4) (length bs - (16 + n * 4)) = concat (map map_key_bytes ks)"
    using ks le by (simp_all add: map_keys_loop_iff [OF lim])
  have "bs = sub bs 0 4 @ sub bs 4 4 @ sub bs 8 4 @ sub bs 12 1 @ sub bs 13 1 @ sub bs 14 2 @ sub bs 16 (n * 4) @
      sub bs (16 + n * 4) (length bs - (16 + n * 4))"
    using le by (simp add: sub_join sub_all)
  moreover have "sub bs 12 1 = [bs ! 12]" "sub bs 13 1 = [bs ! 13]" using l by (simp_all add: sub_singleton)
  moreover have "le_bytes 4 (of_nat n :: u32) = sub bs 0 4" "le_bytes 4 (of_le (sub bs 4 4) :: u32) = sub bs 4 4"
    "le_bytes 4 (of_le (sub bs 8 4) :: u32) = sub bs 8 4"
    using l by (simp_all add: n_def le_bytes_of_le length_sub)
  moreover have "le_bytes 2 (0 :: u16) = [0, 0]" by (simp add: le_bytes_numeral)
  moreover have "n < 2 ^ 32" using unat_u32_less [of "of_le (sub bs 0 4)"] by (simp add: n_def)
  ultimately show "bs = map_payload_encode m \<and> length (ml_offsets m) < 2 ^ 32 \<and>
    length (ml_canonical_keys m) = unat (ml_key_row_count m) \<and> list_all (\<lambda>k. length k < 2 ^ 32) (ml_canonical_keys m)"
    using f k by (simp add: m map_payload_encode_def o')
next
  assume a: "bs = map_payload_encode m \<and> length (ml_offsets m) < 2 ^ 32 \<and>
    length (ml_canonical_keys m) = unat (ml_key_row_count m) \<and> list_all (\<lambda>k. length k < 2 ^ 32) (ml_canonical_keys m)"
  let ?os = "ml_offsets m" and ?ks = "ml_canonical_keys m"
  have bs: "bs = le_bytes 4 (of_nat (length ?os) :: u32) @ le_bytes 4 (ml_key_row_count m) @ le_bytes 4 (ml_value_row_count m) @
     [if ml_keys_are_scalar m then 1 else 0] @ [if ml_allow_duplicate_keys m then 1 else 0] @ [0, 0] @
     concat (map (le_bytes 4) ?os) @ concat (map map_key_bytes ?ks)"
    using a by (simp add: map_payload_encode_def le_bytes_numeral)
  then have l: "length bs = 16 + length ?os * 4 + length (concat (map map_key_bytes ?ks))" by simp
  have r: "read_u32_le_checked bs 0 = Inr (of_nat (length ?os))" "read_u32_le_checked bs 4 = Inr (ml_key_row_count m)"
    "read_u32_le_checked bs 8 = Inr (ml_value_row_count m)" "slice bs 14 16 = (Inr [0, 0] :: bytes res)"
    "index bs 12 = (Inr (if ml_keys_are_scalar m then 1 else 0) :: u8 res)"
    "index bs 13 = (Inr (if ml_allow_duplicate_keys m then 1 else 0) :: u8 res)"
    using lim l by (simp_all add: read_words_Ok_iff slice_Ok index_def usize_limit_def) (simp_all add: bs sub_def nth_append)
  have b: "page_bool (if v then 1 else 0) = Inr v" for v by (simp add: page_bool_iff)
  have os: "try_map (\<lambda>i. read_u32_le_checked bs (16 + i * 4)) [0..<length ?os] = Inr ?os"
    using lim l by (subst word_array_iff) (simp_all, simp add: bs sub_def)
  have ka: "length ?ks = unat (ml_key_row_count m)" "list_all (\<lambda>k. length k < 2 ^ 32) ?ks" using a by simp_all
  define pre where "pre = le_bytes 4 (of_nat (length ?os) :: u32) @ le_bytes 4 (ml_key_row_count m) @ le_bytes 4 (ml_value_row_count m) @
     [if ml_keys_are_scalar m then 1 else 0] @ [if ml_allow_duplicate_keys m then 1 else 0] @ [0, 0 :: u8] @ concat (map (le_bytes 4) ?os)"
  have pre: "bs = pre @ concat (map map_key_bytes ?ks)" "16 + length ?os * 4 = length pre" by (simp_all add: bs pre_def)
  have "sub bs (16 + length ?os * 4) (length bs - (16 + length ?os * 4)) = concat (map map_key_bytes ?ks)"
    unfolding pre by (simp add: sub_def)
  then have ks: "map_keys_loop bs (unat (ml_key_row_count m)) (16 + length ?os * 4) = Inr (?ks, length bs)"
    using ka l by (simp add: map_keys_loop_iff [OF lim])
  show "map_payload_parse bs = Inr m"
    using a l os ks unfolding map_payload_parse_def r and_then_simps b by (simp add: count_region_nat unat_of_nat_u32)
qed

section \<open>The rows of a layout\<close>

lemma concat_ranges:
  "(\<And>i. i < k \<Longrightarrow> f i \<le> f (Suc i)) \<Longrightarrow> concat (map (\<lambda>i. [f i..<f (Suc i)]) [0..<k]) = [f 0..<f k] \<and> f 0 \<le> f k"
proof (induction k)
  case (Suc k)
  then have "concat (map (\<lambda>i. [f i..<f (Suc i)]) [0..<k]) = [f 0..<f k]" "f 0 \<le> f k" "f k \<le> f (Suc k)" by simp_all
  then show ?case using upt_add_eq_append [of "f 0" "f k" "f (Suc k) - f k"] by simp
qed simp

lemma mono_upto: "(\<And>i. i < k \<Longrightarrow> f i \<le> f (Suc i)) \<Longrightarrow> i \<le> j \<Longrightarrow> j \<le> k \<Longrightarrow> f i \<le> (f j :: nat)"
proof (induction j)
  case (Suc j)
  then show ?case by (cases "i = Suc j") (auto intro: order_trans)
qed simp

text \<open>Row \<open>i\<close> of a layout holds the child rows from offset \<open>i\<close> up to offset \<open>i + 1\<close>.\<close>

definition layout_row :: "u32 list \<Rightarrow> 'a list \<Rightarrow> nat \<Rightarrow> 'a list" where
  "layout_row offsets xs i = sub xs (unat (offsets ! i)) (unat (offsets ! Suc i) - unat (offsets ! i))"

lemma list_validate_iff:
  "list_validate l = Inr () \<longleftrightarrow> ll_offsets l \<noteq> [] \<and> ll_offsets l ! 0 = 0 \<and>
     (\<forall>i. Suc i < length (ll_offsets l) \<longrightarrow> ll_offsets l ! i \<le> ll_offsets l ! Suc i)"
  by (auto simp: list_validate_def index_def windows2_all_nth)

lemma list_child_count_iff:
  "list_validate_child_count l n = Inr () \<longleftrightarrow> list_validate l = Inr () \<and> unat (last (ll_offsets l)) = n"
  by (auto simp: list_validate_child_count_def ok_iffs list_validate_iff)

lemma no_panic_list_validate [no_panic_intros, simp]: "no_panic (list_validate l)" "no_panic (list_validate_child_count l n)"
  by (auto simp: list_validate_def list_validate_child_count_def index_def intro!: no_panic_intros)

lemma list_rows:
  assumes "list_validate_child_count l n = Inr ()"
  shows "concat (map (\<lambda>i. [unat (ll_offsets l ! i)..<unat (ll_offsets l ! Suc i)]) [0..<list_row_count l]) = [0..<n]"
    and "i < list_row_count l \<Longrightarrow> ll_offsets l ! i \<le> ll_offsets l ! Suc i \<and> unat (ll_offsets l ! Suc i) \<le> n"
proof -
  let ?f = "\<lambda>i. unat (ll_offsets l ! i)"
  have c: "list_validate l = Inr ()" "unat (last (ll_offsets l)) = n" using assms by (simp_all add: list_child_count_iff)
  note w = c(1) [unfolded list_validate_iff]
  have v: "ll_offsets l ! i \<le> ll_offsets l ! Suc i" if "i < list_row_count l" for i
    using w that by (simp add: list_row_count_def)
  have e: "?f (list_row_count l) = n" "?f 0 = 0"
    using w c(2) by (simp_all add: list_row_count_def last_conv_nth)
  have m: "?f i \<le> ?f (Suc i)" if "i < list_row_count l" for i using v [OF that] by (simp add: word_le_nat_alt)
  have "concat (map (\<lambda>i. [?f i..<?f (Suc i)]) [0..<list_row_count l]) = [?f 0..<?f (list_row_count l)]"
    by (rule concat_ranges [of "list_row_count l" ?f, THEN conjunct1]) (rule m)
  then show "concat (map (\<lambda>i. [unat (ll_offsets l ! i)..<unat (ll_offsets l ! Suc i)]) [0..<list_row_count l]) = [0..<n]"
    unfolding e .
  assume i: "i < list_row_count l"
  have "?f (Suc i) \<le> ?f (list_row_count l)"
    by (rule mono_upto [of "list_row_count l" ?f, OF m]) (use i in simp_all)
  then show "ll_offsets l ! i \<le> ll_offsets l ! Suc i \<and> unat (ll_offsets l ! Suc i) \<le> n" using v [OF i] e by simp
qed

lemma concat_layout_rows:
  assumes "\<And>i. i < k \<Longrightarrow> os ! i \<le> os ! Suc i" "unat (os ! 0) = 0"
  shows "concat (map (layout_row os xs) [0..<k]) = take (unat (os ! k)) xs"
  using assms
proof (induction k)
  case (Suc k)
  have m: "unat (os ! k) \<le> unat (os ! Suc k)" using Suc.prems(1) [of k] by (simp add: word_le_nat_alt)
  have "take (unat (os ! Suc k)) xs = take (unat (os ! k)) xs @ layout_row os xs k"
    using m take_add [of "unat (os ! k)" "unat (os ! Suc k) - unat (os ! k)" xs] by (simp add: layout_row_def sub_def)
  then show ?case using Suc by simp
qed simp

lemma zip_tl_set:
  "(\<forall>p \<in> set (zip os (tl os)). P p) \<longleftrightarrow> (\<forall>i. i < length os - 1 \<longrightarrow> P (os ! i, os ! Suc i))"
  unfolding all_set_conv_all_nth by (simp add: nth_tl)

lemma map_validate_iff:
  "map_validate m = Inr () \<longleftrightarrow>
     ml_keys_are_scalar m \<and> ml_key_row_count m = ml_value_row_count m \<and>
     list_validate_child_count \<lparr>ll_offsets = ml_offsets m\<rparr> (length (ml_canonical_keys m)) = Inr () \<and>
     length (ml_canonical_keys m) = unat (ml_key_row_count m) \<and>
     (\<not> ml_allow_duplicate_keys m \<longrightarrow>
       (\<forall>i < map_row_count m. distinct (layout_row (ml_offsets m) (ml_canonical_keys m) i)))"
  (is "?l \<longleftrightarrow> ?r") and no_panic_map_validate: "no_panic (map_validate m)"
proof -
  let ?L = "\<lparr>ll_offsets = ml_offsets m\<rparr>" and ?K = "ml_canonical_keys m"
  let ?loop = "try_map (\<lambda>(start, end'). and_then (slice ?K (unat start) (unat end')) validate_no_duplicate_keys)
      (zip (ml_offsets m) (tl (ml_offsets m)))"
  have s: "slice ?K (unat (ml_offsets m ! i)) (unat (ml_offsets m ! Suc i)) = (Inr (layout_row (ml_offsets m) ?K i) :: bytes list res)"
    if "list_validate_child_count ?L (length ?K) = Inr ()" "i < map_row_count m" for i
    using list_rows(2) [OF that(1), of i] that(2)
    by (simp add: slice_Ok layout_row_def list_row_count_def map_row_count_def word_le_nat_alt)
  have dup: "validate_no_duplicate_keys ks = Inr u \<longleftrightarrow> distinct ks" for ks u
    by (auto simp: validate_no_duplicate_keys_def has_duplicate_iff)
  have loop: "(\<exists>us. ?loop = Inr us) \<longleftrightarrow> (\<forall>i < map_row_count m. distinct (layout_row (ml_offsets m) ?K i))"
    if v: "list_validate_child_count ?L (length ?K) = Inr ()"
  proof
    assume "\<exists>us. ?loop = Inr us"
    then obtain us where us: "?loop = Inr us" by blast
    show "\<forall>i < map_row_count m. distinct (layout_row (ml_offsets m) ?K i)"
      using try_map_nth [OF us] s [OF v] by (simp add: map_row_count_def nth_tl dup)
  next
    assume d: "\<forall>i < map_row_count m. distinct (layout_row (ml_offsets m) ?K i)"
    have "\<forall>p \<in> set (zip (ml_offsets m) (tl (ml_offsets m))).
        (case p of (start, end') \<Rightarrow> and_then (slice ?K (unat start) (unat end')) validate_no_duplicate_keys) = Inr ()"
      unfolding zip_tl_set using s [OF v] d by (simp add: map_row_count_def dup)
    then have "?loop = Inr (map (\<lambda>_. ()) (zip (ml_offsets m) (tl (ml_offsets m))))" by (intro try_map_Ok) blast
    then show "\<exists>us. ?loop = Inr us" by blast
  qed
  have c: "list_validate_child_count ?L n = Inr () \<Longrightarrow> list_validate ?L = Inr ()" for n by (simp add: list_child_count_iff)
  show "?l \<longleftrightarrow> ?r"
  proof
    assume l: ?l
    then have a: "ml_keys_are_scalar m" "ml_key_row_count m = ml_value_row_count m"
      "length ?K = unat (ml_key_row_count m)" and v: "list_validate_child_count ?L (length ?K) = Inr ()"
      and lp: "\<not> ml_allow_duplicate_keys m \<Longrightarrow> \<exists>us. ?loop = Inr us"
      by (auto simp: map_validate_def Let_def ok_iffs split: if_splits)
    then show ?r using loop [OF v] by simp
  next
    assume r: ?r
    then have v: "list_validate_child_count ?L (length ?K) = Inr ()" by blast
    then have v2: "list_validate_child_count ?L (unat (ml_value_row_count m)) = Inr ()" using r by simp
    have "\<not> ml_allow_duplicate_keys m \<Longrightarrow> \<exists>us. ?loop = Inr us" using r loop [OF v] by simp
    then show ?l
      using r c [OF v] v2 unfolding map_validate_def Let_def by (auto simp: ok_iffs)
  qed
  have d: "no_panic (validate_no_duplicate_keys ks)" for ks by (simp add: validate_no_duplicate_keys_def)
  define f where "f = ?loop"
  have "no_panic f" if v: "list_validate_child_count ?L (length ?K) = Inr ()"
  proof -
    have "\<forall>p \<in> set (zip (ml_offsets m) (tl (ml_offsets m))).
        no_panic (case p of (start, end') \<Rightarrow> and_then (slice ?K (unat start) (unat end')) validate_no_duplicate_keys)"
      unfolding zip_tl_set using s [OF v] d by (simp add: map_row_count_def)
    then show ?thesis unfolding f_def by (intro no_panic_try_map) blast
  qed
  then show "no_panic (map_validate m)"
    unfolding map_validate_def Let_def f_def [symmetric] by (auto simp: ok_iffs intro!: no_panic_intros)
qed

section \<open>Properties\<close>

text \<open>
  C33: the three nested payloads are exact: the list, struct and map parsers accept exactly the
  encodings of a payload whose counts fit their 32-bit fields, and for a map that has as many keys
  as it counts; every byte is accounted for.
\<close>

theorem nested_payloads_exact:
  assumes "length bs < usize_limit"
  shows "(list_payload_parse bs = Ok l \<longleftrightarrow> bs = list_payload_encode l \<and> length (ll_offsets (lp_layout l)) < 2 ^ 32) \<and>
    (struct_payload_parse bs = Ok s \<longleftrightarrow> bs = struct_payload_encode s \<and> length (sl_field_row_counts (sp_layout s)) < 2 ^ 32) \<and>
    (map_payload_parse bs = Ok m \<longleftrightarrow> bs = map_payload_encode m \<and> length (ml_offsets m) < 2 ^ 32 \<and>
      length (ml_canonical_keys m) = unat (ml_key_row_count m) \<and> list_all (\<lambda>k. length k < 2 ^ 32) (ml_canonical_keys m))"
  by (simp add: list_payload_parse_iff struct_payload_parse_iff map_payload_parse_iff assms)

definition map_example :: map_layout where
  "map_example = \<lparr>ml_offsets = [0, 2, 3], ml_key_row_count = 3, ml_value_row_count = 3, ml_keys_are_scalar = True,
     ml_allow_duplicate_keys = False, ml_canonical_keys = [[7], [8], [7]]\<rparr>"

theorem nested_payloads_exact_witness:
  "map_payload_parse (map_payload_encode map_example) = Ok map_example"
proof -
  have l: "length (map_payload_encode map_example) = 43" by (simp add: map_payload_encode_def map_example_def map_key_bytes_def)
  show ?thesis
    using nested_payloads_exact [of "map_payload_encode map_example" _ _ map_example] l
    by (simp add: usize_limit_def) (simp add: map_example_def)
qed

text \<open>
  C30: the rows of an accepted layout partition its children. The offsets of a list that passes
  validation against its child count cut the child rows into consecutive ranges, one per row, that
  cover each child exactly once and in order. A map that passes has scalar keys; its offsets cut the
  key rows and the value rows, as many as the payload counts of each, the same way, and with them the
  canonical keys; and, unless duplicates are allowed, no row has a key twice (the same key may be in
  two rows). Validation never panics.
\<close>

theorem nested_rows_partition:
  "(list_validate_child_count l n = Ok () \<longrightarrow>
      concat (map (\<lambda>i. [unat (ll_offsets l ! i)..<unat (ll_offsets l ! Suc i)]) [0..<list_row_count l]) = [0..<n]) \<and>
   (map_validate m = Ok () \<longrightarrow>
      ml_keys_are_scalar m \<and>
      concat (map (\<lambda>i. [unat (ml_offsets m ! i)..<unat (ml_offsets m ! Suc i)]) [0..<map_row_count m]) = [0..<unat (ml_key_row_count m)] \<and>
      concat (map (\<lambda>i. [unat (ml_offsets m ! i)..<unat (ml_offsets m ! Suc i)]) [0..<map_row_count m]) = [0..<unat (ml_value_row_count m)] \<and>
      concat (map (layout_row (ml_offsets m) (ml_canonical_keys m)) [0..<map_row_count m]) = ml_canonical_keys m \<and>
      (ml_allow_duplicate_keys m \<or> list_all (\<lambda>i. distinct (layout_row (ml_offsets m) (ml_canonical_keys m) i)) [0..<map_row_count m])) \<and>
   no_panic (map_validate m)"
proof (intro conjI impI)
  show "list_validate_child_count l n = Ok () \<Longrightarrow>
      concat (map (\<lambda>i. [unat (ll_offsets l ! i)..<unat (ll_offsets l ! Suc i)]) [0..<list_row_count l]) = [0..<n]"
    by (rule list_rows(1))
  show "no_panic (map_validate m)" by (rule no_panic_map_validate)
  assume a: "map_validate m = Ok ()"
  then show "ml_keys_are_scalar m" by (simp add: map_validate_iff)
  have v: "list_validate_child_count \<lparr>ll_offsets = ml_offsets m\<rparr> (length (ml_canonical_keys m)) = Inr ()"
    and k: "length (ml_canonical_keys m) = unat (ml_key_row_count m)" "ml_key_row_count m = ml_value_row_count m"
    using a map_validate_iff [of m] by blast+
  show "concat (map (\<lambda>i. [unat (ml_offsets m ! i)..<unat (ml_offsets m ! Suc i)]) [0..<map_row_count m]) = [0..<unat (ml_key_row_count m)]"
    using list_rows(1) [OF v] k(1) by (simp add: list_row_count_def map_row_count_def)
  then show "concat (map (\<lambda>i. [unat (ml_offsets m ! i)..<unat (ml_offsets m ! Suc i)]) [0..<map_row_count m]) = [0..<unat (ml_value_row_count m)]"
    by (simp add: k(2))
  have "concat (map (layout_row (ml_offsets m) (ml_canonical_keys m)) [0..<map_row_count m]) =
      take (unat (ml_offsets m ! map_row_count m)) (ml_canonical_keys m)"
    using v by (intro concat_layout_rows) (auto simp: list_child_count_iff list_validate_iff map_row_count_def)
  moreover have "unat (ml_offsets m ! map_row_count m) = length (ml_canonical_keys m)"
    using v by (auto simp: list_child_count_iff list_validate_iff map_row_count_def last_conv_nth)
  ultimately show "concat (map (layout_row (ml_offsets m) (ml_canonical_keys m)) [0..<map_row_count m]) = ml_canonical_keys m" by simp
  show "ml_allow_duplicate_keys m \<or> list_all (\<lambda>i. distinct (layout_row (ml_offsets m) (ml_canonical_keys m) i)) [0..<map_row_count m]"
    using a by (auto simp: map_validate_iff list_all_iff)
qed

theorem nested_rows_partition_witness:
  "concat (map (\<lambda>i. [unat ([0, 2, 2, 3] ! i :: u32)..<unat ([0, 2, 2, 3] ! Suc i :: u32)]) [0..<3]) = [0..<3] \<and>
   map (layout_row (ml_offsets map_example) (ml_canonical_keys map_example)) [0, 1] = [[[7], [8]], [[7]]] \<and>
   concat (map (\<lambda>i. [unat (ml_offsets map_example ! i)..<unat (ml_offsets map_example ! Suc i)]) [0..<2]) =
     [0..<unat (ml_value_row_count map_example)] \<and>
   concat (map (layout_row (ml_offsets map_example) (ml_canonical_keys map_example)) [0..<2]) = ml_canonical_keys map_example"
proof -
  have l: "list_validate_child_count \<lparr>ll_offsets = [0, 2, 2, 3]\<rparr> 3 = Ok ()" by code_simp
  have m: "map_validate map_example = Ok ()" by code_simp
  have c: "list_row_count \<lparr>ll_offsets = [0, 2, 2, 3]\<rparr> = 3" "map_row_count map_example = 2"
    by (simp_all add: list_row_count_def map_row_count_def map_example_def)
  show ?thesis
    using nested_rows_partition [THEN conjunct1, THEN mp, OF l]
      nested_rows_partition [THEN conjunct2, THEN conjunct1, THEN mp, OF m]
    unfolding c by (simp add: list_row_count_def) (simp add: layout_row_def sub_def map_example_def)
qed

end
