(* ===== verification/Cursor.thy ===== *)
theory Cursor
  imports Wire
begin

text \<open>
  Sequential formats: \<open>reads bs p part q\<close> says that the bytes from position \<open>p\<close> up to \<open>q\<close> are
  \<open>part\<close>. A parser that moves a position through its input is exact when each of its steps is
  characterised by such a fact; the parts then join to the serialized whole.
\<close>

definition reads :: "'a list \<Rightarrow> nat \<Rightarrow> 'a list \<Rightarrow> nat \<Rightarrow> bool" where
  "reads bs p part q \<longleftrightarrow> q = p + length part \<and> q \<le> length bs \<and> sub bs p (length part) = part"

lemma reads_Nil [simp]: "reads bs p [] q \<longleftrightarrow> q = p \<and> p \<le> length bs"
  by (auto simp: reads_def sub_def)

lemma reads_append: "reads bs p (a @ b) q \<longleftrightarrow> reads bs p a (p + length a) \<and> reads bs (p + length a) b q"
proof -
  have "sub bs p (length a + length b) = sub bs p (length a) @ sub bs (p + length a) (length b)"
    by (simp add: sub_join)
  then show ?thesis
    by (auto simp: reads_def length_sub add.assoc)
qed

lemma reads_join: "reads bs p a q \<Longrightarrow> reads bs q b r \<Longrightarrow> reads bs p (a @ b) r"
  by (subst reads_append) (auto simp: reads_def)

lemma reads_bounds: "reads bs p part q \<Longrightarrow> p \<le> q \<and> q \<le> length bs \<and> q = p + length part"
  by (auto simp: reads_def)

lemma reads_append_ex: "reads bs p (a @ b) q \<longleftrightarrow> (\<exists>m. reads bs p a m \<and> m \<le> length bs \<and> reads bs m b q)"
  by (auto simp: reads_append) (auto simp: reads_def)

lemma reads_whole: "reads bs 0 part (length bs) \<longleftrightarrow> part = bs"
  by (auto simp: reads_def sub_def)

lemma reads_sub: "p + n \<le> length bs \<Longrightarrow> reads bs p (sub bs p n) (p + n)"
  by (simp add: reads_def length_sub)

lemma reads_sub_eq: "reads bs p part q \<Longrightarrow> sub bs p (q - p) = part"
  by (auto simp: reads_def)

lemma reads_drop: "reads bs p part (length bs) \<longleftrightarrow> p \<le> length bs \<and> drop p bs = part"
  by (auto simp: reads_def sub_def)

lemma reads_word_iff:
  assumes "8 * n = LENGTH('a)"
  shows "reads bs p (le_bytes n (w :: 'a::len word)) q \<longleftrightarrow> q = p + n \<and> q \<le> length bs \<and> w = of_le (sub bs p n)"
  using assms by (auto simp: reads_def le_bytes_of_le length_sub)

lemma read_words_reads:
  assumes "length bs < usize_limit"
  shows "read_u16_le_checked bs p = Inr w \<longleftrightarrow> reads bs p (le_bytes 2 w) (p + 2)"
    and "read_u32_le_checked bs p = Inr x \<longleftrightarrow> reads bs p (le_bytes 4 x) (p + 4)"
    and "read_u64_le_checked bs p = Inr y \<longleftrightarrow> reads bs p (le_bytes 8 y) (p + 8)"
    and "read_i64_le_checked bs p = Inr y \<longleftrightarrow> reads bs p (le_bytes 8 y) (p + 8)"
    and "read_u8_checked bs p = Inr b \<longleftrightarrow> reads bs p [b] (p + 1)"
  using assms by (auto simp: read_Ok_iffs reads_word_iff) (auto simp: reads_def sub_singleton)

lemma read_range_reads:
  "length bs < usize_limit \<Longrightarrow> read_range_checked bs p n = Inr r \<longleftrightarrow> length r = n \<and> reads bs p r (p + n)"
  by (auto simp: read_range_Ok_iff reads_def length_sub)

lemma slice_reads:
  "slice bs p q = Inr r \<longleftrightarrow> p \<le> q \<and> length r = q - p \<and> reads bs p r q"
  by (auto simp: slice_Ok_iff reads_def length_sub)

end
