(* ===== verification/Collation.thy ===== *)
theory Collation
  imports Exact_Codec Metadata Cursor "HOL-Library.List_Lexorder"
begin

text \<open>
  Collations (\<^verbatim>\<open>collation.rs\<close>): the six minimum collations with their comparison, and the
  registry section that names further ones.
\<close>

section \<open>Kinds and comparison\<close>

datatype ordering3 = O3_Less | O3_Equal | O3_Greater

definition cmp_of :: "'a::linorder \<Rightarrow> 'a \<Rightarrow> ordering3" where
  "cmp_of a b = (if a < b then O3_Less else if a = b then O3_Equal else O3_Greater)"

datatype collation_kind =
    CK_None | CK_Utf8Bytewise | CK_UnsignedFixedBytes | CK_SignedNumeric | CK_UnsignedNumeric | CK_TimestampChronological

primrec collation_id :: "collation_kind \<Rightarrow> u16" where
  "collation_id CK_None = 0"
| "collation_id CK_Utf8Bytewise = 1"
| "collation_id CK_UnsignedFixedBytes = 2"
| "collation_id CK_SignedNumeric = 3"
| "collation_id CK_UnsignedNumeric = 4"
| "collation_id CK_TimestampChronological = 5"

definition collation_from_id :: "u16 \<Rightarrow> collation_kind option" where
  "collation_from_id v =
     (if v = 0 then Some CK_None
      else if v = 1 then Some CK_Utf8Bytewise
      else if v = 2 then Some CK_UnsignedFixedBytes
      else if v = 3 then Some CK_SignedNumeric
      else if v = 4 then Some CK_UnsignedNumeric
      else if v = 5 then Some CK_TimestampChronological
      else None)"

text \<open>Names are ASCII; the bytes of a text.\<close>

definition ascii :: "string \<Rightarrow> bytes" where
  "ascii s = map (\<lambda>c. of_nat (of_char c)) s"

primrec collation_name :: "collation_kind \<Rightarrow> bytes" where
  "collation_name CK_None = ascii ''none''"
| "collation_name CK_Utf8Bytewise = ascii ''utf8-bytewise''"
| "collation_name CK_UnsignedFixedBytes = ascii ''unsigned-fixed-bytes''"
| "collation_name CK_SignedNumeric = ascii ''signed-numeric''"
| "collation_name CK_UnsignedNumeric = ascii ''unsigned-numeric''"
| "collation_name CK_TimestampChronological = ascii ''timestamp-chronological''"

definition collation_from_name :: "bytes \<Rightarrow> collation_kind option" where
  "collation_from_name name =
     (if name = ascii ''none'' then Some CK_None
      else if name = ascii ''utf8-bytewise'' then Some CK_Utf8Bytewise
      else if name = ascii ''unsigned-fixed-bytes'' then Some CK_UnsignedFixedBytes
      else if name = ascii ''signed-numeric'' then Some CK_SignedNumeric
      else if name = ascii ''unsigned-numeric'' then Some CK_UnsignedNumeric
      else if name = ascii ''timestamp-chronological'' then Some CK_TimestampChronological
      else None)"

definition supports_ordering :: "collation_kind \<Rightarrow> bool" where
  "supports_ordering k \<longleftrightarrow> k \<noteq> CK_None"

definition check_same_len :: "bytes \<Rightarrow> bytes \<Rightarrow> unit res" where
  "check_same_len lhs rhs =
     (if length lhs \<noteq> length rhs \<or> length lhs \<notin> {1, 2, 4, 8, 16} then Fail BadStats else Ok ())"

definition read_unsigned :: "bytes \<Rightarrow> u128 res" where
  "read_unsigned b =
     (let buf = replicate 16 0; n = length b in
      and_then (slice buf 0 n) (\<lambda>dst. and_then (copy_from_slice dst b) (\<lambda>_. Ok (of_le (copy_at buf 0 b)))))"

definition read_signed :: "bytes \<Rightarrow> int" where
  "read_signed b =
     (if length b = 1 then sint (of_le b :: 8 word)
      else if length b = 2 then sint (of_le b :: 16 word)
      else if length b = 4 then sint (of_le b :: 32 word)
      else if length b = 8 then sint (of_le b :: 64 word)
      else if length b = 16 then sint (of_le b :: 128 word)
      else 0)"

definition unsigned_numeric :: "bytes \<Rightarrow> bytes \<Rightarrow> ordering3 res" where
  "unsigned_numeric lhs rhs =
     and_then (check_same_len lhs rhs) (\<lambda>_.
     and_then (read_unsigned lhs) (\<lambda>a. and_then (read_unsigned rhs) (\<lambda>b. Ok (cmp_of a b))))"

definition signed_numeric :: "bytes \<Rightarrow> bytes \<Rightarrow> ordering3 res" where
  "signed_numeric lhs rhs = and_then (check_same_len lhs rhs) (\<lambda>_. Ok (cmp_of (read_signed lhs) (read_signed rhs)))"

primrec collation_compare :: "collation_kind \<Rightarrow> bytes \<Rightarrow> bytes \<Rightarrow> ordering3 res" where
  "collation_compare CK_None lhs rhs = (if lhs = rhs then Ok O3_Equal else Fail BadStats)"
| "collation_compare CK_Utf8Bytewise lhs rhs = Ok (cmp_of lhs rhs)"
| "collation_compare CK_UnsignedFixedBytes lhs rhs = Ok (cmp_of lhs rhs)"
| "collation_compare CK_SignedNumeric lhs rhs = signed_numeric lhs rhs"
| "collation_compare CK_UnsignedNumeric lhs rhs = unsigned_numeric lhs rhs"
| "collation_compare CK_TimestampChronological lhs rhs = signed_numeric lhs rhs"

section \<open>The registry\<close>

record collation_entry =
  ce_collation_id :: u16
  ce_name :: bytes
  ce_version :: bytes
  ce_flags :: u32
  ce_kind :: "collation_kind option"

text \<open>A bound on the bytes that are left, as the loop tests it before every field.\<close>

definition need :: "bytes \<Rightarrow> nat \<Rightarrow> nat \<Rightarrow> nat res" where
  "need bs pos n =
     and_then (ok_or ArithOverflow (checked_add pos n)) (\<lambda>end'. if length bs < end' then Fail BufferTooShort else Ok end')"

definition registry_text :: "string \<Rightarrow> bytes \<Rightarrow> nat \<Rightarrow> u16 \<Rightarrow> (bytes \<times> nat) res" where
  "registry_text what bs pos len =
     and_then (need bs pos (unat len)) (\<lambda>end'.
     and_then (slice bs pos end') (\<lambda>raw.
     if \<not> utf8_valid raw then Fail (BadSection (''collation '' @ what @ '' is not valid UTF-8'')) else Ok (raw, end')))"

definition collation_entry_at :: "bytes \<Rightarrow> nat \<Rightarrow> u16 list \<Rightarrow> (collation_entry \<times> nat) res" where
  "collation_entry_at bs pos seen_ids =
     and_then (need bs pos 4) (\<lambda>_.
     and_then (read_u16_le_checked bs pos) (\<lambda>collation_id'.
     and_then (read_u16_le_checked bs (pos + 2)) (\<lambda>name_len.
     and_then (registry_text ''name'' bs (pos + 2 + 2) name_len) (\<lambda>(name, pos).
     and_then (need bs pos 2) (\<lambda>_.
     and_then (read_u16_le_checked bs pos) (\<lambda>version_len.
     and_then (registry_text ''version'' bs (pos + 2) version_len) (\<lambda>(version, pos).
     and_then (need bs pos 4) (\<lambda>_.
     and_then (read_u32_le_checked bs pos) (\<lambda>flags.
     if collation_id' \<in> set seen_ids then Fail (BadSection ''collation registry has duplicate collation_id'')
     else
       let kind = collation_from_name name in
       case collation_from_id collation_id' of
         Some minimum_kind \<Rightarrow>
           if Some minimum_kind \<noteq> kind
           then Fail (BadSection ''minimum collation IDs must use their spec-defined names'')
           else Ok (\<lparr>ce_collation_id = collation_id', ce_name = name, ce_version = version, ce_flags = flags, ce_kind = kind\<rparr>, pos + 4)
       | None \<Rightarrow>
           Ok (\<lparr>ce_collation_id = collation_id', ce_name = name, ce_version = version, ce_flags = flags, ce_kind = kind\<rparr>, pos + 4))))))))))"

primrec registry_loop :: "bytes \<Rightarrow> nat \<Rightarrow> nat \<Rightarrow> u16 list \<Rightarrow> (collation_entry list \<times> nat) res" where
  "registry_loop bs 0 pos seen_ids = Ok ([], pos)"
| "registry_loop bs (Suc n) pos seen_ids =
     and_then (collation_entry_at bs pos seen_ids) (\<lambda>(entry, pos).
     map_ok (\<lambda>(entries, pos). (entry # entries, pos)) (registry_loop bs n pos (ce_collation_id entry # seen_ids)))"

definition registry_parse :: "bytes \<Rightarrow> collation_entry list res" where
  "registry_parse bs =
     (if length bs < 8 then Fail BufferTooShort
      else
        and_then (read_u32_le_checked bs 0) (\<lambda>entry_count.
        and_then (read_u32_le_checked bs 4) (\<lambda>flags.
        if flags \<noteq> 0 then Fail (BadSection ''collation registry reserved flags must be zero'')
        else
          and_then (registry_loop bs (unat entry_count) 8 []) (\<lambda>(entries, pos).
          if pos \<noteq> length bs then Fail (BadSection ''collation registry has trailing bytes'') else Ok entries))))"

definition collation_entry_bytes :: "collation_entry \<Rightarrow> bytes res" where
  "collation_entry_bytes e =
     (if \<not> length (ce_name e) < 2 ^ 16 then Fail (BadSection ''collation name exceeds u16 length limit'')
      else if \<not> length (ce_version e) < 2 ^ 16 then Fail (BadSection ''collation version exceeds u16 length limit'')
      else Ok (le_bytes 2 (ce_collation_id e) @ le_bytes 2 (of_nat (length (ce_name e)) :: u16) @ ce_name e @
        le_bytes 2 (of_nat (length (ce_version e)) :: u16) @ ce_version e @ le_bytes 4 (ce_flags e)))"

definition registry_serialize :: "collation_entry list \<Rightarrow> bytes res" where
  "registry_serialize es =
     map_ok (\<lambda>parts. le_bytes 4 (of_nat (length es) :: u32) @ le_bytes 4 (0 :: u32) @ concat parts)
       (try_map collation_entry_bytes es)"

definition all_known :: "collation_entry list \<Rightarrow> bool" where
  "all_known es \<longleftrightarrow> list_all (\<lambda>e. ce_kind e \<noteq> None) es"

definition is_known_collation :: "bytes \<Rightarrow> bool" where
  "is_known_collation name \<longleftrightarrow> collation_from_name name \<noteq> None"

definition is_ordering_collation_id :: "u16 \<Rightarrow> bool" where
  "is_ordering_collation_id id' = (case collation_from_id id' of None \<Rightarrow> False | Some k \<Rightarrow> supports_ordering k)"

definition kind_for_id :: "collation_entry list \<Rightarrow> u16 \<Rightarrow> collation_kind option" where
  "kind_for_id es id' =
     (case collation_from_id id' of
        Some k \<Rightarrow> Some k
      | None \<Rightarrow> (case find (\<lambda>e. ce_collation_id e = id') es of None \<Rightarrow> None | Some e \<Rightarrow> ce_kind e))"

section \<open>Names and ids\<close>

lemma collation_from_id_iff: "collation_from_id v = Some k \<longleftrightarrow> v = collation_id k"
  by (cases k) (auto simp: collation_from_id_def)

lemma collation_from_name_iff: "collation_from_name s = Some k \<longleftrightarrow> s = collation_name k"
  by (cases k) (auto simp: collation_from_name_def ascii_def)

section \<open>Numeric keys\<close>

text \<open>The number little-endian bytes stand for, without and with sign.\<close>

fun le_nat :: "bytes \<Rightarrow> nat" where
  "le_nat [] = 0"
| "le_nat (b # bs) = unat b + 256 * le_nat bs"

definition le_int :: "bytes \<Rightarrow> int" where
  "le_int bs = (if le_nat bs < 2 ^ (8 * length bs - 1) then int (le_nat bs) else int (le_nat bs) - 2 ^ (8 * length bs))"

lemma le_nat_bound: "le_nat bs < 256 ^ length bs"
proof (induction bs)
  case (Cons b bs)
  have "unat b + 256 * le_nat bs < 256 * Suc (le_nat bs)" using unsigned_less [where 'a = nat, of b] by simp
  also have "\<dots> \<le> 256 * 256 ^ length bs" using Cons by (intro mult_le_mono2) simp
  finally show ?case by simp
qed simp

lemma unat_of_le: "8 * length bs \<le> LENGTH('a) \<Longrightarrow> unat (of_le bs :: 'a::len word) = le_nat bs"
proof (induction bs)
  case (Cons b bs)
  have l: "LENGTH('a) \<ge> 8" using Cons.prems by simp
  have ih: "unat (of_le bs :: 'a word) = le_nat bs" using Cons by simp
  have "le_nat (b # bs) < 2 ^ LENGTH('a)"
  proof -
    have "le_nat (b # bs) < 256 ^ length (b # bs)" by (rule le_nat_bound)
    also have "(256 :: nat) ^ length (b # bs) = 2 ^ (8 * length (b # bs))" by (simp add: power_mult power_add)
    also have "\<dots> \<le> 2 ^ LENGTH('a)" using Cons.prems by (intro power_increasing) simp_all
    finally show ?thesis .
  qed
  moreover have "(ucast b OR push_bit 8 (of_le bs) :: 'a word) = ucast b + push_bit 8 (of_le bs)"
    by (rule disjunctive_add [symmetric]) (auto simp: bit_simps dest: bit_imp_le_length)
  moreover have "unat (ucast b :: 'a word) = unat b"
    using unat_u8_less [of b] power_increasing [OF l, of "2 :: nat"]
    by (simp add: unsigned_ucast_eq take_bit_nat_eq_self_iff)
  ultimately show ?case
    by (simp add: unat_word_ariths push_bit_eq_mult ih take_bit_eq_mod mod_simps mult.commute)
qed simp

lemma signed_take_bit_value:
  assumes "0 \<le> k" "k < 2 ^ Suc n"
  shows "signed_take_bit n (k :: int) = (if k < 2 ^ n then k else k - 2 ^ Suc n)"
proof (cases "k < 2 ^ n")
  case True
  then show ?thesis using assms by (simp add: signed_take_bit_eq_take_bit_shift take_bit_eq_mod)
next
  case False
  have "(k + 2 ^ n) mod 2 ^ Suc n = (k + 2 ^ n - 2 ^ Suc n) mod 2 ^ Suc n" by (rule minus_mod_self2 [symmetric])
  also have "\<dots> = k + 2 ^ n - 2 ^ Suc n" using False assms by (intro mod_pos_pos_trivial) simp_all
  finally show ?thesis using False by (simp add: signed_take_bit_eq_take_bit_shift take_bit_eq_mod)
qed

lemma sint_of_le:
  assumes "8 * length bs = LENGTH('a)"
  shows "sint (of_le bs :: 'a::len word) = le_int bs"
proof -
  have u: "uint (of_le bs :: 'a word) = int (le_nat bs)"
    using unat_of_le [of bs, where 'a = 'a] assms by (simp flip: int_eq_iff add: uint_nat)
  have n: "Suc (LENGTH('a) - Suc 0) = LENGTH('a)" by simp
  have "sint (of_le bs :: 'a word) = signed_take_bit (LENGTH('a) - Suc 0) (int (le_nat bs))"
    by (simp add: sint_uint u)
  also have "\<dots> = (if int (le_nat bs) < 2 ^ (LENGTH('a) - Suc 0) then int (le_nat bs) else int (le_nat bs) - 2 ^ LENGTH('a))"
    using signed_take_bit_value [of "int (le_nat bs)" "LENGTH('a) - Suc 0"] uint_bounded [of "of_le bs :: 'a word"]
    unfolding n u by simp
  also have "\<dots> = le_int bs" unfolding le_int_def assms by (simp flip: of_nat_less_iff)
  finally show ?thesis .
qed

section \<open>The order\<close>

definition numeric_pair :: "bytes \<Rightarrow> bytes \<Rightarrow> bool" where
  "numeric_pair a b \<longleftrightarrow> length a = length b \<and> length a \<in> {1, 2, 4, 8, 16}"

lemma check_same_len_eq: "check_same_len a b = (if numeric_pair a b then Ok () else Fail BadStats)"
  by (auto simp: check_same_len_def numeric_pair_def)

lemma read_unsigned_eq: "length b \<le> 16 \<Longrightarrow> \<exists>w. read_unsigned b = Ok w \<and> unat w = le_nat b"
  using unat_of_le [of b, where 'a = 128]
  by (simp add: read_unsigned_def Let_def slice_Ok copy_from_slice_def length_sub copy_at_def of_le_append_zeros)

lemma read_signed_eq: "length b \<in> {1, 2, 4, 8, 16} \<Longrightarrow> read_signed b = le_int b"
  by (auto simp: read_signed_def sint_of_le)

lemma compare_eqs:
  "collation_compare CK_UnsignedNumeric a b = (if numeric_pair a b then Ok (cmp_of (le_nat a) (le_nat b)) else Fail BadStats)"
  "collation_compare CK_SignedNumeric a b = (if numeric_pair a b then Ok (cmp_of (le_int a) (le_int b)) else Fail BadStats)"
  "collation_compare CK_TimestampChronological a b = (if numeric_pair a b then Ok (cmp_of (le_int a) (le_int b)) else Fail BadStats)"
proof -
  have l: "length a \<le> 16" "length b \<le> 16" if "numeric_pair a b" using that by (auto simp: numeric_pair_def)
  have "unsigned_numeric a b = Ok (cmp_of (le_nat a) (le_nat b))" if n: "numeric_pair a b"
  proof -
    obtain v w where "read_unsigned a = Ok v" "unat v = le_nat a" "read_unsigned b = Ok w" "unat w = le_nat b"
      using read_unsigned_eq [OF l(1) [OF n]] read_unsigned_eq [OF l(2) [OF n]] by blast
    then show ?thesis
      using n by (auto simp: unsigned_numeric_def check_same_len_eq cmp_of_def word_less_nat_alt word_unat_eq_iff)
  qed
  then show "collation_compare CK_UnsignedNumeric a b = (if numeric_pair a b then Ok (cmp_of (le_nat a) (le_nat b)) else Fail BadStats)"
    by (simp add: unsigned_numeric_def check_same_len_eq)
  have "signed_numeric a b = Ok (cmp_of (le_int a) (le_int b))" if n: "numeric_pair a b"
  proof -
    have "read_signed a = le_int a" using n unfolding numeric_pair_def by (metis read_signed_eq)
    moreover have "read_signed b = le_int b" using n unfolding numeric_pair_def by (metis read_signed_eq)
    ultimately show ?thesis using n by (simp add: signed_numeric_def check_same_len_eq)
  qed
  then have "signed_numeric a b = (if numeric_pair a b then Ok (cmp_of (le_int a) (le_int b)) else Fail BadStats)"
    by (simp add: signed_numeric_def check_same_len_eq)
  then show "collation_compare CK_SignedNumeric a b = (if numeric_pair a b then Ok (cmp_of (le_int a) (le_int b)) else Fail BadStats)"
    "collation_compare CK_TimestampChronological a b = (if numeric_pair a b then Ok (cmp_of (le_int a) (le_int b)) else Fail BadStats)"
    by simp_all
qed

lemma le_nat_inject: "length a = length b \<Longrightarrow> le_nat a = le_nat b \<longleftrightarrow> a = b"
proof (induction a arbitrary: b)
  case (Cons x a)
  then obtain y c where b: "b = y # c" "length a = length c" by (cases b) auto
  have "x = y \<and> le_nat a = le_nat c" if "unat x + 256 * le_nat a = unat y + 256 * le_nat c"
  proof -
    have "(unat x + 256 * le_nat a) mod 256 = unat x" "(unat y + 256 * le_nat c) mod 256 = unat y"
      using unat_u8_less [of x] unat_u8_less [of y] by simp_all
    then show ?thesis using that by (simp add: word_unat_eq_iff)
  qed
  then show ?case using Cons.IH [OF b(2)] by (auto simp: b(1))
qed simp

lemma le_int_inject:
  assumes "length a = length b"
  shows "le_int a = le_int b \<longleftrightarrow> a = b"
proof -
  have p: "(256 :: nat) ^ length b = 2 ^ (8 * length b)" by (simp add: power_mult)
  define m :: int where "m = 2 ^ (8 * length b)"
  have b: "int (le_nat a) < m" "int (le_nat b) < m"
    using le_nat_bound [of a] le_nat_bound [of b] unfolding assms p m_def
    by (metis of_nat_less_iff of_nat_numeral of_nat_power)+
  have "le_int a = le_int b \<Longrightarrow> le_nat a = le_nat b"
    using b unfolding le_int_def assms m_def [symmetric] by (simp split: if_splits)
  then show ?thesis using le_nat_inject [OF assms] by auto
qed

primrec flip_order :: "ordering3 \<Rightarrow> ordering3" where
  "flip_order O3_Less = O3_Greater"
| "flip_order O3_Equal = O3_Equal"
| "flip_order O3_Greater = O3_Less"

lemma cmp_of_laws:
  "cmp_of b a = flip_order (cmp_of a b)" "cmp_of a b = O3_Equal \<longleftrightarrow> a = b"
  "cmp_of a b \<noteq> O3_Greater \<Longrightarrow> cmp_of b c \<noteq> O3_Greater \<Longrightarrow> cmp_of a c \<noteq> O3_Greater"
  by (auto simp: cmp_of_def split: if_splits)

text \<open>
  What a collation compares: texts byte by byte, numbers by the value of their little-endian bytes.
  The key of a value is a list of integers, compared as a list.
\<close>

primrec collation_key :: "collation_kind \<Rightarrow> bytes \<Rightarrow> int list" where
  "collation_key CK_None bs = map uint bs"
| "collation_key CK_Utf8Bytewise bs = map uint bs"
| "collation_key CK_UnsignedFixedBytes bs = map uint bs"
| "collation_key CK_SignedNumeric bs = [le_int bs]"
| "collation_key CK_UnsignedNumeric bs = [int (le_nat bs)]"
| "collation_key CK_TimestampChronological bs = [le_int bs]"

primrec comparable :: "collation_kind \<Rightarrow> bytes \<Rightarrow> bytes \<Rightarrow> bool" where
  "comparable CK_None a b \<longleftrightarrow> a = b"
| "comparable CK_Utf8Bytewise a b \<longleftrightarrow> True"
| "comparable CK_UnsignedFixedBytes a b \<longleftrightarrow> True"
| "comparable CK_SignedNumeric a b \<longleftrightarrow> numeric_pair a b"
| "comparable CK_UnsignedNumeric a b \<longleftrightarrow> numeric_pair a b"
| "comparable CK_TimestampChronological a b \<longleftrightarrow> numeric_pair a b"

lemma map_uint_less: "map uint a < map uint (b :: bytes) \<longleftrightarrow> a < b"
proof (induction a arbitrary: b)
  case Nil
  then show ?case by (cases b) simp_all
next
  case (Cons x a)
  then show ?case
    by (cases b) (simp_all only: list.map Cons_less_Cons not_less_Nil word_less_def word_uint_eq_iff simp_thms)
qed

lemma map_uint_inject: "map uint a = map uint (b :: bytes) \<longleftrightarrow> a = b"
  by (rule inj_map_eq_map) (rule injI, simp add: word_uint_eq_iff)

lemma cmp_of_map_uint: "cmp_of (map uint a) (map uint (b :: bytes)) = cmp_of a b"
  by (simp add: cmp_of_def map_uint_less map_uint_inject)

lemma cmp_of_singleton: "cmp_of [x] [y :: int] = cmp_of x y" "cmp_of (int m) (int n) = cmp_of m n"
  by (simp_all add: cmp_of_def)

text \<open>
  comparison under a collation is the order of the keys, and a total order: it returns the
  comparison of the two keys, as numbers for the numeric collations and byte by byte otherwise,
  whenever the values are comparable (for numbers: of the same width 1, 2, 4, 8 or 16), and BadStats
  otherwise, and it answers Equal only for identical bytes. The two sides swapped give the
  opposite answer.
\<close>

theorem collation_total_order:
  "collation_compare k a b = (if comparable k a b then Ok (cmp_of (collation_key k a) (collation_key k b)) else Fail BadStats) \<and>
   (collation_compare k a b = Ok O3_Equal \<longleftrightarrow> comparable k a b \<and> a = b) \<and>
   collation_compare k b a = map_ok flip_order (collation_compare k a b)"
proof -
  have e: "collation_compare k a b = (if comparable k a b then Ok (cmp_of (collation_key k a) (collation_key k b)) else Fail BadStats)" for a b
    by (cases k) (simp_all add: compare_eqs cmp_of_map_uint cmp_of_singleton cmp_of_def [of b b] cmp_of_laws(2) del: collation_compare.simps(4-6))
  have s: "comparable k b a \<longleftrightarrow> comparable k a b" by (cases k) (auto simp: numeric_pair_def)
  have n: "numeric_pair a b \<Longrightarrow> length a = length b" by (simp add: numeric_pair_def)
  have i: "comparable k a b \<Longrightarrow> collation_key k a = collation_key k b \<longleftrightarrow> a = b"
    by (cases k) (auto simp: map_uint_inject le_int_inject [OF n] le_nat_inject [OF n])
  show ?thesis
    unfolding e s using i cmp_of_laws(1) [of "collation_key k b" "collation_key k a"] by (simp add: cmp_of_laws(2))
qed

section \<open>The registry is exact\<close>

lemma need_iff:
  "length bs < usize_limit \<Longrightarrow> need bs p n = Inr q \<longleftrightarrow> q = p + n \<and> q \<le> length bs"
  by (auto simp: need_def checked_add_def)

lemma registry_text_iff:
  assumes "length bs < usize_limit"
  shows "registry_text w bs p n = Inr (r, q) \<longleftrightarrow> length r = unat n \<and> reads bs p r q \<and> utf8_valid r"
  using assms by (auto simp: registry_text_def ok_iffs need_iff slice_reads dest: reads_bounds)
    (auto simp: reads_def length_sub)

lemma no_panic_registry_text [no_panic_intros, simp]: "no_panic (need bs p n)" "no_panic (registry_text w bs p len)"
  by (auto simp: registry_text_def need_def checked_add_def slice_Ok intro!: no_panic_intros)

definition collation_entry_ok :: "collation_entry \<Rightarrow> bool" where
  "collation_entry_ok e \<longleftrightarrow> utf8_valid (ce_name e) \<and> utf8_valid (ce_version e) \<and>
     ce_kind e = collation_from_name (ce_name e) \<and>
     (case collation_from_id (ce_collation_id e) of None \<Rightarrow> True | Some k \<Rightarrow> ce_name e = collation_name k)"

lemma collation_entry_bytes_iff:
  "collation_entry_bytes e = Inr part \<longleftrightarrow> length (ce_name e) < 2 ^ 16 \<and> length (ce_version e) < 2 ^ 16 \<and>
     part = le_bytes 2 (ce_collation_id e) @ le_bytes 2 (of_nat (length (ce_name e)) :: u16) @ ce_name e @
        le_bytes 2 (of_nat (length (ce_version e)) :: u16) @ ce_version e @ le_bytes 4 (ce_flags e)"
  by (auto simp: collation_entry_bytes_def)

lemma unat_of_nat_u16: "n < 2 ^ 16 \<Longrightarrow> unat (of_nat n :: u16) = n"
  by (rule unat_of_nat_less) simp

lemma minimum_name_check:
  "(case m of Some k \<Rightarrow> if Some k \<noteq> kind then Fail x else Ok y | None \<Rightarrow> Ok y) =
   (if \<forall>k. m = Some k \<longrightarrow> Some k = kind then Ok y else Fail x)"
  by (cases m) auto

lemma collation_entry_at_iff:
  assumes lim: "length bs < usize_limit"
  shows "collation_entry_at bs p ids = Inr (e, q) \<longleftrightarrow>
    (\<exists>part. collation_entry_bytes e = Inr part \<and> reads bs p part q) \<and> collation_entry_ok e \<and> ce_collation_id e \<notin> set ids"
proof
  assume a: "collation_entry_at bs p ids = Inr (e, q)"
  then obtain i n m v m' f and nl vl :: u16 where
    r: "reads bs p (le_bytes 2 i) (p + 2)" "reads bs (p + 2) (le_bytes 2 nl) (p + 2 + 2)"
      "length n = unat nl" "reads bs (p + 2 + 2) n m" "utf8_valid n" "reads bs m (le_bytes 2 vl) (m + 2)"
      "length v = unat vl" "reads bs (m + 2) v m'" "utf8_valid v" "reads bs m' (le_bytes 4 f) (m' + 4)" and
    c: "i \<notin> set ids" "\<forall>k. collation_from_id i = Some k \<longrightarrow> Some k = collation_from_name n" and
    e: "e = \<lparr>ce_collation_id = i, ce_name = n, ce_version = v, ce_flags = f, ce_kind = collation_from_name n\<rparr>" "q = m' + 4"
    unfolding collation_entry_at_def Let_def minimum_name_check
    by (auto simp: ok_iffs need_iff [OF lim] read_words_reads [OF lim] registry_text_iff [OF lim] split: prod.splits if_splits)
  have l: "length n < 2 ^ 16" "length v < 2 ^ 16" "of_nat (length n) = nl" "of_nat (length v) = vl"
    using r(3,7) unsigned_less [where 'a = nat, of nl] unsigned_less [where 'a = nat, of vl] by simp_all
  have "reads bs p (le_bytes 2 i @ le_bytes 2 nl @ n @ le_bytes 2 vl @ v @ le_bytes 4 f) q"
    unfolding e using r by (intro reads_join)
  moreover have "collation_entry_ok e"
    using c(2) r(5,9) by (auto simp: collation_entry_ok_def e collation_from_name_iff dest!: sym [of "Some _"] split: option.splits)
  ultimately show "(\<exists>part. collation_entry_bytes e = Inr part \<and> reads bs p part q) \<and> collation_entry_ok e \<and> ce_collation_id e \<notin> set ids"
    using l c(1) by (simp add: collation_entry_bytes_iff e)
next
  assume a: "(\<exists>part. collation_entry_bytes e = Inr part \<and> reads bs p part q) \<and> collation_entry_ok e \<and> ce_collation_id e \<notin> set ids"
  then obtain l: "length (ce_name e) < 2 ^ 16" "length (ce_version e) < 2 ^ 16" and
    r: "reads bs p (le_bytes 2 (ce_collation_id e) @ le_bytes 2 (of_nat (length (ce_name e)) :: u16) @ ce_name e @
        le_bytes 2 (of_nat (length (ce_version e)) :: u16) @ ce_version e @ le_bytes 4 (ce_flags e)) q"
    by (auto simp: collation_entry_bytes_iff)
  define m where "m = p + 2 + 2 + length (ce_name e)"
  define m' where "m' = m + 2 + length (ce_version e)"
  have s: "reads bs p (le_bytes 2 (ce_collation_id e)) (p + 2)" "reads bs (p + 2) (le_bytes 2 (of_nat (length (ce_name e)) :: u16)) (p + 2 + 2)"
    "reads bs (p + 2 + 2) (ce_name e) m" "reads bs m (le_bytes 2 (of_nat (length (ce_version e)) :: u16)) (m + 2)"
    "reads bs (m + 2) (ce_version e) m'" "reads bs m' (le_bytes 4 (ce_flags e)) q"
    using r unfolding reads_append length_le_bytes m_def m'_def by simp_all
  have q: "q = m' + 4" "q \<le> length bs" using reads_bounds [OF s(6)] by simp_all
  have o: "utf8_valid (ce_name e)" "utf8_valid (ce_version e)" "ce_kind e = collation_from_name (ce_name e)"
    "case collation_from_id (ce_collation_id e) of None \<Rightarrow> True | Some k \<Rightarrow> ce_name e = collation_name k"
    using a by (simp_all add: collation_entry_ok_def)
  have t: "registry_text ''name'' bs (p + 2 + 2) (of_nat (length (ce_name e))) = Inr (ce_name e, m)"
    "registry_text ''version'' bs (m + 2) (of_nat (length (ce_version e))) = Inr (ce_version e, m')"
    using s(3,5) o(1,2) l by (simp_all add: registry_text_iff [OF lim] unat_of_nat_u16 del: unat_of_nat)
  have n: "need bs p 4 = Inr (p + 4)" "need bs m 2 = Inr (m + 2)" "need bs m' 4 = Inr (m' + 4)"
    using reads_bounds [OF s(2)] reads_bounds [OF s(4)] q by (simp_all add: need_iff [OF lim])
  have w: "read_u16_le_checked bs p = Inr (ce_collation_id e)" "read_u16_le_checked bs (p + 2) = Inr (of_nat (length (ce_name e)))"
    "read_u16_le_checked bs m = Inr (of_nat (length (ce_version e)))" "read_u32_le_checked bs m' = Inr (ce_flags e)"
    using s(1,2,4,6) q by (simp_all add: read_words_reads [OF lim])
  show "collation_entry_at bs p ids = Inr (e, q)"
    unfolding collation_entry_at_def n w and_then_simps prod.case t Let_def
    using a o(3,4) by (cases "collation_from_id (ce_collation_id e)")
      (auto simp: q(1) collation_from_name_iff [THEN iffD2])
qed

lemma no_panic_registry_loop [no_panic_intros, simp]: "no_panic (registry_loop bs n p ids)"
proof -
  have "no_panic (collation_entry_at bs p ids)" for p ids
    unfolding collation_entry_at_def Let_def by (auto intro!: no_panic_intros split: option.splits)
  then show ?thesis by (induction n arbitrary: p ids) (auto intro!: no_panic_intros split: prod.splits)
qed

lemma registry_loop_iff:
  assumes lim: "length bs < usize_limit"
  shows "p \<le> length bs \<Longrightarrow> registry_loop bs n p ids = Inr (es, q) \<longleftrightarrow>
    length es = n \<and> (\<exists>parts. try_map collation_entry_bytes es = Inr parts \<and> reads bs p (concat parts) q) \<and>
    list_all collation_entry_ok es \<and> distinct (map ce_collation_id es) \<and> set ids \<inter> ce_collation_id ` set es = {}"
proof (induction n arbitrary: p ids es)
  case 0
  then show ?case by auto
next
  case (Suc n)
  show ?case
  proof (cases es)
    case Nil
    then show ?thesis by (auto simp: ok_iffs split: prod.splits)
  next
    case (Cons e fs)
    have "registry_loop bs (Suc n) p ids = Inr (es, q) \<longleftrightarrow>
        (\<exists>m. collation_entry_at bs p ids = Inr (e, m) \<and> registry_loop bs n m (ce_collation_id e # ids) = Inr (fs, q))"
      by (auto simp: ok_iffs Cons split: prod.splits)
    also have "\<dots> \<longleftrightarrow> (\<exists>m part. collation_entry_bytes e = Inr part \<and> reads bs p part m \<and> collation_entry_ok e \<and>
        ce_collation_id e \<notin> set ids \<and> registry_loop bs n m (ce_collation_id e # ids) = Inr (fs, q))"
      by (auto simp: collation_entry_at_iff [OF lim])
    also have "\<dots> \<longleftrightarrow> (\<exists>m part. collation_entry_bytes e = Inr part \<and> reads bs p part m \<and> collation_entry_ok e \<and>
        ce_collation_id e \<notin> set ids \<and> m \<le> length bs \<and> registry_loop bs n m (ce_collation_id e # ids) = Inr (fs, q))"
      by (auto dest: reads_bounds)
    also have "\<dots> \<longleftrightarrow> (\<exists>m part. collation_entry_bytes e = Inr part \<and> reads bs p part m \<and> collation_entry_ok e \<and>
        ce_collation_id e \<notin> set ids \<and> m \<le> length bs \<and> length fs = n \<and>
        (\<exists>parts. try_map collation_entry_bytes fs = Inr parts \<and> reads bs m (concat parts) q) \<and> list_all collation_entry_ok fs \<and>
        distinct (map ce_collation_id fs) \<and> set (ce_collation_id e # ids) \<inter> ce_collation_id ` set fs = {})"
      by (simp only: Suc.IH cong: conj_cong)
    also have "\<dots> \<longleftrightarrow> length es = Suc n \<and> (\<exists>parts. try_map collation_entry_bytes es = Inr parts \<and> reads bs p (concat parts) q) \<and>
        list_all collation_entry_ok es \<and> distinct (map ce_collation_id es) \<and> set ids \<inter> ce_collation_id ` set es = {}"
      by (auto simp: Cons ok_iffs reads_append_ex)
    finally show ?thesis .
  qed
qed

text \<open>
  C0: the collation registry is exact. \<open>CollationRegistry::parse\<close> accepts bytes exactly when they are
  what \<open>serialize\<close> writes for the entries it returns, and these have valid UTF-8 texts, the kind
  their name stands for, distinct ids, and the name the specification gives to each of the six
  minimum ids; so a minimum id always resolves to its own collation. Parsing never panics.
\<close>

theorem collation_registry_exact:
  assumes "length bs < usize_limit"
  shows "(registry_parse bs = Ok es \<longleftrightarrow> registry_serialize es = Ok bs \<and> length es < 2 ^ 32 \<and>
      list_all collation_entry_ok es \<and> distinct (map ce_collation_id es)) \<and>
    no_panic (registry_parse bs)"
proof
  have b: "reads bs 4 z 8 \<Longrightarrow> 8 \<le> length bs" for z by (simp add: reads_def)
  have l: "registry_loop bs n 8 [] = Ok (es, length bs) \<longleftrightarrow> length es = n \<and>
      (\<exists>parts. try_map collation_entry_bytes es = Ok parts \<and> reads bs 8 (concat parts) (length bs)) \<and>
      list_all collation_entry_ok es \<and> distinct (map ce_collation_id es)" if "8 \<le> length bs" for n
    using registry_loop_iff [OF assms that, of n "[]" es "length bs"] by simp
  have "registry_parse bs = Ok es \<longleftrightarrow> (\<exists>x :: u32. reads bs 0 (le_bytes 4 x) 4 \<and> reads bs 4 (le_bytes 4 (0 :: u32)) 8 \<and>
      registry_loop bs (unat x) 8 [] = Ok (es, length bs))"
    using assms by (auto simp: registry_parse_def ok_iffs read_words_reads not_less dest: reads_bounds split: prod.splits if_splits)
  also have "\<dots> \<longleftrightarrow> (\<exists>(x :: u32) parts. reads bs 0 (le_bytes 4 x) 4 \<and> reads bs 4 (le_bytes 4 (0 :: u32)) 8 \<and>
      8 \<le> length bs \<and> length es = unat x \<and> try_map collation_entry_bytes es = Ok parts \<and> reads bs 8 (concat parts) (length bs) \<and>
      list_all collation_entry_ok es \<and> distinct (map ce_collation_id es))"
  proof (cases "8 \<le> length bs")
    case True
    then show ?thesis unfolding l [OF True] by blast
  next
    case False
    then show ?thesis using b by blast
  qed
  also have "\<dots> \<longleftrightarrow> (\<exists>parts. bs = le_bytes 4 (of_nat (length es) :: u32) @ le_bytes 4 (0 :: u32) @ concat parts \<and> length es < 2 ^ 32 \<and>
      try_map collation_entry_bytes es = Ok parts \<and> list_all collation_entry_ok es \<and> distinct (map ce_collation_id es))"
  proof -
    have "(\<exists>x :: u32. reads bs 0 (le_bytes 4 x) 4 \<and> reads bs 4 (le_bytes 4 (0 :: u32)) 8 \<and> 8 \<le> length bs \<and>
        length es = unat x \<and> reads bs 8 (concat parts) (length bs)) \<longleftrightarrow>
        bs = le_bytes 4 (of_nat (length es) :: u32) @ le_bytes 4 (0 :: u32) @ concat parts \<and> length es < 2 ^ 32" (is "?l \<longleftrightarrow> ?r") for parts
    proof
      assume ?l
      then obtain x :: u32 where x: "reads bs 0 (le_bytes 4 x @ le_bytes 4 (0 :: u32) @ concat parts) (length bs)" "length es = unat x"
        by (auto intro: reads_join)
      then show ?r using unsigned_less [where 'a = nat, of x] by (simp add: reads_whole)
    next
      assume r: ?r
      then have "reads bs 0 (le_bytes 4 (of_nat (length es) :: u32) @ le_bytes 4 (0 :: u32) @ concat parts) (length bs)"
        by (metis reads_whole)
      then show ?l
        using r by (intro exI [of _ "of_nat (length es)"]) (auto simp: reads_append unat_of_nat_less dest: reads_bounds)
    qed
    then show ?thesis by blast
  qed
  also have "\<dots> \<longleftrightarrow> registry_serialize es = Ok bs \<and> length es < 2 ^ 32 \<and>
      list_all collation_entry_ok es \<and> distinct (map ce_collation_id es)"
    by (auto simp: registry_serialize_def ok_iffs)
  finally show "registry_parse bs = Ok es \<longleftrightarrow> registry_serialize es = Ok bs \<and> length es < 2 ^ 32 \<and>
      list_all collation_entry_ok es \<and> distinct (map ce_collation_id es)" .
  show "no_panic (registry_parse bs)"
    by (auto simp: registry_parse_def intro!: no_panic_intros split: prod.splits)
qed

definition registry_example :: "collation_entry list" where
  "registry_example =
     [\<lparr>ce_collation_id = 3, ce_name = collation_name CK_SignedNumeric, ce_version = ascii ''1'', ce_flags = 0, ce_kind = Some CK_SignedNumeric\<rparr>,
      \<lparr>ce_collation_id = 900, ce_name = ascii ''de'', ce_version = [], ce_flags = 1, ce_kind = None\<rparr>]"

theorem collation_registry_exact_witness:
  "map_ok (\<lambda>bs. registry_parse bs) (registry_serialize registry_example) = Ok (Ok registry_example)"
proof -
  obtain bs where bs: "registry_serialize registry_example = Ok bs" "length bs < usize_limit"
    by (simp add: registry_serialize_def registry_example_def collation_entry_bytes_def ascii_def usize_limit_def)
  moreover have "length registry_example < 2 ^ 32 \<and> list_all collation_entry_ok registry_example \<and>
      distinct (map ce_collation_id registry_example)"
    by (simp add: registry_example_def collation_entry_ok_def ascii_def collation_from_id_def collation_from_name_def utf8_valid_ascii)
  ultimately have "registry_parse bs = Ok registry_example" using collation_registry_exact [of bs registry_example] bs by blast
  then show ?thesis by (simp add: bs)
qed

end
