(* ===== verification/Composite.thy ===== *)
theory Composite
  imports Index_Common Exact_Codec
begin

text \<open>
  The composite zone index (\<^verbatim>\<open>index/composite.rs\<close>): header, key columns and entries.
\<close>

section \<open>Header\<close>

definition COMPOSITE_ZONE_INDEX_HEADER_LEN :: nat where
  "COMPOSITE_ZONE_INDEX_HEADER_LEN = 40"

datatype composite_transform_kind = CTK_Tuple | CTK_ZOrder | CTK_Hilbert | CTK_WriterDefined

primrec as_composite_transform_kind :: "composite_transform_kind \<Rightarrow> u8" where
  "as_composite_transform_kind CTK_Tuple = 0"
| "as_composite_transform_kind CTK_ZOrder = 1"
| "as_composite_transform_kind CTK_Hilbert = 2"
| "as_composite_transform_kind CTK_WriterDefined = 3"

definition composite_transform_kind_from :: "u8 \<Rightarrow> composite_transform_kind option" where
  "composite_transform_kind_from v =
     (if v = 0 then Some CTK_Tuple
      else if v = 1 then Some CTK_ZOrder
      else if v = 2 then Some CTK_Hilbert
      else if v = 3 then Some CTK_WriterDefined
      else None)"

lemma composite_transform_kind_from_iff [simp]: "composite_transform_kind_from v = Some k \<longleftrightarrow> v = as_composite_transform_kind k"
  by (cases k) (auto simp: composite_transform_kind_from_def)

lemma composite_transform_kind_from_as [simp]: "composite_transform_kind_from (as_composite_transform_kind k) = Some k"
  by simp

record composite_header =
  cz_table_id :: u32
  cz_key_column_count :: u16
  cz_transform_kind :: composite_transform_kind
  cz_flags :: u8
  cz_zone_count :: u32
  cz_key_columns_offset :: u64
  cz_entries_offset :: u64
  cz_entries_length :: u64
  cz_checksum :: u32

definition composite_header_serialize :: "(bytes \<Rightarrow> u32) \<Rightarrow> composite_header \<Rightarrow> bytes" where
  "composite_header_serialize crc h =
     (let out = replicate COMPOSITE_ZONE_INDEX_HEADER_LEN 0;
          out = copy_at out 0 (le_bytes 4 (cz_table_id h));
          out = copy_at out 4 (le_bytes 2 (cz_key_column_count h));
          out = copy_at out 6 [as_composite_transform_kind (cz_transform_kind h)];
          out = copy_at out 7 [cz_flags h];
          out = copy_at out 8 (le_bytes 4 (cz_zone_count h));
          out = copy_at out 12 (le_bytes 8 (cz_key_columns_offset h));
          out = copy_at out 20 (le_bytes 8 (cz_entries_offset h));
          out = copy_at out 28 (le_bytes 8 (cz_entries_length h));
          c = crc out
      in copy_at out 36 (le_bytes 4 c))"

definition composite_header_parse :: "(bytes \<Rightarrow> u32) \<Rightarrow> bytes \<Rightarrow> composite_header res" where
  "composite_header_parse crc bs =
     (if length bs < COMPOSITE_ZONE_INDEX_HEADER_LEN then Fail BufferTooShort
      else
        and_then (slice bs 0 COMPOSITE_ZONE_INDEX_HEADER_LEN) (\<lambda>bs.
        and_then (verify_checksum_field crc bs 36) (\<lambda>checksum'.
        and_then (index bs 6) (\<lambda>b. and_then (ok_or BadIndex (composite_transform_kind_from b)) (\<lambda>transform_kind'.
        and_then (read_u32_le_checked bs 0) (\<lambda>table_id'.
        and_then (read_u16_le_checked bs 4) (\<lambda>key_column_count'.
        and_then (index bs 7) (\<lambda>flags'.
        and_then (read_u32_le_checked bs 8) (\<lambda>zone_count'.
        and_then (read_u64_le_checked bs 12) (\<lambda>key_columns_offset'.
        and_then (read_u64_le_checked bs 20) (\<lambda>entries_offset'.
        and_then (read_u64_le_checked bs 28) (\<lambda>entries_length'.
        Ok \<lparr>cz_table_id = table_id',
          cz_key_column_count = key_column_count',
          cz_transform_kind = transform_kind',
          cz_flags = flags',
          cz_zone_count = zone_count',
          cz_key_columns_offset = key_columns_offset',
          cz_entries_offset = entries_offset',
          cz_entries_length = entries_length',
          cz_checksum = checksum'\<rparr>))))))))))))"

definition composite_header_prefix :: "composite_header \<Rightarrow> bytes" where
  "composite_header_prefix h = le_bytes 4 (cz_table_id h) @
     le_bytes 2 (cz_key_column_count h) @
     [as_composite_transform_kind (cz_transform_kind h)] @
     [cz_flags h] @
     le_bytes 4 (cz_zone_count h) @
     le_bytes 8 (cz_key_columns_offset h) @
     le_bytes 8 (cz_entries_offset h) @
     le_bytes 8 (cz_entries_length h)"

lemma length_composite_header_prefix [simp]: "length (composite_header_prefix h) = 36"
  by (simp add: composite_header_prefix_def)

lemma composite_header_serialize_eq:
  "composite_header_serialize crc h = composite_header_prefix h @ le_bytes 4 (crc (composite_header_prefix h @ replicate 4 0))"
  unfolding composite_header_serialize_def COMPOSITE_ZONE_INDEX_HEADER_LEN_def composite_header_prefix_def
  by (simp add: fill_simps del: append_assoc) (simp only: append_assoc append_Cons append_Nil)

lemma composite_header_parse_reads:
  assumes "40 \<le> length bs"
  shows "composite_header_parse crc bs =
    (if crc (sub bs 0 36 @ replicate 4 0) \<noteq> of_le (sub bs 36 4) then Fail ChecksumMismatch
     else
        and_then (ok_or BadIndex (composite_transform_kind_from (bs ! 6))) (\<lambda>transform_kind'.
        Ok \<lparr>cz_table_id = of_le (sub bs 0 4),
          cz_key_column_count = of_le (sub bs 4 2),
          cz_transform_kind = transform_kind',
          cz_flags = bs ! 7,
          cz_zone_count = of_le (sub bs 8 4),
          cz_key_columns_offset = of_le (sub bs 12 8),
          cz_entries_offset = of_le (sub bs 20 8),
          cz_entries_length = of_le (sub bs 28 8),
          cz_checksum = of_le (sub bs 36 4)\<rparr>))"
proof -
  let ?b = "sub bs 0 40"
  have l: "length ?b = 40" using assms by (simp add: length_sub)
  have s: "slice bs 0 40 = (Ok ?b :: bytes res)" using assms by (simp add: slice_Ok)
  have v: "verify_checksum_field crc ?b 36 =
      (if crc (sub bs 0 36 @ replicate 4 0) \<noteq> of_le (sub bs 36 4) then Fail ChecksumMismatch else Ok (of_le (sub bs 36 4)))"
    using l verify_checksum_field_eq [of ?b 36 crc] by (simp add: sub_sub usize_limit_def)
  have r: "read_u32_le_checked ?b 0 = Ok (of_le (sub bs 0 4))"
    "read_u16_le_checked ?b 4 = Ok (of_le (sub bs 4 2))"
    "index ?b 6 = (Ok (bs ! 6) :: u8 res)"
    "index ?b 7 = (Ok (bs ! 7) :: u8 res)"
    "read_u32_le_checked ?b 8 = Ok (of_le (sub bs 8 4))"
    "read_u64_le_checked ?b 12 = Ok (of_le (sub bs 12 8))"
    "read_u64_le_checked ?b 20 = Ok (of_le (sub bs 20 8))"
    "read_u64_le_checked ?b 28 = Ok (of_le (sub bs 28 8))"
    using l by (simp_all add: wire_simps usize_limit_def sub_sub index_Ok nth_sub)
  have n: "\<not> length bs < 40" using assms by simp
  show ?thesis
    unfolding composite_header_parse_def COMPOSITE_ZONE_INDEX_HEADER_LEN_def if_not_P [OF n] s and_then_simps v r
    by simp
qed

lemma composite_header_parse_serialize:
  "composite_header_parse crc (composite_header_serialize crc h @ rest) = Ok (h\<lparr>cz_checksum := crc (composite_header_prefix h @ replicate 4 0)\<rparr>)"
proof -
  let ?s = "composite_header_serialize crc h @ rest"
  have f: "sub ?s 0 36 = composite_header_prefix h"
    "sub ?s 36 4 = le_bytes 4 (crc (composite_header_prefix h @ replicate 4 0))"
    by (simp_all add: composite_header_serialize_eq sub_def)
  have g: "sub ?s 0 4 = le_bytes 4 (cz_table_id h)"
    "sub ?s 4 2 = le_bytes 2 (cz_key_column_count h)"
    "?s ! 6 = as_composite_transform_kind (cz_transform_kind h)"
    "?s ! 7 = cz_flags h"
    "sub ?s 8 4 = le_bytes 4 (cz_zone_count h)"
    "sub ?s 12 8 = le_bytes 8 (cz_key_columns_offset h)"
    "sub ?s 20 8 = le_bytes 8 (cz_entries_offset h)"
    "sub ?s 28 8 = le_bytes 8 (cz_entries_length h)"
    by (simp_all add: composite_header_serialize_eq composite_header_prefix_def sub_def nth_append)
  have "40 \<le> length ?s" by (simp add: composite_header_serialize_eq)
  then show ?thesis by (simp add: composite_header_parse_reads f g)
qed

lemma no_panic_composite_header_parse [no_panic_intros, simp]: "no_panic (composite_header_parse crc bs)"
proof (cases "length bs < 40")
  case False
  then show ?thesis by (subst composite_header_parse_reads) (auto intro!: no_panic_intros)
qed (simp add: composite_header_parse_def COMPOSITE_ZONE_INDEX_HEADER_LEN_def)

section \<open>The index\<close>

record composite_binding =
  cb_column_id :: u32
  cb_file_code :: u64

record composite_entry =
  cent_bindings :: "composite_binding list"
  cent_morsel_ids :: "u32 list"

record composite_index =
  ci_header :: composite_header
  ci_key_columns :: "u32 list"
  ci_entries :: bytes

definition composite_parse :: "(bytes \<Rightarrow> u32) \<Rightarrow> bytes \<Rightarrow> composite_index res" where
  "composite_parse crc bs =
     and_then (composite_header_parse crc bs) (\<lambda>header.
     if cz_key_column_count header = 0 then Fail BadIndex
     else
       and_then (ok_or ArithOverflow (checked_mul (unat (cz_key_column_count header)) 4)) (\<lambda>key_columns_len.
       and_then (checked_region bs (cz_key_columns_offset header) (of_nat key_columns_len)) (\<lambda>key_column_bytes.
       and_then (try_map (\<lambda>chunk. read_u32_le_checked chunk 0) (chunks_exact 4 key_column_bytes)) (\<lambda>key_columns.
       and_then (checked_region bs (cz_entries_offset header) (cz_entries_length header)) (\<lambda>entries.
       Ok \<lparr>ci_header = header, ci_key_columns = key_columns, ci_entries = entries\<rparr>)))))"

definition composite_serialize :: "(bytes \<Rightarrow> u32) \<Rightarrow> composite_index \<Rightarrow> bytes" where
  "composite_serialize crc x =
     (let header = (ci_header x)\<lparr>
            cz_key_column_count := of_nat (length (ci_key_columns x)),
            cz_key_columns_offset := of_nat COMPOSITE_ZONE_INDEX_HEADER_LEN,
            cz_entries_offset := of_nat (COMPOSITE_ZONE_INDEX_HEADER_LEN + length (ci_key_columns x) * 4),
            cz_entries_length := of_nat (length (ci_entries x))\<rparr>
      in composite_header_serialize crc header @ concat (map (le_bytes 4) (ci_key_columns x)) @ ci_entries x)"

lemma no_panic_composite_parse [no_panic_intros, simp]: "no_panic (composite_parse crc bs)"
  by (auto simp: composite_parse_def intro!: no_panic_intros)

lemma key_columns_read: "try_map (\<lambda>chunk. read_u32_le_checked chunk 0) (chunks_exact 4 (concat (map (le_bytes 4) cs))) = Ok cs"
proof -
  have "chunks_exact 4 (concat (map (le_bytes 4) cs)) = map (le_bytes 4) cs"
    by (rule chunks_exact_concat) simp_all
  moreover have "read_u32_le_checked (le_bytes 4 (c :: u32)) 0 = Ok c" for c
    by (simp add: wire_simps usize_limit_def sub_def)
  ultimately show ?thesis by (simp add: try_map_map try_map_Ok [where g = id, simplified])
qed

text \<open>
  C0: a composite index with at least one key column is read back as it was written, with the
  header the writer computes: the count of its key columns, the two offsets and the length of its
  entries, and the checksum over them. Parsing never panics.
\<close>

theorem composite_index_roundtrip:
  assumes "ci_key_columns x \<noteq> []" "length (ci_key_columns x) < 2 ^ 16" "length (ci_entries x) < 2 ^ 63"
  shows "(\<exists>h. composite_parse crc (composite_serialize crc x) = Ok (x\<lparr>ci_header := h\<rparr>) \<and>
      unat (cz_key_column_count h) = length (ci_key_columns x) \<and> unat (cz_entries_length h) = length (ci_entries x) \<and>
      cz_transform_kind h = cz_transform_kind (ci_header x)) \<and>
    no_panic (composite_parse crc bs)"
proof
  let ?n = "length (ci_key_columns x)" and ?s = "composite_serialize crc x"
  define h where "h = (ci_header x)\<lparr>cz_key_column_count := of_nat ?n, cz_key_columns_offset := 40,
    cz_entries_offset := of_nat (40 + ?n * 4), cz_entries_length := of_nat (length (ci_entries x))\<rparr>"
  let ?k = "concat (map (le_bytes 4) (ci_key_columns x))"
  have s: "?s = composite_header_serialize crc h @ ?k @ ci_entries x"
    by (simp add: composite_serialize_def h_def COMPOSITE_ZONE_INDEX_HEADER_LEN_def)
  have lh: "length (composite_header_serialize crc h) = 40" by (simp add: composite_header_serialize_eq)
  have "length (concat (map (le_bytes 4) (cs :: u32 list))) = length cs * 4" for cs by (induction cs) simp_all
  then have lk: "length ?k = ?n * 4" .
  have u: "unat (of_nat k :: u64) = k" if "k < 2 ^ 64" for k using that by (intro unat_of_nat_less) simp
  have n: "unat (of_nat ?n :: u16) = ?n" using assms(2) by (intro unat_of_nat_less) simp
  define h' where "h' = h\<lparr>cz_checksum := crc (composite_header_prefix h @ replicate 4 0)\<rparr>"
  have f: "cz_key_column_count h' = of_nat ?n" "cz_key_columns_offset h' = 40" "cz_entries_offset h' = of_nat (40 + ?n * 4)"
    "cz_entries_length h' = of_nat (length (ci_entries x))" "cz_transform_kind h' = cz_transform_kind (ci_header x)"
    by (simp_all add: h'_def h_def)
  have p: "composite_header_parse crc ?s = Ok h'" unfolding s h'_def by (rule composite_header_parse_serialize)
  have z: "of_nat ?n \<noteq> (0 :: u16)" using n assms(1) by (metis length_0_conv unat_0)
  have m: "checked_mul (unat (of_nat ?n :: u16)) 4 = Some (?n * 4)"
    using assms(2) by (simp add: n checked_mul_def usize_limit_def)
  have c: "checked_region ?s 40 (of_nat (?n * 4)) = Ok ?k"
    using u [of "?n * 4"] assms(2) lh lk by (simp add: checked_region_Ok_iff s sub_def usize_limit_def del: of_nat_mult)
  have d: "unat (of_nat (40 + ?n * 4) :: u64) = 40 + ?n * 4" using assms(2) by (intro u) simp
  have e: "unat (of_nat (length (ci_entries x)) :: u64) = length (ci_entries x)" using assms(3) by (intro u) simp
  have r: "checked_region ?s (of_nat (40 + ?n * 4)) (of_nat (length (ci_entries x))) = Ok (ci_entries x)"
    unfolding checked_region_Ok_iff d e using assms(2,3) lh lk by (simp add: s sub_def usize_limit_def)
  have "composite_parse crc ?s = Ok (x\<lparr>ci_header := h'\<rparr>)"
    unfolding composite_parse_def p and_then_simps f m ok_or_simps c r using z by (simp add: key_columns_read)
  then show "\<exists>h. composite_parse crc ?s = Ok (x\<lparr>ci_header := h\<rparr>) \<and> unat (cz_key_column_count h) = ?n \<and>
      unat (cz_entries_length h) = length (ci_entries x) \<and> cz_transform_kind h = cz_transform_kind (ci_header x)"
    using n e by (intro exI [of _ h']) (simp add: f)
  show "no_panic (composite_parse crc bs)" by (rule no_panic_composite_parse)
qed

definition composite_example :: composite_index where
  "composite_example = \<lparr>ci_header = \<lparr>cz_table_id = 1, cz_key_column_count = 0, cz_transform_kind = CTK_ZOrder, cz_flags = 0,
     cz_zone_count = 4, cz_key_columns_offset = 0, cz_entries_offset = 0, cz_entries_length = 0, cz_checksum = 0\<rparr>,
     ci_key_columns = [3, 5], ci_entries = [1, 2, 3]\<rparr>"

theorem composite_index_roundtrip_witness:
  "\<exists>h. composite_parse (\<lambda>_. 7) (composite_serialize (\<lambda>_. 7) composite_example) = Ok (composite_example\<lparr>ci_header := h\<rparr>) \<and>
     unat (cz_key_column_count h) = 2 \<and> cz_transform_kind h = CTK_ZOrder"
  using composite_index_roundtrip [of composite_example "\<lambda>_. 7"] by (auto simp: composite_example_def)

end
