(* ===== verification/Topn.thy ===== *)
theory Topn
  imports Exact_Codec Cursor
begin

text \<open>
  The top-N zone summary (\<^verbatim>\<open>index/topn.rs\<close>): a checksummed header and a payload region.
\<close>

definition TOPN_ZONE_SUMMARY_LEN :: nat where
  "TOPN_ZONE_SUMMARY_LEN = 40"

datatype topn_direction = TND_Largest | TND_Smallest

primrec as_topn_direction :: "topn_direction \<Rightarrow> u8" where
  "as_topn_direction TND_Largest = 0"
| "as_topn_direction TND_Smallest = 1"

definition topn_direction_from :: "u8 \<Rightarrow> topn_direction option" where
  "topn_direction_from v =
     (if v = 0 then Some TND_Largest
      else if v = 1 then Some TND_Smallest
      else None)"

lemma topn_direction_from_iff [simp]: "topn_direction_from v = Some k \<longleftrightarrow> v = as_topn_direction k"
  by (cases k) (auto simp: topn_direction_from_def)

lemma topn_direction_from_as [simp]: "topn_direction_from (as_topn_direction k) = Some k"
  by simp

record topn_summary =
  tn_table_id :: u32
  tn_column_id :: u32
  tn_segment_id :: u32
  tn_morsel_id :: u32
  tn_direction :: topn_direction
  tn_value_count :: u16
  tn_flags :: u8
  tn_payload_offset :: u64
  tn_payload_length :: u64
  tn_checksum :: u32
  tn_payload :: bytes

definition topn_serialize_header :: "(bytes \<Rightarrow> u32) \<Rightarrow> topn_summary \<Rightarrow> bytes" where
  "topn_serialize_header crc s =
     (let out = replicate TOPN_ZONE_SUMMARY_LEN 0;
          out = copy_at out 0 (le_bytes 4 (tn_table_id s));
          out = copy_at out 4 (le_bytes 4 (tn_column_id s));
          out = copy_at out 8 (le_bytes 4 (tn_segment_id s));
          out = copy_at out 12 (le_bytes 4 (tn_morsel_id s));
          out = copy_at out 16 [as_topn_direction (tn_direction s)];
          out = copy_at out 17 (le_bytes 2 (tn_value_count s));
          out = copy_at out 19 [tn_flags s];
          out = copy_at out 20 (le_bytes 8 (tn_payload_offset s));
          out = copy_at out 28 (le_bytes 8 (tn_payload_length s));
          c = crc out
      in copy_at out 36 (le_bytes 4 c))"

definition topn_parse :: "(bytes \<Rightarrow> u32) \<Rightarrow> bytes \<Rightarrow> topn_summary res" where
  "topn_parse crc bs =
     (if length bs < TOPN_ZONE_SUMMARY_LEN then Fail BufferTooShort
      else
        and_then (slice bs 0 TOPN_ZONE_SUMMARY_LEN) (\<lambda>header.
        and_then (verify_checksum_field crc header 36) (\<lambda>checksum'.
        and_then (index header 16) (\<lambda>b.
        and_then (ok_or BadIndex (topn_direction_from b)) (\<lambda>direction'.
        and_then (read_u64_le_checked header 20) (\<lambda>payload_offset'.
        and_then (read_u64_le_checked header 28) (\<lambda>payload_length'.
        and_then (checked_region bs payload_offset' payload_length') (\<lambda>payload'.
        and_then (read_u32_le_checked header 0) (\<lambda>table_id'.
        and_then (read_u32_le_checked header 4) (\<lambda>column_id'.
        and_then (read_u32_le_checked header 8) (\<lambda>segment_id'.
        and_then (read_u32_le_checked header 12) (\<lambda>morsel_id'.
        and_then (read_u16_le_checked header 17) (\<lambda>value_count'.
        and_then (index header 19) (\<lambda>flags'.
        Ok \<lparr>tn_table_id = table_id', tn_column_id = column_id', tn_segment_id = segment_id', tn_morsel_id = morsel_id',
          tn_direction = direction', tn_value_count = value_count', tn_flags = flags', tn_payload_offset = payload_offset',
          tn_payload_length = payload_length', tn_checksum = checksum', tn_payload = payload'\<rparr>))))))))))))))"

definition topn_serialize :: "(bytes \<Rightarrow> u32) \<Rightarrow> topn_summary \<Rightarrow> bytes" where
  "topn_serialize crc s =
     (let hdr = s\<lparr>tn_payload_offset := of_nat TOPN_ZONE_SUMMARY_LEN, tn_payload_length := of_nat (length (tn_payload s))\<rparr>
      in topn_serialize_header crc hdr @ tn_payload s)"

definition topn_prefix :: "topn_summary \<Rightarrow> bytes" where
  "topn_prefix s = le_bytes 4 (tn_table_id s) @ le_bytes 4 (tn_column_id s) @ le_bytes 4 (tn_segment_id s) @
     le_bytes 4 (tn_morsel_id s) @ [as_topn_direction (tn_direction s)] @ le_bytes 2 (tn_value_count s) @ [tn_flags s] @
     le_bytes 8 (tn_payload_offset s) @ le_bytes 8 (tn_payload_length s)"

lemma length_topn_prefix [simp]: "length (topn_prefix s) = 36"
  by (simp add: topn_prefix_def)

lemma topn_serialize_header_eq:
  "topn_serialize_header crc s = topn_prefix s @ le_bytes 4 (crc (topn_prefix s @ replicate 4 0))"
  unfolding topn_serialize_header_def TOPN_ZONE_SUMMARY_LEN_def topn_prefix_def
  by (simp add: fill_simps del: append_assoc) (simp only: append_assoc append_Cons append_Nil)

lemma topn_parse_reads:
  assumes "40 \<le> length bs"
  shows "topn_parse crc bs =
    (if crc (sub bs 0 36 @ replicate 4 0) \<noteq> of_le (sub bs 36 4) then Fail ChecksumMismatch
     else and_then (ok_or BadIndex (topn_direction_from (bs ! 16))) (\<lambda>direction'.
       and_then (checked_region bs (of_le (sub bs 20 8)) (of_le (sub bs 28 8))) (\<lambda>payload'.
       Ok \<lparr>tn_table_id = of_le (sub bs 0 4), tn_column_id = of_le (sub bs 4 4), tn_segment_id = of_le (sub bs 8 4),
          tn_morsel_id = of_le (sub bs 12 4), tn_direction = direction', tn_value_count = of_le (sub bs 17 2),
          tn_flags = bs ! 19, tn_payload_offset = of_le (sub bs 20 8), tn_payload_length = of_le (sub bs 28 8),
          tn_checksum = of_le (sub bs 36 4), tn_payload = payload'\<rparr>)))"
proof -
  let ?b = "sub bs 0 40"
  have l: "length ?b = 40" using assms by (simp add: length_sub)
  have s: "slice bs 0 40 = (Ok ?b :: bytes res)" using assms by (simp add: slice_Ok)
  have v: "verify_checksum_field crc ?b 36 =
      (if crc (sub bs 0 36 @ replicate 4 0) \<noteq> of_le (sub bs 36 4) then Fail ChecksumMismatch else Ok (of_le (sub bs 36 4)))"
    using l verify_checksum_field_eq [of ?b 36 crc] by (simp add: sub_sub usize_limit_def)
  have r: "read_u32_le_checked ?b 0 = Ok (of_le (sub bs 0 4))" "read_u32_le_checked ?b 4 = Ok (of_le (sub bs 4 4))"
    "read_u32_le_checked ?b 8 = Ok (of_le (sub bs 8 4))" "read_u32_le_checked ?b 12 = Ok (of_le (sub bs 12 4))"
    "index ?b 16 = (Ok (bs ! 16) :: u8 res)" "read_u16_le_checked ?b 17 = Ok (of_le (sub bs 17 2))"
    "index ?b 19 = (Ok (bs ! 19) :: u8 res)" "read_u64_le_checked ?b 20 = Ok (of_le (sub bs 20 8))"
    "read_u64_le_checked ?b 28 = Ok (of_le (sub bs 28 8))"
    using l by (simp_all add: wire_simps usize_limit_def sub_sub index_Ok nth_sub)
  have n: "\<not> length bs < 40" using assms by simp
  show ?thesis unfolding topn_parse_def TOPN_ZONE_SUMMARY_LEN_def if_not_P [OF n] s and_then_simps v r by simp
qed

lemma topn_parse_short: "length bs < 40 \<Longrightarrow> topn_parse crc bs = Fail BufferTooShort"
  by (simp add: topn_parse_def TOPN_ZONE_SUMMARY_LEN_def)

text \<open>
  C0: the top-N summary is exact. \<open>TopNSummary::parse\<close> accepts bytes exactly when they start with
  the header of the summary it returns, under a matching checksum, and its payload is the region
  the header names, inside the input; what \<open>serialize\<close> writes is read back with the payload's
  offset and length; parsing never panics.
\<close>

theorem topn_summary_exact:
  "(topn_parse crc bs = Ok s \<longleftrightarrow> 40 \<le> length bs \<and> take 40 bs = topn_serialize_header crc s \<and>
      tn_checksum s = crc (topn_prefix s @ replicate 4 0) \<and> checked_region bs (tn_payload_offset s) (tn_payload_length s) = Ok (tn_payload s)) \<and>
   no_panic (topn_parse crc bs)"
proof
  show "no_panic (topn_parse crc bs)"
    by (cases "length bs < 40") (auto simp: topn_parse_short topn_parse_reads intro!: no_panic_intros)
  show "topn_parse crc bs = Ok s \<longleftrightarrow> 40 \<le> length bs \<and> take 40 bs = topn_serialize_header crc s \<and>
      tn_checksum s = crc (topn_prefix s @ replicate 4 0) \<and> checked_region bs (tn_payload_offset s) (tn_payload_length s) = Ok (tn_payload s)"
  proof
    assume a: "topn_parse crc bs = Ok s"
    then have l: "40 \<le> length bs" using topn_parse_short [of bs crc] by (cases "length bs < 40") simp_all
    obtain p where c: "crc (sub bs 0 36 @ replicate 4 0) = of_le (sub bs 36 4)"
      and r: "checked_region bs (of_le (sub bs 20 8)) (of_le (sub bs 28 8)) = Ok p"
      and s: "tn_table_id s = of_le (sub bs 0 4)" "tn_column_id s = of_le (sub bs 4 4)" "tn_segment_id s = of_le (sub bs 8 4)"
        "tn_morsel_id s = of_le (sub bs 12 4)" "as_topn_direction (tn_direction s) = bs ! 16" "tn_value_count s = of_le (sub bs 17 2)"
        "tn_flags s = bs ! 19" "tn_payload_offset s = of_le (sub bs 20 8)" "tn_payload_length s = of_le (sub bs 28 8)"
        "tn_checksum s = of_le (sub bs 36 4)" "tn_payload s = p"
      using a unfolding topn_parse_reads [OF l] by (auto simp: ok_iffs split: if_splits)
    have "topn_prefix s = sub bs 0 4 @ sub bs 4 4 @ sub bs 8 4 @ sub bs 12 4 @ sub bs 16 1 @ sub bs 17 2 @ sub bs 19 1 @ sub bs 20 8 @ sub bs 28 8"
      unfolding topn_prefix_def s using l by (simp add: le_bytes_of_le length_sub sub_singleton)
    also have "\<dots> = sub bs 0 36" by (simp add: sub_join sub_join_assoc)
    finally have px: "topn_prefix s = sub bs 0 36" .
    have "topn_serialize_header crc s = sub bs 0 36 @ sub bs 36 4"
      using l by (simp add: topn_serialize_header_eq px c le_bytes_of_le length_sub)
    also have "\<dots> = take 40 bs" by (simp add: sub_join) (simp add: sub_def)
    finally show "40 \<le> length bs \<and> take 40 bs = topn_serialize_header crc s \<and>
        tn_checksum s = crc (topn_prefix s @ replicate 4 0) \<and> checked_region bs (tn_payload_offset s) (tn_payload_length s) = Ok (tn_payload s)"
      using l px c r s by simp
  next
    assume a: "40 \<le> length bs \<and> take 40 bs = topn_serialize_header crc s \<and>
        tn_checksum s = crc (topn_prefix s @ replicate 4 0) \<and> checked_region bs (tn_payload_offset s) (tn_payload_length s) = Ok (tn_payload s)"
    define rest where "rest = drop 40 bs"
    have bs: "bs = topn_serialize_header crc s @ rest" using a append_take_drop_id [of 40 bs] by (simp add: rest_def)
    have g: "sub bs 0 36 = topn_prefix s" "sub bs 36 4 = le_bytes 4 (tn_checksum s)" "sub bs 0 4 = le_bytes 4 (tn_table_id s)"
      "sub bs 4 4 = le_bytes 4 (tn_column_id s)" "sub bs 8 4 = le_bytes 4 (tn_segment_id s)" "sub bs 12 4 = le_bytes 4 (tn_morsel_id s)"
      "bs ! 16 = as_topn_direction (tn_direction s)" "sub bs 17 2 = le_bytes 2 (tn_value_count s)" "bs ! 19 = tn_flags s"
      "sub bs 20 8 = le_bytes 8 (tn_payload_offset s)" "sub bs 28 8 = le_bytes 8 (tn_payload_length s)"
      using a by (simp_all add: bs topn_serialize_header_eq sub_def) (simp_all add: topn_prefix_def nth_append)
    have "40 \<le> length bs" and ck: "tn_checksum s = crc (topn_prefix s @ replicate 4 0)"
      and rg: "checked_region bs (tn_payload_offset s) (tn_payload_length s) = Ok (tn_payload s)" using a by blast+
    then show "topn_parse crc bs = Ok s"
      by (simp add: topn_parse_reads g ck)
  qed
qed

end
