(* ===== verification/Sort_Keys.thy ===== *)
theory Sort_Keys
  imports Exact_Codec
begin

text \<open>
  Sort and clustering keys (\<^verbatim>\<open>sort.rs\<close>): two fixed entries of eight bytes.
\<close>

section \<open>Sort keys\<close>

datatype sort_direction = SD_Ascending | SD_Descending

primrec as_sort_direction :: "sort_direction \<Rightarrow> u8" where
  "as_sort_direction SD_Ascending = 0"
| "as_sort_direction SD_Descending = 1"

definition sort_direction_from :: "u8 \<Rightarrow> sort_direction option" where
  "sort_direction_from v =
     (if v = 0 then Some SD_Ascending
      else if v = 1 then Some SD_Descending
      else None)"

lemma sort_direction_from_iff [simp]: "sort_direction_from v = Some k \<longleftrightarrow> v = as_sort_direction k"
  by (cases k) (auto simp: sort_direction_from_def)

lemma sort_direction_from_as [simp]: "sort_direction_from (as_sort_direction k) = Some k"
  by simp

datatype null_order = NO_NullsFirst | NO_NullsLast

primrec as_null_order :: "null_order \<Rightarrow> u8" where
  "as_null_order NO_NullsFirst = 0"
| "as_null_order NO_NullsLast = 1"

definition null_order_from :: "u8 \<Rightarrow> null_order option" where
  "null_order_from v =
     (if v = 0 then Some NO_NullsFirst
      else if v = 1 then Some NO_NullsLast
      else None)"

lemma null_order_from_iff [simp]: "null_order_from v = Some k \<longleftrightarrow> v = as_null_order k"
  by (cases k) (auto simp: null_order_from_def)

lemma null_order_from_as [simp]: "null_order_from (as_null_order k) = Some k"
  by simp

definition SORT_KEY_ENTRY_LEN :: nat where
  "SORT_KEY_ENTRY_LEN = 8"

record sort_key =
  sk_column_id :: u32
  sk_direction :: sort_direction
  sk_null_order :: null_order
  sk_collation_id :: u16

definition sort_key_serialize :: "sort_key \<Rightarrow> bytes" where
  "sort_key_serialize e =
     (let buf = replicate SORT_KEY_ENTRY_LEN 0;
          buf = copy_at buf 0 (le_bytes 4 (sk_column_id e));
          buf = copy_at buf 4 [as_sort_direction (sk_direction e)];
          buf = copy_at buf 5 [as_null_order (sk_null_order e)]
      in copy_at buf 6 (le_bytes 2 (sk_collation_id e)))"

definition sort_key_parse :: "bytes \<Rightarrow> sort_key res" where
  "sort_key_parse bs =
     (if length bs < SORT_KEY_ENTRY_LEN then Fail BufferTooShort
      else
        and_then (read_u32_le_checked bs 0) (\<lambda>column_id'.
        and_then (index bs 4) (\<lambda>direction_raw.
        and_then (ok_or (BadSection (''bad sort direction '' @ decimal (unat direction_raw))) (sort_direction_from direction_raw)) (\<lambda>direction'.
        and_then (index bs 5) (\<lambda>null_order_raw.
        and_then (ok_or (BadSection (''bad null order '' @ decimal (unat null_order_raw))) (null_order_from null_order_raw)) (\<lambda>null_order'.
        and_then (read_u16_le_checked bs 6) (\<lambda>collation_id'.
        Ok \<lparr>sk_column_id = column_id',
          sk_direction = direction',
          sk_null_order = null_order',
          sk_collation_id = collation_id'\<rparr>)))))))"

definition sort_key_wf :: "sort_key \<Rightarrow> bool" where
  "sort_key_wf e \<longleftrightarrow> True"

lemma sort_key_serialize_eq:
  "sort_key_serialize e = le_bytes 4 (sk_column_id e) @
     [as_sort_direction (sk_direction e)] @
     [as_null_order (sk_null_order e)] @
     le_bytes 2 (sk_collation_id e)"
  unfolding sort_key_serialize_def SORT_KEY_ENTRY_LEN_def
  by (simp add: fill_simps del: append_assoc) (simp only: append_assoc append_Cons append_Nil)?

lemma sort_key_parse_reads:
  assumes "8 \<le> length bs"
  shows "sort_key_parse bs = (
        and_then (ok_or (BadSection (''bad sort direction '' @ decimal (unat (bs ! 4 :: u8)))) (sort_direction_from (bs ! 4 :: u8))) (\<lambda>direction'.
        and_then (ok_or (BadSection (''bad null order '' @ decimal (unat (bs ! 5 :: u8)))) (null_order_from (bs ! 5 :: u8))) (\<lambda>null_order'.
        Ok \<lparr>sk_column_id = of_le (sub bs 0 4),
          sk_direction = direction',
          sk_null_order = null_order',
          sk_collation_id = of_le (sub bs 6 2)\<rparr>)))"
proof -
  have r: "read_u32_le_checked bs 0 = (Ok (of_le (sub bs 0 4)) :: u32 res)"
    "index bs 4 = (Ok (bs ! 4) :: u8 res)"
    "index bs 5 = (Ok (bs ! 5) :: u8 res)"
    "read_u16_le_checked bs 6 = (Ok (of_le (sub bs 6 2)) :: u16 res)"
    using assms by (simp_all add: wire_simps usize_limit_def sub_sub_0 index_Ok nth_sub_0 read_array_checked_eq)
  have n: "\<not> length bs < 8" using assms by simp
  show ?thesis
    unfolding sort_key_parse_def SORT_KEY_ENTRY_LEN_def if_not_P [OF n]  and_then_simps r ..
qed

interpretation sort_key: exact_fixed sort_key_serialize sort_key_parse 8 sort_key_wf
proof
  fix e :: sort_key and rest bs :: bytes
  show "length (sort_key_serialize e) = 8" if "sort_key_wf e" by (simp add: sort_key_serialize_eq)
  show "sort_key_parse (sort_key_serialize e @ rest) = Ok e" if w: "sort_key_wf e"
  proof -
    let ?s = "sort_key_serialize e @ rest"
    note eq = sort_key_serialize_eq
    note fs = w [unfolded sort_key_wf_def]
    have t0: "sort_direction_from (as_sort_direction (sk_direction e)) = Some (sk_direction e)" by (simp add: sort_direction_from_iff)
    have t1: "null_order_from (as_null_order (sk_null_order e)) = Some (sk_null_order e)" by (simp add: null_order_from_iff)
    have g: "sub ?s 0 4 = le_bytes 4 (sk_column_id e)"
      "?s ! 4 = as_sort_direction (sk_direction e)"
      "?s ! 5 = as_null_order (sk_null_order e)"
      "sub ?s 6 2 = le_bytes 2 (sk_collation_id e)"
      by (simp_all add: eq sub_def nth_append)
    have "8 \<le> length ?s" by (simp add: eq)
    then show ?thesis using fs by (simp add: sort_key_parse_reads g t0 t1)
  qed
  have short: "sort_key_parse bs = Fail BufferTooShort" if "length bs < 8"
    using that by (simp add: sort_key_parse_def SORT_KEY_ENTRY_LEN_def)
  show "no_panic (sort_key_parse bs)"
    using short by (cases "length bs < 8") (auto simp: sort_key_parse_reads intro!: no_panic_intros)
  assume q: "sort_key_parse bs = Ok e"
  then have l: "8 \<le> length bs" using short by (cases "length bs < 8") auto
  from q have f: "sk_column_id e = of_le (sub bs 0 4)"
    "as_sort_direction (sk_direction e) = bs ! 4"
    "as_null_order (sk_null_order e) = bs ! 5"
    "sk_collation_id e = of_le (sub bs 6 2)"
    and wf: "sort_key_wf e"
    using l by (auto simp: sort_key_parse_reads sort_key_wf_def ok_iffs length_sub null_order_from_iff sort_direction_from_iff split: if_splits)
  have "sort_key_serialize e = sub bs 0 4 @ sub bs 4 1 @ sub bs 5 1 @ sub bs 6 2"
    unfolding sort_key_serialize_eq f using l by (simp add: le_bytes_of_le length_sub sub_singleton)
  also have "\<dots> = sub bs 0 8" by (simp add: sub_join sub_join_assoc)
  finally show "sort_key_wf e \<and> 8 \<le> length bs \<and> sort_key_serialize e = take 8 bs" using wf l by (simp add: sub_def)
qed simp

section \<open>Clustering keys\<close>

type_synonym clustering_strength = u8

definition CLUSTERING_UNKNOWN :: clustering_strength where
  "CLUSTERING_UNKNOWN = 0"

definition CLUSTERING_PERFECT :: clustering_strength where
  "CLUSTERING_PERFECT = 255"

definition strength_from_u8 :: "u8 \<Rightarrow> clustering_strength" where
  "strength_from_u8 v = v"

definition strength_as_u8 :: "clustering_strength \<Rightarrow> u8" where
  "strength_as_u8 s = s"

definition strength_is_unknown :: "clustering_strength \<Rightarrow> bool" where
  "strength_is_unknown s \<longleftrightarrow> s = CLUSTERING_UNKNOWN"

definition strength_is_perfect :: "clustering_strength \<Rightarrow> bool" where
  "strength_is_perfect s \<longleftrightarrow> s = CLUSTERING_PERFECT"

text \<open>The array filled from a range of the buffer.\<close>

definition reserved_range :: "nat \<Rightarrow> bytes \<Rightarrow> nat \<Rightarrow> bytes res" where
  "reserved_range n bs offset = and_then (slice bs offset (offset + n)) (copy_from_slice (replicate n 0))"

lemma reserved_range_eq: "reserved_range n bs offset = (if offset + n \<le> length bs then Ok (sub bs offset n) else Panicked)"
  by (simp add: reserved_range_def slice_def copy_from_slice_def sub_def)

definition CLUSTERING_KEY_ENTRY_LEN :: nat where
  "CLUSTERING_KEY_ENTRY_LEN = 8"

record clustering_key =
  ck_column_id :: u32
  ck_clustering_strength :: u8
  ck_reserved :: bytes

definition clustering_key_serialize :: "clustering_key \<Rightarrow> bytes" where
  "clustering_key_serialize e =
     (let buf = replicate CLUSTERING_KEY_ENTRY_LEN 0;
          buf = copy_at buf 0 (le_bytes 4 (ck_column_id e));
          buf = copy_at buf 4 [ck_clustering_strength e]
      in copy_at buf 5 (ck_reserved e))"

definition clustering_key_parse :: "bytes \<Rightarrow> clustering_key res" where
  "clustering_key_parse bs =
     (if length bs < CLUSTERING_KEY_ENTRY_LEN then Fail BufferTooShort
      else
        and_then (read_u32_le_checked bs 0) (\<lambda>column_id'.
        and_then (index bs 4) (\<lambda>clustering_strength'.
        and_then (reserved_range 3 bs 5) (\<lambda>reserved'.
        Ok \<lparr>ck_column_id = column_id',
          ck_clustering_strength = clustering_strength',
          ck_reserved = reserved'\<rparr>))))"

definition clustering_key_wf :: "clustering_key \<Rightarrow> bool" where
  "clustering_key_wf e \<longleftrightarrow> length (ck_reserved e) = 3"

lemma clustering_key_serialize_eq:
  "length (ck_reserved e) = 3 \<Longrightarrow> clustering_key_serialize e = le_bytes 4 (ck_column_id e) @
     [ck_clustering_strength e] @
     ck_reserved e"
  unfolding clustering_key_serialize_def CLUSTERING_KEY_ENTRY_LEN_def
  by (simp add: fill_simps del: append_assoc) (simp only: append_assoc append_Cons append_Nil)?

lemma clustering_key_parse_reads:
  assumes "8 \<le> length bs"
  shows "clustering_key_parse bs = (
        Ok \<lparr>ck_column_id = of_le (sub bs 0 4),
          ck_clustering_strength = bs ! 4,
          ck_reserved = sub bs 5 3\<rparr>)"
proof -
  have r: "read_u32_le_checked bs 0 = (Ok (of_le (sub bs 0 4)) :: u32 res)"
    "index bs 4 = (Ok (bs ! 4) :: u8 res)"
    "reserved_range 3 bs 5 = (Ok (sub bs 5 3) :: bytes res)"
    using assms by (simp_all add: wire_simps usize_limit_def sub_sub_0 index_Ok nth_sub_0 reserved_range_eq)
  have n: "\<not> length bs < 8" using assms by simp
  show ?thesis
    unfolding clustering_key_parse_def CLUSTERING_KEY_ENTRY_LEN_def if_not_P [OF n]  and_then_simps r ..
qed

interpretation clustering_key: exact_fixed clustering_key_serialize clustering_key_parse 8 clustering_key_wf
proof
  fix e :: clustering_key and rest bs :: bytes
  have lens: "length (ck_reserved e) = 3" if "clustering_key_wf e"
    using that unfolding clustering_key_wf_def by blast+
  show "length (clustering_key_serialize e) = 8" if "clustering_key_wf e" by (simp add: clustering_key_serialize_eq lens [OF that])
  show "clustering_key_parse (clustering_key_serialize e @ rest) = Ok e" if w: "clustering_key_wf e"
  proof -
    let ?s = "clustering_key_serialize e @ rest"
    note eq = clustering_key_serialize_eq [OF lens [OF w]]
    note fs = w [unfolded clustering_key_wf_def]
    have g: "sub ?s 0 4 = le_bytes 4 (ck_column_id e)"
      "?s ! 4 = ck_clustering_strength e"
      "sub ?s 5 3 = ck_reserved e"
      using lens [OF w] by (simp_all add: eq sub_def nth_append)
    have "8 \<le> length ?s" using lens [OF w] by (simp add: eq)
    then show ?thesis using fs by (simp add: clustering_key_parse_reads g)
  qed
  have short: "clustering_key_parse bs = Fail BufferTooShort" if "length bs < 8"
    using that by (simp add: clustering_key_parse_def CLUSTERING_KEY_ENTRY_LEN_def)
  show "no_panic (clustering_key_parse bs)"
    using short by (cases "length bs < 8") (auto simp: clustering_key_parse_reads intro!: no_panic_intros)
  assume q: "clustering_key_parse bs = Ok e"
  then have l: "8 \<le> length bs" using short by (cases "length bs < 8") auto
  from q have f: "ck_column_id e = of_le (sub bs 0 4)"
    "ck_clustering_strength e = bs ! 4"
    "ck_reserved e = sub bs 5 3"
    and wf: "clustering_key_wf e"
    using l by (auto simp: clustering_key_parse_reads clustering_key_wf_def ok_iffs length_sub split: if_splits)
  have "clustering_key_serialize e = sub bs 0 4 @ sub bs 4 1 @ sub bs 5 3"
    unfolding clustering_key_serialize_eq [OF lens [OF wf]] f using l by (simp add: le_bytes_of_le length_sub sub_singleton)
  also have "\<dots> = sub bs 0 8" by (simp add: sub_join sub_join_assoc)
  finally show "clustering_key_wf e \<and> 8 \<le> length bs \<and> clustering_key_serialize e = take 8 bs" using wf l by (simp add: sub_def)
qed simp

section \<open>Properties\<close>

text \<open>
  C0: sort and clustering keys are exact: the two parsers accept exactly the inputs that start with
  the encoding of the key they return; every input of eight bytes whose direction and null order
  are 0 or 1 is a sort key, and every input of eight bytes is a clustering key, whatever its
  reserved bytes; neither parser panics.
\<close>

theorem sort_keys_exact:
  "(sort_key_parse bs = Ok k \<longleftrightarrow> 8 \<le> length bs \<and> sort_key_serialize k = take 8 bs) \<and>
   (clustering_key_parse bs = Ok c \<longleftrightarrow> length (ck_reserved c) = 3 \<and> 8 \<le> length bs \<and> clustering_key_serialize c = take 8 bs) \<and>
   (is_ok (sort_key_parse bs) \<longleftrightarrow> 8 \<le> length bs \<and> bs ! 4 \<le> 1 \<and> bs ! 5 \<le> 1) \<and>
   (is_ok (clustering_key_parse bs) \<longleftrightarrow> 8 \<le> length bs) \<and>
   no_panic (sort_key_parse bs) \<and> no_panic (clustering_key_parse bs)"
proof (intro conjI)
  have b: "(\<exists>d. sort_direction_from v = Some d) \<longleftrightarrow> v \<le> 1" "(\<exists>n. null_order_from v = Some n) \<longleftrightarrow> v \<le> 1" for v
  proof -
    have "v \<le> 1 \<longleftrightarrow> unat v \<le> 1" by (simp add: word_le_nat_alt)
    also have "\<dots> \<longleftrightarrow> unat v = unat (0 :: u8) \<or> unat v = unat (1 :: u8)" unfolding unat_0 unat_1 by arith
    also have "\<dots> \<longleftrightarrow> v = 0 \<or> v = 1" unfolding word_unat_eq_iff [symmetric] ..
    finally have w: "v \<le> 1 \<longleftrightarrow> v = 0 \<or> v = 1" .
    show "(\<exists>d. sort_direction_from v = Some d) \<longleftrightarrow> v \<le> 1" "(\<exists>n. null_order_from v = Some n) \<longleftrightarrow> v \<le> 1"
      unfolding w by (simp_all add: sort_direction_from_def null_order_from_def del: sort_direction_from_iff null_order_from_iff)
  qed
  show "sort_key_parse bs = Ok k \<longleftrightarrow> 8 \<le> length bs \<and> sort_key_serialize k = take 8 bs"
    using sort_key.dec_iff [of bs k] by (simp add: sort_key_wf_def)
  show "clustering_key_parse bs = Ok c \<longleftrightarrow> length (ck_reserved c) = 3 \<and> 8 \<le> length bs \<and> clustering_key_serialize c = take 8 bs"
    using clustering_key.dec_iff [of bs c] by (simp add: clustering_key_wf_def)
  show "is_ok (sort_key_parse bs) \<longleftrightarrow> 8 \<le> length bs \<and> bs ! 4 \<le> 1 \<and> bs ! 5 \<le> 1"
  proof (cases "length bs < 8")
    case False
    then have "is_ok (sort_key_parse bs) \<longleftrightarrow> (\<exists>d. sort_direction_from (bs ! 4) = Some d) \<and> (\<exists>n. null_order_from (bs ! 5) = Some n)"
      by (subst sort_key_parse_reads) (auto simp: is_ok_iff ok_iffs simp del: sort_direction_from_iff null_order_from_iff)
    then show ?thesis using False by (simp only: b) simp
  qed (simp add: sort_key_parse_def SORT_KEY_ENTRY_LEN_def)
  show "is_ok (clustering_key_parse bs) \<longleftrightarrow> 8 \<le> length bs"
    by (cases "length bs < 8") (simp_all add: clustering_key_parse_reads, simp add: clustering_key_parse_def CLUSTERING_KEY_ENTRY_LEN_def)
qed (rule sort_key.dec_no_panic clustering_key.dec_no_panic)+

end
