(* ===== verification/Compression.thy ===== *)
theory Compression
  imports Page_Index Postscript Footer
begin

text \<open>
  The codec layer of sections and pages (\<^verbatim>\<open>compression.rs\<close>). The LZ4 and Zstandard coders
  are crates: they are parameters, absent when the feature of the build is off. Shared
  and borrowed buffers are the bytes they hold.
\<close>

section \<open>The coders\<close>

text \<open>
  \<^verbatim>\<open>lz4_flex::block\<close>: decompression takes the size of the output buffer; errors are
  their rendered text. Zstandard: creating the decoder, reading it to the end, encoding.
\<close>

record lz4_coder =
  lz4_block_decompress :: "bytes \<Rightarrow> nat \<Rightarrow> string + bytes"
  lz4_block_compress :: "bytes \<Rightarrow> bytes"

record zstd_coder =
  zstd_decoder_new :: "bytes \<Rightarrow> string + unit"
  zstd_read_to_end :: "bytes \<Rightarrow> string + bytes"
  zstd_encode_all :: "bytes \<Rightarrow> string + bytes"

record coders =
  coder_lz4 :: "lz4_coder option"
  coder_zstd :: "zstd_coder option"

text \<open>The laws the crates document: what was compressed is decompressed, and LZ4 fills at most the buffer it is given.\<close>

definition coder_laws :: "coders \<Rightarrow> bool" where
  "coder_laws c \<longleftrightarrow>
     (\<forall>z p. coder_lz4 c = Some z \<longrightarrow> lz4_block_decompress z (lz4_block_compress z p) (length p) = Inr p) \<and>
     (\<forall>z raw n p. coder_lz4 c = Some z \<longrightarrow> lz4_block_decompress z raw n = Inr p \<longrightarrow> length p \<le> n) \<and>
     (\<forall>z p w. coder_zstd c = Some z \<longrightarrow> zstd_encode_all z p = Inr w \<longrightarrow>
        zstd_decoder_new z w = Inr () \<and> zstd_read_to_end z w = Inr p)"

definition rendered :: "string \<Rightarrow> string + 'a \<Rightarrow> 'a res" where
  "rendered prefix r = (case r of Inl e \<Rightarrow> Fail (BadSection (prefix @ e)) | Inr x \<Rightarrow> Ok x)"

lemma rendered_Ok_iff [ok_iffs]: "rendered prefix r = Inr x \<longleftrightarrow> r = Inr x"
  by (cases r) (simp_all add: rendered_def)

lemma no_panic_rendered [no_panic_intros, simp]: "no_panic (rendered prefix r)"
  by (cases r) (simp_all add: rendered_def)

text \<open>
  Both decoders reserve a buffer of the declared length before they decode (\<^verbatim>\<open>Vec::with_capacity\<close>,
  here or in \<^verbatim>\<open>lz4_flex\<close>): a length above \<^verbatim>\<open>isize::MAX\<close> panics. Running out of memory is not modelled.
\<close>

definition ISIZE_MAX :: nat where
  "ISIZE_MAX = 2 ^ 63 - 1"

definition lz4_decompress :: "coders \<Rightarrow> bytes \<Rightarrow> u64 \<Rightarrow> bytes res" where
  "lz4_decompress c raw expected_len =
     (case coder_lz4 c of
        Some z \<Rightarrow>
          let expected = unat expected_len in
          if ISIZE_MAX < expected then Panicked
          else rendered ''LZ4 decompression failed: '' (lz4_block_decompress z raw expected)
      | None \<Rightarrow> Fail (UnsupportedEncoding
          ''LZ4 decompression is not enabled in this build (enable feature `compression-lz4`)''))"

definition lz4_compress :: "coders \<Rightarrow> bytes \<Rightarrow> bytes res" where
  "lz4_compress c payload =
     (case coder_lz4 c of
        Some z \<Rightarrow> Ok (lz4_block_compress z payload)
      | None \<Rightarrow> Fail (UnsupportedEncoding
          ''LZ4 compression is not enabled in this build (enable feature `compression-lz4`)''))"

definition zstd_decompress :: "coders \<Rightarrow> bytes \<Rightarrow> u64 \<Rightarrow> bytes res" where
  "zstd_decompress c raw expected_len =
     (case coder_zstd c of
        Some z \<Rightarrow>
          let expected = unat expected_len in
          and_then (rendered ''Zstd decoder init failed: '' (zstd_decoder_new z raw)) (\<lambda>_.
          if ISIZE_MAX < expected then Panicked
          else
          and_then (rendered ''Zstd decompression failed: '' (zstd_read_to_end z raw)) (\<lambda>out.
          if length out \<noteq> expected
          then Fail (BadSection (''Zstd produced '' @ decimal (length out) @
            '' bytes but section declares uncompressed_length='' @ decimal expected))
          else Ok out))
      | None \<Rightarrow> Fail (UnsupportedEncoding
          ''Zstd decompression is not enabled in this build (enable feature `compression-zstd`)''))"

definition zstd_compress :: "coders \<Rightarrow> bytes \<Rightarrow> bytes res" where
  "zstd_compress c payload =
     (case coder_zstd c of
        Some z \<Rightarrow> rendered ''Zstd compression failed: '' (zstd_encode_all z payload)
      | None \<Rightarrow> Fail (UnsupportedEncoding
          ''Zstd compression is not enabled in this build (enable feature `compression-zstd`)''))"

section \<open>Sections\<close>

definition unknown_codec :: "u8 \<Rightarrow> cove_error" where
  "unknown_codec compression = BadSection (''unknown compression codec '' @ decimal (unat compression))"

definition encode_payload_for_codec :: "coders \<Rightarrow> bytes \<Rightarrow> u8 \<Rightarrow> bytes res" where
  "encode_payload_for_codec c payload compression =
     and_then (ok_or (unknown_codec compression) (compression_codec_from compression)) (\<lambda>codec.
     case codec of
       CC_None \<Rightarrow> Ok payload
     | CC_Lz4 \<Rightarrow> lz4_compress c payload
     | CC_Zstd \<Rightarrow> zstd_compress c payload)"

definition payload_from_raw :: "coders \<Rightarrow> bytes \<Rightarrow> u64 \<Rightarrow> u64 \<Rightarrow> u8 \<Rightarrow> bytes res" where
  "payload_from_raw c raw length' uncompressed_length compression =
     and_then (ok_or (unknown_codec compression) (compression_codec_from compression)) (\<lambda>codec.
     case codec of
       CC_None \<Rightarrow>
         if uncompressed_length \<noteq> length'
         then Fail (BadSection ''uncompressed_length must equal length when codec=None'')
         else Ok raw
     | CC_Lz4 \<Rightarrow> lz4_decompress c raw uncompressed_length
     | CC_Zstd \<Rightarrow> zstd_decompress c raw uncompressed_length)"

definition payload_raw_bytes :: "bytes \<Rightarrow> u64 \<Rightarrow> u64 \<Rightarrow> bytes res" where
  "payload_raw_bytes file_data offset length' =
     and_then (ok_or ArithOverflow (checked_add_word offset length')) (\<lambda>end'.
     if length file_data < unat end' then Fail OffsetRange
     else slice file_data (unat offset) (unat end'))"

definition payload_from_spec :: "coders \<Rightarrow> bytes \<Rightarrow> u64 \<Rightarrow> u64 \<Rightarrow> u64 \<Rightarrow> u8 \<Rightarrow> bytes res" where
  "payload_from_spec c file_data offset length' uncompressed_length compression =
     and_then (payload_raw_bytes file_data offset length') (\<lambda>raw.
     payload_from_raw c raw length' uncompressed_length compression)"

definition section_payload :: "coders \<Rightarrow> bytes \<Rightarrow> section_entry \<Rightarrow> bytes res" where
  "section_payload c file_data e =
     payload_from_spec c file_data (se_offset e) (se_length e) (se_uncompressed_length e) (se_compression e)"

definition section_spec_payload :: "coders \<Rightarrow> bytes \<Rightarrow> section_spec \<Rightarrow> bytes res" where
  "section_spec_payload c file_data s =
     payload_from_spec c file_data (ss_offset s) (ss_length s) (ss_uncompressed_length s) (ss_compression s)"

definition section_payload_from_raw ::
    "(bytes \<Rightarrow> u32) \<Rightarrow> coders \<Rightarrow> bytes \<Rightarrow> u64 \<Rightarrow> u64 \<Rightarrow> u8 \<Rightarrow> u32 \<Rightarrow> bytes res" where
  "section_payload_from_raw crc c raw length' uncompressed_length compression crc32c =
     (if of_nat (length raw) \<noteq> length'
      then Fail (BadSection (''section raw length '' @ decimal (length raw) @
        '' does not match declared length '' @ decimal (unat length')))
      else if crc raw \<noteq> crc32c then Fail ChecksumMismatch
      else payload_from_raw c raw length' uncompressed_length compression)"

section \<open>Pages\<close>

datatype page_checksum_validation = PCV_Verify | PCV_Trusted

definition encode_page_payload :: "coders \<Rightarrow> bytes \<Rightarrow> compression_codec \<Rightarrow> bytes res" where
  "encode_page_payload c payload codec = encode_payload_for_codec c payload (as_compression_codec codec)"

definition column_page_payload_with_checksum_validation ::
    "(bytes \<Rightarrow> u32) \<Rightarrow> coders \<Rightarrow> bytes \<Rightarrow> column_page \<Rightarrow> page_checksum_validation \<Rightarrow> bytes res" where
  "column_page_payload_with_checksum_validation crc c page_bytes e mode =
     (if of_nat (length page_bytes) \<noteq> cp_page_length e
      then Fail (BadSection (''page payload length '' @ decimal (length page_bytes) @
        '' does not match page_length '' @ decimal (unat (cp_page_length e))))
      else if mode = PCV_Verify \<and> crc page_bytes \<noteq> cp_checksum e then Fail ChecksumMismatch
      else
        and_then (page_flag_codec (cp_flags e)) (\<lambda>codec.
        case codec of
          CC_None \<Rightarrow>
            if cp_uncompressed_length e \<noteq> cp_page_length e
            then Fail (BadSection ''uncompressed_length must equal page_length when page codec=None'')
            else Ok page_bytes
        | CC_Lz4 \<Rightarrow> lz4_decompress c page_bytes (cp_uncompressed_length e)
        | CC_Zstd \<Rightarrow> zstd_decompress c page_bytes (cp_uncompressed_length e)))"

definition column_page_payload :: "(bytes \<Rightarrow> u32) \<Rightarrow> coders \<Rightarrow> bytes \<Rightarrow> column_page \<Rightarrow> bytes res" where
  "column_page_payload crc c page_bytes e = column_page_payload_with_checksum_validation crc c page_bytes e PCV_Verify"

text \<open>
  \<^verbatim>\<open>column_page_payload_retained_with_checksum_validation\<close> has the same body over shared
  bytes, and the variant over vectors calls it.
\<close>

definition column_page_payload_vec ::
    "(bytes \<Rightarrow> u32) \<Rightarrow> coders \<Rightarrow> bytes \<Rightarrow> column_page \<Rightarrow> page_checksum_validation \<Rightarrow> bytes res" where
  "column_page_payload_vec crc c page_bytes e mode = column_page_payload_with_checksum_validation crc c page_bytes e mode"

section \<open>What the readers return\<close>

text \<open>When the buffer for the output cannot be reserved.\<close>

definition reserve_panics :: "coders \<Rightarrow> compression_codec \<Rightarrow> bytes \<Rightarrow> nat \<Rightarrow> bool" where
  "reserve_panics c codec raw n \<longleftrightarrow> ISIZE_MAX < n \<and>
     (case codec of
        CC_None \<Rightarrow> False
      | CC_Lz4 \<Rightarrow> coder_lz4 c \<noteq> None
      | CC_Zstd \<Rightarrow> (\<exists>z. coder_zstd c = Some z \<and> zstd_decoder_new z raw = Inr ()))"

lemma rendered_not_Panic [simp]: "rendered prefix r \<noteq> Panicked"
  by (cases r) (simp_all add: rendered_def)

lemma lz4_decompress_panics: "lz4_decompress c raw n = Panicked \<longleftrightarrow> reserve_panics c CC_Lz4 raw (unat n)"
  by (auto simp: lz4_decompress_def reserve_panics_def Let_def split: option.splits)

lemma zstd_decompress_panics: "zstd_decompress c raw n = Panicked \<longleftrightarrow> reserve_panics c CC_Zstd raw (unat n)"
  by (auto simp: zstd_decompress_def reserve_panics_def Let_def and_then_eq_Inl_iff ok_iffs split: option.splits if_splits)

lemma no_panic_raw_bytes [no_panic_intros, simp]: "no_panic (payload_raw_bytes file' o' l)"
  by (auto simp: payload_raw_bytes_def ok_iffs checked_add_word_eq_Some_iff slice_Ok not_less unat_add_no_overflow intro!: no_panic_intros)

text \<open>What a codec makes of \<open>raw\<close>; only Zstandard compares the length of its output.\<close>

definition decodes_to :: "coders \<Rightarrow> compression_codec \<Rightarrow> bytes \<Rightarrow> nat \<Rightarrow> bytes \<Rightarrow> bool" where
  "decodes_to c codec raw n out \<longleftrightarrow>
     (case codec of
        CC_None \<Rightarrow> out = raw \<and> length raw = n
      | CC_Lz4 \<Rightarrow> n \<le> ISIZE_MAX \<and> (\<exists>z. coder_lz4 c = Some z \<and> lz4_block_decompress z raw n = Inr out)
      | CC_Zstd \<Rightarrow> n \<le> ISIZE_MAX \<and> (\<exists>z. coder_zstd c = Some z \<and> zstd_decoder_new z raw = Inr () \<and>
          zstd_read_to_end z raw = Inr out \<and> length out = n))"

lemma lz4_decompress_iff: "lz4_decompress c raw n = Inr out \<longleftrightarrow> decodes_to c CC_Lz4 raw (unat n) out"
  by (auto simp: lz4_decompress_def decodes_to_def Let_def ok_iffs split: option.splits)

lemma zstd_decompress_iff: "zstd_decompress c raw n = Inr out \<longleftrightarrow> decodes_to c CC_Zstd raw (unat n) out"
  by (auto simp: zstd_decompress_def decodes_to_def ok_iffs Let_def split: option.splits if_splits)

lemma payload_from_raw_iff:
  assumes "length raw = unat l"
  shows "payload_from_raw c raw l n k = Inr out \<longleftrightarrow> (\<exists>codec. k = as_compression_codec codec \<and> decodes_to c codec raw (unat n) out)"
proof -
  have n: "decodes_to c CC_None raw (unat n) out \<longleftrightarrow> out = raw \<and> n = l"
    by (auto simp: decodes_to_def assms word_unat_eq_iff)
  show ?thesis
  proof (cases "compression_codec_from k")
    case None
    then have "k \<noteq> as_compression_codec codec" for codec by (simp add: compression_codec_from_iff [symmetric])
    then show ?thesis using None by (simp add: payload_from_raw_def)
  next
    case (Some codec)
    have "k = as_compression_codec codec' \<longleftrightarrow> codec' = codec" for codec'
      using Some by (auto simp: compression_codec_from_iff [symmetric])
    then show ?thesis
      using Some n by (cases codec) (auto simp: payload_from_raw_def lz4_decompress_iff zstd_decompress_iff)
  qed
qed

lemma encode_decodes:
  assumes "coder_laws c" "encode_payload_for_codec c p (as_compression_codec codec) = Inr w" "length p \<le> ISIZE_MAX"
  shows "decodes_to c codec w (length p) p"
proof -
  have k: "compression_codec_from (as_compression_codec codec) = Some codec" by (simp add: compression_codec_from_iff)
  show ?thesis
    using assms k
    by (cases codec)
      (auto simp: coder_laws_def encode_payload_for_codec_def decodes_to_def lz4_compress_def zstd_compress_def ok_iffs split: option.splits)
qed

lemma column_page_payload_iff:
  assumes "length bs < usize_limit"
  shows "column_page_payload_with_checksum_validation crc c bs e mode = Inr out \<longleftrightarrow>
    length bs = unat (cp_page_length e) \<and> (mode = PCV_Verify \<longrightarrow> crc bs = cp_checksum e) \<and>
    (\<exists>codec. page_flag_codec (cp_flags e) = Inr codec \<and> decodes_to c codec bs (unat (cp_uncompressed_length e)) out)"
proof -
  have l: "of_nat (length bs) = cp_page_length e \<longleftrightarrow> length bs = unat (cp_page_length e)"
    using unat_of_nat_less [of "length bs", where 'a = 64] assms by (auto simp: usize_limit_def)
  have n: "decodes_to c CC_None bs (unat (cp_uncompressed_length e)) out \<longleftrightarrow> out = bs \<and> cp_uncompressed_length e = cp_page_length e"
    if "length bs = unat (cp_page_length e)" using that by (auto simp: decodes_to_def word_unat_eq_iff)
  define f where "f codec = (case codec of
          CC_None \<Rightarrow>
            if cp_uncompressed_length e \<noteq> cp_page_length e
            then Fail (BadSection ''uncompressed_length must equal page_length when page codec=None'')
            else Ok bs
        | CC_Lz4 \<Rightarrow> lz4_decompress c bs (cp_uncompressed_length e)
        | CC_Zstd \<Rightarrow> zstd_decompress c bs (cp_uncompressed_length e))" for codec
  have "f codec = Inr out \<longleftrightarrow> decodes_to c codec bs (unat (cp_uncompressed_length e)) out"
    if "length bs = unat (cp_page_length e)" for codec
    using n [OF that] by (cases codec) (auto simp: f_def lz4_decompress_iff zstd_decompress_iff)
  then show ?thesis
    unfolding column_page_payload_with_checksum_validation_def f_def [symmetric] by (auto simp: l ok_iffs)
qed

lemma column_page_payload_panics:
  assumes "length bs < usize_limit"
  shows "column_page_payload_with_checksum_validation crc c bs e mode = Panicked \<longleftrightarrow>
    length bs = unat (cp_page_length e) \<and> (mode = PCV_Verify \<longrightarrow> crc bs = cp_checksum e) \<and>
    (\<exists>codec. page_flag_codec (cp_flags e) = Inr codec \<and> reserve_panics c codec bs (unat (cp_uncompressed_length e)))"
proof -
  have l: "of_nat (length bs) = cp_page_length e \<longleftrightarrow> length bs = unat (cp_page_length e)"
    using unat_of_nat_less [of "length bs", where 'a = 64] assms by (auto simp: usize_limit_def)
  have n: "page_flag_codec f \<noteq> Panicked" for f using no_panic_page_flag_codec [of f] by (auto simp: no_panic_def)
  show ?thesis
  proof (cases "page_flag_codec (cp_flags e)")
    case (Inl x)
    then show ?thesis using n [of "cp_flags e"] by (auto simp: column_page_payload_with_checksum_validation_def)
  next
    case (Inr codec)
    then show ?thesis
      by (cases codec) (auto simp: column_page_payload_with_checksum_validation_def l lz4_decompress_panics zstd_decompress_panics
          reserve_panics_def)
  qed
qed

text \<open>A coder with the laws, for the witnesses: blocks are stored as they are, and the buffer must be large enough.\<close>

definition stored_coder :: coders where
  "stored_coder =
     \<lparr>coder_lz4 = Some \<lparr>lz4_block_decompress = \<lambda>raw n. if length raw \<le> n then Inr raw else Inl ''output too small'',
        lz4_block_compress = \<lambda>p. p\<rparr>,
      coder_zstd = Some \<lparr>zstd_decoder_new = \<lambda>raw. if raw = [] then Inl ''no frame'' else Inr (),
        zstd_read_to_end = \<lambda>raw. Inr (tl raw), zstd_encode_all = \<lambda>p. Inr (40 # p)\<rparr>\<rparr>"

lemma stored_coder_laws: "coder_laws stored_coder"
  by (auto simp: coder_laws_def stored_coder_def)

definition stored_page :: "u32 \<Rightarrow> u64 \<Rightarrow> u64 \<Rightarrow> column_page" where
  "stored_page flags stored uncompressed =
     \<lparr>cp_column_id = 0, cp_morsel_id = 0, cp_row_count = 1, cp_non_null_count = 1, cp_null_count = 0, cp_encoding_root = 0,
      cp_page_offset = 0, cp_page_length = stored, cp_uncompressed_length = uncompressed, cp_stats_ref = 0,
      cp_flags = flags, cp_checksum = 9\<rparr>"

lemma stored_page_codecs:
  "page_flag_codec (cp_flags (stored_page 1 m n)) = Inr CC_Lz4" "page_flag_codec (cp_flags (stored_page 2 m n)) = Inr CC_Zstd"
  by (simp_all add: stored_page_def page_flag_codec_def) code_simp+

section \<open>Properties\<close>

text \<open>
  C27: compression round trip. Under the laws of the coder crates, the bytes a section is written
  with give the section back, with their length, checksum and uncompressed length as the footer
  records them, whether the reader has the raw bytes of the section or the whole file; and the
  bytes a page is written with give the page back through its index entry.
\<close>

theorem compression_roundtrip:
  assumes "coder_laws c" "encode_page_payload c p codec = Ok w"
    and "length (pre @ w @ post) < usize_limit" "length p \<le> ISIZE_MAX"
    and "page_flag_codec (cp_flags e) = Ok codec" "cp_page_length e = of_nat (length w)"
    and "cp_uncompressed_length e = of_nat (length p)" "cp_checksum e = crc w"
  shows "section_payload_from_raw crc c w (of_nat (length w)) (of_nat (length p)) (as_compression_codec codec) (crc w) = Ok p \<and>
    payload_from_spec c (pre @ w @ post) (of_nat (length pre)) (of_nat (length w)) (of_nat (length p)) (as_compression_codec codec) = Ok p \<and>
    column_page_payload crc c w e = Ok p"
proof -
  have lim: "length pre < 2 ^ 64" "length w < 2 ^ 64" "length p < 2 ^ 64" "length pre + length w < 2 ^ 64"
    using assms(3,4) by (simp_all add: usize_limit_def ISIZE_MAX_def)
  have u: "unat (of_nat (length pre) :: u64) = length pre" "unat (of_nat (length w) :: u64) = length w"
    "unat (of_nat (length p) :: u64) = length p" using lim by (simp_all add: unat_of_nat_less)
  note d = encode_decodes [OF assms(1) _ assms(4), of codec w]
  have f: "payload_from_raw c w (of_nat (length w)) (of_nat (length p)) (as_compression_codec codec) = Inr p"
    using d assms(2) u by (subst payload_from_raw_iff) (auto simp: encode_page_payload_def)
  have raw: "payload_raw_bytes (pre @ w @ post) (of_nat (length pre)) (of_nat (length w)) = Ok w"
    using lim u by (simp add: payload_raw_bytes_def checked_add_word_def unat_add_no_overflow slice_Ok sub_def)
  have "column_page_payload crc c w e = Inr p"
    unfolding column_page_payload_def
    using d assms(2,3,5-) u by (subst column_page_payload_iff) (auto simp: encode_page_payload_def)
  then show ?thesis using f raw by (simp add: section_payload_from_raw_def payload_from_spec_def)
qed

theorem compression_roundtrip_witness:
  "section_payload_from_raw (\<lambda>_. 9) stored_coder [40, 7, 8] 3 2 2 9 = Ok [7, 8] \<and>
   payload_from_spec stored_coder [1, 40, 7, 8, 2] 1 3 2 2 = Ok [7, 8] \<and>
   column_page_payload (\<lambda>_. 9) stored_coder [40, 7, 8] (stored_page 2 3 2) = Ok [7, 8]"
  using compression_roundtrip [OF stored_coder_laws, of "[7, 8]" CC_Zstd "[40, 7, 8]" "[1]" "[2]" "stored_page 2 3 2" "\<lambda>_. 9"]
  by (simp add: stored_page_codecs encode_page_payload_def encode_payload_for_codec_def compression_codec_from_def
      zstd_compress_def stored_coder_def rendered_def usize_limit_def ISIZE_MAX_def) (simp add: stored_page_def)

text \<open>
  C29: what the page reader returns, and when it panics. It returns bytes exactly when the wire bytes
  have the length and, unless it is trusted, the checksum of the index entry, the flags name a codec,
  and these are the bytes the codec makes of them. An uncompressed page and a Zstandard page have the
  declared uncompressed length; for LZ4 the declared length only sizes the output buffer: with the
  coder laws a page can be shorter than its entry says. It panics exactly when such a compressed
  page declares a length above \<^verbatim>\<open>isize::MAX\<close>, and index entries the parser accepts may do that.
\<close>

theorem column_page_payload_exact:
  assumes "length bs < usize_limit"
  shows "(column_page_payload_with_checksum_validation crc c bs e mode = Ok out \<longleftrightarrow>
      length bs = unat (cp_page_length e) \<and> (mode = PCV_Verify \<longrightarrow> crc bs = cp_checksum e) \<and>
      (\<exists>codec. page_flag_codec (cp_flags e) = Ok codec \<and> decodes_to c codec bs (unat (cp_uncompressed_length e)) out)) \<and>
    (column_page_payload_with_checksum_validation crc c bs e mode = Panicked \<longleftrightarrow>
      length bs = unat (cp_page_length e) \<and> (mode = PCV_Verify \<longrightarrow> crc bs = cp_checksum e) \<and>
      (\<exists>codec. page_flag_codec (cp_flags e) = Ok codec \<and> reserve_panics c codec bs (unat (cp_uncompressed_length e)))) \<and>
    (\<exists>c e out. coder_laws c \<and> column_page_payload (\<lambda>_. 9) c [1] e = Ok out \<and> length out \<noteq> unat (cp_uncompressed_length e)) \<and>
    (\<exists>c e. coder_laws c \<and> page_rules (\<lambda>_. 9) e \<and> column_page_payload (\<lambda>_. 9) c [1] e = Panicked)"
proof (intro conjI)
  have "column_page_payload (\<lambda>_. 9) stored_coder [1] (stored_page 1 1 4) = Inr [1]"
    unfolding column_page_payload_def
    by (subst column_page_payload_iff)
      (simp_all add: stored_page_codecs decodes_to_def stored_coder_def usize_limit_def ISIZE_MAX_def, simp add: stored_page_def)
  then show "\<exists>c e out. coder_laws c \<and> column_page_payload (\<lambda>_. 9) c [1] e = Ok out \<and> length out \<noteq> unat (cp_uncompressed_length e)"
    using stored_coder_laws by (intro exI [of _ stored_coder] exI [of _ "stored_page 1 1 4"]) (simp add: stored_page_def)
  have "column_page_payload (\<lambda>_. 9) stored_coder [1] (stored_page 2 1 0x8000000000000000) = Panicked"
    unfolding column_page_payload_def
    by (subst column_page_payload_panics)
      (simp_all add: stored_page_codecs reserve_panics_def stored_coder_def usize_limit_def ISIZE_MAX_def, simp add: stored_page_def)
  moreover have "page_rules (\<lambda>_. 9) (stored_page 2 1 0x8000000000000000)"
    using stored_page_codecs(2) [of 1 "0x8000000000000000"]
    by (simp add: page_rules_def page_all_null_def page_all_non_null_def page_stats_only_def)
      (simp add: stored_page_def page_flag_defs)
  ultimately show "\<exists>c e. coder_laws c \<and> page_rules (\<lambda>_. 9) e \<and> column_page_payload (\<lambda>_. 9) c [1] e = Panicked"
    using stored_coder_laws by blast
qed (use column_page_payload_iff [OF assms] column_page_payload_panics [OF assms] in simp_all)

theorem column_page_payload_exact_witness:
  "column_page_payload_with_checksum_validation (\<lambda>_. 5) stored_coder [1, 2] (stored_page 1 2 6) PCV_Trusted = Ok [1, 2] \<and>
   column_page_payload_with_checksum_validation (\<lambda>_. 5) stored_coder [1, 2] (stored_page 1 2 0x8000000000000000) PCV_Trusted = Panicked"
  by (subst column_page_payload_exact [THEN conjunct1], simp add: usize_limit_def,
      subst column_page_payload_exact [THEN conjunct2, THEN conjunct1])
    (simp_all add: stored_page_codecs decodes_to_def reserve_panics_def stored_coder_def usize_limit_def ISIZE_MAX_def,
      simp add: stored_page_def)

end
