(* ===== verification/Canonical.thy ===== *)
theory Canonical
  imports Wire Metadata "HOL-Library.List_Lexorder" "HOL-Library.Multiset"
begin

text \<open>
  The canonical value encoding (\<^verbatim>\<open>canonical.rs\<close>), the byte identity of a value:
  the value type, the recursive encoder with its sorting of struct fields and map
  entries, and the validator of payloads. Floats are their bit patterns, strings
  their bytes, an \<^verbatim>\<open>i128\<close> is a 128-bit word read with \<open>sint\<close>; \<open>json\<close> is the
  \<^verbatim>\<open>serde_json\<close> parser. Byte strings compare lexicographically (List_Lexorder).
\<close>

section \<open>Values\<close>

datatype canonical_value =
    CV_Null
  | CV_Bool bool
  | CV_Int u8 u128
  | CV_Uint u8 u128
  | CV_Float32 u32
  | CV_Float64 u64
  | CV_Decimal64 i64
  | CV_Decimal128 u128
  | CV_DateDays u32
  | CV_TimestampMicros i64
  | CV_TimestampNanos i64
  | CV_Uuid bytes
  | CV_Utf8 bytes
  | CV_Bytes bytes
  | CV_Json bytes
  | CV_List "canonical_value list"
  | CV_Struct "(u64 \<times> canonical_value) list"
  | CV_Map "(canonical_value \<times> canonical_value) list"

text \<open>A \<^verbatim>\<open>CanonicalField\<close> is the pair of its field id and its value.\<close>

type_synonym canonical_field = "u64 \<times> canonical_value"

primrec value_tag_of :: "canonical_value \<Rightarrow> value_tag" where
  "value_tag_of CV_Null = VT_Null"
| "value_tag_of (CV_Bool b) = (if b then VT_BoolTrue else VT_BoolFalse)"
| "value_tag_of (CV_Int w v) = VT_Int64"
| "value_tag_of (CV_Uint w v) = VT_UInt64"
| "value_tag_of (CV_Float32 v) = VT_Float32Bits"
| "value_tag_of (CV_Float64 v) = VT_Float64Bits"
| "value_tag_of (CV_Decimal64 v) = VT_Decimal64"
| "value_tag_of (CV_Decimal128 v) = VT_Decimal128"
| "value_tag_of (CV_DateDays v) = VT_DateDays"
| "value_tag_of (CV_TimestampMicros v) = VT_TimestampMicros"
| "value_tag_of (CV_TimestampNanos v) = VT_TimestampNanos"
| "value_tag_of (CV_Uuid u) = VT_Uuid"
| "value_tag_of (CV_Utf8 s) = VT_Utf8"
| "value_tag_of (CV_Bytes b) = VT_Binary"
| "value_tag_of (CV_Json s) = VT_Json"
| "value_tag_of (CV_List vs) = VT_List"
| "value_tag_of (CV_Struct fs) = VT_Struct"
| "value_tag_of (CV_Map es) = VT_Map"

definition is_scalar_key :: "canonical_value \<Rightarrow> bool" where
  "is_scalar_key v = (case v of CV_List _ \<Rightarrow> False | CV_Struct _ \<Rightarrow> False | CV_Map _ \<Rightarrow> False | _ \<Rightarrow> True)"

section \<open>Encoding\<close>

definition length_prefixed :: "bytes \<Rightarrow> bytes" where
  "length_prefixed bs = append_u64_leb128 [] (of_nat (length bs)) @ bs"

definition encode_i64_width :: "u8 \<Rightarrow> u128 \<Rightarrow> bytes res" where
  "encode_i64_width width v =
     (let bits = (if width = 1 then Some 7 else if width = 2 then Some 15
                  else if width = 4 then Some 31 else if width = 8 then Some 63 else None) in
      case bits of
        None \<Rightarrow> Fail (BadSection (''invalid signed integer width '' @ decimal (unat width)))
      | Some n \<Rightarrow>
          let mn = - (2 ^ n) :: int; mx = 2 ^ n - 1 in
          if \<not> (mn \<le> sint v \<and> sint v \<le> mx)
          then Fail (BadSection ''signed integer canonical value out of range'')
          else Ok (le_bytes 8 (ucast v :: i64)))"

definition encode_u64_width :: "u8 \<Rightarrow> u128 \<Rightarrow> bytes res" where
  "encode_u64_width width v =
     (let bits = (if width = 1 then Some 8 else if width = 2 then Some 16
                  else if width = 4 then Some 32 else if width = 8 then Some 64 else None) in
      case bits of
        None \<Rightarrow> Fail (BadSection (''invalid unsigned integer width '' @ decimal (unat width)))
      | Some n \<Rightarrow>
          let mx = 2 ^ n - 1 in
          if mx < unat v
          then Fail (BadSection ''unsigned integer canonical value out of range'')
          else Ok (le_bytes 8 (ucast v :: u64)))"

text \<open>
  The encoder and the routines it calls for nested values recurse through each
  other, as in the source.
\<close>

abbreviation fields_size :: "canonical_field list \<Rightarrow> nat" where
  "fields_size fs \<equiv> size_list (size_prod (\<lambda>x. 0) size) fs"

abbreviation entries_size :: "(canonical_value \<times> canonical_value) list \<Rightarrow> nat" where
  "entries_size es \<equiv> size_list (size_prod size size) es"

lemma field_size: "f \<in> set fs \<Longrightarrow> size (snd f) < fields_size fs"
  by (induction fs) (auto split: prod.splits)

lemma entry_size: "e \<in> set es \<Longrightarrow> size (fst e) < entries_size es \<and> size (snd e) < entries_size es"
  by (induction es) (auto split: prod.splits)

lemma element_size: "v \<in> set vs \<Longrightarrow> size v < size_list size vs"
  by (induction vs) auto

function
  encode_value :: "(bytes \<Rightarrow> 'j option) \<Rightarrow> canonical_value \<Rightarrow> bytes res" and
  encode_tagged :: "(bytes \<Rightarrow> 'j option) \<Rightarrow> canonical_value \<Rightarrow> bytes res" and
  canonicalize_list :: "(bytes \<Rightarrow> 'j option) \<Rightarrow> canonical_value list \<Rightarrow> bytes res" and
  canonicalize_struct :: "(bytes \<Rightarrow> 'j option) \<Rightarrow> canonical_field list \<Rightarrow> bytes res" and
  canonicalize_map_entries ::
    "(bytes \<Rightarrow> 'j option) \<Rightarrow> (canonical_value \<times> canonical_value) list \<Rightarrow> (bytes \<times> bytes) list res" and
  canonicalize_map :: "(bytes \<Rightarrow> 'j option) \<Rightarrow> (canonical_value \<times> canonical_value) list \<Rightarrow> bytes res"
where
  "encode_value json v =
     (case v of
        CV_Null \<Rightarrow> Ok []
      | CV_Bool _ \<Rightarrow> Ok []
      | CV_Int width x \<Rightarrow> encode_i64_width width x
      | CV_Uint width x \<Rightarrow> encode_u64_width width x
      | CV_Float32 x \<Rightarrow> Ok (le_bytes 4 x)
      | CV_Float64 x \<Rightarrow> Ok (le_bytes 8 x)
      | CV_Decimal64 x \<Rightarrow> Ok (le_bytes 8 x)
      | CV_Decimal128 x \<Rightarrow> Ok (le_bytes 16 x)
      | CV_DateDays x \<Rightarrow> Ok (le_bytes 4 x)
      | CV_TimestampMicros x \<Rightarrow> Ok (le_bytes 8 x)
      | CV_TimestampNanos x \<Rightarrow> Ok (le_bytes 8 x)
      | CV_Uuid uuid \<Rightarrow> Ok uuid
      | CV_Utf8 s \<Rightarrow> Ok (length_prefixed s)
      | CV_Json s \<Rightarrow>
          if json s = None
          then Fail (BadSection ''Json canonical value must be syntactically valid JSON'')
          else Ok (length_prefixed s)
      | CV_Bytes b \<Rightarrow> Ok (length_prefixed b)
      | CV_List elements \<Rightarrow> canonicalize_list json elements
      | CV_Struct flds \<Rightarrow> canonicalize_struct json flds
      | CV_Map entries \<Rightarrow> canonicalize_map json entries)"
| "encode_tagged json v =
     (let out = append_u64_leb128 [] (ucast (as_value_tag (value_tag_of v))) in
      and_then (encode_value json v) (\<lambda>payload. Ok (out @ payload)))"
| "canonicalize_list json elements =
     (let out = append_u64_leb128 [] (of_nat (length elements)) in
      and_then (try_map (\<lambda>e. encode_tagged json e) elements) (\<lambda>es. Ok (out @ concat es)))"
| "canonicalize_struct json flds =
     (let sorted = sort_key fst flds in
      if \<not> windows2_all (\<lambda>a b. fst a \<noteq> fst b) sorted
      then Fail (BadSchema ''duplicate field_id in canonical struct'')
      else
        let out = append_u64_leb128 [] (of_nat (length sorted)) in
        and_then
          (try_map (\<lambda>field. and_then (encode_tagged json (snd field)) (\<lambda>b.
             Ok (append_u64_leb128 [] (fst field) @ b))) sorted) (\<lambda>fs.
        Ok (out @ concat fs)))"
| "canonicalize_map_entries json entries =
     and_then
       (try_map (\<lambda>entry.
          if \<not> is_scalar_key (fst entry) then Fail (BadSchema ''canonical map key must be scalar'')
          else
            and_then (encode_tagged json (fst entry)) (\<lambda>k.
            and_then (encode_tagged json (snd entry)) (\<lambda>v. Ok (k, v)))) entries) (\<lambda>es.
     let sorted = sort_key fst es in
     if \<not> windows2_all (\<lambda>a b. fst a \<noteq> fst b) sorted
     then Fail (BadSchema (''duplicate key in canonical map encoding (Spec '' @ [CHR 0xC2, CHR 0xA7] @ ''17.6)''))
     else Ok sorted)"
| "canonicalize_map json entries =
     and_then (canonicalize_map_entries json entries) (\<lambda>sorted.
     Ok (append_u64_leb128 [] (of_nat (length sorted)) @ concat (map (\<lambda>(k, v). k @ v) sorted)))"
  by pat_completeness auto

termination
proof (relation "measure (\<lambda>x. case x of
     Inl (Inl (_, v)) \<Rightarrow> 4 * size v
   | Inl (Inr (Inl (_, v))) \<Rightarrow> 4 * size v + 1
   | Inl (Inr (Inr (_, vs))) \<Rightarrow> 4 * size_list size vs
   | Inr (Inl (_, fs)) \<Rightarrow> 4 * fields_size fs
   | Inr (Inr (Inl (_, es))) \<Rightarrow> 4 * entries_size es
   | Inr (Inr (Inr (_, es))) \<Rightarrow> 4 * entries_size es + 1)")
qed (auto dest!: element_size field_size entry_size)

text \<open>The equations unfold for ever: proofs apply them one at a time.\<close>

declare encode_value.simps [simp del] encode_tagged.simps [simp del]

section \<open>Validation\<close>

definition validate_min_width :: "bytes \<Rightarrow> nat \<Rightarrow> string \<Rightarrow> nat res" where
  "validate_min_width bs width what =
     (if length bs < width
      then Fail (BadSection (what @ '' must be exactly '' @ decimal width @ '' bytes''))
      else Ok width)"

definition decode_canonical_varint :: "bytes \<Rightarrow> string \<Rightarrow> (u64 \<times> nat) res" where
  "decode_canonical_varint bs what =
     map_err (\<lambda>_. BadSection (''invalid '' @ what)) (decode_u64_leb128 bs)"

definition decode_length_prefixed :: "bytes \<Rightarrow> string \<Rightarrow> (bytes \<times> nat) res" where
  "decode_length_prefixed bs what =
     and_then (decode_canonical_varint bs what) (\<lambda>(len, prefix_len).
     let payload_len = unat len in
     and_then (ok_or ArithOverflow (checked_add prefix_len payload_len)) (\<lambda>total'.
     if length bs < total'
     then Fail (BadSection (what @ '' length prefix exceeds available bytes''))
     else and_then (slice bs prefix_len total') (\<lambda>payload. Ok (payload, total'))))"

definition is_scalar_value_tag :: "value_tag \<Rightarrow> bool" where
  "is_scalar_value_tag t \<longleftrightarrow> t \<notin> {VT_List, VT_Struct, VT_Map}"

lemma decode_canonical_varint_Ok_iff:
  "decode_canonical_varint bs what = Inr r \<longleftrightarrow> decode_u64_leb128 bs = Inr r"
  by (simp add: decode_canonical_varint_def map_err_eq_Inr_iff)

lemma decode_canonical_varint_bounds:
  "decode_canonical_varint bs what = Inr (v, n) \<Longrightarrow> 0 < n \<and> n \<le> length bs"
  using decode_u64_leb128_Ok [of bs v n] by (simp add: decode_canonical_varint_Ok_iff)

lemma slice_from_eq_Inr_iff [ok_iffs]: "slice_from bs a = Inr r \<longleftrightarrow> a \<le> length bs \<and> r = drop a bs"
  by (auto simp: slice_from_def)

text \<open>
  The validator and its loops over list elements, struct fields and map pairs; a
  loop of \<^verbatim>\<open>for _ in 0..count\<close> counts the rounds left. A loop reads from \<open>pos\<close>, which
  only grows, and nesting consumes the bytes of the count before it.
\<close>

function
  validate_tagged_value :: "(bytes \<Rightarrow> 'j option) \<Rightarrow> bytes \<Rightarrow> (value_tag \<times> nat) res" and
  validate_payload_inner :: "(bytes \<Rightarrow> 'j option) \<Rightarrow> value_tag \<Rightarrow> bytes \<Rightarrow> nat res" and
  validate_list_loop :: "(bytes \<Rightarrow> 'j option) \<Rightarrow> bytes \<Rightarrow> nat \<Rightarrow> nat \<Rightarrow> nat res" and
  validate_struct_loop :: "(bytes \<Rightarrow> 'j option) \<Rightarrow> bytes \<Rightarrow> nat \<Rightarrow> u64 option \<Rightarrow> nat \<Rightarrow> nat res" and
  validate_map_loop :: "(bytes \<Rightarrow> 'j option) \<Rightarrow> bytes \<Rightarrow> nat \<Rightarrow> bytes option \<Rightarrow> nat \<Rightarrow> nat res"
where
  "validate_tagged_value json bs =
     and_then (decode_canonical_varint bs ''canonical value tag'') (\<lambda>(raw_tag, tag_len).
     and_then (ok_or (BadSection (''unknown canonical value tag '' @ decimal (unat raw_tag)))
       (if unat raw_tag < 2 ^ 16 then Some (ucast raw_tag :: u16) else None)) (\<lambda>raw_tag_u16.
     and_then (ok_or (BadSection (''unknown canonical value tag '' @ decimal (unat raw_tag)))
       (value_tag_from raw_tag_u16)) (\<lambda>value_tag.
     and_then (slice_from bs tag_len) (\<lambda>rest.
     and_then (validate_payload_inner json value_tag rest) (\<lambda>payload_len.
     and_then (ok_or ArithOverflow (checked_add tag_len payload_len)) (\<lambda>consumed.
     Ok (value_tag, consumed)))))))"
| "validate_payload_inner json value_tag bs =
     (if value_tag \<in> {VT_Null, VT_BoolFalse, VT_BoolTrue} then Ok 0
      else if value_tag \<in> {VT_Int64, VT_UInt64, VT_Float64Bits, VT_Decimal64, VT_TimestampMicros, VT_TimestampNanos}
      then validate_min_width bs 8 ''8-byte canonical payload''
      else if value_tag \<in> {VT_Float32Bits, VT_DateDays}
      then validate_min_width bs 4 ''4-byte canonical payload''
      else if value_tag \<in> {VT_Decimal128, VT_Uuid}
      then validate_min_width bs 16 ''16-byte canonical payload''
      else if value_tag = VT_Utf8 then
        and_then (decode_length_prefixed bs ''canonical UTF-8 payload'') (\<lambda>(payload, consumed).
        if \<not> utf8_valid payload then Fail (BadSection ''Utf8 tag payload must be valid UTF-8'')
        else Ok consumed)
      else if value_tag = VT_Binary then
        and_then (decode_length_prefixed bs ''canonical binary payload'') (\<lambda>(_, consumed). Ok consumed)
      else if value_tag = VT_Json then
        and_then (decode_length_prefixed bs ''canonical JSON payload'') (\<lambda>(payload, consumed).
        if json payload = None
        then Fail (BadSection ''Json tag payload must be syntactically valid JSON'')
        else Ok consumed)
      else if value_tag = VT_List then
        and_then (decode_canonical_varint bs ''canonical list element count'') (\<lambda>(element_count, pos).
        validate_list_loop json bs (unat element_count) pos)
      else if value_tag = VT_Struct then
        and_then (decode_canonical_varint bs ''canonical struct field count'') (\<lambda>(field_count, pos).
        validate_struct_loop json bs (unat field_count) None pos)
      else
        and_then (decode_canonical_varint bs ''canonical map pair count'') (\<lambda>(pair_count, pos).
        validate_map_loop json bs (unat pair_count) None pos))"
| "validate_list_loop json bs 0 pos = Ok pos"
| "validate_list_loop json bs (Suc n) pos =
     and_then (slice_from bs pos) (\<lambda>rest.
     and_then (validate_tagged_value json rest) (\<lambda>(_, consumed).
     and_then (ok_or ArithOverflow (checked_add pos consumed)) (\<lambda>pos'.
     validate_list_loop json bs n pos')))"
| "validate_struct_loop json bs 0 prev pos = Ok pos"
| "validate_struct_loop json bs (Suc n) prev pos =
     and_then (slice_from bs pos) (\<lambda>rest.
     and_then (decode_canonical_varint rest ''canonical struct field_id'') (\<lambda>(field_id, consumed).
     and_then (ok_or ArithOverflow (checked_add pos consumed)) (\<lambda>pos'.
     if (case prev of Some p \<Rightarrow> field_id \<le> p | None \<Rightarrow> False)
     then Fail (BadSection ''canonical struct field_ids must be strictly ascending'')
     else
       and_then (slice_from bs pos') (\<lambda>rest'.
       and_then (validate_tagged_value json rest') (\<lambda>(_, consumed').
       and_then (ok_or ArithOverflow (checked_add pos' consumed')) (\<lambda>pos''.
       validate_struct_loop json bs n (Some field_id) pos''))))))"
| "validate_map_loop json bs 0 prev pos = Ok pos"
| "validate_map_loop json bs (Suc n) prev pos =
     and_then (slice_from bs pos) (\<lambda>rest.
     and_then (validate_tagged_value json rest) (\<lambda>(key_tag, key_consumed).
     if \<not> is_scalar_value_tag key_tag then Fail (BadSection ''canonical map key must be scalar'')
     else
       and_then (ok_or ArithOverflow (checked_add pos key_consumed)) (\<lambda>pos'.
       and_then (slice bs pos pos') (\<lambda>key_bytes.
       if (case prev of Some p \<Rightarrow> key_bytes < p | None \<Rightarrow> False)
       then Fail (BadSection ''canonical map keys must be sorted by canonical bytes'')
       else if prev = Some key_bytes
       then Fail (BadSection ''duplicate key in canonical map encoding'')
       else
         and_then (slice_from bs pos') (\<lambda>rest'.
         and_then (validate_tagged_value json rest') (\<lambda>(_, value_consumed).
         and_then (ok_or ArithOverflow (checked_add pos' value_consumed)) (\<lambda>pos''.
         validate_map_loop json bs n (Some key_bytes) pos'')))))))"
  by pat_completeness auto

termination
proof (relation "inv_image (less_than <*lex*> less_than <*lex*> less_than) (\<lambda>x. case x of
     Inl (Inl (_, bs)) \<Rightarrow> (length bs, 1, 0)
   | Inl (Inr (_, _, bs)) \<Rightarrow> (length bs, 0, 0)
   | Inr (Inl (_, bs, n, pos)) \<Rightarrow> (length bs - pos, 2, n)
   | Inr (Inr (Inl (_, bs, n, _, pos))) \<Rightarrow> (length bs - pos, 2, n)
   | Inr (Inr (Inr (_, bs, n, _, pos))) \<Rightarrow> (length bs - pos, 2, n))")
qed (auto simp: ok_iffs checked_add_eq_Some_iff dest!: decode_canonical_varint_bounds)

declare validate_tagged_value.simps [simp del] validate_payload_inner.simps [simp del]

definition validate_canonical_payload :: "(bytes \<Rightarrow> 'j option) \<Rightarrow> value_tag \<Rightarrow> bytes \<Rightarrow> unit res" where
  "validate_canonical_payload json value_tag bs =
     and_then (validate_payload_inner json value_tag bs) (\<lambda>consumed.
     if consumed \<noteq> length bs then Fail (BadSection ''canonical payload has trailing bytes'') else Ok ())"

section \<open>What the validator consumes\<close>

lemmas validate_induct =
  validate_tagged_value_validate_payload_inner_validate_list_loop_validate_struct_loop_validate_map_loop.induct

lemma ensures_varint: "ensures (\<lambda>(v, n). 0 < n \<and> n \<le> length bs) (decode_canonical_varint bs what)"
proof (cases "decode_canonical_varint bs what")
  case (Inl e)
  moreover have "no_panic (decode_canonical_varint bs what)"
    unfolding decode_canonical_varint_def by (intro no_panic_intros)
  ultimately show ?thesis by (simp add: ensures_def)
next
  case (Inr r)
  then show ?thesis using decode_canonical_varint_bounds [of bs what "fst r" "snd r"] by (cases r) auto
qed

lemma ensures_length_prefixed: "ensures (\<lambda>(p, n). n \<le> length bs) (decode_length_prefixed bs what)"
  unfolding decode_length_prefixed_def
  by (rule ensures_and_then [OF ensures_varint])
    (auto simp: Let_def split: prod.splits
      intro!: ensures_and_then [OF ensures_checked_add] ensures_and_then [OF ensures_slice])

lemma ensures_min_width: "ensures (\<lambda>n. n \<le> length bs) (validate_min_width bs w what)"
  by (simp add: validate_min_width_def)

lemma validate_bounds:
  "ensures (\<lambda>(t, n). 0 < n \<and> n \<le> length bs) (validate_tagged_value json bs)"
  "ensures (\<lambda>n. n \<le> length bs) (validate_payload_inner json t bs)"
  "pos \<le> length bs \<Longrightarrow> ensures (\<lambda>n. n \<le> length bs) (validate_list_loop json bs n pos)"
  "pos \<le> length bs \<Longrightarrow> ensures (\<lambda>n. n \<le> length bs) (validate_struct_loop json bs n prev pos)"
  "pos \<le> length bs \<Longrightarrow> ensures (\<lambda>n. n \<le> length bs) (validate_map_loop json bs n prevk pos)"
proof (induction json bs and json t bs and json bs n pos and json bs n prev pos and json bs n prevk pos rule: validate_induct)
  case (1 json bs)
  show ?case 
    apply (subst validate_tagged_value.simps)
    apply (rule ensures_and_then [OF ensures_varint], clarsimp)
    apply (rule ensures_and_then [OF ensures_ok_or], clarsimp)
    apply (rule ensures_and_then)
    apply (rule ensures_slice_from)
    apply simp
    apply (rule ensures_and_then)
    apply (rule 1) apply (assumption | rule refl | simp)+
    apply (rule ensures_and_then [OF ensures_checked_add])
    apply auto
    done
next
  case (2 json t bs)
  show ?case 
    apply (subst validate_payload_inner.simps)
    apply (intro ensures_if ensures_min_width)
    apply (auto intro!: ensures_and_then [OF ensures_length_prefixed] ensures_and_then [OF ensures_varint] 2)
    done
next
  case (4 json bs n pos)
  show ?case
    unfolding validate_list_loop.simps
    apply (rule ensures_and_then [OF ensures_slice_from [OF 4(3)]])
    apply (rule ensures_and_then [OF 4(1)], assumption, clarsimp)
    apply (rule ensures_and_then [OF ensures_checked_add])
    apply (rule 4(2)) using 4(3) apply auto
    done
next
  case (6 json bs n prev pos)
  show ?case 
    unfolding validate_struct_loop.simps
    apply (rule ensures_and_then [OF ensures_slice_from [OF 6(3)]])
    apply (rule ensures_and_then [OF ensures_varint], clarsimp)
    apply (rule ensures_and_then [OF ensures_checked_add])
    apply (rule ensures_if, simp)
    apply (rule ensures_and_then [OF ensures_slice_from])
    using 6(3) apply simp
    apply (rule ensures_and_then [OF 6(1)]) apply (assumption | rule refl | simp)+
    apply clarsimp
    apply (rule ensures_and_then [OF ensures_checked_add])
    using 6(3) apply (auto intro!: 6(2))
    done
next
  case (8 json bs n prev pos)
  show ?case 
    unfolding validate_map_loop.simps
    apply (rule ensures_and_then [OF ensures_slice_from [OF 8(4)]])
    apply (rule ensures_and_then [OF 8(1)], assumption, clarsimp)
    apply (rule ensures_and_then [OF ensures_checked_add])
    apply (rule ensures_and_then [OF ensures_slice], simp)
    using 8(4) apply simp
    apply (rule ensures_if, simp)
    apply (rule ensures_if, simp)
    apply (rule ensures_and_then [OF ensures_slice_from])
    using 8(4) apply simp
    apply (rule ensures_and_then [OF 8(2)]) apply (assumption | rule refl | simp)+
    apply clarsimp
    apply (rule ensures_and_then [OF ensures_checked_add])
    using 8(4) apply (auto intro!: 8(3))
    done
qed simp_all

section \<open>The encoder in closed form\<close>

definition tagged_bytes :: "(bytes \<Rightarrow> 'j option) \<Rightarrow> canonical_value \<Rightarrow> bytes" where
  "tagged_bytes json v = projr (encode_tagged json v)"

definition encodable :: "(bytes \<Rightarrow> 'j option) \<Rightarrow> canonical_value \<Rightarrow> bool" where
  "encodable json v \<longleftrightarrow> is_ok (encode_value json v)"

lemma append_leb_Nil: "append_u64_leb128 [] v = encode_u64_leb128 v"
  by (simp add: encode_u64_leb128_def)

lemma encode_tagged_iff:
  "encode_tagged json v = Ok b \<longleftrightarrow> encodable json v \<and> b = tagged_bytes json v"
  unfolding tagged_bytes_def encodable_def
  by (cases "encode_value json v") (auto simp: encode_tagged.simps Let_def)

lemma encode_tagged_Ok: "encodable json v \<Longrightarrow> encode_tagged json v = Ok (tagged_bytes json v)"
  by (simp add: encode_tagged_iff)

lemma tagged_bytes_eq:
  "encode_value json v = Ok p \<Longrightarrow>
   tagged_bytes json v = encode_u64_leb128 (ucast (as_value_tag (value_tag_of v))) @ p"
  by (simp add: tagged_bytes_def encode_tagged.simps Let_def append_leb_Nil)

lemma try_map_Ok_iff:
  "(\<And>x b. f x = Ok b \<longleftrightarrow> P x \<and> b = g x) \<Longrightarrow> try_map f xs = Ok ys \<longleftrightarrow> (\<forall>x \<in> set xs. P x) \<and> ys = map g xs"
  by (induction xs arbitrary: ys) (auto simp: and_then_eq_Inr_iff)

lemma insort_key_map: "insort_key f (g x) (map g xs) = map g (insort_key (\<lambda>x. f (g x)) x xs)"
  by (induction xs) auto

lemma sort_key_map: "sort_key f (map g xs) = map g (sort_key (\<lambda>x. f (g x)) xs)"
  by (induction xs) (auto simp: insort_key_map)

lemma windows2_sorted_distinct:
  fixes f :: "'a \<Rightarrow> 'b::linorder"
  shows "windows2_all (\<lambda>a b. f a \<noteq> f b) (sort_key f xs) \<longleftrightarrow> distinct (map f xs)"
proof -
  have "windows2_all (\<lambda>a b. f a \<noteq> f b) ys \<longleftrightarrow> distinct (map f ys)" if "sorted (map f ys)" for ys
    using that
  proof (induction "\<lambda>a b. f a \<noteq> f b" ys rule: windows2_all.induct)
    case (1 x y zs)
    then show ?case by (auto simp: image_iff)
  qed auto
  then have "windows2_all (\<lambda>a b. f a \<noteq> f b) (sort_key f xs) \<longleftrightarrow> distinct (map f (sort_key f xs))"
    by simp
  also have "\<dots> \<longleftrightarrow> distinct (map f xs)"
    by (simp add: distinct_map)
  finally show ?thesis .
qed

lemma canonicalize_list_iff:
  "canonicalize_list json vs = Ok b \<longleftrightarrow>
     (\<forall>v \<in> set vs. encodable json v) \<and>
     b = encode_u64_leb128 (of_nat (length vs)) @ concat (map (tagged_bytes json) vs)"
  by (auto simp: append_leb_Nil and_then_eq_Inr_iff try_map_Ok_iff [OF encode_tagged_iff])

lemma canonicalize_struct_iff:
  "canonicalize_struct json fs = Ok b \<longleftrightarrow>
     distinct (map fst fs) \<and> (\<forall>f \<in> set fs. encodable json (snd f)) \<and>
     b = encode_u64_leb128 (of_nat (length fs)) @
       concat (map (\<lambda>f. encode_u64_leb128 (fst f) @ tagged_bytes json (snd f)) (sort_key fst fs))"
proof -
  have f: "and_then (encode_tagged json (snd f)) (\<lambda>b. Ok (encode_u64_leb128 (fst f) @ b)) = Ok r \<longleftrightarrow>
      encodable json (snd f) \<and> r = encode_u64_leb128 (fst f) @ tagged_bytes json (snd f)" for f r
    by (auto simp: and_then_eq_Inr_iff encode_tagged_iff append_leb_Nil)
  show ?thesis
    unfolding canonicalize_struct.simps Let_def if_eq_Inr_iffs append_leb_Nil
      and_then_eq_Inr_iff [where m = "try_map f xs" for f xs] try_map_Ok_iff [OF f] not_not
      windows2_sorted_distinct
    by auto
qed

abbreviation entry_ok :: "(bytes \<Rightarrow> 'j option) \<Rightarrow> canonical_value \<times> canonical_value \<Rightarrow> bool" where
  "entry_ok json e \<equiv> is_scalar_key (fst e) \<and> encodable json (fst e) \<and> encodable json (snd e)"

abbreviation key_bytes :: "(bytes \<Rightarrow> 'j option) \<Rightarrow> canonical_value \<times> canonical_value \<Rightarrow> bytes" where
  "key_bytes json e \<equiv> tagged_bytes json (fst e)"

lemma canonicalize_map_iff:
  "canonicalize_map json es = Ok b \<longleftrightarrow>
     distinct (map (key_bytes json) es) \<and> (\<forall>e \<in> set es. entry_ok json e) \<and>
     b = encode_u64_leb128 (of_nat (length es)) @
       concat (map (\<lambda>e. key_bytes json e @ tagged_bytes json (snd e)) (sort_key (key_bytes json) es))"
proof -
  have f: "(if \<not> is_scalar_key (fst e) then Fail (BadSchema ''canonical map key must be scalar'')
      else and_then (encode_tagged json (fst e)) (\<lambda>k. and_then (encode_tagged json (snd e)) (\<lambda>v. Ok (k, v)))) = Ok r
      \<longleftrightarrow> entry_ok json e \<and> r = (key_bytes json e, tagged_bytes json (snd e))" for e r
    by (auto simp: and_then_eq_Inr_iff encode_tagged_iff)
  show ?thesis
    unfolding canonicalize_map.simps canonicalize_map_entries.simps and_then_eq_Inr_iff try_map_Ok_iff [OF f]
    by (auto simp: windows2_sorted_distinct sort_key_map append_leb_Nil o_def)
qed

lemmas encode_nested_iffs = canonicalize_list_iff canonicalize_struct_iff canonicalize_map_iff

section \<open>Encoded values are accepted\<close>

text \<open>
  What Rust's types guarantee of a value: a UUID has 16 bytes and a string is UTF-8.
\<close>

function cv_wf :: "canonical_value \<Rightarrow> bool" where
  "cv_wf v =
     (case v of
        CV_Uuid u \<Rightarrow> length u = 16
      | CV_Utf8 s \<Rightarrow> utf8_valid s
      | CV_List vs \<Rightarrow> (\<forall>x \<in> set vs. cv_wf x)
      | CV_Struct fs \<Rightarrow> (\<forall>f \<in> set fs. cv_wf (snd f))
      | CV_Map es \<Rightarrow> (\<forall>e \<in> set es. cv_wf (fst e) \<and> cv_wf (snd e))
      | _ \<Rightarrow> True)"
  by pat_completeness auto

termination
  by (relation "measure size") (auto dest!: element_size field_size entry_size)

declare cv_wf.simps [simp del]

lemma cv_wf_iffs:
  "cv_wf (CV_Uuid u) \<longleftrightarrow> length u = 16"
  "cv_wf (CV_Utf8 s) \<longleftrightarrow> utf8_valid s"
  "cv_wf (CV_List vs) \<longleftrightarrow> (\<forall>x \<in> set vs. cv_wf x)"
  "cv_wf (CV_Struct fs) \<longleftrightarrow> (\<forall>f \<in> set fs. cv_wf (snd f))"
  "cv_wf (CV_Map es) \<longleftrightarrow> (\<forall>e \<in> set es. cv_wf (fst e) \<and> cv_wf (snd e))"
  by (subst cv_wf.simps; simp)+

lemma sized_bound: "length bs < usize_limit \<Longrightarrow> n \<le> length bs \<Longrightarrow> unat (of_nat n :: u64) = n"
  by (rule unat_of_nat_less) (simp add: usize_limit_def)

lemma decode_varint_enc [simp]:
  "decode_canonical_varint (encode_u64_leb128 v @ rest) what = Ok (v, length (encode_u64_leb128 v))"
  by (simp add: decode_canonical_varint_def decode_encode_u64_leb128)

lemma decode_length_prefixed_enc:
  assumes "length (length_prefixed s @ rest) < usize_limit"
  shows "decode_length_prefixed (length_prefixed s @ rest) what = Ok (s, length (length_prefixed s))"
proof -
  have u: "unat (of_nat (length s) :: u64) = length s"
    by (rule sized_bound [OF assms]) (simp add: length_prefixed_def)
  show ?thesis
    using assms unfolding length_prefixed_def append_leb_Nil append_assoc
    by (simp add: decode_length_prefixed_def u Let_def checked_add_def slice_def)
qed

definition tagged_accepted :: "(bytes \<Rightarrow> 'j option) \<Rightarrow> canonical_value \<Rightarrow> bool" where
  "tagged_accepted json v \<longleftrightarrow>
     (\<forall>rest. length (tagged_bytes json v @ rest) < usize_limit \<longrightarrow>
        validate_tagged_value json (tagged_bytes json v @ rest) =
          Ok (value_tag_of v, length (tagged_bytes json v)))"

lemma tag_word: "unat (ucast (as_value_tag t) :: u64) < 2 ^ 16" "ucast (ucast (as_value_tag t) :: u64) = as_value_tag t"
proof -
  show "unat (ucast (as_value_tag t) :: u64) < 2 ^ 16" by (cases t) simp_all
  show "ucast (ucast (as_value_tag t) :: u64) = as_value_tag t" by (cases t) simp_all
qed

lemma tagged_acceptedI:
  assumes "encode_value json v = Ok p"
    and "\<And>rest. length (p @ rest) < usize_limit \<Longrightarrow>
      validate_payload_inner json (value_tag_of v) (p @ rest) = Ok (length p)"
  shows "tagged_accepted json v"
  unfolding tagged_accepted_def
proof (intro allI impI)
  fix rest assume l: "length (tagged_bytes json v @ rest) < usize_limit"
  let ?t = "ucast (as_value_tag (value_tag_of v)) :: u64"
  note eq = tagged_bytes_eq [OF assms(1)]
  have v: "value_tag_from (as_value_tag (value_tag_of v)) = Some (value_tag_of v)"
    by (simp add: value_tag_from_iff)
  have "validate_payload_inner json (value_tag_of v) (p @ rest) = Ok (length p)"
    using assms(2) l by (simp add: eq)
  then show "validate_tagged_value json (tagged_bytes json v @ rest) = Ok (value_tag_of v, length (tagged_bytes json v))"
    using l tag_word [of "value_tag_of v"]
    by (simp add: validate_tagged_value.simps eq v slice_from_def checked_add_def)
qed

lemma tagged_bytes_nonempty: "encodable json v \<Longrightarrow> 0 < length (tagged_bytes json v)"
  using encode_u64_leb128_length(1)
  by (auto simp: encodable_def is_ok_iff tagged_bytes_eq)

lemma length_le_concat: "(\<And>x. x \<in> set xs \<Longrightarrow> 0 < length (f x)) \<Longrightarrow> length xs \<le> length (concat (map f xs))"
proof (induction xs)
  case (Cons x xs)
  then have "0 < length (f x)" "length xs \<le> length (concat (map f xs))" by auto
  then show ?case by (simp del: length_greater_0_conv)
qed simp

lemma validate_list_loop_enc:
  "(\<And>v. v \<in> set vs \<Longrightarrow> tagged_accepted json v) \<Longrightarrow>
   length (pre @ concat (map (tagged_bytes json) vs) @ rest) < usize_limit \<Longrightarrow>
   validate_list_loop json (pre @ concat (map (tagged_bytes json) vs) @ rest) (length vs) (length pre) =
     Ok (length pre + length (concat (map (tagged_bytes json) vs)))"
proof (induction vs arbitrary: pre)
  case (Cons v vs)
  have "validate_tagged_value json (tagged_bytes json v @ concat (map (tagged_bytes json) vs) @ rest) =
      Ok (value_tag_of v, length (tagged_bytes json v))"
    using Cons.prems by (auto simp: tagged_accepted_def)
  then show ?case
    using Cons.IH [of "pre @ tagged_bytes json v"] Cons.prems
    by (simp add: slice_from_def checked_add_def add.assoc)
qed simp

abbreviation field_bytes :: "(bytes \<Rightarrow> 'j option) \<Rightarrow> canonical_field \<Rightarrow> bytes" where
  "field_bytes json f \<equiv> encode_u64_leb128 (fst f) @ tagged_bytes json (snd f)"

abbreviation entry_bytes :: "(bytes \<Rightarrow> 'j option) \<Rightarrow> canonical_value \<times> canonical_value \<Rightarrow> bytes" where
  "entry_bytes json e \<equiv> key_bytes json e @ tagged_bytes json (snd e)"

lemma validate_struct_loop_enc:
  "(\<And>f. f \<in> set fs \<Longrightarrow> tagged_accepted json (snd f)) \<Longrightarrow>
   sorted_wrt (<) (case prev of None \<Rightarrow> map fst fs | Some p \<Rightarrow> p # map fst fs) \<Longrightarrow>
   length (pre @ concat (map (field_bytes json) fs) @ rest) < usize_limit \<Longrightarrow>
   validate_struct_loop json (pre @ concat (map (field_bytes json) fs) @ rest) (length fs) prev (length pre) =
     Ok (length pre + length (concat (map (field_bytes json) fs)))"
proof (induction fs arbitrary: pre prev)
  case (Cons f fs)
  let ?r = "concat (map (field_bytes json) fs) @ rest"
  have v: "validate_tagged_value json (tagged_bytes json (snd f) @ ?r) =
      Ok (value_tag_of (snd f), length (tagged_bytes json (snd f)))"
    using Cons.prems by (auto simp: tagged_accepted_def)
  have p: "\<not> (case prev of None \<Rightarrow> False | Some p \<Rightarrow> fst f \<le> p)"
    "sorted_wrt (<) (fst f # map fst fs)"
    using Cons.prems(2) by (auto split: option.splits)
  have ih: "validate_struct_loop json ((pre @ field_bytes json f) @ ?r) (length fs) (Some (fst f)) (length (pre @ field_bytes json f)) =
     Ok (length (pre @ field_bytes json f) + length (concat (map (field_bytes json) fs)))"
    using Cons.IH [of "Some (fst f)" "pre @ field_bytes json f"] Cons.prems p(2) by simp
  show ?case
    using ih v p(1) Cons.prems(3) by (simp add: slice_from_def checked_add_def add.assoc)
qed simp

lemma scalar_tag: "is_scalar_value_tag (value_tag_of v) \<longleftrightarrow> is_scalar_key v"
  by (cases v) (auto simp: is_scalar_value_tag_def is_scalar_key_def)

lemma validate_map_loop_enc:
  "(\<And>e. e \<in> set es \<Longrightarrow> is_scalar_key (fst e) \<and> tagged_accepted json (fst e) \<and> tagged_accepted json (snd e)) \<Longrightarrow>
   sorted_wrt (<) (case prev of None \<Rightarrow> map (key_bytes json) es | Some p \<Rightarrow> p # map (key_bytes json) es) \<Longrightarrow>
   length (pre @ concat (map (entry_bytes json) es) @ rest) < usize_limit \<Longrightarrow>
   validate_map_loop json (pre @ concat (map (entry_bytes json) es) @ rest) (length es) prev (length pre) =
     Ok (length pre + length (concat (map (entry_bytes json) es)))"
proof (induction es arbitrary: pre prev)
  case (Cons e es)
  let ?r = "concat (map (entry_bytes json) es) @ rest"
  have k: "validate_tagged_value json (key_bytes json e @ tagged_bytes json (snd e) @ ?r) =
      Ok (value_tag_of (fst e), length (key_bytes json e))"
    using Cons.prems by (auto simp: tagged_accepted_def)
  have v: "validate_tagged_value json (tagged_bytes json (snd e) @ ?r) =
      Ok (value_tag_of (snd e), length (tagged_bytes json (snd e)))"
    using Cons.prems by (auto simp: tagged_accepted_def)
  have s: "is_scalar_value_tag (value_tag_of (fst e))" using Cons.prems(1) by (simp add: scalar_tag)
  have p: "\<not> (case prev of None \<Rightarrow> False | Some p \<Rightarrow> key_bytes json e < p)" "prev \<noteq> Some (key_bytes json e)"
    "sorted_wrt (<) (key_bytes json e # map (key_bytes json) es)"
    using Cons.prems(2) by (auto split: option.splits)
  have ih: "validate_map_loop json ((pre @ entry_bytes json e) @ ?r) (length es) (Some (key_bytes json e)) (length (pre @ entry_bytes json e)) =
     Ok (length (pre @ entry_bytes json e) + length (concat (map (entry_bytes json) es)))"
    using Cons.IH [of "Some (key_bytes json e)" "pre @ entry_bytes json e"] Cons.prems p(3) by simp
  show ?case
    using ih k v p(1,2) s Cons.prems(3) by (simp add: slice_from_def slice_def checked_add_def add.assoc)
qed simp

lemma sorted_strict: "distinct (map f xs) \<Longrightarrow> sorted_wrt (<) (map f (sort_key f xs))"
  by (simp add: strict_sorted_iff distinct_map)

lemma encode_nested:
  "encode_value json (CV_List vs) = canonicalize_list json vs"
  "encode_value json (CV_Struct fs) = canonicalize_struct json fs"
  "encode_value json (CV_Map es) = canonicalize_map json es"
  by (simp_all add: encode_value.simps)

lemma encode_width_length:
  "encode_i64_width w x = Ok p \<Longrightarrow> length p = 8"
  "encode_u64_width w y = Ok p \<Longrightarrow> length p = 8"
  by (auto simp: encode_i64_width_def encode_u64_width_def Let_def split: if_splits)

lemma validate_encoded:
  "encode_value json v = Ok p \<Longrightarrow> cv_wf v \<Longrightarrow> length (p @ rest) < usize_limit \<Longrightarrow>
   validate_payload_inner json (value_tag_of v) (p @ rest) = Ok (length p)"
proof (induction "size v" arbitrary: v p rest rule: less_induct)
  case less
  have acc: "tagged_accepted json w" if "size w < size v" "encodable json w" "cv_wf w" for w
    using that(2) less.hyps [OF that(1) _ that(3)] unfolding encodable_def is_ok_iff
    by (auto intro: tagged_acceptedI)
  note simps = validate_payload_inner.simps [of json "value_tag_of v"]
  show ?case
  proof (cases v)
    case (CV_List vs)
    let ?c = "concat (map (tagged_bytes json) vs)"
    have e: "\<forall>v \<in> set vs. encodable json v" and p: "p = encode_u64_leb128 (of_nat (length vs)) @ ?c"
      using less.prems(1) unfolding CV_List encode_nested canonicalize_list_iff by blast+
    have a: "tagged_accepted json x" if "x \<in> set vs" for x
      using acc [of x] that e less.prems(2) element_size [OF that] by (simp add: CV_List cv_wf_iffs)
    have "length vs \<le> length ?c" using e by (intro length_le_concat tagged_bytes_nonempty) auto
    then have u: "unat (of_nat (length vs) :: u64) = length vs"
      using less.prems(3) by (intro sized_bound [of ?c]) (simp_all add: p)
    show ?thesis
      using validate_list_loop_enc [of vs json "encode_u64_leb128 (of_nat (length vs))" rest] a less.prems(3)
      by (simp add: simps) (simp add: CV_List p u)
  next
    case (CV_Struct fs)
    let ?s = "sort_key fst fs"
    let ?c = "concat (map (field_bytes json) ?s)"
    have d: "distinct (map fst fs)" and e: "\<forall>f \<in> set fs. encodable json (snd f)"
      and p: "p = encode_u64_leb128 (of_nat (length fs)) @ ?c"
      using less.prems(1) unfolding CV_Struct encode_nested canonicalize_struct_iff by blast+
    have a: "tagged_accepted json (snd f)" if "f \<in> set ?s" for f
      using acc [of "snd f"] that e less.prems(2) field_size [of f fs]
      by (simp add: CV_Struct cv_wf_iffs)
    have "length ?s \<le> length ?c" using encode_u64_leb128_length(1) by (intro length_le_concat) simp
    then have u: "unat (of_nat (length fs) :: u64) = length fs"
      using less.prems(3) by (intro sized_bound [of ?c]) (simp_all add: p)
    show ?thesis
      using validate_struct_loop_enc [of ?s json None "encode_u64_leb128 (of_nat (length fs))" rest]
        a less.prems(3) sorted_strict [OF d]
      by (simp add: simps) (simp add: CV_Struct p u)
  next
    case (CV_Map es)
    let ?s = "sort_key (key_bytes json) es"
    let ?c = "concat (map (entry_bytes json) ?s)"
    have d: "distinct (map (key_bytes json) es)" and e: "\<forall>e \<in> set es. entry_ok json e"
      and p: "p = encode_u64_leb128 (of_nat (length es)) @ ?c"
      using less.prems(1) unfolding CV_Map encode_nested canonicalize_map_iff by blast+
    have a: "is_scalar_key (fst f) \<and> tagged_accepted json (fst f) \<and> tagged_accepted json (snd f)" if "f \<in> set ?s" for f
      using acc [of "fst f"] acc [of "snd f"] that e less.prems(2) entry_size [of f es]
      by (simp add: CV_Map cv_wf_iffs)
    have "length ?s \<le> length ?c"
      using e tagged_bytes_nonempty by (intro length_le_concat) auto
    then have u: "unat (of_nat (length es) :: u64) = length es"
      using less.prems(3) by (intro sized_bound [of ?c]) (simp_all add: p)
    show ?thesis
      using validate_map_loop_enc [of ?s json None "encode_u64_leb128 (of_nat (length es))" rest]
        a less.prems(3) sorted_strict [OF d]
      by (simp add: simps) (simp add: CV_Map p u)
  next
    case (CV_Bool b)
    then show ?thesis using less.prems by (cases b) (simp_all add: encode_value.simps validate_payload_inner.simps)
  qed (use less.prems encode_width_length in
      \<open>auto simp: encode_value.simps validate_payload_inner.simps validate_min_width_def cv_wf_iffs
         decode_length_prefixed_enc split: if_splits\<close>)
qed

section \<open>Identity\<close>

text \<open>
  The logical identity that the encoding is to decide: integers by value whatever
  their declared width, structs by field id in any order, maps by key in any order.
\<close>

inductive cv_equiv :: "canonical_value \<Rightarrow> canonical_value \<Rightarrow> bool" where
  equiv_int: "cv_equiv (CV_Int w x) (CV_Int w' x)"
| equiv_uint: "cv_equiv (CV_Uint w x) (CV_Uint w' x)"
| equiv_scalar: "is_scalar_key v \<Longrightarrow> cv_equiv v v"
| equiv_list: "list_all2 cv_equiv vs ws \<Longrightarrow> cv_equiv (CV_List vs) (CV_List ws)"
| equiv_struct:
    "mset fs' = mset fs \<Longrightarrow> mset gs' = mset gs \<Longrightarrow>
     list_all2 (\<lambda>f g. fst f = fst g \<and> cv_equiv (snd f) (snd g)) fs' gs' \<Longrightarrow>
     cv_equiv (CV_Struct fs) (CV_Struct gs)"
| equiv_map:
    "mset es' = mset es \<Longrightarrow> mset hs' = mset hs \<Longrightarrow>
     list_all2 (\<lambda>e h. cv_equiv (fst e) (fst h) \<and> cv_equiv (snd e) (snd h)) es' hs' \<Longrightarrow>
     cv_equiv (CV_Map es) (CV_Map hs)"
monos list_all2_mono

text \<open>The order in which a sort with distinct keys leaves its elements is its content's.\<close>

lemma sort_key_mset_eq:
  assumes "mset xs = mset ys" "distinct (map f xs)"
  shows "sort_key f xs = sort_key f ys"
proof (rule map_sorted_distinct_set_unique)
  have "mset (map f xs) = mset (map f ys)" using assms(1) by simp
  then have d: "distinct (map f ys)" using assms(2) mset_eq_imp_distinct_iff by blast
  show "distinct (map f (sort_key f xs))" "distinct (map f (sort_key f ys))"
    using assms(2) d by (simp_all add: distinct_map)
  show e: "set (sort_key f xs) = set (sort_key f ys)" using mset_eq_setD [OF assms(1)] by simp
  show "inj_on f (set (sort_key f xs) \<union> set (sort_key f ys))" 
    unfolding e [symmetric] using assms(2) by (simp add: distinct_map)
qed simp_all

lemma sorted_bytes_eq:
  assumes "mset (map F xs) = mset (map F ys)" "distinct (map (\<lambda>x. fst (F x)) xs)"
  shows "map F (sort_key (\<lambda>x. fst (F x)) xs) = map F (sort_key (\<lambda>x. fst (F x)) ys)"
proof -
  have "sort_key fst (map F xs) = sort_key fst (map F ys)"
    using assms by (intro sort_key_mset_eq) (simp_all add: o_def)
  then show ?thesis by (simp add: sort_key_map)
qed

abbreviation same_bytes :: "(bytes \<Rightarrow> 'j option) \<Rightarrow> canonical_value \<Rightarrow> canonical_value \<Rightarrow> bool" where
  "same_bytes json v w \<equiv>
     (\<forall>p q. encode_value json v = Ok p \<longrightarrow> encode_value json w = Ok q \<longrightarrow> p = q \<and> value_tag_of v = value_tag_of w)"

lemma same_tagged_bytes:
  "same_bytes json v w \<Longrightarrow> encodable json v \<Longrightarrow> encodable json w \<Longrightarrow> tagged_bytes json v = tagged_bytes json w"
  by (auto simp: encodable_def is_ok_iff tagged_bytes_eq)

lemma list_all2_map_eq: "list_all2 (\<lambda>x y. F x = F y) xs ys \<Longrightarrow> map F xs = map F ys"
  by (induction rule: list_all2_induct) auto

lemma list_all2_mono_set:
  "list_all2 P xs ys \<Longrightarrow> (\<And>x y. x \<in> set xs \<Longrightarrow> y \<in> set ys \<Longrightarrow> P x y \<Longrightarrow> Q x y) \<Longrightarrow> list_all2 Q xs ys"
  by (auto simp: list_all2_conv_all_nth)

lemma mset_map_eqI:
  "mset xs' = mset xs \<Longrightarrow> mset ys' = mset ys \<Longrightarrow> map F xs' = map F ys' \<Longrightarrow> mset (map F xs) = mset (map F ys)"
  by (metis mset_map)

lemma mset_map_length: "mset (map F xs) = mset (map F ys) \<Longrightarrow> length xs = length ys"
  using mset_eq_length by fastforce

lemma map_factor: "map F xs = map F ys \<Longrightarrow> (\<And>x. B x = G (F x)) \<Longrightarrow> map B xs = map B ys"
proof -
  assume a: "map F xs = map F ys" and b: "\<And>x. B x = G (F x)"
  have "map G (map F xs) = map G (map F ys)" using a by (rule arg_cong)
  moreover have "B = (\<lambda>x. G (F x))" using b by (rule ext)
  ultimately show ?thesis by (simp add: o_def)
qed

lemma equiv_same_bytes: "cv_equiv v w \<Longrightarrow> same_bytes json v w"
proof (induction rule: cv_equiv.induct)
  case (equiv_list vs ws)
  show ?case
  proof (intro allI impI conjI)
    fix p q assume e: "encode_value json (CV_List vs) = Ok p" "encode_value json (CV_List ws) = Ok q"
    note e = e [unfolded encode_nested encode_nested_iffs]
    have "map (tagged_bytes json) vs = map (tagged_bytes json) ws"
    proof (rule list_all2_map_eq, rule list_all2_mono_set [OF equiv_list])
      fix v w assume "v \<in> set vs" "w \<in> set ws" "cv_equiv v w \<and> same_bytes json v w"
      then show "tagged_bytes json v = tagged_bytes json w" using e same_tagged_bytes [of json v w] by blast
    qed
    moreover have "length vs = length ws" using equiv_list by (rule list_all2_lengthD)
    ultimately show "p = q" using e by simp
  qed simp
next
  case (equiv_struct fs' fs gs' gs)
  show ?case
  proof (intro allI impI conjI)
    fix p q assume "encode_value json (CV_Struct fs) = Ok p" "encode_value json (CV_Struct gs) = Ok q"
    note e = this [unfolded encode_nested encode_nested_iffs]
    let ?F = "\<lambda>f. (fst f, tagged_bytes json (snd f))"
    have "map ?F fs' = map ?F gs'"
    proof (rule list_all2_map_eq, rule list_all2_mono_set [OF equiv_struct(3)])
      fix f g assume m: "f \<in> set fs'" "g \<in> set gs'"
        and r: "fst f = fst g \<and> cv_equiv (snd f) (snd g) \<and> same_bytes json (snd f) (snd g)"
      have "f \<in> set fs" "g \<in> set gs" using m equiv_struct(1,2) by (metis set_mset_mset)+
      then show "?F f = ?F g" using r e same_tagged_bytes [of json "snd f" "snd g"] by auto
    qed
    then have "mset (map ?F fs) = mset (map ?F gs)"
      by (rule mset_map_eqI [OF equiv_struct(1,2)])
    from sorted_bytes_eq [OF this] e
    have "map ?F (sort_key fst fs) = map ?F (sort_key fst gs)" by simp
    then have "map (field_bytes json) (sort_key fst fs) = map (field_bytes json) (sort_key fst gs)"
      by (rule map_factor [where G = "\<lambda>(i, b). encode_u64_leb128 i @ b"]) simp
    moreover have "length fs = length gs" 
      using \<open>mset (map ?F fs) = mset (map ?F gs)\<close> by (rule mset_map_length)
    ultimately show "p = q" using e by simp
  qed simp
next
  case (equiv_map es' es hs' hs)
  show ?case
  proof (intro allI impI conjI)
    fix p q assume "encode_value json (CV_Map es) = Ok p" "encode_value json (CV_Map hs) = Ok q"
    note e = this [unfolded encode_nested encode_nested_iffs]
    let ?F = "\<lambda>e. (key_bytes json e, tagged_bytes json (snd e))"
    have "map ?F es' = map ?F hs'"
    proof (rule list_all2_map_eq, rule list_all2_mono_set [OF equiv_map(3)])
      fix f g assume m: "f \<in> set es'" "g \<in> set hs'"
        and r: "(cv_equiv (fst f) (fst g) \<and> same_bytes json (fst f) (fst g)) \<and> cv_equiv (snd f) (snd g) \<and> same_bytes json (snd f) (snd g)"
      have "f \<in> set es" "g \<in> set hs" using m equiv_map(1,2) by (metis set_mset_mset)+
      then show "?F f = ?F g"
        using r e same_tagged_bytes [of json "snd f" "snd g"] same_tagged_bytes [of json "fst f" "fst g"] by auto
    qed
    then have "mset (map ?F es) = mset (map ?F hs)"
      by (rule mset_map_eqI [OF equiv_map(1,2)])
    from sorted_bytes_eq [OF this] e
    have "map ?F (sort_key (key_bytes json) es) = map ?F (sort_key (key_bytes json) hs)" by simp
    then have "map (entry_bytes json) (sort_key (key_bytes json) es) = map (entry_bytes json) (sort_key (key_bytes json) hs)"
      by (rule map_factor [where G = "\<lambda>(i, b). i @ b"]) simp
    moreover have "length es = length hs"
      using \<open>mset (map ?F es) = mset (map ?F hs)\<close> by (rule mset_map_length)
    ultimately show "p = q" using e by simp
  qed simp
qed (auto simp: encode_value.simps encode_i64_width_def encode_u64_width_def Let_def split: if_splits)

lemma concat_prefix_free:
  "(\<And>x y r s. x \<in> set xs \<Longrightarrow> y \<in> set ys \<Longrightarrow> B x @ r = B y @ s \<Longrightarrow> R x y \<and> B x = B y) \<Longrightarrow>
   length xs = length ys \<Longrightarrow> concat (map B xs) @ r = concat (map B ys) @ s \<Longrightarrow>
   list_all2 R xs ys \<and> concat (map B xs) = concat (map B ys)"
proof (induction xs arbitrary: ys)
  case (Cons x xs)
  then obtain y ys' where ys: "ys = y # ys'" by (cases ys) auto
  have xy: "R x y \<and> B x = B y"
    by (rule Cons.prems(1) [of x y "concat (map B xs) @ r" "concat (map B ys') @ s"])
      (use Cons.prems(3) in \<open>simp_all add: ys\<close>)
  have "list_all2 R xs ys' \<and> concat (map B xs) = concat (map B ys')"
  proof (rule Cons.IH)
    show "length xs = length ys'" using Cons.prems(2) ys by simp
    show "concat (map B xs) @ r = concat (map B ys') @ s" using Cons.prems(3) xy ys by simp
  qed (use Cons.prems(1) ys in auto)
  then show ?case using xy ys by simp
qed simp

lemma int_width_inject:
  assumes "encode_i64_width w x = Ok p" "encode_i64_width w' y = Ok p"
  shows "x = y"
proof -
  have r: "sint x = sint (ucast x :: i64)" "p = le_bytes 8 (ucast x :: i64)" if "encode_i64_width w x = Ok p" for w and x :: u128
  proof -
    have b: "- (2 ^ 63) \<le> sint x \<and> sint x < 2 ^ 63" and p: "p = le_bytes 8 (ucast x :: i64)"
      using that by (auto simp: encode_i64_width_def Let_def split: if_splits)
    have "sint (ucast x :: i64) = signed_take_bit 63 (sint x)"
      by (simp add: sint_uint signed_take_bit_take_bit unsigned_ucast_eq take_bit_signed_take_bit)
    also have "\<dots> = sint x" using b by (intro signed_take_bit_int_eq_self) auto
    finally show "sint x = sint (ucast x :: i64)" "p = le_bytes 8 (ucast x :: i64)" using p by simp_all
  qed
  have "(ucast x :: i64) = ucast y"
    using r(2) [OF assms(1)] r(2) [OF assms(2)] le_bytes_inject [of 8 "ucast x :: i64" "ucast y"] by simp
  then have "sint x = sint y" using r(1) [OF assms(1)] r(1) [OF assms(2)] by simp
  then show ?thesis by (rule signed_word_eqI)
qed

lemma uint_width_inject:
  assumes "encode_u64_width w x = Ok p" "encode_u64_width w' y = Ok p"
  shows "x = y"
proof -
  have r: "unat x = unat (ucast x :: u64)" "p = le_bytes 8 (ucast x :: u64)" if "encode_u64_width w x = Ok p" for w and x :: u128
  proof -
    have b: "unat x < 2 ^ 64" and p: "p = le_bytes 8 (ucast x :: u64)"
      using that by (auto simp: encode_u64_width_def Let_def split: if_splits)
    have "unat (ucast x :: u64) = take_bit 64 (unat x)" by (simp add: unsigned_ucast_eq)
    then show "unat x = unat (ucast x :: u64)" "p = le_bytes 8 (ucast x :: u64)"
      using b p by (simp_all add: take_bit_nat_eq_self)
  qed
  have "(ucast x :: u64) = ucast y"
    using r(2) [OF assms(1)] r(2) [OF assms(2)] le_bytes_inject [of 8 "ucast x :: u64" "ucast y"] by simp
  then have "unat x = unat y" using r(1) [OF assms(1)] r(1) [OF assms(2)] by simp
  then show ?thesis by (rule unsigned_word_eqI)
qed

lemma length_prefixed_inject:
  assumes "length_prefixed a @ r = length_prefixed b @ s"
    "length (length_prefixed a) < usize_limit" "length (length_prefixed b) < usize_limit"
  shows "a = b"
proof -
  have u: "unat (of_nat (length a) :: u64) = length a" "unat (of_nat (length b) :: u64) = length b"
    using assms(2,3) by (auto intro!: sized_bound simp: length_prefixed_def)
  have "(of_nat (length a) :: u64) = of_nat (length b) \<and> a @ r = b @ s"
    using assms(1) leb128.enc_prefix_free [where x = "of_nat (length a)" and y = "of_nat (length b)" and r = "a @ r" and s = "b @ s"]
    by (simp add: length_prefixed_def append_leb_Nil)
  then show ?thesis using u by (metis append_eq_append_conv)
qed

lemma le_bytes_append_inject:
  "8 * n = LENGTH('a) \<Longrightarrow> le_bytes n v @ r = le_bytes n w @ s \<Longrightarrow> v = (w :: 'a::len word)"
  by (auto simp: le_bytes_inject)

lemma scalar_bytes_equiv:
  assumes "is_scalar_key v" "value_tag_of v = value_tag_of w" "cv_wf v" "cv_wf w"
    and "encode_value json v = Ok p" "encode_value json w = Ok q" "p @ r = q @ s"
    and "length p < usize_limit" "length q < usize_limit"
  shows "cv_equiv v w \<and> p = q"
proof -
  have eq: "p = q" if "length p = length q" using that assms(7) by simp
  show ?thesis
  proof (cases v)
    case (CV_Int a x)
    with assms obtain b y where w: "w = CV_Int b y" by (cases w) (auto split: if_splits)
    have e: "encode_i64_width a x = Ok p" "encode_i64_width b y = Ok q"
      using assms(5,6) CV_Int w by (simp_all add: encode_value.simps)
    then have "p = q" using eq encode_width_length(1) by metis
    with e int_width_inject [of a x q b y] show ?thesis by (auto simp: CV_Int w intro: cv_equiv.intros)
  next
    case (CV_Uint a x)
    with assms obtain b y where w: "w = CV_Uint b y" by (cases w) (auto split: if_splits)
    have e: "encode_u64_width a x = Ok p" "encode_u64_width b y = Ok q"
      using assms(5,6) CV_Uint w by (simp_all add: encode_value.simps)
    then have "p = q" using eq encode_width_length(2) by metis
    with e uint_width_inject [of a x q b y] show ?thesis by (auto simp: CV_Uint w intro: cv_equiv.intros)
  next
    case (CV_Utf8 a)
    with assms obtain b where w: "w = CV_Utf8 b" by (cases w) (auto split: if_splits)
    have "p = length_prefixed a" "q = length_prefixed b" using assms CV_Utf8 w by (auto simp: encode_value.simps)
    with assms length_prefixed_inject [of a r b s] show ?thesis by (auto simp: CV_Utf8 w intro: cv_equiv.intros)
  next
    case (CV_Bytes a)
    with assms obtain b where w: "w = CV_Bytes b" by (cases w) (auto split: if_splits)
    have "p = length_prefixed a" "q = length_prefixed b" using assms CV_Bytes w by (auto simp: encode_value.simps)
    with assms length_prefixed_inject [of a r b s] show ?thesis by (auto simp: CV_Bytes w intro: cv_equiv.intros)
  next
    case (CV_Json a)
    with assms obtain b where w: "w = CV_Json b" by (cases w) (auto split: if_splits)
    have "p = length_prefixed a" "q = length_prefixed b"
      using assms CV_Json w by (auto simp: encode_value.simps split: if_splits)
    with assms length_prefixed_inject [of a r b s] show ?thesis by (auto simp: CV_Json w intro: cv_equiv.intros)
  next
    case (CV_List vs) with assms(1) show ?thesis by (simp add: is_scalar_key_def)
  next
    case (CV_Struct vs) with assms(1) show ?thesis by (simp add: is_scalar_key_def)
  next
    case (CV_Map vs) with assms(1) show ?thesis by (simp add: is_scalar_key_def)
  qed (use assms in \<open>cases w; auto simp: encode_value.simps cv_wf_iffs split: if_splits
      dest!: le_bytes_append_inject [rotated] intro: equiv_scalar\<close>)+
qed

lemma value_tag_word_inject:
  "(ucast (as_value_tag s) :: u64) = ucast (as_value_tag t) \<longleftrightarrow> s = t"
  using tag_word(2) [of s] tag_word(2) [of t] value_tag_from_iff by (metis option.inject)

lemma length_concat_mem: "x \<in> set xs \<Longrightarrow> length (f x) \<le> length (concat (map f xs))"
  by (induction xs) auto

lemma tag_not_scalar:
  "value_tag_of w = VT_List \<Longrightarrow> \<exists>ws. w = CV_List ws"
  "value_tag_of w = VT_Struct \<Longrightarrow> \<exists>gs. w = CV_Struct gs"
  "value_tag_of w = VT_Map \<Longrightarrow> \<exists>hs. w = CV_Map hs"
  by (cases w; auto split: if_splits)+

lemma counts_equal:
  assumes "encode_u64_leb128 (of_nat m) @ r = encode_u64_leb128 (of_nat n) @ s"
    and "m < usize_limit" "n < usize_limit"
  shows "m = n" "r = s"
proof -
  have e: "(of_nat m :: u64) = of_nat n \<and> r = s"
    using leb128.enc_prefix_free [where x = "of_nat m" and y = "of_nat n"] assms(1) by blast
  have "unat (of_nat m :: u64) = m" "unat (of_nat n :: u64) = n"
    using assms(2,3) by (auto intro!: unat_of_nat_less simp: usize_limit_def)
  with e show "m = n" "r = s" by metis+
qed

lemma count_limit:
  "length (c @ concat (map B xs)) < usize_limit \<Longrightarrow> (\<And>x. x \<in> set xs \<Longrightarrow> 0 < length (B x)) \<Longrightarrow>
   length xs < usize_limit"
  using length_le_concat [of xs B] by simp

definition determined :: "(bytes \<Rightarrow> 'j option) \<Rightarrow> canonical_value \<Rightarrow> bool" where
  "determined json v \<longleftrightarrow>
     (\<forall>w r s. encodable json v \<longrightarrow> encodable json w \<longrightarrow> cv_wf v \<longrightarrow> cv_wf w \<longrightarrow>
        length (tagged_bytes json v) < usize_limit \<longrightarrow> length (tagged_bytes json w) < usize_limit \<longrightarrow>
        tagged_bytes json v @ r = tagged_bytes json w @ s \<longrightarrow>
        cv_equiv v w \<and> tagged_bytes json v = tagged_bytes json w)"

lemma determinedD:
  "determined json v \<Longrightarrow> encodable json v \<Longrightarrow> encodable json w \<Longrightarrow> cv_wf v \<Longrightarrow> cv_wf w \<Longrightarrow>
   length (tagged_bytes json v) < usize_limit \<Longrightarrow> length (tagged_bytes json w) < usize_limit \<Longrightarrow>
   tagged_bytes json v @ r = tagged_bytes json w @ s \<Longrightarrow>
   cv_equiv v w \<and> tagged_bytes json v = tagged_bytes json w"
  unfolding determined_def by blast

lemma determinedI:
  assumes "\<And>w p q r s. encode_value json v = Ok p \<Longrightarrow> encode_value json w = Ok q \<Longrightarrow> cv_wf v \<Longrightarrow> cv_wf w \<Longrightarrow>
    value_tag_of v = value_tag_of w \<Longrightarrow> p @ r = q @ s \<Longrightarrow> length p < usize_limit \<Longrightarrow> length q < usize_limit \<Longrightarrow>
    cv_equiv v w \<and> p = q"
  shows "determined json v"
  unfolding determined_def
proof (intro allI impI)
  fix w r s
  assume a: "encodable json v" "encodable json w" "cv_wf v" "cv_wf w"
    "length (tagged_bytes json v) < usize_limit" "length (tagged_bytes json w) < usize_limit"
    "tagged_bytes json v @ r = tagged_bytes json w @ s"
  obtain p q where e: "encode_value json v = Ok p" "encode_value json w = Ok q"
    using a(1,2) by (auto simp: encodable_def is_ok_iff)
  have t: "value_tag_of v = value_tag_of w" "p @ r = q @ s"
    using a(7) leb128.enc_prefix_free [where x = "ucast (as_value_tag (value_tag_of v))"
        and y = "ucast (as_value_tag (value_tag_of w))" and r = "p @ r" and s = "q @ s"]
    by (simp_all add: tagged_bytes_eq [OF e(1)] tagged_bytes_eq [OF e(2)] value_tag_word_inject)
  have "cv_equiv v w \<and> p = q"
    using assms [OF e a(3,4) t] a(5,6) by (simp add: tagged_bytes_eq [OF e(1)] tagged_bytes_eq [OF e(2)])
  then show "cv_equiv v w \<and> tagged_bytes json v = tagged_bytes json w"
    using t(1) by (simp add: tagged_bytes_eq [OF e(1)] tagged_bytes_eq [OF e(2)])
qed

lemma bytes_determine:
  "encode_value json v = Ok p \<Longrightarrow> encode_value json w = Ok q \<Longrightarrow> cv_wf v \<Longrightarrow> cv_wf w \<Longrightarrow>
   value_tag_of v = value_tag_of w \<Longrightarrow> p @ r = q @ s \<Longrightarrow> length p < usize_limit \<Longrightarrow> length q < usize_limit \<Longrightarrow>
   cv_equiv v w \<and> p = q"
proof (induction "size v" arbitrary: v w p q r s rule: less_induct)
  case less
  have det: "determined json x" if "size x < size v" for x
    by (rule determinedI) (rule less.hyps [OF that])
  show ?case
  proof (cases "is_scalar_key v")
    case True
    then show ?thesis using scalar_bytes_equiv less.prems by blast
  next
    case False
    then consider (l) vs where "v = CV_List vs" | (s) fs where "v = CV_Struct fs" | (m) es where "v = CV_Map es"
      by (cases v) (auto simp: is_scalar_key_def)
    then show ?thesis
    proof cases
      case (l vs)
      then obtain ws where w: "w = CV_List ws" using less.prems(5) tag_not_scalar(1) [of w] by auto
      note e = less.prems(1) [unfolded l encode_nested encode_nested_iffs]
        less.prems(2) [unfolded w encode_nested encode_nested_iffs]
      have wf: "\<forall>x \<in> set vs. cv_wf x" "\<forall>x \<in> set ws. cv_wf x" using less.prems(3,4) l w by (simp_all add: cv_wf_iffs)
      have n: "length vs < usize_limit" "length ws < usize_limit"
        by (rule count_limit [where B = "tagged_bytes json"], use e less.prems(7,8) in blast,
            use e tagged_bytes_nonempty in blast)+
      note c = counts_equal [OF _ n, where r = "concat (map (tagged_bytes json) vs) @ r"
          and s = "concat (map (tagged_bytes json) ws) @ s"]
      have "list_all2 cv_equiv vs ws \<and> concat (map (tagged_bytes json) vs) = concat (map (tagged_bytes json) ws)"
      proof (rule concat_prefix_free)
        fix x y r' s' assume m: "x \<in> set vs" "y \<in> set ws" "tagged_bytes json x @ r' = tagged_bytes json y @ s'"
        have "length (tagged_bytes json x) < usize_limit" "length (tagged_bytes json y) < usize_limit"
          using length_concat_mem [OF m(1), of "tagged_bytes json"] length_concat_mem [OF m(2), of "tagged_bytes json"]
            e less.prems(7,8) by auto
        then show "cv_equiv x y \<and> tagged_bytes json x = tagged_bytes json y"
          using determinedD [OF det] m e wf element_size [OF m(1)] l by auto
      qed (use c e less.prems(6) in auto)
      then show ?thesis using e c less.prems(6) by (auto simp: l w intro: cv_equiv.intros)
    next
      case (s fs)
      then obtain gs where w: "w = CV_Struct gs" using less.prems(5) tag_not_scalar(2) [of w] by auto
      note e = less.prems(1) [unfolded s encode_nested encode_nested_iffs]
        less.prems(2) [unfolded w encode_nested encode_nested_iffs]
      let ?B = "field_bytes json" and ?f = "sort_key fst fs" and ?g = "sort_key fst gs"
      have wf: "\<forall>x \<in> set fs. cv_wf (snd x)" "\<forall>x \<in> set gs. cv_wf (snd x)"
        using less.prems(3,4) s w by (simp_all add: cv_wf_iffs)
      have n: "length fs < usize_limit" "length gs < usize_limit"
        using count_limit [where B = ?B and xs = ?f] count_limit [where B = ?B and xs = ?g]
          encode_u64_leb128_length(1) e less.prems(7,8) by (force, force)
      note c = counts_equal [OF _ n, where r = "concat (map ?B ?f) @ r" and s = "concat (map ?B ?g) @ s"]
      have "list_all2 (\<lambda>x y. fst x = fst y \<and> cv_equiv (snd x) (snd y)) ?f ?g \<and> concat (map ?B ?f) = concat (map ?B ?g)"
      proof (rule concat_prefix_free)
        fix x y r' s' assume m: "x \<in> set ?f" "y \<in> set ?g" "?B x @ r' = ?B y @ s'"
        have h: "fst x = fst y" "tagged_bytes json (snd x) @ r' = tagged_bytes json (snd y) @ s'"
          using m(3) leb128.enc_prefix_free [where x = "fst x" and y = "fst y"
              and r = "tagged_bytes json (snd x) @ r'" and s = "tagged_bytes json (snd y) @ s'"] by simp_all
        have "length (tagged_bytes json (snd x)) < usize_limit" "length (tagged_bytes json (snd y)) < usize_limit"
          using length_concat_mem [OF m(1), of ?B] length_concat_mem [OF m(2), of ?B]
            e less.prems(7,8) by auto
        then have "cv_equiv (snd x) (snd y) \<and> tagged_bytes json (snd x) = tagged_bytes json (snd y)"
          using determinedD [OF det] h m e wf field_size [of x fs] s by auto
        then show "(fst x = fst y \<and> cv_equiv (snd x) (snd y)) \<and> ?B x = ?B y" using h by simp
      qed (use c e less.prems(6) in auto)
      then show ?thesis using e c less.prems(6)
        by (auto simp: s w intro: equiv_struct [of ?f fs ?g gs])
    next
      case (m es)
      then obtain hs where w: "w = CV_Map hs" using less.prems(5) tag_not_scalar(3) [of w] by auto
      note e = less.prems(1) [unfolded m encode_nested encode_nested_iffs]
        less.prems(2) [unfolded w encode_nested encode_nested_iffs]
      let ?B = "entry_bytes json" and ?f = "sort_key (key_bytes json) es" and ?g = "sort_key (key_bytes json) hs"
      have wf: "\<forall>x \<in> set es. cv_wf (fst x) \<and> cv_wf (snd x)" "\<forall>x \<in> set hs. cv_wf (fst x) \<and> cv_wf (snd x)"
        using less.prems(3,4) m w by (simp_all add: cv_wf_iffs)
      have n: "length es < usize_limit" "length hs < usize_limit"
        using count_limit [where B = ?B and xs = ?f] count_limit [where B = ?B and xs = ?g]
          tagged_bytes_nonempty e less.prems(7,8) by (force, force)
      note c = counts_equal [OF _ n, where r = "concat (map ?B ?f) @ r" and s = "concat (map ?B ?g) @ s"]
      have "list_all2 (\<lambda>x y. cv_equiv (fst x) (fst y) \<and> cv_equiv (snd x) (snd y)) ?f ?g \<and> concat (map ?B ?f) = concat (map ?B ?g)"
      proof (rule concat_prefix_free)
        fix x y r' s' assume i: "x \<in> set ?f" "y \<in> set ?g" "?B x @ r' = ?B y @ s'"
        have lim: "length (?B x) < usize_limit" "length (?B y) < usize_limit"
          using length_concat_mem [OF i(1), of ?B] length_concat_mem [OF i(2), of ?B]
            e less.prems(7,8) by auto
        have sz: "size (fst x) < size v" "size (snd x) < size v" using entry_size [of x es] i m by auto
        have k: "cv_equiv (fst x) (fst y) \<and> key_bytes json x = key_bytes json y"
          by (rule determinedD [OF det [OF sz(1)], where r = "tagged_bytes json (snd x) @ r'" and s = "tagged_bytes json (snd y) @ s'"])
            (use lim i e wf in auto)
        have "cv_equiv (snd x) (snd y) \<and> tagged_bytes json (snd x) = tagged_bytes json (snd y)"
          by (rule determinedD [OF det [OF sz(2)], where r = r' and s = s'])
            (use k lim i e wf in auto)
        then show "(cv_equiv (fst x) (fst y) \<and> cv_equiv (snd x) (snd y)) \<and> ?B x = ?B y" using k by simp
      qed (use c e less.prems(6) in auto)
      then show ?thesis using e c less.prems(6)
        by (auto simp: m w intro: equiv_map [of ?f es ?g hs])
    qed
  qed
qed

section \<open>Properties\<close>

text \<open>
  C1: Canonical bytes are the identity of a value: two values encode to the same tag
  and bytes exactly when they are logically equal, integers compared by value, struct
  fields by id and map entries by key in whatever order they were given.
\<close>

theorem canonical_identity:
  assumes "encode_value json v = Ok p" "encode_value json w = Ok q"
    and "cv_wf v" "cv_wf w" "length p < usize_limit" "length q < usize_limit"
  shows "value_tag_of v = value_tag_of w \<and> p = q \<longleftrightarrow> cv_equiv v w"
  using bytes_determine [OF assms(1-4), of "[]" "[]"] equiv_same_bytes [of v w json] assms by auto

lemma canonical_identity_witness:
  "cv_equiv (CV_Struct [(2, CV_Null), (1, CV_Int 4 7)]) (CV_Struct [(1, CV_Int 8 7), (2, CV_Null)]) \<and>
   \<not> cv_equiv (CV_List [CV_Null]) (CV_List [])"
proof -
  have s: "encode_value (\<lambda>_. None :: unit option) (CV_Struct [(2, CV_Null), (1, CV_Int 4 7)]) = Ok [2, 1, 3, 7, 0, 0, 0, 0, 0, 0, 0, 2, 0]"
    "encode_value (\<lambda>_. None :: unit option) (CV_Struct [(1, CV_Int 8 7), (2, CV_Null)]) = Ok [2, 1, 3, 7, 0, 0, 0, 0, 0, 0, 0, 2, 0]"
    by code_simp+
  have l: "encode_value (\<lambda>_. None :: unit option) (CV_List [CV_Null]) = Ok [1, 0]"
    "encode_value (\<lambda>_. None :: unit option) (CV_List []) = Ok [0]"
    by code_simp+
  have w: "cv_wf (CV_Struct [(2, CV_Null), (1, CV_Int 4 7)])" "cv_wf (CV_Struct [(1, CV_Int 8 7), (2, CV_Null)])"
    "cv_wf (CV_List [CV_Null])" "cv_wf (CV_List [])"
    by code_simp+
  show ?thesis
    using canonical_identity [OF s w(1,2)] canonical_identity [OF l w(3,4)] by (simp add: usize_limit_def)
qed

text \<open>
  C19: What the encoder writes the validator accepts under the value's own tag, with
  every byte consumed: sorted struct fields, sorted map keys and nested tags included.
\<close>

theorem canonical_encode_validates:
  assumes "encode_value json v = Ok p" "cv_wf v" "length p < usize_limit"
  shows "validate_canonical_payload json (value_tag_of v) p = Ok ()"
  using validate_encoded [of json v p "[]"] assms by (simp add: validate_canonical_payload_def)

lemma canonical_encode_validates_witness:
  "validate_canonical_payload (\<lambda>_. None :: unit option) VT_Map [1, 12, 1, 97, 16, 0] = Ok ()"
proof -
  have e: "encode_value (\<lambda>_. None :: unit option) (CV_Map [(CV_Utf8 [97], CV_List [])]) = Ok [1, 12, 1, 97, 16, 0]"
    by code_simp
  have w: "cv_wf (CV_Map [(CV_Utf8 [97], CV_List [])])" by code_simp
  show ?thesis using canonical_encode_validates [OF e w] by (simp add: usize_limit_def)
qed

text \<open>
  The validator terminates on every input without a panic, and a payload it
  accepts is consumed to its last byte. It does not insist on minimal LEB128: a count of zero written in two bytes
  is accepted next to the encoder's single byte.
\<close>

theorem canonical_validate_total:
  "no_panic (validate_canonical_payload json t bs) \<and>
   (validate_canonical_payload json t bs = Ok () \<longleftrightarrow> validate_payload_inner json t bs = Ok (length bs)) \<and>
   validate_canonical_payload json VT_List [0] = Ok () \<and>
   validate_canonical_payload json VT_List [0x80, 0] = Ok ()"
proof (intro conjI)
  show "no_panic (validate_canonical_payload json t bs)"
    using validate_bounds(2) [of bs json t]
    by (auto simp: validate_canonical_payload_def ensures_def intro!: no_panic_intros)
  show "validate_canonical_payload json t bs = Ok () \<longleftrightarrow> validate_payload_inner json t bs = Ok (length bs)"
    by (cases "validate_payload_inner json t bs") (auto simp: validate_canonical_payload_def)
qed (simp_all add: validate_canonical_payload_def validate_payload_inner.simps decode_canonical_varint_def
    decode_u64_leb128_def)

end
