(* ===== verification/Dictionary.thy ===== *)
theory Dictionary
  imports Canonical Exact_Codec Types
begin

text \<open>
  The file dictionary (\<^verbatim>\<open>dictionary.rs\<close>): header and index entries, the lazy view and the
  eager dictionary over the two sections, and the writer that assigns file codes to a set of keys.
\<close>

section \<open>Header and index entries\<close>

text \<open>An array filled from a range of the buffer.\<close>

definition copy_range :: "nat \<Rightarrow> bytes \<Rightarrow> nat \<Rightarrow> bytes res" where
  "copy_range n bs offset = and_then (slice bs offset (offset + n)) (copy_from_slice (replicate n 0))"

lemma copy_range_eq: "copy_range n bs offset = (if offset + n \<le> length bs then Ok (sub bs offset n) else Panicked)"
  by (simp add: copy_range_def slice_def copy_from_slice_def sub_def)

definition INDEX_ENTRY_LEN :: u16 where
  "INDEX_ENTRY_LEN = 48"

definition DICT_HEADER_SIZE :: nat where
  "DICT_HEADER_SIZE = 44"

record dict_header =
  dh_entry_count :: u32
  dh_flags :: u32
  dh_index_entry_len :: u16
  dh_value_hash_algorithm :: u16
  dh_payload_length :: u64
  dh_reserved :: bytes

definition dict_header_serialize :: "dict_header \<Rightarrow> bytes" where
  "dict_header_serialize e =
     (let buf = replicate DICT_HEADER_SIZE 0;
          buf = copy_at buf 0 (le_bytes 4 (dh_entry_count e));
          buf = copy_at buf 4 (le_bytes 4 (dh_flags e));
          buf = copy_at buf 8 (le_bytes 2 (dh_index_entry_len e));
          buf = copy_at buf 10 (le_bytes 2 (dh_value_hash_algorithm e));
          buf = copy_at buf 12 (le_bytes 8 (dh_payload_length e))
      in copy_at buf 20 (dh_reserved e))"

definition dict_header_parse :: "bytes \<Rightarrow> dict_header res" where
  "dict_header_parse bs =
     (if length bs < DICT_HEADER_SIZE then Fail BufferTooShort
      else
        and_then (read_u32_le_checked bs 0) (\<lambda>entry_count'.
        and_then (read_u32_le_checked bs 4) (\<lambda>flags'.
        and_then (read_u16_le_checked bs 8) (\<lambda>index_entry_len'.
        if index_entry_len' \<noteq> INDEX_ENTRY_LEN then Fail (BadSection (''index_entry_len is '' @ decimal (unat index_entry_len') @ '', expected '' @ decimal (unat INDEX_ENTRY_LEN)))
        else
        and_then (read_u16_le_checked bs 10) (\<lambda>value_hash_algorithm'.
        if 2 < value_hash_algorithm' then Fail (BadSection (''unknown value_hash_algorithm '' @ decimal (unat value_hash_algorithm')))
        else
        and_then (read_u64_le_checked bs 12) (\<lambda>payload_length'.
        and_then (copy_range 24 bs 20) (\<lambda>reserved'.
        if list_ex (\<lambda>b. b \<noteq> 0) reserved' then Fail ReservedNotZero
        else
        Ok \<lparr>dh_entry_count = entry_count',
          dh_flags = flags',
          dh_index_entry_len = index_entry_len',
          dh_value_hash_algorithm = value_hash_algorithm',
          dh_payload_length = payload_length',
          dh_reserved = reserved'\<rparr>)))))))"

definition dict_header_wf :: "dict_header \<Rightarrow> bool" where
  "dict_header_wf e \<longleftrightarrow> dh_index_entry_len e = INDEX_ENTRY_LEN \<and>
     \<not> 2 < dh_value_hash_algorithm e \<and>
     \<not> list_ex (\<lambda>b. b \<noteq> 0) (dh_reserved e) \<and>
     length (dh_reserved e) = 24"

lemma dict_header_serialize_eq:
  "length (dh_reserved e) = 24 \<Longrightarrow> dict_header_serialize e = le_bytes 4 (dh_entry_count e) @
     le_bytes 4 (dh_flags e) @
     le_bytes 2 (dh_index_entry_len e) @
     le_bytes 2 (dh_value_hash_algorithm e) @
     le_bytes 8 (dh_payload_length e) @
     dh_reserved e"
  unfolding dict_header_serialize_def DICT_HEADER_SIZE_def
  by (simp add: fill_simps del: append_assoc)

lemma dict_header_parse_reads:
  assumes "44 \<le> length bs"
  shows "dict_header_parse bs = (
        if (of_le (sub bs 8 2) :: u16) \<noteq> INDEX_ENTRY_LEN then Fail (BadSection (''index_entry_len is '' @ decimal (unat (of_le (sub bs 8 2) :: u16)) @ '', expected '' @ decimal (unat INDEX_ENTRY_LEN)))
        else
        if 2 < (of_le (sub bs 10 2) :: u16) then Fail (BadSection (''unknown value_hash_algorithm '' @ decimal (unat (of_le (sub bs 10 2) :: u16))))
        else
        if list_ex (\<lambda>b. b \<noteq> 0) (sub bs 20 24 :: bytes) then Fail ReservedNotZero
        else
        Ok \<lparr>dh_entry_count = of_le (sub bs 0 4),
          dh_flags = of_le (sub bs 4 4),
          dh_index_entry_len = of_le (sub bs 8 2),
          dh_value_hash_algorithm = of_le (sub bs 10 2),
          dh_payload_length = of_le (sub bs 12 8),
          dh_reserved = sub bs 20 24\<rparr>)"
proof -
  have r: "read_u32_le_checked bs 0 = (Ok (of_le (sub bs 0 4)) :: u32 res)"
    "read_u32_le_checked bs 4 = (Ok (of_le (sub bs 4 4)) :: u32 res)"
    "read_u16_le_checked bs 8 = (Ok (of_le (sub bs 8 2)) :: u16 res)"
    "read_u16_le_checked bs 10 = (Ok (of_le (sub bs 10 2)) :: u16 res)"
    "read_u64_le_checked bs 12 = (Ok (of_le (sub bs 12 8)) :: u64 res)"
    "copy_range 24 bs 20 = (Ok (sub bs 20 24) :: bytes res)"
    using assms by (simp_all add: wire_simps usize_limit_def sub_sub_0 index_Ok nth_sub_0 copy_range_eq)
  have n: "\<not> length bs < 44" using assms by simp
  show ?thesis
    unfolding dict_header_parse_def DICT_HEADER_SIZE_def if_not_P [OF n]  and_then_simps r ..
qed

interpretation dict_header: exact_fixed dict_header_serialize dict_header_parse 44 dict_header_wf
proof
  fix e :: dict_header and rest bs :: bytes
  have lens: "length (dh_reserved e) = 24" if "dict_header_wf e"
    using that unfolding dict_header_wf_def by blast+
  show "length (dict_header_serialize e) = 44" if "dict_header_wf e" by (simp add: dict_header_serialize_eq lens [OF that])
  show "dict_header_parse (dict_header_serialize e @ rest) = Ok e" if w: "dict_header_wf e"
  proof -
    let ?s = "dict_header_serialize e @ rest"
    note eq = dict_header_serialize_eq [OF lens [OF w]]
    note fs = w [unfolded dict_header_wf_def]
    have g: "sub ?s 0 4 = le_bytes 4 (dh_entry_count e)"
      "sub ?s 4 4 = le_bytes 4 (dh_flags e)"
      "sub ?s 8 2 = le_bytes 2 (dh_index_entry_len e)"
      "sub ?s 10 2 = le_bytes 2 (dh_value_hash_algorithm e)"
      "sub ?s 12 8 = le_bytes 8 (dh_payload_length e)"
      "sub ?s 20 24 = dh_reserved e"
      using lens [OF w] by (simp_all add: eq sub_def nth_append)
    have "44 \<le> length ?s" using lens [OF w] by (simp add: eq)
    then show ?thesis using fs by (simp add: dict_header_parse_reads g)
  qed
  have short: "dict_header_parse bs = Fail BufferTooShort" if "length bs < 44"
    using that by (simp add: dict_header_parse_def DICT_HEADER_SIZE_def)
  show "no_panic (dict_header_parse bs)"
    using short by (cases "length bs < 44") (auto simp: dict_header_parse_reads intro!: no_panic_intros)
  assume q: "dict_header_parse bs = Ok e"
  then have l: "44 \<le> length bs" using short by (cases "length bs < 44") auto
  from q have f: "dh_entry_count e = of_le (sub bs 0 4)"
    "dh_flags e = of_le (sub bs 4 4)"
    "dh_index_entry_len e = of_le (sub bs 8 2)"
    "dh_value_hash_algorithm e = of_le (sub bs 10 2)"
    "dh_payload_length e = of_le (sub bs 12 8)"
    "dh_reserved e = sub bs 20 24"
    and wf: "dict_header_wf e"
    using l by (auto simp: dict_header_parse_reads dict_header_wf_def ok_iffs length_sub split: if_splits)
  have "dict_header_serialize e = sub bs 0 4 @ sub bs 4 4 @ sub bs 8 2 @ sub bs 10 2 @ sub bs 12 8 @ sub bs 20 24"
    unfolding dict_header_serialize_eq [OF lens [OF wf]] f using l by (simp add: le_bytes_of_le length_sub sub_singleton)
  also have "\<dots> = sub bs 0 44" by (simp add: sub_join sub_join_assoc)
  finally show "dict_header_wf e \<and> 44 \<le> length bs \<and> dict_header_serialize e = take 44 bs" using wf l by (simp add: sub_def)
qed simp

definition DICT_INDEX_ENTRY_SIZE :: nat where
  "DICT_INDEX_ENTRY_SIZE = 48"

record dict_entry =
  de_value_tag :: u16
  de_storage_class :: u8
  de_flags :: u8
  de_inline_len :: u8
  de_reserved0 :: bytes
  de_inline_data :: bytes
  de_payload_offset :: u64
  de_payload_length :: u32
  de_canonical_hash64 :: u64
  de_reserved1 :: u32

definition dict_entry_serialize :: "dict_entry \<Rightarrow> bytes" where
  "dict_entry_serialize e =
     (let buf = replicate DICT_INDEX_ENTRY_SIZE 0;
          buf = copy_at buf 0 (le_bytes 2 (de_value_tag e));
          buf = copy_at buf 2 [de_storage_class e];
          buf = copy_at buf 3 [de_flags e];
          buf = copy_at buf 4 [de_inline_len e];
          buf = copy_at buf 5 (de_reserved0 e);
          buf = copy_at buf 8 (de_inline_data e);
          buf = copy_at buf 24 (le_bytes 8 (de_payload_offset e));
          buf = copy_at buf 32 (le_bytes 4 (de_payload_length e));
          buf = copy_at buf 36 (le_bytes 8 (de_canonical_hash64 e))
      in copy_at buf 44 (le_bytes 4 (de_reserved1 e)))"

definition dict_entry_parse :: "bytes \<Rightarrow> dict_entry res" where
  "dict_entry_parse bs =
     (if length bs < DICT_INDEX_ENTRY_SIZE then Fail BufferTooShort
      else
        and_then (read_u16_le_checked bs 0) (\<lambda>value_tag'.
        and_then (index bs 2) (\<lambda>storage_class'.
        and_then (index bs 3) (\<lambda>flags'.
        and_then (index bs 4) (\<lambda>inline_len'.
        and_then (copy_range 3 bs 5) (\<lambda>reserved0'.
        if list_ex (\<lambda>b. b \<noteq> 0) reserved0' then Fail ReservedNotZero
        else
        and_then (copy_range 16 bs 8) (\<lambda>inline_data'.
        and_then (read_u64_le_checked bs 24) (\<lambda>payload_offset'.
        and_then (read_u32_le_checked bs 32) (\<lambda>payload_length'.
        and_then (read_u64_le_checked bs 36) (\<lambda>canonical_hash64'.
        and_then (read_u32_le_checked bs 44) (\<lambda>reserved1'.
        if reserved1' \<noteq> 0 then Fail ReservedNotZero
        else
        if value_tag_from value_tag' = None then Fail (BadSection (''unknown value_tag '' @ decimal (unat value_tag') @ '' in dictionary index entry''))
        else
        if storage_class_from storage_class' = None then Fail (BadSection (''unknown storage_class '' @ decimal (unat storage_class') @ '' in dictionary index entry''))
        else
        if length inline_data' < unat inline_len' then Fail (BadSection (''inline_len '' @ decimal (unat inline_len') @ '' exceeds inline_data capacity (16)''))
        else
        Ok \<lparr>de_value_tag = value_tag',
          de_storage_class = storage_class',
          de_flags = flags',
          de_inline_len = inline_len',
          de_reserved0 = reserved0',
          de_inline_data = inline_data',
          de_payload_offset = payload_offset',
          de_payload_length = payload_length',
          de_canonical_hash64 = canonical_hash64',
          de_reserved1 = reserved1'\<rparr>)))))))))))"

definition dict_entry_wf :: "dict_entry \<Rightarrow> bool" where
  "dict_entry_wf e \<longleftrightarrow> \<not> list_ex (\<lambda>b. b \<noteq> 0) (de_reserved0 e) \<and>
     de_reserved1 e = 0 \<and>
     value_tag_from (de_value_tag e) \<noteq> None \<and>
     storage_class_from (de_storage_class e) \<noteq> None \<and>
     unat (de_inline_len e) \<le> 16 \<and>
     length (de_reserved0 e) = 3 \<and>
     length (de_inline_data e) = 16"

lemma dict_entry_serialize_eq:
  "length (de_reserved0 e) = 3 \<Longrightarrow> length (de_inline_data e) = 16 \<Longrightarrow> dict_entry_serialize e = le_bytes 2 (de_value_tag e) @
     [de_storage_class e] @
     [de_flags e] @
     [de_inline_len e] @
     de_reserved0 e @
     de_inline_data e @
     le_bytes 8 (de_payload_offset e) @
     le_bytes 4 (de_payload_length e) @
     le_bytes 8 (de_canonical_hash64 e) @
     le_bytes 4 (de_reserved1 e)"
  unfolding dict_entry_serialize_def DICT_INDEX_ENTRY_SIZE_def
  by (simp add: fill_simps del: append_assoc) (simp only: append_assoc append_Cons append_Nil)?

lemma dict_entry_parse_reads:
  assumes "48 \<le> length bs"
  shows "dict_entry_parse bs = (
        if list_ex (\<lambda>b. b \<noteq> 0) (sub bs 5 3 :: bytes) then Fail ReservedNotZero
        else
        if (of_le (sub bs 44 4) :: u32) \<noteq> 0 then Fail ReservedNotZero
        else
        if value_tag_from (of_le (sub bs 0 2) :: u16) = None then Fail (BadSection (''unknown value_tag '' @ decimal (unat (of_le (sub bs 0 2) :: u16)) @ '' in dictionary index entry''))
        else
        if storage_class_from (bs ! 2 :: u8) = None then Fail (BadSection (''unknown storage_class '' @ decimal (unat (bs ! 2 :: u8)) @ '' in dictionary index entry''))
        else
        if length (sub bs 8 16 :: bytes) < unat (bs ! 4 :: u8) then Fail (BadSection (''inline_len '' @ decimal (unat (bs ! 4 :: u8)) @ '' exceeds inline_data capacity (16)''))
        else
        Ok \<lparr>de_value_tag = of_le (sub bs 0 2),
          de_storage_class = bs ! 2,
          de_flags = bs ! 3,
          de_inline_len = bs ! 4,
          de_reserved0 = sub bs 5 3,
          de_inline_data = sub bs 8 16,
          de_payload_offset = of_le (sub bs 24 8),
          de_payload_length = of_le (sub bs 32 4),
          de_canonical_hash64 = of_le (sub bs 36 8),
          de_reserved1 = of_le (sub bs 44 4)\<rparr>)"
proof -
  have r: "read_u16_le_checked bs 0 = (Ok (of_le (sub bs 0 2)) :: u16 res)"
    "index bs 2 = (Ok (bs ! 2) :: u8 res)"
    "index bs 3 = (Ok (bs ! 3) :: u8 res)"
    "index bs 4 = (Ok (bs ! 4) :: u8 res)"
    "copy_range 3 bs 5 = (Ok (sub bs 5 3) :: bytes res)"
    "copy_range 16 bs 8 = (Ok (sub bs 8 16) :: bytes res)"
    "read_u64_le_checked bs 24 = (Ok (of_le (sub bs 24 8)) :: u64 res)"
    "read_u32_le_checked bs 32 = (Ok (of_le (sub bs 32 4)) :: u32 res)"
    "read_u64_le_checked bs 36 = (Ok (of_le (sub bs 36 8)) :: u64 res)"
    "read_u32_le_checked bs 44 = (Ok (of_le (sub bs 44 4)) :: u32 res)"
    using assms by (simp_all add: wire_simps usize_limit_def sub_sub_0 index_Ok nth_sub_0 copy_range_eq)
  have n: "\<not> length bs < 48" using assms by simp
  show ?thesis
    unfolding dict_entry_parse_def DICT_INDEX_ENTRY_SIZE_def if_not_P [OF n]  and_then_simps r ..
qed

interpretation dict_entry: exact_fixed dict_entry_serialize dict_entry_parse 48 dict_entry_wf
proof
  fix e :: dict_entry and rest bs :: bytes
  have lens: "length (de_reserved0 e) = 3" "length (de_inline_data e) = 16" if "dict_entry_wf e"
    using that unfolding dict_entry_wf_def by blast+
  show "length (dict_entry_serialize e) = 48" if "dict_entry_wf e" by (simp add: dict_entry_serialize_eq lens [OF that])
  show "dict_entry_parse (dict_entry_serialize e @ rest) = Ok e" if w: "dict_entry_wf e"
  proof -
    let ?s = "dict_entry_serialize e @ rest"
    note eq = dict_entry_serialize_eq [OF lens [OF w]]
    note fs = w [unfolded dict_entry_wf_def]
    have g: "sub ?s 0 2 = le_bytes 2 (de_value_tag e)"
      "?s ! 2 = de_storage_class e"
      "?s ! 3 = de_flags e"
      "?s ! 4 = de_inline_len e"
      "sub ?s 5 3 = de_reserved0 e"
      "sub ?s 8 16 = de_inline_data e"
      "sub ?s 24 8 = le_bytes 8 (de_payload_offset e)"
      "sub ?s 32 4 = le_bytes 4 (de_payload_length e)"
      "sub ?s 36 8 = le_bytes 8 (de_canonical_hash64 e)"
      "sub ?s 44 4 = le_bytes 4 (de_reserved1 e)"
      using lens [OF w] by (simp_all add: eq sub_def nth_append)
    have "48 \<le> length ?s" using lens [OF w] by (simp add: eq)
    then show ?thesis using fs by (simp add: dict_entry_parse_reads g)
  qed
  have short: "dict_entry_parse bs = Fail BufferTooShort" if "length bs < 48"
    using that by (simp add: dict_entry_parse_def DICT_INDEX_ENTRY_SIZE_def)
  show "no_panic (dict_entry_parse bs)"
    using short by (cases "length bs < 48") (auto simp: dict_entry_parse_reads intro!: no_panic_intros)
  assume q: "dict_entry_parse bs = Ok e"
  then have l: "48 \<le> length bs" using short by (cases "length bs < 48") auto
  from q have f: "de_value_tag e = of_le (sub bs 0 2)"
    "de_storage_class e = bs ! 2"
    "de_flags e = bs ! 3"
    "de_inline_len e = bs ! 4"
    "de_reserved0 e = sub bs 5 3"
    "de_inline_data e = sub bs 8 16"
    "de_payload_offset e = of_le (sub bs 24 8)"
    "de_payload_length e = of_le (sub bs 32 4)"
    "de_canonical_hash64 e = of_le (sub bs 36 8)"
    "de_reserved1 e = of_le (sub bs 44 4)"
    and wf: "dict_entry_wf e"
    using l by (auto simp: dict_entry_parse_reads dict_entry_wf_def ok_iffs length_sub split: if_splits)
  have "dict_entry_serialize e = sub bs 0 2 @ sub bs 2 1 @ sub bs 3 1 @ sub bs 4 1 @ sub bs 5 3 @ sub bs 8 16 @ sub bs 24 8 @ sub bs 32 4 @ sub bs 36 8 @ sub bs 44 4"
    unfolding dict_entry_serialize_eq [OF lens [OF wf]] f using l by (simp add: le_bytes_of_le length_sub sub_singleton)
  also have "\<dots> = sub bs 0 48" by (simp add: sub_join sub_join_assoc)
  finally show "dict_entry_wf e \<and> 48 \<le> length bs \<and> dict_entry_serialize e = take 48 bs" using wf l by (simp add: sub_def)
qed simp

definition validate_payload_bounds :: "dict_entry \<Rightarrow> u64 \<Rightarrow> unit res" where
  "validate_payload_bounds e payload_total_len =
     and_then (ok_or ArithOverflow (checked_add_word (de_payload_offset e) (ucast (de_payload_length e)))) (\<lambda>end'.
     if payload_total_len < end' then Fail OffsetRange else Ok ())"

text \<open>\<^verbatim>\<open>json\<close> is the parser the canonical validator uses.\<close>

definition dict_value_tag :: "dict_entry \<Rightarrow> value_tag res" where
  "dict_value_tag e = ok_or (BadSection ''invalid value tag'') (value_tag_from (de_value_tag e))"

definition dict_storage_class :: "dict_entry \<Rightarrow> storage_class res" where
  "dict_storage_class e = ok_or (BadSection ''invalid storage class'') (storage_class_from (de_storage_class e))"

definition validate_dictionary_entry :: "(bytes \<Rightarrow> 'j option) \<Rightarrow> dict_entry \<Rightarrow> bytes \<Rightarrow> u64 \<Rightarrow> unit res" where
  "validate_dictionary_entry json e payload_section payload_total_len =
     and_then (validate_payload_bounds e payload_total_len) (\<lambda>_.
     and_then (dict_storage_class e) (\<lambda>class.
     case class of
       SC_Inline \<Rightarrow>
         if de_payload_length e \<noteq> 0 then Fail (BadSection ''inline storage must not use payload bytes'')
         else
           and_then (slice (de_inline_data e) 0 (unat (de_inline_len e))) (\<lambda>bs.
           and_then (dict_value_tag e) (\<lambda>tag. validate_canonical_payload json tag bs))
     | SC_Payload \<Rightarrow>
         if de_inline_len e \<noteq> 0 then Fail (BadSection ''payload storage must not use inline bytes'')
         else
           and_then (read_range_checked payload_section (unat (de_payload_offset e)) (unat (de_payload_length e))) (\<lambda>bs.
           and_then (dict_value_tag e) (\<lambda>tag. validate_canonical_payload json tag bs))
     | SC_Redacted \<Rightarrow>
         if value_tag_from (de_value_tag e) = Some VT_Null then Fail (BadSection ''redacted value must not be null'')
         else Ok ()))"

datatype dictionary_value = RawBytes bytes | RedactedPresent

definition decode_dictionary_entry :: "dict_entry \<Rightarrow> bytes \<Rightarrow> dictionary_value res" where
  "decode_dictionary_entry e payload_section =
     and_then (dict_storage_class e) (\<lambda>class.
     case class of
       SC_Redacted \<Rightarrow> Ok RedactedPresent
     | SC_Inline \<Rightarrow> map_ok RawBytes (slice (de_inline_data e) 0 (unat (de_inline_len e)))
     | SC_Payload \<Rightarrow>
         map_ok RawBytes (read_range_checked payload_section (unat (de_payload_offset e)) (unat (de_payload_length e))))"

section \<open>The lazy view\<close>

record dict_view =
  dv_header :: dict_header
  dv_index_section :: bytes
  dv_payload_section :: bytes

definition view_parse :: "bytes \<Rightarrow> bytes \<Rightarrow> dict_view res" where
  "view_parse index_section payload_section =
     (if length index_section < DICT_HEADER_SIZE then Fail BufferTooShort
      else
        and_then (slice index_section 0 DICT_HEADER_SIZE) (\<lambda>head.
        and_then (dict_header_parse head) (\<lambda>header.
        and_then (ok_or ArithOverflow (checked_mul (unat (dh_entry_count header)) (unat (dh_index_entry_len header)))) (\<lambda>entries_bytes.
        and_then (ok_or ArithOverflow (checked_add DICT_HEADER_SIZE entries_bytes)) (\<lambda>expected.
        if length index_section \<noteq> expected then Fail (BadSection ''dictionary index section length mismatch'')
        else if length payload_section \<noteq> unat (dh_payload_length header)
        then Fail (BadSection ''dictionary payload section length mismatch'')
        else Ok \<lparr>dv_header = header, dv_index_section = index_section, dv_payload_section = payload_section\<rparr>)))))"

definition view_len :: "dict_view \<Rightarrow> u32" where
  "view_len v = dh_entry_count (dv_header v)"

definition view_get_entry :: "dict_view \<Rightarrow> u32 \<Rightarrow> dict_entry res" where
  "view_get_entry v file_code =
     (if dh_entry_count (dv_header v) \<le> file_code then Fail BadFileCode
      else
        and_then (ok_or ArithOverflow (checked_mul (unat file_code) DICT_INDEX_ENTRY_SIZE)) (\<lambda>rel.
        and_then (ok_or ArithOverflow (checked_add DICT_HEADER_SIZE rel)) (\<lambda>off.
        and_then (slice (dv_index_section v) off (off + DICT_INDEX_ENTRY_SIZE)) dict_entry_parse)))"

definition view_validate_all :: "(bytes \<Rightarrow> 'j option) \<Rightarrow> dict_view \<Rightarrow> unit res" where
  "view_validate_all json v =
     map_ok (\<lambda>_. ()) (try_map (\<lambda>code.
       and_then (view_get_entry v (of_nat code)) (\<lambda>e.
       validate_dictionary_entry json e (dv_payload_section v) (dh_payload_length (dv_header v))))
       [0..<unat (dh_entry_count (dv_header v))])"

definition view_decode_value :: "dict_view \<Rightarrow> u32 \<Rightarrow> dictionary_value res" where
  "view_decode_value v file_code =
     and_then (view_get_entry v file_code) (\<lambda>e. decode_dictionary_entry e (dv_payload_section v))"

section \<open>The dictionary\<close>

record file_dictionary =
  fd_header :: dict_header
  fd_entries :: "dict_entry list"
  fd_payload :: bytes

definition dictionary_parse :: "(bytes \<Rightarrow> 'j option) \<Rightarrow> bytes \<Rightarrow> bytes \<Rightarrow> file_dictionary res" where
  "dictionary_parse json index_section payload_section =
     and_then (view_parse index_section payload_section) (\<lambda>view.
     and_then (view_validate_all json view) (\<lambda>_.
     and_then (try_map (\<lambda>code. view_get_entry view (of_nat code)) [0..<unat (dh_entry_count (dv_header view))]) (\<lambda>entries.
     Ok \<lparr>fd_header = dv_header view, fd_entries = entries, fd_payload = payload_section\<rparr>)))"

definition dictionary_get_entry :: "file_dictionary \<Rightarrow> u32 \<Rightarrow> dict_entry res" where
  "dictionary_get_entry d file_code = ok_or BadFileCode (get (fd_entries d) (unat file_code))"

definition dictionary_decode_value :: "file_dictionary \<Rightarrow> u32 \<Rightarrow> dictionary_value res" where
  "dictionary_decode_value d file_code =
     and_then (dictionary_get_entry d file_code) (\<lambda>e. decode_dictionary_entry e (fd_payload d))"

section \<open>Keys\<close>

text \<open>The derived order: first the tag, then the canonical bytes.\<close>

datatype file_dictionary_key = DictKey (dk_value_tag: u16) (dk_canonical: bytes)

instantiation file_dictionary_key :: linorder
begin

definition less_eq_file_dictionary_key :: "file_dictionary_key \<Rightarrow> file_dictionary_key \<Rightarrow> bool" where
  "less_eq_file_dictionary_key a b \<longleftrightarrow> dk_value_tag a < dk_value_tag b \<or>
     dk_value_tag a = dk_value_tag b \<and> dk_canonical a \<le> dk_canonical b"

definition less_file_dictionary_key :: "file_dictionary_key \<Rightarrow> file_dictionary_key \<Rightarrow> bool" where
  "less_file_dictionary_key a b \<longleftrightarrow> dk_value_tag a < dk_value_tag b \<or>
     dk_value_tag a = dk_value_tag b \<and> dk_canonical a < dk_canonical b"

instance
  by standard (auto simp: less_eq_file_dictionary_key_def less_file_dictionary_key_def intro: file_dictionary_key.expand)

end

text \<open>
  The name of a logical type in a message (derived \<^verbatim>\<open>Debug\<close>), and the rendering of a UTF-8
  error, are parameters.
\<close>

definition key_from_logical_bytes ::
    "(logical_type \<Rightarrow> string) \<Rightarrow> (bytes \<Rightarrow> string) \<Rightarrow> (bytes \<Rightarrow> 'j option) \<Rightarrow> logical_type \<Rightarrow> bytes \<Rightarrow> file_dictionary_key res" where
  "key_from_logical_bytes name utf8_error json logical value' =
     and_then
       (if logical = LT_Utf8 then
          if utf8_valid value' then Ok (CV_Utf8 value')
          else Fail (BadSection (''invalid UTF-8 dictionary value: '' @ utf8_error value'))
        else if logical = LT_Binary then Ok (CV_Bytes value')
        else Fail (BadSchema (''logical type '' @ name logical @ '' is not eligible for FileCode dictionary synthesis'')))
       (\<lambda>v. map_ok (DictKey (as_value_tag (value_tag_of v))) (encode_value json v))"

section \<open>Assigning file codes\<close>

text \<open>
  A \<^verbatim>\<open>BTreeMap\<close> is the list of its pairs in key order. The loop of
  \<^verbatim>\<open>build_file_dictionary\<close> collects entries and payload bytes.
\<close>

fun build_entries :: "nat \<Rightarrow> bytes \<Rightarrow> (file_dictionary_key \<times> u32) list \<Rightarrow> (dict_entry list \<times> bytes) res" where
  "build_entries expected_code payload [] = Ok ([], payload)"
| "build_entries expected_code payload ((key, assigned_code) # rest) =
     (if \<not> expected_code < 2 ^ 32 then Fail ArithOverflow
      else if assigned_code \<noteq> of_nat expected_code then Fail BadFileCode
      else
        let n = length (dk_canonical key) in
        and_then
          (if n \<le> 16 then
             Ok (copy_at (replicate 16 0) 0 (dk_canonical key), as_storage_class SC_Inline, of_nat n, 0, 0, payload)
           else if \<not> n < 2 ^ 32 then Fail ArithOverflow
           else Ok (replicate 16 0, as_storage_class SC_Payload, 0, of_nat (length payload), of_nat n, payload @ dk_canonical key))
          (\<lambda>(inline_data, storage_class, inline_len, payload_offset, payload_length, payload).
          map_ok (\<lambda>(es, p).
            (\<lparr>de_value_tag = dk_value_tag key, de_storage_class = storage_class, de_flags = 0, de_inline_len = inline_len,
              de_reserved0 = replicate 3 0, de_inline_data = inline_data, de_payload_offset = payload_offset,
              de_payload_length = payload_length, de_canonical_hash64 = 0, de_reserved1 = 0\<rparr> # es, p))
            (build_entries (Suc expected_code) payload rest)))"

definition build_file_dictionary :: "(bytes \<Rightarrow> 'j option) \<Rightarrow> (file_dictionary_key \<times> u32) list \<Rightarrow> file_dictionary res" where
  "build_file_dictionary json assignments =
     (if \<not> length assignments < 2 ^ 32 then Fail (BadSchema ''dictionary entry count exceeds u32::MAX'')
      else
        and_then (build_entries 0 [] assignments) (\<lambda>(entries, payload).
        let dictionary = \<lparr>fd_header = \<lparr>dh_entry_count = of_nat (length assignments), dh_flags = 0,
              dh_index_entry_len = INDEX_ENTRY_LEN, dh_value_hash_algorithm = 0,
              dh_payload_length = of_nat (length payload), dh_reserved = replicate 24 0\<rparr>,
              fd_entries = entries, fd_payload = payload\<rparr>;
            index = dict_header_serialize (fd_header dictionary) @ concat (map dict_entry_serialize (fd_entries dictionary)) in
        and_then (dictionary_parse json index (fd_payload dictionary)) (\<lambda>_. Ok dictionary)))"

record dictionary_encoding =
  fe_dictionary :: file_dictionary
  fe_assignments :: "(file_dictionary_key \<times> u32) list"

definition from_keys :: "(bytes \<Rightarrow> 'j option) \<Rightarrow> file_dictionary_key list \<Rightarrow> dictionary_encoding res" where
  "from_keys json keys =
     (let unique = sorted_list_of_set (set keys) in
      and_then (try_map (\<lambda>(code, key).
          if \<not> code < 2 ^ 32 then Fail (BadSchema ''dictionary entry count exceeds u32::MAX'')
          else Ok (key, of_nat code :: u32)) (enumerate 0 unique)) (\<lambda>assignments.
      and_then (build_file_dictionary json assignments) (\<lambda>dictionary.
      Ok \<lparr>fe_dictionary = dictionary, fe_assignments = assignments\<rparr>)))"

definition file_code_for_key :: "dictionary_encoding \<Rightarrow> file_dictionary_key \<Rightarrow> u32 res" where
  "file_code_for_key enc key = ok_or BadFileCode (map_of (fe_assignments enc) key)"

definition file_code_for_logical_bytes ::
    "(logical_type \<Rightarrow> string) \<Rightarrow> (bytes \<Rightarrow> string) \<Rightarrow> (bytes \<Rightarrow> 'j option) \<Rightarrow> dictionary_encoding \<Rightarrow> logical_type \<Rightarrow> bytes \<Rightarrow> u32 res" where
  "file_code_for_logical_bytes name utf8_error json enc logical value' =
     and_then (key_from_logical_bytes name utf8_error json logical value') (file_code_for_key enc)"

text \<open>The estimate of a candidate; \<open>unique\<close> are the keys of the set.\<close>

fun candidate_payload_len :: "nat \<Rightarrow> file_dictionary_key list \<Rightarrow> nat res" where
  "candidate_payload_len total' [] = Ok total'"
| "candidate_payload_len total' (key # keys) =
     (if length (dk_canonical key) \<le> 16 then candidate_payload_len total' keys
      else and_then (ok_or ArithOverflow (checked_add total' (length (dk_canonical key)))) (\<lambda>t. candidate_payload_len t keys))"

definition file_dictionary_candidate_len :: "file_dictionary_key list \<Rightarrow> nat \<Rightarrow> nat res" where
  "file_dictionary_candidate_len unique row_count =
     and_then (ok_or ArithOverflow (checked_mul (length unique) DICT_INDEX_ENTRY_SIZE)) (\<lambda>index_len.
     and_then (ok_or ArithOverflow (checked_mul row_count 4)) (\<lambda>key_len.
     and_then (candidate_payload_len 0 unique) (\<lambda>payload_len.
     and_then (ok_or ArithOverflow (checked_add DICT_HEADER_SIZE index_len)) (\<lambda>total'.
     and_then (ok_or ArithOverflow (checked_add total' payload_len)) (\<lambda>total'.
     ok_or ArithOverflow (checked_add total' key_len))))))"

section \<open>Reading a dictionary\<close>

lemma no_panic_validate_canonical [no_panic_intros, simp]: "no_panic (validate_canonical_payload json t bs)"
  using validate_bounds(2) [of bs json t]
  by (auto simp: validate_canonical_payload_def ensures_def intro!: no_panic_intros)

text \<open>What an entry stands for in a payload section, and when it is valid there.\<close>

definition entry_value :: "dict_entry \<Rightarrow> bytes \<Rightarrow> dictionary_value" where
  "entry_value e payload =
     (if de_storage_class e = 2 then RedactedPresent
      else if de_storage_class e = 0 then RawBytes (take (unat (de_inline_len e)) (de_inline_data e))
      else RawBytes (sub payload (unat (de_payload_offset e)) (unat (de_payload_length e))))"

definition entry_valid :: "(bytes \<Rightarrow> 'j option) \<Rightarrow> bytes \<Rightarrow> dict_entry \<Rightarrow> bool" where
  "entry_valid json payload e \<longleftrightarrow> dict_entry_wf e \<and>
     unat (de_payload_offset e) + unat (de_payload_length e) \<le> length payload \<and>
     (case entry_value e payload of
        RedactedPresent \<Rightarrow> value_tag_from (de_value_tag e) \<noteq> Some VT_Null
      | RawBytes bs \<Rightarrow> (if de_storage_class e = 0 then de_payload_length e = 0 else de_inline_len e = 0) \<and>
          (\<exists>t. value_tag_from (de_value_tag e) = Some t \<and> validate_canonical_payload json t bs = Ok ()))"

lemma validate_payload_bounds_iff:
  "validate_payload_bounds e n = Inr () \<longleftrightarrow> unat (de_payload_offset e) + unat (de_payload_length e) \<le> unat n"
proof -
  have "unat (ucast (de_payload_length e) :: u64) = unat (de_payload_length e)" by simp
  then show ?thesis
    using unat_u64_less [of n]
    by (auto simp: validate_payload_bounds_def ok_iffs checked_add_word_eq_Some_iff word_less_nat_alt unat_add_no_overflow)
qed

lemma storage_class_cases:
  assumes "dict_entry_wf e"
  obtains "dict_storage_class e = Inr SC_Inline" "de_storage_class e = 0"
    | "dict_storage_class e = Inr SC_Payload" "de_storage_class e = 1"
    | "dict_storage_class e = Inr SC_Redacted" "de_storage_class e = 2"
proof -
  obtain k where k: "storage_class_from (de_storage_class e) = Some k" using assms by (auto simp: dict_entry_wf_def)
  then have "de_storage_class e = as_storage_class k" by (simp add: storage_class_from_iff)
  then show ?thesis using that k by (cases k) (simp_all add: dict_storage_class_def)
qed

lemma dict_value_tag_Ok: "dict_entry_wf e \<Longrightarrow> dict_value_tag e = Inr (the (value_tag_from (de_value_tag e)))"
  by (auto simp: dict_value_tag_def dict_entry_wf_def)

lemma entry_range:
  assumes "unat (de_payload_offset e) + unat (de_payload_length e) \<le> length payload" "length payload < usize_limit"
  shows "read_range_checked payload (unat (de_payload_offset e)) (unat (de_payload_length e)) =
    Inr (sub payload (unat (de_payload_offset e)) (unat (de_payload_length e)))"
  using assms by (simp add: read_range_checked_eq)

lemma validate_dictionary_entry_iff:
  assumes w: "dict_entry_wf e" and l: "length payload = unat n" and lim: "length payload < usize_limit"
  shows "validate_dictionary_entry json e payload n = Inr () \<longleftrightarrow> entry_valid json payload e"
    and "no_panic (validate_dictionary_entry json e payload n)"
proof -
  have i: "slice (de_inline_data e) 0 (unat (de_inline_len e)) = (Inr (take (unat (de_inline_len e)) (de_inline_data e)) :: bytes res)"
    using w by (simp add: dict_entry_wf_def slice_Ok sub_def)
  obtain t where t: "value_tag_from (de_value_tag e) = Some t" using w by (auto simp: dict_entry_wf_def)
  note tag = dict_value_tag_Ok [OF w]
  show "validate_dictionary_entry json e payload n = Inr () \<longleftrightarrow> entry_valid json payload e"
  proof (cases "unat (de_payload_offset e) + unat (de_payload_length e) \<le> length payload")
    case True
    then have b: "validate_payload_bounds e n = Inr ()" by (simp add: validate_payload_bounds_iff l)
    note r = entry_range [OF True lim]
    show ?thesis
      by (rule storage_class_cases [OF w])
        (simp_all add: validate_dictionary_entry_def entry_valid_def entry_value_def b r i t tag w True)
  next
    case False
    then have "validate_payload_bounds e n \<noteq> Inr ()" by (simp add: validate_payload_bounds_iff l)
    then show ?thesis using False by (simp add: validate_dictionary_entry_def entry_valid_def ok_iffs)
  qed
  have "no_panic (validate_payload_bounds e n)"
    by (auto simp: validate_payload_bounds_def intro!: no_panic_intros)
  then show "no_panic (validate_dictionary_entry json e payload n)"
    by (rule_tac storage_class_cases [OF w])
      (auto simp: validate_dictionary_entry_def i tag ok_iffs read_range_checked_eq intro!: no_panic_intros)
qed

lemma decode_entry:
  assumes "entry_valid json payload e" "length payload < usize_limit"
  shows "decode_dictionary_entry e payload = Ok (entry_value e payload)"
proof -
  have w: "dict_entry_wf e" and b: "unat (de_payload_offset e) + unat (de_payload_length e) \<le> length payload"
    using assms by (simp_all add: entry_valid_def)
  have i: "slice (de_inline_data e) 0 (unat (de_inline_len e)) = (Inr (take (unat (de_inline_len e)) (de_inline_data e)) :: bytes res)"
    using w by (simp add: dict_entry_wf_def slice_Ok sub_def)
  show ?thesis
    by (rule storage_class_cases [OF w])
      (simp_all add: decode_dictionary_entry_def entry_value_def entry_range [OF b assms(2)] i)
qed

section \<open>What the parsers accept\<close>

text \<open>The two sections a dictionary is written as.\<close>

definition dictionary_index :: "file_dictionary \<Rightarrow> bytes" where
  "dictionary_index d = dict_header_serialize (fd_header d) @ concat (map dict_entry_serialize (fd_entries d))"

definition dictionary_wf :: "(bytes \<Rightarrow> 'j option) \<Rightarrow> file_dictionary \<Rightarrow> bool" where
  "dictionary_wf json d \<longleftrightarrow> dict_header_wf (fd_header d) \<and>
     length (fd_entries d) = unat (dh_entry_count (fd_header d)) \<and>
     length (fd_payload d) = unat (dh_payload_length (fd_header d)) \<and>
     list_all (entry_valid json (fd_payload d)) (fd_entries d)"

lemma view_parse_iff:
  "view_parse isec payload = Inr v \<longleftrightarrow>
     dv_index_section v = isec \<and> dv_payload_section v = payload \<and> dict_header_wf (dv_header v) \<and>
     take 44 isec = dict_header_serialize (dv_header v) \<and>
     length isec = 44 + 48 * unat (dh_entry_count (dv_header v)) \<and>
     length payload = unat (dh_payload_length (dv_header v))"
proof (cases "length isec < 44")
  case True
  then show ?thesis by (simp add: view_parse_def DICT_HEADER_SIZE_def)
next
  case False
  have s: "slice isec 0 44 = (Inr (take 44 isec) :: bytes res)" using False by (simp add: slice_Ok sub_def)
  have h: "dict_header_parse (take 44 isec) = Inr h \<longleftrightarrow> dict_header_wf h \<and> dict_header_serialize h = take 44 isec" for h
    using False dict_header.dec_exact_iff [of "take 44 isec" h] by simp
  have c: "checked_mul (unat n) (unat INDEX_ENTRY_LEN) = Some (48 * unat n)" "checked_add 44 (48 * unat n) = Some (44 + 48 * unat n)" for n :: u32
    using unat_u32_less [of n] by (simp_all add: INDEX_ENTRY_LEN_def checked_mul_def checked_add_def usize_limit_def)
  have w: "dict_header_wf h \<Longrightarrow> dh_index_entry_len h = INDEX_ENTRY_LEN" for h by (simp add: dict_header_wf_def)
  show ?thesis
    using False by (cases v) (auto simp: view_parse_def DICT_HEADER_SIZE_def s ok_iffs h w c)
qed

lemma view_get_entry_eq:
  "view_get_entry v code =
     (if dh_entry_count (dv_header v) \<le> code then Fail BadFileCode
      else and_then (slice (dv_index_section v) (44 + unat code * 48) (44 + unat code * 48 + 48)) dict_entry_parse)"
proof -
  have "checked_mul (unat code) 48 = Some (unat code * 48)" "checked_add 44 (unat code * 48) = Some (44 + unat code * 48)"
    using unat_u32_less [of code] by (simp_all add: checked_mul_def checked_add_def usize_limit_def)
  then show ?thesis by (simp add: view_get_entry_def DICT_INDEX_ENTRY_SIZE_def DICT_HEADER_SIZE_def)
qed

lemma view_entries:
  "try_map (\<lambda>code. view_get_entry v (of_nat code)) [0..<unat (dh_entry_count (dv_header v))] =
     parse_array dict_entry_parse 48 (unat (dh_entry_count (dv_header v))) (dv_index_section v) 44"
  unfolding parse_array_def
proof (rule try_map_cong [OF refl])
  fix i assume "i \<in> set [0..<unat (dh_entry_count (dv_header v))]"
  then have i: "i < unat (dh_entry_count (dv_header v))" by simp
  have "unat (of_nat i :: u32) = i"
    by (rule unat_of_nat_less) (use i unat_u32_less [of "dh_entry_count (dv_header v)"] in simp)
  then show "view_get_entry v (of_nat i) =
      and_then (slice (dv_index_section v) (44 + i * 48) (44 + i * 48 + 48)) dict_entry_parse"
    using i by (simp add: view_get_entry_eq word_le_nat_alt)
qed

lemma view_wf:
  assumes "view_parse isec payload = Inr v"
  shows "no_panic (view_get_entry v code)"
    and "parse_array dict_entry_parse 48 (unat (dh_entry_count (dv_header v))) isec 44 = Inr es \<longleftrightarrow>
      length es = unat (dh_entry_count (dv_header v)) \<and> list_all dict_entry_wf es \<and> concat (map dict_entry_serialize es) = drop 44 isec"
proof -
  have l: "length isec = 44 + 48 * unat (dh_entry_count (dv_header v))" "dv_index_section v = isec"
    using assms by (simp_all add: view_parse_iff)
  have "44 + unat code * 48 + 48 \<le> length isec" if "\<not> dh_entry_count (dv_header v) \<le> code"
    using that unfolding l by (simp add: word_le_nat_alt)
  then show "no_panic (view_get_entry v code)"
    by (auto simp: view_get_entry_eq l(2) slice_Ok dict_entry.dec_no_panic intro!: no_panic_intros)
  show "parse_array dict_entry_parse 48 (unat (dh_entry_count (dv_header v))) isec 44 = Inr es \<longleftrightarrow>
      length es = unat (dh_entry_count (dv_header v)) \<and> list_all dict_entry_wf es \<and> concat (map dict_entry_serialize es) = drop 44 isec"
    using l(1) by (subst dict_entry.parse_array_iff [unfolded]) (simp_all add: sub_def mult.commute)
qed

lemma view_validate_all_iff:
  assumes v: "view_parse isec payload = Inr v" and lim: "length payload < usize_limit"
    and es: "try_map (\<lambda>code. view_get_entry v (of_nat code)) [0..<unat (dh_entry_count (dv_header v))] = Inr es"
    and w: "list_all dict_entry_wf es"
  shows "view_validate_all json v = Inr () \<longleftrightarrow> list_all (entry_valid json payload) es"
proof -
  let ?n = "unat (dh_entry_count (dv_header v))"
  have l: "length es = ?n" using try_map_length [OF es] by simp
  have p: "dv_payload_section v = payload" "length payload = unat (dh_payload_length (dv_header v))"
    using v by (simp_all add: view_parse_iff)
  have g: "view_get_entry v (of_nat i) = Inr (es ! i)" if "i < ?n" for i using try_map_nth [OF es] that by simp
  have e: "and_then (view_get_entry v (of_nat i)) (\<lambda>e. validate_dictionary_entry json e (dv_payload_section v) (dh_payload_length (dv_header v))) = Inr u
      \<longleftrightarrow> entry_valid json payload (es ! i)" if "i < ?n" for i u
    using that g l w validate_dictionary_entry_iff(1) [OF _ p(2) lim, of "es ! i" json]
    by (simp add: p list_all_length unit_eq)
  have "view_validate_all json v = Inr () \<longleftrightarrow>
      (\<exists>us. try_map (\<lambda>code. and_then (view_get_entry v (of_nat code)) (\<lambda>e.
        validate_dictionary_entry json e (dv_payload_section v) (dh_payload_length (dv_header v)))) [0..<?n] = Inr us)"
    by (auto simp: view_validate_all_def ok_iffs)
  also have "\<dots> \<longleftrightarrow> list_all (entry_valid json payload) es"
  proof
    assume "\<exists>us. try_map (\<lambda>code. and_then (view_get_entry v (of_nat code)) (\<lambda>e.
        validate_dictionary_entry json e (dv_payload_section v) (dh_payload_length (dv_header v)))) [0..<?n] = Inr us"
    then obtain us where us: "try_map (\<lambda>code. and_then (view_get_entry v (of_nat code)) (\<lambda>e.
        validate_dictionary_entry json e (dv_payload_section v) (dh_payload_length (dv_header v)))) [0..<?n] = Inr us" by blast
    show "list_all (entry_valid json payload) es"
      using try_map_nth [OF us] e l by (auto simp: list_all_length)
  next
    assume a: "list_all (entry_valid json payload) es"
    have "try_map (\<lambda>code. and_then (view_get_entry v (of_nat code)) (\<lambda>e.
        validate_dictionary_entry json e (dv_payload_section v) (dh_payload_length (dv_header v)))) [0..<?n] = Inr (map (\<lambda>_. ()) [0..<?n])"
      using a e l by (intro try_map_Ok) (auto simp: list_all_length)
    then show "\<exists>us. try_map (\<lambda>code. and_then (view_get_entry v (of_nat code)) (\<lambda>e.
        validate_dictionary_entry json e (dv_payload_section v) (dh_payload_length (dv_header v)))) [0..<?n] = Inr us" by blast
  qed
  finally show ?thesis .
qed

lemma dictionary_parse_iff:
  assumes lim: "length payload < usize_limit"
  shows "dictionary_parse json isec payload = Inr d \<longleftrightarrow> isec = dictionary_index d \<and> payload = fd_payload d \<and> dictionary_wf json d"
proof
  assume "dictionary_parse json isec payload = Inr d"
  then obtain v es where v: "view_parse isec payload = Inr v" and va: "view_validate_all json v = Inr ()"
    and es: "try_map (\<lambda>code. view_get_entry v (of_nat code)) [0..<unat (dh_entry_count (dv_header v))] = Inr es"
    and d: "d = \<lparr>fd_header = dv_header v, fd_entries = es, fd_payload = payload\<rparr>"
    by (auto simp: dictionary_parse_def ok_iffs)
  have vi: "dv_index_section v = isec" "dict_header_wf (dv_header v)" "take 44 isec = dict_header_serialize (dv_header v)"
    "length payload = unat (dh_payload_length (dv_header v))" using v by (simp_all add: view_parse_iff)
  have p: "length es = unat (dh_entry_count (dv_header v))" "list_all dict_entry_wf es" "concat (map dict_entry_serialize es) = drop 44 isec"
    using es view_wf(2) [OF v] unfolding view_entries vi(1) by simp_all
  have "list_all (entry_valid json payload) es" by (rule view_validate_all_iff [THEN iffD1, OF v lim es p(2) va])
  then have "dictionary_wf json d" using vi p by (simp add: dictionary_wf_def d)
  moreover have "isec = dictionary_index d" using p vi(3) append_take_drop_id [of 44 isec] by (simp add: dictionary_index_def d)
  ultimately show "isec = dictionary_index d \<and> payload = fd_payload d \<and> dictionary_wf json d" by (simp add: d)
next
  assume a: "isec = dictionary_index d \<and> payload = fd_payload d \<and> dictionary_wf json d"
  let ?v = "\<lparr>dv_header = fd_header d, dv_index_section = isec, dv_payload_section = payload\<rparr>"
  have w: "dict_header_wf (fd_header d)" "list_all (entry_valid json payload) (fd_entries d)" "list_all dict_entry_wf (fd_entries d)"
    using a by (auto simp: dictionary_wf_def entry_valid_def list_all_iff)
  have l: "length (dict_header_serialize (fd_header d)) = 44" by (rule dict_header.enc_length [OF w(1)])
  have "length (concat (map dict_entry_serialize (fd_entries d))) = 48 * length (fd_entries d)"
    using dict_entry.array_length [of "fd_entries d"] w(3) by (simp add: list_all_iff)
  then have v: "view_parse isec payload = Inr ?v"
    using a l w(1) by (simp add: view_parse_iff dictionary_index_def dictionary_wf_def)
  have es: "try_map (\<lambda>code. view_get_entry ?v (of_nat code)) [0..<unat (dh_entry_count (dv_header ?v))] = Inr (fd_entries d)"
    using view_wf(2) [OF v, of "fd_entries d"] a l w(3) unfolding view_entries by (simp add: dictionary_index_def dictionary_wf_def)
  have "view_validate_all json ?v = Inr ()" by (rule view_validate_all_iff [THEN iffD2, OF v lim es w(3,2)])
  then show "dictionary_parse json isec payload = Inr d"
    using v es a by (simp add: dictionary_parse_def)
qed

lemma no_panic_dictionary_parse [no_panic_intros, simp]:
  assumes lim: "length payload < usize_limit"
  shows "no_panic (dictionary_parse json isec payload)"
proof -
  have v: "no_panic (view_parse isec payload)"
    using dict_header.dec_no_panic
    by (auto simp: view_parse_def DICT_HEADER_SIZE_def slice_Ok ok_iffs intro!: no_panic_intros)
  have all: "no_panic (view_validate_all json v)" if p: "view_parse isec payload = Inr v" for v
  proof -
    have pl: "dv_payload_section v = payload" "length payload = unat (dh_payload_length (dv_header v))"
      using p by (simp_all add: view_parse_iff)
    have "dict_entry_wf e" if "view_get_entry v code = Inr e" for code e
      using that dict_entry.dec_Ok by (auto simp: view_get_entry_eq ok_iffs split: if_splits)
    then have "no_panic (validate_dictionary_entry json e payload (dh_payload_length (dv_header v)))"
      if "view_get_entry v code = Inr e" for code e
      using that by (intro validate_dictionary_entry_iff(2) [OF _ pl(2) lim]) blast
    then show ?thesis
      using view_wf(1) [OF p] unfolding view_validate_all_def pl(1) by (intro no_panic_intros)
  qed
  show ?thesis
    unfolding dictionary_parse_def using v all view_wf(1) by (auto intro!: no_panic_intros)
qed

text \<open>The two ways to look a file code up.\<close>

lemma dictionary_lookup:
  assumes "dictionary_parse json isec payload = Inr d" and lim: "length payload < usize_limit"
  shows "dictionary_decode_value d code =
      (if dh_entry_count (fd_header d) \<le> code then Fail BadFileCode else Ok (entry_value (fd_entries d ! unat code) payload))"
    "view_parse isec payload = Inr \<lparr>dv_header = fd_header d, dv_index_section = isec, dv_payload_section = payload\<rparr>"
    "view_decode_value \<lparr>dv_header = fd_header d, dv_index_section = isec, dv_payload_section = payload\<rparr> code = dictionary_decode_value d code"
proof -
  obtain v es where v: "view_parse isec payload = Inr v"
    and te: "try_map (\<lambda>code. view_get_entry v (of_nat code)) [0..<unat (dh_entry_count (dv_header v))] = Inr es"
    and dd: "d = \<lparr>fd_header = dv_header v, fd_entries = es, fd_payload = payload\<rparr>"
    using assms(1) by (auto simp: dictionary_parse_def ok_iffs)
  have d: "dv_header v = fd_header d" "fd_payload d = payload" and ee: "es = fd_entries d" by (simp_all add: dd)
  note es = te [unfolded ee]
  have veq: "v = \<lparr>dv_header = fd_header d, dv_index_section = isec, dv_payload_section = payload\<rparr>"
    using v d by (cases v) (simp add: view_parse_iff)
  have w: "dictionary_wf json d" using assms by (simp add: dictionary_parse_iff)
  then have l: "length (fd_entries d) = unat (dh_entry_count (fd_header d))" by (simp add: dictionary_wf_def)
  have dec: "decode_dictionary_entry (fd_entries d ! unat code) payload = Ok (entry_value (fd_entries d ! unat code) payload)"
    if "\<not> dh_entry_count (fd_header d) \<le> code"
    using that w l d lim by (intro decode_entry [of json]) (simp_all add: dictionary_wf_def list_all_length word_le_nat_alt)
  have g: "view_get_entry v code = Inr (fd_entries d ! unat code)" if "\<not> dh_entry_count (fd_header d) \<le> code"
    using try_map_nth [OF es, of "unat code"] that by (simp add: d word_le_nat_alt)
  show a: "dictionary_decode_value d code =
      (if dh_entry_count (fd_header d) \<le> code then Fail BadFileCode else Ok (entry_value (fd_entries d ! unat code) payload))"
    using dec l by (auto simp: dictionary_decode_value_def dictionary_get_entry_def get_def d word_le_nat_alt)
  show "view_parse isec payload = Inr \<lparr>dv_header = fd_header d, dv_index_section = isec, dv_payload_section = payload\<rparr>"
    using v veq by simp
  show "view_decode_value \<lparr>dv_header = fd_header d, dv_index_section = isec, dv_payload_section = payload\<rparr> code = dictionary_decode_value d code"
    unfolding veq [symmetric] a using g dec d by (simp add: view_decode_value_def view_get_entry_eq veq)
qed

section \<open>What the writer builds\<close>

text \<open>The entries and the payload of a list of keys; \<open>off\<close> is where the payload of the first one starts.\<close>

definition stored_len :: "file_dictionary_key \<Rightarrow> nat" where
  "stored_len k = (if length (dk_canonical k) \<le> 16 then 0 else length (dk_canonical k))"

definition key_payload :: "file_dictionary_key list \<Rightarrow> bytes" where
  "key_payload ks = concat (map (\<lambda>k. if length (dk_canonical k) \<le> 16 then [] else dk_canonical k) ks)"

definition key_entry :: "nat \<Rightarrow> file_dictionary_key \<Rightarrow> dict_entry" where
  "key_entry off k =
     (let n = length (dk_canonical k); short = (n \<le> 16) in
      \<lparr>de_value_tag = dk_value_tag k, de_storage_class = (if short then 0 else 1), de_flags = 0,
       de_inline_len = (if short then of_nat n else 0), de_reserved0 = replicate 3 0,
       de_inline_data = (if short then dk_canonical k @ replicate (16 - n) 0 else replicate 16 0),
       de_payload_offset = (if short then 0 else of_nat off), de_payload_length = (if short then 0 else of_nat n),
       de_canonical_hash64 = 0, de_reserved1 = 0\<rparr>)"

fun key_entries :: "nat \<Rightarrow> file_dictionary_key list \<Rightarrow> dict_entry list" where
  "key_entries off [] = []"
| "key_entries off (k # ks) = key_entry off k # key_entries (off + stored_len k) ks"

lemma length_key_entries [simp]: "length (key_entries off ks) = length ks"
  by (induction off ks rule: key_entries.induct) simp_all

lemma build_entries_eq:
  "i + length ks \<le> 2 ^ 32 \<Longrightarrow> list_all (\<lambda>k. length (dk_canonical k) < 2 ^ 32) ks \<Longrightarrow>
   build_entries i payload (map (\<lambda>(j, k). (k, of_nat j)) (enumerate i ks)) =
     Inr (key_entries (length payload) ks, payload @ key_payload ks)"
proof (induction ks arbitrary: i payload)
  case (Cons k ks)
  have l: "length (payload @ (if length (dk_canonical k) \<le> 16 then [] else dk_canonical k)) = length payload + stored_len k"
    by (simp add: stored_len_def)
  have c: "copy_at (replicate 16 0) 0 (dk_canonical k) = dk_canonical k @ replicate (16 - length (dk_canonical k)) (0 :: u8)"
    if "length (dk_canonical k) \<le> 16" using that by (simp add: copy_at_def)
  have ih: "build_entries (Suc i) (payload @ (if length (dk_canonical k) \<le> 16 then [] else dk_canonical k))
      (map (\<lambda>(j, k). (k, of_nat j)) (enumerate (Suc i) ks)) =
      Inr (key_entries (length payload + stored_len k) ks, payload @ key_payload (k # ks))"
    using Cons.IH [of "Suc i" "payload @ (if length (dk_canonical k) \<le> 16 then [] else dk_canonical k)"] Cons.prems
    by (cases "length (dk_canonical k) \<le> 16") (simp_all add: stored_len_def key_payload_def)
  show ?case
    using Cons.prems ih c by (simp add: key_entry_def Let_def split: if_splits)
qed (simp add: key_payload_def)

definition key_valid :: "(bytes \<Rightarrow> 'j option) \<Rightarrow> file_dictionary_key \<Rightarrow> bool" where
  "key_valid json k \<longleftrightarrow> length (dk_canonical k) < 2 ^ 32 \<and>
     (\<exists>t. value_tag_from (dk_value_tag k) = Some t \<and> validate_canonical_payload json t (dk_canonical k) = Ok ())"

lemma key_entry_value:
  assumes "sub p off (stored_len k) = (if length (dk_canonical k) \<le> 16 then [] else dk_canonical k)"
    and "off + stored_len k \<le> length p" "length p < usize_limit" "length (dk_canonical k) < 2 ^ 32"
  shows "entry_value (key_entry off k) p = RawBytes (dk_canonical k)"
proof -
  have "unat (of_nat off :: u64) = off" "unat (of_nat (length (dk_canonical k)) :: u32) = length (dk_canonical k)"
    using assms by (simp_all add: unat_of_nat_less usize_limit_def)
  moreover have "unat (of_nat (length (dk_canonical k)) :: u8) = length (dk_canonical k)" if "length (dk_canonical k) \<le> 16"
    using that by (simp add: unat_of_nat_less)
  ultimately show ?thesis
    using assms(1) by (cases "length (dk_canonical k) \<le> 16") (simp_all add: entry_value_def key_entry_def Let_def stored_len_def)
qed

lemma key_entry_valid:
  assumes "sub p off (stored_len k) = (if length (dk_canonical k) \<le> 16 then [] else dk_canonical k)"
    and "off + stored_len k \<le> length p" "length p < usize_limit" and v: "key_valid json k"
  shows "entry_valid json p (key_entry off k)"
proof -
  have l: "length (dk_canonical k) < 2 ^ 32" using v by (simp add: key_valid_def)
  note e = key_entry_value [OF assms(1-3) l]
  have u: "unat (of_nat off :: u64) = off" "unat (of_nat (length (dk_canonical k)) :: u32) = length (dk_canonical k)"
    using assms l by (simp_all add: unat_of_nat_less usize_limit_def)
  moreover have b: "unat (of_nat (length (dk_canonical k)) :: u8) = length (dk_canonical k)" if "length (dk_canonical k) \<le> 16"
    using that by (simp add: unat_of_nat_less)
  have w: "dict_entry_wf (key_entry off k)"
    using v b by (auto simp: dict_entry_wf_def key_entry_def Let_def key_valid_def storage_class_from_def list_ex_iff)
  show ?thesis
    unfolding entry_valid_def e using w u b assms(2) v
    by (auto simp: key_entry_def Let_def key_valid_def stored_len_def)
qed

lemma key_entries_valid:
  "p = pre @ key_payload ks \<Longrightarrow> length p < usize_limit \<Longrightarrow> list_all (key_valid json) ks \<Longrightarrow>
   list_all (entry_valid json p) (key_entries (length pre) ks) \<and>
   map (\<lambda>e. (de_value_tag e, entry_value e p)) (key_entries (length pre) ks) =
     map (\<lambda>k. (dk_value_tag k, RawBytes (dk_canonical k))) ks"
proof (induction ks arbitrary: pre)
  case (Cons k ks)
  let ?b = "if length (dk_canonical k) \<le> 16 then [] else dk_canonical k"
  have p: "p = (pre @ ?b) @ key_payload ks" using Cons.prems(1) by (simp add: key_payload_def)
  have l: "length ?b = stored_len k" by (simp add: stored_len_def)
  have ih: "list_all (entry_valid json p) (key_entries (length (pre @ ?b)) ks) \<and>
      map (\<lambda>e. (de_value_tag e, entry_value e p)) (key_entries (length (pre @ ?b)) ks) =
      map (\<lambda>k. (dk_value_tag k, RawBytes (dk_canonical k))) ks"
    using Cons.prems by (intro Cons.IH [OF p]) simp_all
  have s: "sub p (length pre) (stored_len k) = ?b" "length pre + stored_len k \<le> length p"
    using l by (simp_all add: p sub_def)
  have v: "key_valid json k" "length (dk_canonical k) < 2 ^ 32" using Cons.prems(3) by (simp_all add: key_valid_def)
  have t: "de_value_tag (key_entry (length pre) k) = dk_value_tag k" by (simp add: key_entry_def Let_def)
  show ?case
    using key_entry_valid [OF s Cons.prems(2) v(1)] key_entry_value [OF s Cons.prems(2) v(2)] ih
    by (simp only: key_entries.simps length_append l list.map list.pred_inject t)
qed simp

definition keys_dictionary :: "file_dictionary_key list \<Rightarrow> file_dictionary" where
  "keys_dictionary ks =
     \<lparr>fd_header = \<lparr>dh_entry_count = of_nat (length ks), dh_flags = 0, dh_index_entry_len = INDEX_ENTRY_LEN,
        dh_value_hash_algorithm = 0, dh_payload_length = of_nat (length (key_payload ks)), dh_reserved = replicate 24 0\<rparr>,
      fd_entries = key_entries 0 ks, fd_payload = key_payload ks\<rparr>"

lemma keys_dictionary_wf:
  assumes "length ks < 2 ^ 32" "length (key_payload ks) < usize_limit" "list_all (key_valid json) ks"
  shows "dictionary_wf json (keys_dictionary ks)"
proof -
  have "unat (of_nat (length ks) :: u32) = length ks" "unat (of_nat (length (key_payload ks)) :: u64) = length (key_payload ks)"
    using assms by (simp_all add: unat_of_nat_less usize_limit_def)
  then show ?thesis
    using key_entries_valid [of "key_payload ks" "[]" ks json] assms
    by (simp add: dictionary_wf_def keys_dictionary_def dict_header_wf_def list_ex_iff)
qed

lemma card_smaller:
  assumes "sorted_wrt (<) (xs :: 'a::linorder list)" "j < length xs"
  shows "card {x \<in> set xs. x < xs ! j} = j"
proof -
  have "x < xs ! j \<longleftrightarrow> x \<in> set (take j xs)" if "x \<in> set xs" for x
  proof -
    note m = that
    obtain i where i: "x = xs ! i" "i < length xs" using m unfolding in_set_conv_nth by blast
    have "xs ! i < xs ! j \<longleftrightarrow> i < j"
      using assms i(2) sorted_wrt_nth_less [OF assms(1)] by (metis linorder_neqE_nat order_less_asym order_less_irrefl)
    moreover have "x \<in> set (take j xs) \<longleftrightarrow> i < j"
      using assms i by (auto simp: in_set_conv_nth nth_eq_iff_index_eq strict_sorted_iff)
    ultimately show ?thesis using i by simp
  qed
  then have "{x \<in> set xs. x < xs ! j} = set (take j xs)" by (auto dest: in_set_takeD)
  moreover have "distinct (take j xs)" using assms(1) by (simp add: strict_sorted_iff distinct_take)
  ultimately show ?thesis using assms(2) by (simp add: distinct_card)
qed

lemma from_keys_eq:
  assumes "card (set keys) < 2 ^ 32" "list_all (key_valid json) (sorted_list_of_set (set keys))"
    and "length (key_payload (sorted_list_of_set (set keys))) < usize_limit"
  shows "from_keys json keys = Ok \<lparr>fe_dictionary = keys_dictionary (sorted_list_of_set (set keys)),
    fe_assignments = map (\<lambda>(j, k). (k, of_nat j)) (enumerate 0 (sorted_list_of_set (set keys)))\<rparr>"
proof -
  define ks where "ks = sorted_list_of_set (set keys)"
  have l: "length ks < 2 ^ 32" using assms(1) by (simp add: ks_def)
  have "try_map (\<lambda>(code, key). if \<not> code < 2 ^ 32 then Fail (BadSchema ''dictionary entry count exceeds u32::MAX'')
      else Ok (key, of_nat code :: u32)) (enumerate 0 ks) = Inr (map (\<lambda>(j, k). (k, of_nat j)) (enumerate 0 ks))"
    using l by (intro try_map_Ok) (auto simp: in_set_enumerate_eq)
  moreover have "build_entries 0 [] (map (\<lambda>(j, k). (k, of_nat j)) (enumerate 0 ks)) = Inr (key_entries 0 ks, key_payload ks)"
    using build_entries_eq [of 0 ks "[]"] l assms(2) by (simp add: ks_def key_valid_def list_all_iff)
  moreover have "dictionary_parse json (dictionary_index (keys_dictionary ks)) (key_payload ks) = Inr (keys_dictionary ks)"
    using keys_dictionary_wf [of ks json] l assms(2,3)
    by (subst dictionary_parse_iff) (simp_all add: ks_def [symmetric], simp add: keys_dictionary_def)
  ultimately show ?thesis
    unfolding from_keys_def Let_def ks_def [symmetric] build_file_dictionary_def
    using l by (simp add: dictionary_index_def keys_dictionary_def)
qed

lemma map_of_enumerate:
  "distinct ks \<Longrightarrow> j < length ks \<Longrightarrow> map_of (map (\<lambda>(j, k). (k, f j)) (enumerate 0 ks)) (ks ! j) = Some (f j)"
  by (intro map_of_is_SomeI) (auto simp: in_set_enumerate_eq split_beta comp_def intro!: image_eqI [of _ _ "(j, ks ! j)"])

lemma candidate_payload_len_eq:
  "t + length (key_payload ks) < usize_limit \<Longrightarrow> candidate_payload_len t ks = Ok (t + length (key_payload ks))"
proof (induction ks arbitrary: t)
  case (Cons k ks)
  then show ?case
    by (cases "length (dk_canonical k) \<le> 16") (simp_all add: key_payload_def checked_add_def add.assoc)
qed (simp add: key_payload_def)

lemma key_from_logical_bytes_valid:
  assumes "key_from_logical_bytes name utf8_error json logical bs = Ok k" "length bs < 2 ^ 31"
  shows "key_valid json k \<and> (dk_value_tag k = as_value_tag VT_Utf8 \<or> dk_value_tag k = as_value_tag VT_Binary) \<and>
    dk_canonical k = length_prefixed bs"
proof -
  define v where "v = (if logical = LT_Utf8 then CV_Utf8 bs else CV_Bytes bs)"
  have e: "encode_value json v = Ok (length_prefixed bs)" by (simp add: v_def encode_value.simps)
  have k: "k = DictKey (as_value_tag (value_tag_of v)) (length_prefixed bs)" and v: "cv_wf v"
    "value_tag_of v = VT_Utf8 \<or> value_tag_of v = VT_Binary"
    using assms(1) by (auto simp: key_from_logical_bytes_def v_def ok_iffs encode_value.simps cv_wf.simps split: if_splits)
  have len: "length (length_prefixed bs) < 2 ^ 32"
    using assms(2) encode_u64_leb128_length [of "of_nat (length bs)"] by (simp add: length_prefixed_def append_leb_Nil)
  have "validate_canonical_payload json (value_tag_of v) (length_prefixed bs) = Ok ()"
    using validate_encoded [of json v "length_prefixed bs" "[]"] e len v
    by (simp add: validate_canonical_payload_def usize_limit_def)
  then show ?thesis
    using v len by (auto simp: k key_valid_def value_tag_from_iff)
qed

text \<open>The estimate of a candidate is the size of the two sections built from it and four bytes per row.\<close>

lemma candidate_len_exact:
  assumes "length ks < 2 ^ 32" "list_all (\<lambda>k. length (dk_canonical k) < 2 ^ 32) ks"
    and "length (dictionary_index (keys_dictionary ks)) + length (key_payload ks) + 4 * rows < usize_limit"
    and "list_all dict_entry_wf (key_entries 0 ks)" "dict_header_wf (fd_header (keys_dictionary ks))"
  shows "file_dictionary_candidate_len ks rows = Ok (length (dictionary_index (keys_dictionary ks)) + length (key_payload ks) + 4 * rows)"
proof -
  have e: "length (dictionary_index (keys_dictionary ks)) = 44 + 48 * length ks"
    using dict_entry.array_length [of "key_entries 0 ks"] dict_header.enc_length [OF assms(5)] assms(4)
    by (simp add: dictionary_index_def keys_dictionary_def list_all_iff)
  show ?thesis
    using assms(3) unfolding e file_dictionary_candidate_len_def
    by (simp add: candidate_payload_len_eq checked_mul_def checked_add_def DICT_INDEX_ENTRY_SIZE_def DICT_HEADER_SIZE_def mult.commute)
qed

lemma keys_dictionary_decode:
  assumes "length ks < 2 ^ 32" "length (key_payload ks) < usize_limit" "list_all (key_valid json) ks" "j < length ks"
  shows "dictionary_decode_value (keys_dictionary ks) (of_nat j) = Ok (RawBytes (dk_canonical (ks ! j)))"
    "map_ok de_value_tag (dictionary_get_entry (keys_dictionary ks) (of_nat j)) = Ok (dk_value_tag (ks ! j))"
proof -
  have j: "unat (of_nat j :: u32) = j" using assms by (simp add: unat_of_nat_less)
  have v: "list_all (entry_valid json (key_payload ks)) (key_entries 0 ks)"
    and m: "map (\<lambda>e. (de_value_tag e, entry_value e (key_payload ks))) (key_entries 0 ks) =
      map (\<lambda>k. (dk_value_tag k, RawBytes (dk_canonical k))) ks"
    using key_entries_valid [of "key_payload ks" "[]" ks json] assms by simp_all
  have e: "de_value_tag (key_entries 0 ks ! j) = dk_value_tag (ks ! j)"
    "entry_value (key_entries 0 ks ! j) (key_payload ks) = RawBytes (dk_canonical (ks ! j))"
    using arg_cong [OF m, of "\<lambda>l. l ! j"] assms(4) by simp_all
  have g: "dictionary_get_entry (keys_dictionary ks) (of_nat j) = Ok (key_entries 0 ks ! j)"
    using assms(4) j by (simp add: dictionary_get_entry_def get_def keys_dictionary_def)
  have "decode_dictionary_entry (key_entries 0 ks ! j) (key_payload ks) = Ok (entry_value (key_entries 0 ks ! j) (key_payload ks))"
    using v assms(4) by (intro decode_entry [OF _ assms(2), of json]) (simp add: list_all_length)
  then show "dictionary_decode_value (keys_dictionary ks) (of_nat j) = Ok (RawBytes (dk_canonical (ks ! j)))"
    using g e by (simp add: dictionary_decode_value_def keys_dictionary_def)
  show "map_ok de_value_tag (dictionary_get_entry (keys_dictionary ks) (of_nat j)) = Ok (dk_value_tag (ks ! j))"
    using g e by simp
qed

definition example_keys :: "file_dictionary_key list" where
  "example_keys = [DictKey 12 [1, 98], DictKey 13 [1, 97], DictKey 12 [1, 97], DictKey 12 [1, 98]]"

lemma example_keys_facts:
  "sorted_list_of_set (set example_keys) = [DictKey 12 [1, 97], DictKey 12 [1, 98], DictKey 13 [1, 97]]"
  "card (set example_keys) = 3"
  "list_all (key_valid (\<lambda>_. None :: unit option)) example_keys"
proof -
  show s: "sorted_list_of_set (set example_keys) = [DictKey 12 [1, 97], DictKey 12 [1, 98], DictKey 13 [1, 97]]"
    unfolding sorted_list_of_set_sort_remdups by (simp add: example_keys_def less_eq_file_dictionary_key_def)
  have "card (set example_keys) = length (sorted_list_of_set (set example_keys))" by simp
  also have "\<dots> = 3" unfolding s by simp
  finally show "card (set example_keys) = 3" .
  have l: "length_prefixed [b] = [1, b]" for b
    by (simp add: length_prefixed_def append_leb_Nil) (subst encode_u64_leb128_unfold, simp)
  have k: "key_from_logical_bytes (\<lambda>_. []) (\<lambda>_. []) (\<lambda>_. None :: unit option) LT_Utf8 [97] = Ok (DictKey 12 [1, 97])"
    "key_from_logical_bytes (\<lambda>_. []) (\<lambda>_. []) (\<lambda>_. None :: unit option) LT_Utf8 [98] = Ok (DictKey 12 [1, 98])"
    "key_from_logical_bytes (\<lambda>_. []) (\<lambda>_. []) (\<lambda>_. None :: unit option) LT_Binary [97] = Ok (DictKey 13 [1, 97])"
    by (simp_all add: key_from_logical_bytes_def encode_value.simps l utf8_valid.simps)
  show "list_all (key_valid (\<lambda>_. None :: unit option)) example_keys"
    unfolding example_keys_def list.pred_inject
    by (intro conjI TrueI k [THEN key_from_logical_bytes_valid, THEN conjunct1]) simp_all
qed

section \<open>Properties\<close>

text \<open>
  C7: file codes. For any collection of valid keys, in any order and with repetitions,
  \<^verbatim>\<open>from_keys\<close> builds a dictionary that its own parser accepts; the code of a key is the
  number of distinct keys below it, so codes are dense, start at 0 and do not depend on the order
  of the input; a key that was not given has no code; and the code of a key decodes to its
  canonical bytes under its tag.
\<close>

theorem dictionary_codes:
  assumes "card (set keys) < 2 ^ 32" "list_all (key_valid json) keys"
    and "length (key_payload (sorted_list_of_set (set keys))) < usize_limit"
  shows "\<exists>enc. from_keys json keys = Ok enc \<and>
    dictionary_parse json (dictionary_index (fe_dictionary enc)) (fd_payload (fe_dictionary enc)) = Ok (fe_dictionary enc) \<and>
    (\<forall>key. file_code_for_key enc key =
      (if key \<in> set keys then Ok (of_nat (card {k \<in> set keys. k < key})) else Fail BadFileCode)) \<and>
    (\<forall>key \<in> set keys.
      dictionary_decode_value (fe_dictionary enc) (of_nat (card {k \<in> set keys. k < key})) = Ok (RawBytes (dk_canonical key)) \<and>
      map_ok de_value_tag (dictionary_get_entry (fe_dictionary enc) (of_nat (card {k \<in> set keys. k < key}))) = Ok (dk_value_tag key))"
proof -
  define ks where "ks = sorted_list_of_set (set keys)"
  have ks: "set ks = set keys" "sorted_wrt (<) ks" "distinct ks" "length ks < 2 ^ 32" "length (key_payload ks) < usize_limit"
    using assms by (simp_all add: ks_def strict_sorted_iff)
  have v: "list_all (key_valid json) ks" using assms(2) ks(1) by (simp add: list_all_iff)
  let ?enc = "\<lparr>fe_dictionary = keys_dictionary ks, fe_assignments = map (\<lambda>(j, k). (k, of_nat j :: u32)) (enumerate 0 ks)\<rparr>"
  have f: "from_keys json keys = Ok ?enc"
    unfolding ks_def using assms(1,3) v by (intro from_keys_eq) (simp_all add: ks_def)
  have p: "dictionary_parse json (dictionary_index (keys_dictionary ks)) (fd_payload (keys_dictionary ks)) = Ok (keys_dictionary ks)"
    using keys_dictionary_wf [OF ks(4,5) v] ks(5) by (subst dictionary_parse_iff) (simp_all add: keys_dictionary_def)
  have c: "file_code_for_key ?enc key = Ok (of_nat (card {k \<in> set keys. k < key})) \<and>
      dictionary_decode_value (keys_dictionary ks) (of_nat (card {k \<in> set keys. k < key})) = Ok (RawBytes (dk_canonical key)) \<and>
      map_ok de_value_tag (dictionary_get_entry (keys_dictionary ks) (of_nat (card {k \<in> set keys. k < key}))) = Ok (dk_value_tag key)"
    if "key \<in> set keys" for key
  proof -
    note m = that
    obtain j where j: "key = ks ! j" "j < length ks" using m unfolding ks(1) [symmetric] in_set_conv_nth by blast
    have "card {k \<in> set keys. k < key} = j" using card_smaller [OF ks(2) j(2)] by (simp add: ks(1) j(1))
    then show ?thesis
      using map_of_enumerate [OF ks(3) j(2), of "of_nat :: nat \<Rightarrow> u32"] keys_dictionary_decode [OF ks(4,5) v j(2)]
      by (simp add: file_code_for_key_def j(1))
  qed
  have "file_code_for_key ?enc key = Fail BadFileCode" if "key \<notin> set keys" for key
  proof -
    have "key \<notin> fst ` set (map (\<lambda>(j, k). (k, of_nat j :: u32)) (enumerate 0 ks))"
      using that ks(1) by (auto simp: in_set_enumerate_eq)
    then show ?thesis by (simp add: file_code_for_key_def map_of_eq_None_iff [THEN iffD2])
  qed
  then show ?thesis using f p c by (intro exI [of _ ?enc]) simp
qed

theorem dictionary_codes_witness:
  "\<exists>enc. from_keys (\<lambda>_. None :: unit option) example_keys = Ok enc \<and>
     file_code_for_key enc (DictKey 12 [1, 98]) = Ok 1 \<and> dictionary_decode_value (fe_dictionary enc) 1 = Ok (RawBytes [1, 98]) \<and>
     file_code_for_key enc (DictKey 12 [1, 99]) = Fail BadFileCode"
proof -
  have c: "{k \<in> set example_keys. k < DictKey 12 [1, 98]} = {DictKey 12 [1, 97]}"
    by (auto simp: example_keys_def less_file_dictionary_key_def)
  have m: "DictKey 12 [1, 98] \<in> set example_keys" "DictKey 12 [1, 99] \<notin> set example_keys" by (simp_all add: example_keys_def)
  obtain enc where e: "from_keys (\<lambda>_. None :: unit option) example_keys = Ok enc"
    and f: "\<forall>key. file_code_for_key enc key =
      (if key \<in> set example_keys then Ok (of_nat (card {k \<in> set example_keys. k < key})) else Fail BadFileCode)"
    and d: "\<forall>key \<in> set example_keys.
      dictionary_decode_value (fe_dictionary enc) (of_nat (card {k \<in> set example_keys. k < key})) = Ok (RawBytes (dk_canonical key))"
    using dictionary_codes [of example_keys "\<lambda>_. None :: unit option"] example_keys_facts
    by (auto simp: key_payload_def usize_limit_def)
  show ?thesis
    using e f [rule_format, of "DictKey 12 [1, 98]"] f [rule_format, of "DictKey 12 [1, 99]"] bspec [OF d m(1)] m
    by (intro exI [of _ enc]) (simp add: c)
qed

text \<open>
  C23: the dictionary parser accepts exactly the two sections of a well-formed dictionary: a
  header of the fixed layout, as many entries as it counts and no byte more, and a payload
  section of the declared length, with every entry inside it, canonical under its tag, and stored
  in one place; redacted entries are never null. It never panics.
\<close>

theorem dictionary_parse_exact:
  assumes "length payload < usize_limit"
  shows "(dictionary_parse json isec payload = Ok d \<longleftrightarrow> isec = dictionary_index d \<and> payload = fd_payload d \<and> dictionary_wf json d) \<and>
    no_panic (dictionary_parse json isec payload)"
  by (simp add: dictionary_parse_iff assms)

theorem dictionary_parse_exact_witness:
  "dictionary_parse (\<lambda>_. None :: unit option) (dictionary_index (keys_dictionary [DictKey 12 [1, 97]])) [] =
     Ok (keys_dictionary [DictKey 12 [1, 97]])"
proof -
  have v: "list_all (key_valid (\<lambda>_. None :: unit option)) [DictKey 12 [1, 97]]"
    using example_keys_facts(3) by (simp add: example_keys_def)
  have "dictionary_wf (\<lambda>_. None :: unit option) (keys_dictionary [DictKey 12 [1, 97]])"
    by (rule keys_dictionary_wf [OF _ _ v]) (simp_all add: key_payload_def usize_limit_def)
  then show ?thesis
    by (subst dictionary_parse_exact [THEN conjunct1])
      (simp_all add: usize_limit_def, simp add: keys_dictionary_def key_payload_def)
qed

text \<open>
  lazy and eager lookups agree. On the sections of an accepted dictionary the lazy view and
  the parsed dictionary return the same value for every file code: the stored bytes of the
  entry, or the mark of a redacted value, for a code below the entry count, and an error for
  every other code; an accepted dictionary never fails to decode one of its codes.
\<close>

theorem dictionary_lookups_agree:
  assumes "dictionary_parse json isec payload = Ok d" "length payload < usize_limit"
  shows "dictionary_decode_value d code =
      (if dh_entry_count (fd_header d) \<le> code then Fail BadFileCode else Ok (entry_value (fd_entries d ! unat code) payload)) \<and>
    and_then (view_parse isec payload) (\<lambda>v. view_decode_value v code) = dictionary_decode_value d code"
  using dictionary_lookup [OF assms] by simp

theorem dictionary_lookups_agree_witness:
  "dictionary_decode_value (keys_dictionary [DictKey 12 [1, 97]]) 0 = Ok (RawBytes [1, 97]) \<and>
   and_then (view_parse (dictionary_index (keys_dictionary [DictKey 12 [1, 97]])) []) (\<lambda>v. view_decode_value v 1) = Fail BadFileCode"
proof -
  have v: "list_all (key_valid (\<lambda>_. None :: unit option)) [DictKey 12 [1, 97]]"
    using example_keys_facts(3) by (simp add: example_keys_def)
  have "dictionary_wf (\<lambda>_. None :: unit option) (keys_dictionary [DictKey 12 [1, 97]])"
    by (rule keys_dictionary_wf [OF _ _ v]) (simp_all add: key_payload_def usize_limit_def)
  then have p: "dictionary_parse (\<lambda>_. None :: unit option) (dictionary_index (keys_dictionary [DictKey 12 [1, 97]])) [] =
     Ok (keys_dictionary [DictKey 12 [1, 97]])"
    by (subst dictionary_parse_iff) (simp_all add: usize_limit_def, simp add: keys_dictionary_def key_payload_def)
  show ?thesis
    using dictionary_lookups_agree [OF p, of 0] dictionary_lookups_agree [OF p, of 1]
    by (simp add: usize_limit_def) (simp add: keys_dictionary_def entry_value_def key_entry_def)
qed

end
