(* ===== verification/Segments.thy ===== *)
theory Segments
  imports Page_Index Types "HOL-Library.Multiset"
begin

text \<open>
  Table segments and row morsels (\<^verbatim>\<open>segment.rs\<close>): the segment index and its row ranges, the
  segment header, the column directory, and the morsel directory with its layout rules.
\<close>

section \<open>Segment index entries\<close>

definition TABLE_SEGMENT_INDEX_ENTRY_LEN :: nat where
  "TABLE_SEGMENT_INDEX_ENTRY_LEN = 60"

record segment_index_entry =
  si_table_id :: u32
  si_segment_id :: u32
  si_row_start :: u64
  si_row_count :: u32
  si_morsel_count :: u32
  si_morsel_row_count :: u32
  si_column_count :: u32
  si_offset :: u64
  si_length :: u64
  si_stats_ref :: u32
  si_flags :: u32
  si_checksum :: u32

definition segment_index_entry_serialize :: "(bytes \<Rightarrow> u32) \<Rightarrow> segment_index_entry \<Rightarrow> bytes" where
  "segment_index_entry_serialize crc e =
     (let buf = replicate TABLE_SEGMENT_INDEX_ENTRY_LEN 0;
          buf = copy_at buf 0 (le_bytes 4 (si_table_id e));
          buf = copy_at buf 4 (le_bytes 4 (si_segment_id e));
          buf = copy_at buf 8 (le_bytes 8 (si_row_start e));
          buf = copy_at buf 16 (le_bytes 4 (si_row_count e));
          buf = copy_at buf 20 (le_bytes 4 (si_morsel_count e));
          buf = copy_at buf 24 (le_bytes 4 (si_morsel_row_count e));
          buf = copy_at buf 28 (le_bytes 4 (si_column_count e));
          buf = copy_at buf 32 (le_bytes 8 (si_offset e));
          buf = copy_at buf 40 (le_bytes 8 (si_length e));
          buf = copy_at buf 48 (le_bytes 4 (si_stats_ref e));
          buf = copy_at buf 52 (le_bytes 4 (si_flags e));
          c = crc buf
      in copy_at buf 56 (le_bytes 4 c))"

definition segment_index_entry_parse :: "(bytes \<Rightarrow> u32) \<Rightarrow> bytes \<Rightarrow> segment_index_entry res" where
  "segment_index_entry_parse crc bs =
     (if length bs < TABLE_SEGMENT_INDEX_ENTRY_LEN then Fail BufferTooShort
      else
        and_then (slice bs 0 TABLE_SEGMENT_INDEX_ENTRY_LEN) (\<lambda>bs.
        and_then (read_u32_le_checked bs 0) (\<lambda>table_id'.
        and_then (read_u32_le_checked bs 4) (\<lambda>segment_id'.
        and_then (read_u64_le_checked bs 8) (\<lambda>row_start'.
        and_then (read_u32_le_checked bs 16) (\<lambda>row_count'.
        and_then (read_u32_le_checked bs 20) (\<lambda>morsel_count'.
        and_then (read_u32_le_checked bs 24) (\<lambda>morsel_row_count'.
        and_then (read_u32_le_checked bs 28) (\<lambda>column_count'.
        and_then (read_u64_le_checked bs 32) (\<lambda>offset'.
        and_then (read_u64_le_checked bs 40) (\<lambda>length'.
        and_then (read_u32_le_checked bs 48) (\<lambda>stats_ref'.
        and_then (read_u32_le_checked bs 52) (\<lambda>flags'.
        and_then (read_u32_le_checked bs 56) (\<lambda>checksum'.
        let for_crc = copy_at bs 56 (replicate 4 0) in
        if crc for_crc \<noteq> checksum' then Fail ChecksumMismatch
        else Ok \<lparr>si_table_id = table_id',
          si_segment_id = segment_id',
          si_row_start = row_start',
          si_row_count = row_count',
          si_morsel_count = morsel_count',
          si_morsel_row_count = morsel_row_count',
          si_column_count = column_count',
          si_offset = offset',
          si_length = length',
          si_stats_ref = stats_ref',
          si_flags = flags',
          si_checksum = checksum'\<rparr>))))))))))))))"

definition segment_index_entry_prefix :: "segment_index_entry \<Rightarrow> bytes" where
  "segment_index_entry_prefix e = le_bytes 4 (si_table_id e) @
     le_bytes 4 (si_segment_id e) @
     le_bytes 8 (si_row_start e) @
     le_bytes 4 (si_row_count e) @
     le_bytes 4 (si_morsel_count e) @
     le_bytes 4 (si_morsel_row_count e) @
     le_bytes 4 (si_column_count e) @
     le_bytes 8 (si_offset e) @
     le_bytes 8 (si_length e) @
     le_bytes 4 (si_stats_ref e) @
     le_bytes 4 (si_flags e)"

definition segment_index_entry_sealed :: "(bytes \<Rightarrow> u32) \<Rightarrow> segment_index_entry \<Rightarrow> bool" where
  "segment_index_entry_sealed crc e \<longleftrightarrow> si_checksum e = crc (segment_index_entry_prefix e @ replicate 4 0)"

definition segment_index_entry_of :: "bytes \<Rightarrow> segment_index_entry" where
  "segment_index_entry_of bs = \<lparr>si_table_id = of_le (sub bs 0 4),
     si_segment_id = of_le (sub bs 4 4),
     si_row_start = of_le (sub bs 8 8),
     si_row_count = of_le (sub bs 16 4),
     si_morsel_count = of_le (sub bs 20 4),
     si_morsel_row_count = of_le (sub bs 24 4),
     si_column_count = of_le (sub bs 28 4),
     si_offset = of_le (sub bs 32 8),
     si_length = of_le (sub bs 40 8),
     si_stats_ref = of_le (sub bs 48 4),
     si_flags = of_le (sub bs 52 4),
     si_checksum = of_le (sub bs 56 4)\<rparr>"

lemma length_segment_index_entry_prefix [simp]: "length (segment_index_entry_prefix e) = 56"
  by (simp add: segment_index_entry_prefix_def)

lemma segment_index_entry_serialize_eq: "segment_index_entry_serialize crc e = segment_index_entry_prefix e @ le_bytes 4 (crc (segment_index_entry_prefix e @ replicate 4 0))"
  unfolding segment_index_entry_serialize_def TABLE_SEGMENT_INDEX_ENTRY_LEN_def segment_index_entry_prefix_def
  by (simp add: fill_simps del: append_assoc) (simp only: append_assoc append_Cons append_Nil)

lemma segment_index_entry_prefix_of: "60 \<le> length bs \<Longrightarrow> segment_index_entry_prefix (segment_index_entry_of bs) = sub bs 0 56"
  by (simp add: segment_index_entry_of_def segment_index_entry_prefix_def le_bytes_of_le length_sub sub_join sub_join_assoc)

lemma segment_index_entry_of_serialize: "segment_index_entry_sealed crc e \<Longrightarrow> segment_index_entry_of (segment_index_entry_serialize crc e @ rest) = e"
  unfolding segment_index_entry_sealed_def
  by (cases e) (simp add: segment_index_entry_of_def segment_index_entry_serialize_eq segment_index_entry_prefix_def sub_def)

lemma segment_index_entry_parse_iff:
  assumes "60 \<le> length bs"
  shows "segment_index_entry_parse crc bs = (if segment_index_entry_sealed crc (segment_index_entry_of bs) then Ok (segment_index_entry_of bs) else Fail ChecksumMismatch)"
proof -
  let ?b = "sub bs 0 60"
  have l: "length ?b = 60" using assms by (simp add: length_sub)
  have s: "slice bs 0 60 = (Ok ?b :: bytes res)" using assms by (simp add: slice_Ok)
  have r: "read_u32_le_checked ?b 0 = Ok (of_le (sub bs 0 4))"
    "read_u32_le_checked ?b 4 = Ok (of_le (sub bs 4 4))"
    "read_u64_le_checked ?b 8 = Ok (of_le (sub bs 8 8))"
    "read_u32_le_checked ?b 16 = Ok (of_le (sub bs 16 4))"
    "read_u32_le_checked ?b 20 = Ok (of_le (sub bs 20 4))"
    "read_u32_le_checked ?b 24 = Ok (of_le (sub bs 24 4))"
    "read_u32_le_checked ?b 28 = Ok (of_le (sub bs 28 4))"
    "read_u64_le_checked ?b 32 = Ok (of_le (sub bs 32 8))"
    "read_u64_le_checked ?b 40 = Ok (of_le (sub bs 40 8))"
    "read_u32_le_checked ?b 48 = Ok (of_le (sub bs 48 4))"
    "read_u32_le_checked ?b 52 = Ok (of_le (sub bs 52 4))"
    "read_u32_le_checked ?b 56 = Ok (of_le (sub bs 56 4))"
    using l by (simp_all add: wire_simps usize_limit_def sub_sub)
  have c: "copy_at ?b 56 (replicate 4 0) = segment_index_entry_prefix (segment_index_entry_of bs) @ replicate 4 0"
    using assms by (simp add: segment_index_entry_prefix_of copy_at_def sub_def)
  have n: "\<not> length bs < 60" using assms by simp
  show ?thesis
    unfolding segment_index_entry_parse_def TABLE_SEGMENT_INDEX_ENTRY_LEN_def if_not_P [OF n] s and_then_simps r Let_def c
    by (simp add: segment_index_entry_sealed_def segment_index_entry_of_def)
qed

interpretation segment_index_entry: exact_fixed "segment_index_entry_serialize crc" "segment_index_entry_parse crc" 60 "segment_index_entry_sealed crc"
proof
  fix e :: segment_index_entry and rest bs :: bytes
  show "length (segment_index_entry_serialize crc e) = 60" by (simp add: segment_index_entry_serialize_eq)
  have "60 \<le> length (segment_index_entry_serialize crc e @ rest)" by (simp add: segment_index_entry_serialize_eq)
  then show "segment_index_entry_parse crc (segment_index_entry_serialize crc e @ rest) = Ok e" if "segment_index_entry_sealed crc e"
    using that by (simp add: segment_index_entry_parse_iff segment_index_entry_of_serialize)
  have short: "segment_index_entry_parse crc bs = Fail BufferTooShort" if "length bs < 60"
    using that by (simp add: segment_index_entry_parse_def TABLE_SEGMENT_INDEX_ENTRY_LEN_def)
  show "no_panic (segment_index_entry_parse crc bs)"
    using short by (cases "length bs < 60") (simp_all add: segment_index_entry_parse_iff)
  assume q: "segment_index_entry_parse crc bs = Ok e"
  then have l: "60 \<le> length bs" using short by (cases "length bs < 60") auto
  then have e: "e = segment_index_entry_of bs" "segment_index_entry_sealed crc e" using q by (auto simp: segment_index_entry_parse_iff split: if_splits)
  have "segment_index_entry_serialize crc e = sub bs 0 56 @ le_bytes 4 (si_checksum e)"
    using e(2) l unfolding segment_index_entry_serialize_eq segment_index_entry_sealed_def e(1) by (simp add: segment_index_entry_prefix_of)
  also have "\<dots> = take 60 bs"
    using l by (simp add: e(1) segment_index_entry_of_def le_bytes_of_le length_sub sub_join) (simp add: sub_def)
  finally show "segment_index_entry_sealed crc e \<and> 60 \<le> length bs \<and> segment_index_entry_serialize crc e = take 60 bs" using e l by blast
qed simp

section \<open>Segment header\<close>

definition TABLE_SEGMENT_HEADER_LEN :: nat where
  "TABLE_SEGMENT_HEADER_LEN = 72"

record segment_header =
  sh_table_id :: u32
  sh_segment_id :: u32
  sh_row_start :: u64
  sh_row_count :: u32
  sh_morsel_count :: u32
  sh_morsel_row_count :: u32
  sh_column_count :: u32
  sh_morsel_directory_offset :: u64
  sh_column_directory_offset :: u64
  sh_page_index_offset :: u64
  sh_data_offset :: u64
  sh_flags :: u32
  sh_checksum :: u32

definition segment_header_serialize :: "(bytes \<Rightarrow> u32) \<Rightarrow> segment_header \<Rightarrow> bytes" where
  "segment_header_serialize crc e =
     (let buf = replicate TABLE_SEGMENT_HEADER_LEN 0;
          buf = copy_at buf 0 (le_bytes 4 (sh_table_id e));
          buf = copy_at buf 4 (le_bytes 4 (sh_segment_id e));
          buf = copy_at buf 8 (le_bytes 8 (sh_row_start e));
          buf = copy_at buf 16 (le_bytes 4 (sh_row_count e));
          buf = copy_at buf 20 (le_bytes 4 (sh_morsel_count e));
          buf = copy_at buf 24 (le_bytes 4 (sh_morsel_row_count e));
          buf = copy_at buf 28 (le_bytes 4 (sh_column_count e));
          buf = copy_at buf 32 (le_bytes 8 (sh_morsel_directory_offset e));
          buf = copy_at buf 40 (le_bytes 8 (sh_column_directory_offset e));
          buf = copy_at buf 48 (le_bytes 8 (sh_page_index_offset e));
          buf = copy_at buf 56 (le_bytes 8 (sh_data_offset e));
          buf = copy_at buf 64 (le_bytes 4 (sh_flags e));
          c = crc buf
      in copy_at buf 68 (le_bytes 4 c))"

definition segment_header_parse :: "(bytes \<Rightarrow> u32) \<Rightarrow> bytes \<Rightarrow> segment_header res" where
  "segment_header_parse crc bs =
     (if length bs < TABLE_SEGMENT_HEADER_LEN then Fail BufferTooShort
      else
        and_then (slice bs 0 TABLE_SEGMENT_HEADER_LEN) (\<lambda>bs.
        and_then (read_u32_le_checked bs 0) (\<lambda>table_id'.
        and_then (read_u32_le_checked bs 4) (\<lambda>segment_id'.
        and_then (read_u64_le_checked bs 8) (\<lambda>row_start'.
        and_then (read_u32_le_checked bs 16) (\<lambda>row_count'.
        and_then (read_u32_le_checked bs 20) (\<lambda>morsel_count'.
        and_then (read_u32_le_checked bs 24) (\<lambda>morsel_row_count'.
        and_then (read_u32_le_checked bs 28) (\<lambda>column_count'.
        and_then (read_u64_le_checked bs 32) (\<lambda>morsel_directory_offset'.
        and_then (read_u64_le_checked bs 40) (\<lambda>column_directory_offset'.
        and_then (read_u64_le_checked bs 48) (\<lambda>page_index_offset'.
        and_then (read_u64_le_checked bs 56) (\<lambda>data_offset'.
        and_then (read_u32_le_checked bs 64) (\<lambda>flags'.
        and_then (read_u32_le_checked bs 68) (\<lambda>checksum'.
        let for_crc = copy_at bs 68 (replicate 4 0) in
        if crc for_crc \<noteq> checksum' then Fail ChecksumMismatch
        else Ok \<lparr>sh_table_id = table_id',
          sh_segment_id = segment_id',
          sh_row_start = row_start',
          sh_row_count = row_count',
          sh_morsel_count = morsel_count',
          sh_morsel_row_count = morsel_row_count',
          sh_column_count = column_count',
          sh_morsel_directory_offset = morsel_directory_offset',
          sh_column_directory_offset = column_directory_offset',
          sh_page_index_offset = page_index_offset',
          sh_data_offset = data_offset',
          sh_flags = flags',
          sh_checksum = checksum'\<rparr>)))))))))))))))"

definition segment_header_prefix :: "segment_header \<Rightarrow> bytes" where
  "segment_header_prefix e = le_bytes 4 (sh_table_id e) @
     le_bytes 4 (sh_segment_id e) @
     le_bytes 8 (sh_row_start e) @
     le_bytes 4 (sh_row_count e) @
     le_bytes 4 (sh_morsel_count e) @
     le_bytes 4 (sh_morsel_row_count e) @
     le_bytes 4 (sh_column_count e) @
     le_bytes 8 (sh_morsel_directory_offset e) @
     le_bytes 8 (sh_column_directory_offset e) @
     le_bytes 8 (sh_page_index_offset e) @
     le_bytes 8 (sh_data_offset e) @
     le_bytes 4 (sh_flags e)"

definition segment_header_sealed :: "(bytes \<Rightarrow> u32) \<Rightarrow> segment_header \<Rightarrow> bool" where
  "segment_header_sealed crc e \<longleftrightarrow> sh_checksum e = crc (segment_header_prefix e @ replicate 4 0)"

definition segment_header_of :: "bytes \<Rightarrow> segment_header" where
  "segment_header_of bs = \<lparr>sh_table_id = of_le (sub bs 0 4),
     sh_segment_id = of_le (sub bs 4 4),
     sh_row_start = of_le (sub bs 8 8),
     sh_row_count = of_le (sub bs 16 4),
     sh_morsel_count = of_le (sub bs 20 4),
     sh_morsel_row_count = of_le (sub bs 24 4),
     sh_column_count = of_le (sub bs 28 4),
     sh_morsel_directory_offset = of_le (sub bs 32 8),
     sh_column_directory_offset = of_le (sub bs 40 8),
     sh_page_index_offset = of_le (sub bs 48 8),
     sh_data_offset = of_le (sub bs 56 8),
     sh_flags = of_le (sub bs 64 4),
     sh_checksum = of_le (sub bs 68 4)\<rparr>"

lemma length_segment_header_prefix [simp]: "length (segment_header_prefix e) = 68"
  by (simp add: segment_header_prefix_def)

lemma segment_header_serialize_eq: "segment_header_serialize crc e = segment_header_prefix e @ le_bytes 4 (crc (segment_header_prefix e @ replicate 4 0))"
  unfolding segment_header_serialize_def TABLE_SEGMENT_HEADER_LEN_def segment_header_prefix_def
  by (simp add: fill_simps del: append_assoc) (simp only: append_assoc append_Cons append_Nil)

lemma segment_header_prefix_of: "72 \<le> length bs \<Longrightarrow> segment_header_prefix (segment_header_of bs) = sub bs 0 68"
  by (simp add: segment_header_of_def segment_header_prefix_def le_bytes_of_le length_sub sub_join sub_join_assoc)

lemma segment_header_of_serialize: "segment_header_sealed crc e \<Longrightarrow> segment_header_of (segment_header_serialize crc e @ rest) = e"
  unfolding segment_header_sealed_def
  by (cases e) (simp add: segment_header_of_def segment_header_serialize_eq segment_header_prefix_def sub_def)

lemma segment_header_parse_iff:
  assumes "72 \<le> length bs"
  shows "segment_header_parse crc bs = (if segment_header_sealed crc (segment_header_of bs) then Ok (segment_header_of bs) else Fail ChecksumMismatch)"
proof -
  let ?b = "sub bs 0 72"
  have l: "length ?b = 72" using assms by (simp add: length_sub)
  have s: "slice bs 0 72 = (Ok ?b :: bytes res)" using assms by (simp add: slice_Ok)
  have r: "read_u32_le_checked ?b 0 = Ok (of_le (sub bs 0 4))"
    "read_u32_le_checked ?b 4 = Ok (of_le (sub bs 4 4))"
    "read_u64_le_checked ?b 8 = Ok (of_le (sub bs 8 8))"
    "read_u32_le_checked ?b 16 = Ok (of_le (sub bs 16 4))"
    "read_u32_le_checked ?b 20 = Ok (of_le (sub bs 20 4))"
    "read_u32_le_checked ?b 24 = Ok (of_le (sub bs 24 4))"
    "read_u32_le_checked ?b 28 = Ok (of_le (sub bs 28 4))"
    "read_u64_le_checked ?b 32 = Ok (of_le (sub bs 32 8))"
    "read_u64_le_checked ?b 40 = Ok (of_le (sub bs 40 8))"
    "read_u64_le_checked ?b 48 = Ok (of_le (sub bs 48 8))"
    "read_u64_le_checked ?b 56 = Ok (of_le (sub bs 56 8))"
    "read_u32_le_checked ?b 64 = Ok (of_le (sub bs 64 4))"
    "read_u32_le_checked ?b 68 = Ok (of_le (sub bs 68 4))"
    using l by (simp_all add: wire_simps usize_limit_def sub_sub)
  have c: "copy_at ?b 68 (replicate 4 0) = segment_header_prefix (segment_header_of bs) @ replicate 4 0"
    using assms by (simp add: segment_header_prefix_of copy_at_def sub_def)
  have n: "\<not> length bs < 72" using assms by simp
  show ?thesis
    unfolding segment_header_parse_def TABLE_SEGMENT_HEADER_LEN_def if_not_P [OF n] s and_then_simps r Let_def c
    by (simp add: segment_header_sealed_def segment_header_of_def)
qed

interpretation segment_header: exact_fixed "segment_header_serialize crc" "segment_header_parse crc" 72 "segment_header_sealed crc"
proof
  fix e :: segment_header and rest bs :: bytes
  show "length (segment_header_serialize crc e) = 72" by (simp add: segment_header_serialize_eq)
  have "72 \<le> length (segment_header_serialize crc e @ rest)" by (simp add: segment_header_serialize_eq)
  then show "segment_header_parse crc (segment_header_serialize crc e @ rest) = Ok e" if "segment_header_sealed crc e"
    using that by (simp add: segment_header_parse_iff segment_header_of_serialize)
  have short: "segment_header_parse crc bs = Fail BufferTooShort" if "length bs < 72"
    using that by (simp add: segment_header_parse_def TABLE_SEGMENT_HEADER_LEN_def)
  show "no_panic (segment_header_parse crc bs)"
    using short by (cases "length bs < 72") (simp_all add: segment_header_parse_iff)
  assume q: "segment_header_parse crc bs = Ok e"
  then have l: "72 \<le> length bs" using short by (cases "length bs < 72") auto
  then have e: "e = segment_header_of bs" "segment_header_sealed crc e" using q by (auto simp: segment_header_parse_iff split: if_splits)
  have "segment_header_serialize crc e = sub bs 0 68 @ le_bytes 4 (sh_checksum e)"
    using e(2) l unfolding segment_header_serialize_eq segment_header_sealed_def e(1) by (simp add: segment_header_prefix_of)
  also have "\<dots> = take 72 bs"
    using l by (simp add: e(1) segment_header_of_def le_bytes_of_le length_sub sub_join) (simp add: sub_def)
  finally show "segment_header_sealed crc e \<and> 72 \<le> length bs \<and> segment_header_serialize crc e = take 72 bs" using e l by blast
qed simp

section \<open>Row morsels\<close>

definition ROW_MORSEL_ENTRY_LEN :: nat where
  "ROW_MORSEL_ENTRY_LEN = 24"

record row_morsel =
  rm_morsel_id :: u32
  rm_first_row_in_segment :: u32
  rm_row_count :: u32
  rm_flags :: u32
  rm_stats_ref :: u32
  rm_checksum :: u32

definition row_morsel_serialize :: "(bytes \<Rightarrow> u32) \<Rightarrow> row_morsel \<Rightarrow> bytes" where
  "row_morsel_serialize crc e =
     (let buf = replicate ROW_MORSEL_ENTRY_LEN 0;
          buf = copy_at buf 0 (le_bytes 4 (rm_morsel_id e));
          buf = copy_at buf 4 (le_bytes 4 (rm_first_row_in_segment e));
          buf = copy_at buf 8 (le_bytes 4 (rm_row_count e));
          buf = copy_at buf 12 (le_bytes 4 (rm_flags e));
          buf = copy_at buf 16 (le_bytes 4 (rm_stats_ref e));
          c = crc buf
      in copy_at buf 20 (le_bytes 4 c))"

definition row_morsel_parse :: "(bytes \<Rightarrow> u32) \<Rightarrow> bytes \<Rightarrow> row_morsel res" where
  "row_morsel_parse crc bs =
     (if length bs < ROW_MORSEL_ENTRY_LEN then Fail BufferTooShort
      else
        and_then (slice bs 0 ROW_MORSEL_ENTRY_LEN) (\<lambda>bs.
        and_then (read_u32_le_checked bs 0) (\<lambda>morsel_id'.
        and_then (read_u32_le_checked bs 4) (\<lambda>first_row_in_segment'.
        and_then (read_u32_le_checked bs 8) (\<lambda>row_count'.
        and_then (read_u32_le_checked bs 12) (\<lambda>flags'.
        and_then (read_u32_le_checked bs 16) (\<lambda>stats_ref'.
        and_then (read_u32_le_checked bs 20) (\<lambda>checksum'.
        let for_crc = copy_at bs 20 (replicate 4 0) in
        if crc for_crc \<noteq> checksum' then Fail ChecksumMismatch
        else Ok \<lparr>rm_morsel_id = morsel_id',
          rm_first_row_in_segment = first_row_in_segment',
          rm_row_count = row_count',
          rm_flags = flags',
          rm_stats_ref = stats_ref',
          rm_checksum = checksum'\<rparr>))))))))"

definition row_morsel_prefix :: "row_morsel \<Rightarrow> bytes" where
  "row_morsel_prefix e = le_bytes 4 (rm_morsel_id e) @
     le_bytes 4 (rm_first_row_in_segment e) @
     le_bytes 4 (rm_row_count e) @
     le_bytes 4 (rm_flags e) @
     le_bytes 4 (rm_stats_ref e)"

definition row_morsel_sealed :: "(bytes \<Rightarrow> u32) \<Rightarrow> row_morsel \<Rightarrow> bool" where
  "row_morsel_sealed crc e \<longleftrightarrow> rm_checksum e = crc (row_morsel_prefix e @ replicate 4 0)"

definition row_morsel_of :: "bytes \<Rightarrow> row_morsel" where
  "row_morsel_of bs = \<lparr>rm_morsel_id = of_le (sub bs 0 4),
     rm_first_row_in_segment = of_le (sub bs 4 4),
     rm_row_count = of_le (sub bs 8 4),
     rm_flags = of_le (sub bs 12 4),
     rm_stats_ref = of_le (sub bs 16 4),
     rm_checksum = of_le (sub bs 20 4)\<rparr>"

lemma length_row_morsel_prefix [simp]: "length (row_morsel_prefix e) = 20"
  by (simp add: row_morsel_prefix_def)

lemma row_morsel_serialize_eq: "row_morsel_serialize crc e = row_morsel_prefix e @ le_bytes 4 (crc (row_morsel_prefix e @ replicate 4 0))"
  unfolding row_morsel_serialize_def ROW_MORSEL_ENTRY_LEN_def row_morsel_prefix_def
  by (simp add: fill_simps del: append_assoc) (simp only: append_assoc append_Cons append_Nil)

lemma row_morsel_prefix_of: "24 \<le> length bs \<Longrightarrow> row_morsel_prefix (row_morsel_of bs) = sub bs 0 20"
  by (simp add: row_morsel_of_def row_morsel_prefix_def le_bytes_of_le length_sub sub_join sub_join_assoc)

lemma row_morsel_of_serialize: "row_morsel_sealed crc e \<Longrightarrow> row_morsel_of (row_morsel_serialize crc e @ rest) = e"
  unfolding row_morsel_sealed_def
  by (cases e) (simp add: row_morsel_of_def row_morsel_serialize_eq row_morsel_prefix_def sub_def)

lemma row_morsel_parse_iff:
  assumes "24 \<le> length bs"
  shows "row_morsel_parse crc bs = (if row_morsel_sealed crc (row_morsel_of bs) then Ok (row_morsel_of bs) else Fail ChecksumMismatch)"
proof -
  let ?b = "sub bs 0 24"
  have l: "length ?b = 24" using assms by (simp add: length_sub)
  have s: "slice bs 0 24 = (Ok ?b :: bytes res)" using assms by (simp add: slice_Ok)
  have r: "read_u32_le_checked ?b 0 = Ok (of_le (sub bs 0 4))"
    "read_u32_le_checked ?b 4 = Ok (of_le (sub bs 4 4))"
    "read_u32_le_checked ?b 8 = Ok (of_le (sub bs 8 4))"
    "read_u32_le_checked ?b 12 = Ok (of_le (sub bs 12 4))"
    "read_u32_le_checked ?b 16 = Ok (of_le (sub bs 16 4))"
    "read_u32_le_checked ?b 20 = Ok (of_le (sub bs 20 4))"
    using l by (simp_all add: wire_simps usize_limit_def sub_sub)
  have c: "copy_at ?b 20 (replicate 4 0) = row_morsel_prefix (row_morsel_of bs) @ replicate 4 0"
    using assms by (simp add: row_morsel_prefix_of copy_at_def sub_def)
  have n: "\<not> length bs < 24" using assms by simp
  show ?thesis
    unfolding row_morsel_parse_def ROW_MORSEL_ENTRY_LEN_def if_not_P [OF n] s and_then_simps r Let_def c
    by (simp add: row_morsel_sealed_def row_morsel_of_def)
qed

interpretation row_morsel: exact_fixed "row_morsel_serialize crc" "row_morsel_parse crc" 24 "row_morsel_sealed crc"
proof
  fix e :: row_morsel and rest bs :: bytes
  show "length (row_morsel_serialize crc e) = 24" by (simp add: row_morsel_serialize_eq)
  have "24 \<le> length (row_morsel_serialize crc e @ rest)" by (simp add: row_morsel_serialize_eq)
  then show "row_morsel_parse crc (row_morsel_serialize crc e @ rest) = Ok e" if "row_morsel_sealed crc e"
    using that by (simp add: row_morsel_parse_iff row_morsel_of_serialize)
  have short: "row_morsel_parse crc bs = Fail BufferTooShort" if "length bs < 24"
    using that by (simp add: row_morsel_parse_def ROW_MORSEL_ENTRY_LEN_def)
  show "no_panic (row_morsel_parse crc bs)"
    using short by (cases "length bs < 24") (simp_all add: row_morsel_parse_iff)
  assume q: "row_morsel_parse crc bs = Ok e"
  then have l: "24 \<le> length bs" using short by (cases "length bs < 24") auto
  then have e: "e = row_morsel_of bs" "row_morsel_sealed crc e" using q by (auto simp: row_morsel_parse_iff split: if_splits)
  have "row_morsel_serialize crc e = sub bs 0 20 @ le_bytes 4 (rm_checksum e)"
    using e(2) l unfolding row_morsel_serialize_eq row_morsel_sealed_def e(1) by (simp add: row_morsel_prefix_of)
  also have "\<dots> = take 24 bs"
    using l by (simp add: e(1) row_morsel_of_def le_bytes_of_le length_sub sub_join) (simp add: sub_def)
  finally show "row_morsel_sealed crc e \<and> 24 \<le> length bs \<and> row_morsel_serialize crc e = take 24 bs" using e l by blast
qed simp

section \<open>Column directory\<close>

definition TABLE_COLUMN_DIRECTORY_ENTRY_LEN :: nat where
  "TABLE_COLUMN_DIRECTORY_ENTRY_LEN = 52"

definition SEGMENT_COLUMN_FLAG_BOOL_DECLARED_NUMERIC :: u8 where
  "SEGMENT_COLUMN_FLAG_BOOL_DECLARED_NUMERIC = 0x01"

record column_dir =
  cd_column_id :: u32
  cd_logical_type :: logical_type
  cd_physical_kind :: physical_kind
  cd_flags :: u8
  cd_page_index_offset :: u64
  cd_page_index_length :: u64
  cd_data_offset :: u64
  cd_data_length :: u64
  cd_stats_ref :: u32
  cd_domain_ref :: u32
  cd_checksum :: u32

definition column_dir_serialize :: "(bytes \<Rightarrow> u32) \<Rightarrow> column_dir \<Rightarrow> bytes" where
  "column_dir_serialize crc e =
     (let out = replicate TABLE_COLUMN_DIRECTORY_ENTRY_LEN 0;
          out = copy_at out 0 (le_bytes 4 (cd_column_id e));
          out = copy_at out 4 (le_bytes 2 (as_logical_type (cd_logical_type e)));
          out = copy_at out 6 [as_physical_kind (cd_physical_kind e)];
          out = copy_at out 7 [cd_flags e];
          out = copy_at out 8 (le_bytes 8 (cd_page_index_offset e));
          out = copy_at out 16 (le_bytes 8 (cd_page_index_length e));
          out = copy_at out 24 (le_bytes 8 (cd_data_offset e));
          out = copy_at out 32 (le_bytes 8 (cd_data_length e));
          out = copy_at out 40 (le_bytes 4 (cd_stats_ref e));
          out = copy_at out 44 (le_bytes 4 (cd_domain_ref e));
          c = crc out
      in copy_at out 48 (le_bytes 4 c))"

definition column_dir_options :: "u8 \<Rightarrow> logical_physical_options" where
  "column_dir_options flags = \<lparr>bool_declared_numeric = (flags AND SEGMENT_COLUMN_FLAG_BOOL_DECLARED_NUMERIC \<noteq> 0)\<rparr>"

definition column_dir_parse :: "(bytes \<Rightarrow> u32) \<Rightarrow> bytes \<Rightarrow> column_dir res" where
  "column_dir_parse crc bs =
     (if length bs < TABLE_COLUMN_DIRECTORY_ENTRY_LEN then Fail BufferTooShort
      else
        and_then (slice bs 0 TABLE_COLUMN_DIRECTORY_ENTRY_LEN) (\<lambda>bs.
        and_then (read_u32_le_checked bs 48) (\<lambda>checksum'.
        let for_crc = copy_at bs 48 (replicate 4 0) in
        if crc for_crc \<noteq> checksum' then Fail ChecksumMismatch
        else
        and_then (read_u16_le_checked bs 4) (\<lambda>logical_raw.
        and_then (index bs 6) (\<lambda>physical_raw.
        and_then (ok_or (BadSchema (''unknown logical type '' @ decimal (unat logical_raw))) (logical_type_from logical_raw)) (\<lambda>logical.
        and_then (ok_or (BadSchema (''unknown physical kind '' @ decimal (unat physical_raw))) (physical_kind_from physical_raw)) (\<lambda>physical.
        and_then (index bs 7) (\<lambda>flags'.
        and_then (validate_logical_physical_pair_with_options logical physical (column_dir_options flags')) (\<lambda>_.
        and_then (read_u32_le_checked bs 0) (\<lambda>column_id'.
        and_then (read_u64_le_checked bs 8) (\<lambda>page_index_offset'.
        and_then (read_u64_le_checked bs 16) (\<lambda>page_index_length'.
        and_then (read_u64_le_checked bs 24) (\<lambda>data_offset'.
        and_then (read_u64_le_checked bs 32) (\<lambda>data_length'.
        and_then (read_u32_le_checked bs 40) (\<lambda>stats_ref'.
        and_then (read_u32_le_checked bs 44) (\<lambda>domain_ref'.
        Ok \<lparr>cd_column_id = column_id', cd_logical_type = logical, cd_physical_kind = physical, cd_flags = flags',
          cd_page_index_offset = page_index_offset', cd_page_index_length = page_index_length',
          cd_data_offset = data_offset', cd_data_length = data_length', cd_stats_ref = stats_ref',
          cd_domain_ref = domain_ref', cd_checksum = checksum'\<rparr>))))))))))))))))"

definition column_dir_prefix :: "column_dir \<Rightarrow> bytes" where
  "column_dir_prefix e = le_bytes 4 (cd_column_id e) @ le_bytes 2 (as_logical_type (cd_logical_type e)) @
     [as_physical_kind (cd_physical_kind e)] @ [cd_flags e] @ le_bytes 8 (cd_page_index_offset e) @
     le_bytes 8 (cd_page_index_length e) @ le_bytes 8 (cd_data_offset e) @ le_bytes 8 (cd_data_length e) @
     le_bytes 4 (cd_stats_ref e) @ le_bytes 4 (cd_domain_ref e)"

definition column_dir_sealed :: "(bytes \<Rightarrow> u32) \<Rightarrow> column_dir \<Rightarrow> bool" where
  "column_dir_sealed crc e \<longleftrightarrow> cd_checksum e = crc (column_dir_prefix e @ replicate 4 0) \<and>
     validate_logical_physical_pair_with_options (cd_logical_type e) (cd_physical_kind e) (column_dir_options (cd_flags e)) = Ok ()"

lemma length_column_dir_prefix [simp]: "length (column_dir_prefix e) = 48"
  by (simp add: column_dir_prefix_def)

lemma column_dir_serialize_eq:
  "column_dir_serialize crc e = column_dir_prefix e @ le_bytes 4 (crc (column_dir_prefix e @ replicate 4 0))"
  unfolding column_dir_serialize_def TABLE_COLUMN_DIRECTORY_ENTRY_LEN_def column_dir_prefix_def
  by (simp add: fill_simps del: append_assoc) (simp only: append_assoc append_Cons append_Nil)

lemma column_dir_parse_reads:
  assumes "52 \<le> length bs"
  shows "column_dir_parse crc bs =
    (if crc (sub bs 0 48 @ replicate 4 0) \<noteq> of_le (sub bs 48 4) then Fail ChecksumMismatch
     else
       and_then (ok_or (BadSchema (''unknown logical type '' @ decimal (unat (of_le (sub bs 4 2) :: u16)))) (logical_type_from (of_le (sub bs 4 2)))) (\<lambda>logical.
       and_then (ok_or (BadSchema (''unknown physical kind '' @ decimal (unat (bs ! 6)))) (physical_kind_from (bs ! 6))) (\<lambda>physical.
       and_then (validate_logical_physical_pair_with_options logical physical (column_dir_options (bs ! 7))) (\<lambda>_.
       Ok \<lparr>cd_column_id = of_le (sub bs 0 4), cd_logical_type = logical, cd_physical_kind = physical, cd_flags = bs ! 7,
         cd_page_index_offset = of_le (sub bs 8 8), cd_page_index_length = of_le (sub bs 16 8),
         cd_data_offset = of_le (sub bs 24 8), cd_data_length = of_le (sub bs 32 8), cd_stats_ref = of_le (sub bs 40 4),
         cd_domain_ref = of_le (sub bs 44 4), cd_checksum = of_le (sub bs 48 4)\<rparr>))))"
proof -
  let ?b = "sub bs 0 52"
  have l: "length ?b = 52" using assms by (simp add: length_sub)
  have s: "slice bs 0 52 = (Ok ?b :: bytes res)" using assms by (simp add: slice_Ok)
  have r: "read_u32_le_checked ?b 48 = Ok (of_le (sub bs 48 4))" "read_u16_le_checked ?b 4 = Ok (of_le (sub bs 4 2))"
    "index ?b 6 = (Ok (bs ! 6) :: u8 res)" "index ?b 7 = (Ok (bs ! 7) :: u8 res)"
    "read_u32_le_checked ?b 0 = Ok (of_le (sub bs 0 4))" "read_u64_le_checked ?b 8 = Ok (of_le (sub bs 8 8))"
    "read_u64_le_checked ?b 16 = Ok (of_le (sub bs 16 8))" "read_u64_le_checked ?b 24 = Ok (of_le (sub bs 24 8))"
    "read_u64_le_checked ?b 32 = Ok (of_le (sub bs 32 8))" "read_u32_le_checked ?b 40 = Ok (of_le (sub bs 40 4))"
    "read_u32_le_checked ?b 44 = Ok (of_le (sub bs 44 4))"
    using l assms by (simp_all add: wire_simps usize_limit_def sub_sub index_Ok nth_sub)
  have c: "copy_at ?b 48 (replicate 4 0) = sub bs 0 48 @ replicate 4 0"
    using assms by (simp add: copy_at_def sub_def)
  have n: "\<not> length bs < 52" using assms by simp
  show ?thesis
    unfolding column_dir_parse_def TABLE_COLUMN_DIRECTORY_ENTRY_LEN_def if_not_P [OF n] s and_then_simps r Let_def c ..
qed

interpretation column_dir: exact_fixed "column_dir_serialize crc" "column_dir_parse crc" 52 "column_dir_sealed crc"
proof
  fix e :: column_dir and rest bs :: bytes
  show "length (column_dir_serialize crc e) = 52" by (simp add: column_dir_serialize_eq)
  let ?s = "column_dir_serialize crc e @ rest"
  have f: "sub ?s 0 48 = column_dir_prefix e" "sub ?s 48 4 = le_bytes 4 (crc (column_dir_prefix e @ replicate 4 0))"
    by (simp_all add: column_dir_serialize_eq sub_def)
  have g: "sub ?s 0 4 = le_bytes 4 (cd_column_id e)" "sub ?s 4 2 = le_bytes 2 (as_logical_type (cd_logical_type e))"
    "?s ! 6 = as_physical_kind (cd_physical_kind e)" "?s ! 7 = cd_flags e"
    "sub ?s 8 8 = le_bytes 8 (cd_page_index_offset e)" "sub ?s 16 8 = le_bytes 8 (cd_page_index_length e)"
    "sub ?s 24 8 = le_bytes 8 (cd_data_offset e)" "sub ?s 32 8 = le_bytes 8 (cd_data_length e)"
    "sub ?s 40 4 = le_bytes 4 (cd_stats_ref e)" "sub ?s 44 4 = le_bytes 4 (cd_domain_ref e)"
    by (simp_all add: column_dir_serialize_eq column_dir_prefix_def sub_def nth_append)
  have t: "logical_type_from (as_logical_type (cd_logical_type e)) = Some (cd_logical_type e)"
    "physical_kind_from (as_physical_kind (cd_physical_kind e)) = Some (cd_physical_kind e)"
    by (simp_all add: logical_type_from_iff physical_kind_from_iff)
  have "52 \<le> length ?s" by (simp add: column_dir_serialize_eq)
  then show "column_dir_parse crc ?s = Ok e" if w: "column_dir_sealed crc e"
  proof -
    assume l: "52 \<le> length ?s"
    have c: "crc (column_dir_prefix e @ replicate 4 0) = cd_checksum e" using w by (simp add: column_dir_sealed_def)
    show ?thesis
      unfolding column_dir_parse_reads [OF l] f g using w [unfolded column_dir_sealed_def, THEN conjunct2] by (simp add: t c)
  qed
  have short: "column_dir_parse crc bs = Fail BufferTooShort" if "length bs < 52"
    using that by (simp add: column_dir_parse_def TABLE_COLUMN_DIRECTORY_ENTRY_LEN_def)
  show "no_panic (column_dir_parse crc bs)"
    using short by (cases "length bs < 52") (auto simp: column_dir_parse_reads intro!: no_panic_intros)
  assume q: "column_dir_parse crc bs = Ok e"
  then have l: "52 \<le> length bs" using short by (cases "length bs < 52") auto
  from q have e: "cd_column_id e = of_le (sub bs 0 4)" "as_logical_type (cd_logical_type e) = of_le (sub bs 4 2)"
    "as_physical_kind (cd_physical_kind e) = bs ! 6" "cd_flags e = bs ! 7" "cd_page_index_offset e = of_le (sub bs 8 8)"
    "cd_page_index_length e = of_le (sub bs 16 8)" "cd_data_offset e = of_le (sub bs 24 8)"
    "cd_data_length e = of_le (sub bs 32 8)" "cd_stats_ref e = of_le (sub bs 40 4)" "cd_domain_ref e = of_le (sub bs 44 4)"
    "cd_checksum e = of_le (sub bs 48 4)" "crc (sub bs 0 48 @ replicate 4 0) = of_le (sub bs 48 4)"
    "validate_logical_physical_pair_with_options (cd_logical_type e) (cd_physical_kind e) (column_dir_options (bs ! 7)) = Ok ()"
    using l by (auto simp: column_dir_parse_reads ok_iffs logical_type_from_iff physical_kind_from_iff split: if_splits)
  have p: "column_dir_prefix e = sub bs 0 48"
  proof -
    have "column_dir_prefix e = sub bs 0 4 @ sub bs 4 2 @ sub bs 6 1 @ sub bs 7 1 @ sub bs 8 8 @ sub bs 16 8 @
        sub bs 24 8 @ sub bs 32 8 @ sub bs 40 4 @ sub bs 44 4"
      using l by (simp add: column_dir_prefix_def e le_bytes_of_le length_sub sub_singleton)
    also have "\<dots> = sub bs 0 48" by (simp add: sub_join sub_join_assoc)
    finally show ?thesis .
  qed
  have "column_dir_serialize crc e = sub bs 0 48 @ le_bytes 4 (of_le (sub bs 48 4) :: u32)"
    by (simp add: column_dir_serialize_eq p e)
  also have "\<dots> = take 52 bs" using l by (simp add: le_bytes_of_le length_sub sub_join) (simp add: sub_def)
  finally show "column_dir_sealed crc e \<and> 52 \<le> length bs \<and> column_dir_serialize crc e = take 52 bs"
    using l p e by (simp add: column_dir_sealed_def)
qed simp

section \<open>The segment index\<close>

record segment_index =
  sx_flags :: u32
  sx_entries :: "segment_index_entry list"

text \<open>
  \<^verbatim>\<open>validate\<close>: the pairs of ids are distinct; the entries are grouped by table in a
  \<^verbatim>\<open>BTreeMap\<close>, each group is sorted (stably) by \<^verbatim>\<open>row_start\<close> and walked.
\<close>

definition by_table :: "segment_index_entry list \<Rightarrow> segment_index_entry list list" where
  "by_table es = map (\<lambda>t. filter (\<lambda>e. si_table_id e = t) es) (sort (remdups (map si_table_id es)))"

fun rows_contiguous :: "u64 \<Rightarrow> segment_index_entry list \<Rightarrow> unit res" where
  "rows_contiguous next_row [] = Ok ()"
| "rows_contiguous next_row (e # es) =
     (if si_row_start e \<noteq> next_row then Fail SegmentCorrupt
      else
        and_then (ok_or ArithOverflow (checked_add_word (si_row_start e) (ucast (si_row_count e)))) (\<lambda>end'.
        rows_contiguous end' es))"

fun tables_contiguous :: "segment_index_entry list list \<Rightarrow> unit res" where
  "tables_contiguous [] = Ok ()"
| "tables_contiguous (es # rest) =
     and_then (rows_contiguous 0 (sort_key si_row_start es)) (\<lambda>_. tables_contiguous rest)"

definition segment_index_validate :: "segment_index \<Rightarrow> unit res" where
  "segment_index_validate x =
     (if has_duplicate (map (\<lambda>e. (si_table_id e, si_segment_id e)) (sx_entries x)) then Fail SegmentCorrupt
      else tables_contiguous (by_table (sx_entries x)))"

definition segment_index_serialize :: "(bytes \<Rightarrow> u32) \<Rightarrow> segment_index \<Rightarrow> bytes res" where
  "segment_index_serialize crc x =
     (if \<not> length (sx_entries x) < 2 ^ 32 then Fail SegmentCorrupt
      else Ok (le_bytes 4 (of_nat (length (sx_entries x)) :: u32) @ le_bytes 4 (sx_flags x) @
        concat (map (segment_index_entry_serialize crc) (sx_entries x))))"

definition segment_index_parse :: "(bytes \<Rightarrow> u32) \<Rightarrow> bytes \<Rightarrow> segment_index res" where
  "segment_index_parse crc bs =
     (if length bs < 8 then Fail BufferTooShort
      else
        and_then (read_u32_le_checked bs 0) (\<lambda>count.
        and_then (read_u32_le_checked bs 4) (\<lambda>flags.
        and_then (ok_or ArithOverflow (checked_mul (unat count) TABLE_SEGMENT_INDEX_ENTRY_LEN)) (\<lambda>entries_len.
        and_then (ok_or ArithOverflow (checked_add 8 entries_len)) (\<lambda>needed.
        if length bs < needed then Fail BufferTooShort
        else if needed < length bs then Fail SegmentCorrupt
        else
          and_then (parse_array (segment_index_entry_parse crc) TABLE_SEGMENT_INDEX_ENTRY_LEN (unat count) bs 8) (\<lambda>entries.
          let idx = \<lparr>sx_flags = flags, sx_entries = entries\<rparr> in
          and_then (segment_index_validate idx) (\<lambda>_. Ok idx)))))))"

section \<open>The morsel directory\<close>

text \<open>A \<^verbatim>\<open>RowMorselDirectory\<close> is the list of its entries.\<close>

definition morsels_serialize :: "(bytes \<Rightarrow> u32) \<Rightarrow> row_morsel list \<Rightarrow> bytes" where
  "morsels_serialize crc es = concat (map (row_morsel_serialize crc) es)"

fun morsels_validate_loop :: "u32 \<Rightarrow> u32 list \<Rightarrow> row_morsel list \<Rightarrow> unit res" where
  "morsels_validate_loop next_row seen [] = Ok ()"
| "morsels_validate_loop next_row seen (e # es) =
     (if rm_morsel_id e \<in> set seen then Fail SegmentCorrupt
      else if rm_row_count e = 0 then Fail SegmentCorrupt
      else if rm_first_row_in_segment e \<noteq> next_row then Fail SegmentCorrupt
      else
        and_then (ok_or ArithOverflow (checked_add_word next_row (rm_row_count e))) (\<lambda>next'.
        morsels_validate_loop next' (rm_morsel_id e # seen) es))"

definition morsels_validate :: "row_morsel list \<Rightarrow> unit res" where
  "morsels_validate es = morsels_validate_loop 0 [] es"

definition morsels_parse :: "(bytes \<Rightarrow> u32) \<Rightarrow> bytes \<Rightarrow> u32 \<Rightarrow> row_morsel list res" where
  "morsels_parse crc bs morsel_count =
     and_then (ok_or ArithOverflow (checked_mul (unat morsel_count) ROW_MORSEL_ENTRY_LEN)) (\<lambda>needed.
     if length bs < needed then Fail BufferTooShort
     else
       and_then (parse_array (row_morsel_parse crc) ROW_MORSEL_ENTRY_LEN (unat morsel_count) bs 0) (\<lambda>entries.
       and_then (morsels_validate entries) (\<lambda>_. Ok entries)))"

text \<open>One round of the loop of \<^verbatim>\<open>validate_fixed_layout\<close>; an index is below the 32-bit count.\<close>

definition fixed_layout_entry :: "u32 \<Rightarrow> u32 \<Rightarrow> nat \<Rightarrow> row_morsel \<Rightarrow> unit res" where
  "fixed_layout_entry segment_rows morsel_rows i e =
     and_then (if i < 2 ^ 32 then Ok (of_nat i :: u32) else Fail ArithOverflow) (\<lambda>idx.
     and_then (if unat idx * unat morsel_rows < 2 ^ 32 then Ok (idx * morsel_rows) else Fail ArithOverflow) (\<lambda>expected_first.
     and_then (if expected_first \<le> segment_rows then Ok (segment_rows - expected_first) else Fail SegmentCorrupt) (\<lambda>remaining.
     let expected_rows = min remaining morsel_rows in
     if rm_first_row_in_segment e \<noteq> expected_first \<or> rm_row_count e \<noteq> expected_rows then Fail SegmentCorrupt
     else Ok ())))"

definition validate_fixed_layout :: "row_morsel list \<Rightarrow> u32 \<Rightarrow> u32 \<Rightarrow> u32 \<Rightarrow> unit res" where
  "validate_fixed_layout es segment_rows segment_morsels morsel_rows =
     (if length es \<noteq> unat segment_morsels then Fail SegmentCorrupt
      else if segment_rows = 0 then (if segment_morsels = 0 \<and> es = [] then Ok () else Fail SegmentCorrupt)
      else if morsel_rows = 0 then Fail SegmentCorrupt
      else if unat segment_morsels \<noteq> (unat segment_rows + unat morsel_rows - 1) div unat morsel_rows then Fail SegmentCorrupt
      else map_ok (\<lambda>_. ()) (try_map (\<lambda>(i, e). fixed_layout_entry segment_rows morsel_rows i e) (enumerate 0 es)))"

definition morsel_by_id :: "row_morsel list \<Rightarrow> u32 \<Rightarrow> row_morsel res" where
  "morsel_by_id es m = ok_or SegmentCorrupt (find (\<lambda>e. rm_morsel_id e = m) es)"

fun page_coverage_loop :: "row_morsel list \<Rightarrow> u32 list \<Rightarrow> column_page list \<Rightarrow> u32 list res" where
  "page_coverage_loop es seen [] = Ok seen"
| "page_coverage_loop es seen (p # ps) =
     (if cp_morsel_id p \<in> set seen then Fail PageCorrupt
      else
        and_then (morsel_by_id es (cp_morsel_id p)) (\<lambda>m.
        if cp_row_count p \<noteq> rm_row_count m then Fail PageCorrupt
        else page_coverage_loop es (cp_morsel_id p # seen) ps))"

definition validate_page_index_coverage :: "row_morsel list \<Rightarrow> column_page list \<Rightarrow> unit res" where
  "validate_page_index_coverage es pages =
     (if length pages \<noteq> length es then Fail PageCorrupt
      else
        and_then (page_coverage_loop es [] pages) (\<lambda>seen.
        if list_ex (\<lambda>m. rm_morsel_id m \<notin> set seen) es then Fail PageCorrupt else Ok ()))"

text \<open>The sum panics on overflow; it cannot for a parsed directory, which has less than \<open>2 ^ 32\<close> entries.\<close>

fun sum_rows_from :: "u64 \<Rightarrow> row_morsel list \<Rightarrow> u64 res" where
  "sum_rows_from acc [] = Ok acc"
| "sum_rows_from acc (e # es) =
     (case checked_add_word acc (ucast (rm_row_count e)) of None \<Rightarrow> Panicked | Some acc' \<Rightarrow> sum_rows_from acc' es)"

definition sum_rows :: "row_morsel list \<Rightarrow> u64 res" where
  "sum_rows es = sum_rows_from 0 es"


section \<open>Tilings\<close>

text \<open>
  \<open>tiles n rs\<close>: the ranges, given by start and length, follow each other from \<open>n\<close> on. The
  segments of a table and the morsels of a segment obey it.
\<close>

fun tiles :: "nat \<Rightarrow> (nat \<times> nat) list \<Rightarrow> bool" where
  "tiles n [] \<longleftrightarrow> True"
| "tiles n ((s, l) # rs) \<longleftrightarrow> s = n \<and> tiles (n + l) rs"

definition in_range :: "nat \<Rightarrow> nat \<times> nat \<Rightarrow> bool" where
  "in_range r x \<longleftrightarrow> fst x \<le> r \<and> r < fst x + snd x"

lemma tiles_nth: "tiles n rs \<Longrightarrow> i < length rs \<Longrightarrow> fst (rs ! i) = n + sum_list (map snd (take i rs))"
proof (induction n rs arbitrary: i rule: tiles.induct)
  case (2 n s l rs)
  then show ?case by (cases i) auto
qed simp

lemma tiles_within: "tiles n rs \<Longrightarrow> x \<in> set rs \<Longrightarrow> n \<le> fst x \<and> fst x + snd x \<le> n + sum_list (map snd rs)"
proof (induction n rs rule: tiles.induct)
  case (2 n s l rs)
  then show ?case by (cases "x = (s, l)") fastforce+
qed simp

lemma tiles_cover:
  "tiles n rs \<Longrightarrow> n \<le> r \<Longrightarrow> r < n + sum_list (map snd rs) \<Longrightarrow> \<exists>!i. i < length rs \<and> in_range r (rs ! i)"
proof (induction n rs rule: tiles.induct)
  case (2 n s l rs)
  show ?case
  proof (cases "r < n + l")
    case True
    have "\<not> in_range r (rs ! i)" if "i < length rs" for i
      using tiles_within [of "n + l" rs "rs ! i"] that True "2.prems" by (auto simp: in_range_def)
    note others = this
    show ?thesis
    proof (rule ex1I [of _ 0])
      show "0 < length ((s, l) # rs) \<and> in_range r (((s, l) # rs) ! 0)" using True "2.prems" by (simp add: in_range_def)
      show "j = 0" if "j < length ((s, l) # rs) \<and> in_range r (((s, l) # rs) ! j)" for j
        using that others by (cases j) auto
    qed
  next
    case False
    then have "\<exists>!i. i < length rs \<and> in_range r (rs ! i)" using "2.IH" "2.prems" by simp
    then obtain i where i: "i < length rs" "in_range r (rs ! i)"
      and u: "\<forall>j. j < length rs \<and> in_range r (rs ! j) \<longrightarrow> j = i" by (elim ex1E) blast
    have z: "\<not> in_range r (s, l)" using False "2.prems" by (simp add: in_range_def)
    show ?thesis
    proof (rule ex1I [of _ "Suc i"])
      show "Suc i < length ((s, l) # rs) \<and> in_range r (((s, l) # rs) ! Suc i)" using i by simp
      show "j = Suc i" if "j < length ((s, l) # rs) \<and> in_range r (((s, l) # rs) ! j)" for j
        using that u z by (cases j) auto
    qed
  qed
qed simp

lemma tiles_cover_set:
  assumes "tiles 0 (map f xs)" "distinct xs" "r < sum_list (map (snd \<circ> f) xs)"
  shows "\<exists>!x. x \<in> set xs \<and> in_range r (f x)"
proof -
  have "\<exists>!i. i < length (map f xs) \<and> in_range r (map f xs ! i)"
    using assms by (intro tiles_cover [of 0]) simp_all
  then have "\<exists>!i. i < length xs \<and> in_range r (f (xs ! i))" by (simp cong: conj_cong)
  then obtain i where i: "i < length xs" "in_range r (f (xs ! i))"
    and u: "\<forall>j. j < length xs \<and> in_range r (f (xs ! j)) \<longrightarrow> j = i" by (elim ex1E) blast
  show ?thesis
  proof (rule ex1I [of _ "xs ! i"])
    show "xs ! i \<in> set xs \<and> in_range r (f (xs ! i))" using i by simp
    show "x = xs ! i" if "x \<in> set xs \<and> in_range r (f x)" for x
      using that u by (metis in_set_conv_nth)
  qed
qed

section \<open>Rows of a table\<close>

definition segment_range :: "segment_index_entry \<Rightarrow> nat \<times> nat" where
  "segment_range e = (unat (si_row_start e), unat (si_row_count e))"

definition table_segments :: "segment_index \<Rightarrow> u32 \<Rightarrow> segment_index_entry list" where
  "table_segments x t = filter (\<lambda>e. si_table_id e = t) (sx_entries x)"

definition table_rows :: "segment_index \<Rightarrow> u32 \<Rightarrow> nat" where
  "table_rows x t = sum_list (map (unat \<circ> si_row_count) (table_segments x t))"

lemma sum_list_sort_key: "sum_list (map f (sort_key k xs)) = (sum_list (map f xs) :: nat)"
proof -
  have "mset (map f (sort_key k xs)) = mset (map f xs)" by simp
  then have "sum_mset (mset (map f (sort_key k xs))) = sum_mset (mset (map f xs))" by (rule arg_cong)
  then show ?thesis unfolding sum_mset_sum_list .
qed

lemma rows_contiguous_iff:
  "rows_contiguous n es = Inr u \<longleftrightarrow>
     tiles (unat n) (map segment_range es) \<and> unat n + sum_list (map (unat \<circ> si_row_count) es) < 2 ^ 64"
proof (induction n es rule: rows_contiguous.induct)
  case (1 n)
  then show ?case using unat_u64_less [of n] by simp
next
  case (2 n e es)
  show ?case
  proof (cases "unat n + unat (si_row_count e) < 2 ^ 64")
    case True
    then have "unat (n + ucast (si_row_count e)) = unat n + unat (si_row_count e)"
      by (simp add: unat_add_no_overflow)
    moreover have "checked_add_word n (ucast (si_row_count e)) = Some (n + ucast (si_row_count e))"
      using True by (simp add: checked_add_word_eq_Some_iff)
    moreover have "unat (si_row_start e) = unat n \<longleftrightarrow> si_row_start e = n" by (simp add: word_unat_eq_iff)
    ultimately show ?thesis
      using 2 [of "n + ucast (si_row_count e)"]
      by (cases "si_row_start e = n") (auto simp: segment_range_def add.assoc)
  next
    case False
    then show ?thesis
      by (auto simp: ok_iffs checked_add_word_eq_Some_iff segment_range_def)
  qed
qed

lemma tables_contiguous_iff:
  "tables_contiguous gs = Inr u \<longleftrightarrow> (\<forall>es \<in> set gs. rows_contiguous 0 (sort_key si_row_start es) = Inr ())"
  by (induction gs) (auto simp: ok_iffs)

lemma segment_index_validate_iff:
  "segment_index_validate x = Inr u \<longleftrightarrow>
     distinct (map (\<lambda>e. (si_table_id e, si_segment_id e)) (sx_entries x)) \<and>
     (\<forall>t. tiles 0 (map segment_range (sort_key si_row_start (table_segments x t))) \<and> table_rows x t < 2 ^ 64)"
proof -
  have g: "set (by_table (sx_entries x)) = table_segments x ` (si_table_id ` set (sx_entries x))"
    by (simp add: by_table_def table_segments_def [abs_def])
  have n: "table_segments x t = []" if "t \<notin> si_table_id ` set (sx_entries x)" for t
    using that by (auto simp: table_segments_def filter_empty_conv)
  have r: "rows_contiguous 0 (sort_key si_row_start (table_segments x t)) = Inr () \<longleftrightarrow>
      tiles 0 (map segment_range (sort_key si_row_start (table_segments x t))) \<and> table_rows x t < 2 ^ 64" for t
    unfolding rows_contiguous_iff sum_list_sort_key table_rows_def by simp
  have all: "(\<forall>es \<in> f ` A. P es) \<longleftrightarrow> (\<forall>t. P (f t))" if "\<And>t. t \<notin> A \<Longrightarrow> P (f t)" for f and A :: "u32 set" and P
    using that by blast
  have "(\<forall>es \<in> set (by_table (sx_entries x)). rows_contiguous 0 (sort_key si_row_start es) = Inr ()) \<longleftrightarrow>
      (\<forall>t. rows_contiguous 0 (sort_key si_row_start (table_segments x t)) = Inr ())"
    unfolding g by (rule all) (simp add: n)
  then show ?thesis
    unfolding segment_index_validate_def has_duplicate_iff if_eq_Inr_iffs tables_contiguous_iff r by simp
qed

lemma segment_rows_unique:
  assumes "segment_index_validate x = Ok u" "r < table_rows x t"
  shows "\<exists>!e. e \<in> set (sx_entries x) \<and> si_table_id e = t \<and> in_range r (segment_range e)"
proof -
  let ?es = "sort_key si_row_start (table_segments x t)"
  have v: "distinct (map (\<lambda>e. (si_table_id e, si_segment_id e)) (sx_entries x))" "tiles 0 (map segment_range ?es)"
    using assms(1) by (auto simp: segment_index_validate_iff)
  have "distinct ?es" using distinct_map [THEN iffD1, OF v(1)] by (simp add: table_segments_def)
  moreover have "sum_list (map (snd \<circ> segment_range) ?es) = table_rows x t"
  proof -
    have "snd \<circ> segment_range = unat \<circ> si_row_count" by (auto simp: segment_range_def)
    then show ?thesis unfolding table_rows_def sum_list_sort_key by simp
  qed
  ultimately have "\<exists>!e. e \<in> set ?es \<and> in_range r (segment_range e)"
    using tiles_cover_set [OF v(2)] assms(2) by simp
  then show ?thesis by (simp add: table_segments_def conj_assoc)
qed

lemma segment_index_parse_iff:
  assumes "length bs < usize_limit"
  shows "segment_index_parse crc bs = Ok x \<longleftrightarrow>
    segment_index_serialize crc x = Ok bs \<and> list_all (segment_index_entry_sealed crc) (sx_entries x) \<and>
    segment_index_validate x = Ok ()"
proof (cases "length bs < 8")
  case True
  have "segment_index_serialize crc x \<noteq> Ok bs" using True by (auto simp: segment_index_serialize_def)
  then show ?thesis using True by (simp add: segment_index_parse_def)
next
  case False
  define w where "w = (of_le (sub bs 0 4) :: u32)"
  define f where "f = (of_le (sub bs 4 4) :: u32)"
  have r: "read_u32_le_checked bs 0 = Ok w" "read_u32_le_checked bs 4 = Ok f"
    using False assms by (simp_all add: w_def f_def read_words_Ok)
  have wb: "le_bytes 4 w = sub bs 0 4" "le_bytes 4 f = sub bs 4 4"
    using False by (simp_all add: w_def f_def le_bytes_of_le length_sub)
  have n: "unat w < 2 ^ 32" using unat_u32_less [of w] by simp
  have c: "checked_mul (unat w) TABLE_SEGMENT_INDEX_ENTRY_LEN = Some (unat w * 60)"
    "checked_add 8 (unat w * 60) = Some (8 + unat w * 60)"
    using n by (simp_all add: checked_mul_def checked_add_def usize_limit_def TABLE_SEGMENT_INDEX_ENTRY_LEN_def)
  have e: "segment_index_parse crc bs = (if length bs < 8 + unat w * 60 then Fail BufferTooShort
      else if 8 + unat w * 60 < length bs then Fail SegmentCorrupt
      else and_then (parse_array (segment_index_entry_parse crc) 60 (unat w) bs 8) (\<lambda>entries.
        and_then (segment_index_validate \<lparr>sx_flags = f, sx_entries = entries\<rparr>) (\<lambda>_. Ok \<lparr>sx_flags = f, sx_entries = entries\<rparr>)))"
    unfolding segment_index_parse_def if_not_P [OF False] r and_then_simps c ok_or_simps Let_def
    by (simp add: TABLE_SEGMENT_INDEX_ENTRY_LEN_def)
  let ?es = "sx_entries x"
  have len: "length (segment_index_entry_serialize crc y) = 60" for y by (simp add: segment_index_entry_serialize_eq)
  have l: "length (concat (map (segment_index_entry_serialize crc) ?es)) = 60 * length ?es"
    by (rule length_concat_fixed) (rule len)
  show ?thesis
  proof (cases "length bs = 8 + unat w * 60")
    case True
    have p: "segment_index_parse crc bs = Ok x \<longleftrightarrow> sx_flags x = f \<and> length ?es = unat w \<and>
        list_all (segment_index_entry_sealed crc) ?es \<and>
        concat (map (segment_index_entry_serialize crc) ?es) = sub bs 8 (unat w * 60) \<and> segment_index_validate x = Ok ()"
      unfolding e using True segment_index_entry.parse_array_iff [of 8 "unat w" bs crc]
      by (cases x) (auto simp: ok_iffs)
    have j: "sub bs 0 4 @ sub bs 4 4 @ sub bs 8 (unat w * 60) = bs" using True by (simp add: sub_join sub_join_assoc sub_all)
    show ?thesis
    proof
      assume a: "segment_index_parse crc bs = Ok x"
      then have k: "sx_flags x = f" "length ?es = unat w" "concat (map (segment_index_entry_serialize crc) ?es) = sub bs 8 (unat w * 60)"
        unfolding p by auto
      have "of_nat (length ?es) = w" unfolding k(2) by simp
      then have "segment_index_serialize crc x = Ok bs"
        using n unfolding segment_index_serialize_def k(1,3) k(2) by (simp add: wb j)
      then show "segment_index_serialize crc x = Ok bs \<and> list_all (segment_index_entry_sealed crc) ?es \<and> segment_index_validate x = Ok ()"
        using a unfolding p by blast
    next
      assume a: "segment_index_serialize crc x = Ok bs \<and> list_all (segment_index_entry_sealed crc) ?es \<and> segment_index_validate x = Ok ()"
      then have b: "bs = le_bytes 4 (of_nat (length ?es) :: u32) @ le_bytes 4 (sx_flags x) @ concat (map (segment_index_entry_serialize crc) ?es)"
        and lt: "length ?es < 2 ^ 32" by (auto simp: segment_index_serialize_def split: if_splits)
      have "w = of_nat (length ?es)" "f = sx_flags x" by (simp_all add: w_def f_def b sub_def)
      moreover then have "unat w = length ?es" using lt unat_of_nat_less [of "length ?es", where ?'a = 32] by simp
      moreover have "concat (map (segment_index_entry_serialize crc) ?es) = sub bs 8 (length ?es * 60)"
        using l by (simp add: b sub_def)
      ultimately show "segment_index_parse crc bs = Ok x" unfolding p using a by simp
    qed
  next
    case False
    have "segment_index_serialize crc x \<noteq> Ok bs"
    proof
      assume a: "segment_index_serialize crc x = Ok bs"
      then have b: "bs = le_bytes 4 (of_nat (length ?es) :: u32) @ le_bytes 4 (sx_flags x) @ concat (map (segment_index_entry_serialize crc) ?es)"
        and lt: "length ?es < 2 ^ 32" by (auto simp: segment_index_serialize_def split: if_splits)
      have "w = of_nat (length ?es)" by (simp add: w_def b sub_def)
      then have "unat w = length ?es" using lt unat_of_nat_less [of "length ?es", where ?'a = 32] by simp
      then show False using False l by (simp add: b)
    qed
    then show ?thesis using False by (auto simp: e)
  qed
qed

section \<open>Rows of a segment\<close>

definition morsel_range :: "row_morsel \<Rightarrow> nat \<times> nat" where
  "morsel_range e = (unat (rm_first_row_in_segment e), unat (rm_row_count e))"

definition morsel_rows :: "row_morsel list \<Rightarrow> nat" where
  "morsel_rows es = sum_list (map (unat \<circ> rm_row_count) es)"

lemma morsels_validate_loop_iff:
  "morsels_validate_loop n seen es = Inr u \<longleftrightarrow>
     distinct (map rm_morsel_id es) \<and> set seen \<inter> rm_morsel_id ` set es = {} \<and> (\<forall>e \<in> set es. rm_row_count e \<noteq> 0) \<and>
     tiles (unat n) (map morsel_range es) \<and> unat n + morsel_rows es < 2 ^ 32"
proof (induction n seen es rule: morsels_validate_loop.induct)
  case (1 n seen)
  then show ?case using unat_u32_less [of n] by (simp add: morsel_rows_def)
next
  case (2 n seen e es)
  show ?case
  proof (cases "rm_morsel_id e \<in> set seen \<or> rm_row_count e = 0 \<or> rm_first_row_in_segment e \<noteq> n")
    case True
    then show ?thesis by (auto simp: morsel_range_def word_unat_eq_iff)
  next
    case ok: False
    show ?thesis
    proof (cases "unat n + unat (rm_row_count e) < 2 ^ 32")
      case True
      then have "checked_add_word n (rm_row_count e) = Some (n + rm_row_count e)"
        "unat (n + rm_row_count e) = unat n + unat (rm_row_count e)"
        by (simp_all add: checked_add_word_eq_Some_iff unat_add_no_overflow)
      then show ?thesis
        using ok 2 [of "n + rm_row_count e"] by (auto simp: morsel_range_def morsel_rows_def add.assoc)
    next
      case False
      then show ?thesis
        using ok by (auto simp: ok_iffs checked_add_word_eq_Some_iff morsel_rows_def)
    qed
  qed
qed

lemma morsels_validate_iff:
  "morsels_validate es = Inr u \<longleftrightarrow>
     distinct (map rm_morsel_id es) \<and> (\<forall>e \<in> set es. rm_row_count e \<noteq> 0) \<and>
     tiles 0 (map morsel_range es) \<and> morsel_rows es < 2 ^ 32"
  by (simp add: morsels_validate_def morsels_validate_loop_iff)

lemma sum_rows_from_eq:
  "unat acc + morsel_rows es < 2 ^ 64 \<Longrightarrow> sum_rows_from acc es = Ok (acc + of_nat (morsel_rows es))"
proof (induction acc es rule: sum_rows_from.induct)
  case (2 acc e es)
  then have c: "unat acc + unat (rm_row_count e) < 2 ^ 64" by (simp add: morsel_rows_def)
  then have a: "checked_add_word acc (ucast (rm_row_count e)) = Some (acc + ucast (rm_row_count e))"
    by (simp add: checked_add_word_eq_Some_iff)
  have "unat (acc + ucast (rm_row_count e)) = unat acc + unat (rm_row_count e)"
    using c unat_add_no_overflow [of acc "ucast (rm_row_count e)"] by simp
  then have "sum_rows_from (acc + ucast (rm_row_count e)) es = Ok (acc + ucast (rm_row_count e) + of_nat (morsel_rows es))"
    using 2(2) a by (intro "2.IH") (simp_all add: morsel_rows_def)
  moreover have "(of_nat (morsel_rows (e # es)) :: u64) = ucast (rm_row_count e) + of_nat (morsel_rows es)"
    by (simp add: morsel_rows_def)
  ultimately show ?case unfolding sum_rows_from.simps a by (simp only: option.case add.assoc)
qed (simp add: morsel_rows_def)

lemma sum_rows_validated: "morsels_validate es = Ok u \<Longrightarrow> sum_rows es = Ok (of_nat (morsel_rows es))"
  unfolding sum_rows_def by (subst sum_rows_from_eq) (auto simp: morsels_validate_iff)

lemma fixed_layout_entry_iff:
  "fixed_layout_entry rows sz i e = Inr u \<longleftrightarrow>
     i < 2 ^ 32 \<and> i * unat sz < 2 ^ 32 \<and> i * unat sz \<le> unat rows \<and>
     unat (rm_first_row_in_segment e) = i * unat sz \<and> unat (rm_row_count e) = min (unat rows - i * unat sz) (unat sz)"
proof (cases "i < 2 ^ 32 \<and> i * unat sz < 2 ^ 32 \<and> i * unat sz \<le> unat rows")
  case True
  then have i: "unat (of_nat i :: u32) = i" by (intro unat_of_nat_less) simp
  have m: "unat (of_nat i * sz) = i * unat sz" using True i by (simp add: unat_word_ariths)
  have le: "of_nat i * sz \<le> rows" using True m by (simp add: word_le_nat_alt)
  have s: "unat (rows - of_nat i * sz) = unat rows - i * unat sz" using le m by (simp add: unat_sub)
  have mn: "unat (min a b) = min (unat a) (unat b)" for a b :: u32 by (auto simp: min_def word_le_nat_alt)
  show ?thesis
    unfolding fixed_layout_entry_def using True
    by (simp add: i m le Let_def ok_iffs word_unat_eq_iff mn s)
next
  case False
  show ?thesis
  proof
    assume a: "fixed_layout_entry rows sz i e = Inr u"
    then have i: "i < 2 ^ 32" by (auto simp: fixed_layout_entry_def ok_iffs)
    then have u: "unat (of_nat i :: u32) = i" by (intro unat_of_nat_less) simp
    from a i u have m: "i * unat sz < 2 ^ 32" "of_nat i * sz \<le> rows"
      by (auto simp: fixed_layout_entry_def ok_iffs Let_def split: if_splits)
    have "unat (of_nat i * sz) = i * unat sz" using m u by (simp add: unat_word_ariths)
    then show "i < 2 ^ 32 \<and> i * unat sz < 2 ^ 32 \<and> i * unat sz \<le> unat rows \<and>
     unat (rm_first_row_in_segment e) = i * unat sz \<and> unat (rm_row_count e) = min (unat rows - i * unat sz) (unat sz)"
      using False i m by (simp add: word_le_nat_alt)
  qed (use False in blast)
qed

text \<open>The accepted layouts: morsel \<open>i\<close> starts at row \<open>i * sz\<close>, and only the last is shorter.\<close>

lemma fixed_layout_Ok:
  assumes "validate_fixed_layout es rows k sz = Inr u" "i < length es"
  shows "unat (rm_first_row_in_segment (es ! i)) = i * unat sz \<and>
    unat (rm_row_count (es ! i)) = min (unat rows - i * unat sz) (unat sz)"
proof -
  have ne: "es \<noteq> []" using assms(2) by auto
  with assms(1) obtain us where t: "try_map (\<lambda>(i, e). fixed_layout_entry rows sz i e) (enumerate 0 es) = Inr us"
    by (auto simp: validate_fixed_layout_def ok_iffs split: if_splits)
  show ?thesis using try_map_nth [OF t, of i] assms(2) by (simp add: nth_enumerate_eq fixed_layout_entry_iff)
qed

lemma fixed_layout_row:
  assumes "validate_fixed_layout es rows k sz = Inr u" "r < unat rows"
  shows "r div unat sz < length es \<and> in_range r (morsel_range (es ! (r div unat sz)))"
proof -
  have c: "rows \<noteq> 0" using assms(2) by auto
  from assms(1) c have s: "0 < unat sz" and l: "length es = (unat rows + unat sz - 1) div unat sz"
    by (auto simp: validate_fixed_layout_def word_unat_eq_iff split: if_splits)
  have "(r + unat sz) div unat sz \<le> (unat rows + unat sz - 1) div unat sz"
    using assms(2) by (intro div_le_mono) simp
  then have "r div unat sz < (unat rows + unat sz - 1) div unat sz"
    using div_add_self2 [of "unat sz" r] s by linarith
  then have i: "r div unat sz < length es" using l by simp
  have "r div unat sz * unat sz \<le> r" "r < r div unat sz * unat sz + unat sz"
    using dividend_less_div_times [OF s, of r] by (simp_all add: add.commute)
  then show ?thesis
    using i fixed_layout_Ok [OF assms(1) i] assms(2) by (simp add: in_range_def morsel_range_def)
qed

text \<open>The pages of a column stand for the morsels one to one, with the same row counts.\<close>

lemma page_coverage_loop_iff:
  "page_coverage_loop es seen ps = Inr s \<longleftrightarrow>
     distinct (map cp_morsel_id ps) \<and> set seen \<inter> cp_morsel_id ` set ps = {} \<and>
     (\<forall>p \<in> set ps. \<exists>m. find (\<lambda>e. rm_morsel_id e = cp_morsel_id p) es = Some m \<and> cp_row_count p = rm_row_count m) \<and>
     s = rev (map cp_morsel_id ps) @ seen"
proof (induction es seen ps rule: page_coverage_loop.induct)
  case (2 es seen p ps)
  show ?case
  proof (cases "find (\<lambda>e. rm_morsel_id e = cp_morsel_id p) es")
    case None
    then show ?thesis by (simp add: morsel_by_id_def)
  next
    case (Some m)
    show ?thesis
    proof (cases "cp_morsel_id p \<in> set seen \<or> cp_row_count p \<noteq> rm_row_count m")
      case True
      then show ?thesis using Some by (auto simp: morsel_by_id_def)
    next
      case False
      then have "page_coverage_loop es seen (p # ps) = page_coverage_loop es (cp_morsel_id p # seen) ps"
        using Some by (simp add: morsel_by_id_def)
      then show ?thesis using False Some "2.IH" [of m] by (auto simp: morsel_by_id_def)
    qed
  qed
qed auto

lemma find_distinct:
  assumes "distinct (map f xs)" "x \<in> set xs"
  shows "find (\<lambda>y. f y = f x) xs = Some x"
  using assms by (induction xs) auto

definition page_key :: "column_page \<Rightarrow> u32 \<times> u32" where
  "page_key p = (cp_morsel_id p, cp_row_count p)"

definition morsel_key :: "row_morsel \<Rightarrow> u32 \<times> u32" where
  "morsel_key m = (rm_morsel_id m, rm_row_count m)"

lemma page_index_coverage_iff:
  assumes d: "distinct (map rm_morsel_id es)"
  shows "validate_page_index_coverage es ps = Inr u \<longleftrightarrow> mset (map page_key ps) = mset (map morsel_key es)"
proof
  assume a: "validate_page_index_coverage es ps = Inr u"
  then have l: "length ps = length es" and c: "distinct (map cp_morsel_id ps)"
    "\<forall>p \<in> set ps. \<exists>m. find (\<lambda>e. rm_morsel_id e = cp_morsel_id p) es = Some m \<and> cp_row_count p = rm_row_count m"
    by (auto simp: validate_page_index_coverage_def ok_iffs page_coverage_loop_iff split: if_splits)
  have dp: "distinct (map page_key ps)" and de: "distinct (map morsel_key es)"
    using c(1) d by (auto simp: distinct_map inj_on_def page_key_def morsel_key_def)
  have "set (map page_key ps) \<subseteq> set (map morsel_key es)"
  proof
    fix k assume "k \<in> set (map page_key ps)"
    then obtain p where p: "p \<in> set ps" "k = page_key p" by auto
    with c(2) obtain m where f: "find (\<lambda>e. rm_morsel_id e = cp_morsel_id p) es = Some m" and r: "cp_row_count p = rm_row_count m" by blast
    from f have m: "m \<in> set es" "rm_morsel_id m = cp_morsel_id p" by (auto simp: find_Some_iff)
    have "k = morsel_key m" using p r m(2) by (simp add: page_key_def morsel_key_def)
    then show "k \<in> set (map morsel_key es)" using m(1) by simp
  qed
  moreover have "card (set (map page_key ps)) = card (set (map morsel_key es))"
    unfolding distinct_card [OF dp] distinct_card [OF de] using l by simp
  ultimately have "set (map page_key ps) = set (map morsel_key es)" by (intro card_subset_eq) simp_all
  then show "mset (map page_key ps) = mset (map morsel_key es)"
    using set_eq_iff_mset_eq_distinct [OF dp de] by simp
next
  assume a: "mset (map page_key ps) = mset (map morsel_key es)"
  have l: "length ps = length es" using mset_eq_length [OF a] by simp
  have s: "set (map page_key ps) = set (map morsel_key es)" by (rule mset_eq_setD [OF a])
  have i: "mset (map cp_morsel_id ps) = mset (map rm_morsel_id es)"
  proof -
    have "mset (map fst (map page_key ps)) = mset (map fst (map morsel_key es))"
      using arg_cong [OF a, of "image_mset fst"] unfolding mset_map .
    then show ?thesis by (simp only: map_map comp_def page_key_def morsel_key_def fst_conv)
  qed
  have dp: "distinct (map cp_morsel_id ps)" using mset_eq_imp_distinct_iff [OF i] d by simp
  have "\<exists>m. find (\<lambda>e. rm_morsel_id e = cp_morsel_id p) es = Some m \<and> cp_row_count p = rm_row_count m"
    if "p \<in> set ps" for p
  proof -
    have "page_key p \<in> set (map morsel_key es)" using that s by auto
    then obtain m where m: "m \<in> set es" "rm_morsel_id m = cp_morsel_id p" "cp_row_count p = rm_row_count m"
      by (auto simp: page_key_def morsel_key_def)
    then show ?thesis using find_distinct [OF d m(1)] by auto
  qed
  moreover have "set (map cp_morsel_id ps) = set (map rm_morsel_id es)" by (rule mset_eq_setD [OF i])
  ultimately show "validate_page_index_coverage es ps = Inr u"
    using l dp by (auto simp: validate_page_index_coverage_def ok_iffs page_coverage_loop_iff list_ex_iff)
qed

lemma page_rows_eq:
  assumes "mset (map page_key ps) = mset (map morsel_key es)"
  shows "sum_list (map (unat \<circ> cp_row_count) ps) = morsel_rows es"
proof -
  have "sum_mset (mset (map (unat \<circ> snd) (map page_key ps))) = sum_mset (mset (map (unat \<circ> snd) (map morsel_key es)))"
    using assms unfolding mset_map by simp
  then show ?thesis
    unfolding sum_mset_sum_list by (simp only: map_map comp_def page_key_def morsel_key_def snd_conv morsel_rows_def)
qed

lemma fixed_layout_total:
  assumes v: "validate_fixed_layout es rows k sz = Inr u" and m: "morsels_validate es = Inr w"
  shows "morsel_rows es = unat rows"
proof (rule antisym)
  have t: "tiles 0 (map morsel_range es)" using m by (simp add: morsels_validate_iff)
  have sum: "sum_list (map snd (map morsel_range es)) = morsel_rows es"
    by (simp add: morsel_rows_def morsel_range_def comp_def)
  show "morsel_rows es \<le> unat rows"
  proof (rule ccontr)
    assume "\<not> morsel_rows es \<le> unat rows"
    then obtain i where i: "i < length es" "in_range (unat rows) (morsel_range (es ! i))"
      using tiles_cover [OF t, of "unat rows"] sum by auto
    then show False using fixed_layout_Ok [OF v i(1)] by (auto simp: in_range_def morsel_range_def)
  qed
  show "unat rows \<le> morsel_rows es"
  proof (rule ccontr)
    assume "\<not> unat rows \<le> morsel_rows es"
    then have "in_range (morsel_rows es) (morsel_range (es ! (morsel_rows es div unat sz)))"
      "morsel_rows es div unat sz < length es"
      using fixed_layout_row [OF v, of "morsel_rows es"] by auto
    then show False
      using tiles_within [OF t, of "morsel_range (es ! (morsel_rows es div unat sz))"] sum by (auto simp: in_range_def)
  qed
qed

section \<open>Properties\<close>

text \<open>
  C14: The segments of an accepted segment index partition the rows of each table: every
  row below the sum of the row counts lies in the range of exactly one segment of the
  table, and no segment reaches past that sum.
\<close>

theorem segments_partition_rows:
  assumes "segment_index_parse crc bs = Ok x"
  shows "(r < table_rows x t \<longrightarrow> (\<exists>!e. e \<in> set (sx_entries x) \<and> si_table_id e = t \<and> in_range r (segment_range e))) \<and>
    (e \<in> set (sx_entries x) \<longrightarrow> unat (si_row_start e) + unat (si_row_count e) \<le> table_rows x (si_table_id e))"
proof (intro conjI impI)
  from assms have v: "segment_index_validate x = Ok ()"
    by (auto simp: segment_index_parse_def Let_def ok_iffs split: if_splits)
  show "\<exists>!e. e \<in> set (sx_entries x) \<and> si_table_id e = t \<and> in_range r (segment_range e)" if "r < table_rows x t"
    by (rule segment_rows_unique [OF v that])
  assume e: "e \<in> set (sx_entries x)"
  let ?es = "sort_key si_row_start (table_segments x (si_table_id e))"
  have t: "tiles 0 (map segment_range ?es)" using v by (simp add: segment_index_validate_iff)
  have "sum_list (map (snd \<circ> segment_range) ?es) = table_rows x (si_table_id e)"
    unfolding table_rows_def sum_list_sort_key by (simp add: comp_def segment_range_def)
  then show "unat (si_row_start e) + unat (si_row_count e) \<le> table_rows x (si_table_id e)"
    using tiles_within [OF t, of "segment_range e"] e by (auto simp: segment_range_def table_segments_def)
qed

definition segments_example :: segment_index where
  "segments_example = \<lparr>sx_flags = 0, sx_entries = [
     \<lparr>si_table_id = 1, si_segment_id = 1, si_row_start = 100, si_row_count = 50, si_morsel_count = 1,
       si_morsel_row_count = 64, si_column_count = 0, si_offset = 0, si_length = 0, si_stats_ref = 0, si_flags = 0,
       si_checksum = 0\<rparr>,
     \<lparr>si_table_id = 1, si_segment_id = 0, si_row_start = 0, si_row_count = 100, si_morsel_count = 2,
       si_morsel_row_count = 64, si_column_count = 0, si_offset = 0, si_length = 0, si_stats_ref = 0, si_flags = 0,
       si_checksum = 0\<rparr>]\<rparr>"

lemma segments_partition_rows_witness:
  "(\<exists>bs. segment_index_parse (\<lambda>_. 0) bs = Ok segments_example) \<and> table_rows segments_example 1 = 150 \<and>
   (\<exists>!e. e \<in> set (sx_entries segments_example) \<and> si_table_id e = 1 \<and> in_range 120 (segment_range e))"
proof -
  obtain bs where s: "segment_index_serialize (\<lambda>_. 0) segments_example = Ok bs"
    by (simp add: segment_index_serialize_def segments_example_def)
  then have l: "length bs < usize_limit"
    by (auto simp: segment_index_serialize_def segments_example_def segment_index_entry_serialize_eq usize_limit_def)
  have "segment_index_validate segments_example = Ok ()"
    by (simp add: segment_index_validate_def segments_example_def by_table_def checked_add_word_def)
  moreover have "list_all (segment_index_entry_sealed (\<lambda>_. 0)) (sx_entries segments_example)"
    by (simp add: segments_example_def segment_index_entry_sealed_def)
  ultimately have p: "segment_index_parse (\<lambda>_. 0) bs = Ok segments_example"
    using s by (simp add: segment_index_parse_iff [OF l])
  have n: "table_rows segments_example 1 = 150" by (simp add: table_rows_def table_segments_def segments_example_def)
  then show ?thesis using segments_partition_rows [OF p, of 120 1 undefined] p by auto
qed

text \<open>
  C8: A segment whose morsel directory passes the parser and the layout check, and a column
  whose page index covers that directory, account for every row of the segment once: row
  \<open>r\<close> lies in morsel \<open>r div sz\<close> and in no other, the row sum is the header's, and the
  pages of the column hold as many rows.
\<close>

theorem segment_rows_covered:
  assumes "morsels_parse crc bs k = Ok es" "validate_fixed_layout es rows k sz = Ok ()"
    and "validate_page_index_coverage es ps = Ok ()"
  shows "(r < unat rows \<longrightarrow> r div unat sz < length es \<and>
      (i < length es \<longrightarrow> in_range r (morsel_range (es ! i)) = (i = r div unat sz))) \<and>
    sum_rows es = Ok (ucast rows) \<and> sum_list (map (unat \<circ> cp_row_count) ps) = unat rows"
proof -
  from assms(1) have v: "morsels_validate es = Ok ()"
    by (auto simp: morsels_parse_def ok_iffs split: if_splits)
  then have d: "distinct (map rm_morsel_id es)" and t: "tiles 0 (map morsel_range es)"
    by (simp_all add: morsels_validate_iff)
  note total = fixed_layout_total [OF assms(2) v]
  have "sum_rows es = Ok (ucast rows)" using sum_rows_validated [OF v] by (simp add: total)
  moreover have "sum_list (map (unat \<circ> cp_row_count) ps) = unat rows"
    using page_rows_eq [of ps es] assms(3) by (simp add: page_index_coverage_iff [OF d] total)
  moreover have "r div unat sz < length es" "in_range r (morsel_range (es ! i)) = (i = r div unat sz)"
    if "r < unat rows" "i < length es" for i
  proof -
    note w = fixed_layout_row [OF assms(2) that(1)]
    then show "r div unat sz < length es" by blast
    have "r < 0 + sum_list (map snd (map morsel_range es))"
      using that(1) total by (simp add: morsel_rows_def morsel_range_def comp_def)
    from tiles_cover [OF t _ this] show "in_range r (morsel_range (es ! i)) = (i = r div unat sz)"
      using that(2) w by (auto simp del: upt_Suc)
  qed
  ultimately show ?thesis using fixed_layout_row [OF assms(2)] by blast
qed

definition morsels_example :: "row_morsel list" where
  "morsels_example = [
     \<lparr>rm_morsel_id = 9, rm_first_row_in_segment = 0, rm_row_count = 64, rm_flags = 0, rm_stats_ref = 0, rm_checksum = 0\<rparr>,
     \<lparr>rm_morsel_id = 4, rm_first_row_in_segment = 64, rm_row_count = 36, rm_flags = 0, rm_stats_ref = 0, rm_checksum = 0\<rparr>]"

definition pages_example :: "column_page list" where
  "pages_example = [
     \<lparr>cp_column_id = 1, cp_morsel_id = 4, cp_row_count = 36, cp_non_null_count = 36, cp_null_count = 0, cp_encoding_root = 0,
       cp_page_offset = 0, cp_page_length = 8, cp_uncompressed_length = 8, cp_stats_ref = 0, cp_flags = 0, cp_checksum = 0\<rparr>,
     \<lparr>cp_column_id = 1, cp_morsel_id = 9, cp_row_count = 64, cp_non_null_count = 64, cp_null_count = 0, cp_encoding_root = 0,
       cp_page_offset = 8, cp_page_length = 8, cp_uncompressed_length = 8, cp_stats_ref = 0, cp_flags = 0, cp_checksum = 0\<rparr>]"

lemma segment_rows_covered_witness:
  "in_range 70 (morsel_range (morsels_example ! 1)) \<and> sum_list (map (unat \<circ> cp_row_count) pages_example) = 100"
proof -
  let ?bs = "morsels_serialize (\<lambda>_. 0) morsels_example"
  have l: "length ?bs = 48" by (simp add: morsels_serialize_def morsels_example_def row_morsel_serialize_eq)
  have v: "morsels_validate morsels_example = Ok ()"
    by (simp add: morsels_validate_def morsels_example_def checked_add_word_def)
  have "parse_array (row_morsel_parse (\<lambda>_. 0)) 24 2 ?bs 0 = Ok morsels_example"
    using l by (subst row_morsel.parse_array_iff)
      (simp_all add: morsels_serialize_def sub_def, simp_all add: morsels_example_def row_morsel_sealed_def)
  then have p: "morsels_parse (\<lambda>_. 0) ?bs 2 = Ok morsels_example"
    using l v by (simp add: morsels_parse_def ROW_MORSEL_ENTRY_LEN_def checked_mul_def usize_limit_def)
  have f: "validate_fixed_layout morsels_example 100 2 64 = Ok ()"
    by (simp add: validate_fixed_layout_def morsels_example_def fixed_layout_entry_def Let_def)
  have "distinct (map rm_morsel_id morsels_example)" using v by (simp add: morsels_validate_iff)
  then have c: "validate_page_index_coverage morsels_example pages_example = Ok ()"
    by (simp add: page_index_coverage_iff) (simp add: morsels_example_def pages_example_def page_key_def morsel_key_def)
  from segment_rows_covered [OF p f c, of 70 1] show ?thesis by (simp add: morsels_example_def)
qed

end
