(* ===== verification/Encodings.thy ===== *)
theory Encodings
  imports Wire
begin

text \<open>
  The contract of an encoding cascade (\<^verbatim>\<open>encoding/mod.rs\<close>) as the locales
  \<open>encoding\<close> and \<open>wire_encoding\<close>, and the cascades without runs:
  \<^verbatim>\<open>encoding/plain.rs\<close>, \<^verbatim>\<open>encoding/constant.rs\<close>,
  \<^verbatim>\<open>encoding/delta.rs\<close> and \<^verbatim>\<open>encoding/frame_of_reference.rs\<close>
  (all in \<^verbatim>\<open>crates/cove-core/src\<close>).
\<close>

section \<open>The contract\<close>

definition assert_parity :: "('p \<Rightarrow> i64 list res) \<Rightarrow> ('p \<Rightarrow> i64 list res) \<Rightarrow> 'p \<Rightarrow> unit res" where
  "assert_parity canonical_decode fast_decode payload =
     and_then (canonical_decode payload) (\<lambda>canon.
     and_then (fast_decode payload) (\<lambda>fast.
     if canon \<noteq> fast
     then Fail (BadSection (''fast decode disagrees with canonical decode (Spec ''
       @ [CHR 0xC2, CHR 0xA7] @ ''21.4)''))
     else Ok ()))"

text \<open>
  \<open>wf\<close> is the invariant of the payloads the parser builds. On them the
  decoder returns or reports an error but never panics, and the fast path
  agrees with the canonical one.
\<close>

locale encoding =
  fixes canonical_decode fast_decode :: "'p \<Rightarrow> i64 list res" and wf :: "'p \<Rightarrow> bool"
  assumes decode_no_panic: "wf p \<Longrightarrow> no_panic (canonical_decode p)"
    and parity: "wf p \<Longrightarrow> fast_decode p = canonical_decode p"
begin

lemma assert_parity_outcome:
  "wf p \<Longrightarrow> assert_parity canonical_decode fast_decode p = map_ok (\<lambda>_. ()) (canonical_decode p)"
  by (cases "canonical_decode p") (simp_all add: assert_parity_def parity)

lemma fast_no_panic: "wf p \<Longrightarrow> no_panic (fast_decode p)"
  by (simp add: parity decode_no_panic)

end

locale wire_encoding = encoding +
  fixes parse :: "bytes \<Rightarrow> 'a res" and encode :: "'a \<Rightarrow> bytes"
  assumes parse_no_panic: "no_panic (parse bs)"
    and parse_wf: "parse bs = Ok p \<Longrightarrow> wf p"
    and parse_encode: "wf p \<Longrightarrow> parse (encode p) = Ok p"
begin

text \<open>Reading a page is safe whatever its bytes, and encoding is injective.\<close>

lemma read_page_no_panic: "no_panic (and_then (parse bs) canonical_decode)"
  by (rule no_panic_and_then) (auto simp: parse_no_panic decode_no_panic parse_wf)

lemma read_page_parity: "and_then (parse bs) fast_decode = and_then (parse bs) canonical_decode"
  by (cases "parse bs") (auto simp: parity parse_wf)

lemma encode_inject: "wf p \<Longrightarrow> wf q \<Longrightarrow> encode p = encode q \<longleftrightarrow> p = q"
  by (metis parse_encode sum.inject(2))

lemma parse_image: "{p. \<exists>bs. parse bs = Ok p} = {p. wf p}"
  using parse_wf parse_encode by blast

end

section \<open>PlainFixed\<close>

record plain_fixed_payload =
  pf_values :: "i64 list"

definition plain_fixed_parse :: "bytes \<Rightarrow> plain_fixed_payload res" where
  "plain_fixed_parse bs =
     (if length bs mod 8 \<noteq> 0 then Fail OffsetRange
      else and_then (try_map (\<lambda>i. read_i64_le_checked bs (i * 8)) [0..<length bs div 8])
             (\<lambda>values. Ok \<lparr>pf_values = values\<rparr>))"

definition plain_fixed_encode :: "plain_fixed_payload \<Rightarrow> bytes" where
  "plain_fixed_encode p = concat (map (le_bytes 8) (pf_values p))"

definition plain_fixed_decode :: "plain_fixed_payload \<Rightarrow> i64 list res" where
  "plain_fixed_decode p = Ok (pf_values p)"

definition plain_fixed_wf :: "plain_fixed_payload \<Rightarrow> bool" where
  "plain_fixed_wf p \<longleftrightarrow> length (pf_values p) * 8 < usize_limit"

lemma plain_fixed_parse_no_panic [no_panic_intros, simp]: "no_panic (plain_fixed_parse bs)"
  by (auto simp: plain_fixed_parse_def intro!: no_panic_intros)

lemma plain_fixed_parse_encode:
  assumes "plain_fixed_wf p"
  shows "plain_fixed_parse (plain_fixed_encode p) = Ok p"
proof -
  have l: "length (plain_fixed_encode p) = length (pf_values p) * 8"
    using length_concat_fixed [of "pf_values p" "le_bytes 8" 8] by (simp add: plain_fixed_encode_def)
  have "try_map (\<lambda>i. read_i64_le_checked (plain_fixed_encode p) (i * 8)) [0..<length (pf_values p)] = Ok (pf_values p)"
    using i64_reader.read_array [of "[]" "pf_values p" 0 "[]"] assms
    by (simp add: plain_fixed_encode_def plain_fixed_wf_def)
  then show ?thesis by (simp add: plain_fixed_parse_def l)
qed

lemma plain_fixed_parse_Ok:
  assumes "plain_fixed_parse bs = Ok p"
  shows "plain_fixed_wf p \<and> plain_fixed_encode p = bs"
proof -
  from assms obtain vs where v: "try_map (\<lambda>i. read_i64_le_checked bs (0 + i * 8)) [0..<length bs div 8] = Ok vs"
    and p: "p = \<lparr>pf_values = vs\<rparr>" and m: "length bs mod 8 = 0"
    by (auto simp: plain_fixed_parse_def and_then_eq_Inr_iff split: if_splits)
  note a = i64_reader.read_array_Ok [OF v]
  have n: "length bs div 8 * 8 = length bs" using m by auto
  then have "sub bs 0 (length bs div 8 * 8) = bs" by (simp add: sub_all)
  moreover have "length vs * 8 < usize_limit"
    using a n by (cases "length bs div 8 = 0") (auto simp: usize_limit_def)
  ultimately show ?thesis using a p by (simp add: plain_fixed_encode_def plain_fixed_wf_def)
qed

interpretation plain_fixed: wire_encoding plain_fixed_decode plain_fixed_decode plain_fixed_wf
  plain_fixed_parse plain_fixed_encode
  by unfold_locales (auto simp: plain_fixed_decode_def plain_fixed_parse_encode dest: plain_fixed_parse_Ok)

section \<open>PlainVarint\<close>

record plain_varint_payload =
  pv_values :: "u64 list"

function plain_varint_loop :: "bytes \<Rightarrow> nat \<Rightarrow> u64 list res" where
  "plain_varint_loop bs pos =
     (if pos < length bs then
        and_then (slice_from bs pos) (\<lambda>tail.
        and_then (decode_u64_leb128 tail) (\<lambda>(z, used).
        and_then (plain_varint_loop bs (pos + used)) (\<lambda>values. Ok (z # values))))
      else Ok [])"
  by pat_completeness auto

termination
  by (relation "measure (\<lambda>(bs, pos). length bs - pos)") (auto dest: decode_u64_leb128_Ok(1))

declare plain_varint_loop.simps [simp del]

definition plain_varint_parse :: "bytes \<Rightarrow> plain_varint_payload res" where
  "plain_varint_parse bs = and_then (plain_varint_loop bs 0) (\<lambda>values. Ok \<lparr>pv_values = values\<rparr>)"

definition plain_varint_encode :: "plain_varint_payload \<Rightarrow> bytes" where
  "plain_varint_encode p = fold (\<lambda>v out. append_u64_leb128 out v) (pv_values p) []"

definition i64_try_from :: "u64 \<Rightarrow> i64 option" where
  "i64_try_from v = (if v < 2 ^ 63 then Some v else None)"

definition plain_varint_decode :: "plain_varint_payload \<Rightarrow> i64 list res" where
  "plain_varint_decode p = try_map (\<lambda>v. ok_or ArithOverflow (i64_try_from v)) (pv_values p)"

lemma fold_append_leb128:
  "fold (\<lambda>v out. append_u64_leb128 out (f v)) vs out = out @ concat (map (\<lambda>v. encode_u64_leb128 (f v)) vs)"
  by (induction vs arbitrary: out) (auto simp: append_u64_leb128_append)

lemma plain_varint_encode_eq: "plain_varint_encode p = concat (map encode_u64_leb128 (pv_values p))"
  using fold_append_leb128 [of "\<lambda>v. v"] by (simp add: plain_varint_encode_def)

lemma plain_varint_loop_encode:
  "pos = length pre \<Longrightarrow> plain_varint_loop (pre @ concat (map encode_u64_leb128 vs)) pos = Ok vs"
proof (induction vs arbitrary: pre pos)
  case Nil
  then show ?case by (simp add: plain_varint_loop.simps)
next
  case (Cons v vs)
  let ?e = "encode_u64_leb128 v" and ?bs = "pre @ concat (map encode_u64_leb128 (v # vs))"
  have "0 < length ?e" by (rule encode_u64_leb128_length)
  then have "pos < length ?bs" using Cons.prems by simp
  moreover have "slice_from ?bs pos = (Ok (?e @ concat (map encode_u64_leb128 vs)) :: bytes res)"
    using Cons.prems by (simp add: slice_from_def)
  moreover have "plain_varint_loop ?bs (pos + length ?e) = Ok vs"
    using Cons.IH [of "pos + length ?e" "pre @ ?e"] Cons.prems by simp
  ultimately show ?case
    by (subst plain_varint_loop.simps) (simp add: leb128.dec_enc)
qed

lemma plain_varint_parse_encode: "plain_varint_parse (plain_varint_encode p) = Ok p"
  using plain_varint_loop_encode [of 0 "[]" "pv_values p"]
  by (simp add: plain_varint_parse_def plain_varint_encode_eq)

lemma no_panic_plain_varint_loop: "no_panic (plain_varint_loop bs pos)"
proof (induction bs pos rule: plain_varint_loop.induct)
  case (1 bs pos)
  show ?case
    by (subst plain_varint_loop.simps) (auto simp: slice_from_def intro!: no_panic_intros 1)
qed

lemma plain_varint_parse_no_panic [no_panic_intros, simp]: "no_panic (plain_varint_parse bs)"
  by (auto simp: plain_varint_parse_def intro!: no_panic_intros no_panic_plain_varint_loop)

interpretation plain_varint: wire_encoding plain_varint_decode plain_varint_decode "\<lambda>_. True"
  plain_varint_parse plain_varint_encode
  by unfold_locales
    (auto simp: plain_varint_decode_def plain_varint_parse_encode intro!: no_panic_intros)

section \<open>Constant\<close>

record constant_payload =
  cp_value :: i64
  cp_row_count :: u64

definition CONSTANT_ENCODED_LEN :: nat where
  "CONSTANT_ENCODED_LEN = 16"

definition constant_parse :: "bytes \<Rightarrow> constant_payload res" where
  "constant_parse bs =
     (if length bs < CONSTANT_ENCODED_LEN then Fail BufferTooShort
      else
        and_then (read_i64_le_checked bs 0) (\<lambda>value.
        and_then (read_u64_le_checked bs 8) (\<lambda>row_count.
        if row_count > 0xFFFFFFFF then Fail PageCorrupt
        else Ok \<lparr>cp_value = value, cp_row_count = row_count\<rparr>)))"

definition constant_encode :: "constant_payload \<Rightarrow> bytes" where
  "constant_encode p =
     (let out = replicate CONSTANT_ENCODED_LEN 0;
          out = copy_at out 0 (le_bytes 8 (cp_value p))
      in copy_at out 8 (le_bytes 8 (cp_row_count p)))"

definition constant_raw_value_bits :: "constant_payload \<Rightarrow> u64" where
  "constant_raw_value_bits p = of_le (le_bytes 8 (cp_value p))"

definition constant_canonical_decode :: "constant_payload \<Rightarrow> i64 list res" where
  "constant_canonical_decode p = Ok (replicate (unat (cp_row_count p)) (cp_value p))"

definition constant_fast_decode :: "constant_payload \<Rightarrow> i64 list res" where
  "constant_fast_decode p = Ok (replicate (unat (cp_row_count p)) (cp_value p))"

definition constant_wf :: "constant_payload \<Rightarrow> bool" where
  "constant_wf p \<longleftrightarrow> cp_row_count p \<le> 0xFFFFFFFF"

lemma constant_encode_eq:
  "constant_encode p = le_bytes 8 (cp_value p) @ le_bytes 8 (cp_row_count p)"
  by (simp add: constant_encode_def CONSTANT_ENCODED_LEN_def wire_simps)

lemma constant_parse_encode_rest:
  "constant_wf p \<Longrightarrow> constant_parse (constant_encode p @ rest) = Ok p"
  unfolding constant_parse_def constant_encode_eq
  by (simp add: CONSTANT_ENCODED_LEN_def constant_wf_def wire_simps usize_limit_def sub_def)

lemma constant_parse_Ok: "constant_parse bs = Ok p \<Longrightarrow> constant_wf p"
  by (auto simp: constant_parse_def constant_wf_def and_then_eq_Inr_iff split: if_splits)

interpretation constant_codec: fixed_codec constant_encode constant_parse CONSTANT_ENCODED_LEN constant_wf
  by (unfold_locales; (rule constant_parse_encode_rest; assumption)?)
    (simp add: constant_encode_eq CONSTANT_ENCODED_LEN_def)

lemma constant_parse_no_panic [no_panic_intros, simp]: "no_panic (constant_parse bs)"
  by (auto simp: constant_parse_def intro!: no_panic_intros)

interpretation const_enc: wire_encoding constant_canonical_decode constant_fast_decode constant_wf
  constant_parse constant_encode
  by unfold_locales
    (auto simp: constant_canonical_decode_def constant_fast_decode_def constant_codec.dec_enc_exact
      dest: constant_parse_Ok)

section \<open>Delta\<close>

record delta_payload =
  dp_base :: i64
  dp_deltas :: "i64 list"

fun delta_parse_loop :: "bytes \<Rightarrow> nat \<Rightarrow> nat \<Rightarrow> i64 list res" where
  "delta_parse_loop bs 0 pos = Ok []"
| "delta_parse_loop bs (Suc n) pos =
     and_then (slice_from bs pos) (\<lambda>tail.
     and_then (decode_u64_leb128 tail) (\<lambda>(z, used).
     and_then (delta_parse_loop bs n (pos + used)) (\<lambda>deltas. Ok (zigzag_decode_i64 z # deltas))))"

definition delta_parse :: "bytes \<Rightarrow> delta_payload res" where
  "delta_parse bs =
     (if length bs < 12 then Fail BufferTooShort
      else
        and_then (read_i64_le_checked bs 0) (\<lambda>base.
        and_then (read_u32_le_checked bs 8) (\<lambda>n.
        and_then (delta_parse_loop bs (unat n) 12) (\<lambda>deltas.
        Ok \<lparr>dp_base = base, dp_deltas = deltas\<rparr>))))"

definition delta_encode :: "delta_payload \<Rightarrow> bytes" where
  "delta_encode p =
     fold (\<lambda>d out. append_u64_leb128 out (zigzag_encode_i64 d)) (dp_deltas p)
       (le_bytes 8 (dp_base p) @ le_bytes 4 (of_nat (length (dp_deltas p)) :: u32))"

fun delta_decode_loop :: "i64 \<Rightarrow> i64 list \<Rightarrow> i64 list" where
  "delta_decode_loop cur [] = []"
| "delta_decode_loop cur (d # ds) = (let cur = cur + d in cur # delta_decode_loop cur ds)"

definition delta_decode :: "delta_payload \<Rightarrow> i64 list res" where
  "delta_decode p = Ok (dp_base p # delta_decode_loop (dp_base p) (dp_deltas p))"

definition delta_wf :: "delta_payload \<Rightarrow> bool" where
  "delta_wf p \<longleftrightarrow> length (dp_deltas p) < 2 ^ 32"

lemma delta_parse_loop_encode:
  "pos = length pre \<Longrightarrow>
   delta_parse_loop (pre @ concat (map (\<lambda>d. encode_u64_leb128 (zigzag_encode_i64 d)) ds) @ post) (length ds) pos = Ok ds"
proof (induction ds arbitrary: pre pos)
  case (Cons d ds)
  let ?e = "encode_u64_leb128 (zigzag_encode_i64 d)"
  show ?case
    using Cons.IH [of "pos + length ?e" "pre @ ?e"] Cons.prems
    by (simp add: slice_from_def leb128.dec_enc zigzag_decode_encode)
qed simp

lemma delta_encode_eq:
  "delta_encode p = le_bytes 8 (dp_base p) @ le_bytes 4 (of_nat (length (dp_deltas p)) :: u32)
     @ concat (map (\<lambda>d. encode_u64_leb128 (zigzag_encode_i64 d)) (dp_deltas p))"
  by (simp add: delta_encode_def fold_append_leb128)

lemma delta_parse_encode:
  assumes "delta_wf p"
  shows "delta_parse (delta_encode p @ rest) = Ok p"
proof -
  let ?c = "of_nat (length (dp_deltas p)) :: u32"
  have n: "unat ?c = length (dp_deltas p)"
    using assms unat_of_nat_less [of "length (dp_deltas p)", where ?'a = 32] by (simp add: delta_wf_def)
  have "delta_parse_loop (delta_encode p @ rest) (length (dp_deltas p)) 12 = Ok (dp_deltas p)"
    using delta_parse_loop_encode [of 12 "le_bytes 8 (dp_base p) @ le_bytes 4 ?c" "dp_deltas p" rest]
    by (simp add: delta_encode_eq)
  moreover have "read_i64_le_checked (delta_encode p @ rest) 0 = Ok (dp_base p)"
    "read_u32_le_checked (delta_encode p @ rest) 8 = Ok ?c"
    by (simp_all add: delta_encode_eq wire_simps usize_limit_def sub_def)
  moreover have "\<not> length (delta_encode p @ rest) < 12" by (simp add: delta_encode_eq)
  ultimately show ?thesis by (simp add: delta_parse_def n)
qed

lemma delta_parse_loop_bounds:
  "pos \<le> length bs \<Longrightarrow> no_panic (delta_parse_loop bs n pos) \<and>
     (\<forall>ds. delta_parse_loop bs n pos = Ok ds \<longrightarrow> length ds = n)"
proof (induction n arbitrary: pos)
  case (Suc n)
  show ?case
  proof (cases "decode_u64_leb128 (drop pos bs)")
    case (Inl e)
    then show ?thesis using Suc.prems no_panic_decode_u64_leb128 [of "drop pos bs"]
      by (simp add: slice_from_def no_panic_def)
  next
    case (Inr zu)
    obtain z used where zu: "zu = (z, used)" by (cases zu)
    have "used \<le> length (drop pos bs)" using decode_u64_leb128_Ok(2) Inr zu by blast
    then have "pos + used \<le> length bs" using Suc.prems by simp
    note IH = Suc.IH [OF this]
    show ?thesis using IH Inr zu Suc.prems
      by (auto simp: slice_from_def no_panic_def and_then_eq_Inr_iff and_then_eq_Inl_iff)
  qed
qed simp

lemma delta_parse_no_panic [no_panic_intros, simp]: "no_panic (delta_parse bs)"
  using delta_parse_loop_bounds [of 12 bs]
  by (auto simp: delta_parse_def intro!: no_panic_intros)

lemma delta_parse_Ok: "delta_parse bs = Ok p \<Longrightarrow> delta_wf p"
  using delta_parse_loop_bounds [of 12 bs] unat_u32_less
  by (auto simp: delta_parse_def delta_wf_def and_then_eq_Inr_iff split: if_splits)

interpretation delta: wire_encoding delta_decode delta_decode delta_wf delta_parse delta_encode
proof
  fix p :: delta_payload and bs
  show "delta_wf p \<Longrightarrow> delta_parse (delta_encode p) = Ok p"
    using delta_parse_encode [of p "[]"] by simp
qed (auto simp: delta_decode_def dest: delta_parse_Ok)

text \<open>The decoded values are the wrapping prefix sums of the deltas.\<close>

lemma delta_decode_loop_nth:
  "i < length ds \<Longrightarrow> delta_decode_loop cur ds ! i = cur + sum_list (take (Suc i) ds)"
  by (induction ds arbitrary: cur i) (auto simp: Let_def nth_Cons add.assoc split: nat.splits)

lemma length_delta_decode_loop [simp]: "length (delta_decode_loop cur ds) = length ds"
  by (induction ds arbitrary: cur) (auto simp: Let_def)

section \<open>FrameOfReference\<close>

record for_payload =
  fp_reference :: i64
  fp_offsets :: "i64 list"

definition for_parse :: "bytes \<Rightarrow> for_payload res" where
  "for_parse bs =
     (if length bs < 12 then Fail BufferTooShort
      else
        and_then (read_i64_le_checked bs 0) (\<lambda>reference.
        and_then (read_u32_le_checked bs 8) (\<lambda>c.
        let n = unat c in
        and_then (ok_or ArithOverflow (Option.bind (checked_mul n 8) (\<lambda>b. checked_add b 12))) (\<lambda>need.
        if length bs < need then Fail BufferTooShort
        else and_then (try_map (\<lambda>i. read_i64_le_checked bs (12 + i * 8)) [0..<n]) (\<lambda>offsets.
          Ok \<lparr>fp_reference = reference, fp_offsets = offsets\<rparr>)))))"

definition for_encode :: "for_payload \<Rightarrow> bytes" where
  "for_encode p = le_bytes 8 (fp_reference p) @ le_bytes 4 (of_nat (length (fp_offsets p)) :: u32)
     @ concat (map (le_bytes 8) (fp_offsets p))"

definition for_decode :: "for_payload \<Rightarrow> i64 list res" where
  "for_decode p = Ok (map (\<lambda>off. fp_reference p + off) (fp_offsets p))"

definition for_wf :: "for_payload \<Rightarrow> bool" where
  "for_wf p \<longleftrightarrow> length (fp_offsets p) < 2 ^ 32"

lemma array_need:
  "n < 2 ^ 32 \<Longrightarrow> k \<le> 16 \<Longrightarrow> h \<le> 64 \<Longrightarrow>
   Option.bind (checked_mul n k) (\<lambda>b. checked_add b h) = Some (n * k + h)"
proof -
  assume a: "n < 2 ^ 32" "k \<le> 16" "h \<le> 64"
  then have "n * k \<le> 2 ^ 32 * 16" by (intro mult_le_mono) auto
  with a show ?thesis by (simp add: checked_mul_def checked_add_def usize_limit_def)
qed

lemma for_parse_encode:
  assumes "for_wf p"
  shows "for_parse (for_encode p @ rest) = Ok p"
proof -
  define c where "c = (of_nat (length (fp_offsets p)) :: u32)"
  define bs where "bs = for_encode p @ rest"
  have e: "bs = le_bytes 8 (fp_reference p) @ le_bytes 4 c @ concat (map (le_bytes 8) (fp_offsets p)) @ rest"
    by (simp add: bs_def for_encode_def c_def)
  have n32: "length (fp_offsets p) < 2 ^ 32" using assms by (simp add: for_wf_def)
  then have n: "unat c = length (fp_offsets p)" unfolding c_def by (intro unat_of_nat_less) simp
  have r: "read_i64_le_checked bs 0 = Ok (fp_reference p)" "read_u32_le_checked bs 8 = Ok c"
    by (simp_all add: e wire_simps usize_limit_def sub_def)
  have l: "length bs = 12 + 8 * length (fp_offsets p) + length rest"
    using length_concat_fixed [of "fp_offsets p" "le_bytes 8" 8] by (simp add: e)
  have t: "try_map (\<lambda>i. read_i64_le_checked bs (12 + i * 8)) [0..<length (fp_offsets p)] = Ok (fp_offsets p)"
  proof -
    let ?pre = "le_bytes 8 (fp_reference p) @ le_bytes 4 c"
    have "length ?pre + length (fp_offsets p) * 8 < usize_limit" "12 = length ?pre"
      using n32 by (simp_all add: usize_limit_def)
    from i64_reader.read_array [OF this, of rest] show ?thesis by (simp only: e append_assoc)
  qed
  show ?thesis using l unfolding bs_def [symmetric] for_parse_def Let_def r and_then_simps n
      array_need [OF n32, of 8 12, simplified]
    by (simp add: t)
qed

lemma for_parse_no_panic [no_panic_intros, simp]: "no_panic (for_parse bs)"
  by (auto simp: for_parse_def Let_def intro!: no_panic_intros)

lemma for_parse_Ok: "for_parse bs = Ok p \<Longrightarrow> for_wf p"
  using unat_u32_less
  by (auto simp: for_parse_def for_wf_def Let_def and_then_eq_Inr_iff dest!: try_map_length split: if_splits)

interpretation frame_of_reference: wire_encoding for_decode for_decode for_wf for_parse for_encode
proof
  fix p :: for_payload and bs
  show "for_wf p \<Longrightarrow> for_parse (for_encode p) = Ok p"
    using for_parse_encode [of p "[]"] by simp
qed (auto simp: for_decode_def dest: for_parse_Ok)

section \<open>Properties\<close>

text \<open>
  The PlainFixed parser accepts exactly the byte strings the encoder
  writes (whole eight-byte values and nothing else) and returns their values.
\<close>

theorem plain_fixed_exact:
  "plain_fixed_parse bs = Ok p \<longleftrightarrow> plain_fixed_wf p \<and> plain_fixed_encode p = bs"
  using plain_fixed_parse_Ok plain_fixed_parse_encode by blast

text \<open>
  The cascades whose encoder is in the library survive the wire: for
  every payload that meets its parser's invariant (at most \<open>2 ^ 32 - 1\<close> rows for a
  Constant page, fewer than \<open>2 ^ 32\<close> items for Delta and FrameOfReference), parsing
  the encoded payload returns it; a PlainVarint payload needs no condition.
\<close>

theorem simple_cascades_roundtrip:
  assumes "constant_wf c" "delta_wf d" "for_wf f"
  shows "constant_parse (constant_encode c) = Ok c \<and> delta_parse (delta_encode d) = Ok d \<and>
    for_parse (for_encode f) = Ok f \<and> plain_varint_parse (plain_varint_encode v) = Ok v"
  using assms const_enc.parse_encode delta.parse_encode frame_of_reference.parse_encode plain_varint.parse_encode
  by blast

lemma simple_cascades_roundtrip_witness:
  "delta_parse (delta_encode \<lparr>dp_base = 5, dp_deltas = [-1, 300]\<rparr>) = Ok \<lparr>dp_base = 5, dp_deltas = [-1, 300]\<rparr>"
  using simple_cascades_roundtrip [of "\<lparr>cp_value = 1, cp_row_count = 2\<rparr>" "\<lparr>dp_base = 5, dp_deltas = [-1, 300]\<rparr>"
    "\<lparr>fp_reference = 0, fp_offsets = []\<rparr>"]
  by (simp add: constant_wf_def delta_wf_def for_wf_def word_le_nat_alt)

text \<open>
  A Delta page decodes to the wrapping prefix sums of its deltas: row
  \<open>i\<close> is the base plus the first \<open>i\<close> deltas, modulo \<open>2 ^ 64\<close>.
\<close>

theorem delta_decode_prefix_sums:
  "delta_decode p = Ok (map (\<lambda>i. dp_base p + sum_list (take i (dp_deltas p))) [0..<Suc (length (dp_deltas p))])"
proof -
  have "dp_base p # delta_decode_loop (dp_base p) (dp_deltas p) =
      map (\<lambda>i. dp_base p + sum_list (take i (dp_deltas p))) [0..<Suc (length (dp_deltas p))]"
    by (rule nth_equalityI) (auto simp: nth_Cons delta_decode_loop_nth simp del: upt_Suc split: nat.splits)
  then show ?thesis by (simp add: delta_decode_def del: upt_Suc)
qed

end
