(* ===== verification/Overrides.thy ===== *)
theory Overrides
  imports Encodings
begin

text \<open>
  The cascades that patch single rows: \<^verbatim>\<open>encoding/sparse.rs\<close> (a fill value
  with overrides) and \<^verbatim>\<open>encoding/patched_base.rs\<close> (base values with
  patches). Both parsers demand strictly increasing positions inside the page.
\<close>

section \<open>Parsing\<close>

record sparse_payload =
  sp_row_count :: u32
  sp_fill :: i64
  sp_overrides :: "(u32 \<times> i64) list"

fun sparse_parse_loop :: "bytes \<Rightarrow> u32 \<Rightarrow> nat \<Rightarrow> nat \<Rightarrow> u32 option \<Rightarrow> (u32 \<times> i64) list res" where
  "sparse_parse_loop bs row_count i 0 prev = Ok []"
| "sparse_parse_loop bs row_count i (Suc n) prev =
     (let off = 16 + i * 12 in
      and_then (read_u32_le_checked bs off) (\<lambda>p.
      and_then (read_i64_le_checked bs (off + 4)) (\<lambda>v.
      if (case prev of Some prev_pos \<Rightarrow> p \<le> prev_pos | None \<Rightarrow> False) then Fail PageCorrupt
      else if row_count \<le> p then Fail PageCorrupt
      else and_then (sparse_parse_loop bs row_count (i + 1) n (Some p)) (\<lambda>os. Ok ((p, v) # os)))))"

definition sparse_parse :: "bytes \<Rightarrow> sparse_payload res" where
  "sparse_parse bs =
     (if length bs < 16 then Fail BufferTooShort
      else
        and_then (read_u32_le_checked bs 0) (\<lambda>row_count.
        and_then (read_i64_le_checked bs 4) (\<lambda>fill.
        and_then (read_u32_le_checked bs 12) (\<lambda>c.
        let oc = unat c in
        and_then (ok_or ArithOverflow (Option.bind (checked_mul oc 12) (\<lambda>b. checked_add b 16))) (\<lambda>need.
        if length bs < need then Fail BufferTooShort
        else
          and_then (sparse_parse_loop bs row_count 0 oc None) (\<lambda>overrides.
          Ok \<lparr>sp_row_count = row_count, sp_fill = fill, sp_overrides = overrides\<rparr>))))))"

record patched_base_payload =
  pb_base :: "i64 list"
  pb_patches :: "(u32 \<times> i64) list"

fun patched_parse_loop :: "bytes \<Rightarrow> nat \<Rightarrow> nat \<Rightarrow> nat \<Rightarrow> u32 option \<Rightarrow> (u32 \<times> i64) list res" where
  "patched_parse_loop bs n pos 0 prev = Ok []"
| "patched_parse_loop bs n pos (Suc k) prev =
     and_then (read_u32_le_checked bs pos) (\<lambda>p.
     and_then (read_i64_le_checked bs (pos + 4)) (\<lambda>v.
     let pos = pos + 12 in
     if (case prev of Some prev_pos \<Rightarrow> p \<le> prev_pos | None \<Rightarrow> False) then Fail PageCorrupt
     else if n \<le> unat p then Fail PageCorrupt
     else and_then (patched_parse_loop bs n pos k (Some p)) (\<lambda>os. Ok ((p, v) # os))))"

definition patched_base_parse :: "bytes \<Rightarrow> patched_base_payload res" where
  "patched_base_parse bs =
     (if length bs < 4 then Fail BufferTooShort
      else
        and_then (read_u32_le_checked bs 0) (\<lambda>c.
        let n = unat c; pos = 4 in
        and_then (ok_or ArithOverflow (checked_mul n 8)) (\<lambda>base_bytes.
        and_then (ok_or ArithOverflow
          (Option.bind (checked_add pos base_bytes) (\<lambda>e. checked_add e 4))) (\<lambda>base_end.
        if length bs < base_end then Fail BufferTooShort
        else
          and_then (try_map (\<lambda>i. read_i64_le_checked bs (pos + i * 8)) [0..<n]) (\<lambda>base.
          let pos = pos + n * 8 in
          and_then (read_u32_le_checked bs pos) (\<lambda>d.
          let pc = unat d; pos = pos + 4 in
          and_then (ok_or ArithOverflow (checked_mul pc 12)) (\<lambda>patch_bytes.
          and_then (ok_or ArithOverflow (checked_add pos patch_bytes)) (\<lambda>patch_end.
          if length bs < patch_end then Fail BufferTooShort
          else
            and_then (patched_parse_loop bs n pos pc None) (\<lambda>patches.
            Ok \<lparr>pb_base = base, pb_patches = patches\<rparr>)))))))))"

section \<open>Decoding\<close>

text \<open>Sparse writes \<^verbatim>\<open>out[p] = v\<close> and panics out of range; PatchedBase checks first.\<close>

fun sparse_apply :: "i64 list \<Rightarrow> (u32 \<times> i64) list \<Rightarrow> i64 list res" where
  "sparse_apply out [] = Ok out"
| "sparse_apply out ((p, v) # os) = and_then (set_index out (unat p) v) (\<lambda>out. sparse_apply out os)"

definition sparse_decode :: "sparse_payload \<Rightarrow> i64 list res" where
  "sparse_decode p = sparse_apply (replicate (unat (sp_row_count p)) (sp_fill p)) (sp_overrides p)"

fun patched_apply :: "i64 list \<Rightarrow> (u32 \<times> i64) list \<Rightarrow> i64 list res" where
  "patched_apply out [] = Ok out"
| "patched_apply out ((p, v) # os) =
     (let idx = unat p in
      if length out \<le> idx then Fail PageCorrupt
      else and_then (set_index out idx v) (\<lambda>out. patched_apply out os))"

definition patched_base_decode :: "patched_base_payload \<Rightarrow> i64 list res" where
  "patched_base_decode p = patched_apply (pb_base p) (pb_patches p)"

section \<open>The invariant of the parsers\<close>

fun overrides_ok :: "nat \<Rightarrow> u32 option \<Rightarrow> (u32 \<times> i64) list \<Rightarrow> bool" where
  "overrides_ok limit prev [] \<longleftrightarrow> True"
| "overrides_ok limit prev ((p, v) # os) \<longleftrightarrow>
     (case prev of Some q \<Rightarrow> q < p | None \<Rightarrow> True) \<and> unat p < limit \<and> overrides_ok limit (Some p) os"

definition sparse_wf :: "sparse_payload \<Rightarrow> bool" where
  "sparse_wf p \<longleftrightarrow> overrides_ok (unat (sp_row_count p)) None (sp_overrides p)"

definition patched_base_wf :: "patched_base_payload \<Rightarrow> bool" where
  "patched_base_wf p \<longleftrightarrow> overrides_ok (length (pb_base p)) None (pb_patches p)"

lemma sparse_parse_loop_eq:
  "sparse_parse_loop bs rc i n prev = patched_parse_loop bs (unat rc) (16 + i * 12) n prev"
  by (induction n arbitrary: i prev) (simp_all add: Let_def word_le_nat_alt add.commute cong: if_cong)

lemma patched_parse_loop_Ok:
  "patched_parse_loop bs n pos k prev = Ok os \<Longrightarrow> overrides_ok n prev os \<and> length os = k"
proof (induction k arbitrary: pos prev os)
  case (Suc k)
  then obtain p v os' where os: "os = (p, v) # os'" and c: "\<not> (case prev of Some q \<Rightarrow> p \<le> q | None \<Rightarrow> False)"
    and n: "\<not> n \<le> unat p" and r: "patched_parse_loop bs n (pos + 12) k (Some p) = Ok os'"
    by (auto simp: Let_def ok_iffs)
  then show ?case using Suc.IH [OF r] by (auto split: option.splits)
qed simp

lemma no_panic_patched_parse_loop: "no_panic (patched_parse_loop bs n pos k prev)"
  by (induction k arbitrary: pos prev) (auto simp: Let_def intro!: no_panic_intros)

lemma sparse_parse_no_panic [no_panic_intros, simp]: "no_panic (sparse_parse bs)"
  by (auto simp: sparse_parse_def Let_def sparse_parse_loop_eq intro!: no_panic_intros no_panic_patched_parse_loop)

lemma patched_base_parse_no_panic [no_panic_intros, simp]: "no_panic (patched_base_parse bs)"
  by (auto simp: patched_base_parse_def Let_def intro!: no_panic_intros no_panic_patched_parse_loop)

lemma sparse_parse_Ok: "sparse_parse bs = Ok p \<Longrightarrow> sparse_wf p"
  by (auto simp: sparse_parse_def sparse_wf_def Let_def sparse_parse_loop_eq ok_iffs dest: patched_parse_loop_Ok)

lemma patched_base_parse_Ok: "patched_base_parse bs = Ok p \<Longrightarrow> patched_base_wf p"
  by (auto simp: patched_base_parse_def patched_base_wf_def Let_def ok_iffs
      dest!: try_map_length patched_parse_loop_Ok)

section \<open>What the rows hold\<close>

definition override_at :: "(u32 \<times> i64) list \<Rightarrow> nat \<Rightarrow> i64 option" where
  "override_at os r = map_of (map (\<lambda>(p, v). (unat p, v)) os) r"

lemma overrides_ok_above:
  "overrides_ok limit (Some q) os \<Longrightarrow> r \<le> unat q \<Longrightarrow> override_at os r = None"
proof (induction os arbitrary: q)
  case Nil
  then show ?case by (simp add: override_at_def)
next
  case (Cons x os)
  obtain p v where x: "x = (p, v)" by (cases x)
  then have "r < unat p" using Cons.prems by (simp add: word_less_nat_alt)
  then show ?case using Cons.IH [of p] Cons.prems x by (simp add: override_at_def)
qed

lemma sparse_apply_rows:
  "overrides_ok (length out) prev os \<Longrightarrow>
   \<exists>rows. sparse_apply out os = Ok rows \<and> patched_apply out os = Ok rows \<and> length rows = length out \<and>
     (\<forall>r < length out. rows ! r = (case override_at os r of Some v \<Rightarrow> v | None \<Rightarrow> out ! r))"
proof (induction os arbitrary: out prev)
  case Nil
  then show ?case by (simp add: override_at_def)
next
  case (Cons x os)
  obtain p v where x: "x = (p, v)" by (cases x)
  have p: "unat p < length out" and ok: "overrides_ok (length out) (Some p) os"
    using Cons.prems x by auto
  obtain rows where r: "sparse_apply (out[unat p := v]) os = Ok rows"
    "patched_apply (out[unat p := v]) os = Ok rows" "length rows = length out"
    "\<forall>r < length out. rows ! r = (case override_at os r of Some v \<Rightarrow> v | None \<Rightarrow> out[unat p := v] ! r)"
    using Cons.IH [of "out[unat p := v]" "Some p"] ok by auto
  have "override_at os (unat p) = None" using overrides_ok_above [OF ok] by simp
  then have "\<forall>r < length out. rows ! r = (case override_at (x # os) r of Some v \<Rightarrow> v | None \<Rightarrow> out ! r)"
    using r(4) x p by (auto simp: override_at_def nth_list_update split: option.splits)
  then show ?case using r(1-3) p x by (simp add: set_index_def)
qed

lemma sparse_decode_rows:
  assumes "sparse_wf p"
  shows "\<exists>rows. sparse_decode p = Ok rows \<and> length rows = unat (sp_row_count p) \<and>
    (\<forall>r < length rows. rows ! r = (case override_at (sp_overrides p) r of Some v \<Rightarrow> v | None \<Rightarrow> sp_fill p))"
  using sparse_apply_rows [of "replicate (unat (sp_row_count p)) (sp_fill p)" None "sp_overrides p"] assms
  by (auto simp: sparse_decode_def sparse_wf_def split: option.splits)

lemma patched_base_decode_rows:
  assumes "patched_base_wf p"
  shows "\<exists>rows. patched_base_decode p = Ok rows \<and> length rows = length (pb_base p) \<and>
    (\<forall>r < length rows. rows ! r = (case override_at (pb_patches p) r of Some v \<Rightarrow> v | None \<Rightarrow> pb_base p ! r))"
  using sparse_apply_rows [of "pb_base p" None "pb_patches p"] assms
  by (auto simp: patched_base_decode_def patched_base_wf_def)

interpretation sparse: encoding sparse_decode sparse_decode sparse_wf
  by unfold_locales (auto dest: sparse_decode_rows)

interpretation patched_base: encoding patched_base_decode patched_base_decode patched_base_wf
  by unfold_locales (auto dest: patched_base_decode_rows)

section \<open>Properties\<close>

text \<open>
  Every Sparse page the parser accepts decodes without a panic to
  exactly \<open>row_count\<close> rows: the fill value everywhere, except at the override
  positions, which hold their override.
\<close>

theorem sparse_page_rows:
  assumes "sparse_parse bs = Ok p"
  shows "\<exists>rows. sparse_decode p = Ok rows \<and> length rows = unat (sp_row_count p) \<and>
    (\<forall>r < length rows. rows ! r = (case override_at (sp_overrides p) r of Some v \<Rightarrow> v | None \<Rightarrow> sp_fill p))"
  using sparse_decode_rows [OF sparse_parse_Ok [OF assms]] .

lemma sparse_page_rows_witness:
  "\<exists>p rows. sparse_parse (le_bytes 4 (3 :: u32) @ le_bytes 8 (7 :: i64) @ le_bytes 4 (1 :: u32)
       @ le_bytes 4 (1 :: u32) @ le_bytes 8 (9 :: i64)) = Ok p \<and>
     sparse_decode p = Ok rows \<and> length rows = 3 \<and> rows ! 0 = 7 \<and> rows ! 1 = 9"
proof -
  let ?p = "\<lparr>sp_row_count = 3, sp_fill = 7, sp_overrides = [(1, 9)]\<rparr>"
  have p: "sparse_parse (le_bytes 4 (3 :: u32) @ le_bytes 8 (7 :: i64) @ le_bytes 4 (1 :: u32)
       @ le_bytes 4 (1 :: u32) @ le_bytes 8 (9 :: i64)) = Ok ?p"
    by (simp add: sparse_parse_def Let_def checked_mul_def checked_add_def usize_limit_def
        wire_simps sub_def word_le_nat_alt)
  from sparse_page_rows [OF p] obtain rows where "sparse_decode ?p = Ok rows"
    "length rows = unat (sp_row_count ?p)"
    "\<forall>r < length rows. rows ! r = (case override_at (sp_overrides ?p) r of Some v \<Rightarrow> v | None \<Rightarrow> sp_fill ?p)"
    by blast
  then show ?thesis using p by (intro exI [of _ ?p] exI [of _ rows]) (simp add: override_at_def)
qed

text \<open>
  Every PatchedBase page the parser accepts decodes to one row per
  base value: the patch at a patched position, the base value elsewhere; the range
  check of the decoder never fires on it.
\<close>

theorem patched_base_page_rows:
  assumes "patched_base_parse bs = Ok p"
  shows "\<exists>rows. patched_base_decode p = Ok rows \<and> length rows = length (pb_base p) \<and>
    (\<forall>r < length rows. rows ! r = (case override_at (pb_patches p) r of Some v \<Rightarrow> v | None \<Rightarrow> pb_base p ! r))"
  using patched_base_decode_rows [OF patched_base_parse_Ok [OF assms]] .

lemma patched_base_page_rows_witness:
  "\<exists>p rows. patched_base_parse (le_bytes 4 (1 :: u32) @ le_bytes 8 (7 :: i64) @ le_bytes 4 (1 :: u32)
       @ le_bytes 4 (0 :: u32) @ le_bytes 8 (9 :: i64)) = Ok p \<and>
     patched_base_decode p = Ok rows \<and> length rows = 1 \<and> rows ! 0 = 9"
proof -
  let ?p = "\<lparr>pb_base = [7], pb_patches = [(0, 9)]\<rparr>"
  have p: "patched_base_parse (le_bytes 4 (1 :: u32) @ le_bytes 8 (7 :: i64) @ le_bytes 4 (1 :: u32)
       @ le_bytes 4 (0 :: u32) @ le_bytes 8 (9 :: i64)) = Ok ?p"
    by (simp add: patched_base_parse_def Let_def checked_mul_def checked_add_def usize_limit_def
        wire_simps sub_def)
  from patched_base_page_rows [OF p] obtain rows where "patched_base_decode ?p = Ok rows"
    "length rows = length (pb_base ?p)"
    "\<forall>r < length rows. rows ! r = (case override_at (pb_patches ?p) r of Some v \<Rightarrow> v | None \<Rightarrow> pb_base ?p ! r)"
    by blast
  then show ?thesis using p by (intro exI [of _ ?p] exI [of _ rows]) (simp add: override_at_def)
qed

text \<open>
  The invariant of the parser is what protects the Sparse decoder: on a
  payload built by hand with an override past the last row, its write is out of
  range and it panics, where the PatchedBase decoder reports a corrupt page.
\<close>

theorem sparse_decode_panics_out_of_range:
  "sparse_decode \<lparr>sp_row_count = 1, sp_fill = 0, sp_overrides = [(1, 5)]\<rparr> = Panicked \<and>
   patched_base_decode \<lparr>pb_base = [0], pb_patches = [(1, 5)]\<rparr> = Fail PageCorrupt"
  by (simp add: sparse_decode_def patched_base_decode_def set_index_def)

end
