(* ===== verification/Runs.thy ===== *)
theory Runs
  imports Encodings
begin

text \<open>
  The run cascades: \<^verbatim>\<open>encoding/rle.rs\<close> and \<^verbatim>\<open>encoding/run_end.rs\<close>.
  The parsers enforce the rules of the format (no empty run, no two adjacent runs
  with one value, strictly increasing ends), and the decoders agree with the
  row-by-row reading of the runs.
\<close>

section \<open>Run-length encoding\<close>

record rle_payload =
  rle_runs :: "(i64 \<times> u32) list"

fun rle_parse_loop :: "bytes \<Rightarrow> nat \<Rightarrow> nat \<Rightarrow> u64 \<Rightarrow> i64 option \<Rightarrow> ((i64 \<times> u32) list \<times> u64) res" where
  "rle_parse_loop bs i 0 total_rows prev_value = Ok ([], total_rows)"
| "rle_parse_loop bs i (Suc n) total_rows prev_value =
     (let off = 4 + i * 12 in
      and_then (read_i64_le_checked bs off) (\<lambda>v.
      and_then (read_u32_le_checked bs (off + 8)) (\<lambda>len.
      if len = 0 then Fail PageCorrupt
      else if prev_value = Some v then Fail PageCorrupt
      else
        and_then (ok_or ArithOverflow (checked_add_word total_rows (ucast len))) (\<lambda>total_rows.
        and_then (rle_parse_loop bs (i + 1) n total_rows (Some v)) (\<lambda>(runs, total_rows).
        Ok ((v, len) # runs, total_rows))))))"

definition rle_parse :: "bytes \<Rightarrow> rle_payload res" where
  "rle_parse bs =
     (if length bs < 4 then Fail BufferTooShort
      else
        and_then (read_u32_le_checked bs 0) (\<lambda>c.
        let run_count = unat c in
        and_then (ok_or ArithOverflow (Option.bind (checked_mul run_count 12) (\<lambda>b. checked_add b 4))) (\<lambda>need.
        if length bs < need then Fail BufferTooShort
        else
          and_then (rle_parse_loop bs 0 run_count 0 None) (\<lambda>(runs, total_rows).
          if total_rows > 0xFFFFFFFF then Fail PageCorrupt
          else Ok \<lparr>rle_runs = runs\<rparr>))))"

definition rle_encode_run :: "i64 \<times> u32 \<Rightarrow> bytes" where
  "rle_encode_run r = le_bytes 8 (fst r) @ le_bytes 4 (snd r)"

definition rle_encode :: "rle_payload \<Rightarrow> bytes" where
  "rle_encode p = le_bytes 4 (of_nat (length (rle_runs p)) :: u32) @ concat (map rle_encode_run (rle_runs p))"

text \<open>
  \<^verbatim>\<open>out.resize(out.len() + len, v)\<close> appends \<open>len\<close> copies of \<open>v\<close>; the
  capacity computed from the sum of the lengths has no effect on the result.
\<close>

definition rle_canonical_decode :: "rle_payload \<Rightarrow> i64 list res" where
  "rle_canonical_decode p = Ok (fold (\<lambda>(v, len) out. out @ replicate (unat len) v) (rle_runs p) [])"

definition rle_fast_decode :: "rle_payload \<Rightarrow> i64 list res" where
  "rle_fast_decode p = Ok (fold (\<lambda>(v, len) out. out @ replicate (unat len) v) (rle_runs p) [])"

text \<open>The rules of the format, and the number of rows the runs cover.\<close>

fun rle_runs_ok :: "i64 option \<Rightarrow> (i64 \<times> u32) list \<Rightarrow> bool" where
  "rle_runs_ok prev [] \<longleftrightarrow> True"
| "rle_runs_ok prev ((v, len) # runs) \<longleftrightarrow> len \<noteq> 0 \<and> prev \<noteq> Some v \<and> rle_runs_ok (Some v) runs"

definition rle_rows :: "(i64 \<times> u32) list \<Rightarrow> nat" where
  "rle_rows runs = sum_list (map (\<lambda>(v, len). unat len) runs)"

definition rle_wf :: "rle_payload \<Rightarrow> bool" where
  "rle_wf p \<longleftrightarrow> rle_runs_ok None (rle_runs p) \<and> rle_rows (rle_runs p) < 2 ^ 32"

text \<open>A run is a fixed-width record, read back where it was written.\<close>

definition rle_read_run :: "bytes \<Rightarrow> nat \<Rightarrow> (i64 \<times> u32) res" where
  "rle_read_run bs off =
     and_then (read_i64_le_checked bs off) (\<lambda>v.
     and_then (read_u32_le_checked bs (off + 8)) (\<lambda>len. Ok (v, len)))"

interpretation run_reader: exact_reader rle_encode_run rle_read_run 12
proof
  fix x :: "i64 \<times> u32" and pre post bs :: bytes and off :: nat
  show "length (rle_encode_run x) = 12" by (simp add: rle_encode_run_def)
  show "(12 :: nat) < usize_limit" by (simp add: usize_limit_def)
  assume "length pre + 12 < usize_limit"
  then show "rle_read_run (pre @ rle_encode_run x @ post) (length pre) = Ok x"
    by (simp add: rle_read_run_def rle_encode_run_def wire_simps sub_def)
next
  fix x :: "i64 \<times> u32" and bs :: bytes and off :: nat
  assume "rle_read_run bs off = Ok x"
  then have r: "off + 12 < usize_limit" "off + 12 \<le> length bs"
    "fst x = of_le (sub bs off 8)" "snd x = of_le (sub bs (off + 8) 4)"
    by (auto simp: rle_read_run_def and_then_eq_Inr_iff read_Ok_iffs)
  have "le_bytes 8 (fst x) = sub bs off 8" "le_bytes 4 (snd x) = sub bs (off + 8) 4"
    unfolding r(3,4) sub_def using r(2) by (simp_all add: le_bytes_of_le_take)
  with r show "off + 12 < usize_limit \<and> off + 12 \<le> length bs \<and> rle_encode_run x = sub bs off 12"
    by (simp add: rle_encode_run_def sub_join)
qed

lemma rle_rows_simps [simp]:
  "rle_rows [] = 0" "rle_rows ((v, len) # runs) = unat len + rle_rows runs"
  by (simp_all add: rle_rows_def)

lemma rle_parse_loop_iff:
  "rle_parse_loop bs i n total_rows prev = Ok (runs, total') \<longleftrightarrow>
     try_map (\<lambda>j. rle_read_run bs (4 + j * 12)) [i..<i + n] = Ok runs \<and> rle_runs_ok prev runs \<and>
     unat total_rows + rle_rows runs < 2 ^ 64 \<and> unat total' = unat total_rows + rle_rows runs"
proof (induction n arbitrary: i total_rows prev runs)
  case 0
  show ?case using unat_u64_less [of total_rows] by (auto simp: word_unat_eq_iff)
next
  case (Suc n)
  have e: "[i..<Suc (i + n)] = i # [Suc i..<Suc (i + n)]" by (simp add: upt_conv_Cons)
  show ?case
  proof (cases "rle_read_run bs (4 + i * 12)")
    case (Inl a)
    then show ?thesis
      by (cases "read_i64_le_checked bs (4 + i * 12)"; cases "read_u32_le_checked bs (4 + i * 12 + 8)")
        (auto simp: e rle_read_run_def Let_def simp del: upt_Suc)
  next
    case (Inr r)
    obtain v len where r: "r = (v, len)" by (cases r)
    have rd: "read_i64_le_checked bs (4 + i * 12) = Ok v" "read_u32_le_checked bs (4 + i * 12 + 8) = Ok len"
      using Inr r by (auto simp: rle_read_run_def and_then_eq_Inr_iff)
    have u: "unat (ucast len :: u64) = unat len"
      by (simp add: unsigned_ucast_eq take_bit_nat_eq_self less_trans [OF unat_u32_less])
    have c: "checked_add_word total_rows (ucast len) =
        (if unat total_rows + unat len < 2 ^ 64 then Some (total_rows + ucast len) else None)"
      by (simp add: checked_add_word_def u)
    have step: "rle_parse_loop bs i (Suc n) total_rows prev =
      (if len = 0 \<or> prev = Some v then Fail PageCorrupt
       else if unat total_rows + unat len < 2 ^ 64
       then and_then (rle_parse_loop bs (i + 1) n (total_rows + ucast len) (Some v))
              (\<lambda>(runs, total_rows). Ok ((v, len) # runs, total_rows))
       else Fail ArithOverflow)"
      by (simp only: rle_parse_loop.simps Let_def rd and_then_simps c) simp
    have rhs: "try_map (\<lambda>j. rle_read_run bs (4 + j * 12)) [i..<i + Suc n] =
      and_then (try_map (\<lambda>j. rle_read_run bs (4 + j * 12)) [i + 1..<i + 1 + n]) (\<lambda>rs. Ok ((v, len) # rs))"
      using Inr r by (simp add: e del: upt_Suc)
    have u': "unat (total_rows + ucast len) = unat total_rows + unat len"
      if "unat total_rows + unat len < 2 ^ 64"
      using unat_add_no_overflow [of total_rows "ucast len"] u that by simp
    show ?thesis
    proof (cases "runs = []")
      case True
      then show ?thesis unfolding step rhs by (auto simp: and_then_eq_Inr_iff)
    next
      case False
      then obtain x rs where runs: "runs = x # rs" by (cases runs) auto
      show ?thesis
      proof (cases "x = (v, len) \<and> unat total_rows + unat len < 2 ^ 64")
        case True
        then show ?thesis
          unfolding step rhs runs and_then_eq_Inr_iff
          using Suc.IH [of "i + 1" "total_rows + ucast len" "Some v" rs] u'
          by (auto simp: and_then_eq_Inr_iff add.assoc)
      next
        case False
        then show ?thesis unfolding step rhs runs by (auto simp: and_then_eq_Inr_iff)
      qed
    qed
  qed
qed

lemma no_panic_rle_parse_loop: "no_panic (rle_parse_loop bs i n total_rows prev)"
  by (induction n arbitrary: i total_rows prev) (auto simp: Let_def intro!: no_panic_intros)

lemma rle_parse_no_panic [no_panic_intros, simp]: "no_panic (rle_parse bs)"
  by (auto simp: rle_parse_def Let_def intro!: no_panic_intros no_panic_rle_parse_loop)

lemma rle_runs_ok_length: "rle_runs_ok prev runs \<Longrightarrow> length runs \<le> rle_rows runs"
proof (induction prev runs rule: rle_runs_ok.induct)
  case (2 prev v len runs)
  then have "0 < unat len" by (simp add: unat_gt_0)
  with 2 show ?case by simp
qed simp

lemma rle_parse_encode:
  assumes "rle_wf p"
  shows "rle_parse (rle_encode p @ rest) = Ok p"
proof -
  define runs where "runs = rle_runs p"
  define c where "c = (of_nat (length runs) :: u32)"
  define bs where "bs = rle_encode p @ rest"
  have ok: "rle_runs_ok None runs" "rle_rows runs < 2 ^ 32"
    using assms by (simp_all add: rle_wf_def runs_def)
  have n32: "length runs < 2 ^ 32" using rle_runs_ok_length [OF ok(1)] ok(2) by simp
  then have n: "unat c = length runs" unfolding c_def by (intro unat_of_nat_less) simp
  have e: "bs = le_bytes 4 c @ concat (map rle_encode_run runs) @ rest"
    by (simp add: bs_def rle_encode_def c_def runs_def)
  have r: "read_u32_le_checked bs 0 = Ok c" by (simp add: e u32_reader.read_at_0)
  have l: "length bs = 4 + 12 * length runs + length rest"
    using length_concat_fixed [of runs rle_encode_run 12] by (simp add: e run_reader.enc_width)
  have "length (le_bytes 4 c) + length runs * 12 < usize_limit" "4 = length (le_bytes 4 c)"
    using n32 by (simp_all add: usize_limit_def)
  from run_reader.read_array [OF this, of rest]
  have t: "try_map (\<lambda>j. rle_read_run bs (4 + j * 12)) [0..<length runs] = Ok runs"
    by (simp only: e)
  have "unat (of_nat (rle_rows runs) :: u64) = rle_rows runs"
    using ok(2) by (intro unat_of_nat_less) simp
  then have lp: "rle_parse_loop bs 0 (length runs) 0 None = Ok (runs, of_nat (rle_rows runs))"
    using t ok by (simp only: rle_parse_loop_iff) simp
  have "\<not> (of_nat (rle_rows runs) :: u64) > 0xFFFFFFFF"
    using ok(2) \<open>unat (of_nat (rle_rows runs) :: u64) = rle_rows runs\<close>
    by (simp only: word_less_nat_alt) simp
  then show ?thesis
    using l unfolding bs_def [symmetric] rle_parse_def Let_def r and_then_simps n
      array_need [OF n32, of 12 4, simplified]
    by (simp add: lp) (simp add: runs_def)
qed

lemma rle_parse_Ok:
  assumes "rle_parse bs = Ok p"
  shows "rle_wf p \<and> rle_encode p = take (4 + 12 * length (rle_runs p)) bs"
proof -
  from assms obtain c runs total_rows where c: "read_u32_le_checked bs 0 = Ok c" and l: "4 \<le> length bs"
    and lp: "rle_parse_loop bs 0 (unat c) 0 None = Ok (runs, total_rows)" and t: "\<not> 0xFFFFFFFF < total_rows"
    and p: "p = \<lparr>rle_runs = runs\<rparr>"
    by (auto simp: rle_parse_def Let_def and_then_eq_Inr_iff split: if_splits)
  have m: "try_map (\<lambda>j. rle_read_run bs (4 + j * 12)) [0..<unat c] = Ok runs"
    and ok: "rle_runs_ok None runs" and tot: "unat total_rows = rle_rows runs"
    using lp by (simp_all add: rle_parse_loop_iff)
  note a = run_reader.read_array_Ok [OF m]
  have "rle_rows runs < 2 ^ 32" using t tot by (simp add: word_less_nat_alt)
  moreover have cb: "le_bytes 4 c = sub bs 0 4"
    using u32_reader.read_Ok [OF c] by simp
  moreover have "of_nat (length runs) = c" using a by simp
  ultimately show ?thesis using a ok p
    by (simp add: rle_wf_def rle_encode_def sub_join mult.commute) (simp add: sub_def)
qed

text \<open>The decoders agree with the row-by-row reading of the runs.\<close>

definition rle_expand :: "(i64 \<times> u32) list \<Rightarrow> i64 list" where
  "rle_expand runs = concat (map (\<lambda>(v, len). replicate (unat len) v) runs)"

lemma fold_resize: "fold (\<lambda>(v, len) out. out @ replicate (unat len) v) runs out = out @ rle_expand runs"
  by (induction runs arbitrary: out) (auto simp: rle_expand_def)

lemma rle_decode_eq:
  "rle_canonical_decode p = Ok (rle_expand (rle_runs p))"
  "rle_fast_decode p = Ok (rle_expand (rle_runs p))"
  by (simp_all add: rle_canonical_decode_def rle_fast_decode_def fold_resize)

lemma length_rle_expand: "length (rle_expand runs) = rle_rows runs"
  by (induction runs) (auto simp: rle_expand_def)

interpretation rle: wire_encoding rle_canonical_decode rle_fast_decode rle_wf rle_parse rle_encode
proof
  fix p :: rle_payload and bs
  show "rle_wf p \<Longrightarrow> rle_parse (rle_encode p) = Ok p"
    using rle_parse_encode [of p "[]"] by simp
qed (auto simp: rle_decode_eq dest: rle_parse_Ok)

text \<open>
  Under the rules of the format the runs are determined by the rows they
  cover: two well-formed payloads with the same rows are equal.
\<close>

lemma rle_expand_head:
  "rle_runs_ok prev runs \<Longrightarrow> runs \<noteq> [] \<Longrightarrow>
   rle_expand runs \<noteq> [] \<and> hd (rle_expand runs) = fst (hd runs) \<and> prev \<noteq> Some (fst (hd runs))"
proof (cases runs)
  case (Cons r rs)
  assume ok: "rle_runs_ok prev runs"
  obtain v len where r: "r = (v, len)" by (cases r)
  then have "unat len \<noteq> 0" using ok Cons by (simp add: unat_eq_zero)
  then obtain k where "unat len = Suc k" by (cases "unat len") auto
  then show ?thesis using ok Cons r by (simp add: rle_expand_def)
qed simp

lemma replicate_split_unique:
  assumes "replicate n v @ xs = replicate m v @ ys"
    and "xs = [] \<or> hd xs \<noteq> v" "ys = [] \<or> hd ys \<noteq> v"
  shows "n = m \<and> xs = ys"
  using assms
proof (induction n arbitrary: m)
  case 0
  then show ?case by (cases m) auto
next
  case (Suc n)
  then show ?case by (cases m) auto
qed

lemma rle_expand_inject:
  "rle_runs_ok p rs \<Longrightarrow> rle_runs_ok q ss \<Longrightarrow> rle_expand rs = rle_expand ss \<Longrightarrow> rs = ss"
proof (induction rs arbitrary: p q ss)
  case Nil
  then show ?case using rle_expand_head [of q ss] by (cases ss) (auto simp: rle_expand_def)
next
  case (Cons r rs)
  obtain v len where r: "r = (v, len)" by (cases r)
  have ne: "rle_expand (r # rs) \<noteq> []" "hd (rle_expand (r # rs)) = v"
    using rle_expand_head [OF Cons.prems(1)] r by simp_all
  then obtain s ss' where ss: "ss = s # ss'" using Cons.prems(3) by (cases ss) (auto simp: rle_expand_def)
  obtain w len' where s: "s = (w, len')" by (cases s)
  have w: "w = v" using rle_expand_head [OF Cons.prems(2)] ne Cons.prems(3) ss s by simp
  have ok: "rle_runs_ok (Some v) rs" "rle_runs_ok (Some v) ss'"
    using Cons.prems r ss s w by simp_all
  have h: "rle_expand xs = [] \<or> hd (rle_expand xs) \<noteq> v" if "rle_runs_ok (Some v) xs" for xs
    using rle_expand_head [OF that] by (cases xs) (auto simp: rle_expand_def)
  have "replicate (unat len) v @ rle_expand rs = replicate (unat len') v @ rle_expand ss'"
    using Cons.prems(3) r ss s w by (simp add: rle_expand_def)
  then have "unat len = unat len' \<and> rle_expand rs = rle_expand ss'"
    using h ok by (intro replicate_split_unique) auto
  then show ?case using Cons.IH [OF ok] r ss s w by (simp add: word_unat_eq_iff)
qed

section \<open>RunEnd encoding\<close>

record run_end_payload =
  re_values :: "i64 list"
  re_run_ends :: "u32 list"

fun run_end_parse_loop :: "bytes \<Rightarrow> nat \<Rightarrow> nat \<Rightarrow> nat \<Rightarrow> u64 \<Rightarrow> u32 list res" where
  "run_end_parse_loop bs n i 0 prev = Ok []"
| "run_end_parse_loop bs n i (Suc k) prev =
     (let off = 4 + n * 8 + i * 4 in
      and_then (read_u32_le_checked bs off) (\<lambda>e.
      if ucast e \<le> prev then Fail PageCorrupt
      else and_then (run_end_parse_loop bs n (i + 1) k (ucast e)) (\<lambda>ends. Ok (e # ends))))"

definition run_end_parse :: "bytes \<Rightarrow> run_end_payload res" where
  "run_end_parse bs =
     (if length bs < 4 then Fail BufferTooShort
      else
        and_then (read_u32_le_checked bs 0) (\<lambda>c.
        let n = unat c in
        and_then (ok_or ArithOverflow (checked_mul n 8)) (\<lambda>value_bytes.
        and_then (ok_or ArithOverflow (checked_mul n 4)) (\<lambda>end_bytes.
        and_then (ok_or ArithOverflow
          (Option.bind (checked_add 4 value_bytes) (\<lambda>b. checked_add b end_bytes))) (\<lambda>need.
        if length bs < need then Fail BufferTooShort
        else
          and_then (try_map (\<lambda>i. read_i64_le_checked bs (4 + i * 8)) [0..<n]) (\<lambda>vs.
          and_then (run_end_parse_loop bs n 0 n 0) (\<lambda>ends.
          Ok \<lparr>re_values = vs, re_run_ends = ends\<rparr>)))))))"

fun run_end_decode_loop :: "u32 \<Rightarrow> (i64 \<times> u32) list \<Rightarrow> i64 list" where
  "run_end_decode_loop start [] = []"
| "run_end_decode_loop start ((v, end') # rest) =
     replicate (unat end' - unat start) v @ run_end_decode_loop end' rest"

definition run_end_decode :: "run_end_payload \<Rightarrow> i64 list res" where
  "run_end_decode p =
     (if length (re_values p) \<noteq> length (re_run_ends p) then Fail PageCorrupt
      else Ok (run_end_decode_loop 0 (zip (re_values p) (re_run_ends p))))"

text \<open>The invariant of the parser: as many ends as values, strictly increasing from above zero.\<close>

definition run_end_wf :: "run_end_payload \<Rightarrow> bool" where
  "run_end_wf p \<longleftrightarrow> length (re_values p) = length (re_run_ends p) \<and>
     length (re_values p) < 2 ^ 32 \<and> sorted_wrt (<) (0 # re_run_ends p)"

lemma ucast_u32_u64_le: "(ucast (a :: u32) :: u64) \<le> ucast b \<longleftrightarrow> a \<le> b"
proof -
  have "unat (ucast w :: u64) = unat w" for w :: u32
    by (simp add: unsigned_ucast_eq take_bit_nat_eq_self less_trans [OF unat_u32_less])
  then show ?thesis by (simp add: word_le_nat_alt)
qed

lemma run_end_parse_loop_iff:
  "run_end_parse_loop bs n i k (ucast prev) = Ok ends \<longleftrightarrow>
     try_map (\<lambda>j. read_u32_le_checked bs (4 + n * 8 + j * 4)) [i..<i + k] = Ok ends \<and>
     sorted_wrt (<) (prev # ends)"
proof (induction k arbitrary: i prev ends)
  case 0
  then show ?case by auto
next
  case (Suc k)
  have e: "[i..<Suc (i + k)] = i # [Suc i..<Suc (i + k)]" by (simp add: upt_conv_Cons)
  show ?case
  proof (cases "read_u32_le_checked bs (4 + n * 8 + i * 4)")
    case (Inr v)
    then show ?thesis
      using Suc.IH [of "i + 1" v] less_trans
      by (cases ends) (auto simp: e Let_def and_then_eq_Inr_iff ucast_u32_u64_le simp del: upt_Suc)
  qed (simp add: e Let_def del: upt_Suc)
qed

lemma no_panic_run_end_parse_loop: "no_panic (run_end_parse_loop bs n i k prev)"
  by (induction k arbitrary: i prev) (auto simp: Let_def intro!: no_panic_intros)

lemma run_end_parse_no_panic [no_panic_intros, simp]: "no_panic (run_end_parse bs)"
  by (auto simp: run_end_parse_def Let_def intro!: no_panic_intros no_panic_run_end_parse_loop)

lemma run_end_parse_Ok:
  assumes "run_end_parse bs = Ok p"
  shows "run_end_wf p"
proof -
  have "\<exists>(c :: u32) vs ends. try_map (\<lambda>i. read_i64_le_checked bs (4 + i * 8)) [0..<unat c] = Ok vs \<and>
      run_end_parse_loop bs (unat c) 0 (unat c) 0 = Ok ends \<and> \<lparr>re_values = vs, re_run_ends = ends\<rparr> = p"
    using assms unfolding run_end_parse_def Let_def ok_iffs sum.inject by blast
  then obtain c :: u32 and vs ends where
    v: "try_map (\<lambda>i. read_i64_le_checked bs (4 + i * 8)) [0..<unat c] = Ok vs"
    and e: "run_end_parse_loop bs (unat c) 0 (unat c) 0 = Ok ends"
    and p: "p = \<lparr>re_values = vs, re_run_ends = ends\<rparr>" by blast
  have "try_map (\<lambda>j. read_u32_le_checked bs (4 + unat c * 8 + j * 4)) [0..<unat c] = Ok ends \<and>
      sorted_wrt (<) (0 # ends)"
    using e run_end_parse_loop_iff [of bs "unat c" 0 "unat c" 0 ends] by simp
  then show ?thesis
    using p try_map_length [OF v] unat_u32_less [of c] by (auto simp: run_end_wf_def dest: try_map_length)
qed

text \<open>
  The row reading of a payload: row \<open>r\<close> holds the value of the first run
  whose exclusive end lies above \<open>r\<close>.
\<close>

lemma run_end_decode_loop_length:
  "sorted_wrt (<) (start # map snd vs) \<Longrightarrow>
   unat start + length (run_end_decode_loop start vs) = unat (last (start # map snd vs))"
proof (induction start vs rule: run_end_decode_loop.induct)
  case (2 start v end' rest)
  then have "unat start < unat end'" by (simp add: word_less_nat_alt)
  with 2 show ?case by simp
qed simp

lemma run_end_decode_loop_nth:
  "sorted_wrt (<) (start # map snd vs) \<Longrightarrow> i < length vs \<Longrightarrow>
   unat ((start # map snd vs) ! i) \<le> r \<Longrightarrow> r < unat (snd (vs ! i)) \<Longrightarrow>
   run_end_decode_loop start vs ! (r - unat start) = fst (vs ! i)"
proof (induction start vs arbitrary: i rule: run_end_decode_loop.induct)
  case (2 start v end' rest)
  have lt: "unat start < unat end'" using 2(2) by (simp add: word_less_nat_alt)
  show ?case
  proof (cases i)
    case 0
    with 2 lt show ?thesis by (auto simp: nth_append)
  next
    case (Suc j)
    have s: "sorted_wrt (<) (end' # map snd rest)" using 2(2) by simp
    have ge: "unat end' \<le> unat ((end' # map snd rest) ! j)"
    proof (cases j)
      case (Suc k)
      then have "map snd rest ! k \<in> set (map snd rest)" using 2(3) \<open>i = Suc j\<close> by (intro nth_mem) simp
      then have "end' < map snd rest ! k" using s by (simp only: sorted_wrt.simps)
      then show ?thesis using Suc by (simp add: word_less_nat_alt)
    qed simp
    then have "unat end' \<le> r" using 2(4) Suc by simp
    then have "\<not> r - unat start < unat end' - unat start" using lt by simp
    moreover have "r - unat start - (unat end' - unat start) = r - unat end'"
      using lt \<open>unat end' \<le> r\<close> by simp
    moreover have "run_end_decode_loop end' rest ! (r - unat end') = fst (rest ! j)"
      using 2(1) [OF s, of j] 2(3-5) Suc by simp
    ultimately show ?thesis using Suc by (simp add: nth_append)
  qed
qed simp

interpretation run_end: encoding run_end_decode run_end_decode run_end_wf
  by unfold_locales (simp_all add: run_end_decode_def)

section \<open>Properties\<close>

text \<open>
  The RLE parser accepts a byte string exactly when it starts with the
  encoding of runs that keep the rules of the format (no empty run, no two
  adjacent runs with one value, at most \<open>2 ^ 32 - 1\<close> rows), and then returns
  those runs; it never panics.
\<close>

theorem rle_parse_exact:
  "(rle_parse bs = Ok p \<longleftrightarrow> rle_wf p \<and> take (length (rle_encode p)) bs = rle_encode p) \<and>
   no_panic (rle_parse bs)"
proof -
  have l: "length (rle_encode p) = 4 + 12 * length (rle_runs p)"
    using length_concat_fixed [of "rle_runs p" rle_encode_run 12]
    by (simp add: rle_encode_def run_reader.enc_width)
  have "rle_parse bs = Ok p" if "rle_wf p" "take (length (rle_encode p)) bs = rle_encode p"
    using rle_parse_encode [OF that(1), of "drop (length (rle_encode p)) bs"] that(2)
    by (metis append_take_drop_id)
  then show ?thesis using rle_parse_Ok [of bs p] l by auto
qed

text \<open>
  Both RLE decoders return one value per row, the value of the run that
  covers it, and RLE payloads are canonical: on payloads that keep the rules of
  the format, equal rows come from equal runs.
\<close>

theorem rle_decode_canonical:
  assumes "rle_wf p" "rle_wf q"
  shows "rle_canonical_decode p = Ok (rle_expand (rle_runs p)) \<and>
    rle_fast_decode p = rle_canonical_decode p \<and>
    length (rle_expand (rle_runs p)) = rle_rows (rle_runs p) \<and>
    (rle_canonical_decode p = rle_canonical_decode q \<longleftrightarrow> p = q)"
proof -
  have "p = q" if "rle_expand (rle_runs p) = rle_expand (rle_runs q)"
    using rle_expand_inject [of None "rle_runs p" None "rle_runs q"] that assms
    by (simp add: rle_wf_def)
  then show ?thesis using length_rle_expand rle.parity [OF assms(1)] by (auto simp: rle_decode_eq)
qed

lemma rle_decode_canonical_witness:
  "rle_canonical_decode \<lparr>rle_runs = [(5, 2), (7, 1)]\<rparr> \<noteq> rle_canonical_decode \<lparr>rle_runs = [(5, 3)]\<rparr>"
proof -
  have "rle_wf \<lparr>rle_runs = [(5, 2), (7, 1)]\<rparr>" "rle_wf \<lparr>rle_runs = [(5, 3)]\<rparr>"
    by (simp_all add: rle_wf_def)
  from rle_decode_canonical [OF this]
  have "rle_canonical_decode \<lparr>rle_runs = [(5, 2), (7, 1)]\<rparr> = rle_canonical_decode \<lparr>rle_runs = [(5, 3)]\<rparr> \<longleftrightarrow>
      \<lparr>rle_runs = [(5, 2), (7, 1)]\<rparr> = (\<lparr>rle_runs = [(5, 3)]\<rparr> :: rle_payload)" by blast
  then show ?thesis by simp
qed

text \<open>
  Every page the RunEnd parser accepts decodes to exactly as many rows as
  its last end says, and each row holds the value of the run whose bounds
  enclose it.
\<close>

theorem run_end_decode_rows:
  assumes "run_end_parse bs = Ok p"
  shows "\<exists>rows. run_end_decode p = Ok rows \<and> length rows = unat (last (0 # re_run_ends p)) \<and>
    (\<forall>i < length (re_values p). \<forall>r.
       unat ((0 # re_run_ends p) ! i) \<le> r \<longrightarrow> r < unat (re_run_ends p ! i) \<longrightarrow> rows ! r = re_values p ! i)"
proof -
  have wf: "length (re_values p) = length (re_run_ends p)" "sorted_wrt (<) (0 # re_run_ends p)"
    using run_end_parse_Ok [OF assms] by (simp_all add: run_end_wf_def)
  let ?z = "zip (re_values p) (re_run_ends p)"
  have m: "map snd ?z = re_run_ends p" using wf(1) by simp
  have s: "sorted_wrt (<) (0 # map snd ?z)" using wf m by simp
  have "rows ! r = re_values p ! i" if "rows = run_end_decode_loop 0 ?z" "i < length (re_values p)"
    "unat ((0 # re_run_ends p) ! i) \<le> r" "r < unat (re_run_ends p ! i)" for rows i r
    using run_end_decode_loop_nth [OF s, of i r] that wf m by simp
  then show ?thesis
    using run_end_decode_loop_length [OF s] wf(1) m by (simp add: run_end_decode_def)
qed

lemma run_end_decode_rows_witness:
  "\<exists>p rows. run_end_parse (le_bytes 4 (1 :: u32) @ le_bytes 8 (9 :: i64) @ le_bytes 4 (3 :: u32)) = Ok p \<and>
     run_end_decode p = Ok rows \<and> length rows = 3 \<and> rows ! 2 = 9"
proof -
  have p: "run_end_parse (le_bytes 4 (1 :: u32) @ le_bytes 8 (9 :: i64) @ le_bytes 4 (3 :: u32)) =
      Ok \<lparr>re_values = [9], re_run_ends = [3]\<rparr>"
    by (simp add: run_end_parse_def Let_def checked_mul_def checked_add_def usize_limit_def
        wire_simps sub_def)
  from run_end_decode_rows [OF p] show ?thesis
    by (intro exI [of _ "\<lparr>re_values = [9], re_run_ends = [3]\<rparr>"]) (use p in auto)
qed

end
