(* ===== verification/Bit_Packed.thy ===== *)
theory Bit_Packed
  imports Encodings
begin

text \<open>
  The BitPacked cascade (\<^verbatim>\<open>encoding/bit_packed.rs\<close>): values of 1 to 63 bits
  in a little-endian bit stream, packed through a 16-byte window and unpacked by
  two decoders, the canonical one (16-byte window) and the fast one (8-byte
  window, for at most 32 bits). The proofs read the stream bit by bit
  (\<open>stream_bit\<close>).
\<close>

section \<open>The payload and its wire format\<close>

record bit_packed_payload =
  bp_bits_per_value :: u8
  bp_row_count :: u32
  bp_bits :: bytes

definition div_ceil :: "nat \<Rightarrow> nat \<Rightarrow> nat" where
  "div_ceil a b = (a + b - 1) div b"

definition bit_packed_parse :: "bytes \<Rightarrow> bit_packed_payload res" where
  "bit_packed_parse bs =
     (if length bs < 9 then Fail BufferTooShort
      else
        and_then (index bs 0) (\<lambda>bpv.
        if \<not> (1 \<le> unat bpv \<and> unat bpv \<le> 63) then Fail PageCorrupt
        else
          and_then (read_u32_le_checked bs 1) (\<lambda>row_count.
          and_then (read_u32_le_checked bs 5) (\<lambda>len.
          let byte_len = unat len in
          and_then (ok_or ArithOverflow (checked_add 9 byte_len)) (\<lambda>end'.
          if length bs < end' then Fail BufferTooShort
          else
            let need_bits = unat row_count * unat bpv; need_bytes = div_ceil need_bits 8 in
            if byte_len < need_bytes then Fail PageCorrupt
            else
              and_then (slice bs 9 end') (\<lambda>bits.
              Ok \<lparr>bp_bits_per_value = bpv, bp_row_count = row_count, bp_bits = bits\<rparr>))))))"

definition bit_packed_encode :: "bit_packed_payload \<Rightarrow> bytes" where
  "bit_packed_encode p =
     [bp_bits_per_value p] @ le_bytes 4 (bp_row_count p) @ le_bytes 4 (of_nat (length (bp_bits p)) :: u32)
     @ bp_bits p"

section \<open>Packing\<close>

text \<open>
  A window of \<open>n\<close> bytes of the stream, padded with zeros at its end:
  \<^verbatim>\<open>buf[..avail].copy_from_slice(&bits[byte_off..byte_off + avail])\<close>.
\<close>

definition bp_avail :: "nat \<Rightarrow> bytes \<Rightarrow> nat \<Rightarrow> nat" where
  "bp_avail n bits byte_off = min (length bits - byte_off) n"

definition bp_window :: "nat \<Rightarrow> bytes \<Rightarrow> nat \<Rightarrow> bytes res" where
  "bp_window n bits byte_off =
     and_then (slice bits byte_off (byte_off + bp_avail n bits byte_off)) (\<lambda>s.
     Ok (copy_at (replicate n 0) 0 s))"

definition bp_mask :: "nat \<Rightarrow> 'a::len word" where
  "bp_mask bpv = push_bit bpv 1 - 1"

fun bit_packed_pack_loop :: "nat \<Rightarrow> u64 \<Rightarrow> bytes \<Rightarrow> nat \<Rightarrow> u64 list \<Rightarrow> bytes res" where
  "bit_packed_pack_loop bpv msk bits bit_pos [] = Ok bits"
| "bit_packed_pack_loop bpv msk bits bit_pos (v # vs) =
     (if v AND NOT msk \<noteq> 0 then Fail PageCorrupt
      else
        let byte_off = bit_pos div 8; bit_off = bit_pos mod 8; avail = bp_avail 16 bits byte_off in
        and_then (bp_window 16 bits byte_off) (\<lambda>buf.
        let word = of_le buf :: u128;
            word = word OR push_bit bit_off (ucast v AND ucast msk);
            encoded = le_bytes 16 word
        in bit_packed_pack_loop bpv msk (copy_at bits byte_off (take avail encoded)) (bit_pos + bpv) vs))"

text \<open>
  The product \<^verbatim>\<open>values.len() as u64 * bits_per_value as u64\<close> is unchecked in the
  source, so a product past \<open>u64\<close> is the overflow panic of a checked build.
\<close>

definition bit_packed_pack :: "u64 list \<Rightarrow> u8 \<Rightarrow> bit_packed_payload res" where
  "bit_packed_pack vs bits_per_value =
     (let bpv = unat bits_per_value in
      if \<not> (1 \<le> bpv \<and> bpv \<le> 63) then Fail PageCorrupt
      else
        let msk = (if bpv = 64 then - 1 else bp_mask bpv); total_bits = length vs * bpv in
        if 2 ^ 64 \<le> total_bits then Panicked
        else
          and_then (bit_packed_pack_loop bpv msk (replicate (div_ceil total_bits 8) 0) 0 vs) (\<lambda>bits.
          Ok \<lparr>bp_bits_per_value = bits_per_value, bp_row_count = of_nat (length vs), bp_bits = bits\<rparr>))"

section \<open>The two decoders\<close>

text \<open>\<^verbatim>\<open>1u128 << bpv\<close> overflows, and panics in a checked build, from 128 bits on.\<close>

fun bit_packed_canonical_loop :: "nat \<Rightarrow> bytes \<Rightarrow> nat \<Rightarrow> nat \<Rightarrow> nat \<Rightarrow> i64 list res" where
  "bit_packed_canonical_loop bpv bits r 0 bit_pos = Ok []"
| "bit_packed_canonical_loop bpv bits r (Suc n) bit_pos =
     (let byte_off = bit_pos div 8; bit_off = bit_pos mod 8 in
      if length bits \<le> byte_off then Fail PageCorrupt
      else
        and_then (bp_window 16 bits byte_off) (\<lambda>buf.
        let word = of_le buf :: u128; v = ucast (drop_bit bit_off word AND bp_mask bpv) in
        and_then (ok_or ArithOverflow (checked_mul (r + 1) bpv)) (\<lambda>bit_pos.
        and_then (bit_packed_canonical_loop bpv bits (r + 1) n bit_pos) (\<lambda>out. Ok (v # out)))))"

definition bit_packed_canonical_decode :: "bit_packed_payload \<Rightarrow> i64 list res" where
  "bit_packed_canonical_decode p =
     (let bpv = unat (bp_bits_per_value p) in
      if 128 \<le> bpv then Panicked
      else bit_packed_canonical_loop bpv (bp_bits p) 0 (unat (bp_row_count p)) 0)"

fun bit_packed_fast_loop :: "nat \<Rightarrow> bytes \<Rightarrow> nat \<Rightarrow> nat \<Rightarrow> i64 list res" where
  "bit_packed_fast_loop bpv bits 0 bit_pos = Ok []"
| "bit_packed_fast_loop bpv bits (Suc n) bit_pos =
     (let byte_off = bit_pos div 8; bit_off = bit_pos mod 8 in
      and_then (bp_window 8 bits byte_off) (\<lambda>buf.
      let word = of_le buf :: u64; v = drop_bit bit_off word AND bp_mask bpv in
      and_then (bit_packed_fast_loop bpv bits n (bit_pos + bpv)) (\<lambda>out. Ok (v # out))))"

definition bit_packed_fast_decode :: "bit_packed_payload \<Rightarrow> i64 list res" where
  "bit_packed_fast_decode p =
     (let bpv = unat (bp_bits_per_value p) in
      if 32 < bpv then bit_packed_canonical_decode p
      else bit_packed_fast_loop bpv (bp_bits p) (unat (bp_row_count p)) 0)"

definition bit_packed_wf :: "bit_packed_payload \<Rightarrow> bool" where
  "bit_packed_wf p \<longleftrightarrow>
     1 \<le> unat (bp_bits_per_value p) \<and> unat (bp_bits_per_value p) \<le> 63 \<and>
     div_ceil (unat (bp_row_count p) * unat (bp_bits_per_value p)) 8 \<le> length (bp_bits p) \<and>
     length (bp_bits p) < 2 ^ 32"

section \<open>Reading the stream bit by bit\<close>

lemma bp_window_Ok:
  assumes "b \<le> length bits"
  shows "\<exists>buf. bp_window n bits b = Ok buf \<and> length buf = n \<and>
    (\<forall>j < 8 * n. stream_bit buf j = stream_bit bits (8 * b + j))"
proof -
  let ?s = "sub bits b (bp_avail n bits b)" and ?m = "bp_avail n bits b"
  have m: "?m \<le> n" "b + ?m \<le> length bits" using assms by (auto simp: bp_avail_def)
  then have l: "length ?s = ?m" by (simp add: length_sub)
  have w: "bp_window n bits b = Ok (?s @ replicate (n - ?m) 0)"
    using m l by (simp add: bp_window_def slice_Ok copy_at_def)
  have "stream_bit (?s @ replicate (n - ?m) 0) j = stream_bit bits (8 * b + j)" if j: "j < 8 * n" for j
  proof (cases "j div 8 < ?m")
    case True
    then have "stream_bit (?s @ replicate (n - ?m) 0) j = stream_bit ?s j"
      using l by (simp add: stream_bit_def nth_append)
    then show ?thesis using True by (simp add: stream_bit_sub)
  next
    case False
    have "j div 8 < n" using j by auto
    with False have "length bits - b \<le> j div 8" by (simp add: bp_avail_def)
    with False l \<open>j div 8 < n\<close> show ?thesis by (auto simp: stream_bit_def nth_append)
  qed
  then show ?thesis using w l m(1) by auto
qed

lemma bp_mask_eq: "bp_mask n = (mask n :: 'a::len word)"
  by (simp add: bp_mask_def mask_eq_exp_minus_1)

lemma bit_bp_mask: "bit (bp_mask n :: 'a::len word) k \<longleftrightarrow> k < LENGTH('a) \<and> k < n"
  by (simp only: bp_mask_eq bit_mask_iff possible_bit_word)

lemma div_ceil_iff: "k < n * 8 \<longleftrightarrow> k div 8 < (n :: nat)"
  by (simp add: less_mult_imp_div_less div_less_iff_less_mult)

lemma div_ceil_covers: "k < total_bits \<Longrightarrow> div_ceil total_bits 8 \<le> n \<Longrightarrow> k div 8 < n"
  by (auto simp: div_ceil_def)

section \<open>What packing writes\<close>

lemma pack_step:
  assumes "bp_window 16 bits (pos div 8) = Ok buf" "pos div 8 \<le> length bits"
    and "\<forall>j < 128. stream_bit buf j = stream_bit bits (8 * (pos div 8) + j)" "length buf = 16"
    and "bpv \<le> 63" "pos + bpv \<le> 8 * length bits"
    and "bits' = copy_at bits (pos div 8) (take (bp_avail 16 bits (pos div 8))
           (le_bytes 16 (of_le buf OR push_bit (pos mod 8) (ucast (v :: u64) AND ucast (bp_mask bpv :: u64)) :: u128)))"
  shows "length bits' = length bits \<and>
    (\<forall>k. stream_bit bits' k \<longleftrightarrow> stream_bit bits k \<or> (pos \<le> k \<and> k < pos + bpv \<and> bit v (k - pos)))"
proof -
  let ?b = "pos div 8" and ?o = "pos mod 8"
  let ?w = "of_le buf OR push_bit ?o (ucast v AND ucast (bp_mask bpv :: u64)) :: u128"
  let ?m = "bp_avail 16 bits ?b"
  have m: "?m \<le> 16" "?b + ?m \<le> length bits" using assms(2) by (auto simp: bp_avail_def)
  have l: "length bits' = length bits" using assms(7) m by simp
  have po: "8 * ?b + ?o = pos" by simp
  have bw: "bit ?w j \<longleftrightarrow> j < 128 \<and> (stream_bit bits (8 * ?b + j) \<or> (?o \<le> j \<and> j - ?o < bpv \<and> bit v (j - ?o)))" for j
  proof (cases "j < 128")
    case True
    have "bit (of_le buf :: u128) j \<longleftrightarrow> stream_bit bits (8 * ?b + j)"
      using assms(3,4) True bit_of_le_stream [of buf j, where ?'a = 128] by simp
    moreover have "bit (push_bit ?o (ucast v AND ucast (bp_mask bpv :: u64)) :: u128) j \<longleftrightarrow>
        ?o \<le> j \<and> j - ?o < bpv \<and> bit v (j - ?o)"
      using True assms(5) by (auto simp: bit_simps bit_bp_mask dest: bit_imp_le_length)
    ultimately show ?thesis using True by (simp add: bit_or_iff)
  qed (auto dest: bit_imp_le_length)
  have c: "bits' = take ?b bits @ take ?m (le_bytes 16 ?w) @ drop (?b + ?m) bits"
    using assms(7) m by (simp add: copy_at_def min_def)
  have "stream_bit bits' k \<longleftrightarrow> stream_bit bits k \<or> (pos \<le> k \<and> k < pos + bpv \<and> bit v (k - pos))" for k
  proof -
    consider "k div 8 < ?b" | "?b \<le> k div 8" "k div 8 < ?b + ?m" | "?b + ?m \<le> k div 8" by linarith
    then show ?thesis
    proof cases
      case 1
      then have "stream_bit bits' k = stream_bit bits k" using m
        by (simp add: c stream_bit_def nth_append min_absorb2 [OF assms(2)])
      moreover have "k < pos" using 1 by (metis div_le_mono not_le)
      ultimately show ?thesis by simp
    next
      case 2
      have kb: "8 * ?b \<le> k" using 2(1) by auto
      then have d: "(k - 8 * ?b) div 8 = k div 8 - ?b" "(k - 8 * ?b) mod 8 = k mod 8"
        by (auto simp: mod_mult_self2 le_add_diff_inverse dest!: le_Suc_ex)
      have "k - 8 * ?b < 128" using 2(2) m(1) by auto
      have "k div 8 - ?b < ?m" using 2 by linarith
      then have "stream_bit bits' k \<longleftrightarrow> stream_bit (le_bytes 16 ?w) (k - 8 * ?b)"
        using 2 m d unfolding c stream_bit_def by (simp add: nth_append min_absorb1 min_absorb2)
      also have "\<dots> \<longleftrightarrow> bit ?w (k - 8 * ?b)" by (intro stream_bit_le_bytes) simp
      also have "\<dots> \<longleftrightarrow> stream_bit bits k \<or> (?o \<le> k - 8 * ?b \<and> k - 8 * ?b - ?o < bpv \<and> bit v (k - 8 * ?b - ?o))"
        using bw kb \<open>k - 8 * ?b < 128\<close> by simp
      also have "k - 8 * ?b - ?o = k - pos" using po by simp
      also have "?o \<le> k - 8 * ?b \<longleftrightarrow> pos \<le> k" using kb po by linarith
      finally show ?thesis by auto
    next
      case 3
      have "stream_bit bits' k = stream_bit bits k"
        using 3 m by (auto simp: c stream_bit_def nth_append min_def)
      moreover have False if "pos \<le> k" "k < pos + bpv"
      proof (cases "?m = 16")
        case True
        then have "8 * ?b + 128 \<le> k" using 3 by auto
        then show False using that assms(5) po by linarith
      next
        case False
        then have "?b + ?m = length bits" using assms(2) by (auto simp: bp_avail_def min_def split: if_splits)
        then have "8 * length bits \<le> k" using 3 by auto
        then show False using that assms(6) by linarith
      qed
      ultimately show ?thesis by auto
    qed
  qed
  with l show ?thesis by blast
qed

definition fits :: "nat \<Rightarrow> u64 \<Rightarrow> bool" where
  "fits bpv v \<longleftrightarrow> v AND NOT (bp_mask bpv) = 0"

lemma fits_bit: "fits bpv v \<Longrightarrow> bit v j \<Longrightarrow> j < bpv"
proof (rule ccontr)
  assume f: "fits bpv v" and b: "bit v j" and n: "\<not> j < bpv"
  have "bit (v AND NOT (bp_mask bpv)) j"
    using b n by (auto simp: bit_simps bit_bp_mask dest: bit_imp_le_length)
  with f show False by (simp add: fits_def)
qed

lemma pack_loop_Ok:
  "list_all (fits bpv) vs \<Longrightarrow> 0 < bpv \<Longrightarrow> bpv \<le> 63 \<Longrightarrow> pos + length vs * bpv \<le> 8 * length bits \<Longrightarrow>
   \<exists>bits'. bit_packed_pack_loop bpv (bp_mask bpv) bits pos vs = Ok bits' \<and> length bits' = length bits \<and>
     (\<forall>k. stream_bit bits' k \<longleftrightarrow> stream_bit bits k \<or>
        (\<exists>i < length vs. pos + i * bpv \<le> k \<and> k < pos + i * bpv + bpv \<and> bit (vs ! i) (k - (pos + i * bpv))))"
proof (induction vs arbitrary: bits pos)
  case Nil
  then show ?case by simp
next
  case (Cons v vs)
  have vs: "list_all (fits bpv) vs" and "fits bpv v" using Cons.prems(1) by simp_all
  then have v: "v AND NOT (bp_mask bpv) = 0" by (simp add: fits_def)
  have "pos div 8 \<le> length bits" using Cons.prems(4) by auto
  from bp_window_Ok [OF this, of 16] obtain buf where
    buf: "bp_window 16 bits (pos div 8) = Ok buf" "length buf = 16"
    "\<forall>j < 128. stream_bit buf j = stream_bit bits (8 * (pos div 8) + j)" by auto
  define bits1 where "bits1 = copy_at bits (pos div 8) (take (bp_avail 16 bits (pos div 8))
      (le_bytes 16 (of_le buf OR push_bit (pos mod 8) (ucast v AND ucast (bp_mask bpv :: u64)) :: u128)))"
  have fit: "pos + bpv \<le> 8 * length bits" using Cons.prems(4) by simp
  note st = pack_step [OF buf(1) \<open>pos div 8 \<le> length bits\<close> buf(3,2) Cons.prems(3) fit bits1_def]
  have loop: "bit_packed_pack_loop bpv (bp_mask bpv) bits pos (v # vs) =
      bit_packed_pack_loop bpv (bp_mask bpv) bits1 (pos + bpv) vs"
    unfolding bit_packed_pack_loop.simps Let_def buf(1) and_then_simps bits1_def using v by simp
  have "pos + bpv + length vs * bpv \<le> 8 * length bits1" using Cons.prems(4) st by simp
  from Cons.IH [OF vs Cons.prems(2,3) this] obtain bits' where
    b: "bit_packed_pack_loop bpv (bp_mask bpv) bits1 (pos + bpv) vs = Ok bits'" "length bits' = length bits1"
    "\<forall>k. stream_bit bits' k \<longleftrightarrow> stream_bit bits1 k \<or> (\<exists>i < length vs. pos + bpv + i * bpv \<le> k \<and>
        k < pos + bpv + i * bpv + bpv \<and> bit (vs ! i) (k - (pos + bpv + i * bpv)))" by blast
  have "stream_bit bits' k \<longleftrightarrow> stream_bit bits k \<or>
      (\<exists>i < length (v # vs). pos + i * bpv \<le> k \<and> k < pos + i * bpv + bpv \<and>
         bit ((v # vs) ! i) (k - (pos + i * bpv)))" for k
    unfolding length_Cons Ex_less_Suc2 using b(3) st by (simp add: add.assoc)
  then show ?case using loop b(1,2) st by auto
qed

section \<open>What the decoders read\<close>

definition field :: "bytes \<Rightarrow> nat \<Rightarrow> nat \<Rightarrow> u64" where
  "field bits bpv pos = horner_sum of_bool 2 (map (\<lambda>j. stream_bit bits (pos + j)) [0..<bpv])"

lemma bit_field: "bpv \<le> 64 \<Longrightarrow> bit (field bits bpv pos) j \<longleftrightarrow> j < bpv \<and> stream_bit bits (pos + j)"
  by (auto simp: field_def bit_horner_sum_bit_iff possible_bit_word)

lemma field_eqI:
  assumes "bpv \<le> 64" "\<And>j. j < 64 \<Longrightarrow> bit w j \<longleftrightarrow> j < bpv \<and> stream_bit bits (pos + j)"
  shows "w = field bits bpv pos"
  using assms by (intro bit_word_eqI) (simp add: bit_field)

lemma canonical_window:
  assumes "bp_window 16 bits (pos div 8) = Ok buf" "pos div 8 \<le> length bits" "bpv \<le> 63"
  shows "ucast (drop_bit (pos mod 8) (of_le buf :: u128) AND bp_mask bpv) = field bits bpv pos"
proof (rule field_eqI)
  from bp_window_Ok [OF assms(2), of 16] assms(1) have
    buf: "length buf = 16" "\<forall>j < 128. stream_bit buf j = stream_bit bits (8 * (pos div 8) + j)" by auto
  fix j :: nat assume j: "j < 64"
  have o: "pos mod 8 < 8" by simp
  have k: "8 * (pos div 8) + (pos mod 8 + j) = pos + j" by simp
  have "bit (of_le buf :: u128) (pos mod 8 + j) \<longleftrightarrow> stream_bit bits (pos + j)" if "j < bpv"
    using bit_of_le_stream [of buf "pos mod 8 + j", where ?'a = 128] buf o j that assms(3) k by simp
  then show "bit (ucast (drop_bit (pos mod 8) (of_le buf :: u128) AND bp_mask bpv) :: u64) j \<longleftrightarrow>
      j < bpv \<and> stream_bit bits (pos + j)"
    using j by (auto simp: bit_simps bit_bp_mask)
qed (use assms in simp)

lemma fast_window:
  assumes "bp_window 8 bits (pos div 8) = Ok buf" "pos div 8 \<le> length bits" "bpv \<le> 32"
  shows "drop_bit (pos mod 8) (of_le buf :: u64) AND bp_mask bpv = field bits bpv pos"
proof (rule field_eqI)
  from bp_window_Ok [OF assms(2), of 8] assms(1) have
    buf: "length buf = 8" "\<forall>j < 64. stream_bit buf j = stream_bit bits (8 * (pos div 8) + j)" by auto
  fix j :: nat assume j: "j < 64"
  have o: "pos mod 8 < 8" by simp
  have k: "8 * (pos div 8) + (pos mod 8 + j) = pos + j" by simp
  have "bit (of_le buf :: u64) (pos mod 8 + j) \<longleftrightarrow> stream_bit bits (pos + j)" if "j < bpv"
    using bit_of_le_stream [of buf "pos mod 8 + j", where ?'a = 64] buf o j that assms(3) k by simp
  then show "bit (drop_bit (pos mod 8) (of_le buf :: u64) AND bp_mask bpv) j \<longleftrightarrow>
      j < bpv \<and> stream_bit bits (pos + j)"
    using j by (auto simp: bit_simps bit_bp_mask)
qed (use assms in simp)

lemma canonical_loop_fields:
  "0 < bpv \<Longrightarrow> bpv \<le> 63 \<Longrightarrow> div_ceil ((r + n) * bpv) 8 \<le> length bits \<Longrightarrow> (r + n) * bpv < usize_limit \<Longrightarrow>
   bit_packed_canonical_loop bpv bits r n (r * bpv) = Ok (map (\<lambda>i. field bits bpv (i * bpv)) [r..<r + n])"
proof (induction n arbitrary: r)
  case (Suc n)
  have "(r + Suc n) * bpv = r * bpv + Suc n * bpv" by (simp add: algebra_simps)
  then have "r * bpv < (r + Suc n) * bpv" using Suc.prems(1) by simp
  then have b: "r * bpv div 8 < length bits" using div_ceil_covers Suc.prems(3) by blast
  then obtain buf where buf: "bp_window 16 bits (r * bpv div 8) = Ok buf"
    using bp_window_Ok [of "r * bpv div 8" bits 16] by auto
  have "(r + 1) * bpv \<le> (r + Suc n) * bpv" by (intro mult_le_mono1) simp
  then have "(r + 1) * bpv < usize_limit" using Suc.prems(4) by (rule le_less_trans)
  then have m: "checked_mul (r + 1) bpv = Some ((r + 1) * bpv)" by (rule checked_mul_Some)
  have IH: "bit_packed_canonical_loop bpv bits (r + 1) n ((r + 1) * bpv)
      = Ok (map (\<lambda>i. field bits bpv (i * bpv)) [r + 1..<r + 1 + n])"
    using Suc.prems by (intro Suc.IH) (simp_all add: add.commute)
  have e: "[r..<r + Suc n] = r # [r + 1..<r + 1 + n]" by (simp add: upt_conv_Cons del: upt_Suc)
  show ?case
    unfolding bit_packed_canonical_loop.simps Let_def buf and_then_simps m ok_or_simps IH e
    using b canonical_window [OF buf _ Suc.prems(2)] by simp
qed simp

lemma fast_loop_fields:
  "0 < bpv \<Longrightarrow> bpv \<le> 32 \<Longrightarrow> div_ceil ((r + n) * bpv) 8 \<le> length bits \<Longrightarrow>
   bit_packed_fast_loop bpv bits n (r * bpv) = Ok (map (\<lambda>i. field bits bpv (i * bpv)) [r..<r + n])"
proof (induction n arbitrary: r)
  case (Suc n)
  have "(r + Suc n) * bpv = r * bpv + Suc n * bpv" by (simp add: algebra_simps)
  then have "r * bpv < (r + Suc n) * bpv" using Suc.prems(1) by simp
  then have b: "r * bpv div 8 < length bits" using div_ceil_covers Suc.prems(3) by blast
  then obtain buf where buf: "bp_window 8 bits (r * bpv div 8) = Ok buf"
    using bp_window_Ok [of "r * bpv div 8" bits 8] by auto
  have IH: "bit_packed_fast_loop bpv bits n (r * bpv + bpv)
      = Ok (map (\<lambda>i. field bits bpv (i * bpv)) [r + 1..<r + 1 + n])"
    using Suc.IH [of "r + 1"] Suc.prems by (simp add: add.commute)
  have e: "[r..<r + Suc n] = r # [r + 1..<r + 1 + n]" by (simp add: upt_conv_Cons del: upt_Suc)
  show ?case
    unfolding bit_packed_fast_loop.simps Let_def buf and_then_simps IH e
    using b fast_window [OF buf _ Suc.prems(2)] by simp
qed simp

text \<open>Both decoders read the fields of the stream, in order.\<close>

lemma bit_packed_decode_fields:
  assumes "bit_packed_wf p"
  shows "bit_packed_canonical_decode p = Ok (map (\<lambda>i. field (bp_bits p) (unat (bp_bits_per_value p))
      (i * unat (bp_bits_per_value p))) [0..<unat (bp_row_count p)])"
    and "bit_packed_fast_decode p = bit_packed_canonical_decode p"
proof -
  let ?b = "unat (bp_bits_per_value p)" and ?n = "unat (bp_row_count p)"
  have w: "0 < ?b" "?b \<le> 63" "div_ceil (?n * ?b) 8 \<le> length (bp_bits p)"
    using assms by (auto simp: bit_packed_wf_def)
  have "?n * ?b \<le> 2 ^ 32 * 63" using unat_u32_less [of "bp_row_count p"] w(2) by (intro mult_le_mono) auto
  then have u: "?n * ?b < usize_limit" by (simp add: usize_limit_def)
  show c: "bit_packed_canonical_decode p = Ok (map (\<lambda>i. field (bp_bits p) ?b (i * ?b)) [0..<?n])"
    using canonical_loop_fields [of ?b 0 ?n "bp_bits p"] w u
    by (simp add: bit_packed_canonical_decode_def Let_def)
  show "bit_packed_fast_decode p = bit_packed_canonical_decode p"
  proof (cases "?b \<le> 32")
    case True
    then show ?thesis using fast_loop_fields [of ?b 0 ?n "bp_bits p"] w c
      by (simp add: bit_packed_fast_decode_def Let_def)
  qed (simp add: bit_packed_fast_decode_def Let_def)
qed

section \<open>Round trips\<close>

lemma bit_packed_parse_no_panic [no_panic_intros, simp]: "no_panic (bit_packed_parse bs)"
  by (auto simp: bit_packed_parse_def Let_def index_def slice_def ok_iffs checked_add_eq_Some_iff intro!: no_panic_intros)

lemma bit_packed_parse_Ok:
  assumes "bit_packed_parse bs = Ok p"
  shows "bit_packed_wf p \<and> bit_packed_encode p = take (9 + length (bp_bits p)) bs"
proof -
  from assms obtain bpv row_count len where l: "9 \<le> length bs" and b: "bpv = bs ! 0"
    and w: "1 \<le> unat bpv" "unat bpv \<le> 63" and r: "read_u32_le_checked bs 1 = Ok row_count"
    and n: "read_u32_le_checked bs 5 = Ok len" and e: "9 + unat len \<le> length bs"
    and need: "\<not> unat len < div_ceil (unat row_count * unat bpv) 8"
    and p: "p = \<lparr>bp_bits_per_value = bpv, bp_row_count = row_count, bp_bits = sub bs 9 (unat len)\<rparr>"
    by (auto simp: bit_packed_parse_def Let_def ok_iffs checked_add_eq_Some_iff)
  have lb: "length (bp_bits p) = unat len" using p e by (simp add: length_sub)
  have "0 < length bs" using l by linarith
  then have "[bpv] = sub bs 0 (Suc 0)" using b sub_singleton [of 0 bs] by simp
  moreover have "le_bytes 4 row_count = sub bs 1 4" "le_bytes 4 len = sub bs 5 4"
    using u32_reader.read_Ok [OF r] u32_reader.read_Ok [OF n] by simp_all
  ultimately have "bit_packed_encode p = take (9 + length (bp_bits p)) bs"
    using p lb by (simp add: bit_packed_encode_def sub_join) (simp add: sub_def)
  then show ?thesis using p lb w need unat_u32_less [of len] by (simp add: bit_packed_wf_def)
qed

lemma bit_packed_parse_encode:
  assumes "bit_packed_wf p"
  shows "bit_packed_parse (bit_packed_encode p @ rest) = Ok p"
proof -
  define c where "c = (of_nat (length (bp_bits p)) :: u32)"
  have w: "1 \<le> unat (bp_bits_per_value p)" "unat (bp_bits_per_value p) \<le> 63"
    "div_ceil (unat (bp_row_count p) * unat (bp_bits_per_value p)) 8 \<le> length (bp_bits p)"
    and n32: "length (bp_bits p) < 2 ^ 32" using assms by (auto simp: bit_packed_wf_def)
  then have n: "unat c = length (bp_bits p)" unfolding c_def by (intro unat_of_nat_less) simp
  define bs where "bs = bit_packed_encode p @ rest"
  have e: "bs = [bp_bits_per_value p] @ le_bytes 4 (bp_row_count p) @ le_bytes 4 c @ bp_bits p @ rest"
    by (simp add: bs_def bit_packed_encode_def c_def)
  have i: "index bs 0 = (Ok (bp_bits_per_value p) :: u8 res)" by (simp add: e index_def)
  have r: "read_u32_le_checked bs 1 = Ok (bp_row_count p)" "read_u32_le_checked bs 5 = Ok c"
    by (simp_all add: e wire_simps usize_limit_def sub_def)
  have l: "length bs = 9 + length (bp_bits p) + length rest" by (simp add: e)
  have a: "checked_add 9 (length (bp_bits p)) = Some (9 + length (bp_bits p))"
    using n32 by (simp add: checked_add_def usize_limit_def)
  have s: "slice bs 9 (9 + length (bp_bits p)) = (Ok (bp_bits p) :: bytes res)"
    using l by (simp add: slice_Ok) (simp add: e sub_def)
  show ?thesis using l w
    unfolding bs_def [symmetric] bit_packed_parse_def Let_def i and_then_simps r n a ok_or_simps s
    by simp
qed

interpretation bit_packed: wire_encoding bit_packed_canonical_decode bit_packed_fast_decode bit_packed_wf
  bit_packed_parse bit_packed_encode
proof
  fix p :: bit_packed_payload and bs
  show "bit_packed_wf p \<Longrightarrow> bit_packed_parse (bit_packed_encode p) = Ok p"
    using bit_packed_parse_encode [of p "[]"] by simp
qed (auto simp: bit_packed_decode_fields dest: bit_packed_parse_Ok)

lemma bit_packed_pack_decode:
  assumes "1 \<le> unat bpv" "unat bpv \<le> 63" "length vs < 2 ^ 32" "list_all (fits (unat bpv)) vs"
    "div_ceil (length vs * unat bpv) 8 < 2 ^ 32"
  shows "\<exists>p. bit_packed_pack vs bpv = Ok p \<and> bit_packed_wf p \<and> bit_packed_canonical_decode p = Ok vs"
proof -
  let ?b = "unat bpv" and ?t = "length vs * unat bpv"
  let ?z = "replicate (div_ceil ?t 8) 0 :: bytes"
  have t: "?t \<le> 8 * length ?z" by (auto simp: div_ceil_def)
  have "?t \<le> 2 ^ 32 * 63" using assms(2,3) by (intro mult_le_mono) auto
  then have t64: "\<not> 2 ^ 64 \<le> ?t" by simp
  from pack_loop_Ok [OF assms(4) _ assms(2), of 0 ?z] t assms(1) obtain bits where
    b: "bit_packed_pack_loop ?b (bp_mask ?b) ?z 0 vs = Ok bits" "length bits = length ?z"
    "\<forall>k. stream_bit bits k \<longleftrightarrow> stream_bit ?z k \<or>
      (\<exists>i < length vs. i * ?b \<le> k \<and> k < i * ?b + ?b \<and> bit (vs ! i) (k - i * ?b))" by auto
  have z: "\<not> stream_bit ?z k" for k by (auto simp: stream_bit_def)
  define p where "p = \<lparr>bp_bits_per_value = bpv, bp_row_count = of_nat (length vs), bp_bits = bits\<rparr>"
  have n: "unat (of_nat (length vs) :: u32) = length vs" using assms(3) by (intro unat_of_nat_less) simp
  have wf: "bit_packed_wf p"
    unfolding bit_packed_wf_def p_def bit_packed_payload.simps n using assms(1,2,5) b(2) by simp
  have pk: "bit_packed_pack vs bpv = Ok p"
    using assms(1,2) b(1) t64 by (auto simp: bit_packed_pack_def Let_def p_def)
  have f: "field bits ?b (i * ?b) = vs ! i" if i: "i < length vs" for i
  proof (rule field_eqI [symmetric])
    have fi: "fits ?b (vs ! i)" using assms(4) i by (simp add: list_all_length)
    fix j :: nat assume "j < 64"
    have "stream_bit bits (i * ?b + j) \<longleftrightarrow> bit (vs ! i) j" if j: "j < ?b"
    proof -
      have "i' = i" if "i' * ?b \<le> i * ?b + j" "i * ?b + j < i' * ?b + ?b" for i'
      proof -
        have "(i * ?b + j) div ?b = i" using j assms(1) by simp
        moreover have "(i * ?b + j) div ?b = i'"
          using that by (intro div_nat_eqI) (simp_all add: mult.commute)
        ultimately show ?thesis by simp
      qed
      then show ?thesis using b(3) z i j by (metis add_diff_cancel_left' le_add1 nat_add_left_cancel_less)
    qed
    then show "bit (vs ! i) j \<longleftrightarrow> j < ?b \<and> stream_bit bits (i * ?b + j)"
      using fits_bit [OF fi, of j] by auto
  qed (use assms(2) in simp)
  have "bit_packed_canonical_decode p = Ok (map (\<lambda>i. field bits ?b (i * ?b)) [0..<length vs])"
    using bit_packed_decode_fields(1) [OF wf] unfolding p_def bit_packed_payload.simps n .
  moreover have "map (\<lambda>i. field bits ?b (i * ?b)) [0..<length vs] = vs"
    using f by (intro nth_equalityI) simp_all
  ultimately show ?thesis using pk wf by auto
qed

lemma bit_packed_pack_refuses:
  assumes "1 \<le> unat bpv" "unat bpv \<le> 63" "length vs * unat bpv < 2 ^ 64"
    "\<not> list_all (fits (unat bpv)) vs"
  shows "bit_packed_pack vs bpv = Fail PageCorrupt"
proof -
  let ?b = "unat bpv"
  have "\<not> list_all (fits ?b) vs \<Longrightarrow> pos + length vs * ?b \<le> 8 * length bits \<Longrightarrow>
      bit_packed_pack_loop ?b (bp_mask ?b) bits pos vs = Fail PageCorrupt" for pos bits
  proof (induction vs arbitrary: pos bits)
    case (Cons v vs)
    show ?case
    proof (cases "fits ?b v")
      case False
      then show ?thesis by (simp add: fits_def)
    next
      case True
      have w: "pos div 8 \<le> length bits" using Cons.prems(2) by auto
      then obtain buf where "bp_window 16 bits (pos div 8) = Ok buf" using bp_window_Ok [of _ bits 16] by blast
      moreover have "length (copy_at bits (pos div 8) (take (bp_avail 16 bits (pos div 8)) (le_bytes 16 w'))) = length bits"
        for w' :: u128 using w by (simp add: bp_avail_def min_def)
      ultimately show ?thesis using True Cons.IH Cons.prems by (simp add: fits_def Let_def)
    qed
  qed simp
  from this [OF assms(4), of 0 "replicate (div_ceil (length vs * ?b) 8) 0"] show ?thesis
    using assms(1-3) by (auto simp: bit_packed_pack_def Let_def div_ceil_def)
qed

section \<open>Properties\<close>

text \<open>
  C4: Values that fit in 1 to 63 bits survive packing, the wire and both
  decoders: \<open>pack\<close> succeeds, the encoded page parses back to the packed payload
  whatever follows it, and the canonical and the fast decoder both return the
  values.
\<close>

theorem bit_packed_pack_roundtrip:
  assumes "1 \<le> unat bpv" "unat bpv \<le> 63" "length vs < 2 ^ 32" "list_all (fits (unat bpv)) vs"
    "div_ceil (length vs * unat bpv) 8 < 2 ^ 32"
  shows "\<exists>p. bit_packed_pack vs bpv = Ok p \<and> bit_packed_parse (bit_packed_encode p @ rest) = Ok p \<and>
    bit_packed_canonical_decode p = Ok vs \<and> bit_packed_fast_decode p = Ok vs"
  using bit_packed_pack_decode [OF assms] bit_packed_parse_encode bit_packed.parity by fastforce

lemma bit_packed_pack_roundtrip_witness:
  "\<exists>p. bit_packed_pack [5, 0, 7] 3 = Ok p \<and> bit_packed_parse (bit_packed_encode p @ [1]) = Ok p \<and>
     bit_packed_canonical_decode p = Ok [5, 0, 7] \<and> bit_packed_fast_decode p = Ok [5, 0, 7]"
proof (rule bit_packed_pack_roundtrip)
  show "list_all (fits (unat (3 :: u8))) [5, 0, 7]" by (simp add: fits_def bp_mask_def)
qed (simp_all add: div_ceil_def)

text \<open>
  A value that does not fit its width is never truncated: packing a list
  with one is refused as a corrupt page.
\<close>

theorem bit_packed_pack_refuses_overflow:
  assumes "1 \<le> unat bpv" "unat bpv \<le> 63" "length vs * unat bpv < 2 ^ 64" "v \<in> set vs" "2 ^ unat bpv \<le> unat v"
  shows "bit_packed_pack vs bpv = Fail PageCorrupt"
proof (rule bit_packed_pack_refuses)
  have "\<not> fits (unat bpv) v"
  proof
    assume f: "fits (unat bpv) v"
    have "v = take_bit (unat bpv) v"
      using fits_bit [OF f] by (intro bit_word_eqI) (auto simp: bit_take_bit_iff)
    then have "unat v < 2 ^ unat bpv" by (metis unsigned_take_bit_eq take_bit_nat_less_exp)
    with assms(5) show False by simp
  qed
  then show "\<not> list_all (fits (unat bpv)) vs" using assms(4) by (auto simp: list_all_iff)
qed (use assms in simp_all)

lemma bit_packed_pack_refuses_overflow_witness:
  "bit_packed_pack [1, 4] 2 = Fail PageCorrupt"
  by (rule bit_packed_pack_refuses_overflow [of 2 "[1, 4]" 4]) simp_all

text \<open>
  On every page the BitPacked parser accepts, the fast word-at-a-time
  decoder returns exactly what the canonical decoder returns, which is the row
  count many fields of the bit stream in order; reading a page never panics.
\<close>

theorem bit_packed_fast_is_canonical:
  "and_then (bit_packed_parse bs) bit_packed_fast_decode =
     and_then (bit_packed_parse bs) bit_packed_canonical_decode \<and>
   and_then (bit_packed_parse bs) bit_packed_canonical_decode =
     and_then (bit_packed_parse bs) (\<lambda>p. Ok (map (\<lambda>i. field (bp_bits p) (unat (bp_bits_per_value p))
       (i * unat (bp_bits_per_value p))) [0..<unat (bp_row_count p)])) \<and>
   no_panic (and_then (bit_packed_parse bs) bit_packed_canonical_decode)"
proof (intro conjI)
  show "and_then (bit_packed_parse bs) bit_packed_canonical_decode =
     and_then (bit_packed_parse bs) (\<lambda>p. Ok (map (\<lambda>i. field (bp_bits p) (unat (bp_bits_per_value p))
       (i * unat (bp_bits_per_value p))) [0..<unat (bp_row_count p)]))"
    by (intro and_then_cong refl bit_packed_decode_fields(1) bit_packed.parse_wf)
qed (rule bit_packed.read_page_parity bit_packed.read_page_no_panic)+

end
