(* ===== verification/Local_Codebook.thy ===== *)
theory Local_Codebook
  imports Runs Bit_Packed Constants
begin

text \<open>
  The LocalCodebook cascade (\<^verbatim>\<open>encoding/local_codebook.rs\<close>): a page-local table
  of distinct values and a child cascade (RLE or BitPacked) of indexes into it. The
  parser decodes the indexes once and refuses a page with an index past the table, so
  that no decoder can miss.
\<close>

section \<open>The index child\<close>

datatype local_index_encoding = LIE_Rle | LIE_BitPacked

definition local_index_encoding_from_kind_raw :: "u16 \<Rightarrow> local_index_encoding option" where
  "local_index_encoding_from_kind_raw raw =
     (case encoding_kind_from raw of
        Some EK_Rle \<Rightarrow> Some LIE_Rle
      | Some EK_BitPacked \<Rightarrow> Some LIE_BitPacked
      | _ \<Rightarrow> None)"

primrec local_index_encoding_kind :: "local_index_encoding \<Rightarrow> encoding_kind" where
  "local_index_encoding_kind LIE_Rle = EK_Rle"
| "local_index_encoding_kind LIE_BitPacked = EK_BitPacked"

datatype local_index_payload = LI_Rle rle_payload | LI_BitPacked bit_packed_payload

primrec local_index_encoding_of :: "local_index_payload \<Rightarrow> local_index_encoding" where
  "local_index_encoding_of (LI_Rle p) = LIE_Rle"
| "local_index_encoding_of (LI_BitPacked p) = LIE_BitPacked"

primrec local_index_encode :: "local_index_payload \<Rightarrow> bytes" where
  "local_index_encode (LI_Rle p) = rle_encode p"
| "local_index_encode (LI_BitPacked p) = bit_packed_encode p"

text \<open>\<^verbatim>\<open>u32::try_from\<close> of an \<^verbatim>\<open>i64\<close>: negative values are at least \<open>2 ^ 63\<close> as bit patterns.\<close>

definition u32_try_from_i64 :: "i64 \<Rightarrow> u32 option" where
  "u32_try_from_i64 v = (if v < 2 ^ 32 then Some (ucast v) else None)"

definition decode_local_indexes :: "local_index_payload \<Rightarrow> u32 list res" where
  "decode_local_indexes p =
     and_then (case p of LI_Rle q \<Rightarrow> rle_fast_decode q | LI_BitPacked q \<Rightarrow> bit_packed_fast_decode q) (\<lambda>decoded.
     try_map (\<lambda>v. ok_or PageCorrupt (u32_try_from_i64 v)) decoded)"

section \<open>The codebook values\<close>

datatype local_codebook_value_kind = LK_FileCode | LK_NumCode | LK_Boolean | LK_VarBytes

definition local_codebook_value_kind_from_raw :: "u16 \<Rightarrow> local_codebook_value_kind res" where
  "local_codebook_value_kind_from_raw raw =
     and_then (ok_or (UnsupportedEncoding (''LocalCodebook value physical kind '' @ decimal (unat raw)))
       (if unat raw < 256 then physical_kind_from (ucast raw) else None)) (\<lambda>k.
     case k of
       PK_FileCode \<Rightarrow> Ok LK_FileCode
     | PK_NumCode \<Rightarrow> Ok LK_NumCode
     | PK_Boolean \<Rightarrow> Ok LK_Boolean
     | PK_VarBytes \<Rightarrow> Ok LK_VarBytes
     | _ \<Rightarrow> Fail (UnsupportedEncoding (''LocalCodebook value physical kind '' @ decimal (unat raw))))"

primrec local_codebook_value_kind_to_raw :: "local_codebook_value_kind \<Rightarrow> u16" where
  "local_codebook_value_kind_to_raw LK_FileCode = ucast (as_physical_kind PK_FileCode)"
| "local_codebook_value_kind_to_raw LK_NumCode = ucast (as_physical_kind PK_NumCode)"
| "local_codebook_value_kind_to_raw LK_Boolean = ucast (as_physical_kind PK_Boolean)"
| "local_codebook_value_kind_to_raw LK_VarBytes = ucast (as_physical_kind PK_VarBytes)"

datatype local_codebook_value = CV_FileCode u32 | CV_NumCode u64 | CV_Boolean bool | CV_VarBytes bytes

datatype local_codebook_values =
    LV_FileCode "u32 list" | LV_NumCode "u64 list" | LV_Boolean "bool list" | LV_VarBytes "bytes list"

primrec lv_kind :: "local_codebook_values \<Rightarrow> local_codebook_value_kind" where
  "lv_kind (LV_FileCode vs) = LK_FileCode"
| "lv_kind (LV_NumCode vs) = LK_NumCode"
| "lv_kind (LV_Boolean vs) = LK_Boolean"
| "lv_kind (LV_VarBytes vs) = LK_VarBytes"

primrec lv_len :: "local_codebook_values \<Rightarrow> nat" where
  "lv_len (LV_FileCode vs) = length vs"
| "lv_len (LV_NumCode vs) = length vs"
| "lv_len (LV_Boolean vs) = length vs"
| "lv_len (LV_VarBytes vs) = length vs"

fun lv_parse_var_bytes :: "bytes \<Rightarrow> nat \<Rightarrow> nat \<Rightarrow> (bytes list \<times> nat) res" where
  "lv_parse_var_bytes bs 0 offset = Ok ([], offset)"
| "lv_parse_var_bytes bs (Suc n) offset =
     and_then (ok_or ArithOverflow (checked_add offset 4)) (\<lambda>length_end.
     if length bs < length_end then Fail BufferTooShort
     else
       and_then (read_u32_le_checked bs offset) (\<lambda>len.
       and_then (ok_or ArithOverflow (checked_add length_end (unat len))) (\<lambda>value_end.
       if length bs < value_end then Fail BufferTooShort
       else
         and_then (slice bs length_end value_end) (\<lambda>v.
         and_then (lv_parse_var_bytes bs n value_end) (\<lambda>(vs, offset). Ok (v # vs, offset))))))"

definition lv_parse :: "local_codebook_value_kind \<Rightarrow> nat \<Rightarrow> bytes \<Rightarrow> local_codebook_values res" where
  "lv_parse kind codebook_len bs =
     (case kind of
        LK_FileCode \<Rightarrow>
          and_then (ok_or ArithOverflow (checked_mul codebook_len 4)) (\<lambda>expected.
          if length bs \<noteq> expected then Fail PageCorrupt
          else map_ok LV_FileCode (try_map (\<lambda>i. read_u32_le_checked bs (i * 4)) [0..<expected div 4]))
      | LK_NumCode \<Rightarrow>
          and_then (ok_or ArithOverflow (checked_mul codebook_len 8)) (\<lambda>expected.
          if length bs \<noteq> expected then Fail PageCorrupt
          else map_ok LV_NumCode (try_map (\<lambda>i. read_u64_le_checked bs (i * 8)) [0..<expected div 8]))
      | LK_Boolean \<Rightarrow>
          if length bs \<noteq> codebook_len then Fail PageCorrupt
          else map_ok LV_Boolean
            (try_map (\<lambda>b. if b = 0 then Ok False else if b = 1 then Ok True else Fail PageCorrupt) bs)
      | LK_VarBytes \<Rightarrow>
          and_then (lv_parse_var_bytes bs codebook_len 0) (\<lambda>(vs, offset).
          if offset \<noteq> length bs then Fail PageCorrupt else Ok (LV_VarBytes vs)))"

primrec lv_encode :: "local_codebook_values \<Rightarrow> bytes" where
  "lv_encode (LV_FileCode vs) = concat (map (le_bytes 4) vs)"
| "lv_encode (LV_NumCode vs) = concat (map (le_bytes 8) vs)"
| "lv_encode (LV_Boolean vs) = map (\<lambda>v. if v then 1 else 0) vs"
| "lv_encode (LV_VarBytes vs) = concat (map (\<lambda>v. le_bytes 4 (of_nat (length v) :: u32) @ v) vs)"

definition lv_value_at :: "local_codebook_values \<Rightarrow> nat \<Rightarrow> local_codebook_value res" where
  "lv_value_at vals i =
     (case vals of
        LV_FileCode vs \<Rightarrow> ok_or PageCorrupt (map_option CV_FileCode (get vs i))
      | LV_NumCode vs \<Rightarrow> ok_or PageCorrupt (map_option CV_NumCode (get vs i))
      | LV_Boolean vs \<Rightarrow> ok_or PageCorrupt (map_option CV_Boolean (get vs i))
      | LV_VarBytes vs \<Rightarrow> ok_or PageCorrupt (map_option CV_VarBytes (get vs i)))"

section \<open>The payload\<close>

record local_codebook_payload =
  lc_values :: local_codebook_values
  lc_indexes :: local_index_payload

definition local_codebook_parse :: "bytes \<Rightarrow> local_codebook_payload res" where
  "local_codebook_parse bs =
     (if length bs < 12 then Fail BufferTooShort
      else
        and_then (read_u16_le_checked bs 0) (\<lambda>child_raw.
        and_then (read_u16_le_checked bs 2) (\<lambda>kind_raw.
        and_then (local_codebook_value_kind_from_raw kind_raw) (\<lambda>value_kind.
        and_then (read_u32_le_checked bs 4) (\<lambda>cl.
        and_then (read_u32_le_checked bs 8) (\<lambda>ch.
        let codebook_len = unat cl; child_len = unat ch; header_len = 12 in
        if length bs - header_len < child_len then Fail BufferTooShort
        else
          let child_start = length bs - child_len in
          and_then (slice bs header_len child_start) (\<lambda>value_bytes.
          and_then (lv_parse value_kind codebook_len value_bytes) (\<lambda>vals.
          and_then (slice_from bs child_start) (\<lambda>child_bytes.
          and_then (case local_index_encoding_from_kind_raw child_raw of
              Some LIE_Rle \<Rightarrow> map_ok LI_Rle (rle_parse child_bytes)
            | Some LIE_BitPacked \<Rightarrow> map_ok LI_BitPacked (bit_packed_parse child_bytes)
            | None \<Rightarrow> Fail (UnsupportedEncoding (''LocalCodebook child encoding '' @ decimal (unat child_raw))))
            (\<lambda>indexes.
          and_then (decode_local_indexes indexes) (\<lambda>decoded.
          if list_ex (\<lambda>ix. lv_len vals \<le> unat ix) decoded then Fail PageCorrupt
          else Ok \<lparr>lc_values = vals, lc_indexes = indexes\<rparr>)))))))))))"

definition local_codebook_encode :: "local_codebook_payload \<Rightarrow> bytes" where
  "local_codebook_encode p =
     (let child_kind = as_encoding_kind (local_index_encoding_kind (local_index_encoding_of (lc_indexes p)));
          child = local_index_encode (lc_indexes p)
      in le_bytes 2 child_kind @ le_bytes 2 (local_codebook_value_kind_to_raw (lv_kind (lc_values p)))
         @ le_bytes 4 (of_nat (lv_len (lc_values p)) :: u32) @ le_bytes 4 (of_nat (length child) :: u32)
         @ lv_encode (lc_values p) @ child)"

definition local_codebook_decode_values :: "local_codebook_payload \<Rightarrow> local_codebook_value list res" where
  "local_codebook_decode_values p =
     and_then (decode_local_indexes (lc_indexes p)) (\<lambda>indexes.
     try_map (\<lambda>ix. lv_value_at (lc_values p) (unat ix)) indexes)"

definition decode_file_codes :: "local_codebook_payload \<Rightarrow> u32 list res" where
  "decode_file_codes p =
     (case lc_values p of
        LV_FileCode vs \<Rightarrow> and_then (decode_local_indexes (lc_indexes p))
          (try_map (\<lambda>ix. ok_or PageCorrupt (get vs (unat ix))))
      | _ \<Rightarrow> Fail (UnsupportedEncoding ''LocalCodebook is not FileCode''))"

definition decode_num_codes :: "local_codebook_payload \<Rightarrow> u64 list res" where
  "decode_num_codes p =
     (case lc_values p of
        LV_NumCode vs \<Rightarrow> and_then (decode_local_indexes (lc_indexes p))
          (try_map (\<lambda>ix. ok_or PageCorrupt (get vs (unat ix))))
      | _ \<Rightarrow> Fail (UnsupportedEncoding ''LocalCodebook is not NumCode''))"

definition decode_booleans :: "local_codebook_payload \<Rightarrow> bool list res" where
  "decode_booleans p =
     (case lc_values p of
        LV_Boolean vs \<Rightarrow> and_then (decode_local_indexes (lc_indexes p))
          (try_map (\<lambda>ix. ok_or PageCorrupt (get vs (unat ix))))
      | _ \<Rightarrow> Fail (UnsupportedEncoding ''LocalCodebook is not Boolean''))"

definition decode_var_bytes :: "local_codebook_payload \<Rightarrow> bytes list res" where
  "decode_var_bytes p =
     (case lc_values p of
        LV_VarBytes vs \<Rightarrow> and_then (decode_local_indexes (lc_indexes p))
          (try_map (\<lambda>ix. ok_or PageCorrupt (get vs (unat ix))))
      | _ \<Rightarrow> Fail (UnsupportedEncoding ''LocalCodebook is not VarBytes''))"

definition local_codebook_decode :: "local_codebook_payload \<Rightarrow> i64 list res" where
  "local_codebook_decode p =
     (case lc_values p of
        LV_FileCode vs \<Rightarrow> map_ok (map ucast) (decode_file_codes p)
      | LV_NumCode vs \<Rightarrow> and_then (decode_num_codes p) (try_map (\<lambda>v. ok_or PageCorrupt (i64_try_from v)))
      | LV_Boolean vs \<Rightarrow> map_ok (map (\<lambda>b. if b then 1 else 0)) (decode_booleans p)
      | LV_VarBytes vs \<Rightarrow> Fail (UnsupportedEncoding
          ''LocalCodebook VarBytes cannot decode through the i64 Encoding API''))"

section \<open>The invariant of the parser\<close>

primrec local_index_wf :: "local_index_payload \<Rightarrow> bool" where
  "local_index_wf (LI_Rle p) = rle_wf p"
| "local_index_wf (LI_BitPacked p) = bit_packed_wf p"

definition codebook_wf :: "local_codebook_payload \<Rightarrow> bool" where
  "codebook_wf p \<longleftrightarrow> local_index_wf (lc_indexes p) \<and>
     (\<exists>ixs. decode_local_indexes (lc_indexes p) = Ok ixs \<and> (\<forall>ix \<in> set ixs. unat ix < lv_len (lc_values p)))"

lemma decode_local_indexes_no_panic: "local_index_wf p \<Longrightarrow> no_panic (decode_local_indexes p)"
  by (cases p)
    (auto simp: decode_local_indexes_def rle.fast_no_panic bit_packed.fast_no_panic intro!: no_panic_intros)

lemma lv_parse_var_bytes_no_panic: "no_panic (lv_parse_var_bytes bs n offset)"
  by (induction n arbitrary: offset)
    (auto simp: checked_add_eq_Some_iff ok_iffs slice_def intro!: no_panic_intros)

lemma lv_parse_no_panic: "no_panic (lv_parse kind n bs)"
  by (cases kind) (auto simp: lv_parse_def intro!: no_panic_intros lv_parse_var_bytes_no_panic)

lemma value_kind_no_panic: "no_panic (local_codebook_value_kind_from_raw raw)"
  by (auto simp: local_codebook_value_kind_from_raw_def intro!: no_panic_intros split: physical_kind.splits)

lemma child_parse_wf:
  "(case k of Some LIE_Rle \<Rightarrow> map_ok LI_Rle (rle_parse bs)
      | Some LIE_BitPacked \<Rightarrow> map_ok LI_BitPacked (bit_packed_parse bs) | None \<Rightarrow> Fail e) = Ok indexes \<Longrightarrow>
   local_index_wf indexes"
  by (auto simp: ok_iffs rle.parse_wf bit_packed.parse_wf
      split: option.splits local_index_encoding.splits)

lemma local_codebook_parse_no_panic [no_panic_intros, simp]: "no_panic (local_codebook_parse bs)"
  unfolding local_codebook_parse_def Let_def
  by (intro no_panic_intros value_kind_no_panic lv_parse_no_panic)
    (auto simp: slice_def slice_from_def decode_local_indexes_no_panic child_parse_wf
      intro!: no_panic_intros split: option.splits local_index_encoding.splits)

lemma local_codebook_parse_Ok:
  assumes "local_codebook_parse bs = Ok p"
  shows "codebook_wf p"
proof -
  have "\<exists>(child_raw :: u16) (ch :: u32) cb decoded.
      (case local_index_encoding_from_kind_raw child_raw of
          Some LIE_Rle \<Rightarrow> map_ok LI_Rle (rle_parse cb)
        | Some LIE_BitPacked \<Rightarrow> map_ok LI_BitPacked (bit_packed_parse cb)
        | None \<Rightarrow> Fail (UnsupportedEncoding (''LocalCodebook child encoding '' @ decimal (unat child_raw))))
        = Ok (lc_indexes p) \<and> decode_local_indexes (lc_indexes p) = Ok decoded \<and>
      \<not> list_ex (\<lambda>ix. lv_len (lc_values p) \<le> unat ix) decoded"
    using assms unfolding local_codebook_parse_def Let_def ok_iffs sum.inject
    by (elim conjE exE) (clarsimp, blast)
  then show ?thesis
    unfolding codebook_wf_def using child_parse_wf by (auto simp: list_ex_iff not_le)
qed

lemma get_total: "(\<forall>ix \<in> set ixs. unat ix < length vs) \<Longrightarrow>
   try_map (\<lambda>ix. ok_or e (get vs (unat ix))) ixs = Ok (map (\<lambda>ix. vs ! unat ix) ixs)"
  by (intro try_map_Ok) (auto simp: get_def)

lemma local_codebook_decode_no_panic: "codebook_wf p \<Longrightarrow> no_panic (local_codebook_decode p)"
  by (cases "lc_values p")
    (auto simp: local_codebook_decode_def decode_file_codes_def decode_num_codes_def decode_booleans_def
      codebook_wf_def intro!: no_panic_intros)

interpretation local_codebook: encoding local_codebook_decode local_codebook_decode codebook_wf
  by unfold_locales (simp_all add: local_codebook_decode_no_panic)

primrec lv_nth :: "local_codebook_values \<Rightarrow> nat \<Rightarrow> local_codebook_value" where
  "lv_nth (LV_FileCode vs) i = CV_FileCode (vs ! i)"
| "lv_nth (LV_NumCode vs) i = CV_NumCode (vs ! i)"
| "lv_nth (LV_Boolean vs) i = CV_Boolean (vs ! i)"
| "lv_nth (LV_VarBytes vs) i = CV_VarBytes (vs ! i)"

lemma lv_value_at_eq: "lv_value_at vals i = (if i < lv_len vals then Ok (lv_nth vals i) else Fail PageCorrupt)"
  by (cases vals) (auto simp: lv_value_at_def get_def)

lemma decode_values_total:
  assumes "codebook_wf p"
  shows "\<exists>ixs. decode_local_indexes (lc_indexes p) = Ok ixs \<and> (\<forall>ix \<in> set ixs. unat ix < lv_len (lc_values p)) \<and>
    local_codebook_decode_values p = Ok (map (\<lambda>ix. lv_nth (lc_values p) (unat ix)) ixs)"
proof -
  from assms obtain ixs where i: "decode_local_indexes (lc_indexes p) = Ok ixs"
    "\<forall>ix \<in> set ixs. unat ix < lv_len (lc_values p)" by (auto simp: codebook_wf_def)
  then have "try_map (\<lambda>ix. lv_value_at (lc_values p) (unat ix)) ixs
      = Ok (map (\<lambda>ix. lv_nth (lc_values p) (unat ix)) ixs)"
    by (intro try_map_Ok) (simp add: lv_value_at_eq)
  with i show ?thesis by (simp add: local_codebook_decode_values_def)
qed

section \<open>Round trip\<close>

primrec lv_fits :: "local_codebook_values \<Rightarrow> bool" where
  "lv_fits (LV_FileCode vs) \<longleftrightarrow> True"
| "lv_fits (LV_NumCode vs) \<longleftrightarrow> True"
| "lv_fits (LV_Boolean vs) \<longleftrightarrow> True"
| "lv_fits (LV_VarBytes vs) \<longleftrightarrow> list_all (\<lambda>v. length v < 2 ^ 32) vs"

definition codebook_fits :: "local_codebook_payload \<Rightarrow> bool" where
  "codebook_fits p \<longleftrightarrow> codebook_wf p \<and> lv_fits (lc_values p) \<and> lv_len (lc_values p) < 2 ^ 32 \<and>
     length (local_index_encode (lc_indexes p)) < 2 ^ 32 \<and> length (lv_encode (lc_values p)) < usize_limit"

lemma value_kind_round_trip:
  "local_codebook_value_kind_from_raw (local_codebook_value_kind_to_raw k) = Ok k"
  by (cases k) (simp_all add: local_codebook_value_kind_from_raw_def physical_kind_from_def)

lemma child_kind_round_trip:
  "local_index_encoding_from_kind_raw (as_encoding_kind (local_index_encoding_kind e)) = Some e"
  by (cases e) (simp_all add: local_index_encoding_from_kind_raw_def encoding_kind_from_def)

lemma lv_parse_var_bytes_encode:
  assumes "list_all (\<lambda>v. length v < 2 ^ 32) vs"
    and "bs = pre @ concat (map (\<lambda>v. le_bytes 4 (of_nat (length v) :: u32) @ v) vs)"
    and "length bs < usize_limit" "offset = length pre"
  shows "lv_parse_var_bytes bs (length vs) offset = Ok (vs, length bs)"
  using assms
proof (induction vs arbitrary: pre offset)
  case Nil
  then show ?case by simp
next
  case (Cons v vs)
  define c where "c = (of_nat (length v) :: u32)"
  have n: "unat c = length v" unfolding c_def using Cons.prems(1) by (intro unat_of_nat_less) simp
  define tl where "tl = concat (map (\<lambda>v. le_bytes 4 (of_nat (length v) :: u32) @ v) vs)"
  have bs: "bs = pre @ le_bytes 4 c @ v @ tl" using Cons.prems(2) by (simp add: c_def tl_def)
  then have l: "length bs = offset + 4 + length v + length tl" using Cons.prems(4) by simp
  have r: "read_u32_le_checked bs offset = Ok c"
    using u32_reader.read_enc [of pre c "v @ tl"] bs l Cons.prems(3,4) by simp
  have s: "slice bs (offset + 4) (offset + 4 + length v) = (Ok v :: bytes res)"
    using l Cons.prems(4) by (simp add: slice_Ok) (simp add: bs sub_def)
  have IH: "lv_parse_var_bytes bs (length vs) (offset + 4 + length v) = Ok (vs, length bs)"
    by (rule Cons.IH [of "pre @ le_bytes 4 c @ v"]) (use Cons.prems bs l in \<open>simp_all add: tl_def\<close>)
  show ?case
    using l Cons.prems(3) by (simp add: checked_add_def r n s IH)
qed

lemma lv_parse_encode:
  assumes "lv_fits vals" "length (lv_encode vals) < usize_limit"
  shows "lv_parse (lv_kind vals) (lv_len vals) (lv_encode vals) = Ok vals"
proof (cases vals)
  case (LV_FileCode vs)
  have l: "length (concat (map (le_bytes 4) vs)) = length vs * 4"
    using length_concat_fixed [of vs "le_bytes 4" 4] by simp
  then show ?thesis
    using u32_reader.read_array [of "[]" vs 0 "[]"] assms(2) LV_FileCode
    by (simp add: lv_parse_def checked_mul_def)
next
  case (LV_NumCode vs)
  have l: "length (concat (map (le_bytes 8) vs)) = length vs * 8"
    using length_concat_fixed [of vs "le_bytes 8" 8] by simp
  then show ?thesis
    using u64_reader.read_array [of "[]" vs 0 "[]"] assms(2) LV_NumCode
    by (simp add: lv_parse_def checked_mul_def)
next
  case (LV_Boolean vs)
  have "try_map (\<lambda>b :: u8. if b = 0 then Ok False else if b = 1 then Ok True else Fail PageCorrupt)
      (map (\<lambda>v. if v then 1 else 0) vs) = Ok vs"
    by (induction vs) auto
  then show ?thesis using LV_Boolean by (simp add: lv_parse_def)
next
  case (LV_VarBytes vs)
  then show ?thesis
    using lv_parse_var_bytes_encode [of vs "lv_encode vals" "[]" 0] assms by (simp add: lv_parse_def)
qed

lemma local_codebook_parse_encode:
  assumes "codebook_fits p"
  shows "local_codebook_parse (local_codebook_encode p) = Ok p"
proof -
  define child where "child = local_index_encode (lc_indexes p)"
  define raw where "raw = as_encoding_kind (local_index_encoding_kind (local_index_encoding_of (lc_indexes p)))"
  define kind where "kind = local_codebook_value_kind_to_raw (lv_kind (lc_values p))"
  define cl where "cl = (of_nat (lv_len (lc_values p)) :: u32)"
  define ch where "ch = (of_nat (length child) :: u32)"
  define bs where "bs = local_codebook_encode p"
  from assms have f: "lv_fits (lc_values p)" "lv_len (lc_values p) < 2 ^ 32" "length child < 2 ^ 32"
    "length (lv_encode (lc_values p)) < usize_limit" and wf: "codebook_wf p"
    by (simp_all add: codebook_fits_def child_def)
  have n: "unat cl = lv_len (lc_values p)" "unat ch = length child"
    unfolding cl_def ch_def using f(2,3) by (auto intro!: unat_of_nat_less)
  have e: "bs = le_bytes 2 raw @ le_bytes 2 kind @ le_bytes 4 cl @ le_bytes 4 ch @ lv_encode (lc_values p) @ child"
    by (simp add: bs_def local_codebook_encode_def Let_def raw_def kind_def cl_def ch_def child_def)
  have r: "read_u16_le_checked bs 0 = Ok raw" "read_u16_le_checked bs 2 = Ok kind"
    "read_u32_le_checked bs 4 = Ok cl" "read_u32_le_checked bs 8 = Ok ch"
    by (simp_all add: e wire_simps usize_limit_def sub_def)
  have l: "length bs = 12 + length (lv_encode (lc_values p)) + length child" by (simp add: e)
  have s: "slice bs 12 (length bs - length child) = (Ok (lv_encode (lc_values p)) :: bytes res)"
    "slice_from bs (length bs - length child) = (Ok child :: bytes res)"
    using l by (simp_all add: slice_Ok slice_from_Ok) (simp_all add: e sub_def)
  have c: "(case local_index_encoding_from_kind_raw raw of
        Some LIE_Rle \<Rightarrow> map_ok LI_Rle (rle_parse child)
      | Some LIE_BitPacked \<Rightarrow> map_ok LI_BitPacked (bit_packed_parse child)
      | None \<Rightarrow> Fail (UnsupportedEncoding (''LocalCodebook child encoding '' @ decimal (unat raw))))
      = Ok (lc_indexes p)"
    using wf unfolding raw_def child_kind_round_trip child_def codebook_wf_def
    by (cases "lc_indexes p") (simp_all add: rle.parse_encode bit_packed.parse_encode)
  from wf obtain ixs where i: "decode_local_indexes (lc_indexes p) = Ok ixs"
    "\<not> list_ex (\<lambda>ix. lv_len (lc_values p) \<le> unat ix) ixs"
    by (auto simp: codebook_wf_def list_ex_iff not_le)
  show ?thesis
    unfolding bs_def [symmetric] local_codebook_parse_def Let_def r and_then_simps n
      value_kind_round_trip [folded] kind_def s lv_parse_encode [OF f(1,4)] c i(1)
    using l i(2) by simp
qed

section \<open>Properties\<close>

text \<open>
  Every LocalCodebook page the parser accepts decodes: its indexes are
  all inside the codebook, so the decoder returns one codebook entry per index and
  never misses; parsing any bytes never panics.
\<close>

theorem local_codebook_decode_total:
  assumes "local_codebook_parse bs = Ok p"
  shows "\<exists>ixs. decode_local_indexes (lc_indexes p) = Ok ixs \<and> (\<forall>ix \<in> set ixs. unat ix < lv_len (lc_values p)) \<and>
    local_codebook_decode_values p = Ok (map (\<lambda>ix. lv_nth (lc_values p) (unat ix)) ixs)"
  using decode_values_total [OF local_codebook_parse_Ok [OF assms]] .

definition codebook_page :: local_codebook_payload where
  "codebook_page = \<lparr>lc_values = LV_FileCode [40, 50], lc_indexes = LI_Rle \<lparr>rle_runs = [(1, 2), (0, 1)]\<rparr>\<rparr>"

lemma codebook_page_fits: "codebook_fits codebook_page"
proof -
  have "replicate 2 (1 :: i64) = [1, 1]" by (simp add: numeral_2_eq_2)
  then have "decode_local_indexes (lc_indexes codebook_page) = Ok [1, 1, 0]"
    by (simp add: codebook_page_def decode_local_indexes_def rle_decode_eq rle_expand_def u32_try_from_i64_def)
  moreover have "rle_wf \<lparr>rle_runs = [(1, 2), (0, 1)]\<rparr>" by (simp add: rle_wf_def)
  ultimately have "codebook_wf codebook_page" by (simp add: codebook_wf_def codebook_page_def)
  then show ?thesis
    by (simp add: codebook_fits_def codebook_page_def rle_encode_def rle_encode_run_def usize_limit_def)
qed

lemma local_codebook_decode_total_witness:
  "\<exists>ixs. decode_local_indexes (lc_indexes codebook_page) = Ok ixs \<and>
     local_codebook_decode_values codebook_page = Ok (map (\<lambda>ix. lv_nth (LV_FileCode [40, 50]) (unat ix)) ixs)"
  using local_codebook_decode_total [OF local_codebook_parse_encode [OF codebook_page_fits]]
  by (auto simp: codebook_page_def)

text \<open>
  A LocalCodebook page survives the wire: for every kind of value and
  both index children, parsing the encoded page returns the payload.
\<close>

theorem local_codebook_roundtrip:
  assumes "codebook_fits p"
  shows "local_codebook_parse (local_codebook_encode p) = Ok p"
  using local_codebook_parse_encode [OF assms] .

lemma local_codebook_roundtrip_witness:
  "local_codebook_parse (local_codebook_encode codebook_page) = Ok codebook_page"
  by (rule local_codebook_roundtrip [OF codebook_page_fits])

end
