(* ===== verification/Validity.thy ===== *)
theory Validity
  imports Wire
begin

text \<open>
  The packed null bitmap and its builder (\<^verbatim>\<open>validity.rs\<close>). A set bit marks
  a null row; row \<open>i\<close> is bit \<open>i mod 8\<close> of byte \<open>i div 8\<close>, that is
  \<open>stream_bit\<close> of the bytes.
\<close>

section \<open>The bitmap\<close>

record validity_bitmap =
  vb_bytes :: bytes
  vb_row_count :: u64

definition bitmap_new :: "bytes \<Rightarrow> u64 \<Rightarrow> validity_bitmap" where
  "bitmap_new bs row_count = \<lparr>vb_bytes = bs, vb_row_count = row_count\<rparr>"

definition is_null :: "validity_bitmap \<Rightarrow> u64 \<Rightarrow> bool res" where
  "is_null b row =
     (if vb_row_count b \<le> row then Fail OffsetRange
      else
        let byte_idx = unat (row div 8); bit_idx = unat (row mod 8) in
        and_then (ok_or OffsetRange (get (vb_bytes b) byte_idx)) (\<lambda>byte.
        Ok (drop_bit bit_idx byte AND 1 = 1)))"

definition is_valid :: "validity_bitmap \<Rightarrow> u64 \<Rightarrow> bool res" where
  "is_valid b row = map_ok Not (is_null b row)"

definition validate_len :: "validity_bitmap \<Rightarrow> u64 \<Rightarrow> unit res" where
  "validate_len b row_count =
     and_then (ok_or ArithOverflow (checked_add_word row_count 7)) (\<lambda>n.
     let needed_bytes = n div 8 in
     if length (vb_bytes b) < unat needed_bytes then Fail BufferTooShort else Ok ())"

text \<open>\<open>count_ones\<close> is \<^verbatim>\<open>u64::count_ones\<close>.\<close>

definition count_ones :: "u64 \<Rightarrow> nat" where
  "count_ones w = length (filter (bit w) [0..<64])"

definition null_count :: "validity_bitmap \<Rightarrow> u64 res" where
  "null_count b =
     and_then (ok_or ArithOverflow (checked_add_word (vb_row_count b) 7)) (\<lambda>n.
     let needed_bytes = unat (n div 8) in
     if length (vb_bytes b) < needed_bytes then Fail BufferTooShort
     else
       let full_words = needed_bytes div 8 in
       and_then (try_map (\<lambda>word_index. read_u64_le_checked (vb_bytes b) (word_index * 8)) [0..<full_words]) (\<lambda>words.
       let count = foldl (\<lambda>count word. count + of_nat (count_ones word)) 0 words in
       and_then (slice (vb_bytes b) (full_words * 8) needed_bytes) (\<lambda>tail.
       if tail \<noteq> [] then
         let word = of_le (copy_at (replicate 8 0) 0 tail) :: u64;
             tail_bits = unat (vb_row_count b) - full_words * 64;
             word = (if tail_bits < 64 then word AND (push_bit tail_bits 1 - 1) else word)
         in Ok (count + of_nat (count_ones word))
       else Ok count)))"

section \<open>The builder\<close>

record validity_builder =
  vbb_bytes :: bytes
  vbb_row_count :: u64

definition builder_new :: "u64 \<Rightarrow> validity_builder res" where
  "builder_new row_count =
     and_then (ok_or ArithOverflow (checked_add_word row_count 7)) (\<lambda>n.
     let needed_bytes = n div 8 in
     Ok \<lparr>vbb_bytes = replicate (unat needed_bytes) 0, vbb_row_count = row_count\<rparr>)"

definition set_null :: "validity_builder \<Rightarrow> u64 \<Rightarrow> validity_builder res" where
  "set_null b row =
     (if vbb_row_count b \<le> row then Fail OffsetRange
      else
        let byte_idx = unat (row div 8); bit_idx = unat (row mod 8) in
        and_then (index (vbb_bytes b) byte_idx) (\<lambda>byte.
        and_then (set_index (vbb_bytes b) byte_idx (byte OR push_bit bit_idx 1)) (\<lambda>bs.
        Ok (b\<lparr>vbb_bytes := bs\<rparr>))))"

definition as_bitmap :: "validity_builder \<Rightarrow> validity_bitmap" where
  "as_bitmap b = bitmap_new (vbb_bytes b) (vbb_row_count b)"

definition into_bytes :: "validity_builder \<Rightarrow> bytes" where
  "into_bytes b = vbb_bytes b"

definition builder_finish :: "validity_builder \<Rightarrow> u64 \<times> bytes" where
  "builder_finish b = (vbb_row_count b, vbb_bytes b)"

text \<open>
  A builder in use: created for a number of rows, then given any sequence of
  \<open>set_null\<close> calls. A refused call leaves the builder as it was. The second
  argument is the set of rows marked so far.
\<close>

inductive building :: "u64 \<Rightarrow> u64 set \<Rightarrow> validity_builder \<Rightarrow> bool" for rows :: u64 where
  building_new: "builder_new rows = Ok b \<Longrightarrow> building rows {} b"
| building_set: "building rows S b \<Longrightarrow> set_null b row = Ok b' \<Longrightarrow> building rows (insert row S) b'"
| building_refused: "building rows S b \<Longrightarrow> set_null b row = Fail e \<Longrightarrow> building rows S b"

inductive_cases building_cases: "building rows S b"

section \<open>Lemmas\<close>

lemma div8_mod8: "unat ((w :: u64) div 8) = unat w div 8" "unat (w mod 8) = unat w mod 8"
  by (simp_all add: unat_div unat_mod)

lemma drop_bit_1_iff: "drop_bit n (b :: u8) AND 1 = 1 \<longleftrightarrow> bit b n"
  by (simp add: bit_iff_odd_drop_bit and_one_eq odd_iff_mod_2_eq_one)

lemma is_null_eq:
  "is_null b row =
     (if vb_row_count b \<le> row \<or> length (vb_bytes b) \<le> unat row div 8 then Fail OffsetRange
      else Ok (stream_bit (vb_bytes b) (unat row)))"
  by (auto simp: is_null_def Let_def div8_mod8 get_def drop_bit_1_iff stream_bit_def)

lemma needed_Some:
  "checked_add_word rows 7 = Some n \<Longrightarrow> unat (n div 8) = (unat (rows :: u64) + 7) div 8 \<and> unat rows + 7 < 2 ^ 64"
  by (auto simp: checked_add_word_eq_Some_iff unat_div unat_word_ariths)

lemma length_filter_mono: "(\<And>x. P x \<Longrightarrow> Q x) \<Longrightarrow> length (filter P xs) \<le> length (filter Q xs)"
  by (induction xs) auto

lemma filter_upt_shift: "length (filter P [a..<a + n]) = length (filter (\<lambda>i. P (a + i)) [0..<n])"
proof -
  have "[a..<a + n] = map (\<lambda>i. i + a) [0..<n]" using map_add_upt [of a n] by (simp add: add.commute)
  then show ?thesis by (simp add: filter_map o_def add.commute)
qed

text \<open>The number of set bits among the first \<open>n\<close> of a stream.\<close>

definition ones :: "bytes \<Rightarrow> nat \<Rightarrow> nat" where
  "ones bs n = length (filter (stream_bit bs) [0..<n])"

lemma ones_add: "ones bs (a + n) = ones bs a + length (filter (\<lambda>i. stream_bit bs (a + i)) [0..<n])"
  unfolding ones_def upt_add_eq_append [OF le0] filter_append length_append filter_upt_shift [of _ a] by simp

lemma ones_le: "ones bs n \<le> n"
  by (simp add: ones_def) (metis diff_zero length_filter_le length_upt)

lemma ones_card: "ones bs n = card {i. i < n \<and> stream_bit bs i}"
proof -
  have e: "{i. i < n \<and> stream_bit bs i} = set (filter (stream_bit bs) [0..<n])" by auto
  show ?thesis unfolding e ones_def by (rule distinct_card [symmetric]) simp
qed

lemma count_full_words:
  assumes "8 * n \<le> length bs" "8 * n + 8 < usize_limit"
  shows "try_map (\<lambda>k. read_u64_le_checked bs (k * 8)) [0..<n] =
      Ok (map (\<lambda>k. of_le (sub bs (k * 8) 8)) [0..<n])"
    and "foldl (\<lambda>count word. count + of_nat (count_ones word)) 0 (map (\<lambda>k. of_le (sub bs (k * 8) 8)) [0..<n])
      = (of_nat (ones bs (64 * n)) :: u64)"
proof -
  show "try_map (\<lambda>k. read_u64_le_checked bs (k * 8)) [0..<n] =
      Ok (map (\<lambda>k. of_le (sub bs (k * 8) 8)) [0..<n])"
    using assms by (intro try_map_Ok read_words_Ok) auto
  show "foldl (\<lambda>count word. count + of_nat (count_ones word)) 0 (map (\<lambda>k. of_le (sub bs (k * 8) 8)) [0..<n])
      = (of_nat (ones bs (64 * n)) :: u64)"
    using assms
  proof (induction n)
    case 0
    then show ?case by (simp add: ones_def)
  next
    case (Suc n)
    have l: "length (sub bs (n * 8) 8) = 8" using Suc.prems by (simp add: length_sub)
    have "bit (of_le (sub bs (n * 8) 8) :: u64) i \<longleftrightarrow> stream_bit bs (64 * n + i)" if "i < 64" for i
      using that l stream_bit_sub [of i 8 bs "n * 8"] by (simp add: bit_of_le_stream div_less_iff_less_mult)
    then have "count_ones (of_le (sub bs (n * 8) 8)) = length (filter (\<lambda>i. stream_bit bs (64 * n + i)) [0..<64])"
      unfolding count_ones_def by (intro arg_cong [where f = length] filter_cong) auto
    then show ?case
      using Suc ones_add [of bs "64 * n" 64] by (simp add: add.commute)
  qed
qed

lemma count_tail_word:
  assumes "8 * n + m \<le> length bs" "m < 8" "t \<le> 8 * m"
  shows "count_ones (of_le (copy_at (replicate 8 0) 0 (sub bs (8 * n) m)) AND (push_bit t 1 - 1)) =
     length (filter (\<lambda>i. stream_bit bs (64 * n + i)) [0..<t])"
proof -
  let ?s = "sub bs (8 * n) m"
  have l: "length ?s = m" using assms by (simp add: length_sub)
  have c: "copy_at (replicate 8 0) 0 ?s = ?s @ replicate (8 - m) 0"
    using assms l by (simp add: copy_at_def)
  have k: "push_bit t 1 - 1 = (mask t :: u64)" by (simp add: mask_eq_exp_minus_1)
  have b: "bit (of_le (copy_at (replicate 8 0) 0 ?s) AND (push_bit t 1 - 1) :: u64) i \<longleftrightarrow>
      i < t \<and> stream_bit bs (64 * n + i)" if i: "i < 64" for i
  proof (cases "i < t")
    case True
    then have "i div 8 < m" using assms by auto
    then show ?thesis
      using True i l assms stream_bit_sub [of i m bs "8 * n"]
      unfolding c k of_le_append_zeros by (simp add: bit_simps bit_of_le stream_bit_def)
  next
    case False
    then show ?thesis unfolding k by (simp add: bit_simps)
  qed
  have "filter (bit (of_le (copy_at (replicate 8 0) 0 ?s) AND (push_bit t 1 - 1) :: u64)) [0..<64] =
      filter (\<lambda>i. i < t \<and> stream_bit bs (64 * n + i)) [0..<64]"
    by (rule filter_cong) (use b in auto)
  also have "\<dots> = filter (\<lambda>i. stream_bit bs (64 * n + i)) [0..<t]"
  proof -
    have u: "[0..<64] = [0..<t] @ [t..<64]"
      using assms upt_add_eq_append [of 0 t "64 - t"] by simp
    have "filter (\<lambda>i. i < t \<and> stream_bit bs (64 * n + i)) [0..<t] = filter (\<lambda>i. stream_bit bs (64 * n + i)) [0..<t]"
      by (rule filter_cong) auto
    then show ?thesis unfolding u filter_append by (simp add: filter_False)
  qed
  finally show ?thesis unfolding count_ones_def by (rule arg_cong)
qed

text \<open>
  What \<open>null_count\<close> counts: the rows when the last word is partial, and every bit of
  the last word, padding included, when it is whole.
\<close>

definition counted_bits :: "u64 \<Rightarrow> nat" where
  "counted_bits rows =
     (let needed = (unat rows + 7) div 8 in if needed mod 8 = 0 then 8 * needed else unat rows)"

lemma null_count_eq:
  "null_count b =
     (if 2 ^ 64 \<le> unat (vb_row_count b) + 7 then Fail ArithOverflow
      else if length (vb_bytes b) < (unat (vb_row_count b) + 7) div 8 then Fail BufferTooShort
      else Ok (of_nat (ones (vb_bytes b) (counted_bits (vb_row_count b)))))"
proof (cases "checked_add_word (vb_row_count b) 7")
  case None
  then show ?thesis by (auto simp: null_count_def checked_add_word_def split: if_splits)
next
  case (Some w)
  let ?r = "unat (vb_row_count b)" and ?bs = "vb_bytes b"
  define need where "need = (?r + 7) div 8"
  define n where "n = need div 8"
  define m where "m = need mod 8"
  have w: "unat (w div 8) = need" "\<not> 2 ^ 64 \<le> ?r + 7" using needed_Some [OF Some] by (auto simp: need_def)
  have nm: "need = 8 * n + m" "m < 8" by (simp_all add: n_def m_def)
  show ?thesis
  proof (cases "length ?bs < need")
    case True
    then show ?thesis using w Some by (simp add: null_count_def need_def)
  next
    case False
    have u: "8 * n + 8 < usize_limit" using w nm by (simp add: need_def usize_limit_def) 
    have l: "8 * n \<le> length ?bs" "8 * n + m \<le> length ?bs" using False nm by auto
    note full = count_full_words [OF l(1) u]
    have sl: "slice ?bs (n * 8) need = Ok (sub ?bs (8 * n) m)"
      using slice_Ok [of "n * 8" need ?bs] l nm by (simp add: mult.commute)
    have lt: "length (sub ?bs (8 * n) m) = m" using l by (simp add: length_sub)
    have eq: "null_count b = (if sub ?bs (8 * n) m \<noteq> [] then
        (let word = of_le (copy_at (replicate 8 0) 0 (sub ?bs (8 * n) m)) :: u64;
             tail_bits = ?r - n * 64;
             word = (if tail_bits < 64 then word AND (push_bit tail_bits 1 - 1) else word)
         in Ok (of_nat (ones ?bs (64 * n)) + of_nat (count_ones word)))
       else Ok (of_nat (ones ?bs (64 * n))))"
      using False by (simp add: null_count_def Some w(1) Let_def full sl n_def [symmetric] del: push_bit_of_1)
    show ?thesis
    proof (cases "m = 0")
      case True
      then have "sub ?bs (8 * n) m = []" using lt by simp
      moreover have "counted_bits (vb_row_count b) = 64 * n"
        using True nm by (simp add: counted_bits_def need_def [symmetric] m_def [symmetric])
      ultimately show ?thesis using eq w False by (simp add: need_def)
    next
      case nz: False
      then have ne: "sub ?bs (8 * n) m \<noteq> []" using lt by auto
      define t where "t = ?r - n * 64"
      have t: "t \<le> 8 * m" "t < 64" "?r = 64 * n + t"
        using nm nz need_def by (auto simp: t_def)
      have "counted_bits (vb_row_count b) = 64 * n + t"
        using nz t(3) unfolding counted_bits_def Let_def need_def [symmetric] m_def [symmetric] by simp
      then show ?thesis
        unfolding eq using ne w False t count_tail_word [OF l(2) nm(2) t(1)] ones_add [of ?bs "64 * n" t]
        by (simp add: t_def [symmetric] need_def Let_def del: push_bit_of_1)
    qed
  qed
qed

definition padding_counted :: "validity_bitmap \<Rightarrow> bool" where
  "padding_counted b \<longleftrightarrow>
     (\<exists>i < counted_bits (vb_row_count b). unat (vb_row_count b) \<le> i \<and> stream_bit (vb_bytes b) i)"

lemma counted_bits_ge: "unat rows \<le> counted_bits rows"
  by (auto simp: counted_bits_def Let_def)

lemma counted_bits_less: "unat rows + 7 < 2 ^ 64 \<Longrightarrow> counted_bits rows < 2 ^ 64"
  by (auto simp: counted_bits_def Let_def)

lemma of_nat_inject_u64: "m < 2 ^ 64 \<Longrightarrow> n < 2 ^ 64 \<Longrightarrow> (of_nat m :: u64) = of_nat n \<longleftrightarrow> m = n"
proof -
  assume a: "m < 2 ^ 64" "n < 2 ^ 64"
  have "unat (of_nat m :: u64) = m" "unat (of_nat n :: u64) = n"
    using a by (auto intro!: unat_of_nat_less)
  then show ?thesis by metis
qed

lemma padding_rows: "(r :: nat) < 8 * ((r + 7) div 8) \<Longrightarrow> (r + 7) div 8 mod 8 = 0 \<Longrightarrow> 57 \<le> r mod 64"
proof -
  assume a: "r < 8 * ((r + 7) div 8)" "(r + 7) div 8 mod 8 = 0"
  obtain k where k: "(r + 7) div 8 = 8 * k" using a(2) by (auto elim: dvdE simp: mod_0_imp_dvd)
  then have b: "r < 64 * k" "64 * k \<le> r + 7" using a(1) by linarith+
  then obtain j where "k = Suc j" by (cases k) auto
  then obtain m where m: "r = 64 * j + m" "57 \<le> m" "m < 64"
    using b that [of "r - 64 * j"] by auto
  then show ?thesis by simp
qed

lemma card_unat_image: "card (unat ` (S :: 'a::len word set)) = card S"
  by (rule card_image) (simp add: inj_on_def word_unat_eq_iff)

lemma card_null_rows:
  assumes "(unat (vb_row_count b) + 7) div 8 \<le> length (vb_bytes b)"
  shows "card {row. is_null b row = Ok True} = ones (vb_bytes b) (unat (vb_row_count b))"
proof -
  let ?A = "{i. i < unat (vb_row_count b) \<and> stream_bit (vb_bytes b) i}"
  let ?N = "{row. is_null b row = Ok True}"
  have "unat ` ?N = ?A"
  proof (intro set_eqI iffI)
    fix i assume "i \<in> unat ` ?N"
    then show "i \<in> ?A" by (auto simp: is_null_eq word_le_nat_alt split: if_splits)
  next
    fix i assume i: "i \<in> ?A"
    then have u: "unat (of_nat i :: u64) = i"
      using unat_u64_less [of "vb_row_count b"] by (intro unat_of_nat_less) simp
    then have "of_nat i \<in> ?N" using i assms by (auto simp: is_null_eq word_le_nat_alt)
    then show "i \<in> unat ` ?N" using u by (metis imageI)
  qed
  moreover note card_unat_image [of ?N]
  ultimately show ?thesis by (simp add: ones_card)
qed

lemma ones_counted_iff:
  "ones (vb_bytes b) (counted_bits (vb_row_count b)) = ones (vb_bytes b) (unat (vb_row_count b)) \<longleftrightarrow>
     \<not> padding_counted b"
proof -
  let ?r = "unat (vb_row_count b)" and ?c = "counted_bits (vb_row_count b)"
  let ?A = "{i. i < ?r \<and> stream_bit (vb_bytes b) i}" and ?B = "{i. i < ?c \<and> stream_bit (vb_bytes b) i}"
  have s: "?A \<subseteq> ?B" by (rule Collect_mono) (use counted_bits_ge [of "vb_row_count b"] in linarith)
  have f: "finite ?B" by simp
  have "card ?B = card ?A \<longleftrightarrow> ?A = ?B"
    using card_subset_eq [OF f s, OF sym] by (intro iffI) (assumption | simp)+
  also have "\<dots> \<longleftrightarrow> ?B \<subseteq> ?A" using s by blast
  also have "\<dots> \<longleftrightarrow> \<not> padding_counted b"
    unfolding padding_counted_def subset_iff mem_Collect_eq by (meson not_le)
  finally show ?thesis by (simp add: ones_card)
qed

lemma builder_new_Ok:
  "builder_new rows = Ok b \<longleftrightarrow>
     unat rows + 7 < 2 ^ 64 \<and> b = \<lparr>vbb_bytes = replicate ((unat rows + 7) div 8) 0, vbb_row_count = rows\<rparr>"
proof (cases "checked_add_word rows 7")
  case None
  then show ?thesis by (simp add: builder_new_def checked_add_word_def split: if_splits)
next
  case (Some n)
  then show ?thesis using needed_Some [OF Some] by (auto simp: builder_new_def)
qed

lemma building_invariant:
  assumes "building rows S b"
  shows "vbb_row_count b = rows" "unat rows + 7 < 2 ^ 64" "length (vbb_bytes b) = (unat rows + 7) div 8"
    "stream_bit (vbb_bytes b) i \<longleftrightarrow> i \<in> unat ` S" "row \<in> S \<Longrightarrow> row < rows"
proof -
  have "vbb_row_count b = rows \<and> unat rows + 7 < 2 ^ 64 \<and> length (vbb_bytes b) = (unat rows + 7) div 8 \<and>
    (\<forall>i. stream_bit (vbb_bytes b) i \<longleftrightarrow> i \<in> unat ` S) \<and> (\<forall>row \<in> S. row < rows)"
    using assms
  proof induction
    case (building_new b)
    then show ?case by (auto simp: builder_new_Ok stream_bit_def)
  next
    case (building_set S b row b')
    from building_set.hyps(2) have r: "row < vbb_row_count b" and
      b': "b' = b\<lparr>vbb_bytes := (vbb_bytes b)[unat row div 8 := vbb_bytes b ! (unat row div 8) OR push_bit (unat row mod 8) 1]\<rparr>"
      and k: "unat row div 8 < length (vbb_bytes b)"
      by (auto simp: set_null_def Let_def div8_mod8 index_def set_index_def not_le simp del: push_bit_of_1 split: if_splits)
    show ?case using building_set.IH r by (auto simp: b' stream_bit_set [OF k] simp del: push_bit_of_1)
  qed simp
  then show "vbb_row_count b = rows" "unat rows + 7 < 2 ^ 64" "length (vbb_bytes b) = (unat rows + 7) div 8"
    "stream_bit (vbb_bytes b) i \<longleftrightarrow> i \<in> unat ` S" "row \<in> S \<Longrightarrow> row < rows" by auto
qed

lemma no_panic_set_null:
  assumes "building rows S b"
  shows "no_panic (set_null b row)"
proof (cases "vbb_row_count b \<le> row")
  case False
  then have "unat row < unat rows" using building_invariant(1) [OF assms] by (simp add: word_less_nat_alt word_le_nat_alt)
  then have "unat row div 8 < length (vbb_bytes b)" using building_invariant(3) [OF assms] by auto
  with False show ?thesis by (simp add: set_null_def Let_def div8_mod8 index_def set_index_def)
qed (simp add: set_null_def)

section \<open>Properties\<close>

text \<open>
  A bitmap builder, after any sequence of \<open>set_null\<close> calls (refused ones
  included), reads back exactly the rows that were marked: \<open>is_null\<close> answers for every
  row below the row count and refuses the others, \<open>null_count\<close> is the number of marked
  rows, and no call panics.
\<close>

theorem builder_tracks_nulls:
  assumes "building rows S b"
  shows "is_null (as_bitmap b) row = (if row < rows then Ok (row \<in> S) else Fail OffsetRange) \<and>
    null_count (as_bitmap b) = Ok (of_nat (card S)) \<and> no_panic (set_null b row)"
proof (intro conjI)
  note inv = building_invariant [OF assms]
  show "is_null (as_bitmap b) row = (if row < rows then Ok (row \<in> S) else Fail OffsetRange)"
  proof (cases "row < rows")
    case True
    then have "unat row div 8 < length (vbb_bytes b)" using inv(3) by (auto simp: word_less_nat_alt)
    then show ?thesis
      using True inv(1,4) by (auto simp: is_null_eq as_bitmap_def bitmap_new_def inj_image_mem_iff)
  qed (use inv(1) in \<open>simp add: is_null_eq as_bitmap_def bitmap_new_def not_less\<close>)
  have c: "{i. i < counted_bits rows \<and> stream_bit (vbb_bytes b) i} = unat ` S"
    using inv(4,5) counted_bits_ge [of rows] by (auto simp: word_less_nat_alt intro: less_le_trans)
  show "null_count (as_bitmap b) = Ok (of_nat (card S))"
    using inv(1,2,3) by (simp add: null_count_eq as_bitmap_def bitmap_new_def ones_card c card_unat_image)
  show "no_panic (set_null b row)" using no_panic_set_null [OF assms] .
qed

lemma builder_tracks_nulls_witness:
  "\<exists>b. building 10 {3} b \<and> is_null (as_bitmap b) 3 = Ok True \<and> null_count (as_bitmap b) = Ok 1"
proof -
  let ?b = "\<lparr>vbb_bytes = [8, 0], vbb_row_count = 10 :: u64\<rparr>"
  have z: "replicate 2 (0 :: u8) = [0, 0]" by (simp add: numeral_2_eq_2)
  have n: "builder_new 10 = Ok \<lparr>vbb_bytes = [0, 0], vbb_row_count = 10\<rparr>" by (simp add: builder_new_Ok z)
  have s: "set_null \<lparr>vbb_bytes = [0, 0], vbb_row_count = 10\<rparr> 3 = Ok ?b"
    by (simp add: set_null_def index_def set_index_def div8_mod8 Let_def)
  have b: "building 10 {3} ?b" using building_set [OF building_new [OF n] s] by simp
  show ?thesis using b builder_tracks_nulls [OF b, of 3] by auto
qed

text \<open>
  C38: \<open>null_count\<close> is the number of null rows exactly when no counted padding bit is
  set; padding is counted only where the row count is 57 to 63 above a multiple of
  64, because the whole last word is then counted without its mask.
\<close>

theorem null_count_exact_iff:
  assumes "unat (vb_row_count b) + 7 < 2 ^ 64"
    and "(unat (vb_row_count b) + 7) div 8 \<le> length (vb_bytes b)"
  shows "(null_count b = Ok (of_nat (card {row. is_null b row = Ok True})) \<longleftrightarrow> \<not> padding_counted b) \<and>
    (padding_counted b \<longrightarrow> 57 \<le> unat (vb_row_count b) mod 64)"
proof (intro conjI impI)
  let ?r = "vb_row_count b"
  have l: "ones (vb_bytes b) (counted_bits ?r) < 2 ^ 64" "ones (vb_bytes b) (unat ?r) < 2 ^ 64"
    using ones_le [of "vb_bytes b" "counted_bits ?r"] ones_le [of "vb_bytes b" "unat ?r"]
      counted_bits_less [OF assms(1)] assms(1) by linarith+
  have "(of_nat (ones (vb_bytes b) (counted_bits ?r)) :: u64) = of_nat (ones (vb_bytes b) (unat ?r)) \<longleftrightarrow>
      ones (vb_bytes b) (counted_bits ?r) = ones (vb_bytes b) (unat ?r)"
    using l by (rule of_nat_inject_u64)
  then show "null_count b = Ok (of_nat (card {row. is_null b row = Ok True})) \<longleftrightarrow> \<not> padding_counted b"
    using assms by (simp add: null_count_eq card_null_rows ones_counted_iff)
  assume "padding_counted b"
  then have "unat ?r < counted_bits ?r" by (auto simp: padding_counted_def)
  then have "unat ?r < 8 * ((unat ?r + 7) div 8)" "(unat ?r + 7) div 8 mod 8 = 0"
    by (simp_all add: counted_bits_def Let_def split: if_splits)
  then show "57 \<le> unat ?r mod 64" by (rule padding_rows)
qed

lemma null_count_exact_iff_witness:
  "null_count \<lparr>vb_bytes = replicate 8 255, vb_row_count = 60\<rparr> = Ok 64 \<and>
   null_count \<lparr>vb_bytes = replicate 8 255, vb_row_count = 60\<rparr> \<noteq>
     Ok (of_nat (card {row. is_null \<lparr>vb_bytes = replicate 8 255, vb_row_count = 60\<rparr> row = Ok True}))"
proof -
  let ?b = "\<lparr>vb_bytes = replicate 8 255, vb_row_count = 60 :: u64\<rparr>"
  have "padding_counted ?b"
    unfolding padding_counted_def
    by (rule exI [of _ 60]) (simp add: counted_bits_def stream_bit_def)
  moreover have "filter (stream_bit (replicate 8 255)) [0..<64] = [0..<64]"
  proof (rule filter_True, rule ballI)
    fix i :: nat assume "i \<in> set [0..<64]"
    then have "i div 8 < 8" by auto
    moreover have "bit (255 :: u8) (i mod 8)"
    proof -
      have "bit (mask 8 :: u8) (i mod 8)" by (simp add: bit_mask_iff)
      then show ?thesis by (simp add: mask_eq_exp_minus_1)
    qed
    ultimately show "stream_bit (replicate 8 255) i" by (simp add: stream_bit_def)
  qed
  then have "null_count ?b = Ok 64"
    by (simp add: null_count_eq counted_bits_def ones_def)
  ultimately show ?thesis using null_count_exact_iff [of ?b] by simp
qed

end
