(* ===== verification/Zone_Stats.thy ===== *)
theory Zone_Stats
  imports Index_Common
begin

text \<open>
  Zone statistics (\<^verbatim>\<open>zone_stats.rs\<close>): statistic scalars and their typed values, the
  96-byte entry, its validation, its parser and serializer, and sections of entries.
  A zone summarises a range of rows so that a planner can skip it.
\<close>

section \<open>Constants and enumerations\<close>

definition STAT_SCALAR_ENCODED_LEN :: nat where
  "STAT_SCALAR_ENCODED_LEN = 20"

definition ZONE_STATS_ENTRY_LEN :: nat where
  "ZONE_STATS_ENTRY_LEN = 96"

definition STAT_SCALAR_FLAG_TRUNCATED :: u8 where
  "STAT_SCALAR_FLAG_TRUNCATED = 1"

definition STAT_SCALAR_KNOWN_FLAGS :: u8 where
  "STAT_SCALAR_KNOWN_FLAGS = STAT_SCALAR_FLAG_TRUNCATED"

definition ZONE_STAT_KNOWN_FLAGS :: u32 where
  "ZONE_STAT_KNOWN_FLAGS = push_bit 11 1 - 1"

datatype zone_scope = ZS_File | ZS_Table | ZS_Segment | ZS_Morsel | ZS_Page

definition zone_scope_from :: "u8 \<Rightarrow> zone_scope option" where
  "zone_scope_from v =
     (if v = 0 then Some ZS_File
      else if v = 1 then Some ZS_Table
      else if v = 2 then Some ZS_Segment
      else if v = 3 then Some ZS_Morsel
      else if v = 4 then Some ZS_Page
      else None)"

datatype stat_kind = SK_None | SK_Int64 | SK_UInt64 | SK_Float64Bits | SK_Decimal128 | SK_TimestampMicros | SK_TimestampNanos | SK_DateDays | SK_FixedBytes

primrec as_stat_kind :: "stat_kind \<Rightarrow> u8" where
  "as_stat_kind SK_None = 0"
| "as_stat_kind SK_Int64 = 1"
| "as_stat_kind SK_UInt64 = 2"
| "as_stat_kind SK_Float64Bits = 3"
| "as_stat_kind SK_Decimal128 = 4"
| "as_stat_kind SK_TimestampMicros = 5"
| "as_stat_kind SK_TimestampNanos = 6"
| "as_stat_kind SK_DateDays = 7"
| "as_stat_kind SK_FixedBytes = 8"

definition stat_kind_from :: "u8 \<Rightarrow> stat_kind option" where
  "stat_kind_from v =
     (if v = 0 then Some SK_None
      else if v = 1 then Some SK_Int64
      else if v = 2 then Some SK_UInt64
      else if v = 3 then Some SK_Float64Bits
      else if v = 4 then Some SK_Decimal128
      else if v = 5 then Some SK_TimestampMicros
      else if v = 6 then Some SK_TimestampNanos
      else if v = 7 then Some SK_DateDays
      else if v = 8 then Some SK_FixedBytes
      else None)"

lemma stat_kind_from_iff [simp]: "stat_kind_from v = Some k \<longleftrightarrow> v = as_stat_kind k"
  by (cases k) (auto simp: stat_kind_from_def)

lemma stat_kind_from_as [simp]: "stat_kind_from (as_stat_kind k) = Some k"
  by simp

primrec stat_kind_fixed_len :: "stat_kind \<Rightarrow> nat option" where
  "stat_kind_fixed_len SK_None = Some 0"
| "stat_kind_fixed_len SK_Int64 = Some 8"
| "stat_kind_fixed_len SK_UInt64 = Some 8"
| "stat_kind_fixed_len SK_Float64Bits = Some 8"
| "stat_kind_fixed_len SK_Decimal128 = Some 16"
| "stat_kind_fixed_len SK_TimestampMicros = Some 8"
| "stat_kind_fixed_len SK_TimestampNanos = Some 8"
| "stat_kind_fixed_len SK_DateDays = Some 4"
| "stat_kind_fixed_len SK_FixedBytes = None"

text \<open>\<^verbatim>\<open>ZoneStatFlags\<close>: a bit set of a \<^verbatim>\<open>u32\<close>.\<close>

type_synonym zone_stat_flags = u32

definition HAS_MIN_MAX :: zone_stat_flags where
  "HAS_MIN_MAX = push_bit 0 1"

definition HAS_DOMAIN_RANGE :: zone_stat_flags where
  "HAS_DOMAIN_RANGE = push_bit 1 1"

definition CONSTANT :: zone_stat_flags where
  "CONSTANT = push_bit 3 1"

definition SORTED_ASC :: zone_stat_flags where
  "SORTED_ASC = push_bit 4 1"

definition SORTED_DESC :: zone_stat_flags where
  "SORTED_DESC = push_bit 5 1"

definition HAS_NAN :: zone_stat_flags where
  "HAS_NAN = push_bit 6 1"

definition MINMAX_TRUNCATED :: zone_stat_flags where
  "MINMAX_TRUNCATED = push_bit 8 1"

definition flags_contain :: "zone_stat_flags \<Rightarrow> zone_stat_flags \<Rightarrow> bool" where
  "flags_contain flags other \<longleftrightarrow> flags AND other = other"

section \<open>Scalars\<close>

record stat_scalar =
  ss_kind :: stat_kind
  ss_bytes :: bytes
  ss_truncated :: bool

text \<open>
  A \<^verbatim>\<open>Float64\<close> value is kept as its bits; \<open>f64_is_nan\<close> is \<^verbatim>\<open>f64::is_nan\<close>.
\<close>

datatype numeric_stat_value = NV_Int64 i64 | NV_UInt64 u64 | NV_Float64 u64 | NV_Decimal128 u128
  | NV_TimestampMicros i64 | NV_TimestampNanos i64 | NV_DateDays u32

definition f64_is_nan :: "u64 \<Rightarrow> bool" where
  "f64_is_nan bits \<longleftrightarrow> 0x7ff0000000000000 < (bits AND 0x7fffffffffffffff)"

definition exact_array :: "nat \<Rightarrow> bytes \<Rightarrow> bytes option" where
  "exact_array n bs = (if length bs \<noteq> n then None else Some bs)"

definition decode_i32_exact :: "bytes \<Rightarrow> u32 option" where
  "decode_i32_exact bs = map_option of_le (exact_array 4 bs)"

definition decode_i64_exact :: "bytes \<Rightarrow> i64 option" where
  "decode_i64_exact bs = map_option of_le (exact_array 8 bs)"

definition decode_u64_exact :: "bytes \<Rightarrow> u64 option" where
  "decode_u64_exact bs = map_option of_le (exact_array 8 bs)"

definition decode_i128_exact :: "bytes \<Rightarrow> u128 option" where
  "decode_i128_exact bs = map_option of_le (exact_array 16 bs)"

definition numeric_value :: "stat_scalar \<Rightarrow> numeric_stat_value option" where
  "numeric_value s =
     (case ss_kind s of
        SK_Int64 \<Rightarrow> map_option NV_Int64 (decode_i64_exact (ss_bytes s))
      | SK_UInt64 \<Rightarrow> map_option NV_UInt64 (decode_u64_exact (ss_bytes s))
      | SK_Float64Bits \<Rightarrow>
          (case decode_u64_exact (ss_bytes s) of
             Some v \<Rightarrow> if f64_is_nan v then None else Some (NV_Float64 v)
           | None \<Rightarrow> None)
      | SK_Decimal128 \<Rightarrow> map_option NV_Decimal128 (decode_i128_exact (ss_bytes s))
      | SK_TimestampMicros \<Rightarrow> map_option NV_TimestampMicros (decode_i64_exact (ss_bytes s))
      | SK_TimestampNanos \<Rightarrow> map_option NV_TimestampNanos (decode_i64_exact (ss_bytes s))
      | SK_DateDays \<Rightarrow> map_option NV_DateDays (decode_i32_exact (ss_bytes s))
      | _ \<Rightarrow> None)"

definition validate_stat_scalar_shape :: "stat_scalar \<Rightarrow> unit res" where
  "validate_stat_scalar_shape scalar =
     (if 16 < length (ss_bytes scalar) then Fail BadStats
      else case stat_kind_fixed_len (ss_kind scalar) of
        Some fixed_len \<Rightarrow> if length (ss_bytes scalar) \<noteq> fixed_len then Fail BadStats else Ok ()
      | None \<Rightarrow> Ok ())"

definition parse_stat_scalar :: "bytes \<Rightarrow> stat_scalar option res" where
  "parse_stat_scalar bs =
     (if length bs < STAT_SCALAR_ENCODED_LEN then Fail BufferTooShort
      else
        and_then (index bs 0) (\<lambda>b0. and_then (ok_or BadStats (stat_kind_from b0)) (\<lambda>kind.
        and_then (index bs 1) (\<lambda>flags.
        if flags AND NOT STAT_SCALAR_KNOWN_FLAGS \<noteq> 0 then Fail BadStats
        else
          and_then (read_u16_le_checked bs 2) (\<lambda>len16. let len = unat len16 in
          if 16 < len then Fail BadStats
          else if kind = SK_None then
            (if len \<noteq> 0 \<or> flags \<noteq> 0 then Fail BadStats else Ok None)
          else
            and_then (slice bs 4 (4 + len)) (\<lambda>payload.
            let scalar = \<lparr>ss_kind = kind, ss_bytes = payload,
                  ss_truncated = (flags AND STAT_SCALAR_FLAG_TRUNCATED \<noteq> 0)\<rparr> in
            and_then (validate_stat_scalar_shape scalar) (\<lambda>_. Ok (Some scalar))))))))"

text \<open>\<^verbatim>\<open>encode_stat_scalar\<close> fills a destination of \<open>STAT_SCALAR_ENCODED_LEN\<close> bytes.\<close>

definition encode_stat_scalar :: "stat_scalar option \<Rightarrow> bytes res" where
  "encode_stat_scalar val =
     (let dst = replicate STAT_SCALAR_ENCODED_LEN 0 in
      case val of
        None \<Rightarrow> Ok dst
      | Some scalar \<Rightarrow>
          and_then (validate_stat_scalar_shape scalar) (\<lambda>_.
          let len = length (ss_bytes scalar);
              dst = copy_at dst 0 [as_stat_kind (ss_kind scalar)];
              dst = copy_at dst 1 [if ss_truncated scalar then STAT_SCALAR_FLAG_TRUNCATED else 0];
              dst = copy_at dst 2 (le_bytes 2 (of_nat len :: u16))
          in Ok (copy_at dst 4 (ss_bytes scalar))))"

section \<open>Zone statistics\<close>

record zone_stats =
  zs_scope :: zone_scope
  zs_row_count :: u64
  zs_null_count :: u64
  zs_min :: "stat_scalar option"
  zs_max :: "stat_scalar option"
  zs_flags :: zone_stat_flags

record zone_stats_entry =
  ze_table_id :: u32
  ze_segment_id :: u32
  ze_morsel_id :: u32
  ze_column_id :: u32
  ze_non_null_count :: u32
  ze_distinct_count :: u32
  ze_run_count :: u32
  ze_stats :: zone_stats
  ze_min_domain_rank :: u32
  ze_max_domain_rank :: u32
  ze_exact_set_ref :: u32
  ze_bloom_ref :: u32

text \<open>\<open>scalars\<close> is the flattened array of the two bounds that the loops of \<^verbatim>\<open>validate\<close> walk.\<close>

definition scalars :: "zone_stats \<Rightarrow> stat_scalar list" where
  "scalars z = (case zs_min z of Some s \<Rightarrow> [s] | None \<Rightarrow> []) @ (case zs_max z of Some s \<Rightarrow> [s] | None \<Rightarrow> [])"

definition validate_bound :: "stat_scalar \<Rightarrow> unit res" where
  "validate_bound scalar =
     and_then (validate_stat_scalar_shape scalar) (\<lambda>_.
     if ss_kind scalar = SK_Float64Bits then
       (case decode_u64_exact (ss_bytes scalar) of
          None \<Rightarrow> Fail BadStats
        | Some bits \<Rightarrow> if f64_is_nan bits then Fail BadStats else Ok ())
     else Ok ())"

definition zone_stats_validate :: "zone_stats \<Rightarrow> unit res" where
  "zone_stats_validate z =
     (if zs_flags z AND NOT ZONE_STAT_KNOWN_FLAGS \<noteq> 0 then Fail BadStats
      else if zs_row_count z < zs_null_count z then Fail BadStats
      else if zs_null_count z = zs_row_count z \<and> (zs_min z \<noteq> None \<or> zs_max z \<noteq> None) then Fail BadStats
      else if (case (zs_min z, zs_max z) of (Some mn, Some mx) \<Rightarrow> ss_kind mn \<noteq> ss_kind mx | _ \<Rightarrow> False) then Fail BadStats
      else if list_ex ss_truncated (scalars z) \<noteq> flags_contain (zs_flags z) MINMAX_TRUNCATED then Fail BadStats
      else
        and_then (try_map validate_bound (scalars z)) (\<lambda>_.
        if flags_contain (zs_flags z) CONSTANT \<and> zs_min z \<noteq> zs_max z then Fail BadStats
        else if flags_contain (zs_flags z) SORTED_ASC \<and> flags_contain (zs_flags z) SORTED_DESC \<and> 1 < zs_row_count z
        then Fail BadStats
        else Ok ()))"

definition u32_try_from :: "u64 \<Rightarrow> u32 option" where
  "u32_try_from v = (if unat v < 2 ^ 32 then Some (ucast v) else None)"

definition entry_validate :: "zone_stats_entry \<Rightarrow> unit res" where
  "entry_validate e =
     and_then (ok_or BadStats (u32_try_from (zs_row_count (ze_stats e)))) (\<lambda>row_count.
     and_then (ok_or BadStats (u32_try_from (zs_null_count (ze_stats e)))) (\<lambda>null_count.
     and_then (ok_or ArithOverflow (checked_add_word null_count (ze_non_null_count e))) (\<lambda>total'.
     if total' \<noteq> row_count then Fail BadStats
     else if (zs_min (ze_stats e) \<noteq> None) \<noteq> (zs_max (ze_stats e) \<noteq> None) then Fail BadStats
     else if flags_contain (zs_flags (ze_stats e)) HAS_MIN_MAX \<noteq> (zs_min (ze_stats e) \<noteq> None) then Fail BadStats
     else zone_stats_validate (ze_stats e))))"

definition scope_of_morsel :: "u32 \<Rightarrow> zone_scope" where
  "scope_of_morsel morsel = (if morsel = - 1 then ZS_Segment else ZS_Morsel)"

definition entry_parse :: "bytes \<Rightarrow> zone_stats_entry res" where
  "entry_parse bs =
     (if length bs < ZONE_STATS_ENTRY_LEN then Fail BufferTooShort
      else
        and_then (slice bs 0 ZONE_STATS_ENTRY_LEN) (\<lambda>bs.
        and_then (read_u32_le_checked bs 0) (\<lambda>table'.
        and_then (read_u32_le_checked bs 4) (\<lambda>segment'.
        and_then (read_u32_le_checked bs 8) (\<lambda>morsel'.
        and_then (read_u32_le_checked bs 12) (\<lambda>column'.
        and_then (read_u32_le_checked bs 16) (\<lambda>row_count.
        and_then (read_u32_le_checked bs 20) (\<lambda>null_count.
        and_then (read_u32_le_checked bs 24) (\<lambda>non_null_count.
        and_then (read_u32_le_checked bs 28) (\<lambda>distinct_count.
        and_then (read_u32_le_checked bs 32) (\<lambda>run_count.
        and_then (read_u32_le_checked bs 36) (\<lambda>flags.
        and_then (and_then (slice bs 40 (40 + STAT_SCALAR_ENCODED_LEN)) parse_stat_scalar) (\<lambda>mn.
        and_then (and_then (slice bs 60 (60 + STAT_SCALAR_ENCODED_LEN)) parse_stat_scalar) (\<lambda>mx.
        and_then (read_u32_le_checked bs 80) (\<lambda>min_rank.
        and_then (read_u32_le_checked bs 84) (\<lambda>max_rank.
        and_then (read_u32_le_checked bs 88) (\<lambda>exact_ref.
        and_then (read_u32_le_checked bs 92) (\<lambda>bloom_ref'.
        let entry = \<lparr>ze_table_id = table', ze_segment_id = segment', ze_morsel_id = morsel',
              ze_column_id = column', ze_non_null_count = non_null_count, ze_distinct_count = distinct_count,
              ze_run_count = run_count,
              ze_stats = \<lparr>zs_scope = scope_of_morsel morsel', zs_row_count = ucast row_count,
                zs_null_count = ucast null_count, zs_min = mn, zs_max = mx, zs_flags = flags\<rparr>,
              ze_min_domain_rank = min_rank, ze_max_domain_rank = max_rank,
              ze_exact_set_ref = exact_ref, ze_bloom_ref = bloom_ref'\<rparr> in
        and_then (entry_validate entry) (\<lambda>_. Ok entry)))))))))))))))))))"

definition entry_serialize :: "zone_stats_entry \<Rightarrow> bytes res" where
  "entry_serialize e =
     and_then (entry_validate e) (\<lambda>_.
     let out = replicate ZONE_STATS_ENTRY_LEN 0;
         out = copy_at out 0 (le_bytes 4 (ze_table_id e));
         out = copy_at out 4 (le_bytes 4 (ze_segment_id e));
         out = copy_at out 8 (le_bytes 4 (ze_morsel_id e));
         out = copy_at out 12 (le_bytes 4 (ze_column_id e));
         row_count = ucast (zs_row_count (ze_stats e)) :: u32;
         null_count = ucast (zs_null_count (ze_stats e)) :: u32;
         out = copy_at out 16 (le_bytes 4 row_count);
         out = copy_at out 20 (le_bytes 4 null_count);
         out = copy_at out 24 (le_bytes 4 (ze_non_null_count e));
         out = copy_at out 28 (le_bytes 4 (ze_distinct_count e));
         out = copy_at out 32 (le_bytes 4 (ze_run_count e));
         out = copy_at out 36 (le_bytes 4 (zs_flags (ze_stats e))) in
     and_then (encode_stat_scalar (zs_min (ze_stats e))) (\<lambda>mn.
     let out = copy_at out 40 mn in
     and_then (encode_stat_scalar (zs_max (ze_stats e))) (\<lambda>mx.
     let out = copy_at out 60 mx;
         out = copy_at out 80 (le_bytes 4 (ze_min_domain_rank e));
         out = copy_at out 84 (le_bytes 4 (ze_max_domain_rank e));
         out = copy_at out 88 (le_bytes 4 (ze_exact_set_ref e))
     in Ok (copy_at out 92 (le_bytes 4 (ze_bloom_ref e))))))"

definition zone_section_parse :: "bytes \<Rightarrow> zone_stats_entry list res" where
  "zone_section_parse bs =
     (if bs = [] then Ok []
      else if length bs mod ZONE_STATS_ENTRY_LEN \<noteq> 0 then Fail BadStats
      else try_map entry_parse (chunks_exact ZONE_STATS_ENTRY_LEN bs))"

definition zone_section_serialize :: "zone_stats_entry list \<Rightarrow> bytes res" where
  "zone_section_serialize entries = map_ok concat (try_map entry_serialize entries)"

section \<open>Scalars survive the wire\<close>

text \<open>A bound that the wire can carry: kind \<^verbatim>\<open>None\<close> is written as an absent bound.\<close>

definition wire_bound :: "stat_scalar option \<Rightarrow> bool" where
  "wire_bound b \<longleftrightarrow> (case b of None \<Rightarrow> True | Some s \<Rightarrow> ss_kind s \<noteq> SK_None)"

lemma validate_shape_iff:
  "validate_stat_scalar_shape s = Inr u \<longleftrightarrow>
     length (ss_bytes s) \<le> 16 \<and> (\<forall>n. stat_kind_fixed_len (ss_kind s) = Some n \<longrightarrow> length (ss_bytes s) = n)"
  by (auto simp: validate_stat_scalar_shape_def split: option.splits)

lemma no_panic_validate_shape [no_panic_intros, simp]: "no_panic (validate_stat_scalar_shape s)"
  by (auto simp: validate_stat_scalar_shape_def split: option.splits)

lemma encode_stat_scalar_eq:
  "encode_stat_scalar (Some s) = Inr r \<longleftrightarrow>
     validate_stat_scalar_shape s = Ok () \<and>
     r = [as_stat_kind (ss_kind s), if ss_truncated s then 1 else 0] @ le_bytes 2 (of_nat (length (ss_bytes s)) :: u16) @
       ss_bytes s @ replicate (16 - length (ss_bytes s)) 0"
proof -
  have "copy_at (copy_at (copy_at (copy_at (replicate 20 0) 0 [a]) 1 [b]) 2 (le_bytes 2 c)) 4 bs
      = [a, b] @ le_bytes 2 c @ bs @ replicate (16 - length bs) 0" if "length bs \<le> 16" for a b bs and c :: u16
    using that drop_drop [of "length bs" 4 "a # b # le_bytes 2 c @ replicate 16 (0 :: u8)"]
    by (simp add: copy_at_def add.commute)
  then show ?thesis
    by (auto simp: encode_stat_scalar_def STAT_SCALAR_ENCODED_LEN_def STAT_SCALAR_FLAG_TRUNCATED_def Let_def ok_iffs
        validate_shape_iff)
qed

lemma encode_stat_scalar_length: "encode_stat_scalar b = Inr r \<Longrightarrow> length r = 20"
proof (cases b)
  case None
  then show "encode_stat_scalar b = Inr r \<Longrightarrow> length r = 20"
    by (auto simp: encode_stat_scalar_def STAT_SCALAR_ENCODED_LEN_def)
qed (auto simp: encode_stat_scalar_eq validate_shape_iff)

lemma parse_encode_stat_scalar:
  assumes "encode_stat_scalar b = Inr r" "wire_bound b"
  shows "parse_stat_scalar r = Ok b"
proof (cases b)
  case None
  then have r: "r = replicate 20 0"
    using assms(1) by (simp add: encode_stat_scalar_def STAT_SCALAR_ENCODED_LEN_def)
  have k: "stat_kind_from 0 = Some SK_None" by (simp add: stat_kind_from_def)
  have i: "index r 0 = (Ok 0 :: u8 res)" "index r 1 = (Ok 0 :: u8 res)" "read_u16_le_checked r 2 = Ok 0"
    by (simp_all add: r index_Ok wire_simps usize_limit_def)
  show ?thesis
    unfolding parse_stat_scalar_def i and_then_simps k ok_or_simps Let_def
    by (simp add: None r STAT_SCALAR_ENCODED_LEN_def)
next
  case (Some s)
  let ?n = "length (ss_bytes s)"
  define t where "t = (if ss_truncated s then 1 else 0 :: u8)"
  from assms(1) have v: "validate_stat_scalar_shape s = Ok ()"
    and r: "r = [as_stat_kind (ss_kind s), t] @ le_bytes 2 (of_nat ?n :: u16) @ ss_bytes s @ replicate (16 - ?n) 0"
    by (simp_all add: Some encode_stat_scalar_eq t_def)
  have n: "?n \<le> 16" using v by (simp add: validate_shape_iff)
  have u: "unat (of_nat ?n :: u16) = ?n" by (rule unat_of_nat_less) (use n in simp)
  have l: "\<not> length r < STAT_SCALAR_ENCODED_LEN" using n by (simp add: r STAT_SCALAR_ENCODED_LEN_def)
  have i: "index r 0 = (Ok (as_stat_kind (ss_kind s)) :: u8 res)" "index r 1 = (Ok t :: u8 res)"
    "read_u16_le_checked r 2 = Ok (of_nat ?n)" "slice r 4 (4 + ?n) = (Ok (ss_bytes s) :: bytes res)"
    using n by (simp_all add: r index_Ok wire_simps usize_limit_def slice_Ok sub_def)
  have f: "t AND NOT STAT_SCALAR_KNOWN_FLAGS = 0" "(t AND STAT_SCALAR_FLAG_TRUNCATED \<noteq> 0) = ss_truncated s"
    by (simp_all add: t_def STAT_SCALAR_KNOWN_FLAGS_def STAT_SCALAR_FLAG_TRUNCATED_def)
  have e: "\<lparr>ss_kind = ss_kind s, ss_bytes = ss_bytes s, ss_truncated = ss_truncated s\<rparr> = s" by simp
  have k: "ss_kind s \<noteq> SK_None" using assms(2) by (simp add: Some wire_bound_def)
  show ?thesis
    unfolding parse_stat_scalar_def if_not_P [OF l] i and_then_simps stat_kind_from_as ok_or_simps Let_def u f e
    using n k v by (simp add: Some)
qed

lemma no_panic_parse_stat_scalar [no_panic_intros, simp]: "no_panic (parse_stat_scalar bs)"
  by (auto simp: parse_stat_scalar_def Let_def STAT_SCALAR_ENCODED_LEN_def index_def slice_def intro!: no_panic_intros)

lemma no_panic_validate_bound [no_panic_intros, simp]: "no_panic (validate_bound s)"
  by (auto simp: validate_bound_def intro!: no_panic_intros split: option.splits)

lemma no_panic_zone_stats_validate [no_panic_intros, simp]: "no_panic (zone_stats_validate z)"
  by (auto simp: zone_stats_validate_def intro!: no_panic_intros)

lemma no_panic_entry_validate [no_panic_intros, simp]: "no_panic (entry_validate e)"
  by (auto simp: entry_validate_def intro!: no_panic_intros)

section \<open>Entries survive the wire\<close>

lemma u32_try_from_Some: "u32_try_from v = Some w \<longleftrightarrow> unat v < 2 ^ 32 \<and> w = ucast v"
  by (auto simp: u32_try_from_def)

lemma ucast_u32_u64:
  "unat (v :: u64) < 2 ^ 32 \<Longrightarrow> ucast (ucast v :: u32) = v"
  by (simp add: word_unat_eq_iff unsigned_ucast_eq unsigned_take_bit_eq take_bit_nat_eq_self)

lemma entry_serialize_layout:
  assumes "entry_serialize e = Ok bs"
  obtains mn mx where "entry_validate e = Ok ()" "encode_stat_scalar (zs_min (ze_stats e)) = Ok mn"
    "encode_stat_scalar (zs_max (ze_stats e)) = Ok mx"
    "bs = le_bytes 4 (ze_table_id e) @ le_bytes 4 (ze_segment_id e) @ le_bytes 4 (ze_morsel_id e) @
      le_bytes 4 (ze_column_id e) @ le_bytes 4 (ucast (zs_row_count (ze_stats e)) :: u32) @
      le_bytes 4 (ucast (zs_null_count (ze_stats e)) :: u32) @ le_bytes 4 (ze_non_null_count e) @
      le_bytes 4 (ze_distinct_count e) @ le_bytes 4 (ze_run_count e) @ le_bytes 4 (zs_flags (ze_stats e)) @
      mn @ mx @ le_bytes 4 (ze_min_domain_rank e) @ le_bytes 4 (ze_max_domain_rank e) @
      le_bytes 4 (ze_exact_set_ref e) @ le_bytes 4 (ze_bloom_ref e)"
proof -
  from assms obtain mn mx where v: "entry_validate e = Ok ()"
    and m: "encode_stat_scalar (zs_min (ze_stats e)) = Ok mn" "encode_stat_scalar (zs_max (ze_stats e)) = Ok mx"
    by (auto simp: entry_serialize_def Let_def ok_iffs)
  note l = encode_stat_scalar_length [OF m(1)] encode_stat_scalar_length [OF m(2)]
  have "bs = le_bytes 4 (ze_table_id e) @ le_bytes 4 (ze_segment_id e) @ le_bytes 4 (ze_morsel_id e) @
      le_bytes 4 (ze_column_id e) @ le_bytes 4 (ucast (zs_row_count (ze_stats e)) :: u32) @
      le_bytes 4 (ucast (zs_null_count (ze_stats e)) :: u32) @ le_bytes 4 (ze_non_null_count e) @
      le_bytes 4 (ze_distinct_count e) @ le_bytes 4 (ze_run_count e) @ le_bytes 4 (zs_flags (ze_stats e)) @
      mn @ mx @ le_bytes 4 (ze_min_domain_rank e) @ le_bytes 4 (ze_max_domain_rank e) @
      le_bytes 4 (ze_exact_set_ref e) @ le_bytes 4 (ze_bloom_ref e)"
    using assms v m l unfolding entry_serialize_def ZONE_STATS_ENTRY_LEN_def
    by (simp add: fill_simps del: append_assoc) (simp only: append_assoc)
  with v m show thesis by (rule that)
qed

text \<open>An entry whose in-memory form is what the wire carries.\<close>

definition wire_entry :: "zone_stats_entry \<Rightarrow> bool" where
  "wire_entry e \<longleftrightarrow> zs_scope (ze_stats e) = scope_of_morsel (ze_morsel_id e) \<and>
     wire_bound (zs_min (ze_stats e)) \<and> wire_bound (zs_max (ze_stats e))"

lemma entry_parse_serialize:
  assumes "entry_serialize e = Ok bs" "wire_entry e"
  shows "entry_parse bs = Ok e" "length bs = 96"
proof -
  from assms(1) obtain mn mx where v: "entry_validate e = Ok ()"
    and m: "encode_stat_scalar (zs_min (ze_stats e)) = Ok mn" "encode_stat_scalar (zs_max (ze_stats e)) = Ok mx"
    and bs: "bs = le_bytes 4 (ze_table_id e) @ le_bytes 4 (ze_segment_id e) @ le_bytes 4 (ze_morsel_id e) @
      le_bytes 4 (ze_column_id e) @ le_bytes 4 (ucast (zs_row_count (ze_stats e)) :: u32) @
      le_bytes 4 (ucast (zs_null_count (ze_stats e)) :: u32) @ le_bytes 4 (ze_non_null_count e) @
      le_bytes 4 (ze_distinct_count e) @ le_bytes 4 (ze_run_count e) @ le_bytes 4 (zs_flags (ze_stats e)) @
      mn @ mx @ le_bytes 4 (ze_min_domain_rank e) @ le_bytes 4 (ze_max_domain_rank e) @
      le_bytes 4 (ze_exact_set_ref e) @ le_bytes 4 (ze_bloom_ref e)"
    by (rule entry_serialize_layout)
  note l = encode_stat_scalar_length [OF m(1)] encode_stat_scalar_length [OF m(2)]
  show len: "length bs = 96" using l by (simp add: bs)
  have c: "unat (zs_row_count (ze_stats e)) < 2 ^ 32" "unat (zs_null_count (ze_stats e)) < 2 ^ 32"
    using v by (auto simp: entry_validate_def ok_iffs u32_try_from_Some)
  have p: "parse_stat_scalar mn = Ok (zs_min (ze_stats e))" "parse_stat_scalar mx = Ok (zs_max (ze_stats e))"
    using m assms(2) by (simp_all add: parse_encode_stat_scalar wire_entry_def)
  have s: "slice bs 0 ZONE_STATS_ENTRY_LEN = (Ok bs :: bytes res)"
    using len by (simp add: slice_Ok ZONE_STATS_ENTRY_LEN_def sub_all)
  have b: "sub bs 0 4 = le_bytes 4 (ze_table_id e)" "sub bs 4 4 = le_bytes 4 (ze_segment_id e)"
    "sub bs 8 4 = le_bytes 4 (ze_morsel_id e)" "sub bs 12 4 = le_bytes 4 (ze_column_id e)"
    "sub bs 16 4 = le_bytes 4 (ucast (zs_row_count (ze_stats e)) :: u32)"
    "sub bs 20 4 = le_bytes 4 (ucast (zs_null_count (ze_stats e)) :: u32)"
    "sub bs 24 4 = le_bytes 4 (ze_non_null_count e)" "sub bs 28 4 = le_bytes 4 (ze_distinct_count e)"
    "sub bs 32 4 = le_bytes 4 (ze_run_count e)" "sub bs 36 4 = le_bytes 4 (zs_flags (ze_stats e))"
    "sub bs 40 20 = mn" "sub bs 60 20 = mx"
    "sub bs 80 4 = le_bytes 4 (ze_min_domain_rank e)" "sub bs 84 4 = le_bytes 4 (ze_max_domain_rank e)"
    "sub bs 88 4 = le_bytes 4 (ze_exact_set_ref e)" "sub bs 92 4 = le_bytes 4 (ze_bloom_ref e)"
    using l by (simp_all add: bs sub_def)
  have r: "read_u32_le_checked bs 0 = Ok (ze_table_id e)" "read_u32_le_checked bs 4 = Ok (ze_segment_id e)"
    "read_u32_le_checked bs 8 = Ok (ze_morsel_id e)" "read_u32_le_checked bs 12 = Ok (ze_column_id e)"
    "read_u32_le_checked bs 16 = Ok (ucast (zs_row_count (ze_stats e)))"
    "read_u32_le_checked bs 20 = Ok (ucast (zs_null_count (ze_stats e)))"
    "read_u32_le_checked bs 24 = Ok (ze_non_null_count e)" "read_u32_le_checked bs 28 = Ok (ze_distinct_count e)"
    "read_u32_le_checked bs 32 = Ok (ze_run_count e)" "read_u32_le_checked bs 36 = Ok (zs_flags (ze_stats e))"
    "read_u32_le_checked bs 80 = Ok (ze_min_domain_rank e)" "read_u32_le_checked bs 84 = Ok (ze_max_domain_rank e)"
    "read_u32_le_checked bs 88 = Ok (ze_exact_set_ref e)" "read_u32_le_checked bs 92 = Ok (ze_bloom_ref e)"
    using len by (simp_all add: read_words_Ok usize_limit_def b of_le_le_bytes)
  have q: "slice bs 40 (40 + STAT_SCALAR_ENCODED_LEN) = (Ok mn :: bytes res)"
    "slice bs 60 (60 + STAT_SCALAR_ENCODED_LEN) = (Ok mx :: bytes res)"
    using len by (simp_all add: slice_Ok STAT_SCALAR_ENCODED_LEN_def b)
  have n: "\<not> length bs < ZONE_STATS_ENTRY_LEN" using len by (simp add: ZONE_STATS_ENTRY_LEN_def)
  have e: "\<lparr>ze_table_id = ze_table_id e, ze_segment_id = ze_segment_id e, ze_morsel_id = ze_morsel_id e,
      ze_column_id = ze_column_id e, ze_non_null_count = ze_non_null_count e, ze_distinct_count = ze_distinct_count e,
      ze_run_count = ze_run_count e,
      ze_stats = \<lparr>zs_scope = scope_of_morsel (ze_morsel_id e), zs_row_count = zs_row_count (ze_stats e),
        zs_null_count = zs_null_count (ze_stats e), zs_min = zs_min (ze_stats e), zs_max = zs_max (ze_stats e),
        zs_flags = zs_flags (ze_stats e)\<rparr>,
      ze_min_domain_rank = ze_min_domain_rank e, ze_max_domain_rank = ze_max_domain_rank e,
      ze_exact_set_ref = ze_exact_set_ref e, ze_bloom_ref = ze_bloom_ref e\<rparr> = e"
    using assms(2) by (simp add: wire_entry_def)
  show "entry_parse bs = Ok e"
    unfolding entry_parse_def if_not_P [OF n] s and_then_simps r q p Let_def ucast_u32_u64 [OF c(1)] ucast_u32_u64 [OF c(2)] e v ..
qed

lemma no_panic_entry_parse [no_panic_intros, simp]: "no_panic (entry_parse bs)"
  unfolding entry_parse_def ZONE_STATS_ENTRY_LEN_def STAT_SCALAR_ENCODED_LEN_def Let_def
  by (auto simp: slice_def intro!: no_panic_intros)

text \<open>What every entry a parser accepts satisfies.\<close>

lemma entry_parse_validates: "entry_parse bs = Ok e \<Longrightarrow> entry_validate e = Ok ()"
  by (auto simp: entry_parse_def Let_def ok_iffs)

lemma entry_validate_facts:
  assumes "entry_validate e = Ok ()"
  shows "unat (zs_null_count (ze_stats e)) + unat (ze_non_null_count e) = unat (zs_row_count (ze_stats e))"
    "flags_contain (zs_flags (ze_stats e)) HAS_MIN_MAX \<longleftrightarrow> zs_min (ze_stats e) \<noteq> None"
    "zs_min (ze_stats e) = None \<longleftrightarrow> zs_max (ze_stats e) = None"
    "zs_null_count (ze_stats e) = zs_row_count (ze_stats e) \<Longrightarrow> zs_min (ze_stats e) = None"
proof -
  from assms have c: "unat (zs_row_count (ze_stats e)) < 2 ^ 32" "unat (zs_null_count (ze_stats e)) < 2 ^ 32"
    and a: "checked_add_word (ucast (zs_null_count (ze_stats e))) (ze_non_null_count e) = Some (ucast (zs_row_count (ze_stats e)))"
    by (auto simp: entry_validate_def ok_iffs u32_try_from_Some)
  have u: "unat (ucast (zs_row_count (ze_stats e)) :: u32) = unat (zs_row_count (ze_stats e))"
    "unat (ucast (zs_null_count (ze_stats e)) :: u32) = unat (zs_null_count (ze_stats e))"
    using c by (simp_all add: unsigned_ucast_eq take_bit_nat_eq_self)
  show "unat (zs_null_count (ze_stats e)) + unat (ze_non_null_count e) = unat (zs_row_count (ze_stats e))"
    using a u by (auto simp: checked_add_word_eq_Some_iff unat_word_ariths)
  show "flags_contain (zs_flags (ze_stats e)) HAS_MIN_MAX \<longleftrightarrow> zs_min (ze_stats e) \<noteq> None"
    "zs_min (ze_stats e) = None \<longleftrightarrow> zs_max (ze_stats e) = None"
    "zs_null_count (ze_stats e) = zs_row_count (ze_stats e) \<Longrightarrow> zs_min (ze_stats e) = None"
    using assms by (auto simp: entry_validate_def zone_stats_validate_def ok_iffs)
qed

section \<open>Properties\<close>

text \<open>
  A section of zone statistics that serialises is read back entry for entry, when
  the in-memory entries are of the form the wire carries.
\<close>

theorem zone_section_roundtrip:
  assumes "zone_section_serialize es = Ok bs" "list_all wire_entry es"
  shows "zone_section_parse bs = Ok es"
proof -
  from assms(1) obtain bss where t: "try_map entry_serialize es = Ok bss" and bs: "bs = concat bss"
    by (auto simp: zone_section_serialize_def ok_iffs)
  have i: "entry_serialize (es ! i) = Ok (bss ! i)" if "i < length es" for i
    using try_map_nth [OF t that] .
  have n: "length bss = length es" by (rule try_map_length [OF t])
  have p: "entry_parse (bss ! i) = Ok (es ! i)" "length (bss ! i) = 96" if "i < length es" for i
    using entry_parse_serialize [OF i [OF that]] assms(2) that by (simp_all add: list_all_length)
  have l: "length b = 96" if "b \<in> set bss" for b
    using that p(2) n by (auto simp: in_set_conv_nth)
  have len: "length bs = 96 * length es"
    using length_concat_fixed [of bss "\<lambda>b. b" 96] l by (simp add: bs n)
  have c: "chunks_exact 96 bs = bss"
    using chunks_exact_concat [of 96 bss "\<lambda>b. b"] l by (simp add: bs)
  have "bss = map (\<lambda>i. bss ! i) [0..<length es]" by (simp add: map_nth flip: n)
  then have "try_map entry_parse bss = try_map (\<lambda>i. entry_parse (bss ! i)) [0..<length es]"
    by (metis try_map_map)
  also have "\<dots> = Ok (map (\<lambda>i. es ! i) [0..<length es])" by (rule try_map_Ok) (simp add: p)
  finally have "try_map entry_parse bss = Ok es" by (simp add: map_nth)
  then show ?thesis
    using len by (cases "es = []") (auto simp: zone_section_parse_def ZONE_STATS_ENTRY_LEN_def c)
qed

definition zone_example :: zone_stats_entry where
  "zone_example = \<lparr>ze_table_id = 1, ze_segment_id = 2, ze_morsel_id = - 1, ze_column_id = 3,
     ze_non_null_count = 2, ze_distinct_count = 2, ze_run_count = 2,
     ze_stats = \<lparr>zs_scope = ZS_Segment, zs_row_count = 3, zs_null_count = 1,
       zs_min = Some \<lparr>ss_kind = SK_Int64, ss_bytes = le_bytes 8 (- 5 :: i64), ss_truncated = False\<rparr>,
       zs_max = Some \<lparr>ss_kind = SK_Int64, ss_bytes = le_bytes 8 (9 :: i64), ss_truncated = False\<rparr>,
       zs_flags = 1\<rparr>,
     ze_min_domain_rank = 0, ze_max_domain_rank = 0, ze_exact_set_ref = 0, ze_bloom_ref = 0\<rparr>"

lemma zone_section_roundtrip_witness:
  "\<exists>bs. zone_section_serialize [zone_example, zone_example] = Ok bs \<and> length bs = 192 \<and>
     zone_section_parse bs = Ok [zone_example, zone_example]"
proof -
  have v: "entry_validate zone_example = Ok ()"
    by (simp add: entry_validate_def zone_stats_validate_def zone_example_def u32_try_from_def checked_add_word_def
        scalars_def validate_bound_def validate_stat_scalar_shape_def flags_contain_def ZONE_STAT_KNOWN_FLAGS_def
        HAS_MIN_MAX_def MINMAX_TRUNCATED_def CONSTANT_def SORTED_ASC_def)
  have "\<exists>r. encode_stat_scalar (zs_min (ze_stats zone_example)) = Ok r"
    "\<exists>r. encode_stat_scalar (zs_max (ze_stats zone_example)) = Ok r"
    by (simp_all add: zone_example_def encode_stat_scalar_eq validate_shape_iff)
  then obtain b where b: "entry_serialize zone_example = Ok b" using v by (auto simp: entry_serialize_def Let_def)
  have w: "wire_entry zone_example" by (simp add: wire_entry_def wire_bound_def zone_example_def scope_of_morsel_def)
  have s: "zone_section_serialize [zone_example, zone_example] = Ok (b @ b)"
    using b by (simp add: zone_section_serialize_def)
  show ?thesis
    using zone_section_roundtrip [OF s] entry_parse_serialize(2) [OF b w] w s by simp
qed

end
