(* ===== verification/Domain.thy ===== *)
theory Domain
  imports Wire
begin

text \<open>
  Column domains (\<^verbatim>\<open>domain.rs\<close>): the header with its CRC32C, the section with the
  sorted file codes and the rank map, and the safety check that range pruning
  relies on. CRC32C is the parameter \<open>crc\<close>.
\<close>

section \<open>Header\<close>

definition COLUMN_DOMAIN_HEADER_LEN :: nat where
  "COLUMN_DOMAIN_HEADER_LEN = 40"

definition INVALID_RANK :: u32 where
  "INVALID_RANK = - 1"

definition FLAG_OBJECT_DOMAIN :: u32 where
  "FLAG_OBJECT_DOMAIN = push_bit 0 1"

record domain_header =
  dh_table_or_object_id :: u32
  dh_column_or_property_id :: u32
  dh_logical_type :: u16
  dh_collation_id :: u16
  dh_domain_count :: u32
  dh_sorted_file_codes_offset :: u64
  dh_file_code_to_rank_offset :: u64
  dh_flags :: u32
  dh_checksum :: u32

definition domain_header_serialize :: "(bytes \<Rightarrow> u32) \<Rightarrow> domain_header \<Rightarrow> bytes" where
  "domain_header_serialize crc h =
     (let buf = replicate COLUMN_DOMAIN_HEADER_LEN 0;
          buf = copy_at buf 0 (le_bytes 4 (dh_table_or_object_id h));
          buf = copy_at buf 4 (le_bytes 4 (dh_column_or_property_id h));
          buf = copy_at buf 8 (le_bytes 2 (dh_logical_type h));
          buf = copy_at buf 10 (le_bytes 2 (dh_collation_id h));
          buf = copy_at buf 12 (le_bytes 4 (dh_domain_count h));
          buf = copy_at buf 16 (le_bytes 8 (dh_sorted_file_codes_offset h));
          buf = copy_at buf 24 (le_bytes 8 (dh_file_code_to_rank_offset h));
          buf = copy_at buf 32 (le_bytes 4 (dh_flags h));
          c = crc buf
      in copy_at buf 36 (le_bytes 4 c))"

definition domain_header_parse :: "(bytes \<Rightarrow> u32) \<Rightarrow> bytes \<Rightarrow> domain_header res" where
  "domain_header_parse crc bs =
     (if length bs < COLUMN_DOMAIN_HEADER_LEN then Fail BufferTooShort
      else
        and_then (slice bs 0 COLUMN_DOMAIN_HEADER_LEN) (\<lambda>bs.
        and_then (read_u32_le_checked bs 0) (\<lambda>table_or_object_id.
        and_then (read_u32_le_checked bs 4) (\<lambda>column_or_property_id.
        and_then (read_u16_le_checked bs 8) (\<lambda>logical_type.
        and_then (read_u16_le_checked bs 10) (\<lambda>collation_id.
        and_then (read_u32_le_checked bs 12) (\<lambda>domain_count.
        and_then (read_u64_le_checked bs 16) (\<lambda>sorted_file_codes_offset.
        and_then (read_u64_le_checked bs 24) (\<lambda>file_code_to_rank_offset.
        and_then (read_u32_le_checked bs 32) (\<lambda>flags.
        and_then (read_u32_le_checked bs 36) (\<lambda>checksum_field.
        let for_crc = copy_at bs 36 (replicate 4 0) in
        if crc for_crc \<noteq> checksum_field then Fail ChecksumMismatch
        else Ok \<lparr>dh_table_or_object_id = table_or_object_id,
          dh_column_or_property_id = column_or_property_id, dh_logical_type = logical_type,
          dh_collation_id = collation_id, dh_domain_count = domain_count,
          dh_sorted_file_codes_offset = sorted_file_codes_offset,
          dh_file_code_to_rank_offset = file_code_to_rank_offset,
          dh_flags = flags, dh_checksum = checksum_field\<rparr>)))))))))))"

section \<open>The section\<close>

record column_domain =
  cd_header :: domain_header
  cd_sorted_file_codes :: "u32 list"
  cd_file_code_to_rank :: "u32 list"

definition column_domain_parse :: "(bytes \<Rightarrow> u32) \<Rightarrow> bytes \<Rightarrow> column_domain res" where
  "column_domain_parse crc bs =
     and_then (domain_header_parse crc bs) (\<lambda>header.
     let sfc_off = unat (dh_sorted_file_codes_offset header);
         domain_count = unat (dh_domain_count header) in
     and_then (ok_or ArithOverflow (checked_mul domain_count 4)) (\<lambda>sfc_bytes.
     and_then (ok_or ArithOverflow (checked_add sfc_off sfc_bytes)) (\<lambda>sfc_end.
     if length bs < sfc_end then Fail OffsetRange
     else if sfc_off < COLUMN_DOMAIN_HEADER_LEN then Fail BadDomain
     else
       and_then (try_map (\<lambda>i. read_u32_le_checked bs (sfc_off + i * 4)) [0..<domain_count]) (\<lambda>codes.
       if has_duplicate codes then Fail BadDomain
       else
         let rank_off = unat (dh_file_code_to_rank_offset header) in
         if rank_off < COLUMN_DOMAIN_HEADER_LEN \<or> length bs < rank_off then Fail OffsetRange
         else
           and_then (slice_from bs rank_off) (\<lambda>rank_region.
           if length rank_region mod 4 \<noteq> 0 then Fail BadDomain
           else
             let rank_count = length rank_region div 4 in
             and_then (try_map (\<lambda>i. read_u32_le_checked rank_region (i * 4)) [0..<rank_count]) (\<lambda>ranks.
             Ok \<lparr>cd_header = header, cd_sorted_file_codes = codes, cd_file_code_to_rank = ranks\<rparr>))))))"

definition column_domain_serialize :: "(bytes \<Rightarrow> u32) \<Rightarrow> column_domain \<Rightarrow> bytes res" where
  "column_domain_serialize crc d =
     (let n = length (cd_sorted_file_codes d) in
      and_then (ok_or BadDomain (if n < 2 ^ 32 then Some (of_nat n :: u32) else None)) (\<lambda>domain_count.
      let sfc_off = of_nat COLUMN_DOMAIN_HEADER_LEN :: u64;
          sfc_bytes = of_nat (n * 4) :: u64;
          rank_off = sfc_off + sfc_bytes;
          header = (cd_header d)\<lparr>dh_domain_count := domain_count,
            dh_sorted_file_codes_offset := sfc_off, dh_file_code_to_rank_offset := rank_off\<rparr>
      in Ok (domain_header_serialize crc header @ concat (map (le_bytes 4) (cd_sorted_file_codes d))
        @ concat (map (le_bytes 4) (cd_file_code_to_rank d)))))"

definition rank_of :: "column_domain \<Rightarrow> u32 \<Rightarrow> u32 option" where
  "rank_of d file_code =
     (case get (cd_file_code_to_rank d) (unat file_code) of
        None \<Rightarrow> None
      | Some r \<Rightarrow> if r = INVALID_RANK then None else Some r)"

text \<open>
  \<^verbatim>\<open>is_safe\<close>: the index \<open>codes ! unat rank\<close> is read below the length, after the
  guard on \<open>rank\<close> (the length as \<^verbatim>\<open>u32\<close> is at most the length).
\<close>

definition is_safe :: "column_domain \<Rightarrow> bool" where
  "is_safe d =
     (let n = of_nat (length (cd_sorted_file_codes d)) :: u32 in
      list_all (\<lambda>(file_code, rank).
        if rank = INVALID_RANK then True
        else if n \<le> rank then False
        else \<not> (cd_sorted_file_codes d ! unat rank \<noteq> of_nat file_code))
      (enumerate 0 (cd_file_code_to_rank d)))"

definition domain_validate :: "column_domain \<Rightarrow> unit res" where
  "domain_validate d = (if is_safe d then Ok () else Fail BadDomain)"

fun assign_ranks :: "nat \<Rightarrow> u32 list \<Rightarrow> u32 list \<Rightarrow> u32 list res" where
  "assign_ranks rank [] ranks = Ok ranks"
| "assign_ranks rank (code # codes) ranks =
     and_then (set_index ranks (unat code) (of_nat rank)) (\<lambda>ranks'. assign_ranks (rank + 1) codes ranks')"

definition from_sorted_present_codes ::
  "u32 list \<Rightarrow> u32 \<Rightarrow> u32 \<Rightarrow> u32 \<Rightarrow> u16 \<Rightarrow> u16 \<Rightarrow> u32 \<Rightarrow> column_domain res" where
  "from_sorted_present_codes codes dictionary_entry_count table_or_object_id column_or_property_id
     logical_type collation_id flags =
     (if has_duplicate codes then Fail BadDomain
      else if codes \<noteq> [] \<and> dictionary_entry_count \<le> Max (set codes) then Fail BadFileCode
      else
        and_then (assign_ranks 0 codes (replicate (unat dictionary_entry_count) INVALID_RANK)) (\<lambda>ranks.
        Ok \<lparr>cd_header =
              \<lparr>dh_table_or_object_id = table_or_object_id, dh_column_or_property_id = column_or_property_id,
               dh_logical_type = logical_type, dh_collation_id = collation_id,
               dh_domain_count = of_nat (length codes),
               dh_sorted_file_codes_offset = of_nat COLUMN_DOMAIN_HEADER_LEN,
               dh_file_code_to_rank_offset = of_nat (COLUMN_DOMAIN_HEADER_LEN + length codes * 4),
               dh_flags = flags, dh_checksum = 0\<rparr>,
            cd_sorted_file_codes = codes, cd_file_code_to_rank = ranks\<rparr>))"

section \<open>The header round trip\<close>

definition domain_header_prefix :: "domain_header \<Rightarrow> bytes" where
  "domain_header_prefix h = le_bytes 4 (dh_table_or_object_id h) @ le_bytes 4 (dh_column_or_property_id h) @
     le_bytes 2 (dh_logical_type h) @ le_bytes 2 (dh_collation_id h) @ le_bytes 4 (dh_domain_count h) @
     le_bytes 8 (dh_sorted_file_codes_offset h) @ le_bytes 8 (dh_file_code_to_rank_offset h) @ le_bytes 4 (dh_flags h)"

lemma length_domain_header_prefix [simp]: "length (domain_header_prefix h) = 36"
  by (simp add: domain_header_prefix_def)

lemma domain_header_serialize_eq:
  "domain_header_serialize crc h =
     domain_header_prefix h @ le_bytes 4 (crc (domain_header_prefix h @ replicate 4 0))"
  unfolding domain_header_serialize_def COLUMN_DOMAIN_HEADER_LEN_def domain_header_prefix_def
  by (simp add: fill_simps del: append_assoc) (simp only: append_assoc)

lemma domain_header_parse_reads:
  assumes "40 \<le> length bs"
  shows "domain_header_parse crc bs =
    (if crc (sub bs 0 36 @ replicate 4 0) \<noteq> of_le (sub bs 36 4) then Fail ChecksumMismatch
     else Ok \<lparr>dh_table_or_object_id = of_le (sub bs 0 4), dh_column_or_property_id = of_le (sub bs 4 4),
       dh_logical_type = of_le (sub bs 8 2), dh_collation_id = of_le (sub bs 10 2),
       dh_domain_count = of_le (sub bs 12 4), dh_sorted_file_codes_offset = of_le (sub bs 16 8),
       dh_file_code_to_rank_offset = of_le (sub bs 24 8), dh_flags = of_le (sub bs 32 4),
       dh_checksum = of_le (sub bs 36 4)\<rparr>)"
proof -
  let ?b = "sub bs 0 40"
  have s: "slice bs 0 40 = (Ok ?b :: bytes res)" using assms by (simp add: slice_Ok)
  have l: "length ?b = 40" using assms by (simp add: length_sub)
  have r: "read_u32_le_checked ?b 0 = Ok (of_le (sub bs 0 4))" "read_u32_le_checked ?b 4 = Ok (of_le (sub bs 4 4))"
    "read_u16_le_checked ?b 8 = Ok (of_le (sub bs 8 2))" "read_u16_le_checked ?b 10 = Ok (of_le (sub bs 10 2))"
    "read_u32_le_checked ?b 12 = Ok (of_le (sub bs 12 4))" "read_u64_le_checked ?b 16 = Ok (of_le (sub bs 16 8))"
    "read_u64_le_checked ?b 24 = Ok (of_le (sub bs 24 8))" "read_u32_le_checked ?b 32 = Ok (of_le (sub bs 32 4))"
    "read_u32_le_checked ?b 36 = Ok (of_le (sub bs 36 4))"
    using l by (simp_all add: wire_simps usize_limit_def sub_sub)
  have c: "copy_at ?b 36 (replicate 4 0) = sub bs 0 36 @ replicate 4 0"
    using l by (simp add: copy_at_last sub_def)
  have n: "\<not> length bs < 40" using assms by simp
  show ?thesis
    unfolding domain_header_parse_def COLUMN_DOMAIN_HEADER_LEN_def s r and_then_simps c Let_def
    using n by (simp only: if_False)
qed

lemma domain_header_parse_serialize:
  "domain_header_parse crc (domain_header_serialize crc h @ rest) =
     Ok (h\<lparr>dh_checksum := crc (domain_header_prefix h @ replicate 4 0)\<rparr>)"
proof -
  let ?s = "domain_header_serialize crc h @ rest"
  have f: "sub ?s 0 36 = domain_header_prefix h"
    "sub ?s 36 4 = le_bytes 4 (crc (domain_header_prefix h @ replicate 4 0))"
    by (simp_all add: domain_header_serialize_eq sub_def)
  have g: "sub ?s 0 4 = le_bytes 4 (dh_table_or_object_id h)" "sub ?s 4 4 = le_bytes 4 (dh_column_or_property_id h)"
    "sub ?s 8 2 = le_bytes 2 (dh_logical_type h)" "sub ?s 10 2 = le_bytes 2 (dh_collation_id h)"
    "sub ?s 12 4 = le_bytes 4 (dh_domain_count h)" "sub ?s 16 8 = le_bytes 8 (dh_sorted_file_codes_offset h)"
    "sub ?s 24 8 = le_bytes 8 (dh_file_code_to_rank_offset h)" "sub ?s 32 4 = le_bytes 4 (dh_flags h)"
    by (simp_all add: domain_header_serialize_eq domain_header_prefix_def sub_def)
  have "40 \<le> length ?s" by (simp add: domain_header_serialize_eq)
  then show ?thesis by (simp add: domain_header_parse_reads f g)
qed

lemma no_panic_domain_header_parse [no_panic_intros, simp]: "no_panic (domain_header_parse crc bs)"
proof (cases "length bs < 40")
  case False
  then show ?thesis by (subst domain_header_parse_reads) auto
qed (simp add: domain_header_parse_def COLUMN_DOMAIN_HEADER_LEN_def)

section \<open>The section round trip\<close>

text \<open>The header that \<open>column_domain_serialize\<close> writes and the parser reads back.\<close>

definition written_header :: "(bytes \<Rightarrow> u32) \<Rightarrow> column_domain \<Rightarrow> domain_header" where
  "written_header crc d =
     (let n = length (cd_sorted_file_codes d);
          h = (cd_header d)\<lparr>dh_domain_count := of_nat n, dh_sorted_file_codes_offset := 40,
            dh_file_code_to_rank_offset := of_nat (40 + n * 4)\<rparr>
      in h\<lparr>dh_checksum := crc (domain_header_prefix h @ replicate 4 0)\<rparr>)"

lemma column_domain_parse_serialize:
  assumes "column_domain_serialize crc d = Ok bs" "distinct (cd_sorted_file_codes d)" "length bs < usize_limit"
  shows "column_domain_parse crc bs = Ok (d\<lparr>cd_header := written_header crc d\<rparr>)"
proof -
  let ?codes = "cd_sorted_file_codes d" and ?ranks = "cd_file_code_to_rank d"
  let ?n = "length ?codes" and ?m = "length ?ranks"
  let ?C = "concat (map (le_bytes 4) ?codes)" and ?R = "concat (map (le_bytes 4) ?ranks)"
  define h where "h = (cd_header d)\<lparr>dh_domain_count := of_nat ?n, dh_sorted_file_codes_offset := 40,
    dh_file_code_to_rank_offset := of_nat (40 + ?n * 4)\<rparr>"
  have n: "?n < 2 ^ 32" and bs: "bs = domain_header_serialize crc h @ ?C @ ?R"
    using assms(1) by (auto simp: column_domain_serialize_def Let_def ok_iffs h_def COLUMN_DOMAIN_HEADER_LEN_def
        split: if_splits)
  have hd: "domain_header_parse crc bs = Ok (written_header crc d)"
    unfolding bs domain_header_parse_serialize written_header_def Let_def h_def by simp
  have lh: "length (domain_header_serialize crc h) = 40" by (simp add: domain_header_serialize_eq)
  have lc: "length ?C = 4 * ?n" "length ?R = 4 * ?m" by (simp_all add: length_concat_fixed)
  have lb: "length bs = 40 + 4 * ?n + 4 * ?m" by (simp add: bs lh lc)
  have u: "unat (of_nat ?n :: u32) = ?n" "unat (of_nat (40 + ?n * 4) :: u64) = 40 + ?n * 4"
    by (rule unat_of_nat_less, use n in simp)+
  have f: "unat (dh_domain_count (written_header crc d)) = ?n"
    "unat (dh_sorted_file_codes_offset (written_header crc d)) = 40"
    "unat (dh_file_code_to_rank_offset (written_header crc d)) = 40 + ?n * 4"
    using u by (simp_all add: written_header_def Let_def del: of_nat_add of_nat_mult)
  have c: "try_map (\<lambda>i. read_u32_le_checked bs (40 + i * 4)) [0..<?n] = Ok ?codes"
    unfolding bs by (rule u32_reader.read_array) (use lh assms(3) lb in simp_all)
  have dr: "drop (40 + ?n * 4) bs = ?R"
    by (simp add: bs lh lc mult.commute)
  have r: "try_map (\<lambda>i. read_u32_le_checked ?R (i * 4)) [0..<?m] = Ok ?ranks"
  proof -
    have "length [] + ?m * 4 < usize_limit" using assms(3) lb by simp
    from u32_reader.read_array [OF this, of 0 "[]"] show ?thesis by simp
  qed
  have k: "checked_mul ?n 4 = Some (?n * 4)" "checked_add 40 (?n * 4) = Some (40 + ?n * 4)"
    using n by (auto intro!: checked_mul_Some checked_add_Some simp: usize_limit_def)
  have sf: "slice_from bs (40 + ?n * 4) = (Ok ?R :: bytes res)"
    using lb by (simp add: slice_from_Ok dr)
  have "\<not> length bs < 40 + ?n * 4" using lb by simp
  then show ?thesis
    unfolding column_domain_parse_def hd and_then_simps Let_def f k ok_or_simps c
    using assms(2) by (simp add: COLUMN_DOMAIN_HEADER_LEN_def sf lc r)
qed

lemma no_panic_column_domain_parse [no_panic_intros, simp]: "no_panic (column_domain_parse crc bs)"
  unfolding column_domain_parse_def Let_def
  by (intro no_panic_intros no_panic_domain_header_parse) (auto simp: slice_from_def COLUMN_DOMAIN_HEADER_LEN_def)

section \<open>Ranks\<close>

lemma is_safe_iff:
  "is_safe d \<longleftrightarrow>
     (\<forall>c < length (cd_file_code_to_rank d). cd_file_code_to_rank d ! c = INVALID_RANK \<or>
        (cd_file_code_to_rank d ! c < of_nat (length (cd_sorted_file_codes d)) \<and>
         cd_sorted_file_codes d ! unat (cd_file_code_to_rank d ! c) = of_nat c))"
  by (auto simp: is_safe_def Let_def list_all_length nth_enumerate_eq not_le split: if_splits)

lemma unat_less_of_nat: "(r :: 'a::len word) < of_nat n \<Longrightarrow> unat r < n"
  by (auto simp: word_less_nat_alt unsigned_of_nat intro: order_less_le_trans [OF _ take_bit_nat_less_eq_self])

text \<open>On a safe domain a rank is the position of its code.\<close>

lemma safe_rank_position:
  assumes "is_safe d" "rank_of d c = Some r"
  shows "unat r < length (cd_sorted_file_codes d)" "cd_sorted_file_codes d ! unat r = c"
proof -
  from assms(2) have c: "unat c < length (cd_file_code_to_rank d)" "cd_file_code_to_rank d ! unat c = r" "r \<noteq> INVALID_RANK"
    by (auto simp: rank_of_def get_def split: if_splits)
  have "r < of_nat (length (cd_sorted_file_codes d)) \<and> cd_sorted_file_codes d ! unat r = of_nat (unat c)"
    using assms(1) c unfolding is_safe_iff by blast
  then show "unat r < length (cd_sorted_file_codes d)" "cd_sorted_file_codes d ! unat r = c"
    by (simp_all add: unat_less_of_nat)
qed

lemma assign_ranks_Ok:
  "distinct codes \<Longrightarrow> (\<And>c. c \<in> set codes \<Longrightarrow> unat c < length ranks) \<Longrightarrow>
   \<exists>ranks'. assign_ranks k codes ranks = Ok ranks' \<and> length ranks' = length ranks \<and>
     (\<forall>j < length codes. ranks' ! unat (codes ! j) = of_nat (k + j)) \<and>
     (\<forall>i < length ranks. (\<forall>c \<in> set codes. unat c \<noteq> i) \<longrightarrow> ranks' ! i = ranks ! i)"
proof (induction codes arbitrary: k ranks)
  case (Cons c codes)
  let ?r = "ranks[unat c := of_nat k]"
  have "\<exists>ranks'. assign_ranks (k + 1) codes ?r = Ok ranks' \<and> length ranks' = length ?r \<and>
     (\<forall>j < length codes. ranks' ! unat (codes ! j) = of_nat (k + 1 + j)) \<and>
     (\<forall>i < length ?r. (\<forall>c \<in> set codes. unat c \<noteq> i) \<longrightarrow> ranks' ! i = ?r ! i)"
    using Cons.prems by (intro Cons.IH) auto
  then obtain ranks' where r: "assign_ranks (k + 1) codes ?r = Ok ranks'" "length ranks' = length ranks"
    "\<And>j. j < length codes \<Longrightarrow> ranks' ! unat (codes ! j) = of_nat (k + 1 + j)"
    "\<And>i. i < length ranks \<Longrightarrow> (\<forall>c \<in> set codes. unat c \<noteq> i) \<Longrightarrow> ranks' ! i = ?r ! i"
    by auto
  have c: "unat c < length ranks" "\<forall>x \<in> set codes. unat x \<noteq> unat c"
    using Cons.prems by (auto simp: word_unat_eq_iff [symmetric])
  have k: "ranks' ! unat c = of_nat k" using r(4) [OF c] c(1) by simp
  have "ranks' ! unat ((c # codes) ! j) = of_nat (k + j)" if "j < length (c # codes)" for j
    using that k r(3) by (cases j) (auto simp: ac_simps)
  moreover have "ranks' ! i = ranks ! i" if "i < length ranks" "\<forall>x \<in> set (c # codes). unat x \<noteq> i" for i
    using that r(4) [of i] by auto
  ultimately show ?case using r(1,2) c(1) by (auto simp: set_index_def)
qed auto

text \<open>
  A domain built from the codes of a column: its ranks are exactly the positions of the
  codes. \<open>INVALID_RANK\<close> is no position, since fewer codes than \<^verbatim>\<open>u32::MAX\<close> fit below a
  \<^verbatim>\<open>u32\<close> dictionary size.
\<close>

lemma distinct_codes_count:
  assumes "distinct codes" "\<And>c. c \<in> set codes \<Longrightarrow> c < (m :: u32)"
  shows "length codes \<le> unat m"
proof -
  have "unat ` set codes \<subseteq> {..<unat m}" using assms(2) by (auto simp: word_less_nat_alt)
  then have "card (unat ` set codes) \<le> card {..<unat m}" by (intro card_mono) auto
  moreover have "card (unat ` set codes) = length codes"
    using assms(1) by (simp add: card_image inj_on_def word_unat_eq_iff distinct_card)
  ultimately show ?thesis by simp
qed

lemma from_codes_Ok:
  assumes "from_sorted_present_codes codes m t c l k f = Ok d"
  shows "distinct codes" "\<And>x. x \<in> set codes \<Longrightarrow> x < m" "cd_sorted_file_codes d = codes"
    "length (cd_file_code_to_rank d) = unat m"
    "\<And>j. j < length codes \<Longrightarrow> cd_file_code_to_rank d ! unat (codes ! j) = of_nat j"
    "\<And>i. i < unat m \<Longrightarrow> \<forall>c \<in> set codes. unat c \<noteq> i \<Longrightarrow> cd_file_code_to_rank d ! i = INVALID_RANK"
proof -
  have q: "distinct codes" "codes = [] \<or> Max (set codes) < m"
    using assms by (auto simp: from_sorted_present_codes_def split: if_splits)
  then show dc: "distinct codes" by simp
  show lt: "x < m" if "x \<in> set codes" for x
    using q(2) that le_less_trans [OF Max_ge [OF List.finite_set that]] by auto
  obtain ranks where r: "assign_ranks 0 codes (replicate (unat m) INVALID_RANK) = Ok ranks"
    "length ranks = unat m" "\<And>j. j < length codes \<Longrightarrow> ranks ! unat (codes ! j) = of_nat j"
    "\<And>i. i < unat m \<Longrightarrow> \<forall>c \<in> set codes. unat c \<noteq> i \<Longrightarrow> ranks ! i = INVALID_RANK"
    using assign_ranks_Ok [of codes "replicate (unat m) INVALID_RANK" 0] q(1) lt
    by (auto simp: word_less_nat_alt)
  have "cd_sorted_file_codes d = codes \<and> cd_file_code_to_rank d = ranks"
    using assms r(1) q by (auto simp: from_sorted_present_codes_def split: if_splits)
  then show "cd_sorted_file_codes d = codes" "length (cd_file_code_to_rank d) = unat m"
    "\<And>j. j < length codes \<Longrightarrow> cd_file_code_to_rank d ! unat (codes ! j) = of_nat j"
    "\<And>i. i < unat m \<Longrightarrow> \<forall>c \<in> set codes. unat c \<noteq> i \<Longrightarrow> cd_file_code_to_rank d ! i = INVALID_RANK"
    using r by auto
qed

lemma rank_word:
  assumes "j < n" "n \<le> unat (m :: u32)"
  shows "unat (of_nat j :: u32) = j" "(of_nat j :: u32) \<noteq> INVALID_RANK" "(of_nat j :: u32) < of_nat n"
proof -
  have b: "j < 2 ^ 32 - 1" "n < 2 ^ 32" using assms unat_u32_less [of m] by auto
  then show u: "unat (of_nat j :: u32) = j" by (intro unat_of_nat_less) simp
  have v: "unat (of_nat n :: u32) = n" using b by (intro unat_of_nat_less) simp
  have "unat INVALID_RANK = 2 ^ 32 - 1" by (simp add: INVALID_RANK_def unsigned_minus_1_eq_mask mask_eq_exp_minus_1)
  with u b show "(of_nat j :: u32) \<noteq> INVALID_RANK" by (metis less_irrefl)
  show "(of_nat j :: u32) < of_nat n" using assms u v by (simp add: word_less_nat_alt)
qed

lemma from_codes_ranks:
  assumes "from_sorted_present_codes codes m t c l k f = Ok d"
  shows "rank_of d x = Some r \<longleftrightarrow> unat r < length codes \<and> codes ! unat r = x" and "is_safe d"
proof -
  note q = from_codes_Ok [OF assms]
  have n: "length codes \<le> unat m" using distinct_codes_count q(1,2) by blast
  have in_codes: "unat (codes ! j) < unat m" if "j < length codes" for j
    using q(2) [of "codes ! j"] that by (simp add: word_less_nat_alt)
  show "is_safe d"
    unfolding is_safe_iff
  proof (intro allI impI)
    fix i assume i: "i < length (cd_file_code_to_rank d)"
    show "cd_file_code_to_rank d ! i = INVALID_RANK \<or>
        (cd_file_code_to_rank d ! i < of_nat (length (cd_sorted_file_codes d)) \<and>
         cd_sorted_file_codes d ! unat (cd_file_code_to_rank d ! i) = of_nat i)"
    proof (cases "\<exists>j < length codes. unat (codes ! j) = i")
      case True
      then obtain j where j: "j < length codes" "unat (codes ! j) = i" by blast
      show ?thesis using q(3) q(5) [OF j(1)] rank_word [OF j(1) n] j by auto
    next
      case False
      then have "\<forall>c \<in> set codes. unat c \<noteq> i" by (metis in_set_conv_nth)
      then show ?thesis using q(4) q(6) [of i] i by simp
    qed
  qed
  show "rank_of d x = Some r \<longleftrightarrow> unat r < length codes \<and> codes ! unat r = x"
  proof
    assume "rank_of d x = Some r"
    then show "unat r < length codes \<and> codes ! unat r = x"
      using safe_rank_position [OF \<open>is_safe d\<close>] q(3) by metis
  next
    assume a: "unat r < length codes \<and> codes ! unat r = x"
    then have "unat x < unat m" "cd_file_code_to_rank d ! unat x = r"
      using in_codes [of "unat r"] q(5) [of "unat r"] by auto
    then show "rank_of d x = Some r"
      using rank_word(2) [of "unat r" "length codes" m] a n q(4) by (simp add: rank_of_def get_def)
  qed
qed

section \<open>Properties\<close>

text \<open>
  A serialised column domain is read back: codes and ranks unchanged, the header
  with the offsets and the count that were written and the checksum that was
  computed, and the parser panics on no input.
\<close>

theorem domain_roundtrip:
  assumes "column_domain_serialize crc d = Ok bs" "distinct (cd_sorted_file_codes d)" "length bs < usize_limit"
  shows "column_domain_parse crc bs = Ok (d\<lparr>cd_header := written_header crc d\<rparr>) \<and>
    no_panic (column_domain_parse crc other)"
  using column_domain_parse_serialize [OF assms] by simp

definition domain_example :: column_domain where
  "domain_example = \<lparr>cd_header = \<lparr>dh_table_or_object_id = 1, dh_column_or_property_id = 2, dh_logical_type = 3,
     dh_collation_id = 0, dh_domain_count = 2, dh_sorted_file_codes_offset = 40,
     dh_file_code_to_rank_offset = 48, dh_flags = 0, dh_checksum = 7\<rparr>,
     cd_sorted_file_codes = [1, 0], cd_file_code_to_rank = [1, 0]\<rparr>"

lemma domain_roundtrip_witness:
  "and_then (column_domain_serialize (\<lambda>_. 7) domain_example) (column_domain_parse (\<lambda>_. 7)) = Ok domain_example"
proof -
  obtain bs where s: "column_domain_serialize (\<lambda>_. 7) domain_example = Ok bs" "length bs = 56"
    by (simp add: column_domain_serialize_def domain_example_def COLUMN_DOMAIN_HEADER_LEN_def domain_header_serialize_eq)
  have "column_domain_parse (\<lambda>_. 7) bs = Ok (domain_example\<lparr>cd_header := written_header (\<lambda>_. 7) domain_example\<rparr>)"
    using domain_roundtrip [OF s(1)] s(2) by (simp add: domain_example_def usize_limit_def)
  then show ?thesis using s(1) by (simp add: written_header_def domain_example_def)
qed

text \<open>
  A domain built from the codes present in a column is safe, its ranks are exactly
  the positions of the codes, absent codes have no rank, and comparing ranks is
  comparing positions in the logical order; duplicate codes and codes outside the
  dictionary are refused, and building never panics.
\<close>

theorem built_domain_ranks:
  assumes "from_sorted_present_codes codes m t c l k f = Ok d"
  shows "distinct codes \<and> (\<forall>x \<in> set codes. x < m) \<and> is_safe d \<and>
    (\<forall>x r. rank_of d x = Some r \<longleftrightarrow> unat r < length codes \<and> codes ! unat r = x)"
  using from_codes_Ok(1,2) [OF assms] from_codes_ranks [OF assms] by blast

lemma built_domain_ranks_witness:
  "\<exists>d. from_sorted_present_codes [2, 0] 3 1 1 1 1 0 = Ok d \<and> rank_of d 2 = Some 0 \<and> rank_of d 1 = None"
proof -
  have z: "replicate 3 INVALID_RANK = [INVALID_RANK, INVALID_RANK, INVALID_RANK]" by (simp add: numeral_3_eq_3)
  obtain d where d: "from_sorted_present_codes [2, 0] 3 1 1 1 1 0 = Ok d"
    by (simp add: from_sorted_present_codes_def set_index_def z)
  note q = built_domain_ranks [OF d]
  have "rank_of d 2 = Some 0" using q by simp
  moreover have "rank_of d 1 \<noteq> Some r" for r
  proof
    assume "rank_of d 1 = Some r"
    then have "unat r < 2" "[2, 0 :: u32] ! unat r = 1" using q by auto
    then show False by (auto simp: less_2_cases_iff)
  qed
  ultimately show ?thesis using d by auto
qed

end
