(* ===== verification/Exact_Set.thy ===== *)
theory Exact_Set
  imports Index_Common
begin

text \<open>
  The exact-set index (\<^verbatim>\<open>index/exact_set.rs\<close>): header, sorted keys, binary search.
  Only the sorted-list representation carries keys; for the others the model, like the
  code, keeps the raw data.
\<close>

section \<open>Header\<close>

definition EXACT_SET_HEADER_LEN :: nat where
  "EXACT_SET_HEADER_LEN = 36"

datatype exact_set_granularity = ESG_Segment | ESG_Morsel

primrec as_exact_set_granularity :: "exact_set_granularity \<Rightarrow> u8" where
  "as_exact_set_granularity ESG_Segment = 0"
| "as_exact_set_granularity ESG_Morsel = 1"

definition exact_set_granularity_from :: "u8 \<Rightarrow> exact_set_granularity option" where
  "exact_set_granularity_from v =
     (if v = 0 then Some ESG_Segment
      else if v = 1 then Some ESG_Morsel
      else None)"

lemma exact_set_granularity_from_iff [simp]: "exact_set_granularity_from v = Some k \<longleftrightarrow> v = as_exact_set_granularity k"
  by (cases k) (auto simp: exact_set_granularity_from_def)

lemma exact_set_granularity_from_as [simp]: "exact_set_granularity_from (as_exact_set_granularity k) = Some k"
  by simp

datatype exact_set_key_kind = ESK_FileCode | ESK_NumCode | ESK_CanonicalHash

primrec as_exact_set_key_kind :: "exact_set_key_kind \<Rightarrow> u8" where
  "as_exact_set_key_kind ESK_FileCode = 0"
| "as_exact_set_key_kind ESK_NumCode = 1"
| "as_exact_set_key_kind ESK_CanonicalHash = 2"

definition exact_set_key_kind_from :: "u8 \<Rightarrow> exact_set_key_kind option" where
  "exact_set_key_kind_from v =
     (if v = 0 then Some ESK_FileCode
      else if v = 1 then Some ESK_NumCode
      else if v = 2 then Some ESK_CanonicalHash
      else None)"

lemma exact_set_key_kind_from_iff [simp]: "exact_set_key_kind_from v = Some k \<longleftrightarrow> v = as_exact_set_key_kind k"
  by (cases k) (auto simp: exact_set_key_kind_from_def)

lemma exact_set_key_kind_from_as [simp]: "exact_set_key_kind_from (as_exact_set_key_kind k) = Some k"
  by simp

datatype exact_set_representation = ESR_SortedList | ESR_Bitset | ESR_RoaringLike

primrec as_exact_set_representation :: "exact_set_representation \<Rightarrow> u8" where
  "as_exact_set_representation ESR_SortedList = 0"
| "as_exact_set_representation ESR_Bitset = 1"
| "as_exact_set_representation ESR_RoaringLike = 2"

definition exact_set_representation_from :: "u8 \<Rightarrow> exact_set_representation option" where
  "exact_set_representation_from v =
     (if v = 0 then Some ESR_SortedList
      else if v = 1 then Some ESR_Bitset
      else if v = 2 then Some ESR_RoaringLike
      else None)"

lemma exact_set_representation_from_iff [simp]: "exact_set_representation_from v = Some k \<longleftrightarrow> v = as_exact_set_representation k"
  by (cases k) (auto simp: exact_set_representation_from_def)

lemma exact_set_representation_from_as [simp]: "exact_set_representation_from (as_exact_set_representation k) = Some k"
  by simp

record exact_set_header =
  esh_table_id :: u32
  esh_column_id :: u32
  esh_granularity :: exact_set_granularity
  esh_key_kind :: exact_set_key_kind
  esh_representation :: exact_set_representation
  esh_flags :: u8
  esh_entry_count :: u32
  esh_data_offset :: u64
  esh_data_length :: u64
  esh_checksum :: u32

definition exact_set_header_serialize :: "(bytes \<Rightarrow> u32) \<Rightarrow> exact_set_header \<Rightarrow> bytes" where
  "exact_set_header_serialize crc h =
     (let out = replicate EXACT_SET_HEADER_LEN 0;
          out = copy_at out 0 (le_bytes 4 (esh_table_id h));
          out = copy_at out 4 (le_bytes 4 (esh_column_id h));
          out = copy_at out 8 [as_exact_set_granularity (esh_granularity h)];
          out = copy_at out 9 [as_exact_set_key_kind (esh_key_kind h)];
          out = copy_at out 10 [as_exact_set_representation (esh_representation h)];
          out = copy_at out 11 [esh_flags h];
          out = copy_at out 12 (le_bytes 4 (esh_entry_count h));
          out = copy_at out 16 (le_bytes 8 (esh_data_offset h));
          out = copy_at out 24 (le_bytes 8 (esh_data_length h));
          c = crc out
      in copy_at out 32 (le_bytes 4 c))"

definition exact_set_header_parse :: "(bytes \<Rightarrow> u32) \<Rightarrow> bytes \<Rightarrow> exact_set_header res" where
  "exact_set_header_parse crc bs =
     (if length bs < EXACT_SET_HEADER_LEN then Fail BufferTooShort
      else
        and_then (slice bs 0 EXACT_SET_HEADER_LEN) (\<lambda>bs.
        and_then (verify_checksum_field crc bs 32) (\<lambda>checksum'.
        and_then (index bs 8) (\<lambda>b. and_then (ok_or BadIndex (exact_set_granularity_from b)) (\<lambda>granularity'.
        and_then (index bs 9) (\<lambda>b. and_then (ok_or BadIndex (exact_set_key_kind_from b)) (\<lambda>key_kind'.
        and_then (index bs 10) (\<lambda>b. and_then (ok_or BadIndex (exact_set_representation_from b)) (\<lambda>representation'.
        and_then (read_u32_le_checked bs 0) (\<lambda>table_id'.
        and_then (read_u32_le_checked bs 4) (\<lambda>column_id'.
        and_then (index bs 11) (\<lambda>flags'.
        and_then (read_u32_le_checked bs 12) (\<lambda>entry_count'.
        and_then (read_u64_le_checked bs 16) (\<lambda>data_offset'.
        and_then (read_u64_le_checked bs 24) (\<lambda>data_length'.
        Ok \<lparr>esh_table_id = table_id',
          esh_column_id = column_id',
          esh_granularity = granularity',
          esh_key_kind = key_kind',
          esh_representation = representation',
          esh_flags = flags',
          esh_entry_count = entry_count',
          esh_data_offset = data_offset',
          esh_data_length = data_length',
          esh_checksum = checksum'\<rparr>)))))))))))))))"

definition exact_set_header_prefix :: "exact_set_header \<Rightarrow> bytes" where
  "exact_set_header_prefix h = le_bytes 4 (esh_table_id h) @
     le_bytes 4 (esh_column_id h) @
     [as_exact_set_granularity (esh_granularity h)] @
     [as_exact_set_key_kind (esh_key_kind h)] @
     [as_exact_set_representation (esh_representation h)] @
     [esh_flags h] @
     le_bytes 4 (esh_entry_count h) @
     le_bytes 8 (esh_data_offset h) @
     le_bytes 8 (esh_data_length h)"

lemma length_exact_set_header_prefix [simp]: "length (exact_set_header_prefix h) = 32"
  by (simp add: exact_set_header_prefix_def)

lemma exact_set_header_serialize_eq:
  "exact_set_header_serialize crc h = exact_set_header_prefix h @ le_bytes 4 (crc (exact_set_header_prefix h @ replicate 4 0))"
  unfolding exact_set_header_serialize_def EXACT_SET_HEADER_LEN_def exact_set_header_prefix_def
  by (simp add: fill_simps del: append_assoc) (simp only: append_assoc append_Cons append_Nil)

lemma exact_set_header_parse_reads:
  assumes "36 \<le> length bs"
  shows "exact_set_header_parse crc bs =
    (if crc (sub bs 0 32 @ replicate 4 0) \<noteq> of_le (sub bs 32 4) then Fail ChecksumMismatch
     else
        and_then (ok_or BadIndex (exact_set_granularity_from (bs ! 8))) (\<lambda>granularity'.
        and_then (ok_or BadIndex (exact_set_key_kind_from (bs ! 9))) (\<lambda>key_kind'.
        and_then (ok_or BadIndex (exact_set_representation_from (bs ! 10))) (\<lambda>representation'.
        Ok \<lparr>esh_table_id = of_le (sub bs 0 4),
          esh_column_id = of_le (sub bs 4 4),
          esh_granularity = granularity',
          esh_key_kind = key_kind',
          esh_representation = representation',
          esh_flags = bs ! 11,
          esh_entry_count = of_le (sub bs 12 4),
          esh_data_offset = of_le (sub bs 16 8),
          esh_data_length = of_le (sub bs 24 8),
          esh_checksum = of_le (sub bs 32 4)\<rparr>))))"
proof -
  let ?b = "sub bs 0 36"
  have l: "length ?b = 36" using assms by (simp add: length_sub)
  have s: "slice bs 0 36 = (Ok ?b :: bytes res)" using assms by (simp add: slice_Ok)
  have v: "verify_checksum_field crc ?b 32 =
      (if crc (sub bs 0 32 @ replicate 4 0) \<noteq> of_le (sub bs 32 4) then Fail ChecksumMismatch else Ok (of_le (sub bs 32 4)))"
    using l verify_checksum_field_eq [of ?b 32 crc] by (simp add: sub_sub usize_limit_def)
  have r: "read_u32_le_checked ?b 0 = Ok (of_le (sub bs 0 4))"
    "read_u32_le_checked ?b 4 = Ok (of_le (sub bs 4 4))"
    "index ?b 8 = (Ok (bs ! 8) :: u8 res)"
    "index ?b 9 = (Ok (bs ! 9) :: u8 res)"
    "index ?b 10 = (Ok (bs ! 10) :: u8 res)"
    "index ?b 11 = (Ok (bs ! 11) :: u8 res)"
    "read_u32_le_checked ?b 12 = Ok (of_le (sub bs 12 4))"
    "read_u64_le_checked ?b 16 = Ok (of_le (sub bs 16 8))"
    "read_u64_le_checked ?b 24 = Ok (of_le (sub bs 24 8))"
    using l by (simp_all add: wire_simps usize_limit_def sub_sub index_Ok nth_sub)
  have n: "\<not> length bs < 36" using assms by simp
  show ?thesis
    unfolding exact_set_header_parse_def EXACT_SET_HEADER_LEN_def if_not_P [OF n] s and_then_simps v r
    by simp
qed

lemma exact_set_header_parse_serialize:
  "exact_set_header_parse crc (exact_set_header_serialize crc h @ rest) = Ok (h\<lparr>esh_checksum := crc (exact_set_header_prefix h @ replicate 4 0)\<rparr>)"
proof -
  let ?s = "exact_set_header_serialize crc h @ rest"
  have f: "sub ?s 0 32 = exact_set_header_prefix h"
    "sub ?s 32 4 = le_bytes 4 (crc (exact_set_header_prefix h @ replicate 4 0))"
    by (simp_all add: exact_set_header_serialize_eq sub_def)
  have g: "sub ?s 0 4 = le_bytes 4 (esh_table_id h)"
    "sub ?s 4 4 = le_bytes 4 (esh_column_id h)"
    "?s ! 8 = as_exact_set_granularity (esh_granularity h)"
    "?s ! 9 = as_exact_set_key_kind (esh_key_kind h)"
    "?s ! 10 = as_exact_set_representation (esh_representation h)"
    "?s ! 11 = esh_flags h"
    "sub ?s 12 4 = le_bytes 4 (esh_entry_count h)"
    "sub ?s 16 8 = le_bytes 8 (esh_data_offset h)"
    "sub ?s 24 8 = le_bytes 8 (esh_data_length h)"
    by (simp_all add: exact_set_header_serialize_eq exact_set_header_prefix_def sub_def nth_append)
  have "36 \<le> length ?s" by (simp add: exact_set_header_serialize_eq)
  then show ?thesis by (simp add: exact_set_header_parse_reads f g)
qed

lemma no_panic_exact_set_header_parse [no_panic_intros, simp]: "no_panic (exact_set_header_parse crc bs)"
proof (cases "length bs < 36")
  case False
  then show ?thesis by (subst exact_set_header_parse_reads) (auto intro!: no_panic_intros)
qed (simp add: exact_set_header_parse_def EXACT_SET_HEADER_LEN_def)

section \<open>The index\<close>

record exact_set_index =
  es_header :: exact_set_header
  es_keys :: "u64 list"
  es_data :: bytes

text \<open>The part of \<^verbatim>\<open>parse\<close> that reads and checks the sorted keys.\<close>

definition exact_set_read_keys :: "exact_set_header \<Rightarrow> bytes \<Rightarrow> u64 list res" where
  "exact_set_read_keys header data =
     (if esh_representation header = ESR_SortedList then
        and_then (ok_or ArithOverflow (checked_mul (unat (esh_entry_count header)) 8)) (\<lambda>expected_len.
        if length data \<noteq> expected_len then Fail BadIndex
        else
          and_then (try_map (\<lambda>chunk. read_u64_le_checked chunk 0) (chunks_exact 8 data)) (\<lambda>keys.
          if \<not> windows2_all (\<lambda>a b. \<not> b \<le> a) keys then Fail BadIndex else Ok keys))
      else Ok [])"

definition exact_set_parse :: "(bytes \<Rightarrow> u32) \<Rightarrow> bytes \<Rightarrow> exact_set_index res" where
  "exact_set_parse crc bs =
     and_then (exact_set_header_parse crc bs) (\<lambda>header.
     and_then (checked_region bs (esh_data_offset header) (esh_data_length header)) (\<lambda>data.
     and_then (exact_set_read_keys header data) (\<lambda>keys.
     Ok \<lparr>es_header = header, es_keys = keys, es_data = data\<rparr>)))"

definition exact_set_contains :: "exact_set_index \<Rightarrow> u64 \<Rightarrow> bool" where
  "exact_set_contains x key \<longleftrightarrow> binary_search_by_key (\<lambda>k. k) (es_keys x) key \<noteq> None"

definition exact_set_serialize :: "(bytes \<Rightarrow> u32) \<Rightarrow> exact_set_index \<Rightarrow> bytes" where
  "exact_set_serialize crc x =
     (let header = (es_header x)\<lparr>esh_data_offset := of_nat EXACT_SET_HEADER_LEN,
            esh_data_length := of_nat (length (es_data x))\<rparr>
      in exact_set_header_serialize crc header @ es_data x)"

section \<open>Lemmas\<close>

text \<open>The keys an index of the sorted representation stands for are those of its data.\<close>

definition exact_set_wf :: "exact_set_index \<Rightarrow> bool" where
  "exact_set_wf x \<longleftrightarrow>
     (if esh_representation (es_header x) = ESR_SortedList
      then sorted_wrt (<) (es_keys x) \<and> es_data x = concat (map (le_bytes 8) (es_keys x)) \<and>
        unat (esh_entry_count (es_header x)) = length (es_keys x)
      else es_keys x = [])"

lemma windows2_strict: "windows2_all (\<lambda>a b. \<not> b \<le> a) xs \<longleftrightarrow> sorted_wrt (<) (xs :: 'a::linorder list)"
  using windows2_all_sorted_wrt [of "(<) :: 'a \<Rightarrow> _" xs] by (simp add: not_le transp_on_less)

lemma read_chunks:
  "try_map (\<lambda>chunk. read_u64_le_checked chunk 0) (chunks_exact 8 (concat (map (le_bytes 8) ks))) = Ok ks"
proof -
  have "chunks_exact 8 (concat (map (le_bytes 8 :: u64 \<Rightarrow> _) ks)) = map (le_bytes 8) ks"
    by (rule chunks_exact_concat) simp_all
  moreover have "try_map (\<lambda>k. read_u64_le_checked (le_bytes 8 (k :: u64)) 0) ks = Ok (map (\<lambda>k. k) ks)"
    by (rule try_map_Ok) (simp add: wire_simps usize_limit_def sub_all)
  ultimately show ?thesis by (simp add: try_map_map)
qed

lemma exact_set_parse_serialize:
  assumes "exact_set_wf x" "length (es_data x) + 36 < usize_limit"
  shows "exact_set_parse crc (exact_set_serialize crc x) =
    Ok (x\<lparr>es_header := (let h = (es_header x)\<lparr>esh_data_offset := 36, esh_data_length := of_nat (length (es_data x))\<rparr>
          in h\<lparr>esh_checksum := crc (exact_set_header_prefix h @ replicate 4 0)\<rparr>)\<rparr>)"
proof -
  define h where "h = (es_header x)\<lparr>esh_data_offset := 36, esh_data_length := of_nat (length (es_data x))\<rparr>"
  let ?s = "exact_set_serialize crc x"
  have s: "?s = exact_set_header_serialize crc h @ es_data x"
    by (simp add: exact_set_serialize_def h_def EXACT_SET_HEADER_LEN_def)
  have lh: "length (exact_set_header_serialize crc h) = 36" by (simp add: exact_set_header_serialize_eq)
  have u: "unat (of_nat (length (es_data x)) :: u64) = length (es_data x)"
    using assms(2) by (intro unat_of_nat_less) (simp add: usize_limit_def)
  have c: "checked_region ?s (esh_data_offset h) (esh_data_length h) = Ok (es_data x)"
    using assms(2) u lh by (simp add: checked_region_Ok_iff h_def s sub_def)
  have k: "exact_set_read_keys h (es_data x) = Ok (es_keys x)"
  proof (cases "esh_representation (es_header x) = ESR_SortedList")
    case True
    then have w: "sorted_wrt (<) (es_keys x)" "es_data x = concat (map (le_bytes 8) (es_keys x))"
      "unat (esh_entry_count (es_header x)) = length (es_keys x)"
      using assms(1) by (simp_all add: exact_set_wf_def)
    have l: "length (es_data x) = length (es_keys x) * 8" by (simp add: w(2) length_concat_fixed)
    have "checked_mul (length (es_keys x)) 8 = Some (length (es_keys x) * 8)"
      using assms(2) l by (intro checked_mul_Some) simp
    then show ?thesis
      using True w(1,3) l by (simp add: exact_set_read_keys_def h_def w(2) read_chunks windows2_strict length_concat_fixed)
  next
    case False
    then show ?thesis using assms(1) by (simp add: exact_set_read_keys_def h_def exact_set_wf_def)
  qed
  have k': "exact_set_read_keys (h\<lparr>esh_checksum := c\<rparr>) d = exact_set_read_keys h d" for c d
    by (simp add: exact_set_read_keys_def)
  have p: "exact_set_header_parse crc ?s = Ok (h\<lparr>esh_checksum := crc (exact_set_header_prefix h @ replicate 4 0)\<rparr>)"
    unfolding s by (rule exact_set_header_parse_serialize)
  show ?thesis
    unfolding exact_set_parse_def p and_then_simps
    using c by (simp add: k' k) (simp add: h_def Let_def)
qed

lemma exact_set_parse_wf:
  assumes "exact_set_parse crc bs = Ok x"
  shows "exact_set_wf x"
proof (cases "esh_representation (es_header x) = ESR_SortedList")
  case True
  note q = assms [unfolded exact_set_parse_def ok_iffs sum.inject]
  from q True obtain data keys where d: "es_data x = data" "es_keys x = keys"
    and l: "length data = unat (esh_entry_count (es_header x)) * 8"
    and k: "try_map (\<lambda>chunk. read_u64_le_checked chunk 0) (chunks_exact 8 data) = Ok keys"
    and s: "windows2_all (\<lambda>a b. \<not> b \<le> a) keys"
    by (auto simp: exact_set_read_keys_def ok_iffs checked_mul_eq_Some_iff)
  have lk: "length keys = unat (esh_entry_count (es_header x))"
    using try_map_length [OF k] l by (simp add: chunks_exact_def)
  have "map (le_bytes 8) keys = map (\<lambda>i. sub data (i * 8) 8) [0..<length data div 8]"
  proof (rule nth_equalityI)
    fix i assume "i < length (map (le_bytes 8) keys)"
    then have i: "i < length keys" "i * 8 + 8 \<le> length data" using lk l by simp_all
    have "read_u64_le_checked (sub data (i * 8) 8) 0 = Ok (keys ! i)"
      using try_map_nth [OF k, of i] i lk l by (simp add: chunks_exact_def)
    then show "map (le_bytes 8) keys ! i = map (\<lambda>i. sub data (i * 8) 8) [0..<length data div 8] ! i"
      using i lk l u64_reader.read_Ok [of "sub data (i * 8) 8" 0 "keys ! i"] by (simp add: sub_sub)
  qed (use lk l in simp)
  then have "concat (map (le_bytes 8) keys) = concat (map (\<lambda>i. sub data (i * 8) 8) [0..<length data div 8])"
    by (rule arg_cong)
  also have "\<dots> = data" using concat_sub_chunks [of 0 "length data div 8" 8 data] l by (simp add: sub_def)
  finally show ?thesis using True s d lk by (simp add: exact_set_wf_def windows2_strict)
next
  case False
  then show ?thesis using assms by (auto simp: exact_set_parse_def exact_set_read_keys_def exact_set_wf_def ok_iffs)
qed

lemma no_panic_exact_set_parse [no_panic_intros, simp]: "no_panic (exact_set_parse crc bs)"
  by (auto simp: exact_set_parse_def exact_set_read_keys_def intro!: no_panic_intros)

definition exact_set_ok :: "exact_set_index \<Rightarrow> bool" where
  "exact_set_ok x \<longleftrightarrow> exact_set_wf x \<and> esh_representation (es_header x) = ESR_SortedList"

interpretation exact_set: exact_membership exact_set_contains "\<lambda>x k. k \<in> set (es_keys x)" exact_set_ok
proof
  fix x k assume o: "exact_set_ok x"
  have s: "sorted_wrt (<) (map (\<lambda>k. k) (es_keys x))" using o by (simp add: exact_set_ok_def exact_set_wf_def)
  note f = binary_search_found [OF s, of k]
  show "k \<in> set (es_keys x) \<Longrightarrow> exact_set_contains x k" using f by (simp add: exact_set_contains_def)
  show "exact_set_contains x k \<Longrightarrow> k \<in> set (es_keys x)" using f by (simp add: exact_set_contains_def)
qed

section \<open>Properties\<close>

text \<open>
  On every exact-set file the parser accepts in the sorted representation, the
  binary search answers membership exactly, of keys that are the little-endian
  words of the data region; a serialised index is read back; no input panics.
\<close>

theorem exact_set_membership_exact:
  assumes "exact_set_parse crc bs = Ok x" "esh_representation (es_header x) = ESR_SortedList"
  shows "(exact_set_contains x k \<longleftrightarrow> k \<in> set (es_keys x)) \<and> sorted_wrt (<) (es_keys x) \<and>
    es_data x = concat (map (le_bytes 8) (es_keys x))"
  using exact_set.query_iff [of x k] exact_set_parse_wf [OF assms(1)] assms(2)
  by (simp add: exact_set_ok_def exact_set_wf_def)

definition exact_set_example :: exact_set_index where
  "exact_set_example = \<lparr>es_header = \<lparr>esh_table_id = 1, esh_column_id = 2, esh_granularity = ESG_Segment,
     esh_key_kind = ESK_FileCode, esh_representation = ESR_SortedList, esh_flags = 0, esh_entry_count = 2,
     esh_data_offset = 36, esh_data_length = 16, esh_checksum = 7\<rparr>,
     es_keys = [3, 9], es_data = concat (map (le_bytes 8) [3, 9 :: u64])\<rparr>"

lemma exact_set_membership_exact_witness:
  "\<exists>bs x. exact_set_parse (\<lambda>_. 7) bs = Ok x \<and> exact_set_contains x 9 \<and> \<not> exact_set_contains x 4"
proof -
  let ?x = "exact_set_example"
  have l: "length (es_data ?x) = 16" by (simp add: exact_set_example_def)
  have w: "exact_set_wf ?x" by (simp add: exact_set_wf_def exact_set_example_def)
  obtain y where p: "exact_set_parse (\<lambda>_. 7) (exact_set_serialize (\<lambda>_. 7) ?x) = Ok y"
    "es_keys y = [3, 9]" "esh_representation (es_header y) = ESR_SortedList"
    using exact_set_parse_serialize [OF w, of "\<lambda>_. 7"] l
    by (simp add: usize_limit_def Let_def exact_set_example_def)
  show ?thesis
    using exact_set_membership_exact [OF p(1,3), of 9] exact_set_membership_exact [OF p(1,3), of 4] p(1,2) by auto
qed

end
