(* ===== verification/Bloom.thy ===== *)
theory Bloom
  imports Index_Common
begin

text \<open>
  The Bloom filter index (\<^verbatim>\<open>index/bloom.rs\<close>): header, FNV-1a double hashing, insertion
  and membership.
\<close>

section \<open>Header\<close>

definition BLOOM_INDEX_HEADER_LEN :: nat where
  "BLOOM_INDEX_HEADER_LEN = 40"

datatype bloom_granularity = BG_Segment | BG_Morsel

primrec as_bloom_granularity :: "bloom_granularity \<Rightarrow> u8" where
  "as_bloom_granularity BG_Segment = 0"
| "as_bloom_granularity BG_Morsel = 1"

definition bloom_granularity_from :: "u8 \<Rightarrow> bloom_granularity option" where
  "bloom_granularity_from v =
     (if v = 0 then Some BG_Segment
      else if v = 1 then Some BG_Morsel
      else None)"

lemma bloom_granularity_from_iff [simp]: "bloom_granularity_from v = Some k \<longleftrightarrow> v = as_bloom_granularity k"
  by (cases k) (auto simp: bloom_granularity_from_def)

lemma bloom_granularity_from_as [simp]: "bloom_granularity_from (as_bloom_granularity k) = Some k"
  by simp

datatype bloom_hash_domain = BHD_FileCode | BHD_NumCode | BHD_CanonicalValueHash

primrec as_bloom_hash_domain :: "bloom_hash_domain \<Rightarrow> u8" where
  "as_bloom_hash_domain BHD_FileCode = 0"
| "as_bloom_hash_domain BHD_NumCode = 1"
| "as_bloom_hash_domain BHD_CanonicalValueHash = 2"

definition bloom_hash_domain_from :: "u8 \<Rightarrow> bloom_hash_domain option" where
  "bloom_hash_domain_from v =
     (if v = 0 then Some BHD_FileCode
      else if v = 1 then Some BHD_NumCode
      else if v = 2 then Some BHD_CanonicalValueHash
      else None)"

lemma bloom_hash_domain_from_iff [simp]: "bloom_hash_domain_from v = Some k \<longleftrightarrow> v = as_bloom_hash_domain k"
  by (cases k) (auto simp: bloom_hash_domain_from_def)

lemma bloom_hash_domain_from_as [simp]: "bloom_hash_domain_from (as_bloom_hash_domain k) = Some k"
  by simp

datatype bloom_algorithm = BA_SplitBlock

primrec as_bloom_algorithm :: "bloom_algorithm \<Rightarrow> u8" where
  "as_bloom_algorithm BA_SplitBlock = 0"

definition bloom_algorithm_from :: "u8 \<Rightarrow> bloom_algorithm option" where
  "bloom_algorithm_from v =
     (if v = 0 then Some BA_SplitBlock
      else None)"

lemma bloom_algorithm_from_iff [simp]: "bloom_algorithm_from v = Some k \<longleftrightarrow> v = as_bloom_algorithm k"
  by (cases k) (auto simp: bloom_algorithm_from_def)

lemma bloom_algorithm_from_as [simp]: "bloom_algorithm_from (as_bloom_algorithm k) = Some k"
  by simp

record bloom_header =
  bh_table_id :: u32
  bh_column_id :: u32
  bh_granularity :: bloom_granularity
  bh_hash_domain :: bloom_hash_domain
  bh_algorithm :: bloom_algorithm
  bh_flags :: u8
  bh_target_fpr_ppm :: u32
  bh_filter_count :: u32
  bh_data_offset :: u64
  bh_data_length :: u64
  bh_checksum :: u32

definition bloom_header_serialize :: "(bytes \<Rightarrow> u32) \<Rightarrow> bloom_header \<Rightarrow> bytes" where
  "bloom_header_serialize crc h =
     (let out = replicate BLOOM_INDEX_HEADER_LEN 0;
          out = copy_at out 0 (le_bytes 4 (bh_table_id h));
          out = copy_at out 4 (le_bytes 4 (bh_column_id h));
          out = copy_at out 8 [as_bloom_granularity (bh_granularity h)];
          out = copy_at out 9 [as_bloom_hash_domain (bh_hash_domain h)];
          out = copy_at out 10 [as_bloom_algorithm (bh_algorithm h)];
          out = copy_at out 11 [bh_flags h];
          out = copy_at out 12 (le_bytes 4 (bh_target_fpr_ppm h));
          out = copy_at out 16 (le_bytes 4 (bh_filter_count h));
          out = copy_at out 20 (le_bytes 8 (bh_data_offset h));
          out = copy_at out 28 (le_bytes 8 (bh_data_length h));
          c = crc out
      in copy_at out 36 (le_bytes 4 c))"

definition bloom_header_parse :: "(bytes \<Rightarrow> u32) \<Rightarrow> bytes \<Rightarrow> bloom_header res" where
  "bloom_header_parse crc bs =
     (if length bs < BLOOM_INDEX_HEADER_LEN then Fail BufferTooShort
      else
        and_then (slice bs 0 BLOOM_INDEX_HEADER_LEN) (\<lambda>bs.
        and_then (verify_checksum_field crc bs 36) (\<lambda>checksum'.
        and_then (index bs 8) (\<lambda>b. and_then (ok_or BadIndex (bloom_granularity_from b)) (\<lambda>granularity'.
        and_then (index bs 9) (\<lambda>b. and_then (ok_or BadIndex (bloom_hash_domain_from b)) (\<lambda>hash_domain'.
        and_then (index bs 10) (\<lambda>b. and_then (ok_or BadIndex (bloom_algorithm_from b)) (\<lambda>algorithm'.
        and_then (read_u32_le_checked bs 0) (\<lambda>table_id'.
        and_then (read_u32_le_checked bs 4) (\<lambda>column_id'.
        and_then (index bs 11) (\<lambda>flags'.
        and_then (read_u32_le_checked bs 12) (\<lambda>target_fpr_ppm'.
        and_then (read_u32_le_checked bs 16) (\<lambda>filter_count'.
        and_then (read_u64_le_checked bs 20) (\<lambda>data_offset'.
        and_then (read_u64_le_checked bs 28) (\<lambda>data_length'.
        Ok \<lparr>bh_table_id = table_id',
          bh_column_id = column_id',
          bh_granularity = granularity',
          bh_hash_domain = hash_domain',
          bh_algorithm = algorithm',
          bh_flags = flags',
          bh_target_fpr_ppm = target_fpr_ppm',
          bh_filter_count = filter_count',
          bh_data_offset = data_offset',
          bh_data_length = data_length',
          bh_checksum = checksum'\<rparr>))))))))))))))))"

definition bloom_header_prefix :: "bloom_header \<Rightarrow> bytes" where
  "bloom_header_prefix h = le_bytes 4 (bh_table_id h) @
     le_bytes 4 (bh_column_id h) @
     [as_bloom_granularity (bh_granularity h)] @
     [as_bloom_hash_domain (bh_hash_domain h)] @
     [as_bloom_algorithm (bh_algorithm h)] @
     [bh_flags h] @
     le_bytes 4 (bh_target_fpr_ppm h) @
     le_bytes 4 (bh_filter_count h) @
     le_bytes 8 (bh_data_offset h) @
     le_bytes 8 (bh_data_length h)"

lemma length_bloom_header_prefix [simp]: "length (bloom_header_prefix h) = 36"
  by (simp add: bloom_header_prefix_def)

lemma bloom_header_serialize_eq:
  "bloom_header_serialize crc h = bloom_header_prefix h @ le_bytes 4 (crc (bloom_header_prefix h @ replicate 4 0))"
  unfolding bloom_header_serialize_def BLOOM_INDEX_HEADER_LEN_def bloom_header_prefix_def
  by (simp add: fill_simps del: append_assoc) (simp only: append_assoc append_Cons append_Nil)

lemma bloom_header_parse_reads:
  assumes "40 \<le> length bs"
  shows "bloom_header_parse crc bs =
    (if crc (sub bs 0 36 @ replicate 4 0) \<noteq> of_le (sub bs 36 4) then Fail ChecksumMismatch
     else
        and_then (ok_or BadIndex (bloom_granularity_from (bs ! 8))) (\<lambda>granularity'.
        and_then (ok_or BadIndex (bloom_hash_domain_from (bs ! 9))) (\<lambda>hash_domain'.
        and_then (ok_or BadIndex (bloom_algorithm_from (bs ! 10))) (\<lambda>algorithm'.
        Ok \<lparr>bh_table_id = of_le (sub bs 0 4),
          bh_column_id = of_le (sub bs 4 4),
          bh_granularity = granularity',
          bh_hash_domain = hash_domain',
          bh_algorithm = algorithm',
          bh_flags = bs ! 11,
          bh_target_fpr_ppm = of_le (sub bs 12 4),
          bh_filter_count = of_le (sub bs 16 4),
          bh_data_offset = of_le (sub bs 20 8),
          bh_data_length = of_le (sub bs 28 8),
          bh_checksum = of_le (sub bs 36 4)\<rparr>))))"
proof -
  let ?b = "sub bs 0 40"
  have l: "length ?b = 40" using assms by (simp add: length_sub)
  have s: "slice bs 0 40 = (Ok ?b :: bytes res)" using assms by (simp add: slice_Ok)
  have v: "verify_checksum_field crc ?b 36 =
      (if crc (sub bs 0 36 @ replicate 4 0) \<noteq> of_le (sub bs 36 4) then Fail ChecksumMismatch else Ok (of_le (sub bs 36 4)))"
    using l verify_checksum_field_eq [of ?b 36 crc] by (simp add: sub_sub usize_limit_def)
  have r: "read_u32_le_checked ?b 0 = Ok (of_le (sub bs 0 4))"
    "read_u32_le_checked ?b 4 = Ok (of_le (sub bs 4 4))"
    "index ?b 8 = (Ok (bs ! 8) :: u8 res)"
    "index ?b 9 = (Ok (bs ! 9) :: u8 res)"
    "index ?b 10 = (Ok (bs ! 10) :: u8 res)"
    "index ?b 11 = (Ok (bs ! 11) :: u8 res)"
    "read_u32_le_checked ?b 12 = Ok (of_le (sub bs 12 4))"
    "read_u32_le_checked ?b 16 = Ok (of_le (sub bs 16 4))"
    "read_u64_le_checked ?b 20 = Ok (of_le (sub bs 20 8))"
    "read_u64_le_checked ?b 28 = Ok (of_le (sub bs 28 8))"
    using l by (simp_all add: wire_simps usize_limit_def sub_sub index_Ok nth_sub)
  have n: "\<not> length bs < 40" using assms by simp
  show ?thesis
    unfolding bloom_header_parse_def BLOOM_INDEX_HEADER_LEN_def if_not_P [OF n] s and_then_simps v r
    by simp
qed

lemma bloom_header_parse_serialize:
  "bloom_header_parse crc (bloom_header_serialize crc h @ rest) = Ok (h\<lparr>bh_checksum := crc (bloom_header_prefix h @ replicate 4 0)\<rparr>)"
proof -
  let ?s = "bloom_header_serialize crc h @ rest"
  have f: "sub ?s 0 36 = bloom_header_prefix h"
    "sub ?s 36 4 = le_bytes 4 (crc (bloom_header_prefix h @ replicate 4 0))"
    by (simp_all add: bloom_header_serialize_eq sub_def)
  have g: "sub ?s 0 4 = le_bytes 4 (bh_table_id h)"
    "sub ?s 4 4 = le_bytes 4 (bh_column_id h)"
    "?s ! 8 = as_bloom_granularity (bh_granularity h)"
    "?s ! 9 = as_bloom_hash_domain (bh_hash_domain h)"
    "?s ! 10 = as_bloom_algorithm (bh_algorithm h)"
    "?s ! 11 = bh_flags h"
    "sub ?s 12 4 = le_bytes 4 (bh_target_fpr_ppm h)"
    "sub ?s 16 4 = le_bytes 4 (bh_filter_count h)"
    "sub ?s 20 8 = le_bytes 8 (bh_data_offset h)"
    "sub ?s 28 8 = le_bytes 8 (bh_data_length h)"
    by (simp_all add: bloom_header_serialize_eq bloom_header_prefix_def sub_def nth_append)
  have "40 \<le> length ?s" by (simp add: bloom_header_serialize_eq)
  then show ?thesis by (simp add: bloom_header_parse_reads f g)
qed

lemma no_panic_bloom_header_parse [no_panic_intros, simp]: "no_panic (bloom_header_parse crc bs)"
proof (cases "length bs < 40")
  case False
  then show ?thesis by (subst bloom_header_parse_reads) (auto intro!: no_panic_intros)
qed (simp add: bloom_header_parse_def BLOOM_INDEX_HEADER_LEN_def)

section \<open>Hashing\<close>

definition fnv1a64 :: "bytes \<Rightarrow> u64 \<Rightarrow> u64" where
  "fnv1a64 bs seed =
     foldl (\<lambda>h b. (h XOR ucast b) * 0x00000100000001b3) (0xcbf29ce484222325 XOR seed) bs"

definition base_hashes :: "bytes \<Rightarrow> u64 \<times> u64" where
  "base_hashes val = (fnv1a64 val 0, fnv1a64 val 0xdeadbeef)"

definition double_hash :: "u64 \<Rightarrow> u64 \<Rightarrow> u8 \<Rightarrow> u64" where
  "double_hash h1 h2 i = h1 + ucast i * h2"

section \<open>The filter\<close>

record bloom_filter_index =
  bf_header :: bloom_header
  bf_hash_count :: u8
  bf_bits :: bytes

definition bloom_filter_parse :: "(bytes \<Rightarrow> u32) \<Rightarrow> bytes \<Rightarrow> bloom_filter_index res" where
  "bloom_filter_parse crc bs =
     and_then (bloom_header_parse crc bs) (\<lambda>header.
     and_then (checked_region bs (bh_data_offset header) (bh_data_length header)) (\<lambda>bits.
     if bh_filter_count header = 0 \<or> bits = [] then Fail BadIndex
     else Ok \<lparr>bf_header = header, bf_hash_count = 7, bf_bits = bits\<rparr>))"

text \<open>
  The number of bits is a \<^verbatim>\<open>u64\<close> product; below \<open>2 ^ 61\<close> bytes it does not wrap, and
  whether it wraps or not a hash modulo it addresses a byte of the filter.
\<close>

definition bloom_nbits :: "bytes \<Rightarrow> u64" where
  "bloom_nbits bits = of_nat (length bits) * 8"

definition bloom_insert :: "bytes \<Rightarrow> bloom_filter_index \<Rightarrow> bloom_filter_index" where
  "bloom_insert val f =
     (let nbits = bloom_nbits (bf_bits f) in
      if nbits = 0 then f
      else
        let (h1, h2) = base_hashes val in
        f\<lparr>bf_bits := foldl (\<lambda>bits i.
            let bit = double_hash h1 h2 (of_nat i) mod nbits; byte = unat (bit div 8) in
            bits[byte := bits ! byte OR push_bit (unat (bit mod 8)) 1])
          (bf_bits f) [0..<unat (bf_hash_count f)]\<rparr>)"

definition bloom_might_contain :: "bloom_filter_index \<Rightarrow> bytes \<Rightarrow> bool" where
  "bloom_might_contain f val =
     (let nbits = bloom_nbits (bf_bits f) in
      if nbits = 0 then False
      else
        let (h1, h2) = base_hashes val in
        list_all (\<lambda>i.
          let bit = double_hash h1 h2 (of_nat i) mod nbits in
          \<not> (bf_bits f ! unat (bit div 8) AND push_bit (unat (bit mod 8)) 1 = 0))
        [0..<unat (bf_hash_count f)])"

definition bloom_serialize :: "(bytes \<Rightarrow> u32) \<Rightarrow> bloom_filter_index \<Rightarrow> bytes" where
  "bloom_serialize crc f =
     (let header = (bf_header f)\<lparr>bh_data_offset := of_nat BLOOM_INDEX_HEADER_LEN,
            bh_data_length := of_nat (length (bf_bits f))\<rparr>
      in bloom_header_serialize crc header @ bf_bits f)"

section \<open>Lemmas\<close>

text \<open>The bit positions a value hashes to.\<close>

definition bloom_pos :: "bytes \<Rightarrow> bytes \<Rightarrow> nat \<Rightarrow> nat" where
  "bloom_pos bits val i = unat (double_hash (fnv1a64 val 0) (fnv1a64 val 0xdeadbeef) (of_nat i) mod bloom_nbits bits)"

definition bloom_ok :: "bloom_filter_index \<Rightarrow> bool" where
  "bloom_ok f \<longleftrightarrow> 0 < length (bf_bits f) \<and> length (bf_bits f) < 2 ^ 61"

lemma bloom_nbits_unat: "length bits < 2 ^ 61 \<Longrightarrow> unat (bloom_nbits bits) = 8 * length bits"
proof -
  assume l: "length bits < 2 ^ 61"
  have "bloom_nbits bits = of_nat (length bits * 8)" by (simp add: bloom_nbits_def)
  then show ?thesis using unat_of_nat_less [of "length bits * 8", where ?'a = 64] l
    by (simp del: of_nat_mult)
qed

lemma bloom_pos_less:
  assumes "0 < length bits" "length bits < 2 ^ 61"
  shows "bloom_pos bits val i < 8 * length bits"
proof -
  have n: "unat (bloom_nbits bits) = 8 * length bits" using assms(2) by (rule bloom_nbits_unat)
  have "bloom_pos bits val i = unat (double_hash (fnv1a64 val 0) (fnv1a64 val 0xdeadbeef) (of_nat i)) mod (8 * length bits)"
    by (simp add: bloom_pos_def unat_mod n)
  then show ?thesis using assms(1) by simp
qed

definition set_stream_bit :: "bytes \<Rightarrow> nat \<Rightarrow> bytes" where
  "set_stream_bit bits k = bits[k div 8 := bits ! (k div 8) OR push_bit (k mod 8) 1]"

lemma length_set_stream_bit [simp]: "length (set_stream_bit bits k) = length bits"
  by (simp add: set_stream_bit_def)

lemma stream_bit_set_stream_bit:
  "k < 8 * length bits \<Longrightarrow> stream_bit (set_stream_bit bits k) j \<longleftrightarrow> j = k \<or> stream_bit bits j"
  unfolding set_stream_bit_def by (rule stream_bit_set) simp

lemma set_stream_bits:
  "(\<And>k. k \<in> set ks \<Longrightarrow> k < 8 * length bits) \<Longrightarrow>
   length (foldl set_stream_bit bits ks) = length bits \<and>
   (stream_bit (foldl set_stream_bit bits ks) j \<longleftrightarrow> j \<in> set ks \<or> stream_bit bits j)"
  by (induction ks arbitrary: bits) (auto simp: stream_bit_set_stream_bit)

lemma bloom_nonzero: "bloom_ok f \<Longrightarrow> bloom_nbits (bf_bits f) \<noteq> 0"
  using bloom_nbits_unat [of "bf_bits f"] by (auto simp: bloom_ok_def)

lemma bloom_insert_eq:
  assumes "bloom_ok f"
  shows "bloom_insert val f =
    f\<lparr>bf_bits := foldl set_stream_bit (bf_bits f) (map (bloom_pos (bf_bits f) val) [0..<unat (bf_hash_count f)])\<rparr>"
  using bloom_nonzero [OF assms]
  by (simp add: bloom_insert_def base_hashes_def Let_def foldl_map bloom_pos_def set_stream_bit_def unat_div unat_mod)

lemma and_bit_iff: "(b :: u8) AND push_bit n 1 = 0 \<longleftrightarrow> \<not> bit b n \<or> 8 \<le> n"
proof
  assume z: "b AND push_bit n 1 = 0"
  show "\<not> bit b n \<or> 8 \<le> n"
  proof (rule ccontr)
    assume "\<not> (\<not> bit b n \<or> 8 \<le> n)"
    then have "bit (b AND push_bit n 1) n" by (simp add: bit_simps)
    then show False by (simp only: z) simp
  qed
next
  assume a: "\<not> bit b n \<or> 8 \<le> n"
  show "b AND push_bit n 1 = 0"
    by (rule bit_word_eqI) (use a in \<open>auto simp: bit_simps\<close>)
qed

lemma bloom_might_contain_eq:
  assumes "bloom_ok f"
  shows "bloom_might_contain f val \<longleftrightarrow>
    (\<forall>i < unat (bf_hash_count f). stream_bit (bf_bits f) (bloom_pos (bf_bits f) val i))"
proof -
  have "stream_bit (bf_bits f) (bloom_pos (bf_bits f) val i) \<longleftrightarrow>
      \<not> (bf_bits f ! (bloom_pos (bf_bits f) val i div 8) AND push_bit (bloom_pos (bf_bits f) val i mod 8) 1 = 0)" for i
    using bloom_pos_less [of "bf_bits f" val i] assms
    by (auto simp: bloom_ok_def stream_bit_def and_bit_iff simp del: push_bit_of_1)
  then show ?thesis
    using bloom_nonzero [OF assms]
    by (simp add: bloom_might_contain_def base_hashes_def Let_def list_all_iff bloom_pos_def unat_div unat_mod
        Ball_def del: push_bit_of_1)
qed

lemma bloom_insert_bits:
  assumes "bloom_ok f"
  shows "length (bf_bits (bloom_insert val f)) = length (bf_bits f)"
    "bf_hash_count (bloom_insert val f) = bf_hash_count f"
    "stream_bit (bf_bits (bloom_insert val f)) j \<longleftrightarrow>
       j \<in> bloom_pos (bf_bits f) val ` {..<unat (bf_hash_count f)} \<or> stream_bit (bf_bits f) j"
proof -
  let ?ks = "map (bloom_pos (bf_bits f) val) [0..<unat (bf_hash_count f)]"
  have s: "length (foldl set_stream_bit (bf_bits f) ?ks) = length (bf_bits f) \<and>
      (stream_bit (foldl set_stream_bit (bf_bits f) ?ks) j \<longleftrightarrow> j \<in> set ?ks \<or> stream_bit (bf_bits f) j)"
    by (rule set_stream_bits) (use assms in \<open>auto simp: bloom_ok_def bloom_pos_less\<close>)
  show "length (bf_bits (bloom_insert val f)) = length (bf_bits f)"
    "bf_hash_count (bloom_insert val f) = bf_hash_count f"
    "stream_bit (bf_bits (bloom_insert val f)) j \<longleftrightarrow>
       j \<in> bloom_pos (bf_bits f) val ` {..<unat (bf_hash_count f)} \<or> stream_bit (bf_bits f) j"
    using s by (auto simp: bloom_insert_eq [OF assms] lessThan_atLeast0)
qed

lemma bloom_pos_length: "length a = length b \<Longrightarrow> bloom_pos a = bloom_pos b"
  by (intro ext) (simp add: bloom_pos_def bloom_nbits_def)

interpretation bloom: filter_index bloom_insert bloom_might_contain bloom_ok
proof
  fix f :: bloom_filter_index and k j
  assume ok: "bloom_ok f"
  note b = bloom_insert_bits [OF ok, of k]
  show ok': "bloom_ok (bloom_insert k f)" using ok b(1) by (simp add: bloom_ok_def)
  note p = bloom_pos_length [OF b(1)]
  show "bloom_might_contain (bloom_insert k f) k"
    using bloom_might_contain_eq [OF ok'] b by (auto simp: p)
  show "bloom_might_contain f j \<Longrightarrow> bloom_might_contain (bloom_insert k f) j"
    using bloom_might_contain_eq [OF ok'] bloom_might_contain_eq [OF ok] b by (auto simp: p)
qed

text \<open>
  A filter together with the values it was built from is a membership index: it never
  denies one of them.
\<close>

interpretation bloom_index: membership "\<lambda>(f, vs). bloom_might_contain (fold bloom_insert vs f)"
    "\<lambda>(f, vs) v. v \<in> set vs" "\<lambda>(f, vs). bloom_ok f"
  by unfold_locales (auto intro: bloom.query_fold)

lemma bloom_parse_ok:
  "bloom_filter_parse crc bs = Ok f \<Longrightarrow> length bs < 2 ^ 61 \<Longrightarrow> bloom_ok f \<and> bf_hash_count f = 7"
  by (auto simp: bloom_filter_parse_def ok_iffs checked_region_Ok_iff bloom_ok_def length_sub)

lemma no_panic_bloom_filter_parse [no_panic_intros, simp]: "no_panic (bloom_filter_parse crc bs)"
  by (auto simp: bloom_filter_parse_def intro!: no_panic_intros)

lemma bloom_parse_serialize:
  assumes "bf_bits f \<noteq> []" "bh_filter_count (bf_header f) \<noteq> 0" "bf_hash_count f = 7" "length (bf_bits f) + 40 < usize_limit"
  shows "\<exists>h. bloom_filter_parse crc (bloom_serialize crc f) = Ok (f\<lparr>bf_header := h\<rparr>)"
proof -
  define h where "h = (bf_header f)\<lparr>bh_data_offset := 40, bh_data_length := of_nat (length (bf_bits f))\<rparr>"
  let ?s = "bloom_serialize crc f"
  have s: "?s = bloom_header_serialize crc h @ bf_bits f"
    by (simp add: bloom_serialize_def h_def BLOOM_INDEX_HEADER_LEN_def)
  have lh: "length (bloom_header_serialize crc h) = 40" by (simp add: bloom_header_serialize_eq)
  have u: "unat (of_nat (length (bf_bits f)) :: u64) = length (bf_bits f)"
    using assms(4) by (intro unat_of_nat_less) (simp add: usize_limit_def)
  have c: "checked_region ?s (bh_data_offset h) (bh_data_length h) = Ok (bf_bits f)"
    using assms(4) u lh by (simp add: checked_region_Ok_iff h_def s sub_def)
  have "bloom_filter_parse crc ?s =
      Ok (f\<lparr>bf_header := h\<lparr>bh_checksum := crc (bloom_header_prefix h @ replicate 4 0)\<rparr>\<rparr>)"
    unfolding bloom_filter_parse_def using c assms(1-3)
    by (simp add: s bloom_header_parse_serialize) (simp add: h_def)
  then show ?thesis by blast
qed

section \<open>Properties\<close>

text \<open>
  C20: A filter read from a file and given any values never denies one of them, and
  never forgets one it already admitted: no false negatives, through the bits the
  double hash sets and tests.
\<close>

theorem bloom_no_false_negatives:
  assumes "bloom_filter_parse crc bs = Ok f" "length bs < 2 ^ 61" "v \<in> set vs \<or> bloom_might_contain f v"
  shows "bloom_might_contain (fold bloom_insert vs f) v"
  using assms(3) bloom_parse_ok [OF assms(1,2)] by (auto intro: bloom.query_fold bloom.query_fold_mono)

definition bloom_example :: bloom_filter_index where
  "bloom_example = \<lparr>bf_header = \<lparr>bh_table_id = 1, bh_column_id = 2, bh_granularity = BG_Segment,
     bh_hash_domain = BHD_CanonicalValueHash, bh_algorithm = BA_SplitBlock, bh_flags = 0, bh_target_fpr_ppm = 10,
     bh_filter_count = 1, bh_data_offset = 40, bh_data_length = 2, bh_checksum = 7\<rparr>,
     bf_hash_count = 7, bf_bits = [0, 0]\<rparr>"

lemma bloom_no_false_negatives_witness:
  "\<exists>f. bloom_filter_parse (\<lambda>_. 7) (bloom_serialize (\<lambda>_. 7) bloom_example) = Ok f \<and>
    bloom_might_contain (fold bloom_insert [[1], [2, 3]] f) [2, 3]"
proof -
  let ?s = "bloom_serialize (\<lambda>_. 7) bloom_example"
  have l: "length ?s = 42"
    by (simp add: bloom_serialize_def bloom_header_serialize_eq bloom_example_def)
  obtain h where p: "bloom_filter_parse (\<lambda>_. 7) ?s = Ok (bloom_example\<lparr>bf_header := h\<rparr>)"
    using bloom_parse_serialize [of bloom_example "\<lambda>_. 7"] by (auto simp: bloom_example_def usize_limit_def)
  show ?thesis using bloom_no_false_negatives [OF p, of "[2, 3]" "[[1], [2, 3]]"] l p by auto
qed

end
