(* ===== verification/Inverted.thy ===== *)
theory Inverted
  imports Index_Common
begin

text \<open>
  The inverted morsel index (\<^verbatim>\<open>index/inverted.rs\<close>): header, entries, the parser that
  checks their order and their bitmap ranges, and the serializer it inverts.
\<close>

section \<open>Header\<close>

definition INVERTED_MORSEL_INDEX_HEADER_LEN :: nat where
  "INVERTED_MORSEL_INDEX_HEADER_LEN = 36"

datatype inverted_key_kind = IKK_FileCode | IKK_NumCode

primrec as_inverted_key_kind :: "inverted_key_kind \<Rightarrow> u8" where
  "as_inverted_key_kind IKK_FileCode = 0"
| "as_inverted_key_kind IKK_NumCode = 1"

definition inverted_key_kind_from :: "u8 \<Rightarrow> inverted_key_kind option" where
  "inverted_key_kind_from v =
     (if v = 0 then Some IKK_FileCode
      else if v = 1 then Some IKK_NumCode
      else None)"

lemma inverted_key_kind_from_iff [simp]: "inverted_key_kind_from v = Some k \<longleftrightarrow> v = as_inverted_key_kind k"
  by (cases k) (auto simp: inverted_key_kind_from_def)

lemma inverted_key_kind_from_as [simp]: "inverted_key_kind_from (as_inverted_key_kind k) = Some k"
  by simp

record inverted_header =
  imh_table_id :: u32
  imh_column_id :: u32
  imh_key_kind :: inverted_key_kind
  imh_flags :: u8
  imh_representation :: u8
  imh_reserved :: u8
  imh_entry_count :: u32
  imh_entries_offset :: u64
  imh_bitmap_data_offset :: u64
  imh_checksum :: u32

definition inverted_header_serialize :: "(bytes \<Rightarrow> u32) \<Rightarrow> inverted_header \<Rightarrow> bytes" where
  "inverted_header_serialize crc h =
     (let out = replicate INVERTED_MORSEL_INDEX_HEADER_LEN 0;
          out = copy_at out 0 (le_bytes 4 (imh_table_id h));
          out = copy_at out 4 (le_bytes 4 (imh_column_id h));
          out = copy_at out 8 [as_inverted_key_kind (imh_key_kind h)];
          out = copy_at out 9 [imh_flags h];
          out = copy_at out 10 [imh_representation h];
          out = copy_at out 11 [imh_reserved h];
          out = copy_at out 12 (le_bytes 4 (imh_entry_count h));
          out = copy_at out 16 (le_bytes 8 (imh_entries_offset h));
          out = copy_at out 24 (le_bytes 8 (imh_bitmap_data_offset h));
          c = crc out
      in copy_at out 32 (le_bytes 4 c))"

definition inverted_header_parse :: "(bytes \<Rightarrow> u32) \<Rightarrow> bytes \<Rightarrow> inverted_header res" where
  "inverted_header_parse crc bs =
     (if length bs < INVERTED_MORSEL_INDEX_HEADER_LEN then Fail BufferTooShort
      else
        and_then (slice bs 0 INVERTED_MORSEL_INDEX_HEADER_LEN) (\<lambda>bs.
        and_then (verify_checksum_field crc bs 32) (\<lambda>checksum'.
        and_then (index bs 8) (\<lambda>b. and_then (ok_or BadIndex (inverted_key_kind_from b)) (\<lambda>key_kind'.
        and_then (index bs 11) (\<lambda>reserved'.
        if reserved' \<noteq> 0 then Fail ReservedNotZero else
        and_then (read_u32_le_checked bs 0) (\<lambda>table_id'.
        and_then (read_u32_le_checked bs 4) (\<lambda>column_id'.
        and_then (index bs 9) (\<lambda>flags'.
        and_then (index bs 10) (\<lambda>representation'.
        and_then (read_u32_le_checked bs 12) (\<lambda>entry_count'.
        and_then (read_u64_le_checked bs 16) (\<lambda>entries_offset'.
        and_then (read_u64_le_checked bs 24) (\<lambda>bitmap_data_offset'.
        Ok \<lparr>imh_table_id = table_id',
          imh_column_id = column_id',
          imh_key_kind = key_kind',
          imh_flags = flags',
          imh_representation = representation',
          imh_reserved = reserved',
          imh_entry_count = entry_count',
          imh_entries_offset = entries_offset',
          imh_bitmap_data_offset = bitmap_data_offset',
          imh_checksum = checksum'\<rparr>)))))))))))))"

definition inverted_header_prefix :: "inverted_header \<Rightarrow> bytes" where
  "inverted_header_prefix h = le_bytes 4 (imh_table_id h) @
     le_bytes 4 (imh_column_id h) @
     [as_inverted_key_kind (imh_key_kind h)] @
     [imh_flags h] @
     [imh_representation h] @
     [imh_reserved h] @
     le_bytes 4 (imh_entry_count h) @
     le_bytes 8 (imh_entries_offset h) @
     le_bytes 8 (imh_bitmap_data_offset h)"

lemma length_inverted_header_prefix [simp]: "length (inverted_header_prefix h) = 32"
  by (simp add: inverted_header_prefix_def)

lemma inverted_header_serialize_eq:
  "inverted_header_serialize crc h = inverted_header_prefix h @ le_bytes 4 (crc (inverted_header_prefix h @ replicate 4 0))"
  unfolding inverted_header_serialize_def INVERTED_MORSEL_INDEX_HEADER_LEN_def inverted_header_prefix_def
  by (simp add: fill_simps del: append_assoc) (simp only: append_assoc append_Cons append_Nil)

lemma inverted_header_parse_reads:
  assumes "36 \<le> length bs"
  shows "inverted_header_parse crc bs =
    (if crc (sub bs 0 32 @ replicate 4 0) \<noteq> of_le (sub bs 32 4) then Fail ChecksumMismatch
     else
        and_then (ok_or BadIndex (inverted_key_kind_from (bs ! 8))) (\<lambda>key_kind'.
        if (bs ! 11) \<noteq> 0 then Fail ReservedNotZero else
        Ok \<lparr>imh_table_id = of_le (sub bs 0 4),
          imh_column_id = of_le (sub bs 4 4),
          imh_key_kind = key_kind',
          imh_flags = bs ! 9,
          imh_representation = bs ! 10,
          imh_reserved = bs ! 11,
          imh_entry_count = of_le (sub bs 12 4),
          imh_entries_offset = of_le (sub bs 16 8),
          imh_bitmap_data_offset = of_le (sub bs 24 8),
          imh_checksum = of_le (sub bs 32 4)\<rparr>))"
proof -
  let ?b = "sub bs 0 36"
  have l: "length ?b = 36" using assms by (simp add: length_sub)
  have s: "slice bs 0 36 = (Ok ?b :: bytes res)" using assms by (simp add: slice_Ok)
  have v: "verify_checksum_field crc ?b 32 =
      (if crc (sub bs 0 32 @ replicate 4 0) \<noteq> of_le (sub bs 32 4) then Fail ChecksumMismatch else Ok (of_le (sub bs 32 4)))"
    using l verify_checksum_field_eq [of ?b 32 crc] by (simp add: sub_sub usize_limit_def)
  have r: "read_u32_le_checked ?b 0 = Ok (of_le (sub bs 0 4))"
    "read_u32_le_checked ?b 4 = Ok (of_le (sub bs 4 4))"
    "index ?b 8 = (Ok (bs ! 8) :: u8 res)"
    "index ?b 9 = (Ok (bs ! 9) :: u8 res)"
    "index ?b 10 = (Ok (bs ! 10) :: u8 res)"
    "index ?b 11 = (Ok (bs ! 11) :: u8 res)"
    "read_u32_le_checked ?b 12 = Ok (of_le (sub bs 12 4))"
    "read_u64_le_checked ?b 16 = Ok (of_le (sub bs 16 8))"
    "read_u64_le_checked ?b 24 = Ok (of_le (sub bs 24 8))"
    using l by (simp_all add: wire_simps usize_limit_def sub_sub index_Ok nth_sub)
  have n: "\<not> length bs < 36" using assms by simp
  show ?thesis
    unfolding inverted_header_parse_def INVERTED_MORSEL_INDEX_HEADER_LEN_def if_not_P [OF n] s and_then_simps v r
    by simp
qed

lemma inverted_header_parse_serialize:
  "imh_reserved h = 0 \<Longrightarrow> inverted_header_parse crc (inverted_header_serialize crc h @ rest) = Ok (h\<lparr>imh_checksum := crc (inverted_header_prefix h @ replicate 4 0)\<rparr>)"
proof -
  assume z: "imh_reserved h = 0"
  let ?s = "inverted_header_serialize crc h @ rest"
  have f: "sub ?s 0 32 = inverted_header_prefix h"
    "sub ?s 32 4 = le_bytes 4 (crc (inverted_header_prefix h @ replicate 4 0))"
    by (simp_all add: inverted_header_serialize_eq sub_def)
  have g: "sub ?s 0 4 = le_bytes 4 (imh_table_id h)"
    "sub ?s 4 4 = le_bytes 4 (imh_column_id h)"
    "?s ! 8 = as_inverted_key_kind (imh_key_kind h)"
    "?s ! 9 = imh_flags h"
    "?s ! 10 = imh_representation h"
    "?s ! 11 = imh_reserved h"
    "sub ?s 12 4 = le_bytes 4 (imh_entry_count h)"
    "sub ?s 16 8 = le_bytes 8 (imh_entries_offset h)"
    "sub ?s 24 8 = le_bytes 8 (imh_bitmap_data_offset h)"
    by (simp_all add: inverted_header_serialize_eq inverted_header_prefix_def sub_def nth_append)
  have "36 \<le> length ?s" by (simp add: inverted_header_serialize_eq)
  then show ?thesis using z by (simp add: inverted_header_parse_reads f g)
qed

lemma no_panic_inverted_header_parse [no_panic_intros, simp]: "no_panic (inverted_header_parse crc bs)"
proof (cases "length bs < 36")
  case False
  then show ?thesis by (subst inverted_header_parse_reads) (auto intro!: no_panic_intros)
qed (simp add: inverted_header_parse_def INVERTED_MORSEL_INDEX_HEADER_LEN_def)

section \<open>Entries\<close>

definition INVERTED_MORSEL_ENTRY_LEN :: nat where
  "INVERTED_MORSEL_ENTRY_LEN = 32"

record inverted_entry =
  ie_key :: u64
  ie_morsel_bitmap_offset :: u64
  ie_morsel_bitmap_length :: u32
  ie_row_bitmap_offset :: u64
  ie_row_bitmap_length :: u32

definition inverted_entry_serialize :: "inverted_entry \<Rightarrow> bytes" where
  "inverted_entry_serialize e =
     (let out = replicate INVERTED_MORSEL_ENTRY_LEN 0;
          out = copy_at out 0 (le_bytes 8 (ie_key e));
          out = copy_at out 8 (le_bytes 8 (ie_morsel_bitmap_offset e));
          out = copy_at out 16 (le_bytes 4 (ie_morsel_bitmap_length e));
          out = copy_at out 20 (le_bytes 8 (ie_row_bitmap_offset e))
      in copy_at out 28 (le_bytes 4 (ie_row_bitmap_length e)))"

definition inverted_entry_parse :: "bytes \<Rightarrow> inverted_entry res" where
  "inverted_entry_parse bs =
     (if length bs < INVERTED_MORSEL_ENTRY_LEN then Fail BufferTooShort
      else
        and_then (read_u64_le_checked bs 0) (\<lambda>key.
        and_then (read_u64_le_checked bs 8) (\<lambda>morsel_offset.
        and_then (read_u32_le_checked bs 16) (\<lambda>morsel_length.
        and_then (read_u64_le_checked bs 20) (\<lambda>row_offset.
        and_then (read_u32_le_checked bs 28) (\<lambda>row_length.
        Ok \<lparr>ie_key = key, ie_morsel_bitmap_offset = morsel_offset, ie_morsel_bitmap_length = morsel_length,
          ie_row_bitmap_offset = row_offset, ie_row_bitmap_length = row_length\<rparr>))))))"

section \<open>The index\<close>

record inverted_morsel_index =
  im_header :: inverted_header
  im_entries :: "inverted_entry list"
  im_bitmap_data :: bytes

text \<open>
  The loop of \<^verbatim>\<open>InvertedMorselIndex::parse\<close> over the entry chunks: the keys strictly
  increase and each bitmap the entry names lies in the file.
\<close>

definition inverted_bitmap_region :: "inverted_header \<Rightarrow> bytes \<Rightarrow> u64 \<Rightarrow> u32 \<Rightarrow> bytes res" where
  "inverted_bitmap_region header bs off len =
     and_then (ok_or ArithOverflow (checked_add_word (imh_bitmap_data_offset header) off)) (\<lambda>start.
     checked_region bs start (ucast len))"

fun inverted_parse_loop :: "inverted_header \<Rightarrow> bytes \<Rightarrow> u64 option \<Rightarrow> bytes list \<Rightarrow> inverted_entry list res" where
  "inverted_parse_loop header bs previous_key [] = Ok []"
| "inverted_parse_loop header bs previous_key (chunk # chunks) =
     and_then (inverted_entry_parse chunk) (\<lambda>entry.
     if (case previous_key of Some previous \<Rightarrow> ie_key entry \<le> previous | None \<Rightarrow> False) then Fail BadIndex
     else
       and_then (inverted_bitmap_region header bs (ie_morsel_bitmap_offset entry) (ie_morsel_bitmap_length entry)) (\<lambda>_.
       and_then (if ie_row_bitmap_length entry \<noteq> 0
                 then inverted_bitmap_region header bs (ie_row_bitmap_offset entry) (ie_row_bitmap_length entry)
                 else Ok []) (\<lambda>_.
       map_ok (\<lambda>entries. entry # entries) (inverted_parse_loop header bs (Some (ie_key entry)) chunks))))"

definition inverted_parse :: "(bytes \<Rightarrow> u32) \<Rightarrow> bytes \<Rightarrow> inverted_morsel_index res" where
  "inverted_parse crc bs =
     and_then (inverted_header_parse crc bs) (\<lambda>header.
     and_then (ok_or ArithOverflow (checked_mul (unat (imh_entry_count header)) INVERTED_MORSEL_ENTRY_LEN)) (\<lambda>entries_len.
     and_then (checked_region bs (imh_entries_offset header) (of_nat entries_len)) (\<lambda>entry_bytes.
     and_then (inverted_parse_loop header bs None (chunks_exact INVERTED_MORSEL_ENTRY_LEN entry_bytes)) (\<lambda>entries.
     and_then (if unat (imh_bitmap_data_offset header) \<le> length bs
               then slice_from bs (unat (imh_bitmap_data_offset header)) else Fail OffsetRange) (\<lambda>bitmap_data.
     Ok \<lparr>im_header = header, im_entries = entries, im_bitmap_data = bitmap_data\<rparr>)))))"

definition inverted_serialize :: "(bytes \<Rightarrow> u32) \<Rightarrow> inverted_morsel_index \<Rightarrow> bytes" where
  "inverted_serialize crc x =
     (let header = (im_header x)\<lparr>imh_entry_count := of_nat (length (im_entries x)),
            imh_entries_offset := of_nat INVERTED_MORSEL_INDEX_HEADER_LEN,
            imh_bitmap_data_offset :=
              of_nat (INVERTED_MORSEL_INDEX_HEADER_LEN + length (im_entries x) * INVERTED_MORSEL_ENTRY_LEN)\<rparr>
      in inverted_header_serialize crc header @ concat (map inverted_entry_serialize (im_entries x)) @ im_bitmap_data x)"

section \<open>Lemmas\<close>

lemma inverted_entry_serialize_eq:
  "inverted_entry_serialize e = le_bytes 8 (ie_key e) @ le_bytes 8 (ie_morsel_bitmap_offset e) @
     le_bytes 4 (ie_morsel_bitmap_length e) @ le_bytes 8 (ie_row_bitmap_offset e) @ le_bytes 4 (ie_row_bitmap_length e)"
  unfolding inverted_entry_serialize_def INVERTED_MORSEL_ENTRY_LEN_def
  by (simp add: fill_simps del: append_assoc)

interpretation inverted_entry: fixed_codec inverted_entry_serialize inverted_entry_parse 32 "\<lambda>_. True"
proof
  fix e :: inverted_entry and rest :: bytes
  show "length (inverted_entry_serialize e) = 32" by (simp add: inverted_entry_serialize_eq)
  show "inverted_entry_parse (inverted_entry_serialize e @ rest) = Ok e"
    unfolding inverted_entry_parse_def inverted_entry_serialize_eq
    by (simp add: wire_simps usize_limit_def INVERTED_MORSEL_ENTRY_LEN_def sub_def)
qed

lemma no_panic_inverted_entry_parse [no_panic_intros, simp]: "no_panic (inverted_entry_parse bs)"
  by (auto simp: inverted_entry_parse_def intro!: no_panic_intros)

lemma no_panic_inverted_bitmap_region [no_panic_intros, simp]: "no_panic (inverted_bitmap_region h bs off len)"
  by (auto simp: inverted_bitmap_region_def intro!: no_panic_intros)

lemma no_panic_inverted_parse_loop [no_panic_intros, simp]: "no_panic (inverted_parse_loop h bs prev cs)"
  by (induction h bs prev cs rule: inverted_parse_loop.induct) (auto intro!: no_panic_intros)

lemma no_panic_inverted_parse [no_panic_intros, simp]: "no_panic (inverted_parse crc bs)"
  by (auto simp: inverted_parse_def slice_from_def intro!: no_panic_intros)

text \<open>A bitmap range of the data region.\<close>

definition bitmap_in :: "bytes \<Rightarrow> u64 \<Rightarrow> u32 \<Rightarrow> bool" where
  "bitmap_in dat off len \<longleftrightarrow> unat off + unat len \<le> length dat"

definition inverted_entry_ok :: "bytes \<Rightarrow> inverted_entry \<Rightarrow> bool" where
  "inverted_entry_ok dat e \<longleftrightarrow>
     bitmap_in dat (ie_morsel_bitmap_offset e) (ie_morsel_bitmap_length e) \<and>
     (ie_row_bitmap_length e = 0 \<or> bitmap_in dat (ie_row_bitmap_offset e) (ie_row_bitmap_length e))"

lemma inverted_bitmap_region_iff:
  assumes "length bs < usize_limit"
  shows "(\<exists>r. inverted_bitmap_region h bs off len = Inr r) \<longleftrightarrow>
    unat (imh_bitmap_data_offset h) + unat off + unat len \<le> length bs"
proof -
  let ?d = "imh_bitmap_data_offset h"
  have u: "unat (ucast len :: u64) = unat len" using unat_u32_less [of len] by (simp add: unsigned_ucast_eq take_bit_nat_eq_self)
  show ?thesis
  proof (cases "unat ?d + unat off < 2 ^ 64")
    case True
    then have "unat (?d + off) = unat ?d + unat off" by (simp add: unat_word_ariths)
    then show ?thesis using True assms u
      by (auto simp: inverted_bitmap_region_def checked_region_Ok_iff ok_iffs checked_add_word_eq_Some_iff usize_limit_def)
  next
    case False
    then show ?thesis using assms
      by (auto simp: inverted_bitmap_region_def ok_iffs checked_add_word_eq_Some_iff usize_limit_def)
  qed
qed

definition inverted_loop_ok :: "inverted_header \<Rightarrow> bytes \<Rightarrow> inverted_entry \<Rightarrow> bool" where
  "inverted_loop_ok h bs e \<longleftrightarrow>
     unat (imh_bitmap_data_offset h) + unat (ie_morsel_bitmap_offset e) + unat (ie_morsel_bitmap_length e) \<le> length bs \<and>
     (ie_row_bitmap_length e = 0 \<or>
      unat (imh_bitmap_data_offset h) + unat (ie_row_bitmap_offset e) + unat (ie_row_bitmap_length e) \<le> length bs)"

lemma inverted_parse_loop_Ok_iff:
  assumes "length bs < usize_limit"
  shows "inverted_parse_loop h bs prev cs = Inr es \<longleftrightarrow>
    try_map inverted_entry_parse cs = Inr es \<and>
    sorted_wrt (<) (case prev of None \<Rightarrow> map ie_key es | Some p \<Rightarrow> p # map ie_key es) \<and>
    list_all (inverted_loop_ok h bs) es"
proof (induction cs arbitrary: prev es)
  case Nil
  then show ?case by (auto split: option.splits)
next
  case (Cons c cs)
  note r = inverted_bitmap_region_iff [OF assms]
  have step: "inverted_parse_loop h bs prev (c # cs) = Inr es \<longleftrightarrow>
      (\<exists>e es'. inverted_entry_parse c = Inr e \<and> (\<forall>p. prev = Some p \<longrightarrow> p < ie_key e) \<and> inverted_loop_ok h bs e \<and>
        inverted_parse_loop h bs (Some (ie_key e)) cs = Inr es' \<and> es = e # es')"
    using r by (auto simp: ok_iffs inverted_loop_ok_def not_le split: option.splits)
  show ?case
    unfolding step Cons.IH
    by (auto simp: ok_iffs split: option.splits intro: less_trans)
qed

definition inverted_wf :: "inverted_morsel_index \<Rightarrow> bool" where
  "inverted_wf x \<longleftrightarrow> sorted_wrt (<) (map ie_key (im_entries x)) \<and>
     list_all (inverted_entry_ok (im_bitmap_data x)) (im_entries x)"

lemma inverted_parse_wf:
  assumes "inverted_parse crc bs = Ok x" "length bs < usize_limit"
  shows "inverted_wf x"
proof -
  note q = assms(1) [unfolded inverted_parse_def ok_iffs sum.inject]
  from q obtain cs where l: "inverted_parse_loop (im_header x) bs None cs = Ok (im_entries x)"
    and b: "unat (imh_bitmap_data_offset (im_header x)) \<le> length bs"
      "im_bitmap_data x = drop (unat (imh_bitmap_data_offset (im_header x))) bs"
    by (auto simp: slice_from_def split: if_splits)
  have "inverted_loop_ok (im_header x) bs e \<Longrightarrow> inverted_entry_ok (im_bitmap_data x) e" for e
    using b by (auto simp: inverted_loop_ok_def inverted_entry_ok_def bitmap_in_def)
  then show ?thesis
    using l [unfolded inverted_parse_loop_Ok_iff [OF assms(2)]]
    by (auto simp: inverted_wf_def list_all_iff)
qed

lemma inverted_parse_serialize:
  assumes "inverted_wf x" "imh_reserved (im_header x) = 0" "length (im_entries x) < 2 ^ 32"
    "36 + length (im_entries x) * 32 + length (im_bitmap_data x) < usize_limit"
  shows "\<exists>h. inverted_parse crc (inverted_serialize crc x) = Ok (x\<lparr>im_header := h\<rparr>)"
proof -
  let ?n = "length (im_entries x)"
  define h where "h = (im_header x)\<lparr>imh_entry_count := of_nat ?n, imh_entries_offset := 36,
    imh_bitmap_data_offset := of_nat (36 + ?n * 32)\<rparr>"
  let ?s = "inverted_serialize crc x"
  let ?e = "concat (map inverted_entry_serialize (im_entries x))"
  have s: "?s = inverted_header_serialize crc h @ ?e @ im_bitmap_data x"
    by (simp add: inverted_serialize_def h_def INVERTED_MORSEL_INDEX_HEADER_LEN_def INVERTED_MORSEL_ENTRY_LEN_def)
  have lh: "length (inverted_header_serialize crc h) = 36" by (simp add: inverted_header_serialize_eq)
  have le: "length ?e = ?n * 32" using inverted_entry.array_length [of "im_entries x"] by simp
  have n: "unat (of_nat ?n :: u32) = ?n" using assms(3) by (intro unat_of_nat_less) simp
  have u: "unat (of_nat k :: u64) = k" if "k < usize_limit" for k
    using that by (intro unat_of_nat_less) (simp add: usize_limit_def)
  define h' where "h' = h\<lparr>imh_checksum := crc (inverted_header_prefix h @ replicate 4 0)\<rparr>"
  have hf: "imh_entry_count h' = of_nat ?n" "imh_entries_offset h' = 36" "imh_bitmap_data_offset h' = of_nat (36 + ?n * 32)"
    by (simp_all add: h'_def h_def)
  have p: "inverted_header_parse crc ?s = Ok h'"
    unfolding s h'_def by (rule inverted_header_parse_serialize) (simp add: h_def assms(2))
  have m: "checked_mul (unat (imh_entry_count h')) INVERTED_MORSEL_ENTRY_LEN = Some (?n * 32)"
    using assms(4) by (simp add: hf n INVERTED_MORSEL_ENTRY_LEN_def checked_mul_Some)
  have c: "checked_region ?s (imh_entries_offset h') (of_nat (?n * 32)) = Ok ?e"
    using u [of "?n * 32"] assms(4) lh le by (simp add: checked_region_Ok_iff hf s sub_def del: of_nat_mult)
  have d: "unat (imh_bitmap_data_offset h') = 36 + ?n * 32"
    unfolding hf using assms(4) by (intro u) simp
  have ch: "chunks_exact INVERTED_MORSEL_ENTRY_LEN ?e = map inverted_entry_serialize (im_entries x)"
    unfolding INVERTED_MORSEL_ENTRY_LEN_def by (rule chunks_exact_concat) (simp_all add: inverted_entry.enc_length)
  have ls: "length ?s < usize_limit" using lh le assms(4) by (simp add: s)
  have t: "try_map inverted_entry_parse (map inverted_entry_serialize (im_entries x)) = Ok (map (\<lambda>e. e) (im_entries x))"
    unfolding try_map_map by (rule try_map_Ok) (simp add: inverted_entry.dec_enc_exact)
  have ok: "inverted_loop_ok h' ?s e" if "e \<in> set (im_entries x)" for e
    using assms(1) that lh le d
    by (auto simp: inverted_wf_def list_all_iff inverted_entry_ok_def inverted_loop_ok_def bitmap_in_def s)
  have loop: "inverted_parse_loop h' ?s None (chunks_exact INVERTED_MORSEL_ENTRY_LEN ?e) = Ok (im_entries x)"
    unfolding inverted_parse_loop_Ok_iff [OF ls] ch
    using t ok assms(1) by (simp add: inverted_wf_def list_all_iff)
  have b: "slice_from ?s (36 + ?n * 32) = (Ok (im_bitmap_data x) :: bytes res)"
    using lh le by (simp add: slice_from_Ok s)
  have "inverted_parse crc ?s = Ok (x\<lparr>im_header := h'\<rparr>)"
    unfolding inverted_parse_def p and_then_simps m ok_or_simps c loop d
    using b lh le by (simp add: s)
  then show ?thesis by blast
qed

text \<open>The lookup of a key's entry, as \<^verbatim>\<open>pruning.rs\<close> performs it.\<close>

definition inverted_present :: "inverted_morsel_index \<Rightarrow> u64 \<Rightarrow> bool" where
  "inverted_present x key \<longleftrightarrow> binary_search_by_key ie_key (im_entries x) key \<noteq> None"

interpretation inverted: exact_membership inverted_present "\<lambda>x k. k \<in> ie_key ` set (im_entries x)" inverted_wf
proof
  fix x k assume "inverted_wf x"
  then have f: "inverted_present x k \<longleftrightarrow> k \<in> ie_key ` set (im_entries x)"
    unfolding inverted_present_def inverted_wf_def by (intro binary_search_found) simp
  then show "k \<in> ie_key ` set (im_entries x) \<Longrightarrow> inverted_present x k"
    "inverted_present x k \<Longrightarrow> k \<in> ie_key ` set (im_entries x)" by simp_all
qed

end
