(* ===== verification/Lookup.thy ===== *)
theory Lookup
  imports Index_Common
begin

text \<open>
  The lookup index (\<^verbatim>\<open>index/lookup.rs\<close>): point access from a key to its row references.
  Header, the parser, binary search, and the serializer.
\<close>

section \<open>Header\<close>

definition LOOKUP_INDEX_HEADER_LEN :: nat where
  "LOOKUP_INDEX_HEADER_LEN = 56"

datatype lookup_key_kind = LKK_FileCode | LKK_NumCode | LKK_CanonicalHash | LKK_FixedBytes

primrec as_lookup_key_kind :: "lookup_key_kind \<Rightarrow> u8" where
  "as_lookup_key_kind LKK_FileCode = 0"
| "as_lookup_key_kind LKK_NumCode = 1"
| "as_lookup_key_kind LKK_CanonicalHash = 2"
| "as_lookup_key_kind LKK_FixedBytes = 3"

definition lookup_key_kind_from :: "u8 \<Rightarrow> lookup_key_kind option" where
  "lookup_key_kind_from v =
     (if v = 0 then Some LKK_FileCode
      else if v = 1 then Some LKK_NumCode
      else if v = 2 then Some LKK_CanonicalHash
      else if v = 3 then Some LKK_FixedBytes
      else None)"

lemma lookup_key_kind_from_iff [simp]: "lookup_key_kind_from v = Some k \<longleftrightarrow> v = as_lookup_key_kind k"
  by (cases k) (auto simp: lookup_key_kind_from_def)

lemma lookup_key_kind_from_as [simp]: "lookup_key_kind_from (as_lookup_key_kind k) = Some k"
  by simp

datatype lookup_index_kind = LIK_Hash | LIK_SparseSorted | LIK_MinimalPerfectHash

primrec as_lookup_index_kind :: "lookup_index_kind \<Rightarrow> u8" where
  "as_lookup_index_kind LIK_Hash = 0"
| "as_lookup_index_kind LIK_SparseSorted = 1"
| "as_lookup_index_kind LIK_MinimalPerfectHash = 2"

definition lookup_index_kind_from :: "u8 \<Rightarrow> lookup_index_kind option" where
  "lookup_index_kind_from v =
     (if v = 0 then Some LIK_Hash
      else if v = 1 then Some LIK_SparseSorted
      else if v = 2 then Some LIK_MinimalPerfectHash
      else None)"

lemma lookup_index_kind_from_iff [simp]: "lookup_index_kind_from v = Some k \<longleftrightarrow> v = as_lookup_index_kind k"
  by (cases k) (auto simp: lookup_index_kind_from_def)

lemma lookup_index_kind_from_as [simp]: "lookup_index_kind_from (as_lookup_index_kind k) = Some k"
  by simp

datatype lookup_uniqueness = LU_Unknown | LU_Unique | LU_NonUnique

primrec as_lookup_uniqueness :: "lookup_uniqueness \<Rightarrow> u8" where
  "as_lookup_uniqueness LU_Unknown = 0"
| "as_lookup_uniqueness LU_Unique = 1"
| "as_lookup_uniqueness LU_NonUnique = 2"

definition lookup_uniqueness_from :: "u8 \<Rightarrow> lookup_uniqueness option" where
  "lookup_uniqueness_from v =
     (if v = 0 then Some LU_Unknown
      else if v = 1 then Some LU_Unique
      else if v = 2 then Some LU_NonUnique
      else None)"

lemma lookup_uniqueness_from_iff [simp]: "lookup_uniqueness_from v = Some k \<longleftrightarrow> v = as_lookup_uniqueness k"
  by (cases k) (auto simp: lookup_uniqueness_from_def)

lemma lookup_uniqueness_from_as [simp]: "lookup_uniqueness_from (as_lookup_uniqueness k) = Some k"
  by simp

record lookup_header =
  lih_table_id :: u32
  lih_column_id :: u32
  lih_key_kind :: lookup_key_kind
  lih_index_kind :: lookup_index_kind
  lih_uniqueness :: lookup_uniqueness
  lih_flags :: u8
  lih_entry_count :: u64
  lih_entries_offset :: u64
  lih_entries_length :: u64
  lih_rowref_offset :: u64
  lih_rowref_length :: u64
  lih_checksum :: u32

definition lookup_header_serialize :: "(bytes \<Rightarrow> u32) \<Rightarrow> lookup_header \<Rightarrow> bytes" where
  "lookup_header_serialize crc h =
     (let out = replicate LOOKUP_INDEX_HEADER_LEN 0;
          out = copy_at out 0 (le_bytes 4 (lih_table_id h));
          out = copy_at out 4 (le_bytes 4 (lih_column_id h));
          out = copy_at out 8 [as_lookup_key_kind (lih_key_kind h)];
          out = copy_at out 9 [as_lookup_index_kind (lih_index_kind h)];
          out = copy_at out 10 [as_lookup_uniqueness (lih_uniqueness h)];
          out = copy_at out 11 [lih_flags h];
          out = copy_at out 12 (le_bytes 8 (lih_entry_count h));
          out = copy_at out 20 (le_bytes 8 (lih_entries_offset h));
          out = copy_at out 28 (le_bytes 8 (lih_entries_length h));
          out = copy_at out 36 (le_bytes 8 (lih_rowref_offset h));
          out = copy_at out 44 (le_bytes 8 (lih_rowref_length h));
          c = crc out
      in copy_at out 52 (le_bytes 4 c))"

definition lookup_header_parse :: "(bytes \<Rightarrow> u32) \<Rightarrow> bytes \<Rightarrow> lookup_header res" where
  "lookup_header_parse crc bs =
     (if length bs < LOOKUP_INDEX_HEADER_LEN then Fail BufferTooShort
      else
        and_then (slice bs 0 LOOKUP_INDEX_HEADER_LEN) (\<lambda>bs.
        and_then (verify_checksum_field crc bs 52) (\<lambda>checksum'.
        and_then (read_u32_le_checked bs 0) (\<lambda>table_id'.
        and_then (read_u32_le_checked bs 4) (\<lambda>column_id'.
        and_then (index bs 8) (\<lambda>b. and_then (ok_or BadIndex (lookup_key_kind_from b)) (\<lambda>key_kind'.
        and_then (index bs 9) (\<lambda>b. and_then (ok_or BadIndex (lookup_index_kind_from b)) (\<lambda>index_kind'.
        and_then (index bs 10) (\<lambda>b. and_then (ok_or BadIndex (lookup_uniqueness_from b)) (\<lambda>uniqueness'.
        and_then (index bs 11) (\<lambda>flags'.
        and_then (read_u64_le_checked bs 12) (\<lambda>entry_count'.
        and_then (read_u64_le_checked bs 20) (\<lambda>entries_offset'.
        and_then (read_u64_le_checked bs 28) (\<lambda>entries_length'.
        and_then (read_u64_le_checked bs 36) (\<lambda>rowref_offset'.
        and_then (read_u64_le_checked bs 44) (\<lambda>rowref_length'.
        Ok \<lparr>lih_table_id = table_id',
          lih_column_id = column_id',
          lih_key_kind = key_kind',
          lih_index_kind = index_kind',
          lih_uniqueness = uniqueness',
          lih_flags = flags',
          lih_entry_count = entry_count',
          lih_entries_offset = entries_offset',
          lih_entries_length = entries_length',
          lih_rowref_offset = rowref_offset',
          lih_rowref_length = rowref_length',
          lih_checksum = checksum'\<rparr>)))))))))))))))))"

definition lookup_header_prefix :: "lookup_header \<Rightarrow> bytes" where
  "lookup_header_prefix h = le_bytes 4 (lih_table_id h) @
     le_bytes 4 (lih_column_id h) @
     [as_lookup_key_kind (lih_key_kind h)] @
     [as_lookup_index_kind (lih_index_kind h)] @
     [as_lookup_uniqueness (lih_uniqueness h)] @
     [lih_flags h] @
     le_bytes 8 (lih_entry_count h) @
     le_bytes 8 (lih_entries_offset h) @
     le_bytes 8 (lih_entries_length h) @
     le_bytes 8 (lih_rowref_offset h) @
     le_bytes 8 (lih_rowref_length h)"

lemma length_lookup_header_prefix [simp]: "length (lookup_header_prefix h) = 52"
  by (simp add: lookup_header_prefix_def)

lemma lookup_header_serialize_eq:
  "lookup_header_serialize crc h = lookup_header_prefix h @ le_bytes 4 (crc (lookup_header_prefix h @ replicate 4 0))"
  unfolding lookup_header_serialize_def LOOKUP_INDEX_HEADER_LEN_def lookup_header_prefix_def
  by (simp add: fill_simps del: append_assoc) (simp only: append_assoc append_Cons append_Nil)

lemma lookup_header_parse_reads:
  assumes "56 \<le> length bs"
  shows "lookup_header_parse crc bs =
    (if crc (sub bs 0 52 @ replicate 4 0) \<noteq> of_le (sub bs 52 4) then Fail ChecksumMismatch
     else
        and_then (ok_or BadIndex (lookup_key_kind_from (bs ! 8))) (\<lambda>key_kind'.
        and_then (ok_or BadIndex (lookup_index_kind_from (bs ! 9))) (\<lambda>index_kind'.
        and_then (ok_or BadIndex (lookup_uniqueness_from (bs ! 10))) (\<lambda>uniqueness'.
        Ok \<lparr>lih_table_id = of_le (sub bs 0 4),
          lih_column_id = of_le (sub bs 4 4),
          lih_key_kind = key_kind',
          lih_index_kind = index_kind',
          lih_uniqueness = uniqueness',
          lih_flags = bs ! 11,
          lih_entry_count = of_le (sub bs 12 8),
          lih_entries_offset = of_le (sub bs 20 8),
          lih_entries_length = of_le (sub bs 28 8),
          lih_rowref_offset = of_le (sub bs 36 8),
          lih_rowref_length = of_le (sub bs 44 8),
          lih_checksum = of_le (sub bs 52 4)\<rparr>))))"
proof -
  let ?b = "sub bs 0 56"
  have l: "length ?b = 56" using assms by (simp add: length_sub)
  have s: "slice bs 0 56 = (Ok ?b :: bytes res)" using assms by (simp add: slice_Ok)
  have v: "verify_checksum_field crc ?b 52 =
      (if crc (sub bs 0 52 @ replicate 4 0) \<noteq> of_le (sub bs 52 4) then Fail ChecksumMismatch else Ok (of_le (sub bs 52 4)))"
    using l verify_checksum_field_eq [of ?b 52 crc] by (simp add: sub_sub usize_limit_def)
  have r: "read_u32_le_checked ?b 0 = Ok (of_le (sub bs 0 4))"
    "read_u32_le_checked ?b 4 = Ok (of_le (sub bs 4 4))"
    "index ?b 8 = (Ok (bs ! 8) :: u8 res)"
    "index ?b 9 = (Ok (bs ! 9) :: u8 res)"
    "index ?b 10 = (Ok (bs ! 10) :: u8 res)"
    "index ?b 11 = (Ok (bs ! 11) :: u8 res)"
    "read_u64_le_checked ?b 12 = Ok (of_le (sub bs 12 8))"
    "read_u64_le_checked ?b 20 = Ok (of_le (sub bs 20 8))"
    "read_u64_le_checked ?b 28 = Ok (of_le (sub bs 28 8))"
    "read_u64_le_checked ?b 36 = Ok (of_le (sub bs 36 8))"
    "read_u64_le_checked ?b 44 = Ok (of_le (sub bs 44 8))"
    using l by (simp_all add: wire_simps usize_limit_def sub_sub index_Ok nth_sub)
  have n: "\<not> length bs < 56" using assms by simp
  show ?thesis
    unfolding lookup_header_parse_def LOOKUP_INDEX_HEADER_LEN_def if_not_P [OF n] s and_then_simps v r
    by simp
qed

lemma lookup_header_parse_serialize:
  "lookup_header_parse crc (lookup_header_serialize crc h @ rest) = Ok (h\<lparr>lih_checksum := crc (lookup_header_prefix h @ replicate 4 0)\<rparr>)"
proof -
  let ?s = "lookup_header_serialize crc h @ rest"
  have f: "sub ?s 0 52 = lookup_header_prefix h"
    "sub ?s 52 4 = le_bytes 4 (crc (lookup_header_prefix h @ replicate 4 0))"
    by (simp_all add: lookup_header_serialize_eq sub_def)
  have g: "sub ?s 0 4 = le_bytes 4 (lih_table_id h)"
    "sub ?s 4 4 = le_bytes 4 (lih_column_id h)"
    "?s ! 8 = as_lookup_key_kind (lih_key_kind h)"
    "?s ! 9 = as_lookup_index_kind (lih_index_kind h)"
    "?s ! 10 = as_lookup_uniqueness (lih_uniqueness h)"
    "?s ! 11 = lih_flags h"
    "sub ?s 12 8 = le_bytes 8 (lih_entry_count h)"
    "sub ?s 20 8 = le_bytes 8 (lih_entries_offset h)"
    "sub ?s 28 8 = le_bytes 8 (lih_entries_length h)"
    "sub ?s 36 8 = le_bytes 8 (lih_rowref_offset h)"
    "sub ?s 44 8 = le_bytes 8 (lih_rowref_length h)"
    by (simp_all add: lookup_header_serialize_eq lookup_header_prefix_def sub_def nth_append)
  have "56 \<le> length ?s" by (simp add: lookup_header_serialize_eq)
  then show ?thesis by (simp add: lookup_header_parse_reads f g)
qed

lemma no_panic_lookup_header_parse [no_panic_intros, simp]: "no_panic (lookup_header_parse crc bs)"
proof (cases "length bs < 56")
  case False
  then show ?thesis by (subst lookup_header_parse_reads) (auto intro!: no_panic_intros)
qed (simp add: lookup_header_parse_def LOOKUP_INDEX_HEADER_LEN_def)

section \<open>The index\<close>

definition LOOKUP_INDEX_ENTRY_LEN :: nat where
  "LOOKUP_INDEX_ENTRY_LEN = 16"

record lookup_entry =
  le_key :: u64
  le_rows :: "row_ref list"

record lookup_index =
  li_header :: lookup_header
  li_entries :: "lookup_entry list"

text \<open>The rows of one entry: a range of row references, counted in units of 14 bytes.\<close>

definition lookup_rows :: "bytes \<Rightarrow> nat \<Rightarrow> nat \<Rightarrow> row_ref list res" where
  "lookup_rows rowref_bytes rowref_start rowref_count =
     and_then (ok_or ArithOverflow (checked_mul rowref_start ROW_REF_ENCODED_LEN)) (\<lambda>start.
     and_then (ok_or ArithOverflow (checked_mul rowref_count ROW_REF_ENCODED_LEN)) (\<lambda>len.
     and_then (ok_or ArithOverflow (checked_add start len)) (\<lambda>end'.
     if length rowref_bytes < end' then Fail BadIndex
     else
       and_then (slice rowref_bytes start end') (\<lambda>rows.
       try_map row_ref_decode (chunks_exact ROW_REF_ENCODED_LEN rows)))))"

fun lookup_parse_loop :: "bytes \<Rightarrow> u64 option \<Rightarrow> bytes list \<Rightarrow> lookup_entry list res" where
  "lookup_parse_loop rowref_bytes previous_key [] = Ok []"
| "lookup_parse_loop rowref_bytes previous_key (chunk # chunks) =
     and_then (read_u64_le_checked chunk 0) (\<lambda>key.
     if (case previous_key of Some previous \<Rightarrow> key \<le> previous | None \<Rightarrow> False) then Fail BadIndex
     else
       and_then (read_u32_le_checked chunk 8) (\<lambda>rowref_start.
       and_then (read_u32_le_checked chunk 12) (\<lambda>rowref_count.
       and_then (lookup_rows rowref_bytes (unat rowref_start) (unat rowref_count)) (\<lambda>rows.
       map_ok (\<lambda>entries. \<lparr>le_key = key, le_rows = rows\<rparr> # entries)
         (lookup_parse_loop rowref_bytes (Some key) chunks)))))"

definition lookup_parse :: "(bytes \<Rightarrow> u32) \<Rightarrow> bytes \<Rightarrow> lookup_index res" where
  "lookup_parse crc bs =
     and_then (lookup_header_parse crc bs) (\<lambda>header.
     and_then (checked_region bs (lih_entries_offset header) (lih_entries_length header)) (\<lambda>entries_bytes.
     and_then (checked_region bs (lih_rowref_offset header) (lih_rowref_length header)) (\<lambda>rowref_bytes.
     and_then (ok_or ArithOverflow (checked_mul (unat (lih_entry_count header)) LOOKUP_INDEX_ENTRY_LEN)) (\<lambda>expected_entries_len.
     if unat (lih_entries_length header) \<noteq> expected_entries_len \<or> length rowref_bytes mod ROW_REF_ENCODED_LEN \<noteq> 0
     then Fail BadIndex
     else
       and_then (lookup_parse_loop rowref_bytes None (chunks_exact LOOKUP_INDEX_ENTRY_LEN entries_bytes)) (\<lambda>entries.
       Ok \<lparr>li_header = header, li_entries = entries\<rparr>)))))"

definition rows_for :: "lookup_index \<Rightarrow> u64 \<Rightarrow> row_ref list option" where
  "rows_for x key =
     map_option (\<lambda>i. le_rows (li_entries x ! i)) (binary_search_by_key le_key (li_entries x) key)"

text \<open>
  The loop of \<^verbatim>\<open>serialize\<close>: the entry bytes and the row-reference bytes it appends, from
  the running \<^verbatim>\<open>rowref_start\<close>.
\<close>

fun lookup_serialize_loop :: "u32 \<Rightarrow> lookup_entry list \<Rightarrow> (bytes \<times> bytes) res" where
  "lookup_serialize_loop rowref_start [] = Ok ([], [])"
| "lookup_serialize_loop rowref_start (entry # entries) =
     and_then (if length (le_rows entry) < 2 ^ 32 then Ok (of_nat (length (le_rows entry)) :: u32)
               else Fail ArithOverflow) (\<lambda>row_count.
     and_then (ok_or ArithOverflow (checked_add_word rowref_start row_count)) (\<lambda>rowref_start'.
     map_ok (\<lambda>(entry_bytes, rowref_bytes).
         (le_bytes 8 (le_key entry) @ le_bytes 4 rowref_start @ le_bytes 4 row_count @ entry_bytes,
          concat (map row_ref_encode (le_rows entry)) @ rowref_bytes))
       (lookup_serialize_loop rowref_start' entries)))"

definition lookup_serialize :: "(bytes \<Rightarrow> u32) \<Rightarrow> lookup_index \<Rightarrow> bytes res" where
  "lookup_serialize crc x =
     and_then (ok_or ArithOverflow (checked_mul (length (li_entries x)) LOOKUP_INDEX_ENTRY_LEN)) (\<lambda>_.
     and_then (lookup_serialize_loop 0 (li_entries x)) (\<lambda>(entry_bytes, rowref_bytes).
     let header = (li_header x)\<lparr>lih_entry_count := of_nat (length (li_entries x)),
           lih_entries_offset := of_nat LOOKUP_INDEX_HEADER_LEN\<rparr> in
     and_then (if length entry_bytes < 2 ^ 64 then Ok (of_nat (length entry_bytes) :: u64) else Fail ArithOverflow) (\<lambda>el.
     and_then (ok_or ArithOverflow (checked_add_word (of_nat LOOKUP_INDEX_HEADER_LEN) el)) (\<lambda>ro.
     and_then (if length rowref_bytes < 2 ^ 64 then Ok (of_nat (length rowref_bytes) :: u64) else Fail ArithOverflow) (\<lambda>rl.
     let header = header\<lparr>lih_entries_length := el, lih_rowref_offset := ro, lih_rowref_length := rl\<rparr> in
     Ok (lookup_header_serialize crc header @ entry_bytes @ rowref_bytes))))))"

section \<open>Lemmas\<close>

lemma no_panic_lookup_rows [no_panic_intros, simp]: "no_panic (lookup_rows rb s c)"
proof (cases "checked_mul s ROW_REF_ENCODED_LEN"; cases "checked_mul c ROW_REF_ENCODED_LEN")
  fix a b assume "checked_mul s ROW_REF_ENCODED_LEN = Some a" "checked_mul c ROW_REF_ENCODED_LEN = Some b"
  then show ?thesis
    by (auto simp: lookup_rows_def slice_def checked_add_def intro!: no_panic_intros)
qed (auto simp: lookup_rows_def intro!: no_panic_intros)

lemma no_panic_lookup_parse_loop [no_panic_intros, simp]: "no_panic (lookup_parse_loop rb prev cs)"
  by (induction rb prev cs rule: lookup_parse_loop.induct) (auto intro!: no_panic_intros)

lemma no_panic_lookup_parse [no_panic_intros, simp]: "no_panic (lookup_parse crc bs)"
  by (auto simp: lookup_parse_def intro!: no_panic_intros)

lemma length_row_ref_encode: "length (row_ref_encode r) = 14"
  by (simp add: row_ref_encode_eq)

lemma lookup_rows_encoded:
  assumes "rb = pre @ concat (map row_ref_encode rows) @ post" "length pre = s * 14" "length rb < usize_limit"
  shows "lookup_rows rb s (length rows) = Ok rows"
proof -
  let ?e = "concat (map row_ref_encode rows)"
  have l: "length ?e = 14 * length rows" by (rule length_concat_fixed) (simp add: length_row_ref_encode)
  have b: "s * 14 + length rows * 14 \<le> length rb" using assms(1,2) l by simp
  then have m: "checked_mul s 14 = Some (s * 14)" "checked_mul (length rows) 14 = Some (length rows * 14)"
    "checked_add (s * 14) (length rows * 14) = Some (s * 14 + length rows * 14)"
    using assms(3) by (auto simp: checked_mul_eq_Some_iff checked_add_eq_Some_iff)
  have r: "sub rb (s * 14) (length rows * 14) = ?e" using assms(1,2) l by (simp add: sub_def)
  have c: "chunks_exact 14 ?e = map row_ref_encode rows"
    by (rule chunks_exact_concat) (simp_all add: length_row_ref_encode)
  have t: "try_map row_ref_decode (map row_ref_encode rows) = Ok (map (\<lambda>r. r) rows)"
    unfolding try_map_map by (rule try_map_Ok) (simp add: row_ref.dec_enc_exact)
  show ?thesis
    unfolding lookup_rows_def ROW_REF_ENCODED_LEN_def m ok_or_simps and_then_simps
    using b r c t by (simp add: slice_Ok)
qed

lemma lookup_serialize_loop_lengths:
  "lookup_serialize_loop s es = Ok (eb, rb) \<Longrightarrow> length eb = 16 * length es \<and> 14 dvd length rb"
proof (induction es arbitrary: s eb rb)
  case (Cons e es)
  have l: "14 dvd length (concat (map row_ref_encode (le_rows e)))"
    using length_concat_fixed [of "le_rows e" row_ref_encode 14] by (simp add: length_row_ref_encode)
  from Cons.prems obtain s' eb' rb' where "lookup_serialize_loop s' es = Ok (eb', rb')"
    "length eb = 16 + length eb'" "rb = concat (map row_ref_encode (le_rows e)) @ rb'"
    by (auto simp: ok_iffs)
  then show ?case using Cons.IH l by auto
qed simp

lemma lookup_loop_roundtrip:
  "lookup_serialize_loop s es = Ok (eb, rb') \<Longrightarrow> rb = pre @ rb' \<Longrightarrow> length pre = unat s * 14 \<Longrightarrow> length rb < usize_limit \<Longrightarrow>
   sorted_wrt (<) (case prev of None \<Rightarrow> map le_key es | Some p \<Rightarrow> p # map le_key es) \<Longrightarrow>
   lookup_parse_loop rb prev (chunks_exact 16 eb) = Ok es"
proof (induction es arbitrary: s eb rb' pre prev)
  case Nil
  then show ?case by (simp add: chunks_exact_def)
next
  case (Cons e es)
  let ?n = "of_nat (length (le_rows e)) :: u32"
  let ?r = "concat (map row_ref_encode (le_rows e))"
  from Cons.prems(1) obtain s' eb' rb'' where s: "length (le_rows e) < 2 ^ 32"
    "checked_add_word s ?n = Some s'" "lookup_serialize_loop s' es = Ok (eb', rb'')"
    and eb: "eb = le_bytes 8 (le_key e) @ le_bytes 4 s @ le_bytes 4 ?n @ eb'" and rb': "rb' = ?r @ rb''"
    by (auto simp: ok_iffs)
  let ?c = "le_bytes 8 (le_key e) @ le_bytes 4 s @ le_bytes 4 ?n"
  have n: "unat ?n = length (le_rows e)" by (rule unat_of_nat_less) (use s(1) in simp)
  have s': "unat s' = unat s + length (le_rows e)"
    using s(2) n by (auto simp: checked_add_word_eq_Some_iff unat_word_ariths)
  have l: "length ?r = 14 * length (le_rows e)" by (rule length_concat_fixed) (simp add: length_row_ref_encode)
  have "chunks_exact 16 (?c @ eb') = ?c # chunks_exact 16 eb'"
    by (rule chunks_exact_Cons) simp_all
  then have ce: "chunks_exact 16 eb = ?c # chunks_exact 16 eb'" by (simp add: eb)
  have rd: "read_u64_le_checked ?c 0 = Ok (le_key e)" "read_u32_le_checked ?c 8 = Ok s" "read_u32_le_checked ?c 12 = Ok ?n"
    by (simp_all add: wire_simps usize_limit_def sub_def)
  have rows: "lookup_rows rb (unat s) (unat ?n) = Ok (le_rows e)"
    unfolding n by (rule lookup_rows_encoded [of _ pre _ rb'']) (use Cons.prems(2-4) rb' in auto)
  have ih: "lookup_parse_loop rb (Some (le_key e)) (chunks_exact 16 eb') = Ok es"
    by (rule Cons.IH [OF s(3), of "pre @ ?r"]) (use Cons.prems(2-5) rb' l s' in \<open>auto split: option.splits\<close>)
  have ord: "\<not> (case prev of Some previous \<Rightarrow> le_key e \<le> previous | None \<Rightarrow> False)"
    using Cons.prems(5) by (auto split: option.splits)
  show ?case
    unfolding ce lookup_parse_loop.simps rd and_then_simps if_not_P [OF ord] rows ih by simp
qed

text \<open>The index as an abstract map from keys to row references.\<close>

definition lookup_map :: "lookup_index \<Rightarrow> u64 \<Rightarrow> row_ref list option" where
  "lookup_map x = map_of (map (\<lambda>e. (le_key e, le_rows e)) (li_entries x))"

lemma rows_for_lookup_map:
  assumes "sorted_wrt (<) (map le_key (li_entries x))"
  shows "rows_for x key = lookup_map x key"
proof (cases "binary_search_by_key le_key (li_entries x) key")
  case None
  then have "key \<notin> le_key ` set (li_entries x)" using binary_search_found [OF assms, of key] by simp
  then have "lookup_map x key = None" by (auto simp: lookup_map_def map_of_eq_None_iff)
  with None show ?thesis by (simp add: rows_for_def)
next
  case (Some i)
  then have i: "i < length (li_entries x)" "le_key (li_entries x ! i) = key"
    using binary_search_iff [OF assms] by auto
  have d: "distinct (map fst (map (\<lambda>e. (le_key e, le_rows e)) (li_entries x)))"
    using assms by (simp add: strict_sorted_iff comp_def)
  have "(key, le_rows (li_entries x ! i)) \<in> set (map (\<lambda>e. (le_key e, le_rows e)) (li_entries x))"
    using i by (auto intro!: image_eqI [of _ _ "li_entries x ! i"])
  then have "lookup_map x key = Some (le_rows (li_entries x ! i))"
    unfolding lookup_map_def by (rule map_of_is_SomeI [OF d])
  with Some show ?thesis by (simp add: rows_for_def)
qed

lemma lookup_parse_loop_sorted:
  "lookup_parse_loop rb prev cs = Ok es \<Longrightarrow>
   sorted_wrt (<) (case prev of None \<Rightarrow> map le_key es | Some p \<Rightarrow> p # map le_key es)"
proof (induction cs arbitrary: prev es)
  case Nil
  then show ?case by (auto split: option.splits)
next
  case (Cons c cs)
  from Cons.prems obtain key rows es' where k: "\<not> (case prev of Some previous \<Rightarrow> key \<le> previous | None \<Rightarrow> False)"
    "lookup_parse_loop rb (Some key) cs = Ok es'" "es = \<lparr>le_key = key, le_rows = rows\<rparr> # es'"
    by (auto simp: ok_iffs)
  have "sorted_wrt (<) (key # map le_key es')" using Cons.IH [OF k(2)] by simp
  with k(1,3) show ?case by (auto split: option.splits intro: less_trans)
qed

lemma lookup_parse_sorted:
  "lookup_parse crc bs = Ok x \<Longrightarrow> sorted_wrt (<) (map le_key (li_entries x))"
  by (auto simp: lookup_parse_def ok_iffs dest!: lookup_parse_loop_sorted)

lemma lookup_parse_serialize:
  assumes "lookup_serialize crc x = Ok bs" "sorted_wrt (<) (map le_key (li_entries x))" "length bs < usize_limit"
  shows "\<exists>h. lookup_parse crc bs = Ok (x\<lparr>li_header := h\<rparr>)"
proof -
  let ?n = "length (li_entries x)"
  note q = assms(1) [unfolded lookup_serialize_def Let_def]
  from q obtain eb rb where ser: "lookup_serialize_loop 0 (li_entries x) = Ok (eb, rb)"
    by (auto simp: ok_iffs split: prod.splits)
  note len = lookup_serialize_loop_lengths [OF ser]
  define h where "h = (li_header x)\<lparr>lih_entry_count := of_nat ?n, lih_entries_offset := 56,
     lih_entries_length := of_nat (length eb), lih_rowref_offset := 56 + of_nat (length eb), lih_rowref_length := of_nat (length rb)\<rparr>"
  have bs: "bs = lookup_header_serialize crc h @ eb @ rb"
    using q ser by (auto simp: ok_iffs h_def LOOKUP_INDEX_HEADER_LEN_def checked_add_word_eq_Some_iff)
  have lh: "length (lookup_header_serialize crc h) = 56" by (simp add: lookup_header_serialize_eq)
  have u: "unat (of_nat k :: u64) = k" if "k < usize_limit" for k
    using that by (intro unat_of_nat_less) (simp add: usize_limit_def)
  have lb: "56 + length eb + length rb < usize_limit" using assms(3) lh by (simp add: bs)
  define h' where "h' = h\<lparr>lih_checksum := crc (lookup_header_prefix h @ replicate 4 0)\<rparr>"
  have hf: "lih_entry_count h' = of_nat ?n" "lih_entries_offset h' = 56" "lih_entries_length h' = of_nat (length eb)"
    "lih_rowref_offset h' = of_nat (56 + length eb)" "lih_rowref_length h' = of_nat (length rb)"
    by (simp_all add: h'_def h_def)
  have uf: "unat (lih_entry_count h') = ?n" "unat (lih_entries_length h') = length eb"
    "unat (lih_rowref_offset h') = 56 + length eb" "unat (lih_rowref_length h') = length rb" "unat (lih_entries_offset h') = 56"
    unfolding hf using lb len by (intro u; simp)+ simp
  have p: "lookup_header_parse crc bs = Ok h'" unfolding bs h'_def by (rule lookup_header_parse_serialize)
  have c: "checked_region bs (lih_entries_offset h') (lih_entries_length h') = Ok eb"
    "checked_region bs (lih_rowref_offset h') (lih_rowref_length h') = Ok rb"
    using lb lh by (simp_all add: checked_region_Ok_iff uf bs sub_def)
  have m: "checked_mul (unat (lih_entry_count h')) LOOKUP_INDEX_ENTRY_LEN = Some (?n * 16)"
    using lb len by (simp add: uf LOOKUP_INDEX_ENTRY_LEN_def checked_mul_Some)
  have loop: "lookup_parse_loop rb None (chunks_exact LOOKUP_INDEX_ENTRY_LEN eb) = Ok (li_entries x)"
    unfolding LOOKUP_INDEX_ENTRY_LEN_def
    by (rule lookup_loop_roundtrip [OF ser, of _ "[]"]) (use lb assms(2) in simp_all)
  have "lookup_parse crc bs = Ok (x\<lparr>li_header := h'\<rparr>)"
    unfolding lookup_parse_def p and_then_simps c m ok_or_simps
    using len by (simp add: uf loop ROW_REF_ENCODED_LEN_def)
  then show ?thesis by blast
qed

text \<open>A lookup index is an exact membership of its keys.\<close>

interpretation lookup: exact_membership "\<lambda>x k. rows_for x k \<noteq> None" "\<lambda>x k. lookup_map x k \<noteq> None"
    "\<lambda>x. sorted_wrt (<) (map le_key (li_entries x))"
  by unfold_locales (simp_all add: rows_for_lookup_map)

section \<open>Properties\<close>

text \<open>
  A lookup index that serialises is read back with its entries, and point lookup
  by binary search is lookup in the abstract map from keys to row references, on the
  index read back and on every index the parser accepts.
\<close>

theorem lookup_index_roundtrip:
  assumes "lookup_serialize crc x = Ok bs" "sorted_wrt (<) (map le_key (li_entries x))" "length bs < usize_limit"
  shows "\<exists>y. lookup_parse crc bs = Ok y \<and> li_entries y = li_entries x \<and> (\<forall>key. rows_for y key = lookup_map x key)"
proof -
  obtain h where p: "lookup_parse crc bs = Ok (x\<lparr>li_header := h\<rparr>)" using lookup_parse_serialize [OF assms] by blast
  have "rows_for (x\<lparr>li_header := h\<rparr>) key = lookup_map x key" for key
    using rows_for_lookup_map [of "x\<lparr>li_header := h\<rparr>" key] assms(2) by (simp add: lookup_map_def)
  with p show ?thesis by simp
qed

definition lookup_example :: lookup_index where
  "lookup_example = \<lparr>li_header = \<lparr>lih_table_id = 1, lih_column_id = 2, lih_key_kind = LKK_FileCode,
     lih_index_kind = LIK_SparseSorted, lih_uniqueness = LU_NonUnique, lih_flags = 0, lih_entry_count = 0,
     lih_entries_offset = 0, lih_entries_length = 0, lih_rowref_offset = 0, lih_rowref_length = 0, lih_checksum = 0\<rparr>,
     li_entries = [\<lparr>le_key = 2, le_rows = [\<lparr>table_id = 1, segment_id = 0, morsel_id = 0, row_in_morsel = 1\<rparr>]\<rparr>,
       \<lparr>le_key = 5, le_rows = []\<rparr>]\<rparr>"

lemma lookup_index_roundtrip_witness:
  "\<exists>bs y. lookup_serialize (\<lambda>_. 7) lookup_example = Ok bs \<and> lookup_parse (\<lambda>_. 7) bs = Ok y \<and>
     rows_for y 5 = Some [] \<and> rows_for y 3 = None"
proof -
  have "\<exists>bs. lookup_serialize (\<lambda>_. 7) lookup_example = Ok bs \<and> length bs = 102"
    by (simp add: lookup_serialize_def lookup_example_def LOOKUP_INDEX_ENTRY_LEN_def LOOKUP_INDEX_HEADER_LEN_def
        checked_mul_def checked_add_word_def usize_limit_def lookup_header_serialize_eq row_ref_encode_eq Let_def)
  then obtain bs where s: "lookup_serialize (\<lambda>_. 7) lookup_example = Ok bs" and l: "length bs < usize_limit"
    by (auto simp: usize_limit_def)
  have o: "sorted_wrt (<) (map le_key (li_entries lookup_example))" by (simp add: lookup_example_def)
  show ?thesis using lookup_index_roundtrip [OF s o l] s by (auto simp: lookup_map_def lookup_example_def)
qed

end
