(* ===== verification/Predicate_Outcome.thy ===== *)
theory Predicate_Outcome
  imports Cove_Prelude
begin

text \<open>
  The outcome of a predicate on a zone and its combinators (\<^verbatim>\<open>predicate.rs\<close>), with
  what an outcome claims: a row's predicate is true, false or unknown (SQL), and a
  \<^verbatim>\<open>WHERE\<close> clause keeps the rows where it is true.
\<close>

section \<open>Outcomes\<close>

datatype zone_outcome = AllMatch | NoMatch | SomeMatch | Unknown

definition is_proven_no_match :: "zone_outcome \<Rightarrow> bool" where
  "is_proven_no_match z \<longleftrightarrow> z = NoMatch"

definition is_proven_all_match :: "zone_outcome \<Rightarrow> bool" where
  "is_proven_all_match z \<longleftrightarrow> z = AllMatch"

fun outcome_and :: "zone_outcome \<Rightarrow> zone_outcome \<Rightarrow> zone_outcome" where
  "outcome_and NoMatch _ = NoMatch"
| "outcome_and _ NoMatch = NoMatch"
| "outcome_and AllMatch x = x"
| "outcome_and x AllMatch = x"
| "outcome_and Unknown Unknown = Unknown"
| "outcome_and Unknown SomeMatch = SomeMatch"
| "outcome_and SomeMatch Unknown = SomeMatch"
| "outcome_and SomeMatch SomeMatch = SomeMatch"

fun outcome_or :: "zone_outcome \<Rightarrow> zone_outcome \<Rightarrow> zone_outcome" where
  "outcome_or AllMatch _ = AllMatch"
| "outcome_or _ AllMatch = AllMatch"
| "outcome_or NoMatch x = x"
| "outcome_or x NoMatch = x"
| "outcome_or Unknown Unknown = Unknown"
| "outcome_or Unknown SomeMatch = SomeMatch"
| "outcome_or SomeMatch Unknown = SomeMatch"
| "outcome_or SomeMatch SomeMatch = SomeMatch"

primrec negate :: "zone_outcome \<Rightarrow> zone_outcome" where
  "negate AllMatch = NoMatch"
| "negate NoMatch = AllMatch"
| "negate SomeMatch = SomeMatch"
| "negate Unknown = Unknown"

definition outcome_not :: "zone_outcome \<Rightarrow> zone_outcome" where
  "outcome_not z = negate z"

section \<open>Three-valued predicates\<close>

text \<open>\<open>None\<close> is SQL's UNKNOWN.\<close>

type_synonym truth = "bool option"

fun and3 :: "truth \<Rightarrow> truth \<Rightarrow> truth" where
  "and3 (Some False) _ = Some False"
| "and3 _ (Some False) = Some False"
| "and3 (Some True) x = x"
| "and3 x (Some True) = x"
| "and3 None None = None"

fun or3 :: "truth \<Rightarrow> truth \<Rightarrow> truth" where
  "or3 (Some True) _ = Some True"
| "or3 _ (Some True) = Some True"
| "or3 (Some False) x = x"
| "or3 x (Some False) = x"
| "or3 None None = None"

definition not3 :: "truth \<Rightarrow> truth" where
  "not3 x = map_option Not x"

lemma and3_True_iff: "and3 x y = Some True \<longleftrightarrow> x = Some True \<and> y = Some True"
  by (cases "(x, y)" rule: and3.cases) auto

lemma or3_True_iff: "or3 x y = Some True \<longleftrightarrow> x = Some True \<or> y = Some True"
  by (cases "(x, y)" rule: or3.cases) auto

lemma not3_True_iff: "not3 x = Some True \<longleftrightarrow> x = Some False"
  by (cases x) (auto simp: not3_def)

section \<open>What an outcome claims\<close>

text \<open>
  \<open>sound rows t z\<close>: on a zone of \<open>rows\<close> where the predicate has truth
  \<open>t\<close>, a proven outcome is right. \<open>SomeMatch\<close> and \<open>Unknown\<close>
  claim nothing that skips work.
\<close>

definition sound :: "'r set \<Rightarrow> ('r \<Rightarrow> truth) \<Rightarrow> zone_outcome \<Rightarrow> bool" where
  "sound rows t z \<longleftrightarrow>
     (z = NoMatch \<longrightarrow> (\<forall>r \<in> rows. t r \<noteq> Some True)) \<and>
     (z = AllMatch \<longrightarrow> (\<forall>r \<in> rows. t r = Some True))"

lemma sound_undecided [simp]: "sound rows t SomeMatch" "sound rows t Unknown"
  by (simp_all add: sound_def)

lemma sound_NoMatch [simp]: "sound rows t NoMatch \<longleftrightarrow> (\<forall>r \<in> rows. t r \<noteq> Some True)"
  by (simp add: sound_def)

lemma sound_AllMatch [simp]: "sound rows t AllMatch \<longleftrightarrow> (\<forall>r \<in> rows. t r = Some True)"
  by (simp add: sound_def)

lemma sound_and: "sound rows s y \<Longrightarrow> sound rows t z \<Longrightarrow> sound rows (\<lambda>r. and3 (s r) (t r)) (outcome_and y z)"
  by (cases "(y, z)" rule: outcome_and.cases) (auto simp: and3_True_iff sound_def)

lemma sound_or: "sound rows s y \<Longrightarrow> sound rows t z \<Longrightarrow> sound rows (\<lambda>r. or3 (s r) (t r)) (outcome_or y z)"
  by (cases "(y, z)" rule: outcome_or.cases) (auto simp: or3_True_iff sound_def)

lemma sound_negate:
  assumes "\<And>r. r \<in> rows \<Longrightarrow> t r \<noteq> None" "sound rows t z"
  shows "sound rows (\<lambda>r. not3 (t r)) (negate z)"
proof -
  have "t r = Some False" if "r \<in> rows" "t r \<noteq> Some True" for r
    using assms(1) [OF that(1)] that(2) by auto
  then show ?thesis using assms(2) by (cases z) (auto simp: not3_True_iff)
qed

lemma sound_subset: "sound rows t z \<Longrightarrow> rows' \<subseteq> rows \<Longrightarrow> sound rows' t z"
  by (auto simp: sound_def)

lemma outcome_decided:
  "outcome_and y z = NoMatch \<longleftrightarrow> y = NoMatch \<or> z = NoMatch" "outcome_and y z = AllMatch \<longleftrightarrow> y = AllMatch \<and> z = AllMatch"
  "outcome_or y z = AllMatch \<longleftrightarrow> y = AllMatch \<or> z = AllMatch" "outcome_or y z = NoMatch \<longleftrightarrow> y = NoMatch \<and> z = NoMatch"
  by ((cases y; cases z; simp)+)

lemma sound_outcome_not:
  assumes "sound rows t z"
  shows "sound rows (\<lambda>r. not3 (t r)) (outcome_not z) \<longleftrightarrow> \<not> (z = NoMatch \<and> (\<exists>r \<in> rows. t r = None))"
proof (cases z)
  case NoMatch
  have "not3 (t r) = Some True \<longleftrightarrow> t r \<noteq> None" if "r \<in> rows" for r
    using assms that NoMatch by (cases "t r") (auto simp: not3_def)
  then show ?thesis using NoMatch by (auto simp: outcome_not_def)
qed (use assms in \<open>auto simp: outcome_not_def not3_def\<close>)

section \<open>Properties\<close>

text \<open>
  C35: The combinators on any zone, for predicates under SQL's three truth values whose outcomes are
  sound. The outcomes of AND and OR are sound; they prove \<open>NoMatch\<close> and \<open>AllMatch\<close> whenever one
  operand, or both, settle it, and only then. The outcome of NOT is sound exactly when no row makes the
  predicate UNKNOWN or the outcome was not \<open>NoMatch\<close>: a proven \<open>NoMatch\<close> becomes \<open>AllMatch\<close>, which is
  wrong on a zone where a row is UNKNOWN.
\<close>

theorem outcomes_combine_soundly:
  assumes "sound rows s y" "sound rows t z"
  shows "sound rows (\<lambda>r. and3 (s r) (t r)) (outcome_and y z) \<and> sound rows (\<lambda>r. or3 (s r) (t r)) (outcome_or y z) \<and>
    (is_proven_no_match (outcome_and y z) \<longleftrightarrow> is_proven_no_match y \<or> is_proven_no_match z) \<and>
    (is_proven_all_match (outcome_and y z) \<longleftrightarrow> is_proven_all_match y \<and> is_proven_all_match z) \<and>
    (is_proven_no_match (outcome_or y z) \<longleftrightarrow> is_proven_no_match y \<and> is_proven_no_match z) \<and>
    (is_proven_all_match (outcome_or y z) \<longleftrightarrow> is_proven_all_match y \<or> is_proven_all_match z) \<and>
    (is_proven_no_match (outcome_not z) \<longleftrightarrow> is_proven_all_match z) \<and>
    (sound rows (\<lambda>r. not3 (t r)) (outcome_not z) \<longleftrightarrow> \<not> (is_proven_no_match z \<and> (\<exists>r \<in> rows. t r = None)))"
proof -
  have "is_proven_no_match (outcome_not z) \<longleftrightarrow> is_proven_all_match z"
    by (cases z) (simp_all add: is_proven_no_match_def is_proven_all_match_def outcome_not_def)
  then show ?thesis
    using sound_and [OF assms] sound_or [OF assms] sound_outcome_not [OF assms(2)]
    by (simp add: is_proven_no_match_def is_proven_all_match_def outcome_decided)
qed

text \<open>Rows 1, 2 and NULL: \<open>x = 5\<close> is proven \<open>NoMatch\<close>, and its negation is wrongly proven \<open>AllMatch\<close>.\<close>

theorem outcomes_combine_soundly_witness:
  "sound {Some (1 :: nat), Some 2, None} (\<lambda>r. and3 (map_option (\<lambda>x. x = 5) r) (map_option (\<lambda>x. x = 1) r)) NoMatch \<and>
   sound {Some (1 :: nat), Some 2, None} (\<lambda>r. or3 (map_option (\<lambda>x. x = 1) r) (map_option (\<lambda>x. x = 5) r)) SomeMatch \<and>
   \<not> sound {Some (1 :: nat), Some 2, None} (\<lambda>r. not3 (map_option (\<lambda>x. x = 5) r)) AllMatch"
proof -
  have a: "sound {Some (1 :: nat), Some 2, None} (\<lambda>r. map_option (\<lambda>x. x = 1) r) SomeMatch"
    and b: "sound {Some (1 :: nat), Some 2, None} (\<lambda>r. map_option (\<lambda>x. x = 5) r) NoMatch" by simp_all
  note ab = outcomes_combine_soundly [OF b a] and ba = outcomes_combine_soundly [OF a b]
  have "sound {Some (1 :: nat), Some 2, None} (\<lambda>r. and3 (map_option (\<lambda>x. x = 5) r) (map_option (\<lambda>x. x = 1) r)) NoMatch"
    using ab [THEN conjunct1] by simp
  moreover have "sound {Some (1 :: nat), Some 2, None} (\<lambda>r. or3 (map_option (\<lambda>x. x = 1) r) (map_option (\<lambda>x. x = 5) r)) SomeMatch"
    using ba [THEN conjunct2, THEN conjunct1] by simp
  moreover have "\<not> sound {Some (1 :: nat), Some 2, None} (\<lambda>r. not3 (map_option (\<lambda>x. x = 5) r)) (outcome_not NoMatch)"
    using ba by (simp add: is_proven_no_match_def)
  ultimately show ?thesis by (simp add: outcome_not_def)
qed

end
