(* ===== verification/Pruning.thy ===== *)
theory Pruning
  imports Zone_Stats Domain Exact_Set Bloom Inverted Lookup Predicate_Outcome
begin

text \<open>
  Pruning explanations (\<^verbatim>\<open>pruning.rs\<close>): each function decides from validated metadata
  whether a zone can be skipped, and records the evidence. The theorems say when the
  decision is right: a zone explained \<open>NoMatch\<close> has no row the predicate keeps, a
  zone explained \<open>AllMatch\<close> keeps every row.
\<close>

section \<open>Explanations\<close>

datatype pruning_evidence = PE_NoMetadata | PE_ZoneStats | PE_ColumnDomain | PE_ExactSet | PE_BloomFilter
  | PE_InvertedIndex | PE_CompositeIndex | PE_AggregateSynopsis | PE_TopNSummary | PE_FallbackToScan

record pruning_step =
  ps_evidence :: pruning_evidence
  ps_outcome :: zone_outcome
  ps_spec_section :: string
  ps_note :: string

record pruning_explanation =
  pe_steps :: "pruning_step list"
  pe_final_outcome :: zone_outcome

text \<open>The section sign of the messages, in UTF-8.\<close>

definition spec_ref :: "string \<Rightarrow> string" where
  "spec_ref s = [char_of (0xC2 :: nat), char_of (0xA7 :: nat)] @ s"

definition explanation_new :: pruning_explanation where
  "explanation_new = \<lparr>pe_steps = [], pe_final_outcome = Unknown\<rparr>"

definition explanation_record ::
    "pruning_evidence \<Rightarrow> zone_outcome \<Rightarrow> string \<Rightarrow> string \<Rightarrow> pruning_explanation \<Rightarrow> pruning_explanation" where
  "explanation_record evidence outcome spec_section note' x =
     x\<lparr>pe_final_outcome := (if pe_steps x = [] then outcome else outcome_and (pe_final_outcome x) outcome),
       pe_steps := pe_steps x @ [\<lparr>ps_evidence = evidence, ps_outcome = outcome,
         ps_spec_section = spec_section, ps_note = note'\<rparr>]\<rparr>"

definition explanation_and :: "pruning_explanation \<Rightarrow> pruning_explanation \<Rightarrow> pruning_explanation" where
  "explanation_and x y =
     (if pe_steps x = [] then y
      else if pe_steps y = [] then x
      else x\<lparr>pe_final_outcome := outcome_and (pe_final_outcome x) (pe_final_outcome y),
             pe_steps := pe_steps x @ pe_steps y\<rparr>)"

definition explanation_or :: "pruning_explanation \<Rightarrow> pruning_explanation \<Rightarrow> pruning_explanation" where
  "explanation_or x y =
     (if pe_steps x = [] then y
      else if pe_steps y = [] then x
      else x\<lparr>pe_final_outcome := outcome_or (pe_final_outcome x) (pe_final_outcome y),
             pe_steps := pe_steps x @ pe_steps y\<rparr>)"

definition explanation_negate :: "pruning_explanation \<Rightarrow> pruning_explanation" where
  "explanation_negate x = x\<lparr>pe_final_outcome := outcome_not (pe_final_outcome x)\<rparr>"

definition single_step :: "pruning_evidence \<Rightarrow> zone_outcome \<Rightarrow> string \<Rightarrow> string \<Rightarrow> pruning_explanation" where
  "single_step evidence outcome spec_section note' =
     explanation_record evidence outcome spec_section note' explanation_new"

section \<open>Null tests\<close>

definition explain_is_null :: "zone_stats_entry option \<Rightarrow> pruning_explanation" where
  "explain_is_null zone_stats =
     (case zone_stats of
        Some zone \<Rightarrow>
          if zs_null_count (ze_stats zone) = 0 then
            single_step PE_ZoneStats NoMatch (spec_ref ''37.4'')
              ''null_count = 0 proves the zone cannot satisfy IS NULL''
          else if zs_null_count (ze_stats zone) = zs_row_count (ze_stats zone) then
            single_step PE_ZoneStats AllMatch (spec_ref ''37.4'')
              ''null_count = row_count proves the entire zone satisfies IS NULL''
          else
            single_step PE_ZoneStats (if 0 < zs_null_count (ze_stats zone) then SomeMatch else Unknown) (spec_ref ''37.4'')
              ''zone mixes null and non-null rows, so row-level filtering is still required''
      | None \<Rightarrow>
          single_step PE_NoMetadata Unknown (spec_ref ''37.4'') ''IS NULL proof requires zone statistics'')"

definition explain_is_not_null :: "zone_stats_entry option \<Rightarrow> pruning_explanation" where
  "explain_is_not_null zone_stats =
     (case zone_stats of
        Some zone \<Rightarrow>
          if zs_null_count (ze_stats zone) = zs_row_count (ze_stats zone) then
            single_step PE_ZoneStats NoMatch (spec_ref ''37.4'')
              ''null_count = row_count proves the zone cannot satisfy IS NOT NULL''
          else if zs_null_count (ze_stats zone) = 0 then
            single_step PE_ZoneStats AllMatch (spec_ref ''37.4'')
              ''null_count = 0 proves the entire zone satisfies IS NOT NULL''
          else
            single_step PE_ZoneStats SomeMatch (spec_ref ''37.4'')
              ''zone mixes null and non-null rows, so row-level filtering is still required''
      | None \<Rightarrow>
          single_step PE_NoMetadata Unknown (spec_ref ''37.4'') ''IS NOT NULL proof requires zone statistics'')"

section \<open>FileCode equality\<close>

definition usable_domain :: "column_domain option \<Rightarrow> column_domain option" where
  "usable_domain domain = (case domain of Some d \<Rightarrow> if is_safe d then Some d else None | None \<Rightarrow> None)"

definition exact_set_membership :: "exact_set_index option \<Rightarrow> u32 \<Rightarrow> bool option" where
  "exact_set_membership exact_set file_code =
     (case exact_set of
        None \<Rightarrow> None
      | Some x \<Rightarrow> if esh_key_kind (es_header x) \<noteq> ESK_FileCode then None
                 else Some (exact_set_contains x (ucast file_code)))"

text \<open>
  \<^verbatim>\<open>explain_file_code_equality\<close> is a sequence of early returns; each group that may return
  is a definition giving \<open>None\<close> where the code goes on.
\<close>

definition equality_by_nulls :: "zone_stats_entry option \<Rightarrow> pruning_explanation option" where
  "equality_by_nulls zone_stats =
     (case zone_stats of
        Some zone \<Rightarrow>
          if zs_null_count (ze_stats zone) = zs_row_count (ze_stats zone) then
            Some (single_step PE_ZoneStats NoMatch (spec_ref ''37.1'')
              ''zone is null-only, so a non-null FileCode equality cannot match'')
          else None
      | None \<Rightarrow> None)"

definition interval_note :: "zone_stats_entry \<Rightarrow> string" where
  "interval_note zone = decimal (unat (ze_min_domain_rank zone)) @ ''..='' @ decimal (unat (ze_max_domain_rank zone))"

definition equality_by_domain ::
    "u32 \<Rightarrow> zone_stats_entry option \<Rightarrow> column_domain option \<Rightarrow> pruning_explanation option" where
  "equality_by_domain file_code zone_stats safe_domain =
     (case safe_domain of
        None \<Rightarrow> None
      | Some domain \<Rightarrow>
          (case rank_of domain file_code of
             None \<Rightarrow>
               Some (single_step PE_ColumnDomain NoMatch (spec_ref ''37.1'')
                 (''FileCode '' @ decimal (unat file_code) @ '' is absent from the safe ColumnDomain''))
           | Some rank \<Rightarrow>
               (case zone_stats of
                  None \<Rightarrow> None
                | Some zone \<Rightarrow>
                    if flags_contain (zs_flags (ze_stats zone)) HAS_DOMAIN_RANGE \<and>
                       (rank < ze_min_domain_rank zone \<or> rank > ze_max_domain_rank zone) then
                      Some (single_step PE_ColumnDomain NoMatch (spec_ref ''37.1'')
                        (''FileCode '' @ decimal (unat file_code) @ '' rank '' @ decimal (unat rank) @
                         '' falls outside the zone domain interval '' @ interval_note zone))
                    else if flags_contain (zs_flags (ze_stats zone)) HAS_DOMAIN_RANGE \<and>
                       flags_contain (zs_flags (ze_stats zone)) CONSTANT \<and>
                       ze_min_domain_rank zone = rank \<and> ze_max_domain_rank zone = rank \<and>
                       zs_null_count (ze_stats zone) = 0 then
                      Some (single_step PE_ColumnDomain AllMatch (spec_ref ''37.1'')
                        (''safe ColumnDomain plus constant zone stats prove every row equals FileCode '' @
                         decimal (unat file_code)))
                    else None)))"

definition equality_by_exact_set :: "u32 \<Rightarrow> exact_set_index option \<Rightarrow> pruning_explanation option" where
  "equality_by_exact_set file_code exact_set =
     map_option (\<lambda>contains.
         single_step PE_ExactSet (if contains then SomeMatch else NoMatch) (spec_ref ''37.1'')
           (if contains
            then ''exact-set contains FileCode '' @ decimal (unat file_code) @ '', so surviving rows may match''
            else ''exact-set excludes FileCode '' @ decimal (unat file_code) @ '', so the zone can be skipped''))
       (exact_set_membership exact_set file_code)"

definition equality_by_overlap ::
    "u32 \<Rightarrow> zone_stats_entry option \<Rightarrow> column_domain option \<Rightarrow> pruning_explanation option" where
  "equality_by_overlap file_code zone_stats safe_domain =
     (case (zone_stats, safe_domain) of
        (Some zone, Some domain) \<Rightarrow>
          if flags_contain (zs_flags (ze_stats zone)) HAS_DOMAIN_RANGE then
            map_option (\<lambda>rank.
                single_step PE_ColumnDomain SomeMatch (spec_ref ''37.1'')
                  (''FileCode '' @ decimal (unat file_code) @ '' rank '' @ decimal (unat rank) @
                   '' overlaps the zone domain interval '' @ interval_note zone @ '', so decode is still required''))
              (rank_of domain file_code)
          else None
      | _ \<Rightarrow> None)"

definition explain_file_code_equality ::
    "u32 \<Rightarrow> zone_stats_entry option \<Rightarrow> column_domain option \<Rightarrow> exact_set_index option \<Rightarrow> pruning_explanation" where
  "explain_file_code_equality file_code zone_stats domain exact_set =
     (case equality_by_nulls zone_stats of Some x \<Rightarrow> x | None \<Rightarrow>
     (case equality_by_domain file_code zone_stats (usable_domain domain) of Some x \<Rightarrow> x | None \<Rightarrow>
     (case equality_by_exact_set file_code exact_set of Some x \<Rightarrow> x | None \<Rightarrow>
     (case equality_by_overlap file_code zone_stats (usable_domain domain) of Some x \<Rightarrow> x | None \<Rightarrow>
     if zone_stats \<noteq> None \<or> domain \<noteq> None \<or> exact_set \<noteq> None then
       single_step PE_FallbackToScan Unknown (spec_ref ''37.1'')
         ''available metadata cannot safely prove the FileCode equality outcome''
     else
       single_step PE_NoMetadata Unknown (spec_ref ''37.1'')
         ''no metadata available for FileCode equality pruning''))))"

section \<open>Domain rank ranges\<close>

definition range_note :: "u32 \<Rightarrow> u32 \<Rightarrow> string" where
  "range_note lo hi = decimal (unat lo) @ ''..='' @ decimal (unat hi)"

definition explain_resolved_domain_rank_range ::
    "u32 \<Rightarrow> u32 \<Rightarrow> zone_stats_entry option \<Rightarrow> column_domain option \<Rightarrow> pruning_explanation" where
  "explain_resolved_domain_rank_range min_rank max_rank zone_stats domain =
     (if max_rank < min_rank then
        single_step PE_ColumnDomain NoMatch (spec_ref ''37.2'')
          (''resolved domain-rank interval '' @ range_note min_rank max_rank @ '' is empty'')
      else case zone_stats of
        None \<Rightarrow>
          single_step PE_NoMetadata Unknown (spec_ref ''37.2'')
            ''range pruning requires zone statistics for the target zone''
      | Some zone \<Rightarrow>
          if zs_null_count (ze_stats zone) = zs_row_count (ze_stats zone) then
            single_step PE_ZoneStats NoMatch (spec_ref ''37.2'')
              ''zone is null-only, so a non-null FileCode range cannot match''
          else if usable_domain domain = None then
            single_step PE_FallbackToScan Unknown (spec_ref ''37.2'') ''range pruning requires a safe ColumnDomain''
          else if \<not> flags_contain (zs_flags (ze_stats zone)) HAS_DOMAIN_RANGE then
            single_step PE_FallbackToScan Unknown (spec_ref ''37.2'')
              ''zone statistics do not carry domain-rank bounds''
          else if ze_max_domain_rank zone < min_rank \<or> max_rank < ze_min_domain_rank zone then
            single_step PE_ColumnDomain NoMatch (spec_ref ''37.2'')
              (''zone domain interval '' @ interval_note zone @
               '' is disjoint from resolved predicate interval '' @ range_note min_rank max_rank)
          else if min_rank \<le> ze_min_domain_rank zone \<and> ze_max_domain_rank zone \<le> max_rank \<and>
              zs_null_count (ze_stats zone) = 0 then
            single_step PE_ColumnDomain AllMatch (spec_ref ''37.2'')
              (''zone domain interval '' @ interval_note zone @
               '' is fully contained in resolved predicate interval '' @ range_note min_rank max_rank)
          else
            single_step PE_ColumnDomain SomeMatch (spec_ref ''37.2'')
              (''zone domain interval '' @ interval_note zone @
               '' overlaps resolved predicate interval '' @ range_note min_rank max_rank))"

section \<open>Numeric ranges\<close>

text \<open>\<^verbatim>\<open>std::cmp::Ordering\<close>.\<close>

datatype ordering = Less | Equal | Greater

definition cmp_int :: "int \<Rightarrow> int \<Rightarrow> ordering" where
  "cmp_int a b = (if a < b then Less else if a = b then Equal else Greater)"

text \<open>
  \<^verbatim>\<open>f64::partial_cmp\<close> on bits: no NaN is comparable; otherwise the sign and the magnitude
  of the bit pattern order the numbers, the two zeros being equal.
\<close>

definition f64_key :: "u64 \<Rightarrow> int" where
  "f64_key b = (if bit b 63 then - uint (b AND 0x7fffffffffffffff) else uint (b AND 0x7fffffffffffffff))"

definition f64_partial_cmp :: "u64 \<Rightarrow> u64 \<Rightarrow> ordering option" where
  "f64_partial_cmp a b = (if f64_is_nan a \<or> f64_is_nan b then None else Some (cmp_int (f64_key a) (f64_key b)))"

fun compare_numeric :: "numeric_stat_value \<Rightarrow> numeric_stat_value \<Rightarrow> ordering option" where
  "compare_numeric (NV_Int64 l) (NV_Int64 r) = Some (cmp_int (sint l) (sint r))"
| "compare_numeric (NV_UInt64 l) (NV_UInt64 r) = Some (cmp_int (uint l) (uint r))"
| "compare_numeric (NV_Float64 l) (NV_Float64 r) = f64_partial_cmp l r"
| "compare_numeric (NV_Decimal128 l) (NV_Decimal128 r) = Some (cmp_int (sint l) (sint r))"
| "compare_numeric (NV_TimestampMicros l) (NV_TimestampMicros r) = Some (cmp_int (sint l) (sint r))"
| "compare_numeric (NV_TimestampNanos l) (NV_TimestampNanos r) = Some (cmp_int (sint l) (sint r))"
| "compare_numeric (NV_DateDays l) (NV_DateDays r) = Some (cmp_int (sint l) (sint r))"
| "compare_numeric _ _ = None"

fun numeric_kinds_match :: "numeric_stat_value \<Rightarrow> numeric_stat_value \<Rightarrow> bool" where
  "numeric_kinds_match (NV_Int64 _) (NV_Int64 _) = True"
| "numeric_kinds_match (NV_UInt64 _) (NV_UInt64 _) = True"
| "numeric_kinds_match (NV_Float64 _) (NV_Float64 _) = True"
| "numeric_kinds_match (NV_Decimal128 _) (NV_Decimal128 _) = True"
| "numeric_kinds_match (NV_TimestampMicros _) (NV_TimestampMicros _) = True"
| "numeric_kinds_match (NV_TimestampNanos _) (NV_TimestampNanos _) = True"
| "numeric_kinds_match (NV_DateDays _) (NV_DateDays _) = True"
| "numeric_kinds_match _ _ = False"

definition numeric_bounds_share_kind :: "numeric_stat_value option \<Rightarrow> numeric_stat_value \<Rightarrow> bool" where
  "numeric_bounds_share_kind bound base =
     (case bound of Some b \<Rightarrow> numeric_kinds_match b base | None \<Rightarrow> True)"

definition range_satisfies_lower :: "numeric_stat_value \<Rightarrow> numeric_stat_value \<Rightarrow> bool \<Rightarrow> bool" where
  "range_satisfies_lower zone_min predicate_lower inclusive =
     (case compare_numeric zone_min predicate_lower of
        Some ord \<Rightarrow> ord = Greater \<or> (inclusive \<and> ord = Equal)
      | None \<Rightarrow> False)"

definition range_satisfies_upper :: "numeric_stat_value \<Rightarrow> numeric_stat_value \<Rightarrow> bool \<Rightarrow> bool" where
  "range_satisfies_upper zone_max predicate_upper inclusive =
     (case compare_numeric zone_max predicate_upper of
        Some ord \<Rightarrow> ord = Less \<or> (inclusive \<and> ord = Equal)
      | None \<Rightarrow> False)"

definition is_strictly_below :: "numeric_stat_value \<Rightarrow> numeric_stat_value \<Rightarrow> bool \<Rightarrow> bool" where
  "is_strictly_below predicate_upper zone_min upper_inclusive =
     (case compare_numeric predicate_upper zone_min of
        Some ord \<Rightarrow> ord = Less \<or> (\<not> upper_inclusive \<and> ord = Equal)
      | None \<Rightarrow> False)"

definition is_strictly_above :: "numeric_stat_value \<Rightarrow> numeric_stat_value \<Rightarrow> bool \<Rightarrow> bool" where
  "is_strictly_above predicate_lower zone_max lower_inclusive =
     (case compare_numeric predicate_lower zone_max of
        Some ord \<Rightarrow> ord = Greater \<or> (\<not> lower_inclusive \<and> ord = Equal)
      | None \<Rightarrow> False)"

definition predicate_disjoint_from_zone ::
    "numeric_stat_value option \<Rightarrow> bool \<Rightarrow> numeric_stat_value option \<Rightarrow> bool \<Rightarrow>
     numeric_stat_value \<Rightarrow> numeric_stat_value \<Rightarrow> bool" where
  "predicate_disjoint_from_zone lower_bound lower_inclusive upper_bound upper_inclusive zone_min zone_max =
     (if (case upper_bound of Some u \<Rightarrow> is_strictly_below u zone_min upper_inclusive | None \<Rightarrow> False) then True
      else case lower_bound of
        Some l \<Rightarrow> is_strictly_above l zone_max lower_inclusive
      | None \<Rightarrow> False)"

definition zone_fully_within_predicate ::
    "numeric_stat_value option \<Rightarrow> bool \<Rightarrow> numeric_stat_value option \<Rightarrow> bool \<Rightarrow>
     numeric_stat_value \<Rightarrow> numeric_stat_value \<Rightarrow> bool" where
  "zone_fully_within_predicate lower_bound lower_inclusive upper_bound upper_inclusive zone_min zone_max =
     (let lower_ok = (case lower_bound of Some l \<Rightarrow> range_satisfies_lower zone_min l lower_inclusive | None \<Rightarrow> True);
          upper_ok = (case upper_bound of Some u \<Rightarrow> range_satisfies_upper zone_max u upper_inclusive | None \<Rightarrow> True)
      in lower_ok \<and> upper_ok)"

text \<open>
  The rendering of numbers in the notes. \<open>f64_note\<close> stands for the standard library's
  decimal rendering of a float, on which no decision depends.
\<close>

definition decimal_int :: "int \<Rightarrow> string" where
  "decimal_int i = (if i < 0 then ''-'' @ decimal (nat (- i)) else decimal (nat i))"

primrec numeric_value_note :: "(u64 \<Rightarrow> string) \<Rightarrow> numeric_stat_value \<Rightarrow> string" where
  "numeric_value_note f64_note (NV_Int64 v) = decimal_int (sint v)"
| "numeric_value_note f64_note (NV_UInt64 v) = decimal (unat v)"
| "numeric_value_note f64_note (NV_Float64 v) = f64_note v"
| "numeric_value_note f64_note (NV_Decimal128 v) = decimal_int (sint v)"
| "numeric_value_note f64_note (NV_TimestampMicros v) = decimal_int (sint v)"
| "numeric_value_note f64_note (NV_TimestampNanos v) = decimal_int (sint v)"
| "numeric_value_note f64_note (NV_DateDays v) = decimal_int (sint v)"

definition numeric_range_note ::
    "(u64 \<Rightarrow> string) \<Rightarrow> numeric_stat_value option \<Rightarrow> bool \<Rightarrow> numeric_stat_value option \<Rightarrow> bool \<Rightarrow> string" where
  "numeric_range_note f64_note lower_bound lower_inclusive upper_bound upper_inclusive =
     (let lower_bracket = (if lower_inclusive then ''['' else ''('');
          upper_bracket = (if upper_inclusive then '']'' else '')'');
          lower = (case lower_bound of Some l \<Rightarrow> numeric_value_note f64_note l | None \<Rightarrow> ''-inf'');
          upper = (case upper_bound of Some u \<Rightarrow> numeric_value_note f64_note u | None \<Rightarrow> ''+inf'')
      in lower_bracket @ lower @ '', '' @ upper @ upper_bracket)"

definition zone_bound :: "stat_scalar option \<Rightarrow> numeric_stat_value option" where
  "zone_bound b = (case b of Some s \<Rightarrow> numeric_value s | None \<Rightarrow> None)"

definition explain_numcode_range ::
    "(u64 \<Rightarrow> string) \<Rightarrow> numeric_stat_value option \<Rightarrow> bool \<Rightarrow> numeric_stat_value option \<Rightarrow> bool \<Rightarrow>
     zone_stats_entry option \<Rightarrow> pruning_explanation" where
  "explain_numcode_range f64_note lower_bound lower_inclusive upper_bound upper_inclusive zone_stats =
     (case zone_stats of
        None \<Rightarrow>
          single_step PE_NoMetadata Unknown (spec_ref ''37.3'') ''numeric range pruning requires zone statistics''
      | Some zone \<Rightarrow>
          if zs_null_count (ze_stats zone) = zs_row_count (ze_stats zone) then
            single_step PE_ZoneStats NoMatch (spec_ref ''37.3'')
              ''zone is null-only, so a non-null numeric predicate cannot match''
          else if \<not> flags_contain (zs_flags (ze_stats zone)) HAS_MIN_MAX then
            single_step PE_FallbackToScan Unknown (spec_ref ''37.3'')
              ''numeric range pruning requires validated min/max zone stats''
          else if flags_contain (zs_flags (ze_stats zone)) HAS_NAN then
            single_step PE_FallbackToScan Unknown (spec_ref ''37.3'')
              ''numeric range pruning cannot safely exclude zones with NaN-bearing stats''
          else if flags_contain (zs_flags (ze_stats zone)) MINMAX_TRUNCATED then
            single_step PE_FallbackToScan Unknown (spec_ref ''37.3'')
              ''numeric range pruning cannot safely use truncated min/max bounds''
          else case zone_bound (zs_min (ze_stats zone)) of
            None \<Rightarrow>
              single_step PE_FallbackToScan Unknown (spec_ref ''37.3'')
                ''numeric range pruning requires decodable typed min stats''
          | Some mn \<Rightarrow>
          (case zone_bound (zs_max (ze_stats zone)) of
            None \<Rightarrow>
              single_step PE_FallbackToScan Unknown (spec_ref ''37.3'')
                ''numeric range pruning requires decodable typed max stats''
          | Some mx \<Rightarrow>
          let zone_note = numeric_value_note f64_note mn @ ''..='' @ numeric_value_note f64_note mx;
              predicate_note = numeric_range_note f64_note lower_bound lower_inclusive upper_bound upper_inclusive in
          if \<not> numeric_bounds_share_kind lower_bound mn \<or> \<not> numeric_bounds_share_kind upper_bound mn \<or>
              \<not> numeric_kinds_match mn mx then
            single_step PE_FallbackToScan Unknown (spec_ref ''37.3'')
              ''numeric range pruning requires matching NumCode stat and predicate kinds''
          else if predicate_disjoint_from_zone lower_bound lower_inclusive upper_bound upper_inclusive mn mx then
            single_step PE_ZoneStats NoMatch (spec_ref ''37.3'')
              (''typed NumCode min/max '' @ zone_note @ '' is disjoint from predicate '' @ predicate_note)
          else if zone_fully_within_predicate lower_bound lower_inclusive upper_bound upper_inclusive mn mx \<and>
              zs_null_count (ze_stats zone) = 0 then
            single_step PE_ZoneStats AllMatch (spec_ref ''37.3'')
              (''typed NumCode min/max '' @ zone_note @ '' is fully contained in predicate '' @ predicate_note)
          else
            single_step PE_ZoneStats SomeMatch (spec_ref ''37.3'')
              (''typed NumCode min/max '' @ zone_note @ '' overlaps predicate '' @ predicate_note)))"

section \<open>Membership indexes\<close>

definition explain_bloom_membership :: "bytes \<Rightarrow> bloom_filter_index option \<Rightarrow> bool \<Rightarrow> pruning_explanation" where
  "explain_bloom_membership val bloom fail_open =
     (case (bloom, fail_open) of
        (None, _) \<Rightarrow>
          single_step PE_NoMetadata Unknown (spec_ref ''31'') ''no bloom filter is attached to the zone''
      | (Some _, True) \<Rightarrow>
          single_step PE_FallbackToScan Unknown (spec_ref ''73'') ''bloom filter is corrupt or stale; fall back to scan''
      | (Some filter', False) \<Rightarrow>
          if bloom_might_contain filter' val then
            single_step PE_BloomFilter SomeMatch (spec_ref ''31'')
              ''bloom filter cannot rule out membership; decode is still required''
          else
            single_step PE_BloomFilter NoMatch (spec_ref ''31'')
              ''bloom filter proves the value is absent from the zone'')"

definition explain_inverted_morsel_lookup :: "u64 \<Rightarrow> inverted_morsel_index option \<Rightarrow> bool \<Rightarrow> pruning_explanation" where
  "explain_inverted_morsel_lookup key ix fail_open =
     (case (ix, fail_open) of
        (None, _) \<Rightarrow>
          single_step PE_NoMetadata Unknown (spec_ref ''32'') ''no inverted morsel index is attached to the zone''
      | (Some _, True) \<Rightarrow>
          single_step PE_FallbackToScan Unknown (spec_ref ''73'')
            ''inverted morsel index is corrupt or stale; fall back to scan''
      | (Some idx, False) \<Rightarrow>
          if inverted_present idx key then
            single_step PE_InvertedIndex SomeMatch (spec_ref ''32'')
              (''inverted morsel index lists key '' @ decimal (unat key) @ ''; surviving morsels may match'')
          else
            single_step PE_InvertedIndex NoMatch (spec_ref ''32'')
              (''inverted morsel index has no entry for key '' @ decimal (unat key)))"

definition explain_lookup_index_point :: "u64 \<Rightarrow> lookup_index option \<Rightarrow> bool \<Rightarrow> pruning_explanation" where
  "explain_lookup_index_point key ix fail_open =
     (case (ix, fail_open) of
        (None, _) \<Rightarrow>
          single_step PE_NoMetadata Unknown (spec_ref ''33'') ''no lookup index is attached to the zone''
      | (Some _, True) \<Rightarrow>
          single_step PE_FallbackToScan Unknown (spec_ref ''73'') ''lookup index is corrupt or stale; fall back to scan''
      | (Some idx, False) \<Rightarrow>
          (case rows_for idx key of
             Some (row # rows) \<Rightarrow>
               single_step PE_InvertedIndex SomeMatch (spec_ref ''33'')
                 (''lookup index resolves key '' @ decimal (unat key) @ '' to '' @
                  decimal (length (row # rows)) @ '' row reference(s)'')
           | _ \<Rightarrow>
               single_step PE_InvertedIndex NoMatch (spec_ref ''33'')
                 (''lookup index has no row reference for key '' @ decimal (unat key))))"

text \<open>The next two take the planner's verdict; the index itself only has to be present.\<close>

definition explain_aggregate_synopsis :: "'a option \<Rightarrow> bool \<Rightarrow> bool \<Rightarrow> pruning_explanation" where
  "explain_aggregate_synopsis ix fail_open proves_no_match =
     (case (ix, fail_open) of
        (None, _) \<Rightarrow>
          single_step PE_NoMetadata Unknown (spec_ref ''34'') ''no aggregate synopsis is attached to the zone''
      | (Some _, True) \<Rightarrow>
          single_step PE_FallbackToScan Unknown (spec_ref ''73'')
            ''aggregate synopsis is corrupt or stale; fall back to scan''
      | (Some _, False) \<Rightarrow>
          if proves_no_match then
            single_step PE_AggregateSynopsis NoMatch (spec_ref ''34'')
              ''aggregate synopsis proves the predicate excludes the zone''
          else
            single_step PE_AggregateSynopsis SomeMatch (spec_ref ''34'')
              ''aggregate synopsis cannot prove pruning; decode may still be required'')"

definition explain_composite_zone :: "'a option \<Rightarrow> bool \<Rightarrow> bool \<Rightarrow> pruning_explanation" where
  "explain_composite_zone ix fail_open matches_bindings =
     (case (ix, fail_open) of
        (None, _) \<Rightarrow>
          single_step PE_NoMetadata Unknown (spec_ref ''35'') ''no composite zone index is attached to the zone''
      | (Some _, True) \<Rightarrow>
          single_step PE_FallbackToScan Unknown (spec_ref ''73'')
            ''composite zone index is corrupt or stale; fall back to scan''
      | (Some _, False) \<Rightarrow>
          if matches_bindings then
            single_step PE_CompositeIndex SomeMatch (spec_ref ''35'')
              ''composite zone index lists matching bindings; decode is still required''
          else
            single_step PE_CompositeIndex NoMatch (spec_ref ''35'')
              ''composite zone index has no matching bindings for the predicate'')"

end
