(* ===== verification/Pruning_Sound.thy ===== *)
theory Pruning_Sound
  imports Pruning
begin

text \<open>
  When the explanations of \<open>Pruning\<close> are right. A zone is the list of its rows in one
  column, \<open>None\<close> being NULL. What the writer promises of the metadata (the counts, the
  rank interval, the bounds, the keys of an index) is a premise; the conclusion is that
  a proven outcome is true of the rows, in the sense of \<open>sound\<close>.
\<close>

section \<open>What the metadata promises\<close>

definition counts_rows :: "zone_stats_entry \<Rightarrow> 'v option list \<Rightarrow> bool" where
  "counts_rows z rows \<longleftrightarrow>
     unat (zs_row_count (ze_stats z)) = length rows \<and>
     unat (zs_null_count (ze_stats z)) = length (filter (\<lambda>r. r = None) rows)"

definition domain_covers :: "column_domain \<Rightarrow> u32 option list \<Rightarrow> bool" where
  "domain_covers d rows \<longleftrightarrow> (\<forall>c. Some c \<in> set rows \<longrightarrow> rank_of d c \<noteq> None)"

definition ranks_in_zone :: "column_domain \<Rightarrow> zone_stats_entry \<Rightarrow> u32 option list \<Rightarrow> bool" where
  "ranks_in_zone d z rows \<longleftrightarrow>
     (flags_contain (zs_flags (ze_stats z)) HAS_DOMAIN_RANGE \<longrightarrow>
       (\<forall>c. Some c \<in> set rows \<longrightarrow>
         (\<exists>r. rank_of d c = Some r \<and> ze_min_domain_rank z \<le> r \<and> r \<le> ze_max_domain_rank z)))"

definition equality_evidence ::
    "u32 option list \<Rightarrow> zone_stats_entry option \<Rightarrow> column_domain option \<Rightarrow> exact_set_index option \<Rightarrow> bool" where
  "equality_evidence rows zs cd es \<longleftrightarrow>
     (\<forall>z. zs = Some z \<longrightarrow> counts_rows z rows) \<and>
     (\<forall>d. cd = Some d \<longrightarrow> domain_covers d rows) \<and>
     (\<forall>z d. zs = Some z \<longrightarrow> cd = Some d \<longrightarrow> ranks_in_zone d z rows) \<and>
     (\<forall>x. es = Some x \<longrightarrow> exact_set_ok x \<and> (\<forall>c. Some c \<in> set rows \<longrightarrow> ucast c \<in> set (es_keys x)))"

text \<open>Tests on a row: NULL is UNKNOWN to all of them except the null tests.\<close>

definition equals_truth :: "'v \<Rightarrow> 'v option \<Rightarrow> truth" where
  "equals_truth v r = map_option (\<lambda>c. c = v) r"

definition rank_range_truth :: "column_domain \<Rightarrow> u32 \<Rightarrow> u32 \<Rightarrow> u32 option \<Rightarrow> truth" where
  "rank_range_truth d lo hi r =
     map_option (\<lambda>c. case rank_of d c of Some k \<Rightarrow> lo \<le> k \<and> k \<le> hi | None \<Rightarrow> False) r"

lemma equals_truth_True [simp]: "equals_truth v r = Some True \<longleftrightarrow> r = Some v"
  by (cases r) (auto simp: equals_truth_def)

lemma single_step_outcome [simp]: "pe_final_outcome (single_step e oc s n) = oc"
  by (simp add: single_step_def explanation_record_def explanation_new_def)

lemma null_only_rows:
  assumes "counts_rows z rows" "zs_null_count (ze_stats z) = zs_row_count (ze_stats z)" "r \<in> set rows"
  shows "r = None"
proof (rule ccontr)
  assume "r \<noteq> None"
  then have "length (filter (\<lambda>r. r = None) rows) < length rows" using assms(3) by (intro length_filter_less) auto
  then show False using assms(1,2) by (simp add: counts_rows_def)
qed

lemma no_null_rows:
  assumes "counts_rows z rows" "zs_null_count (ze_stats z) = 0" "r \<in> set rows"
  shows "r \<noteq> None"
proof -
  have "filter (\<lambda>r. r = None) rows = []" using assms(1,2) by (simp add: counts_rows_def)
  then show ?thesis using assms(3) by (auto simp: filter_empty_conv)
qed

context membership
begin

lemma prune_sound:
  assumes "ok x" "\<And>c. Some c \<in> set rows \<Longrightarrow> holds x (f c)"
  shows "sound (set rows) (equals_truth v) (if query x (f v) then SomeMatch else NoMatch)"
  using assms absent [of x "f v"] by (auto simp: sound_def)

end

section \<open>FileCode equality\<close>

lemma equality_by_nulls_sound:
  "\<forall>z. zs = Some z \<longrightarrow> counts_rows z rows \<Longrightarrow> equality_by_nulls zs = Some x \<Longrightarrow>
   sound (set rows) (equals_truth c) (pe_final_outcome x)"
  by (auto simp: equality_by_nulls_def dest: null_only_rows split: option.splits if_splits)

lemma equality_by_domain_sound:
  assumes "is_safe d" "domain_covers d rows"
    "\<forall>z. zs = Some z \<longrightarrow> counts_rows z rows \<and> ranks_in_zone d z rows"
    "equality_by_domain c zs (Some d) = Some x"
  shows "sound (set rows) (equals_truth c) (pe_final_outcome x)"
proof (cases "rank_of d c")
  case None
  then show ?thesis using assms by (auto simp: equality_by_domain_def domain_covers_def)
next
  case (Some r)
  then obtain z where z: "zs = Some z" using assms(4) by (auto simp: equality_by_domain_def split: option.splits)
  have R: "\<exists>k. rank_of d c' = Some k \<and> ze_min_domain_rank z \<le> k \<and> k \<le> ze_max_domain_rank z"
    if "Some c' \<in> set rows" "flags_contain (zs_flags (ze_stats z)) HAS_DOMAIN_RANGE" for c'
    using assms(3) z that by (auto simp: ranks_in_zone_def)
  show ?thesis
  proof (cases "flags_contain (zs_flags (ze_stats z)) HAS_DOMAIN_RANGE \<and> (r < ze_min_domain_rank z \<or> r > ze_max_domain_rank z)")
    case True
    have "Some c \<notin> set rows" using R [of c] True Some by auto
    then show ?thesis using assms(4) Some z True by (auto simp: equality_by_domain_def)
  next
    case False
    then have a: "flags_contain (zs_flags (ze_stats z)) HAS_DOMAIN_RANGE" "ze_min_domain_rank z = r" "ze_max_domain_rank z = r"
      "zs_null_count (ze_stats z) = 0" and x: "pe_final_outcome x = AllMatch"
      using assms(4) Some z by (auto simp: equality_by_domain_def split: if_splits)
    have "q = Some c" if q: "q \<in> set rows" for q
    proof -
      from no_null_rows [OF _ a(4) q] assms(3) z obtain c' where c': "q = Some c'" by auto
      then have "rank_of d c' = Some r" using R [of c'] a q by auto
      then show ?thesis using safe_rank_position(2) [OF assms(1)] Some c' by metis
    qed
    then show ?thesis by (simp add: x)
  qed
qed

lemma equality_by_exact_set_sound:
  assumes "es = Some i \<Longrightarrow> exact_set_ok i \<and> (\<forall>c. Some c \<in> set rows \<longrightarrow> ucast c \<in> set (es_keys i))"
    "equality_by_exact_set c es = Some x" "es = Some i"
  shows "sound (set rows) (equals_truth c) (pe_final_outcome x)"
proof -
  have "sound (set rows) (equals_truth c) (if exact_set_contains i (ucast c) then SomeMatch else NoMatch)"
    using assms(1) [OF assms(3)] by (intro exact_set.prune_sound) auto
  then show ?thesis
    using assms(2,3) by (auto simp: equality_by_exact_set_def exact_set_membership_def split: if_splits)
qed

lemma equality_by_overlap_sound:
  "equality_by_overlap c zs cd = Some x \<Longrightarrow> sound (set rows) (equals_truth c) (pe_final_outcome x)"
  by (auto simp: equality_by_overlap_def split: option.splits if_splits)

lemma usable_domain_Some: "usable_domain cd = Some d \<longleftrightarrow> cd = Some d \<and> is_safe d"
  by (auto simp: usable_domain_def split: option.splits)

section \<open>Numeric comparison\<close>

primrec nv_tag :: "numeric_stat_value \<Rightarrow> nat" where
  "nv_tag (NV_Int64 _) = 0"
| "nv_tag (NV_UInt64 _) = 1"
| "nv_tag (NV_Float64 _) = 2"
| "nv_tag (NV_Decimal128 _) = 3"
| "nv_tag (NV_TimestampMicros _) = 4"
| "nv_tag (NV_TimestampNanos _) = 5"
| "nv_tag (NV_DateDays _) = 6"

primrec nv_key :: "numeric_stat_value \<Rightarrow> int" where
  "nv_key (NV_Int64 v) = sint v"
| "nv_key (NV_UInt64 v) = uint v"
| "nv_key (NV_Float64 v) = f64_key v"
| "nv_key (NV_Decimal128 v) = sint v"
| "nv_key (NV_TimestampMicros v) = sint v"
| "nv_key (NV_TimestampNanos v) = sint v"
| "nv_key (NV_DateDays v) = sint v"

definition nv_ordered :: "numeric_stat_value \<Rightarrow> bool" where
  "nv_ordered v \<longleftrightarrow> (case v of NV_Float64 b \<Rightarrow> \<not> f64_is_nan b | _ \<Rightarrow> True)"

lemma compare_numeric_eq:
  "compare_numeric a b =
     (if nv_tag a = nv_tag b \<and> nv_ordered a \<and> nv_ordered b then Some (cmp_int (nv_key a) (nv_key b)) else None)"
  by (cases a; cases b) (simp_all add: nv_ordered_def f64_partial_cmp_def)

lemma cmp_int_iffs [simp]:
  "cmp_int a b = Less \<longleftrightarrow> a < b" "cmp_int a b = Equal \<longleftrightarrow> a = b" "cmp_int a b = Greater \<longleftrightarrow> b < a"
  by (auto simp: cmp_int_def)

definition numeric_truth ::
    "numeric_stat_value option \<Rightarrow> bool \<Rightarrow> numeric_stat_value option \<Rightarrow> bool \<Rightarrow> numeric_stat_value option \<Rightarrow> truth" where
  "numeric_truth lo li hi ui r =
     map_option (\<lambda>v.
       (case lo of None \<Rightarrow> True
        | Some l \<Rightarrow> compare_numeric v l = Some Greater \<or> (li \<and> compare_numeric v l = Some Equal)) \<and>
       (case hi of None \<Rightarrow> True
        | Some u \<Rightarrow> compare_numeric v u = Some Less \<or> (ui \<and> compare_numeric v u = Some Equal))) r"

text \<open>The bounds of a zone enclose its values; NaN values raise \<open>HAS_NAN\<close>.\<close>

definition numeric_evidence :: "zone_stats_entry \<Rightarrow> numeric_stat_value option list \<Rightarrow> bool" where
  "numeric_evidence z rows \<longleftrightarrow> counts_rows z rows \<and>
     (flags_contain (zs_flags (ze_stats z)) HAS_MIN_MAX \<longrightarrow>
      \<not> flags_contain (zs_flags (ze_stats z)) HAS_NAN \<longrightarrow>
      \<not> flags_contain (zs_flags (ze_stats z)) MINMAX_TRUNCATED \<longrightarrow>
      (\<forall>mn mx v. zone_bound (zs_min (ze_stats z)) = Some mn \<longrightarrow> zone_bound (zs_max (ze_stats z)) = Some mx \<longrightarrow>
        Some v \<in> set rows \<longrightarrow>
        compare_numeric mn v \<in> {Some Less, Some Equal} \<and> compare_numeric v mx \<in> {Some Less, Some Equal}))"

lemma enclosed_key:
  assumes "compare_numeric mn v \<in> {Some Less, Some Equal}" "compare_numeric v mx \<in> {Some Less, Some Equal}"
  shows "nv_tag mn = nv_tag v" "nv_tag mx = nv_tag v" "nv_ordered mn" "nv_ordered v" "nv_ordered mx"
    "nv_key mn \<le> nv_key v" "nv_key v \<le> nv_key mx"
  using assms by (auto simp: compare_numeric_eq split: if_splits)

lemma disjoint_no_match:
  assumes "predicate_disjoint_from_zone lo li hi ui mn mx"
    "compare_numeric mn v \<in> {Some Less, Some Equal}" "compare_numeric v mx \<in> {Some Less, Some Equal}"
  shows "numeric_truth lo li hi ui (Some v) \<noteq> Some True"
proof -
  note k = enclosed_key [OF assms(2,3)]
  consider (upper) u where "hi = Some u" "is_strictly_below u mn ui" | (lower) l where "lo = Some l" "is_strictly_above l mx li"
    using assms(1) by (auto simp: predicate_disjoint_from_zone_def split: option.splits if_splits)
  then show ?thesis
  proof cases
    case upper
    then have "nv_key u < nv_key mn \<or> (\<not> ui \<and> nv_key u = nv_key mn)"
      by (auto simp: is_strictly_below_def compare_numeric_eq split: if_splits)
    then show ?thesis using upper(1) k by (auto simp: numeric_truth_def compare_numeric_eq split: if_splits)
  next
    case lower
    then have "nv_key mx < nv_key l \<or> (\<not> li \<and> nv_key l = nv_key mx)"
      by (auto simp: is_strictly_above_def compare_numeric_eq split: if_splits)
    then show ?thesis using lower(1) k by (auto simp: numeric_truth_def compare_numeric_eq split: if_splits)
  qed
qed

lemma lower_satisfied:
  assumes "range_satisfies_lower mn l li" "nv_tag mn = nv_tag v" "nv_ordered v" "nv_key mn \<le> nv_key v"
  shows "compare_numeric v l = Some Greater \<or> (li \<and> compare_numeric v l = Some Equal)"
  using assms by (auto simp: range_satisfies_lower_def compare_numeric_eq split: if_splits)

lemma upper_satisfied:
  assumes "range_satisfies_upper mx u ui" "nv_tag mx = nv_tag v" "nv_ordered v" "nv_key v \<le> nv_key mx"
  shows "compare_numeric v u = Some Less \<or> (ui \<and> compare_numeric v u = Some Equal)"
  using assms by (auto simp: range_satisfies_upper_def compare_numeric_eq split: if_splits)

lemma within_all_match:
  assumes "zone_fully_within_predicate lo li hi ui mn mx"
    "compare_numeric mn v \<in> {Some Less, Some Equal}" "compare_numeric v mx \<in> {Some Less, Some Equal}"
  shows "numeric_truth lo li hi ui (Some v) = Some True"
proof -
  note k = enclosed_key [OF assms(2,3)]
  have "case lo of None \<Rightarrow> True | Some l \<Rightarrow> compare_numeric v l = Some Greater \<or> (li \<and> compare_numeric v l = Some Equal)"
    using assms(1) lower_satisfied [OF _ k(1,4,6)] by (cases lo) (simp_all add: zone_fully_within_predicate_def Let_def)
  moreover have "case hi of None \<Rightarrow> True | Some u \<Rightarrow> compare_numeric v u = Some Less \<or> (ui \<and> compare_numeric v u = Some Equal)"
    using assms(1) upper_satisfied [OF _ k(2,4,7)] by (cases hi) (simp_all add: zone_fully_within_predicate_def Let_def)
  ultimately show ?thesis by (simp add: numeric_truth_def)
qed

lemma numeric_truth_None [simp]: "numeric_truth lo li hi ui None = None"
  by (simp add: numeric_truth_def)

section \<open>Properties\<close>

text \<open>
  C2: FileCode equality is decided rightly from null counts, the rank interval of a
  safe domain and an exact set in its sorted representation: a zone explained
  \<open>NoMatch\<close> has no row with the code, one explained \<open>AllMatch\<close> no other row,
  whichever of the three is present.
\<close>

theorem file_code_equality_sound:
  assumes "equality_evidence rows zs cd es"
  shows "sound (set rows) (equals_truth c) (pe_final_outcome (explain_file_code_equality c zs cd es))"
proof -
  have n: "sound (set rows) (equals_truth c) (pe_final_outcome x)" if "equality_by_nulls zs = Some x" for x
    using assms that by (intro equality_by_nulls_sound) (auto simp: equality_evidence_def)
  have d: "sound (set rows) (equals_truth c) (pe_final_outcome x)"
    if a: "equality_by_domain c zs (usable_domain cd) = Some x" for x
  proof -
    obtain d where u: "usable_domain cd = Some d" using a by (auto simp: equality_by_domain_def split: option.splits)
    then show ?thesis
      using assms a u by (intro equality_by_domain_sound [of d rows zs c x]) (auto simp: equality_evidence_def usable_domain_Some)
  qed
  have e: "sound (set rows) (equals_truth c) (pe_final_outcome x)" if a: "equality_by_exact_set c es = Some x" for x
  proof -
    obtain i where i: "es = Some i" using a
      by (auto simp: equality_by_exact_set_def exact_set_membership_def split: option.splits)
    then show ?thesis using assms a by (intro equality_by_exact_set_sound [of es i]) (auto simp: equality_evidence_def)
  qed
  note o = equality_by_overlap_sound [of c zs "usable_domain cd"]
  show ?thesis
    unfolding explain_file_code_equality_def
    by (cases "equality_by_nulls zs"; cases "equality_by_domain c zs (usable_domain cd)";
        cases "equality_by_exact_set c es"; cases "equality_by_overlap c zs (usable_domain cd)")
      (simp_all add: n d e o)
qed

text \<open>
  A range of domain ranks is decided rightly from the rank interval of the zone:
  proven outcomes are true of the rows' ranks.
\<close>

theorem domain_rank_range_sound:
  assumes "\<forall>z. zs = Some z \<longrightarrow> counts_rows z rows \<and> ranks_in_zone d z rows"
  shows "sound (set rows) (rank_range_truth d lo hi)
    (pe_final_outcome (explain_resolved_domain_rank_range lo hi zs (Some d)))"
proof (cases zs)
  case None
  then show ?thesis
    by (auto simp: explain_resolved_domain_rank_range_def rank_range_truth_def split: option.splits)
next
  case (Some z)
  note a = assms [rule_format, OF Some]
  note null = null_only_rows [OF conjunct1 [OF a]] and some = no_null_rows [OF conjunct1 [OF a]]
  have R: "\<exists>k. rank_of d c = Some k \<and> ze_min_domain_rank z \<le> k \<and> k \<le> ze_max_domain_rank z"
    if "Some c \<in> set rows" "flags_contain (zs_flags (ze_stats z)) HAS_DOMAIN_RANGE" for c
    using a that by (auto simp: ranks_in_zone_def)
  consider (empty) "hi < lo" | (nulls) "zs_null_count (ze_stats z) = zs_row_count (ze_stats z)"
    | (other) "\<not> hi < lo" "zs_null_count (ze_stats z) \<noteq> zs_row_count (ze_stats z)" by blast
  then show ?thesis
  proof cases
    case empty
    then show ?thesis
      by (auto simp: explain_resolved_domain_rank_range_def rank_range_truth_def split: option.splits)
  next
    case nulls
    have "rank_range_truth d lo hi r \<noteq> Some True" if "r \<in> set rows" for r
      using null [OF nulls that] by (simp add: rank_range_truth_def)
    with nulls show ?thesis by (simp add: explain_resolved_domain_rank_range_def Some)
  next
    case other
    have "rank_range_truth d lo hi r \<noteq> Some True"
      if "r \<in> set rows" "flags_contain (zs_flags (ze_stats z)) HAS_DOMAIN_RANGE"
        "ze_max_domain_rank z < lo \<or> hi < ze_min_domain_rank z" for r
    proof (cases r)
      case (Some c)
      then show ?thesis using R [of c] that Some by (auto simp: rank_range_truth_def)
    qed (simp add: rank_range_truth_def)
    moreover have "rank_range_truth d lo hi r = Some True"
      if "r \<in> set rows" "flags_contain (zs_flags (ze_stats z)) HAS_DOMAIN_RANGE"
        "lo \<le> ze_min_domain_rank z" "ze_max_domain_rank z \<le> hi" "zs_null_count (ze_stats z) = 0" for r
    proof -
      have "r \<noteq> None" by (rule some [OF that(5,1)])
      then show ?thesis using R [of "the r"] that by (auto simp: rank_range_truth_def)
    qed
    ultimately show ?thesis
      using other by (simp add: explain_resolved_domain_rank_range_def Some)
  qed
qed

text \<open>
  C5: A numeric range is decided rightly from the typed minimum and maximum of the
  zone, for every kind and for bounds that are open, closed or absent: NaN-bearing and
  truncated statistics are never used.
\<close>

theorem numeric_range_sound:
  assumes "\<forall>z. zs = Some z \<longrightarrow> numeric_evidence z rows"
  shows "sound (set rows) (numeric_truth lo li hi ui)
    (pe_final_outcome (explain_numcode_range f64_note lo li hi ui zs))"
proof (cases zs)
  case None
  then show ?thesis by (simp add: explain_numcode_range_def)
next
  case (Some z)
  have c: "counts_rows z rows" using assms Some by (simp add: numeric_evidence_def)
  show ?thesis
  proof (cases "zs_null_count (ze_stats z) = zs_row_count (ze_stats z) \<or>
      \<not> flags_contain (zs_flags (ze_stats z)) HAS_MIN_MAX \<or> flags_contain (zs_flags (ze_stats z)) HAS_NAN \<or>
      flags_contain (zs_flags (ze_stats z)) MINMAX_TRUNCATED \<or>
      zone_bound (zs_min (ze_stats z)) = None \<or> zone_bound (zs_max (ze_stats z)) = None")
    case True
    have "numeric_truth lo li hi ui r \<noteq> Some True"
      if "r \<in> set rows" "zs_null_count (ze_stats z) = zs_row_count (ze_stats z)" for r
      using null_only_rows [OF c that(2,1)] by simp
    with True show ?thesis by (auto simp: explain_numcode_range_def Some split: option.splits)
  next
    case False
    then obtain mn mx where b: "zone_bound (zs_min (ze_stats z)) = Some mn" "zone_bound (zs_max (ze_stats z)) = Some mx"
      by auto
    have e: "compare_numeric mn v \<in> {Some Less, Some Equal} \<and> compare_numeric v mx \<in> {Some Less, Some Equal}"
      if "Some v \<in> set rows" for v
      using assms Some False b that unfolding numeric_evidence_def by blast
    have nm: "numeric_truth lo li hi ui r \<noteq> Some True"
      if "r \<in> set rows" "predicate_disjoint_from_zone lo li hi ui mn mx" for r
    proof (cases r)
      case (Some v)
      then show ?thesis using disjoint_no_match [OF that(2), of v] e [of v] that(1) by simp
    qed simp
    have am: "numeric_truth lo li hi ui r = Some True"
      if "r \<in> set rows" "zone_fully_within_predicate lo li hi ui mn mx" "zs_null_count (ze_stats z) = 0" for r
    proof -
      have "r \<noteq> None" by (rule no_null_rows [OF c that(3,1)])
      then show ?thesis using within_all_match [OF that(2), of "the r"] e [of "the r"] that(1) by simp
    qed
    show ?thesis
      using False nm am by (simp add: explain_numcode_range_def Some b Let_def)
  qed
qed

text \<open>\<^verbatim>\<open>IS NULL\<close> and \<^verbatim>\<open>IS NOT NULL\<close> are decided rightly from exact counts.\<close>

theorem null_tests_sound:
  assumes "\<forall>z. zs = Some z \<longrightarrow> counts_rows z rows"
  shows "sound (set rows) (\<lambda>r. Some (r = None)) (pe_final_outcome (explain_is_null zs)) \<and>
    sound (set rows) (\<lambda>r. Some (r \<noteq> None)) (pe_final_outcome (explain_is_not_null zs))"
proof (cases zs)
  case None
  then show ?thesis by (simp add: explain_is_null_def explain_is_not_null_def)
next
  case (Some z)
  then have c: "counts_rows z rows" using assms by simp
  have "r = None" if "r \<in> set rows" "zs_null_count (ze_stats z) = zs_row_count (ze_stats z)" for r
    using null_only_rows [OF c that(2,1)] .
  moreover have "r \<noteq> None" if "r \<in> set rows" "zs_null_count (ze_stats z) = 0" for r
    using no_null_rows [OF c that(2,1)] .
  ultimately have "sound (set rows) (\<lambda>r. Some (r = None)) (pe_final_outcome (explain_is_null (Some z)))"
    "sound (set rows) (\<lambda>r. Some (r \<noteq> None)) (pe_final_outcome (explain_is_not_null (Some z)))"
    unfolding explain_is_null_def explain_is_not_null_def by (simp_all only: option.case) (auto simp: sound_def)
  then show ?thesis by (simp add: Some)
qed

text \<open>
  C36: The three membership indexes exclude a zone only when no row holds the key: a Bloom filter
  that the zone's values were inserted into, an inverted index whose keys and a lookup index
  whose row references cover the zone's rows. Of an index marked stale or corrupt nothing is
  assumed: it decides nothing.
\<close>

theorem membership_indexes_sound:
  assumes "\<forall>b. bfi = Some b \<longrightarrow> \<not> stale1 \<longrightarrow> (\<exists>f vs. bloom_ok f \<and> b = fold bloom_insert vs f \<and> (\<forall>v. Some v \<in> set values' \<longrightarrow> v \<in> set vs))"
    "\<forall>i. imi = Some i \<longrightarrow> \<not> stale2 \<longrightarrow> inverted_wf i \<and> (\<forall>k. Some k \<in> set keys \<longrightarrow> k \<in> ie_key ` set (im_entries i))"
    "\<forall>l. lui = Some l \<longrightarrow> \<not> stale3 \<longrightarrow> sorted_wrt (<) (map le_key (li_entries l)) \<and>
       (\<forall>k. Some k \<in> set keys \<longrightarrow> (\<exists>r rs. lookup_map l k = Some (r # rs)))"
  shows "sound (set values') (equals_truth w) (pe_final_outcome (explain_bloom_membership w bfi stale1)) \<and>
    sound (set keys) (equals_truth q) (pe_final_outcome (explain_inverted_morsel_lookup q imi stale2)) \<and>
    sound (set keys) (equals_truth q) (pe_final_outcome (explain_lookup_index_point q lui stale3)) \<and>
    pe_final_outcome (explain_bloom_membership w bfi True) = Unknown \<and>
    pe_final_outcome (explain_inverted_morsel_lookup q imi True) = Unknown \<and>
    pe_final_outcome (explain_lookup_index_point q lui True) = Unknown"
proof (intro conjI)
  have "sound (set values') (equals_truth w) (if bloom_might_contain b w then SomeMatch else NoMatch)"
    if b: "bfi = Some b" "\<not> stale1" for b
  proof -
    obtain f vs where f: "bloom_ok f" "b = fold bloom_insert vs f" "\<And>v. Some v \<in> set values' \<Longrightarrow> v \<in> set vs"
      using assms(1) b by blast
    have "bloom_might_contain b v" if "Some v \<in> set values'" for v
      unfolding f(2) by (rule bloom.query_fold [OF f(1) f(3) [OF that]])
    then show ?thesis by (auto simp: sound_def)
  qed
  then show "sound (set values') (equals_truth w) (pe_final_outcome (explain_bloom_membership w bfi stale1))"
    by (auto simp: explain_bloom_membership_def split: option.splits bool.splits if_splits)
  have "sound (set keys) (equals_truth q) (if inverted_present i q then SomeMatch else NoMatch)" if "imi = Some i" "\<not> stale2" for i
    using assms(2) that by (intro inverted.prune_sound [where f = "\<lambda>k. k"]) auto
  then show "sound (set keys) (equals_truth q) (pe_final_outcome (explain_inverted_morsel_lookup q imi stale2))"
    by (auto simp: explain_inverted_morsel_lookup_def split: option.splits bool.splits if_splits)
  have "Some q \<notin> set keys" if l: "lui = Some l" "\<not> stale3" "\<nexists>r rs. rows_for l q = Some (r # rs)" for l
    using assms(3) l rows_for_lookup_map [of l q] by auto
  then show "sound (set keys) (equals_truth q) (pe_final_outcome (explain_lookup_index_point q lui stale3))"
    by (auto simp: explain_lookup_index_point_def split: option.splits bool.splits list.splits)
qed (auto simp: explain_bloom_membership_def explain_inverted_morsel_lookup_def explain_lookup_index_point_def split: option.splits)

text \<open>
  C39: An exact set in the bitset or roaring representation is parsed without keys and
  answers no to every code, so that it proves every zone free of every code: its
  explanation cannot be trusted.
\<close>

theorem unsorted_exact_set_prunes_all:
  assumes "exact_set_parse crc bs = Ok x" "esh_representation (es_header x) \<noteq> ESR_SortedList"
    "esh_key_kind (es_header x) = ESK_FileCode"
  shows "pe_final_outcome (explain_file_code_equality c None None (Some x)) = NoMatch"
proof -
  have "es_keys x = []" using exact_set_parse_wf [OF assms(1)] assms(2) by (simp add: exact_set_wf_def)
  then have "\<not> exact_set_contains x (ucast c)" by (simp add: exact_set_contains_def binary_search_by_key_def)
  then show ?thesis
    using assms(3) by (simp add: explain_file_code_equality_def equality_by_nulls_def usable_domain_def
        equality_by_domain_def equality_by_exact_set_def exact_set_membership_def)
qed

section \<open>Witnesses\<close>

text \<open>Four rows with codes 3, 9, NULL and 3, described by counts and by an exact set.\<close>

definition code_rows :: "u32 option list" where
  "code_rows = [Some 3, Some 9, None, Some 3]"

definition code_zone :: zone_stats_entry where
  "code_zone = zone_example\<lparr>ze_non_null_count := 3,
     ze_stats := \<lparr>zs_scope = ZS_Segment, zs_row_count = 4, zs_null_count = 1, zs_min = None, zs_max = None,
       zs_flags = HAS_DOMAIN_RANGE\<rparr>, ze_min_domain_rank := 0, ze_max_domain_rank := 1\<rparr>"

lemma code_zone_counts: "counts_rows code_zone code_rows"
  by (simp add: counts_rows_def code_zone_def code_rows_def)

lemma exact_set_example_ok: "exact_set_ok exact_set_example"
  by (simp add: exact_set_ok_def exact_set_wf_def exact_set_example_def)

lemma exact_set_example_lookup: "exact_set_contains exact_set_example k \<longleftrightarrow> k = 3 \<or> k = 9"
  using exact_set.query_iff [OF exact_set_example_ok, of k] by (simp add: exact_set_example_def)

lemma file_code_equality_sound_witness:
  "pe_final_outcome (explain_file_code_equality 4 (Some code_zone) None (Some exact_set_example)) = NoMatch \<and>
   Some 4 \<notin> set code_rows"
proof -
  have e: "equality_evidence code_rows (Some code_zone) None (Some exact_set_example)"
    using exact_set_example_ok code_zone_counts
    by (auto simp: equality_evidence_def code_rows_def exact_set_example_def)
  have o: "pe_final_outcome (explain_file_code_equality 4 (Some code_zone) None (Some exact_set_example)) = NoMatch"
    using exact_set_example_lookup [of 4]
    by (simp add: explain_file_code_equality_def equality_by_nulls_def usable_domain_def equality_by_domain_def
        equality_by_exact_set_def exact_set_membership_def code_zone_def) (simp add: exact_set_example_def)
  show ?thesis using file_code_equality_sound [OF e, of 4] o by auto
qed

text \<open>The same rows under a domain of the codes 3 and 9, built by the code.\<close>

definition code_domain :: column_domain where
  "code_domain = \<lparr>cd_header = cd_header domain_example, cd_sorted_file_codes = [3, 9],
     cd_file_code_to_rank = (replicate 10 INVALID_RANK)[3 := 0, 9 := 1]\<rparr>"

lemma code_domain_ranks: "rank_of code_domain 3 = Some 0" "rank_of code_domain 9 = Some 1" "is_safe code_domain"
proof -
  have r: "cd_file_code_to_rank code_domain =
      [INVALID_RANK, INVALID_RANK, INVALID_RANK, 0, INVALID_RANK, INVALID_RANK, INVALID_RANK, INVALID_RANK, INVALID_RANK, 1]"
    by (simp add: code_domain_def numeral_eq_Suc)
  show "rank_of code_domain 3 = Some 0" "rank_of code_domain 9 = Some 1"
    by (simp_all add: rank_of_def get_def r INVALID_RANK_def)
  show "is_safe code_domain"
    unfolding is_safe_def r by (simp add: Let_def code_domain_def INVALID_RANK_def) (simp add: word_le_nat_alt)
qed

lemma domain_rank_range_sound_witness:
  "pe_final_outcome (explain_resolved_domain_rank_range 2 7 (Some code_zone) (Some code_domain)) = NoMatch \<and>
   Some True \<notin> rank_range_truth code_domain 2 7 ` set code_rows"
proof -
  have e: "\<forall>z. Some code_zone = Some z \<longrightarrow> counts_rows z code_rows \<and> ranks_in_zone code_domain z code_rows"
    using code_zone_counts code_domain_ranks
    by (auto simp: ranks_in_zone_def code_rows_def code_zone_def)
  have "\<not> (2 :: u32) \<le> 1" unfolding word_le_nat_alt by simp
  then have o: "pe_final_outcome (explain_resolved_domain_rank_range 2 7 (Some code_zone) (Some code_domain)) = NoMatch"
    using code_domain_ranks(3)
    by (simp add: explain_resolved_domain_rank_range_def usable_domain_def code_zone_def flags_contain_def)
  show ?thesis using domain_rank_range_sound [OF e, of 2 7] o by auto
qed

lemma numeric_range_sound_witness:
  "pe_final_outcome (explain_numcode_range (\<lambda>_. ''f64'') (Some (NV_Int64 10)) True None False (Some zone_example)) = NoMatch \<and>
   numeric_truth (Some (NV_Int64 10)) True None False (Some (NV_Int64 (- 5))) \<noteq> Some True"
proof -
  let ?rows = "[Some (NV_Int64 (- 5)), None, Some (NV_Int64 9)]"
  have b: "zone_bound (zs_min (ze_stats zone_example)) = Some (NV_Int64 (- 5))"
    "zone_bound (zs_max (ze_stats zone_example)) = Some (NV_Int64 9)"
    by (simp_all add: zone_bound_def zone_example_def numeric_value_def decode_i64_exact_def exact_array_def)
  have e: "\<forall>z. Some zone_example = Some z \<longrightarrow> numeric_evidence z ?rows"
    by (auto simp: numeric_evidence_def b counts_rows_def cmp_int_def) (simp_all add: zone_example_def)
  have o: "pe_final_outcome (explain_numcode_range (\<lambda>_. ''f64'') (Some (NV_Int64 10)) True None False (Some zone_example)) = NoMatch"
    by (simp add: explain_numcode_range_def b numeric_bounds_share_kind_def predicate_disjoint_from_zone_def
        is_strictly_above_def cmp_int_def Let_def)
      (simp add: zone_example_def flags_contain_def HAS_MIN_MAX_def HAS_NAN_def MINMAX_TRUNCATED_def)
  show ?thesis
    using numeric_range_sound [OF e, of "Some (NV_Int64 10)" True None False "\<lambda>_. ''f64''"] o by simp
qed

lemma null_tests_sound_witness:
  "\<not> sound (set code_rows) (\<lambda>r. Some (r = None)) NoMatch \<and>
   sound (set code_rows) (\<lambda>r. Some (r = None)) (pe_final_outcome (explain_is_null (Some code_zone)))"
proof -
  have "\<forall>z. Some code_zone = Some z \<longrightarrow> counts_rows z code_rows" using code_zone_counts by simp
  from null_tests_sound [OF this] show ?thesis by (simp add: code_rows_def)
qed

definition inverted_example :: inverted_morsel_index where
  "inverted_example = \<lparr>im_header = \<lparr>imh_table_id = 1, imh_column_id = 1, imh_key_kind = IKK_FileCode, imh_flags = 0,
       imh_representation = 0, imh_reserved = 0, imh_entry_count = 1, imh_entries_offset = 36,
       imh_bitmap_data_offset = 68, imh_checksum = 0\<rparr>,
     im_entries = [\<lparr>ie_key = 2, ie_morsel_bitmap_offset = 0, ie_morsel_bitmap_length = 1,
       ie_row_bitmap_offset = 0, ie_row_bitmap_length = 0\<rparr>], im_bitmap_data = [9]\<rparr>"

text \<open>The filter of the values \<open>[1]\<close> and \<open>[2, 3]\<close> denies \<open>[9]\<close>; the lookup index is stale.\<close>

lemma membership_indexes_sound_witness:
  "pe_final_outcome (explain_bloom_membership [9] (Some (fold bloom_insert [[1], [2, 3]] bloom_example)) False) = NoMatch \<and>
   sound (set [Some [1], None, Some [2, 3]]) (equals_truth [9 :: u8]) NoMatch \<and>
   sound (set [Some (2 :: u64), None]) (equals_truth 7)
     (pe_final_outcome (explain_inverted_morsel_lookup 7 (Some inverted_example) False)) \<and>
   pe_final_outcome (explain_lookup_index_point 7 (Some lookup_example) True) = Unknown"
proof -
  let ?b = "fold bloom_insert [[1], [2, 3]] bloom_example" and ?vals = "[Some [1], None, Some [2, 3]] :: bytes option list"
  have n: "pe_final_outcome (explain_bloom_membership [9] (Some ?b) False) = NoMatch" by code_simp
  have "bloom_ok bloom_example" by (simp add: bloom_ok_def bloom_example_def)
  then have "\<exists>f vs. bloom_ok f \<and> ?b = fold bloom_insert vs f \<and> (\<forall>v. Some v \<in> set ?vals \<longrightarrow> v \<in> set vs)"
    by (intro exI [of _ bloom_example] exI [of _ "[[1], [2, 3]]"]) simp
  then have a: "\<forall>b. Some ?b = Some b \<longrightarrow> \<not> False \<longrightarrow>
      (\<exists>f vs. bloom_ok f \<and> b = fold bloom_insert vs f \<and> (\<forall>v. Some v \<in> set ?vals \<longrightarrow> v \<in> set vs))"
    by blast
  have i: "\<forall>i. Some inverted_example = Some i \<longrightarrow> \<not> False \<longrightarrow>
      inverted_wf i \<and> (\<forall>k. Some k \<in> set [Some 2, None] \<longrightarrow> k \<in> ie_key ` set (im_entries i))"
    by (simp add: inverted_wf_def inverted_example_def inverted_entry_ok_def bitmap_in_def)
  have l: "\<forall>l. Some lookup_example = Some l \<longrightarrow> \<not> True \<longrightarrow> sorted_wrt (<) (map le_key (li_entries l)) \<and>
      (\<forall>k. Some k \<in> set [Some 2, None] \<longrightarrow> (\<exists>r rs. lookup_map l k = Some (r # rs)))"
    by simp
  show ?thesis using membership_indexes_sound [OF a i l, of "[9]" 7] n by simp
qed

lemma unsorted_exact_set_prunes_all_witness:
  "\<exists>bs x. exact_set_parse (\<lambda>_. 7) bs = Ok x \<and>
     (\<forall>c. pe_final_outcome (explain_file_code_equality c None None (Some x)) = NoMatch)"
proof -
  let ?x = "exact_set_example\<lparr>es_header := (es_header exact_set_example)\<lparr>esh_representation := ESR_Bitset\<rparr>, es_keys := []\<rparr>"
  have w: "exact_set_wf ?x" by (simp add: exact_set_wf_def exact_set_example_def)
  obtain y where y: "exact_set_parse (\<lambda>_. 7) (exact_set_serialize (\<lambda>_. 7) ?x) = Ok y"
    "esh_representation (es_header y) \<noteq> ESR_SortedList" "esh_key_kind (es_header y) = ESK_FileCode"
    using exact_set_parse_serialize [OF w, of "\<lambda>_. 7"]
    by (simp add: usize_limit_def Let_def exact_set_example_def length_concat_fixed)
  show ?thesis using unsorted_exact_set_prunes_all [OF y] y(1) by blast
qed

text \<open>
  A domain that passes \<open>is_safe\<close> need not rank every code it lists: code 5 is listed,
  has no rank, and is proven absent.
\<close>

lemma safe_domain_may_deny_listed_code:
  "\<exists>d. is_safe d \<and> 5 \<in> set (cd_sorted_file_codes d) \<and>
     pe_final_outcome (explain_file_code_equality 5 None (Some d) None) = NoMatch"
proof -
  let ?d = "code_domain\<lparr>cd_sorted_file_codes := [5], cd_file_code_to_rank := [INVALID_RANK]\<rparr>"
  have s: "is_safe ?d" by (simp add: is_safe_def Let_def)
  have r: "rank_of ?d 5 = None" by (simp add: rank_of_def get_def)
  have "pe_final_outcome (explain_file_code_equality 5 None (Some ?d) None) = NoMatch"
    using s r by (simp add: explain_file_code_equality_def equality_by_nulls_def usable_domain_def equality_by_domain_def)
  then show ?thesis using s by (intro exI [of _ ?d]) simp
qed

end
