(* ===== verification/Encoded_Array.thy ===== *)
theory Encoded_Array
  imports Dictionary Local_Codebook Overrides Validity Cursor
begin

text \<open>
  Reading the rows of a page (\<^verbatim>\<open>array.rs\<close>): the one-off access \<^verbatim>\<open>decode_row\<close>, the
  page-scoped \<^verbatim>\<open>decode_all_rows\<close>, and the prepared access for repeated reads. The three are
  written apart; they agree on every page that can be read whole.
\<close>

section \<open>Values\<close>

datatype array_value =
    AV_Null | AV_Bytes bytes | AV_OwnedBytes bytes | AV_Varint u64 | AV_Int64 i64 | AV_FileCode u32
  | AV_DictValue dictionary_value | AV_NumCode u64 | AV_Boolean bool | AV_ValidityBit bool

text \<open>Names of the derived \<^verbatim>\<open>Debug\<close>.\<close>

primrec logical_type_debug :: "logical_type \<Rightarrow> string" where
  "logical_type_debug LT_Null = ''Null''"
| "logical_type_debug LT_Bool = ''Bool''"
| "logical_type_debug LT_Int8 = ''Int8''"
| "logical_type_debug LT_Int16 = ''Int16''"
| "logical_type_debug LT_Int32 = ''Int32''"
| "logical_type_debug LT_Int64 = ''Int64''"
| "logical_type_debug LT_UInt8 = ''UInt8''"
| "logical_type_debug LT_UInt16 = ''UInt16''"
| "logical_type_debug LT_UInt32 = ''UInt32''"
| "logical_type_debug LT_UInt64 = ''UInt64''"
| "logical_type_debug LT_Float32 = ''Float32''"
| "logical_type_debug LT_Float64 = ''Float64''"
| "logical_type_debug LT_Decimal64 = ''Decimal64''"
| "logical_type_debug LT_Decimal128 = ''Decimal128''"
| "logical_type_debug LT_DateDays = ''DateDays''"
| "logical_type_debug LT_TimestampMicros = ''TimestampMicros''"
| "logical_type_debug LT_TimestampNanos = ''TimestampNanos''"
| "logical_type_debug LT_Utf8 = ''Utf8''"
| "logical_type_debug LT_Binary = ''Binary''"
| "logical_type_debug LT_Uuid = ''Uuid''"
| "logical_type_debug LT_Json = ''Json''"
| "logical_type_debug LT_List = ''List''"
| "logical_type_debug LT_Struct = ''Struct''"
| "logical_type_debug LT_Map = ''Map''"

primrec encoding_kind_debug :: "encoding_kind \<Rightarrow> string" where
  "encoding_kind_debug EK_Canonical = ''Canonical''"
| "encoding_kind_debug EK_Validity = ''Validity''"
| "encoding_kind_debug EK_Constant = ''Constant''"
| "encoding_kind_debug EK_FileCode = ''FileCode''"
| "encoding_kind_debug EK_NumCode = ''NumCode''"
| "encoding_kind_debug EK_LocalCodebook = ''LocalCodebook''"
| "encoding_kind_debug EK_Rle = ''Rle''"
| "encoding_kind_debug EK_RunEnd = ''RunEnd''"
| "encoding_kind_debug EK_BitPacked = ''BitPacked''"
| "encoding_kind_debug EK_Delta = ''Delta''"
| "encoding_kind_debug EK_FrameOfReference = ''FrameOfReference''"
| "encoding_kind_debug EK_PatchedBase = ''PatchedBase''"
| "encoding_kind_debug EK_Sparse = ''Sparse''"
| "encoding_kind_debug EK_Sequence = ''Sequence''"
| "encoding_kind_debug EK_PlainFixed = ''PlainFixed''"
| "encoding_kind_debug EK_PlainVarint = ''PlainVarint''"
| "encoding_kind_debug EK_VarBytes = ''VarBytes''"
| "encoding_kind_debug EK_Lz4Block = ''Lz4Block''"
| "encoding_kind_debug EK_ZstdBlock = ''ZstdBlock''"
| "encoding_kind_debug EK_RegisteredEncoding = ''RegisteredEncoding''"

primrec logical_type_fixed_width :: "logical_type \<Rightarrow> nat option" where
  "logical_type_fixed_width LT_Null = None"
| "logical_type_fixed_width LT_Bool = Some 1"
| "logical_type_fixed_width LT_Int8 = Some 1"
| "logical_type_fixed_width LT_Int16 = Some 2"
| "logical_type_fixed_width LT_Int32 = Some 4"
| "logical_type_fixed_width LT_Int64 = Some 8"
| "logical_type_fixed_width LT_UInt8 = Some 1"
| "logical_type_fixed_width LT_UInt16 = Some 2"
| "logical_type_fixed_width LT_UInt32 = Some 4"
| "logical_type_fixed_width LT_UInt64 = Some 8"
| "logical_type_fixed_width LT_Float32 = Some 4"
| "logical_type_fixed_width LT_Float64 = Some 8"
| "logical_type_fixed_width LT_Decimal64 = Some 8"
| "logical_type_fixed_width LT_Decimal128 = Some 16"
| "logical_type_fixed_width LT_DateDays = Some 4"
| "logical_type_fixed_width LT_TimestampMicros = Some 8"
| "logical_type_fixed_width LT_TimestampNanos = Some 8"
| "logical_type_fixed_width LT_Utf8 = None"
| "logical_type_fixed_width LT_Binary = None"
| "logical_type_fixed_width LT_Uuid = Some 16"
| "logical_type_fixed_width LT_Json = None"
| "logical_type_fixed_width LT_List = None"
| "logical_type_fixed_width LT_Struct = None"
| "logical_type_fixed_width LT_Map = None"

section \<open>The array\<close>

record encoded_array =
  ea_logical :: logical_type
  ea_physical :: physical_kind
  ea_row_count :: u64
  ea_encoding :: encoding_kind
  ea_validity :: "validity_bitmap option"
  ea_data :: bytes
  ea_dictionary :: "file_dictionary option"

text \<open>\<^verbatim>\<open>usize::try_from\<close> of a row count: every u64 is a usize on the 64-bit targets.\<close>

definition expected_row_count :: "u64 \<Rightarrow> nat res" where
  "expected_row_count row_count = (if unat row_count < usize_limit then Ok (unat row_count) else Fail ArithOverflow)"

definition array_is_null :: "encoded_array \<Rightarrow> u64 \<Rightarrow> bool res" where
  "array_is_null a row =
     (if ea_row_count a \<le> row then Fail OffsetRange
      else case ea_validity a of Some bm \<Rightarrow> is_null bm row | None \<Rightarrow> Ok False)"

text \<open>The rows of the page, in order, and one round of the loops that push a value or a null.\<close>

definition array_rows :: "encoded_array \<Rightarrow> u64 list" where
  "array_rows a = map of_nat [0..<unat (ea_row_count a)]"

definition row_or_null :: "encoded_array \<Rightarrow> u64 \<Rightarrow> array_value res \<Rightarrow> array_value res" where
  "row_or_null a row v = and_then (array_is_null a row) (\<lambda>null. if null then Ok AV_Null else v)"

subsection \<open>Values of the cascades\<close>

definition u64_try_from_i64 :: "i64 \<Rightarrow> u64 option" where
  "u64_try_from_i64 v = (if sint v < 0 then None else Some v)"

definition code_value :: "encoded_array \<Rightarrow> u32 \<Rightarrow> array_value res" where
  "code_value a code =
     (case ea_dictionary a of
        Some dict \<Rightarrow> map_ok AV_DictValue (dictionary_decode_value dict code)
      | None \<Rightarrow> Ok (AV_FileCode code))"

definition value_from_i64 :: "encoded_array \<Rightarrow> i64 \<Rightarrow> array_value res" where
  "value_from_i64 a v =
     (case ea_physical a of
        PK_FileCode \<Rightarrow> and_then (ok_or PageCorrupt (u32_try_from_i64 v)) (code_value a)
      | PK_NumCode \<Rightarrow> and_then (ok_or PageCorrupt (u64_try_from_i64 v)) (\<lambda>code. Ok (AV_NumCode code))
      | PK_Boolean \<Rightarrow> if v = 0 then Ok (AV_Boolean False) else if v = 1 then Ok (AV_Boolean True) else Fail PageCorrupt
      | _ \<Rightarrow> Ok (AV_Int64 v))"

definition value_from_i64_slice :: "encoded_array \<Rightarrow> u64 \<Rightarrow> i64 list \<Rightarrow> array_value res" where
  "value_from_i64_slice a row vs =
     and_then (expected_row_count (ea_row_count a)) (\<lambda>n.
     if length vs \<noteq> n then Fail PageCorrupt
     else and_then (ok_or PageCorrupt (get vs (unat row))) (value_from_i64 a))"

definition value_from_constant_payload :: "encoded_array \<Rightarrow> constant_payload \<Rightarrow> array_value res" where
  "value_from_constant_payload a p =
     (if ea_physical a = PK_NumCode then
        let code = constant_raw_value_bits p in
        if ea_logical a = LT_Bool \<and> code \<noteq> 0 \<and> code \<noteq> 1 then Fail PageCorrupt else Ok (AV_NumCode code)
      else value_from_i64 a (cp_value p))"

fun value_from_local_codebook :: "encoded_array \<Rightarrow> local_codebook_value \<Rightarrow> array_value res" where
  "value_from_local_codebook a (CV_FileCode code) = code_value a code"
| "value_from_local_codebook a (CV_NumCode code) = Ok (AV_NumCode code)"
| "value_from_local_codebook a (CV_Boolean b) = Ok (AV_Boolean b)"
| "value_from_local_codebook a (CV_VarBytes b) = Ok (AV_OwnedBytes b)"

definition values_from_i64_values :: "encoded_array \<Rightarrow> i64 list \<Rightarrow> array_value list res" where
  "values_from_i64_values a vs =
     and_then (expected_row_count (ea_row_count a)) (\<lambda>n.
     if length vs \<noteq> n then Fail PageCorrupt
     else try_map (\<lambda>(row, v). row_or_null a (of_nat row) (value_from_i64 a v)) (enumerate 0 vs))"

definition values_from_local_codebook_values :: "encoded_array \<Rightarrow> local_codebook_value list \<Rightarrow> array_value list res" where
  "values_from_local_codebook_values a vs =
     and_then (expected_row_count (ea_row_count a)) (\<lambda>n.
     if length vs \<noteq> n then Fail PageCorrupt
     else try_map (\<lambda>(row, v). row_or_null a (of_nat row) (value_from_local_codebook a v)) (enumerate 0 vs))"

text \<open>The i64 cascades: parse the payload and decode it on the fast path.\<close>

definition cascade_values :: "encoding_kind \<Rightarrow> bytes \<Rightarrow> i64 list res option" where
  "cascade_values k bs =
     (case k of
        EK_Rle \<Rightarrow> Some (and_then (rle_parse bs) rle_fast_decode)
      | EK_RunEnd \<Rightarrow> Some (and_then (run_end_parse bs) run_end_decode)
      | EK_BitPacked \<Rightarrow> Some (and_then (bit_packed_parse bs) bit_packed_fast_decode)
      | EK_Delta \<Rightarrow> Some (and_then (delta_parse bs) delta_decode)
      | EK_FrameOfReference \<Rightarrow> Some (and_then (for_parse bs) for_decode)
      | EK_PatchedBase \<Rightarrow> Some (and_then (patched_base_parse bs) patched_base_decode)
      | EK_Sparse \<Rightarrow> Some (and_then (sparse_parse bs) sparse_decode)
      | _ \<Rightarrow> None)"

subsection \<open>Skipping rows of variable width\<close>

primrec varint_skip :: "bytes \<Rightarrow> nat \<Rightarrow> nat \<Rightarrow> nat res" where
  "varint_skip bs 0 pos = Ok pos"
| "varint_skip bs (Suc n) pos =
     (if length bs \<le> pos then Fail OffsetRange
      else
        and_then (slice_from bs pos) (\<lambda>tail.
        and_then (decode_u64_leb128 tail) (\<lambda>(_, consumed).
        and_then (ok_or ArithOverflow (checked_add pos consumed)) (varint_skip bs n))))"

definition varbytes_next :: "nat \<Rightarrow> nat \<Rightarrow> nat option" where
  "varbytes_next pos len = Option.bind (checked_add pos 4) (\<lambda>offset. checked_add offset len)"

primrec varbytes_skip :: "bytes \<Rightarrow> nat \<Rightarrow> nat \<Rightarrow> nat res" where
  "varbytes_skip bs 0 pos = Ok pos"
| "varbytes_skip bs (Suc n) pos =
     and_then (read_u32_le_checked bs pos) (\<lambda>len.
     and_then (ok_or ArithOverflow (varbytes_next pos (unat len))) (\<lambda>pos.
     if length bs < pos then Fail OffsetRange else varbytes_skip bs n pos))"

definition canonical_next :: "nat \<Rightarrow> nat \<Rightarrow> nat \<Rightarrow> nat option" where
  "canonical_next pos consumed len = Option.bind (checked_add pos consumed) (\<lambda>offset. checked_add offset len)"

primrec canonical_skip :: "bytes \<Rightarrow> nat \<Rightarrow> nat \<Rightarrow> nat res" where
  "canonical_skip bs 0 pos = Ok pos"
| "canonical_skip bs (Suc n) pos =
     and_then (slice_from bs pos) (\<lambda>tail.
     and_then (decode_u64_leb128 tail) (\<lambda>(len, consumed).
     and_then (expected_row_count len) (\<lambda>len.
     and_then (ok_or ArithOverflow (canonical_next pos consumed len)) (\<lambda>pos.
     if length bs < pos then Fail OffsetRange else canonical_skip bs n pos))))"

definition varint_at :: "bytes \<Rightarrow> nat \<Rightarrow> array_value res" where
  "varint_at bs pos =
     (if length bs \<le> pos then Fail OffsetRange
      else
        and_then (slice_from bs pos) (\<lambda>tail.
        and_then (decode_u64_leb128 tail) (\<lambda>(v, _). Ok (AV_Varint v))))"

definition varbytes_at :: "bytes \<Rightarrow> nat \<Rightarrow> array_value res" where
  "varbytes_at bs pos =
     and_then (read_u32_le_checked bs pos) (\<lambda>len.
     and_then (ok_or ArithOverflow (checked_add pos 4)) (\<lambda>data_start.
     map_ok AV_Bytes (read_range_checked bs data_start (unat len))))"

definition canonical_at :: "bytes \<Rightarrow> nat \<Rightarrow> array_value res" where
  "canonical_at bs pos =
     and_then (slice_from bs pos) (\<lambda>tail.
     and_then (decode_u64_leb128 tail) (\<lambda>(len, consumed).
     and_then (expected_row_count len) (\<lambda>len.
     and_then (ok_or ArithOverflow (checked_add pos consumed)) (\<lambda>data_start.
     map_ok AV_Bytes (read_range_checked bs data_start len)))))"

subsection \<open>One row\<close>

definition decode_canonical_row :: "encoded_array \<Rightarrow> u64 \<Rightarrow> array_value res" where
  "decode_canonical_row a row =
     (case ea_logical a of
        LT_Null \<Rightarrow> Ok AV_Null
      | LT_Bool \<Rightarrow> Fail (UnsupportedEncoding ''Canonical Bool rows are tag-only and need an explicit value-tag stream'')
      | LT_Utf8 \<Rightarrow> and_then (canonical_skip (ea_data a) (unat row) 0) (canonical_at (ea_data a))
      | LT_Binary \<Rightarrow> and_then (canonical_skip (ea_data a) (unat row) 0) (canonical_at (ea_data a))
      | LT_Json \<Rightarrow> and_then (canonical_skip (ea_data a) (unat row) 0) (canonical_at (ea_data a))
      | logical \<Rightarrow>
          and_then (ok_or (UnsupportedEncoding (''Canonical row decode unsupported for '' @ logical_type_debug (ea_logical a)))
            (logical_type_fixed_width logical)) (\<lambda>width.
          and_then (ok_or ArithOverflow (checked_mul (unat row) width)) (\<lambda>offset.
          map_ok AV_Bytes (read_range_checked (ea_data a) offset width))))"

definition decode_present_row :: "encoded_array \<Rightarrow> u64 \<Rightarrow> array_value res" where
  "decode_present_row a row =
     (case ea_encoding a of
        EK_Validity \<Rightarrow>
          and_then (ok_or OffsetRange (get (ea_data a) (unat (row div 8)))) (\<lambda>byte.
          Ok (AV_ValidityBit (drop_bit (unat (row mod 8)) byte AND 1 = 1)))
      | EK_Constant \<Rightarrow>
          and_then (constant_parse (ea_data a)) (\<lambda>payload.
          if cp_row_count payload \<noteq> ea_row_count a then Fail PageCorrupt else value_from_constant_payload a payload)
      | EK_FileCode \<Rightarrow>
          and_then (ok_or ArithOverflow (checked_mul (unat row) 4)) (\<lambda>offset.
          and_then (read_u32_le_checked (ea_data a) offset) (code_value a))
      | EK_NumCode \<Rightarrow>
          and_then (ok_or ArithOverflow (checked_mul (unat row) 8)) (\<lambda>offset.
          and_then (read_u64_le_checked (ea_data a) offset) (\<lambda>code. Ok (AV_NumCode code)))
      | EK_PlainFixed \<Rightarrow>
          and_then (ok_or (UnsupportedEncoding (''PlainFixed encoding requires fixed-width logical type, got '' @
            logical_type_debug (ea_logical a))) (logical_type_fixed_width (ea_logical a))) (\<lambda>w.
          and_then (ok_or ArithOverflow (checked_mul (unat row) w)) (\<lambda>offset.
          map_ok AV_Bytes (read_range_checked (ea_data a) offset w)))
      | EK_PlainVarint \<Rightarrow> and_then (varint_skip (ea_data a) (unat row) 0) (varint_at (ea_data a))
      | EK_VarBytes \<Rightarrow> and_then (varbytes_skip (ea_data a) (unat row) 0) (varbytes_at (ea_data a))
      | EK_LocalCodebook \<Rightarrow>
          and_then (local_codebook_parse (ea_data a)) (\<lambda>payload.
          and_then (local_codebook_decode_values payload) (\<lambda>vs.
          and_then (expected_row_count (ea_row_count a)) (\<lambda>n.
          if length vs \<noteq> n then Fail PageCorrupt
          else and_then (ok_or PageCorrupt (get vs (unat row))) (value_from_local_codebook a))))
      | EK_Canonical \<Rightarrow> decode_canonical_row a row
      | k \<Rightarrow>
          (case cascade_values k (ea_data a) of
             Some vs \<Rightarrow> and_then vs (value_from_i64_slice a row)
           | None \<Rightarrow> Fail (UnsupportedEncoding (encoding_kind_debug (ea_encoding a)))))"

definition decode_row :: "encoded_array \<Rightarrow> u64 \<Rightarrow> array_value res" where
  "decode_row a row =
     (if ea_row_count a \<le> row then Fail OffsetRange
      else and_then (array_is_null a row) (\<lambda>null. if null then Ok AV_Null else decode_present_row a row))"

subsection \<open>All rows\<close>

definition collect_rows :: "encoded_array \<Rightarrow> (u64 \<Rightarrow> array_value res) \<Rightarrow> array_value list res" where
  "collect_rows a f =
     and_then (expected_row_count (ea_row_count a)) (\<lambda>_. try_map (\<lambda>row. row_or_null a row (f row)) (array_rows a))"

fun plain_varint_rows :: "encoded_array \<Rightarrow> nat \<Rightarrow> u64 list \<Rightarrow> array_value list res" where
  "plain_varint_rows a pos [] = Ok []"
| "plain_varint_rows a pos (row # rows) =
     (if length (ea_data a) \<le> pos then Fail OffsetRange
      else
        and_then (slice_from (ea_data a) pos) (\<lambda>tail.
        and_then (decode_u64_leb128 tail) (\<lambda>(v, consumed).
        and_then (ok_or ArithOverflow (checked_add pos consumed)) (\<lambda>pos.
        and_then (row_or_null a row (Ok (AV_Varint v))) (\<lambda>x.
        map_ok ((#) x) (plain_varint_rows a pos rows))))))"

definition decode_all_plain_varint_rows :: "encoded_array \<Rightarrow> array_value list res" where
  "decode_all_plain_varint_rows a =
     and_then (expected_row_count (ea_row_count a)) (\<lambda>_. plain_varint_rows a 0 (array_rows a))"

fun varbytes_rows :: "encoded_array \<Rightarrow> nat \<Rightarrow> u64 list \<Rightarrow> array_value list res" where
  "varbytes_rows a pos [] = Ok []"
| "varbytes_rows a pos (row # rows) =
     and_then (read_u32_le_checked (ea_data a) pos) (\<lambda>len.
     and_then (ok_or ArithOverflow (checked_add pos 4)) (\<lambda>data_start.
     and_then (read_range_checked (ea_data a) data_start (unat len)) (\<lambda>raw.
     and_then (ok_or ArithOverflow (checked_add data_start (unat len))) (\<lambda>pos.
     and_then (row_or_null a row (Ok (AV_Bytes raw))) (\<lambda>x.
     map_ok ((#) x) (varbytes_rows a pos rows))))))"

definition decode_all_varbytes_rows :: "encoded_array \<Rightarrow> array_value list res" where
  "decode_all_varbytes_rows a =
     and_then (expected_row_count (ea_row_count a)) (\<lambda>_. varbytes_rows a 0 (array_rows a))"

fun canonical_prefixed_rows :: "encoded_array \<Rightarrow> nat \<Rightarrow> u64 list \<Rightarrow> array_value list res" where
  "canonical_prefixed_rows a pos [] = Ok []"
| "canonical_prefixed_rows a pos (row # rows) =
     and_then (slice_from (ea_data a) pos) (\<lambda>tail.
     and_then (decode_u64_leb128 tail) (\<lambda>(len, consumed).
     and_then (expected_row_count len) (\<lambda>len.
     and_then (ok_or ArithOverflow (checked_add pos consumed)) (\<lambda>data_start.
     and_then (read_range_checked (ea_data a) data_start len) (\<lambda>raw.
     and_then (ok_or ArithOverflow (checked_add data_start len)) (\<lambda>pos.
     and_then (row_or_null a row (Ok (AV_Bytes raw))) (\<lambda>x.
     map_ok ((#) x) (canonical_prefixed_rows a pos rows))))))))"

definition decode_all_canonical_length_prefixed_rows :: "encoded_array \<Rightarrow> array_value list res" where
  "decode_all_canonical_length_prefixed_rows a =
     and_then (expected_row_count (ea_row_count a)) (\<lambda>_. canonical_prefixed_rows a 0 (array_rows a))"

definition decode_all_canonical_rows :: "encoded_array \<Rightarrow> array_value list res" where
  "decode_all_canonical_rows a =
     (case ea_logical a of
        LT_Null \<Rightarrow> map_ok (\<lambda>n. replicate n AV_Null) (expected_row_count (ea_row_count a))
      | LT_Bool \<Rightarrow> collect_rows a (decode_present_row a)
      | LT_Utf8 \<Rightarrow> decode_all_canonical_length_prefixed_rows a
      | LT_Binary \<Rightarrow> decode_all_canonical_length_prefixed_rows a
      | LT_Json \<Rightarrow> decode_all_canonical_length_prefixed_rows a
      | logical \<Rightarrow>
          and_then (ok_or (UnsupportedEncoding (''Canonical row decode unsupported for '' @ logical_type_debug (ea_logical a)))
            (logical_type_fixed_width logical)) (\<lambda>width.
          and_then (expected_row_count (ea_row_count a)) (\<lambda>_.
          try_map (\<lambda>row.
            and_then (ok_or ArithOverflow (checked_mul (unat row) width)) (\<lambda>offset.
            and_then (read_range_checked (ea_data a) offset width) (\<lambda>raw.
            row_or_null a row (Ok (AV_Bytes raw))))) (array_rows a))))"

definition decode_all_rows :: "encoded_array \<Rightarrow> array_value list res" where
  "decode_all_rows a =
     (case ea_encoding a of
        EK_LocalCodebook \<Rightarrow>
          and_then (local_codebook_parse (ea_data a)) (\<lambda>payload.
          and_then (local_codebook_decode_values payload) (values_from_local_codebook_values a))
      | EK_PlainVarint \<Rightarrow> decode_all_plain_varint_rows a
      | EK_VarBytes \<Rightarrow> decode_all_varbytes_rows a
      | EK_Canonical \<Rightarrow> decode_all_canonical_rows a
      | k \<Rightarrow>
          (case cascade_values k (ea_data a) of
             Some vs \<Rightarrow> and_then vs (values_from_i64_values a)
           | None \<Rightarrow> collect_rows a (decode_present_row a)))"

subsection \<open>Prepared access\<close>

datatype variable_offset_kind = VO_PlainVarint | VO_VarBytes | VO_CanonicalLengthPrefixed

record variable_offsets =
  vo_kind :: variable_offset_kind
  vo_row_offsets :: "nat list"

primrec varint_offsets :: "bytes \<Rightarrow> nat \<Rightarrow> nat \<Rightarrow> nat list res" where
  "varint_offsets bs 0 pos = Ok []"
| "varint_offsets bs (Suc n) pos =
     (if length bs \<le> pos then Fail OffsetRange
      else
        and_then (slice_from bs pos) (\<lambda>tail.
        and_then (decode_u64_leb128 tail) (\<lambda>(_, consumed).
        and_then (ok_or ArithOverflow (checked_add pos consumed)) (\<lambda>next_pos.
        map_ok ((#) pos) (varint_offsets bs n next_pos)))))"

primrec varbytes_offsets :: "bytes \<Rightarrow> nat \<Rightarrow> nat \<Rightarrow> nat list res" where
  "varbytes_offsets bs 0 pos = Ok []"
| "varbytes_offsets bs (Suc n) pos =
     and_then (read_u32_le_checked bs pos) (\<lambda>len.
     and_then (ok_or ArithOverflow (varbytes_next pos (unat len))) (\<lambda>next_pos.
     if length bs < next_pos then Fail OffsetRange
     else map_ok ((#) pos) (varbytes_offsets bs n next_pos)))"

primrec canonical_offsets :: "bytes \<Rightarrow> nat \<Rightarrow> nat \<Rightarrow> nat list res" where
  "canonical_offsets bs 0 pos = Ok []"
| "canonical_offsets bs (Suc n) pos =
     and_then (slice_from bs pos) (\<lambda>tail.
     and_then (decode_u64_leb128 tail) (\<lambda>(len, consumed).
     and_then (expected_row_count len) (\<lambda>len.
     and_then (ok_or ArithOverflow (canonical_next pos consumed len)) (\<lambda>next_pos.
     if length bs < next_pos then Fail OffsetRange
     else map_ok ((#) pos) (canonical_offsets bs n next_pos)))))"

definition offsets_plain_varint :: "bytes \<Rightarrow> u64 \<Rightarrow> variable_offsets res" where
  "offsets_plain_varint bs row_count =
     and_then (expected_row_count row_count) (\<lambda>_.
     map_ok (\<lambda>os. \<lparr>vo_kind = VO_PlainVarint, vo_row_offsets = os\<rparr>) (varint_offsets bs (unat row_count) 0))"

definition offsets_varbytes :: "bytes \<Rightarrow> u64 \<Rightarrow> variable_offsets res" where
  "offsets_varbytes bs row_count =
     and_then (expected_row_count row_count) (\<lambda>_.
     map_ok (\<lambda>os. \<lparr>vo_kind = VO_VarBytes, vo_row_offsets = os\<rparr>) (varbytes_offsets bs (unat row_count) 0))"

definition offsets_canonical_length_prefixed :: "bytes \<Rightarrow> u64 \<Rightarrow> variable_offsets res" where
  "offsets_canonical_length_prefixed bs row_count =
     and_then (expected_row_count row_count) (\<lambda>_.
     map_ok (\<lambda>os. \<lparr>vo_kind = VO_CanonicalLengthPrefixed, vo_row_offsets = os\<rparr>) (canonical_offsets bs (unat row_count) 0))"

definition offset_for_row :: "variable_offsets \<Rightarrow> u64 \<Rightarrow> nat res" where
  "offset_for_row os row = ok_or OffsetRange (get (vo_row_offsets os) (unat row))"

datatype prepared_repr = PR_Direct | PR_VariableOffsets variable_offsets | PR_DecodedValues "array_value list"

record prepared_array =
  pa_array :: encoded_array
  pa_repr :: prepared_repr

definition canonical_text :: "logical_type \<Rightarrow> bool" where
  "canonical_text t \<longleftrightarrow> t = LT_Utf8 \<or> t = LT_Binary \<or> t = LT_Json"

definition prepared_new :: "encoded_array \<Rightarrow> prepared_array res" where
  "prepared_new a =
     map_ok (\<lambda>repr. \<lparr>pa_array = a, pa_repr = repr\<rparr>)
       (case ea_encoding a of
          EK_PlainVarint \<Rightarrow> map_ok PR_VariableOffsets (offsets_plain_varint (ea_data a) (ea_row_count a))
        | EK_VarBytes \<Rightarrow> map_ok PR_VariableOffsets (offsets_varbytes (ea_data a) (ea_row_count a))
        | EK_Canonical \<Rightarrow>
            (if canonical_text (ea_logical a)
             then map_ok PR_VariableOffsets (offsets_canonical_length_prefixed (ea_data a) (ea_row_count a))
             else Ok PR_Direct)
        | EK_LocalCodebook \<Rightarrow> map_ok PR_DecodedValues (decode_all_rows a)
        | EK_Rle \<Rightarrow> map_ok PR_DecodedValues (decode_all_rows a)
        | EK_RunEnd \<Rightarrow> map_ok PR_DecodedValues (decode_all_rows a)
        | EK_BitPacked \<Rightarrow> map_ok PR_DecodedValues (decode_all_rows a)
        | EK_Delta \<Rightarrow> map_ok PR_DecodedValues (decode_all_rows a)
        | EK_FrameOfReference \<Rightarrow> map_ok PR_DecodedValues (decode_all_rows a)
        | EK_PatchedBase \<Rightarrow> map_ok PR_DecodedValues (decode_all_rows a)
        | EK_Sparse \<Rightarrow> map_ok PR_DecodedValues (decode_all_rows a)
        | _ \<Rightarrow> Ok PR_Direct)"

definition variable_row :: "variable_offset_kind \<Rightarrow> bytes \<Rightarrow> nat \<Rightarrow> array_value res" where
  "variable_row k bs offset =
     (case k of
        VO_PlainVarint \<Rightarrow> varint_at bs offset
      | VO_VarBytes \<Rightarrow> varbytes_at bs offset
      | VO_CanonicalLengthPrefixed \<Rightarrow> canonical_at bs offset)"

definition prepared_decode_row :: "prepared_array \<Rightarrow> u64 \<Rightarrow> array_value res" where
  "prepared_decode_row p row =
     (if ea_row_count (pa_array p) \<le> row then Fail OffsetRange
      else
        case pa_repr p of
          PR_Direct \<Rightarrow> decode_row (pa_array p) row
        | PR_DecodedValues vs \<Rightarrow> ok_or OffsetRange (get vs (unat row))
        | PR_VariableOffsets os \<Rightarrow>
            and_then (array_is_null (pa_array p) row) (\<lambda>null.
            if null then Ok AV_Null
            else and_then (offset_for_row os row) (variable_row (vo_kind os) (ea_data (pa_array p)))))"

definition prepared_decode_selected_rows :: "prepared_array \<Rightarrow> u32 list \<Rightarrow> array_value list res" where
  "prepared_decode_selected_rows p selected_rows = try_map (\<lambda>row. prepared_decode_row p (ucast row)) selected_rows"

definition prepared_decode_all_rows :: "prepared_array \<Rightarrow> array_value list res" where
  "prepared_decode_all_rows p =
     (case pa_repr p of
        PR_DecodedValues vs \<Rightarrow> Ok vs
      | _ \<Rightarrow>
          and_then (expected_row_count (ea_row_count (pa_array p))) (\<lambda>_.
          try_map (prepared_decode_row p) (array_rows (pa_array p))))"

section \<open>One item of variable width\<close>

text \<open>
  The item at a position: its value and where the next one starts. The loops above skip, list
  or collect items; each of their rounds is characterised by \<open>item_at\<close>.
\<close>

definition item_at :: "variable_offset_kind \<Rightarrow> bytes \<Rightarrow> nat \<Rightarrow> (array_value \<times> nat) option" where
  "item_at k bs p =
     (case k of
        VO_PlainVarint \<Rightarrow>
          if p < length bs then
            (case decode_u64_leb128 (drop p bs) of Inr (v, c) \<Rightarrow> Some (AV_Varint v, p + c) | Inl _ \<Rightarrow> None)
          else None
      | VO_VarBytes \<Rightarrow>
          let n = unat (of_le (sub bs p 4) :: u32) in
          if p + 4 + n \<le> length bs then Some (AV_Bytes (sub bs (p + 4) n), p + 4 + n) else None
      | VO_CanonicalLengthPrefixed \<Rightarrow>
          if p \<le> length bs then
            (case decode_u64_leb128 (drop p bs) of
               Inr (v, c) \<Rightarrow>
                 if p + c + unat v \<le> length bs then Some (AV_Bytes (sub bs (p + c) (unat v)), p + c + unat v) else None
             | Inl _ \<Rightarrow> None)
          else None)"

definition variable_skip :: "variable_offset_kind \<Rightarrow> bytes \<Rightarrow> nat \<Rightarrow> nat \<Rightarrow> nat res" where
  "variable_skip k = (case k of VO_PlainVarint \<Rightarrow> varint_skip | VO_VarBytes \<Rightarrow> varbytes_skip
     | VO_CanonicalLengthPrefixed \<Rightarrow> canonical_skip)"

definition variable_list :: "variable_offset_kind \<Rightarrow> bytes \<Rightarrow> nat \<Rightarrow> nat \<Rightarrow> nat list res" where
  "variable_list k = (case k of VO_PlainVarint \<Rightarrow> varint_offsets | VO_VarBytes \<Rightarrow> varbytes_offsets
     | VO_CanonicalLengthPrefixed \<Rightarrow> canonical_offsets)"

definition variable_rows :: "variable_offset_kind \<Rightarrow> encoded_array \<Rightarrow> nat \<Rightarrow> u64 list \<Rightarrow> array_value list res" where
  "variable_rows k = (case k of VO_PlainVarint \<Rightarrow> plain_varint_rows | VO_VarBytes \<Rightarrow> varbytes_rows
     | VO_CanonicalLengthPrefixed \<Rightarrow> canonical_prefixed_rows)"

lemma expected_row_count_Ok [simp]: "expected_row_count n = Ok (unat n)"
  using unsigned_less [where 'a = nat, of n] by (simp add: expected_row_count_def usize_limit_def)

lemmas step_simps = item_at_def Let_def ok_iffs slice_from_def checked_add_eq_Some_iff read_words_Ok_iff
  varbytes_next_def canonical_next_def not_le bind_eq_Some_conv

lemma item_bounds: "item_at k bs p = Some (v, q) \<Longrightarrow> p \<le> q \<and> q \<le> length bs"
  using decode_u64_leb128_Ok(2) [of "drop p bs"]
  by (cases k) (auto simp: item_at_def Let_def split: if_splits sum.splits)

lemma variable_skip_step:
  assumes lim: "length bs < usize_limit"
  shows "variable_skip k bs (Suc n) p = Inr r \<longleftrightarrow> (\<exists>v q. item_at k bs p = Some (v, q) \<and> variable_skip k bs n q = Inr r)"
  using lim decode_u64_leb128_Ok(2) [of "drop p bs"]
  by (cases k; cases "decode_u64_leb128 (drop p bs)") (auto simp: variable_skip_def step_simps split: if_splits prod.splits)

lemma variable_list_step:
  assumes lim: "length bs < usize_limit"
  shows "variable_list k bs (Suc n) p = Inr os \<longleftrightarrow>
     (\<exists>v q os'. item_at k bs p = Some (v, q) \<and> variable_list k bs n q = Inr os' \<and> os = p # os')"
  using lim decode_u64_leb128_Ok(2) [of "drop p bs"]
  by (cases k; cases "decode_u64_leb128 (drop p bs)") (auto simp: variable_list_def step_simps split: if_splits prod.splits)

lemma variable_row_iff:
  assumes lim: "length bs < usize_limit"
  shows "variable_row k bs p = Inr v \<longleftrightarrow> (\<exists>q. item_at k bs p = Some (v, q))"
  using lim decode_u64_leb128_Ok(2) [of "drop p bs"]
  by (cases k; cases "decode_u64_leb128 (drop p bs)")
    (auto simp: variable_row_def varint_at_def varbytes_at_def canonical_at_def step_simps read_range_Ok_iff split: if_splits prod.splits)

lemma variable_rows_step:
  assumes "length (ea_data a) < usize_limit"
  shows "variable_rows k a p (r # rs) = Inr out \<longleftrightarrow>
    (\<exists>v q x xs. item_at k (ea_data a) p = Some (v, q) \<and> row_or_null a r (Ok v) = Inr x \<and>
       variable_rows k a q rs = Inr xs \<and> out = x # xs)"
  using assms decode_u64_leb128_Ok(2) [of "drop p (ea_data a)"]
  by (cases k; cases "decode_u64_leb128 (drop p (ea_data a))")
    (auto simp: variable_rows_def step_simps read_range_Ok_iff split: if_splits prod.splits)

lemma variable_rows_items:
  assumes lim: "length (ea_data a) < usize_limit"
  shows "variable_rows k a p rs = Inr out \<Longrightarrow> length out = length rs \<and>
    (\<exists>os. variable_list k (ea_data a) (length rs) p = Ok os \<and> length os = length rs \<and>
      (\<forall>i < length rs. variable_skip k (ea_data a) i p = Ok (os ! i) \<and>
        (\<exists>v. variable_row k (ea_data a) (os ! i) = Ok v \<and> row_or_null a (rs ! i) (Ok v) = Ok (out ! i))))"
proof (induction rs arbitrary: p out)
  case Nil
  then show ?case by (cases k) (simp_all add: variable_rows_def variable_list_def)
next
  case (Cons r rs)
  from Cons.prems obtain v q x xs where i: "item_at k (ea_data a) p = Some (v, q)" and x: "row_or_null a r (Ok v) = Ok x"
    and xs: "variable_rows k a q rs = Ok xs" and out: "out = x # xs"
    by (auto simp: variable_rows_step [OF lim])
  from Cons.IH [OF xs] obtain os where os: "length xs = length rs" "variable_list k (ea_data a) (length rs) q = Ok os"
    "length os = length rs" and
    ix: "\<And>i. i < length rs \<Longrightarrow> variable_skip k (ea_data a) i q = Ok (os ! i) \<and>
      (\<exists>v. variable_row k (ea_data a) (os ! i) = Ok v \<and> row_or_null a (rs ! i) (Ok v) = Ok (xs ! i))" by blast
  have l: "variable_list k (ea_data a) (length (r # rs)) p = Ok (p # os)"
    using i os by (simp add: variable_list_step [OF lim])
  have s0: "variable_skip k bs 0 p = Ok p" for bs by (cases k) (simp_all add: variable_skip_def)
  have "variable_skip k (ea_data a) i p = Ok ((p # os) ! i) \<and>
      (\<exists>v. variable_row k (ea_data a) ((p # os) ! i) = Ok v \<and> row_or_null a ((r # rs) ! i) (Ok v) = Ok (out ! i))"
    if "i < length (r # rs)" for i
  proof (cases i)
    case 0
    then show ?thesis using i x s0 by (auto simp: variable_row_iff [OF lim] out)
  next
    case (Suc j)
    then have j: "j < length rs" using that by simp
    have "variable_skip k (ea_data a) (Suc j) p = Ok (os ! j)"
      using i ix [OF j] by (auto simp: variable_skip_step [OF lim])
    then show ?thesis using ix [OF j] by (simp add: Suc out)
  qed
  then show ?case using l os by (auto simp: out)
qed

section \<open>The three accesses agree\<close>

lemma u64_of_nat: "i < unat (n :: u64) \<Longrightarrow> unat (of_nat i :: u64) = i"
  using unsigned_less [where 'a = nat, of n] by (intro unat_of_nat_less) simp

lemma u64_row_less: "i < unat (n :: u64) \<Longrightarrow> \<not> n \<le> of_nat i"
  using u64_of_nat [of i n] by (simp add: word_le_nat_alt)

lemma length_array_rows [simp]: "length (array_rows a) = unat (ea_row_count a)"
  by (simp add: array_rows_def)

lemma nth_array_rows [simp]: "i < unat (ea_row_count a) \<Longrightarrow> array_rows a ! i = of_nat i"
  by (simp add: array_rows_def)

lemma decode_row_eq: "i < unat (ea_row_count a) \<Longrightarrow> decode_row a (of_nat i) = row_or_null a (of_nat i) (decode_present_row a (of_nat i))"
  by (simp add: decode_row_def row_or_null_def u64_row_less)

definition rows_are :: "encoded_array \<Rightarrow> array_value list \<Rightarrow> bool" where
  "rows_are a out \<longleftrightarrow> length out = unat (ea_row_count a) \<and>
     (\<forall>i < unat (ea_row_count a). decode_row a (of_nat i) = Ok (out ! i))"

lemma collect_rows_are: "collect_rows a (decode_present_row a) = Ok out \<Longrightarrow> rows_are a out"
proof -
  assume "collect_rows a (decode_present_row a) = Ok out"
  then have t: "try_map (\<lambda>row. row_or_null a row (decode_present_row a row)) (array_rows a) = Ok out"
    by (simp add: collect_rows_def)
  show ?thesis using try_map_length [OF t] try_map_nth [OF t] by (simp add: rows_are_def decode_row_eq)
qed

lemma enumerated_rows:
  assumes "try_map (\<lambda>(row, v). row_or_null a (of_nat row) (f v)) (enumerate 0 vs) = Ok out"
    "length vs = unat (ea_row_count a)" "\<And>i. i < length vs \<Longrightarrow> decode_present_row a (of_nat i) = f (vs ! i)"
  shows "rows_are a out"
proof -
  have "length out = length vs" using try_map_length [OF assms(1)] by simp
  moreover have "row_or_null a (of_nat i) (f (vs ! i)) = Ok (out ! i)" if "i < length vs" for i
    using try_map_nth [OF assms(1), of i] that by (simp add: nth_enumerate_eq)
  ultimately show ?thesis using assms(2,3) by (simp add: rows_are_def decode_row_eq)
qed

lemma local_codebook_rows_are:
  assumes "ea_encoding a = EK_LocalCodebook" "decode_all_rows a = Ok out"
  shows "rows_are a out"
proof -
  from assms obtain p vs where p: "local_codebook_parse (ea_data a) = Ok p" "local_codebook_decode_values p = Ok vs"
    and l: "length vs = unat (ea_row_count a)"
    and t: "try_map (\<lambda>(row, v). row_or_null a (of_nat row) (value_from_local_codebook a v)) (enumerate 0 vs) = Ok out"
    by (auto simp: decode_all_rows_def values_from_local_codebook_values_def ok_iffs)
  have "decode_present_row a (of_nat i) = value_from_local_codebook a (vs ! i)" if "i < length vs" for i
    using that p l u64_of_nat [of i "ea_row_count a"] by (simp add: decode_present_row_def assms(1) get_def)
  then show ?thesis by (rule enumerated_rows [OF t l])
qed

lemma cascade_rows_are:
  assumes c: "cascade_values (ea_encoding a) (ea_data a) = Some r" and d: "decode_all_rows a = Ok out"
  shows "rows_are a out"
proof -
  have e: "decode_all_rows a = and_then r (values_from_i64_values a)"
    "\<And>row. decode_present_row a row = and_then r (value_from_i64_slice a row)"
    using c by (auto simp: decode_all_rows_def decode_present_row_def cascade_values_def split: encoding_kind.splits)
  from d [unfolded e] obtain vs where r: "r = Ok vs" and l: "length vs = unat (ea_row_count a)"
    and t: "try_map (\<lambda>(row, v). row_or_null a (of_nat row) (value_from_i64 a v)) (enumerate 0 vs) = Ok out"
    by (auto simp: values_from_i64_values_def ok_iffs)
  have "decode_present_row a (of_nat i) = value_from_i64 a (vs ! i)" if "i < length vs" for i
    unfolding e r using that l u64_of_nat [of i "ea_row_count a"] by (simp add: value_from_i64_slice_def get_def)
  then show ?thesis by (rule enumerated_rows [OF t l])
qed

text \<open>Which pages have items of variable width.\<close>

definition variable_kind :: "encoded_array \<Rightarrow> variable_offset_kind option" where
  "variable_kind a =
     (case ea_encoding a of
        EK_PlainVarint \<Rightarrow> Some VO_PlainVarint
      | EK_VarBytes \<Rightarrow> Some VO_VarBytes
      | EK_Canonical \<Rightarrow> if canonical_text (ea_logical a) then Some VO_CanonicalLengthPrefixed else None
      | _ \<Rightarrow> None)"

lemma variable_kind_present:
  "variable_kind a = Some k \<Longrightarrow>
   decode_present_row a row = and_then (variable_skip k (ea_data a) (unat row) 0) (variable_row k (ea_data a))"
  by (auto simp: variable_kind_def decode_present_row_def decode_canonical_row_def canonical_text_def variable_skip_def
      variable_row_def [abs_def] split: encoding_kind.splits if_splits)

lemma variable_kind_all:
  "variable_kind a = Some k \<Longrightarrow> decode_all_rows a = variable_rows k a 0 (array_rows a)"
  by (auto simp: variable_kind_def decode_all_rows_def decode_all_canonical_rows_def canonical_text_def variable_rows_def
      decode_all_plain_varint_rows_def decode_all_varbytes_rows_def decode_all_canonical_length_prefixed_rows_def
      split: encoding_kind.splits if_splits)

lemma variable_kind_prepared:
  "variable_kind a = Some k \<Longrightarrow> prepared_new a =
   map_ok (\<lambda>os. \<lparr>pa_array = a, pa_repr = PR_VariableOffsets \<lparr>vo_kind = k, vo_row_offsets = os\<rparr>\<rparr>)
     (variable_list k (ea_data a) (unat (ea_row_count a)) 0)"
  by (auto simp: variable_kind_def prepared_new_def variable_list_def offsets_plain_varint_def offsets_varbytes_def
      offsets_canonical_length_prefixed_def map_ok_def split: encoding_kind.splits if_splits sum.splits)

lemma variable_reads:
  assumes k: "variable_kind a = Some k" and d: "decode_all_rows a = Ok out" and lim: "length (ea_data a) < usize_limit"
  shows "rows_are a out \<and> (\<exists>p. prepared_new a = Ok p \<and> prepared_decode_all_rows p = Ok out \<and>
    (\<forall>i < unat (ea_row_count a). prepared_decode_row p (of_nat i) = Ok (out ! i)))"
proof -
  let ?n = "unat (ea_row_count a)"
  from variable_rows_items [OF lim d [unfolded variable_kind_all [OF k]]] obtain os where
    l: "length out = ?n" and os: "variable_list k (ea_data a) ?n 0 = Ok os" "length os = ?n" and
    i: "\<And>i. i < ?n \<Longrightarrow> variable_skip k (ea_data a) i 0 = Ok (os ! i) \<and>
      (\<exists>v. variable_row k (ea_data a) (os ! i) = Ok v \<and> row_or_null a (of_nat i) (Ok v) = Ok (out ! i))"
    by auto
  define p where "p = \<lparr>pa_array = a, pa_repr = PR_VariableOffsets \<lparr>vo_kind = k, vo_row_offsets = os\<rparr>\<rparr>"
  have r: "rows_are a out"
    using l i u64_of_nat [of _ "ea_row_count a"] by (fastforce simp: rows_are_def decode_row_eq variable_kind_present [OF k])
  have pr: "prepared_decode_row p (of_nat j) = Ok (out ! j)" if "j < ?n" for j
  proof -
    from i [OF that] obtain v where v: "variable_row k (ea_data a) (os ! j) = Ok v" "row_or_null a (of_nat j) (Ok v) = Ok (out ! j)"
      by blast
    have "prepared_decode_row p (of_nat j) = row_or_null a (of_nat j) (variable_row k (ea_data a) (os ! j))"
      using that os(2) u64_of_nat [OF that] u64_row_less [OF that]
      by (cases "array_is_null a (of_nat j)") (simp_all add: prepared_decode_row_def p_def offset_for_row_def get_def row_or_null_def)
    then show ?thesis using v by simp
  qed
  have "try_map (prepared_decode_row p) (array_rows a) = Ok (map (\<lambda>r. out ! unat r) (array_rows a))"
    using pr u64_of_nat [of _ "ea_row_count a"] by (intro try_map_Ok) (auto simp: array_rows_def)
  also have "map (\<lambda>r. out ! unat r) (array_rows a) = out"
    using l u64_of_nat [of _ "ea_row_count a"] by (intro nth_equalityI) simp_all
  finally have "prepared_decode_all_rows p = Ok out" by (simp add: prepared_decode_all_rows_def p_def)
  moreover have "prepared_new a = Ok p" by (simp add: variable_kind_prepared [OF k] os p_def)
  ultimately show ?thesis using r pr by blast
qed

lemma direct_reads:
  assumes r: "rows_are a out" and p: "prepared_new a = Ok \<lparr>pa_array = a, pa_repr = PR_Direct\<rparr>"
  shows "\<exists>p. prepared_new a = Ok p \<and> prepared_decode_all_rows p = Ok out \<and>
    (\<forall>i < unat (ea_row_count a). prepared_decode_row p (of_nat i) = Ok (out ! i))"
proof -
  let ?p = "\<lparr>pa_array = a, pa_repr = PR_Direct\<rparr>"
  have d: "prepared_decode_row ?p (of_nat i) = Ok (out ! i)" if "i < unat (ea_row_count a)" for i
    using r that u64_row_less [OF that] by (simp add: prepared_decode_row_def rows_are_def)
  have "try_map (prepared_decode_row ?p) (array_rows a) = Ok (map (\<lambda>r. out ! unat r) (array_rows a))"
    using d u64_of_nat [of _ "ea_row_count a"] by (intro try_map_Ok) (auto simp: array_rows_def)
  also have "map (\<lambda>r. out ! unat r) (array_rows a) = out"
    using r u64_of_nat [of _ "ea_row_count a"] by (intro nth_equalityI) (simp_all add: rows_are_def)
  finally have "prepared_decode_all_rows ?p = Ok out" by (simp add: prepared_decode_all_rows_def)
  then show ?thesis using d p by blast
qed

lemma decoded_reads:
  assumes r: "rows_are a out" and p: "prepared_new a = Ok \<lparr>pa_array = a, pa_repr = PR_DecodedValues out\<rparr>"
  shows "\<exists>p. prepared_new a = Ok p \<and> prepared_decode_all_rows p = Ok out \<and>
    (\<forall>i < unat (ea_row_count a). prepared_decode_row p (of_nat i) = Ok (out ! i))"
  using r p u64_of_nat [of _ "ea_row_count a"] u64_row_less [of _ "ea_row_count a"]
  by (auto simp: rows_are_def prepared_decode_all_rows_def prepared_decode_row_def get_def)

text \<open>A validity bitmap that says of each row whether it is null.\<close>

definition rows_covered :: "encoded_array \<Rightarrow> bool" where
  "rows_covered a \<longleftrightarrow> (\<forall>i < unat (ea_row_count a). is_ok (array_is_null a (of_nat i)))"

lemma canonical_fixed_rows_are:
  assumes e: "ea_encoding a = EK_Canonical" and t: "\<not> canonical_text (ea_logical a)" and c: "rows_covered a"
    and d: "decode_all_rows a = Ok out"
  shows "rows_are a out"
proof (cases "ea_logical a = LT_Null")
  case True
  then show ?thesis
    using c d by (auto simp: decode_all_rows_def decode_all_canonical_rows_def e rows_are_def decode_row_eq rows_covered_def
        row_or_null_def decode_present_row_def decode_canonical_row_def is_ok_iff)
next
  case False
  show ?thesis
  proof (cases "ea_logical a = LT_Bool")
    case True
    then show ?thesis using d by (simp add: decode_all_rows_def e decode_all_canonical_rows_def collect_rows_are)
  next
    case b: False
    let ?f = "\<lambda>w row. and_then (ok_or ArithOverflow (checked_mul (unat row) w)) (\<lambda>offset.
        and_then (read_range_checked (ea_data a) offset w) (\<lambda>raw. row_or_null a row (Ok (AV_Bytes raw))))"
    have q: "decode_all_rows a = and_then (ok_or (UnsupportedEncoding (''Canonical row decode unsupported for '' @
        logical_type_debug (ea_logical a))) (logical_type_fixed_width (ea_logical a))) (\<lambda>w.
        and_then (expected_row_count (ea_row_count a)) (\<lambda>_. try_map (?f w) (array_rows a)))"
      using b False t
      unfolding decode_all_rows_def e decode_all_canonical_rows_def canonical_text_def
      by (cases "ea_logical a") (simp_all del: logical_type_debug.simps)
    obtain w where w: "logical_type_fixed_width (ea_logical a) = Some w" and m: "try_map (?f w) (array_rows a) = Ok out"
      using d unfolding q by (auto simp: ok_iffs)
    have "decode_present_row a row = and_then (ok_or ArithOverflow (checked_mul (unat row) w)) (\<lambda>offset.
        map_ok AV_Bytes (read_range_checked (ea_data a) offset w))" for row
      using w b False t unfolding decode_present_row_def e decode_canonical_row_def canonical_text_def
      by (cases "ea_logical a") (simp_all del: logical_type_debug.simps)
    then have "decode_row a (of_nat i) = Ok (out ! i)" if "i < unat (ea_row_count a)" for i
      using try_map_nth [OF m, of i] that by (auto simp: decode_row_eq ok_iffs)
    then show ?thesis using try_map_length [OF m] by (simp add: rows_are_def)
  qed
qed

lemma array_reads:
  assumes d: "decode_all_rows a = Ok out" and lim: "length (ea_data a) < usize_limit" and c: "rows_covered a"
  shows "rows_are a out \<and> (\<exists>p. prepared_new a = Ok p \<and> prepared_decode_all_rows p = Ok out \<and>
    (\<forall>i < unat (ea_row_count a). prepared_decode_row p (of_nat i) = Ok (out ! i)))"
proof (cases "variable_kind a")
  case (Some k)
  then show ?thesis using variable_reads [OF _ d lim] by blast
next
  case None
  consider (lc) "ea_encoding a = EK_LocalCodebook" | (cas) r where "cascade_values (ea_encoding a) (ea_data a) = Some r"
    | (can) "ea_encoding a = EK_Canonical" "\<not> canonical_text (ea_logical a)"
    | (dir) "cascade_values (ea_encoding a) (ea_data a) = None" "ea_encoding a \<notin> {EK_LocalCodebook, EK_Canonical, EK_PlainVarint, EK_VarBytes}"
    using None by (cases "ea_encoding a") (auto simp: variable_kind_def cascade_values_def split: if_splits)
  then show ?thesis
  proof cases
    case lc
    have "rows_are a out" by (rule local_codebook_rows_are [OF lc d])
    then show ?thesis using d decoded_reads by (simp add: prepared_new_def lc)
  next
    case cas
    have "rows_are a out" by (rule cascade_rows_are [OF cas d])
    moreover have "prepared_new a = Ok \<lparr>pa_array = a, pa_repr = PR_DecodedValues out\<rparr>"
      using cas d by (auto simp: prepared_new_def cascade_values_def split: encoding_kind.splits)
    ultimately show ?thesis using decoded_reads by blast
  next
    case can
    have "rows_are a out" by (rule canonical_fixed_rows_are [OF can c d])
    then show ?thesis using direct_reads can by (simp add: prepared_new_def)
  next
    case dir
    have "rows_are a out"
      using d dir by (intro collect_rows_are) (auto simp: decode_all_rows_def split: encoding_kind.splits)
    moreover have "prepared_new a = Ok \<lparr>pa_array = a, pa_repr = PR_Direct\<rparr>"
      using dir by (auto simp: prepared_new_def cascade_values_def split: encoding_kind.splits)
    ultimately show ?thesis using direct_reads by blast
  qed
qed

section \<open>No panic\<close>

definition dictionary_safe :: "encoded_array \<Rightarrow> bool" where
  "dictionary_safe a \<longleftrightarrow> (\<forall>d. ea_dictionary a = Some d \<longrightarrow> (\<forall>c. no_panic (dictionary_decode_value d c)))"

lemma no_panic_array_is_null [no_panic_intros, simp]: "no_panic (array_is_null a row)"
  by (auto simp: array_is_null_def is_null_def Let_def intro!: no_panic_intros split: option.splits)

lemma no_panic_row_or_null [no_panic_intros]: "no_panic v \<Longrightarrow> no_panic (row_or_null a row v)"
  by (auto simp: row_or_null_def intro!: no_panic_intros)

lemma no_panic_variable_rows:
  "p \<le> length (ea_data a) \<Longrightarrow> no_panic (variable_rows k a p rs)"
proof (induction rs arbitrary: p)
  case (Cons r rs)
  note ih = Cons.IH [unfolded variable_rows_def]
  show ?case
  proof (cases k)
    case VO_PlainVarint
    then show ?thesis
      using Cons.prems ih decode_u64_leb128_Ok(2) [of "drop p (ea_data a)"]
      by (fastforce simp: variable_rows_def slice_from_def checked_add_eq_Some_iff ok_iffs intro!: no_panic_intros split: prod.splits)
  next
    case VO_VarBytes
    then show ?thesis
      using Cons.prems ih
      by (fastforce simp: variable_rows_def checked_add_eq_Some_iff ok_iffs read_range_Ok_iff intro!: no_panic_intros)
  next
    case VO_CanonicalLengthPrefixed
    then show ?thesis
      using Cons.prems ih
      by (fastforce simp: variable_rows_def slice_from_def checked_add_eq_Some_iff ok_iffs read_range_Ok_iff intro!: no_panic_intros split: prod.splits)
  qed
qed (cases k, simp_all add: variable_rows_def)

lemma no_panic_variable_skip: "p \<le> length bs \<Longrightarrow> no_panic (variable_skip k bs n p)"
proof (induction n arbitrary: p)
  case (Suc n)
  note ih = Suc.IH [unfolded variable_skip_def]
  show ?case
  proof (cases k)
    case VO_PlainVarint
    then show ?thesis
      using Suc.prems ih decode_u64_leb128_Ok(2) [of "drop p bs"]
      by (fastforce simp: variable_skip_def slice_from_def checked_add_eq_Some_iff ok_iffs intro!: no_panic_intros split: prod.splits)
  next
    case VO_VarBytes
    then show ?thesis
      using Suc.prems ih
      by (fastforce simp: variable_skip_def not_less ok_iffs intro!: no_panic_intros)
  next
    case VO_CanonicalLengthPrefixed
    then show ?thesis
      using Suc.prems ih
      by (fastforce simp: variable_skip_def slice_from_def not_less ok_iffs intro!: no_panic_intros split: prod.splits)
  qed
qed (cases k, simp_all add: variable_skip_def)

lemma variable_skip_bounds:
  "length bs < usize_limit \<Longrightarrow> p \<le> length bs \<Longrightarrow> variable_skip k bs n p = Ok q \<Longrightarrow> q \<le> length bs"
proof (induction n arbitrary: p)
  case 0
  then show ?case by (cases k) (simp_all add: variable_skip_def)
next
  case (Suc n)
  then show ?case by (auto simp: variable_skip_step dest: item_bounds)
qed

lemma no_panic_variable_row: "p \<le> length bs \<Longrightarrow> no_panic (variable_row k bs p)"
  by (cases k) (auto simp: variable_row_def varint_at_def varbytes_at_def canonical_at_def slice_from_def
      intro!: no_panic_intros split: prod.splits)

lemma no_panic_cascade: "cascade_values k bs = Some r \<Longrightarrow> no_panic r"
  by (cases k) (auto simp: cascade_values_def intro!: no_panic_intros run_end.decode_no_panic sparse.decode_no_panic
      patched_base.decode_no_panic rle.fast_no_panic bit_packed.fast_no_panic delta.decode_no_panic frame_of_reference.decode_no_panic
      dest: run_end_parse_Ok sparse_parse_Ok patched_base_parse_Ok rle.parse_wf bit_packed.parse_wf delta_parse_Ok for_parse_Ok)

lemma no_panic_local_values: "no_panic (and_then (local_codebook_parse bs) local_codebook_decode_values)"
proof (rule no_panic_and_then)
  show "no_panic (local_codebook_parse bs)" by simp
  show "no_panic (local_codebook_decode_values p)" if "local_codebook_parse bs = Inr p" for p
    using decode_values_total [OF local_codebook_parse_Ok [OF that]] by auto
qed

lemma no_panic_code_value: "dictionary_safe a \<Longrightarrow> no_panic (code_value a c)"
  by (auto simp: code_value_def dictionary_safe_def intro!: no_panic_intros split: option.splits)

lemma no_panic_value_from_i64: "dictionary_safe a \<Longrightarrow> no_panic (value_from_i64 a v)"
  by (auto simp: value_from_i64_def intro!: no_panic_intros no_panic_code_value split: physical_kind.splits)

lemma no_panic_value_from_local_codebook: "dictionary_safe a \<Longrightarrow> no_panic (value_from_local_codebook a v)"
  by (cases v) (auto intro: no_panic_code_value)

lemma no_panic_variable_present:
  "length (ea_data a) < usize_limit \<Longrightarrow> no_panic (and_then (variable_skip k (ea_data a) n 0) (variable_row k (ea_data a)))"
  by (intro no_panic_and_then no_panic_variable_skip no_panic_variable_row) (auto dest: variable_skip_bounds)

lemma no_panic_decode_present_row:
  assumes lim: "length (ea_data a) < usize_limit" and dict: "dictionary_safe a"
  shows "no_panic (decode_present_row a row)"
proof -
  have v: "no_panic (and_then (varint_skip (ea_data a) n 0) (varint_at (ea_data a)))"
    "no_panic (and_then (varbytes_skip (ea_data a) n 0) (varbytes_at (ea_data a)))"
    "no_panic (and_then (canonical_skip (ea_data a) n 0) (canonical_at (ea_data a)))" for n
    using no_panic_variable_present [OF lim, of VO_PlainVarint n] no_panic_variable_present [OF lim, of VO_VarBytes n]
      no_panic_variable_present [OF lim, of VO_CanonicalLengthPrefixed n]
    by (simp_all add: variable_skip_def variable_row_def [abs_def])
  have l: "no_panic (local_codebook_decode_values p)" if "local_codebook_parse (ea_data a) = Inr p" for p
    using decode_values_total [OF local_codebook_parse_Ok [OF that]] by auto
  have c: "no_panic (decode_canonical_row a row)"
    using v by (cases "ea_logical a") (auto simp: decode_canonical_row_def intro!: no_panic_intros)
  show ?thesis
  proof (cases "cascade_values (ea_encoding a) (ea_data a)")
    case (Some r)
    have "decode_present_row a row = and_then r (value_from_i64_slice a row)"
      using Some by (auto simp: decode_present_row_def cascade_values_def split: encoding_kind.splits)
    then show ?thesis
      using no_panic_cascade [OF Some]
      by (auto simp: value_from_i64_slice_def intro!: no_panic_intros no_panic_value_from_i64 dict)
  next
    case None
    then show ?thesis
      using v c
      by (cases "ea_encoding a")
        (auto simp: decode_present_row_def value_from_constant_payload_def cascade_values_def Let_def
          intro!: l no_panic_intros no_panic_code_value no_panic_value_from_i64 no_panic_value_from_local_codebook dict)
  qed
qed

text \<open>
  C12: the three ways to read a page agree. Whenever \<^verbatim>\<open>decode_all_rows\<close> reads a page whole, it
  returns one value per row, \<^verbatim>\<open>decode_row\<close> returns the same value for each row on its own
  (although for items of variable width it walks the page from its start each time), and the
  prepared access can be built and reads the same rows, one by one or all at once. The validity
  bitmap must cover the rows.
\<close>

theorem array_reads_agree:
  assumes "decode_all_rows a = Ok out" "length (ea_data a) < usize_limit" "rows_covered a"
  shows "length out = unat (ea_row_count a) \<and> (\<forall>i < unat (ea_row_count a). decode_row a (of_nat i) = Ok (out ! i)) \<and>
    (\<exists>p. prepared_new a = Ok p \<and> prepared_decode_all_rows p = Ok out \<and>
      (\<forall>i < unat (ea_row_count a). prepared_decode_row p (of_nat i) = Ok (out ! i)))"
  using array_reads [OF assms] by (simp add: rows_are_def)

definition text_array :: encoded_array where
  "text_array = \<lparr>ea_logical = LT_Utf8, ea_physical = PK_VarBytes, ea_row_count = 3, ea_encoding = EK_VarBytes,
     ea_validity = Some \<lparr>vb_bytes = [2], vb_row_count = 3\<rparr>, ea_data = [1, 0, 0, 0, 65, 0, 0, 0, 0, 2, 0, 0, 0, 66, 67],
     ea_dictionary = None\<rparr>"

theorem array_reads_agree_witness:
  "decode_all_rows text_array = Ok [AV_Bytes [65], AV_Null, AV_Bytes [66, 67]] \<and> decode_row text_array 2 = Ok (AV_Bytes [66, 67])"
proof -
  have r: "array_rows text_array = [0, 1, 2]" by (simp add: array_rows_def text_array_def upt_rec)
  have f: "ea_encoding text_array = EK_VarBytes" "ea_data text_array = [1, 0, 0, 0, 65, 0, 0, 0, 0, 2, 0, 0, 0, 66, 67]"
    by (simp_all add: text_array_def)
  have n: "array_is_null text_array 0 = Ok False" "array_is_null text_array 1 = Ok True" "array_is_null text_array 2 = Ok False" by code_simp+
  have d: "decode_all_rows text_array = Ok [AV_Bytes [65], AV_Null, AV_Bytes [66, 67]]"
    unfolding decode_all_rows_def decode_all_varbytes_rows_def expected_row_count_Ok and_then_simps r f
    by (simp add: f n row_or_null_def wire_simps usize_limit_def checked_add_def sub_def)
  have u: "unat (ea_row_count text_array) = 3" "ea_data text_array = [1, 0, 0, 0, 65, 0, 0, 0, 0, 2, 0, 0, 0, 66, 67]"
    by (simp_all add: text_array_def)
  have "is_ok (array_is_null text_array (of_nat i))" if "i < 3" for i
  proof -
    have "i = 0 \<or> i = 1 \<or> i = 2" using that by auto
    then show ?thesis using n by auto
  qed
  then have c: "rows_covered text_array" unfolding rows_covered_def u by blast
  have l: "length (ea_data text_array) < usize_limit" by (simp add: u usize_limit_def)
  have "\<forall>i < 3. decode_row text_array (of_nat i) = Ok ([AV_Bytes [65], AV_Null, AV_Bytes [66, 67]] ! i)"
    using array_reads_agree [OF d l c] unfolding u by blast
  then have "decode_row text_array (of_nat 2) = Ok ([AV_Bytes [65], AV_Null, AV_Bytes [66, 67]] ! 2)" by (elim allE [of _ 2] impE) simp_all
  then show ?thesis using d by simp
qed
end
