(* ===== verification/Nested_Schema.thy ===== *)
theory Nested_Schema
  imports Table_Catalog Cursor
begin

text \<open>
  The child schema of nested columns (\<^verbatim>\<open>nested_schema.rs\<close>): a section of trees, one for each
  List, Struct or Map column. The recursive reader is exact, and an accepted section fits its
  catalogue when it describes every nested column and nothing else.
\<close>

section \<open>Nodes\<close>

datatype nested_schema_node =
  NSNode (ns_name: bytes) (ns_logical: logical_type) (ns_physical: physical_kind) (ns_nullable: bool)
    (ns_precision: u16) (ns_scale: u16) (ns_collation_id: u16) (ns_flags: u32) (ns_fixed_size_list_len: u32)
    (ns_children: "nested_schema_node list")

record nested_schema_entry =
  nse_table_id :: u32
  nse_column_id :: u32
  nse_root :: nested_schema_node

definition NESTED_SCHEMA_MAGIC :: bytes where
  "NESTED_SCHEMA_MAGIC = [78, 83, 67, 49]"

definition NESTED_SCHEMA_VERSION :: u16 where
  "NESTED_SCHEMA_VERSION = 1"

definition NESTED_SCHEMA_HEADER_LEN :: nat where
  "NESTED_SCHEMA_HEADER_LEN = 16"

definition scalar_node :: "bytes \<Rightarrow> logical_type \<Rightarrow> physical_kind \<Rightarrow> bool \<Rightarrow> nested_schema_node" where
  "scalar_node name logical physical nullable = NSNode name logical physical nullable 0 0 0 0 0 []"

fun encoded_len_sum :: "nat \<Rightarrow> nat res list \<Rightarrow> nat res" where
  "encoded_len_sum len [] = Ok len"
| "encoded_len_sum len (c # cs) =
     and_then c (\<lambda>n. and_then (ok_or ArithOverflow (checked_add len n)) (\<lambda>len. encoded_len_sum len cs))"

primrec node_encoded_len :: "nested_schema_node \<Rightarrow> nat res" where
  "node_encoded_len (NSNode name logical physical nullable precision scale collation' flags fixed children) =
     and_then (ok_or ArithOverflow (Option.bind (checked_add 2 (length name))
       (\<lambda>v. checked_add v (2 + 1 + 1 + 2 + 2 + 2 + 2 + 4 + 4)))) (\<lambda>len.
     encoded_len_sum len (map node_encoded_len children))"

definition node_head_write :: "nested_schema_node \<Rightarrow> bytes res" where
  "node_head_write t =
     (if \<not> length (ns_name t) < 2 ^ 16 then Fail (BadSchema ''nested schema name exceeds u16::MAX'')
      else if \<not> length (ns_children t) < 2 ^ 16 then Fail (BadSchema ''nested schema has too many children'')
      else Ok (le_bytes 2 (of_nat (length (ns_name t)) :: u16) @ ns_name t @ le_bytes 2 (as_logical_type (ns_logical t)) @
        [as_physical_kind (ns_physical t)] @ [if ns_nullable t then 1 else 0] @ le_bytes 2 (ns_precision t) @
        le_bytes 2 (ns_scale t) @ le_bytes 2 (ns_collation_id t) @ le_bytes 2 (of_nat (length (ns_children t)) :: u16) @
        le_bytes 4 (ns_flags t) @ le_bytes 4 (ns_fixed_size_list_len t)))"

fun concat_ok :: "bytes res list \<Rightarrow> bytes res" where
  "concat_ok [] = Ok []"
| "concat_ok (r # rs) = and_then r (\<lambda>b. map_ok ((@) b) (concat_ok rs))"

primrec node_write :: "nested_schema_node \<Rightarrow> bytes res" where
  "node_write (NSNode name logical physical nullable precision scale collation' flags fixed children) =
     and_then (node_head_write (NSNode name logical physical nullable precision scale collation' flags fixed children)) (\<lambda>head.
     map_ok ((@) head) (concat_ok (map node_write children)))"

definition nested_name_read :: "bytes \<Rightarrow> nat \<Rightarrow> (bytes \<times> nat) res" where
  "nested_name_read bs pos =
     and_then (ok_or ArithOverflow (checked_add pos 2)) (\<lambda>bound.
     if length bs < bound then Fail BufferTooShort
     else
       and_then (read_u16_le_checked bs pos) (\<lambda>name_len.
       and_then (ok_or ArithOverflow (checked_add (pos + 2) (unat name_len))) (\<lambda>name_end.
       if length bs < name_end then Fail BufferTooShort
       else
         and_then (slice bs (pos + 2) name_end) (\<lambda>name.
         if \<not> utf8_valid name then Fail (BadSchema ''nested schema name is not valid UTF-8'') else Ok (name, name_end)))))"

text \<open>The fields of a node before its children; the result takes the children it is still missing.\<close>

definition node_head_read :: "bytes \<Rightarrow> nat \<Rightarrow> ((nested_schema_node list \<Rightarrow> nested_schema_node) \<times> nat \<times> nat) res" where
  "node_head_read bs pos =
     and_then (nested_name_read bs pos) (\<lambda>(name, pos).
     and_then (ok_or ArithOverflow (checked_add pos (2 + 1 + 1 + 2 + 2 + 2 + 2 + 4 + 4))) (\<lambda>bound.
     if length bs < bound then Fail BufferTooShort
     else
       and_then (read_u16_le_checked bs pos) (\<lambda>logical_raw.
       and_then (index bs (pos + 2)) (\<lambda>physical_raw.
       and_then (index bs (pos + 3)) (\<lambda>nullable_raw.
       and_then (if nullable_raw = 0 then Ok False else if nullable_raw = 1 then Ok True
         else Fail (BadSchema (''nested schema nullable flag must be 0 or 1, got '' @ decimal (unat nullable_raw)))) (\<lambda>nullable.
       and_then (read_u16_le_checked bs (pos + 4)) (\<lambda>precision.
       and_then (read_i16_le_checked bs (pos + 6)) (\<lambda>scale.
       and_then (read_u16_le_checked bs (pos + 8)) (\<lambda>collation'.
       and_then (read_u16_le_checked bs (pos + 10)) (\<lambda>child_count.
       and_then (read_u32_le_checked bs (pos + 12)) (\<lambda>flags.
       and_then (read_u32_le_checked bs (pos + 16)) (\<lambda>fixed.
       and_then (ok_or (BadSchema (''unknown nested logical type '' @ decimal (unat logical_raw))) (logical_type_from logical_raw)) (\<lambda>logical.
       and_then (ok_or (BadSchema (''unknown nested physical kind '' @ decimal (unat physical_raw))) (physical_kind_from physical_raw)) (\<lambda>physical.
       Ok (NSNode name logical physical nullable precision scale collation' flags fixed, unat child_count, pos + 20)))))))))))))))"

text \<open>
  The recursion of the reader takes fuel: every node takes at least 22 bytes, so a call with
  more fuel than bytes left never runs out.
\<close>

function (sequential) node_read :: "nat \<Rightarrow> bytes \<Rightarrow> nat \<Rightarrow> (nested_schema_node \<times> nat) res"
  and nodes_read :: "nat \<Rightarrow> bytes \<Rightarrow> nat \<Rightarrow> nat \<Rightarrow> (nested_schema_node list \<times> nat) res"
where
  "node_read 0 bs pos = Panicked"
| "node_read (Suc fuel) bs pos =
     and_then (node_head_read bs pos) (\<lambda>(node, child_count, pos).
     and_then (nodes_read fuel bs child_count pos) (\<lambda>(children, pos).
     Ok (node children, pos)))"
| "nodes_read fuel bs 0 pos = Ok ([], pos)"
| "nodes_read fuel bs (Suc n) pos =
     and_then (node_read fuel bs pos) (\<lambda>(child, pos).
     and_then (nodes_read fuel bs n pos) (\<lambda>(children, pos).
     Ok (child # children, pos)))"
  by pat_completeness auto

termination
  by (relation "inv_image (less_than <*lex*> less_than) (\<lambda>x. case x of
     Inl (fuel, _) \<Rightarrow> (fuel, 0) | Inr (fuel, _, n, _) \<Rightarrow> (fuel, Suc n))") auto

definition node_read_from :: "bytes \<Rightarrow> nat \<Rightarrow> (nested_schema_node \<times> nat) res" where
  "node_read_from bs pos = node_read (Suc (length bs)) bs pos"

definition is_container_kind :: "physical_kind \<Rightarrow> bool" where
  "is_container_kind k \<longleftrightarrow> k = PK_List \<or> k = PK_Struct \<or> k = PK_Map"

definition is_container :: "nested_schema_node \<Rightarrow> bool" where
  "is_container t = is_container_kind (ns_physical t)"

fun first_duplicate :: "'a list \<Rightarrow> 'a list \<Rightarrow> 'a option" where
  "first_duplicate seen [] = None"
| "first_duplicate seen (x # xs) = (if x \<in> set seen then Some x else first_duplicate (x # seen) xs)"

definition validate_children :: "nested_schema_node \<Rightarrow> unit res" where
  "validate_children t =
     (case ns_physical t of
        PK_List \<Rightarrow>
          if length (ns_children t) \<noteq> 1 then Fail (BadSchema ''List nested schema node must have exactly one child'') else Ok ()
      | PK_Struct \<Rightarrow>
          if ns_children t = [] then Fail (BadSchema ''Struct nested schema node must have at least one child'')
          else
            (case first_duplicate [] (map ns_name (ns_children t)) of
               Some name \<Rightarrow> Fail (BadSchema (''Struct nested schema contains duplicate child name '' @ [CHR 0x27] @
                 map (\<lambda>b. char_of (unat b)) name @ [CHR 0x27]))
             | None \<Rightarrow> Ok ())
      | PK_Map \<Rightarrow>
          if length (ns_children t) \<noteq> 2 then Fail (BadSchema ''Map nested schema node must have exactly key and value children'')
          else
            and_then (index (ns_children t) 0) (\<lambda>key.
            if ns_name key \<noteq> [107, 101, 121] then Fail (BadSchema ''Map nested schema first child must be named key'')
            else if ns_nullable key then Fail (BadSchema ''Map nested schema keys must be non-null'')
            else if is_container key then Fail (BadSchema ''Map nested schema keys must be scalar'')
            else
              and_then (index (ns_children t) 1) (\<lambda>val.
              if ns_name val \<noteq> [118, 97, 108, 117, 101] then Fail (BadSchema ''Map nested schema second child must be named value'')
              else Ok ()))
      | _ \<Rightarrow>
          if ns_children t \<noteq> [] then Fail (BadSchema ''Scalar nested schema node must not have children'')
          else if ns_fixed_size_list_len t \<noteq> 0 then Fail (BadSchema ''fixed_size_list_len is valid only on List nodes'')
          else Ok ())"

definition validate_one :: "nested_schema_node \<Rightarrow> bool \<Rightarrow> unit res" where
  "validate_one t is_root =
     (if ns_name t = [] then Fail (BadSchema ''nested schema node name must not be empty'')
      else
        and_then (validate_logical_physical_pair_with_options (ns_logical t) (ns_physical t)
          \<lparr>bool_declared_numeric = (ns_flags t AND COLUMN_FLAG_BOOL_DECLARED_NUMERIC \<noteq> 0)\<rparr>) (\<lambda>_.
        if is_root \<and> \<not> is_container t then Fail (BadSchema ''NestedSchema root must be List, Struct, or Map'')
        else
          and_then (validate_children t) (\<lambda>_.
          if ns_fixed_size_list_len t \<noteq> 0 \<and> ns_physical t \<noteq> PK_List
          then Fail (BadSchema ''fixed_size_list_len is valid only on List nodes'')
          else Ok ())))"

fun each_ok :: "unit res list \<Rightarrow> unit res" where
  "each_ok [] = Ok ()"
| "each_ok (r # rs) = and_then r (\<lambda>_. each_ok rs)"

text \<open>Only the root is held to be a container; the children are validated as inner nodes.\<close>

primrec validate_inner :: "nested_schema_node \<Rightarrow> unit res" where
  "validate_inner (NSNode name logical physical nullable precision scale collation' flags fixed children) =
     and_then (validate_one (NSNode name logical physical nullable precision scale collation' flags fixed children) False) (\<lambda>_.
     each_ok (map validate_inner children))"

definition validate_node :: "nested_schema_node \<Rightarrow> bool \<Rightarrow> unit res" where
  "validate_node t is_root = and_then (validate_one t is_root) (\<lambda>_. each_ok (map validate_inner (ns_children t)))"

section \<open>The section\<close>

definition column_uses_nested_schema :: "column_entry \<Rightarrow> bool" where
  "column_uses_nested_schema c = is_container_kind (ce_physical c)"

definition validate_matches_column :: "nested_schema_node \<Rightarrow> column_entry \<Rightarrow> unit res" where
  "validate_matches_column t c =
     (if ns_name t \<noteq> ce_name c \<or> ns_logical t \<noteq> ce_logical c \<or> ns_physical t \<noteq> ce_physical c \<or>
         ns_nullable t \<noteq> ce_nullable c \<or> ns_precision t \<noteq> ce_precision c \<or> ns_scale t \<noteq> ce_scale c \<or>
         ns_collation_id t \<noteq> ce_collation_id c \<or> ns_flags t \<noteq> ce_flags c
      then Fail (BadSchema (''NestedSchema root does not match table column '' @ decimal (unat (ce_column_id c))))
      else validate_node t True)"

definition nested_entry_write :: "nested_schema_entry \<Rightarrow> bytes res" where
  "nested_entry_write e =
     map_ok (\<lambda>b. le_bytes 4 (nse_table_id e) @ le_bytes 4 (nse_column_id e) @ b) (node_write (nse_root e))"

definition nested_section_serialize :: "nested_schema_entry list \<Rightarrow> bytes res" where
  "nested_section_serialize es =
     (if \<not> length es < 2 ^ 32 then Fail (BadSchema ''too many nested schema entries'')
      else
        map_ok ((@) (NESTED_SCHEMA_MAGIC @ le_bytes 2 NESTED_SCHEMA_VERSION @ le_bytes 2 (of_nat NESTED_SCHEMA_HEADER_LEN :: u16) @
          le_bytes 4 (of_nat (length es) :: u32) @ le_bytes 4 (0 :: u32))) (concat_ok (map nested_entry_write es)))"

definition nested_entry_read :: "bytes \<Rightarrow> nat \<Rightarrow> (nested_schema_entry \<times> nat) res" where
  "nested_entry_read bs pos =
     and_then (ok_or ArithOverflow (checked_add pos 8)) (\<lambda>bound.
     if length bs < bound then Fail BufferTooShort
     else
       and_then (read_u32_le_checked bs pos) (\<lambda>table'.
       and_then (read_u32_le_checked bs (pos + 4)) (\<lambda>column'.
       and_then (node_read_from bs (pos + 4 + 4)) (\<lambda>(root, pos).
       Ok (\<lparr>nse_table_id = table', nse_column_id = column', nse_root = root\<rparr>, pos)))))"

primrec nested_entries_read :: "bytes \<Rightarrow> nat \<Rightarrow> nat \<Rightarrow> (nested_schema_entry list \<times> nat) res" where
  "nested_entries_read bs 0 pos = Ok ([], pos)"
| "nested_entries_read bs (Suc n) pos =
     and_then (nested_entry_read bs pos) (\<lambda>(entry, pos).
     map_ok (\<lambda>(entries, pos). (entry # entries, pos)) (nested_entries_read bs n pos))"

fun nested_validate_loop :: "(u32 \<times> u32) list \<Rightarrow> nested_schema_entry list \<Rightarrow> unit res" where
  "nested_validate_loop seen [] = Ok ()"
| "nested_validate_loop seen (e # es) =
     (if (nse_table_id e, nse_column_id e) \<in> set seen
      then Fail (BadSchema (''duplicate NestedSchema entry for table '' @ decimal (unat (nse_table_id e)) @ '' column '' @
        decimal (unat (nse_column_id e))))
      else
        and_then (validate_node (nse_root e) True) (\<lambda>_.
        nested_validate_loop ((nse_table_id e, nse_column_id e) # seen) es))"

definition nested_section_validate :: "nested_schema_entry list \<Rightarrow> unit res" where
  "nested_section_validate es = nested_validate_loop [] es"

definition nested_section_parse :: "bytes \<Rightarrow> nested_schema_entry list res" where
  "nested_section_parse bs =
     (if length bs < NESTED_SCHEMA_HEADER_LEN then Fail BufferTooShort
      else
        and_then (slice bs 0 4) (\<lambda>magic.
        if magic \<noteq> NESTED_SCHEMA_MAGIC then Fail BadMagic
        else
          and_then (read_u16_le_checked bs 4) (\<lambda>version.
          if version \<noteq> NESTED_SCHEMA_VERSION then Fail BadVersion
          else
            and_then (read_u16_le_checked bs 6) (\<lambda>header_len.
            if unat header_len \<noteq> NESTED_SCHEMA_HEADER_LEN
            then Fail (BadSection (''NestedSchema header_len must be '' @ decimal NESTED_SCHEMA_HEADER_LEN @ '', got '' @
              decimal (unat header_len)))
            else
              and_then (read_u32_le_checked bs 8) (\<lambda>entry_count.
              and_then (read_u32_le_checked bs 12) (\<lambda>reserved.
              if reserved \<noteq> 0 then Fail ReservedNotZero
              else
                and_then (nested_entries_read bs (unat entry_count) (unat header_len)) (\<lambda>(entries, pos).
                if pos \<noteq> length bs then Fail (BadSection ''NestedSchema section has trailing bytes'')
                else and_then (nested_section_validate entries) (\<lambda>_. Ok entries))))))))"

text \<open>The nested columns of a catalogue, in the order of the two loops over tables and columns.\<close>

definition nested_columns :: "table_catalog \<Rightarrow> (u32 \<times> column_entry) list" where
  "nested_columns cat =
     concat (map (\<lambda>t. map (Pair (te_table_id t)) (filter column_uses_nested_schema (te_columns t))) (tc_tables cat))"

definition nested_section_validate_for_catalog :: "nested_schema_entry list \<Rightarrow> table_catalog \<Rightarrow> unit res" where
  "nested_section_validate_for_catalog es cat =
     and_then (nested_section_validate es) (\<lambda>_.
     let entries = map_of (rev (map (\<lambda>e. ((nse_table_id e, nse_column_id e), e)) es)) in
     and_then (each_ok (map (\<lambda>(table', c).
       case entries (table', ce_column_id c) of
         None \<Rightarrow> Fail (BadSchema (''nested column '' @ decimal (unat table') @ ''.'' @ decimal (unat (ce_column_id c)) @
           '' is missing NestedSchema metadata''))
       | Some entry \<Rightarrow> validate_matches_column (nse_root entry) c) (nested_columns cat))) (\<lambda>_.
     each_ok (map (\<lambda>e.
       if (nse_table_id e, nse_column_id e) \<notin> set (map (\<lambda>(table', c). (table', ce_column_id c)) (nested_columns cat))
       then Fail (BadSchema (''NestedSchema entry references non-nested or missing column '' @ decimal (unat (nse_table_id e)) @
         ''.'' @ decimal (unat (nse_column_id e))))
       else Ok ()) es)))"

definition nested_section_entry :: "nested_schema_entry list \<Rightarrow> u32 \<Rightarrow> u32 \<Rightarrow> nested_schema_entry option" where
  "nested_section_entry es table' column' = List.find (\<lambda>e. nse_table_id e = table' \<and> nse_column_id e = column') es"

section \<open>The reader is exact\<close>

definition node_head_bytes :: "nested_schema_node \<Rightarrow> bytes" where
  "node_head_bytes t = str_bytes (ns_name t) @ le_bytes 2 (as_logical_type (ns_logical t)) @
     [as_physical_kind (ns_physical t)] @ [if ns_nullable t then 1 else 0] @ le_bytes 2 (ns_precision t) @
     le_bytes 2 (ns_scale t) @ le_bytes 2 (ns_collation_id t) @ le_bytes 2 (of_nat (length (ns_children t)) :: u16) @
     le_bytes 4 (ns_flags t) @ le_bytes 4 (ns_fixed_size_list_len t)"

primrec node_bytes :: "nested_schema_node \<Rightarrow> bytes" where
  "node_bytes (NSNode name logical physical nullable precision scale collation' flags fixed children) =
     node_head_bytes (NSNode name logical physical nullable precision scale collation' flags fixed children) @
     concat (map node_bytes children)"

primrec node_fits :: "nested_schema_node \<Rightarrow> bool" where
  "node_fits (NSNode name logical physical nullable precision scale collation' flags fixed children) \<longleftrightarrow>
     str_ok name \<and> length children < 2 ^ 16 \<and> list_all id (map node_fits children)"

text \<open>Names are Rust strings, so they hold valid UTF-8.\<close>

primrec node_names_utf8 :: "nested_schema_node \<Rightarrow> bool" where
  "node_names_utf8 (NSNode name logical physical nullable precision scale collation' flags fixed children) \<longleftrightarrow>
     utf8_valid name \<and> list_all id (map node_names_utf8 children)"

lemma node_bytes_eq: "node_bytes t = node_head_bytes t @ concat (map node_bytes (ns_children t))"
  by (cases t) simp

lemma length_node_head_bytes: "length (node_head_bytes t) = 22 + length (ns_name t)"
  by (simp add: node_head_bytes_def)

lemma node_fits_names: "node_fits t \<Longrightarrow> node_names_utf8 t"
  by (induction t) (auto simp: list_all_iff str_ok_def)

lemma node_head_write_iff:
  "node_head_write t = Inr b \<longleftrightarrow> length (ns_name t) < 2 ^ 16 \<and> length (ns_children t) < 2 ^ 16 \<and> b = node_head_bytes t"
  by (auto simp: node_head_write_def node_head_bytes_def str_bytes_def)

lemma node_write_fits: "node_fits t \<Longrightarrow> node_write t = Ok (node_bytes t)"
proof (induction t)
  case (NSNode name logical physical nullable precision scale collation' flags fixed children)
  let ?t = "NSNode name logical physical nullable precision scale collation' flags fixed children"
  have c: "concat_ok (map node_write ts) = Ok (concat (map node_bytes ts))" if "set ts \<subseteq> set children" for ts
    using that by (induction ts) (use NSNode in \<open>auto simp: list_all_iff\<close>)
  have "node_head_write ?t = Ok (node_head_bytes ?t)"
    using NSNode.prems by (simp add: node_head_write_iff str_ok_def)
  then show ?case using c [of children] by simp
qed

lemma node_write_Ok: "node_write t = Inr b \<Longrightarrow> node_names_utf8 t \<Longrightarrow> node_fits t"
proof (induction t arbitrary: b)
  case (NSNode name logical physical nullable precision scale collation' flags fixed children)
  have c: "concat_ok (map node_write ts) = Inr x \<Longrightarrow> set ts \<subseteq> set children \<Longrightarrow> list_all node_fits ts" for ts x
  proof (induction ts arbitrary: x)
    case (Cons u us)
    then show ?case using NSNode.IH NSNode.prems(2) by (fastforce simp: ok_iffs list_all_iff)
  qed simp
  show ?case
    using NSNode.prems c [of children] by (auto simp: ok_iffs node_head_write_iff str_ok_def list_all_iff)
qed

lemma read_i16_reads:
  "length bs < usize_limit \<Longrightarrow> read_i16_le_checked bs p = Inr w \<longleftrightarrow> reads bs p (le_bytes 2 w) (p + 2)"
  using read_words_reads(1) [of bs p w] by (simp add: read_i16_le_checked_def read_u16_le_checked_def)

lemma index_reads: "index bs p = Inr b \<longleftrightarrow> reads bs p [b] (p + 1)"
  by (auto simp: ok_iffs reads_def sub_singleton)

lemma nested_name_read_iff:
  assumes lim: "length bs < usize_limit"
  shows "nested_name_read bs p = Inr (name, q) \<longleftrightarrow> str_ok name \<and> reads bs p (str_bytes name) q"
proof -
  have u: "length s < 65536 \<Longrightarrow> unat (of_nat (length s) :: u16) = length s" for s :: bytes
    by (rule unat_of_nat_less) simp
  have *: "nested_name_read bs p = Inr (name, q) \<longleftrightarrow>
    (\<exists>w :: u16. reads bs p (le_bytes 2 w) (p + 2) \<and> q = p + 2 + unat w \<and> q \<le> length bs \<and> utf8_valid name \<and>
       length name = unat w \<and> reads bs (p + 2) name q)"
  proof
    assume "nested_name_read bs p = Inr (name, q)"
    then obtain w where "read_u16_le_checked bs p = Inr w" "q = p + 2 + unat w" "q \<le> length bs" "utf8_valid name"
      "name = sub bs (p + 2) (unat w)"
      by (auto simp: nested_name_read_def ok_iffs checked_add_eq_Some_iff slice_Ok_iff)
    then show "\<exists>w :: u16. reads bs p (le_bytes 2 w) (p + 2) \<and> q = p + 2 + unat w \<and> q \<le> length bs \<and> utf8_valid name \<and>
       length name = unat w \<and> reads bs (p + 2) name q"
      using reads_sub [of "p + 2" "unat w" bs] read_words_reads(1) [OF lim, of p w]
      by (intro exI [of _ w]) (simp add: length_sub)
  next
    assume "\<exists>w :: u16. reads bs p (le_bytes 2 w) (p + 2) \<and> q = p + 2 + unat w \<and> q \<le> length bs \<and> utf8_valid name \<and>
       length name = unat w \<and> reads bs (p + 2) name q"
    then obtain w :: u16 where w0: "reads bs p (le_bytes 2 w) (p + 2)" and w': "q = p + 2 + unat w" "q \<le> length bs"
      "utf8_valid name" and n: "length name = unat w" "reads bs (p + 2) name q" by blast
    have "name = sub bs (p + 2) (unat w)" using n by (simp add: reads_def)
    moreover have "read_u16_le_checked bs p = Inr w" using w0 by (simp add: read_words_reads(1) [OF lim])
    ultimately have w: "read_u16_le_checked bs p = Inr w" "q = p + 2 + unat w" "q \<le> length bs" "utf8_valid name"
      "name = sub bs (p + 2) (unat w)" using w' by blast+
    have l: "\<not> length bs < p + 2" "\<not> length bs < p + 2 + unat w" using w(2,3) by simp_all
    have c: "checked_add p 2 = Some (p + 2)" "checked_add (p + 2) (unat w) = Some (p + 2 + unat w)"
      using w(2,3) lim by (simp_all add: checked_add_def)
    have sl: "slice bs (p + 2) (p + 2 + unat w) = (Ok name :: bytes res)"
      using w by (simp add: slice_Ok)
    show "nested_name_read bs p = Inr (name, q)"
      unfolding nested_name_read_def c ok_or_simps and_then_simps if_not_P [OF l(1)] w(1) if_not_P [OF l(2)] sl
      using w by simp
  qed
  show ?thesis
  proof
    assume "nested_name_read bs p = Inr (name, q)"
    then obtain w :: u16 where w: "reads bs p (le_bytes 2 w) (p + 2)" "length name = unat w" "reads bs (p + 2) name q" "utf8_valid name"
      using * by auto
    have "length name < 65536" using w(2) unat_u16_less [of w] by simp
    then show "str_ok name \<and> reads bs p (str_bytes name) q"
      using w reads_join [OF w(1,3)] by (simp add: str_bytes_def str_ok_def)
  next
    assume a: "str_ok name \<and> reads bs p (str_bytes name) q"
    then have "reads bs p (le_bytes 2 (of_nat (length name) :: u16)) (p + 2)" "reads bs (p + 2) name q"
      by (auto simp: str_bytes_def reads_append)
    then show "nested_name_read bs p = Inr (name, q)"
      unfolding * using a u [of name] reads_bounds [of bs "p + 2" name q]
      by (intro exI [of _ "of_nat (length name)"]) (simp add: str_ok_def)
  qed
qed

lemma reads_split: "reads bs p part q \<Longrightarrow> bs = take p bs @ part @ drop q bs"
  by (auto simp: reads_def sub_def) (metis append_take_drop_id drop_drop add.commute)

lemma reads_prefix: "reads bs p part q \<Longrightarrow> length (take p bs) = p"
  by (auto simp: reads_def)

text \<open>The fixed fields of a node, as a record of what was read.\<close>

lemma node_head_read_Ok:
  assumes lim: "length bs < usize_limit" and r: "node_head_read bs p = Inr (mk, n, q)" and n: "length cs = n"
  shows "str_ok (ns_name (mk cs)) \<and> n < 2 ^ 16 \<and> ns_children (mk cs) = cs \<and> reads bs p (node_head_bytes (mk cs)) q"
proof -
  from r obtain name m where nm: "nested_name_read bs p = Inr (name, m)" by (auto simp: node_head_read_def ok_iffs)
  note nr = nm [unfolded nested_name_read_iff [OF lim]]
  from r have l: "m + 20 \<le> length bs" by (auto simp: node_head_read_def ok_iffs nm checked_add_eq_Some_iff split: if_splits)
  have g: "\<not> length bs < m + (2 + 1 + 1 + 2 + 2 + 2 + 2 + 4 + 4)" using l by simp
  have c: "checked_add m (2 + 1 + 1 + 2 + 2 + 2 + 2 + 4 + 4) = Some (m + (2 + 1 + 1 + 2 + 2 + 2 + 2 + 4 + 4))"
    using l lim by (simp add: checked_add_def)
  have rd: "read_u16_le_checked bs m = Ok (of_le (sub bs m 2))"
    "index bs (m + 2) = (Ok (bs ! (m + 2)) :: u8 res)" "index bs (m + 3) = (Ok (bs ! (m + 3)) :: u8 res)"
    "read_u16_le_checked bs (m + 4) = Ok (of_le (sub bs (m + 4) 2))"
    "read_i16_le_checked bs (m + 6) = Ok (of_le (sub bs (m + 6) 2))"
    "read_u16_le_checked bs (m + 8) = Ok (of_le (sub bs (m + 8) 2))"
    "read_u16_le_checked bs (m + 10) = Ok (of_le (sub bs (m + 10) 2))"
    "read_u32_le_checked bs (m + 12) = Ok (of_le (sub bs (m + 12) 4))"
    "read_u32_le_checked bs (m + 16) = Ok (of_le (sub bs (m + 16) 4))"
    using l lim by (simp_all add: read_words_Ok index_Ok)
  from r obtain nullable lt pk where f:
      "(if bs ! (m + 3) = 0 then Ok False else if bs ! (m + 3) = 1 then Ok True
        else Fail (BadSchema (''nested schema nullable flag must be 0 or 1, got '' @ decimal (unat (bs ! (m + 3)))))) = Ok nullable"
      "logical_type_from (of_le (sub bs m 2)) = Some lt" "physical_kind_from (bs ! (m + 2)) = Some pk"
      "mk = NSNode name lt pk nullable (of_le (sub bs (m + 4) 2)) (of_le (sub bs (m + 6) 2)) (of_le (sub bs (m + 8) 2))
         (of_le (sub bs (m + 12) 4)) (of_le (sub bs (m + 16) 4))"
      "n = unat (of_le (sub bs (m + 10) 2) :: u16)" "q = m + 20"
    unfolding node_head_read_def nm and_then_simps prod.case c ok_or_simps if_not_P [OF g] rd
    by (auto simp only: and_then_eq_Inr_iff ok_or_eq_Inr_iff sum.inject prod.inject)
  have e: "(if nullable then 1 else 0) = bs ! (m + 3)" using f(1) by (auto split: if_splits)
  have tp: "as_logical_type lt = of_le (sub bs m 2)" "as_physical_kind pk = bs ! (m + 2)"
    using f(2,3) by (simp_all add: logical_type_from_iff physical_kind_from_iff)
  have k: "of_nat (length cs) = (of_le (sub bs (m + 10) 2) :: u16)" unfolding n f(5) by simp
  have "le_bytes 2 (as_logical_type lt) @ [as_physical_kind pk] @ [if nullable then 1 else 0] @
      le_bytes 2 (of_le (sub bs (m + 4) 2) :: u16) @ le_bytes 2 (of_le (sub bs (m + 6) 2) :: u16) @
      le_bytes 2 (of_le (sub bs (m + 8) 2) :: u16) @ le_bytes 2 (of_le (sub bs (m + 10) 2) :: u16) @
      le_bytes 4 (of_le (sub bs (m + 12) 4) :: u32) @ le_bytes 4 (of_le (sub bs (m + 16) 4) :: u32) =
      sub bs m 2 @ sub bs (m + 2) 1 @ sub bs (m + 3) 1 @ sub bs (m + 4) 2 @ sub bs (m + 6) 2 @ sub bs (m + 8) 2 @
      sub bs (m + 10) 2 @ sub bs (m + 12) 4 @ sub bs (m + 16) 4"
    unfolding tp e using l by (simp add: le_bytes_of_le length_sub sub_singleton)
  also have "\<dots> = sub bs m 20" by (simp add: sub_join sub_join_assoc)
  finally have h: "node_head_bytes (mk cs) = str_bytes name @ sub bs m 20"
    by (simp add: f(4) node_head_bytes_def k)
  have "reads bs p (node_head_bytes (mk cs)) q"
    unfolding h f(6) by (rule reads_join [OF conjunct2 [OF nr] reads_sub]) (use l in simp)
  then show ?thesis using nr n unat_u16_less [of "of_le (sub bs (m + 10) 2)"] by (simp add: f(4,5))
qed

lemma node_head_read_bytes:
  assumes lim: "length bs < usize_limit" and ok: "str_ok (ns_name t)" "length (ns_children t) < 2 ^ 16"
    and rd: "reads bs p (node_head_bytes t) q"
  shows "\<exists>mk. node_head_read bs p = Ok (mk, length (ns_children t), q) \<and> mk (ns_children t) = t"
proof -
  obtain m where m: "reads bs p (str_bytes (ns_name t)) m"
    using rd by (auto simp: node_head_bytes_def reads_append)
  have nm: "nested_name_read bs p = Inr (ns_name t, m)" using m ok(1) by (simp add: nested_name_read_iff [OF lim])
  have mp: "m = p + length (str_bytes (ns_name t))" using m by (simp add: reads_def)
  have q: "q = m + 20" "m + 20 \<le> length bs" using rd mp by (auto simp: reads_def length_node_head_bytes)
  have g: "\<not> length bs < m + (2 + 1 + 1 + 2 + 2 + 2 + 2 + 4 + 4)" using q by simp
  have c: "checked_add m (2 + 1 + 1 + 2 + 2 + 2 + 2 + 4 + 4) = Some (m + (2 + 1 + 1 + 2 + 2 + 2 + 2 + 4 + 4))"
    using q lim by (simp add: checked_add_def)
  obtain pre post where b: "bs = pre @ node_head_bytes t @ post" "length pre = p"
    using reads_split [OF rd] rd by (metis append_eq_conv_conj reads_prefix)
  have r: "read_u16_le_checked bs m = Ok (as_logical_type (ns_logical t))"
    "index bs (m + 2) = (Ok (as_physical_kind (ns_physical t)) :: u8 res)"
    "index bs (m + 3) = (Ok (if ns_nullable t then 1 else 0) :: u8 res)"
    "read_u16_le_checked bs (m + 4) = Ok (ns_precision t)"
    "read_i16_le_checked bs (m + 6) = Ok (ns_scale t)"
    "read_u16_le_checked bs (m + 8) = Ok (ns_collation_id t)"
    "read_u16_le_checked bs (m + 10) = Ok (of_nat (length (ns_children t)))"
    "read_u32_le_checked bs (m + 12) = Ok (ns_flags t)"
    "read_u32_le_checked bs (m + 16) = Ok (ns_fixed_size_list_len t)"
    using lim mp b(2) by (simp_all add: b(1) node_head_bytes_def read_words_Ok sub_def index_Ok nth_append)
  have u: "unat (of_nat (length (ns_children t)) :: u16) = length (ns_children t)" by (rule unat_of_nat_less) (use ok in simp)
  have lt: "logical_type_from (as_logical_type (ns_logical t)) = Some (ns_logical t)"
    "physical_kind_from (as_physical_kind (ns_physical t)) = Some (ns_physical t)"
    by (simp_all add: logical_type_from_iff physical_kind_from_iff)
  let ?mk = "NSNode (ns_name t) (ns_logical t) (ns_physical t) (ns_nullable t) (ns_precision t) (ns_scale t)
    (ns_collation_id t) (ns_flags t) (ns_fixed_size_list_len t)"
  have "node_head_read bs p = Ok (?mk, length (ns_children t), q)"
    unfolding node_head_read_def nm and_then_simps prod.case c ok_or_simps if_not_P [OF g] r lt u
    by (simp add: q(1))
  then show ?thesis by (intro exI [of _ ?mk]) simp
qed

lemma node_read_Ok:
  "node_read fuel bs p = Inr (t, q) \<Longrightarrow> length bs < usize_limit \<Longrightarrow> node_fits t \<and> reads bs p (node_bytes t) q"
  "nodes_read fuel bs n p = Inr (ts, q) \<Longrightarrow> length bs < usize_limit \<Longrightarrow> p \<le> length bs \<Longrightarrow>
     length ts = n \<and> list_all node_fits ts \<and> reads bs p (concat (map node_bytes ts)) q"
proof (induction fuel bs p and fuel bs n p arbitrary: t q and ts q rule: node_read_nodes_read.induct)
  case (2 fuel bs p)
  from "2.prems"(1) obtain mk n m ts where h: "node_head_read bs p = Inr (mk, n, m)" and c: "nodes_read fuel bs n m = Inr (ts, q)"
    and t: "t = mk ts" by (auto simp: ok_iffs split: prod.splits)
  have mb: "m \<le> length bs"
    using node_head_read_Ok [OF "2.prems"(2) h, of "replicate n (scalar_node [] LT_Null PK_List False)"] by (auto simp: reads_def)
  have ih: "length ts = n \<and> list_all node_fits ts \<and> reads bs m (concat (map node_bytes ts)) q"
    by (rule "2.IH" [OF h refl refl c "2.prems"(2) mb])
  have hd: "str_ok (ns_name t) \<and> n < 2 ^ 16 \<and> ns_children t = ts \<and> reads bs p (node_head_bytes t) m"
    using node_head_read_Ok [OF "2.prems"(2) h, of ts] ih t by simp
  have "node_fits t" using hd ih by (cases t) (simp add: list_all_iff)
  then show ?case using hd ih reads_join [of bs p "node_head_bytes t" m] by (simp add: node_bytes_eq)
next
  case (4 fuel bs n p)
  from "4.prems"(1) obtain t m us where c: "node_read fuel bs p = Inr (t, m)" and cs: "nodes_read fuel bs n m = Inr (us, q)"
    and ts: "ts = t # us" by (auto simp: ok_iffs split: prod.splits)
  have i: "node_fits t \<and> reads bs p (node_bytes t) m" by (rule "4.IH"(1) [OF c "4.prems"(2)])
  have mb: "m \<le> length bs" using i by (simp add: reads_def)
  show ?case
    using i "4.IH"(2) [OF c refl cs "4.prems"(2) mb] reads_join [of bs p "node_bytes t" m] by (simp add: ts)
qed simp_all

lemma node_read_bytes:
  assumes "length bs < usize_limit"
  shows "node_fits t \<Longrightarrow> reads bs p (node_bytes t) q \<Longrightarrow> length (node_bytes t) \<le> fuel \<Longrightarrow> node_read fuel bs p = Ok (t, q)"
proof (induction t arbitrary: p q fuel)
  case (NSNode name logical physical nullable precision scale collation' flags fixed children)
  let ?t = "NSNode name logical physical nullable precision scale collation' flags fixed children"
  obtain m where h: "reads bs p (node_head_bytes ?t) m" and c: "reads bs m (concat (map node_bytes children)) q"
    using NSNode.prems(2) by (auto simp: reads_append_ex)
  obtain f where f: "fuel = Suc f" "length (concat (map node_bytes children)) \<le> f"
    using NSNode.prems(3) by (cases fuel) (simp_all add: length_node_head_bytes)
  obtain mk where mk: "node_head_read bs p = Ok (mk, length children, m)" "mk children = ?t"
    using node_head_read_bytes [OF assms _ _ h] NSNode.prems(1) by auto
  have "nodes_read f bs (length ts) m = Ok (ts, q)"
    if "set ts \<subseteq> set children" "reads bs m (concat (map node_bytes ts)) q" "length (concat (map node_bytes ts)) \<le> f" for ts m
    using that
  proof (induction ts arbitrary: m)
    case (Cons u us)
    obtain k where k: "reads bs m (node_bytes u) k" "reads bs k (concat (map node_bytes us)) q"
      using Cons.prems(2) by (auto simp: reads_append_ex)
    have "node_read f bs m = Ok (u, k)"
      using Cons.prems NSNode.prems(1) k(1) by (intro NSNode.IH) (auto simp: list_all_iff)
    then show ?case using Cons.IH [OF _ k(2)] Cons.prems by simp
  qed simp
  from this [OF subset_refl c f(2)] show ?case by (simp add: f(1) mk)
qed

lemma no_panic_nested_name_read [no_panic_intros, simp]: "no_panic (nested_name_read bs p)"
  by (auto simp: nested_name_read_def slice_def checked_add_eq_Some_iff ok_or_eq_Inr_iff intro!: no_panic_intros)

lemma no_panic_node_head_read [no_panic_intros, simp]: "no_panic (node_head_read bs p)"
  by (auto simp: node_head_read_def index_def checked_add_eq_Some_iff ok_or_eq_Inr_iff intro!: no_panic_intros)

lemma no_panic_node_read:
  "length bs < fuel + p \<Longrightarrow> length bs < usize_limit \<Longrightarrow> p \<le> length bs \<Longrightarrow> no_panic (node_read fuel bs p)"
  "length bs < fuel + p \<Longrightarrow> length bs < usize_limit \<Longrightarrow> p \<le> length bs \<Longrightarrow> no_panic (nodes_read fuel bs n p)"
proof (induction fuel bs p and fuel bs n p rule: node_read_nodes_read.induct)
  case (2 fuel bs p)
  have "no_panic (nodes_read fuel bs n m)" if h: "node_head_read bs p = Inr (mk, n, m)" for mk n m
  proof -
    have "p + 22 \<le> m \<and> m \<le> length bs"
      using node_head_read_Ok [OF "2.prems"(2) h, of "replicate n (scalar_node [] LT_Null PK_List False)"]
      by (auto simp: reads_def length_node_head_bytes)
    then show ?thesis using "2.IH" [OF h refl refl] "2.prems" by simp
  qed
  then show ?case by (auto intro!: no_panic_intros split: prod.splits)
next
  case (4 fuel bs n p)
  have "no_panic (nodes_read fuel bs n m)" if h: "node_read fuel bs p = Inr (t, m)" for t m
    using "4.IH"(2) [OF h refl] "4.prems" node_read_Ok(1) [OF h "4.prems"(2)] by (auto simp: reads_def)
  then show ?case using "4.IH"(1) [OF "4.prems"] by (auto intro!: no_panic_intros split: prod.splits)
qed simp_all

definition nested_entry_bytes :: "nested_schema_entry \<Rightarrow> bytes" where
  "nested_entry_bytes e = le_bytes 4 (nse_table_id e) @ le_bytes 4 (nse_column_id e) @ node_bytes (nse_root e)"

lemma nested_entry_read_iff:
  assumes lim: "length bs < usize_limit" and p: "p \<le> length bs"
  shows "nested_entry_read bs p = Inr (e, q) \<longleftrightarrow> node_fits (nse_root e) \<and> reads bs p (nested_entry_bytes e) q"
proof
  assume r: "nested_entry_read bs p = Inr (e, q)"
  then have l: "p + 8 \<le> length bs" by (auto simp: nested_entry_read_def ok_iffs checked_add_eq_Some_iff split: if_splits)
  have g: "\<not> length bs < p + 8" and c: "checked_add p 8 = Some (p + 8)" using l lim by (simp_all add: checked_add_def)
  from r obtain t where h: "read_u32_le_checked bs p = Inr (nse_table_id e)" "read_u32_le_checked bs (p + 4) = Inr (nse_column_id e)"
    "node_read_from bs (p + 4 + 4) = Inr (t, q)" "nse_root e = t"
    unfolding nested_entry_read_def c ok_or_simps and_then_simps if_not_P [OF g] by (auto simp: ok_iffs split: prod.splits)
  have n: "node_fits t \<and> reads bs (p + 4 + 4) (node_bytes t) q"
    using node_read_Ok(1) [OF h(3) [unfolded node_read_from_def] lim] .
  have "reads bs p (le_bytes 4 (nse_table_id e) @ le_bytes 4 (nse_column_id e)) (p + 4 + 4)"
    using h(1,2) by (intro reads_join) (simp_all only: read_words_reads [OF lim])
  from reads_join [OF this conjunct2 [OF n]] show "node_fits (nse_root e) \<and> reads bs p (nested_entry_bytes e) q"
    using n h(4) by (simp add: nested_entry_bytes_def)
next
  assume a: "node_fits (nse_root e) \<and> reads bs p (nested_entry_bytes e) q"
  then have l: "p + 8 \<le> length bs" by (auto simp: reads_def nested_entry_bytes_def)
  have g: "\<not> length bs < p + 8" and c: "checked_add p 8 = Some (p + 8)" using l lim by (simp_all add: checked_add_def)
  have h: "reads bs p (le_bytes 4 (nse_table_id e)) (p + 4)" "reads bs (p + 4) (le_bytes 4 (nse_column_id e)) (p + 4 + 4)"
    "reads bs (p + 4 + 4) (node_bytes (nse_root e)) q"
    using a by (auto simp: nested_entry_bytes_def reads_append)
  have "length (node_bytes (nse_root e)) \<le> Suc (length bs)" using h(3) by (simp add: reads_def)
  then have n: "node_read_from bs (p + 4 + 4) = Ok (nse_root e, q)"
    unfolding node_read_from_def using node_read_bytes [OF lim _ h(3)] a by blast
  show "nested_entry_read bs p = Inr (e, q)"
    unfolding nested_entry_read_def c ok_or_simps and_then_simps if_not_P [OF g] using h(1,2)
    by (simp only: read_words_reads(2) [OF lim, symmetric] and_then_simps n prod.case) simp
qed

lemma nested_entries_read_iff:
  assumes lim: "length bs < usize_limit"
  shows "p \<le> length bs \<Longrightarrow> nested_entries_read bs n p = Inr (es, q) \<longleftrightarrow>
    length es = n \<and> list_all (\<lambda>e. node_fits (nse_root e)) es \<and> reads bs p (concat (map nested_entry_bytes es)) q"
proof (induction n arbitrary: p es)
  case (Suc n)
  show ?case
  proof (cases es)
    case Nil
    then show ?thesis by (auto simp: ok_iffs split: prod.splits)
  next
    case (Cons e us)
    have "nested_entries_read bs (Suc n) p = Inr (es, q) \<longleftrightarrow>
        (\<exists>m. nested_entry_read bs p = Inr (e, m) \<and> nested_entries_read bs n m = Inr (us, q))"
      by (auto simp: ok_iffs Cons split: prod.splits)
    also have "\<dots> \<longleftrightarrow> (\<exists>m. (node_fits (nse_root e) \<and> reads bs p (nested_entry_bytes e) m) \<and>
        (length us = n \<and> list_all (\<lambda>e. node_fits (nse_root e)) us \<and> reads bs m (concat (map nested_entry_bytes us)) q))"
      unfolding nested_entry_read_iff [OF lim Suc.prems]
      by (intro ex_cong1 conj_cong refl Suc.IH) (simp add: reads_def)
    also have "\<dots> \<longleftrightarrow> node_fits (nse_root e) \<and> length us = n \<and> list_all (\<lambda>e. node_fits (nse_root e)) us \<and>
        reads bs p (nested_entry_bytes e @ concat (map nested_entry_bytes us)) q"
      unfolding reads_append_ex using reads_bounds by blast
    finally show ?thesis by (simp add: Cons conj_ac)
  qed
next
  case 0
  then show ?case by (cases es) auto
qed

lemma no_panic_node_read_from: "length bs < usize_limit \<Longrightarrow> p \<le> length bs \<Longrightarrow> no_panic (node_read_from bs p)"
  unfolding node_read_from_def by (rule no_panic_node_read(1)) simp_all

lemma no_panic_nested_entry_read: "length bs < usize_limit \<Longrightarrow> no_panic (nested_entry_read bs p)"
  by (auto simp: nested_entry_read_def checked_add_eq_Some_iff ok_or_eq_Inr_iff
      intro!: no_panic_intros no_panic_node_read_from split: prod.splits)

lemma no_panic_nested_entries_read: "length bs < usize_limit \<Longrightarrow> no_panic (nested_entries_read bs n p)"
  by (induction n arbitrary: p) (auto intro!: no_panic_intros no_panic_nested_entry_read split: prod.splits)

definition nested_header :: "nat \<Rightarrow> bytes" where
  "nested_header n = NESTED_SCHEMA_MAGIC @ le_bytes 2 NESTED_SCHEMA_VERSION @ le_bytes 2 (of_nat NESTED_SCHEMA_HEADER_LEN :: u16) @
     le_bytes 4 (of_nat n :: u32) @ le_bytes 4 (0 :: u32)"

lemma nested_serialize_iff:
  "nested_section_serialize es = Inr b \<and> list_all (\<lambda>e. node_names_utf8 (nse_root e)) es \<longleftrightarrow>
     length es < 2 ^ 32 \<and> list_all (\<lambda>e. node_fits (nse_root e)) es \<and> b = nested_header (length es) @ concat (map nested_entry_bytes es)"
proof -
  have n: "node_write t = Inr x \<and> node_names_utf8 t \<longleftrightarrow> node_fits t \<and> x = node_bytes t" for t x
    using node_write_fits [of t] node_fits_names [of t] node_write_Ok [of t x] by auto
  have w: "nested_entry_write e = Inr x \<and> node_names_utf8 (nse_root e) \<longleftrightarrow> node_fits (nse_root e) \<and> x = nested_entry_bytes e" for e x
    using n [of "nse_root e"] by (auto simp: nested_entry_write_def nested_entry_bytes_def map_ok_eq_Inr_iff)
  have "concat_ok (map nested_entry_write es) = Inr x \<and> list_all (\<lambda>e. node_names_utf8 (nse_root e)) es \<longleftrightarrow>
      list_all (\<lambda>e. node_fits (nse_root e)) es \<and> x = concat (map nested_entry_bytes es)" for x
  proof (induction es arbitrary: x)
    case (Cons e es)
    have "concat_ok (map nested_entry_write (e # es)) = Inr x \<and> list_all (\<lambda>e. node_names_utf8 (nse_root e)) (e # es) \<longleftrightarrow>
        (\<exists>y z. (nested_entry_write e = Inr y \<and> node_names_utf8 (nse_root e)) \<and>
          (concat_ok (map nested_entry_write es) = Inr z \<and> list_all (\<lambda>e. node_names_utf8 (nse_root e)) es) \<and> x = y @ z)"
      by (auto simp: ok_iffs)
    then show ?case unfolding w Cons.IH by auto
  qed auto
  then show ?thesis by (auto simp: nested_section_serialize_def nested_header_def ok_iffs)
qed

section \<open>The rules of a schema\<close>

lemma each_ok_iff: "each_ok rs = Inr u \<longleftrightarrow> list_all (\<lambda>r. r = Inr ()) rs"
  by (induction rs) (auto simp: ok_iffs)

lemma no_panic_each_ok [no_panic_intros]: "list_all no_panic rs \<Longrightarrow> no_panic (each_ok rs)"
  by (induction rs) (auto intro!: no_panic_intros)

lemma first_duplicate_None: "first_duplicate seen xs = None \<longleftrightarrow> distinct xs \<and> set seen \<inter> set xs = {}"
  by (induction xs arbitrary: seen) auto

lemma first_duplicate_Some: "first_duplicate [] xs = Some x \<Longrightarrow> \<not> distinct xs"
  using first_duplicate_None [of "[]" xs] by auto

definition children_rule :: "nested_schema_node \<Rightarrow> bool" where
  "children_rule t \<longleftrightarrow>
     (case ns_physical t of
        PK_List \<Rightarrow> length (ns_children t) = 1
      | PK_Struct \<Rightarrow> ns_children t \<noteq> [] \<and> distinct (map ns_name (ns_children t))
      | PK_Map \<Rightarrow> (\<exists>key val. ns_children t = [key, val] \<and> ns_name key = [107, 101, 121] \<and> \<not> ns_nullable key \<and>
          \<not> is_container key \<and> ns_name val = [118, 97, 108, 117, 101])
      | _ \<Rightarrow> ns_children t = [])"

definition node_rule :: "nested_schema_node \<Rightarrow> bool" where
  "node_rule t \<longleftrightarrow> ns_name t \<noteq> [] \<and> children_rule t \<and> (ns_fixed_size_list_len t \<noteq> 0 \<longrightarrow> ns_physical t = PK_List) \<and>
     validate_logical_physical_pair_with_options (ns_logical t) (ns_physical t)
       \<lparr>bool_declared_numeric = (ns_flags t AND COLUMN_FLAG_BOOL_DECLARED_NUMERIC \<noteq> 0)\<rparr> = Ok ()"

primrec tree_rule :: "nested_schema_node \<Rightarrow> bool" where
  "tree_rule (NSNode name logical physical nullable precision scale collation' flags fixed children) \<longleftrightarrow>
     node_rule (NSNode name logical physical nullable precision scale collation' flags fixed children) \<and>
     list_all id (map tree_rule children)"

lemma length_two: "length xs = 2 \<longleftrightarrow> (\<exists>a b. xs = [a, b])"
  by (auto simp: length_Suc_conv numeral_2_eq_2)

lemma validate_children_iff:
  "validate_children t = Inr u \<longleftrightarrow> children_rule t \<and> (\<not> is_container t \<longrightarrow> ns_fixed_size_list_len t = 0)"
proof (cases "ns_physical t")
  case PK_Map
  then show ?thesis
    by (cases "length (ns_children t) = 2")
      (auto simp: validate_children_def children_rule_def is_container_def is_container_kind_def length_two index_def)
qed (auto simp: validate_children_def children_rule_def is_container_def is_container_kind_def first_duplicate_None
    dest: first_duplicate_Some split: option.splits)

lemma validate_one_iff: "validate_one t is_root = Inr u \<longleftrightarrow> node_rule t \<and> (is_root \<longrightarrow> is_container t)"
  by (auto simp: validate_one_def node_rule_def ok_iffs validate_children_iff is_container_def is_container_kind_def)

lemma validate_inner_iff: "validate_inner t = Inr u \<longleftrightarrow> tree_rule t"
proof (induction t)
  case (NSNode name logical physical nullable precision scale collation' flags fixed children)
  have "each_ok (map validate_inner children) = Inr u \<longleftrightarrow> (\<forall>c \<in> set children. tree_rule c)"
    using NSNode.IH by (auto simp: each_ok_iff list_all_iff)
  then show ?case by (simp add: and_then_eq_Inr_iff validate_one_iff list_all_iff)
qed

lemma validate_node_iff: "validate_node t is_root = Inr u \<longleftrightarrow> tree_rule t \<and> (is_root \<longrightarrow> is_container t)"
proof -
  have "each_ok (map validate_inner (ns_children t)) = Inr u \<longleftrightarrow> list_all tree_rule (ns_children t)"
    by (simp add: each_ok_iff list_all_iff validate_inner_iff)
  then show ?thesis
    by (cases t) (auto simp: validate_node_def and_then_eq_Inr_iff validate_one_iff list_all_iff)
qed

lemma no_panic_validate_one [no_panic_intros, simp]: "no_panic (validate_one t is_root)"
proof -
  have "no_panic (validate_children t)"
    by (cases "ns_physical t") (auto simp: validate_children_def index_def intro!: no_panic_intros split: option.splits)
  then show ?thesis by (auto simp: validate_one_def intro!: no_panic_intros)
qed

lemma no_panic_validate_node [no_panic_intros, simp]: "no_panic (validate_node t is_root)"
proof -
  have "no_panic (validate_inner u)" for u
    by (induction u) (auto intro!: no_panic_intros simp: list_all_iff)
  then show ?thesis by (auto simp: validate_node_def list_all_iff intro!: no_panic_intros)
qed

definition nested_keys :: "nested_schema_entry list \<Rightarrow> (u32 \<times> u32) list" where
  "nested_keys es = map (\<lambda>e. (nse_table_id e, nse_column_id e)) es"

lemma nested_section_validate_iff:
  "nested_section_validate es = Inr u \<longleftrightarrow>
     distinct (nested_keys es) \<and> list_all (\<lambda>e. tree_rule (nse_root e) \<and> is_container (nse_root e)) es"
proof -
  have "nested_validate_loop seen es = Inr u \<longleftrightarrow> distinct (nested_keys es) \<and> set seen \<inter> set (nested_keys es) = {} \<and>
      list_all (\<lambda>e. tree_rule (nse_root e) \<and> is_container (nse_root e)) es" for seen
    by (induction es arbitrary: seen) (auto simp: ok_iffs validate_node_iff nested_keys_def)
  then show ?thesis by (simp add: nested_section_validate_def)
qed

lemma no_panic_nested_validate [no_panic_intros, simp]: "no_panic (nested_section_validate es)"
proof -
  have "no_panic (nested_validate_loop seen es)" for seen
    by (induction es arbitrary: seen) (auto intro!: no_panic_intros)
  then show ?thesis by (simp add: nested_section_validate_def)
qed

text \<open>
  C25: the nested schema parser accepts exactly the serialized sections whose entries describe
  distinct columns by well-formed container trees, and it never panics: the recursion over the
  children stays inside the bytes it was given.
\<close>

theorem nested_schema_exact:
  assumes "length bs < usize_limit"
  shows "(nested_section_parse bs = Ok es \<longleftrightarrow>
      nested_section_serialize es = Ok bs \<and> list_all (\<lambda>e. node_names_utf8 (nse_root e)) es \<and>
      distinct (nested_keys es) \<and> list_all (\<lambda>e. tree_rule (nse_root e) \<and> is_container (nse_root e)) es) \<and>
    no_panic (nested_section_parse bs)"
proof (intro conjI)
  have len: "length (nested_header n) = 16" for n by (simp add: nested_header_def NESTED_SCHEMA_MAGIC_def)
  let ?rules = "distinct (nested_keys es) \<and> list_all (\<lambda>e. tree_rule (nse_root e) \<and> is_container (nse_root e)) es"
  let ?exact = "length es < 2 ^ 32 \<and> list_all (\<lambda>e. node_fits (nse_root e)) es \<and>
    bs = nested_header (length es) @ concat (map nested_entry_bytes es)"
  have "nested_section_parse bs = Ok es \<longleftrightarrow> ?exact \<and> ?rules"
  proof
    assume p: "nested_section_parse bs = Ok es"
    then obtain v h n where l: "16 \<le> length bs" and m: "sub bs 0 4 = NESTED_SCHEMA_MAGIC"
      and w: "read_u16_le_checked bs 4 = Inr NESTED_SCHEMA_VERSION" "read_u16_le_checked bs 6 = Inr h" "unat h = 16"
        "read_u32_le_checked bs 8 = Inr n" "read_u32_le_checked bs 12 = Inr 0"
      and e: "nested_entries_read bs (unat n) 16 = Inr (es, length bs)" and v: "nested_section_validate es = Inr ()"
      by (auto simp: nested_section_parse_def ok_iffs NESTED_SCHEMA_HEADER_LEN_def split: prod.splits)
    note it = e [unfolded nested_entries_read_iff [OF assms l]]
    have h: "h = of_nat NESTED_SCHEMA_HEADER_LEN" using w(3) by (simp add: NESTED_SCHEMA_HEADER_LEN_def flip: w(3))
    have n: "n = of_nat (length es)" "length es < 2 ^ 32" using it unat_u32_less [of n] by simp_all
    have "reads bs 0 NESTED_SCHEMA_MAGIC 4" using reads_sub [of 0 4 bs] m l by simp
    then have "reads bs 0 (nested_header (length es)) 16"
      unfolding nested_header_def
      using w(1,2,4,5) [unfolded read_words_reads [OF assms] h n(1)] by (intro reads_join) simp_all
    from reads_join [OF this conjunct2 [OF conjunct2 [OF it]]] show "?exact \<and> ?rules"
      using it v n(2) by (simp add: reads_whole nested_section_validate_iff)
  next
    assume a: "?exact \<and> ?rules"
    then have b: "bs = nested_header (length es) @ concat (map nested_entry_bytes es)" and n: "length es < 4294967296" by simp_all
    have l: "\<not> length bs < NESTED_SCHEMA_HEADER_LEN" "16 \<le> length bs" by (simp_all add: b len NESTED_SCHEMA_HEADER_LEN_def)
    have u: "unat (of_nat (length es) :: u32) = length es" by (rule unat_of_nat_less) (use n in simp)
    have r: "slice bs 0 4 = (Ok NESTED_SCHEMA_MAGIC :: bytes res)"
      "read_u16_le_checked bs 4 = Ok NESTED_SCHEMA_VERSION" "read_u16_le_checked bs 6 = Ok (of_nat NESTED_SCHEMA_HEADER_LEN)"
      "read_u32_le_checked bs 8 = Ok (of_nat (length es))" "read_u32_le_checked bs 12 = Ok 0"
      by (simp_all add: b nested_header_def NESTED_SCHEMA_MAGIC_def slice_Ok sub_def read_words_Ok usize_limit_def)
    have h: "unat (of_nat NESTED_SCHEMA_HEADER_LEN :: u16) = 16" by (simp add: NESTED_SCHEMA_HEADER_LEN_def)
    have "reads bs 16 (concat (map nested_entry_bytes es)) (length bs)"
      using reads_whole [of bs bs] by (subst (asm) (2) b) (auto simp: reads_append len)
    then have e: "nested_entries_read bs (length es) 16 = Ok (es, length bs)"
      unfolding nested_entries_read_iff [OF assms l(2)] using a by blast
    have v: "nested_section_validate es = Ok ()" using a by (simp add: nested_section_validate_iff)
    show "nested_section_parse bs = Ok es"
      unfolding nested_section_parse_def if_not_P [OF l(1)] r and_then_simps h u e prod.case v
      by (simp add: NESTED_SCHEMA_HEADER_LEN_def)
  qed
  then show "nested_section_parse bs = Ok es \<longleftrightarrow> nested_section_serialize es = Ok bs \<and>
      list_all (\<lambda>e. node_names_utf8 (nse_root e)) es \<and> distinct (nested_keys es) \<and>
      list_all (\<lambda>e. tree_rule (nse_root e) \<and> is_container (nse_root e)) es"
    using nested_serialize_iff [of es bs] by auto
  show "no_panic (nested_section_parse bs)"
    by (auto simp: nested_section_parse_def NESTED_SCHEMA_HEADER_LEN_def slice_def
        intro!: no_panic_intros no_panic_nested_entries_read assms split: prod.splits)
qed

definition nested_example :: "nested_schema_entry list" where
  "nested_example = [\<lparr>nse_table_id = 1, nse_column_id = 7, nse_root =
     NSNode [105] LT_List PK_List True 0 0 0 0 0 [scalar_node [118] LT_Int32 PK_NumCode True]\<rparr>]"

theorem nested_schema_exact_witness:
  "\<exists>bs. nested_section_serialize nested_example = Ok bs \<and> nested_section_parse bs = Ok nested_example"
proof -
  have "\<exists>bs. nested_section_serialize nested_example = Ok bs \<and> length bs = 70"
    by (simp add: nested_section_serialize_def nested_example_def nested_entry_write_def node_head_write_def scalar_node_def
        NESTED_SCHEMA_MAGIC_def)
  then obtain bs where s: "nested_section_serialize nested_example = Ok bs" and l: "length bs < usize_limit"
    by (auto simp: usize_limit_def)
  have "list_all (\<lambda>e. node_names_utf8 (nse_root e)) nested_example"
    "distinct (nested_keys nested_example)" "list_all (\<lambda>e. tree_rule (nse_root e) \<and> is_container (nse_root e)) nested_example"
    by (simp_all add: nested_example_def scalar_node_def nested_keys_def node_rule_def children_rule_def is_container_def
        is_container_kind_def validate_pair_iff validate_numcode_logical_type_def numcode_types_def utf8_valid.simps(2))
  then show ?thesis using nested_schema_exact [OF l, of nested_example] s by blast
qed

section \<open>A schema for a catalogue\<close>

definition root_matches :: "nested_schema_node \<Rightarrow> column_entry \<Rightarrow> bool" where
  "root_matches t c \<longleftrightarrow> ns_name t = ce_name c \<and> ns_logical t = ce_logical c \<and> ns_physical t = ce_physical c \<and>
     ns_nullable t = ce_nullable c \<and> ns_precision t = ce_precision c \<and> ns_scale t = ce_scale c \<and>
     ns_collation_id t = ce_collation_id c \<and> ns_flags t = ce_flags c"

lemma validate_matches_column_iff:
  "validate_matches_column t c = Inr u \<longleftrightarrow> root_matches t c \<and> tree_rule t \<and> is_container t"
  by (auto simp: validate_matches_column_def root_matches_def validate_node_iff)

lemma nested_columns_ball:
  "(\<forall>x \<in> set (nested_columns cat). P (fst x) (snd x)) \<longleftrightarrow>
     (\<forall>t c. t \<in> set (tc_tables cat) \<longrightarrow> c \<in> set (te_columns t) \<longrightarrow> column_uses_nested_schema c \<longrightarrow> P (te_table_id t) c)"
  by (auto simp: nested_columns_def)

lemma each_ok_map_iff: "each_ok (map f xs) = Inr u \<longleftrightarrow> (\<forall>x \<in> set xs. f x = Ok ())"
  by (simp add: each_ok_iff list_all_iff)

lemma refused_iff: "(if k \<notin> S then Fail e else Ok ()) = (Ok () :: unit res) \<longleftrightarrow> k \<in> S"
  by simp

text \<open>
  A nested schema is accepted for a catalogue exactly when its entries are well formed, their
  columns are the List, Struct and Map columns of the catalogue, neither more nor fewer, and the
  root of each agrees with its column in name, types, nullability, scale, collation and flags.
\<close>

theorem nested_schema_covers_catalog:
  "nested_section_validate_for_catalog es cat = Ok () \<longleftrightarrow>
     distinct (nested_keys es) \<and> list_all (\<lambda>e. tree_rule (nse_root e) \<and> is_container (nse_root e)) es \<and>
     set (nested_keys es) = {(te_table_id t, ce_column_id c) | t c.
       t \<in> set (tc_tables cat) \<and> c \<in> set (te_columns t) \<and> column_uses_nested_schema c} \<and>
     (\<forall>t c e. t \<in> set (tc_tables cat) \<longrightarrow> c \<in> set (te_columns t) \<longrightarrow> column_uses_nested_schema c \<longrightarrow>
       nested_section_entry es (te_table_id t) (ce_column_id c) = Some e \<longrightarrow> root_matches (nse_root e) c)"
  (is "_ \<longleftrightarrow> ?d \<and> ?r \<and> _ = ?keys \<and> ?m")
proof (cases "?d \<and> ?r")
  case True
  let ?es = "map (\<lambda>e. ((nse_table_id e, nse_column_id e), e)) es"
  have lk: "map_of (rev ?es) k = nested_section_entry es (fst k) (snd k)" for k
  proof -
    have "distinct (map fst ?es)" using True by (simp add: nested_keys_def comp_def)
    then have "map_of (rev ?es) = map_of ?es" by (subst map_of_inject_set) (simp_all add: rev_map [symmetric])
    moreover have "map_of (map (\<lambda>e. ((nse_table_id e, nse_column_id e), e)) us) k = List.find (\<lambda>e. nse_table_id e = fst k \<and> nse_column_id e = snd k) us"
      for us by (induction us) auto
    ultimately show ?thesis by (simp add: nested_section_entry_def)
  qed
  have keys: "set (map (\<lambda>(table', c). (table', ce_column_id c)) (nested_columns cat)) = ?keys"
    by (force simp: nested_columns_def)
  have found: "nested_section_entry es a b = Some e \<Longrightarrow> e \<in> set es \<and> (nse_table_id e, nse_column_id e) = (a, b)" for a b e
    by (auto simp: nested_section_entry_def find_Some_iff)
  have missing: "nested_section_entry es a b = None \<longleftrightarrow> (a, b) \<notin> set (nested_keys es)" for a b
    by (auto simp: nested_section_entry_def find_None_iff nested_keys_def)
  have "nested_section_validate_for_catalog es cat = Ok () \<longleftrightarrow>
      (\<forall>x \<in> set (nested_columns cat). \<exists>e. nested_section_entry es (fst x) (ce_column_id (snd x)) = Some e \<and> root_matches (nse_root e) (snd x)) \<and>
      (\<forall>e \<in> set es. (nse_table_id e, nse_column_id e) \<in> ?keys)"
  proof -
    have one: "(case nested_section_entry es a (ce_column_id c) of
        None \<Rightarrow> Fail (BadSchema (''nested column '' @ decimal (unat a) @ ''.'' @ decimal (unat (ce_column_id c)) @
           '' is missing NestedSchema metadata''))
      | Some entry \<Rightarrow> validate_matches_column (nse_root entry) c) = Ok () \<longleftrightarrow>
        (\<exists>e. nested_section_entry es a (ce_column_id c) = Some e \<and> root_matches (nse_root e) c)" for a c
      proof (cases "nested_section_entry es a (ce_column_id c)")
        case (Some e)
        then have "tree_rule (nse_root e) \<and> is_container (nse_root e)" using True found [OF Some] by (simp add: list_all_iff)
        then show ?thesis by (simp add: Some validate_matches_column_iff)
      qed (simp only: option.case sum.distinct option.distinct simp_thms)
    show ?thesis
      unfolding nested_section_validate_for_catalog_def Let_def lk keys fst_conv snd_conv
      unfolding and_then_eq_Inr_iff each_ok_map_iff refused_iff nested_section_validate_iff
      using True by (simp only: split_beta one simp_thms)
  qed
  also have "\<dots> \<longleftrightarrow> set (nested_keys es) = ?keys \<and> ?m"
  proof -
    have b: "(\<forall>e \<in> set es. (nse_table_id e, nse_column_id e) \<in> K) \<longleftrightarrow> set (nested_keys es) \<subseteq> K" for K
      unfolding nested_keys_def set_map by (rule image_subset_iff [symmetric])
    have o: "(\<exists>e. x = Some e \<and> P e) \<longleftrightarrow> x \<noteq> None \<and> (\<forall>e. x = Some e \<longrightarrow> P e)" for x and P :: "nested_schema_entry \<Rightarrow> bool"
      by (cases x) simp_all
    have "(\<forall>x \<in> set (nested_columns cat). \<exists>e. nested_section_entry es (fst x) (ce_column_id (snd x)) = Some e \<and> root_matches (nse_root e) (snd x)) \<longleftrightarrow>
        (\<forall>t c. t \<in> set (tc_tables cat) \<longrightarrow> c \<in> set (te_columns t) \<longrightarrow> column_uses_nested_schema c \<longrightarrow>
          (te_table_id t, ce_column_id c) \<in> set (nested_keys es) \<and>
          (\<forall>e. nested_section_entry es (te_table_id t) (ce_column_id c) = Some e \<longrightarrow> root_matches (nse_root e) c))"
      unfolding o missing not_not
      by (rule nested_columns_ball [of cat "\<lambda>a c. (a, ce_column_id c) \<in> set (nested_keys es) \<and>
        (\<forall>e. nested_section_entry es a (ce_column_id c) = Some e \<longrightarrow> root_matches (nse_root e) c)"])
    also have "\<dots> \<longleftrightarrow> ?keys \<subseteq> set (nested_keys es) \<and> ?m" by blast
    finally show ?thesis unfolding b set_eq_subset by blast
  qed
  finally show ?thesis using True by simp
next
  case False
  then show ?thesis by (auto simp: nested_section_validate_for_catalog_def and_then_eq_Inr_iff nested_section_validate_iff)
qed

end
