(* ===== verification/Codec_Descriptor.thy ===== *)
theory Codec_Descriptor
  imports Page_Payload Cursor Metadata
begin

text \<open>
  Descriptors of registered codecs and the envelope of a registered page (\<^verbatim>\<open>codec.rs\<close>): the
  cursor they are read with, their rules, and the masks of the three stable codecs.
\<close>

section \<open>The cursor\<close>

definition cur_bytes :: "bytes \<Rightarrow> nat \<Rightarrow> nat \<Rightarrow> (bytes \<times> nat) res" where
  "cur_bytes bs pos len =
     and_then (ok_or ArithOverflow (checked_add pos len)) (\<lambda>end'.
     if length bs < end' then Fail BufferTooShort
     else and_then (slice bs pos end') (\<lambda>s. Ok (s, end')))"

definition cur_u8 :: "bytes \<Rightarrow> nat \<Rightarrow> (u8 \<times> nat) res" where
  "cur_u8 bs pos = and_then (cur_bytes bs pos 1) (\<lambda>(s, pos). and_then (index s 0) (\<lambda>b. Ok (b, pos)))"

definition cur_u16 :: "bytes \<Rightarrow> nat \<Rightarrow> (u16 \<times> nat) res" where
  "cur_u16 bs pos = and_then (cur_bytes bs pos 2) (\<lambda>(_, end'). and_then (read_u16_le_checked bs pos) (\<lambda>w. Ok (w, end')))"

definition cur_u32 :: "bytes \<Rightarrow> nat \<Rightarrow> (u32 \<times> nat) res" where
  "cur_u32 bs pos = and_then (cur_bytes bs pos 4) (\<lambda>(_, end'). and_then (read_u32_le_checked bs pos) (\<lambda>w. Ok (w, end')))"

definition cur_u64 :: "bytes \<Rightarrow> nat \<Rightarrow> (u64 \<times> nat) res" where
  "cur_u64 bs pos = and_then (cur_bytes bs pos 8) (\<lambda>(_, end'). and_then (read_u64_le_checked bs pos) (\<lambda>w. Ok (w, end')))"

lemma cur_bytes_reads:
  "length bs < usize_limit \<Longrightarrow> cur_bytes bs p n = Inr (s, q) \<longleftrightarrow> length s = n \<and> reads bs p s q"
  by (auto simp: cur_bytes_def ok_iffs checked_add_eq_Some_iff reads_def length_sub)

lemma cur_words_reads:
  assumes "length bs < usize_limit"
  shows "cur_u8 bs p = Inr (b, q) \<longleftrightarrow> reads bs p [b] q"
    and "cur_u16 bs p = Inr (w, q) \<longleftrightarrow> reads bs p (le_bytes 2 w) q"
    and "cur_u32 bs p = Inr (x, q) \<longleftrightarrow> reads bs p (le_bytes 4 x) q"
    and "cur_u64 bs p = Inr (y, q) \<longleftrightarrow> reads bs p (le_bytes 8 y) q"
proof -
  have b: "cur_bytes bs p n = (if usize_limit \<le> p + n then Fail ArithOverflow
      else if length bs < p + n then Fail BufferTooShort else Ok (sub bs p n, p + n))" for n
    by (auto simp: cur_bytes_def checked_add_def slice_def sub_def)
  show "cur_u8 bs p = Inr (b, q) \<longleftrightarrow> reads bs p [b] q"
    using assms by (auto simp: cur_u8_def b index_def reads_def sub_singleton length_sub)
  show "cur_u16 bs p = Inr (w, q) \<longleftrightarrow> reads bs p (le_bytes 2 w) q"
    using assms by (auto simp: cur_u16_def b reads_word_iff read_words_Ok_iff and_then_eq_Inr_iff)
  show "cur_u32 bs p = Inr (x, q) \<longleftrightarrow> reads bs p (le_bytes 4 x) q"
    using assms by (auto simp: cur_u32_def b reads_word_iff read_words_Ok_iff and_then_eq_Inr_iff)
  show "cur_u64 bs p = Inr (y, q) \<longleftrightarrow> reads bs p (le_bytes 8 y) q"
    using assms by (auto simp: cur_u64_def b reads_word_iff read_words_Ok_iff and_then_eq_Inr_iff)
qed

lemma no_panic_cur [no_panic_intros, simp]:
  "no_panic (cur_bytes bs p n)" "no_panic (cur_u8 bs p)" "no_panic (cur_u16 bs p)" "no_panic (cur_u32 bs p)" "no_panic (cur_u64 bs p)"
proof -
  show b: "no_panic (cur_bytes bs p n)" for n
    by (auto simp: cur_bytes_def slice_def checked_add_eq_Some_iff ok_or_eq_Inr_iff intro!: no_panic_intros)
  show "no_panic (cur_u16 bs p)" "no_panic (cur_u32 bs p)" "no_panic (cur_u64 bs p)"
    by (auto simp: cur_u16_def cur_u32_def cur_u64_def intro!: no_panic_intros b split: prod.splits)
  show "no_panic (cur_u8 bs p)"
  proof -
    have "length s = 1" if "cur_bytes bs p 1 = Inr (s, q)" for s q
      using that by (auto simp: cur_bytes_def ok_iffs checked_add_eq_Some_iff length_sub)
    then show ?thesis
      by (auto simp: cur_u8_def index_def intro!: no_panic_intros b split: prod.splits)
  qed
qed

section \<open>Stable codecs\<close>

definition ABSENT_REF :: u32 where
  "ABSENT_REF = 0xFFFFFFFF"

definition codec_namespace :: bytes where
  "codec_namespace = map of_char ''org.coveformat.codec''"

definition FSST_UTF8_CODEC_IDENTITY :: "bytes \<times> bytes \<times> u16 \<times> u16" where
  "FSST_UTF8_CODEC_IDENTITY = (codec_namespace, map of_char ''fsst-utf8'', 2, 0)"

definition ALP_FLOAT_CODEC_IDENTITY :: "bytes \<times> bytes \<times> u16 \<times> u16" where
  "ALP_FLOAT_CODEC_IDENTITY = (codec_namespace, map of_char ''alp-float'', 2, 0)"

definition FASTLANES_INTEGER_CODEC_IDENTITY :: "bytes \<times> bytes \<times> u16 \<times> u16" where
  "FASTLANES_INTEGER_CODEC_IDENTITY = (codec_namespace, map of_char ''fastlanes-integer'', 2, 0)"

datatype stable_codec = SC_FsstUtf8 | SC_AlpFloat | SC_FastLanesInteger

primrec codec_identity :: "stable_codec \<Rightarrow> bytes \<times> bytes \<times> u16 \<times> u16" where
  "codec_identity SC_FsstUtf8 = FSST_UTF8_CODEC_IDENTITY"
| "codec_identity SC_AlpFloat = ALP_FLOAT_CODEC_IDENTITY"
| "codec_identity SC_FastLanesInteger = FASTLANES_INTEGER_CODEC_IDENTITY"

primrec stable_codec_family :: "stable_codec \<Rightarrow> u16" where
  "stable_codec_family SC_FsstUtf8 = 0"
| "stable_codec_family SC_AlpFloat = 1"
| "stable_codec_family SC_FastLanesInteger = 2"

definition logical_type_bit :: "logical_type \<Rightarrow> u64" where
  "logical_type_bit t = push_bit (unat (as_logical_type t)) 1"

definition physical_kind_bit :: "physical_kind \<Rightarrow> u64" where
  "physical_kind_bit k = push_bit (unat (as_physical_kind k)) 1"

definition logical_type_mask :: "logical_type list \<Rightarrow> u64" where
  "logical_type_mask ts = foldl (\<lambda>mask t. mask OR logical_type_bit t) 0 ts"

definition physical_kind_mask :: "physical_kind list \<Rightarrow> u64" where
  "physical_kind_mask ks = foldl (\<lambda>mask k. mask OR physical_kind_bit k) 0 ks"

primrec supported_type_masks :: "stable_codec \<Rightarrow> u64 \<times> u64" where
  "supported_type_masks SC_FsstUtf8 = (logical_type_mask [LT_Utf8], physical_kind_mask [PK_VarBytes])"
| "supported_type_masks SC_AlpFloat = (logical_type_mask [LT_Float32, LT_Float64], physical_kind_mask [PK_NumCode])"
| "supported_type_masks SC_FastLanesInteger =
     (logical_type_mask [LT_Int8, LT_Int16, LT_Int32, LT_Int64, LT_UInt8, LT_UInt16, LT_UInt32, LT_UInt64,
        LT_Decimal64, LT_Decimal128, LT_DateDays, LT_TimestampMicros, LT_TimestampNanos],
      physical_kind_mask [PK_NumCode])"

definition supports_page :: "stable_codec \<Rightarrow> logical_type \<Rightarrow> physical_kind \<Rightarrow> bool" where
  "supports_page codec logical physical =
     (case supported_type_masks codec of (logical_mask, physical_mask) \<Rightarrow>
        logical_mask AND logical_type_bit logical \<noteq> 0 \<and> physical_mask AND physical_kind_bit physical \<noteq> 0)"

definition stable_codecs :: "stable_codec list" where
  "stable_codecs = [SC_FsstUtf8, SC_AlpFloat, SC_FastLanesInteger]"

definition stable_codec_for_identity :: "bytes \<Rightarrow> bytes \<Rightarrow> u16 \<Rightarrow> u16 \<Rightarrow> stable_codec option" where
  "stable_codec_for_identity namespace name major minor =
     List.find (\<lambda>codec. codec_identity codec = (namespace, name, major, minor)) stable_codecs"

definition stable_supported_masks :: "bytes \<Rightarrow> bytes \<Rightarrow> u16 \<Rightarrow> u16 \<Rightarrow> (u64 \<times> u64) option" where
  "stable_supported_masks namespace name major minor =
     map_option supported_type_masks
       (List.find (\<lambda>codec. codec_identity codec = (namespace, name, major, minor)) stable_codecs)"

definition stable_family_and_masks :: "bytes \<Rightarrow> bytes \<Rightarrow> u16 \<Rightarrow> u16 \<Rightarrow> (u16 \<times> u64 \<times> u64) option" where
  "stable_family_and_masks namespace name major minor =
     map_option (\<lambda>codec. (stable_codec_family codec, supported_type_masks codec))
       (stable_codec_for_identity namespace name major minor)"

primrec stable_spec_digest :: "stable_codec \<Rightarrow> bytes" where
  "stable_spec_digest SC_FsstUtf8 = map of_char ''COVE-FSST-UTF8-V2-SPEC-DIGEST''"
| "stable_spec_digest SC_AlpFloat = map of_char ''COVE-ALP-FLOAT-V2-SPEC-DIGEST''"
| "stable_spec_digest SC_FastLanesInteger = map of_char ''COVE-FASTLANES-I-V2-SPEC-DIGEST''"

section \<open>Enumerations\<close>

datatype codec_status = CS_Candidate | CS_ProvisionalRegistered | CS_StableRegistered | CS_Deprecated | CS_VendorPrivate

primrec as_codec_status :: "codec_status \<Rightarrow> u8" where
  "as_codec_status CS_Candidate = 0"
| "as_codec_status CS_ProvisionalRegistered = 1"
| "as_codec_status CS_StableRegistered = 2"
| "as_codec_status CS_Deprecated = 3"
| "as_codec_status CS_VendorPrivate = 255"

definition codec_status_from :: "u8 \<Rightarrow> codec_status option" where
  "codec_status_from v =
     (if v = 0 then Some CS_Candidate
      else if v = 1 then Some CS_ProvisionalRegistered
      else if v = 2 then Some CS_StableRegistered
      else if v = 3 then Some CS_Deprecated
      else if v = 255 then Some CS_VendorPrivate
      else None)"

lemma codec_status_from_iff [simp]: "codec_status_from v = Some k \<longleftrightarrow> v = as_codec_status k"
  by (cases k) (auto simp: codec_status_from_def)

lemma codec_status_from_as [simp]: "codec_status_from (as_codec_status k) = Some k"
  by simp

datatype codec_requirement = CR_OptionalWithFallback | CR_RequiredForDecode | CR_SidecarOnly

primrec as_codec_requirement :: "codec_requirement \<Rightarrow> u8" where
  "as_codec_requirement CR_OptionalWithFallback = 0"
| "as_codec_requirement CR_RequiredForDecode = 1"
| "as_codec_requirement CR_SidecarOnly = 2"

definition codec_requirement_from :: "u8 \<Rightarrow> codec_requirement option" where
  "codec_requirement_from v =
     (if v = 0 then Some CR_OptionalWithFallback
      else if v = 1 then Some CR_RequiredForDecode
      else if v = 2 then Some CR_SidecarOnly
      else None)"

lemma codec_requirement_from_iff [simp]: "codec_requirement_from v = Some k \<longleftrightarrow> v = as_codec_requirement k"
  by (cases k) (auto simp: codec_requirement_from_def)

lemma codec_requirement_from_as [simp]: "codec_requirement_from (as_codec_requirement k) = Some k"
  by simp

datatype codec_fallback = CF_NoFallback | CF_CoreEncodingPayloadPresent | CF_DictionaryOrCanonicalDecodePath | CF_ExternalRequiredExtension

primrec as_codec_fallback :: "codec_fallback \<Rightarrow> u8" where
  "as_codec_fallback CF_NoFallback = 0"
| "as_codec_fallback CF_CoreEncodingPayloadPresent = 1"
| "as_codec_fallback CF_DictionaryOrCanonicalDecodePath = 2"
| "as_codec_fallback CF_ExternalRequiredExtension = 3"

definition codec_fallback_from :: "u8 \<Rightarrow> codec_fallback option" where
  "codec_fallback_from v =
     (if v = 0 then Some CF_NoFallback
      else if v = 1 then Some CF_CoreEncodingPayloadPresent
      else if v = 2 then Some CF_DictionaryOrCanonicalDecodePath
      else if v = 3 then Some CF_ExternalRequiredExtension
      else None)"

lemma codec_fallback_from_iff [simp]: "codec_fallback_from v = Some k \<longleftrightarrow> v = as_codec_fallback k"
  by (cases k) (auto simp: codec_fallback_from_def)

lemma codec_fallback_from_as [simp]: "codec_fallback_from (as_codec_fallback k) = Some k"
  by simp

definition requires_fallback_ref :: "codec_fallback \<Rightarrow> bool" where
  "requires_fallback_ref p \<longleftrightarrow> p \<noteq> CF_NoFallback"

section \<open>Descriptors\<close>

record codec_descriptor =
  cd_codec_id :: u32
  cd_namespace :: bytes
  cd_name :: bytes
  cd_version_major :: u16
  cd_version_minor :: u16
  cd_codec_family :: u16
  cd_logical_type_mask :: u64
  cd_physical_kind_mask :: u64
  cd_requirement :: codec_requirement
  cd_fallback_policy :: codec_fallback
  cd_parameter_schema_kind :: u8
  cd_flags :: u8
  cd_specification_status :: codec_status
  cd_required_feature_bit :: u64
  cd_optional_feature_bit :: u64
  cd_spec_digest_algorithm :: u16
  cd_spec_digest :: bytes
  cd_conformance_vector_ref :: u32
  cd_fallback_ref :: u32
  cd_private_payload_ref :: u32
  cd_checksum :: u32

definition stable_codec_for_descriptor :: "codec_descriptor \<Rightarrow> u32 \<Rightarrow> u16 \<Rightarrow> u16 \<Rightarrow> stable_codec option" where
  "stable_codec_for_descriptor d id' major' minor' =
     List.find (\<lambda>codec.
       case codec_identity codec of (namespace, name, major, minor) \<Rightarrow>
         cd_codec_id d = id' \<and> cd_version_major d = major' \<and> cd_version_minor d = minor' \<and>
         cd_namespace d = namespace \<and> cd_name d = name \<and> cd_version_major d = major \<and> cd_version_minor d = minor \<and>
         cd_codec_family d = stable_codec_family codec \<and> cd_specification_status d = CS_StableRegistered \<and>
         cd_spec_digest d = stable_spec_digest codec) stable_codecs"

definition descriptor_validate :: "codec_descriptor \<Rightarrow> unit res" where
  "descriptor_validate d =
     (if cd_namespace d = [] \<or> cd_name d = [] then Fail BadCodecExtension
      else if cd_logical_type_mask d = 0 \<or> cd_physical_kind_mask d = 0 then Fail BadCodecExtension
      else if 4 < cd_codec_family d then Fail BadCodecExtension
      else
        and_then
          (if cd_specification_status d = CS_StableRegistered then
             (case stable_family_and_masks (cd_namespace d) (cd_name d) (cd_version_major d) (cd_version_minor d) of
                Some (expected_family, logical_mask, physical_mask) \<Rightarrow>
                  if cd_codec_family d \<noteq> expected_family then Fail BadCodecExtension
                  else if cd_logical_type_mask d AND NOT logical_mask \<noteq> 0 \<or> cd_physical_kind_mask d AND NOT physical_mask \<noteq> 0
                  then Fail BadCodecExtension else Ok ()
              | None \<Rightarrow> Ok ())
           else Ok ()) (\<lambda>_.
        if 3 < cd_parameter_schema_kind d then Fail BadCodecExtension
        else if cd_requirement d = CR_OptionalWithFallback \<and> cd_fallback_policy d = CF_NoFallback then Fail BadCodecExtension
        else if requires_fallback_ref (cd_fallback_policy d) \<and> cd_fallback_ref d = ABSENT_REF then Fail BadCodecExtension
        else if cd_specification_status d = CS_Candidate \<and> cd_requirement d = CR_RequiredForDecode \<and>
          cd_fallback_policy d = CF_NoFallback then Fail BadCodecExtension
        else if cd_specification_status d = CS_StableRegistered \<and> cd_requirement d = CR_RequiredForDecode \<and>
          cd_fallback_policy d = CF_NoFallback \<and> cd_required_feature_bit d = 0 then Fail BadCodecExtension
        else Ok ()))"

text \<open>The fields in their order on the wire, the checksum last.\<close>

definition descriptor_body :: "codec_descriptor \<Rightarrow> bytes" where
  "descriptor_body d =
     le_bytes 4 (cd_codec_id d) @ le_bytes 2 (of_nat (length (cd_namespace d)) :: u16) @ cd_namespace d @
     le_bytes 2 (of_nat (length (cd_name d)) :: u16) @ cd_name d @ le_bytes 2 (cd_version_major d) @
     le_bytes 2 (cd_version_minor d) @ le_bytes 2 (cd_codec_family d) @ le_bytes 8 (cd_logical_type_mask d) @
     le_bytes 8 (cd_physical_kind_mask d) @ [as_codec_requirement (cd_requirement d)] @
     [as_codec_fallback (cd_fallback_policy d)] @ [cd_parameter_schema_kind d] @ [cd_flags d] @
     [as_codec_status (cd_specification_status d)] @ [0, 0, 0] @ le_bytes 8 (cd_required_feature_bit d) @
     le_bytes 8 (cd_optional_feature_bit d) @ le_bytes 2 (cd_spec_digest_algorithm d) @
     le_bytes 2 (of_nat (length (cd_spec_digest d)) :: u16) @ cd_spec_digest d @
     le_bytes 4 (cd_conformance_vector_ref d) @ le_bytes 4 (cd_fallback_ref d) @ le_bytes 4 (cd_private_payload_ref d)"

definition descriptor_serialize :: "(bytes \<Rightarrow> u32) \<Rightarrow> codec_descriptor \<Rightarrow> bytes res" where
  "descriptor_serialize crc d =
     (if 65535 < length (cd_namespace d) \<or> 65535 < length (cd_name d) then Fail BadCodecExtension
      else if 65535 < length (cd_spec_digest d) then Fail BadCodecExtension
      else
        and_then (descriptor_validate d) (\<lambda>_.
        let out = descriptor_body d @ le_bytes 4 (0 :: u32); checksum = crc out in
        Ok (copy_at out (length out - 4) (le_bytes 4 checksum))))"

definition cur_utf8 :: "string \<Rightarrow> bytes \<Rightarrow> nat \<Rightarrow> (bytes \<times> nat) res" where
  "cur_utf8 field bs pos =
     and_then (cur_u16 bs pos) (\<lambda>(len, pos).
     and_then (cur_bytes bs pos (unat len)) (\<lambda>(s, pos).
     if \<not> utf8_valid s then Fail (BadSection (field @ '' is not valid UTF-8'')) else Ok (s, pos)))"

text \<open>The two halves of the fields, read before the checksum is compared; the enumerations are still raw.\<close>

definition descriptor_head_parse ::
    "bytes \<Rightarrow> (u32 \<times> bytes \<times> bytes \<times> u16 \<times> u16 \<times> u16 \<times> u64 \<times> u64 \<times> nat) res" where
  "descriptor_head_parse bs =
     and_then (cur_u32 bs 0) (\<lambda>(codec_id, pos).
     and_then (cur_utf8 ''codec namespace'' bs pos) (\<lambda>(namespace, pos).
     and_then (cur_utf8 ''codec name'' bs pos) (\<lambda>(name, pos).
     and_then (cur_u16 bs pos) (\<lambda>(version_major, pos).
     and_then (cur_u16 bs pos) (\<lambda>(version_minor, pos).
     and_then (cur_u16 bs pos) (\<lambda>(family, pos).
     and_then (cur_u64 bs pos) (\<lambda>(logical_mask, pos).
     and_then (cur_u64 bs pos) (\<lambda>(physical_mask, pos).
     Ok (codec_id, namespace, name, version_major, version_minor, family, logical_mask, physical_mask, pos)))))))))"

definition descriptor_mid_parse :: "bytes \<Rightarrow> nat \<Rightarrow> (u8 \<times> u8 \<times> u8 \<times> u8 \<times> u8 \<times> u64 \<times> u64 \<times> nat) res" where
  "descriptor_mid_parse bs pos =
     and_then (cur_u8 bs pos) (\<lambda>(requirement_raw, pos).
     and_then (cur_u8 bs pos) (\<lambda>(fallback_policy_raw, pos).
     and_then (cur_u8 bs pos) (\<lambda>(schema_kind, pos).
     and_then (cur_u8 bs pos) (\<lambda>(flags, pos).
     and_then (cur_u8 bs pos) (\<lambda>(status_raw, pos).
     and_then (cur_bytes bs pos 3) (\<lambda>(reserved0, pos).
     if list_ex (\<lambda>b. b \<noteq> 0) reserved0 then Fail ReservedNotZero
     else
       and_then (cur_u64 bs pos) (\<lambda>(required_bit, pos).
       and_then (cur_u64 bs pos) (\<lambda>(optional_bit, pos).
       Ok (requirement_raw, fallback_policy_raw, schema_kind, flags, status_raw, required_bit, optional_bit, pos)))))))))"

definition descriptor_tail_parse :: "bytes \<Rightarrow> nat \<Rightarrow> (u16 \<times> bytes \<times> u32 \<times> u32 \<times> u32 \<times> nat \<times> u32 \<times> nat) res" where
  "descriptor_tail_parse bs pos =
     and_then (cur_u16 bs pos) (\<lambda>(digest_algorithm, pos).
     and_then (cur_u16 bs pos) (\<lambda>(digest_len, pos).
     and_then (cur_bytes bs pos (unat digest_len)) (\<lambda>(digest, pos).
     and_then (cur_u32 bs pos) (\<lambda>(conformance_ref, pos).
     and_then (cur_u32 bs pos) (\<lambda>(fallback_ref, pos).
     and_then (cur_u32 bs pos) (\<lambda>(private_ref, checksum_offset).
     and_then (cur_u32 bs checksum_offset) (\<lambda>(checksum, consumed).
     Ok (digest_algorithm, digest, conformance_ref, fallback_ref, private_ref, checksum_offset, checksum, consumed))))))))"

definition descriptor_parse_one :: "(bytes \<Rightarrow> u32) \<Rightarrow> bytes \<Rightarrow> (codec_descriptor \<times> nat) res" where
  "descriptor_parse_one crc bs =
     and_then (descriptor_head_parse bs) (\<lambda>(codec_id, namespace, name, major, minor, family, logical_mask, physical_mask, pos).
     and_then (descriptor_mid_parse bs pos) (\<lambda>(requirement_raw, fallback_policy_raw, schema_kind, flags, status_raw, required_bit, optional_bit, pos).
     and_then (descriptor_tail_parse bs pos) (\<lambda>(digest_algorithm, digest, conformance_ref, fallback_ref, private_ref, checksum_offset, checksum, consumed).
     and_then (slice bs 0 consumed) (\<lambda>descriptor_bytes.
     if crc (copy_at descriptor_bytes checksum_offset [0, 0, 0, 0]) \<noteq> checksum then Fail ChecksumMismatch
     else
       and_then (ok_or BadCodecExtension (codec_requirement_from requirement_raw)) (\<lambda>requirement.
       and_then (ok_or BadCodecExtension (codec_fallback_from fallback_policy_raw)) (\<lambda>fallback_policy.
       and_then (ok_or BadCodecExtension (codec_status_from status_raw)) (\<lambda>status.
       let d = \<lparr>cd_codec_id = codec_id, cd_namespace = namespace, cd_name = name, cd_version_major = major,
             cd_version_minor = minor, cd_codec_family = family, cd_logical_type_mask = logical_mask,
             cd_physical_kind_mask = physical_mask, cd_requirement = requirement, cd_fallback_policy = fallback_policy,
             cd_parameter_schema_kind = schema_kind, cd_flags = flags, cd_specification_status = status,
             cd_required_feature_bit = required_bit, cd_optional_feature_bit = optional_bit,
             cd_spec_digest_algorithm = digest_algorithm, cd_spec_digest = digest,
             cd_conformance_vector_ref = conformance_ref, cd_fallback_ref = fallback_ref,
             cd_private_payload_ref = private_ref, cd_checksum = checksum\<rparr> in
       and_then (descriptor_validate d) (\<lambda>_. Ok (d, consumed)))))))))"

definition validate_descriptor_set_step ::
    "u32 list \<Rightarrow> (bytes \<times> bytes \<times> u16 \<times> u16) list \<Rightarrow> codec_descriptor \<Rightarrow> unit res" where
  "validate_descriptor_set_step ids identities d =
     and_then (descriptor_validate d) (\<lambda>_.
     if cd_codec_id d \<in> set ids then Fail BadCodecExtension
     else if (cd_namespace d, cd_name d, cd_version_major d, cd_version_minor d) \<in> set identities then Fail BadCodecExtension
     else Ok ())"

fun validate_descriptor_set_loop ::
    "u32 list \<Rightarrow> (bytes \<times> bytes \<times> u16 \<times> u16) list \<Rightarrow> codec_descriptor list \<Rightarrow> unit res" where
  "validate_descriptor_set_loop ids identities [] = Ok ()"
| "validate_descriptor_set_loop ids identities (d # ds) =
     and_then (validate_descriptor_set_step ids identities d) (\<lambda>_.
     validate_descriptor_set_loop (cd_codec_id d # ids)
       ((cd_namespace d, cd_name d, cd_version_major d, cd_version_minor d) # identities) ds)"

definition validate_descriptor_set :: "codec_descriptor list \<Rightarrow> unit res" where
  "validate_descriptor_set ds = validate_descriptor_set_loop [] [] ds"

function descriptors_parse_loop :: "(bytes \<Rightarrow> u32) \<Rightarrow> bytes \<Rightarrow> nat \<Rightarrow> codec_descriptor list res" where
  "descriptors_parse_loop crc bs offset =
     (if offset < length bs then
        and_then (slice_from bs offset) (\<lambda>rest.
        and_then (descriptor_parse_one crc rest) (\<lambda>(d, consumed).
        if consumed = 0 then Fail BadCodecExtension
        else
          and_then (ok_or ArithOverflow (checked_add offset consumed)) (\<lambda>offset'.
          map_ok ((#) d) (descriptors_parse_loop crc bs offset'))))
      else Ok [])"
  by pat_completeness auto

termination
  by (relation "measure (\<lambda>(crc, bs, offset). length bs - offset)") (auto simp: checked_add_eq_Some_iff ok_or_eq_Inr_iff)

declare descriptors_parse_loop.simps [simp del]

definition descriptors_parse_many :: "(bytes \<Rightarrow> u32) \<Rightarrow> bytes \<Rightarrow> codec_descriptor list res" where
  "descriptors_parse_many crc bs =
     and_then (descriptors_parse_loop crc bs 0) (\<lambda>ds.
     and_then (validate_descriptor_set ds) (\<lambda>_. Ok ds))"


section \<open>Parsing a descriptor is exact\<close>

lemma reads_cat: "reads bs p (a @ b) q \<longleftrightarrow> (\<exists>m. reads bs p a m \<and> reads bs m b q)"
  unfolding reads_append_ex using reads_bounds by blast

text \<open>A length in front of the bytes it counts.\<close>

definition prefixed16 :: "bytes \<Rightarrow> bytes" where
  "prefixed16 s = le_bytes 2 (of_nat (length s) :: u16) @ s"

lemma cur_prefixed16:
  assumes lim: "length bs < usize_limit"
  shows "(\<exists>w m. cur_u16 bs p = Inr (w, m) \<and> cur_bytes bs m (unat w) = Inr (s, q)) \<longleftrightarrow>
    length s < 2 ^ 16 \<and> reads bs p (prefixed16 s) q"
proof
  assume "\<exists>w m. cur_u16 bs p = Inr (w, m) \<and> cur_bytes bs m (unat w) = Inr (s, q)"
  then obtain w :: u16 and m where w: "reads bs p (le_bytes 2 w) m" "length s = unat w" "reads bs m s q"
    by (auto simp: cur_words_reads [OF lim] cur_bytes_reads [OF lim])
  then have "of_nat (length s) = w" by simp
  then show "length s < 2 ^ 16 \<and> reads bs p (prefixed16 s) q"
    using w unat_u16_less [of w] reads_join [OF w(1,3)] by (simp add: prefixed16_def)
next
  assume a: "length s < 2 ^ 16 \<and> reads bs p (prefixed16 s) q"
  then have u: "unat (of_nat (length s) :: u16) = length s" by (intro unat_of_nat_less) simp
  from a obtain m where "reads bs p (le_bytes 2 (of_nat (length s) :: u16)) m" "reads bs m s q"
    by (auto simp: prefixed16_def reads_cat)
  then show "\<exists>w m. cur_u16 bs p = Inr (w, m) \<and> cur_bytes bs m (unat w) = Inr (s, q)"
    using u by (intro exI [of _ "of_nat (length s)"] exI [of _ m]) (simp add: cur_words_reads [OF lim] cur_bytes_reads [OF lim])
qed

lemma cur_utf8_reads:
  assumes lim: "length bs < usize_limit"
  shows "cur_utf8 field bs p = Inr (s, q) \<longleftrightarrow> (length s < 2 ^ 16 \<and> utf8_valid s) \<and> reads bs p (prefixed16 s) q"
proof -
  have "cur_utf8 field bs p = Inr (s, q) \<longleftrightarrow>
      (\<exists>w m. cur_u16 bs p = Inr (w, m) \<and> cur_bytes bs m (unat w) = Inr (s, q)) \<and> utf8_valid s"
    by (auto simp: cur_utf8_def ok_iffs split: prod.splits)
  then show ?thesis unfolding cur_prefixed16 [OF lim] by blast
qed

lemma descriptor_head_iff:
  assumes lim: "length bs < usize_limit"
  shows "descriptor_head_parse bs = Inr (i, ns, nm, ma, mi, f, l, k, q) \<longleftrightarrow>
    (length ns < 2 ^ 16 \<and> utf8_valid ns) \<and> (length nm < 2 ^ 16 \<and> utf8_valid nm) \<and>
    reads bs 0 (le_bytes 4 i @ prefixed16 ns @ prefixed16 nm @ le_bytes 2 ma @ le_bytes 2 mi @ le_bytes 2 f @
      le_bytes 8 l @ le_bytes 8 k) q"
proof -
  have "descriptor_head_parse bs = Inr (i, ns, nm, ma, mi, f, l, k, q) \<longleftrightarrow>
    (\<exists>a b c d e g h. cur_u32 bs 0 = Inr (i, a) \<and> cur_utf8 ''codec namespace'' bs a = Inr (ns, b) \<and>
      cur_utf8 ''codec name'' bs b = Inr (nm, c) \<and> cur_u16 bs c = Inr (ma, d) \<and> cur_u16 bs d = Inr (mi, e) \<and>
      cur_u16 bs e = Inr (f, g) \<and> cur_u64 bs g = Inr (l, h) \<and> cur_u64 bs h = Inr (k, q))"
    by (auto simp: descriptor_head_parse_def and_then_eq_Inr_iff split_paired_Ex)
  then show ?thesis
    unfolding cur_words_reads [OF lim] cur_utf8_reads [OF lim] reads_cat by blast
qed

lemma descriptor_mid_iff:
  assumes lim: "length bs < usize_limit"
  shows "descriptor_mid_parse bs p = Inr (r, f, s, g, t, a, b, q) \<longleftrightarrow>
    reads bs p ([r] @ [f] @ [s] @ [g] @ [t] @ [0, 0, 0] @ le_bytes 8 a @ le_bytes 8 b) q"
proof -
  have z: "list_ex (\<lambda>b. b \<noteq> 0) x \<longleftrightarrow> x \<noteq> [0, 0, 0]" if "length x = 3" for x :: bytes
    using that by (auto simp: length_Suc_conv numeral_3_eq_3)
  have z': "(cur_bytes bs p5 3 = Inr (x, p6) \<and> \<not> list_ex (\<lambda>b. b \<noteq> 0) x) \<longleftrightarrow> (x = [0, 0, 0] \<and> cur_bytes bs p5 3 = Inr ([0, 0, 0], p6))"
    for p5 p6 x
    using z [of x] by (auto simp: cur_bytes_reads [OF lim])
  have "descriptor_mid_parse bs p = Inr (r, f, s, g, t, a, b, q) \<longleftrightarrow>
    (\<exists>p1 p2 p3 p4 p5 p6 p7 x. cur_u8 bs p = Inr (r, p1) \<and> cur_u8 bs p1 = Inr (f, p2) \<and> cur_u8 bs p2 = Inr (s, p3) \<and>
      cur_u8 bs p3 = Inr (g, p4) \<and> cur_u8 bs p4 = Inr (t, p5) \<and> (cur_bytes bs p5 3 = Inr (x, p6) \<and> \<not> list_ex (\<lambda>b. b \<noteq> 0) x) \<and>
      cur_u64 bs p6 = Inr (a, p7) \<and> cur_u64 bs p7 = Inr (b, q))"
    by (auto simp: descriptor_mid_parse_def and_then_eq_Inr_iff if_eq_Inr_iffs split_paired_Ex)
  also have "\<dots> \<longleftrightarrow> (\<exists>p1 p2 p3 p4 p5 p6 p7 x. cur_u8 bs p = Inr (r, p1) \<and> cur_u8 bs p1 = Inr (f, p2) \<and> cur_u8 bs p2 = Inr (s, p3) \<and>
      cur_u8 bs p3 = Inr (g, p4) \<and> cur_u8 bs p4 = Inr (t, p5) \<and> (x = ([0, 0, 0] :: bytes) \<and> cur_bytes bs p5 3 = Inr ([0, 0, 0], p6)) \<and>
      cur_u64 bs p6 = Inr (a, p7) \<and> cur_u64 bs p7 = Inr (b, q))"
    unfolding z' by (rule refl)
  also have "\<dots> \<longleftrightarrow> (\<exists>p1 p2 p3 p4 p5 p6 p7. cur_u8 bs p = Inr (r, p1) \<and> cur_u8 bs p1 = Inr (f, p2) \<and> cur_u8 bs p2 = Inr (s, p3) \<and>
      cur_u8 bs p3 = Inr (g, p4) \<and> cur_u8 bs p4 = Inr (t, p5) \<and> cur_bytes bs p5 3 = Inr ([0, 0, 0], p6) \<and>
      cur_u64 bs p6 = Inr (a, p7) \<and> cur_u64 bs p7 = Inr (b, q))"
    by blast
  also have "\<dots> \<longleftrightarrow> reads bs p ([r] @ [f] @ [s] @ [g] @ [t] @ [0, 0, 0] @ le_bytes 8 a @ le_bytes 8 b) q"
    unfolding cur_words_reads [OF lim] cur_bytes_reads [OF lim] reads_cat by simp
  finally show ?thesis .
qed

lemma descriptor_tail_iff:
  assumes lim: "length bs < usize_limit"
  shows "descriptor_tail_parse bs p = Inr (al, dg, c, f, v, o', s, q) \<longleftrightarrow>
    length dg < 2 ^ 16 \<and> reads bs p (le_bytes 2 al @ prefixed16 dg @ le_bytes 4 c @ le_bytes 4 f @ le_bytes 4 v) o' \<and>
    reads bs o' (le_bytes 4 s) q"
proof -
  have "descriptor_tail_parse bs p = Inr (al, dg, c, f, v, o', s, q) \<longleftrightarrow>
    (\<exists>p1 p3 p4 p5. cur_u16 bs p = Inr (al, p1) \<and> (\<exists>w p2. cur_u16 bs p1 = Inr (w, p2) \<and> cur_bytes bs p2 (unat w) = Inr (dg, p3)) \<and>
      cur_u32 bs p3 = Inr (c, p4) \<and> cur_u32 bs p4 = Inr (f, p5) \<and> cur_u32 bs p5 = Inr (v, o') \<and> cur_u32 bs o' = Inr (s, q))"
    by (auto simp: descriptor_tail_parse_def and_then_eq_Inr_iff split_paired_Ex)
  then show ?thesis
    unfolding cur_prefixed16 [OF lim] unfolding cur_words_reads [OF lim] reads_cat by blast
qed

definition descriptor_checksum :: "(bytes \<Rightarrow> u32) \<Rightarrow> codec_descriptor \<Rightarrow> u32" where
  "descriptor_checksum crc d = crc (descriptor_body d @ le_bytes 4 (0 :: u32))"

definition descriptor_text_ok :: "codec_descriptor \<Rightarrow> bool" where
  "descriptor_text_ok d \<longleftrightarrow> utf8_valid (cd_namespace d) \<and> utf8_valid (cd_name d)"

lemma descriptor_serialize_iff:
  "descriptor_serialize crc d = Inr b \<longleftrightarrow> length (cd_namespace d) < 2 ^ 16 \<and> length (cd_name d) < 2 ^ 16 \<and>
     length (cd_spec_digest d) < 2 ^ 16 \<and> descriptor_validate d = Ok () \<and>
     b = descriptor_body d @ le_bytes 4 (descriptor_checksum crc d)"
  by (auto simp: descriptor_serialize_def descriptor_checksum_def Let_def ok_iffs copy_at_def)

lemma no_panic_descriptor_validate [no_panic_intros, simp]: "no_panic (descriptor_validate d)"
  by (auto simp: descriptor_validate_def intro!: no_panic_intros split: option.splits)

lemma no_panic_cur_utf8 [no_panic_intros, simp]: "no_panic (cur_utf8 f bs p)"
  by (auto simp: cur_utf8_def intro!: no_panic_intros split: prod.splits)

text \<open>
  C26: the parser of a codec descriptor accepts exactly the bytes the writer produces for a valid
  descriptor, followed by anything: it returns the descriptor and the number of its bytes, with
  the checksum that the writer computes over the descriptor whose checksum field is zero.
\<close>

theorem codec_descriptor_exact:
  assumes "length bs < usize_limit"
  shows "(descriptor_parse_one crc bs = Ok (d, n) \<longleftrightarrow>
      n \<le> length bs \<and> descriptor_serialize crc d = Ok (take n bs) \<and> cd_checksum d = descriptor_checksum crc d \<and>
      descriptor_text_ok d) \<and>
    no_panic (descriptor_parse_one crc bs)"
proof
  let ?head = "le_bytes 4 (cd_codec_id d) @ prefixed16 (cd_namespace d) @ prefixed16 (cd_name d) @ le_bytes 2 (cd_version_major d) @
    le_bytes 2 (cd_version_minor d) @ le_bytes 2 (cd_codec_family d) @ le_bytes 8 (cd_logical_type_mask d) @ le_bytes 8 (cd_physical_kind_mask d)"
  let ?mid = "[as_codec_requirement (cd_requirement d)] @ [as_codec_fallback (cd_fallback_policy d)] @ [cd_parameter_schema_kind d] @ [cd_flags d] @
    [as_codec_status (cd_specification_status d)] @ [0, 0, 0] @ le_bytes 8 (cd_required_feature_bit d) @ le_bytes 8 (cd_optional_feature_bit d)"
  let ?tail = "le_bytes 2 (cd_spec_digest_algorithm d) @ prefixed16 (cd_spec_digest d) @ le_bytes 4 (cd_conformance_vector_ref d) @
    le_bytes 4 (cd_fallback_ref d) @ le_bytes 4 (cd_private_payload_ref d)"
  have body: "descriptor_body d = ?head @ ?mid @ ?tail"
    unfolding descriptor_body_def prefixed16_def append_assoc ..
  let ?small = "length (cd_namespace d) < 2 ^ 16 \<and> length (cd_name d) < 2 ^ 16 \<and> length (cd_spec_digest d) < 2 ^ 16"
  have tk: "reads bs 0 s m \<Longrightarrow> m = length s \<and> take m bs = s \<and> m \<le> length bs" for s m by (auto simp: reads_def sub_def)
  have cs: "copy_at (take n bs) o' [0, 0, 0, 0] = descriptor_body d @ le_bytes 4 (0 :: u32)"
    if "reads bs 0 (descriptor_body d) o'" "reads bs o' (le_bytes 4 c) n" for o' n and c :: u32
  proof -
    have "take n bs = descriptor_body d @ le_bytes 4 c" "o' = length (descriptor_body d)"
      using tk [OF reads_join [OF that]] tk [OF that(1)] by blast+
    then show ?thesis by (simp add: copy_at_def) (simp add: le_bytes_def eval_nat_numeral)
  qed
  have parse: "descriptor_parse_one crc bs = Ok (d, n) \<longleftrightarrow>
    (\<exists>p1 p2 p3. descriptor_head_parse bs = Inr (cd_codec_id d, cd_namespace d, cd_name d, cd_version_major d, cd_version_minor d,
        cd_codec_family d, cd_logical_type_mask d, cd_physical_kind_mask d, p1) \<and>
      descriptor_mid_parse bs p1 = Inr (as_codec_requirement (cd_requirement d), as_codec_fallback (cd_fallback_policy d),
        cd_parameter_schema_kind d, cd_flags d, as_codec_status (cd_specification_status d), cd_required_feature_bit d,
        cd_optional_feature_bit d, p2) \<and>
      descriptor_tail_parse bs p2 = Inr (cd_spec_digest_algorithm d, cd_spec_digest d, cd_conformance_vector_ref d, cd_fallback_ref d,
        cd_private_payload_ref d, p3, cd_checksum d, n) \<and>
      n \<le> length bs \<and> crc (copy_at (take n bs) p3 [0, 0, 0, 0]) = cd_checksum d \<and> descriptor_validate d = Ok ())"
    (is "_ \<longleftrightarrow> ?rhs")
  proof
    assume "descriptor_parse_one crc bs = Ok (d, n)"
    then show ?rhs
      by (auto simp: descriptor_parse_one_def Let_def and_then_eq_Inr_iff if_eq_Inr_iffs ok_or_eq_Inr_iff slice_Ok_iff sub_def
          split_paired_Ex)
  next
    assume ?rhs
    then show "descriptor_parse_one crc bs = Ok (d, n)"
      by (cases d) (auto simp: descriptor_parse_one_def Let_def slice_Ok sub_def)
  qed
  show "descriptor_parse_one crc bs = Ok (d, n) \<longleftrightarrow>
      n \<le> length bs \<and> descriptor_serialize crc d = Ok (take n bs) \<and> cd_checksum d = descriptor_checksum crc d \<and> descriptor_text_ok d"
  proof
    assume "descriptor_parse_one crc bs = Ok (d, n)"
    then obtain p1 p2 p3 where h: "?small" "descriptor_text_ok d" and r: "reads bs 0 ?head p1" "reads bs p1 ?mid p2" "reads bs p2 ?tail p3"
      "reads bs p3 (le_bytes 4 (cd_checksum d)) n" and c: "n \<le> length bs" "crc (copy_at (take n bs) p3 [0, 0, 0, 0]) = cd_checksum d"
      "descriptor_validate d = Ok ()"
      unfolding parse descriptor_head_iff [OF assms] descriptor_mid_iff [OF assms] descriptor_tail_iff [OF assms]
        descriptor_text_ok_def by blast
    have b: "reads bs 0 (descriptor_body d) p3" unfolding body by (rule reads_join [OF r(1) reads_join [OF r(2,3)]])
    have k: "cd_checksum d = descriptor_checksum crc d"
      using c(2) unfolding cs [OF b r(4)] descriptor_checksum_def by simp
    have "take n bs = descriptor_body d @ le_bytes 4 (cd_checksum d)" using tk [OF reads_join [OF b r(4)]] by blast
    then show "n \<le> length bs \<and> descriptor_serialize crc d = Ok (take n bs) \<and> cd_checksum d = descriptor_checksum crc d \<and> descriptor_text_ok d"
      using h c k by (simp add: descriptor_serialize_iff)
  next
    assume a: "n \<le> length bs \<and> descriptor_serialize crc d = Ok (take n bs) \<and> cd_checksum d = descriptor_checksum crc d \<and> descriptor_text_ok d"
    then have s: "?small" and v: "descriptor_validate d = Ok ()" and t: "take n bs = descriptor_body d @ le_bytes 4 (cd_checksum d)"
      by (simp_all add: descriptor_serialize_iff)
    have "length (take n bs) = n" using a by simp
    then have "reads bs 0 (descriptor_body d @ le_bytes 4 (cd_checksum d)) n" using a t by (simp add: reads_def sub_def)
    then obtain p3 where b: "reads bs 0 (descriptor_body d) p3" "reads bs p3 (le_bytes 4 (cd_checksum d)) n" by (auto simp: reads_cat)
    obtain p1 p2 where r: "reads bs 0 ?head p1" "reads bs p1 ?mid p2" "reads bs p2 ?tail p3"
      using b(1) unfolding body reads_cat [of bs 0 ?head] reads_cat [of bs _ ?mid] by blast
    have "crc (copy_at (take n bs) p3 [0, 0, 0, 0]) = cd_checksum d"
      using a unfolding cs [OF b] descriptor_checksum_def by simp
    then show "descriptor_parse_one crc bs = Ok (d, n)"
      unfolding parse descriptor_head_iff [OF assms] descriptor_mid_iff [OF assms] descriptor_tail_iff [OF assms]
      using s v a b(2) r unfolding descriptor_text_ok_def by blast
  qed
  have "n \<le> length bs" if "descriptor_tail_parse bs p = Inr (al, dg, c, f, v, o', s, n)" for p al dg c f v o' s n
    using that unfolding descriptor_tail_iff [OF assms] by (simp add: reads_def)
  then show "no_panic (descriptor_parse_one crc bs)"
    by (auto simp: descriptor_parse_one_def descriptor_head_parse_def descriptor_mid_parse_def descriptor_tail_parse_def Let_def slice_def
        intro!: no_panic_intros split: prod.splits)
qed

section \<open>The envelope of a registered page\<close>

record registered_envelope =
  re_codec_id :: u32
  re_codec_version_major :: u16
  re_codec_version_minor :: u16
  re_logical_len :: u32
  re_non_null_count :: u32
  re_params_offset :: u32
  re_params_length :: u32
  re_encoded_payload_offset :: u64
  re_encoded_payload_length :: u64
  re_fallback_payload_offset :: u64
  re_fallback_payload_length :: u64
  re_decoded_uncompressed_length :: u64
  re_flags :: u32
  re_checksum :: u32

definition ENVELOPE_LEN :: nat where
  "ENVELOPE_LEN = 72"

definition checked_end :: "u64 \<Rightarrow> u64 \<Rightarrow> u64 res" where
  "checked_end offset len = ok_or ArithOverflow (checked_add_word offset len)"

definition envelope_validate :: "registered_envelope \<Rightarrow> unit res" where
  "envelope_validate e =
     (if re_flags e \<noteq> 0 then Fail BadCodecExtension
      else if re_logical_len e < re_non_null_count e then Fail BadCodecExtension
      else if (re_fallback_payload_offset e = 0) \<noteq> (re_fallback_payload_length e = 0) then Fail BadCodecExtension
      else
        and_then (checked_end (ucast (re_params_offset e)) (ucast (re_params_length e))) (\<lambda>_.
        and_then (checked_end (re_encoded_payload_offset e) (re_encoded_payload_length e)) (\<lambda>_.
        if re_fallback_payload_length e \<noteq> 0
        then and_then (checked_end (re_fallback_payload_offset e) (re_fallback_payload_length e)) (\<lambda>_. Ok ())
        else Ok ())))"

definition envelope_serialize :: "(bytes \<Rightarrow> u32) \<Rightarrow> registered_envelope \<Rightarrow> bytes res" where
  "envelope_serialize crc e =
     and_then (envelope_validate e) (\<lambda>_.
     let out = replicate ENVELOPE_LEN 0;
         out = copy_at out 0 (le_bytes 4 (re_codec_id e));
         out = copy_at out 4 (le_bytes 2 (re_codec_version_major e));
         out = copy_at out 6 (le_bytes 2 (re_codec_version_minor e));
         out = copy_at out 8 (le_bytes 4 (re_logical_len e));
         out = copy_at out 12 (le_bytes 4 (re_non_null_count e));
         out = copy_at out 16 (le_bytes 4 (re_params_offset e));
         out = copy_at out 20 (le_bytes 4 (re_params_length e));
         out = copy_at out 24 (le_bytes 8 (re_encoded_payload_offset e));
         out = copy_at out 32 (le_bytes 8 (re_encoded_payload_length e));
         out = copy_at out 40 (le_bytes 8 (re_fallback_payload_offset e));
         out = copy_at out 48 (le_bytes 8 (re_fallback_payload_length e));
         out = copy_at out 56 (le_bytes 8 (re_decoded_uncompressed_length e));
         out = copy_at out 64 (le_bytes 4 (re_flags e));
         checksum = crc out
     in Ok (copy_at out 68 (le_bytes 4 checksum)))"

definition envelope_parse :: "(bytes \<Rightarrow> u32) \<Rightarrow> bytes \<Rightarrow> registered_envelope res" where
  "envelope_parse crc bytes =
     (if length bytes < ENVELOPE_LEN then Fail BufferTooShort
      else
        and_then (slice bytes 0 ENVELOPE_LEN) (\<lambda>bs.
        and_then (cur_u32 bs 0) (\<lambda>(codec_id', pos).
        and_then (cur_u16 bs pos) (\<lambda>(codec_version_major', pos).
        and_then (cur_u16 bs pos) (\<lambda>(codec_version_minor', pos).
        and_then (cur_u32 bs pos) (\<lambda>(logical_len', pos).
        and_then (cur_u32 bs pos) (\<lambda>(non_null_count', pos).
        and_then (cur_u32 bs pos) (\<lambda>(params_offset', pos).
        and_then (cur_u32 bs pos) (\<lambda>(params_length', pos).
        and_then (cur_u64 bs pos) (\<lambda>(encoded_payload_offset', pos).
        and_then (cur_u64 bs pos) (\<lambda>(encoded_payload_length', pos).
        and_then (cur_u64 bs pos) (\<lambda>(fallback_payload_offset', pos).
        and_then (cur_u64 bs pos) (\<lambda>(fallback_payload_length', pos).
        and_then (cur_u64 bs pos) (\<lambda>(decoded_uncompressed_length', pos).
        and_then (cur_u32 bs pos) (\<lambda>(flags', pos).
        and_then (cur_u32 bs pos) (\<lambda>(checksum', pos).
        let e = \<lparr>re_codec_id = codec_id',
          re_codec_version_major = codec_version_major',
          re_codec_version_minor = codec_version_minor',
          re_logical_len = logical_len',
          re_non_null_count = non_null_count',
          re_params_offset = params_offset',
          re_params_length = params_length',
          re_encoded_payload_offset = encoded_payload_offset',
          re_encoded_payload_length = encoded_payload_length',
          re_fallback_payload_offset = fallback_payload_offset',
          re_fallback_payload_length = fallback_payload_length',
          re_decoded_uncompressed_length = decoded_uncompressed_length',
          re_flags = flags',
          re_checksum = checksum'\<rparr> in
        if crc (copy_at bs (ENVELOPE_LEN - 4) [0, 0, 0, 0]) \<noteq> re_checksum e then Fail ChecksumMismatch
        else and_then (envelope_validate e) (\<lambda>_. Ok e)))))))))))))))))"

definition envelopes_parse_many :: "(bytes \<Rightarrow> u32) \<Rightarrow> bytes \<Rightarrow> registered_envelope list res" where
  "envelopes_parse_many crc bs =
     (if length bs mod ENVELOPE_LEN \<noteq> 0 then Fail BadCodecExtension
      else try_map (envelope_parse crc) (chunks_exact ENVELOPE_LEN bs))"

definition envelope_body :: "registered_envelope \<Rightarrow> bytes" where
  "envelope_body e = le_bytes 4 (re_codec_id e) @
     le_bytes 2 (re_codec_version_major e) @
     le_bytes 2 (re_codec_version_minor e) @
     le_bytes 4 (re_logical_len e) @
     le_bytes 4 (re_non_null_count e) @
     le_bytes 4 (re_params_offset e) @
     le_bytes 4 (re_params_length e) @
     le_bytes 8 (re_encoded_payload_offset e) @
     le_bytes 8 (re_encoded_payload_length e) @
     le_bytes 8 (re_fallback_payload_offset e) @
     le_bytes 8 (re_fallback_payload_length e) @
     le_bytes 8 (re_decoded_uncompressed_length e) @
     le_bytes 4 (re_flags e)"

lemma length_envelope_body [simp]: "length (envelope_body e) = 68"
  by (simp add: envelope_body_def)

lemma envelope_serialize_iff:
  "envelope_serialize crc e = Inr b \<longleftrightarrow>
     envelope_validate e = Ok () \<and> b = envelope_body e @ le_bytes 4 (crc (envelope_body e @ [0, 0, 0, 0]))"
proof -
  have z: "replicate 4 (0 :: u8) = [0, 0, 0, 0]" by (simp add: eval_nat_numeral)
  have "envelope_serialize crc e = and_then (envelope_validate e) (\<lambda>_. Ok (envelope_body e @ le_bytes 4 (crc (envelope_body e @ replicate 4 0))))"
    unfolding envelope_serialize_def ENVELOPE_LEN_def envelope_body_def
    by (simp add: fill_simps del: append_assoc replicate.simps) (simp only: append_assoc replicate_0 append_Nil2)
  then show ?thesis by (auto simp: z and_then_eq_Inr_iff)
qed

lemma no_panic_envelope_validate [no_panic_intros, simp]: "no_panic (envelope_validate e)"
  by (auto simp: envelope_validate_def checked_end_def intro!: no_panic_intros)

text \<open>
  The parser of an envelope accepts exactly the 72 bytes the writer produces for a valid
  envelope, whatever follows them, and it never panics.
\<close>

theorem envelope_parse_exact:
  "(envelope_parse crc bytes = Ok e \<longleftrightarrow>
      72 \<le> length bytes \<and> envelope_serialize crc e = Ok (take 72 bytes) \<and>
      re_checksum e = crc (envelope_body e @ [0, 0, 0, 0])) \<and>
    no_panic (envelope_parse crc bytes)"
proof
  show "envelope_parse crc bytes = Ok e \<longleftrightarrow> 72 \<le> length bytes \<and> envelope_serialize crc e = Ok (take 72 bytes) \<and>
      re_checksum e = crc (envelope_body e @ [0, 0, 0, 0])"
  proof (cases "72 \<le> length bytes")
    case True
    define bs where "bs = take 72 bytes"
    have l: "length bs = 72" "length bs < usize_limit" using True by (simp_all add: bs_def usize_limit_def)
    have s: "slice bytes 0 72 = (Ok bs :: bytes res)" using True by (simp add: slice_Ok bs_def sub_def)
    have "envelope_parse crc bytes = Ok e \<longleftrightarrow> (\<exists>p1 p2 p3 p4 p5 p6 p7 p8 p9 p10 p11 p12 p13 p14. cur_u32 bs 0 = Inr (re_codec_id e, p1) \<and>
      cur_u16 bs p1 = Inr (re_codec_version_major e, p2) \<and>
      cur_u16 bs p2 = Inr (re_codec_version_minor e, p3) \<and>
      cur_u32 bs p3 = Inr (re_logical_len e, p4) \<and>
      cur_u32 bs p4 = Inr (re_non_null_count e, p5) \<and>
      cur_u32 bs p5 = Inr (re_params_offset e, p6) \<and>
      cur_u32 bs p6 = Inr (re_params_length e, p7) \<and>
      cur_u64 bs p7 = Inr (re_encoded_payload_offset e, p8) \<and>
      cur_u64 bs p8 = Inr (re_encoded_payload_length e, p9) \<and>
      cur_u64 bs p9 = Inr (re_fallback_payload_offset e, p10) \<and>
      cur_u64 bs p10 = Inr (re_fallback_payload_length e, p11) \<and>
      cur_u64 bs p11 = Inr (re_decoded_uncompressed_length e, p12) \<and>
      cur_u32 bs p12 = Inr (re_flags e, p13) \<and>
      cur_u32 bs p13 = Inr (re_checksum e, p14)) \<and>
      crc (copy_at bs 68 [0, 0, 0, 0]) = re_checksum e \<and> envelope_validate e = Ok ()"
      (is "_ \<longleftrightarrow> ?rhs")
    proof
      assume "envelope_parse crc bytes = Ok e"
      then show ?rhs
        using True by (auto simp: envelope_parse_def ENVELOPE_LEN_def s Let_def and_then_eq_Inr_iff if_eq_Inr_iffs split_paired_Ex)
    next
      assume ?rhs
      then show "envelope_parse crc bytes = Ok e"
        using True by (cases e) (auto simp: envelope_parse_def ENVELOPE_LEN_def s Let_def)
    qed
    also have "\<dots> \<longleftrightarrow> (\<exists>q. reads bs 0 (envelope_body e @ le_bytes 4 (re_checksum e)) q) \<and>
      crc (copy_at bs 68 [0, 0, 0, 0]) = re_checksum e \<and> envelope_validate e = Ok ()"
      unfolding cur_words_reads [OF l(2)] envelope_body_def append_assoc reads_cat by blast
    also have "(\<exists>q. reads bs 0 (envelope_body e @ le_bytes 4 (re_checksum e)) q) \<longleftrightarrow> bs = envelope_body e @ le_bytes 4 (re_checksum e)"
      using l by (auto simp: reads_def sub_def)
    finally have "envelope_parse crc bytes = Ok e \<longleftrightarrow> bs = envelope_body e @ le_bytes 4 (re_checksum e) \<and>
      crc (copy_at bs 68 [0, 0, 0, 0]) = re_checksum e \<and> envelope_validate e = Ok ()" .
    moreover have "copy_at (envelope_body e @ le_bytes 4 c) 68 [0, 0, 0, 0] = envelope_body e @ [0, 0, 0, 0]" for c :: u32
      by (simp add: copy_at_def)
    ultimately show ?thesis using True by (auto simp: envelope_serialize_iff bs_def)
  qed (simp add: envelope_parse_def ENVELOPE_LEN_def)
  show "no_panic (envelope_parse crc bytes)"
    by (auto simp: envelope_parse_def ENVELOPE_LEN_def slice_def Let_def intro!: no_panic_intros split: prod.splits)
qed

section \<open>Sets of descriptors\<close>

definition descriptor_identity :: "codec_descriptor \<Rightarrow> bytes \<times> bytes \<times> u16 \<times> u16" where
  "descriptor_identity d = (cd_namespace d, cd_name d, cd_version_major d, cd_version_minor d)"

lemma validate_descriptor_set_iff:
  "validate_descriptor_set ds = Inr u \<longleftrightarrow>
     list_all (\<lambda>d. descriptor_validate d = Ok ()) ds \<and> distinct (map cd_codec_id ds) \<and> distinct (map descriptor_identity ds)"
proof -
  have "validate_descriptor_set_loop ids idents ds = Inr u \<longleftrightarrow> list_all (\<lambda>d. descriptor_validate d = Ok ()) ds \<and>
      distinct (map cd_codec_id ds) \<and> distinct (map descriptor_identity ds) \<and>
      set ids \<inter> set (map cd_codec_id ds) = {} \<and> set idents \<inter> set (map descriptor_identity ds) = {}" for ids idents
    by (induction ds arbitrary: ids idents)
      (auto simp: validate_descriptor_set_step_def and_then_eq_Inr_iff descriptor_identity_def if_eq_Inr_iffs)
  then show ?thesis by (simp add: validate_descriptor_set_def)
qed

lemma no_panic_validate_descriptor_set [no_panic_intros, simp]: "no_panic (validate_descriptor_set ds)"
proof -
  have "no_panic (validate_descriptor_set_loop ids idents ds)" for ids idents
    by (induction ds arbitrary: ids idents) (auto simp: validate_descriptor_set_step_def intro!: no_panic_intros)
  then show ?thesis by (simp add: validate_descriptor_set_def)
qed

definition descriptor_example :: codec_descriptor where
  "descriptor_example = \<lparr>cd_codec_id = 1, cd_namespace = [110], cd_name = [99], cd_version_major = 2, cd_version_minor = 0,
     cd_codec_family = 0, cd_logical_type_mask = 1, cd_physical_kind_mask = 1, cd_requirement = CR_OptionalWithFallback,
     cd_fallback_policy = CF_CoreEncodingPayloadPresent, cd_parameter_schema_kind = 0, cd_flags = 0,
     cd_specification_status = CS_Candidate, cd_required_feature_bit = 0, cd_optional_feature_bit = 0,
     cd_spec_digest_algorithm = 1, cd_spec_digest = [1, 2], cd_conformance_vector_ref = 0, cd_fallback_ref = 0,
     cd_private_payload_ref = 0, cd_checksum = 7\<rparr>"

theorem codec_descriptor_exact_witness:
  "\<exists>bs. descriptor_serialize (\<lambda>_. 7) descriptor_example = Ok bs \<and>
     descriptor_parse_one (\<lambda>_. 7) (bs @ [9]) = Ok (descriptor_example, length bs)"
proof -
  have v: "descriptor_validate descriptor_example = Ok ()"
    by (simp add: descriptor_validate_def descriptor_example_def requires_fallback_ref_def ABSENT_REF_def)
  let ?b = "descriptor_body descriptor_example @ le_bytes 4 (7 :: u32)"
  have s: "descriptor_serialize (\<lambda>_. 7) descriptor_example = Ok ?b"
    unfolding descriptor_serialize_iff using v by (simp add: descriptor_example_def descriptor_checksum_def)
  have l: "length (?b @ [9]) < usize_limit" by (simp add: descriptor_body_def descriptor_example_def usize_limit_def)
  have t: "descriptor_text_ok descriptor_example" "cd_checksum descriptor_example = descriptor_checksum (\<lambda>_. 7) descriptor_example"
    by (simp_all add: descriptor_text_ok_def descriptor_example_def descriptor_checksum_def utf8_valid.simps(2))
  have "descriptor_parse_one (\<lambda>_. 7) (?b @ [9]) = Ok (descriptor_example, length ?b)"
    using codec_descriptor_exact [OF l, of "\<lambda>_. 7" descriptor_example "length ?b"] s t by simp
  then show ?thesis using s by blast
qed
end
