(* ===== verification/Row_Codec.thy ===== *)
theory Row_Codec
  imports Codec_Descriptor
begin

text \<open>
  The row payload of the stable registered codecs: the writer and the reader of the facade crate
  (\<^verbatim>\<open>cove-codec/src/lib.rs\<close>) and the reader of the core (\<^verbatim>\<open>codec.rs\<close>), with the resolvers built
  on them.
\<close>

section \<open>Logical pages\<close>

record logical_page =
  lp_values :: "bytes option list"

section \<open>Writing the rows\<close>

fun encode_offsets :: "u32 \<Rightarrow> bytes option list \<Rightarrow> (u32 list \<times> bytes) res" where
  "encode_offsets current [] = Ok ([], [])"
| "encode_offsets current (None # vs) = map_ok (\<lambda>(os, payload). (current # os, payload)) (encode_offsets current vs)"
| "encode_offsets current (Some b # vs) =
     and_then (ok_or ArithOverflow (if length b < 2 ^ 32 then Some (of_nat (length b)) else None)) (\<lambda>n.
     and_then (ok_or ArithOverflow (checked_add_word current n)) (\<lambda>next_offset.
     map_ok (\<lambda>(os, payload). (next_offset # os, b @ payload)) (encode_offsets next_offset vs)))"

definition mark_null :: "bytes \<Rightarrow> nat \<Rightarrow> bytes res" where
  "mark_null bitmap i =
     and_then (index bitmap (i div 8)) (\<lambda>b. set_index bitmap (i div 8) (b OR push_bit (i mod 8) 1))"

fun null_bits :: "nat \<Rightarrow> bytes \<Rightarrow> bytes option list \<Rightarrow> bytes res" where
  "null_bits i bitmap [] = Ok bitmap"
| "null_bits i bitmap (v # vs) =
     and_then (if v = None then mark_null bitmap i else Ok bitmap) (\<lambda>bitmap. null_bits (Suc i) bitmap vs)"

definition encode_row_bytes :: "bytes \<Rightarrow> logical_page \<Rightarrow> bytes res" where
  "encode_row_bytes magic page =
     (let vs = lp_values page in
      if \<not> length vs < 2 ^ 32 then Fail ArithOverflow
      else
        let null_bitmap_len = (length vs + 7) div 8 in
        and_then (ok_or ArithOverflow (Option.bind (checked_add (length vs) 1) (\<lambda>count. checked_mul count 4))) (\<lambda>offsets_len.
        and_then (encode_offsets 0 vs) (\<lambda>(offsets, payload).
        and_then (null_bits 0 (replicate null_bitmap_len 0) vs) (\<lambda>null_bitmap.
        Ok (magic @ le_bytes 4 (of_nat (length vs) :: u32) @ le_bytes 4 (of_nat null_bitmap_len :: u32) @
          le_bytes 4 (of_nat offsets_len :: u32) @ null_bitmap @ concat (map (le_bytes 4) (0 # offsets)) @ payload)))))"

section \<open>Reading the rows\<close>

definition row_value :: "nat list \<Rightarrow> bytes \<Rightarrow> bytes \<Rightarrow> nat \<Rightarrow> bytes option res" where
  "row_value offsets null_bitmap payload i =
     and_then (index offsets i) (\<lambda>start.
     and_then (index offsets (i + 1)) (\<lambda>end'.
     if end' < start \<or> length payload < end' then Fail BadCodecExtension
     else
       and_then (index null_bitmap (i div 8)) (\<lambda>b.
       if b AND push_bit (i mod 8) 1 \<noteq> 0 then Ok None else map_ok Some (slice payload start end'))))"

text \<open>The part of the reader behind the offsets, the same in both crates.\<close>

definition decode_rows :: "nat \<Rightarrow> nat list \<Rightarrow> bytes \<Rightarrow> bytes \<Rightarrow> logical_page res" where
  "decode_rows row_count offsets null_bitmap payload =
     (if get offsets 0 \<noteq> Some 0 then Fail BadCodecExtension
      else
        and_then (try_map (row_value offsets null_bitmap payload) [0..<row_count]) (\<lambda>vs.
        if offsets = [] \<or> last offsets \<noteq> length payload then Fail BadCodecExtension
        else if row_count mod 8 \<noteq> 0 \<and> null_bitmap \<noteq> [] then
          and_then (index null_bitmap (length null_bitmap - 1)) (\<lambda>b.
          if b AND NOT (push_bit (row_count mod 8) 1 - 1) \<noteq> 0 then Fail BadCodecExtension
          else Ok \<lparr>lp_values = vs\<rparr>)
        else Ok \<lparr>lp_values = vs\<rparr>))"

text \<open>The fixed fields and the bounds of the three regions.\<close>

definition row_layout :: "bytes \<Rightarrow> bytes \<Rightarrow> (nat \<times> nat \<times> nat) res" where
  "row_layout expected_magic bs =
     and_then (if length bs < 16 then Ok True else map_ok (\<lambda>m. m \<noteq> expected_magic) (slice bs 0 4)) (\<lambda>bad.
     if bad then Fail BadCodecExtension
     else
       and_then (read_u32_le_checked bs 4) (\<lambda>row_count.
       and_then (read_u32_le_checked bs 8) (\<lambda>null_bitmap_len.
       and_then (read_u32_le_checked bs 12) (\<lambda>offsets_len.
       if unat null_bitmap_len \<noteq> (unat row_count + 7) div 8 \<or> unat offsets_len \<noteq> (unat row_count + 1) * 4
       then Fail BadCodecExtension
       else
         and_then (ok_or ArithOverflow (checked_add 16 (unat null_bitmap_len))) (\<lambda>offsets_start.
         and_then (ok_or ArithOverflow (checked_add offsets_start (unat offsets_len))) (\<lambda>payload_start.
         if length bs < payload_start then Fail BufferTooShort
         else Ok (unat row_count, offsets_start, payload_start)))))))"

definition decode_row_bytes :: "bytes \<Rightarrow> bytes \<Rightarrow> logical_page res" where
  "decode_row_bytes expected_magic bs =
     and_then (row_layout expected_magic bs) (\<lambda>(row_count, offsets_start, payload_start).
     and_then (slice bs 16 offsets_start) (\<lambda>null_bitmap.
     and_then (try_map (\<lambda>k. map_ok unat (read_u32_le_checked bs (offsets_start + 4 * k)))
       [0..<(payload_start - offsets_start + 3) div 4]) (\<lambda>offsets.
     and_then (slice_from bs payload_start) (\<lambda>payload.
     decode_rows row_count offsets null_bitmap payload))))"

text \<open>The reader of the facade crate takes the offsets from four-byte chunks.\<close>

definition facade_decode_row_bytes :: "bytes \<Rightarrow> bytes \<Rightarrow> logical_page res" where
  "facade_decode_row_bytes expected_magic bs =
     and_then (row_layout expected_magic bs) (\<lambda>(row_count, offsets_start, payload_start).
     and_then (slice bs 16 offsets_start) (\<lambda>null_bitmap.
     and_then (slice bs offsets_start payload_start) (\<lambda>raw.
     let offsets = map (\<lambda>chunk. unat (of_le chunk :: u32)) (chunks_exact 4 raw) in
     and_then (slice_from bs payload_start) (\<lambda>payload.
     decode_rows row_count offsets null_bitmap payload))))"

section \<open>Codecs and resolvers\<close>

primrec codec_magic :: "stable_codec \<Rightarrow> bytes" where
  "codec_magic SC_FsstUtf8 = [67, 70, 83, 50]"
| "codec_magic SC_AlpFloat = [67, 65, 70, 50]"
| "codec_magic SC_FastLanesInteger = [67, 70, 73, 50]"

definition page_utf8 :: "logical_page \<Rightarrow> bool" where
  "page_utf8 page \<longleftrightarrow> list_all (\<lambda>v. case v of None \<Rightarrow> True | Some b \<Rightarrow> utf8_valid b) (lp_values page)"

definition codec_decode :: "stable_codec \<Rightarrow> bytes \<Rightarrow> logical_page res" where
  "codec_decode codec payload =
     and_then (decode_row_bytes (codec_magic codec) payload) (\<lambda>page.
     if codec = SC_FsstUtf8 \<and> \<not> page_utf8 page then Fail BadCodecExtension else Ok page)"

definition facade_encode :: "stable_codec \<Rightarrow> logical_page \<Rightarrow> bytes res" where
  "facade_encode codec page =
     (if codec = SC_FsstUtf8 \<and> \<not> page_utf8 page then Fail BadCodecExtension
      else encode_row_bytes (codec_magic codec) page)"

definition facade_decode :: "stable_codec \<Rightarrow> bytes \<Rightarrow> logical_page res" where
  "facade_decode codec payload =
     and_then (facade_decode_row_bytes (codec_magic codec) payload) (\<lambda>page.
     if codec = SC_FsstUtf8 \<and> \<not> page_utf8 page then Fail BadCodecExtension else Ok page)"

text \<open>A resolver decodes the payload of a registered page, or says that it does not know the codec.\<close>

type_synonym codec_resolver = "codec_descriptor \<Rightarrow> registered_envelope \<Rightarrow> bytes \<Rightarrow> logical_page res"

definition no_resolver :: codec_resolver where
  "no_resolver d e payload = Fail CodecUnsupported"

definition stable_resolver :: codec_resolver where
  "stable_resolver d e payload =
     and_then (ok_or CodecUnsupported
       (stable_codec_for_descriptor d (re_codec_id e) (re_codec_version_major e) (re_codec_version_minor e))) (\<lambda>codec.
     codec_decode codec payload)"

definition registry_codec_for_descriptor :: "stable_codec list \<Rightarrow> codec_descriptor \<Rightarrow> stable_codec option" where
  "registry_codec_for_descriptor codecs d =
     List.find (\<lambda>codec.
       case codec_identity codec of (namespace, name, major, minor) \<Rightarrow>
         cd_namespace d = namespace \<and> cd_name d = name \<and> cd_version_major d = major \<and> cd_version_minor d = minor \<and>
         cd_codec_family d = stable_codec_family codec \<and> cd_specification_status d = CS_StableRegistered \<and>
         cd_spec_digest d = stable_spec_digest codec) codecs"

definition registry_resolver :: "stable_codec list \<Rightarrow> codec_resolver" where
  "registry_resolver codecs d e payload =
     and_then (ok_or CodecUnsupported
       (case registry_codec_for_descriptor codecs d of
          None \<Rightarrow> None
        | Some codec \<Rightarrow>
            (case codec_identity codec of (_, _, major, minor) \<Rightarrow>
               if re_codec_id e = cd_codec_id d \<and> re_codec_version_major e = major \<and> re_codec_version_minor e = minor
               then Some codec else None))) (\<lambda>codec.
     facade_decode codec payload)"

definition registry_stable_v2 :: "stable_codec list" where
  "registry_stable_v2 = [SC_FsstUtf8, SC_AlpFloat, SC_FastLanesInteger]"

definition validate_fallback_equivalence :: "stable_codec \<Rightarrow> bytes \<Rightarrow> logical_page \<Rightarrow> unit res" where
  "validate_fallback_equivalence codec payload fallback =
     and_then (facade_decode codec payload) (\<lambda>decoded. if decoded = fallback then Ok () else Fail BadCodecExtension)"

definition facade_descriptor :: "stable_codec \<Rightarrow> codec_descriptor" where
  "facade_descriptor codec =
     (case codec_identity codec of (namespace, name, major, minor) \<Rightarrow>
      case (case stable_supported_masks namespace name major minor of Some masks \<Rightarrow> masks | None \<Rightarrow> (0, 0)) of
        (logical_mask, physical_mask) \<Rightarrow>
      \<lparr>cd_codec_id = (case codec of SC_FsstUtf8 \<Rightarrow> 1 | SC_AlpFloat \<Rightarrow> 2 | SC_FastLanesInteger \<Rightarrow> 3),
       cd_namespace = namespace, cd_name = name, cd_version_major = major, cd_version_minor = minor,
       cd_codec_family = stable_codec_family codec, cd_logical_type_mask = logical_mask, cd_physical_kind_mask = physical_mask,
       cd_requirement = CR_OptionalWithFallback, cd_fallback_policy = CF_CoreEncodingPayloadPresent,
       cd_parameter_schema_kind = 0, cd_flags = 0, cd_specification_status = CS_StableRegistered,
       cd_required_feature_bit = 0, cd_optional_feature_bit = FEATURE_REGISTERED_ENCODINGS,
       cd_spec_digest_algorithm = 1, cd_spec_digest = stable_spec_digest codec, cd_conformance_vector_ref = ABSENT_REF,
       cd_fallback_ref = 0, cd_private_payload_ref = ABSENT_REF, cd_checksum = 0\<rparr>)"

section \<open>The writer and the reader agree\<close>

lemma null_bits_Ok:
  "i + length vs \<le> 8 * length bitmap \<Longrightarrow> \<exists>bm. null_bits i bitmap vs = Ok bm \<and> length bm = length bitmap \<and>
     (\<forall>j. stream_bit bm j \<longleftrightarrow> stream_bit bitmap j \<or> (i \<le> j \<and> j < i + length vs \<and> vs ! (j - i) = None))"
proof (induction vs arbitrary: i bitmap)
  case (Cons v vs)
  have k: "i div 8 < length bitmap" using Cons.prems by auto
  let ?next = "if v = None then bitmap[i div 8 := bitmap ! (i div 8) OR push_bit (i mod 8) 1] else bitmap"
  have m: "(if v = None then mark_null bitmap i else Ok bitmap) = Ok ?next"
    using k by (simp add: mark_null_def index_def set_index_def)
  have "Suc i + length vs \<le> 8 * length ?next" using Cons.prems by simp
  from Cons.IH [OF this] obtain bm where bm: "null_bits (Suc i) ?next vs = Ok bm" "length bm = length ?next"
    "\<And>j. stream_bit bm j \<longleftrightarrow> stream_bit ?next j \<or> (Suc i \<le> j \<and> j < Suc i + length vs \<and> vs ! (j - Suc i) = None)" by blast
  have "stream_bit ?next j \<longleftrightarrow> stream_bit bitmap j \<or> (j = i \<and> v = None)" for j
    using stream_bit_set [OF k, of j] by auto
  moreover have "stream_bit bm j \<longleftrightarrow> stream_bit bitmap j \<or> (i \<le> j \<and> j < i + length (v # vs) \<and> (v # vs) ! (j - i) = None)"
    if "stream_bit ?next j \<longleftrightarrow> stream_bit bitmap j \<or> (j = i \<and> v = None)" for j
  proof (cases "i < j")
    case True
    then have "(v # vs) ! (j - i) = vs ! (j - Suc i)" by (simp add: nth_Cons_pos)
    then show ?thesis using True unfolding bm(3) that by auto
  next
    case False
    then show ?thesis unfolding bm(3) that by auto
  qed
  ultimately show ?case using bm(1,2) m by (intro exI [of _ bm]) simp
qed auto

lemma encode_offsets_Ok:
  "encode_offsets c vs = Inr (os, payload) \<Longrightarrow> length os = length vs \<and>
     unat (last (c # os)) = unat c + length payload \<and>
     (\<forall>i < length vs. case vs ! i of
        None \<Rightarrow> os ! i = (c # os) ! i
      | Some b \<Rightarrow> unat (os ! i) = unat ((c # os) ! i) + length b \<and> unat c \<le> unat ((c # os) ! i) \<and>
          unat (os ! i) \<le> unat c + length payload \<and>
          sub payload (unat ((c # os) ! i) - unat c) (length b) = b)"
proof (induction c vs arbitrary: os payload rule: encode_offsets.induct)
  case (2 c vs)
  from "2.prems" obtain us where os: "encode_offsets c vs = Inr (us, payload)" "os = c # us" by (auto simp: ok_iffs)
  note ih = "2.IH" [OF os(1)]
  have "case (None # vs) ! i of
        None \<Rightarrow> os ! i = (c # os) ! i
      | Some b \<Rightarrow> unat (os ! i) = unat ((c # os) ! i) + length b \<and> unat c \<le> unat ((c # os) ! i) \<and>
          unat (os ! i) \<le> unat c + length payload \<and> sub payload (unat ((c # os) ! i) - unat c) (length b) = b"
    if "i < length (None # vs)" for i
    using ih that by (cases i; cases "(None # vs) ! i") (auto simp add: os(2))
  then show ?case using ih by (simp add: os(2))
next
  case (3 c b vs)
  from "3.prems" obtain n next_offset us p where n: "length b < 2 ^ 32" "n = of_nat (length b)"
    "checked_add_word c n = Some next_offset" and r: "encode_offsets next_offset vs = Inr (us, p)"
    and os: "os = next_offset # us" "payload = b @ p"
    by (auto simp: ok_iffs split: if_splits)
  have u: "unat n = length b" unfolding n(2) by (rule unat_of_nat_less) (use n(1) in simp)
  have x: "unat next_offset = unat c + length b"
    using n(3) u unat_add_no_overflow [of c n] by (auto simp: checked_add_word_eq_Some_iff)
  have ih: "length us = length vs" "unat (last (next_offset # us)) = unat next_offset + length p"
    "\<And>i b'. i < length vs \<Longrightarrow> vs ! i = Some b' \<Longrightarrow> unat (us ! i) = unat ((next_offset # us) ! i) + length b' \<and>
       unat next_offset \<le> unat ((next_offset # us) ! i) \<and> unat (us ! i) \<le> unat next_offset + length p \<and>
       sub p (unat ((next_offset # us) ! i) - unat next_offset) (length b') = b'"
    "\<And>i. i < length vs \<Longrightarrow> vs ! i = None \<Longrightarrow> us ! i = (next_offset # us) ! i"
    using "3.IH" [of n next_offset us p] n r by (auto split: option.splits)
  have "case (Some b # vs) ! i of
        None \<Rightarrow> os ! i = (c # os) ! i
      | Some b' \<Rightarrow> unat (os ! i) = unat ((c # os) ! i) + length b' \<and> unat c \<le> unat ((c # os) ! i) \<and>
          unat (os ! i) \<le> unat c + length payload \<and> sub payload (unat ((c # os) ! i) - unat c) (length b') = b'"
    if "i < length (Some b # vs)" for i
  proof (cases i)
    case 0
    then show ?thesis using x by (simp add: os sub_def)
  next
    case (Suc j)
    then have j: "j < length vs" using that by simp
    show ?thesis
    proof (cases "vs ! j")
      case None
      then show ?thesis using ih(4) [OF j] by (simp add: Suc os)
    next
      case (Some b')
      note h = ih(3) [OF j Some]
      have "sub (b @ p) (unat ((next_offset # us) ! j) - unat c) (length b') =
          sub p (unat ((next_offset # us) ! j) - unat c - length b) (length b')"
      proof (rule sub_append_right)
        have "unat c + length b \<le> unat ((next_offset # us) ! j)" using h x by simp
        then show "length b \<le> unat ((next_offset # us) ! j) - unat c" by arith
      qed
      also have "unat ((next_offset # us) ! j) - unat c - length b = unat ((next_offset # us) ! j) - unat next_offset"
        by (simp add: x)
      finally show ?thesis using h x by (simp add: Suc Some os)
    qed
  qed
  then show ?case using ih(1,2) x by (simp add: os)
qed simp

lemma encode_parts:
  assumes "encode_row_bytes magic page = Inr bs"
  obtains os payload bm where
    "encode_offsets 0 (lp_values page) = Ok (os, payload)" "length (lp_values page) < 2 ^ 32"
    "length bm = (length (lp_values page) + 7) div 8"
    "\<And>j. stream_bit bm j \<longleftrightarrow> j < length (lp_values page) \<and> lp_values page ! j = None"
    "bs = magic @ le_bytes 4 (of_nat (length (lp_values page)) :: u32) @ le_bytes 4 (of_nat ((length (lp_values page) + 7) div 8) :: u32) @
       le_bytes 4 (of_nat ((length (lp_values page) + 1) * 4) :: u32) @ bm @ concat (map (le_bytes 4) (0 # os)) @ payload"
proof -
  let ?vs = "lp_values page" and ?n = "(length (lp_values page) + 7) div 8"
  have n: "0 + length ?vs \<le> 8 * length (replicate ?n (0 :: u8))" by simp
  have z: "\<not> stream_bit (replicate ?n 0) j" for j by (auto simp: stream_bit_def)
  from assms obtain os payload bm where h: "encode_offsets 0 ?vs = Ok (os, payload)" "length ?vs < 2 ^ 32"
    "null_bits 0 (replicate ?n 0) ?vs = Ok bm"
    "bs = magic @ le_bytes 4 (of_nat (length ?vs) :: u32) @ le_bytes 4 (of_nat ?n :: u32) @
       le_bytes 4 (of_nat ((length ?vs + 1) * 4) :: u32) @ bm @ concat (map (le_bytes 4) (0 # os)) @ payload"
    by (auto simp: encode_row_bytes_def Let_def and_then_eq_Inr_iff ok_or_eq_Inr_iff bind_eq_Some_conv checked_add_eq_Some_iff
        checked_mul_eq_Some_iff split: if_splits)
  from null_bits_Ok [OF n] h(3) have "length bm = ?n" "\<And>j. stream_bit bm j \<longleftrightarrow> j < length ?vs \<and> ?vs ! j = None"
    using z by auto
  then show ?thesis using that h by blast
qed

lemma unused_bits_zero:
  assumes "k < 8" "\<And>j. bit (b :: u8) j \<Longrightarrow> j < k"
  shows "b AND NOT (push_bit k 1 - 1) = 0"
proof -
  have "push_bit k 1 - 1 = (mask k :: u8)" by (simp add: mask_eq_decr_exp push_bit_eq_mult)
  then show ?thesis using assms by (intro bit_word_eqI) (auto simp: bit_simps)
qed

lemma and_bit_zero: "n < 8 \<Longrightarrow> (b :: u8) AND push_bit n 1 = 0 \<longleftrightarrow> \<not> bit b n"
proof -
  assume n: "n < 8"
  have "bit (b AND push_bit n 1) i \<longleftrightarrow> i = n \<and> bit b n" for i using n by (auto simp: bit_simps)
  then show ?thesis by (metis bit_0_eq bot_apply bot_bool_def bit_eqI)
qed

lemma encode_offsets_rows:
  assumes "encode_offsets 0 vs = Inr (os, payload)"
  shows "length os = length vs" "unat (last (0 # os)) = length payload"
    "i < length vs \<Longrightarrow> vs ! i = None \<Longrightarrow> os ! i = (0 # os) ! i"
    "i < length vs \<Longrightarrow> vs ! i = Some b \<Longrightarrow> unat (os ! i) = unat ((0 # os) ! i) + length b \<and>
       unat (os ! i) \<le> length payload \<and> sub payload (unat ((0 # os) ! i)) (length b) = b"
    "i < length vs \<Longrightarrow> unat ((0 # os) ! i) \<le> unat (os ! i)"
    "i < length vs \<Longrightarrow> unat (os ! i) \<le> length payload"
proof -
  note h = encode_offsets_Ok [OF assms, unfolded unsigned_0 add_0 diff_zero]
  show one: "length os = length vs" "unat (last (0 # os)) = length payload" using h by blast+
  have none: "os ! j = (0 # os) ! j" if "j < length vs" "vs ! j = None" for j
    using conjunct2 [OF conjunct2 [OF h]] that by (auto split: option.splits)
  have some: "unat (os ! j) = unat ((0 # os) ! j) + length r \<and>
       unat (os ! j) \<le> length payload \<and> sub payload (unat ((0 # os) ! j)) (length r) = r"
    if "j < length vs" "vs ! j = Some r" for j r
  proof -
    have "case vs ! j of None \<Rightarrow> os ! j = (0 # os) ! j
      | Some b \<Rightarrow> unat (os ! j) = unat ((0 # os) ! j) + length b \<and> 0 \<le> unat ((0 # os) ! j) \<and>
          unat (os ! j) \<le> length payload \<and> sub payload (unat ((0 # os) ! j)) (length b) = b"
      using h that(1) by blast
    then show ?thesis unfolding that(2) by simp
  qed
  show "i < length vs \<Longrightarrow> vs ! i = None \<Longrightarrow> os ! i = (0 # os) ! i" by (rule none)
  show "i < length vs \<Longrightarrow> vs ! i = Some b \<Longrightarrow> unat (os ! i) = unat ((0 # os) ! i) + length b \<and>
       unat (os ! i) \<le> length payload \<and> sub payload (unat ((0 # os) ! i)) (length b) = b" by (rule some)
  have up: "unat (os ! j) \<le> length payload" if "j < length vs" for j
    using that
  proof (induction j)
    case 0
    then show ?case using none [of 0] some [of 0] by (cases "vs ! 0") simp_all
  next
    case (Suc j)
    then show ?case using none [of "Suc j"] some [of "Suc j"] by (cases "vs ! Suc j") simp_all
  qed
  then show "i < length vs \<Longrightarrow> unat (os ! i) \<le> length payload" .
  show "i < length vs \<Longrightarrow> unat ((0 # os) ! i) \<le> unat (os ! i)" using none [of i] some [of i] by (cases "vs ! i") simp_all
qed

lemma row_value_encoded:
  assumes "encode_offsets 0 vs = Inr (os, payload)" "length bm = (length vs + 7) div 8"
    "\<And>j. stream_bit bm j \<longleftrightarrow> j < length vs \<and> vs ! j = None" and i: "i < length vs"
  shows "row_value (map unat (0 # os)) bm payload i = Inr (vs ! i)"
proof -
  note h = encode_offsets_rows [OF assms(1)]
  let ?o = "map unat (0 # os)"
  have o: "index ?o i = (Inr (unat ((0 # os) ! i)) :: nat res)"
    using i h(1) by (simp add: index_Ok del: list.map)
  have o': "index ?o (i + 1) = (Inr (unat (os ! i)) :: nat res)"
    using i h(1) by (simp add: index_Ok)
  have kb: "i div 8 < length bm" using i assms(2) by simp
  then have b: "index bm (i div 8) = (Inr (bm ! (i div 8)) :: u8 res)" by (simp add: index_Ok)
  have "bit (bm ! (i div 8)) (i mod 8) \<longleftrightarrow> vs ! i = None" using kb assms(3) [of i] i by (simp add: stream_bit_def)
  then have n: "bm ! (i div 8) AND push_bit (i mod 8) 1 = 0 \<longleftrightarrow> vs ! i \<noteq> None"
    using and_bit_zero [of "i mod 8" "bm ! (i div 8)"] by (simp only: mod_less_divisor zero_less_numeral simp_thms)
  have ok: "\<not> (unat (os ! i) < unat ((0 # os) ! i) \<or> length payload < unat (os ! i))" using h(5) [OF i] h(6) [OF i] by simp
  show ?thesis
  proof (cases "vs ! i")
    case None
    then show ?thesis unfolding row_value_def o o' and_then_simps b if_not_P [OF ok] using n by simp
  next
    case (Some r)
    have sl: "slice payload (unat ((0 # os) ! i)) (unat (os ! i)) = Inr r"
      using h(4) [OF i Some] by (simp add: slice_Ok)
    show ?thesis unfolding row_value_def o o' and_then_simps b if_not_P [OF ok] sl using n Some by simp
  qed
qed

lemma last_bits_zero:
  assumes "length bm = (n + 7) div 8" "\<And>j. stream_bit bm j \<Longrightarrow> j < n" "n mod 8 \<noteq> 0"
  shows "bm ! (length bm - 1) AND NOT (push_bit (n mod 8) 1 - 1) = 0"
proof (rule unused_bits_zero)
  have "(n + 7) div 8 = n div 8 + 1" using assms(3) by presburger
  then have kk: "length bm - 1 = n div 8" "n div 8 < length bm" by (simp_all add: assms(1))
  fix j assume "bit (bm ! (length bm - 1)) j"
  then have b: "bit (bm ! (n div 8)) j" by (simp only: kk)
  then have j: "j < 8" by (auto dest: bit_imp_le_length)
  then have "stream_bit bm (8 * (n div 8) + j)" using b kk(2) by (simp add: stream_bit_def)
  then have "8 * (n div 8) + j < n" by (rule assms(2))
  then show "j < n mod 8" using mult_div_mod_eq [of 8 n] by linarith
qed simp

lemma decode_rows_encoded:
  assumes "encode_offsets 0 vs = Inr (os, payload)" "length bm = (length vs + 7) div 8"
    "\<And>j. stream_bit bm j \<longleftrightarrow> j < length vs \<and> vs ! j = None"
  shows "decode_rows (length vs) (map unat (0 # os)) bm payload = Inr \<lparr>lp_values = vs\<rparr>"
proof -
  let ?o = "map unat (0 # os)"
  have g: "\<not> get ?o 0 \<noteq> Some 0" by (simp add: get_def)
  have t: "try_map (row_value ?o bm payload) [0..<length vs] = Inr vs"
    using row_value_encoded [OF assms]
    by (subst try_map_Ok [where g = "\<lambda>i. vs ! i"]) (simp_all only: map_nth set_upt atLeastLessThan_iff)
  have l: "\<not> (?o = [] \<or> last ?o \<noteq> length payload)"
    using encode_offsets_rows(2) [OF assms(1)] by (simp add: last_map split: if_splits)
  note w = decode_rows_def if_not_P [OF g] t and_then_simps if_not_P [OF l]
  show ?thesis
  proof (cases "length vs mod 8 \<noteq> 0 \<and> bm \<noteq> []")
    case True
    then have k: "length bm - 1 < length bm" by simp
    have "bm ! (length bm - 1) AND NOT (push_bit (length vs mod 8) 1 - 1) = 0"
      by (rule last_bits_zero) (use assms(2,3) True in auto)
    then show ?thesis unfolding w if_P [OF True] index_Ok [OF k] by simp
  next
    case False
    then show ?thesis unfolding w if_not_P [OF False] by simp
  qed
qed

definition facade_fits :: "logical_page \<Rightarrow> bool" where
  "facade_fits page \<longleftrightarrow> (length (lp_values page) + 1) * 4 < 2 ^ 32"

lemma row_layout_encoded:
  assumes e: "encode_row_bytes magic page = Inr bs" and m: "length magic = 4" and bs: "length bs < usize_limit"
  obtains os payload bm where
    "encode_offsets 0 (lp_values page) = Inr (os, payload)"
    "length bm = (length (lp_values page) + 7) div 8"
    "\<And>j. stream_bit bm j \<longleftrightarrow> j < length (lp_values page) \<and> lp_values page ! j = None"
    "row_layout magic bs = (if facade_fits page then Inr (length (lp_values page), 16 + length bm, 16 + length bm + 4 * length (0 # os))
       else Fail BadCodecExtension)"
    "\<exists>pre. length pre = 16 \<and> bs = pre @ bm @ concat (map (le_bytes 4) (0 # os)) @ payload"
proof -
  let ?n = "length (lp_values page)" and ?k = "(length (lp_values page) + 7) div 8"
  obtain os payload bm where h: "encode_offsets 0 (lp_values page) = Inr (os, payload)" "?n < 2 ^ 32"
    "length bm = ?k" "\<And>j. stream_bit bm j \<longleftrightarrow> j < ?n \<and> lp_values page ! j = None"
    "bs = magic @ le_bytes 4 (of_nat ?n :: u32) @ le_bytes 4 (of_nat ?k :: u32) @
       le_bytes 4 (of_nat ((?n + 1) * 4) :: u32) @ bm @ concat (map (le_bytes 4) (0 # os)) @ payload"
    by (rule encode_parts [OF e], rule that) assumption+
  note o = encode_offsets_rows(1) [OF h(1)]
  let ?c = "concat (map (le_bytes 4) (0 # os))"
  have lc: "length ?c = 4 * length (0 # os)" by (rule length_concat_fixed) simp
  have lbs: "length bs = 16 + length bm + 4 * length (0 # os) + length payload" unfolding h(5) by (simp add: m lc del: list.map concat.simps)
  have k: "?k < 2 ^ 32" using h(2) by simp
  have s: "sub bs 0 4 = magic" "sub bs 4 4 = le_bytes 4 (of_nat ?n :: u32)" "sub bs 8 4 = le_bytes 4 (of_nat ?k :: u32)"
    "sub bs 12 4 = le_bytes 4 (of_nat ((?n + 1) * 4) :: u32)"
    unfolding h(5) by (simp_all add: sub_def m)
  have u: "unat (of_nat ?n :: u32) = ?n" "unat (of_nat ?k :: u32) = ?k"
    by (rule unat_of_nat_less, use h(2) k in simp)+
  have rd: "length bs < 16 \<longleftrightarrow> False" "slice bs 0 4 = Inr magic" "read_u32_le_checked bs 4 = Inr (of_nat ?n)"
    "read_u32_le_checked bs 8 = Inr (of_nat ?k)" "read_u32_le_checked bs 12 = Inr (of_nat ((?n + 1) * 4))"
    using lbs bs by (simp_all add: slice_Ok read_words_Ok s del: of_nat_mult of_nat_add)
  have "row_layout magic bs = (if facade_fits page then Inr (?n, 16 + length bm, 16 + length bm + 4 * length (0 # os))
       else Fail BadCodecExtension)"
  proof (cases "facade_fits page")
    case True
    then have v: "unat (of_nat ((?n + 1) * 4) :: u32) = (?n + 1) * 4"
      unfolding facade_fits_def by (intro unat_of_nat_less) simp
    show ?thesis
      unfolding row_layout_def rd and_then_simps map_ok_simps u v
      using True lbs bs h(3) o by (simp add: checked_add_def ok_or_simps)
  next
    case False
    have "unat (of_nat ((?n + 1) * 4) :: u32) < 2 ^ 32" using unsigned_less [of "of_nat ((?n + 1) * 4) :: u32"] by simp
    then have v: "unat (of_nat ((?n + 1) * 4) :: u32) \<noteq> (?n + 1) * 4" using False unfolding facade_fits_def by linarith
    show ?thesis
      unfolding row_layout_def rd and_then_simps map_ok_simps u using False v by simp
  qed
  moreover have "length (take 16 bs) = 16 \<and> bs = take 16 bs @ bm @ ?c @ payload"
    using lbs unfolding h(5) by (simp add: m)
  ultimately show ?thesis using that [OF h(1,3,4)] by blast
qed

lemma facade_chunks:
  "map (\<lambda>chunk. unat (of_le chunk :: u32)) (chunks_exact 4 (concat (map (le_bytes 4) (ws :: u32 list)))) = map unat ws"
  by (subst chunks_exact_concat) simp_all

lemma row_codec_roundtrip_core:
  assumes "encode_row_bytes magic page = Ok bs" "length magic = 4" "length bs < usize_limit"
  shows "facade_decode_row_bytes magic bs =
           (if (length (lp_values page) + 1) * 4 < 2 ^ 32 then Ok page else Fail BadCodecExtension) \<and>
         decode_row_bytes magic bs =
           (if (length (lp_values page) + 1) * 4 < 2 ^ 32 then Ok page else Fail BadCodecExtension)"
proof -
  obtain os payload bm where h: "encode_offsets 0 (lp_values page) = Inr (os, payload)"
    "length bm = (length (lp_values page) + 7) div 8"
    "\<And>j. stream_bit bm j \<longleftrightarrow> j < length (lp_values page) \<and> lp_values page ! j = None"
    and l: "row_layout magic bs = (if facade_fits page then Inr (length (lp_values page), 16 + length bm, 16 + length bm + 4 * length (0 # os))
       else Fail BadCodecExtension)"
    and b: "\<exists>pre. length pre = 16 \<and> bs = pre @ bm @ concat (map (le_bytes 4) (0 # os)) @ payload"
    by (rule row_layout_encoded [OF assms], rule that) assumption+
  note rows = decode_rows_encoded [OF h]
  from b obtain pre where pre: "length pre = 16" "bs = pre @ bm @ concat (map (le_bytes 4) (0 # os)) @ payload" by blast
  let ?c = "concat (map (le_bytes 4) (0 # os))" and ?p = "16 + length bm"
  have lc: "length ?c = 4 * length (0 # os)" by (rule length_concat_fixed) simp
  have lbs: "length bs = ?p + 4 * length (0 # os) + length payload" unfolding pre(2) length_append lc pre(1) by simp
  have parts: "slice bs 16 ?p = Inr bm" "slice bs ?p (?p + 4 * length (0 # os)) = Inr ?c"
    "slice_from bs (?p + 4 * length (0 # os)) = Inr payload"
    unfolding pre(2) using pre(1) lc by (simp_all add: slice_def slice_from_def sub_def del: list.map concat.simps)
  have "map_ok unat (read_u32_le_checked bs (?p + 4 * k)) = Inr (unat ((0 # os) ! k))" if "k < length (0 # os)" for k
  proof -
    have "sub ((pre @ bm) @ ?c @ payload) (?p + 4 * k) 4 = le_bytes 4 ((0 # os) ! k)"
      by (rule sub_concat_fixed_at) (use that pre(1) in simp_all)
    then have "sub bs (?p + 4 * k) 4 = le_bytes 4 ((0 # os) ! k)" by (simp only: pre(2) append_assoc)
    moreover have "read_u32_le_checked bs (?p + 4 * k) = Inr (of_le (sub bs (?p + 4 * k) 4))"
      by (rule read_words_Ok) (use that lbs assms(3) in linarith)+
    ultimately show ?thesis by simp
  qed
  then have "try_map (\<lambda>k. map_ok unat (read_u32_le_checked bs (?p + 4 * k))) [0..<length (0 # os)] =
      Inr (map (\<lambda>k. unat ((0 # os) ! k)) [0..<length (0 # os)])"
    by (intro try_map_Ok) (simp only: set_upt atLeastLessThan_iff)
  also have "map (\<lambda>k. unat ((0 # os) ! k)) [0..<length (0 # os)] = map unat (0 # os)"
    by (rule nth_equalityI) (simp_all del: upt_Suc list.map)
  finally have offs: "try_map (\<lambda>k. map_ok unat (read_u32_le_checked bs (?p + 4 * k))) [0..<length (0 # os)] = Inr (map unat (0 # os))" .
  have q: "(?p + 4 * length (0 # os) - ?p + 3) div 4 = length (0 # os)" by (simp del: list.size)
  have fits: "(length (lp_values page) + 1) * 4 < 2 ^ 32 \<longleftrightarrow> facade_fits page" by (simp only: facade_fits_def)
  show ?thesis
  proof (cases "facade_fits page")
    case True
    note l' = l [unfolded if_P [OF True]]
    show ?thesis
      unfolding fits facade_decode_row_bytes_def decode_row_bytes_def l' and_then_simps case_prod_conv parts Let_def facade_chunks q offs rows
      using True by simp
  next
    case False
    then show ?thesis unfolding fits facade_decode_row_bytes_def decode_row_bytes_def l by simp
  qed
qed

text \<open>
  C18: A page the writer of the row payload accepts is read back by both readers, the one of the
  facade and the one of the core, row for row with its nulls, as long as the table of offsets fits
  in 32 bits. A page with 2^30 - 1 rows or more is written as well, with the length of the table
  cut to 32 bits, and both readers refuse what was written.
\<close>

theorem row_codec_roundtrip:
  assumes "encode_row_bytes magic page = Ok bs" "length magic = 4" "length bs < usize_limit"
  shows "facade_decode_row_bytes magic bs =
           (if (length (lp_values page) + 1) * 4 < 2 ^ 32 then Ok page else Fail BadCodecExtension) \<and>
         decode_row_bytes magic bs =
           (if (length (lp_values page) + 1) * 4 < 2 ^ 32 then Ok page else Fail BadCodecExtension)"
  using row_codec_roundtrip_core [OF assms] by blast

theorem row_codec_roundtrip_witness:
  "facade_decode_row_bytes [67, 70, 83, 50] ([67, 70, 83, 50, 3, 0, 0, 0, 1, 0, 0, 0, 16, 0, 0, 0, 2, 0, 0, 0, 0, 2, 0, 0, 0, 2, 0, 0, 0, 3, 0, 0, 0,
      104, 105, 33] :: bytes) = Ok \<lparr>lp_values = [Some [104, 105], None, Some [33]]\<rparr>"
proof -
  have e: "encode_row_bytes [67, 70, 83, 50] \<lparr>lp_values = [Some [104, 105], None, Some [33]]\<rparr> =
    Ok ([67, 70, 83, 50, 3, 0, 0, 0, 1, 0, 0, 0, 16, 0, 0, 0, 2, 0, 0, 0, 0, 2, 0, 0, 0, 2, 0, 0, 0, 3, 0, 0, 0, 104, 105, 33] :: bytes)"
    by (simp add: encode_row_bytes_def le_bytes_numeral checked_add_def checked_mul_def checked_add_word_def mark_null_def index_def
        set_index_def ok_or_simps usize_limit_def)
  show ?thesis using row_codec_roundtrip [OF e] by (simp add: usize_limit_def)
qed

section \<open>The facade and the core decode the same pages\<close>

lemma row_layout_range:
  assumes "row_layout magic bs = Inr (n, a, b)"
  shows "16 \<le> a" "b = a + (n + 1) * 4" "b \<le> length bs"
  using assms by (auto simp: row_layout_def ok_iffs checked_add_eq_Some_iff split: if_splits)

lemma facade_decode_row_bytes_eq:
  assumes bs: "length bs < usize_limit"
  shows "facade_decode_row_bytes magic bs = decode_row_bytes magic bs"
proof (cases "row_layout magic bs")
  case (Inr t)
  obtain n a b where t: "t = (n, a, b)" by (cases t)
  note r = row_layout_range [OF Inr [unfolded t]]
  have sl: "slice bs a b = Inr (sub bs a ((n + 1) * 4))" using r by (simp add: slice_Ok)
  have q: "(b - a + 3) div 4 = n + 1" using r(2) by simp
  have "chunks_exact 4 (sub bs a ((n + 1) * 4)) = map (\<lambda>i. sub bs (a + i * 4) 4) [0..<n + 1]"
    using r by (auto simp: chunks_exact_def length_sub sub_sub simp del: upt_Suc)
  then have c: "map (\<lambda>chunk. unat (of_le chunk :: u32)) (chunks_exact 4 (sub bs a ((n + 1) * 4))) =
      map (\<lambda>k. unat (of_le (sub bs (a + 4 * k) 4) :: u32)) [0..<n + 1]" by (simp add: mult.commute del: upt_Suc)
  have "map_ok unat (read_u32_le_checked bs (a + 4 * k)) = Inr (unat (of_le (sub bs (a + 4 * k) 4) :: u32))" if "k < n + 1" for k
    using that r bs by (simp add: read_words_Ok)
  then have o: "try_map (\<lambda>k. map_ok unat (read_u32_le_checked bs (a + 4 * k))) [0..<n + 1] =
      Inr (map (\<lambda>k. unat (of_le (sub bs (a + 4 * k) 4) :: u32)) [0..<n + 1])"
    by (intro try_map_Ok) (simp only: set_upt atLeastLessThan_iff)
  show ?thesis
    unfolding facade_decode_row_bytes_def decode_row_bytes_def Inr t and_then_simps case_prod_conv sl q o c Let_def ..
qed (simp add: facade_decode_row_bytes_def decode_row_bytes_def)

lemma facade_decode_eq: "length bs < usize_limit \<Longrightarrow> facade_decode codec bs = codec_decode codec bs"
  by (simp add: facade_decode_def codec_decode_def facade_decode_row_bytes_eq)

lemma codec_identity_inject: "codec_identity c = codec_identity c' \<longleftrightarrow> c = c'"
  by (cases c; cases c') (simp_all add: FSST_UTF8_CODEC_IDENTITY_def ALP_FLOAT_CODEC_IDENTITY_def FASTLANES_INTEGER_CODEC_IDENTITY_def)

lemma find_unique:
  assumes "\<And>x. x \<in> set xs \<Longrightarrow> P x \<Longrightarrow> x = y" "y \<in> set xs"
  shows "List.find P xs = (if P y then Some y else None)"
proof (cases "P y")
  case True
  then have "List.find P xs \<noteq> None" using assms(2) by (auto simp: find_None_iff)
  then obtain x where "List.find P xs = Some x" by blast
  moreover from this have "x \<in> set xs" "P x" by (auto simp: find_Some_iff)
  ultimately show ?thesis using assms(1) True by auto
next
  case False
  then show ?thesis using assms(1) by (auto simp: find_None_iff)
qed

lemma in_stable_codecs: "c \<in> set stable_codecs"
  by (cases c) (simp_all add: stable_codecs_def)

text \<open>What makes a descriptor and an envelope name one of the stable codecs.\<close>

definition names_codec :: "stable_codec \<Rightarrow> codec_descriptor \<Rightarrow> bool" where
  "names_codec codec d \<longleftrightarrow>
     codec_identity codec = (cd_namespace d, cd_name d, cd_version_major d, cd_version_minor d) \<and>
     cd_codec_family d = stable_codec_family codec \<and> cd_specification_status d = CS_StableRegistered \<and>
     cd_spec_digest d = stable_spec_digest codec"

definition envelope_matches :: "codec_descriptor \<Rightarrow> registered_envelope \<Rightarrow> bool" where
  "envelope_matches d e \<longleftrightarrow>
     re_codec_id e = cd_codec_id d \<and> re_codec_version_major e = cd_version_major d \<and> re_codec_version_minor e = cd_version_minor d"

lemma names_codec_unique: "names_codec c d \<Longrightarrow> names_codec c' d \<Longrightarrow> c = c'"
  unfolding names_codec_def using codec_identity_inject [of c c'] by simp

lemma stable_codec_for_descriptor_eq:
  "stable_codec_for_descriptor d (re_codec_id e) (re_codec_version_major e) (re_codec_version_minor e) =
     List.find (\<lambda>codec. envelope_matches d e \<and> names_codec codec d) stable_codecs"
  unfolding stable_codec_for_descriptor_def
  by (rule arg_cong [where f = "\<lambda>p. List.find p stable_codecs"])
    (auto simp: fun_eq_iff envelope_matches_def names_codec_def split: prod.splits)

lemma registry_codec_for_descriptor_eq:
  "registry_codec_for_descriptor codecs d = List.find (\<lambda>codec. names_codec codec d) codecs"
  unfolding registry_codec_for_descriptor_def
  by (rule arg_cong [where f = "\<lambda>p. List.find p codecs"]) (auto simp: fun_eq_iff names_codec_def split: prod.splits)

lemma find_False: "List.find (\<lambda>x. False) xs = None"
  by (induction xs) simp_all

lemma stable_resolver_cases:
  "stable_resolver d e payload =
     (if envelope_matches d e
      then (case List.find (\<lambda>codec. names_codec codec d) stable_codecs of
              None \<Rightarrow> Fail CodecUnsupported | Some codec \<Rightarrow> codec_decode codec payload)
      else Fail CodecUnsupported)"
  unfolding stable_resolver_def stable_codec_for_descriptor_eq
  by (cases "envelope_matches d e") (simp_all add: ok_or_simps find_False split: option.split)

lemma names_facade_descriptor: "names_codec codec (facade_descriptor codec)"
  by (cases "codec_identity codec") (simp add: names_codec_def facade_descriptor_def split: prod.splits option.splits)

lemma facade_descriptor_versions:
  "codec_identity codec = (namespace, name, major, minor) \<Longrightarrow>
     cd_codec_id (facade_descriptor codec) = (case codec of SC_FsstUtf8 \<Rightarrow> 1 | SC_AlpFloat \<Rightarrow> 2 | SC_FastLanesInteger \<Rightarrow> 3) \<and>
     cd_version_major (facade_descriptor codec) = major \<and> cd_version_minor (facade_descriptor codec) = minor"
  by (simp add: facade_descriptor_def split: prod.splits)

lemma facade_descriptor_fields:
  "cd_codec_id (facade_descriptor codec) = (case codec of SC_FsstUtf8 \<Rightarrow> 1 | SC_AlpFloat \<Rightarrow> 2 | SC_FastLanesInteger \<Rightarrow> 3)"
  "cd_version_major (facade_descriptor codec) = 2" "cd_version_minor (facade_descriptor codec) = 0"
proof -
  have "snd (snd (codec_identity codec)) = (2, 0)"
    by (cases codec)
      (simp_all add: FSST_UTF8_CODEC_IDENTITY_def ALP_FLOAT_CODEC_IDENTITY_def FASTLANES_INTEGER_CODEC_IDENTITY_def)
  then obtain namespace name where "codec_identity codec = (namespace, name, 2, 0)" by (metis prod.collapse)
  note v = facade_descriptor_versions [OF this]
  show "cd_codec_id (facade_descriptor codec) = (case codec of SC_FsstUtf8 \<Rightarrow> 1 | SC_AlpFloat \<Rightarrow> 2 | SC_FastLanesInteger \<Rightarrow> 3)"
    "cd_version_major (facade_descriptor codec) = 2" "cd_version_minor (facade_descriptor codec) = 0"
    using v by blast+
qed

lemma find_names_codec: "names_codec codec d \<Longrightarrow> List.find (\<lambda>c. names_codec c d) stable_codecs = Some codec"
  by (subst find_unique [where y = codec]) (auto intro: names_codec_unique in_stable_codecs)

lemma facade_stable_resolver:
  "stable_resolver (facade_descriptor codec) e payload =
     (if re_codec_id e = cd_codec_id (facade_descriptor codec) \<and> re_codec_version_major e = 2 \<and> re_codec_version_minor e = 0
      then codec_decode codec payload else Fail CodecUnsupported)"
  by (simp add: stable_resolver_cases find_names_codec [OF names_facade_descriptor] envelope_matches_def facade_descriptor_fields)

text \<open>
  C28: The resolver a reader gets from the facade's registry and the one the core builds in give the
  same page, or the same error, for every descriptor, envelope and payload.
\<close>

theorem registry_resolver_stable:
  assumes "length payload < usize_limit"
  shows "registry_resolver registry_stable_v2 d e payload = stable_resolver d e payload"
proof (cases "List.find (\<lambda>codec. names_codec codec d) stable_codecs")
  case None
  then show ?thesis
    by (simp add: registry_resolver_def registry_codec_for_descriptor_eq registry_stable_v2_def stable_codecs_def [symmetric]
        stable_resolver_cases ok_or_simps)
next
  case (Some codec)
  then have "names_codec codec d" by (auto simp: find_Some_iff)
  then have i: "codec_identity codec = (cd_namespace d, cd_name d, cd_version_major d, cd_version_minor d)"
    by (simp add: names_codec_def)
  have r: "registry_codec_for_descriptor registry_stable_v2 d = Some codec"
    using Some by (simp add: registry_codec_for_descriptor_eq registry_stable_v2_def stable_codecs_def)
  show ?thesis
    unfolding registry_resolver_def r option.case i case_prod_conv stable_resolver_cases Some
    by (simp add: ok_or_simps envelope_matches_def facade_decode_eq [OF assms])
qed

theorem registry_resolver_stable_witness:
  "registry_resolver registry_stable_v2 (facade_descriptor SC_FsstUtf8)
     \<lparr>re_codec_id = 1, re_codec_version_major = 2, re_codec_version_minor = 0, re_logical_len = 1, re_non_null_count = 0,
        re_params_offset = 0, re_params_length = 0, re_encoded_payload_offset = 84, re_encoded_payload_length = 25,
        re_fallback_payload_offset = 0, re_fallback_payload_length = 0, re_decoded_uncompressed_length = 0, re_flags = 0, re_checksum = 0\<rparr>
     [67, 70, 83, 50, 1, 0, 0, 0, 1, 0, 0, 0, 8, 0, 0, 0, 1, 0, 0, 0, 0, 0, 0, 0, 0] = Ok \<lparr>lp_values = [None]\<rparr>"
proof -
  have e: "encode_row_bytes (codec_magic SC_FsstUtf8) \<lparr>lp_values = [None]\<rparr> =
      Ok ([67, 70, 83, 50, 1, 0, 0, 0, 1, 0, 0, 0, 8, 0, 0, 0, 1, 0, 0, 0, 0, 0, 0, 0, 0] :: bytes)"
    by (simp add: encode_row_bytes_def le_bytes_numeral checked_add_def checked_mul_def
        mark_null_def index_def set_index_def ok_or_simps usize_limit_def)
  show ?thesis
    using row_codec_roundtrip_core [OF e]
    by (subst registry_resolver_stable)
      (simp_all add: usize_limit_def facade_stable_resolver facade_descriptor_fields codec_decode_def page_utf8_def)
qed

lemma codec_magic_length [simp]: "length (codec_magic codec) = 4"
  by (cases codec) simp_all

text \<open>
  What the facade encodes for a stable codec is decoded to the same page by the core's resolver,
  when the descriptor names the codec and the envelope repeats the descriptor's id and version; the
  equivalence check of the page against itself as its fallback then passes.
\<close>

theorem facade_page_resolved:
  assumes "facade_encode codec page = Ok bs" "length bs < usize_limit" "(length (lp_values page) + 1) * 4 < 2 ^ 32"
    and "names_codec codec d" "envelope_matches d e"
  shows "stable_resolver d e bs = Ok page \<and> validate_fallback_equivalence codec bs page = Ok ()"
proof -
  from assms(1) have e: "encode_row_bytes (codec_magic codec) page = Ok bs" and u: "codec = SC_FsstUtf8 \<longrightarrow> page_utf8 page"
    by (auto simp: facade_encode_def split: if_splits)
  have dec: "codec_decode codec bs = Ok page"
    using row_codec_roundtrip_core [OF e _ assms(2)] assms(3) u by (simp add: codec_decode_def)
  show ?thesis
    using assms(5) dec by (simp add: stable_resolver_cases find_names_codec [OF assms(4)] validate_fallback_equivalence_def facade_decode_eq [OF assms(2)])
qed

theorem facade_page_resolved_witness:
  "stable_resolver (facade_descriptor SC_FsstUtf8)
     \<lparr>re_codec_id = 1, re_codec_version_major = 2, re_codec_version_minor = 0, re_logical_len = 1, re_non_null_count = 0,
        re_params_offset = 0, re_params_length = 0, re_encoded_payload_offset = 84, re_encoded_payload_length = 25,
        re_fallback_payload_offset = 0, re_fallback_payload_length = 0, re_decoded_uncompressed_length = 0, re_flags = 0, re_checksum = 0\<rparr>
     [67, 70, 83, 50, 1, 0, 0, 0, 1, 0, 0, 0, 8, 0, 0, 0, 1, 0, 0, 0, 0, 0, 0, 0, 0] = Ok \<lparr>lp_values = [None]\<rparr>"
proof -
  have e: "facade_encode SC_FsstUtf8 \<lparr>lp_values = [None]\<rparr> =
      Ok ([67, 70, 83, 50, 1, 0, 0, 0, 1, 0, 0, 0, 8, 0, 0, 0, 1, 0, 0, 0, 0, 0, 0, 0, 0] :: bytes)"
    by (simp add: facade_encode_def page_utf8_def encode_row_bytes_def le_bytes_numeral checked_add_def checked_mul_def
        mark_null_def index_def set_index_def ok_or_simps usize_limit_def)
  have "names_codec SC_FsstUtf8 (facade_descriptor SC_FsstUtf8)" by (rule names_facade_descriptor)
  moreover have "envelope_matches (facade_descriptor SC_FsstUtf8)
     \<lparr>re_codec_id = 1, re_codec_version_major = 2, re_codec_version_minor = 0, re_logical_len = 1, re_non_null_count = 0,
        re_params_offset = 0, re_params_length = 0, re_encoded_payload_offset = 84, re_encoded_payload_length = 25,
        re_fallback_payload_offset = 0, re_fallback_payload_length = 0, re_decoded_uncompressed_length = 0, re_flags = 0, re_checksum = 0\<rparr>"
    by (simp add: envelope_matches_def facade_descriptor_fields)
  ultimately show ?thesis
    by (intro facade_page_resolved [OF e, THEN conjunct1]) (simp_all add: usize_limit_def)
qed

end
