(* ===== verification/Registered_Page.thy ===== *)
theory Registered_Page
  imports Row_Codec Encoded_Array Page_Index
begin

text \<open>
  Registered pages (\<^verbatim>\<open>codec.rs\<close>, \<^verbatim>\<open>page_payload.rs\<close>): a page whose payload is an envelope, the
  bytes of an extension codec and, possibly, the same rows in an encoding of the core. The
  resolver of the codec is a parameter.
\<close>

section \<open>The envelope in the payload\<close>

definition registered_envelope_from_root :: "(bytes \<Rightarrow> u32) \<Rightarrow> page_payload \<Rightarrow> registered_envelope res" where
  "registered_envelope_from_root crc payload =
     and_then (root_node payload) (\<lambda>root.
     if unat (en_params_length root) \<noteq> ENVELOPE_LEN then Fail BadCodecExtension
     else
       and_then (read_range_checked (pl_data payload) (unat (en_params_offset root)) (unat (en_params_length root))) (\<lambda>params.
       and_then (envelope_parse crc params) (\<lambda>envelope.
       if re_params_offset envelope \<noteq> en_params_offset root \<or> re_params_length envelope \<noteq> en_params_length root
       then Fail BadCodecExtension else Ok envelope)))"

definition envelope_range :: "page_payload \<Rightarrow> u64 \<Rightarrow> u64 \<Rightarrow> bytes res" where
  "envelope_range payload offset len =
     and_then (if unat offset < usize_limit then Ok (unat offset) else Fail OffsetRange) (\<lambda>start.
     and_then (if unat len < usize_limit then Ok (unat len) else Fail OffsetRange) (\<lambda>len.
     read_range_checked (pl_data payload) start len))"

definition validate_registered_envelope_payload_ranges :: "page_payload \<Rightarrow> registered_envelope \<Rightarrow> unit res" where
  "validate_registered_envelope_payload_ranges payload e =
     and_then (envelope_range payload (re_encoded_payload_offset e) (re_encoded_payload_length e)) (\<lambda>_.
     if re_fallback_payload_length e \<noteq> 0
     then and_then (envelope_range payload (re_fallback_payload_offset e) (re_fallback_payload_length e)) (\<lambda>_. Ok ())
     else Ok ())"

definition validate_envelope_against_page :: "registered_envelope \<Rightarrow> column_page \<Rightarrow> unit res" where
  "validate_envelope_against_page e page =
     (if re_logical_len e \<noteq> column_page.cp_row_count page \<or> re_non_null_count e \<noteq> cp_non_null_count page
      then Fail BadCodecExtension else Ok ())"

definition registered_page_has_fallback :: "(bytes \<Rightarrow> u32) \<Rightarrow> bytes \<Rightarrow> bool res" where
  "registered_page_has_fallback crc bs =
     and_then (payload_parse crc bs) (\<lambda>payload.
     and_then (root_node payload) (\<lambda>root.
     if en_encoding_kind root \<noteq> EK_RegisteredEncoding then Ok False
     else and_then (registered_envelope_from_root crc payload) (\<lambda>e. Ok (re_fallback_payload_length e \<noteq> 0))))"

definition parse_fallback_payload ::
    "(bytes \<Rightarrow> u32) \<Rightarrow> page_payload \<Rightarrow> registered_envelope \<Rightarrow> column_page \<Rightarrow> logical_type \<Rightarrow> physical_kind \<Rightarrow> page_payload res" where
  "parse_fallback_payload crc payload e page logical physical =
     and_then (envelope_range payload (re_fallback_payload_offset e) (re_fallback_payload_length e)) (\<lambda>raw.
     and_then (payload_parse crc raw) (\<lambda>fallback.
     and_then (root_node fallback) (\<lambda>root.
     if en_encoding_kind root = EK_RegisteredEncoding \<or> en_logical_type root \<noteq> logical \<or>
        en_physical_kind root \<noteq> physical \<or> en_logical_len root \<noteq> column_page.cp_row_count page
     then Fail BadCodecExtension else Ok fallback)))"

section \<open>Logical rows and core payloads\<close>

primrec fixed_width_for_logical_type :: "logical_type \<Rightarrow> nat res" where
  "fixed_width_for_logical_type LT_Bool = Ok 1"
| "fixed_width_for_logical_type LT_Int8 = Ok 1"
| "fixed_width_for_logical_type LT_UInt8 = Ok 1"
| "fixed_width_for_logical_type LT_Int16 = Ok 2"
| "fixed_width_for_logical_type LT_UInt16 = Ok 2"
| "fixed_width_for_logical_type LT_Int32 = Ok 4"
| "fixed_width_for_logical_type LT_UInt32 = Ok 4"
| "fixed_width_for_logical_type LT_Float32 = Ok 4"
| "fixed_width_for_logical_type LT_DateDays = Ok 4"
| "fixed_width_for_logical_type LT_Int64 = Ok 8"
| "fixed_width_for_logical_type LT_UInt64 = Ok 8"
| "fixed_width_for_logical_type LT_Float64 = Ok 8"
| "fixed_width_for_logical_type LT_Decimal64 = Ok 8"
| "fixed_width_for_logical_type LT_TimestampMicros = Ok 8"
| "fixed_width_for_logical_type LT_TimestampNanos = Ok 8"
| "fixed_width_for_logical_type LT_Decimal128 = Ok 16"
| "fixed_width_for_logical_type LT_Uuid = Ok 16"
| "fixed_width_for_logical_type LT_Null = Fail BadCodecExtension"
| "fixed_width_for_logical_type LT_Utf8 = Fail BadCodecExtension"
| "fixed_width_for_logical_type LT_Binary = Fail BadCodecExtension"
| "fixed_width_for_logical_type LT_Json = Fail BadCodecExtension"
| "fixed_width_for_logical_type LT_List = Fail BadCodecExtension"
| "fixed_width_for_logical_type LT_Struct = Fail BadCodecExtension"
| "fixed_width_for_logical_type LT_Map = Fail BadCodecExtension"

primrec fallback_encoding_kind :: "physical_kind \<Rightarrow> encoding_kind" where
  "fallback_encoding_kind PK_FileCode = EK_FileCode"
| "fallback_encoding_kind PK_NumCode = EK_NumCode"
| "fallback_encoding_kind PK_Boolean = EK_PlainFixed"
| "fallback_encoding_kind PK_FixedBytes = EK_PlainFixed"
| "fallback_encoding_kind PK_VarBytes = EK_VarBytes"
| "fallback_encoding_kind PK_List = EK_Canonical"
| "fallback_encoding_kind PK_Struct = EK_Canonical"
| "fallback_encoding_kind PK_Map = EK_Canonical"

text \<open>What a row appends to the values; a null appends a placeholder.\<close>

definition non_null_value :: "logical_type \<Rightarrow> physical_kind \<Rightarrow> u32 option \<Rightarrow> bytes \<Rightarrow> bytes res" where
  "non_null_value logical physical dictionary_len b =
     (case physical of
        PK_Boolean \<Rightarrow>
          and_then (if length b \<noteq> 1 then Ok True else map_ok (\<lambda>x. 1 < x) (index b 0)) (\<lambda>bad.
          if bad then Fail BadCodecExtension else map_ok (\<lambda>x. [x]) (index b 0))
      | PK_NumCode \<Rightarrow> if length b \<noteq> 8 then Fail BadCodecExtension else Ok b
      | PK_FileCode \<Rightarrow>
          if length b \<noteq> 4 then Fail BadCodecExtension
          else
            and_then
              (case dictionary_len of
                 Some n \<Rightarrow> and_then (read_u32_le_checked b 0) (\<lambda>code. if n \<le> code then Fail BadFileCode else Ok ())
               | None \<Rightarrow> Ok ()) (\<lambda>_. Ok b)
      | PK_FixedBytes \<Rightarrow>
          and_then (fixed_width_for_logical_type logical) (\<lambda>expected.
          if length b \<noteq> expected then Fail BadCodecExtension else Ok b)
      | PK_VarBytes \<Rightarrow>
          if \<not> length b < 2 ^ 32 then Fail ArithOverflow else Ok (le_bytes 4 (of_nat (length b) :: u32) @ b)
      | _ \<Rightarrow> Fail BadCodecExtension)"

definition null_placeholder :: "logical_type \<Rightarrow> physical_kind \<Rightarrow> bytes res" where
  "null_placeholder logical physical =
     (case physical of
        PK_Boolean \<Rightarrow> Ok [0]
      | PK_NumCode \<Rightarrow> Ok (le_bytes 8 (0 :: u64))
      | PK_FileCode \<Rightarrow> Ok (le_bytes 4 (0 :: u32))
      | PK_FixedBytes \<Rightarrow> map_ok (\<lambda>w. replicate w 0) (fixed_width_for_logical_type logical)
      | PK_VarBytes \<Rightarrow> Ok (le_bytes 4 (0 :: u32))
      | _ \<Rightarrow> Fail BadCodecExtension)"

definition row_item :: "logical_type \<Rightarrow> physical_kind \<Rightarrow> u32 option \<Rightarrow> bytes option \<Rightarrow> bytes res" where
  "row_item logical physical dictionary_len v =
     (case v of None \<Rightarrow> null_placeholder logical physical | Some b \<Rightarrow> non_null_value logical physical dictionary_len b)"

definition logical_page_to_column_payload ::
    "(bytes \<Rightarrow> u32) \<Rightarrow> logical_page \<Rightarrow> logical_type \<Rightarrow> physical_kind \<Rightarrow> u32 option \<Rightarrow> page_payload res" where
  "logical_page_to_column_payload crc page logical physical dictionary_len =
     (let vs = lp_values page in
      if \<not> length vs < 2 ^ 32 then Fail ArithOverflow
      else
        and_then (null_bits 0 (replicate ((length vs + 7) div 8) 0) vs) (\<lambda>null_bitmap.
        and_then (try_map (row_item logical physical dictionary_len) vs) (\<lambda>items.
        and_then (build_single_node crc (of_nat (length vs)) (fallback_encoding_kind physical) logical physical
          (if list_ex (\<lambda>v. v = None) vs then Some null_bitmap else None) (concat items)) (\<lambda>bs.
        payload_parse crc bs))))"

definition logical_value :: "u32 option \<Rightarrow> array_value \<Rightarrow> bytes option res" where
  "logical_value dictionary_len v =
     (case v of
        AV_Null \<Rightarrow> Ok None
      | AV_Bytes b \<Rightarrow> Ok (Some b)
      | AV_OwnedBytes b \<Rightarrow> Ok (Some b)
      | AV_Varint w \<Rightarrow> Ok (Some (le_bytes 8 w))
      | AV_Int64 w \<Rightarrow> Ok (Some (le_bytes 8 w))
      | AV_FileCode code \<Rightarrow>
          and_then (case dictionary_len of Some n \<Rightarrow> if n \<le> code then Fail BadFileCode else Ok () | None \<Rightarrow> Ok ()) (\<lambda>_.
          Ok (Some (le_bytes 4 code)))
      | AV_NumCode w \<Rightarrow> Ok (Some (le_bytes 8 w))
      | AV_Boolean b \<Rightarrow> Ok (Some [of_bool b])
      | AV_ValidityBit b \<Rightarrow> Ok (Some [of_bool b])
      | AV_DictValue d \<Rightarrow> Fail BadCodecExtension)"

definition payload_array :: "page_payload \<Rightarrow> column_page \<Rightarrow> encoded_array res" where
  "payload_array payload page =
     and_then (root_node payload) (\<lambda>root.
     and_then (buffer_bytes payload PB_NullBitmap) (\<lambda>null_bitmap.
     and_then (buffer_bytes payload PB_Values) (\<lambda>values'.
     Ok \<lparr>ea_logical = en_logical_type root, ea_physical = en_physical_kind root, ea_row_count = ucast (column_page.cp_row_count page),
       ea_encoding = en_encoding_kind root,
       ea_validity = map_option (\<lambda>bitmap. bitmap_new bitmap (ucast (column_page.cp_row_count page))) null_bitmap,
       ea_data = (case values' of Some b \<Rightarrow> b | None \<Rightarrow> []), ea_dictionary = None\<rparr>)))"

definition column_payload_to_logical_page :: "page_payload \<Rightarrow> column_page \<Rightarrow> u32 option \<Rightarrow> logical_page res" where
  "column_payload_to_logical_page payload page dictionary_len =
     and_then (payload_array payload page) (\<lambda>array.
     and_then (decode_all_rows array) (\<lambda>decoded.
     map_ok (\<lambda>out. \<lparr>lp_values = out\<rparr>) (try_map (logical_value dictionary_len) decoded)))"

section \<open>Materialization\<close>

record materialization =
  mt_payload :: page_payload
  mt_used_fallback :: bool

definition checked_shl_1 :: "nat \<Rightarrow> u64 option" where
  "checked_shl_1 n = (if n < 64 then Some (push_bit n 1) else None)"

definition validate_descriptor_supports_page :: "codec_descriptor \<Rightarrow> logical_type \<Rightarrow> physical_kind \<Rightarrow> unit res" where
  "validate_descriptor_supports_page d logical physical =
     and_then (ok_or BadCodecExtension (checked_shl_1 (unat (as_logical_type logical)))) (\<lambda>logical_bit.
     and_then (ok_or BadCodecExtension (checked_shl_1 (unat (as_physical_kind physical)))) (\<lambda>physical_bit.
     if cd_logical_type_mask d AND logical_bit = 0 \<or> cd_physical_kind_mask d AND physical_bit = 0 then Fail BadCodecExtension
     else if cd_specification_status d = CS_StableRegistered then
       (case stable_codec_for_identity (cd_namespace d) (cd_name d) (cd_version_major d) (cd_version_minor d) of
          Some codec \<Rightarrow> if \<not> supports_page codec logical physical then Fail BadCodecExtension else Ok ()
        | None \<Rightarrow> Ok ())
     else Ok ()))"

definition envelope_descriptor :: "codec_descriptor list \<Rightarrow> registered_envelope \<Rightarrow> codec_descriptor option" where
  "envelope_descriptor descriptors e =
     List.find (\<lambda>d. cd_codec_id d = re_codec_id e \<and> cd_version_major d = re_codec_version_major e \<and>
       cd_version_minor d = re_codec_version_minor e) descriptors"

definition with_fallback :: "page_payload option \<Rightarrow> materialization option res" where
  "with_fallback fallback =
     (case fallback of
        Some p \<Rightarrow> Ok (Some \<lparr>mt_payload = p, mt_used_fallback = True\<rparr>)
      | None \<Rightarrow> Fail CodecUnsupported)"

text \<open>What becomes of the answer of the resolver.\<close>

definition with_decoded ::
    "(bytes \<Rightarrow> u32) \<Rightarrow> logical_type \<Rightarrow> physical_kind \<Rightarrow> u32 option \<Rightarrow> page_payload option \<Rightarrow> logical_page option \<Rightarrow>
     logical_page res \<Rightarrow> materialization option res" where
  "with_decoded crc logical physical dictionary_len fallback fallback_logical answer =
     (case answer of
        Inr decoded \<Rightarrow>
          and_then (logical_page_to_column_payload crc decoded logical physical dictionary_len) (\<lambda>materialized.
          if (case fallback_logical of Some p \<Rightarrow> decoded \<noteq> p | None \<Rightarrow> False) then Fail BadCodecExtension
          else Ok (Some \<lparr>mt_payload = materialized, mt_used_fallback = False\<rparr>))
      | Inl Panic \<Rightarrow> Panicked
      | Fail e \<Rightarrow> if e = CodecUnsupported then with_fallback fallback else Fail BadCodecExtension)"

definition materialize_registered_page_payload ::
    "(bytes \<Rightarrow> u32) \<Rightarrow> codec_resolver \<Rightarrow> page_payload \<Rightarrow> column_page \<Rightarrow> logical_type \<Rightarrow> physical_kind \<Rightarrow>
     codec_descriptor list \<Rightarrow> u32 option \<Rightarrow> materialization option res" where
  "materialize_registered_page_payload crc resolver payload page logical physical descriptors dictionary_len =
     and_then (root_node payload) (\<lambda>root.
     if en_encoding_kind root \<noteq> EK_RegisteredEncoding then Ok None
     else if en_logical_type root \<noteq> logical \<or> en_physical_kind root \<noteq> physical \<or>
       en_logical_len root \<noteq> column_page.cp_row_count page \<or> cp_encoding_root page \<noteq> ucast (as_encoding_kind EK_RegisteredEncoding)
     then Fail PageCorrupt
     else
       and_then (registered_envelope_from_root crc payload) (\<lambda>e.
       and_then (validate_envelope_against_page e page) (\<lambda>_.
       and_then (envelope_range payload (re_encoded_payload_offset e) (re_encoded_payload_length e)) (\<lambda>encoded.
       and_then (if re_fallback_payload_length e = 0 then Ok None
                 else map_ok Some (parse_fallback_payload crc payload e page logical physical)) (\<lambda>fallback.
       and_then (case fallback of
                   Some p \<Rightarrow> map_ok Some (column_payload_to_logical_page p page dictionary_len)
                 | None \<Rightarrow> Ok None) (\<lambda>fallback_logical.
       case envelope_descriptor descriptors e of
         Some d \<Rightarrow>
           and_then (validate_descriptor_supports_page d logical physical) (\<lambda>_.
           with_decoded crc logical physical dictionary_len fallback fallback_logical (resolver d e encoded))
       | None \<Rightarrow> with_fallback fallback))))))"

section \<open>Writing a registered page\<close>

definition registered_envelope_for ::
    "u32 \<Rightarrow> u32 \<Rightarrow> u32 \<Rightarrow> u16 \<Rightarrow> u16 \<Rightarrow> u32 \<Rightarrow> u64 \<Rightarrow> bytes \<Rightarrow> u64 \<Rightarrow> bytes option \<Rightarrow> registered_envelope" where
  "registered_envelope_for row_count non_null_count codec_id major minor envelope_offset encoded_offset encoded fallback_offset fallback =
     \<lparr>re_codec_id = codec_id, re_codec_version_major = major, re_codec_version_minor = minor,
      re_logical_len = row_count, re_non_null_count = non_null_count, re_params_offset = envelope_offset,
      re_params_length = of_nat ENVELOPE_LEN, re_encoded_payload_offset = encoded_offset,
      re_encoded_payload_length = of_nat (length encoded), re_fallback_payload_offset = fallback_offset,
      re_fallback_payload_length = (case fallback of Some b \<Rightarrow> of_nat (length b) | None \<Rightarrow> 0),
      re_decoded_uncompressed_length = 0, re_flags = 0, re_checksum = 0\<rparr>"

definition build_registered_single_node ::
    "(bytes \<Rightarrow> u32) \<Rightarrow> u32 \<Rightarrow> u32 \<Rightarrow> logical_type \<Rightarrow> physical_kind \<Rightarrow> u32 \<Rightarrow> u16 \<Rightarrow> u16 \<Rightarrow> bytes \<Rightarrow> bytes option \<Rightarrow> bytes res" where
  "build_registered_single_node crc row_count non_null_count logical physical codec_id major minor encoded fallback =
     (if row_count < non_null_count then Fail BadCodecExtension
      else
        let nodes_offset = of_nat COLUMN_PAGE_PAYLOAD_HEADER_LEN :: u32 in
        and_then (ok_or ArithOverflow (checked_add_word nodes_offset (of_nat COVE_ENCODING_NODE_LEN))) (\<lambda>buffer_directory_offset.
        and_then (ok_or ArithOverflow (checked_add_word buffer_directory_offset (of_nat PAGE_BUFFER_DESCRIPTOR_LEN))) (\<lambda>buffers_offset.
        let envelope_offset = ucast buffers_offset :: u64 in
        and_then (ok_or ArithOverflow (checked_add_word envelope_offset (of_nat ENVELOPE_LEN))) (\<lambda>encoded_offset.
        and_then (case fallback of
                    Some _ \<Rightarrow> ok_or ArithOverflow (checked_add_word encoded_offset (of_nat (length encoded)))
                  | None \<Rightarrow> Ok 0) (\<lambda>fallback_offset.
        let envelope = registered_envelope_for row_count non_null_count codec_id major minor (ucast envelope_offset)
              encoded_offset encoded fallback_offset fallback in
        and_then (envelope_serialize crc envelope) (\<lambda>envelope_bytes.
        let registered_bytes = envelope_bytes @ encoded @ (case fallback of Some b \<Rightarrow> b | None \<Rightarrow> []);
            header = payload_header_for row_count 0 1 1 (nodes_offset, buffer_directory_offset, buffers_offset);
            node = \<lparr>en_node_id = 0, en_encoding_kind = EK_RegisteredEncoding, en_logical_type = logical,
              en_physical_kind = physical, en_flags = 0, en_logical_len = row_count, en_child_count = 0, en_buffer_count = 1,
              en_params_offset = ucast envelope_offset, en_params_length = of_nat ENVELOPE_LEN, en_stats_id = 0, en_reserved = 0\<rparr>;
            descriptor = \<lparr>bd_buffer_id = 0, bd_kind = PB_Other, bd_flags = 0, bd_offset = ucast buffers_offset,
              bd_length = of_nat (length registered_bytes), bd_checksum = crc registered_bytes, bd_reserved = 0\<rparr>;
            out = payload_header_serialize header @ encoding_node_serialize node @ buffer_descriptor_serialize descriptor @
              registered_bytes in
        and_then (payload_parse crc out) (\<lambda>_. Ok out)))))))"

section \<open>The pages of one node\<close>

definition single_buffers :: "bytes option \<Rightarrow> bytes \<Rightarrow> (page_buffer_kind \<times> bytes) list" where
  "single_buffers null_bitmap values' = (case null_bitmap of None \<Rightarrow> [] | Some b \<Rightarrow> [(PB_NullBitmap, b)]) @
     (if values' = [] then [] else [(PB_Values, values')])"

definition single_node :: "u32 \<Rightarrow> encoding_kind \<Rightarrow> logical_type \<Rightarrow> physical_kind \<Rightarrow> nat \<Rightarrow> encoding_node" where
  "single_node row_count kind logical physical m =
     \<lparr>en_node_id = 0, en_encoding_kind = kind, en_logical_type = logical, en_physical_kind = physical, en_flags = 0,
      en_logical_len = row_count, en_child_count = 0, en_buffer_count = of_nat m, en_params_offset = 0,
      en_params_length = 0, en_stats_id = 0, en_reserved = 0\<rparr>"

lemma length_single_buffers: "length (single_buffers nb vs) \<le> 2"
  by (simp add: single_buffers_def split: option.split)

lemma length_built_single:
  assumes "length bs \<le> 2"
  shows "length (pl_data (built_payload crc rows root [node] bs)) = payload_size [node] bs"
proof -
  have n: "length (encoding_node_serialize e) = 30" for e
    using encoding_node_serialize_eq [of e] by simp
  have h: "length (payload_header_serialize e) = 36" if "payload_header_wf e" for e
    using payload_header.enc_length [OF that] by simp
  have d: "length (buffer_descriptor_serialize e) = 32" if "buffer_descriptor_wf e" for e
    using buffer_descriptor.enc_length [OF that] by simp
  have ds: "length (concat (map buffer_descriptor_serialize (describe_buffers crc 0 o' bs))) = 32 * length bs" for o'
    using describe_buffers_wf [of crc 0 o' bs]
    by (subst length_concat_fixed [where k = 32]) (auto simp: list_all_iff d)
  show ?thesis
    by (simp add: built_payload_def Let_def payload_size_def n ds h payload_header_for_def payload_header_wf_def
        COLUMN_PAGE_PAYLOAD_HEADER_LEN_def del: length_concat)
qed

lemma build_single_node_parses:
  assumes b: "build_single_node crc rows k lt pk nb vs = Inr out" and l: "length out < usize_limit"
  shows "payload_parse crc out =
      Inr (built_payload crc rows 0 [single_node rows k lt pk (length (single_buffers nb vs))] (single_buffers nb vs)) \<and>
    buildable rows 0 [single_node rows k lt pk (length (single_buffers nb vs))] (single_buffers nb vs)"
proof -
  let ?bs = "single_buffers nb vs"
  let ?node = "single_node rows k lt pk (length ?bs)"
  let ?p = "built_payload crc rows 0 [?node] ?bs"
  have u: "unat (of_nat (length ?bs) :: u16) = length ?bs" using length_single_buffers [of nb vs] by (intro unat_of_nat_less) simp
  have out: "out = pl_data ?p"
    using b unfolding build_single_node_def single_buffers_def [symmetric] Let_def payload_offsets_Ok(1) and_then_simps
    by (simp add: ok_iffs built_payload_def Let_def single_node_def)
  have "length out = payload_size [?node] ?bs" unfolding out by (rule length_built_single) (rule length_single_buffers)
  then have bd: "buildable rows 0 [?node] ?bs"
    using l length_single_buffers [of nb vs] by (simp add: buildable_def encoding_node_wf_def single_node_def)
  then show ?thesis using built_payload_parses(1) [OF bd, of crc BCV_Verify] by (simp add: payload_parse_def out)
qed

lemma root_node_built: "en_node_id node = root \<Longrightarrow> root_node (built_payload crc rows root [node] buffers) = Inr node"
  by (simp add: root_node_def built_payload_def Let_def payload_header_for_def unique_root_def)

lemma buffer_bytes_list:
  "map (descriptor_data data) ds = map (\<lambda>(k, b). Inr b) bs \<Longrightarrow> map bd_kind ds = map fst bs \<Longrightarrow>
   (case find (\<lambda>b. bd_kind b = k) ds of
      None \<Rightarrow> Inr None
    | Some b \<Rightarrow> map_ok Some (descriptor_data data b)) = Inr (map_of bs k)"
proof (induction ds arbitrary: bs)
  case (Cons d ds)
  then obtain k' b rest where bs: "bs = (k', b) # rest" by (cases bs) auto
  show ?case using Cons by (simp add: bs)
qed simp

lemma buffer_bytes_built:
  assumes "buildable rows root nodes buffers"
  shows "buffer_bytes (built_payload crc rows root nodes buffers) k = Inr (map_of buffers k)"
proof -
  let ?p = "built_payload crc rows root nodes buffers"
  have k: "map bd_kind (pl_buffers ?p) = map fst buffers"
    unfolding built_payload_buffers [OF assms] by (rule describe_buffers_kinds)
  note l = buffer_bytes_list [OF built_payload_parses(2) [OF assms, of crc] k, of k]
  show ?thesis
  proof (cases "find (\<lambda>b. bd_kind b = k) (pl_buffers ?p)")
    case None
    then show ?thesis using l by (simp add: buffer_bytes_def)
  next
    case (Some d)
    then have "map_ok Some (descriptor_data (pl_data ?p) d) = Inr (map_of buffers k)" using l by simp
    then show ?thesis using Some by (auto simp: buffer_bytes_def descriptor_data_def ok_iffs split: if_splits)
  qed
qed

section \<open>The rows of a materialized page\<close>

text \<open>The nulls of the array built for a page whose bitmap was written from its rows.\<close>

definition null_pattern :: "encoded_array \<Rightarrow> bytes option list \<Rightarrow> bool" where
  "null_pattern a vs \<longleftrightarrow> unat (ea_row_count a) = length vs \<and>
     (\<forall>i < length vs. \<forall>v. row_or_null a (of_nat i) v = (if vs ! i = None then Inr AV_Null else v))"

lemma null_pattern_written:
  assumes "null_bits 0 (replicate ((length vs + 7) div 8) 0) vs = Inr bm" "unat rows = length vs"
    "ea_row_count a = rows"
    "ea_validity a = map_option (\<lambda>b. bitmap_new b rows) (if list_ex (\<lambda>v. v = None) vs then Some bm else None)"
  shows "null_pattern a vs"
proof -
  have n: "0 + length vs \<le> 8 * length (replicate ((length vs + 7) div 8) (0 :: u8))" by simp
  have z: "\<not> stream_bit (replicate ((length vs + 7) div 8) 0) j" for j by (auto simp: stream_bit_def)
  have bm: "length bm = (length vs + 7) div 8" "\<And>j. stream_bit bm j \<longleftrightarrow> j < length vs \<and> vs ! j = None"
    using null_bits_Ok [OF n] assms(1) z by auto
  have "row_or_null a (of_nat i) v = (if vs ! i = None then Inr AV_Null else v)" if i: "i < length vs" for i v
  proof -
    have u: "unat (of_nat i :: u64) = i" using u64_of_nat [of i rows] i assms(2) by simp
    have r: "\<not> rows \<le> of_nat i" using u64_row_less [of i rows] i assms(2) by simp
    have k: "\<not> length bm \<le> i div 8" using i bm(1) by simp
    show ?thesis
    proof (cases "list_ex (\<lambda>v. v = None) vs")
      case True
      then show ?thesis
        using r k i bm(2) [of i]
        by (simp add: row_or_null_def array_is_null_def assms(3,4) is_null_eq bitmap_new_def u)
    next
      case False
      have "None \<notin> set vs" using False by (simp add: list_ex_iff)
      moreover have "vs ! i \<in> set vs" using i by (rule nth_mem)
      ultimately have e: "vs ! i = None \<longleftrightarrow> False" by metis
      have v: "ea_validity a = None" using assms(4) False by simp
      show ?thesis unfolding row_or_null_def array_is_null_def assms(3) v e using r by simp
    qed
  qed
  then show ?thesis using assms(2,3) by (simp add: null_pattern_def)
qed

lemma concat_items_at:
  assumes "\<And>x. x \<in> set items \<Longrightarrow> length x = w" "i < length items"
  shows "sub (concat items) (i * w) w = items ! i" "(i + 1) * w \<le> length (concat items)"
proof -
  show "sub (concat items) (i * w) w = items ! i"
    using sub_concat_fixed [of items "\<lambda>x. x" w i "[]"] assms by simp
  have "length (concat items) = w * length items" using length_concat_fixed [of items "\<lambda>x. x" w] assms by simp
  moreover have "(i + 1) * w \<le> length items * w" using assms(2) by (intro mult_le_mono1) simp
  ultimately show "(i + 1) * w \<le> length (concat items)" by (simp add: mult.commute)
qed

lemma collect_fixed_rows:
  assumes n: "null_pattern a vs"
    and d: "decode_all_rows a = collect_rows a (decode_present_row a)"
    and p: "\<And>i. i < length vs \<Longrightarrow> vs ! i \<noteq> None \<Longrightarrow> decode_present_row a (of_nat i) = Inr (g i)"
  shows "decode_all_rows a = Inr (map (\<lambda>i. if vs ! i = None then AV_Null else g i) [0..<length vs])"
proof -
  have l: "unat (ea_row_count a) = length vs" using n by (simp add: null_pattern_def)
  have "row_or_null a (of_nat i) (decode_present_row a (of_nat i)) = Inr (if vs ! i = None then AV_Null else g i)"
    if "i < length vs" for i
    using n p [OF that] that by (simp add: null_pattern_def)
  then show ?thesis
    unfolding d collect_rows_def expected_row_count_Ok and_then_simps array_rows_def try_map_map l
    by (intro try_map_Ok) simp
qed

lemma logical_values:
  assumes "\<And>i. i < length vs \<Longrightarrow> vs ! i \<noteq> None \<Longrightarrow> logical_value dl (g i) = Inr (vs ! i)"
  shows "try_map (logical_value dl) (map (\<lambda>i. if vs ! i = None then AV_Null else g i) [0..<length vs]) = Inr vs"
proof -
  have "logical_value dl (if vs ! i = None then AV_Null else g i) = Inr (vs ! i)" if "i < length vs" for i
    using assms [OF that] by (cases "vs ! i = None") (simp_all add: logical_value_def)
  then have "try_map (\<lambda>i. logical_value dl (if vs ! i = None then AV_Null else g i)) [0..<length vs] =
      Inr (map (\<lambda>i. vs ! i) [0..<length vs])"
    by (intro try_map_Ok) simp
  then show ?thesis by (simp only: try_map_map map_nth)
qed

lemma varbytes_items:
  assumes lim: "length (ea_data a) < usize_limit" and data: "ea_data a = pre @ concat (map f vs)"
    and f: "\<And>v. v \<in> set vs \<Longrightarrow> \<exists>b. f v = le_bytes 4 (of_nat (length b) :: u32) @ b \<and> length b < 2 ^ 32 \<and> (\<forall>c. v = Some c \<longrightarrow> b = c)"
    and rows: "length rows = length vs"
    and nl: "\<And>i v. i < length vs \<Longrightarrow> row_or_null a (rows ! i) v = (if vs ! i = None then Inr AV_Null else v)"
  shows "variable_rows VO_VarBytes a (length pre) rows =
    Inr (map (\<lambda>v. case v of None \<Rightarrow> AV_Null | Some b \<Rightarrow> AV_Bytes b) vs)"
  using data f rows nl
proof (induction vs arbitrary: pre rows)
  case Nil
  then show ?case by (simp add: variable_rows_def)
next
  case (Cons v vs)
  obtain r rs where rows: "rows = r # rs" using Cons.prems(3) by (cases rows) auto
  obtain b where b: "f v = le_bytes 4 (of_nat (length b) :: u32) @ b" "length b < 2 ^ 32" "\<forall>c. v = Some c \<longrightarrow> b = c"
    using Cons.prems(2) [of v] by auto
  have u: "unat (of_nat (length b) :: u32) = length b" by (rule unat_of_nat_less) (use b(2) in simp)
  have dat: "ea_data a = pre @ le_bytes 4 (of_nat (length b) :: u32) @ b @ concat (map f vs)"
    using Cons.prems(1) b(1) by simp
  have s: "sub (ea_data a) (length pre) 4 = le_bytes 4 (of_nat (length b) :: u32)"
    "sub (ea_data a) (length pre + 4) (length b) = b" unfolding dat by (simp_all add: sub_def)
  have item: "item_at VO_VarBytes (ea_data a) (length pre) = Some (AV_Bytes b, length pre + 4 + length b)"
    by (simp add: item_at_def Let_def s u) (simp add: dat)
  have x: "row_or_null a r (Inr (AV_Bytes b)) = Inr (case v of None \<Rightarrow> AV_Null | Some b \<Rightarrow> AV_Bytes b)"
    using Cons.prems(4) [of 0 "Inr (AV_Bytes b)"] b(3) by (cases v) (simp_all add: rows)
  have d2: "ea_data a = (pre @ le_bytes 4 (of_nat (length b) :: u32) @ b) @ concat (map f vs)" using dat by simp
  have f2: "\<exists>b. f w = le_bytes 4 (of_nat (length b) :: u32) @ b \<and> length b < 2 ^ 32 \<and> (\<forall>c. w = Some c \<longrightarrow> b = c)"
    if "w \<in> set vs" for w using Cons.prems(2) [of w] that by simp
  have n2: "row_or_null a (rs ! i) w = (if vs ! i = None then Inr AV_Null else w)" if "i < length vs" for i w
    using Cons.prems(4) [of "Suc i" w] that by (simp add: rows)
  have "variable_rows VO_VarBytes a (length (pre @ le_bytes 4 (of_nat (length b) :: u32) @ b)) rs =
    Inr (map (\<lambda>v. case v of None \<Rightarrow> AV_Null | Some b \<Rightarrow> AV_Bytes b) vs)"
    by (rule Cons.IH [OF d2 f2 _ n2]) (use Cons.prems(3) rows in simp_all)
  then have "variable_rows VO_VarBytes a (length pre + 4 + length b) rs =
    Inr (map (\<lambda>v. case v of None \<Rightarrow> AV_Null | Some b \<Rightarrow> AV_Bytes b) vs)" by (simp add: add.assoc)
  then show ?case unfolding rows variable_rows_step [OF lim] using item x by simp
qed

lemma fixed_width_agrees: "fixed_width_for_logical_type t = Inr w \<longleftrightarrow> logical_type_fixed_width t = Some w"
  by (cases t) auto

text \<open>What the items of a written page are, by physical kind.\<close>

lemma row_item_fixed:
  assumes "row_item lt pk dl v = Inr x" "pk \<in> {PK_Boolean, PK_NumCode, PK_FileCode, PK_FixedBytes}"
    "pk = PK_Boolean \<longrightarrow> logical_type_fixed_width lt = Some 1"
  shows "(case pk of PK_NumCode \<Rightarrow> length x = 8 | PK_FileCode \<Rightarrow> length x = 4 | _ \<Rightarrow> logical_type_fixed_width lt = Some (length x)) \<and>
    (\<forall>b. v = Some b \<longrightarrow> x = b) \<and> (\<forall>b n. v = Some b \<longrightarrow> pk = PK_FileCode \<longrightarrow> dl = Some n \<longrightarrow> (of_le b :: u32) < n)"
proof (cases v)
  case None
  then show ?thesis
    using assms by (auto simp: row_item_def null_placeholder_def ok_iffs fixed_width_agrees [unfolded ok_iffs])
next
  case (Some b)
  have i: "index b 0 = Inr y \<longleftrightarrow> b \<noteq> [] \<and> y = b ! 0" for y by (auto simp: index_def)
  have one: "length b = Suc 0 \<Longrightarrow> [b ! 0] = b" by (cases b) auto
  have r: "length b = 4 \<Longrightarrow> read_u32_le_checked b 0 = Inr (of_le b)"
    by (simp add: read_words_Ok usize_limit_def sub_all)
  from assms(2) consider "pk = PK_Boolean" | "pk = PK_NumCode" | "pk = PK_FileCode" | "pk = PK_FixedBytes" by blast
  then show ?thesis
  proof cases
    case 1
    then show ?thesis
      using assms(1,3) Some one by (auto simp: row_item_def non_null_value_def ok_iffs i split: if_splits)
  next
    case 2
    then show ?thesis using assms(1) Some by (auto simp: row_item_def non_null_value_def split: if_splits)
  next
    case 3
    then show ?thesis
      using assms(1) Some r by (auto simp: row_item_def non_null_value_def ok_iffs not_le split: if_splits option.splits)
  next
    case 4
    then show ?thesis
      using assms(1) Some by (auto simp: row_item_def non_null_value_def ok_iffs fixed_width_agrees [unfolded ok_iffs] split: if_splits)
  qed
qed

lemma row_item_varbytes:
  assumes "row_item lt PK_VarBytes dl v = Inr x"
  shows "\<exists>b. x = le_bytes 4 (of_nat (length b) :: u32) @ b \<and> length b < 2 ^ 32 \<and> (\<forall>c. v = Some c \<longrightarrow> b = c)"
  using assms
  by (cases v) (auto simp: row_item_def non_null_value_def null_placeholder_def split: if_splits intro!: exI [of _ "[]"])

lemma written_payload_array:
  assumes w: "logical_page_to_column_payload crc page lt pk dl = Inr payload" and l: "length (pl_data payload) < usize_limit"
    and rows: "unat (column_page.cp_row_count entry) = length (lp_values page)"
  obtains items a where "try_map (row_item lt pk dl) (lp_values page) = Inr items" "length (concat items) < usize_limit"
    "payload_array payload entry = Inr a" "null_pattern a (lp_values page)" "ea_data a = concat items" "ea_logical a = lt"
    "ea_encoding a = fallback_encoding_kind pk" "ea_dictionary a = None"
    "root_node payload = Inr (single_node (column_page.cp_row_count entry) (fallback_encoding_kind pk) lt pk (length (pl_buffers payload)))"
proof -
  let ?vs = "lp_values page"
  from w obtain nb items bs where h: "length ?vs < 2 ^ 32" "null_bits 0 (replicate ((length ?vs + 7) div 8) 0) ?vs = Inr nb"
    "try_map (row_item lt pk dl) ?vs = Inr items"
    "build_single_node crc (of_nat (length ?vs)) (fallback_encoding_kind pk) lt pk
       (if list_ex (\<lambda>v. v = None) ?vs then Some nb else None) (concat items) = Inr bs"
    "payload_parse crc bs = Inr payload"
    unfolding logical_page_to_column_payload_def Let_def ok_iffs by blast
  have rc: "of_nat (length ?vs) = column_page.cp_row_count entry" by (simp add: rows [symmetric])
  have d: "pl_data payload = bs" using h(5) by (auto simp: payload_parse_def payload_parse_with_def ok_iffs)
  let ?nb = "if list_ex (\<lambda>v. v = None) ?vs then Some nb else None"
  let ?bufs = "single_buffers ?nb (concat items)"
  let ?node = "single_node (column_page.cp_row_count entry) (fallback_encoding_kind pk) lt pk (length ?bufs)"
  let ?p = "built_payload crc (column_page.cp_row_count entry) 0 [?node] ?bufs"
  note b = build_single_node_parses [OF h(4) l [unfolded d], unfolded rc]
  have p: "payload = ?p" and bd: "buildable (column_page.cp_row_count entry) 0 [?node] ?bufs" using b h(5) by simp_all
  have root: "root_node payload = Inr ?node" unfolding p by (rule root_node_built) (simp add: single_node_def)
  have nbuf: "buffer_bytes payload PB_NullBitmap = Inr ?nb"
    unfolding p buffer_bytes_built [OF bd] by (simp add: single_buffers_def split: option.split)
  have vbuf: "buffer_bytes payload PB_Values = Inr (if concat items = [] then None else Some (concat items))"
    unfolding p buffer_bytes_built [OF bd] by (simp add: single_buffers_def split: option.split del: concat_eq_Nil_conv)
  let ?a = "\<lparr>ea_logical = lt, ea_physical = pk, ea_row_count = ucast (column_page.cp_row_count entry), ea_encoding = fallback_encoding_kind pk,
       ea_validity = map_option (\<lambda>bitmap. bitmap_new bitmap (ucast (column_page.cp_row_count entry))) ?nb,
       ea_data = concat items, ea_dictionary = None\<rparr>"
  have e: "(case (if concat items = [] then None else Some (concat items)) of Some b \<Rightarrow> b | None \<Rightarrow> []) = concat items"
    by (simp del: concat_eq_Nil_conv)
  have a: "payload_array payload entry = Inr ?a"
    unfolding payload_array_def root nbuf vbuf and_then_simps e by (simp add: single_node_def)
  have n: "null_pattern ?a ?vs"
    by (rule null_pattern_written [OF h(2)]) (use rows in \<open>simp_all add: unat_ucast_32_64\<close>)
  have lc: "length (concat items) \<le> length (concat (map snd ?bufs))"
    by (cases "concat items = []") (simp_all add: single_buffers_def split: option.split del: concat_eq_Nil_conv)
  then have lim: "length (concat items) < usize_limit" using bd by (simp add: buildable_def payload_size_def del: length_concat)
  have m: "length (pl_buffers payload) = length ?bufs" unfolding p built_payload_buffers [OF bd] by simp
  show ?thesis by (rule that [OF h(3) lim a n _ _ _ _ root [folded m]]) simp_all
qed

lemma fixed_rows_read:
  assumes n: "null_pattern a vs" and it: "try_map (row_item lt pk dl) vs = Inr items" and lim: "length (concat items) < usize_limit"
    and a: "ea_data a = concat items" "ea_logical a = lt" "ea_encoding a = fallback_encoding_kind pk" "ea_dictionary a = None"
    and pk: "pk \<in> {PK_Boolean, PK_NumCode, PK_FileCode, PK_FixedBytes}" "pk = PK_Boolean \<longrightarrow> logical_type_fixed_width lt = Some 1"
  shows "and_then (decode_all_rows a) (try_map (logical_value dl)) = Inr vs"
proof -
  have li: "length items = length vs" using try_map_length [OF it] .
  have item: "row_item lt pk dl (vs ! i) = Inr (items ! i)" if "i < length vs" for i using try_map_nth [OF it that] .
  note fixed = row_item_fixed [OF item pk]
  have all: "\<exists>i < length vs. x = items ! i" if "x \<in> set items" for x using that li by (auto simp: in_set_conv_nth)
  have n64: "length vs < 2 ^ 64" using n unsigned_less [where 'a = nat, of "ea_row_count a"] by (simp add: null_pattern_def)
  have u: "unat (of_nat i :: u64) = i" if "i < length vs" for i using that n64 by (intro unat_of_nat_less) simp
  have at: "read_range_checked (ea_data a) (i * w) w = Inr (items ! i)" "checked_mul i w = Some (i * w)"
    "i * w + w < usize_limit" "i * w + w \<le> length (ea_data a)" "sub (ea_data a) (i * w) w = items ! i"
    if "i < length vs" "\<And>x. x \<in> set items \<Longrightarrow> length x = w" for i w
  proof -
    have c: "sub (concat items) (i * w) w = items ! i" "(i + 1) * w \<le> length (concat items)"
      by (rule concat_items_at; use that li in simp)+
    then have k: "i * w + w \<le> length (concat items)" by (simp add: algebra_simps)
    show "i * w + w < usize_limit" "i * w + w \<le> length (ea_data a)" "sub (ea_data a) (i * w) w = items ! i"
      using k lim c by (simp_all add: a)
    then show "read_range_checked (ea_data a) (i * w) w = Inr (items ! i)" "checked_mul i w = Some (i * w)"
      using k lim by (simp_all add: read_range_Ok checked_mul_def)
  qed
  have d: "decode_all_rows a = collect_rows a (decode_present_row a)"
    using pk(1) by (auto simp: decode_all_rows_def a cascade_values_def)
  define g where "g i = (case pk of PK_NumCode \<Rightarrow> AV_NumCode (of_le (items ! i)) | PK_FileCode \<Rightarrow> AV_FileCode (of_le (items ! i))
    | _ \<Rightarrow> AV_Bytes (items ! i))" for i
  have present: "decode_present_row a (of_nat i) = Inr (g i)" if i: "i < length vs" for i
  proof -
    from pk(1) consider "pk = PK_NumCode" | "pk = PK_FileCode" | "pk = PK_Boolean \<or> pk = PK_FixedBytes" by blast
    then show ?thesis
    proof cases
      case 1
      then have w: "\<And>x. x \<in> set items \<Longrightarrow> length x = 8" using all fixed by fastforce
      show ?thesis using at [OF i w] 1 by (simp add: decode_present_row_def a(3) u [OF i] g_def read_words_Ok)
    next
      case 2
      then have w: "\<And>x. x \<in> set items \<Longrightarrow> length x = 4" using all fixed by fastforce
      show ?thesis using at [OF i w] 2 by (simp add: decode_present_row_def a(3,4) u [OF i] g_def read_words_Ok code_value_def)
    next
      case 3
      have lw: "logical_type_fixed_width lt = Some (length (items ! j))" if "j < length vs" for j
        using fixed [OF that] 3 by auto
      have w: "length x = length (items ! i)" if "x \<in> set items" for x
        using all [OF that] lw [OF i] lw by force
      show ?thesis using at [OF i w] 3 lw [OF i] by (auto simp: decode_present_row_def a(2,3) u [OF i] g_def)
    qed
  qed
  have val: "logical_value dl (g i) = Inr (vs ! i)" if i: "i < length vs" "vs ! i \<noteq> None" for i
  proof -
    from i(2) obtain b where b: "vs ! i = Some b" by blast
    note f = fixed [OF i(1), unfolded b]
    have e: "items ! i = b" using f by blast
    show ?thesis
      using pk(1) f by (auto simp: g_def logical_value_def e b le_bytes_of_le not_le split: option.split)
  qed
  have "decode_all_rows a = Inr (map (\<lambda>i. if vs ! i = None then AV_Null else g i) [0..<length vs])"
    by (rule collect_fixed_rows [OF n d]) (rule present)
  then show ?thesis using logical_values [where vs = vs and dl = dl and g = g] val by simp
qed

lemma varbytes_rows_read:
  assumes n: "null_pattern a vs" and it: "try_map (row_item lt PK_VarBytes dl) vs = Inr items" and lim: "length (concat items) < usize_limit"
    and a: "ea_data a = concat items" "ea_encoding a = EK_VarBytes"
  shows "and_then (decode_all_rows a) (try_map (logical_value dl)) = Inr vs"
proof -
  have li: "length items = length vs" using try_map_length [OF it] .
  have item: "row_item lt PK_VarBytes dl (vs ! i) = Inr (items ! i)" if "i < length vs" for i using try_map_nth [OF it that] .
  have l: "unat (ea_row_count a) = length vs" using n by (simp add: null_pattern_def)
  have items: "items = map (\<lambda>v. case row_item lt PK_VarBytes dl v of Inr x \<Rightarrow> x | Inl _ \<Rightarrow> []) vs"
    by (rule nth_equalityI) (simp_all add: li item)
  have "variable_rows VO_VarBytes a (length ([] :: bytes)) (array_rows a) =
    Inr (map (\<lambda>v. case v of None \<Rightarrow> AV_Null | Some b \<Rightarrow> AV_Bytes b) vs)"
  proof (rule varbytes_items)
    show "length (ea_data a) < usize_limit" using lim by (simp add: a)
    show "ea_data a = [] @ concat (map (\<lambda>v. case row_item lt PK_VarBytes dl v of Inr x \<Rightarrow> x | Inl _ \<Rightarrow> []) vs)"
      using items by (simp add: a)
    show "\<exists>b. (case row_item lt PK_VarBytes dl v of Inr x \<Rightarrow> x | Inl _ \<Rightarrow> []) = le_bytes 4 (of_nat (length b) :: u32) @ b \<and>
        length b < 2 ^ 32 \<and> (\<forall>c. v = Some c \<longrightarrow> b = c)" if "v \<in> set vs" for v
    proof -
      from that obtain i where "i < length vs" "v = vs ! i" by (auto simp: in_set_conv_nth)
      then have "row_item lt PK_VarBytes dl v = Inr (items ! i)" using item by simp
      then show ?thesis using row_item_varbytes by simp
    qed
    show "length (array_rows a) = length vs" using l by simp
    show "row_or_null a (array_rows a ! i) v = (if vs ! i = None then Inr AV_Null else v)" if "i < length vs" for i v
      using n that l by (simp add: null_pattern_def)
  qed
  then have "decode_all_rows a = Inr (map (\<lambda>v. case v of None \<Rightarrow> AV_Null | Some b \<Rightarrow> AV_Bytes b) vs)"
    by (simp add: decode_all_rows_def a(2) decode_all_varbytes_rows_def variable_rows_def)
  moreover have "try_map (logical_value dl) (map (\<lambda>v. case v of None \<Rightarrow> AV_Null | Some b \<Rightarrow> AV_Bytes b) vs) = Inr vs"
    by (induction vs) (auto simp: logical_value_def split: option.splits)
  ultimately show ?thesis by simp
qed

lemma written_rows_read_back_core:
  assumes "logical_page_to_column_payload crc page logical physical dictionary_len = Ok payload"
    and "length (pl_data payload) < usize_limit" "unat (column_page.cp_row_count entry) = length (lp_values page)"
    and "physical \<in> {PK_Boolean, PK_NumCode, PK_FileCode, PK_FixedBytes, PK_VarBytes}"
    and "physical = PK_Boolean \<Longrightarrow> logical_type_fixed_width logical = Some 1"
  shows "column_payload_to_logical_page payload entry dictionary_len = Ok page"
proof -
  obtain items a where h: "try_map (row_item logical physical dictionary_len) (lp_values page) = Inr items"
    "length (concat items) < usize_limit" "payload_array payload entry = Inr a" "null_pattern a (lp_values page)"
    "ea_data a = concat items" "ea_logical a = logical" "ea_encoding a = fallback_encoding_kind physical" "ea_dictionary a = None"
    by (rule written_payload_array [OF assms(1-3)])
  have "and_then (decode_all_rows a) (try_map (logical_value dictionary_len)) = Inr (lp_values page)"
  proof (cases "physical = PK_VarBytes")
    case True
    then show ?thesis using varbytes_rows_read [OF h(4) _ h(2,5)] h(1,7) by simp
  next
    case False
    then show ?thesis using fixed_rows_read [OF h(4,1,2,5-8)] assms(4,5) by blast
  qed
  then show ?thesis by (cases page) (auto simp: column_payload_to_logical_page_def h(3) ok_iffs)
qed

section \<open>What a registered page says of its rows\<close>

lemma decode_all_rows_length:
  assumes d: "decode_all_rows a = Inr out" and lim: "length (ea_data a) < usize_limit"
  shows "length out = unat (ea_row_count a)"
proof (cases "variable_kind a")
  case (Some k)
  then show ?thesis using variable_reads [OF _ d lim] by (auto simp: rows_are_def)
next
  case None
  consider (lc) "ea_encoding a = EK_LocalCodebook" | (cas) r where "cascade_values (ea_encoding a) (ea_data a) = Some r"
    | (can) "ea_encoding a = EK_Canonical" "\<not> canonical_text (ea_logical a)"
    | (dir) "cascade_values (ea_encoding a) (ea_data a) = None" "ea_encoding a \<notin> {EK_LocalCodebook, EK_Canonical, EK_PlainVarint, EK_VarBytes}"
    using None by (cases "ea_encoding a") (auto simp: variable_kind_def cascade_values_def split: if_splits)
  then show ?thesis
  proof cases
    case lc
    then show ?thesis using local_codebook_rows_are [OF lc d] by (simp add: rows_are_def)
  next
    case cas
    then show ?thesis using cascade_rows_are [OF cas d] by (simp add: rows_are_def)
  next
    case can
    then show ?thesis
      using d unfolding decode_all_rows_def decode_all_canonical_rows_def collect_rows_def canonical_text_def
      by (cases "ea_logical a") (auto simp: ok_iffs dest: try_map_length simp del: logical_type_debug.simps)
  next
    case dir
    then show ?thesis using d
      by (auto simp: decode_all_rows_def collect_rows_def dest: try_map_length split: encoding_kind.splits)
  qed
qed

lemma buffer_bytes_length: "buffer_bytes p k = Inr (Some b) \<Longrightarrow> length b \<le> length (pl_data p)"
  by (auto simp: buffer_bytes_def ok_iffs length_sub split: option.splits)

lemma column_rows_length:
  assumes "column_payload_to_logical_page p entry dl = Inr page" "length (pl_data p) < usize_limit"
  shows "length (lp_values page) = unat (column_page.cp_row_count entry)"
proof -
  from assms(1) obtain a out vs where h: "payload_array p entry = Inr a" "decode_all_rows a = Inr out"
    "try_map (logical_value dl) out = Inr vs" "page = \<lparr>lp_values = vs\<rparr>"
    by (auto simp: column_payload_to_logical_page_def ok_iffs)
  have "ea_row_count a = ucast (column_page.cp_row_count entry) \<and> length (ea_data a) < usize_limit"
    using h(1) assms(2) buffer_bytes_length [of p PB_Values]
    by (fastforce simp: payload_array_def ok_iffs usize_limit_def split: option.splits)
  then show ?thesis using decode_all_rows_length [OF h(2)] try_map_length [OF h(3)] h(4) by (simp add: unat_ucast_32_64)
qed

lemma envelope_range_iff:
  "envelope_range p off len = Inr b \<longleftrightarrow>
     unat off + unat len < usize_limit \<and> unat off + unat len \<le> length (pl_data p) \<and> b = sub (pl_data p) (unat off) (unat len)"
  using unsigned_less [where 'a = nat, of off] unsigned_less [where 'a = nat, of len]
  by (auto simp: envelope_range_def ok_iffs read_range_Ok_iff usize_limit_def)

lemma fallback_payload_length:
  "parse_fallback_payload crc payload e page lt pk = Inr p \<Longrightarrow> length (pl_data p) \<le> length (pl_data payload)"
  by (auto simp: parse_fallback_payload_def payload_parse_def payload_parse_with_def ok_iffs envelope_range_iff length_sub split: if_splits)

section \<open>Writing and reading a registered page\<close>

definition registered_node :: "u32 \<Rightarrow> logical_type \<Rightarrow> physical_kind \<Rightarrow> encoding_node" where
  "registered_node rows logical physical =
     \<lparr>en_node_id = 0, en_encoding_kind = EK_RegisteredEncoding, en_logical_type = logical,
      en_physical_kind = physical, en_flags = 0, en_logical_len = rows, en_child_count = 0, en_buffer_count = 1,
      en_params_offset = 98, en_params_length = 72, en_stats_id = 0, en_reserved = 0\<rparr>"

definition written_envelope :: "(bytes \<Rightarrow> u32) \<Rightarrow> u32 \<Rightarrow> u32 \<Rightarrow> u32 \<Rightarrow> u16 \<Rightarrow> u16 \<Rightarrow> bytes \<Rightarrow> bytes \<Rightarrow> registered_envelope" where
  "written_envelope crc rows non_null codec_id major minor encoded fallback =
     (let e = registered_envelope_for rows non_null codec_id major minor 98 170 encoded (170 + of_nat (length encoded)) (Some fallback) in
      e\<lparr>re_checksum := crc (envelope_body e @ [0, 0, 0, 0])\<rparr>)"

lemma envelope_body_checksum [simp]: "envelope_body (e\<lparr>re_checksum := c\<rparr>) = envelope_body e"
  by (simp add: envelope_body_def)

lemma envelope_validate_checksum [simp]: "envelope_validate (e\<lparr>re_checksum := c\<rparr>) = envelope_validate e"
  by (simp add: envelope_validate_def)

lemma envelope_fallback_pair:
  "envelope_validate e = Ok () \<Longrightarrow> re_fallback_payload_offset e = 0 \<longleftrightarrow> re_fallback_payload_length e = 0"
  by (auto simp: envelope_validate_def split: if_splits)

definition registered_payload :: "(bytes \<Rightarrow> u32) \<Rightarrow> u32 \<Rightarrow> logical_type \<Rightarrow> physical_kind \<Rightarrow> bytes \<Rightarrow> page_payload" where
  "registered_payload crc rows logical physical reg = built_payload crc rows 0 [registered_node rows logical physical] [(PB_Other, reg)]"

lemma registered_payload_bytes: "\<exists>pre. length pre = 98 \<and> pl_data (registered_payload crc rows lt pk reg) = pre @ reg"
proof -
  let ?header = "payload_header_for rows 0 1 1 (36, 66, 98)"
  let ?desc = "\<lparr>bd_buffer_id = 0, bd_kind = PB_Other, bd_flags = 0, bd_offset = 98, bd_length = of_nat (length reg),
      bd_checksum = crc reg, bd_reserved = 0\<rparr>"
  let ?pre = "payload_header_serialize ?header @ encoding_node_serialize (registered_node rows lt pk) @ buffer_descriptor_serialize ?desc"
  have "length (encoding_node_serialize x) = 30" for x using encoding_node_serialize_eq [of x] by simp
  moreover have "length (payload_header_serialize ?header) = 36"
    using payload_header.enc_length [of ?header]
    by (simp add: payload_header_for_def payload_header_wf_def COLUMN_PAGE_PAYLOAD_HEADER_LEN_def)
  moreover have "length (buffer_descriptor_serialize ?desc) = 32"
    using buffer_descriptor.enc_length [of ?desc] by (simp add: buffer_descriptor_wf_def)
  moreover have "pl_data (registered_payload crc rows lt pk reg) = ?pre @ reg"
    by (simp add: registered_payload_def built_payload_def Let_def payload_header_for_def)
  ultimately show ?thesis by (intro exI [of _ ?pre]) simp
qed

lemma registered_buildable:
  "98 + length reg < usize_limit \<Longrightarrow> buildable rows 0 [registered_node rows lt pk] [(PB_Other, reg)]"
  by (simp add: buildable_def payload_size_def registered_node_def encoding_node_wf_def)

lemma build_registered_eq:
  "build_registered_single_node crc rows nn lt pk codec_id major minor encoded (Some fb) =
     (if rows < nn then Fail BadCodecExtension
      else
        and_then (ok_or ArithOverflow (checked_add_word 170 (of_nat (length encoded)))) (\<lambda>off.
        and_then (envelope_serialize crc (registered_envelope_for rows nn codec_id major minor 98 170 encoded off (Some fb))) (\<lambda>env.
        and_then (payload_parse crc (pl_data (registered_payload crc rows lt pk (env @ encoded @ fb)))) (\<lambda>_.
        Ok (pl_data (registered_payload crc rows lt pk (env @ encoded @ fb)))))))"
proof -
  have c: "checked_add_word (of_nat COLUMN_PAGE_PAYLOAD_HEADER_LEN :: u32) (of_nat COVE_ENCODING_NODE_LEN) = Some 66"
    "checked_add_word (66 :: u32) (of_nat PAGE_BUFFER_DESCRIPTOR_LEN) = Some 98"
    "checked_add_word (ucast (98 :: u32) :: u64) (of_nat ENVELOPE_LEN) = Some 170"
    by (simp_all add: checked_add_word_def COLUMN_PAGE_PAYLOAD_HEADER_LEN_def COVE_ENCODING_NODE_LEN_def PAGE_BUFFER_DESCRIPTOR_LEN_def ENVELOPE_LEN_def)
  show ?thesis
    unfolding build_registered_single_node_def Let_def c ok_or_simps and_then_simps option.case
    by (simp add: registered_payload_def built_payload_def Let_def payload_header_for_def registered_node_def COLUMN_PAGE_PAYLOAD_HEADER_LEN_def
        ENVELOPE_LEN_def)
qed

lemma build_registered_Ok:
  assumes "\<not> rows < nn" "fb \<noteq> []" "170 + length encoded + length fb < usize_limit"
  shows "\<exists>bs. build_registered_single_node crc rows nn lt pk codec_id major minor encoded (Some fb) = Ok bs \<and>
    length bs = 170 + length encoded + length fb"
proof -
  let ?off = "170 + of_nat (length encoded) :: u64"
  let ?e = "registered_envelope_for rows nn codec_id major minor 98 170 encoded ?off (Some fb)"
  let ?reg = "(envelope_body ?e @ le_bytes 4 (crc (envelope_body ?e @ [0, 0, 0, 0]))) @ encoded @ fb"
  have u: "unat (of_nat (length encoded) :: u64) = length encoded" "unat (of_nat (length fb) :: u64) = length fb"
    by (rule unat_of_nat_less, use assms(3) in \<open>simp add: usize_limit_def\<close>)+
  have c: "checked_add_word (170 :: u64) (of_nat (length encoded)) = Some ?off"
    using assms(3) u by (simp add: checked_add_word_def usize_limit_def)
  then have x: "unat ?off = 170 + length encoded"
    using u unat_add_no_overflow [of "170 :: u64" "of_nat (length encoded)"] by (auto simp: checked_add_word_eq_Some_iff)
  then have nz: "?off \<noteq> 0" "(of_nat (length fb) :: u64) \<noteq> 0" using u(2) assms(2) by (metis add_is_0 unsigned_0 zero_neq_numeral, metis length_0_conv unsigned_0)
  obtain y z where "checked_add_word ?off (of_nat (length fb)) = Some y" "checked_add_word (98 :: u64) 72 = Some z"
    using x u assms(3) by (simp add: checked_add_word_def usize_limit_def)
  then have v: "envelope_validate ?e = Ok ()"
    using assms(1) c nz by (simp add: envelope_validate_def registered_envelope_for_def checked_end_def ENVELOPE_LEN_def)
  have "payload_parse crc (pl_data (registered_payload crc rows lt pk ?reg)) = Ok (registered_payload crc rows lt pk ?reg)"
    unfolding registered_payload_def payload_parse_def
    by (rule built_payload_parses(1) [OF registered_buildable]) (use assms(3) in simp)
  then have "build_registered_single_node crc rows nn lt pk codec_id major minor encoded (Some fb) =
      Ok (pl_data (registered_payload crc rows lt pk ?reg))"
    using assms(1) c v by (simp add: build_registered_eq envelope_serialize_iff [THEN iffD2])
  moreover have "length (pl_data (registered_payload crc rows lt pk ?reg)) = 170 + length encoded + length fb"
    using registered_payload_bytes [of crc rows lt pk ?reg] by auto
  ultimately show ?thesis by blast
qed

lemma build_registered_parses:
  assumes b: "build_registered_single_node crc rows nn lt pk codec_id major minor encoded (Some fb) = Inr bs"
    and l: "length bs < usize_limit"
  shows "\<exists>p. payload_parse crc bs = Inr p \<and> root_node p = Inr (registered_node rows lt pk) \<and>
    registered_envelope_from_root crc p = Inr (written_envelope crc rows nn codec_id major minor encoded fb) \<and>
    envelope_range p 170 (of_nat (length encoded)) = Inr encoded \<and>
    envelope_range p (170 + of_nat (length encoded)) (of_nat (length fb)) = Inr fb \<and> fb \<noteq> [] \<and> length fb < usize_limit \<and> length encoded < usize_limit"
proof -
  let ?e = "registered_envelope_for rows nn codec_id major minor 98 170 encoded (170 + of_nat (length encoded)) (Some fb)"
  let ?env = "envelope_body ?e @ le_bytes 4 (crc (envelope_body ?e @ [0, 0, 0, 0]))"
  let ?reg = "?env @ encoded @ fb"
  have ca: "checked_add_word (170 :: u64) (of_nat (length encoded)) = Some off \<Longrightarrow> off = 170 + of_nat (length encoded)" for off
    by (auto simp: checked_add_word_def split: if_splits)
  let ?p = "registered_payload crc rows lt pk ?reg"
  from b have v: "envelope_validate ?e = Ok ()" and bp: "bs = pl_data ?p"
    unfolding build_registered_eq by (auto simp: ok_iffs envelope_serialize_iff dest!: ca)
  note dat' = registered_payload_bytes [of crc rows lt pk ?reg]
  obtain pre where lp: "length pre = 98" and dat: "pl_data ?p = pre @ envelope_body ?e @ le_bytes 4 (crc (envelope_body ?e @ [0, 0, 0, 0])) @ encoded @ fb"
    using dat' by auto
  have sz: "170 + length encoded + length fb < 2 ^ 64" using l lp unfolding bp dat by (simp add: usize_limit_def)
  have bd: "buildable rows 0 [registered_node rows lt pk] [(PB_Other, ?reg)]"
    by (rule registered_buildable) (use sz in \<open>simp add: usize_limit_def\<close>)
  have parse: "payload_parse crc bs = Inr ?p"
    using built_payload_parses(1) [OF bd, of crc BCV_Verify] by (simp add: payload_parse_def bp registered_payload_def)
  have root: "root_node ?p = Inr (registered_node rows lt pk)"
    unfolding registered_payload_def by (rule root_node_built) (simp add: registered_node_def)
  have u: "unat (of_nat (length encoded) :: u64) = length encoded" "unat (of_nat (length fb) :: u64) = length fb"
    "unat (170 + of_nat (length encoded) :: u64) = 170 + length encoded"
  proof -
    show x: "unat (of_nat (length encoded) :: u64) = length encoded" "unat (of_nat (length fb) :: u64) = length fb"
      by (rule unat_of_nat_less, use sz in simp)+
    have "170 + of_nat (length encoded) = (of_nat (170 + length encoded) :: u64)" by simp
    also have "unat \<dots> = 170 + length encoded" by (rule unat_of_nat_less) (use sz in simp)
    finally show "unat (170 + of_nat (length encoded) :: u64) = 170 + length encoded" .
  qed
  have fb: "fb \<noteq> []"
  proof
    assume "fb = []"
    moreover have "(170 + of_nat (length encoded) :: u64) \<noteq> 0" using u(3) by (metis add_is_0 unsigned_0 zero_neq_numeral)
    ultimately show False using envelope_fallback_pair [OF v] by (simp add: registered_envelope_for_def)
  qed
  have params: "read_range_checked (pl_data ?p) 98 72 = Inr ?env"
    using sz unfolding dat by (simp add: read_range_Ok_iff sub_def lp usize_limit_def)
  have "envelope_parse crc ?env = Inr (written_envelope crc rows nn codec_id major minor encoded fb)"
    using v by (simp add: envelope_parse_exact [THEN conjunct1] envelope_serialize_iff written_envelope_def Let_def)
  moreover have "unat (en_params_offset (registered_node rows lt pk)) = 98" "unat (en_params_length (registered_node rows lt pk)) = 72"
    "en_params_offset (registered_node rows lt pk) = 98" "en_params_length (registered_node rows lt pk) = 72"
    by (simp_all add: registered_node_def)
  moreover have "re_params_offset (written_envelope crc rows nn codec_id major minor encoded fb) = 98"
    "re_params_length (written_envelope crc rows nn codec_id major minor encoded fb) = 72"
    by (simp_all add: written_envelope_def Let_def registered_envelope_for_def ENVELOPE_LEN_def)
  ultimately have env: "registered_envelope_from_root crc ?p = Inr (written_envelope crc rows nn codec_id major minor encoded fb)"
    unfolding registered_envelope_from_root_def root and_then_simps by (simp only: ENVELOPE_LEN_def params and_then_simps simp_thms if_False)
  have r: "envelope_range ?p 170 (of_nat (length encoded)) = Inr encoded"
    "envelope_range ?p (170 + of_nat (length encoded)) (of_nat (length fb)) = Inr fb"
    using sz unfolding envelope_range_iff u dat by (simp_all add: sub_def lp usize_limit_def)
  show ?thesis using parse root env r fb sz by (auto simp: usize_limit_def)
qed

lemma registered_page_roundtrip_core:
  assumes rows: "facade_encode codec page = Ok encoded"
      "logical_page_to_column_payload crc page logical physical dictionary_len = Ok core"
      "(length (lp_values page) + 1) * 4 < 2 ^ 32"
    and written: "build_registered_single_node crc (column_page.cp_row_count entry) (cp_non_null_count entry) logical physical
        (cd_codec_id d) (cd_version_major d) (cd_version_minor d) encoded (Some (pl_data core)) = Ok bs" "length bs < usize_limit"
    and descriptor: "names_codec codec d" "validate_descriptor_supports_page d logical physical = Ok ()"
      "validate_descriptor_set descriptors = Ok ()" "d \<in> set descriptors"
    and entry: "unat (column_page.cp_row_count entry) = length (lp_values page)"
      "cp_encoding_root entry = ucast (as_encoding_kind EK_RegisteredEncoding)"
    and kind: "physical \<in> {PK_Boolean, PK_NumCode, PK_FileCode, PK_FixedBytes, PK_VarBytes}"
      "physical = PK_Boolean \<Longrightarrow> logical_type_fixed_width logical = Some 1"
  shows "\<exists>payload. payload_parse crc bs = Ok payload \<and>
    materialize_registered_page_payload crc stable_resolver payload entry logical physical descriptors dictionary_len =
      Ok (Some \<lparr>mt_payload = core, mt_used_fallback = False\<rparr>) \<and>
    materialize_registered_page_payload crc no_resolver payload entry logical physical descriptors dictionary_len =
      Ok (Some \<lparr>mt_payload = core, mt_used_fallback = True\<rparr>) \<and>
    column_payload_to_logical_page core entry dictionary_len = Ok page"
proof -
  let ?e = "written_envelope crc (column_page.cp_row_count entry) (cp_non_null_count entry) (cd_codec_id d) (cd_version_major d)
      (cd_version_minor d) encoded (pl_data core)"
  obtain p where p: "payload_parse crc bs = Ok p" "root_node p = Ok (registered_node (column_page.cp_row_count entry) logical physical)"
    "registered_envelope_from_root crc p = Ok ?e" "envelope_range p 170 (of_nat (length encoded)) = Ok encoded"
    "envelope_range p (170 + of_nat (length encoded)) (of_nat (length (pl_data core))) = Ok (pl_data core)"
    "pl_data core \<noteq> []" "length (pl_data core) < usize_limit" "length encoded < usize_limit"
    using build_registered_parses [OF written] by blast
  have e: "re_codec_id ?e = cd_codec_id d" "re_codec_version_major ?e = cd_version_major d" "re_codec_version_minor ?e = cd_version_minor d"
    "re_logical_len ?e = column_page.cp_row_count entry" "re_non_null_count ?e = cp_non_null_count entry"
    "re_encoded_payload_offset ?e = 170" "re_encoded_payload_length ?e = of_nat (length encoded)"
    "re_fallback_payload_offset ?e = 170 + of_nat (length encoded)" "re_fallback_payload_length ?e = of_nat (length (pl_data core))"
    by (simp_all add: written_envelope_def Let_def registered_envelope_for_def)
  have reread: "column_payload_to_logical_page core entry dictionary_len = Ok page"
    by (rule written_rows_read_back_core [OF rows(2) p(7) entry(1) kind])
  have core: "payload_parse crc (pl_data core) = Ok core"
    using rows(2) by (auto simp: logical_page_to_column_payload_def Let_def payload_parse_def payload_parse_with_def ok_iffs)
  obtain m where root: "root_node core = Ok (single_node (column_page.cp_row_count entry) (fallback_encoding_kind physical) logical physical m)"
    by (rule written_payload_array [OF rows(2) p(7) entry(1)])
  have fb: "parse_fallback_payload crc p ?e entry logical physical = Ok core"
    unfolding parse_fallback_payload_def e p(5) and_then_simps core root by (cases physical) (simp_all add: single_node_def)
  have nz: "re_fallback_payload_length ?e \<noteq> 0"
  proof -
    have "unat (of_nat (length (pl_data core)) :: u64) = length (pl_data core)"
      using p(7) by (intro unat_of_nat_less) (simp add: usize_limit_def)
    then show ?thesis unfolding e using p(6) by (metis length_0_conv unsigned_0)
  qed
  have "List.find (\<lambda>d'. cd_codec_id d' = re_codec_id ?e \<and> cd_version_major d' = re_codec_version_major ?e \<and>
       cd_version_minor d' = re_codec_version_minor ?e) descriptors = Some d"
  proof -
    have "x = d" if "x \<in> set descriptors" "cd_codec_id x = cd_codec_id d" for x
      using descriptor(3,4) that by (auto simp: validate_descriptor_set_iff [unfolded ok_iffs] distinct_map inj_on_def)
    then show ?thesis unfolding e by (subst find_unique [where y = d]) (use descriptor(4) in auto)
  qed
  then have fd: "envelope_descriptor descriptors ?e = Some d" by (simp only: envelope_descriptor_def)
  have em: "envelope_matches d ?e" by (simp add: envelope_matches_def e)
  have "stable_resolver d ?e encoded = Ok page"
    using facade_page_resolved [OF rows(1) p(8) rows(3) descriptor(1) em] by simp
  then have st: "materialize_registered_page_payload crc stable_resolver p entry logical physical descriptors dictionary_len =
      Ok (Some \<lparr>mt_payload = core, mt_used_fallback = False\<rparr>)"
    unfolding materialize_registered_page_payload_def p(2,3) and_then_simps e(6,7) p(4) fb fd
    using nz entry(2) by (simp add: registered_node_def validate_envelope_against_page_def e(4,5) reread descriptor(2) with_decoded_def rows(2))
  have no: "materialize_registered_page_payload crc no_resolver p entry logical physical descriptors dictionary_len =
      Ok (Some \<lparr>mt_payload = core, mt_used_fallback = True\<rparr>)"
    unfolding materialize_registered_page_payload_def p(2,3) and_then_simps e(6,7) p(4) fb fd
    using nz entry(2) by (simp add: registered_node_def validate_envelope_against_page_def e(4,5) reread descriptor(2) with_decoded_def
        no_resolver_def with_fallback_def)
  show ?thesis using p(1) st no reread by blast
qed


section \<open>The descriptors of the facade\<close>

lemma stable_codec_for_identity_codec:
  "codec_identity codec = (namespace, name, major, minor) \<Longrightarrow> stable_codec_for_identity namespace name major minor = Some codec"
  unfolding stable_codec_for_identity_def
  by (subst find_unique [where y = codec]) (auto simp: codec_identity_inject in_stable_codecs dest: sym)

lemma facade_descriptor_valid: "descriptor_validate (facade_descriptor codec) = Ok ()"
proof -
  obtain namespace name major minor where i: "codec_identity codec = (namespace, name, major, minor)" by (metis prod_cases4)
  have ne: "namespace \<noteq> [] \<and> name \<noteq> []"
    using i by (cases codec) (auto simp: FSST_UTF8_CODEC_IDENTITY_def ALP_FLOAT_CODEC_IDENTITY_def FASTLANES_INTEGER_CODEC_IDENTITY_def
        codec_namespace_def)
  have f: "stable_codec_for_identity namespace name major minor = Some codec" by (rule stable_codec_for_identity_codec [OF i])
  have m: "stable_supported_masks namespace name major minor = Some (supported_type_masks codec)"
    using f by (simp add: stable_supported_masks_def stable_codec_for_identity_def)
  obtain lm pm where k: "supported_type_masks codec = (lm, pm)" by (cases "supported_type_masks codec")
  have nz: "lm \<noteq> 0 \<and> pm \<noteq> 0 \<and> \<not> 4 < stable_codec_family codec"
    using k by (cases codec) (auto simp: logical_type_mask_def physical_kind_mask_def logical_type_bit_def physical_kind_bit_def)
  show ?thesis
    unfolding facade_descriptor_def i case_prod_conv m option.case k
    using ne nz by (simp add: descriptor_validate_def stable_family_and_masks_def f k requires_fallback_ref_def ABSENT_REF_def)
qed

lemma facade_descriptor_supports:
  assumes "supports_page codec logical physical"
  shows "validate_descriptor_supports_page (facade_descriptor codec) logical physical = Ok ()"
proof -
  obtain namespace name major minor where i: "codec_identity codec = (namespace, name, major, minor)" by (metis prod_cases4)
  have f: "stable_codec_for_identity namespace name major minor = Some codec" by (rule stable_codec_for_identity_codec [OF i])
  have m: "stable_supported_masks namespace name major minor = Some (supported_type_masks codec)"
    using f by (simp add: stable_supported_masks_def stable_codec_for_identity_def)
  obtain lm pm where k: "supported_type_masks codec = (lm, pm)" by (cases "supported_type_masks codec")
  have b: "checked_shl_1 (unat (as_logical_type logical)) = Some (logical_type_bit logical)"
    "checked_shl_1 (unat (as_physical_kind physical)) = Some (physical_kind_bit physical)"
    by (cases logical; simp add: checked_shl_1_def logical_type_bit_def) (cases physical; simp add: checked_shl_1_def physical_kind_bit_def)
  show ?thesis
    unfolding facade_descriptor_def i case_prod_conv m option.case k validate_descriptor_supports_page_def b ok_or_simps and_then_simps
    using assms by (simp add: f supports_page_def k)
qed

section \<open>An example\<close>

definition text_page :: logical_page where
  "text_page = \<lparr>lp_values = [Some [104, 105], None]\<rparr>"

definition text_entry :: column_page where
  "text_entry = \<lparr>cp_column_id = 0, cp_morsel_id = 0, column_page.cp_row_count = 2, cp_non_null_count = 1, cp_null_count = 1,
     cp_encoding_root = ucast (as_encoding_kind EK_RegisteredEncoding), cp_page_offset = 0, cp_page_length = 0,
     cp_uncompressed_length = 0, cp_stats_ref = 0, cp_flags = 0, cp_checksum = 0\<rparr>"

definition text_core :: page_payload where
  "text_core = built_payload (\<lambda>_. 0) 2 0 [single_node 2 EK_VarBytes LT_Utf8 PK_VarBytes 2]
     [(PB_NullBitmap, [2]), (PB_Values, [2, 0, 0, 0, 104, 105, 0, 0, 0, 0])]"

definition text_encoded :: bytes where
  "text_encoded = [67, 70, 83, 50, 2, 0, 0, 0, 1, 0, 0, 0, 12, 0, 0, 0, 2, 0, 0, 0, 0, 2, 0, 0, 0, 2, 0, 0, 0, 104, 105]"

lemma text_page_encoded: "facade_encode SC_FsstUtf8 text_page = Ok text_encoded"
  by (simp add: facade_encode_def page_utf8_def encode_row_bytes_def text_page_def text_encoded_def le_bytes_numeral checked_add_def
      checked_mul_def checked_add_word_def mark_null_def index_def set_index_def ok_or_simps usize_limit_def utf8_valid.simps(2))

lemma build_single_node_Ok:
  assumes "buildable rows 0 [single_node rows k lt pk (length (single_buffers nb vs))] (single_buffers nb vs)"
  shows "build_single_node crc rows k lt pk nb vs =
    Ok (pl_data (built_payload crc rows 0 [single_node rows k lt pk (length (single_buffers nb vs))] (single_buffers nb vs)))"
  using built_payload_parses(1) [OF assms, of crc BCV_Verify]
  unfolding build_single_node_def single_buffers_def [symmetric] Let_def payload_offsets_Ok(1) and_then_simps payload_parse_def
  by (simp add: built_payload_def Let_def single_node_def)

lemma text_page_written: "logical_page_to_column_payload (\<lambda>_. 0) text_page LT_Utf8 PK_VarBytes None = Ok text_core"
  and length_text_core: "length (pl_data text_core) = 141"
proof -
  let ?v = "[2, 0, 0, 0, 104, 105, 0, 0, 0, 0] :: bytes"
  have b: "single_buffers (Some [2]) ?v = [(PB_NullBitmap, [2]), (PB_Values, ?v)]" by (simp add: single_buffers_def)
  then have lb: "length (single_buffers (Some [2]) ?v) = 2" by simp
  have bd: "buildable 2 0 [single_node 2 EK_VarBytes LT_Utf8 PK_VarBytes (length (single_buffers (Some [2]) ?v))] (single_buffers (Some [2]) ?v)"
    unfolding b by (simp add: buildable_def payload_size_def usize_limit_def encoding_node_wf_def single_node_def)
  have w: "build_single_node (\<lambda>_. 0) 2 EK_VarBytes LT_Utf8 PK_VarBytes (Some [2]) ?v = Ok (pl_data text_core)"
    unfolding build_single_node_Ok [OF bd] unfolding lb unfolding b by (simp only: text_core_def)
  have p: "payload_parse (\<lambda>_. 0) (pl_data text_core) = Ok text_core"
    using built_payload_parses(1) [OF bd, of "\<lambda>_. 0" BCV_Verify] unfolding lb unfolding b by (simp only: text_core_def payload_parse_def)
  have items: "null_bits 0 (replicate ((2 + 7) div 8) 0) (lp_values text_page) = Ok [2]"
    "try_map (row_item LT_Utf8 PK_VarBytes None) (lp_values text_page) = Ok [[2, 0, 0, 0, 104, 105], [0, 0, 0, 0]]"
    by (simp_all add: text_page_def mark_null_def index_def set_index_def row_item_def non_null_value_def null_placeholder_def le_bytes_numeral)
  have l: "length (lp_values text_page) = 2" "list_ex (\<lambda>v. v = None) (lp_values text_page)" by (simp_all add: text_page_def)
  show "logical_page_to_column_payload (\<lambda>_. 0) text_page LT_Utf8 PK_VarBytes None = Ok text_core"
    unfolding logical_page_to_column_payload_def Let_def l(1) items and_then_simps using w p l(2) by simp
  have n: "length (encoding_node_serialize x) = 30" for x using encoding_node_serialize_eq [of x] by simp
  have h: "length (payload_header_serialize e) = 36" if "payload_header_wf e" for e
    using payload_header.enc_length [OF that] by simp
  have d: "length (buffer_descriptor_serialize e) = 32" if "buffer_descriptor_wf e" for e
    using buffer_descriptor.enc_length [OF that] by simp
  show "length (pl_data text_core) = 141"
    by (simp add: text_core_def built_payload_def Let_def n h d payload_header_for_def payload_header_wf_def buffer_descriptor_wf_def
        COLUMN_PAGE_PAYLOAD_HEADER_LEN_def)
qed

lemma text_registered:
  obtains bs where "build_registered_single_node (\<lambda>_. 0) 2 1 LT_Utf8 PK_VarBytes 1 2 0 text_encoded (Some (pl_data text_core)) = Ok bs"
    "length bs < usize_limit"
proof -
  have "\<not> (2 :: u32) < 1" "pl_data text_core \<noteq> []" "170 + length text_encoded + length (pl_data text_core) < usize_limit"
    using length_text_core by (auto simp: text_encoded_def usize_limit_def)
  from build_registered_Ok [OF this, of "\<lambda>_. 0" LT_Utf8 PK_VarBytes 1 2 0] obtain bs where
    "build_registered_single_node (\<lambda>_. 0) 2 1 LT_Utf8 PK_VarBytes 1 2 0 text_encoded (Some (pl_data text_core)) = Ok bs"
    "length bs = 170 + length text_encoded + length (pl_data text_core)" by blast
  moreover have "170 + length text_encoded + length (pl_data text_core) < usize_limit"
    using length_text_core by (simp add: text_encoded_def usize_limit_def)
  ultimately show ?thesis using that by simp
qed

lemmas text_facts = facade_descriptor_fields names_facade_descriptor facade_descriptor_valid

lemma text_roundtrip_facts:
  "unat (column_page.cp_row_count text_entry) = length (lp_values text_page)"
  "cp_encoding_root text_entry = ucast (as_encoding_kind EK_RegisteredEncoding)"
  "(length (lp_values text_page) + 1) * 4 < 2 ^ 32"
  "validate_descriptor_supports_page (facade_descriptor SC_FsstUtf8) LT_Utf8 PK_VarBytes = Ok ()"
  "validate_descriptor_set [facade_descriptor SC_FsstUtf8] = Ok ()"
  by (simp_all add: text_entry_def text_page_def validate_descriptor_set_def validate_descriptor_set_step_def facade_descriptor_valid
      facade_descriptor_supports supports_page_def logical_type_mask_def physical_kind_mask_def logical_type_bit_def physical_kind_bit_def)

section \<open>Properties\<close>

text \<open>
  The rows of a page that were written as a payload of the core are read back from it, nulls
  included, for every physical kind of single values, with or without a dictionary bound; a page
  of Booleans needs a logical type of one byte.
\<close>

theorem written_rows_read_back:
  assumes "logical_page_to_column_payload crc page logical physical dictionary_len = Ok payload"
    and "length (pl_data payload) < usize_limit" "unat (column_page.cp_row_count entry) = length (lp_values page)"
    and "physical \<in> {PK_Boolean, PK_NumCode, PK_FileCode, PK_FixedBytes, PK_VarBytes}"
    and "physical = PK_Boolean \<Longrightarrow> logical_type_fixed_width logical = Some 1"
  shows "column_payload_to_logical_page payload entry dictionary_len = Ok page"
  using written_rows_read_back_core [OF assms] .

theorem written_rows_read_back_witness:
  "column_payload_to_logical_page text_core text_entry None = Ok text_page"
  by (rule written_rows_read_back [OF text_page_written])
    (simp_all add: length_text_core usize_limit_def text_roundtrip_facts)

text \<open>
  C9: When a registered page carries a fallback, what a reader is given holds the rows of the
  fallback: either it is the fallback itself, or it is the codec's answer written as a core
  payload, and that reads back as the same rows, as many as the page index says.
\<close>

theorem materialized_rows_of_fallback:
  assumes m: "materialize_registered_page_payload crc resolver payload page logical physical descriptors dictionary_len = Ok (Some m)"
    and e: "registered_envelope_from_root crc payload = Ok e" "re_fallback_payload_length e \<noteq> 0"
    and lim: "length (pl_data payload) < usize_limit" "length (pl_data (mt_payload m)) < usize_limit"
    and kind: "physical \<in> {PK_Boolean, PK_NumCode, PK_FileCode, PK_FixedBytes, PK_VarBytes}"
      "physical = PK_Boolean \<Longrightarrow> logical_type_fixed_width logical = Some 1"
  shows "\<exists>fallback rows. parse_fallback_payload crc payload e page logical physical = Ok fallback \<and>
    column_payload_to_logical_page fallback page dictionary_len = Ok rows \<and>
    column_payload_to_logical_page (mt_payload m) page dictionary_len = Ok rows \<and>
    length (lp_values rows) = unat (column_page.cp_row_count page)"
proof -
  from m obtain root encoded fallback fallback_logical where r: "root_node payload = Ok root"
      "envelope_range payload (re_encoded_payload_offset e) (re_encoded_payload_length e) = Ok encoded"
    and f: "parse_fallback_payload crc payload e page logical physical = Ok fallback"
      "column_payload_to_logical_page fallback page dictionary_len = Ok fallback_logical"
    and c: "(case envelope_descriptor descriptors e of
         Some d \<Rightarrow>
           and_then (validate_descriptor_supports_page d logical physical) (\<lambda>_.
           with_decoded crc logical physical dictionary_len (Some fallback) (Some fallback_logical) (resolver d e encoded))
       | None \<Rightarrow> with_fallback (Some fallback)) = Ok (Some m)"
    using e by (auto simp: materialize_registered_page_payload_def ok_iffs split: if_splits)
  note n = column_rows_length [OF f(2) order.strict_trans1 [OF fallback_payload_length [OF f(1)] lim(1)]]
  have "mt_payload m = fallback \<or> logical_page_to_column_payload crc fallback_logical logical physical dictionary_len = Ok (mt_payload m)"
    using c by (auto simp: with_fallback_def with_decoded_def ok_iffs split: option.splits sum.splits exit.splits if_splits)
  then have "column_payload_to_logical_page (mt_payload m) page dictionary_len = Ok fallback_logical"
  proof
    assume w: "logical_page_to_column_payload crc fallback_logical logical physical dictionary_len = Ok (mt_payload m)"
    show ?thesis by (rule written_rows_read_back_core [OF w lim(2) n [symmetric] kind])
  qed (simp add: f(2))
  then show ?thesis using f n by blast
qed

text \<open>
  C13: A page that is written both ways, by a stable codec and as a core payload for the fallback,
  is read back whichever way the reader takes: a reader that knows the codec gets the codec's rows
  written as the very payload of the fallback, one that does not gets the fallback, and both read
  back as the rows that were written.
\<close>

theorem registered_page_roundtrip:
  assumes rows: "facade_encode codec page = Ok encoded"
      "logical_page_to_column_payload crc page logical physical dictionary_len = Ok core"
      "(length (lp_values page) + 1) * 4 < 2 ^ 32"
    and written: "build_registered_single_node crc (column_page.cp_row_count entry) (cp_non_null_count entry) logical physical
        (cd_codec_id d) (cd_version_major d) (cd_version_minor d) encoded (Some (pl_data core)) = Ok bs" "length bs < usize_limit"
    and descriptor: "names_codec codec d" "validate_descriptor_supports_page d logical physical = Ok ()"
      "validate_descriptor_set descriptors = Ok ()" "d \<in> set descriptors"
    and entry: "unat (column_page.cp_row_count entry) = length (lp_values page)"
      "cp_encoding_root entry = ucast (as_encoding_kind EK_RegisteredEncoding)"
    and kind: "physical \<in> {PK_Boolean, PK_NumCode, PK_FileCode, PK_FixedBytes, PK_VarBytes}"
      "physical = PK_Boolean \<Longrightarrow> logical_type_fixed_width logical = Some 1"
  shows "\<exists>payload. payload_parse crc bs = Ok payload \<and>
    materialize_registered_page_payload crc stable_resolver payload entry logical physical descriptors dictionary_len =
      Ok (Some \<lparr>mt_payload = core, mt_used_fallback = False\<rparr>) \<and>
    materialize_registered_page_payload crc no_resolver payload entry logical physical descriptors dictionary_len =
      Ok (Some \<lparr>mt_payload = core, mt_used_fallback = True\<rparr>) \<and>
    column_payload_to_logical_page core entry dictionary_len = Ok page"
  by (rule registered_page_roundtrip_core [OF rows written descriptor entry kind])

theorem registered_page_roundtrip_witness:
  "\<exists>bs payload. build_registered_single_node (\<lambda>_. 0) 2 1 LT_Utf8 PK_VarBytes 1 2 0 text_encoded (Some (pl_data text_core)) = Ok bs \<and>
     payload_parse (\<lambda>_. 0) bs = Ok payload \<and>
     materialize_registered_page_payload (\<lambda>_. 0) stable_resolver payload text_entry LT_Utf8 PK_VarBytes
       [facade_descriptor SC_FsstUtf8] None = Ok (Some \<lparr>mt_payload = text_core, mt_used_fallback = False\<rparr>) \<and>
     materialize_registered_page_payload (\<lambda>_. 0) no_resolver payload text_entry LT_Utf8 PK_VarBytes
       [facade_descriptor SC_FsstUtf8] None = Ok (Some \<lparr>mt_payload = text_core, mt_used_fallback = True\<rparr>) \<and>
     column_payload_to_logical_page text_core text_entry None = Ok text_page"
proof -
  obtain bs where bs: "build_registered_single_node (\<lambda>_. 0) 2 1 LT_Utf8 PK_VarBytes 1 2 0 text_encoded (Some (pl_data text_core)) = Ok bs"
    "length bs < usize_limit" by (rule text_registered)
  have w: "build_registered_single_node (\<lambda>_. 0) (column_page.cp_row_count text_entry) (cp_non_null_count text_entry) LT_Utf8 PK_VarBytes
      (cd_codec_id (facade_descriptor SC_FsstUtf8)) (cd_version_major (facade_descriptor SC_FsstUtf8))
      (cd_version_minor (facade_descriptor SC_FsstUtf8)) text_encoded (Some (pl_data text_core)) = Ok bs"
    using bs(1) by (simp add: text_facts text_entry_def)
  show ?thesis
    using registered_page_roundtrip [OF text_page_encoded text_page_written text_roundtrip_facts(3) w bs(2) names_facade_descriptor
        text_roundtrip_facts(4,5) _ text_roundtrip_facts(1,2)] bs(1) by auto
qed

theorem materialized_rows_of_fallback_witness:
  "\<exists>bs payload m fallback rows.
     build_registered_single_node (\<lambda>_. 0) 2 1 LT_Utf8 PK_VarBytes 1 2 0 text_encoded (Some (pl_data text_core)) = Ok bs \<and>
     payload_parse (\<lambda>_. 0) bs = Ok payload \<and>
     materialize_registered_page_payload (\<lambda>_. 0) stable_resolver payload text_entry LT_Utf8 PK_VarBytes
       [facade_descriptor SC_FsstUtf8] None = Ok (Some m) \<and> column_payload_to_logical_page (mt_payload m) text_entry None = Ok rows \<and>
     column_payload_to_logical_page fallback text_entry None = Ok rows \<and> length (lp_values rows) = 2"
proof -
  obtain bs where bs: "build_registered_single_node (\<lambda>_. 0) 2 1 LT_Utf8 PK_VarBytes 1 2 0 text_encoded (Some (pl_data text_core)) = Ok bs"
    "length bs < usize_limit" by (rule text_registered)
  have w: "build_registered_single_node (\<lambda>_. 0) (column_page.cp_row_count text_entry) (cp_non_null_count text_entry) LT_Utf8 PK_VarBytes
      (cd_codec_id (facade_descriptor SC_FsstUtf8)) (cd_version_major (facade_descriptor SC_FsstUtf8))
      (cd_version_minor (facade_descriptor SC_FsstUtf8)) text_encoded (Some (pl_data text_core)) = Ok bs"
    using bs(1) by (simp add: text_facts text_entry_def)
  have r: "\<exists>payload. payload_parse (\<lambda>_. 0) bs = Ok payload \<and>
    materialize_registered_page_payload (\<lambda>_. 0) stable_resolver payload text_entry LT_Utf8 PK_VarBytes [facade_descriptor SC_FsstUtf8] None =
      Ok (Some \<lparr>mt_payload = text_core, mt_used_fallback = False\<rparr>)"
    using registered_page_roundtrip_core [OF text_page_encoded text_page_written text_roundtrip_facts(3) w bs(2) names_facade_descriptor
        text_roundtrip_facts(4,5) _ text_roundtrip_facts(1,2)] by auto
  obtain payload where p: "payload_parse (\<lambda>_. 0) bs = Ok payload"
    "registered_envelope_from_root (\<lambda>_. 0) payload = Ok (written_envelope (\<lambda>_. 0) 2 1 1 2 0 text_encoded (pl_data text_core))"
    using build_registered_parses [OF bs] by blast
  have m: "materialize_registered_page_payload (\<lambda>_. 0) stable_resolver payload text_entry LT_Utf8 PK_VarBytes [facade_descriptor SC_FsstUtf8] None =
      Ok (Some \<lparr>mt_payload = text_core, mt_used_fallback = False\<rparr>)" using r p(1) by auto
  have "re_fallback_payload_length (written_envelope (\<lambda>_. 0) 2 1 1 2 0 text_encoded (pl_data text_core)) \<noteq> 0"
    by (simp add: written_envelope_def Let_def registered_envelope_for_def length_text_core)
  moreover have "pl_data payload = bs" using p(1) by (auto simp: payload_parse_def payload_parse_with_def ok_iffs)
  ultimately show ?thesis
    using materialized_rows_of_fallback [OF m p(2)] m p(1) bs length_text_core by (auto simp: usize_limit_def text_entry_def)
qed

end
