(* ===== verification/Page_Values.thy ===== *)
theory Page_Values
  imports Encoded_Array Page_Index
begin

text \<open>
  The rules for the values of a page (\<^verbatim>\<open>page_validation.rs\<close>), one per encoding. A page that
  passes them can be read whole. \<open>json\<close> is the acceptance of \<^verbatim>\<open>serde_json::from_slice\<close>.
\<close>

section \<open>Lengths\<close>

definition require_len :: "nat \<Rightarrow> nat \<Rightarrow> unit res" where
  "require_len actual expected = (if actual = expected then Ok () else Fail PageCorrupt)"

definition fixed_rows_len :: "u32 \<Rightarrow> nat \<Rightarrow> nat res" where
  "fixed_rows_len row_count width = ok_or ArithOverflow (checked_mul (unat row_count) width)"

definition page_bitmap_len :: "u32 \<Rightarrow> nat res" where
  "page_bitmap_len row_count = and_then (ok_or ArithOverflow (checked_add_word row_count 7)) (\<lambda>n. Ok (unat (n div 8)))"

primrec logical_fixed_width :: "logical_type \<Rightarrow> nat option" where
  "logical_fixed_width LT_Bool = Some 1"
| "logical_fixed_width LT_Int8 = Some 1"
| "logical_fixed_width LT_UInt8 = Some 1"
| "logical_fixed_width LT_Int16 = Some 2"
| "logical_fixed_width LT_UInt16 = Some 2"
| "logical_fixed_width LT_Int32 = Some 4"
| "logical_fixed_width LT_UInt32 = Some 4"
| "logical_fixed_width LT_Float32 = Some 4"
| "logical_fixed_width LT_DateDays = Some 4"
| "logical_fixed_width LT_Int64 = Some 8"
| "logical_fixed_width LT_UInt64 = Some 8"
| "logical_fixed_width LT_Float64 = Some 8"
| "logical_fixed_width LT_Decimal64 = Some 8"
| "logical_fixed_width LT_TimestampMicros = Some 8"
| "logical_fixed_width LT_TimestampNanos = Some 8"
| "logical_fixed_width LT_Decimal128 = Some 16"
| "logical_fixed_width LT_Uuid = Some 16"
| "logical_fixed_width LT_Null = None"
| "logical_fixed_width LT_Utf8 = None"
| "logical_fixed_width LT_Binary = None"
| "logical_fixed_width LT_Json = None"
| "logical_fixed_width LT_List = None"
| "logical_fixed_width LT_Struct = None"
| "logical_fixed_width LT_Map = None"

definition fixed_width_for :: "logical_type \<Rightarrow> physical_kind \<Rightarrow> nat res" where
  "fixed_width_for logical physical =
     (case physical of
        PK_Boolean \<Rightarrow> Ok 1
      | PK_NumCode \<Rightarrow> Ok 8
      | PK_FileCode \<Rightarrow> Ok 4
      | _ \<Rightarrow> ok_or (UnsupportedEncoding (''fixed-width page validation for '' @ logical_type_debug logical))
               (logical_fixed_width logical))"

section \<open>Single values\<close>

definition each_valid :: "('a \<Rightarrow> unit res) \<Rightarrow> 'a list \<Rightarrow> unit res" where
  "each_valid f xs = map_ok (\<lambda>_. ()) (try_map f xs)"

definition validate_filecode_value :: "dict_view option \<Rightarrow> u32 \<Rightarrow> unit res" where
  "validate_filecode_value dict code =
     (case dict of Some d \<Rightarrow> if view_len d \<le> code then Fail BadFileCode else Ok () | None \<Rightarrow> Ok ())"

definition validate_numcode :: "logical_type \<Rightarrow> physical_kind \<Rightarrow> u64 \<Rightarrow> unit res" where
  "validate_numcode logical physical code =
     (if logical = LT_Bool \<and> physical = PK_NumCode \<and> \<not> (code = 0 \<or> code = 1) then Fail PageCorrupt else Ok ())"

definition validate_boolean_bytes :: "bytes \<Rightarrow> unit res" where
  "validate_boolean_bytes vs = (if list_ex (\<lambda>b. \<not> (b = 0 \<or> b = 1)) vs then Fail PageCorrupt else Ok ())"

definition validate_varbytes_logical_value :: "(bytes \<Rightarrow> bool) \<Rightarrow> logical_type \<Rightarrow> bytes \<Rightarrow> unit res" where
  "validate_varbytes_logical_value json logical b =
     (case logical of
        LT_Utf8 \<Rightarrow> if utf8_valid b then Ok () else Fail PageCorrupt
      | LT_Json \<Rightarrow> if json b then Ok () else Fail PageCorrupt
      | LT_Binary \<Rightarrow> Ok ()
      | _ \<Rightarrow> Fail PageCorrupt)"

section \<open>The values of one encoding\<close>

definition validate_filecodes :: "bytes \<Rightarrow> u32 \<Rightarrow> dict_view option \<Rightarrow> unit res" where
  "validate_filecodes vs row_count dict =
     and_then (fixed_rows_len row_count 4) (\<lambda>n.
     and_then (require_len (length vs) n) (\<lambda>_.
     each_valid (\<lambda>chunk. and_then (read_u32_le_checked chunk 0) (validate_filecode_value dict)) (chunks_exact 4 vs)))"

definition validate_numcode_values :: "logical_type \<Rightarrow> bytes \<Rightarrow> u32 \<Rightarrow> unit res" where
  "validate_numcode_values logical vs row_count =
     and_then (fixed_rows_len row_count 8) (\<lambda>n.
     and_then (require_len (length vs) n) (\<lambda>_.
     if logical \<noteq> LT_Bool then Ok ()
     else each_valid (\<lambda>chunk. and_then (read_u64_le_checked chunk 0) (validate_numcode logical PK_NumCode)) (chunks_exact 8 vs)))"

definition validate_i64_values :: "i64 list \<Rightarrow> logical_type \<Rightarrow> physical_kind \<Rightarrow> u32 \<Rightarrow> dict_view option \<Rightarrow> unit res" where
  "validate_i64_values vs logical physical row_count dict =
     (if length vs \<noteq> unat row_count then Fail PageCorrupt
      else
        (case physical of
           PK_Boolean \<Rightarrow> if list_ex (\<lambda>v. \<not> (v = 0 \<or> v = 1)) vs then Fail PageCorrupt else Ok ()
         | PK_FileCode \<Rightarrow>
             each_valid (\<lambda>v. and_then (ok_or PageCorrupt (u32_try_from_i64 v)) (validate_filecode_value dict)) vs
         | PK_NumCode \<Rightarrow>
             each_valid (\<lambda>v. and_then (ok_or PageCorrupt (u64_try_from_i64 v)) (validate_numcode logical physical)) vs
         | _ \<Rightarrow> Ok ()))"

definition validate_local_codebook_value ::
    "(bytes \<Rightarrow> bool) \<Rightarrow> logical_type \<Rightarrow> physical_kind \<Rightarrow> dict_view option \<Rightarrow> local_codebook_value \<Rightarrow> unit res" where
  "validate_local_codebook_value json logical physical dict v =
     (case (physical, v) of
        (PK_FileCode, CV_FileCode code) \<Rightarrow> validate_filecode_value dict code
      | (PK_NumCode, CV_NumCode code) \<Rightarrow> validate_numcode logical physical code
      | (PK_Boolean, CV_Boolean _) \<Rightarrow> Ok ()
      | (PK_VarBytes, CV_VarBytes b) \<Rightarrow> validate_varbytes_logical_value json logical b
      | _ \<Rightarrow> Fail PageCorrupt)"

definition validate_local_codebook_values ::
    "(bytes \<Rightarrow> bool) \<Rightarrow> local_codebook_value list \<Rightarrow> logical_type \<Rightarrow> physical_kind \<Rightarrow> dict_view option \<Rightarrow> unit res" where
  "validate_local_codebook_values json vs logical physical dict =
     each_valid (validate_local_codebook_value json logical physical dict) vs"

primrec validate_u32_rows_loop :: "(bytes \<Rightarrow> bool) \<Rightarrow> logical_type \<Rightarrow> bytes \<Rightarrow> nat \<Rightarrow> nat \<Rightarrow> nat res" where
  "validate_u32_rows_loop json logical vs 0 pos = Ok pos"
| "validate_u32_rows_loop json logical vs (Suc n) pos =
     and_then (ok_or ArithOverflow (checked_add pos 4)) (\<lambda>len_end.
     if length vs < len_end then Fail BufferTooShort
     else
       and_then (read_u32_le_checked vs pos) (\<lambda>len.
       and_then (ok_or ArithOverflow (checked_add len_end (unat len))) (\<lambda>value_end.
       if length vs < value_end then Fail BufferTooShort
       else
         and_then (slice vs len_end value_end) (\<lambda>b.
         and_then (validate_varbytes_logical_value json logical b) (\<lambda>_.
         validate_u32_rows_loop json logical vs n value_end)))))"

definition validate_length_prefixed_u32_rows :: "(bytes \<Rightarrow> bool) \<Rightarrow> logical_type \<Rightarrow> bytes \<Rightarrow> u32 \<Rightarrow> unit res" where
  "validate_length_prefixed_u32_rows json logical vs row_count =
     and_then (validate_u32_rows_loop json logical vs (unat row_count) 0) (\<lambda>pos. require_len pos (length vs))"

definition validate_varint_value :: "logical_type \<Rightarrow> physical_kind \<Rightarrow> dict_view option \<Rightarrow> u64 \<Rightarrow> unit res" where
  "validate_varint_value logical physical dict v =
     (case physical of
        PK_FileCode \<Rightarrow>
          and_then (ok_or PageCorrupt (if unat v < 2 ^ 32 then Some (ucast v) else None)) (validate_filecode_value dict)
      | PK_NumCode \<Rightarrow> validate_numcode logical physical v
      | _ \<Rightarrow> Ok ())"

primrec validate_varint_loop ::
    "logical_type \<Rightarrow> physical_kind \<Rightarrow> dict_view option \<Rightarrow> bytes \<Rightarrow> nat \<Rightarrow> nat \<Rightarrow> nat res" where
  "validate_varint_loop logical physical dict vs 0 pos = Ok pos"
| "validate_varint_loop logical physical dict vs (Suc n) pos =
     and_then (slice_from vs pos) (\<lambda>tail.
     and_then (decode_u64_leb128 tail) (\<lambda>(v, consumed).
     and_then (ok_or ArithOverflow (checked_add pos consumed)) (\<lambda>pos.
     and_then (validate_varint_value logical physical dict v) (\<lambda>_.
     validate_varint_loop logical physical dict vs n pos))))"

definition validate_plain_varint_values ::
    "logical_type \<Rightarrow> physical_kind \<Rightarrow> bytes \<Rightarrow> u32 \<Rightarrow> dict_view option \<Rightarrow> unit res" where
  "validate_plain_varint_values logical physical vs row_count dict =
     and_then (validate_varint_loop logical physical dict vs (unat row_count) 0) (\<lambda>pos. require_len pos (length vs))"

primrec validate_canonical_loop :: "(bytes \<Rightarrow> bool) \<Rightarrow> logical_type \<Rightarrow> bytes \<Rightarrow> nat \<Rightarrow> nat \<Rightarrow> nat res" where
  "validate_canonical_loop json logical vs 0 pos = Ok pos"
| "validate_canonical_loop json logical vs (Suc n) pos =
     and_then (slice_from vs pos) (\<lambda>tail.
     and_then (decode_u64_leb128 tail) (\<lambda>(len, consumed).
     and_then (expected_row_count len) (\<lambda>len.
     and_then (ok_or ArithOverflow (checked_add pos consumed)) (\<lambda>value_start.
     and_then (ok_or ArithOverflow (canonical_next pos consumed len)) (\<lambda>pos.
     if length vs < pos then Fail BufferTooShort
     else
       and_then (slice vs value_start pos) (\<lambda>b.
       and_then (validate_varbytes_logical_value json logical b) (\<lambda>_.
       validate_canonical_loop json logical vs n pos)))))))"

definition validate_canonical_rows :: "(bytes \<Rightarrow> bool) \<Rightarrow> bytes \<Rightarrow> logical_type \<Rightarrow> u32 \<Rightarrow> unit res" where
  "validate_canonical_rows json vs logical row_count =
     (if logical = LT_Null then require_len (length vs) 0
      else if logical = LT_Bool then Fail (UnsupportedEncoding ''Canonical Bool rows require an explicit value-tag stream'')
      else if logical \<in> {LT_Utf8, LT_Binary, LT_Json} then
        and_then (validate_canonical_loop json logical vs (unat row_count) 0) (\<lambda>pos. require_len pos (length vs))
      else
        and_then (fixed_width_for logical PK_FixedBytes) (\<lambda>width.
        and_then (fixed_rows_len row_count width) (\<lambda>n. require_len (length vs) n)))"

text \<open>The length the encoder of a payload would give; the parser accepts trailing bytes.\<close>

definition run_end_len :: "run_end_payload \<Rightarrow> nat res" where
  "run_end_len p = ok_or ArithOverflow (Option.bind (checked_mul (length (re_values p)) 12) (checked_add 4))"

definition patched_base_len :: "patched_base_payload \<Rightarrow> nat res" where
  "patched_base_len p =
     ok_or ArithOverflow
       (Option.bind (checked_mul (length (pb_base p)) 8) (\<lambda>b.
        Option.bind (checked_add 4 b) (\<lambda>v.
        Option.bind (checked_add v 4) (\<lambda>v.
        Option.bind (checked_mul (length (pb_patches p)) 12) (\<lambda>patch_len. checked_add v patch_len)))))"

definition sparse_len :: "sparse_payload \<Rightarrow> nat res" where
  "sparse_len p = ok_or ArithOverflow (Option.bind (checked_mul (length (sp_overrides p)) 12) (checked_add 16))"

definition validate_values_buffer ::
    "(bytes \<Rightarrow> bool) \<Rightarrow> logical_type \<Rightarrow> physical_kind \<Rightarrow> encoding_kind \<Rightarrow> u32 \<Rightarrow> bytes \<Rightarrow> dict_view option \<Rightarrow> unit res" where
  "validate_values_buffer json logical physical kind row_count vs dict =
     (let i64_values = (\<lambda>decoded. and_then decoded (\<lambda>xs. validate_i64_values xs logical physical row_count dict)) in
      case kind of
        EK_FileCode \<Rightarrow> validate_filecodes vs row_count dict
      | EK_NumCode \<Rightarrow> validate_numcode_values logical vs row_count
      | EK_PlainFixed \<Rightarrow>
          and_then (fixed_width_for logical physical) (\<lambda>width.
          and_then (fixed_rows_len row_count width) (\<lambda>n.
          and_then (require_len (length vs) n) (\<lambda>_.
          and_then (if physical = PK_Boolean then validate_boolean_bytes vs else Ok ()) (\<lambda>_.
          if physical = PK_NumCode then validate_numcode_values logical vs row_count else Ok ()))))
      | EK_VarBytes \<Rightarrow> validate_length_prefixed_u32_rows json logical vs row_count
      | EK_PlainVarint \<Rightarrow> validate_plain_varint_values logical physical vs row_count dict
      | EK_Canonical \<Rightarrow> validate_canonical_rows json vs logical row_count
      | EK_Constant \<Rightarrow>
          and_then (require_len (length vs) CONSTANT_ENCODED_LEN) (\<lambda>_.
          and_then (constant_parse vs) (\<lambda>p.
          if constant_payload.cp_row_count p \<noteq> ucast row_count then Fail PageCorrupt
          else if physical = PK_Boolean \<and> \<not> (cp_value p = 0 \<or> cp_value p = 1) then Fail PageCorrupt
          else
            and_then (if physical = PK_FileCode
                      then and_then (ok_or PageCorrupt (u32_try_from_i64 (cp_value p))) (validate_filecode_value dict)
                      else Ok ()) (\<lambda>_.
            if physical = PK_NumCode then validate_numcode logical physical (constant_raw_value_bits p) else Ok ())))
      | EK_LocalCodebook \<Rightarrow>
          and_then (local_codebook_parse vs) (\<lambda>p.
          and_then (require_len (length vs) (length (local_codebook_encode p))) (\<lambda>_.
          and_then (local_codebook_decode_values p) (\<lambda>decoded.
          if length decoded \<noteq> unat row_count then Fail PageCorrupt
          else validate_local_codebook_values json decoded logical physical dict)))
      | EK_Rle \<Rightarrow>
          and_then (rle_parse vs) (\<lambda>p.
          and_then (require_len (length vs) (length (rle_encode p))) (\<lambda>_. i64_values (rle_fast_decode p)))
      | EK_RunEnd \<Rightarrow>
          and_then (run_end_parse vs) (\<lambda>p.
          and_then (run_end_len p) (\<lambda>expected.
          and_then (require_len (length vs) expected) (\<lambda>_. i64_values (run_end_decode p))))
      | EK_BitPacked \<Rightarrow>
          and_then (bit_packed_parse vs) (\<lambda>p.
          and_then (ok_or ArithOverflow (checked_add 9 (length (bp_bits p)))) (\<lambda>expected.
          and_then (require_len (length vs) expected) (\<lambda>_.
          if bp_row_count p \<noteq> row_count then Fail PageCorrupt else i64_values (bit_packed_fast_decode p))))
      | EK_Delta \<Rightarrow>
          and_then (delta_parse vs) (\<lambda>p.
          and_then (require_len (length vs) (length (delta_encode p))) (\<lambda>_. i64_values (delta_decode p)))
      | EK_FrameOfReference \<Rightarrow>
          and_then (for_parse vs) (\<lambda>p.
          and_then (require_len (length vs) (length (for_encode p))) (\<lambda>_. i64_values (for_decode p)))
      | EK_PatchedBase \<Rightarrow>
          and_then (patched_base_parse vs) (\<lambda>p.
          and_then (patched_base_len p) (\<lambda>expected.
          and_then (require_len (length vs) expected) (\<lambda>_. i64_values (patched_base_decode p))))
      | EK_Sparse \<Rightarrow>
          and_then (sparse_parse vs) (\<lambda>p.
          and_then (sparse_len p) (\<lambda>expected.
          and_then (require_len (length vs) expected) (\<lambda>_. i64_values (sparse_decode p))))
      | _ \<Rightarrow> Fail (UnsupportedEncoding (encoding_kind_debug kind)))"

section \<open>A validated page can be read\<close>

lemma each_valid_iff: "each_valid f xs = Inr u \<longleftrightarrow> (\<forall>x \<in> set xs. f x = Inr ())"
proof -
  have "try_map f xs = Inr ys \<Longrightarrow> \<forall>x \<in> set xs. f x = Inr ()" for ys
    by (induction xs arbitrary: ys) (auto simp: and_then_eq_Inr_iff)
  moreover have "\<forall>x \<in> set xs. f x = Inr () \<Longrightarrow> try_map f xs = Inr (map (\<lambda>_. ()) xs)"
    by (rule try_map_Ok) simp
  ultimately show ?thesis by (auto simp: each_valid_def ok_iffs)
qed

lemma require_len_iff: "require_len a e = Inr u \<longleftrightarrow> a = e"
  by (simp add: require_len_def)

lemma fixed_rows_len_iff: "fixed_rows_len n w = Inr k \<longleftrightarrow> unat n * w < usize_limit \<and> k = unat n * w"
  by (auto simp: fixed_rows_len_def ok_iffs checked_mul_eq_Some_iff)

lemma logical_fixed_width_eq: "logical_fixed_width t = logical_type_fixed_width t"
  by (cases t) simp_all

lemma fixed_width_FixedBytes: "fixed_width_for t PK_FixedBytes = Inr w \<longleftrightarrow> logical_type_fixed_width t = Some w"
  by (simp add: fixed_width_for_def ok_iffs logical_fixed_width_eq)

definition code_in_dictionary :: "dict_view option \<Rightarrow> array_value \<Rightarrow> bool" where
  "code_in_dictionary dict v \<longleftrightarrow> (case v of AV_FileCode code \<Rightarrow> validate_filecode_value dict code = Ok () | _ \<Rightarrow> True)"

lemma row_or_null_covered:
  assumes "rows_covered a" "i < unat (ea_row_count a)" "code_in_dictionary dict v"
  obtains x where "row_or_null a (of_nat i) (Inr v) = Inr x" "code_in_dictionary dict x"
proof -
  obtain b where b: "array_is_null a (of_nat i) = Inr b" using assms(1,2) by (auto simp: rows_covered_def is_ok_iff)
  have "row_or_null a (of_nat i) (Inr v) = Inr (if b then AV_Null else v)" by (simp add: row_or_null_def b)
  moreover have "code_in_dictionary dict (if b then AV_Null else v)" using assms(3) by (simp add: code_in_dictionary_def)
  ultimately show ?thesis by (rule that)
qed

lemma rows_collected:
  assumes c: "rows_covered a" and v: "\<And>i. i < unat (ea_row_count a) \<Longrightarrow> \<exists>v. f i = Inr v \<and> code_in_dictionary dict v"
  shows "\<exists>out. try_map (\<lambda>i. row_or_null a (of_nat i) (f i)) [0..<unat (ea_row_count a)] = Inr out \<and> list_all (code_in_dictionary dict) out"
proof -
  have "\<exists>x. row_or_null a (of_nat i) (f i) = Inr x \<and> code_in_dictionary dict x" if "i < unat (ea_row_count a)" for i
    using v [OF that] row_or_null_covered [OF c that] by metis
  then obtain g where g: "\<And>i. i < unat (ea_row_count a) \<Longrightarrow> row_or_null a (of_nat i) (f i) = Inr (g i) \<and> code_in_dictionary dict (g i)"
    by metis
  then have "try_map (\<lambda>i. row_or_null a (of_nat i) (f i)) [0..<unat (ea_row_count a)] = Inr (map g [0..<unat (ea_row_count a)])"
    by (intro try_map_Ok) simp
  then show ?thesis using g by (auto simp: list_all_iff)
qed

lemma collected_rows:
  assumes "rows_covered a" "\<And>i. i < unat (ea_row_count a) \<Longrightarrow> \<exists>v. decode_present_row a (of_nat i) = Inr v \<and> code_in_dictionary dict v"
  shows "\<exists>out. collect_rows a (decode_present_row a) = Inr out \<and> list_all (code_in_dictionary dict) out"
  using rows_collected [OF assms] by (simp add: collect_rows_def array_rows_def try_map_map)

lemma enumerated_rows_collected:
  assumes "rows_covered a" "length xs = unat (ea_row_count a)" "\<And>x. x \<in> set xs \<Longrightarrow> \<exists>v. f x = Inr v \<and> code_in_dictionary dict v"
  shows "\<exists>out. try_map (\<lambda>(row, v). row_or_null a (of_nat row) (f v)) (enumerate 0 xs) = Inr out \<and> list_all (code_in_dictionary dict) out"
proof -
  have "enumerate 0 xs = map (\<lambda>i. (i, xs ! i)) [0..<length xs]" by (rule nth_equalityI) (simp_all add: nth_enumerate_eq)
  then have "try_map (\<lambda>(row, v). row_or_null a (of_nat row) (f v)) (enumerate 0 xs) =
      try_map (\<lambda>i. row_or_null a (of_nat i) (f (xs ! i))) [0..<unat (ea_row_count a)]"
    by (simp add: try_map_map assms(2))
  moreover have "\<exists>v. f (xs ! i) = Inr v \<and> code_in_dictionary dict v" if "i < unat (ea_row_count a)" for i
    using assms(2,3) that by simp
  ultimately show ?thesis using rows_collected [OF assms(1), of "\<lambda>i. f (xs ! i)" dict] by simp
qed

lemma i64_row_valid:
  assumes "validate_i64_values xs logical physical n dict = Inr u" "ea_physical a = physical" "ea_dictionary a = None" "x \<in> set xs"
  shows "\<exists>v. value_from_i64 a x = Inr v \<and> code_in_dictionary dict v"
  using assms
  by (cases physical)
    (auto simp: validate_i64_values_def value_from_i64_def each_valid_iff ok_iffs list_ex_iff code_value_def code_in_dictionary_def
      split: if_splits)

lemma i64_rows_valid:
  assumes v: "validate_i64_values xs logical physical n dict = Inr u"
    and a: "ea_physical a = physical" "ea_dictionary a = None" "ea_row_count a = ucast n" and c: "rows_covered a"
  shows "\<exists>out. values_from_i64_values a xs = Inr out \<and> list_all (code_in_dictionary dict) out"
proof -
  have l: "length xs = unat (ea_row_count a)" using v a(3) by (simp add: validate_i64_values_def unat_ucast_32_64 split: if_splits)
  show ?thesis
    using enumerated_rows_collected [OF c l, of "value_from_i64 a" dict] i64_row_valid [OF v a(1,2)] l
    by (simp add: values_from_i64_values_def)
qed

lemma codebook_rows_valid:
  assumes v: "validate_local_codebook_values json xs logical physical dict = Inr u" and l: "length xs = unat (ea_row_count a)"
    and a: "ea_physical a = physical" "ea_dictionary a = None" and c: "rows_covered a"
  shows "\<exists>out. values_from_local_codebook_values a xs = Inr out \<and> list_all (code_in_dictionary dict) out"
proof -
  have "\<exists>v. value_from_local_codebook a x = Inr v \<and> code_in_dictionary dict v" if "x \<in> set xs" for x
  proof -
    have "validate_local_codebook_value json logical physical dict x = Inr ()"
      using v that by (simp add: validate_local_codebook_values_def each_valid_iff)
    then show ?thesis
      using a by (cases x; cases physical) (simp_all add: validate_local_codebook_value_def code_value_def code_in_dictionary_def)
  qed
  then show ?thesis
    using enumerated_rows_collected [OF c l] l by (simp add: values_from_local_codebook_values_def)
qed

subsection \<open>Rows of variable width\<close>

lemma variable_rows_valid:
  assumes lim: "length (ea_data a) < usize_limit"
    and step: "\<And>n p q. loop (Suc n) p = Inr q \<Longrightarrow> \<exists>v p'. item_at k (ea_data a) p = Some (v, p') \<and> code_in_dictionary dict v \<and> loop n p' = Inr q"
    and c: "rows_covered a"
  shows "loop n p = Inr q \<Longrightarrow> i + n \<le> unat (ea_row_count a) \<Longrightarrow>
    \<exists>out. variable_rows k a p (map of_nat [i..<i + n]) = Inr out \<and> list_all (code_in_dictionary dict) out"
proof (induction n arbitrary: i p)
  case 0
  then show ?case by (cases k) (simp_all add: variable_rows_def)
next
  case (Suc n)
  from step [OF Suc.prems(1)] obtain v p' where v: "item_at k (ea_data a) p = Some (v, p')" "code_in_dictionary dict v" "loop n p' = Inr q"
    by blast
  obtain x where x: "row_or_null a (of_nat i) (Inr v) = Inr x" "code_in_dictionary dict x"
    using row_or_null_covered [OF c _ v(2), of i] Suc.prems(2) by auto
  from Suc.IH [OF v(3), of "Suc i"] Suc.prems(2) obtain out where
    out: "variable_rows k a p' (map of_nat [Suc i..<Suc i + n]) = Inr out" "list_all (code_in_dictionary dict) out" by auto
  have r: "map of_nat [i..<i + Suc n] = of_nat i # map of_nat [Suc i..<Suc i + n]" using upt_conv_Cons [of i "i + Suc n"] by (simp del: upt_Suc)
  show ?case unfolding r variable_rows_step [OF lim] using v x out by auto
qed

lemma u32_rows_step:
  assumes "validate_u32_rows_loop json logical vs (Suc n) p = Inr q" "length vs < usize_limit"
  shows "\<exists>v p'. item_at VO_VarBytes vs p = Some (v, p') \<and> code_in_dictionary dict v \<and> validate_u32_rows_loop json logical vs n p' = Inr q"
  using assms
  by (auto simp: ok_iffs checked_add_eq_Some_iff read_words_Ok_iff item_at_def Let_def code_in_dictionary_def not_less)

lemma varint_step:
  assumes "validate_varint_loop logical physical dict vs (Suc n) p = Inr q" "length vs < usize_limit"
  shows "\<exists>v p'. item_at VO_PlainVarint vs p = Some (v, p') \<and> code_in_dictionary d v \<and> validate_varint_loop logical physical dict vs n p' = Inr q"
proof -
  from assms(1) obtain v consumed where h: "p \<le> length vs" "decode_u64_leb128 (drop p vs) = Inr (v, consumed)"
    "validate_varint_loop logical physical dict vs n (p + consumed) = Inr q"
    by (auto simp: ok_iffs checked_add_eq_Some_iff)
  have "p < length vs"
  proof (rule ccontr)
    assume "\<not> p < length vs"
    then have "drop p vs = []" by simp
    then show False using h(2) decode_u64_leb128_Ok [of "[]" v consumed] by simp
  qed
  then show ?thesis using h by (simp add: item_at_def code_in_dictionary_def)
qed

lemma canonical_step:
  assumes "validate_canonical_loop json logical vs (Suc n) p = Inr q" "length vs < usize_limit"
  shows "\<exists>v p'. item_at VO_CanonicalLengthPrefixed vs p = Some (v, p') \<and> code_in_dictionary d v \<and> validate_canonical_loop json logical vs n p' = Inr q"
  using assms
  by (auto simp: ok_iffs checked_add_eq_Some_iff canonical_next_def bind_eq_Some_conv item_at_def code_in_dictionary_def not_less)

subsection \<open>The encodings, one by one\<close>

text \<open>
  What the reader needs of the values; \<^verbatim>\<open>PlainFixed\<close> rows are validated with the width of the
  physical kind and read with the width of the logical type, so the two must agree.
\<close>

definition widths_agree :: "logical_type \<Rightarrow> physical_kind \<Rightarrow> encoding_kind \<Rightarrow> bool" where
  "widths_agree logical physical kind \<longleftrightarrow>
     (kind = EK_PlainFixed \<longrightarrow> (\<exists>w. fixed_width_for logical physical = Ok w \<and> logical_type_fixed_width logical = Some w))"

definition page_array_for :: "encoded_array \<Rightarrow> logical_type \<Rightarrow> physical_kind \<Rightarrow> encoding_kind \<Rightarrow> u32 \<Rightarrow> bytes \<Rightarrow> bool" where
  "page_array_for a logical physical kind n vs \<longleftrightarrow>
     ea_logical a = logical \<and> ea_physical a = physical \<and> ea_encoding a = kind \<and> ea_row_count a = ucast n \<and> ea_data a = vs \<and>
     ea_dictionary a = None \<and> rows_covered a \<and> length vs < usize_limit"

lemma page_array_for_fields:
  assumes "page_array_for a logical physical kind n vs"
  shows "ea_logical a = logical" "ea_physical a = physical" "ea_encoding a = kind" "ea_row_count a = ucast n" "ea_data a = vs"
    "ea_dictionary a = None" "rows_covered a" "length (ea_data a) < usize_limit" "unat (ea_row_count a) = unat n"
  using assms by (simp_all add: page_array_for_def unat_ucast_32_64)

lemma fixed_rows_at:
  assumes "length vs = unat n * w" "length vs < usize_limit" "i < unat n"
  shows "checked_mul i w = Some (i * w)" "i * w + w \<le> length vs" "read_range_checked vs (i * w) w = Inr (sub vs (i * w) w)"
proof -
  have "(i + 1) * w \<le> unat n * w" using assms(3) by (intro mult_le_mono1) simp
  then show k: "i * w + w \<le> length vs" using assms(1) by (simp add: algebra_simps)
  show "checked_mul i w = Some (i * w)" "read_range_checked vs (i * w) w = Inr (sub vs (i * w) w)"
    using k assms(2) by (simp_all add: checked_mul_def read_range_Ok)
qed

lemma chunk_in_chunks:
  assumes "length vs = unat n * w" "i < unat n" "0 < w"
  shows "sub vs (i * w) w \<in> set (chunks_exact w vs)"
  using assms by (auto simp: chunks_exact_def)

lemma direct_rows_valid:
  assumes v: "validate_values_buffer json logical physical kind n vs dict = Inr u" and a: "page_array_for a logical physical kind n vs"
    and w: "widths_agree logical physical kind" and k: "kind \<in> {EK_FileCode, EK_NumCode, EK_PlainFixed, EK_Constant}"
  shows "\<exists>out. decode_all_rows a = Inr out \<and> list_all (code_in_dictionary dict) out"
proof -
  note f = page_array_for_fields [OF a]
  have lim: "length vs < usize_limit" using f(5,8) by simp
  have u: "unat (of_nat i :: u64) = i" if "i < unat n" for i using u64_of_nat [of i "ea_row_count a"] that f(9) by simp
  have d: "decode_all_rows a = collect_rows a (decode_present_row a)"
    using k by (auto simp: decode_all_rows_def f(3) cascade_values_def)
  have "\<exists>v. decode_present_row a (of_nat i) = Inr v \<and> code_in_dictionary dict v" if "i < unat (ea_row_count a)" for i
  proof -
    have i: "i < unat n" using that f(9) by simp
    from k consider (fc) "kind = EK_FileCode" | (nc) "kind = EK_NumCode" | (pf) "kind = EK_PlainFixed" | (co) "kind = EK_Constant" by blast
    then show ?thesis
    proof cases
      case fc
      then have h: "length vs = unat n * 4" "\<And>c. c \<in> set (chunks_exact 4 vs) \<Longrightarrow>
          and_then (read_u32_le_checked c 0) (validate_filecode_value dict) = Inr ()"
        using v by (auto simp: validate_values_buffer_def validate_filecodes_def ok_iffs fixed_rows_len_iff require_len_iff each_valid_iff)
      note r = fixed_rows_at [OF h(1) lim i]
      have c: "validate_filecode_value dict (of_le (sub vs (i * 4) 4)) = Inr ()"
        using h(2) [OF chunk_in_chunks [OF h(1) i]] r(2) by (simp add: read_words_Ok length_sub usize_limit_def sub_all)
      show ?thesis
        using r lim c by (simp add: decode_present_row_def f(3,5,6) fc u [OF i] read_words_Ok code_value_def code_in_dictionary_def)
    next
      case nc
      then have h: "length vs = unat n * 8"
        using v by (auto simp: validate_values_buffer_def validate_numcode_values_def ok_iffs fixed_rows_len_iff require_len_iff)
      show ?thesis
        using fixed_rows_at [OF h lim i] lim
        by (simp add: decode_present_row_def f(3,5) nc u [OF i] read_words_Ok code_in_dictionary_def)
    next
      case pf
      obtain wd where wd: "fixed_width_for logical physical = Ok wd" "logical_type_fixed_width logical = Some wd"
        using w pf by (auto simp: widths_agree_def)
      have h: "length vs = unat n * wd"
        using v wd(1) pf by (auto simp: validate_values_buffer_def ok_iffs fixed_rows_len_iff require_len_iff)
      show ?thesis
        using fixed_rows_at [OF h lim i] wd(2) by (simp add: decode_present_row_def f(1,3,5) pf u [OF i] code_in_dictionary_def)
    next
      case co
      then obtain p where p: "constant_parse vs = Inr p" "constant_payload.cp_row_count p = ucast n"
        "\<not> (physical = PK_Boolean \<and> \<not> (cp_value p = 0 \<or> cp_value p = 1))"
        "(if physical = PK_FileCode then and_then (ok_or PageCorrupt (u32_try_from_i64 (cp_value p))) (validate_filecode_value dict) else Ok ()) = Inr ()"
        "(if physical = PK_NumCode then validate_numcode logical physical (constant_raw_value_bits p) else Ok ()) = Inr ()"
        using v by (auto simp: validate_values_buffer_def ok_iffs)
      show ?thesis
        using p f
        by (cases physical)
          (auto simp: decode_present_row_def co value_from_constant_payload_def value_from_i64_def validate_numcode_def Let_def ok_iffs
            code_value_def code_in_dictionary_def split: if_splits)
    qed
  qed
  then show ?thesis unfolding d by (rule collected_rows [OF f(7)])
qed

lemma cascade_rows_valid:
  assumes v: "validate_values_buffer json logical physical kind n vs dict = Inr u" and a: "page_array_for a logical physical kind n vs"
    and k: "kind \<in> {EK_Rle, EK_RunEnd, EK_BitPacked, EK_Delta, EK_FrameOfReference, EK_PatchedBase, EK_Sparse}"
  shows "\<exists>out. decode_all_rows a = Inr out \<and> list_all (code_in_dictionary dict) out"
proof -
  note f = page_array_for_fields [OF a]
  obtain xs where x: "cascade_values kind vs = Some (Inr xs)" "validate_i64_values xs logical physical n dict = Inr ()"
    using v k by (auto simp: validate_values_buffer_def Let_def cascade_values_def ok_iffs)
  have "decode_all_rows a = values_from_i64_values a xs"
    using x(1) k by (auto simp: decode_all_rows_def f(3,5))
  then show ?thesis using i64_rows_valid [OF x(2) f(2,6,4,7)] by simp
qed

lemma other_rows_valid:
  assumes v: "validate_values_buffer json logical physical kind n vs dict = Inr u" and a: "page_array_for a logical physical kind n vs"
    and k: "kind \<in> {EK_VarBytes, EK_PlainVarint, EK_LocalCodebook, EK_Canonical}"
  shows "\<exists>out. decode_all_rows a = Inr out \<and> list_all (code_in_dictionary dict) out"
proof -
  note f = page_array_for_fields [OF a]
  have lim: "length vs < usize_limit" using f(5,8) by simp
  have rows: "array_rows a = map of_nat [0..<0 + unat n]" by (simp add: array_rows_def f(9))
  have le: "0 + unat n \<le> unat (ea_row_count a)" by (simp add: f(9))
  from k consider (vb) "kind = EK_VarBytes" | (pv) "kind = EK_PlainVarint" | (lc) "kind = EK_LocalCodebook" | (ca) "kind = EK_Canonical" by blast
  then show ?thesis
  proof cases
    case vb
    then obtain q where q: "validate_u32_rows_loop json logical vs (unat n) 0 = Inr q"
      using v by (auto simp: validate_values_buffer_def validate_length_prefixed_u32_rows_def ok_iffs)
    have "\<exists>out. variable_rows VO_VarBytes a 0 (array_rows a) = Inr out \<and> list_all (code_in_dictionary dict) out"
      unfolding rows
      by (rule variable_rows_valid [where loop = "validate_u32_rows_loop json logical vs", OF f(8) _ f(7) q le]) (use u32_rows_step lim f(5) in blast)
    then show ?thesis by (simp add: decode_all_rows_def f(3) vb decode_all_varbytes_rows_def variable_rows_def)
  next
    case pv
    then obtain q where q: "validate_varint_loop logical physical dict vs (unat n) 0 = Inr q"
      using v by (auto simp: validate_values_buffer_def validate_plain_varint_values_def ok_iffs)
    have "\<exists>out. variable_rows VO_PlainVarint a 0 (array_rows a) = Inr out \<and> list_all (code_in_dictionary dict) out"
      unfolding rows
      by (rule variable_rows_valid [where loop = "validate_varint_loop logical physical dict vs", OF f(8) _ f(7) q le]) (use varint_step lim f(5) in blast)
    then show ?thesis by (simp add: decode_all_rows_def f(3) pv decode_all_plain_varint_rows_def variable_rows_def)
  next
    case lc
    then obtain p xs where p: "local_codebook_parse vs = Inr p" "local_codebook_decode_values p = Inr xs" "length xs = unat n"
      "validate_local_codebook_values json xs logical physical dict = Inr ()"
      using v by (auto simp: validate_values_buffer_def ok_iffs)
    show ?thesis
      using codebook_rows_valid [OF p(4) _ f(2,6,7)] p(3) by (simp add: decode_all_rows_def f(3,5,9) lc p(1,2))
  next
    case ca
    then have c: "validate_canonical_rows json vs logical n = Inr u" using v by (simp add: validate_values_buffer_def)
    consider (null) "logical = LT_Null" | (str) "logical \<in> {LT_Utf8, LT_Binary, LT_Json}"
      | (fixed) w where "logical \<noteq> LT_Null" "logical \<noteq> LT_Bool" "logical \<notin> {LT_Utf8, LT_Binary, LT_Json}" "logical_type_fixed_width logical = Some w"
          "length vs = unat n * w"
      using c by (auto simp: validate_canonical_rows_def ok_iffs require_len_iff fixed_rows_len_iff
          fixed_width_FixedBytes [unfolded ok_iffs] split: if_splits)
    then show ?thesis
    proof cases
      case null
      then show ?thesis by (simp add: decode_all_rows_def f(1,3) ca decode_all_canonical_rows_def code_in_dictionary_def list_all_iff)
    next
      case str
      then obtain q where q: "validate_canonical_loop json logical vs (unat n) 0 = Inr q"
        using c by (auto simp: validate_canonical_rows_def ok_iffs)
      have "\<exists>out. variable_rows VO_CanonicalLengthPrefixed a 0 (array_rows a) = Inr out \<and> list_all (code_in_dictionary dict) out"
        unfolding rows
        by (rule variable_rows_valid [where loop = "validate_canonical_loop json logical vs", OF f(8) _ f(7) q le]) (use canonical_step lim f(5) in blast)
      then show ?thesis
        using str by (auto simp: decode_all_rows_def f(1,3) ca decode_all_canonical_rows_def
            decode_all_canonical_length_prefixed_rows_def variable_rows_def)
    next
      case fixed
      let ?g = "\<lambda>row. and_then (ok_or ArithOverflow (checked_mul (unat row) w)) (\<lambda>offset.
            and_then (read_range_checked (ea_data a) offset w) (\<lambda>raw. row_or_null a row (Ok (AV_Bytes raw))))"
      have "decode_all_rows a = try_map ?g (array_rows a)"
        using fixed(1-4) unfolding decode_all_rows_def f(1,3) ca decode_all_canonical_rows_def
        by (cases logical) (simp_all del: logical_type_debug.simps)
      also have "\<dots> = try_map (\<lambda>i. row_or_null a (of_nat i) (Inr (AV_Bytes (sub vs (i * w) w)))) [0..<unat (ea_row_count a)]"
        unfolding array_rows_def try_map_map
      proof (rule try_map_cong [OF refl])
        fix i assume "i \<in> set [0..<unat (ea_row_count a)]"
        then have i: "i < unat n" by (simp add: f(9))
        have "unat (of_nat i :: u64) = i" using u64_of_nat [of i "ea_row_count a"] i f(9) by simp
        then show "?g (of_nat i) = row_or_null a (of_nat i) (Inr (AV_Bytes (sub vs (i * w) w)))"
          using fixed_rows_at [OF fixed(5) lim i] by (simp add: f(5))
      qed
      finally show ?thesis using rows_collected [OF f(7), of "\<lambda>i. Inr (AV_Bytes (sub vs (i * w) w))" dict] by (simp add: code_in_dictionary_def)
    qed
  qed
qed

lemma validated_rows:
  assumes v: "validate_values_buffer json logical physical kind n vs dict = Inr u" and a: "page_array_for a logical physical kind n vs"
    and w: "widths_agree logical physical kind"
  shows "\<exists>out. decode_all_rows a = Inr out \<and> list_all (code_in_dictionary dict) out"
proof -
  have "kind \<notin> {EK_Validity, EK_Sequence, EK_Lz4Block, EK_ZstdBlock, EK_RegisteredEncoding}"
    using v by (auto simp: validate_values_buffer_def Let_def simp del: encoding_kind_debug.simps)
  then show ?thesis
    using direct_rows_valid [OF v a w] cascade_rows_valid [OF v a] other_rows_valid [OF v a] by (cases kind) auto
qed

text \<open>An array of codes.\<close>

definition numcode_array :: "logical_type \<Rightarrow> encoding_kind \<Rightarrow> u64 \<Rightarrow> bytes \<Rightarrow> encoded_array" where
  "numcode_array logical kind n vs =
     \<lparr>ea_logical = logical, ea_physical = PK_NumCode, ea_row_count = n, ea_encoding = kind, ea_validity = None, ea_data = vs,
      ea_dictionary = None\<rparr>"

text \<open>Two rows of file codes under a dictionary of two entries.\<close>

definition two_entries :: dict_view where
  "two_entries =
     \<lparr>dv_header = \<lparr>dh_entry_count = 2, dh_flags = 0, dh_index_entry_len = 0, dh_value_hash_algorithm = 0, dh_payload_length = 0,
        dh_reserved = []\<rparr>, dv_index_section = [], dv_payload_section = []\<rparr>"

definition filecode_array :: "bytes \<Rightarrow> encoded_array" where
  "filecode_array vs = (numcode_array LT_Utf8 EK_FileCode 2 vs)\<lparr>ea_physical := PK_FileCode\<rparr>"

section \<open>Properties\<close>

text \<open>
  C10: Whatever its encoding, a values buffer that passes validation is read whole by the reader,
  with one value per row, and every file code that comes out is in the dictionary. The validity
  bitmap must cover the rows, and a page of fixed-width rows must have a logical type of the width
  of its physical kind.
\<close>

theorem validated_values_read:
  assumes "validate_values_buffer json logical physical kind n vs dict = Ok ()"
    and "ea_logical a = logical" "ea_physical a = physical" "ea_encoding a = kind" "ea_row_count a = ucast n" "ea_data a = vs"
      "ea_dictionary a = None"
    and "rows_covered a" "length vs < usize_limit" "widths_agree logical physical kind"
  shows "\<exists>out. decode_all_rows a = Ok out \<and> length out = unat n \<and>
    (\<forall>d code. dict = Some d \<longrightarrow> AV_FileCode code \<in> set out \<longrightarrow> code < view_len d)"
proof -
  have a: "page_array_for a logical physical kind n vs" using assms by (simp add: page_array_for_def)
  from validated_rows [OF assms(1) a assms(10)] obtain out where out: "decode_all_rows a = Ok out" "list_all (code_in_dictionary dict) out"
    by blast
  have "length out = unat n"
    using array_reads [OF out(1) _ assms(8)] assms(6,9) page_array_for_fields(9) [OF a] by (simp add: rows_are_def)
  moreover have "code < view_len d" if "dict = Some d" "AV_FileCode code \<in> set out" for d code
    using out(2) that by (auto simp: list_all_iff code_in_dictionary_def validate_filecode_value_def split: if_splits)
  ultimately show ?thesis using out(1) by blast
qed

theorem validated_values_read_witness:
  "\<exists>out. decode_all_rows (filecode_array [1, 0, 0, 0, 0, 0, 0, 0]) = Ok out \<and> length out = 2 \<and>
    \<not> (\<exists>code. AV_FileCode code \<in> set out \<and> 2 \<le> code)"
proof -
  let ?vs = "[1, 0, 0, 0, 0, 0, 0, 0] :: bytes"
  let ?a = "filecode_array ?vs"
  have ch: "chunks_exact 4 ?vs = [[1, 0, 0, 0], [0, 0, 0, 0]]" by (simp add: chunks_exact_def sub_def upt_rec)
  have r: "read_u32_le_checked [1, 0, 0, 0] 0 = Ok 1" "read_u32_le_checked [0, 0, 0, 0] 0 = Ok 0"
    by (simp_all add: read_words_Ok usize_limit_def sub_def)
  have v: "validate_values_buffer (\<lambda>_. True) LT_Utf8 PK_FileCode EK_FileCode 2 ?vs (Some two_entries) = Ok ()"
    by (simp add: validate_values_buffer_def validate_filecodes_def fixed_rows_len_def checked_mul_def usize_limit_def require_len_def
        ch each_valid_def r validate_filecode_value_def view_len_def two_entries_def word_le_nat_alt)
  have c: "rows_covered ?a"
    using u64_row_less [of _ "2 :: u64"] by (auto simp: rows_covered_def array_is_null_def filecode_array_def numcode_array_def)
  obtain out where out: "decode_all_rows ?a = Ok out" "length out = 2"
    "\<forall>d code. Some two_entries = Some d \<longrightarrow> AV_FileCode code \<in> set out \<longrightarrow> code < view_len d"
    using validated_values_read [OF v, of ?a] c
    by (auto simp: filecode_array_def numcode_array_def widths_agree_def usize_limit_def)
  have "code < 2" if "AV_FileCode code \<in> set out" for code using out(3) that by (simp add: view_len_def two_entries_def)
  then show ?thesis using out(1,2) by (auto simp: not_le [symmetric])
qed

text \<open>
  C40: Rows of the encoding \<^verbatim>\<open>PlainFixed\<close> whose physical kind is \<^verbatim>\<open>NumCode\<close> are validated as eight bytes
  each and read as the width of the logical type: with a narrower type the reader takes row \<open>i\<close>
  from inside an earlier row, without an error.
\<close>

theorem plain_fixed_numcode_shifted:
  assumes "validate_values_buffer json logical PK_NumCode EK_PlainFixed n vs dict = Ok ()" "logical_type_fixed_width logical = Some w"
    and "w < 8" "length vs < usize_limit" "i < unat n"
  shows "length vs = unat n * 8 \<and>
    decode_row (numcode_array logical EK_PlainFixed (ucast n) vs) (of_nat i) = Ok (AV_Bytes (sub vs (i * w) w))"
proof -
  let ?a = "numcode_array logical EK_PlainFixed (ucast n) vs"
  have l: "length vs = unat n * 8"
    using assms(1) by (auto simp: validate_values_buffer_def ok_iffs fixed_rows_len_iff require_len_iff fixed_width_for_def)
  have rc: "unat (ea_row_count ?a) = unat n" by (simp add: numcode_array_def unat_ucast_32_64)
  have r: "decode_row ?a (of_nat i) = row_or_null ?a (of_nat i) (decode_present_row ?a (of_nat i))"
    by (rule decode_row_eq) (simp add: rc assms(5))
  have u: "unat (of_nat i :: u64) = i" using u64_of_nat [of i "ea_row_count ?a"] assms(5) rc by simp
  have nl: "\<not> ea_row_count ?a \<le> of_nat i" by (rule u64_row_less) (simp add: rc assms(5))
  have "(i + 1) * w \<le> unat n * 8" using assms(3,5) by (intro mult_le_mono) simp_all
  then have k: "i * w + w \<le> length vs" using l by (simp add: algebra_simps)
  then have "read_range_checked vs (i * w) w = Inr (sub vs (i * w) w)" "checked_mul i w = Some (i * w)"
    using assms(4) by (simp_all add: read_range_Ok checked_mul_def)
  then have "decode_present_row ?a (of_nat i) = Ok (AV_Bytes (sub vs (i * w) w))"
    using assms(2) u by (simp add: decode_present_row_def numcode_array_def)
  then show ?thesis using l nl unfolding r by (simp add: row_or_null_def array_is_null_def numcode_array_def)
qed

theorem plain_fixed_numcode_shifted_witness:
  "decode_row (numcode_array LT_Int32 EK_PlainFixed 2 [1, 0, 0, 0, 0, 0, 0, 0, 2, 0, 0, 0, 0, 0, 0, 0]) 1 = Ok (AV_Bytes [0, 0, 0, 0])"
proof -
  let ?vs = "[1, 0, 0, 0, 0, 0, 0, 0, 2, 0, 0, 0, 0, 0, 0, 0] :: bytes"
  have v: "validate_values_buffer (\<lambda>_. True) LT_Int32 PK_NumCode EK_PlainFixed 2 ?vs None = Ok ()"
    by (simp add: validate_values_buffer_def validate_numcode_values_def fixed_rows_len_def checked_mul_def usize_limit_def require_len_def
        fixed_width_for_def)
  show ?thesis using plain_fixed_numcode_shifted [OF v, of 4 1] by (simp add: usize_limit_def sub_def)
qed

end
