(* ===== verification/Stats_Only.thy ===== *)
theory Stats_Only
  imports Page_Values Registered_Page Zone_Stats Nested_Schema
begin

text \<open>
  Pages without a payload (\<^verbatim>\<open>page_validation.rs\<close>): a page whose rows are all null, or all equal, is
  left out of the file and built again from the page entry and one entry of the zone statistics.
\<close>

section \<open>Contexts\<close>

record page_validation_context =
  pvc_table_id :: "u32 option"
  pvc_segment_id :: "u32 option"
  pvc_column_id :: u32
  pvc_logical_type :: logical_type
  pvc_physical_kind :: physical_kind
  pvc_dictionary :: "dict_view option"
  pvc_zone_stats :: "zone_stats_entry list option"
  pvc_codec_descriptors :: "codec_descriptor list"
  pvc_nested_schema :: "nested_schema_node option"

record stats_only_context =
  so_table_id :: "u32 option"
  so_segment_id :: "u32 option"
  so_column_id :: u32
  so_logical_type :: logical_type
  so_physical_kind :: physical_kind
  so_dictionary_len :: "u32 option"
  so_zone_stats :: "zone_stats_entry list"

section \<open>Scalars\<close>

definition stat_scalar_matches_logical :: "logical_type \<Rightarrow> stat_scalar \<Rightarrow> bool" where
  "stat_scalar_matches_logical logical scalar =
     (let kind = ss_kind scalar in
      case logical of
        LT_Bool \<Rightarrow> kind = SK_UInt64
      | LT_Int8 \<Rightarrow> kind = SK_Int64
      | LT_Int16 \<Rightarrow> kind = SK_Int64
      | LT_Int32 \<Rightarrow> kind = SK_Int64
      | LT_Int64 \<Rightarrow> kind = SK_Int64
      | LT_Decimal64 \<Rightarrow> kind = SK_Int64
      | LT_UInt8 \<Rightarrow> kind = SK_UInt64
      | LT_UInt16 \<Rightarrow> kind = SK_UInt64
      | LT_UInt32 \<Rightarrow> kind = SK_UInt64
      | LT_UInt64 \<Rightarrow> kind = SK_UInt64
      | LT_Float32 \<Rightarrow> kind = SK_FixedBytes \<and> length (ss_bytes scalar) = 4
      | LT_Float64 \<Rightarrow> kind = SK_Float64Bits
      | LT_Decimal128 \<Rightarrow> kind = SK_Decimal128
      | LT_DateDays \<Rightarrow> kind = SK_DateDays
      | LT_TimestampMicros \<Rightarrow> kind = SK_TimestampMicros
      | LT_TimestampNanos \<Rightarrow> kind = SK_TimestampNanos
      | LT_Uuid \<Rightarrow> kind = SK_FixedBytes
      | LT_Utf8 \<Rightarrow> kind = SK_FixedBytes
      | LT_Binary \<Rightarrow> kind = SK_FixedBytes
      | LT_Json \<Rightarrow> kind = SK_FixedBytes
      | _ \<Rightarrow> False)"

definition validate_stats_only_boolean_scalar :: "stat_scalar \<Rightarrow> u8 res" where
  "validate_stats_only_boolean_scalar scalar =
     (if ss_kind scalar \<noteq> SK_UInt64 \<or> length (ss_bytes scalar) \<noteq> 8 then Fail PageCorrupt
      else if (of_le (ss_bytes scalar) :: u64) = 0 then Ok 0
      else if (of_le (ss_bytes scalar) :: u64) = 1 then Ok 1
      else Fail PageCorrupt)"

definition validate_stats_only_varbytes_scalar :: "(bytes \<Rightarrow> bool) \<Rightarrow> logical_type \<Rightarrow> stat_scalar \<Rightarrow> bytes res" where
  "validate_stats_only_varbytes_scalar json logical scalar =
     (if ss_kind scalar \<noteq> SK_FixedBytes then Fail PageCorrupt
      else if logical \<in> {LT_Utf8, LT_Binary, LT_Json} then
        and_then (validate_varbytes_logical_value json logical (ss_bytes scalar)) (\<lambda>_. Ok (ss_bytes scalar))
      else Fail PageCorrupt)"

definition validate_stats_only_filecode_scalar :: "stat_scalar \<Rightarrow> u32 option \<Rightarrow> u32 res" where
  "validate_stats_only_filecode_scalar scalar dictionary_len =
     (if ss_kind scalar \<noteq> SK_UInt64 \<or> length (ss_bytes scalar) \<noteq> 8 then Fail PageCorrupt
      else
        and_then (ok_or BadFileCode (u32_try_from (of_le (ss_bytes scalar)))) (\<lambda>code.
        case dictionary_len of
          None \<Rightarrow> Fail BadFileCode
        | Some n \<Rightarrow> if n \<le> code then Fail BadFileCode else Ok code))"

definition stats_only_numcode_bits :: "logical_type \<Rightarrow> stat_scalar \<Rightarrow> u64 res" where
  "stats_only_numcode_bits logical scalar =
     (let kind = ss_kind scalar; bs = ss_bytes scalar in
      if (logical \<in> {LT_Int8, LT_Int16, LT_Int32, LT_Int64, LT_Decimal64} \<and> kind = SK_Int64) \<or>
         (logical = LT_TimestampMicros \<and> kind = SK_TimestampMicros) \<or> (logical = LT_TimestampNanos \<and> kind = SK_TimestampNanos) \<or>
         (logical \<in> {LT_UInt8, LT_UInt16, LT_UInt32, LT_UInt64} \<and> kind = SK_UInt64) \<or>
         (logical = LT_Float64 \<and> kind = SK_Float64Bits)
      then if length bs \<noteq> 8 then Fail PageCorrupt else read_u64_le_checked bs 0
      else if logical = LT_Float32 \<and> kind = SK_FixedBytes
      then if length bs \<noteq> 4 then Fail PageCorrupt else map_ok ucast (read_u32_le_checked bs 0)
      else if logical = LT_DateDays \<and> kind = SK_DateDays
      then if length bs \<noteq> 4 then Fail PageCorrupt else map_ok scast (read_i32_le_checked bs 0)
      else Fail PageCorrupt)"

section \<open>Validation\<close>

primrec validate_stats_only_all_non_null_reconstruction_source :: "physical_kind \<Rightarrow> unit res" where
  "validate_stats_only_all_non_null_reconstruction_source PK_Boolean = Ok ()"
| "validate_stats_only_all_non_null_reconstruction_source PK_FileCode = Ok ()"
| "validate_stats_only_all_non_null_reconstruction_source PK_NumCode = Ok ()"
| "validate_stats_only_all_non_null_reconstruction_source PK_FixedBytes = Ok ()"
| "validate_stats_only_all_non_null_reconstruction_source PK_VarBytes = Ok ()"
| "validate_stats_only_all_non_null_reconstruction_source PK_List = Fail PageCorrupt"
| "validate_stats_only_all_non_null_reconstruction_source PK_Struct = Fail PageCorrupt"
| "validate_stats_only_all_non_null_reconstruction_source PK_Map = Fail PageCorrupt"

primrec validate_stats_only_all_null_reconstruction_source :: "physical_kind \<Rightarrow> unit res" where
  "validate_stats_only_all_null_reconstruction_source PK_Boolean = Ok ()"
| "validate_stats_only_all_null_reconstruction_source PK_FileCode = Ok ()"
| "validate_stats_only_all_null_reconstruction_source PK_NumCode = Ok ()"
| "validate_stats_only_all_null_reconstruction_source PK_FixedBytes = Ok ()"
| "validate_stats_only_all_null_reconstruction_source PK_VarBytes = Ok ()"
| "validate_stats_only_all_null_reconstruction_source PK_List = Fail PageCorrupt"
| "validate_stats_only_all_null_reconstruction_source PK_Struct = Fail PageCorrupt"
| "validate_stats_only_all_null_reconstruction_source PK_Map = Fail PageCorrupt"

text \<open>The zone entry the page names, and its one value.\<close>

definition stats_only_scope :: "stats_only_context \<Rightarrow> column_page \<Rightarrow> zone_stats_entry \<Rightarrow> bool" where
  "stats_only_scope ctx page e \<longleftrightarrow>
     (case so_table_id ctx of Some t \<Rightarrow> ze_table_id e = t | None \<Rightarrow> True) \<and>
     (case so_segment_id ctx of Some s \<Rightarrow> ze_segment_id e = s | None \<Rightarrow> True) \<and>
     \<not> (ze_morsel_id e \<noteq> cp_morsel_id page \<or> ze_column_id e \<noteq> so_column_id ctx \<or>
        zs_row_count (ze_stats e) \<noteq> ucast (column_page.cp_row_count page) \<or> zs_null_count (ze_stats e) \<noteq> 0 \<or>
        ze_non_null_count e \<noteq> column_page.cp_row_count page \<or> cp_null_count page \<noteq> 0 \<or>
        cp_non_null_count page \<noteq> column_page.cp_row_count page)"

definition stats_only_min :: "zone_stats \<Rightarrow> stat_scalar res" where
  "stats_only_min z =
     (if \<not> flags_contain (zs_flags z) CONSTANT \<or> \<not> flags_contain (zs_flags z) HAS_MIN_MAX \<or>
         flags_contain (zs_flags z) MINMAX_TRUNCATED
      then Fail PageCorrupt
      else
        (case (zs_min z, zs_max z) of
           (Some mn, Some mx) \<Rightarrow> if ss_truncated mn \<or> ss_truncated mx \<or> mn \<noteq> mx then Fail PageCorrupt else Ok mn
         | _ \<Rightarrow> Fail PageCorrupt))"

definition validate_stats_only_constant_stat :: "(bytes \<Rightarrow> bool) \<Rightarrow> stats_only_context \<Rightarrow> column_page \<Rightarrow> stat_scalar res" where
  "validate_stats_only_constant_stat json ctx page =
     and_then (ok_or PageCorrupt (get (so_zone_stats ctx) (unat (cp_stats_ref page)))) (\<lambda>e.
     if \<not> stats_only_scope ctx page e then Fail PageCorrupt
     else
       and_then (stats_only_min (ze_stats e)) (\<lambda>mn.
       if so_physical_kind ctx = PK_FileCode then
         and_then (validate_stats_only_filecode_scalar mn (so_dictionary_len ctx)) (\<lambda>_. Ok mn)
       else if so_physical_kind ctx = PK_Boolean then and_then (validate_stats_only_boolean_scalar mn) (\<lambda>_. Ok mn)
       else if so_physical_kind ctx = PK_VarBytes then
         and_then (validate_stats_only_varbytes_scalar json (so_logical_type ctx) mn) (\<lambda>_. Ok mn)
       else
         and_then (if so_physical_kind ctx = PK_FixedBytes then
                     and_then (fixed_width_for (so_logical_type ctx) (so_physical_kind ctx)) (\<lambda>width.
                     if length (ss_bytes mn) \<noteq> width then Fail PageCorrupt else Ok ())
                   else Ok ()) (\<lambda>_.
         if \<not> stat_scalar_matches_logical (so_logical_type ctx) mn then Fail PageCorrupt else Ok mn)))"

definition stats_only_envelope_bad :: "(bytes \<Rightarrow> u32) \<Rightarrow> column_page \<Rightarrow> bool res" where
  "stats_only_envelope_bad crc page =
     map_ok (\<lambda>codec. codec \<noteq> CC_None \<or> cp_page_offset page \<noteq> 0 \<or> cp_page_length page \<noteq> 0 \<or> cp_uncompressed_length page \<noteq> 0 \<or>
       cp_encoding_root page \<noteq> 0xFFFFFFFF \<or> cp_checksum page \<noteq> crc []) (page_flag_codec (cp_flags page))"

definition validate_stats_only_constant_page_envelope :: "(bytes \<Rightarrow> u32) \<Rightarrow> column_page \<Rightarrow> unit res" where
  "validate_stats_only_constant_page_envelope crc page =
     and_then (stats_only_envelope_bad crc page) (\<lambda>bad.
     if bad then Fail PageCorrupt
     else if cp_flags page AND PAGE_FLAG_ALL_NON_NULL = 0 then
       if cp_flags page AND PAGE_FLAG_ALL_NULL \<noteq> 0 then Ok () else Fail PageCorrupt
     else Ok ())"

definition stats_only_context_for :: "page_validation_context \<Rightarrow> zone_stats_entry list \<Rightarrow> stats_only_context" where
  "stats_only_context_for ctx zs =
     \<lparr>so_table_id = pvc_table_id ctx, so_segment_id = pvc_segment_id ctx, so_column_id = pvc_column_id ctx,
      so_logical_type = pvc_logical_type ctx, so_physical_kind = pvc_physical_kind ctx,
      so_dictionary_len = map_option view_len (pvc_dictionary ctx), so_zone_stats = zs\<rparr>"

definition validate_stats_only_constant_page ::
    "(bytes \<Rightarrow> bool) \<Rightarrow> (bytes \<Rightarrow> u32) \<Rightarrow> page_validation_context \<Rightarrow> column_page \<Rightarrow> unit res" where
  "validate_stats_only_constant_page json crc ctx page =
     and_then (validate_stats_only_constant_page_envelope crc page) (\<lambda>_.
     if cp_flags page AND PAGE_FLAG_ALL_NULL \<noteq> 0 then
       and_then (validate_stats_only_all_null_reconstruction_source (pvc_physical_kind ctx)) (\<lambda>_. Ok ())
     else
       and_then (validate_stats_only_all_non_null_reconstruction_source (pvc_physical_kind ctx)) (\<lambda>_.
       case pvc_zone_stats ctx of
         None \<Rightarrow> Fail PageCorrupt
       | Some zs \<Rightarrow> and_then (validate_stats_only_constant_stat json (stats_only_context_for ctx zs) page) (\<lambda>_. Ok ())))"

section \<open>Materialization\<close>

primrec stats_only_materialized_encoding :: "physical_kind \<Rightarrow> encoding_kind" where
  "stats_only_materialized_encoding PK_FileCode = EK_FileCode"
| "stats_only_materialized_encoding PK_NumCode = EK_Constant"
| "stats_only_materialized_encoding PK_Boolean = EK_PlainFixed"
| "stats_only_materialized_encoding PK_FixedBytes = EK_PlainFixed"
| "stats_only_materialized_encoding PK_VarBytes = EK_VarBytes"
| "stats_only_materialized_encoding PK_List = EK_Canonical"
| "stats_only_materialized_encoding PK_Struct = EK_Canonical"
| "stats_only_materialized_encoding PK_Map = EK_Canonical"

definition stats_only_constant_values :: "(bytes \<Rightarrow> bool) \<Rightarrow> stats_only_context \<Rightarrow> column_page \<Rightarrow> stat_scalar \<Rightarrow> bytes res" where
  "stats_only_constant_values json ctx page scalar =
     (let rows = column_page.cp_row_count page in
      case so_physical_kind ctx of
        PK_NumCode \<Rightarrow>
          and_then (stats_only_numcode_bits (so_logical_type ctx) scalar) (\<lambda>raw.
          Ok (constant_encode \<lparr>cp_value = of_le (le_bytes 8 raw), cp_row_count = ucast rows\<rparr>))
      | PK_FixedBytes \<Rightarrow>
          and_then (fixed_width_for (so_logical_type ctx) (so_physical_kind ctx)) (\<lambda>width.
          if length (ss_bytes scalar) \<noteq> width then Fail PageCorrupt
          else
            and_then (ok_or ArithOverflow (checked_mul (unat rows) width)) (\<lambda>_.
            Ok (concat (replicate (unat rows) (ss_bytes scalar)))))
      | PK_Boolean \<Rightarrow>
          and_then (validate_stats_only_boolean_scalar scalar) (\<lambda>v. Ok (replicate (unat rows) v))
      | PK_VarBytes \<Rightarrow>
          and_then (validate_stats_only_varbytes_scalar json (so_logical_type ctx) scalar) (\<lambda>b.
          and_then (if length b < 2 ^ 32 then Ok (of_nat (length b) :: u32) else Fail ArithOverflow) (\<lambda>len.
          and_then (ok_or ArithOverflow (checked_add 4 (length b))) (\<lambda>row_width.
          and_then (ok_or ArithOverflow (checked_mul (unat rows) row_width)) (\<lambda>_.
          Ok (concat (replicate (unat rows) (le_bytes 4 len @ b)))))))
      | PK_FileCode \<Rightarrow>
          and_then (validate_stats_only_filecode_scalar scalar (so_dictionary_len ctx)) (\<lambda>code.
          and_then (ok_or ArithOverflow (checked_mul (unat rows) 4)) (\<lambda>_.
          Ok (concat (replicate (unat rows) (le_bytes 4 code)))))
      | _ \<Rightarrow> Fail PageCorrupt)"

definition stats_only_all_null_values :: "stats_only_context \<Rightarrow> column_page \<Rightarrow> bytes res" where
  "stats_only_all_null_values ctx page =
     (let rows = column_page.cp_row_count page in
      if so_physical_kind ctx = PK_NumCode then Ok (constant_encode \<lparr>cp_value = 0, cp_row_count = ucast rows\<rparr>)
      else if so_physical_kind ctx \<in> {PK_Boolean, PK_FileCode, PK_FixedBytes, PK_VarBytes} then
        and_then (if so_physical_kind ctx = PK_VarBytes then Ok 4 else fixed_width_for (so_logical_type ctx) (so_physical_kind ctx)) (\<lambda>width.
        and_then (ok_or ArithOverflow (checked_mul (unat rows) width)) (\<lambda>n. Ok (replicate n 0)))
      else Fail PageCorrupt)"

definition all_null_bitmap :: "u32 \<Rightarrow> bytes res" where
  "all_null_bitmap rows =
     and_then (page_bitmap_len rows) (\<lambda>bitmap_len.
     let bitmap = replicate bitmap_len 0xff in
     Ok (if unat rows mod 8 \<noteq> 0 \<and> bitmap \<noteq> [] then bitmap[bitmap_len - 1 := push_bit (unat rows mod 8) 1 - 1] else bitmap))"

definition materialize_stats_only_constant_page_payload ::
    "(bytes \<Rightarrow> bool) \<Rightarrow> (bytes \<Rightarrow> u32) \<Rightarrow> stats_only_context \<Rightarrow> column_page \<Rightarrow> bytes res" where
  "materialize_stats_only_constant_page_payload json crc ctx page =
     and_then (stats_only_envelope_bad crc page) (\<lambda>bad.
     if bad then Fail PageCorrupt
     else if cp_flags page AND PAGE_FLAG_ALL_NON_NULL \<noteq> 0 then
       and_then (validate_stats_only_all_non_null_reconstruction_source (so_physical_kind ctx)) (\<lambda>_.
       and_then (validate_stats_only_constant_stat json ctx page) (\<lambda>scalar.
       and_then (stats_only_constant_values json ctx page scalar) (\<lambda>vs.
       build_single_node crc (column_page.cp_row_count page) (stats_only_materialized_encoding (so_physical_kind ctx))
         (so_logical_type ctx) (so_physical_kind ctx) None vs)))
     else if cp_flags page AND PAGE_FLAG_ALL_NULL \<noteq> 0 then
       and_then (all_null_bitmap (column_page.cp_row_count page)) (\<lambda>bitmap.
       and_then (stats_only_all_null_values ctx page) (\<lambda>vs.
       build_single_node crc (column_page.cp_row_count page) (stats_only_materialized_encoding (so_physical_kind ctx))
         (so_logical_type ctx) (so_physical_kind ctx) (Some bitmap) vs))
     else Fail PageCorrupt)"

text \<open>The row a scalar stands for, as the readers hand rows out.\<close>

definition scalar_row :: "logical_type \<Rightarrow> physical_kind \<Rightarrow> bytes \<Rightarrow> bytes" where
  "scalar_row logical physical b =
     (case physical of
        PK_NumCode \<Rightarrow>
          if logical = LT_DateDays then le_bytes 8 (scast (of_le b :: u32) :: u64)
          else if logical = LT_Float32 then le_bytes 8 (ucast (of_le b :: u32) :: u64)
          else b
      | PK_FileCode \<Rightarrow> le_bytes 4 (ucast (of_le b :: u64) :: u32)
      | PK_Boolean \<Rightarrow> [ucast (of_le b :: u64)]
      | _ \<Rightarrow> b)"

section \<open>Reading a page of one node\<close>

lemma single_node_array:
  assumes b: "build_single_node crc rows k lt pk nb vs = Inr out" and l: "length out < usize_limit"
    and rows: "column_page.cp_row_count entry = rows"
  shows "\<exists>p. payload_parse crc out = Inr p \<and> length vs < usize_limit \<and>
    payload_array p entry = Inr \<lparr>ea_logical = lt, ea_physical = pk, ea_row_count = ucast rows, ea_encoding = k,
      ea_validity = map_option (\<lambda>bitmap. bitmap_new bitmap (ucast rows)) nb, ea_data = vs, ea_dictionary = None\<rparr>"
proof -
  let ?bufs = "single_buffers nb vs"
  let ?node = "single_node rows k lt pk (length ?bufs)"
  let ?p = "built_payload crc rows 0 [?node] ?bufs"
  have p: "payload_parse crc out = Inr ?p" and bd: "buildable rows 0 [?node] ?bufs" using build_single_node_parses [OF b l] by simp_all
  have root: "root_node ?p = Inr ?node" by (rule root_node_built) (simp add: single_node_def)
  have nbuf: "buffer_bytes ?p PB_NullBitmap = Inr nb"
    unfolding buffer_bytes_built [OF bd] by (simp add: single_buffers_def split: option.split)
  have vbuf: "buffer_bytes ?p PB_Values = Inr (if vs = [] then None else Some vs)"
    unfolding buffer_bytes_built [OF bd] by (simp add: single_buffers_def split: option.split)
  have "length vs \<le> length (concat (map snd ?bufs))" by (simp add: single_buffers_def split: option.split)
  then have "length vs < usize_limit" using bd by (simp add: buildable_def payload_size_def del: length_concat)
  moreover have "payload_array ?p entry = Inr \<lparr>ea_logical = lt, ea_physical = pk, ea_row_count = ucast rows, ea_encoding = k,
      ea_validity = map_option (\<lambda>bitmap. bitmap_new bitmap (ucast rows)) nb, ea_data = vs, ea_dictionary = None\<rparr>"
    unfolding payload_array_def root nbuf vbuf and_then_simps rows by (cases "vs = []") (simp_all add: single_node_def)
  ultimately show ?thesis using p by blast
qed

lemma null_pattern_none: "ea_validity a = None \<Longrightarrow> null_pattern a (replicate (unat (ea_row_count a)) (Some b))"
  using u64_row_less [of _ "ea_row_count a"] by (auto simp: null_pattern_def row_or_null_def array_is_null_def)

lemma last_byte: "r mod 8 \<noteq> 0 \<Longrightarrow> (r + 7) div 8 - 1 = r div 8" for r :: nat
proof -
  assume m: "r mod 8 \<noteq> 0"
  have r: "r + 7 = 8 * (r div 8) + (r mod 8 + 7)" using mult_div_mod_eq [of 8 r] by linarith
  have "(r + 7) div 8 = r div 8 + (r mod 8 + 7) div 8" 
    by (rule trans [OF arg_cong [OF r, of "\<lambda>x. x div 8"] div_mult_self4]) simp
  moreover have "(r mod 8 + 7) div 8 = 1" using m by (intro div_nat_eqI) auto
  ultimately show ?thesis by simp
qed

lemma rest_less: "i < r \<Longrightarrow> i div 8 = r div 8 \<Longrightarrow> i mod 8 < r mod 8" for i r :: nat
  by (metis div_mult_mod_eq nat_add_left_cancel_less)

lemma all_null_bits:
  assumes "all_null_bitmap rows = Inr bm" "i < unat rows"
  shows "i div 8 < length bm \<and> stream_bit bm i"
proof -
  obtain n where n: "page_bitmap_len rows = Inr n"
    "bm = (if unat rows mod 8 \<noteq> 0 \<and> n \<noteq> 0 then (replicate n 0xff)[n - 1 := push_bit (unat rows mod 8) 1 - 1] else replicate n 0xff)"
    using assms(1) by (auto simp: all_null_bitmap_def ok_iffs Let_def)
  have len: "n = (unat rows + 7) div 8"
    using n(1) by (auto simp: page_bitmap_len_def ok_iffs checked_add_word_def unat_div_distrib unat_word_ariths split: if_splits)
  have i: "i div 8 < n" using assms(2) len by simp
  have ff: "bit (0xff :: u8) j" if "j < 8" for j
  proof -
    have m: "(0xff :: u8) = mask 8" by (simp add: mask_eq_exp_minus_1)
    show ?thesis unfolding m bit_mask_iff using that by simp
  qed
  have "bit (bm ! (i div 8)) (i mod 8)"
  proof (cases "unat rows mod 8 \<noteq> 0 \<and> i div 8 = n - 1")
    case True
    then have "i div 8 = unat rows div 8" using last_byte [of "unat rows"] len by simp
    then have "i mod 8 < unat rows mod 8" using rest_less [OF assms(2)] by simp
    then have "bit (push_bit (unat rows mod 8) (1 :: u8) - 1) (i mod 8)"
      by (simp add: mask_eq_exp_minus_1 [symmetric] push_bit_of_1 bit_mask_iff)
    then show ?thesis using True i n(2) by simp
  next
    case False
    then show ?thesis using ff [of "i mod 8"] i n(2) by (auto simp: nth_list_update)
  qed
  then show ?thesis using i n(2) by (simp add: stream_bit_def)
qed

lemma null_pattern_all:
  assumes "all_null_bitmap rows = Inr bm" "ea_row_count a = ucast rows" "ea_validity a = Some (bitmap_new bm (ucast rows))"
  shows "null_pattern a (replicate (unat rows) None)"
proof -
  have "row_or_null a (of_nat i) v = Inr AV_Null" if i: "i < unat rows" for i v
  proof -
    have u: "unat (of_nat i :: u64) = i" using u64_of_nat [of i "ucast rows"] i by (simp add: unat_ucast_32_64)
    have r: "\<not> ucast rows \<le> (of_nat i :: u64)" using u64_row_less [of i "ucast rows"] i by (simp add: unat_ucast_32_64)
    show ?thesis
      using all_null_bits [OF assms(1) i] r
      by (simp add: row_or_null_def array_is_null_def assms(2,3) is_null_eq bitmap_new_def u)
  qed
  then show ?thesis by (simp add: null_pattern_def assms(2) unat_ucast_32_64)
qed

lemma try_map_replicate: "f x = Inr y \<Longrightarrow> try_map f (replicate n x) = Inr (replicate n y)"
  using try_map_Ok [of "replicate n x" f "\<lambda>_. y"] by (auto simp: map_replicate_const)

lemma constant_rows_read:
  assumes n: "null_pattern a (replicate (unat rows) v)" and v: "v = Some (le_bytes 8 code) \<or> v = None"
    and a: "ea_data a = constant_encode \<lparr>cp_value = code, cp_row_count = ucast rows\<rparr>" "ea_encoding a = EK_Constant"
      "ea_physical a = PK_NumCode" "ea_row_count a = ucast (rows :: u32)"
    and b: "ea_logical a = LT_Bool \<Longrightarrow> code = 0 \<or> code = 1"
  shows "and_then (decode_all_rows a) (try_map (logical_value dl)) = Inr (replicate (unat rows) v)"
proof -
  let ?p = "\<lparr>cp_value = code, cp_row_count = ucast rows\<rparr> :: constant_payload"
  have "(ucast rows :: u64) \<le> 0xFFFFFFFF"
    using unsigned_less [where 'a = nat, of rows] by (simp add: word_le_nat_alt unat_ucast_32_64)
  then have "constant_wf ?p" by (simp add: constant_wf_def)
  then have p: "constant_parse (ea_data a) = Inr ?p" using constant_parse_encode_rest [of ?p "[]"] by (simp add: a)
  have d: "decode_all_rows a = collect_rows a (decode_present_row a)" by (simp add: decode_all_rows_def a cascade_values_def)
  have "decode_present_row a r = Inr (AV_NumCode code)" for r
    using b by (auto simp: decode_present_row_def a(2,3,4) p value_from_constant_payload_def constant_raw_value_bits_def Let_def)
  note c = collect_fixed_rows [OF n d this]
  show ?thesis unfolding c and_then_simps
    by (rule logical_values) (use v in \<open>auto simp: logical_value_def\<close>)
qed

section \<open>The rows of a rebuilt page\<close>

definition stats_only_array :: "stats_only_context \<Rightarrow> column_page \<Rightarrow> bytes option \<Rightarrow> bytes \<Rightarrow> encoded_array" where
  "stats_only_array ctx page nb vs =
     \<lparr>ea_logical = so_logical_type ctx, ea_physical = so_physical_kind ctx, ea_row_count = ucast (column_page.cp_row_count page),
      ea_encoding = stats_only_materialized_encoding (so_physical_kind ctx),
      ea_validity = map_option (\<lambda>bitmap. bitmap_new bitmap (ucast (column_page.cp_row_count page))) nb, ea_data = vs,
      ea_dictionary = None\<rparr>"

lemma stats_only_array_simps [simp]:
  "ea_logical (stats_only_array ctx page nb vs) = so_logical_type ctx"
  "ea_physical (stats_only_array ctx page nb vs) = so_physical_kind ctx"
  "ea_row_count (stats_only_array ctx page nb vs) = ucast (column_page.cp_row_count page)"
  "ea_encoding (stats_only_array ctx page nb vs) = stats_only_materialized_encoding (so_physical_kind ctx)"
  "ea_data (stats_only_array ctx page nb vs) = vs"
  "ea_dictionary (stats_only_array ctx page nb vs) = None"
  by (simp_all add: stats_only_array_def)

text \<open>Every row the same item: the rows are read back, unless they are NumCodes.\<close>

lemma repeated_rows_read:
  assumes n: "null_pattern (stats_only_array ctx page nb vs) (replicate (unat (column_page.cp_row_count page)) v)"
    and it: "row_item (so_logical_type ctx) (so_physical_kind ctx) dl v = Inr item"
    and vs: "vs = concat (replicate (unat (column_page.cp_row_count page)) item)" "length vs < usize_limit"
    and pk: "so_physical_kind ctx \<in> {PK_Boolean, PK_FileCode, PK_FixedBytes, PK_VarBytes}"
      "so_physical_kind ctx = PK_Boolean \<longrightarrow> logical_type_fixed_width (so_logical_type ctx) = Some 1"
  shows "and_then (decode_all_rows (stats_only_array ctx page nb vs)) (try_map (logical_value dl)) =
    Inr (replicate (unat (column_page.cp_row_count page)) v)"
proof -
  let ?n = "unat (column_page.cp_row_count page)"
  have items: "try_map (row_item (so_logical_type ctx) (so_physical_kind ctx) dl) (replicate ?n v) = Inr (replicate ?n item)"
    by (rule try_map_replicate) (rule it)
  have lim: "length (concat (replicate ?n item)) < usize_limit" using vs by (simp del: length_concat)
  show ?thesis
  proof (cases "so_physical_kind ctx = PK_VarBytes")
    case True
    show ?thesis by (rule varbytes_rows_read [OF n items [unfolded True] lim]) (simp_all add: vs(1) True)
  next
    case False
    have e: "stats_only_materialized_encoding (so_physical_kind ctx) = fallback_encoding_kind (so_physical_kind ctx)"
      using pk(1) False by auto
    show ?thesis by (rule fixed_rows_read [OF n items lim]) (use pk False e vs(1) in auto)
  qed
qed

lemma numcode_bits_row:
  "stats_only_numcode_bits lt s = Inr raw \<Longrightarrow> lt \<noteq> LT_Bool \<and> le_bytes 8 raw = scalar_row lt PK_NumCode (ss_bytes s)"
  by (auto simp: stats_only_numcode_bits_def Let_def ok_iffs scalar_row_def read_words_Ok usize_limit_def sub_all le_bytes_of_le
      split: if_splits)

text \<open>What a validated scalar adds to the values, and the row it stands for.\<close>

lemma constant_values_items:
  assumes v: "stats_only_constant_values json ctx page s = Inr vs" and pk: "so_physical_kind ctx \<in> {PK_Boolean, PK_FileCode, PK_FixedBytes, PK_VarBytes}"
  shows "\<exists>item. row_item (so_logical_type ctx) (so_physical_kind ctx) (so_dictionary_len ctx)
      (Some (scalar_row (so_logical_type ctx) (so_physical_kind ctx) (ss_bytes s))) = Inr item \<and>
    vs = concat (replicate (unat (column_page.cp_row_count page)) item)"
proof -
  from pk consider "so_physical_kind ctx = PK_Boolean" | "so_physical_kind ctx = PK_FileCode" | "so_physical_kind ctx = PK_FixedBytes"
    | "so_physical_kind ctx = PK_VarBytes" by blast
  then show ?thesis
  proof cases
    case 1
    then have b: "(of_le (ss_bytes s) :: u64) = 0 \<or> (of_le (ss_bytes s) :: u64) = 1"
      "vs = replicate (unat (column_page.cp_row_count page)) (ucast (of_le (ss_bytes s) :: u64))"
      using v by (auto simp: stats_only_constant_values_def validate_stats_only_boolean_scalar_def ok_iffs split: if_splits)
    have "concat (replicate n [x]) = replicate n x" for n and x :: u8 by (induction n) simp_all
    then show ?thesis using b 1 by (auto simp: row_item_def non_null_value_def scalar_row_def index_def)
  next
    case 2
    then obtain code n where c: "u32_try_from (of_le (ss_bytes s)) = Some code" "so_dictionary_len ctx = Some n" "\<not> n \<le> code"
      "vs = concat (replicate (unat (column_page.cp_row_count page)) (le_bytes 4 code))"
      using v by (auto simp: stats_only_constant_values_def validate_stats_only_filecode_scalar_def Let_def ok_iffs split: if_splits option.splits)
    have u: "ucast (of_le (ss_bytes s) :: u64) = code" using c(1) by (simp add: u32_try_from_Some)
    show ?thesis
      using c(2-4) by (auto simp: 2 row_item_def non_null_value_def scalar_row_def u read_words_Ok usize_limit_def sub_all)
  next
    case 3
    then show ?thesis
      using v by (auto simp: stats_only_constant_values_def Let_def ok_iffs row_item_def non_null_value_def scalar_row_def
          fixed_width_FixedBytes [unfolded ok_iffs] fixed_width_agrees [unfolded ok_iffs] split: if_splits)
  next
    case 4
    then show ?thesis
      using v by (auto simp: stats_only_constant_values_def validate_stats_only_varbytes_scalar_def Let_def ok_iffs row_item_def non_null_value_def
          scalar_row_def split: if_splits)
  qed
qed

lemma constant_page_rows:
  assumes v: "stats_only_constant_values json ctx page s = Inr vs" and l: "length vs < usize_limit"
    and b: "so_physical_kind ctx = PK_Boolean \<Longrightarrow> so_logical_type ctx = LT_Bool"
  shows "and_then (decode_all_rows (stats_only_array ctx page None vs)) (try_map (logical_value (so_dictionary_len ctx))) =
    Inr (replicate (unat (column_page.cp_row_count page)) (Some (scalar_row (so_logical_type ctx) (so_physical_kind ctx) (ss_bytes s))))"
proof -
  have n: "null_pattern (stats_only_array ctx page None vs) (replicate (unat (column_page.cp_row_count page)) (Some x))" for x
    using null_pattern_none [of "stats_only_array ctx page None vs" x] by (simp add: stats_only_array_def unat_ucast_32_64)
  show ?thesis
  proof (cases "so_physical_kind ctx = PK_NumCode")
    case True
    then obtain raw where r: "stats_only_numcode_bits (so_logical_type ctx) s = Inr raw"
      "vs = constant_encode \<lparr>cp_value = raw, cp_row_count = ucast (column_page.cp_row_count page)\<rparr>"
      using v by (auto simp: stats_only_constant_values_def Let_def ok_iffs)
    show ?thesis
      by (rule constant_rows_read [where code = raw]) (use n numcode_bits_row [OF r(1)] r(2) True in simp_all)
  next
    case False
    then have pk: "so_physical_kind ctx \<in> {PK_Boolean, PK_FileCode, PK_FixedBytes, PK_VarBytes}"
      using v by (cases "so_physical_kind ctx") (simp_all add: stats_only_constant_values_def)
    obtain item where i: "row_item (so_logical_type ctx) (so_physical_kind ctx) (so_dictionary_len ctx)
        (Some (scalar_row (so_logical_type ctx) (so_physical_kind ctx) (ss_bytes s))) = Inr item"
      "vs = concat (replicate (unat (column_page.cp_row_count page)) item)"
      using constant_values_items [OF v pk] by blast
    show ?thesis by (rule repeated_rows_read [OF n i l pk]) (use b in auto)
  qed
qed

lemma le_bytes_zero: "le_bytes n 0 = replicate n 0"
  by (induction n) simp_all

lemma concat_zeros: "concat (replicate n (replicate w x)) = replicate (n * w) x"
  by (induction n) (simp_all add: replicate_add)

lemma null_page_rows:
  assumes v: "stats_only_all_null_values ctx page = Inr vs" and l: "length vs < usize_limit"
    and b: "so_physical_kind ctx = PK_Boolean \<Longrightarrow> so_logical_type ctx = LT_Bool"
    and bm: "all_null_bitmap (column_page.cp_row_count page) = Inr bm"
  shows "and_then (decode_all_rows (stats_only_array ctx page (Some bm) vs)) (try_map (logical_value dl)) =
    Inr (replicate (unat (column_page.cp_row_count page)) None)"
proof -
  have n: "null_pattern (stats_only_array ctx page (Some bm) vs) (replicate (unat (column_page.cp_row_count page)) None)"
    by (rule null_pattern_all [OF bm]) (simp_all add: stats_only_array_def)
  show ?thesis
  proof (cases "so_physical_kind ctx = PK_NumCode")
    case True
    then show ?thesis
      by (intro constant_rows_read [where code = 0]) (use n v in \<open>simp_all add: stats_only_all_null_values_def\<close>)
  next
    case False
    then have pk: "so_physical_kind ctx \<in> {PK_Boolean, PK_FileCode, PK_FixedBytes, PK_VarBytes}"
      using v by (auto simp: stats_only_all_null_values_def split: if_splits)
    then obtain w where w: "(if so_physical_kind ctx = PK_VarBytes then Ok 4 else fixed_width_for (so_logical_type ctx) (so_physical_kind ctx)) = Inr w"
      "vs = replicate (unat (column_page.cp_row_count page) * w) 0"
      using v False by (auto simp: stats_only_all_null_values_def Let_def ok_iffs checked_mul_def split: if_splits)
    have i: "row_item (so_logical_type ctx) (so_physical_kind ctx) dl None = Inr (replicate w 0)"
      using pk w(1) b by (auto simp: row_item_def null_placeholder_def fixed_width_for_def logical_fixed_width_eq le_bytes_zero ok_iffs
          fixed_width_FixedBytes [unfolded ok_iffs] fixed_width_agrees [unfolded ok_iffs] split: if_splits)
    show ?thesis by (rule repeated_rows_read [OF n i _ l pk]) (use b w(2) in \<open>auto simp: concat_zeros\<close>)
  qed
qed

section \<open>Which pages can be rebuilt\<close>

lemma constant_stat_entry:
  "validate_stats_only_constant_stat json ctx page = Inr s \<Longrightarrow>
   \<exists>e. get (so_zone_stats ctx) (unat (cp_stats_ref page)) = Some e \<and> zs_min (ze_stats e) = Some s \<and> zs_max (ze_stats e) = Some s"
  by (auto simp: validate_stats_only_constant_stat_def stats_only_min_def ok_iffs split: if_splits option.splits)

lemma entry_bound_shape:
  assumes "entry_validate e = Ok ()" "zs_min (ze_stats e) = Some s"
  shows "validate_stat_scalar_shape s = Inr ()"
proof -
  obtain us where "try_map validate_bound (scalars (ze_stats e)) = Inr us"
    using assms(1) by (auto simp: entry_validate_def zone_stats_validate_def ok_iffs split: if_splits)
  then have "validate_bound (scalars (ze_stats e) ! 0) = Inr (us ! 0)" by (rule try_map_nth) (simp add: scalars_def assms(2))
  then show ?thesis by (auto simp: scalars_def assms(2) validate_bound_def ok_iffs)
qed

lemma shape_lengths:
  assumes "validate_stat_scalar_shape s = Inr ()"
  shows "length (ss_bytes s) \<le> 16" "stat_kind_fixed_len (ss_kind s) = Some n \<Longrightarrow> length (ss_bytes s) = n"
  using assms by (auto simp: validate_shape_iff split: option.splits)

lemma length_repeat: "length (concat (replicate n b)) = n * length b"
  by (induction n) simp_all

lemma numcode_bits_exist:
  assumes "stat_scalar_matches_logical lt s" "validate_stat_scalar_shape s = Inr ()" "validate_numcode_logical_type lt d = Ok ()" "lt \<noteq> LT_Bool"
  shows "\<exists>raw. stats_only_numcode_bits lt s = Inr raw"
  using assms(1,3,4) shape_lengths(2) [OF assms(2)]
  by (cases lt) (auto simp: stat_scalar_matches_logical_def Let_def validate_numcode_logical_type_def numcode_types_def
      stats_only_numcode_bits_def read_words_Ok usize_limit_def)

lemma rows_times: "w \<le> 32 \<Longrightarrow> unat (n :: u32) * w \<le> 2 ^ 32 * 32"
  using unsigned_less [where 'a = nat, of n] by (intro mult_le_mono) simp_all

lemma rows_times_fit: "w \<le> 32 \<Longrightarrow> checked_mul (unat (n :: u32)) w = Some (unat n * w)"
  using rows_times [of w n] by (simp add: checked_mul_def usize_limit_def)

lemma constant_values_exist:
  assumes v: "validate_stats_only_constant_stat json ctx page = Inr s" and sh: "validate_stat_scalar_shape s = Inr ()"
    and pair: "validate_logical_physical_pair_with_options (so_logical_type ctx) (so_physical_kind ctx) opts = Ok ()"
    and nb: "so_logical_type ctx = LT_Bool \<longrightarrow> so_physical_kind ctx \<noteq> PK_NumCode"
    and src: "validate_stats_only_all_non_null_reconstruction_source (so_physical_kind ctx) = Inr ()"
  shows "\<exists>vs. stats_only_constant_values json ctx page s = Inr vs \<and> length vs \<le> 2 ^ 32 * 32"
proof -
  note l = shape_lengths [OF sh] and rm = rows_times [where n = "column_page.cp_row_count page"]
    and rc = rows_times_fit [where n = "column_page.cp_row_count page"]
  from src consider "so_physical_kind ctx = PK_Boolean" | "so_physical_kind ctx = PK_FileCode" | "so_physical_kind ctx = PK_NumCode"
    | "so_physical_kind ctx = PK_FixedBytes" | "so_physical_kind ctx = PK_VarBytes"
    by (cases "so_physical_kind ctx") auto
  then show ?thesis
  proof cases
    case 1
    then obtain b where "validate_stats_only_boolean_scalar s = Inr b"
      using v by (auto simp: validate_stats_only_constant_stat_def ok_iffs split: if_splits)
    then show ?thesis using 1 rm [of 1] by (simp add: stats_only_constant_values_def)
  next
    case 2
    then obtain code where "validate_stats_only_filecode_scalar s (so_dictionary_len ctx) = Inr code"
      using v by (auto simp: validate_stats_only_constant_stat_def ok_iffs split: if_splits)
    then show ?thesis using 2 rc [of 4] rm [of 4] by (simp add: stats_only_constant_values_def length_repeat del: length_concat)
  next
    case 3
    then have "stat_scalar_matches_logical (so_logical_type ctx) s" "validate_numcode_logical_type (so_logical_type ctx) (bool_declared_numeric opts) = Ok ()"
      using v pair by (auto simp: validate_stats_only_constant_stat_def validate_pair_iff ok_iffs split: if_splits)
    then obtain raw where "stats_only_numcode_bits (so_logical_type ctx) s = Inr raw" using numcode_bits_exist [OF _ sh] nb 3 by blast
    then show ?thesis using 3 by (simp add: stats_only_constant_values_def constant_encode_eq)
  next
    case 4
    then obtain w where w: "fixed_width_for (so_logical_type ctx) PK_FixedBytes = Inr w" "length (ss_bytes s) = w"
      using v by (auto simp: validate_stats_only_constant_stat_def ok_iffs split: if_splits)
    then show ?thesis
      using 4 l(1) rc [of w] rm [of w] by (simp add: stats_only_constant_values_def length_repeat del: length_concat)
  next
    case 5
    then obtain b where b: "validate_stats_only_varbytes_scalar json (so_logical_type ctx) s = Inr b"
      using v by (auto simp: validate_stats_only_constant_stat_def ok_iffs split: if_splits)
    then have "b = ss_bytes s" by (auto simp: validate_stats_only_varbytes_scalar_def ok_iffs split: if_splits)
    then show ?thesis
      using 5 b l(1) rc [of "4 + length b"] rm [of "4 + length b"]
      by (simp add: stats_only_constant_values_def length_repeat checked_add_def usize_limit_def del: length_concat)
  qed
qed

lemma null_values_exist:
  assumes pair: "validate_logical_physical_pair_with_options (so_logical_type ctx) (so_physical_kind ctx) opts = Ok ()"
    and src: "validate_stats_only_all_null_reconstruction_source (so_physical_kind ctx) = Inr ()"
  shows "\<exists>vs. stats_only_all_null_values ctx page = Inr vs \<and> length vs \<le> 2 ^ 32 * 32"
proof (cases "so_physical_kind ctx = PK_NumCode")
  case True
  then show ?thesis by (simp add: stats_only_all_null_values_def constant_encode_eq)
next
  case False
  then have pk: "so_physical_kind ctx \<in> {PK_Boolean, PK_FileCode, PK_FixedBytes, PK_VarBytes}"
    using src by (cases "so_physical_kind ctx") auto
  have "\<exists>w \<le> 32. (if so_physical_kind ctx = PK_VarBytes then Ok 4 else fixed_width_for (so_logical_type ctx) (so_physical_kind ctx)) = Inr w"
    using pk pair by (auto simp: fixed_width_for_def validate_pair_iff ok_or_simps)
  then obtain w where w: "w \<le> 32" "(if so_physical_kind ctx = PK_VarBytes then Ok 4 else fixed_width_for (so_logical_type ctx) (so_physical_kind ctx)) = Inr w"
    by blast
  show ?thesis
    using False pk w(2) rows_times_fit [OF w(1)] rows_times [OF w(1)]
    by (auto simp: stats_only_all_null_values_def Let_def ok_iffs ok_or_simps split: if_splits)
qed

lemma stats_only_node_builds:
  assumes "length vs \<le> 2 ^ 32 * 32" "\<And>b. nb = Some b \<Longrightarrow> length b \<le> 2 ^ 32"
  shows "\<exists>out. build_single_node crc rows k lt pk nb vs = Inr out \<and> length out < usize_limit"
proof -
  let ?bufs = "single_buffers nb vs"
  let ?p = "built_payload crc rows 0 [single_node rows k lt pk (length ?bufs)] ?bufs"
  have "length (concat (map snd ?bufs)) \<le> 2 ^ 32 + 2 ^ 32 * 32"
    using assms by (auto simp: single_buffers_def split: option.split)
  then have bd: "buildable rows 0 [single_node rows k lt pk (length ?bufs)] ?bufs"
    using length_single_buffers [of nb vs]
    by (simp add: buildable_def payload_size_def usize_limit_def encoding_node_wf_def single_node_def del: length_concat)
  have "length (pl_data ?p) < usize_limit"
    using bd length_built_single [OF length_single_buffers, of crc rows 0 _ nb vs] by (simp add: buildable_def)
  then show ?thesis using build_single_node_Ok [OF bd] by blast
qed

lemma all_null_bitmap_exists:
  "unat rows + 7 < 2 ^ 32 \<Longrightarrow> \<exists>bm. all_null_bitmap rows = Inr bm \<and> length bm \<le> 2 ^ 32"
proof -
  assume "unat rows + 7 < 2 ^ 32"
  then have "\<exists>n \<le> 2 ^ 32. page_bitmap_len rows = Inr n"
    by (auto simp: page_bitmap_len_def checked_add_word_def unat_div_distrib unat_word_ariths ok_or_simps)
  then show ?thesis by (auto simp: all_null_bitmap_def Let_def)
qed

lemma rebuilt_reads:
  assumes b: "build_single_node crc (column_page.cp_row_count page) (stats_only_materialized_encoding (so_physical_kind ctx))
      (so_logical_type ctx) (so_physical_kind ctx) nb vs = Inr out" and l: "length out < usize_limit"
    and r: "length vs < usize_limit \<Longrightarrow>
      and_then (decode_all_rows (stats_only_array ctx page nb vs)) (try_map (logical_value dl)) = Inr rows"
  shows "\<exists>p. payload_parse crc out = Inr p \<and> column_payload_to_logical_page p page dl = Inr \<lparr>lp_values = rows\<rparr>"
proof -
  obtain p where p: "payload_parse crc out = Inr p" "length vs < usize_limit" "payload_array p page = Inr (stats_only_array ctx page nb vs)"
    using single_node_array [OF b l refl] unfolding stats_only_array_def by blast
  show ?thesis using r [OF p(2)] p(1) by (auto simp: column_payload_to_logical_page_def p(3) ok_iffs)
qed

lemma all_null_not_non_null:
  "page_rules crc page \<Longrightarrow> page_all_null page \<Longrightarrow> \<not> page_all_non_null page"
  by (simp add: page_rules_def)

section \<open>An example\<close>

text \<open>Three rows, all of one scalar.\<close>

definition constant_zone :: "stat_scalar \<Rightarrow> zone_stats_entry" where
  "constant_zone s =
     \<lparr>ze_table_id = 0, ze_segment_id = 0, ze_morsel_id = 0, ze_column_id = 7, ze_non_null_count = 3, ze_distinct_count = 1,
      ze_run_count = 1,
      ze_stats = \<lparr>zs_scope = ZS_Morsel, zs_row_count = 3, zs_null_count = 0, zs_min = Some s, zs_max = Some s, zs_flags = 9\<rparr>,
      ze_min_domain_rank = 0, ze_max_domain_rank = 0, ze_exact_set_ref = 0, ze_bloom_ref = 0\<rparr>"

definition constant_page :: column_page where
  "constant_page =
     \<lparr>cp_column_id = 7, cp_morsel_id = 0, cp_row_count = 3, cp_non_null_count = 3, cp_null_count = 0, cp_encoding_root = 0xFFFFFFFF,
      cp_page_offset = 0, cp_page_length = 0, cp_uncompressed_length = 0, cp_stats_ref = 0,
      cp_flags = PAGE_FLAG_STATS_ONLY_CONSTANT OR PAGE_FLAG_ALL_NON_NULL, cp_checksum = 0\<rparr>"

definition constant_context :: "logical_type \<Rightarrow> physical_kind \<Rightarrow> stat_scalar \<Rightarrow> page_validation_context" where
  "constant_context logical physical s =
     \<lparr>pvc_table_id = None, pvc_segment_id = None, pvc_column_id = 7, pvc_logical_type = logical, pvc_physical_kind = physical,
      pvc_dictionary = None, pvc_zone_stats = Some [constant_zone s], pvc_codec_descriptors = [], pvc_nested_schema = None\<rparr>"

definition int_scalar :: stat_scalar where
  "int_scalar = \<lparr>ss_kind = SK_Int64, ss_bytes = [5, 0, 0, 0, 0, 0, 0, 0], ss_truncated = False\<rparr>"

definition bool_scalar :: stat_scalar where
  "bool_scalar = \<lparr>ss_kind = SK_UInt64, ss_bytes = [1, 0, 0, 0, 0, 0, 0, 0], ss_truncated = False\<rparr>"

lemma constant_page_envelope: "stats_only_envelope_bad (\<lambda>_. 0) constant_page = Ok False"
  by (simp add: stats_only_envelope_bad_def constant_page_def page_flag_codec_def page_flag_defs compression_codec_from_def ok_or_simps)

lemma constant_page_flags: "page_all_non_null constant_page" "\<not> page_all_null constant_page"
  by (simp_all add: page_all_non_null_def page_all_null_def constant_page_def page_flag_defs)

lemma constant_page_rules: "page_rules (\<lambda>_. 0) constant_page"
  by (simp add: page_rules_def constant_page_def page_all_non_null_def page_all_null_def page_stats_only_def page_flag_codec_def
      page_flag_defs compression_codec_from_def ok_or_simps)

lemma constant_stat_example:
  "s \<in> {int_scalar, bool_scalar} \<Longrightarrow> stat_scalar_matches_logical lt s \<Longrightarrow>
   validate_stats_only_constant_stat json (stats_only_context_for (constant_context lt PK_NumCode s) [constant_zone s]) constant_page = Ok s"
  by (auto simp: validate_stats_only_constant_stat_def stats_only_context_for_def constant_context_def constant_page_def constant_zone_def
      get_def stats_only_scope_def stats_only_min_def flags_contain_def CONSTANT_def HAS_MIN_MAX_def MINMAX_TRUNCATED_def
      int_scalar_def bool_scalar_def ok_or_simps)

lemma constant_page_validated:
  "s \<in> {int_scalar, bool_scalar} \<Longrightarrow> stat_scalar_matches_logical lt s \<Longrightarrow>
   validate_stats_only_constant_page json (\<lambda>_. 0) (constant_context lt PK_NumCode s) constant_page = Ok ()"
  using constant_page_flags constant_stat_example [of s lt json]
  by (simp add: validate_stats_only_constant_page_def validate_stats_only_constant_page_envelope_def constant_page_envelope
      page_all_non_null_def page_all_null_def constant_context_def)

section \<open>Properties\<close>

text \<open>
  C31: A page rebuilt from the statistics parses, and its rows are what the page entry and the zone
  statistics say: nulls, or in every row the one value that is the minimum and the maximum of the
  zone entry the page names. The column must have a pair of types the catalogue accepts.
\<close>

theorem stats_only_rows:
  assumes "materialize_stats_only_constant_page_payload json crc ctx page = Ok out" "length out < usize_limit"
    and "validate_logical_physical_pair_with_options (so_logical_type ctx) (so_physical_kind ctx) opts = Ok ()"
  shows "\<exists>payload v. payload_parse crc out = Ok payload \<and>
    column_payload_to_logical_page payload page (so_dictionary_len ctx) = Ok \<lparr>lp_values = replicate (unat (column_page.cp_row_count page)) v\<rparr> \<and>
    (if page_all_non_null page
     then \<exists>e s. get (so_zone_stats ctx) (unat (cp_stats_ref page)) = Some e \<and> zs_min (ze_stats e) = Some s \<and>
       zs_max (ze_stats e) = Some s \<and> v = Some (scalar_row (so_logical_type ctx) (so_physical_kind ctx) (ss_bytes s))
     else v = None)"
proof -
  have b: "so_physical_kind ctx = PK_Boolean \<Longrightarrow> so_logical_type ctx = LT_Bool" using assms(3) by (simp add: validate_pair_iff)
  show ?thesis
  proof (cases "page_all_non_null page")
    case True
    then obtain s vs where s: "validate_stats_only_constant_stat json ctx page = Inr s" "stats_only_constant_values json ctx page s = Inr vs"
      "build_single_node crc (column_page.cp_row_count page) (stats_only_materialized_encoding (so_physical_kind ctx))
         (so_logical_type ctx) (so_physical_kind ctx) None vs = Inr out"
      using assms(1) by (auto simp: materialize_stats_only_constant_page_payload_def page_all_non_null_def ok_iffs split: if_splits)
    show ?thesis
      using rebuilt_reads [OF s(3) assms(2) constant_page_rows [OF s(2) _ b]] constant_stat_entry [OF s(1)] True by auto
  next
    case False
    then obtain bm vs where s: "all_null_bitmap (column_page.cp_row_count page) = Inr bm" "stats_only_all_null_values ctx page = Inr vs"
      "build_single_node crc (column_page.cp_row_count page) (stats_only_materialized_encoding (so_physical_kind ctx))
         (so_logical_type ctx) (so_physical_kind ctx) (Some bm) vs = Inr out"
      using assms(1) by (auto simp: materialize_stats_only_constant_page_payload_def page_all_non_null_def ok_iffs split: if_splits)
    show ?thesis using rebuilt_reads [OF s(3) assms(2) null_page_rows [OF s(2) _ b s(1)]] False by auto
  qed
qed


theorem stats_only_rows_witness:
  "\<exists>out payload. materialize_stats_only_constant_page_payload (\<lambda>_. True) (\<lambda>_. 0)
      (stats_only_context_for (constant_context LT_Int32 PK_NumCode int_scalar) [constant_zone int_scalar]) constant_page = Ok out \<and>
    payload_parse (\<lambda>_. 0) out = Ok payload \<and>
    column_payload_to_logical_page payload constant_page None =
      Ok \<lparr>lp_values = [Some [5, 0, 0, 0, 0, 0, 0, 0], Some [5, 0, 0, 0, 0, 0, 0, 0], Some [5, 0, 0, 0, 0, 0, 0, 0]]\<rparr>"
proof -
  let ?c = "stats_only_context_for (constant_context LT_Int32 PK_NumCode int_scalar) [constant_zone int_scalar]"
  have c: "so_physical_kind ?c = PK_NumCode" "so_logical_type ?c = LT_Int32" "so_dictionary_len ?c = None"
      "so_zone_stats ?c = [constant_zone int_scalar]"
    by (simp_all add: stats_only_context_for_def constant_context_def)
  have s: "validate_stats_only_constant_stat (\<lambda>_. True) ?c constant_page = Ok int_scalar"
    by (rule constant_stat_example) (simp_all add: stat_scalar_matches_logical_def int_scalar_def)
  have p: "validate_logical_physical_pair_with_options (so_logical_type ?c) (so_physical_kind ?c) \<lparr>bool_declared_numeric = False\<rparr> = Ok ()"
    by (simp add: c validate_pair_iff validate_numcode_logical_type_def numcode_types_def)
  have sh: "validate_stat_scalar_shape int_scalar = Inr ()" by (simp add: int_scalar_def validate_stat_scalar_shape_def)
  have src: "validate_stats_only_all_non_null_reconstruction_source (so_physical_kind ?c) = Inr ()" by (simp add: c)
  have nb: "so_logical_type ?c = LT_Bool \<longrightarrow> so_physical_kind ?c \<noteq> PK_NumCode" by (simp add: c)
  obtain vs where v: "stats_only_constant_values (\<lambda>_. True) ?c constant_page int_scalar = Ok vs" "length vs \<le> 2 ^ 32 * 32"
    using constant_values_exist [OF s sh p nb src] by blast
  obtain out where o: "build_single_node (\<lambda>_. 0) (column_page.cp_row_count constant_page) EK_Constant LT_Int32 PK_NumCode None vs = Ok out"
    "length out < usize_limit"
    using stats_only_node_builds [OF v(2), where nb = None] by blast
  have m: "materialize_stats_only_constant_page_payload (\<lambda>_. True) (\<lambda>_. 0) ?c constant_page = Ok out"
    using s v(1) o(1) constant_page_flags
    by (simp add: materialize_stats_only_constant_page_payload_def constant_page_envelope c page_all_non_null_def)
  have "unat (column_page.cp_row_count constant_page) = 3" by (simp add: constant_page_def)
  then have r: "replicate (unat (column_page.cp_row_count constant_page)) x = [x, x, x]" for x :: "bytes option"
    by (simp add: eval_nat_numeral)
  have z: "get [constant_zone int_scalar] (unat (cp_stats_ref constant_page)) = Some (constant_zone int_scalar)"
    "zs_min (ze_stats (constant_zone int_scalar)) = Some int_scalar" "ss_bytes int_scalar = [5, 0, 0, 0, 0, 0, 0, 0]"
    by (simp_all add: get_def constant_page_def constant_zone_def int_scalar_def)
  show ?thesis using stats_only_rows [OF m o(2) p] constant_page_flags m by (auto simp: c r z scalar_row_def)
qed


end
