(* ===== verification/Page_Validation.thy ===== *)
theory Page_Validation
  imports Stats_Only Nested Compression
begin

text \<open>
  The validation of one page (\<^verbatim>\<open>page_validation.rs\<close>): its tree, its null bitmaps, its values, the
  pages without a payload that are rebuilt from the zone statistics, and the pages of a
  registered codec.
\<close>

section \<open>Codec features\<close>

primrec page_codec_feature_bit :: "compression_codec \<Rightarrow> u64" where
  "page_codec_feature_bit CC_None = 0"
| "page_codec_feature_bit CC_Lz4 = FEATURE_CODEC_LZ4"
| "page_codec_feature_bit CC_Zstd = FEATURE_CODEC_ZSTD"

definition hex16 :: "u64 \<Rightarrow> string" where
  "hex16 w = concat (map (\<lambda>i. [''0123456789abcdef'' ! unat (drop_bit (4 * (15 - i)) w AND 15)]) [0..<16])"

definition validate_page_codec_feature_advertisement :: "column_page \<Rightarrow> u64 option \<Rightarrow> u64 option \<Rightarrow> unit res" where
  "validate_page_codec_feature_advertisement page file_features section_features =
     and_then (page_flag_codec (cp_flags page)) (\<lambda>codec.
     let required = page_codec_feature_bit codec in
     if required = 0 then Ok ()
     else if (case file_features of Some f \<Rightarrow> f AND required = 0 | None \<Rightarrow> False) \<or>
             (case section_features of Some f \<Rightarrow> f AND required = 0 | None \<Rightarrow> False)
     then Fail (BadSection (''page codec requires missing feature bit 0x'' @ hex16 required))
     else Ok ())"

section \<open>Null bitmaps\<close>

definition tree_buffer_bytes :: "page_payload \<Rightarrow> page_tree_node \<Rightarrow> page_buffer_kind \<Rightarrow> bytes option res" where
  "tree_buffer_bytes payload tree kind =
     and_then (buffer_of_kind tree kind) (\<lambda>d.
     case d of
       Some descriptor \<Rightarrow> map_ok Some (buffer_bytes_for_descriptor payload descriptor)
     | None \<Rightarrow> Ok None)"

definition byte_count_ones :: "u8 \<Rightarrow> nat" where
  "byte_count_ones b = length (filter (bit b) [0..<8])"

primrec count_null_bits :: "u32 \<Rightarrow> bytes \<Rightarrow> u32 res" where
  "count_null_bits counted [] = Ok counted"
| "count_null_bits counted (b # bs) =
     and_then (ok_or ArithOverflow (checked_add_word counted (of_nat (byte_count_ones b)))) (\<lambda>counted. count_null_bits counted bs)"

definition validate_null_bitmap :: "bytes option \<Rightarrow> u32 \<Rightarrow> u32 option \<Rightarrow> unit res" where
  "validate_null_bitmap null_bitmap row_count expected_null_count =
     (if (case expected_null_count of Some n \<Rightarrow> n \<noteq> 0 | None \<Rightarrow> False) \<and> null_bitmap = None then Fail PageCorrupt
      else
        (case null_bitmap of
           None \<Rightarrow> Ok ()
         | Some bs \<Rightarrow>
             and_then (page_bitmap_len row_count) (\<lambda>expected_len.
             if length bs \<noteq> expected_len then Fail PageCorrupt
             else
               and_then
                 (if unat row_count mod 8 \<noteq> 0 \<and> expected_len \<noteq> 0 then
                    and_then (index bs (expected_len - 1)) (\<lambda>b.
                    if b AND NOT (push_bit (unat row_count mod 8) 1 - 1) \<noteq> 0 then Fail PageCorrupt else Ok ())
                  else Ok ()) (\<lambda>_.
               and_then (count_null_bits 0 bs) (\<lambda>counted.
               if (case expected_null_count of Some n \<Rightarrow> counted \<noteq> n | None \<Rightarrow> False) then Fail PageCorrupt else Ok ())))))"

definition validate_tree_null_bitmap :: "page_payload \<Rightarrow> page_tree_node \<Rightarrow> u32 \<Rightarrow> u32 option \<Rightarrow> unit res" where
  "validate_tree_null_bitmap payload tree row_count expected_null_count =
     and_then (tree_buffer_bytes payload tree PB_NullBitmap) (\<lambda>null_bitmap.
     validate_null_bitmap null_bitmap row_count expected_null_count)"

section \<open>Nested pages\<close>

lemma each_valid_cong [fundef_cong]: "xs = ys \<Longrightarrow> (\<And>x. x \<in> set ys \<Longrightarrow> f x = g x) \<Longrightarrow> each_valid f xs = each_valid g ys"
  unfolding each_valid_def by (auto cong: try_map_cong)

lemma size_child [termination_simp]: "x \<in> set (pt_children t) \<Longrightarrow> size x < size t"
  by (cases t) (auto dest: size_list_estimation [where y = "size x" for x] split: list.splits simp: less_Suc_eq_le trans_le_add2 size_list_estimation')

function validate_tree_matches_nested_schema :: "page_tree_node \<Rightarrow> nested_schema_node \<Rightarrow> unit res" where
  "validate_tree_matches_nested_schema tree schema =
     (if en_logical_type (pt_node tree) \<noteq> ns_logical schema \<or> en_physical_kind (pt_node tree) \<noteq> ns_physical schema \<or>
         length (pt_children tree) \<noteq> length (ns_children schema)
      then Fail PageCorrupt
      else each_valid (\<lambda>(child_tree, child_schema). validate_tree_matches_nested_schema child_tree child_schema)
        (zip (pt_children tree) (ns_children schema)))"
  by pat_completeness auto

termination
  by (relation "measure (\<lambda>(t, _). size t)") (auto dest!: set_zip_leftD intro: size_child)

definition fixed_list_width :: "u32 \<Rightarrow> u32 \<times> u32 \<Rightarrow> unit res" where
  "fixed_list_width width pair =
     and_then (ok_or ArithOverflow (if fst pair \<le> snd pair then Some (snd pair - fst pair) else None)) (\<lambda>d.
     if d \<noteq> width then Fail PageCorrupt else Ok ())"

definition validate_fixed_size_list :: "nested_schema_node option \<Rightarrow> list_payload \<Rightarrow> u32 \<Rightarrow> unit res" where
  "validate_fixed_size_list schema layout logical_len =
     (case schema of
        Some s \<Rightarrow>
          if ns_fixed_size_list_len s \<noteq> 0 then
            let width = ns_fixed_size_list_len s; offsets = ll_offsets (lp_layout layout) in
            and_then (each_valid (fixed_list_width width) (zip offsets (tl offsets))) (\<lambda>_.
            and_then (ok_or ArithOverflow (if unat logical_len * unat width < 2 ^ 32 then Some (logical_len * width) else None)) (\<lambda>n.
            if lp_child_row_count layout \<noteq> n then Fail PageCorrupt else Ok ()))
          else Ok ()
      | None \<Rightarrow> Ok ())"

text \<open>The layout buffer of a nested node.\<close>

definition child_layout :: "page_payload \<Rightarrow> page_tree_node \<Rightarrow> bytes res" where
  "child_layout payload tree = and_then (tree_buffer_bytes payload tree PB_ChildLayout) (ok_or PageCorrupt)"

definition validate_leaf :: "(bytes \<Rightarrow> bool) \<Rightarrow> page_validation_context \<Rightarrow> page_payload \<Rightarrow> page_tree_node \<Rightarrow> unit res" where
  "validate_leaf json ctx payload tree =
     (if pt_children tree \<noteq> [] then Fail PageCorrupt
      else
        and_then (tree_buffer_bytes payload tree PB_Values) (\<lambda>vs.
        and_then (ok_or PageCorrupt vs) (\<lambda>vs.
        validate_values_buffer json (en_logical_type (pt_node tree)) (en_physical_kind (pt_node tree))
          (en_encoding_kind (pt_node tree)) (en_logical_len (pt_node tree)) vs (pvc_dictionary ctx))))"

definition schema_child :: "nested_schema_node option \<Rightarrow> nat \<Rightarrow> nested_schema_node option" where
  "schema_child schema i = Option.bind schema (\<lambda>s. get (ns_children s) i)"

lemma enumerate_zip_child: "(i, x, y) \<in> set (enumerate 0 (zip xs ys)) \<Longrightarrow> x \<in> set xs"
  by (metis in_set_zipE set_zip_leftD enumerate_eq_zip)

function validate_nested_node ::
    "(bytes \<Rightarrow> bool) \<Rightarrow> page_validation_context \<Rightarrow> page_payload \<Rightarrow> page_tree_node \<Rightarrow> nested_schema_node option \<Rightarrow> unit res" where
  "validate_nested_node json ctx payload tree schema =
     (let len = en_logical_len (pt_node tree) in
      if en_physical_kind (pt_node tree) = PK_List then
        (case pt_children tree of
           [child] \<Rightarrow>
             and_then (child_layout payload tree) (\<lambda>layout_bytes.
             and_then (list_payload_parse layout_bytes) (\<lambda>layout.
             and_then (list_payload_validate layout) (\<lambda>_.
             if list_row_count (lp_layout layout) \<noteq> unat len then Fail PageCorrupt
             else
               and_then (validate_fixed_size_list schema layout len) (\<lambda>_.
               if en_logical_len (pt_node child) \<noteq> lp_child_row_count layout then Fail PageCorrupt
               else
                 and_then (validate_tree_null_bitmap payload child (en_logical_len (pt_node child)) None) (\<lambda>_.
                 validate_nested_node json ctx payload child (schema_child schema 0))))))
         | _ \<Rightarrow> Fail PageCorrupt)
      else if en_physical_kind (pt_node tree) = PK_Struct then
        and_then (child_layout payload tree) (\<lambda>layout_bytes.
        and_then (struct_payload_parse layout_bytes) (\<lambda>layout.
        and_then (struct_payload_validate layout (ucast len)) (\<lambda>_.
        if length (pt_children tree) \<noteq> length (sl_field_row_counts (sp_layout layout)) then Fail PageCorrupt
        else
          each_valid (\<lambda>(i, child, expected).
            if ucast (en_logical_len (pt_node child)) \<noteq> expected \<or> en_logical_len (pt_node child) \<noteq> len then Fail PageCorrupt
            else
              and_then (validate_tree_null_bitmap payload child (en_logical_len (pt_node child)) None) (\<lambda>_.
              validate_nested_node json ctx payload child (schema_child schema i)))
            (enumerate 0 (zip (pt_children tree) (sl_field_row_counts (sp_layout layout)))))))
      else if en_physical_kind (pt_node tree) = PK_Map then
        (case pt_children tree of
           [key, val] \<Rightarrow>
             and_then (child_layout payload tree) (\<lambda>layout_bytes.
             and_then (map_payload_parse layout_bytes) (\<lambda>layout.
             and_then (map_validate layout) (\<lambda>_.
             if map_row_count layout \<noteq> unat len then Fail PageCorrupt
             else if en_physical_kind (pt_node key) \<in> {PK_List, PK_Struct, PK_Map} then Fail PageCorrupt
             else
               and_then (buffer_of_kind key PB_NullBitmap) (\<lambda>key_nulls.
               if key_nulls \<noteq> None \<or> en_logical_len (pt_node key) \<noteq> ml_key_row_count layout \<or>
                 en_logical_len (pt_node val) \<noteq> ml_value_row_count layout
               then Fail PageCorrupt
               else
                 and_then (validate_nested_node json ctx payload key (schema_child schema 0)) (\<lambda>_.
                 and_then (validate_tree_null_bitmap payload val (en_logical_len (pt_node val)) None) (\<lambda>_.
                 validate_nested_node json ctx payload val (schema_child schema 1)))))))
         | _ \<Rightarrow> Fail PageCorrupt)
      else validate_leaf json ctx payload tree)"
  by pat_completeness auto

termination
  by (relation "measure (\<lambda>(_, _, _, t, _). size t)")
    (auto intro!: size_child dest: enumerate_zip_child)

definition validate_nested_tree ::
    "(bytes \<Rightarrow> bool) \<Rightarrow> page_validation_context \<Rightarrow> page_payload \<Rightarrow> page_tree_node \<Rightarrow> unit res" where
  "validate_nested_tree json ctx payload tree = validate_nested_node json ctx payload tree (pvc_nested_schema ctx)"

section \<open>Pages\<close>

definition validate_value_stream_elided_page :: "page_validation_context \<Rightarrow> column_page \<Rightarrow> encoding_kind \<Rightarrow> unit res" where
  "validate_value_stream_elided_page ctx page kind =
     (if cp_non_null_count page = 0 \<or> kind \<noteq> EK_Constant then Fail PageCorrupt
      else if pvc_physical_kind ctx \<in> {PK_Boolean, PK_FileCode, PK_NumCode} then Ok ()
      else Fail PageCorrupt)"

text \<open>A page that is neither rebuilt from statistics nor registered.\<close>

definition validate_core_page ::
    "(bytes \<Rightarrow> bool) \<Rightarrow> page_validation_context \<Rightarrow> column_page \<Rightarrow> page_payload \<Rightarrow> encoding_node \<Rightarrow> unit res" where
  "validate_core_page json ctx page payload root =
     (if en_logical_type root \<noteq> pvc_logical_type ctx \<or> en_physical_kind root \<noteq> pvc_physical_kind ctx \<or>
         en_logical_len root \<noteq> column_page.cp_row_count page \<or> cp_encoding_root page \<noteq> ucast (as_encoding_kind (en_encoding_kind root))
      then Fail PageCorrupt
      else
        and_then (payload_tree_of payload) (\<lambda>tree.
        and_then (case pvc_nested_schema ctx of Some schema \<Rightarrow> validate_tree_matches_nested_schema tree schema | None \<Rightarrow> Ok ()) (\<lambda>_.
        and_then (validate_tree_null_bitmap payload tree (column_page.cp_row_count page) (Some (cp_null_count page))) (\<lambda>_.
        and_then (if cp_flags page AND PAGE_FLAG_VALUE_STREAM_ELIDED \<noteq> 0
                  then validate_value_stream_elided_page ctx page (en_encoding_kind root) else Ok ()) (\<lambda>_.
        if pvc_physical_kind ctx \<in> {PK_List, PK_Struct, PK_Map} then validate_nested_tree json ctx payload tree
        else
          and_then (tree_buffer_bytes payload tree PB_Values) (\<lambda>vs.
          and_then (ok_or PageCorrupt vs) (\<lambda>vs.
          validate_values_buffer json (pvc_logical_type ctx) (pvc_physical_kind ctx) (en_encoding_kind root)
            (column_page.cp_row_count page) vs (pvc_dictionary ctx))))))))"

text \<open>A registered page is validated as what it is materialized to; \<open>fuel\<close> bounds the calls.\<close>

primrec validate_page_loop ::
    "(bytes \<Rightarrow> bool) \<Rightarrow> (bytes \<Rightarrow> u32) \<Rightarrow> codec_resolver \<Rightarrow> page_validation_context \<Rightarrow> nat \<Rightarrow> column_page \<Rightarrow> page_payload \<Rightarrow> unit res" where
  "validate_page_loop json crc resolver ctx 0 page payload = Panicked"
| "validate_page_loop json crc resolver ctx (Suc fuel) page payload =
     (if cp_flags page AND PAGE_FLAG_STATS_ONLY_CONSTANT \<noteq> 0 then validate_stats_only_constant_page json crc ctx page
      else
        and_then (root_node payload) (\<lambda>root.
        if en_encoding_kind root = EK_RegisteredEncoding then
          and_then (materialize_registered_page_payload crc resolver payload page (pvc_logical_type ctx) (pvc_physical_kind ctx)
            (pvc_codec_descriptors ctx) (map_option view_len (pvc_dictionary ctx))) (\<lambda>m.
          and_then (ok_or BadCodecExtension m) (\<lambda>m.
          and_then (root_node (mt_payload m)) (\<lambda>new_root.
          validate_page_loop json crc resolver ctx fuel
            (page\<lparr>cp_encoding_root := ucast (as_encoding_kind (en_encoding_kind new_root))\<rparr>) (mt_payload m))))
        else validate_core_page json ctx page payload root))"

definition validate_column_page_payload_with_registered_codecs ::
    "(bytes \<Rightarrow> bool) \<Rightarrow> (bytes \<Rightarrow> u32) \<Rightarrow> codec_resolver \<Rightarrow> page_validation_context \<Rightarrow> column_page \<Rightarrow> page_payload \<Rightarrow> unit res" where
  "validate_column_page_payload_with_registered_codecs json crc resolver ctx page payload =
     validate_page_loop json crc resolver ctx 2 page payload"

definition validate_column_page_payload ::
    "(bytes \<Rightarrow> bool) \<Rightarrow> (bytes \<Rightarrow> u32) \<Rightarrow> page_validation_context \<Rightarrow> column_page \<Rightarrow> page_payload \<Rightarrow> unit res" where
  "validate_column_page_payload json crc ctx page payload =
     validate_column_page_payload_with_registered_codecs json crc stable_resolver ctx page payload"

definition validate_column_page_wire ::
    "(bytes \<Rightarrow> bool) \<Rightarrow> (bytes \<Rightarrow> u32) \<Rightarrow> coders \<Rightarrow> page_validation_context \<Rightarrow> column_page \<Rightarrow> bytes \<Rightarrow> unit res" where
  "validate_column_page_wire json crc c ctx page page_wire =
     and_then (column_page_payload crc c page_wire page) (\<lambda>raw.
     and_then (payload_parse crc raw) (\<lambda>payload.
     validate_column_page_payload json crc ctx page payload))"

section \<open>The buffers of a page of one node\<close>

lemma single_tree:
  assumes "payload_tree_of p = Inr t" "pl_nodes p = [n]" "length (pl_buffers p) < usize_limit"
  shows "t = PTree n (pl_buffers p) []" "root_node p = Inr n"
proof -
  have t: "tree_nodes t = [n]" "tree_buffers t = pl_buffers p" "en_node_id (pt_node t) = ph_root_node_id (pl_header p)"
    using assms payload_tree_iff [of "pl_nodes p" "pl_buffers p" "ph_root_node_id (pl_header p)" t]
    by (simp_all add: payload_tree_of_def usize_limit_def)
  obtain m bs ts where c: "t = PTree m bs ts" by (cases t)
  have "tree_nodes u \<noteq> []" for u by (cases u) simp
  then have "ts = []" using t(1) by (cases ts) (auto simp: c)
  then show "t = PTree n (pl_buffers p) []" using t c by simp
  then show "root_node p = Inr n" using t(3) by (simp add: root_node_def unique_root_def assms(2))
qed

lemma descriptor_bytes_agree:
  assumes "length (pl_data p) < usize_limit" "buffer_bytes_for_descriptor p d = Inr b"
  shows "and_then (ok_or ArithOverflow (checked_add_word (bd_offset d) (bd_length d))) (\<lambda>e. map_ok Some (slice (pl_data p) (unat (bd_offset d)) (unat e)))
    = Inr (Some b)"
proof -
  have c: "unat (bd_offset d) + unat (bd_length d) < 2 ^ 64" "unat (bd_offset d) + unat (bd_length d) \<le> length (pl_data p)"
    "b = sub (pl_data p) (unat (bd_offset d)) (unat (bd_length d))"
    using assms by (auto simp: buffer_bytes_for_descriptor_def buffer_descriptor_bytes_def ok_iffs checked_add_eq_Some_iff usize_limit_def
        split: if_splits)
  have u: "unat (bd_offset d + bd_length d) = unat (bd_offset d) + unat (bd_length d)" using c(1) by (simp add: unat_add_no_overflow)
  show ?thesis using c u by (simp add: checked_add_word_def slice_Ok)
qed

lemma find_filter: "filter P xs = d # ds \<Longrightarrow> find P xs = Some d"
  by (induction xs) (auto split: if_splits)

lemma root_buffer:
  assumes "tree_buffer_bytes p (PTree n (pl_buffers p) []) k = Inr b" "length (pl_data p) < usize_limit"
  shows "buffer_bytes p k = Inr b"
proof (cases "filter (\<lambda>d. bd_kind d = k) (pl_buffers p)")
  case Nil
  then have "find (\<lambda>d. bd_kind d = k) (pl_buffers p) = None" by (auto simp: filter_empty_conv find_None_iff)
  then show ?thesis using assms(1) Nil by (simp add: tree_buffer_bytes_def buffer_of_kind_def buffer_bytes_def)
next
  case (Cons d ds)
  have ds: "ds = []" using assms(1) Cons by (auto simp: tree_buffer_bytes_def buffer_of_kind_def ok_iffs split: list.splits)
  have f: "find (\<lambda>d. bd_kind d = k) (pl_buffers p) = Some d"
    by (rule find_filter [OF Cons])
  obtain c where c: "buffer_bytes_for_descriptor p d = Inr c" "b = Some c"
    using assms(1) Cons ds by (auto simp: tree_buffer_bytes_def buffer_of_kind_def ok_iffs)
  show ?thesis using descriptor_bytes_agree [OF assms(2) c(1)] c(2) f by (simp add: buffer_bytes_def)
qed

section \<open>The null bitmap\<close>

lemma ones_Cons: "ones (b # bs) (8 + n) = byte_count_ones b + ones bs n"
proof -
  have "filter (stream_bit (b # bs)) [0..<8] = filter (bit b) [0..<8]"
    by (rule filter_cong [OF refl]) (auto simp: stream_bit_def)
  moreover have "stream_bit (b # bs) (8 + i) = stream_bit bs i" for i
    using div_mult_self4 [of 8 1 i] mod_mult_self4 [of 8 1 i] by (simp add: stream_bit_def)
  ultimately show ?thesis by (simp add: ones_add byte_count_ones_def) (simp add: ones_def)
qed

lemma count_null_bits_ones: "count_null_bits c bs = Inr n \<Longrightarrow> unat n = unat c + ones bs (8 * length bs)"
proof (induction bs arbitrary: c)
  case Nil
  then show ?case by (simp add: ones_def)
next
  case (Cons b bs)
  have "byte_count_ones b \<le> 8" unfolding byte_count_ones_def by (rule order_trans [OF length_filter_le]) simp
  then have u: "unat (of_nat (byte_count_ones b) :: u32) = byte_count_ones b" by (intro unat_of_nat_less) simp
  have m: "8 * length (b # bs) = 8 + 8 * length bs" by simp
  show ?case
    using Cons.prems Cons.IH unfolding m ones_Cons by (auto simp: ok_iffs checked_add_word_eq_Some_iff u unat_word_ariths)
qed

lemma bitmap_len_eq: "page_bitmap_len n = Inr k \<Longrightarrow> k = (unat n + 7) div 8"
  by (auto simp: page_bitmap_len_def ok_iffs checked_add_word_def unat_div_distrib unat_word_ariths split: if_splits)

lemma ones_padded:
  assumes "rows \<le> n" "\<And>i. rows \<le> i \<Longrightarrow> i < n \<Longrightarrow> \<not> stream_bit bs i"
  shows "ones bs n = ones bs rows"
proof -
  have "filter (\<lambda>i. stream_bit bs (rows + i)) [0..<n - rows] = []" using assms(2) by (simp add: filter_empty_conv)
  then show ?thesis using ones_add [of bs rows "n - rows"] assms(1) by simp
qed

lemma padding_clear:
  assumes "(b :: u8) AND NOT (push_bit k 1 - 1) = 0" "k \<le> j" "j < 8"
  shows "\<not> bit b j"
proof -
  have "\<not> bit (b AND NOT (push_bit k 1 - 1)) j" using assms(1) by simp
  then show ?thesis using assms(2,3) by (simp add: bit_and_iff bit_not_iff mask_eq_exp_minus_1 [symmetric] push_bit_of_1 bit_mask_iff)
qed

lemma validated_bitmap:
  assumes "validate_null_bitmap (Some bs) rows (Some n) = Inr ()"
  shows "length bs = (unat rows + 7) div 8" "ones bs (unat rows) = unat n"
proof -
  have l: "page_bitmap_len rows = Inr (length bs)" and c: "count_null_bits 0 bs = Inr n"
    and p: "unat rows mod 8 \<noteq> 0 \<Longrightarrow> length bs \<noteq> 0 \<Longrightarrow> last bs AND NOT (push_bit (unat rows mod 8) 1 - 1) = 0"
    using assms by (auto simp: validate_null_bitmap_def ok_iffs index_def last_conv_nth split: if_splits)
  show len: "length bs = (unat rows + 7) div 8" using bitmap_len_eq [OF l] .
  have "\<not> stream_bit bs i" if i: "unat rows \<le> i" "i < 8 * length bs" for i
  proof -
    have m: "unat rows mod 8 \<noteq> 0"
    proof
      assume "unat rows mod 8 = 0"
      then have "8 * length bs = unat rows" unfolding len by presburger
      then show False using i by simp
    qed
    have d: "length bs - 1 = unat rows div 8" unfolding len by (rule last_byte [OF m])
    have k: "length bs \<noteq> 0" using i by auto
    have q: "i div 8 = unat rows div 8"
    proof (rule antisym)
      show "unat rows div 8 \<le> i div 8" by (rule div_le_mono [OF i(1)])
      have "i div 8 < length bs" using i(2) by (simp add: less_mult_imp_div_less mult.commute)
      then show "i div 8 \<le> unat rows div 8" using d by simp
    qed
    have r: "unat rows mod 8 \<le> i mod 8" using i(1) q by (metis add_le_cancel_left div_mult_mod_eq)
    have "\<not> bit (last bs) (i mod 8)" by (rule padding_clear [OF p [OF m k] r]) simp
    moreover have "last bs = bs ! (i div 8)" using k d q by (simp add: last_conv_nth)
    ultimately show ?thesis by (simp add: stream_bit_def)
  qed
  moreover have "unat rows \<le> 8 * length bs" unfolding len by linarith
  ultimately have "ones bs (8 * length bs) = ones bs (unat rows)" by (intro ones_padded)
  then show "ones bs (unat rows) = unat n" using count_null_bits_ones [OF c] by simp
qed

section \<open>The rows of a validated page\<close>

text \<open>A page of the encoding \<^verbatim>\<open>Canonical\<close> and the type \<^verbatim>\<open>Null\<close> has no values: every row reads as null.\<close>

definition null_typed :: "encoded_array \<Rightarrow> bool" where
  "null_typed a \<longleftrightarrow> ea_encoding a = EK_Canonical \<and> ea_logical a = LT_Null"

text \<open>What stands for the value of a row that is not null.\<close>

primrec present :: "array_value \<Rightarrow> bool" where
  "present AV_Null = False"
| "present (AV_Bytes b) = True"
| "present (AV_OwnedBytes b) = True"
| "present (AV_Varint w) = True"
| "present (AV_Int64 w) = True"
| "present (AV_FileCode c) = True"
| "present (AV_NumCode w) = True"
| "present (AV_Boolean b) = True"
| "present (AV_ValidityBit b) = True"
| "present (AV_DictValue d) = False"

lemma value_from_i64_present: "ea_dictionary a = None \<Longrightarrow> value_from_i64 a x = Inr v \<Longrightarrow> present v"
  by (auto simp: value_from_i64_def code_value_def ok_iffs split: physical_kind.splits if_splits)

lemma slice_present: "ea_dictionary a = None \<Longrightarrow> value_from_i64_slice a r xs = Inr v \<Longrightarrow> present v"
  by (auto simp: value_from_i64_slice_def ok_iffs split: if_splits dest: value_from_i64_present)

lemma constant_present: "ea_dictionary a = None \<Longrightarrow> value_from_constant_payload a p = Inr v \<Longrightarrow> present v"
  by (auto simp: value_from_constant_payload_def Let_def split: if_splits dest: value_from_i64_present)

lemma codebook_present: "ea_dictionary a = None \<Longrightarrow> value_from_local_codebook a c = Inr v \<Longrightarrow> present v"
  by (cases c) (auto simp: code_value_def)

lemma canonical_present: "ea_logical a \<noteq> LT_Null \<Longrightarrow> decode_canonical_row a r = Inr v \<Longrightarrow> present v"
  by (cases "ea_logical a")
    (auto simp: decode_canonical_row_def canonical_at_def ok_iffs simp del: logical_type_debug.simps)

lemma present_row:
  assumes d: "ea_dictionary a = None" and r: "decode_present_row a r = Inr v" and n: "\<not> null_typed a"
  shows "present v"
proof (cases "cascade_values (ea_encoding a) (ea_data a)")
  case (Some vs)
  then have "decode_present_row a r = and_then vs (value_from_i64_slice a r)"
    by (cases "ea_encoding a") (simp_all add: decode_present_row_def cascade_values_def)
  then have "and_then vs (value_from_i64_slice a r) = Inr v" using r by simp
  then obtain xs where "value_from_i64_slice a r xs = Inr v" by (auto simp: ok_iffs)
  then show ?thesis by (rule slice_present [OF d])
next
  case None
  then show ?thesis
    using r n d
    by (cases "ea_encoding a")
      (auto simp: decode_present_row_def cascade_values_def varint_at_def varbytes_at_def code_value_def null_typed_def ok_iffs
        simp del: encoding_kind_debug.simps logical_type_debug.simps split: if_splits
        dest: constant_present [OF d] codebook_present [OF d] canonical_present)
qed

lemma present_logical_value:
  assumes "present v" "code_in_dictionary dict v"
  shows "\<exists>b. logical_value (map_option view_len dict) v = Inr (Some b)"
  using assms by (cases v) (auto simp: logical_value_def code_in_dictionary_def validate_filecode_value_def not_le split: option.splits if_splits)

lemma try_map_total:
  assumes "\<And>x. x \<in> set xs \<Longrightarrow> \<exists>y. f x = Inr y"
  obtains ys where "try_map f xs = Inr ys"
proof -
  obtain g where "\<And>x. x \<in> set xs \<Longrightarrow> f x = Inr (g x)" using assms by metis
  then show thesis using that try_map_Ok [of xs f g] by blast
qed

text \<open>The rows of a page whose bitmap marks \<open>null i\<close>.\<close>

lemma logical_rows:
  assumes out: "rows_are a out" and nt: "\<not> null_typed a" and d: "ea_dictionary a = None"
    and c: "list_all (code_in_dictionary dict) out"
    and nul: "\<And>i. i < unat (ea_row_count a) \<Longrightarrow> array_is_null a (of_nat i) = Inr (null i)"
  shows "\<exists>rows. try_map (logical_value (map_option view_len dict)) out = Inr rows \<and> length rows = unat (ea_row_count a) \<and>
    length (filter (\<lambda>v. v = None) rows) = length (filter null [0..<unat (ea_row_count a)])"
proof -
  let ?n = "unat (ea_row_count a)" and ?f = "logical_value (map_option view_len dict)"
  have len: "length out = ?n" using out by (simp add: rows_are_def)
  have row: "null i \<and> out ! i = AV_Null \<or> \<not> null i \<and> present (out ! i)" if i: "i < ?n" for i
  proof -
    have "row_or_null a (of_nat i) (decode_present_row a (of_nat i)) = Inr (out ! i)"
      using out i decode_row_eq [OF i] by (simp add: rows_are_def)
    then show ?thesis using nul [OF i] present_row [OF d _ nt] by (auto simp: row_or_null_def split: if_splits)
  qed
  have val: "\<exists>v. ?f (out ! i) = Inr v \<and> (v = None \<longleftrightarrow> null i)" if i: "i < ?n" for i
  proof -
    have "code_in_dictionary dict (out ! i)" using c i len by (simp add: list_all_length)
    then show ?thesis using row [OF i] present_logical_value by (fastforce simp: logical_value_def)
  qed
  have "\<exists>y. ?f x = Inr y" if "x \<in> set out" for x using that val len by (metis in_set_conv_nth)
  then obtain rows where t: "try_map ?f out = Inr rows" by (rule try_map_total)
  have l: "length rows = ?n" using try_map_length [OF t] len by simp
  have "rows ! i = None \<longleftrightarrow> null i" if i: "i < ?n" for i
    using val [OF i] try_map_nth [OF t, of i] i len by auto
  then have "filter (\<lambda>i. rows ! i = None) [0..<?n] = filter null [0..<?n]" by (intro filter_cong) simp_all
  moreover have "length (filter (\<lambda>v. v = None) rows) = length (filter (\<lambda>i. rows ! i = None) [0..<?n])"
    using arg_cong [OF map_nth [of rows], of "\<lambda>r. length (filter (\<lambda>v. v = None) r)"] l by (simp add: filter_map comp_def)
  ultimately show ?thesis using t l by auto
qed

text \<open>
  A materialized page is a core page, so two calls are enough: a registered page is validated as
  the core page it is materialized to, whatever the fuel above two. A page in memory is shorter than
  the address space.
\<close>

lemma fallback_not_registered: "fallback_encoding_kind k \<noteq> EK_RegisteredEncoding"
  by (cases k) simp_all

lemma with_fallback_some: "with_fallback fb = Inr (Some m) \<Longrightarrow> fb = Some (mt_payload m)"
  by (auto simp: with_fallback_def split: option.splits)

lemma exit_sum_cases:
  obtains e where "r = Inl (Err e)" | "r = Inl Panic" | x where "r = Inr x"
  by (metis exit.exhaust sumE)

lemma with_decoded_some:
  "with_decoded crc logical physical dl fb fl answer = Inr (Some m) \<Longrightarrow>
    fb = Some (mt_payload m) \<or> (\<exists>q. logical_page_to_column_payload crc q logical physical dl = Inr (mt_payload m))"
  by (cases answer rule: exit_sum_cases) (auto simp: with_decoded_def ok_iffs split: if_splits option.splits dest: with_fallback_some)

lemma materialized_core:
  assumes m: "materialize_registered_page_payload crc resolver payload page logical physical ds dl = Inr (Some m)"
    and l: "length (pl_data (mt_payload m)) < usize_limit"
  obtains r where "root_node (mt_payload m) = Inr r" "en_encoding_kind r \<noteq> EK_RegisteredEncoding"
proof -
  have fb: "\<exists>r. root_node p = Inr r \<and> en_encoding_kind r \<noteq> EK_RegisteredEncoding"
    if "parse_fallback_payload crc payload e page logical physical = Inr p" for e p
    using that by (auto simp: parse_fallback_payload_def ok_iffs split: if_splits)
  have wr: "\<exists>r. root_node p = Inr r \<and> en_encoding_kind r \<noteq> EK_RegisteredEncoding"
    if w: "logical_page_to_column_payload crc q logical physical dl = Inr p" and k: "length (pl_data p) < usize_limit" for p q
  proof -
    obtain nb vs bs where b: "build_single_node crc (of_nat (length (lp_values q))) (fallback_encoding_kind physical) logical physical nb vs = Inr bs"
      and p: "payload_parse crc bs = Inr p"
      using w by (auto simp: logical_page_to_column_payload_def Let_def ok_iffs split: if_splits)
    have "pl_data p = bs" using p by (auto simp: payload_parse_def payload_parse_with_def ok_iffs)
    then have "p = built_payload crc (of_nat (length (lp_values q))) 0
        [single_node (of_nat (length (lp_values q))) (fallback_encoding_kind physical) logical physical (length (single_buffers nb vs))] (single_buffers nb vs)"
      using build_single_node_parses [OF b] p k by simp
    then show ?thesis
      using root_node_built [of "single_node (of_nat (length (lp_values q))) (fallback_encoding_kind physical) logical physical (length (single_buffers nb vs))" 0]
      by (simp add: single_node_def fallback_not_registered)
  qed
  have "(\<exists>e. parse_fallback_payload crc payload e page logical physical = Inr (mt_payload m)) \<or>
      (\<exists>q. logical_page_to_column_payload crc q logical physical dl = Inr (mt_payload m))"
    using m by (fastforce simp: materialize_registered_page_payload_def ok_iffs split: if_splits option.splits
        dest: with_fallback_some with_decoded_some)
  then have "\<exists>r. root_node (mt_payload m) = Inr r \<and> en_encoding_kind r \<noteq> EK_RegisteredEncoding" using fb wr [OF _ l] by blast
  then show thesis using that by blast
qed

lemma validate_page_loop_fuel:
  assumes "\<And>m. materialize_registered_page_payload crc resolver payload page (pvc_logical_type ctx) (pvc_physical_kind ctx)
      (pvc_codec_descriptors ctx) (map_option view_len (pvc_dictionary ctx)) = Inr (Some m) \<Longrightarrow>
    length (pl_data (mt_payload m)) < usize_limit"
  shows "validate_page_loop json crc resolver ctx (Suc (Suc n)) page payload =
    validate_column_page_payload_with_registered_codecs json crc resolver ctx page payload"
proof -
  have "validate_page_loop json crc resolver ctx (Suc n) page' (mt_payload m) = validate_page_loop json crc resolver ctx (Suc 0) page' (mt_payload m)"
    if "materialize_registered_page_payload crc resolver payload page (pvc_logical_type ctx) (pvc_physical_kind ctx)
      (pvc_codec_descriptors ctx) (map_option view_len (pvc_dictionary ctx)) = Inr (Some m)" for m page'
    by (rule materialized_core [OF that assms [OF that]]) (simp only: validate_page_loop.simps and_then_simps if_False)
  note same = this
  show ?thesis
    unfolding validate_column_page_payload_with_registered_codecs_def numeral_2_eq_2
      validate_page_loop.simps(2) [of _ _ _ _ "Suc n"] validate_page_loop.simps(2) [of _ _ _ _ "Suc 0"]
    by (intro if_cong and_then_cong refl) (auto simp only: ok_or_eq_Inr_iff same)
qed

section \<open>A page of one core node\<close>

text \<open>The root of a page of a scalar column that is neither rebuilt from statistics nor registered.\<close>

definition plain_root :: "page_validation_context \<Rightarrow> column_page \<Rightarrow> page_payload \<Rightarrow> encoding_node \<Rightarrow> bool" where
  "plain_root ctx page payload root \<longleftrightarrow> pl_nodes payload = [root] \<and> en_encoding_kind root \<noteq> EK_RegisteredEncoding \<and>
     cp_flags page AND PAGE_FLAG_STATS_ONLY_CONSTANT = 0 \<and> pvc_physical_kind ctx \<notin> {PK_List, PK_Struct, PK_Map} \<and>
     length (pl_data payload) < usize_limit \<and> length (pl_buffers payload) < usize_limit"

text \<open>What the validation of such a page has checked.\<close>

lemma validated_core:
  assumes v: "validate_column_page_payload json crc ctx page payload = Inr ()" and r: "plain_root ctx page payload root"
  shows "\<exists>nulls vs. payload_array payload page = Inr \<lparr>ea_logical = pvc_logical_type ctx, ea_physical = pvc_physical_kind ctx,
      ea_row_count = ucast (column_page.cp_row_count page), ea_encoding = en_encoding_kind root,
      ea_validity = map_option (\<lambda>bitmap. bitmap_new bitmap (ucast (column_page.cp_row_count page))) nulls,
      ea_data = vs, ea_dictionary = None\<rparr> \<and> length vs < usize_limit \<and>
    validate_null_bitmap nulls (column_page.cp_row_count page) (Some (cp_null_count page)) = Inr () \<and>
    validate_values_buffer json (pvc_logical_type ctx) (pvc_physical_kind ctx) (en_encoding_kind root)
      (column_page.cp_row_count page) vs (pvc_dictionary ctx) = Inr ()"
proof -
  have f: "pl_nodes payload = [root]" "en_encoding_kind root \<noteq> EK_RegisteredEncoding" "cp_flags page AND PAGE_FLAG_STATS_ONLY_CONSTANT = 0"
    "pvc_physical_kind ctx \<notin> {PK_List, PK_Struct, PK_Map}" "length (pl_data payload) < usize_limit" "length (pl_buffers payload) < usize_limit"
    using r by (simp_all add: plain_root_def)
  obtain root' where r': "root_node payload = Inr root'" "en_encoding_kind root' \<noteq> EK_RegisteredEncoding \<Longrightarrow>
      validate_core_page json ctx page payload root' = Inr ()"
    using v f(3) by (auto simp: validate_column_page_payload_def validate_column_page_payload_with_registered_codecs_def numeral_2_eq_2 ok_iffs
        split: if_splits)
  have "root' = root" using r'(1) f(1) by (auto simp: root_node_def unique_root_def ok_iffs split: if_splits)
  then have core: "validate_core_page json ctx page payload root = Inr ()" and rn: "root_node payload = Inr root" using r' f(2) by simp_all
  obtain tree nulls vs where t: "payload_tree_of payload = Inr tree" and b: "tree_buffer_bytes payload tree PB_NullBitmap = Inr nulls"
    and n: "validate_null_bitmap nulls (column_page.cp_row_count page) (Some (cp_null_count page)) = Inr ()"
    and bv: "tree_buffer_bytes payload tree PB_Values = Inr (Some vs)"
    and vv: "validate_values_buffer json (pvc_logical_type ctx) (pvc_physical_kind ctx) (en_encoding_kind root)
      (column_page.cp_row_count page) vs (pvc_dictionary ctx) = Inr ()"
    and e: "en_logical_type root = pvc_logical_type ctx" "en_physical_kind root = pvc_physical_kind ctx"
    using core f(4) by (auto simp: validate_core_page_def validate_tree_null_bitmap_def ok_iffs split: if_splits)
  have tr: "tree = PTree root (pl_buffers payload) []" by (rule single_tree(1) [OF t f(1,6)])
  have bb: "buffer_bytes payload PB_NullBitmap = Inr nulls" "buffer_bytes payload PB_Values = Inr (Some vs)"
    using root_buffer [OF b [unfolded tr] f(5)] root_buffer [OF bv [unfolded tr] f(5)] .
  have "length vs < usize_limit" using bb(2) f(5) by (auto simp: buffer_bytes_def ok_iffs slice_Ok_iff sub_def split: option.splits if_splits)
  then show ?thesis using bb rn n vv e by (auto simp: payload_array_def)
qed

lemma bitmap_rows:
  assumes v: "validate_null_bitmap nulls n (Some c) = Inr ()"
    and a: "ea_row_count a = ucast n" "ea_validity a = map_option (\<lambda>b. bitmap_new b (ucast n)) nulls"
  obtains null where "\<And>i. i < unat n \<Longrightarrow> array_is_null a (of_nat i) = Inr (null i)" "length (filter null [0..<unat n]) = unat c"
proof (cases nulls)
  case None
  then have "c = 0" using v by (simp add: validate_null_bitmap_def split: if_splits)
  then show ?thesis
    using None a u64_row_less [of _ "ea_row_count a"] by (intro that [of "\<lambda>_. False"]) (simp_all add: array_is_null_def unat_ucast_32_64)
next
  case (Some bs)
  have l: "length bs = (unat n + 7) div 8" and o: "ones bs (unat n) = unat c" using validated_bitmap [of bs n c] v Some by simp_all
  have "array_is_null a (of_nat i) = Inr (stream_bit bs i)" if i: "i < unat n" for i
  proof -
    have u: "unat (of_nat i :: u64) = i" using u64_of_nat [of i "ea_row_count a"] i a(1) by (simp add: unat_ucast_32_64)
    have r: "\<not> ea_row_count a \<le> of_nat i" using u64_row_less [of i "ea_row_count a"] i a(1) by (simp add: unat_ucast_32_64)
    have "i div 8 < length bs" unfolding l using i by linarith
    then show ?thesis using r a Some u by (simp add: array_is_null_def is_null_eq bitmap_new_def)
  qed
  then show ?thesis using o by (intro that [of "stream_bit bs"]) (simp_all add: ones_def)
qed

text \<open>A page of two rows of type \<^verbatim>\<open>Int64\<close>, the second one null.\<close>

definition nullable_page :: column_page where
  "nullable_page = \<lparr>cp_column_id = 3, cp_morsel_id = 0, cp_row_count = 2, cp_non_null_count = 1, cp_null_count = 1,
     cp_encoding_root = ucast (as_encoding_kind EK_NumCode), cp_page_offset = 0, cp_page_length = 0, cp_uncompressed_length = 0,
     cp_stats_ref = 0, cp_flags = 0, cp_checksum = 0\<rparr>"

definition nullable_root :: encoding_node where
  "nullable_root = single_node 2 EK_NumCode LT_Int64 PK_NumCode 2"

definition page_buffer :: "page_buffer_kind \<Rightarrow> u64 \<Rightarrow> u64 \<Rightarrow> buffer_descriptor" where
  "page_buffer kind off len = \<lparr>bd_buffer_id = 0, bd_kind = kind, bd_flags = 0, bd_offset = off, bd_length = len, bd_checksum = 0, bd_reserved = 0\<rparr>"

definition nullable_payload :: page_payload where
  "nullable_payload = \<lparr>pl_header = payload_header_for 2 0 1 2 (36, 66, 130), pl_nodes = [nullable_root],
     pl_buffers = [page_buffer PB_NullBitmap 0 1, page_buffer PB_Values 1 16],
     pl_data = [2, 7, 0, 0, 0, 0, 0, 0, 0, 0, 0, 0, 0, 0, 0, 0, 0]\<rparr>"

definition nullable_context :: page_validation_context where
  "nullable_context = \<lparr>pvc_table_id = None, pvc_segment_id = None, pvc_column_id = 3, pvc_logical_type = LT_Int64,
     pvc_physical_kind = PK_NumCode, pvc_dictionary = None, pvc_zone_stats = None, pvc_codec_descriptors = [], pvc_nested_schema = None\<rparr>"

lemma nullable_plain: "plain_root nullable_context nullable_page nullable_payload nullable_root"
  by (simp add: plain_root_def nullable_context_def nullable_page_def nullable_payload_def nullable_root_def single_node_def usize_limit_def)

lemma nullable_root_node: "root_node nullable_payload = Inr nullable_root"
  by (simp add: root_node_def unique_root_def nullable_payload_def payload_header_for_def nullable_root_def single_node_def)

lemma nullable_tree: "payload_tree_of nullable_payload = Inr (PTree nullable_root (pl_buffers nullable_payload) [])"
  unfolding payload_tree_of_def
  by (subst payload_tree_iff) (simp_all add: nullable_payload_def payload_header_for_def nullable_root_def single_node_def usize_limit_def)

lemma nullable_buffers:
  "tree_buffer_bytes nullable_payload (PTree nullable_root (pl_buffers nullable_payload) []) PB_NullBitmap = Inr (Some [2])"
  "tree_buffer_bytes nullable_payload (PTree nullable_root (pl_buffers nullable_payload) []) PB_Values =
    Inr (Some [7, 0, 0, 0, 0, 0, 0, 0, 0, 0, 0, 0, 0, 0, 0, 0])"
  by (simp_all add: tree_buffer_bytes_def buffer_of_kind_def nullable_payload_def page_buffer_def buffer_bytes_for_descriptor_def
      buffer_descriptor_bytes_def checked_add_def usize_limit_def slice_def)

lemma two_ones: "byte_count_ones 2 = 1"
  by (simp add: byte_count_ones_def upt_rec bit_iff_odd)

lemma two_bitmap_len: "page_bitmap_len 2 = Inr 1"
  by (simp add: page_bitmap_len_def checked_add_word_def)

lemma two_padding: "(2 :: u8) AND NOT (push_bit 2 1 - 1) = 0"
  by (simp add: push_bit_eq_mult)

lemma two_counted: "count_null_bits 0 [2] = Inr 1"
  by (simp add: two_ones checked_add_word_def)

lemma nullable_bitmap: "validate_null_bitmap (Some [2]) 2 (Some 1) = Inr ()"
proof -
  have u: "unat (2 :: u32) mod 8 = 2" by simp
  show ?thesis using two_padding unfolding validate_null_bitmap_def u two_bitmap_len two_counted option.case and_then_simps index_def by simp
qed

lemma nullable_values: "validate_values_buffer json LT_Int64 PK_NumCode EK_NumCode 2 [7, 0, 0, 0, 0, 0, 0, 0, 0, 0, 0, 0, 0, 0, 0, 0] None = Inr ()"
  by (simp add: validate_values_buffer_def validate_numcode_values_def fixed_rows_len_def checked_mul_def usize_limit_def require_len_def)

lemma plain_validation:
  assumes "plain_root ctx page payload root" "root_node payload = Inr root"
  shows "validate_column_page_payload json crc ctx page payload = validate_core_page json ctx page payload root"
  using assms by (simp add: plain_root_def validate_column_page_payload_def validate_column_page_payload_with_registered_codecs_def numeral_2_eq_2)

lemma nullable_valid: "validate_column_page_payload (\<lambda>_. True) (\<lambda>_. 0) nullable_context nullable_page nullable_payload = Inr ()"
proof -
  have f: "en_encoding_kind nullable_root = EK_NumCode" "en_logical_type nullable_root = LT_Int64" "en_physical_kind nullable_root = PK_NumCode"
    "en_logical_len nullable_root = 2" by (simp_all add: nullable_root_def single_node_def)
  show ?thesis
    unfolding plain_validation [OF nullable_plain nullable_root_node]
    by (simp add: validate_core_page_def nullable_tree validate_tree_null_bitmap_def nullable_buffers nullable_bitmap nullable_values f
        nullable_page_def nullable_context_def)
qed

section \<open>Properties\<close>

text \<open>
  C11: A page of one core node that passes the validation is read by the page reader: it has as many
  rows as its page entry declares, and as many nulls as the entry declares, and no file code outside
  the dictionary stops the reader. The page is scalar, neither rebuilt from statistics nor
  registered; the reader takes its fixed-width rows at the width the validation checked; a page of
  the type \<^verbatim>\<open>Null\<close> in the encoding \<^verbatim>\<open>Canonical\<close>, whose every row reads as null, is left out.
\<close>

theorem validated_page_read:
  assumes v: "validate_column_page_payload json crc ctx page payload = Ok ()" and r: "plain_root ctx page payload root"
    and w: "widths_agree (pvc_logical_type ctx) (pvc_physical_kind ctx) (en_encoding_kind root)"
    and n: "\<not> (pvc_logical_type ctx = LT_Null \<and> en_encoding_kind root = EK_Canonical)"
  shows "\<exists>rows. column_payload_to_logical_page payload page (map_option view_len (pvc_dictionary ctx)) = Ok \<lparr>lp_values = rows\<rparr> \<and>
    length rows = unat (column_page.cp_row_count page) \<and> length (filter (\<lambda>v. v = None) rows) = unat (cp_null_count page)"
proof -
  let ?rc = "column_page.cp_row_count page"
  obtain nulls vs a where a: "payload_array payload page = Inr a"
    "a = \<lparr>ea_logical = pvc_logical_type ctx, ea_physical = pvc_physical_kind ctx, ea_row_count = ucast ?rc,
      ea_encoding = en_encoding_kind root, ea_validity = map_option (\<lambda>bitmap. bitmap_new bitmap (ucast ?rc)) nulls,
      ea_data = vs, ea_dictionary = None\<rparr>"
    and l: "length vs < usize_limit" and nb: "validate_null_bitmap nulls ?rc (Some (cp_null_count page)) = Inr ()"
    and vv: "validate_values_buffer json (pvc_logical_type ctx) (pvc_physical_kind ctx) (en_encoding_kind root) ?rc vs (pvc_dictionary ctx) = Inr ()"
    using validated_core [OF v r] by blast
  obtain null where null: "\<And>i. i < unat ?rc \<Longrightarrow> array_is_null a (of_nat i) = Inr (null i)"
    "length (filter null [0..<unat ?rc]) = unat (cp_null_count page)"
    by (rule bitmap_rows [OF nb, of a]) (simp_all add: a(2))
  have rc: "unat (ea_row_count a) = unat ?rc" by (simp add: a(2) unat_ucast_32_64)
  have cov: "rows_covered a" using null(1) rc by (simp add: rows_covered_def is_ok_iff)
  have pf: "page_array_for a (pvc_logical_type ctx) (pvc_physical_kind ctx) (en_encoding_kind root) ?rc vs"
    using cov l by (simp add: page_array_for_def a(2))
  obtain out where out: "decode_all_rows a = Inr out" "list_all (code_in_dictionary (pvc_dictionary ctx)) out"
    using validated_rows [OF vv pf w] by blast
  have "rows_are a out" using array_reads [OF out(1) _ cov] l by (simp add: a(2))
  then show ?thesis
    using logical_rows [of a out "pvc_dictionary ctx" null] out null n a(1) rc by (auto simp: column_payload_to_logical_page_def null_typed_def a(2))
qed

theorem validated_page_read_witness:
  "\<exists>rows. column_payload_to_logical_page nullable_payload nullable_page None = Ok \<lparr>lp_values = rows\<rparr> \<and>
    length rows = 2 \<and> length (filter (\<lambda>v. v = None) rows) = 1"
  using validated_page_read [OF nullable_valid nullable_plain]
  by (simp add: widths_agree_def nullable_context_def nullable_root_def single_node_def nullable_page_def)

end
