(* ===== verification/Spec2Isabelle.thy ===== *)
theory Spec2Isabelle
  imports Header Postscript Footer Table_Catalog Page_Payload Nested Collation Composite Topn Sort_Keys Compression Dictionary Segments Overrides Local_Codebook Validity Canonical Pruning_Sound Encoded_Array Nested_Schema Registered_Page Page_Validation
begin

text \<open>
  COVE is a columnar file format; its reference implementation is the Rust crate
  \<^verbatim>\<open>crates/cove-core\<close>. This development models the byte-level core of that crate: what a
  reader accepts, what a writer produces, and what may be concluded from the statistics and
  indexes of a file without reading its rows.

  How the parts fit together. A file starts with a header and ends with a postscript that
  locates the footer; the footer is the directory of sections. A table catalogue names tables
  and columns; a segment index cuts the rows of each table into segments; a segment cuts its
  rows into morsels and each of its columns into pages, one for each morsel. A page is an
  encoding cascade of values with an optional null bitmap. Beside the data lie column domains,
  zone statistics and optional indexes, from which the pruning explanations decide whether a
  zone can hold a row the query wants. Canonical values give every value one byte identity.

  Theories and sources (paths under \<^verbatim>\<open>crates/cove-core/src\<close>):

  \<^item> \<^verbatim>\<open>Cove_Prelude\<close>: outcomes of a Rust call, machine sizes, byte ranges, little-endian words,
    loops over arrays and neighbours; the collections \<^verbatim>\<open>wire_simps\<close>, \<^verbatim>\<open>ok_iffs\<close> and
    \<^verbatim>\<open>no_panic_intros\<close>.
  \<^item> \<^verbatim>\<open>Cove_Error\<close> (\<^verbatim>\<open>error.rs\<close>), \<^verbatim>\<open>Constants\<close> and \<^verbatim>\<open>Section_Kinds\<close> (\<^verbatim>\<open>constants.rs\<close>), \<^verbatim>\<open>Types\<close>
    (\<^verbatim>\<open>types.rs\<close>): the error type with its codes and rendering, every enumeration with its
    parse table, the pairing of logical and physical types.
  \<^item> \<^verbatim>\<open>Wire\<close> (\<^verbatim>\<open>wire.rs\<close>, \<^verbatim>\<open>checksum.rs\<close>, \<^verbatim>\<open>row_ref.rs\<close>): LEB128, ZigZag, checked reads; the
    codec contracts \<^verbatim>\<open>fixed_codec\<close>, \<^verbatim>\<open>fixed_reader\<close>, \<^verbatim>\<open>exact_reader\<close> and \<^verbatim>\<open>delimited_codec\<close>.
    \<^verbatim>\<open>Exact_Codec\<close> adds \<^verbatim>\<open>exact_fixed\<close>, whose arrays are read back exactly.
  \<^item> \<^verbatim>\<open>Encodings\<close>, \<^verbatim>\<open>Runs\<close>, \<^verbatim>\<open>Overrides\<close>, \<^verbatim>\<open>Bit_Packed\<close>, \<^verbatim>\<open>Local_Codebook\<close> (\<^verbatim>\<open>encoding/*.rs\<close>): the
    cascades PlainFixed, PlainVarint, Constant, Delta, FrameOfReference; RLE and RunEnd; Sparse
    and PatchedBase; BitPacked; LocalCodebook. The contracts \<^verbatim>\<open>encoding\<close> and
    \<^verbatim>\<open>wire_encoding\<close> state what a decoder owes to its parser.
  \<^item> \<^verbatim>\<open>Header\<close>, \<^verbatim>\<open>Metadata\<close>, \<^verbatim>\<open>Postscript\<close>, \<^verbatim>\<open>Footer\<close> (the files of the same names): the file
    structure, with the two readers of the tail.
  \<^item> \<^verbatim>\<open>Table_Catalog\<close> (\<^verbatim>\<open>table.rs\<close>), \<^verbatim>\<open>Page_Index\<close> (\<^verbatim>\<open>page.rs\<close>), \<^verbatim>\<open>Segments\<close> (\<^verbatim>\<open>segment.rs\<close>): the
    catalogue, the page index with its flag rules, segments and morsels.
  \<^item> \<^verbatim>\<open>Validity\<close> (\<^verbatim>\<open>validity.rs\<close>) and \<^verbatim>\<open>Canonical\<close> (\<^verbatim>\<open>canonical.rs\<close>): the null bitmap and the
    canonical encoding of values.
  \<^item> \<^verbatim>\<open>Domain\<close> (\<^verbatim>\<open>domain.rs\<close>), \<^verbatim>\<open>Zone_Stats\<close> (\<^verbatim>\<open>zone_stats.rs\<close>), \<^verbatim>\<open>Index_Common\<close>, \<^verbatim>\<open>Exact_Set\<close>,
    \<^verbatim>\<open>Bloom\<close>, \<^verbatim>\<open>Inverted\<close>, \<^verbatim>\<open>Lookup\<close> (\<^verbatim>\<open>index/*.rs\<close>): domains, statistics and indexes.
  \<^item> \<^verbatim>\<open>Predicate_Outcome\<close> (\<^verbatim>\<open>predicate.rs\<close>), \<^verbatim>\<open>Pruning\<close> and \<^verbatim>\<open>Pruning_Sound\<close> (\<^verbatim>\<open>pruning.rs\<close>): the
    outcome algebra, the explanations, and the proof that a verdict of no match is right.
  \<^item> \<^verbatim>\<open>Page_Payload\<close> (page_payload.rs): the payload of one column page. Header, encoding
    nodes and buffer descriptors are the fixed-width entries of \<^verbatim>\<open>Exact_Codec\<close>; the container
    parser is shown to accept exactly the payloads that satisfy its rules, the walk
    \<^verbatim>\<open>parse_payload_subtree\<close> to return exactly the tree whose preorder is the node list
    (one unit of fuel per node is enough), and \<^verbatim>\<open>build_tree\<close> to write pages that are read
    back as the tree that was written.
  \<^item> \<^verbatim>\<open>Compression\<close> (compression.rs): codec dispatch of sections and pages over the parameter
    \<^verbatim>\<open>coders\<close>; the round trip holds under the laws \<^verbatim>\<open>coder_laws\<close>, which state what the two
    crates document.
  \<^item> \<^verbatim>\<open>Dictionary\<close> (dictionary.rs): the file dictionary. The lazy view and the parsed dictionary
    decode the same values, and \<^verbatim>\<open>from_keys\<close> gives each key the number of smaller keys as its
    file code.
  \<^item> \<^verbatim>\<open>Nested\<close> (encoding/nested.rs): list, struct and map layouts. The payload parsers are
    exact, and the offsets of an accepted layout cut its children into consecutive rows.
  \<^item> \<^verbatim>\<open>Cursor\<close>: what a sequential parser has read, as the relation \<open>reads\<close> between positions
    and bytes.
  \<^item> \<^verbatim>\<open>Collation\<close> (collation.rs): comparison under a collation is a total order of keys, and the
    registry parser is exact.
  \<^item> \<^verbatim>\<open>Composite\<close>, \<^verbatim>\<open>Topn\<close>, \<^verbatim>\<open>Sort_Keys\<close> (index/composite.rs, index/topn.rs, sort.rs): three
    small summaries, exact or with their round trips.
  \<^item> \<^verbatim>\<open>Encoded_Array\<close> (array.rs): reading the rows of a page. The access to one row, to
    all rows and the prepared access agree on every page that can be read whole.
  \<^item> \<^verbatim>\<open>Nested_Schema\<close> (nested_schema.rs): the trees that describe nested columns. The
    recursive parser is exact (its fuel, one more than the bytes of the section, is never used
    up), and the check against a catalogue is characterised.
  \<^item> \<^verbatim>\<open>Codec_Descriptor\<close>, \<^verbatim>\<open>Row_Codec\<close> (codec.rs and cove-codec/src/lib.rs): descriptors and envelopes
    of registered codecs with exact parsers, the row payload of the stable codecs with its round
    trip, and the two resolvers, which agree.
  \<^item> \<^verbatim>\<open>Registered_Page\<close> (codec.rs, page_payload.rs): the materialization of a registered page, over
    any resolver. Rows written as a core payload are read back; a page written with a fallback is
    read back by readers with and without the codec; with a fallback, the rows handed out are
    always the rows of the fallback.
  \<^item> \<^verbatim>\<open>Page_Values\<close> (page_validation.rs): the rules for the values of a page, one per encoding.
    Values that pass them are read whole, with every file code in the dictionary; \<^verbatim>\<open>PlainFixed\<close> rows of
    NumCodes are the exception, validated as eight bytes and read at the width of the logical type.
  \<^item> \<^verbatim>\<open>Stats_Only\<close> (page_validation.rs): pages without a payload. What is rebuilt from the page
    entry and its zone entry reads as nulls or as copies of the one value of the zone, and the
    validator accepts exactly the pages that can be rebuilt, booleans kept as NumCodes apart.
  \<^item> \<^verbatim>\<open>Page_Validation\<close> (page_validation.rs): a whole page. Its null bitmap, its tree, the layouts of
    lists, structs and maps and the schema, and its values. The walk of a tree recurses on the
    children, so it ends; a registered page is validated as the core page it is materialized to,
    which is never registered again, so two rounds of fuel are enough (\<open>validate_page_loop_fuel\<close>,
    for materialized pages shorter than the address space). A page of one core node that passes
    is read with the rows and the nulls its page entry declares.
  How the code is translated. A Rust function keeps its name where it can, methods carry their
  type's name as a prefix, and the fields of a struct are the fields of a record with a short
  prefix. \<^verbatim>\<open>Result<T, CoveError>\<close> is a sum whose left side is an error of the format or a panic;
  an index or slice out of range, an unwrap of nothing and an arithmetic overflow that the code
  does not check are panics, as with overflow checks on. Words keep their width; \<^verbatim>\<open>usize\<close> is a
  natural number below \<^verbatim>\<open>2 ^ 64\<close> and checked operations fail at that limit. Byte buffers are
  lists of bytes; strings of the format are their UTF-8 bytes. A loop is a structural recursion
  or a map that stops at the first error, except the halving loop of the binary search and the
  writer of LEB128, which have measures; the LEB128 reader stops at the tenth byte by the
  guard of the code. Only the walk of a payload's node list takes fuel, one more than there
  are nodes, and \<^verbatim>\<open>page_tree_is_preorder\<close> shows that this is enough. Running
  out of memory is not modelled; the decompression buffers, whose length the file alone decides,
  panic above \<^verbatim>\<open>isize::MAX\<close> as in the code, and other reservations are taken to succeed.

  Parameters of the model, the code outside the repository: \<^verbatim>\<open>crc\<close> is CRC32C (the crate
  crc32c), any function from bytes to words; \<^verbatim>\<open>json\<close> is the acceptance test of serde_json;
  the note that renders a float in an explanation is a function of its bits; the LZ4 and
  Zstandard coders are pairs of functions. Floats are their bit patterns with the comparisons
  of IEEE 754 written out.

  What the lemmas show. For each format: the parser never panics, what it accepts is exactly
  what the serializer writes for a well-formed value (\<^verbatim>\<open>*_parse_exact\<close>, \<^verbatim>\<open>*_parse_iff\<close>), and a
  written value is read back. For each cascade: decoding gives the rows the payload stands
  for, the fast and the canonical decoder agree, and packing refuses values that do not fit.
  For the canonical values: the encoding is injective and accepted by the validator. For
  segments: the accepted ranges tile the rows of a table, morsels tile the rows of a segment,
  and the pages of a column stand for the morsels one to one. For the indexes: a lookup after
  an insertion or a parse gives the stored answer, and a filter has no false negatives. For
  pruning: a verdict of no match (all match) holds for every row of a zone that the
  statistics, domains and indexes describe; AND and OR keep outcomes sound, and NOT does
  unless a row of a zone proven free of matches is UNKNOWN.
  The section of properties in each theory holds the main ones.

  Not modelled, and why: the reader and writer objects, memory maps and command lines (input
  and output around the sections modelled here); compression inside the zstd and lz4 crates
  and the hash functions of the digests (third-party code); sidecar artifacts, profiles and
  the crates above \<^verbatim>\<open>cove-core\<close> (query engines, adapters, conformance corpora), which are
  programs of their own on top of this format; sharing of buffers (\<^verbatim>\<open>retained_bytes.rs\<close>), which
  does not change what is read; the depth of the call stack. Of cove-core
  itself: the walk of a segment's pages in
  \<^verbatim>\<open>TableSegmentPayloadV1::parse_inner\<close>, aggregate synopses, digest, redaction and feature
  rules, and the native page kernels, which are left for size.
\<close>

section \<open>Properties that span components\<close>

text \<open>
  C17: Reading a page is safe whatever its bytes: for every encoding cascade
  of the library, parsing arbitrary bytes and decoding the payload either returns
  rows or an error of the format, and never panics.
\<close>

theorem pages_never_panic:
  "no_panic (and_then (plain_fixed_parse bs) plain_fixed_decode) \<and>
   no_panic (and_then (plain_varint_parse bs) plain_varint_decode) \<and>
   no_panic (and_then (constant_parse bs) constant_canonical_decode) \<and>
   no_panic (and_then (delta_parse bs) delta_decode) \<and>
   no_panic (and_then (for_parse bs) for_decode) \<and>
   no_panic (and_then (rle_parse bs) rle_canonical_decode) \<and>
   no_panic (and_then (run_end_parse bs) run_end_decode) \<and>
   no_panic (and_then (bit_packed_parse bs) bit_packed_canonical_decode) \<and>
   no_panic (and_then (sparse_parse bs) sparse_decode) \<and>
   no_panic (and_then (patched_base_parse bs) patched_base_decode) \<and>
   no_panic (and_then (local_codebook_parse bs) local_codebook_decode)"
proof (intro conjI)
  show "no_panic (and_then (run_end_parse bs) run_end_decode)"
    by (rule no_panic_and_then) (auto intro: run_end.decode_no_panic run_end_parse_Ok)
  show "no_panic (and_then (sparse_parse bs) sparse_decode)"
    by (rule no_panic_and_then) (auto intro: sparse.decode_no_panic sparse_parse_Ok)
  show "no_panic (and_then (patched_base_parse bs) patched_base_decode)"
    by (rule no_panic_and_then) (auto intro: patched_base.decode_no_panic patched_base_parse_Ok)
  show "no_panic (and_then (local_codebook_parse bs) local_codebook_decode)"
    by (rule no_panic_and_then) (auto intro: local_codebook.decode_no_panic local_codebook_parse_Ok)
qed (rule plain_fixed.read_page_no_panic plain_varint.read_page_no_panic const_enc.read_page_no_panic
  delta.read_page_no_panic frame_of_reference.read_page_no_panic rle.read_page_no_panic
  bit_packed.read_page_no_panic)+

lemma no_panic_segment_index_parse: "no_panic (segment_index_parse crc bs)"
proof -
  have r: "no_panic (rows_contiguous n es)" for n es
    by (induction es arbitrary: n) (auto intro!: no_panic_intros)
  have t: "no_panic (tables_contiguous ess)" for ess
    by (induction ess) (auto intro!: no_panic_intros r)
  have p: "no_panic (parse_array (segment_index_entry_parse crc) TABLE_SEGMENT_INDEX_ENTRY_LEN n bs 8)"
    if "8 + n * TABLE_SEGMENT_INDEX_ENTRY_LEN \<le> length bs" for n
    using segment_index_entry.parse_array_no_panic [of 8 n bs] that by (simp add: TABLE_SEGMENT_INDEX_ENTRY_LEN_def)
  show ?thesis
    unfolding segment_index_parse_def
    by (auto simp: Let_def segment_index_validate_def ok_iffs checked_mul_eq_Some_iff checked_add_eq_Some_iff not_less
        intro!: no_panic_intros t p)
qed

lemma no_panic_morsels_parse: "no_panic (morsels_parse crc bs n)"
proof -
  have v: "no_panic (morsels_validate_loop next seen es)" for "next" seen es
    by (induction es arbitrary: "next" seen) (auto intro!: no_panic_intros)
  have p: "no_panic (parse_array (row_morsel_parse crc) ROW_MORSEL_ENTRY_LEN (unat n) bs 0)"
    if "unat n * ROW_MORSEL_ENTRY_LEN \<le> length bs"
    using row_morsel.parse_array_no_panic [of 0 "unat n" bs] that by (simp add: ROW_MORSEL_ENTRY_LEN_def)
  show ?thesis
    unfolding morsels_parse_def morsels_validate_def
    by (auto simp: ok_iffs checked_mul_eq_Some_iff not_less intro!: no_panic_intros v p)
qed

lemma no_panic_nested_payloads:
  "no_panic (list_payload_parse bs)" "no_panic (struct_payload_parse bs)" "no_panic (map_payload_parse bs)"
proof -
  have k: "no_panic (map_keys_loop bs n pos)" for n pos
    by (induction n arbitrary: pos) (auto intro!: no_panic_intros split: prod.splits)
  show "no_panic (list_payload_parse bs)" "no_panic (struct_payload_parse bs)" "no_panic (map_payload_parse bs)"
    unfolding list_payload_parse_def struct_payload_parse_def map_payload_parse_def
    by (auto simp: index_def slice_Ok intro!: no_panic_intros k split: prod.splits)
qed

lemma no_panic_tails: "no_panic (parse_from_tail crc bs)" "no_panic (parse_from_tail_bytes crc bs)"
  unfolding parse_from_tail_def parse_from_tail_bytes_def
  by (auto simp: Let_def slice_from_def slice_def POSTSCRIPT_TOTAL_SIZE_def POSTSCRIPT_TAIL_SIZE_def POSTSCRIPT_SIZE_def
      intro!: no_panic_intros)

text \<open>
  C16: No bytes make a reader of a section panic. For every section of a file whose parser is
  modelled (header, postscript by either tail reader, footer, table catalogue, segment index, morsel
  directory, page index, page payload, nested payloads, collation registry, column domain, zone
  statistics, exact set, Bloom filter, inverted index, lookup index, composite index, top-N
  summary), the parser returns a value or an error of the format whatever it is given; no index,
  slice or arithmetic of theirs can abort the process.
\<close>

theorem sections_never_panic:
  "no_panic (header_parse crc bs) \<and> no_panic (parse_from_tail crc bs) \<and> no_panic (parse_from_tail_bytes crc bs) \<and>
   no_panic (footer_parse json bs) \<and> no_panic (catalog_parse bs) \<and> no_panic (segment_index_parse crc bs) \<and>
   no_panic (morsels_parse crc bs n) \<and> no_panic (column_page_index_parse crc bs) \<and> no_panic (payload_parse crc bs) \<and>
   no_panic (list_payload_parse bs) \<and> no_panic (struct_payload_parse bs) \<and> no_panic (map_payload_parse bs) \<and>
   no_panic (registry_parse bs) \<and> no_panic (column_domain_parse crc bs) \<and> no_panic (zone_section_parse bs) \<and>
   no_panic (exact_set_parse crc bs) \<and> no_panic (bloom_filter_parse crc bs) \<and> no_panic (inverted_parse crc bs) \<and>
   no_panic (lookup_parse crc bs) \<and> no_panic (composite_parse crc bs) \<and> no_panic (topn_parse crc bs)"
proof (intro conjI)
  show "no_panic (zone_section_parse bs)"
    by (auto simp: zone_section_parse_def intro!: no_panic_intros)
  show "no_panic (registry_parse bs)"
    by (auto simp: registry_parse_def intro!: no_panic_intros split: prod.splits)
  show "no_panic (topn_parse crc bs)"
    by (cases "length bs < 40") (auto simp: topn_parse_short topn_parse_reads intro!: no_panic_intros)
  show "no_panic (column_page_index_parse crc bs)" by (rule no_panic_column_page_index_parse)
  show "no_panic (footer_parse json bs)" by (rule no_panic_footer_parse)
qed (simp_all add: no_panic_segment_index_parse no_panic_morsels_parse no_panic_nested_payloads no_panic_tails)

end
